(* ===== verification/Prelude.thy ===== *)
theory Prelude
  imports Complex_Main "HOL-Library.AList" "HOL-Library.Sublist" "HOL-Library.Char_ord"
    "HOL-Library.List_Lexorder"
begin

text \<open>
  The shared vocabulary of the development: Rust's \<open>Result\<close> as a sum type, the containers
  the sources use (hash maps, ordered maps) as association lists, the collections of
  simplification rules the component theories fill, and the two interfaces that several
  components implement: a state machine that keeps an invariant along every run, and a codec
  whose decoder inverts its encoder.
\<close>

named_theorems str_simps \<open>evaluation rules of the Rust string functions\<close>
named_theorems agent_simps \<open>unfolding rules of the agent state operations\<close>
named_theorems toon_simps \<open>unfolding rules of the TOON scanner and parser\<close>

section \<open>Results\<close>

text \<open>\<open>Result<T, E>\<close>: \<open>Err e\<close> is \<open>Inl e\<close>, \<open>Ok x\<close> is \<open>Inr x\<close>.\<close>

abbreviation Ok :: "'a \<Rightarrow> 'e + 'a" where "Ok \<equiv> Inr"
abbreviation Err :: "'e \<Rightarrow> 'e + 'a" where "Err \<equiv> Inl"

text \<open>The \<open>?\<close> operator: stop at an error, go on with the value.\<close>

fun and_then :: "'e + 'a \<Rightarrow> ('a \<Rightarrow> 'e + 'b) \<Rightarrow> 'e + 'b" where
  "and_then (Inl e) f = Inl e"
| "and_then (Inr x) f = f x"

fun ok_or :: "'a option \<Rightarrow> 'e \<Rightarrow> 'e + 'a" where
  "ok_or None e = Inl e"
| "ok_or (Some x) e = Inr x"

fun result_ok :: "'e + 'a \<Rightarrow> 'a option" where
  "result_ok (Inl e) = None"
| "result_ok (Inr x) = Some x"

fun try_map :: "('a \<Rightarrow> 'e + 'b) \<Rightarrow> 'a list \<Rightarrow> 'e + 'b list" where
  "try_map f [] = Inr []"
| "try_map f (x # xs) = and_then (f x) (\<lambda>y. and_then (try_map f xs) (\<lambda>ys. Inr (y # ys)))"

lemma and_then_Inr_iff [simp]: "and_then m f = Inr y \<longleftrightarrow> (\<exists>x. m = Inr x \<and> f x = Inr y)"
  by (cases m) auto

lemma and_then_Inl_iff:
  "and_then m f = Inl e \<longleftrightarrow> m = Inl e \<or> (\<exists>x. m = Inr x \<and> f x = Inl e)"
  by (cases m) auto

lemma ok_or_Inr_iff [simp]: "ok_or m e = Inr x \<longleftrightarrow> m = Some x"
  by (cases m) auto

lemma try_map_Inr_all:
  "(\<And>x. x \<in> set xs \<Longrightarrow> f x = Inr (g x)) \<Longrightarrow> try_map f xs = Inr (map g xs)"
  by (induction xs) auto

lemma try_map_length: "try_map f xs = Inr ys \<Longrightarrow> length ys = length xs"
  by (induction xs arbitrary: ys) auto

section \<open>Containers\<close>

text \<open>
  A \<open>HashMap\<close> is an association list without repeated keys: \<open>map_of\<close> looks a key up,
  \<^const>\<open>AList.update\<close> is \<open>insert\<close> and \<^const>\<open>AList.delete\<close> is \<open>remove\<close>. The order of the
  list is the order in which one iteration of the Rust map yields its entries, which Rust
  leaves unspecified. A \<open>BTreeMap\<close> (\<open>serde_json::Map\<close>) is the same list kept in the order of
  its keys by \<open>btree_insert\<close>.
\<close>

type_synonym ('k, 'v) hmap = "('k \<times> 'v) list"

abbreviation hget :: "('k, 'v) hmap \<Rightarrow> 'k \<Rightarrow> 'v option" where "hget \<equiv> map_of"
abbreviation hinsert :: "'k \<Rightarrow> 'v \<Rightarrow> ('k, 'v) hmap \<Rightarrow> ('k, 'v) hmap" where "hinsert \<equiv> AList.update"
abbreviation hremove :: "'k \<Rightarrow> ('k, 'v) hmap \<Rightarrow> ('k, 'v) hmap" where "hremove \<equiv> AList.delete"
abbreviation hkeys :: "('k, 'v) hmap \<Rightarrow> 'k set" where "hkeys m \<equiv> fst ` set m"
abbreviation hdistinct :: "('k, 'v) hmap \<Rightarrow> bool" where "hdistinct m \<equiv> distinct (map fst m)"

fun btree_insert :: "'k::linorder \<Rightarrow> 'v \<Rightarrow> ('k \<times> 'v) list \<Rightarrow> ('k \<times> 'v) list" where
  "btree_insert k v [] = [(k, v)]"
| "btree_insert k v ((k', v') # m) =
     (if k = k' then (k, v) # m
      else if k < k' then (k, v) # (k', v') # m
      else (k', v') # btree_insert k v m)"

declare map_of_eq_Some_iff [simp del] Some_eq_map_of_iff [simp del]

lemma hget_hinsert [simp]: "hget (hinsert k v m) = (hget m)(k \<mapsto> v)"
  by (rule update_conv')

lemma hget_hremove [simp]: "hget (hremove k m) = (hget m)(k := None)"
  by (rule delete_conv')

lemma hdistinct_hinsert [simp]: "hdistinct m \<Longrightarrow> hdistinct (hinsert k v m)"
  by (rule distinct_update)

lemma hdistinct_hremove [simp]: "hdistinct m \<Longrightarrow> hdistinct (hremove k m)"
  by (rule distinct_delete)

lemma hkeys_hinsert [simp]: "hkeys (hinsert k v m) = insert k (hkeys m)"
  by (simp add: dom_update flip: dom_map_of_conv_image_fst)

lemma hkeys_hremove [simp]: "hkeys (hremove k m) = hkeys m - {k}"
  by (auto simp flip: dom_map_of_conv_image_fst simp: delete_conv')

lemma hkeys_iff_hget: "k \<in> hkeys m \<longleftrightarrow> hget m k \<noteq> None"
  by (simp add: map_of_eq_None_iff)

lemma btree_insert_get [simp]: "map_of (btree_insert k v m) = (map_of m)(k \<mapsto> v)"
  by (induction k v m rule: btree_insert.induct) (auto simp: fun_eq_iff)

lemma btree_insert_keys: "fst ` set (btree_insert k v m) = insert k (fst ` set m)"
  by (induction k v m rule: btree_insert.induct) auto

lemma btree_insert_sorted:
  "sorted (map fst m) \<Longrightarrow> distinct (map fst m)
    \<Longrightarrow> sorted (map fst (btree_insert k v m)) \<and> distinct (map fst (btree_insert k v m))"
proof (induction k v m rule: btree_insert.induct)
  case (2 k v k' v' m)
  have keys: "set (map fst (btree_insert k v m)) = insert k (set (map fst m))"
    using btree_insert_keys [of k v m] by simp
  with 2 show ?case by (auto simp: image_iff)
qed auto

lemma btree_insert_same:
  "sorted (map fst m) \<Longrightarrow> distinct (map fst m) \<Longrightarrow> map_of m k = Some v \<Longrightarrow> btree_insert k v m = m"
proof (induction k v m rule: btree_insert.induct)
  case (2 k v k' v' m)
  then show ?case by (force dest!: map_of_SomeD split: if_splits)
qed simp

section \<open>Machine integers\<close>

text \<open>
  \<open>usize\<close> and \<open>u64\<close> are naturals below \<open>2^64\<close>. In a release build \<open>+\<close> wraps around;
  \<open>saturating_add\<close> and \<open>saturating_mul\<close> stop at the largest value, and \<open>saturating_sub\<close> is the
  subtraction of naturals.
\<close>

definition USIZE_MAX :: nat where "USIZE_MAX = 2 ^ 64 - 1"

definition usize_add :: "nat \<Rightarrow> nat \<Rightarrow> nat" where "usize_add a b = (a + b) mod 2 ^ 64"
definition sat_add :: "nat \<Rightarrow> nat \<Rightarrow> nat" where "sat_add a b = min (a + b) USIZE_MAX"
definition sat_mul :: "nat \<Rightarrow> nat \<Rightarrow> nat" where "sat_mul a b = min (a * b) USIZE_MAX"

text \<open>Evaluation on integers, which are binary, where the naturals are unary.\<close>

lemma usize_add_code [code]: "usize_add a b = nat ((int a + int b) mod 18446744073709551616)"
proof -
  have "int (usize_add a b) = (int a + int b) mod 18446744073709551616"
    by (simp add: usize_add_def zmod_int)
  then show ?thesis by (metis nat_int)
qed

lemma sat_add_code [code]: "sat_add a b = (if int a + int b \<le> 18446744073709551615 then a + b else USIZE_MAX)"
  by (auto simp: sat_add_def USIZE_MAX_def min_def simp flip: of_nat_add)

lemma sat_mul_code [code]: "sat_mul a b = (if int a * int b \<le> 18446744073709551615 then a * b else USIZE_MAX)"
  by (auto simp: sat_mul_def USIZE_MAX_def min_def simp flip: of_nat_mult)

lemma usize_add_small [simp]: "a + b < 2 ^ 64 \<Longrightarrow> usize_add a b = a + b"
  by (simp add: usize_add_def)

section \<open>Interfaces\<close>

text \<open>
  A component with state: operations \<open>step op s\<close> and an invariant that the start state has
  and every operation keeps. Every state a run reaches has it then.
\<close>

locale invariant_machine =
  fixes step :: "'op \<Rightarrow> 's \<Rightarrow> 's"
    and inv :: "'s \<Rightarrow> bool"
    and init :: 's
  assumes inv_init: "inv init"
    and inv_step: "inv s \<Longrightarrow> inv (step op s)"
begin

lemma inv_fold: "inv s \<Longrightarrow> inv (fold step ops s)"
  by (induction ops arbitrary: s) (auto intro: inv_step)

lemma inv_run: "inv (fold step ops init)"
  by (rule inv_fold) (rule inv_init)

end

text \<open>
  A fallible fold: the loop of the sources that applies a fallible operation to each element
  and returns at the first error. An invariant of the operation is an invariant of the loop.
\<close>

fun try_fold :: "('x \<Rightarrow> 's \<Rightarrow> 'e + 's) \<Rightarrow> 'x list \<Rightarrow> 's \<Rightarrow> 'e + 's" where
  "try_fold f [] s = Inr s"
| "try_fold f (x # xs) s = and_then (f x s) (try_fold f xs)"

lemma try_fold_append:
  "try_fold f (xs @ ys) s = and_then (try_fold f xs s) (try_fold f ys)"
proof (induction xs arbitrary: s)
  case (Cons x xs)
  then show ?case by (cases "f x s") auto
qed simp

text \<open>A codec: decoding an encoded value of the domain gives the value back.\<close>

locale codec =
  fixes enc :: "'a \<Rightarrow> 'c"
    and dec :: "'c \<Rightarrow> 'e + 'a"
    and valid :: "'a \<Rightarrow> bool"
  assumes dec_enc: "valid x \<Longrightarrow> dec (enc x) = Inr x"
begin

lemma enc_inject: "valid x \<Longrightarrow> valid y \<Longrightarrow> enc x = enc y \<longleftrightarrow> x = y"
  by (metis Inr_inject dec_enc)

lemma dec_enc_list: "(\<forall>x \<in> set xs. valid x) \<Longrightarrow> try_map dec (map enc xs) = Inr xs"
  by (induction xs) (auto simp: dec_enc)

lemma enc_list_inject:
  "(\<forall>x \<in> set xs. valid x) \<Longrightarrow> (\<forall>y \<in> set ys. valid y) \<Longrightarrow> map enc xs = map enc ys \<longleftrightarrow> xs = ys"
  by (metis Inr_inject dec_enc_list)

end

end
