(* ===== verification/Rust_Str.thy ===== *)
theory Rust_Str
  imports Prelude
begin

text \<open>
  The parts of Rust's \<open>str\<close>, \<open>char\<close> and integer formatting that the sources use. A Rust string
  is its list of UTF-8 bytes, so \<open>length\<close> is \<open>len()\<close>, an index is a byte index, and the ASCII
  functions work byte by byte. The functions that count or cut characters group the bytes
  first (\<open>chars\<close>); \<open>trim\<close> removes the 25 characters of Unicode's \<open>White_Space\<close> property by
  their encodings, which needs no hypothesis that the bytes are valid UTF-8.
\<close>

section \<open>Characters\<close>

abbreviation byte :: "char \<Rightarrow> nat" where "byte c \<equiv> of_char c"

abbreviation QUOTE :: char where "QUOTE \<equiv> CHR 0x22"
abbreviation BACKSLASH :: char where "BACKSLASH \<equiv> CHR 0x5C"
abbreviation NEWLINE :: char where "NEWLINE \<equiv> CHR 0x0A"
abbreviation CARRIAGE_RETURN :: char where "CARRIAGE_RETURN \<equiv> CHR 0x0D"
abbreviation TAB :: char where "TAB \<equiv> CHR 0x09"
abbreviation SPACE :: char where "SPACE \<equiv> CHR 0x20"
abbreviation REPLACEMENT :: string where "REPLACEMENT \<equiv> [CHR 0xEF, CHR 0xBF, CHR 0xBD]"
abbreviation ELLIPSIS :: string where "ELLIPSIS \<equiv> [CHR 0xE2, CHR 0x80, CHR 0xA6]"

definition is_ascii_digit :: "char \<Rightarrow> bool" where
  "is_ascii_digit c \<longleftrightarrow> 48 \<le> byte c \<and> byte c \<le> 57"

definition is_ascii_alphabetic :: "char \<Rightarrow> bool" where
  "is_ascii_alphabetic c \<longleftrightarrow> (65 \<le> byte c \<and> byte c \<le> 90) \<or> (97 \<le> byte c \<and> byte c \<le> 122)"

definition is_ascii_alphanumeric :: "char \<Rightarrow> bool" where
  "is_ascii_alphanumeric c \<longleftrightarrow> is_ascii_digit c \<or> is_ascii_alphabetic c"

definition is_ascii_hexdigit :: "char \<Rightarrow> bool" where
  "is_ascii_hexdigit c \<longleftrightarrow> is_ascii_digit c
     \<or> (65 \<le> byte c \<and> byte c \<le> 70) \<or> (97 \<le> byte c \<and> byte c \<le> 102)"

definition to_ascii_lowercase :: "string \<Rightarrow> string" where
  "to_ascii_lowercase s =
     map (\<lambda>c. if 65 \<le> byte c \<and> byte c \<le> 90 then char_of (byte c + 32) else c) s"

definition eq_ignore_ascii_case :: "string \<Rightarrow> string \<Rightarrow> bool" where
  "eq_ignore_ascii_case a b \<longleftrightarrow> to_ascii_lowercase a = to_ascii_lowercase b"

definition is_cont :: "char \<Rightarrow> bool" where
  "is_cont c \<longleftrightarrow> 128 \<le> byte c \<and> byte c < 192"

text \<open>\<open>str::chars\<close>: each character as the bytes of its encoding.\<close>

function chars :: "string \<Rightarrow> string list" where
  "chars [] = []"
| "chars (c # s) = (c # takeWhile is_cont s) # chars (dropWhile is_cont s)"
  by pat_completeness auto
termination
  by (relation "measure length") (auto simp: le_imp_less_Suc length_dropWhile_le)

definition char_count :: "string \<Rightarrow> nat" where
  "char_count s = length (chars s)"

text \<open>\<open>str::is_char_boundary\<close>; the slice \<open>&s[..n]\<close> panics (\<open>None\<close>) elsewhere.\<close>

definition is_char_boundary :: "string \<Rightarrow> nat \<Rightarrow> bool" where
  "is_char_boundary s n \<longleftrightarrow> n = 0 \<or> n = length s \<or> (n < length s \<and> \<not> is_cont (s ! n))"

definition slice_to :: "string \<Rightarrow> nat \<Rightarrow> string option" where
  "slice_to s n = (if is_char_boundary s n then Some (take n s) else None)"

section \<open>Trimming\<close>

definition ws_chars :: "string list" where
  "ws_chars =
     [[CHR 0x09], [CHR 0x0A], [CHR 0x0B], [CHR 0x0C], [CHR 0x0D], [CHR 0x20],
      [CHR 0xC2, CHR 0x85], [CHR 0xC2, CHR 0xA0], [CHR 0xE1, CHR 0x9A, CHR 0x80],
      [CHR 0xE2, CHR 0x80, CHR 0x80], [CHR 0xE2, CHR 0x80, CHR 0x81],
      [CHR 0xE2, CHR 0x80, CHR 0x82], [CHR 0xE2, CHR 0x80, CHR 0x83],
      [CHR 0xE2, CHR 0x80, CHR 0x84], [CHR 0xE2, CHR 0x80, CHR 0x85],
      [CHR 0xE2, CHR 0x80, CHR 0x86], [CHR 0xE2, CHR 0x80, CHR 0x87],
      [CHR 0xE2, CHR 0x80, CHR 0x88], [CHR 0xE2, CHR 0x80, CHR 0x89],
      [CHR 0xE2, CHR 0x80, CHR 0x8A], [CHR 0xE2, CHR 0x80, CHR 0xA8],
      [CHR 0xE2, CHR 0x80, CHR 0xA9], [CHR 0xE2, CHR 0x80, CHR 0xAF],
      [CHR 0xE2, CHR 0x81, CHR 0x9F], [CHR 0xE3, CHR 0x80, CHR 0x80]]"

text \<open>Remove leading words of a list as long as there is one.\<close>

function strip_words :: "string list \<Rightarrow> string \<Rightarrow> string" where
  "strip_words ws s =
     (case List.find (\<lambda>w. w \<noteq> [] \<and> prefix w s) ws of
        None \<Rightarrow> s
      | Some w \<Rightarrow> strip_words ws (drop (length w) s))"
  by pat_completeness auto
termination
  by (relation "measure (\<lambda>(ws, s). length s)") (auto simp: find_Some_iff prefix_def)

declare strip_words.simps [simp del]

definition trim_start :: "string \<Rightarrow> string" where
  "trim_start s = strip_words ws_chars s"

definition trim_end :: "string \<Rightarrow> string" where
  "trim_end s = rev (strip_words (map rev ws_chars) (rev s))"

definition trim :: "string \<Rightarrow> string" where
  "trim s = trim_end (trim_start s)"

definition is_blank :: "string \<Rightarrow> bool" where
  "is_blank s \<longleftrightarrow> trim s = []"

section \<open>Searching, splitting, joining\<close>

fun find_char :: "char \<Rightarrow> string \<Rightarrow> nat option" where
  "find_char c [] = None"
| "find_char c (d # s) = (if d = c then Some 0 else map_option Suc (find_char c s))"

fun find_str :: "string \<Rightarrow> string \<Rightarrow> nat option" where
  "find_str p [] = (if p = [] then Some 0 else None)"
| "find_str p (c # s) = (if prefix p (c # s) then Some 0 else map_option Suc (find_str p s))"

fun rfind_char :: "char \<Rightarrow> string \<Rightarrow> nat option" where
  "rfind_char c [] = None"
| "rfind_char c (d # s) =
     (case rfind_char c s of
        Some i \<Rightarrow> Some (Suc i)
      | None \<Rightarrow> if d = c then Some 0 else None)"

definition contains_str :: "string \<Rightarrow> string \<Rightarrow> bool" where
  "contains_str s p \<longleftrightarrow> find_str p s \<noteq> None"

text \<open>\<open>str::split\<close> on an ASCII character: the pieces between its occurrences.\<close>

fun split_on :: "char \<Rightarrow> string \<Rightarrow> string list" where
  "split_on c [] = [[]]"
| "split_on c (d # s) =
     (if d = c then [] # split_on c s
      else (case split_on c s of [] \<Rightarrow> [[d]] | p # ps \<Rightarrow> (d # p) # ps))"

fun join :: "string \<Rightarrow> string list \<Rightarrow> string" where
  "join sep [] = []"
| "join sep [x] = x"
| "join sep (x # y # xs) = x @ sep @ join sep (y # xs)"

text \<open>
  \<open>str::lines\<close>: a line ends with \<open>\n\<close> or \<open>\r\n\<close>, and a text that ends with a line ending has
  no further empty line.
\<close>

definition strip_cr :: "string \<Rightarrow> string" where
  "strip_cr s = (if s \<noteq> [] \<and> last s = CARRIAGE_RETURN then butlast s else s)"

definition str_lines :: "string \<Rightarrow> string list" where
  "str_lines s =
     (let ps = split_on NEWLINE s in
      map strip_cr (butlast ps) @ (if last ps = [] then [] else [last ps]))"

definition replace_char :: "char \<Rightarrow> string \<Rightarrow> string \<Rightarrow> string" where
  "replace_char c r s = concat (map (\<lambda>d. if d = c then r else [d]) s)"

section \<open>Numbers as text\<close>

definition digit_char :: "nat \<Rightarrow> char" where
  "digit_char d = char_of (48 + d)"

fun show_nat :: "nat \<Rightarrow> string" where
  "show_nat n = (if n < 10 then [digit_char n] else show_nat (n div 10) @ [digit_char (n mod 10)])"

declare show_nat.simps [simp del]

definition digit_val :: "char \<Rightarrow> nat" where
  "digit_val c = byte c - 48"

definition nat_of_digits :: "string \<Rightarrow> nat" where
  "nat_of_digits s = fold (\<lambda>c n. 10 * n + digit_val c) s 0"

text \<open>
  \<open>str::parse\<close> for \<open>usize\<close> and \<open>u64\<close>: an optional plus sign and at least one digit, and an
  error on overflow of 64 bits.
\<close>

definition parse_u64 :: "string \<Rightarrow> nat option" where
  "parse_u64 s =
     (let ds = (case s of c # r \<Rightarrow> if c = CHR ''+'' then r else s | [] \<Rightarrow> []) in
      if ds \<noteq> [] \<and> list_all is_ascii_digit ds \<and> nat_of_digits ds < 2 ^ 64
      then Some (nat_of_digits ds) else None)"

section \<open>Decoding bytes\<close>

text \<open>
  \<open>String::from_utf8_lossy\<close>: \<open>utf8_next\<close> gives the length of the next character, or the length
  of the longest invalid start of one, which becomes one replacement character.
\<close>

definition utf8_width :: "char \<Rightarrow> nat" where
  "utf8_width c =
     (if byte c < 128 then 1
      else if 194 \<le> byte c \<and> byte c \<le> 223 then 2
      else if 224 \<le> byte c \<and> byte c \<le> 239 then 3
      else if 240 \<le> byte c \<and> byte c \<le> 244 then 4
      else 0)"

definition second_ok :: "char \<Rightarrow> char \<Rightarrow> bool" where
  "second_ok b c \<longleftrightarrow> is_cont c
     \<and> (byte b = 224 \<longrightarrow> 160 \<le> byte c) \<and> (byte b = 237 \<longrightarrow> byte c \<le> 159)
     \<and> (byte b = 240 \<longrightarrow> 144 \<le> byte c) \<and> (byte b = 244 \<longrightarrow> byte c \<le> 143)"

fun utf8_next :: "string \<Rightarrow> nat \<times> bool" where
  "utf8_next [] = (0, True)"
| "utf8_next (b # r) =
     (if utf8_width b = 1 then (1, True)
      else if utf8_width b = 0 then (1, False)
      else if r = [] \<or> \<not> second_ok b (r ! 0) then (1, False)
      else if utf8_width b = 2 then (2, True)
      else if length r < 2 \<or> \<not> is_cont (r ! 1) then (2, False)
      else if utf8_width b = 3 then (3, True)
      else if length r < 3 \<or> \<not> is_cont (r ! 2) then (3, False)
      else (4, True))"

lemma utf8_next_pos: "s \<noteq> [] \<Longrightarrow> 0 < fst (utf8_next s)"
  by (cases s) auto

function from_utf8_lossy :: "string \<Rightarrow> string" where
  "from_utf8_lossy s =
     (if s = [] then []
      else (let n = fst (utf8_next s) in
            (if snd (utf8_next s) then take n s else REPLACEMENT) @ from_utf8_lossy (drop n s)))"
  by pat_completeness auto
termination
  by (relation "measure length") (auto simp: utf8_next_pos)

function valid_utf8 :: "string \<Rightarrow> bool" where
  "valid_utf8 s =
     (if s = [] then True
      else snd (utf8_next s) \<and> valid_utf8 (drop (fst (utf8_next s)) s))"
  by pat_completeness auto
termination
  by (relation "measure length") (auto simp: utf8_next_pos)

declare from_utf8_lossy.simps [simp del] valid_utf8.simps [simp del]

section \<open>Lemmas on characters\<close>

lemma concat_chars [simp]: "concat (chars s) = s"
  by (induction s rule: chars.induct) auto

lemma chars_eq_Nil_iff [simp]: "chars s = [] \<longleftrightarrow> s = []"
  by (cases s) auto

lemma char_count_le: "char_count s \<le> length s"
  unfolding char_count_def
proof (induction s rule: chars.induct)
  case (2 c s)
  then show ?case using length_dropWhile_le [of is_cont s] by simp
qed simp

lemma takeWhile_append_stop:
  "ys = [] \<or> \<not> P (hd ys) \<Longrightarrow> takeWhile P (xs @ ys) = takeWhile P xs"
  by (cases ys) (auto simp: takeWhile_append intro: sym simp: takeWhile_eq_all_conv)

lemma dropWhile_append_stop:
  "ys = [] \<or> \<not> P (hd ys) \<Longrightarrow> dropWhile P (xs @ ys) = dropWhile P xs @ ys"
  by (cases ys) (auto simp: dropWhile_append)

lemma chars_append:
  "t = [] \<or> \<not> is_cont (hd t) \<Longrightarrow> chars (s @ t) = chars s @ chars t"
proof (induction s rule: chars.induct)
  case (2 c s)
  then show ?case by (simp add: takeWhile_append_stop dropWhile_append_stop)
qed simp

text \<open>A character list is well formed when each entry is one encoded character.\<close>

definition one_char :: "string \<Rightarrow> bool" where
  "one_char c \<longleftrightarrow> c \<noteq> [] \<and> \<not> is_cont (hd c) \<and> list_all is_cont (tl c)"

lemma chars_one_char: "one_char c \<Longrightarrow> chars c = [c]"
  by (cases c) (auto simp: one_char_def list_all_iff takeWhile_eq_all_conv dropWhile_eq_Nil_conv)

lemma chars_concat: "list_all one_char cs \<Longrightarrow> chars (concat cs) = cs"
proof (induction cs)
  case (Cons c cs)
  have "concat cs = [] \<or> \<not> is_cont (hd (concat cs))"
    using Cons.prems by (cases cs) (auto simp: one_char_def)
  then have "chars (c @ concat cs) = chars c @ chars (concat cs)" by (rule chars_append)
  with Cons show ?case by (simp add: chars_one_char)
qed simp

lemma one_char_takeWhile: "\<not> is_cont c \<Longrightarrow> one_char (c # takeWhile is_cont s)"
  using set_takeWhileD [of _ is_cont s] by (auto simp: one_char_def list_all_iff)

lemma one_char_chars_tl: "c \<in> set (tl (chars s)) \<Longrightarrow> one_char c"
proof (induction s rule: chars.induct)
  case (2 c' s)
  show ?case
  proof (cases "dropWhile is_cont s")
    case Nil
    with 2(2) show ?thesis by simp
  next
    case (Cons a r)
    then have "\<not> is_cont a" using hd_dropWhile [of is_cont s] by simp
    with Cons 2 show ?thesis by (auto simp: one_char_takeWhile)
  qed
qed simp

lemma one_char_chars:
  assumes "s = [] \<or> \<not> is_cont (hd s)"
  shows "list_all one_char (chars s)"
proof (cases s)
  case (Cons c r)
  with assms have "one_char (c # takeWhile is_cont r)" by (simp add: one_char_takeWhile)
  moreover have "list_all one_char (chars (dropWhile is_cont r))"
    using one_char_chars_tl [of _ s] Cons by (simp add: list_all_iff)
  ultimately show ?thesis using Cons by simp
qed simp

section \<open>Lemmas on trimming\<close>

lemma strip_words_none:
  "\<forall>w \<in> set ws. w \<noteq> [] \<longrightarrow> \<not> prefix w s \<Longrightarrow> strip_words ws s = s"
  by (subst strip_words.simps) (auto split: option.splits simp: find_Some_iff; metis nth_mem)

lemma strip_words_stop: "w \<in> set ws \<Longrightarrow> w \<noteq> [] \<Longrightarrow> \<not> prefix w (strip_words ws s)"
proof (induction ws s rule: strip_words.induct)
  case (1 ws s)
  show ?case
  proof (cases "List.find (\<lambda>w. w \<noteq> [] \<and> prefix w s) ws")
    case None
    then have none: "\<forall>w \<in> set ws. w \<noteq> [] \<longrightarrow> \<not> prefix w s" by (auto simp: find_None_iff)
    then show ?thesis using 1(2,3) by (simp add: strip_words_none)
  next
    case (Some v)
    then show ?thesis using 1 by (subst strip_words.simps) simp
  qed
qed

lemma strip_words_suffix: "suffix (strip_words ws s) s"
proof (induction ws s rule: strip_words.induct)
  case (1 ws s)
  show ?case
  proof (cases "List.find (\<lambda>w. w \<noteq> [] \<and> prefix w s) ws")
    case None
    then show ?thesis by (subst strip_words.simps) simp
  next
    case (Some v)
    then have "suffix (strip_words ws (drop (length v) s)) (drop (length v) s)" by (rule 1)
    with Some show ?thesis
      by (subst strip_words.simps) (auto intro: suffix_order.order_trans suffix_drop)
  qed
qed

lemma strip_words_idem [simp]: "strip_words ws (strip_words ws s) = strip_words ws s"
  by (rule strip_words_none) (auto simp: strip_words_stop)

lemma strip_words_id_prefix:
  assumes "strip_words ws s = s" "prefix t s"
  shows "strip_words ws t = t"
proof (rule strip_words_none, intro ballI impI notI)
  fix w assume "w \<in> set ws" "w \<noteq> []" "prefix w t"
  with assms strip_words_stop [of w ws s] show False
    by (auto dest: prefix_order.trans)
qed

lemma trim_start_idem [simp]: "trim_start (trim_start s) = trim_start s"
  by (simp add: trim_start_def)

lemma trim_end_idem [simp]: "trim_end (trim_end s) = trim_end s"
  by (simp add: trim_end_def)

lemma trim_end_prefix: "prefix (trim_end s) s"
  using strip_words_suffix [of "map rev ws_chars" "rev s"]
  by (simp add: trim_end_def suffix_to_prefix)

lemma trim_start_suffix: "suffix (trim_start s) s"
  by (simp add: trim_start_def strip_words_suffix)

lemma trim_start_trim_end: "trim_start s = s \<Longrightarrow> trim_start (trim_end s) = trim_end s"
  unfolding trim_start_def by (rule strip_words_id_prefix) (auto simp: trim_end_prefix)

lemma trim_idem [simp]: "trim (trim s) = trim s"
  by (simp add: trim_def trim_start_trim_end)

lemma trim_start_trim [simp]: "trim_start (trim s) = trim s"
  by (simp add: trim_def trim_start_trim_end)

lemma trim_end_trim [simp]: "trim_end (trim s) = trim s"
  by (simp add: trim_def)

lemma trim_fixed_iff: "trim s = s \<longleftrightarrow> trim_start s = s \<and> trim_end s = s"
  by (metis trim_def trim_end_trim trim_start_trim)

lemma trim_Nil [simp, str_simps]: "trim_start [] = []" "trim_end [] = []" "trim [] = []"
  by (simp_all add: trim_def trim_start_def trim_end_def strip_words_none)

lemma trim_sublist: "\<exists>a b. s = a @ trim s @ b"
proof -
  obtain a where a: "s = a @ trim_start s" using trim_start_suffix [of s] by (auto simp: suffix_def)
  obtain b where b: "trim_start s = trim s @ b"
    using trim_end_prefix [of "trim_start s"] by (auto simp: trim_def prefix_def)
  have "s = a @ trim s @ b" using a by (simp only: b [symmetric])
  then show ?thesis by blast
qed

text \<open>Blank strings.\<close>

lemma find_ws_SPACE:
  "List.find (\<lambda>w. w \<noteq> [] \<and> prefix w (SPACE # s)) ws_chars = Some [SPACE]"
  by (simp add: ws_chars_def)

lemma trim_start_SPACE [simp]: "trim_start (SPACE # s) = trim_start s"
  unfolding trim_start_def by (subst strip_words.simps) (simp add: find_ws_SPACE)

lemma trim_SPACE [simp]: "trim (SPACE # s) = trim s"
  by (simp add: trim_def)

lemma trim_start_replicate [simp]: "trim_start (replicate n SPACE @ s) = trim_start s"
  by (induction n) auto

lemma trim_replicate [simp]: "trim (replicate n SPACE @ s) = trim s"
  by (induction n) auto

definition ws_first :: "char \<Rightarrow> bool" where
  "ws_first c \<longleftrightarrow> c \<in> hd ` set ws_chars"

definition ws_last :: "char \<Rightarrow> bool" where
  "ws_last c \<longleftrightarrow> c \<in> last ` set ws_chars"

lemma ws_chars_nonempty: "w \<in> set ws_chars \<Longrightarrow> w \<noteq> []"
  by (auto simp: ws_chars_def)

lemma trim_start_Cons: "\<not> ws_first c \<Longrightarrow> trim_start (c # s) = c # s"
  unfolding trim_start_def
  by (rule strip_words_none) (force simp: ws_first_def prefix_Cons)

lemma trim_end_snoc: "\<not> ws_last c \<Longrightarrow> trim_end (s @ [c]) = s @ [c]"
proof -
  assume c: "\<not> ws_last c"
  have "strip_words (map rev ws_chars) (c # rev s) = c # rev s"
  proof (rule strip_words_none, intro ballI impI notI)
    fix w assume "w \<in> set (map rev ws_chars)" "w \<noteq> []" "prefix w (c # rev s)"
    then obtain v where v: "v \<in> set ws_chars" and w: "w = rev v" by auto
    from \<open>w \<noteq> []\<close> \<open>prefix w (c # rev s)\<close> have "hd w = c" by (cases w) auto
    with w have "last v = c" by (simp add: hd_rev)
    with v c show False by (auto simp: ws_last_def)
  qed
  then show ?thesis by (simp add: trim_end_def)
qed

lemma trim_delimited: "\<not> ws_first a \<Longrightarrow> \<not> ws_last z \<Longrightarrow> trim (a # s @ [z]) = a # s @ [z]"
  using trim_end_snoc [of z "a # s"] by (simp add: trim_def trim_start_Cons)

lemma trim_single: "\<not> ws_first a \<Longrightarrow> \<not> ws_last a \<Longrightarrow> trim [a] = [a]"
  using trim_end_snoc [of a "[]"] by (simp add: trim_def trim_start_Cons)

lemma trim_ends:
  "s \<noteq> [] \<Longrightarrow> \<not> ws_first (hd s) \<Longrightarrow> \<not> ws_last (last s) \<Longrightarrow> trim s = s"
  by (metis append_butlast_last_id list.collapse trim_def trim_end_snoc trim_start_Cons)

section \<open>Lemmas on searching and splitting\<close>

lemma find_char_None_iff [simp]: "find_char c s = None \<longleftrightarrow> c \<notin> set s"
  by (induction s) auto

lemma find_char_first: "c \<notin> set a \<Longrightarrow> find_char c (a @ c # b) = Some (length a)"
  by (induction a) auto

lemma find_char_skip:
  "c \<notin> set a \<Longrightarrow> find_char c (a @ b) = map_option (\<lambda>i. i + length a) (find_char c b)"
  by (induction a) (auto simp: option.map_comp comp_def option.map_ident)

lemma find_char_SomeD:
  "find_char c s = Some i \<Longrightarrow> i < length s \<and> s ! i = c \<and> c \<notin> set (take i s)"
  by (induction s arbitrary: i) (auto split: if_splits)

lemma rfind_char_SomeD: "rfind_char c s = Some i \<Longrightarrow> i < length s \<and> s ! i = c"
  by (induction s arbitrary: i) (auto split: option.splits if_splits)

lemma find_str_SomeD:
  "find_str p s = Some i \<Longrightarrow> i \<le> length s \<and> prefix p (drop i s)"
  by (induction p s arbitrary: i rule: find_str.induct) (auto split: if_splits)

lemma split_on_neq_Nil [simp]: "split_on c s \<noteq> []"
  by (cases s) (auto split: list.splits)

lemma split_on_none: "c \<notin> set s \<Longrightarrow> split_on c s = [s]"
  by (induction s) auto

lemma split_on_append:
  "split_on c (a @ b) =
     butlast (split_on c a) @ (last (split_on c a) @ hd (split_on c b)) # tl (split_on c b)"
proof (induction a)
  case (Cons d a)
  then show ?case by (cases "split_on c a") auto
qed simp

lemma split_on_sep: "c \<notin> set a \<Longrightarrow> split_on c (a @ c # b) = a # split_on c b"
  by (simp add: split_on_append split_on_none)

lemma split_on_no_sep: "p \<in> set (split_on c s) \<Longrightarrow> c \<notin> set p"
proof (induction s arbitrary: p)
  case (Cons d s)
  then show ?case by (cases "split_on c s") (auto split: if_splits)
qed simp

lemma join_Cons: "xs \<noteq> [] \<Longrightarrow> join sep (x # xs) = x @ sep @ join sep xs"
  by (cases xs) auto

lemma join_split_on [simp]: "join [c] (split_on c s) = s"
proof (induction s)
  case (Cons d s)
  show ?case
  proof (cases "d = c")
    case True
    with Cons show ?thesis by (simp add: join_Cons)
  next
    case False
    obtain p ps where ps: "split_on c s = p # ps" by (cases "split_on c s") auto
    have "join [c] ((d # p) # ps) = d # join [c] (p # ps)" by (cases ps) auto
    with ps Cons False show ?thesis by simp
  qed
qed simp

lemma split_on_join:
  "xs \<noteq> [] \<Longrightarrow> (\<forall>x \<in> set xs. c \<notin> set x) \<Longrightarrow> split_on c (join [c] xs) = xs"
proof (induction xs)
  case (Cons x xs)
  then show ?case by (cases xs) (auto simp: split_on_none split_on_sep join_Cons)
qed simp

section \<open>Lemmas on numbers\<close>

lemma byte_char_of: "n < 256 \<Longrightarrow> byte (char_of n) = n"
  by (simp add: of_char_of)

lemma digit_char_props:
  "d < 10 \<Longrightarrow> byte (digit_char d) = 48 + d"
  "d < 10 \<Longrightarrow> is_ascii_digit (digit_char d)"
  "d < 10 \<Longrightarrow> digit_val (digit_char d) = d"
  by (auto simp: digit_char_def is_ascii_digit_def digit_val_def)

lemma show_nat_digits: "list_all is_ascii_digit (show_nat n)"
  by (induction n rule: show_nat.induct)
    (subst show_nat.simps, auto simp: digit_char_props)

lemma show_nat_neq_Nil [simp]: "show_nat n \<noteq> []"
  by (subst show_nat.simps) auto

lemma nat_of_digits_append:
  "nat_of_digits (s @ t) = nat_of_digits s * 10 ^ length t + nat_of_digits t"
proof (induction t rule: rev_induct)
  case (snoc c t)
  then show ?case by (simp add: nat_of_digits_def algebra_simps)
qed (simp add: nat_of_digits_def)

lemma nat_of_digits_snoc: "nat_of_digits (s @ [c]) = 10 * nat_of_digits s + digit_val c"
  by (simp add: nat_of_digits_def)

lemma nat_of_digits_show_nat [simp]: "nat_of_digits (show_nat n) = n"
proof (induction n rule: show_nat.induct)
  case (1 n)
  show ?case
  proof (cases "n < 10")
    case True
    then show ?thesis
      by (subst show_nat.simps) (simp add: nat_of_digits_def digit_char_props)
  next
    case False
    with 1 show ?thesis
      by (subst show_nat.simps) (simp add: nat_of_digits_snoc digit_char_props)
  qed
qed

lemma hd_show_nat_digit: "is_ascii_digit (hd (show_nat n))"
  using show_nat_digits [of n] by (cases "show_nat n") auto

lemma parse_u64_show_nat: "n < 2 ^ 64 \<Longrightarrow> parse_u64 (show_nat n) = Some n"
proof -
  assume n: "n < 2 ^ 64"
  have "hd (show_nat n) \<noteq> CHR ''+''"
    using hd_show_nat_digit [of n] by (auto simp: is_ascii_digit_def)
  then have "(case show_nat n of c # r \<Rightarrow> if c = CHR ''+'' then r else show_nat n | [] \<Rightarrow> [])
    = show_nat n"
    by (cases "show_nat n") auto
  with n show ?thesis by (simp add: parse_u64_def show_nat_digits)
qed

lemma nat_of_digits_less: "list_all is_ascii_digit s \<Longrightarrow> nat_of_digits s < 10 ^ length s"
proof (induction s rule: rev_induct)
  case (snoc c s)
  then show ?case by (auto simp: nat_of_digits_snoc is_ascii_digit_def digit_val_def)
qed (simp add: nat_of_digits_def)

text \<open>Up to nineteen digits always fit, so that evaluation needs no large power.\<close>

lemma parse_u64_code [code]:
  "parse_u64 s =
     (let ds = (case s of c # r \<Rightarrow> if c = CHR ''+'' then r else s | [] \<Rightarrow> []) in
      if ds \<noteq> [] \<and> list_all is_ascii_digit ds
      then (if length ds \<le> 19 then Some (nat_of_digits ds)
            else if nat_of_digits ds < 2 ^ 64 then Some (nat_of_digits ds) else None)
      else None)"
proof -
  have "nat_of_digits ds < 2 ^ 64" if "list_all is_ascii_digit ds" "length ds \<le> 19" for ds
  proof -
    have "nat_of_digits ds < 10 ^ length ds" using that(1) by (rule nat_of_digits_less)
    also have "\<dots> \<le> 10 ^ 19" using that(2) by (rule power_increasing) simp
    also have "\<dots> < (2 :: nat) ^ 64" by simp
    finally show ?thesis .
  qed
  then show ?thesis by (auto simp: parse_u64_def Let_def)
qed

lemma parse_u64_bound: "parse_u64 s = Some n \<Longrightarrow> n < 2 ^ 64"
  by (auto simp: parse_u64_def Let_def split: if_splits)

section \<open>Counting characters\<close>

lemma chars_dropWhile_cont: "char_count (dropWhile is_cont s) \<le> char_count s"
proof (cases s)
  case (Cons c r)
  then show ?thesis
    by (cases "is_cont c") (auto simp: char_count_def)
qed (simp add: char_count_def)

lemma char_count_append_le: "char_count (s @ t) \<le> char_count s + char_count t"
proof (induction s rule: chars.induct)
  case (2 c s)
  show ?case
  proof (cases "\<forall>d \<in> set s. is_cont d")
    case True
    then have "dropWhile is_cont (s @ t) = dropWhile is_cont t" "dropWhile is_cont s = []"
      by auto
    then show ?thesis using chars_dropWhile_cont [of t] by (simp add: char_count_def)
  next
    case False
    then have "dropWhile is_cont (s @ t) = dropWhile is_cont s @ t" by auto
    with 2 show ?thesis by (simp add: char_count_def)
  qed
qed (simp add: char_count_def)

lemma char_count_one: "c \<in> set (chars s) \<Longrightarrow> char_count c \<le> 1"
proof (induction s rule: chars.induct)
  case (2 b s)
  have "dropWhile is_cont (takeWhile is_cont s) = []"
    by (auto dest: set_takeWhileD)
  with 2 show ?case by (auto simp: char_count_def)
qed simp

lemma char_count_concat_le: "(\<forall>c \<in> set cs. char_count c \<le> 1) \<Longrightarrow> char_count (concat cs) \<le> length cs"
proof (induction cs)
  case (Cons c cs)
  then show ?case using char_count_append_le [of c "concat cs"] by simp
qed (simp add: char_count_def)

section \<open>Lemmas on decoding bytes\<close>

lemma utf8_next_append:
  assumes "s \<noteq> []" "snd (utf8_next s)"
  shows "utf8_next (s @ t) = utf8_next s"
proof -
  obtain b r where s: "s = b # r" using assms(1) by (cases s) auto
  consider "r = []" | c where "r = [c]" | c d where "r = [c, d]" | c d e q where "r = c # d # e # q"
    by (metis list.exhaust)
  then show ?thesis using assms(2) unfolding s
    by cases (simp_all split: if_split_asm)
qed

lemma utf8_next_le:
  assumes "snd (utf8_next s)"
  shows "fst (utf8_next s) \<le> length s"
proof (cases s)
  case (Cons b r)
  consider "r = []" | c where "r = [c]" | c d where "r = [c, d]" | c d e q where "r = c # d # e # q"
    by (metis list.exhaust)
  then show ?thesis using assms unfolding Cons
    by cases (simp_all split: if_split_asm)
qed simp

lemma from_utf8_lossy_Nil [simp]: "from_utf8_lossy [] = []"
  by (simp add: from_utf8_lossy.simps)

lemma valid_utf8_Nil [simp]: "valid_utf8 []"
  by (simp add: valid_utf8.simps)

lemma from_utf8_lossy_valid_append:
  "valid_utf8 s \<Longrightarrow> from_utf8_lossy (s @ t) = s @ from_utf8_lossy t"
proof (induction s rule: valid_utf8.induct)
  case (1 s)
  show ?case
  proof (cases "s = []")
    case False
    let ?n = "fst (utf8_next s)"
    from 1(2) False have ok: "snd (utf8_next s)" and rest: "valid_utf8 (drop ?n s)"
      by (simp_all add: valid_utf8.simps [of s])
    have le: "?n \<le> length s" using ok by (rule utf8_next_le)
    have "from_utf8_lossy (s @ t) = take ?n s @ from_utf8_lossy (drop ?n s @ t)"
      using False ok le
      by (subst from_utf8_lossy.simps) (simp add: utf8_next_append Let_def)
    also have "\<dots> = take ?n s @ drop ?n s @ from_utf8_lossy t"
      using 1(1) [OF False rest] by simp
    finally show ?thesis by simp
  qed simp
qed

lemma from_utf8_lossy_valid: "valid_utf8 s \<Longrightarrow> from_utf8_lossy s = s"
  using from_utf8_lossy_valid_append [of s "[]"] by simp

lemma valid_utf8_append: "valid_utf8 s \<Longrightarrow> valid_utf8 (s @ t) = valid_utf8 t"
proof (induction s rule: valid_utf8.induct)
  case (1 s)
  show ?case
  proof (cases "s = []")
    case False
    let ?n = "fst (utf8_next s)"
    from 1(2) False have ok: "snd (utf8_next s)" and rest: "valid_utf8 (drop ?n s)"
      by (simp_all add: valid_utf8.simps [of s])
    have le: "?n \<le> length s" using ok by (rule utf8_next_le)
    have "valid_utf8 (s @ t) = valid_utf8 (drop ?n s @ t)"
      using False ok le by (subst valid_utf8.simps) (simp add: utf8_next_append)
    then show ?thesis using 1(1) [OF False rest] by simp
  qed simp
qed

end
