(* ===== verification/F64.thy ===== *)
theory F64
  imports Rust_Str
begin

text \<open>
  Rust's \<open>f64\<close>: the values of the IEEE 754 binary64 format, the correctly rounded conversion
  from an exact ratio, \<open>str::parse::<f64>\<close> and the shortest decimal that \<open>f64::to_string\<close>
  prints. \<open>F_Fin s m e\<close> is the number \<open>m * 2^e\<close>, negative when \<open>s\<close>; \<open>f64_wf\<close> picks the one
  representation each value has, so that equality in HOL is identity of the value.
\<close>

datatype f64 = F_NaN | F_Inf bool | F_Fin bool nat int

fun f64_wf :: "f64 \<Rightarrow> bool" where
  "f64_wf (F_Fin s m e) \<longleftrightarrow>
     m < 2 ^ 53 \<and> -1074 \<le> e \<and> e \<le> 971 \<and> (m < 2 ^ 52 \<longrightarrow> e = -1074)"
| "f64_wf _ \<longleftrightarrow> True"

fun is_finite :: "f64 \<Rightarrow> bool" where
  "is_finite (F_Fin s m e) \<longleftrightarrow> True"
| "is_finite _ \<longleftrightarrow> False"

fun is_nan :: "f64 \<Rightarrow> bool" where
  "is_nan F_NaN \<longleftrightarrow> True"
| "is_nan _ \<longleftrightarrow> False"

fun is_zero :: "f64 \<Rightarrow> bool" where
  "is_zero (F_Fin s m e) \<longleftrightarrow> m = 0"
| "is_zero _ \<longleftrightarrow> False"

fun is_sign_negative :: "f64 \<Rightarrow> bool" where
  "is_sign_negative (F_Fin s m e) \<longleftrightarrow> s"
| "is_sign_negative (F_Inf s) \<longleftrightarrow> s"
| "is_sign_negative F_NaN \<longleftrightarrow> False"

definition F_zero :: f64 where "F_zero = F_Fin False 0 (-1074)"

section \<open>Rounding\<close>

fun ilog2 :: "nat \<Rightarrow> nat" where
  "ilog2 n = (if n < 2 then 0 else Suc (ilog2 (n div 2)))"

declare ilog2.simps [simp del]

definition pow2 :: "int \<Rightarrow> nat" where "pow2 e = 2 ^ nat e"

text \<open>\<open>p / q \<ge> 2^e\<close> and the ratio \<open>p / q / 2^e\<close>, over the naturals.\<close>

definition ratio_ge_pow2 :: "nat \<Rightarrow> nat \<Rightarrow> int \<Rightarrow> bool" where
  "ratio_ge_pow2 p q e \<longleftrightarrow> q * pow2 e \<le> p * pow2 (- e)"

definition ratio_log2 :: "nat \<Rightarrow> nat \<Rightarrow> int" where
  "ratio_log2 p q =
     (let l = int (ilog2 p) - int (ilog2 q) in if ratio_ge_pow2 p q l then l else l - 1)"

definition round_half_even :: "nat \<Rightarrow> nat \<Rightarrow> nat" where
  "round_half_even p q =
     (let d = p div q; r = p mod q in
      if 2 * r < q then d else if q < 2 * r then d + 1 else if even d then d else d + 1)"

definition f64_of_ratio :: "bool \<Rightarrow> nat \<Rightarrow> nat \<Rightarrow> f64" where
  "f64_of_ratio s p q =
     (if p = 0 then F_Fin s 0 (-1074)
      else
        let e = max (-1074) (ratio_log2 p q - 52);
            m = round_half_even (p * pow2 (- e)) (q * pow2 e);
            (m', e') = (if m = 2 ^ 53 then (2 ^ 52, e + 1) else (m, e))
        in if 971 < e' then F_Inf s else F_Fin s m' e')"

text \<open>The exact value of \<open>d * 10^k\<close>, correctly rounded.\<close>

definition f64_of_decimal :: "bool \<Rightarrow> nat \<Rightarrow> int \<Rightarrow> f64" where
  "f64_of_decimal s d k = f64_of_ratio s (d * 10 ^ nat k) (10 ^ nat (- k))"

text \<open>The \<open>as f64\<close> cast of an integer.\<close>

definition f64_of_int :: "int \<Rightarrow> f64" where
  "f64_of_int i = f64_of_ratio (i < 0) (nat \<bar>i\<bar>) 1"

section \<open>Comparison\<close>

definition le_pow2 :: "nat \<Rightarrow> int \<Rightarrow> nat \<Rightarrow> int \<Rightarrow> bool" where
  "le_pow2 m e m' e' \<longleftrightarrow> m * pow2 (e - e') \<le> m' * pow2 (e' - e)"

fun f64_le :: "f64 \<Rightarrow> f64 \<Rightarrow> bool" where
  "f64_le F_NaN _ = False"
| "f64_le _ F_NaN = False"
| "f64_le (F_Inf True) _ = True"
| "f64_le (F_Inf False) y = (y = F_Inf False)"
| "f64_le x (F_Inf s) = (\<not> s)"
| "f64_le (F_Fin s m e) (F_Fin s' m' e') =
     (if s \<and> s' then le_pow2 m' e' m e
      else if s then True
      else if s' then m = 0 \<and> m' = 0
      else le_pow2 m e m' e')"

definition f64_lt :: "f64 \<Rightarrow> f64 \<Rightarrow> bool" where
  "f64_lt x y \<longleftrightarrow> f64_le x y \<and> \<not> f64_le y x"

section \<open>Parsing\<close>

definition take_digits :: "string \<Rightarrow> string" where "take_digits s = takeWhile is_ascii_digit s"
definition drop_digits :: "string \<Rightarrow> string" where "drop_digits s = dropWhile is_ascii_digit s"

definition split_sign :: "string \<Rightarrow> bool \<times> string" where
  "split_sign s =
     (case s of
        [] \<Rightarrow> (False, [])
      | c # r \<Rightarrow> if c = CHR ''-'' then (True, r) else if c = CHR ''+'' then (False, r) else (False, s))"

definition split_frac :: "string \<Rightarrow> string \<times> string" where
  "split_frac s =
     (case s of
        [] \<Rightarrow> ([], [])
      | c # r \<Rightarrow> if c = CHR ''.'' then (take_digits r, drop_digits r) else ([], s))"

definition parse_exp :: "string \<Rightarrow> int option" where
  "parse_exp s =
     (case s of
        [] \<Rightarrow> Some 0
      | c # r \<Rightarrow>
          (let (neg, ds) = split_sign r in
           if (c = CHR ''e'' \<or> c = CHR ''E'') \<and> ds \<noteq> [] \<and> list_all is_ascii_digit ds
           then Some (if neg then - int (nat_of_digits ds) else int (nat_of_digits ds))
           else None))"

definition parse_f64 :: "string \<Rightarrow> f64 option" where
  "parse_f64 str =
     (let (s, r) = split_sign str;
          lower = to_ascii_lowercase r;
          ip = take_digits r;
          (fp, t) = split_frac (drop_digits r)
      in if lower = ''inf'' \<or> lower = ''infinity'' then Some (F_Inf s)
         else if lower = ''nan'' then Some F_NaN
         else if ip @ fp = [] then None
         else map_option (\<lambda>k. f64_of_decimal s (nat_of_digits (ip @ fp)) (k - int (length fp)))
                (parse_exp t))"

section \<open>Printing\<close>

text \<open>
  \<open>f64::to_string\<close> prints the shortest digits that read back as the number, the closer of two
  candidates of that length (the larger one on a tie), without an exponent. \<open>exact_decimal\<close> is
  the number as \<open>d * 10^k\<close>; \<open>candidates d n\<close> are its two neighbours with \<open>n\<close> digits. The search
  ends at the latest with all digits of \<open>d\<close>, where the lower neighbour is the number itself.
\<close>

definition exact_decimal :: "nat \<Rightarrow> int \<Rightarrow> nat \<times> int" where
  "exact_decimal m e = (if 0 \<le> e then (m * 2 ^ nat e, 0) else (m * 5 ^ nat (- e), e))"

fun strip_zeros :: "nat \<Rightarrow> int \<Rightarrow> nat \<times> int" where
  "strip_zeros d k = (if d \<noteq> 0 \<and> d mod 10 = 0 then strip_zeros (d div 10) (k + 1) else (d, k))"

declare strip_zeros.simps [simp del]

definition shortest_at :: "f64 \<Rightarrow> nat \<Rightarrow> int \<Rightarrow> nat \<Rightarrow> (nat \<times> int) option" where
  "shortest_at x d k trunc =
     (let lo = d div 10 ^ trunc; rest = d mod 10 ^ trunc; k' = k + int trunc;
          down = f64_of_decimal False lo k' = x;
          up = f64_of_decimal False (lo + 1) k' = x
      in if up \<and> (\<not> down \<or> 10 ^ trunc \<le> 2 * rest) then Some (lo + 1, k')
         else if down then Some (lo, k') else None)"

fun shortest_from :: "f64 \<Rightarrow> nat \<Rightarrow> int \<Rightarrow> nat \<Rightarrow> nat \<times> int" where
  "shortest_from x d k 0 = (d, k)"
| "shortest_from x d k (Suc trunc) =
     (case shortest_at x d k (Suc trunc) of Some r \<Rightarrow> r | None \<Rightarrow> shortest_from x d k trunc)"

definition shortest_decimal :: "nat \<Rightarrow> int \<Rightarrow> nat \<times> int" where
  "shortest_decimal m e =
     (let (d, k) = exact_decimal m e;
          (d', k') = shortest_from (F_Fin False m e) d k (length (show_nat d) - 1)
      in strip_zeros d' k')"

definition show_decimal :: "nat \<Rightarrow> int \<Rightarrow> string" where
  "show_decimal d k =
     (let ds = show_nat d in
      if 0 \<le> k then ds @ replicate (nat k) (CHR ''0'')
      else if nat (- k) < length ds
        then take (length ds - nat (- k)) ds @ ''.'' @ drop (length ds - nat (- k)) ds
      else ''0.'' @ replicate (nat (- k) - length ds) (CHR ''0'') @ ds)"

fun f64_to_string :: "f64 \<Rightarrow> string" where
  "f64_to_string F_NaN = ''NaN''"
| "f64_to_string (F_Inf s) = (if s then ''-inf'' else ''inf'')"
| "f64_to_string (F_Fin s m e) =
     (if s then ''-'' else []) @
     (if m = 0 then ''0'' else (let (d, k) = shortest_decimal m e in show_decimal d k))"

section \<open>Rounding a ratio\<close>

lemma ilog2_bounds: "0 < n \<Longrightarrow> 2 ^ ilog2 n \<le> n \<and> n < 2 ^ Suc (ilog2 n)"
proof (induction n rule: ilog2.induct)
  case (1 n)
  show ?case
  proof (cases "n < 2")
    case True
    with 1 show ?thesis by (simp add: ilog2.simps [of n])
  next
    case False
    then have "2 ^ ilog2 (n div 2) \<le> n div 2 \<and> n div 2 < 2 ^ Suc (ilog2 (n div 2))"
      using 1 by simp
    with False show ?thesis by (simp add: ilog2.simps [of n]) linarith
  qed
qed

lemma pow2_pos [simp]: "0 < pow2 e"
  by (simp add: pow2_def)

abbreviation p2 :: "int \<Rightarrow> real" where "p2 e \<equiv> 2 powr real_of_int e"

lemma p2_nat: "p2 (int n) = 2 ^ n"
  by (simp add: powr_realpow)

lemma pow2_powi: "real (pow2 e) = p2 e * real (pow2 (- e))"
proof (cases "0 \<le> e")
  case True
  then obtain n where "e = int n" by (cases e) auto
  then show ?thesis by (simp add: pow2_def powr_realpow)
next
  case False
  then have "e = - int (nat (- e))" by simp
  then obtain n where "e = - int n" by blast
  then show ?thesis by (simp add: pow2_def powr_minus powr_realpow)
qed

lemma ratio_ge_pow2_iff: "0 < q \<Longrightarrow> ratio_ge_pow2 p q e \<longleftrightarrow> p2 e \<le> real p / real q"
proof -
  assume q: "0 < q"
  have "ratio_ge_pow2 p q e \<longleftrightarrow> real q * real (pow2 e) \<le> real p * real (pow2 (- e))"
    unfolding ratio_ge_pow2_def by (metis of_nat_le_iff of_nat_mult)
  also have "\<dots> \<longleftrightarrow> (real q * p2 e) * real (pow2 (- e)) \<le> real p * real (pow2 (- e))"
    by (simp add: pow2_powi [of e] mult.assoc)
  also have "\<dots> \<longleftrightarrow> real q * p2 e \<le> real p" by simp
  finally show ?thesis using q by (simp add: field_simps)
qed

lemma ilog2_powi: "0 < n \<Longrightarrow> p2 (int (ilog2 n)) \<le> real n \<and> real n < p2 (int (ilog2 n) + 1)"
proof -
  assume "0 < n"
  from ilog2_bounds [OF this] have "real (2 ^ ilog2 n) \<le> real n" "real n < real (2 ^ Suc (ilog2 n))"
    by (simp_all only: of_nat_le_iff of_nat_less_iff)
  then show ?thesis by (simp add: powr_add powr_realpow)
qed

lemma ratio_log2_bounds:
  assumes p: "0 < p" and q: "0 < q"
  shows "p2 (ratio_log2 p q) \<le> real p / real q \<and> real p / real q < p2 (ratio_log2 p q + 1)"
proof -
  let ?l = "int (ilog2 p) - int (ilog2 q)"
  note bp = ilog2_powi [OF p] and bq = ilog2_powi [OF q]
  have "real p / real q < p2 (int (ilog2 p) + 1) / p2 (int (ilog2 q))"
    using bp bq q by (intro frac_less) auto
  then have up: "real p / real q < p2 (?l + 1)"
    by (simp add: powr_diff [symmetric] algebra_simps)
  have "p2 (int (ilog2 p)) / p2 (int (ilog2 q) + 1) \<le> real p / real q"
    using bp bq q by (intro frac_le) auto
  then have lo: "p2 (?l - 1) \<le> real p / real q"
    by (simp add: powr_diff [symmetric] algebra_simps)
  show ?thesis
    using up lo by (auto simp: ratio_log2_def Let_def ratio_ge_pow2_iff [OF q])
qed

lemma powi_bracket_unique:
  fixes x :: real
  assumes "p2 a \<le> x" "x < p2 (a + 1)" "p2 b \<le> x" "x < p2 (b + 1)"
  shows "a = b"
proof -
  have "p2 a < p2 (b + 1)" "p2 b < p2 (a + 1)" using assms by linarith+
  then show ?thesis by simp
qed

lemma ratio_log2_unique:
  "0 < p \<Longrightarrow> 0 < q \<Longrightarrow> p2 l \<le> real p / real q \<Longrightarrow> real p / real q < p2 (l + 1)
    \<Longrightarrow> ratio_log2 p q = l"
  using ratio_log2_bounds [of p q] powi_bracket_unique by blast

lemma round_half_even_exact: "0 < q \<Longrightarrow> round_half_even (m * q) q = m"
  by (simp add: round_half_even_def)

lemma round_half_even_scale: "0 < c \<Longrightarrow> round_half_even (c * p) (c * q) = round_half_even p q"
proof -
  assume c: "0 < c"
  have "2 * (c * r) < c * q \<longleftrightarrow> 2 * r < q" "c * q < 2 * (c * r) \<longleftrightarrow> q < 2 * r" for r
    using c by (metis mult.left_commute nat_mult_less_cancel1)+
  with c show ?thesis by (simp add: round_half_even_def Let_def mult_mod_right [symmetric])
qed

lemma f64_of_ratio_scale:
  assumes "0 < c" "0 < q"
  shows "f64_of_ratio s (c * p) (c * q) = f64_of_ratio s p q"
proof (cases "p = 0")
  case False
  have "ratio_log2 (c * p) (c * q) = ratio_log2 p q"
    using assms False ratio_log2_bounds [of p q] by (intro ratio_log2_unique) auto
  then show ?thesis
    using assms False
    by (simp add: f64_of_ratio_def mult.assoc round_half_even_scale)
qed (simp add: f64_of_ratio_def)

lemma f64_of_ratio_cong:
  assumes "0 < q" "0 < q'" "p * q' = p' * q"
  shows "f64_of_ratio s p q = f64_of_ratio s p' q'"
proof -
  have "f64_of_ratio s p q = f64_of_ratio s (q' * p) (q' * q)"
    using assms by (simp add: f64_of_ratio_scale)
  also have "\<dots> = f64_of_ratio s (q * p') (q * q')"
    using assms(3) by (simp add: mult.commute)
  also have "\<dots> = f64_of_ratio s p' q'" using assms by (simp add: f64_of_ratio_scale)
  finally show ?thesis .
qed

text \<open>A representable ratio rounds to itself.\<close>

lemma f64_of_ratio_exact:
  assumes wf: "f64_wf (F_Fin s m e)" and q: "0 < q" and v: "real p / real q = real m * p2 e"
  shows "f64_of_ratio s p q = F_Fin s m e"
proof (cases "m = 0")
  case True
  with v q have "p = 0" by simp
  with True wf show ?thesis by (simp add: f64_of_ratio_def)
next
  case False
  then have p: "0 < p" using v q by (cases "p = 0") auto
  have m: "m < 2 ^ 53" and e: "-1074 \<le> e" "e \<le> 971" and sub: "m < 2 ^ 52 \<Longrightarrow> e = -1074"
    using wf by auto
  let ?l = "ratio_log2 p q"
  note b = ratio_log2_bounds [OF p q]
  have up: "real p / real q < p2 (e + 53)"
  proof -
    have "real m < 2 ^ 53" using m by (metis of_nat_less_iff of_nat_numeral of_nat_power)
    then show ?thesis using v by (simp add: powr_add)
  qed
  have "p2 ?l < p2 (e + 53)" using b up by linarith
  then have "?l < e + 53" by simp
  then have le: "?l - 52 \<le> e" by simp
  have emax: "max (-1074) (?l - 52) = e"
  proof (cases "m < 2 ^ 52")
    case True
    then show ?thesis using sub le by simp
  next
    case False
    then have "(2::real) ^ 52 \<le> real m"
      by (metis not_less of_nat_le_iff of_nat_numeral of_nat_power)
    then have "p2 (e + 52) \<le> real p / real q" using v by (simp add: powr_add)
    then have "p2 (e + 52) < p2 (?l + 1)" using b by linarith
    then have "e + 52 < ?l + 1" by simp
    then show ?thesis using le e by simp
  qed
  have "real (p * pow2 (- e)) = real (m * (q * pow2 e))"
    using v q by (simp add: pow2_powi [of e] field_simps)
  then have "p * pow2 (- e) = m * (q * pow2 e)" by (simp only: of_nat_eq_iff)
  then have "round_half_even (p * pow2 (- e)) (q * pow2 e) = m"
    using q by (simp only: round_half_even_exact mult_pos_pos pow2_pos)
  with p emax m e show ?thesis by (simp add: f64_of_ratio_def)
qed

lemma f64_of_ratio_sign:
  "f64_of_ratio False p q = F_Fin False m e \<Longrightarrow> f64_of_ratio s p q = F_Fin s m e"
  by (auto simp: f64_of_ratio_def Let_def split: if_splits prod.splits)

section \<open>Printing and reading back\<close>

lemma f64_of_decimal_cong:
  assumes "d * 10 ^ nat k * 10 ^ nat (- k') = d' * 10 ^ nat k' * 10 ^ nat (- k)"
  shows "f64_of_decimal s d k = f64_of_decimal s d' k'"
  unfolding f64_of_decimal_def using assms by (intro f64_of_ratio_cong) auto

lemma f64_of_decimal_shift: "f64_of_decimal s (d * 10 ^ n) k = f64_of_decimal s d (k + int n)"
proof (rule f64_of_decimal_cong)
  have "n + nat k + nat (- (k + int n)) = nat (k + int n) + nat (- k)" by arith
  then have "(10::nat) ^ (n + nat k + nat (- (k + int n))) = 10 ^ (nat (k + int n) + nat (- k))"
    by simp
  then show "d * 10 ^ n * 10 ^ nat k * 10 ^ nat (- (k + int n)) =
    d * 10 ^ nat (k + int n) * 10 ^ nat (- k)"
    by (simp add: power_add mult.assoc)
qed

lemma f64_of_decimal_strip: "strip_zeros d k = (d', k') \<Longrightarrow> f64_of_decimal s d k = f64_of_decimal s d' k'"
proof (induction d k rule: strip_zeros.induct)
  case (1 d k)
  show ?case
  proof (cases "d \<noteq> 0 \<and> d mod 10 = 0")
    case True
    then have "f64_of_decimal s (d div 10) (k + 1) = f64_of_decimal s d' k'"
      using 1 by (simp add: strip_zeros.simps [of d k])
    moreover have "f64_of_decimal s d k = f64_of_decimal s (d div 10) (k + 1)"
      using True f64_of_decimal_shift [of s "d div 10" 1 k] by (simp add: dvd_eq_mod_eq_0 [symmetric])
    ultimately show ?thesis by simp
  next
    case False
    with 1(2) show ?thesis by (simp only: strip_zeros.simps [of d k] if_False) simp
  qed
qed

lemma f64_of_exact_decimal:
  assumes "f64_wf (F_Fin s m e)" "exact_decimal m e = (d, k)"
  shows "f64_of_decimal s d k = F_Fin s m e"
proof (cases "0 \<le> e")
  case True
  then obtain n where n: "e = int n" by (cases e) auto
  with assms(2) have "d = m * 2 ^ n" "k = 0" by (auto simp: exact_decimal_def)
  then show ?thesis unfolding f64_of_decimal_def
    using n by (intro f64_of_ratio_exact [OF assms(1)]) (auto simp: powr_realpow)
next
  case False
  then have "e = - int (nat (- e))" by simp
  then obtain n where n: "e = - int n" by blast
  with False assms(2) have "d = m * 5 ^ n" "k = - int n" by (auto simp: exact_decimal_def)
  moreover have "(10::real) ^ n = 5 ^ n * 2 ^ n" by (simp flip: power_mult_distrib)
  ultimately show ?thesis unfolding f64_of_decimal_def
    using n by (intro f64_of_ratio_exact [OF assms(1)]) (auto simp: powr_minus powr_realpow field_simps)
qed

lemma shortest_from_reads_back:
  "f64_of_decimal False d k = x \<Longrightarrow> shortest_from x d k n = (d', k') \<Longrightarrow> f64_of_decimal False d' k' = x"
  by (induction x d k n rule: shortest_from.induct)
    (auto simp: shortest_at_def Let_def split: option.splits if_splits)

lemma f64_of_decimal_sign:
  "f64_of_decimal False d k = F_Fin False m e \<Longrightarrow> f64_of_decimal s d k = F_Fin s m e"
  unfolding f64_of_decimal_def by (rule f64_of_ratio_sign)

lemma shortest_decimal_reads_back:
  assumes "f64_wf (F_Fin s m e)" "shortest_decimal m e = (d, k)"
  shows "f64_of_decimal s d k = F_Fin s m e"
proof -
  obtain d0 k0 where x0: "exact_decimal m e = (d0, k0)" by (cases "exact_decimal m e")
  obtain d1 k1 where x1: "shortest_from (F_Fin False m e) d0 k0 (length (show_nat d0) - 1) = (d1, k1)"
    by (cases "shortest_from (F_Fin False m e) d0 k0 (length (show_nat d0) - 1)")
  have "f64_wf (F_Fin False m e)" using assms(1) by simp
  from f64_of_exact_decimal [OF this x0] have "f64_of_decimal False d1 k1 = F_Fin False m e"
    using x1 by (rule shortest_from_reads_back)
  moreover have "strip_zeros d1 k1 = (d, k)"
    using assms(2) x0 x1 by (simp add: shortest_decimal_def)
  ultimately have "f64_of_decimal False d k = F_Fin False m e"
    using f64_of_decimal_strip by metis
  then show ?thesis by (rule f64_of_decimal_sign)
qed

text \<open>
  Every printed finite number is digits, or digits, a point and digits; the two lists never
  are empty, and they read as the decimal.
\<close>

definition decimal_text :: "string \<Rightarrow> string \<Rightarrow> string" where
  "decimal_text ip fp = ip @ (if fp = [] then [] else CHR ''.'' # fp)"

lemma nat_of_digits_zeros: "nat_of_digits (replicate n (CHR ''0'')) = 0"
  by (induction n) (auto simp: nat_of_digits_def digit_val_def)

lemma nat_of_digits_zeros_append: "nat_of_digits (replicate n (CHR ''0'') @ s) = nat_of_digits s"
  by (simp add: nat_of_digits_append nat_of_digits_zeros)

lemma show_nat_hd_zero: "hd (show_nat n) = CHR ''0'' \<Longrightarrow> n = 0"
proof (induction n rule: show_nat.induct)
  case (1 n)
  show ?case
  proof (cases "n < 10")
    case True
    with 1 show ?thesis using digit_char_props(3) [of n] by (simp add: show_nat.simps [of n] digit_val_def)
  next
    case False
    with 1 show ?thesis by (simp add: show_nat.simps [of n] hd_append)
  qed
qed

lemma show_decimal_shape:
  obtains ip fp where "show_decimal d k = decimal_text ip fp" "ip \<noteq> []"
    "list_all is_ascii_digit ip" "list_all is_ascii_digit fp"
    "f64_of_decimal s (nat_of_digits (ip @ fp)) (- int (length fp)) = f64_of_decimal s d k"
    "d \<noteq> 0 \<longrightarrow> ip = ''0'' \<or> hd ip \<noteq> CHR ''0''"
proof -
  have z: "is_ascii_digit (CHR ''0'')" by (simp add: is_ascii_digit_def)
  have ds: "list_all is_ascii_digit (show_nat d)" by (rule show_nat_digits)
  have nz: "d \<noteq> 0 \<longrightarrow> hd (show_nat d) \<noteq> CHR ''0''" by (auto dest: show_nat_hd_zero)
  consider "0 \<le> k" | "k < 0" "nat (- k) < length (show_nat d)"
    | "k < 0" "length (show_nat d) \<le> nat (- k)" by linarith
  then show ?thesis
  proof cases
    case 1
    then obtain n where "k = int n" by (cases k) auto
    with ds z nz show ?thesis
      using f64_of_decimal_shift [of s d n 0]
      by (intro that [of "show_nat d @ replicate n (CHR ''0'')" "[]"])
        (auto simp: show_decimal_def decimal_text_def nat_of_digits_append nat_of_digits_zeros
          list_all_iff)
  next
    case 2
    let ?n = "length (show_nat d) - nat (- k)"
    have "set (take ?n (show_nat d)) \<subseteq> set (show_nat d)" "set (drop ?n (show_nat d)) \<subseteq> set (show_nat d)"
      by (rule set_take_subset, rule set_drop_subset)
    then have "list_all is_ascii_digit (take ?n (show_nat d))"
      "list_all is_ascii_digit (drop ?n (show_nat d))"
      using ds by (auto simp: list_all_iff)
    with 2 nz show ?thesis
      by (intro that [of "take ?n (show_nat d)" "drop ?n (show_nat d)"])
        (auto simp: show_decimal_def decimal_text_def Let_def)
  next
    case 3
    let ?fp = "replicate (nat (- k) - length (show_nat d)) (CHR ''0'') @ show_nat d"
    have "nat_of_digits (CHR ''0'' # ?fp) = d"
      using nat_of_digits_zeros_append [of "Suc (nat (- k) - length (show_nat d))" "show_nat d"]
      by simp
    with 3 ds z show ?thesis
      by (intro that [of "''0''" ?fp])
        (auto simp: show_decimal_def decimal_text_def list_all_iff Let_def)
  qed
qed

lemma digit_not_sign:
  "is_ascii_digit c \<Longrightarrow> c \<noteq> CHR ''-'' \<and> c \<noteq> CHR ''+'' \<and> c \<noteq> CHR ''.'' \<and> c \<noteq> CHR ''e'' \<and> c \<noteq> CHR ''E''"
  by (auto simp: is_ascii_digit_def)

lemma take_digits_all:
  "list_all is_ascii_digit ip \<Longrightarrow> t = [] \<or> \<not> is_ascii_digit (hd t)
    \<Longrightarrow> take_digits (ip @ t) = ip \<and> drop_digits (ip @ t) = t"
  unfolding take_digits_def drop_digits_def
  by (induction ip) (cases t, auto)

lemma to_ascii_lowercase_digit: "is_ascii_digit c \<Longrightarrow> hd (to_ascii_lowercase (c # s)) = c"
  by (simp add: to_ascii_lowercase_def is_ascii_digit_def)

lemma parse_f64_decimal_text:
  assumes "ip \<noteq> []" "list_all is_ascii_digit ip" "list_all is_ascii_digit fp"
  shows "parse_f64 ((if s then ''-'' else []) @ decimal_text ip fp) =
    Some (f64_of_decimal s (nat_of_digits (ip @ fp)) (- int (length fp)))"
proof -
  obtain c r where ip: "ip = c # r" "is_ascii_digit c"
    using assms(1,2) by (cases ip) auto
  have sign: "split_sign ((if s then ''-'' else []) @ decimal_text ip fp) = (s, decimal_text ip fp)"
    using ip digit_not_sign [OF ip(2)] by (simp add: split_sign_def decimal_text_def)
  have "hd (to_ascii_lowercase (decimal_text ip fp)) = c"
    using ip by (simp add: decimal_text_def to_ascii_lowercase_digit)
  then have low: "to_ascii_lowercase (decimal_text ip fp) \<notin> {''inf'', ''infinity'', ''nan''}"
    using ip(2) by (auto simp: is_ascii_digit_def)
  let ?t = "if fp = [] then [] else CHR ''.'' # fp"
  have "take_digits (ip @ ?t) = ip \<and> drop_digits (ip @ ?t) = ?t"
    by (rule take_digits_all [OF assms(2)]) (auto simp: is_ascii_digit_def)
  then have ipt: "take_digits (decimal_text ip fp) = ip" "drop_digits (decimal_text ip fp) = ?t"
    by (simp_all only: decimal_text_def)
  have "split_frac ?t = (fp, [])"
    using take_digits_all [OF assms(3), of "[]"] by (simp add: split_frac_def)
  with sign low ipt assms(1) show ?thesis
    by (simp add: parse_f64_def parse_exp_def)
qed

theorem f64_to_string_reads_back:
  assumes "f64_wf x" "is_finite x"
  shows "parse_f64 (f64_to_string x) = Some x"
proof -
  obtain s m e where x: "x = F_Fin s m e" using assms(2) by (cases x) auto
  show ?thesis
  proof (cases "m = 0")
    case True
    with x assms(1) show ?thesis
      using parse_f64_decimal_text [of "''0''" "[]" s]
      by (simp add: decimal_text_def is_ascii_digit_def nat_of_digits_def digit_val_def
          f64_of_decimal_def f64_of_ratio_def)
  next
    case False
    obtain d k where dk: "shortest_decimal m e = (d, k)" by (cases "shortest_decimal m e")
    obtain ip fp where sh: "show_decimal d k = decimal_text ip fp" "ip \<noteq> []"
      "list_all is_ascii_digit ip" "list_all is_ascii_digit fp"
      "f64_of_decimal s (nat_of_digits (ip @ fp)) (- int (length fp)) = f64_of_decimal s d k"
      by (rule show_decimal_shape) blast
    have "f64_to_string x = (if s then ''-'' else []) @ decimal_text ip fp"
      using x False dk sh(1) by simp
    with parse_f64_decimal_text [OF sh(2,3,4), of s] sh(5) show ?thesis
      using shortest_decimal_reads_back [OF _ dk, of s] x assms(1) by simp
  qed
qed

text \<open>The printed form of a number that is not zero: a sign, digits without a leading zero, a fraction.\<close>

lemma f64_to_string_shape:
  assumes "f64_wf x" "is_finite x" "\<not> is_zero x"
  obtains s ip fp where "f64_to_string x = (if s then ''-'' else []) @ decimal_text ip fp" "ip \<noteq> []"
    "list_all is_ascii_digit ip" "list_all is_ascii_digit fp" "ip = ''0'' \<or> hd ip \<noteq> CHR ''0''"
proof -
  obtain s m e where x: "x = F_Fin s m e" "m \<noteq> 0" using assms(2,3) by (cases x) auto
  obtain d k where dk: "shortest_decimal m e = (d, k)" by (cases "shortest_decimal m e")
  have "f64_of_decimal s d k = F_Fin s m e"
    using shortest_decimal_reads_back [OF _ dk, of s] x assms(1) by simp
  then have "d \<noteq> 0" using x(2) by (cases "d = 0") (auto simp: f64_of_decimal_def f64_of_ratio_def)
  moreover obtain ip fp where "show_decimal d k = decimal_text ip fp" "ip \<noteq> []"
    "list_all is_ascii_digit ip" "list_all is_ascii_digit fp" "d \<noteq> 0 \<longrightarrow> ip = ''0'' \<or> hd ip \<noteq> CHR ''0''"
    by (rule show_decimal_shape) blast
  ultimately show thesis using x dk by (intro that [of s ip fp]) auto
qed

end
