(* ===== verification/Json.thy ===== *)
theory Json
  imports F64
begin

text \<open>
  The JSON values (\<open>serde_json::Value\<close>) the sources read and write, the accessors they call,
  and \<open>std::path\<close> on Unix. \<open>serde_json\<close> itself is not part of the sources: its parser and its
  printer are parameters of the definitions that call them. A number is an unsigned, a negative
  or a floating-point one, and an object is its entries in the order of the keys, which is how
  \<open>serde_json\<close> represents them without its \<open>preserve_order\<close> feature.
\<close>

datatype json_number = NPos nat | NNeg int | NFloat f64

datatype json =
    JNull
  | JBool bool
  | JNumber json_number
  | JString string
  | JArray "json list"
  | JObject "(string \<times> json) list"

text \<open>\<open>value.get(key)\<close>, and \<open>value[key]\<close>, which is null where there is no such entry.\<close>

fun jget :: "json \<Rightarrow> string \<Rightarrow> json option" where
  "jget (JObject m) k = map_of m k"
| "jget _ k = None"

definition jindex :: "json \<Rightarrow> string \<Rightarrow> json" where
  "jindex v k = (case jget v k of Some x \<Rightarrow> x | None \<Rightarrow> JNull)"

fun as_str :: "json \<Rightarrow> string option" where
  "as_str (JString s) = Some s"
| "as_str _ = None"

fun as_array :: "json \<Rightarrow> json list option" where
  "as_array (JArray xs) = Some xs"
| "as_array _ = None"

fun as_object :: "json \<Rightarrow> (string \<times> json) list option" where
  "as_object (JObject m) = Some m"
| "as_object _ = None"

fun as_u64 :: "json_number \<Rightarrow> nat option" where
  "as_u64 (NPos n) = Some n"
| "as_u64 _ = None"

fun as_i64 :: "json_number \<Rightarrow> int option" where
  "as_i64 (NPos n) = (if n < 2 ^ 63 then Some (int n) else None)"
| "as_i64 (NNeg i) = Some i"
| "as_i64 (NFloat _) = None"

definition is_string :: "json \<Rightarrow> bool" where "is_string v \<longleftrightarrow> as_str v \<noteq> None"
definition is_array :: "json \<Rightarrow> bool" where "is_array v \<longleftrightarrow> as_array v \<noteq> None"

text \<open>\<open>value.get(key).and_then(Value::as_str)\<close>, and \<open>value[key].as_str()\<close>, which is the same.\<close>

definition get_str :: "json \<Rightarrow> string \<Rightarrow> string option" where
  "get_str v k = Option.bind (jget v k) as_str"

lemma as_str_jindex [simp]: "as_str (jindex v k) = get_str v k"
  by (simp add: jindex_def get_str_def split: option.splits)

lemma jget_JObject_insert [simp]:
  "jget (JObject (btree_insert k v m)) k' = (if k' = k then Some v else jget (JObject m) k')"
  by simp

section \<open>Paths\<close>

text \<open>
  A \<open>Path\<close> is its components: Rust compares, hashes and joins paths by them. The model is that
  of a Unix build, where only \<open>/\<close> separates components and a path has no prefix.
\<close>

datatype component = RootDir | CurDir | ParentDir | Normal string

type_synonym path = "component list"

definition normal_segments :: "string \<Rightarrow> path" where
  "normal_segments s =
     map (\<lambda>p. if p = ''..'' then ParentDir else Normal p)
       (filter (\<lambda>p. p \<noteq> [] \<and> p \<noteq> ''.'') (split_on (CHR ''/'') s))"

definition path_of :: "string \<Rightarrow> path" where
  "path_of s =
     (if prefix ''/'' s then [RootDir]
      else if hd (split_on (CHR ''/'') s) = ''.'' then [CurDir] else [])
     @ normal_segments s"

fun component_str :: "component \<Rightarrow> string" where
  "component_str RootDir = ''/''"
| "component_str CurDir = ''.''"
| "component_str ParentDir = ''..''"
| "component_str (Normal p) = p"

definition file_name :: "path \<Rightarrow> string option" where
  "file_name p =
     (if p = [] then None else case last p of Normal n \<Rightarrow> Some n | _ \<Rightarrow> None)"

definition parent :: "path \<Rightarrow> path option" where
  "parent p = (if p = [] \<or> last p = RootDir then None else Some (butlast p))"

definition path_join :: "path \<Rightarrow> string \<Rightarrow> path" where
  "path_join p s =
     (if prefix ''/'' s then path_of s else if p = [] then path_of s else p @ normal_segments s)"

text \<open>\<open>file_stem\<close> and \<open>extension\<close>: the name up to and after its last dot; a leading dot counts as part of the stem.\<close>

definition split_name :: "string \<Rightarrow> string \<times> string option" where
  "split_name n =
     (case rfind_char (CHR ''.'') n of
        None \<Rightarrow> (n, None)
      | Some i \<Rightarrow> if i = 0 then (n, None) else (take i n, Some (drop (Suc i) n)))"

definition file_stem :: "path \<Rightarrow> string option" where
  "file_stem p = map_option (fst \<circ> split_name) (file_name p)"

definition extension :: "path \<Rightarrow> string option" where
  "extension p = Option.bind (file_name p) (snd \<circ> split_name)"

end
