(* ===== verification/Commands_Text.thy ===== *)
theory Commands_Text
  imports Json
begin

text \<open>
  The text side of \<open>src-tauri/src/commands.rs\<close>: the normalisation of tags, the extraction of a
  tag from what a model printed, and the prompt. The calls of \<open>serde_json::from_str\<close> are the
  parameters \<open>from_str\<close> (at type \<open>Value\<close>) and \<open>from_str_tag\<close> (at type \<open>ModelTagResponse\<close>).
\<close>

record ModelTagResponse =
  mt_summary :: string
  mt_category :: string

text \<open>The three Chinese characters of the default summary, \<open>uncategorised\<close>.\<close>

definition UNCATEGORISED :: string where
  "UNCATEGORISED = [CHR 0xE6, CHR 0x9C, CHR 0xAA, CHR 0xE5, CHR 0x88, CHR 0x86, CHR 0xE7, CHR 0xB1, CHR 0xBB]"

definition FENCE :: string where "FENCE = [CHR 0x60, CHR 0x60, CHR 0x60]"

section \<open>Truncation\<close>

definition truncate_chars_cmd :: "string \<Rightarrow> nat \<Rightarrow> string" where
  "truncate_chars_cmd s max_chars = concat (take max_chars (chars s))"

definition truncate_chars_head_tail :: "string \<Rightarrow> nat \<Rightarrow> string" where
  "truncate_chars_head_tail s max_chars =
     (let cs = chars s in
      if length cs \<le> max_chars then s
      else if max_chars \<le> 3 then concat (take max_chars cs)
      else
        (let keep = max_chars - 3;
             head = (keep + 1) div 2;
             tail = keep div 2
         in concat (take head cs) @ ''...'' @ concat (rev (take tail (rev cs)))))"

definition normalize_summary :: "string \<Rightarrow> string" where
  "normalize_summary raw =
     (let trimmed = trim raw in
      if trimmed = [] then UNCATEGORISED else truncate_chars_head_tail trimmed 24)"

definition normalize_category :: "string \<Rightarrow> string" where
  "normalize_category raw =
     (let trimmed = trim raw in if trimmed = [] then ''misc'' else trimmed)"

section \<open>Reading a model's answer\<close>

text \<open>\<open>str::trim_end_matches\<close> with a string pattern: repeated removal of the suffix.\<close>

definition trim_end_matches :: "string \<Rightarrow> string \<Rightarrow> string" where
  "trim_end_matches p s = rev (strip_words [rev p] (rev s))"

definition strip_markdown_fences :: "string \<Rightarrow> string" where
  "strip_markdown_fences text =
     (let trimmed = trim text in
      if \<not> prefix FENCE trimmed then trimmed
      else
        (let body = join [NEWLINE] (tl (str_lines trimmed))
         in trim (trim_end_matches FENCE body)))"

text \<open>
  \<open>extract_first_json_object\<close>: the loop over \<open>char_indices\<close>, which gives the byte indices of the
  first and the last character of the object. The depth is an \<open>i32\<close> that a text of less than
  2 GiB cannot overflow.
\<close>

fun first_object ::
  "nat \<Rightarrow> nat option \<Rightarrow> int \<Rightarrow> bool \<Rightarrow> bool \<Rightarrow> string list \<Rightarrow> (nat \<times> nat) option" where
  "first_object idx start depth in_string escaped [] = None"
| "first_object idx start depth in_string escaped (ch # rest) =
     (let next = idx + length ch in
      if in_string then
        (if escaped then first_object next start depth True False rest
         else if ch = [BACKSLASH] then first_object next start depth True True rest
         else if ch = [QUOTE] then first_object next start depth False False rest
         else first_object next start depth True False rest)
      else if ch = [QUOTE] then first_object next start depth True escaped rest
      else if ch = ''{'' then
        first_object next (if start = None then Some idx else start) (depth + 1) False escaped rest
      else if ch = ''}'' then
        (if depth - 1 = 0 \<and> start \<noteq> None then Some (the start, idx)
         else first_object next start (depth - 1) False escaped rest)
      else first_object next start depth False escaped rest)"

definition extract_first_json_object :: "string \<Rightarrow> string option" where
  "extract_first_json_object text =
     map_option (\<lambda>(s, i). take (Suc i - s) (drop s text))
       (first_object 0 None 0 False False (chars text))"

definition parse_model_tag_json ::
  "(string \<Rightarrow> ModelTagResponse option) \<Rightarrow> string \<Rightarrow> ModelTagResponse option" where
  "parse_model_tag_json from_str_tag text =
     (let cleaned = strip_markdown_fences text in
      case from_str_tag cleaned of
        Some parsed \<Rightarrow> Some parsed
      | None \<Rightarrow> Option.bind (extract_first_json_object cleaned) from_str_tag)"

fun first_nonblank :: "string option list \<Rightarrow> string" where
  "first_nonblank [] = []"
| "first_nonblank (None # rest) = first_nonblank rest"
| "first_nonblank (Some t # rest) = (if is_blank t then first_nonblank rest else t)"

lemma size_map_of: "map_of m k = Some v \<Longrightarrow> size v < Suc (size_list (size_prod (\<lambda>x. 0) size) m)"
  by (induction m) (auto split: if_splits)

function collect_text_from_value :: "json \<Rightarrow> string" where
  "collect_text_from_value JNull = []"
| "collect_text_from_value (JBool b) = []"
| "collect_text_from_value (JNumber n) = []"
| "collect_text_from_value (JString s) = s"
| "collect_text_from_value (JArray items) = concat (map collect_text_from_value items)"
| "collect_text_from_value (JObject m) =
     (case Option.bind (map_of m ''text'') as_str of
        Some t \<Rightarrow> t
      | None \<Rightarrow>
          first_nonblank
            [map_option collect_text_from_value (map_of m ''message''),
             map_option collect_text_from_value (map_of m ''content''),
             map_option collect_text_from_value (map_of m ''result''),
             map_option collect_text_from_value (map_of m ''response'')])"
  by pat_completeness auto

termination
  by (relation "measure size") (auto dest: size_map_of simp: less_Suc_eq_le size_list_estimation')

definition parse_tag_from_json_value ::
  "(string \<Rightarrow> ModelTagResponse option) \<Rightarrow> json \<Rightarrow> ModelTagResponse option" where
  "parse_tag_from_json_value from_str_tag v =
     (case (get_str v ''summary'', get_str v ''category'') of
        (Some s, Some c) \<Rightarrow> Some \<lparr>mt_summary = s, mt_category = c\<rparr>
      | _ \<Rightarrow>
          (let text = collect_text_from_value v in
           if is_blank text then None else parse_model_tag_json from_str_tag text))"

text \<open>The loop over the lines from the last to the first: the first line that yields a tag.\<close>

fun find_map :: "('a \<Rightarrow> 'b option) \<Rightarrow> 'a list \<Rightarrow> 'b option" where
  "find_map f [] = None"
| "find_map f (x # xs) = (case f x of Some y \<Rightarrow> Some y | None \<Rightarrow> find_map f xs)"

definition or_else :: "'a option \<Rightarrow> 'a option \<Rightarrow> 'a option" where
  "or_else x y = (case x of Some a \<Rightarrow> Some a | None \<Rightarrow> y)"

definition claude_line ::
  "(string \<Rightarrow> json option) \<Rightarrow> (string \<Rightarrow> ModelTagResponse option) \<Rightarrow> string \<Rightarrow> ModelTagResponse option" where
  "claude_line from_str from_str_tag raw =
     (let line = trim raw in
      if line = [] then None
      else case from_str line of
        Some v \<Rightarrow> parse_tag_from_json_value from_str_tag v
      | None \<Rightarrow>
          Option.bind (Option.bind (extract_first_json_object line) from_str)
            (parse_tag_from_json_value from_str_tag))"

definition parse_tag_from_claude_stdout ::
  "(string \<Rightarrow> json option) \<Rightarrow> (string \<Rightarrow> ModelTagResponse option) \<Rightarrow> string \<Rightarrow> ModelTagResponse option" where
  "parse_tag_from_claude_stdout from_str from_str_tag stdout =
     (let trimmed = trim stdout in
      if trimmed = [] then None
      else
        or_else (from_str_tag trimmed)
          (or_else (Option.bind (from_str trimmed) (parse_tag_from_json_value from_str_tag))
            (or_else (find_map (claude_line from_str from_str_tag) (rev (str_lines trimmed)))
              (Option.bind (Option.bind (extract_first_json_object trimmed) from_str)
                (parse_tag_from_json_value from_str_tag)))))"

definition gemini_response ::
  "(string \<Rightarrow> ModelTagResponse option) \<Rightarrow> json \<Rightarrow> ModelTagResponse option" where
  "gemini_response from_str_tag v =
     or_else (parse_tag_from_json_value from_str_tag v)
       (Option.bind (get_str v ''response'') (parse_model_tag_json from_str_tag))"

definition gemini_line ::
  "(string \<Rightarrow> json option) \<Rightarrow> (string \<Rightarrow> ModelTagResponse option) \<Rightarrow> string \<Rightarrow> ModelTagResponse option" where
  "gemini_line from_str from_str_tag raw =
     (let line = trim raw in
      if line = [] then None
      else case from_str line of
        Some v \<Rightarrow> gemini_response from_str_tag v
      | None \<Rightarrow>
          Option.bind (Option.bind (extract_first_json_object line) from_str)
            (parse_tag_from_json_value from_str_tag))"

definition parse_tag_from_gemini_stdout ::
  "(string \<Rightarrow> json option) \<Rightarrow> (string \<Rightarrow> ModelTagResponse option) \<Rightarrow> string \<Rightarrow> ModelTagResponse option" where
  "parse_tag_from_gemini_stdout from_str from_str_tag stdout =
     (let trimmed = trim stdout in
      if trimmed = [] then None
      else
        or_else (Option.bind (from_str trimmed) (parse_tag_from_json_value from_str_tag))
          (or_else (find_map (gemini_line from_str from_str_tag) (rev (str_lines trimmed)))
            (Option.bind (Option.bind (extract_first_json_object trimmed) from_str)
              (gemini_response from_str_tag))))"

section \<open>The prompt\<close>

definition workspace_basename :: "string option \<Rightarrow> string" where
  "workspace_basename workspace =
     (case workspace of
        None \<Rightarrow> ''unknown''
      | Some w \<Rightarrow>
          if trim w = [] then ''unknown''
          else (case file_name (path_of (trim w)) of Some n \<Rightarrow> n | None \<Rightarrow> ''unknown''))"

definition f64_clamp :: "f64 \<Rightarrow> f64 \<Rightarrow> f64 \<Rightarrow> f64" where
  "f64_clamp x lo hi =
     (let x1 = (if f64_lt x lo then lo else x) in if f64_lt hi x1 then hi else x1)"

definition normalize_randomness :: "f64 option \<Rightarrow> f64" where
  "normalize_randomness raw =
     f64_clamp (case raw of Some x \<Rightarrow> x | None \<Rightarrow> f64_of_decimal False 2 (-1)) F_zero (f64_of_int 1)"

definition randomness_instruction :: "f64 \<Rightarrow> string" where
  "randomness_instruction r =
     (if f64_le r (f64_of_decimal False 15 (-2))
      then ''Prefer deterministic, literal summaries. Avoid creativity.''
      else if f64_le r (f64_of_decimal False 45 (-2))
      then ''Keep summaries precise with mild abstraction.''
      else if f64_le r (f64_of_decimal False 75 (-2))
      then ''Allow moderate abstraction while staying faithful.''
      else ''Allow creative phrasing, but do not invent missing facts.'')"

definition build_tag_prompt ::
  "string \<Rightarrow> string \<Rightarrow> string option \<Rightarrow> string \<Rightarrow> f64 \<Rightarrow> string" where
  "build_tag_prompt agent title workspace ctxt randomness =
     (let ws = workspace_basename workspace in
      join [NEWLINE]
       [
        ''You are tagging a coding agent chat session. Respond with EXACTLY this JSON, nothing else:'',
        ''{'' @ [CHR 0x22] @ ''summary'' @ [CHR 0x22] @ '':'' @ [CHR 0x22] @ ''<''
          @ [CHR 0xE5, CHR 0x87, CHR 0x9D, CHR 0xE7, CHR 0xBB, CHR 0x83, CHR 0xE6, CHR 0xA0, CHR 0x87, CHR 0xE9, CHR 0xA2, CHR 0x98]
          @ '', ''
          @ [CHR 0xE5, CHR 0x8F, CHR 0xAF, CHR 0xE4, CHR 0xB8, CHR 0xAD, CHR 0xE8, CHR 0x8B, CHR 0xB1, CHR 0xE6, CHR 0xB7, CHR 0xB7, CHR 0xE5, CHR 0x90, CHR 0x88]
          @ ''>'' @ [CHR 0x22] @ '','' @ [CHR 0x22] @ ''category'' @ [CHR 0x22] @ '':'' @ [CHR 0x22] @ ''<''
          @ [CHR 0xE9, CHR 0xA1, CHR 0xB9, CHR 0xE7, CHR 0x9B, CHR 0xAE, CHR 0xE5, CHR 0x90, CHR 0x8D]
          @ '' or '' @ [CHR 0x27] @ ''misc'' @ [CHR 0x27] @ ''>'' @ [CHR 0x22] @ ''}'',
        [],
        ''Session:'',
        ''- Agent: '' @ truncate_chars_cmd agent 64,
        ''- Workspace: '' @ truncate_chars_cmd ws 64,
        ''- Title: '' @ truncate_chars_cmd title 160,
        [],
        ''User messages:'',
        truncate_chars_cmd ctxt 4000,
        [],
        ''Rules:'',
        ''- summary: 6-24 chars, concise session title, Chinese/English mixed is allowed.'',
        ''- summary should be specific and action-oriented. Avoid generic words like ''
          @ [CHR 0x22, CHR 0xE8, CHR 0xAE, CHR 0xA8, CHR 0xE8, CHR 0xAE, CHR 0xBA, CHR 0xE4, CHR 0xB8, CHR 0x80, CHR 0xE4, CHR 0xB8, CHR 0x8B, CHR 0x22]
          @ '' or '' @ [CHR 0x22, CHR 0xE8, CHR 0xAE, CHR 0xB0, CHR 0xE5, CHR 0xBD, CHR 0x95, CHR 0x22]
          @ ''.'',
        ''- examples: '' @ [CHR 0x22] @ ''Gemini Resume''
          @ [CHR 0xE4, CHR 0xBF, CHR 0xAE, CHR 0xE5, CHR 0xA4, CHR 0x8D, CHR 0x22] @ '', '' @ [CHR 0x22]
          @ ''AgentRoom Tag'' @ [CHR 0xE7, CHR 0xB3, CHR 0xBB, CHR 0xE7, CHR 0xBB, CHR 0x9F, CHR 0x22]
          @ '', '' @ [CHR 0x22] @ ''Claude''
          @ [CHR 0xE8, CHR 0xB7, CHR 0xAF, CHR 0xE5, CHR 0xBE, CHR 0x84, CHR 0xE8, CHR 0xA7, CHR 0xA3, CHR 0xE6, CHR 0x9E, CHR 0x90, CHR 0x22]
          @ '', ''
          @ [CHR 0x22, CHR 0xE6, CHR 0x90, CHR 0x9C, CHR 0xE7, CHR 0xB4, CHR 0xA2, CHR 0xE8, CHR 0xBF, CHR 0x87, CHR 0xE6, CHR 0xBB, CHR 0xA4, CHR 0xE9, CHR 0x87, CHR 0x8D, CHR 0xE6, CHR 0x9E, CHR 0x84, CHR 0x22],
        ''- category: Project/topic name if clear (e.g., '' @ [CHR 0x22] @ ''AgentRoom'' @ [CHR 0x22]
          @ '', '' @ [CHR 0x22] @ ''VibeLab'' @ [CHR 0x22] @ '', '' @ [CHR 0x22] @ ''kobo-note''
          @ [CHR 0x22] @ ''), else '' @ [CHR 0x22] @ ''misc'' @ [CHR 0x22],
        ''- Derive project from workspace path if conversation is ambiguous'',
        ''- creativity/randomness (0-1): '' @ f64_to_string randomness,
        ''- '' @ randomness_instruction randomness,
        ''- Output valid JSON only, no markdown fences''])"

section \<open>Summaries\<close>

lemma chars_nonempty: "c \<in> set (chars s) \<Longrightarrow> c \<noteq> []"
  by (induction s rule: chars.induct) auto

lemma length_concat_nonempty: "(\<forall>c \<in> set cs. c \<noteq> []) \<Longrightarrow> length cs \<le> length (concat cs)"
proof (induction cs)
  case (Cons c cs)
  then show ?case by (cases c) auto
qed simp

lemma length_concat_chars:
  "length (take n (chars s)) \<le> length (concat (take n (chars s)))"
  "length (drop n (chars s)) \<le> length (concat (drop n (chars s)))"
  by (rule length_concat_nonempty, blast dest: in_set_takeD in_set_dropD chars_nonempty)+

lemma ws_length: "w \<in> set ws_chars \<Longrightarrow> length w \<le> 3"
  by (auto simp: ws_chars_def)

text \<open>A text with the ends of a trimmed one has nothing to trim.\<close>

lemma trim_same_ends:
  assumes t: "trim t = t" and a: "prefix a t" "3 \<le> length a" and z: "suffix z t" "3 \<le> length z"
  shows "trim (a @ m @ z) = a @ m @ z"
proof -
  have "trim_start (a @ m @ z) = a @ m @ z"
    unfolding trim_start_def
  proof (rule strip_words_none, intro ballI impI notI)
    fix w assume w: "w \<in> set ws_chars" "w \<noteq> []" "prefix w (a @ m @ z)"
    then have "prefix w a" using ws_length [of w] a(2)
      by (metis (no_types, lifting) le_trans prefixI prefix_length_prefix)
    with a(1) have "prefix w t" by (auto intro: prefix_order.trans)
    moreover have "t = strip_words ws_chars t" using t by (metis trim_start_def trim_start_trim)
    ultimately show False using strip_words_stop [OF w(1,2), of t] by simp
  qed
  moreover have "trim_end (a @ m @ z) = a @ m @ z"
  proof -
    have "strip_words (map rev ws_chars) (rev (a @ m @ z)) = rev (a @ m @ z)"
    proof (rule strip_words_none, intro ballI impI notI)
      fix w assume w: "w \<in> set (map rev ws_chars)" "w \<noteq> []" "prefix w (rev (a @ m @ z))"
      have "length w \<le> 3" using w(1) ws_length by auto
      then have "prefix w (rev z)" using w(3) z(2)
        by (metis (no_types, lifting) length_rev order.trans prefixI prefix_length_prefix rev_append append.assoc)
      then have "prefix w (rev t)" using z(1) by (metis prefix_order.trans suffix_to_prefix)
      moreover have "rev t = strip_words (map rev ws_chars) (rev t)"
        using t by (metis rev_rev_ident trim_end_def trim_end_trim)
      ultimately show False using strip_words_stop [OF w(1,2), of "rev t"] by simp
    qed
    then show ?thesis by (simp add: trim_end_def)
  qed
  ultimately show ?thesis by (simp add: trim_fixed_iff)
qed

lemma head_tail_24:
  assumes "24 < char_count t"
  shows "truncate_chars_head_tail t 24 =
    concat (take 11 (chars t)) @ ''...'' @ concat (drop (char_count t - 10) (chars t))"
  using assms by (simp add: truncate_chars_head_tail_def char_count_def Let_def rev_take)

lemma char_count_head_tail:
  assumes "24 < char_count t"
  shows "char_count (truncate_chars_head_tail t 24) \<le> 24"
proof -
  have "char_count (concat (take 11 (chars t))) \<le> length (take 11 (chars t))"
    by (rule char_count_concat_le) (blast dest: in_set_takeD char_count_one)
  moreover have "char_count (concat (drop (char_count t - 10) (chars t)))
      \<le> length (drop (char_count t - 10) (chars t))"
    by (rule char_count_concat_le) (blast dest: in_set_dropD char_count_one)
  moreover have "char_count ''...'' = 3" by (simp add: char_count_def is_cont_def)
  ultimately show ?thesis
    using assms char_count_append_le [of "concat (take 11 (chars t))" "''...'' @ concat (drop (char_count t - 10) (chars t))"]
      char_count_append_le [of "''...''" "concat (drop (char_count t - 10) (chars t))"]
    by (simp only: head_tail_24 [OF assms]) (simp add: char_count_def)
qed

lemma normalize_summary_fixed:
  "trim t = t \<Longrightarrow> t \<noteq> [] \<Longrightarrow> char_count t \<le> 24 \<Longrightarrow> normalize_summary t = t"
  by (simp add: normalize_summary_def truncate_chars_head_tail_def char_count_def)

text \<open>
  A stored summary is never empty and never longer than 24 characters: a text that fits is
  kept as it is but for the white space around it, a longer one keeps its first eleven and its
  last ten characters around three dots, and normalising a summary again changes nothing.
\<close>

theorem normalize_summary_bounded:
  "normalize_summary raw \<noteq> [] \<and> char_count (normalize_summary raw) \<le> 24
   \<and> (trim raw \<noteq> [] \<and> char_count (trim raw) \<le> 24 \<longrightarrow> normalize_summary raw = trim raw)
   \<and> (24 < char_count (trim raw) \<longrightarrow>
        normalize_summary raw = concat (take 11 (chars (trim raw))) @ ''...''
          @ concat (drop (char_count (trim raw) - 10) (chars (trim raw))))
   \<and> normalize_summary (normalize_summary raw) = normalize_summary raw"
proof (cases "24 < char_count (trim raw)")
  case False
  have u: "trim UNCATEGORISED = UNCATEGORISED" "char_count UNCATEGORISED = 3" by code_simp+
  show ?thesis
  proof (cases "trim raw = []")
    case True
    then have n: "normalize_summary raw = UNCATEGORISED" by (simp add: normalize_summary_def)
    have "normalize_summary UNCATEGORISED = UNCATEGORISED" "UNCATEGORISED \<noteq> []" by code_simp+
    with n u True show ?thesis by (simp add: char_count_def)
  next
    case ne: False
    with False have "normalize_summary raw = trim raw"
      by (simp add: normalize_summary_def truncate_chars_head_tail_def char_count_def)
    with False ne show ?thesis
      by (simp add: normalize_summary_def truncate_chars_head_tail_def char_count_def)
  qed
next
  case True
  let ?t = "trim raw"
  let ?a = "concat (take 11 (chars ?t))" and ?z = "concat (drop (char_count ?t - 10) (chars ?t))"
  from True have "?t \<noteq> []" by (auto simp: char_count_def)
  then have n: "normalize_summary raw = ?a @ ''...'' @ ?z" using True
    by (simp add: normalize_summary_def head_tail_24 Let_def)
  have le: "char_count (normalize_summary raw) \<le> 24"
    using char_count_head_tail [OF True] n head_tail_24 [OF True] by simp
  have pa: "prefix ?a ?t"
    by (metis append_take_drop_id concat_append concat_chars prefixI)
  have sz: "suffix ?z ?t"
    by (metis append_take_drop_id concat_append concat_chars suffixI)
  have la: "3 \<le> length ?a" using length_concat_chars(1) [of 11 ?t] True by (simp add: char_count_def)
  have lz: "3 \<le> length ?z" using length_concat_chars(2) [of "char_count ?t - 10" ?t] True
    by (simp add: char_count_def)
  have tr: "trim (normalize_summary raw) = normalize_summary raw"
    unfolding n by (rule trim_same_ends [OF trim_idem pa la sz lz])
  have "normalize_summary (normalize_summary raw) = normalize_summary raw"
    by (rule normalize_summary_fixed [OF tr _ le]) (simp add: n)
  with True n le show ?thesis by simp
qed

theorem normalize_summary_bounded_witness:
  "normalize_summary (SPACE # replicate 30 (CHR ''a'')) = replicate 11 (CHR ''a'') @ ''...'' @ replicate 10 (CHR ''a'')"
proof -
  let ?a = "replicate 30 (CHR ''a'')"
  have c: "chars (replicate n (CHR ''a'')) = replicate n ''a''" for n
    by (induction n) (auto simp: is_cont_def intro: chars_append [of _ "''a''"] dest: sym
        simp: takeWhile_replicate dropWhile_replicate)
  have t: "trim ?a = ?a"
    by (simp add: trim_ends ws_first_def ws_last_def ws_chars_def numeral_eq_Suc)
  have k: "char_count ?a = 30" "concat (replicate n ''a'') = replicate n (CHR ''a'')" for n
    by (simp_all add: char_count_def c)
  have "24 < char_count (trim (SPACE # ?a))" by (simp add: t k)
  then show ?thesis
    using normalize_summary_bounded [of "SPACE # ?a"] by (simp add: t k c)
qed

section \<open>Objects in prose\<close>

text \<open>
  What is inside the braces of an object, as a list of characters: characters that are no
  quote and no brace, string literals, and nested objects.
\<close>

inductive literal_body :: "string list \<Rightarrow> bool" where
  "literal_body []"
| "c \<noteq> [QUOTE] \<Longrightarrow> c \<noteq> [BACKSLASH] \<Longrightarrow> literal_body cs \<Longrightarrow> literal_body (c # cs)"
| "literal_body cs \<Longrightarrow> literal_body ([BACKSLASH] # c # cs)"

inductive object_body :: "string list \<Rightarrow> bool" where
  nothing: "object_body []"
| plain: "c \<noteq> [QUOTE] \<Longrightarrow> c \<noteq> ''{'' \<Longrightarrow> c \<noteq> ''}'' \<Longrightarrow> object_body cs \<Longrightarrow> object_body (c # cs)"
| literal: "literal_body l \<Longrightarrow> object_body cs \<Longrightarrow> object_body ([QUOTE] # l @ [QUOTE] # cs)"
| nested: "object_body b \<Longrightarrow> object_body cs \<Longrightarrow> object_body (''{'' # b @ ''}'' # cs)"

lemma first_object_literal:
  "literal_body l \<Longrightarrow>
    first_object idx st d True False (l @ [QUOTE] # cs) =
      first_object (idx + length (concat l) + 1) st d False False cs"
  by (induction l arbitrary: idx rule: literal_body.induct) (auto simp: Let_def add.assoc)

lemma first_object_body:
  "object_body b \<Longrightarrow> 1 \<le> d \<Longrightarrow>
    first_object idx (Some s) d False False (b @ cs) =
      first_object (idx + length (concat b)) (Some s) d False False cs"
proof (induction b arbitrary: idx d cs rule: object_body.induct)
  case (literal l b)
  have "first_object (Suc idx) (Some s) d True False (l @ [QUOTE] # b @ cs) =
      first_object (Suc idx + length (concat l) + 1) (Some s) d False False (b @ cs)"
    by (rule first_object_literal [OF literal(1)])
  with literal(3) [OF literal(4)] show ?case by (simp add: Let_def algebra_simps)
next
  case (nested b cs')
  have "first_object (Suc idx) (Some s) (d + 1) False False (b @ ''}'' # cs' @ cs) =
      first_object (Suc idx + length (concat b)) (Some s) (d + 1) False False (''}'' # cs' @ cs)"
    using nested.IH(1) nested.prems by simp
  with nested.IH(2) [OF nested.prems] nested.prems show ?case by (simp add: Let_def algebra_simps)
qed (auto simp: Let_def add.assoc)

lemma first_object_prose:
  "(\<forall>c \<in> set pre. c \<noteq> [QUOTE] \<and> c \<noteq> ''{'' \<and> c \<noteq> ''}'') \<Longrightarrow>
    first_object idx st d False False (pre @ cs) =
      first_object (idx + length (concat pre)) st d False False cs"
  by (induction pre arbitrary: idx) (auto simp: Let_def add.assoc)

lemma extract_embedded:
  assumes "\<forall>c \<in> set (chars pre). c \<noteq> [QUOTE] \<and> c \<noteq> ''{'' \<and> c \<noteq> ''}''"
    and "chars obj = ''{'' # b @ [''}'']" "object_body b"
    and "post = [] \<or> \<not> is_cont (hd post)"
  shows "extract_first_json_object (pre @ obj @ post) = Some obj"
proof -
  have obj: "obj = ''{'' @ concat b @ ''}''"
    using arg_cong [OF assms(2), of concat] by simp
  have c: "chars (pre @ obj @ post) = chars pre @ ''{'' # b @ ''}'' # chars post"
    using chars_append [OF assms(4), of obj] chars_append [of "obj @ post" pre] assms(2)
    by (simp add: obj is_cont_def)
  have "first_object 0 None 0 False False (chars (pre @ obj @ post)) =
      first_object (length pre) None 0 False False (''{'' # b @ ''}'' # chars post)"
    unfolding c using first_object_prose [OF assms(1), of 0 None 0] by simp
  also have "\<dots> = first_object (Suc (length pre)) (Some (length pre)) 1 False False (b @ ''}'' # chars post)"
    by (simp add: Let_def)
  also have "\<dots> = Some (length pre, Suc (length pre) + length (concat b))"
    using first_object_body [OF assms(3), of 1 "Suc (length pre)" "length pre" "''}'' # chars post"]
    by (simp add: Let_def)
  finally show ?thesis
    by (simp add: extract_first_json_object_def obj)
qed

text \<open>
  C38: the first object in a text is found whatever prose is around it: when the text before it has
  no quote and no brace, an object with any nesting and any string literals, braces inside them
  included, is extracted exactly.
\<close>

theorem extract_finds_object:
  assumes "\<forall>c \<in> set (chars pre). c \<noteq> [QUOTE] \<and> c \<noteq> ''{'' \<and> c \<noteq> ''}''"
    and "chars obj = ''{'' # b @ [''}'']" "object_body b"
    and "post = [] \<or> \<not> is_cont (hd post)"
  shows "extract_first_json_object (pre @ obj @ post) = Some obj"
  using assms by (rule extract_embedded)

theorem extract_finds_object_witness:
  "extract_first_json_object (''ok: '' @ (''{'' @ [QUOTE] @ ''}'' @ [QUOTE] @ '':{}}'') @ '' done }'') =
     Some (''{'' @ [QUOTE] @ ''}'' @ [QUOTE] @ '':{}}'')"
proof (rule extract_finds_object)
  show "\<forall>c \<in> set (chars ''ok: ''). c \<noteq> [QUOTE] \<and> c \<noteq> ''{'' \<and> c \<noteq> ''}''" by code_simp
  show "chars (''{'' @ [QUOTE] @ ''}'' @ [QUOTE] @ '':{}}'') =
      ''{'' # ([QUOTE] # [''}''] @ [QUOTE] # ['':'', ''{'', ''}'']) @ [''}'']"
    by code_simp
  have "object_body ['':'', ''{'', ''}'']"
    using object_body.nested [OF object_body.nothing object_body.nothing]
    by (auto intro!: object_body.plain)
  then show "object_body ([QUOTE] # [''}''] @ [QUOTE] # ['':'', ''{'', ''}''])"
    by (intro object_body.literal literal_body.intros) auto
qed (simp add: is_cont_def)

text \<open>
  A closing brace before the object unbalances the extraction: the depth starts at minus one,
  a balanced object after it is not found, and an unbalanced text is returned instead.
\<close>

theorem stray_brace_breaks_extraction:
  "extract_first_json_object ''} {x}'' = None
   \<and> extract_first_json_object ''} {x{y}}'' = Some ''{x{y}''"
  by code_simp

section \<open>Fenced answers\<close>

lemma trim_end_NEWLINE [simp]: "trim_end (s @ [NEWLINE]) = trim_end s"
proof -
  have "List.find (\<lambda>w. w \<noteq> [] \<and> prefix w (NEWLINE # t)) (map rev ws_chars) = Some [NEWLINE]" for t
    by (simp add: ws_chars_def)
  then show ?thesis
    unfolding trim_end_def by (subst strip_words.simps) simp
qed

lemma trim_start_append_NEWLINE:
  assumes "trim_start s = s" "s \<noteq> []"
  shows "trim_start (s @ [NEWLINE]) = s @ [NEWLINE]"
  unfolding trim_start_def
proof (rule strip_words_none, intro ballI impI notI)
  fix w assume w: "w \<in> set ws_chars" "w \<noteq> []" "prefix w (s @ [NEWLINE])"
  have nl: "NEWLINE \<in> set w \<Longrightarrow> w = [NEWLINE]" using w(1) by (auto simp: ws_chars_def)
  from w(3) consider "prefix w s" | "w = s @ [NEWLINE]" by (auto simp: prefix_snoc)
  then show False
  proof cases
    case 1
    with strip_words_stop [OF w(1,2), of s] assms(1) show False by (simp add: trim_start_def)
  next
    case 2
    with nl assms(2) show False by simp
  qed
qed

lemma trim_append_NEWLINE: "trim s = s \<Longrightarrow> s \<noteq> [] \<Longrightarrow> trim (s @ [NEWLINE]) = s"
  using trim_start_append_NEWLINE [of s] by (simp add: trim_fixed_iff) (simp add: trim_def)

lemma strip_cr_id: "CARRIAGE_RETURN \<notin> set s \<Longrightarrow> strip_cr s = s"
  unfolding strip_cr_def by (metis last_in_set)

lemma set_split_on: "p \<in> set (split_on c s) \<Longrightarrow> set p \<subseteq> set s"
proof (induction s arbitrary: p)
  case (Cons d s)
  obtain q qs where q: "split_on c s = q # qs" by (cases "split_on c s") auto
  then have "set q \<subseteq> set s" "\<And>r. r \<in> set qs \<Longrightarrow> set r \<subseteq> set s" using Cons.IH by simp_all
  with Cons.prems q show ?case by (auto split: if_splits)
qed simp

lemma fenced_lines:
  assumes "NEWLINE \<notin> set lang" "CARRIAGE_RETURN \<notin> set body"
  shows "tl (str_lines (FENCE @ lang @ NEWLINE # body @ NEWLINE # FENCE)) = split_on NEWLINE body @ [FENCE]"
proof -
  have f: "NEWLINE \<notin> set FENCE" "FENCE \<noteq> []" by (simp_all add: FENCE_def)
  have a: "split_on NEWLINE (FENCE @ lang @ NEWLINE # body @ NEWLINE # FENCE) =
      (FENCE @ lang) # split_on NEWLINE (body @ NEWLINE # FENCE)"
    using split_on_sep [of NEWLINE "FENCE @ lang"] assms(1) f by simp
  have b: "split_on NEWLINE (body @ NEWLINE # FENCE) = split_on NEWLINE body @ [FENCE]"
    using f by (simp add: split_on_append split_on_none)
  have "map strip_cr (split_on NEWLINE body) = split_on NEWLINE body"
    using assms(2) set_split_on by (intro map_idI strip_cr_id) blast
  with f show ?thesis by (simp add: str_lines_def a b Let_def)
qed

lemma strip_fenced:
  assumes "trim body = body" "body \<noteq> []" "NEWLINE \<notin> set lang" "CARRIAGE_RETURN \<notin> set body"
  shows "strip_markdown_fences (FENCE @ lang @ NEWLINE # body @ NEWLINE # FENCE) = body"
proof -
  let ?t = "FENCE @ lang @ NEWLINE # body @ NEWLINE # FENCE"
  have t: "trim ?t = ?t"
    by (rule trim_ends) (simp_all add: FENCE_def ws_first_def ws_last_def ws_chars_def)
  have j: "join [NEWLINE] (split_on NEWLINE body @ [FENCE]) = body @ NEWLINE # FENCE"
  proof -
    have "xs \<noteq> [] \<Longrightarrow> join [NEWLINE] (xs @ [FENCE]) = join [NEWLINE] xs @ NEWLINE # FENCE" for xs
      by (induction "[NEWLINE]" xs rule: join.induct) auto
    then show ?thesis by simp
  qed
  have "strip_words [rev FENCE] (rev (body @ NEWLINE # FENCE)) = NEWLINE # rev body"
    by (subst strip_words.simps) (simp add: FENCE_def strip_words_none)
  then have e: "trim_end_matches FENCE (body @ NEWLINE # FENCE) = body @ [NEWLINE]"
    by (simp add: trim_end_matches_def)
  have "strip_markdown_fences ?t =
      trim (trim_end_matches FENCE (join [NEWLINE] (tl (str_lines ?t))))"
    unfolding strip_markdown_fences_def t Let_def by simp
  also have "\<dots> = body"
    unfolding fenced_lines [OF assms(3,4)] j e using assms(1,2) by (rule trim_append_NEWLINE)
  finally show ?thesis .
qed

text \<open>
  A model's answer is understood whether it is bare, in a markdown fence or in prose: the text
  that the tag parser sees is the same, and the tag is the one it reads there.
\<close>

theorem model_answer_understood:
  assumes "from_str_tag body = Some tag" "trim body = body" "CARRIAGE_RETURN \<notin> set body"
    and "chars body = ''{'' # b @ [''}'']" "object_body b" "NEWLINE \<notin> set lang"
    and "\<forall>c \<in> set (chars pre). c \<noteq> [QUOTE] \<and> c \<noteq> ''{'' \<and> c \<noteq> ''}''"
    and "trim (pre @ body @ post) = pre @ body @ post" "\<not> prefix FENCE (pre @ body @ post)"
    and "post = [] \<or> \<not> is_cont (hd post)" "from_str_tag (pre @ body @ post) = None"
  shows "parse_model_tag_json from_str_tag body = Some tag
    \<and> parse_model_tag_json from_str_tag (FENCE @ lang @ NEWLINE # body @ NEWLINE # FENCE) = Some tag
    \<and> parse_model_tag_json from_str_tag (pre @ body @ post) = Some tag"
proof (intro conjI)
  have body: "body = ''{'' @ concat b @ ''}''" using arg_cong [OF assms(4), of concat] by simp
  then have ne: "body \<noteq> []" by simp
  have "\<not> prefix FENCE body" by (simp add: body FENCE_def)
  then show "parse_model_tag_json from_str_tag body = Some tag"
    using assms(1,2) by (simp add: parse_model_tag_json_def strip_markdown_fences_def)
  show "parse_model_tag_json from_str_tag (FENCE @ lang @ NEWLINE # body @ NEWLINE # FENCE) = Some tag"
    unfolding parse_model_tag_json_def strip_fenced [OF assms(2) ne assms(6,3)] Let_def
    using assms(1) by simp
  have "strip_markdown_fences (pre @ body @ post) = pre @ body @ post"
    unfolding strip_markdown_fences_def assms(8) Let_def using assms(9) by simp
  then show "parse_model_tag_json from_str_tag (pre @ body @ post) = Some tag"
    unfolding parse_model_tag_json_def
    using assms(1,11) extract_embedded [OF assms(7,4,5,10)] by simp
qed

theorem model_answer_understood_witness:
  "parse_model_tag_json (\<lambda>s. if s = ''{}'' then Some \<lparr>mt_summary = ''s'', mt_category = ''c''\<rparr> else None)
     (FENCE @ ''json'' @ NEWLINE # ''{}'' @ NEWLINE # FENCE) = Some \<lparr>mt_summary = ''s'', mt_category = ''c''\<rparr>"
proof -
  have c: "chars ''{}'' = ''{'' # [] @ [''}'']" "trim ''{}'' = ''{}''"
    "\<forall>c \<in> set (chars ''ok ''). c \<noteq> [QUOTE] \<and> c \<noteq> ''{'' \<and> c \<noteq> ''}''"
    "trim (''ok '' @ ''{}'' @ ''.'') = ''ok '' @ ''{}'' @ ''.''"
    "\<not> prefix FENCE (''ok '' @ ''{}'' @ ''.'')" "NEWLINE \<notin> set ''json''" "CARRIAGE_RETURN \<notin> set ''{}''"
    by code_simp+
  let ?p = "\<lambda>s. if s = ''{}'' then Some \<lparr>mt_summary = ''s'', mt_category = ''c''\<rparr> else None"
  show ?thesis
    using model_answer_understood [of ?p "''{}''", OF _ c(2) c(7) c(1) object_body.nothing c(6) c(3) c(4) c(5)]
    by (simp add: is_cont_def)
qed

end
