(* ===== verification/Transcript_Parser.thy ===== *)
theory Transcript_Parser
  imports Json
begin

text \<open>
  \<open>src-tauri/src/transcript_parser.rs\<close>: one line of a Claude Code session log becomes the
  events that drive an agent. \<open>from_str\<close>, the parser of \<open>serde_json\<close>, is a parameter.
\<close>

datatype AgentEvent =
    ToolStart (tool_id: string) (tool_name: string) (status: string) (is_subagent: bool)
      (parent_tool_id: "string option")
  | ToolDone (tool_id: string) (is_subagent: bool) (parent_tool_id: "string option")
  | TurnEnd
  | Active
  | TextIdle

definition BASH_COMMAND_DISPLAY_MAX_LENGTH :: nat where "BASH_COMMAND_DISPLAY_MAX_LENGTH = 30"
definition TASK_DESCRIPTION_DISPLAY_MAX_LENGTH :: nat where "TASK_DESCRIPTION_DISPLAY_MAX_LENGTH = 40"

text \<open>\<open>truncate_chars\<close>: the bytes before the character number \<open>max_chars\<close>, or all.\<close>

definition truncate_chars :: "string \<Rightarrow> nat \<Rightarrow> string" where
  "truncate_chars s max_chars =
     (if max_chars < char_count s then concat (take max_chars (chars s)) else s)"

definition basename :: "json \<Rightarrow> string" where
  "basename v =
     (case as_str v of
        None \<Rightarrow> []
      | Some s \<Rightarrow> (case file_name (path_of s) of Some f \<Rightarrow> f | None \<Rightarrow> s))"

definition str_or_empty :: "json \<Rightarrow> string" where
  "str_or_empty v = (case as_str v of Some s \<Rightarrow> s | None \<Rightarrow> [])"

definition format_tool_status :: "string \<Rightarrow> json \<Rightarrow> string" where
  "format_tool_status name input =
     (if name = ''Read'' then ''Reading '' @ basename (jindex input ''file_path'')
      else if name = ''Edit'' then ''Editing '' @ basename (jindex input ''file_path'')
      else if name = ''Write'' then ''Writing '' @ basename (jindex input ''file_path'')
      else if name = ''Bash'' then
        (let cmd = str_or_empty (jindex input ''command'') in
         if BASH_COMMAND_DISPLAY_MAX_LENGTH < char_count cmd
         then ''Running: '' @ truncate_chars cmd BASH_COMMAND_DISPLAY_MAX_LENGTH @ ELLIPSIS
         else ''Running: '' @ cmd)
      else if name = ''Glob'' then ''Searching files''
      else if name = ''Grep'' then ''Searching code''
      else if name = ''WebFetch'' then ''Fetching web content''
      else if name = ''WebSearch'' then ''Searching the web''
      else if name = ''Task'' then
        (let desc = str_or_empty (jindex input ''description'') in
         if desc = [] then ''Running subtask''
         else if TASK_DESCRIPTION_DISPLAY_MAX_LENGTH < char_count desc
         then ''Subtask: '' @ truncate_chars desc TASK_DESCRIPTION_DISPLAY_MAX_LENGTH @ ELLIPSIS
         else ''Subtask: '' @ desc)
      else if name = ''AskUserQuestion'' then ''Waiting for your answer''
      else if name = ''EnterPlanMode'' then ''Planning''
      else if name = ''NotebookEdit'' then ''Editing notebook''
      else ''Using '' @ name)"

definition has_type :: "string \<Rightarrow> json \<Rightarrow> bool" where
  "has_type t b \<longleftrightarrow> as_str (jindex b ''type'') = Some t"

text \<open>The events of the blocks of a content array: tool calls, and tool results.\<close>

definition tool_start_of :: "bool \<Rightarrow> string option \<Rightarrow> json \<Rightarrow> AgentEvent list" where
  "tool_start_of sub par block =
     (if has_type ''tool_use'' block then
        (case as_str (jindex block ''id'') of
           Some i \<Rightarrow>
             (let name = str_or_empty (jindex block ''name'') in
              [ToolStart i name (format_tool_status name (jindex block ''input'')) sub par])
         | None \<Rightarrow> [])
      else [])"

definition tool_done_of :: "bool \<Rightarrow> string option \<Rightarrow> json \<Rightarrow> AgentEvent list" where
  "tool_done_of sub par block =
     (if has_type ''tool_result'' block then
        (case as_str (jindex block ''tool_use_id'') of
           Some i \<Rightarrow> [ToolDone i sub par]
         | None \<Rightarrow> [])
      else [])"

definition assistant_events :: "json \<Rightarrow> bool \<Rightarrow> AgentEvent list" where
  "assistant_events record had_tools_in_turn =
     (case as_array (jindex (jindex record ''message'') ''content'') of
        None \<Rightarrow> []
      | Some content \<Rightarrow>
          if list_ex (has_type ''tool_use'') content
          then Active # concat (map (tool_start_of False None) content)
          else if \<not> had_tools_in_turn \<and> list_ex (has_type ''text'') content
          then [TextIdle] else [])"

definition user_events :: "json \<Rightarrow> AgentEvent list" where
  "user_events record =
     (let c = jindex (jindex record ''message'') ''content'' in
      case as_array c of
        Some content \<Rightarrow>
          if list_ex (has_type ''tool_result'') content
          then concat (map (tool_done_of False None) content)
          else [Active]
      | None \<Rightarrow> if is_string c then [Active] else [])"

definition system_events :: "json \<Rightarrow> AgentEvent list" where
  "system_events record =
     (if as_str (jindex record ''subtype'') = Some ''turn_duration'' then [TurnEnd] else [])"

definition progress_events :: "json \<Rightarrow> AgentEvent list" where
  "progress_events record =
     (case as_str (jindex record ''parentToolUseID'') of
        None \<Rightarrow> []
      | Some parent_id \<Rightarrow>
          (let data = jindex record ''data''; data_type = str_or_empty (jindex data ''type'') in
           if data_type = ''bash_progress'' \<or> data_type = ''mcp_progress'' then []
           else
             (case as_object (jindex data ''message'') of
                None \<Rightarrow> []
              | Some msg \<Rightarrow>
                  (let msg_type = (case Option.bind (map_of msg ''type'') as_str of Some t \<Rightarrow> t | None \<Rightarrow> []);
                       inner_content =
                         Option.bind (Option.bind (map_of msg ''message'') (\<lambda>v. jget v ''content'')) as_array
                   in case inner_content of
                        None \<Rightarrow> []
                      | Some content \<Rightarrow>
                          if msg_type = ''assistant''
                          then concat (map (tool_start_of True (Some parent_id)) content)
                          else if msg_type = ''user''
                          then concat (map (tool_done_of True (Some parent_id)) content)
                          else []))))"

definition parse_jsonl_line :: "(string \<Rightarrow> json option) \<Rightarrow> string \<Rightarrow> bool \<Rightarrow> AgentEvent list" where
  "parse_jsonl_line from_str line had_tools_in_turn =
     (case from_str line of
        None \<Rightarrow> []
      | Some record \<Rightarrow>
          (let record_type = str_or_empty (jindex record ''type'') in
           if record_type = ''assistant'' then assistant_events record had_tools_in_turn
           else if record_type = ''user'' then user_events record
           else if record_type = ''system'' then system_events record
           else if record_type = ''progress'' then progress_events record
           else []))"

section \<open>Lengths of the displayed status\<close>

lemma char_count_truncate: "char_count (truncate_chars s n) \<le> n"
proof (cases "n < char_count s")
  case True
  have "char_count (concat (take n (chars s))) \<le> length (take n (chars s))"
    by (rule char_count_concat_le) (blast dest: in_set_takeD char_count_one)
  with True show ?thesis by (simp add: truncate_chars_def)
qed (simp add: truncate_chars_def)

lemma prefix_truncate: "prefix (truncate_chars s n) s"
proof -
  have "concat (take n (chars s)) @ concat (drop n (chars s)) = s"
    by (metis append_take_drop_id concat_append concat_chars)
  then show ?thesis unfolding truncate_chars_def by (metis prefixI prefix_order.refl)
qed

text \<open>
  The status of a shell command shows at most 30 characters of it after \<open>Running: \<close>, and the
  status of a subtask at most 40 characters of its description after \<open>Subtask: \<close>: what is shown is
  a prefix of the text, the whole text when it fits, and cut at a character boundary with an
  ellipsis after it otherwise.
\<close>

theorem tool_status_shows_prefix:
  "(\<exists>shown. prefix shown (str_or_empty (jindex input ''command'')) \<and> char_count shown \<le> 30
     \<and> format_tool_status ''Bash'' input = ''Running: '' @ shown
         @ (if shown = str_or_empty (jindex input ''command'') then [] else ELLIPSIS))
   \<and> (str_or_empty (jindex input ''description'') = []
       \<and> format_tool_status ''Task'' input = ''Running subtask''
     \<or> (\<exists>shown. prefix shown (str_or_empty (jindex input ''description'')) \<and> char_count shown \<le> 40
          \<and> format_tool_status ''Task'' input = ''Subtask: '' @ shown
              @ (if shown = str_or_empty (jindex input ''description'') then [] else ELLIPSIS)))"
proof -
  have cut: "\<exists>shown. prefix shown s \<and> char_count shown \<le> n
      \<and> (if n < char_count s then l @ truncate_chars s n @ ELLIPSIS else l @ s) =
          l @ shown @ (if shown = s then [] else ELLIPSIS)" for n :: nat and s l
  proof (cases "n < char_count s")
    case True
    then have "truncate_chars s n \<noteq> s" using char_count_truncate [of s n] by (auto simp: not_le)
    with True show ?thesis
      using char_count_truncate [of s n] prefix_truncate [of s n] by auto
  qed auto
  define c where "c = str_or_empty (jindex input ''command'')"
  define d where "d = str_or_empty (jindex input ''description'')"
  have "format_tool_status ''Bash'' input =
      (if 30 < char_count c then ''Running: '' @ truncate_chars c 30 @ ELLIPSIS else ''Running: '' @ c)"
    by (simp add: format_tool_status_def BASH_COMMAND_DISPLAY_MAX_LENGTH_def Let_def c_def)
  moreover have "format_tool_status ''Task'' input =
      (if d = [] then ''Running subtask''
       else if 40 < char_count d then ''Subtask: '' @ truncate_chars d 40 @ ELLIPSIS
       else ''Subtask: '' @ d)"
    by (simp add: format_tool_status_def TASK_DESCRIPTION_DISPLAY_MAX_LENGTH_def Let_def d_def)
  ultimately show ?thesis
    unfolding c_def [symmetric] d_def [symmetric]
    using cut [where n = 30 and s = c and l = "''Running: ''"]
      cut [where n = 40 and s = d and l = "''Subtask: ''"]
    by (cases "d = []") (simp_all only: if_True if_False simp_thms)
qed

section \<open>Whose events a line produces\<close>

definition tool_event :: "AgentEvent \<Rightarrow> bool" where
  "tool_event e \<longleftrightarrow> (case e of ToolStart _ _ _ _ _ \<Rightarrow> True | ToolDone _ _ _ \<Rightarrow> True | _ \<Rightarrow> False)"

lemma progress_events_memD:
  assumes "e \<in> set (progress_events record)"
  shows "\<exists>pid b. get_str record ''parentToolUseID'' = Some pid
    \<and> (e \<in> set (tool_start_of True (Some pid) b) \<or> e \<in> set (tool_done_of True (Some pid) b))"
proof (cases "get_str record ''parentToolUseID''")
  case (Some pid)
  obtain content where "e \<in> set (concat (map (tool_start_of True (Some pid)) content))
      \<or> e \<in> set (concat (map (tool_done_of True (Some pid)) content))"
    using assms Some unfolding progress_events_def Let_def
    by (simp split: option.splits if_splits) blast+
  with Some show ?thesis by auto
qed (use assms in \<open>simp add: progress_events_def\<close>)

text \<open>
  C31: the tool events of a \<open>progress\<close> line are those of the sub-agent whose parent tool the line
  names, and no other line produces a sub-agent event; a \<open>TurnEnd\<close> comes from a
  \<open>turn_duration\<close> line of the system only, and is the line's only event.
\<close>

theorem line_events_classified:
  assumes "from_str line = Some record" "e \<in> set (parse_jsonl_line from_str line had)"
  shows "(tool_event e \<longrightarrow>
      (if get_str record ''type'' = Some ''progress''
       then is_subagent e \<and> parent_tool_id e = get_str record ''parentToolUseID''
          \<and> parent_tool_id e \<noteq> None
       else \<not> is_subagent e \<and> parent_tool_id e = None))
    \<and> (e = TurnEnd \<longleftrightarrow> get_str record ''type'' = Some ''system'')
    \<and> (e = TurnEnd \<longrightarrow> get_str record ''subtype'' = Some ''turn_duration''
          \<and> parse_jsonl_line from_str line had = [TurnEnd])"
proof -
  have ty: "str_or_empty (jindex record ''type'') = t \<longleftrightarrow> get_str record ''type'' = Some t"
    if "t \<noteq> []" for t
    using that by (auto simp: str_or_empty_def split: option.splits)
  have ts: "x \<in> set (tool_start_of sub par b) \<Longrightarrow> tool_event x \<and> is_subagent x = sub \<and> parent_tool_id x = par \<and> x \<noteq> TurnEnd"
    for x sub par b
    by (cases "has_type ''tool_use'' b"; cases "as_str (jindex b ''id'')")
      (simp_all add: tool_start_of_def tool_event_def Let_def)
  have td: "x \<in> set (tool_done_of sub par b) \<Longrightarrow> tool_event x \<and> is_subagent x = sub \<and> parent_tool_id x = par \<and> x \<noteq> TurnEnd"
    for x sub par b
    by (cases "has_type ''tool_result'' b"; cases "as_str (jindex b ''tool_use_id'')")
      (simp_all add: tool_done_of_def tool_event_def)
  consider "get_str record ''type'' = Some ''assistant''" "e \<in> set (assistant_events record had)"
    | "get_str record ''type'' = Some ''user''" "e \<in> set (user_events record)"
    | "get_str record ''type'' = Some ''system''" "e \<in> set (system_events record)"
    | "get_str record ''type'' = Some ''progress''" "e \<in> set (progress_events record)"
    using assms ty by (auto simp: parse_jsonl_line_def Let_def split: if_splits)
  then show ?thesis
  proof cases
    case 1
    then show ?thesis
      by (auto simp: assistant_events_def tool_event_def split: option.splits if_splits dest!: ts)
  next
    case 2
    then show ?thesis
      by (auto simp: user_events_def tool_event_def Let_def split: option.splits if_splits dest!: td)
  next
    case 3
    with assms(1) show ?thesis
      using ty [of "''assistant''"] ty [of "''user''"] ty [of "''system''"]
      by (auto simp: system_events_def parse_jsonl_line_def Let_def tool_event_def split: if_splits)
  next
    case 4
    from progress_events_memD [OF 4(2)] obtain pid b
      where "get_str record ''parentToolUseID'' = Some pid"
        "e \<in> set (tool_start_of True (Some pid) b) \<or> e \<in> set (tool_done_of True (Some pid) b)"
      by blast
    with 4(1) show ?thesis using ts [of e True "Some pid" b] td [of e True "Some pid" b] by auto
  qed
qed

theorem line_events_classified_witness:
  "is_subagent (ToolDone ''t1'' True (Some ''p1'')) \<and>
   (let record = JObject
      [(''data'', JObject [(''message'', JObject
         [(''message'', JObject [(''content'', JArray
            [JObject [(''tool_use_id'', JString ''t1''), (''type'', JString ''tool_result'')]])]),
          (''type'', JString ''user'')])]),
       (''parentToolUseID'', JString ''p1''), (''type'', JString ''progress'')]
    in ToolDone ''t1'' True (Some ''p1'') \<in> set (parse_jsonl_line (\<lambda>_. Some record) [] False))"
proof -
  let ?rec = "JObject
      [(''data'', JObject [(''message'', JObject
         [(''message'', JObject [(''content'', JArray
            [JObject [(''tool_use_id'', JString ''t1''), (''type'', JString ''tool_result'')]])]),
          (''type'', JString ''user'')])]),
       (''parentToolUseID'', JString ''p1''), (''type'', JString ''progress'')]"
  have mem: "ToolDone ''t1'' True (Some ''p1'') \<in> set (parse_jsonl_line (\<lambda>_. Some ?rec) [] False)"
    by (simp add: parse_jsonl_line_def progress_events_def str_or_empty_def jindex_def Let_def
        tool_done_of_def has_type_def)
  from line_events_classified [OF _ mem, of ?rec] mem show ?thesis
    by (simp add: Let_def tool_event_def get_str_def)
qed

end
