(* ===== verification/Agent_State.thy ===== *)
theory Agent_State
  imports Transcript_Parser
begin

text \<open>
  \<open>src-tauri/src/agent_state.rs\<close>: the state of every agent, the events that change it and the
  payloads it emits to the frontend. \<open>Instant::now()\<close> is an argument: a time in nanoseconds,
  read once per call. The application handle is the log of the payloads emitted through it.
  The \<open>HashMap\<close>s are association lists; where the code iterates over the agents, the order of
  iteration, which Rust leaves open, is an argument.
\<close>

type_synonym instant = nat

definition TOOL_DONE_DELAY_MS :: nat where "TOOL_DONE_DELAY_MS = 300"
definition PERMISSION_TIMER_DELAY_MS :: nat where "PERMISSION_TIMER_DELAY_MS = 7000"
definition TEXT_IDLE_DELAY_MS :: nat where "TEXT_IDLE_DELAY_MS = 5000"

definition is_permission_exempt :: "string \<Rightarrow> bool" where
  "is_permission_exempt name \<longleftrightarrow> name = ''Task'' \<or> name = ''AskUserQuestion''"

text \<open>\<open>now.duration_since(start).as_millis()\<close>: it saturates at zero.\<close>

definition millis_since :: "instant \<Rightarrow> instant \<Rightarrow> nat" where
  "millis_since now start = (now - start) div 1000000"

record AgentStatePayload =
  pl_agent_id :: string
  pl_status :: string
  pl_tool_name :: "string option"
  pl_tool_id :: "string option"
  pl_tool_status :: "string option"
  pl_is_subagent :: "bool option"
  pl_parent_tool_id :: "string option"
  pl_agent_type :: "string option"

record AgentState =
  agent_id :: string
  agent_type :: "string option"
  active_tool_ids :: "string set"
  active_tool_names :: "(string, string) hmap"
  subagent_tool_ids :: "(string, string set) hmap"
  subagent_tool_names :: "(string, (string, string) hmap) hmap"
  is_waiting :: bool
  permission_sent :: bool
  had_tools_in_turn :: bool
  last_activity :: instant
  permission_timer_start :: "instant option"
  text_idle_timer_start :: "instant option"

definition new_agent :: "instant \<Rightarrow> string \<Rightarrow> string option \<Rightarrow> AgentState" where
  "new_agent now aid aty =
     \<lparr>agent_id = aid, agent_type = aty, active_tool_ids = {}, active_tool_names = [],
      subagent_tool_ids = [], subagent_tool_names = [], is_waiting = False,
      permission_sent = False, had_tools_in_turn = False, last_activity = now,
      permission_timer_start = None, text_idle_timer_start = None\<rparr>"

record AgentStateManager =
  agents :: "(string, AgentState) hmap"
  suppress_emit :: bool
  emitted :: "AgentStatePayload list"

definition new_manager :: AgentStateManager where
  "new_manager = \<lparr>agents = [], suppress_emit = False, emitted = []\<rparr>"

text \<open>\<open>app_handle.emit\<close>: the payload reaches the frontend.\<close>

definition push_event :: "AgentStatePayload \<Rightarrow> AgentStateManager \<Rightarrow> AgentStateManager" where
  "push_event p m = m\<lparr>emitted := emitted m @ [p]\<rparr>"

definition ensure_agent ::
  "instant \<Rightarrow> string \<Rightarrow> string option \<Rightarrow> AgentStateManager \<Rightarrow> AgentStateManager" where
  "ensure_agent now aid aty m =
     (case hget (agents m) aid of
        None \<Rightarrow> m\<lparr>agents := hinsert aid (new_agent now aid aty) (agents m)\<rparr>
      | Some a \<Rightarrow>
          if aty \<noteq> None \<and> agent_type a = None
          then m\<lparr>agents := hinsert aid (a\<lparr>agent_type := aty\<rparr>) (agents m)\<rparr>
          else m)"

definition emit :: "string \<Rightarrow> AgentStatePayload \<Rightarrow> AgentStateManager \<Rightarrow> AgentStateManager" where
  "emit aid p m =
     (if suppress_emit m then m
      else push_event
        (case hget (agents m) aid of
           Some a \<Rightarrow> p\<lparr>pl_agent_type := agent_type a\<rparr>
         | None \<Rightarrow> p) m)"

definition simple_payload :: "string \<Rightarrow> string \<Rightarrow> AgentStatePayload" where
  "simple_payload aid st =
     \<lparr>pl_agent_id = aid, pl_status = st, pl_tool_name = None, pl_tool_id = None,
      pl_tool_status = None, pl_is_subagent = None, pl_parent_tool_id = None, pl_agent_type = None\<rparr>"

definition discovered_payload :: "string \<Rightarrow> AgentState \<Rightarrow> AgentStatePayload" where
  "discovered_payload aid a = (simple_payload aid ''discovered'')\<lparr>pl_agent_type := agent_type a\<rparr>"

text \<open>\<open>emit_all_discovered\<close>: \<open>ord\<close> is the order in which the map yields its keys.\<close>

definition emit_all_discovered :: "string list \<Rightarrow> AgentStateManager \<Rightarrow> AgentStateManager" where
  "emit_all_discovered ord m =
     fold (\<lambda>aid m'. case hget (agents m) aid of
             Some a \<Rightarrow> push_event (discovered_payload aid a) m'
           | None \<Rightarrow> m') ord m"

text \<open>\<open>map.entry(parent).or_default().insert(\<dots>)\<close> on the two sub-agent maps.\<close>

definition add_sub_id ::
  "string \<Rightarrow> string \<Rightarrow> (string, string set) hmap \<Rightarrow> (string, string set) hmap" where
  "add_sub_id par tid m =
     hinsert par (insert tid (case hget m par of Some s \<Rightarrow> s | None \<Rightarrow> {})) m"

definition add_sub_name ::
  "string \<Rightarrow> string \<Rightarrow> string \<Rightarrow> (string, (string, string) hmap) hmap
    \<Rightarrow> (string, (string, string) hmap) hmap" where
  "add_sub_name par tid name m =
     hinsert par (hinsert tid name (case hget m par of Some s \<Rightarrow> s | None \<Rightarrow> [])) m"

definition remove_sub_id ::
  "string \<Rightarrow> string \<Rightarrow> (string, string set) hmap \<Rightarrow> (string, string set) hmap" where
  "remove_sub_id par tid m =
     (case hget m par of Some s \<Rightarrow> hinsert par (s - {tid}) m | None \<Rightarrow> m)"

definition remove_sub_name ::
  "string \<Rightarrow> string \<Rightarrow> (string, (string, string) hmap) hmap \<Rightarrow> (string, (string, string) hmap) hmap" where
  "remove_sub_name par tid m =
     (case hget m par of Some s \<Rightarrow> hinsert par (hremove tid s) m | None \<Rightarrow> m)"

text \<open>What each event does to the agent's own state.\<close>

fun apply_agent_event :: "instant \<Rightarrow> AgentEvent \<Rightarrow> AgentState \<Rightarrow> AgentState" where
  "apply_agent_event now (ToolStart tid name st sub par) a0 =
     (let a = a0\<lparr>last_activity := now, is_waiting := False, text_idle_timer_start := None\<rparr>;
          a = (if sub then
                 (case par of
                    Some p \<Rightarrow>
                      a\<lparr>subagent_tool_ids := add_sub_id p tid (subagent_tool_ids a),
                        subagent_tool_names := add_sub_name p tid name (subagent_tool_names a)\<rparr>
                  | None \<Rightarrow> a)
               else
                 a\<lparr>had_tools_in_turn := True,
                   active_tool_ids := insert tid (active_tool_ids a),
                   active_tool_names := hinsert tid name (active_tool_names a)\<rparr>)
      in if is_permission_exempt name then a else a\<lparr>permission_timer_start := Some now\<rparr>)"
| "apply_agent_event now (ToolDone tid sub par) a0 =
     (let a = a0\<lparr>last_activity := now\<rparr> in
      if sub then
        (case par of
           Some p \<Rightarrow>
             a\<lparr>subagent_tool_ids := remove_sub_id p tid (subagent_tool_ids a),
               subagent_tool_names := remove_sub_name p tid (subagent_tool_names a)\<rparr>
         | None \<Rightarrow> a)
      else
        (let a = (if hget (active_tool_names a) tid = Some ''Task''
                  then a\<lparr>subagent_tool_ids := hremove tid (subagent_tool_ids a),
                         subagent_tool_names := hremove tid (subagent_tool_names a)\<rparr>
                  else a);
             a = a\<lparr>active_tool_ids := active_tool_ids a - {tid},
                   active_tool_names := hremove tid (active_tool_names a)\<rparr>
         in if active_tool_ids a = {} then a\<lparr>had_tools_in_turn := False\<rparr> else a))"
| "apply_agent_event now TurnEnd a =
     a\<lparr>last_activity := now, active_tool_ids := {}, active_tool_names := [],
       subagent_tool_ids := [], subagent_tool_names := [], is_waiting := True,
       permission_sent := False, had_tools_in_turn := False,
       permission_timer_start := None, text_idle_timer_start := None\<rparr>"
| "apply_agent_event now Active a =
     a\<lparr>last_activity := now, is_waiting := False, text_idle_timer_start := None,
       permission_sent := False\<rparr>"
| "apply_agent_event now TextIdle a = a\<lparr>text_idle_timer_start := Some now\<rparr>"

text \<open>The payloads an event emits, given the agent before it.\<close>

fun event_payloads :: "string \<Rightarrow> AgentState \<Rightarrow> AgentEvent \<Rightarrow> AgentStatePayload list" where
  "event_payloads aid a (ToolStart tid name st sub par) =
     [\<lparr>pl_agent_id = aid, pl_status = ''tool_start'', pl_tool_name = Some name,
       pl_tool_id = Some tid, pl_tool_status = Some st,
       pl_is_subagent = (if sub then Some True else None),
       pl_parent_tool_id = par, pl_agent_type = None\<rparr>]"
| "event_payloads aid a (ToolDone tid sub par) =
     [\<lparr>pl_agent_id = aid, pl_status = ''tool_done'', pl_tool_name = None,
       pl_tool_id = Some tid, pl_tool_status = None,
       pl_is_subagent = (if sub then Some True else None),
       pl_parent_tool_id = par, pl_agent_type = None\<rparr>]"
| "event_payloads aid a TurnEnd = [simple_payload aid ''turn_end'']"
| "event_payloads aid a Active =
     (if permission_sent a then [simple_payload aid ''permission_clear''] else [])
     @ [simple_payload aid ''active'']"
| "event_payloads aid a TextIdle = []"

definition process_event ::
  "instant \<Rightarrow> string \<Rightarrow> AgentEvent \<Rightarrow> AgentStateManager \<Rightarrow> AgentStateManager" where
  "process_event now aid ev m0 =
     (let m = ensure_agent now aid None m0 in
      case hget (agents m) aid of
        None \<Rightarrow> m
      | Some a \<Rightarrow>
          fold (emit aid) (event_payloads aid a ev)
            (m\<lparr>agents := hinsert aid (apply_agent_event now ev a) (agents m)\<rparr>))"

definition process_events ::
  "instant \<Rightarrow> string \<Rightarrow> string option \<Rightarrow> AgentEvent list \<Rightarrow> AgentStateManager \<Rightarrow> AgentStateManager" where
  "process_events now aid aty evs m =
     fold (process_event now aid) evs (ensure_agent now aid aty m)"

definition has_non_exempt :: "(string, string) hmap \<Rightarrow> bool" where
  "has_non_exempt names \<longleftrightarrow> list_ex (\<lambda>(_, name). \<not> is_permission_exempt name) names"

definition has_non_exempt_sub :: "(string, (string, string) hmap) hmap \<Rightarrow> bool" where
  "has_non_exempt_sub subs \<longleftrightarrow> list_ex (\<lambda>(_, names). has_non_exempt names) subs"

text \<open>The two timer checks of \<open>tick_timers\<close>, for one agent: its new state and its payloads.\<close>

definition tick_permission :: "instant \<Rightarrow> AgentState \<Rightarrow> AgentState \<times> AgentStatePayload list" where
  "tick_permission now a =
     (case permission_timer_start a of
        None \<Rightarrow> (a, [])
      | Some start \<Rightarrow>
          if PERMISSION_TIMER_DELAY_MS \<le> millis_since now start then
            (let a = a\<lparr>permission_timer_start := None\<rparr> in
             if has_non_exempt (active_tool_names a) \<or> has_non_exempt_sub (subagent_tool_names a)
             then (a\<lparr>permission_sent := True\<rparr>, [simple_payload (agent_id a) ''permission''])
             else (a, []))
          else (a, []))"

definition tick_text_idle :: "instant \<Rightarrow> AgentState \<Rightarrow> AgentState \<times> AgentStatePayload list" where
  "tick_text_idle now a =
     (case text_idle_timer_start a of
        None \<Rightarrow> (a, [])
      | Some start \<Rightarrow>
          if TEXT_IDLE_DELAY_MS \<le> millis_since now start
          then (a\<lparr>text_idle_timer_start := None, is_waiting := True\<rparr>,
                [simple_payload (agent_id a) ''text_idle''])
          else (a, []))"

definition tick_agent :: "instant \<Rightarrow> AgentState \<Rightarrow> AgentState \<times> AgentStatePayload list" where
  "tick_agent now a =
     (let (a1, ps1) = tick_permission now a; (a2, ps2) = tick_text_idle now a1 in (a2, ps1 @ ps2))"

definition tick_timers :: "string list \<Rightarrow> instant \<Rightarrow> AgentStateManager \<Rightarrow> AgentStateManager" where
  "tick_timers ord now m =
     (let emissions = concat (map (\<lambda>aid. case hget (agents m) aid of
                                 Some a \<Rightarrow> snd (tick_agent now a) | None \<Rightarrow> []) ord);
          m' = m\<lparr>agents := map (\<lambda>(k, a). (k, fst (tick_agent now a))) (agents m)\<rparr>
      in fold (\<lambda>p. emit (pl_agent_id p) p) emissions m')"

definition on_data_received :: "instant \<Rightarrow> string \<Rightarrow> AgentStateManager \<Rightarrow> AgentStateManager" where
  "on_data_received now aid m =
     (case hget (agents m) aid of
        None \<Rightarrow> m
      | Some a0 \<Rightarrow>
          (let a = a0\<lparr>last_activity := now, permission_timer_start := None,
                      text_idle_timer_start := None\<rparr>
           in if permission_sent a
              then push_event
                ((simple_payload aid ''permission_clear'')\<lparr>pl_agent_type := agent_type a\<rparr>)
                (m\<lparr>agents := hinsert aid (a\<lparr>permission_sent := False\<rparr>) (agents m)\<rparr>)
              else m\<lparr>agents := hinsert aid a (agents m)\<rparr>))"

section \<open>The agent invariant\<close>

text \<open>
  The sets of tool ids and the maps of tool names always describe the same tools, for the
  agent's own tools and for those of each sub-agent, and \<open>had_tools_in_turn\<close> says exactly that a
  tool is running.
\<close>

definition sub_agree :: "(string, string set) hmap \<Rightarrow> (string, (string, string) hmap) hmap \<Rightarrow> bool" where
  "sub_agree ids names \<longleftrightarrow>
     (\<forall>p. rel_option (\<lambda>s n. s = hkeys n \<and> hdistinct n) (hget ids p) (hget names p))"

definition agent_inv :: "string \<Rightarrow> AgentState \<Rightarrow> bool" where
  "agent_inv aid a \<longleftrightarrow>
     agent_id a = aid
     \<and> active_tool_ids a = hkeys (active_tool_names a) \<and> hdistinct (active_tool_names a)
     \<and> (had_tools_in_turn a \<longleftrightarrow> active_tool_ids a \<noteq> {})
     \<and> sub_agree (subagent_tool_ids a) (subagent_tool_names a)"

definition mgr_inv :: "AgentStateManager \<Rightarrow> bool" where
  "mgr_inv m \<longleftrightarrow>
     hdistinct (agents m) \<and> (\<forall>aid a. hget (agents m) aid = Some a \<longrightarrow> agent_inv aid a)"

lemma sub_agree_Nil [simp]: "sub_agree [] []"
  by (simp add: sub_agree_def)

lemma sub_agree_add:
  assumes "sub_agree ids names"
  shows "sub_agree (add_sub_id p t ids) (add_sub_name p t n names)"
  unfolding sub_agree_def
proof
  fix q
  have R: "rel_option (\<lambda>s n. s = hkeys n \<and> hdistinct n) (hget ids r) (hget names r)" for r
    using assms by (simp add: sub_agree_def)
  show "rel_option (\<lambda>s n. s = hkeys n \<and> hdistinct n)
      (hget (add_sub_id p t ids) q) (hget (add_sub_name p t n names) q)"
    using R [of p] R [of q] by (cases "hget ids p"; cases "hget names p")
      (simp_all add: add_sub_id_def add_sub_name_def)
qed

lemma sub_agree_remove:
  assumes "sub_agree ids names"
  shows "sub_agree (remove_sub_id p t ids) (remove_sub_name p t names)"
  unfolding sub_agree_def
proof
  fix q
  have R: "rel_option (\<lambda>s n. s = hkeys n \<and> hdistinct n) (hget ids r) (hget names r)" for r
    using assms by (simp add: sub_agree_def)
  show "rel_option (\<lambda>s n. s = hkeys n \<and> hdistinct n)
      (hget (remove_sub_id p t ids) q) (hget (remove_sub_name p t names) q)"
    using R [of p] R [of q] by (cases "hget ids p"; cases "hget names p")
      (simp_all add: remove_sub_id_def remove_sub_name_def)
qed

lemma sub_agree_hremove:
  "sub_agree ids names \<Longrightarrow> sub_agree (hremove p ids) (hremove p names)"
  by (simp add: sub_agree_def)

lemma agent_inv_new: "agent_inv aid (new_agent now aid aty)"
  by (simp add: agent_inv_def new_agent_def)

lemma agent_inv_event: "agent_inv aid a \<Longrightarrow> agent_inv aid (apply_agent_event now ev a)"
  by (cases ev)
    (auto simp: agent_inv_def Let_def sub_agree_add sub_agree_remove sub_agree_hremove
      split: option.splits)

lemma agent_inv_tick: "agent_inv aid a \<Longrightarrow> agent_inv aid (fst (tick_agent now a))"
  by (auto simp: agent_inv_def tick_agent_def tick_permission_def tick_text_idle_def Let_def
      split: option.splits)

section \<open>Effects on the manager\<close>

lemma push_event_sel [simp]:
  "agents (push_event p m) = agents m" "suppress_emit (push_event p m) = suppress_emit m"
  "emitted (push_event p m) = emitted m @ [p]"
  by (simp_all add: push_event_def)

lemma agents_emit [simp]: "agents (emit aid p m) = agents m"
  and suppress_emit_emit [simp]: "suppress_emit (emit aid p m) = suppress_emit m"
  by (simp_all add: emit_def)

lemma agents_fold_emit [simp]: "agents (fold (\<lambda>p. emit (f p) p) ps m) = agents m"
  and suppress_fold_emit [simp]: "suppress_emit (fold (\<lambda>p. emit (f p) p) ps m) = suppress_emit m"
  by (induction ps arbitrary: m) auto

lemmas agents_fold_emit_const [simp] = agents_fold_emit [where f = "\<lambda>_. aid" for aid]
lemmas suppress_fold_emit_const [simp] = suppress_fold_emit [where f = "\<lambda>_. aid" for aid]

text \<open>The payload with the type of the agent that emits it.\<close>

definition typed :: "AgentStateManager \<Rightarrow> string \<Rightarrow> AgentStatePayload \<Rightarrow> AgentStatePayload" where
  "typed m aid p =
     (case hget (agents m) aid of Some a \<Rightarrow> p\<lparr>pl_agent_type := agent_type a\<rparr> | None \<Rightarrow> p)"

lemma emitted_emit:
  "emitted (emit aid p m) = emitted m @ (if suppress_emit m then [] else [typed m aid p])"
  by (auto simp: emit_def typed_def)

lemma typed_emit [simp]: "typed (emit aid p m) = typed m"
  by (simp add: typed_def fun_eq_iff)

lemma emitted_fold_emit:
  "emitted (fold (\<lambda>p. emit (f p) p) ps m) =
     emitted m @ (if suppress_emit m then [] else map (\<lambda>p. typed m (f p) p) ps)"
  by (induction ps arbitrary: m) (auto simp: emitted_emit)

lemma typed_agent_id [simp]: "pl_agent_id (typed m aid p) = pl_agent_id p"
  and typed_status [simp]: "pl_status (typed m aid p) = pl_status p"
  and typed_tool_id [simp]: "pl_tool_id (typed m aid p) = pl_tool_id p"
  by (auto simp: typed_def split: option.splits)

lemma hget_ensure_agent:
  "hget (agents (ensure_agent now aid aty m)) bid =
     (if bid = aid
      then Some (case hget (agents m) aid of
             None \<Rightarrow> new_agent now aid aty
           | Some a \<Rightarrow> if aty \<noteq> None \<and> agent_type a = None then a\<lparr>agent_type := aty\<rparr> else a)
      else hget (agents m) bid)"
  by (auto simp: ensure_agent_def split: option.splits)

lemma ensure_agent_sel [simp]:
  "emitted (ensure_agent now aid aty m) = emitted m"
  "suppress_emit (ensure_agent now aid aty m) = suppress_emit m"
  by (auto simp: ensure_agent_def split: option.splits)

lemma mgr_inv_ensure: "mgr_inv m \<Longrightarrow> mgr_inv (ensure_agent now aid aty m)"
  unfolding mgr_inv_def
  by (auto simp: ensure_agent_def agent_inv_new split: option.splits)
    (auto simp: agent_inv_def split: if_splits)

lemma mgr_inv_update:
  "mgr_inv m \<Longrightarrow> agent_inv aid a \<Longrightarrow> mgr_inv (m\<lparr>agents := hinsert aid a (agents m)\<rparr>)"
  by (auto simp: mgr_inv_def)

lemma mgr_inv_agents_cong: "agents m = agents m' \<Longrightarrow> mgr_inv m = mgr_inv m'"
  by (simp add: mgr_inv_def)

lemma process_event_sel:
  fixes m now aid
  defines "a \<equiv> the (hget (agents (ensure_agent now aid None m)) aid)"
  shows "agents (process_event now aid ev m) =
      hinsert aid (apply_agent_event now ev a) (agents (ensure_agent now aid None m))"
    and "suppress_emit (process_event now aid ev m) = suppress_emit m"
    and "emitted (process_event now aid ev m) = emitted m @
      (if suppress_emit m then []
       else map (typed (process_event now aid ev m) aid) (event_payloads aid a ev))"
proof -
  have some: "hget (agents (ensure_agent now aid None m)) aid = Some a"
    by (simp add: a_def hget_ensure_agent)
  let ?m = "(ensure_agent now aid None m)
    \<lparr>agents := hinsert aid (apply_agent_event now ev a) (agents (ensure_agent now aid None m))\<rparr>"
  have eq: "process_event now aid ev m = fold (emit aid) (event_payloads aid a ev) ?m"
    by (simp add: process_event_def some Let_def)
  note fold_eq = emitted_fold_emit [of "\<lambda>_. aid" "event_payloads aid a ev" ?m]
  show ag: "agents (process_event now aid ev m) =
      hinsert aid (apply_agent_event now ev a) (agents (ensure_agent now aid None m))"
    by (simp add: eq)
  show "suppress_emit (process_event now aid ev m) = suppress_emit m" by (simp add: eq)
  have "typed (process_event now aid ev m) = typed ?m"
    using ag by (simp add: typed_def fun_eq_iff)
  with fold_eq show "emitted (process_event now aid ev m) = emitted m @
      (if suppress_emit m then []
       else map (typed (process_event now aid ev m) aid) (event_payloads aid a ev))"
    by (simp add: eq)
qed

lemma mgr_inv_process_event: "mgr_inv m \<Longrightarrow> mgr_inv (process_event now aid ev m)"
proof -
  assume "mgr_inv m"
  then have e: "mgr_inv (ensure_agent now aid None m)" by (rule mgr_inv_ensure)
  then have "agent_inv aid (the (hget (agents (ensure_agent now aid None m)) aid))"
    unfolding mgr_inv_def by (auto simp: hget_ensure_agent)
  then have "agent_inv aid
      (apply_agent_event now ev (the (hget (agents (ensure_agent now aid None m)) aid)))"
    by (rule agent_inv_event)
  from mgr_inv_update [OF e this] show ?thesis
    by (rule mgr_inv_agents_cong [THEN iffD1, rotated]) (simp add: process_event_sel)
qed

lemma mgr_inv_process_events: "mgr_inv m \<Longrightarrow> mgr_inv (process_events now aid aty evs m)"
proof -
  have "mgr_inv m \<Longrightarrow> mgr_inv (fold (process_event now aid) evs m)" for m
    by (induction evs arbitrary: m) (auto intro: mgr_inv_process_event)
  then show "mgr_inv m \<Longrightarrow> mgr_inv (process_events now aid aty evs m)"
    by (simp add: process_events_def mgr_inv_ensure)
qed

lemma hget_map_agents:
  "hget (map (\<lambda>(k, a). (k, f a)) xs) k = map_option f (hget xs k)"
  by (induction xs) auto

lemma agents_tick:
  "agents (tick_timers ord now m) = map (\<lambda>(k, a). (k, fst (tick_agent now a))) (agents m)"
  by (simp add: tick_timers_def Let_def)

lemma hget_tick:
  "hget (agents (tick_timers ord now m)) aid
     = map_option (\<lambda>a. fst (tick_agent now a)) (hget (agents m) aid)"
  by (simp add: agents_tick hget_map_agents)

lemma mgr_inv_tick: "mgr_inv m \<Longrightarrow> mgr_inv (tick_timers ord now m)"
  unfolding mgr_inv_def
  by (auto simp: agents_tick hget_map_agents agent_inv_tick comp_def case_prod_beta)

lemma mgr_inv_on_data: "mgr_inv m \<Longrightarrow> mgr_inv (on_data_received now aid m)"
  unfolding mgr_inv_def
  by (auto simp: on_data_received_def Let_def agent_inv_def split: option.splits)

lemma agents_discovered [simp]: "agents (emit_all_discovered ord m) = agents m"
proof -
  have "agents (fold (\<lambda>aid m'. case hget as aid of
             Some a \<Rightarrow> push_event (discovered_payload aid a) m' | None \<Rightarrow> m') ord m) = agents m" for as
    by (induction ord arbitrary: m) (auto split: option.splits)
  then show ?thesis by (simp add: emit_all_discovered_def)
qed

section \<open>Every run keeps the invariant\<close>

text \<open>The calls the watcher makes on the manager.\<close>

datatype mgr_op =
    Events instant string "string option" "AgentEvent list"
  | Tick "string list" instant
  | DataReceived instant string
  | SetSuppress bool
  | Discover "string list"

fun mgr_step :: "mgr_op \<Rightarrow> AgentStateManager \<Rightarrow> AgentStateManager" where
  "mgr_step (Events now aid aty evs) m = process_events now aid aty evs m"
| "mgr_step (Tick ord now) m = tick_timers ord now m"
| "mgr_step (DataReceived now aid) m = on_data_received now aid m"
| "mgr_step (SetSuppress b) m = m\<lparr>suppress_emit := b\<rparr>"
| "mgr_step (Discover ord) m = emit_all_discovered ord m"

interpretation mgr: invariant_machine mgr_step mgr_inv new_manager
proof
  show "mgr_inv new_manager" by (simp add: mgr_inv_def new_manager_def)
next
  fix m op assume "mgr_inv m"
  then show "mgr_inv (mgr_step op m)"
    by (cases op)
      (auto intro: mgr_inv_process_events mgr_inv_tick mgr_inv_on_data
        mgr_inv_agents_cong [THEN iffD1, rotated])
qed

section \<open>Properties\<close>

text \<open>
  C1: whatever sequence of calls the watcher makes, every agent is stored under its own id, its
  set of active tool ids is the set of keys of its map of tool names, the flag
  \<open>had_tools_in_turn\<close> holds exactly while a tool is active, and the two sub-agent maps have the
  same parents with the same tools.
\<close>

theorem agent_invariant_reachable:
  assumes "hget (agents (fold mgr_step ops new_manager)) aid = Some a"
  shows "agent_id a = aid
    \<and> active_tool_ids a = hkeys (active_tool_names a)
    \<and> (had_tools_in_turn a \<longleftrightarrow> active_tool_ids a \<noteq> {})
    \<and> (\<forall>p. rel_option (\<lambda>s n. s = hkeys n) (hget (subagent_tool_ids a) p) (hget (subagent_tool_names a) p))"
proof -
  have "agent_inv aid a" using mgr.inv_run [of ops] assms by (simp add: mgr_inv_def)
  then have inv: "sub_agree (subagent_tool_ids a) (subagent_tool_names a)"
    and rest: "agent_id a = aid" "active_tool_ids a = hkeys (active_tool_names a)"
      "had_tools_in_turn a \<longleftrightarrow> active_tool_ids a \<noteq> {}"
    unfolding agent_inv_def by simp_all
  have "rel_option (\<lambda>s n. s = hkeys n) (hget (subagent_tool_ids a) p) (hget (subagent_tool_names a) p)"
    for p
    using inv unfolding sub_agree_def by (rule allE [of _ p]) (auto elim: option.rel_mono_strong)
  with rest show ?thesis by simp
qed

definition demo_run :: "mgr_op list" where
  "demo_run = [Events 0 ''a1'' (Some ''codex'') [Active, ToolStart ''t1'' ''Bash'' ''Running: ls'' False None]]"

theorem agent_invariant_reachable_witness:
  "let a = the (hget (agents (fold mgr_step demo_run new_manager)) ''a1'') in
   active_tool_ids a = {''t1''} \<and> had_tools_in_turn a \<and> agent_id a = ''a1''"
proof -
  have "hget (agents (fold mgr_step demo_run new_manager)) ''a1'' =
      Some (the (hget (agents (fold mgr_step demo_run new_manager)) ''a1''))"
    by code_simp
  note inv = agent_invariant_reachable [OF this]
  have "active_tool_ids (the (hget (agents (fold mgr_step demo_run new_manager)) ''a1'')) = {''t1''}"
    by code_simp
  with inv show ?thesis by (simp add: Let_def)
qed

text \<open>
  Processing the events of one agent leaves the state of every other agent as it is, and
  every payload it emits names that agent.
\<close>

theorem events_touch_one_agent:
  assumes "bid \<noteq> aid"
  shows "hget (agents (process_events now aid aty evs m)) bid = hget (agents m) bid
    \<and> (\<exists>ps. emitted (process_events now aid aty evs m) = emitted m @ ps
          \<and> list_all (\<lambda>p. pl_agent_id p = aid) ps)"
proof -
  have payloads: "list_all (\<lambda>p. pl_agent_id p = aid) (event_payloads aid a ev)" for a ev
    by (cases ev) (auto simp: simple_payload_def)
  have step: "hget (agents (process_event now aid ev m)) bid = hget (agents m) bid
    \<and> (\<exists>ps. emitted (process_event now aid ev m) = emitted m @ ps
          \<and> list_all (\<lambda>p. pl_agent_id p = aid) ps)" for ev m
    using assms payloads
    by (auto simp: process_event_sel(1,2) hget_ensure_agent process_event_sel(3) [of now aid ev m]
        list_all_iff)
  have "hget (agents (fold (process_event now aid) evs m)) bid = hget (agents m) bid
    \<and> (\<exists>ps. emitted (fold (process_event now aid) evs m) = emitted m @ ps
          \<and> list_all (\<lambda>p. pl_agent_id p = aid) ps)" for m
  proof (induction evs arbitrary: m)
    case (Cons ev evs)
    obtain ps where ps: "emitted (process_event now aid ev m) = emitted m @ ps"
      "list_all (\<lambda>p. pl_agent_id p = aid) ps" using step by blast
    obtain qs where qs: "emitted (fold (process_event now aid) evs (process_event now aid ev m)) =
        emitted (process_event now aid ev m) @ qs" "list_all (\<lambda>p. pl_agent_id p = aid) qs"
      using Cons.IH by blast
    have "emitted (fold (process_event now aid) (ev # evs) m) = emitted m @ (ps @ qs)
      \<and> list_all (\<lambda>p. pl_agent_id p = aid) (ps @ qs)"
      using ps qs by simp
    then show ?case using step [of ev m] Cons.IH [of "process_event now aid ev m"]
      by (simp only: fold_simps comp_apply) blast
  qed simp
  from this [of "ensure_agent now aid aty m"] show ?thesis
    using assms by (simp add: process_events_def hget_ensure_agent)
qed

theorem events_touch_one_agent_witness:
  "hget (agents (process_events 5 ''a2'' None [TurnEnd] (fold mgr_step demo_run new_manager))) ''a1''
     = hget (agents (fold mgr_step demo_run new_manager)) ''a1''"
  using events_touch_one_agent [of "''a1''" "''a2''" 5 None "[TurnEnd]" "fold mgr_step demo_run new_manager"]
  by simp

section \<open>Timers\<close>

definition permission_due :: "instant \<Rightarrow> AgentState \<Rightarrow> bool" where
  "permission_due now a \<longleftrightarrow>
     (\<exists>t. permission_timer_start a = Some t \<and> 7000 \<le> (now - t) div 1000000)
     \<and> (has_non_exempt (active_tool_names a) \<or> has_non_exempt_sub (subagent_tool_names a))"

definition text_idle_due :: "instant \<Rightarrow> AgentState \<Rightarrow> bool" where
  "text_idle_due now a \<longleftrightarrow> (\<exists>t. text_idle_timer_start a = Some t \<and> 5000 \<le> (now - t) div 1000000)"

lemma snd_tick_agent:
  "snd (tick_agent now a) =
     (if permission_due now a then [simple_payload (agent_id a) ''permission''] else [])
     @ (if text_idle_due now a then [simple_payload (agent_id a) ''text_idle''] else [])"
  by (auto simp: tick_agent_def tick_permission_def tick_text_idle_def permission_due_def
      text_idle_due_def PERMISSION_TIMER_DELAY_MS_def TEXT_IDLE_DELAY_MS_def millis_since_def Let_def
      split: option.splits)

lemma agent_type_tick [simp]: "agent_type (fst (tick_agent now a)) = agent_type a"
  and agent_id_tick [simp]: "agent_id (fst (tick_agent now a)) = agent_id a"
  by (auto simp: tick_agent_def tick_permission_def tick_text_idle_def Let_def split: option.splits)

lemma emitted_tick:
  "emitted (tick_timers ord now m) = emitted m @
     (if suppress_emit m then []
      else map (\<lambda>p. typed m (pl_agent_id p) p)
        (concat (map (\<lambda>aid. case hget (agents m) aid of
           Some a \<Rightarrow> snd (tick_agent now a) | None \<Rightarrow> []) ord)))"
proof -
  have "typed (m\<lparr>agents := map (\<lambda>(k, a). (k, fst (tick_agent now a))) (agents m)\<rparr>) = typed m"
    by (auto simp: typed_def fun_eq_iff hget_map_agents split: option.splits)
  then show ?thesis by (simp add: tick_timers_def Let_def emitted_fold_emit)
qed

lemma filter_concat_one:
  assumes "distinct ks" "k \<in> set ks" "\<And>j p. j \<in> set ks \<Longrightarrow> p \<in> set (f j) \<Longrightarrow> P p \<longleftrightarrow> j = k"
  shows "filter P (concat (map f ks)) = f k"
  using assms
proof (induction ks)
  case (Cons j ks)
  have other: "filter P (concat (map f ks)) = []" if "k \<notin> set ks"
    using that Cons.prems(3) by (fastforce simp: filter_empty_conv)
  show ?case
  proof (cases "j = k")
    case True
    then show ?thesis using Cons.prems other by (auto intro: filter_True)
  next
    case False
    then have "filter P (f j) = []" using Cons.prems(3) by (auto simp: filter_empty_conv)
    with False Cons show ?thesis by auto
  qed
qed simp

lemma tick_emits_what_is_due_aux:
  assumes "mgr_inv m" "hget (agents m) aid = Some a" "\<not> suppress_emit m"
    and "distinct ord" "set ord = hkeys (agents m)"
  shows "filter (\<lambda>p. pl_agent_id p = aid) (drop (length (emitted m)) (emitted (tick_timers ord now m))) =
    (if permission_due now a
     then [(simple_payload aid ''permission'')\<lparr>pl_agent_type := agent_type a\<rparr>] else [])
    @ (if text_idle_due now a
       then [(simple_payload aid ''text_idle'')\<lparr>pl_agent_type := agent_type a\<rparr>] else [])"
proof -
  let ?f = "\<lambda>k. case hget (agents m) k of Some a \<Rightarrow> snd (tick_agent now a) | None \<Rightarrow> []"
  have ids: "p \<in> set (?f k) \<Longrightarrow> pl_agent_id p = k" for k p
    using assms(1) by (auto simp: snd_tick_agent mgr_inv_def agent_inv_def simple_payload_def
        split: option.splits if_splits)
  have "filter (\<lambda>p. pl_agent_id p = aid) (concat (map ?f ord)) = ?f aid"
  proof (rule filter_concat_one)
    show "aid \<in> set ord" using assms(2,5) by (simp add: hkeys_iff_hget)
    show "pl_agent_id p = aid \<longleftrightarrow> j = aid" if "p \<in> set (?f j)" for j p using ids [OF that] by simp
  qed (rule assms(4))
  then have eq: "filter (\<lambda>p. pl_agent_id p = aid)
      (drop (length (emitted m)) (emitted (tick_timers ord now m))) =
      map (\<lambda>p. typed m (pl_agent_id p) p) (?f aid)"
    using assms(3) by (simp add: emitted_tick filter_map comp_def)
  have "agent_id a = aid" using assms(1,2) by (simp add: mgr_inv_def agent_inv_def)
  then show ?thesis
    unfolding eq using assms(2) by (simp add: snd_tick_agent typed_def simple_payload_def)
qed

text \<open>
  C10: a timer tick emits for an agent exactly what is due, whatever the order in which the map
  is iterated: a \<open>permission\<close> payload when its permission timer is seven seconds old and a tool
  that needs permission is still running, then a \<open>text_idle\<close> payload when its text timer is five
  seconds old, both with the agent's type, and nothing else.
\<close>

theorem tick_emits_what_is_due:
  assumes "mgr_inv m" "hget (agents m) aid = Some a" "\<not> suppress_emit m"
    and "distinct ord" "set ord = hkeys (agents m)"
  shows "filter (\<lambda>p. pl_agent_id p = aid) (drop (length (emitted m)) (emitted (tick_timers ord now m))) =
    (if permission_due now a
     then [(simple_payload aid ''permission'')\<lparr>pl_agent_type := agent_type a\<rparr>] else [])
    @ (if text_idle_due now a
       then [(simple_payload aid ''text_idle'')\<lparr>pl_agent_type := agent_type a\<rparr>] else [])"
  using assms by (rule tick_emits_what_is_due_aux)

theorem tick_emits_what_is_due_witness:
  "filter (\<lambda>p. pl_agent_id p = ''a1'')
     (drop (length (emitted (fold mgr_step demo_run new_manager)))
       (emitted (tick_timers [''a1''] 7000000000 (fold mgr_step demo_run new_manager)))) =
   [(simple_payload ''a1'' ''permission'')\<lparr>pl_agent_type := Some ''codex''\<rparr>]"
proof -
  let ?m = "fold mgr_step demo_run new_manager"
  have a: "hget (agents ?m) ''a1'' = Some (the (hget (agents ?m) ''a1''))" by code_simp
  have s: "\<not> suppress_emit ?m" by code_simp
  have k: "set [''a1''] = hkeys (agents ?m)" by code_simp
  have due: "permission_due 7000000000 (the (hget (agents ?m) ''a1''))"
    "\<not> text_idle_due 7000000000 (the (hget (agents ?m) ''a1''))"
    "agent_type (the (hget (agents ?m) ''a1'')) = Some ''codex''"
    by (simp_all add: demo_run_def new_manager_def process_events_def process_event_def
        ensure_agent_def new_agent_def emit_def push_event_def permission_due_def text_idle_due_def
        is_permission_exempt_def has_non_exempt_def)
  from tick_emits_what_is_due [OF mgr.inv_run a s _ k, of 7000000000] due show ?thesis by simp
qed

lemma tick_agent_idle:
  "permission_timer_start a = None \<Longrightarrow> text_idle_timer_start a = None \<Longrightarrow> tick_agent now a = (a, [])"
  by (simp add: tick_agent_def tick_permission_def tick_text_idle_def)

definition no_timers :: "string \<Rightarrow> AgentStateManager \<Rightarrow> bool" where
  "no_timers aid m \<longleftrightarrow> mgr_inv m \<and> (\<exists>a. hget (agents m) aid = Some a
     \<and> permission_timer_start a = None \<and> text_idle_timer_start a = None)"

lemma tick_no_timers:
  assumes "no_timers aid m"
  shows "no_timers aid (tick_timers ord now m)
    \<and> hget (agents (tick_timers ord now m)) aid = hget (agents m) aid
    \<and> (\<exists>ps. emitted (tick_timers ord now m) = emitted m @ ps \<and> list_all (\<lambda>p. pl_agent_id p \<noteq> aid) ps)"
proof -
  obtain a where inv: "mgr_inv m" and a: "hget (agents m) aid = Some a"
    and idle: "tick_agent t a = (a, [])" for t
    using assms tick_agent_idle by (auto simp: no_timers_def)
  let ?f = "\<lambda>k. case hget (agents m) k of Some a \<Rightarrow> snd (tick_agent now a) | None \<Rightarrow> []"
  have ids: "pl_agent_id p \<noteq> aid" if "p \<in> set (?f k)" for k p
    using that inv a idle [of now]
    by (cases "k = aid") (auto simp: snd_tick_agent mgr_inv_def agent_inv_def simple_payload_def
        split: option.splits if_splits)
  have "hget (agents (tick_timers ord now m)) aid = hget (agents m) aid"
    using a idle by (simp add: hget_tick)
  moreover have "no_timers aid (tick_timers ord now m)"
    using assms calculation mgr_inv_tick [OF inv] by (simp add: no_timers_def)
  ultimately show ?thesis
    using ids by (force simp: emitted_tick list_all_iff)
qed

lemma ticks_no_timers:
  "no_timers aid m \<Longrightarrow>
    hget (agents (fold (\<lambda>(ord, t). tick_timers ord t) ticks m)) aid = hget (agents m) aid
    \<and> (\<exists>ps. emitted (fold (\<lambda>(ord, t). tick_timers ord t) ticks m) = emitted m @ ps
          \<and> list_all (\<lambda>p. pl_agent_id p \<noteq> aid) ps)"
proof (induction ticks arbitrary: m)
  case (Cons tk ticks)
  obtain ord t where tk: "tk = (ord, t)" by fastforce
  note one = tick_no_timers [OF Cons.prems, of ord t]
  then obtain ps where ps: "emitted (tick_timers ord t m) = emitted m @ ps"
    "list_all (\<lambda>p. pl_agent_id p \<noteq> aid) ps" by blast
  from one have "no_timers aid (tick_timers ord t m)" by blast
  note IH = Cons.IH [OF this]
  then obtain qs where qs: "emitted (fold (\<lambda>(ord, t). tick_timers ord t) ticks (tick_timers ord t m)) =
      emitted (tick_timers ord t m) @ qs" "list_all (\<lambda>p. pl_agent_id p \<noteq> aid) qs" by blast
  have "emitted (fold (\<lambda>(ord, t). tick_timers ord t) (tk # ticks) m) = emitted m @ (ps @ qs)
    \<and> list_all (\<lambda>p. pl_agent_id p \<noteq> aid) (ps @ qs)"
    using ps qs tk by simp
  then show ?case using one IH tk by (simp only: fold_simps comp_apply prod.case) blast
qed simp

lemma no_timers_turn_end: "mgr_inv m \<Longrightarrow> no_timers aid (process_event now aid TurnEnd m)"
  unfolding no_timers_def by (simp add: mgr_inv_process_event process_event_sel)

text \<open>
  Once a turn has ended, no timer tick emits anything for the agent until its next event: any
  number of ticks at any times leaves its state as \<open>TurnEnd\<close> left it and adds no payload of it.
\<close>

theorem turn_end_silences_timers:
  assumes "mgr_inv m"
  shows "let m1 = process_event now aid TurnEnd m;
             m2 = fold (\<lambda>(ord, t). tick_timers ord t) ticks m1
    in hget (agents m2) aid = hget (agents m1) aid
       \<and> (\<exists>ps. emitted m2 = emitted m1 @ ps \<and> list_all (\<lambda>p. pl_agent_id p \<noteq> aid) ps)"
  using ticks_no_timers [OF no_timers_turn_end [OF assms]] unfolding Let_def by blast

theorem turn_end_silences_timers_witness:
  "let m1 = process_event 9 ''a1'' TurnEnd (fold mgr_step demo_run new_manager) in
   hget (agents (tick_timers [''a1''] 20000000000 m1)) ''a1'' = hget (agents m1) ''a1''"
  using turn_end_silences_timers [OF mgr.inv_run [of demo_run], of 9 "''a1''" "[([''a1''], 20000000000)]"]
  by (simp add: Let_def)

text \<open>
  C12: a running tool that needs permission is reported. When a tool that is not exempt starts,
  and the next thing to happen is a timer tick at least seven seconds later, the tick emits the
  \<open>permission\<close> payload of that agent, and no tick before that does.
\<close>

theorem tool_start_reaches_permission:
  assumes "mgr_inv m" "\<not> suppress_emit m" "\<not> is_permission_exempt name"
    and "m1 = process_event t0 aid (ToolStart tid name st False None) m"
    and "distinct ord" "set ord = hkeys (agents m1)"
  shows "(\<exists>p \<in> set (drop (length (emitted m1)) (emitted (tick_timers ord now m1))).
      pl_agent_id p = aid \<and> pl_status p = ''permission'') \<longleftrightarrow> t0 + 7000000000 \<le> now"
proof -
  note m1 = assms(4)
  have inv: "mgr_inv m1" and sup: "\<not> suppress_emit m1"
    using assms(1,2) by (simp_all add: m1 mgr_inv_process_event process_event_sel)
  define a where "a = apply_agent_event t0 (ToolStart tid name st False None)
    (the (hget (agents (ensure_agent t0 aid None m)) aid))"
  have a: "hget (agents m1) aid = Some a" by (simp add: m1 process_event_sel a_def)
  have "hget (active_tool_names a) tid = Some name" using assms(3) by (simp add: a_def Let_def)
  then have "has_non_exempt (active_tool_names a)"
    using assms(3) by (auto simp: has_non_exempt_def list_ex_iff dest: map_of_SomeD)
  then have due: "permission_due now a \<longleftrightarrow> t0 + 7000000000 \<le> now"
    using assms(3) by (auto simp: permission_due_def a_def Let_def)
  let ?new = "drop (length (emitted m1)) (emitted (tick_timers ord now m1))"
  have "(\<exists>p \<in> set ?new. pl_agent_id p = aid \<and> pl_status p = ''permission'') \<longleftrightarrow>
      (\<exists>p \<in> set (filter (\<lambda>p. pl_agent_id p = aid) ?new). pl_status p = ''permission'')"
    by auto
  also have "\<dots> \<longleftrightarrow> permission_due now a"
    by (subst tick_emits_what_is_due_aux [OF inv a sup assms(5,6)]) (auto simp: simple_payload_def)
  finally show ?thesis using due by simp
qed

theorem tool_start_reaches_permission_witness:
  "\<exists>p \<in> set (drop 1 (emitted (tick_timers [''a1''] 7000000000
       (process_event 0 ''a1'' (ToolStart ''t'' ''Edit'' ''x'' False None) new_manager)))).
     pl_agent_id p = ''a1'' \<and> pl_status p = ''permission''"
proof -
  have k: "set [''a1''] =
      hkeys (agents (process_event 0 ''a1'' (ToolStart ''t'' ''Edit'' ''x'' False None) new_manager))"
    by code_simp
  have len: "length (emitted
      (process_event 0 ''a1'' (ToolStart ''t'' ''Edit'' ''x'' False None) new_manager)) = 1"
    by code_simp
  show ?thesis
    using tool_start_reaches_permission [OF mgr.inv_init _ _ refl _ k, of 7000000000] len
    by (simp add: new_manager_def is_permission_exempt_def)
qed

end
