(* ===== verification/File_Watcher.thy ===== *)
theory File_Watcher
  imports Agent_State
begin

text \<open>
  \<open>src-tauri/src/file_watcher.rs\<close>: the session logs are tailed incrementally and their new
  lines fed to the parser and the agent state manager. The file system is a parameter, one
  view (\<open>fs_view\<close>) per call; \<open>from_str\<close> is the JSON parser. A \<open>None\<close> result stands for a
  panic at one of the \<open>unwrap\<close>s.
\<close>

record FileReadState =
  offset :: nat
  line_buffer :: string

record WatcherState =
  state_manager :: AgentStateManager
  file_states :: "(path, FileReadState) hmap"
  known_jsonl_files :: "(path, string \<times> string option) hmap"

definition new_watcher :: WatcherState where
  "new_watcher = \<lparr>state_manager = new_manager, file_states = [], known_jsonl_files = []\<rparr>"

text \<open>
  What one call sees of the file system: the length of a file (\<open>fs::metadata\<close>), the bytes of a
  range of it (\<open>open\<close>, \<open>seek\<close> and \<open>read_exact\<close>; \<open>None\<close> when one of them fails), the entries of a
  directory, and whether a path exists or is a directory.
\<close>

record fs_view =
  fs_len :: "path \<Rightarrow> nat option"
  fs_read :: "path \<Rightarrow> nat \<Rightarrow> nat \<Rightarrow> string option"
  fs_read_dir :: "path \<Rightarrow> path list option"
  fs_is_dir :: "path \<Rightarrow> bool"
  fs_exists :: "path \<Rightarrow> bool"

definition agent_id_from_path :: "path \<Rightarrow> string" where
  "agent_id_from_path p = (case file_stem p of Some s \<Rightarrow> s | None \<Rightarrow> ''unknown'')"

fun agent_type_from_path :: "path \<Rightarrow> string option" where
  "agent_type_from_path [] = None"
| "agent_type_from_path (c # cs) =
     (if component_str c = ''.claude'' then Some ''claude-code''
      else if component_str c = ''.gemini'' then Some ''gemini''
      else if component_str c = ''.codex'' then Some ''codex''
      else agent_type_from_path cs)"

text \<open>\<open>read_new_lines\<close>: the complete new lines, and the new read state.\<close>

definition consume_text :: "string \<Rightarrow> string list \<times> string" where
  "consume_text text =
     (let parts = split_on NEWLINE text in
      (filter (\<lambda>l. l \<noteq> []) (map trim (butlast parts)), last parts))"

definition read_new_lines :: "fs_view \<Rightarrow> path \<Rightarrow> FileReadState \<Rightarrow> string list \<times> FileReadState" where
  "read_new_lines fs p st =
     (case fs_len fs p of
        None \<Rightarrow> ([], st)
      | Some len \<Rightarrow>
          if len \<le> offset st then ([], st)
          else
            (case fs_read fs p (offset st) (len - offset st) of
               None \<Rightarrow> ([], st)
             | Some buf \<Rightarrow>
                 (let (lines, rest) = consume_text (line_buffer st @ from_utf8_lossy buf)
                  in (lines, \<lparr>offset = len, line_buffer = rest\<rparr>))))"

definition register_file :: "path \<Rightarrow> WatcherState \<Rightarrow> WatcherState" where
  "register_file p w =
     (if hget (known_jsonl_files w) p = None
      then w\<lparr>known_jsonl_files :=
               hinsert p (agent_id_from_path p, agent_type_from_path p) (known_jsonl_files w),
             file_states := hinsert p \<lparr>offset = 0, line_buffer = []\<rparr> (file_states w)\<rparr>
      else w)"

text \<open>
  The body that \<open>scan_and_process\<close> and \<open>process_file_event\<close> share: register the file, read its
  new lines, and process the events of each with the \<open>had_tools\<close> flag read before them.
\<close>

definition process_lines ::
  "(string \<Rightarrow> json option) \<Rightarrow> instant \<Rightarrow> string \<Rightarrow> string option \<Rightarrow> string list
    \<Rightarrow> AgentStateManager \<Rightarrow> AgentStateManager" where
  "process_lines from_str now aid aty lines m =
     (let had_tools = (case hget (agents m) aid of Some a \<Rightarrow> had_tools_in_turn a | None \<Rightarrow> False);
          m1 = (if lines \<noteq> [] then on_data_received now aid m else m)
      in fold (\<lambda>line. process_events now aid aty (parse_jsonl_line from_str line had_tools)) lines m1)"

definition ingest_file ::
  "fs_view \<Rightarrow> (string \<Rightarrow> json option) \<Rightarrow> instant \<Rightarrow> path \<Rightarrow> WatcherState \<Rightarrow> WatcherState option" where
  "ingest_file fs from_str now p w0 =
     (let w = register_file p w0 in
      case hget (known_jsonl_files w) p of
        None \<Rightarrow> None
      | Some (aid, aty) \<Rightarrow>
          (case hget (file_states w) p of
             None \<Rightarrow> None
           | Some st \<Rightarrow>
               (let (lines, st') = read_new_lines fs p st in
                Some (w\<lparr>file_states := hinsert p st' (file_states w),
                        state_manager :=
                          process_lines from_str now aid aty lines (state_manager w)\<rparr>))))"

definition is_jsonl :: "path \<Rightarrow> bool" where
  "is_jsonl p \<longleftrightarrow> extension p = Some ''jsonl''"

definition process_file_event ::
  "fs_view \<Rightarrow> (string \<Rightarrow> json option) \<Rightarrow> instant \<Rightarrow> path \<Rightarrow> WatcherState \<Rightarrow> WatcherState option" where
  "process_file_event fs from_str now p w =
     (if is_jsonl p then ingest_file fs from_str now p w else Some w)"

fun for_each :: "('x \<Rightarrow> 's \<Rightarrow> 's option) \<Rightarrow> 'x list \<Rightarrow> 's \<Rightarrow> 's option" where
  "for_each f [] s = Some s"
| "for_each f (x # xs) s = Option.bind (f x s) (for_each f xs)"

definition scan_and_process ::
  "fs_view \<Rightarrow> (string \<Rightarrow> json option) \<Rightarrow> instant \<Rightarrow> path \<Rightarrow> WatcherState \<Rightarrow> WatcherState option" where
  "scan_and_process fs from_str now dir w =
     (case fs_read_dir fs dir of
        None \<Rightarrow> Some w
      | Some entries \<Rightarrow>
          for_each (\<lambda>p w. if is_jsonl p then ingest_file fs from_str now p w else Some w) entries w)"

definition scan_all_projects ::
  "fs_view \<Rightarrow> (string \<Rightarrow> json option) \<Rightarrow> instant \<Rightarrow> path \<Rightarrow> WatcherState \<Rightarrow> WatcherState option" where
  "scan_all_projects fs from_str now rootdir w =
     (case fs_read_dir fs rootdir of
        None \<Rightarrow> Some w
      | Some entries \<Rightarrow>
          for_each (\<lambda>p w. if fs_is_dir fs p then scan_and_process fs from_str now p w else Some w)
            entries w)"

text \<open>\<open>find_claude_project_dir\<close>: \<open>home\<close> and \<open>userprofile\<close> are the two environment variables.\<close>

definition project_hash :: "string \<Rightarrow> string" where
  "project_hash d =
     replace_char (CHR ''/'') ''-''
       (replace_char BACKSLASH ''-'' (replace_char (CHR '':'') ''-'' d))"

definition find_claude_project_dir ::
  "fs_view \<Rightarrow> string option \<Rightarrow> string option \<Rightarrow> string \<Rightarrow> path option" where
  "find_claude_project_dir fs home userprofile project_dir =
     (case (case home of Some h \<Rightarrow> Some h | None \<Rightarrow> userprofile) of
        None \<Rightarrow> None
      | Some h \<Rightarrow>
          (let claude_dir = path_join (path_join (path_of h) ''.claude'') ''projects'' in
           if \<not> fs_exists fs claude_dir then None
           else if project_dir = [] then Some claude_dir
           else
             (let project_path = path_join claude_dir (project_hash project_dir) in
              if fs_exists fs project_path then Some project_path else None)))"

section \<open>Sessions and background tasks\<close>

text \<open>
  Each \<open>start_watching\<close> makes a session with its own cancel flag, named by a number. A background
  task looks at the flag first and does its work after that, so that a cancellation in between
  does not stop the work any more: \<open>armed\<close> is the set of tasks that have looked and not finished
  their work yet. The lock on the shared state is held for one file at a time: \<open>locked\<close> is one such
  section of a task that goes on afterwards, so that the files of two tasks interleave freely, and
  \<open>work\<close> is a run of a task that no other task interrupts.
\<close>

datatype task = PollTask | TimerTask | NotifyTask "path list"

record session =
  shared :: WatcherState
  watch_dir :: path
  watch_all :: bool
  armed :: "task set"

text \<open>
  A call of \<open>start_watching\<close> holds the lock on the cancel store twice, to take the old flag and to put the new one there, and
  the command that makes the call is asynchronous, so that calls overlap. A call is \<open>Stopped\<close> between the two and
  \<open>Flagged\<close> from then on until its session runs; \<open>starting\<close> has the calls in progress, by arbitrary numbers.
\<close>

datatype start_phase = Stopped string | Flagged nat path bool

record watch_global =
  cancel_store :: "nat option"
  cancelled :: "nat set"
  sessions :: "nat \<rightharpoonup> session"
  next_flag :: nat
  starting :: "nat \<rightharpoonup> start_phase"

definition init_global :: watch_global where
  "init_global = \<lparr>cancel_store = None, cancelled = {}, sessions = Map.empty, next_flag = 0, starting = Map.empty\<rparr>"

definition stop_watching_inner :: "watch_global \<Rightarrow> watch_global" where
  "stop_watching_inner g =
     (case cancel_store g of
        None \<Rightarrow> g
      | Some f \<Rightarrow> g\<lparr>cancel_store := None, cancelled := insert f (cancelled g)\<rparr>)"

definition rescan ::
  "fs_view \<Rightarrow> (string \<Rightarrow> json option) \<Rightarrow> instant \<Rightarrow> path \<Rightarrow> bool \<Rightarrow> WatcherState \<Rightarrow> WatcherState option" where
  "rescan fs from_str now dir wall w =
     (if wall then scan_all_projects fs from_str now dir w
      else scan_and_process fs from_str now dir w)"

text \<open>The initial scan: emissions suppressed, then one \<open>discovered\<close> payload per agent.\<close>

definition with_suppress :: "bool \<Rightarrow> WatcherState \<Rightarrow> WatcherState" where
  "with_suppress b w = w\<lparr>state_manager := (state_manager w)\<lparr>suppress_emit := b\<rparr>\<rparr>"

definition initial_scan ::
  "fs_view \<Rightarrow> (string \<Rightarrow> json option) \<Rightarrow> instant \<Rightarrow> path \<Rightarrow> bool \<Rightarrow> (WatcherState \<Rightarrow> string list)
    \<Rightarrow> WatcherState option" where
  "initial_scan fs from_str now dir wall ord =
     map_option
       (\<lambda>w. let w' = with_suppress False w
            in w'\<lparr>state_manager := emit_all_discovered (ord w') (state_manager w')\<rparr>)
       (rescan fs from_str now dir wall (with_suppress True new_watcher))"

text \<open>The critical section that puts a new flag into the cancel store, and the session that a call ends with.\<close>

definition publish_flag :: "watch_global \<Rightarrow> watch_global" where
  "publish_flag g = g\<lparr>cancel_store := Some (next_flag g), next_flag := Suc (next_flag g)\<rparr>"

definition run_session :: "nat \<Rightarrow> path \<Rightarrow> bool \<Rightarrow> WatcherState \<Rightarrow> watch_global \<Rightarrow> watch_global" where
  "run_session f dir wall w g =
     g\<lparr>sessions := (sessions g)(f \<mapsto> \<lparr>shared = w, watch_dir = dir, watch_all = wall, armed = {}\<rparr>)\<rparr>"

text \<open>
  \<open>start_watching\<close>, as a call that no other one interrupts: \<open>notify_result\<close> is what creating and starting the
  \<open>notify\<close> watcher gives. The outer \<open>None\<close> is a panic.
\<close>

definition start_watching ::
  "fs_view \<Rightarrow> (string \<Rightarrow> json option) \<Rightarrow> instant \<Rightarrow> string option \<Rightarrow> string option
    \<Rightarrow> (WatcherState \<Rightarrow> string list) \<Rightarrow> (string + unit) \<Rightarrow> string \<Rightarrow> watch_global
    \<Rightarrow> ((string + nat) \<times> watch_global) option" where
  "start_watching fs from_str now home userprofile ord notify_result project_dir g0 =
     (let g = stop_watching_inner g0 in
      case find_claude_project_dir fs home userprofile project_dir of
        None \<Rightarrow> Some (Inl ''Could not find Claude project directory'', g)
      | Some dir \<Rightarrow>
          (let f = next_flag g;
               g1 = publish_flag g;
               wall = (project_dir = [])
           in case initial_scan fs from_str now dir wall ord of
                None \<Rightarrow> None
              | Some w \<Rightarrow>
                  (case notify_result of
                     Inl e \<Rightarrow> Some (Inl e, g1)
                   | Inr _ \<Rightarrow> Some (Inr f, run_session f dir wall w g1))))"

text \<open>What a task does to the shared state once it has seen the flag unset.\<close>

fun task_work ::
  "fs_view \<Rightarrow> (string \<Rightarrow> json option) \<Rightarrow> instant \<Rightarrow> (WatcherState \<Rightarrow> string list) \<Rightarrow> session
    \<Rightarrow> task \<Rightarrow> WatcherState option" where
  "task_work fs from_str now ord s PollTask =
     rescan fs from_str now (watch_dir s) (watch_all s) (shared s)"
| "task_work fs from_str now ord s TimerTask =
     Some ((shared s)\<lparr>state_manager :=
       tick_timers (ord (shared s)) now (state_manager (shared s))\<rparr>)"
| "task_work fs from_str now ord s (NotifyTask ps) =
     for_each (process_file_event fs from_str now) ps (shared s)"

text \<open>The files that a task takes the lock for: polling takes what its listing finds.\<close>

fun may_process :: "task \<Rightarrow> path \<Rightarrow> bool" where
  "may_process PollTask p \<longleftrightarrow> True"
| "may_process TimerTask p \<longleftrightarrow> False"
| "may_process (NotifyTask ps) p \<longleftrightarrow> p \<in> set ps"

text \<open>
  The steps of all threads. The first five are the pieces of the calls of \<open>start_watching\<close>: the initial scan works on
  a state that no other thread has yet.
\<close>

inductive watch_step :: "(string \<Rightarrow> json option) \<Rightarrow> watch_global \<Rightarrow> watch_global \<Rightarrow> bool"
  for from_str where
  start: "starting g c = None
     \<Longrightarrow> watch_step from_str g ((stop_watching_inner g)\<lparr>starting := (starting g)(c \<mapsto> Stopped dir)\<rparr>)"
| no_project: "starting g c = Some (Stopped dir) \<Longrightarrow> find_claude_project_dir fs home userprofile dir = None
     \<Longrightarrow> watch_step from_str g (g\<lparr>starting := (starting g)(c := None)\<rparr>)"
| flag: "starting g c = Some (Stopped dir) \<Longrightarrow> find_claude_project_dir fs home userprofile dir = Some d
     \<Longrightarrow> watch_step from_str g ((publish_flag g)\<lparr>starting := (starting g)(c \<mapsto> Flagged (next_flag g) d (dir = []))\<rparr>)"
| no_watcher: "starting g c = Some (Flagged f d wall) \<Longrightarrow> initial_scan fs from_str now d wall ord = Some w
     \<Longrightarrow> watch_step from_str g (g\<lparr>starting := (starting g)(c := None)\<rparr>)"
| run: "starting g c = Some (Flagged f d wall) \<Longrightarrow> initial_scan fs from_str now d wall ord = Some w
     \<Longrightarrow> watch_step from_str g ((run_session f d wall w g)\<lparr>starting := (starting g)(c := None)\<rparr>)"
| stop: "watch_step from_str g (stop_watching_inner g)"
| arm: "sessions g f = Some s \<Longrightarrow> f \<notin> cancelled g
     \<Longrightarrow> watch_step from_str g (g\<lparr>sessions := (sessions g)(f \<mapsto> s\<lparr>armed := insert t (armed s)\<rparr>)\<rparr>)"
| locked: "sessions g f = Some s \<Longrightarrow> t \<in> armed s \<Longrightarrow> may_process t p
     \<Longrightarrow> process_file_event fs from_str now p (shared s) = Some w
     \<Longrightarrow> watch_step from_str g (g\<lparr>sessions := (sessions g)(f \<mapsto> s\<lparr>shared := w\<rparr>)\<rparr>)"
| finish: "sessions g f = Some s \<Longrightarrow> t \<in> armed s
     \<Longrightarrow> watch_step from_str g (g\<lparr>sessions := (sessions g)(f \<mapsto> s\<lparr>armed := armed s - {t}\<rparr>)\<rparr>)"
| work: "sessions g f = Some s \<Longrightarrow> t \<in> armed s \<Longrightarrow> task_work fs from_str now ord s t = Some w
     \<Longrightarrow> watch_step from_str g
           (g\<lparr>sessions := (sessions g)(f \<mapsto> s\<lparr>shared := w, armed := armed s - {t}\<rparr>)\<rparr>)"

inductive_cases watch_stepE: "watch_step from_str g g'"

section \<open>Incremental reading\<close>

lemma consume_text_Nil [simp]: "consume_text [] = ([], [])"
  by (simp add: consume_text_def)

lemma snd_consume_text_no_newline: "NEWLINE \<notin> set (snd (consume_text x))"
  using split_on_no_sep [of "last (split_on NEWLINE x)" NEWLINE x]
  by (simp add: consume_text_def Let_def)

lemma consume_text_append:
  "consume_text (x @ y) =
     (fst (consume_text x) @ fst (consume_text (snd (consume_text x) @ y)),
      snd (consume_text (snd (consume_text x) @ y)))"
proof -
  let ?l = "last (split_on NEWLINE x)"
  have "split_on NEWLINE ?l = [?l]"
    using snd_consume_text_no_newline [of x]
    by (intro split_on_none) (simp add: consume_text_def Let_def)
  then have "split_on NEWLINE (?l @ y) = (?l @ hd (split_on NEWLINE y)) # tl (split_on NEWLINE y)"
    by (simp add: split_on_append)
  then show ?thesis
    by (simp add: consume_text_def Let_def split_on_append [of NEWLINE x y] butlast_append)
qed

text \<open>A file with the given content, read in one call, and read after each of several appends.\<close>

definition fs_of_file :: "path \<Rightarrow> string \<Rightarrow> fs_view" where
  "fs_of_file p c =
     \<lparr>fs_len = (\<lambda>q. if q = p then Some (length c) else None),
      fs_read = (\<lambda>q off n. if q = p \<and> off + n \<le> length c then Some (take n (drop off c)) else None),
      fs_read_dir = (\<lambda>_. None), fs_is_dir = (\<lambda>_. False), fs_exists = (\<lambda>q. q = p)\<rparr>"

fun tail_file :: "path \<Rightarrow> string \<Rightarrow> string list \<Rightarrow> FileReadState \<Rightarrow> string list \<times> FileReadState" where
  "tail_file p c [] st = ([], st)"
| "tail_file p c (d # ds) st =
     (let (ls, st') = read_new_lines (fs_of_file p (c @ d)) p st;
          (ls', st'') = tail_file p (c @ d) ds st'
      in (ls @ ls', st''))"

definition fresh_state :: FileReadState where "fresh_state = \<lparr>offset = 0, line_buffer = []\<rparr>"

definition after_reading :: "string \<Rightarrow> FileReadState" where
  "after_reading c = \<lparr>offset = length c, line_buffer = snd (consume_text c)\<rparr>"

lemma after_reading_Nil: "after_reading [] = fresh_state"
  by (simp add: after_reading_def fresh_state_def)

lemma read_appended:
  assumes "valid_utf8 d"
  shows "read_new_lines (fs_of_file p (c @ d)) p (after_reading c) =
    (fst (consume_text (snd (consume_text c) @ d)), after_reading (c @ d))"
proof (cases "d = []")
  case True
  have "split_on NEWLINE (snd (consume_text c)) = [snd (consume_text c)]"
    by (rule split_on_none) (rule snd_consume_text_no_newline)
  then have "fst (consume_text (snd (consume_text c))) = []" by (simp add: consume_text_def Let_def)
  with True show ?thesis by (simp add: read_new_lines_def fs_of_file_def after_reading_def)
next
  case False
  then show ?thesis
    using assms consume_text_append [of c d]
    by (simp add: read_new_lines_def fs_of_file_def after_reading_def from_utf8_lossy_valid
        case_prod_beta Let_def)
qed

lemma tail_file_after:
  "list_all valid_utf8 ds \<Longrightarrow>
    tail_file p c ds (after_reading c) =
      (fst (consume_text (snd (consume_text c) @ concat ds)), after_reading (c @ concat ds))"
proof (induction ds arbitrary: c)
  case Nil
  have "split_on NEWLINE (snd (consume_text c)) = [snd (consume_text c)]"
    by (rule split_on_none) (rule snd_consume_text_no_newline)
  then show ?case by (simp add: consume_text_def Let_def)
next
  case (Cons d ds)
  have d: "valid_utf8 d" and ds: "list_all valid_utf8 ds" using Cons.prems by auto
  have "snd (consume_text (c @ d)) = snd (consume_text (snd (consume_text c) @ d))"
    using consume_text_append [of c d] by simp
  with Cons.IH [OF ds, of "c @ d"] show ?case
    using consume_text_append [of "snd (consume_text c) @ d" "concat ds"]
    by (simp add: read_appended [OF d])
qed

section \<open>The watcher invariant\<close>

definition watcher_inv :: "WatcherState \<Rightarrow> bool" where
  "watcher_inv w \<longleftrightarrow> mgr_inv (state_manager w) \<and> hkeys (known_jsonl_files w) = hkeys (file_states w)"

lemma watcher_inv_new: "watcher_inv new_watcher"
  using mgr.inv_init by (simp add: watcher_inv_def new_watcher_def)

lemma watcher_inv_register: "watcher_inv w \<Longrightarrow> watcher_inv (register_file p w)"
  by (simp add: watcher_inv_def register_file_def)

lemma register_file_known: "p \<in> hkeys (known_jsonl_files (register_file p w))"
  by (auto simp: register_file_def hkeys_iff_hget)

lemma mgr_inv_process_lines: "mgr_inv m \<Longrightarrow> mgr_inv (process_lines from_str now aid aty lines m)"
proof -
  have "mgr_inv m \<Longrightarrow> mgr_inv (fold (\<lambda>line. process_events now aid aty (f line)) lines m)" for f m
    by (induction lines arbitrary: m) (auto intro: mgr_inv_process_events)
  then show "mgr_inv m \<Longrightarrow> mgr_inv (process_lines from_str now aid aty lines m)"
    by (simp add: process_lines_def mgr_inv_on_data)
qed

lemma ingest_file_ok:
  assumes "watcher_inv w"
  obtains w' where "ingest_file fs from_str now p w = Some w'" "watcher_inv w'"
proof -
  let ?w = "register_file p w"
  have inv: "watcher_inv ?w" using assms by (rule watcher_inv_register)
  have k: "p \<in> hkeys (known_jsonl_files ?w)" by (rule register_file_known)
  then obtain aid aty where known: "hget (known_jsonl_files ?w) p = Some (aid, aty)"
    by (auto simp: hkeys_iff_hget)
  from k inv have kf: "p \<in> hkeys (file_states ?w)" by (simp add: watcher_inv_def)
  then obtain st where st: "hget (file_states ?w) p = Some st" by (auto simp: hkeys_iff_hget)
  obtain lines st' where rd: "read_new_lines fs p st = (lines, st')" by fastforce
  let ?w' = "?w\<lparr>file_states := hinsert p st' (file_states ?w),
    state_manager := process_lines from_str now aid aty lines (state_manager ?w)\<rparr>"
  show ?thesis
  proof (rule that [of ?w'])
    show "ingest_file fs from_str now p w = Some ?w'"
      using known st rd by (simp add: ingest_file_def Let_def)
    show "watcher_inv ?w'"
      using inv kf by (auto simp: watcher_inv_def mgr_inv_process_lines insert_absorb)
  qed
qed

lemma ingest_file_inv:
  "watcher_inv w \<Longrightarrow> \<exists>w'. ingest_file fs from_str now p w = Some w' \<and> watcher_inv w'"
  by (metis ingest_file_ok)

text \<open>A loop whose body neither panics nor breaks the invariant does neither.\<close>

lemma for_each_inv:
  assumes "\<And>x s. x \<in> set xs \<Longrightarrow> I s \<Longrightarrow> \<exists>s'. f x s = Some s' \<and> I s'" and "I s"
  shows "\<exists>s'. for_each f xs s = Some s' \<and> I s'"
  using assms
proof (induction xs arbitrary: s)
  case (Cons x xs)
  then obtain s1 where "f x s = Some s1" "I s1" by (metis list.set_intros(1))
  with Cons.IH [OF Cons.prems(1)] show ?case by simp
qed simp

lemma scan_and_process_ok:
  "watcher_inv w \<Longrightarrow> \<exists>w'. scan_and_process fs from_str now dir w = Some w' \<and> watcher_inv w'"
  unfolding scan_and_process_def
  by (auto split: option.splits intro!: for_each_inv ingest_file_inv)

lemma rescan_ok:
  "watcher_inv w \<Longrightarrow> \<exists>w'. rescan fs from_str now dir wall w = Some w' \<and> watcher_inv w'"
  unfolding rescan_def scan_all_projects_def
  by (auto split: option.splits intro!: for_each_inv scan_and_process_ok)

lemma watcher_inv_with_suppress: "watcher_inv w \<Longrightarrow> watcher_inv (with_suppress b w)"
  by (simp add: watcher_inv_def with_suppress_def mgr_inv_def)

lemma initial_scan_ok:
  "\<exists>w. initial_scan fs from_str now dir wall ord = Some w \<and> watcher_inv w"
proof -
  obtain w where w: "rescan fs from_str now dir wall (with_suppress True new_watcher) = Some w"
    "watcher_inv w"
    using rescan_ok [OF watcher_inv_with_suppress [OF watcher_inv_new]] by blast
  let ?w = "with_suppress False w"
  have "watcher_inv (?w\<lparr>state_manager := emit_all_discovered (ord ?w) (state_manager ?w)\<rparr>)"
    using watcher_inv_with_suppress [OF w(2), of False]
    by (simp add: watcher_inv_def mgr_inv_def)
  with w(1) show ?thesis by (simp add: initial_scan_def Let_def)
qed

lemma task_work_ok:
  "watcher_inv (shared s) \<Longrightarrow> \<exists>w. task_work fs from_str now ord s t = Some w \<and> watcher_inv w"
proof (cases t)
  case (NotifyTask ps)
  assume "watcher_inv (shared s)"
  then have "\<exists>w. for_each (process_file_event fs from_str now) ps (shared s) = Some w \<and> watcher_inv w"
    by (rule for_each_inv [rotated]) (auto simp: process_file_event_def ingest_file_inv)
  with NotifyTask show ?thesis by simp
next
  case TimerTask
  then show "watcher_inv (shared s) \<Longrightarrow> ?thesis" by (simp add: watcher_inv_def mgr_inv_tick)
next
  case PollTask
  then show "watcher_inv (shared s) \<Longrightarrow> ?thesis" by (simp add: rescan_ok)
qed

section \<open>Sessions\<close>

definition global_inv :: "watch_global \<Rightarrow> bool" where
  "global_inv g \<longleftrightarrow>
     (\<forall>f s. sessions g f = Some s \<longrightarrow> f < next_flag g \<and> watcher_inv (shared s))
     \<and> (\<forall>c f d wall. starting g c = Some (Flagged f d wall) \<longrightarrow> f < next_flag g \<and> sessions g f = None
          \<and> (\<forall>c' d' wall'. starting g c' = Some (Flagged f d' wall') \<longrightarrow> c' = c))"

lemma flagged_inv: "global_inv g \<Longrightarrow> starting g c = Some (Flagged f d wall) \<Longrightarrow> f < next_flag g \<and> sessions g f = None"
  unfolding global_inv_def by blast

lemma global_inv_init: "global_inv init_global"
  by (simp add: global_inv_def init_global_def)

lemma stop_sel [simp]:
  "sessions (stop_watching_inner g) = sessions g" "next_flag (stop_watching_inner g) = next_flag g"
  "starting (stop_watching_inner g) = starting g"
  by (auto simp: stop_watching_inner_def split: option.splits)

lemma publish_sel [simp]:
  "sessions (publish_flag g) = sessions g" "next_flag (publish_flag g) = Suc (next_flag g)" "starting (publish_flag g) = starting g"
  "cancel_store (publish_flag g) = Some (next_flag g)" "cancelled (publish_flag g) = cancelled g"
  by (simp_all add: publish_flag_def)

lemma global_inv_update:
  "global_inv g \<Longrightarrow> sessions g f = Some s \<Longrightarrow> watcher_inv (shared s')
    \<Longrightarrow> global_inv (g\<lparr>sessions := (sessions g)(f \<mapsto> s')\<rparr>)"
  unfolding global_inv_def by (fastforce split: if_splits)

lemma global_inv_step: "watch_step from_str g g' \<Longrightarrow> global_inv g \<Longrightarrow> global_inv g'"
proof (induction rule: watch_step.induct)
  case (start g c dir)
  then show ?case by (auto simp: global_inv_def split: if_splits)
next
  case (no_project g c dir fs home up)
  then show ?case by (auto simp: global_inv_def split: if_splits)
next
  case (flag g c dir fs home up d)
  have "f < next_flag g" if "sessions g f = Some s" for f s using flag that by (auto simp: global_inv_def)
  then have "sessions g (next_flag g) = None" by (metis less_irrefl not_Some_eq)
  moreover have "starting g c' \<noteq> Some (Flagged (next_flag g) d' wall')" for c' d' wall' using flagged_inv [OF flag(3), of c'] by fastforce
  ultimately show ?case using flag by (auto simp: global_inv_def less_Suc_eq split: if_splits)
next
  case (no_watcher g c f d wall fs now ord w)
  then show ?case by (auto simp: global_inv_def split: if_splits)
next
  case (run g c f d wall fs now ord w)
  then have "watcher_inv w" using initial_scan_ok [of fs from_str now d wall ord] by auto
  moreover have "f < next_flag g" using flagged_inv [OF run(3,1)] by blast
  moreover have "starting g c' \<noteq> Some (Flagged f d' wall')" if "c' \<noteq> c" for c' d' wall' using run(1,3) that unfolding global_inv_def by blast
  ultimately show ?case using run by (auto simp: global_inv_def run_session_def split: if_splits)
next
  case (stop g)
  then show ?case by (simp add: global_inv_def)
next
  case (arm g f s t)
  then have "watcher_inv (shared s)" by (simp add: global_inv_def)
  with arm show ?case by (simp add: global_inv_update)
next
  case (locked g f s t p fs now w)
  then have "watcher_inv w"
    using ingest_file_inv [of "shared s" fs from_str now p]
    by (auto simp: global_inv_def process_file_event_def split: if_splits)
  with locked show ?case by (simp add: global_inv_update)
next
  case (finish g f s t)
  then have "watcher_inv (shared s)" by (simp add: global_inv_def)
  with finish show ?case by (simp add: global_inv_update)
next
  case (work g f s t fs now ord w)
  then have "watcher_inv w" using task_work_ok [of s fs from_str now ord t] by (auto simp: global_inv_def)
  with work show ?case by (simp add: global_inv_update)
qed

lemma reachable_global_inv: "(watch_step from_str)\<^sup>*\<^sup>* init_global g \<Longrightarrow> global_inv g"
  by (induction rule: rtranclp_induct) (auto intro: global_inv_init global_inv_step)

section \<open>The initial scan\<close>

text \<open>While emissions are suppressed and no permission is pending, nothing is emitted.\<close>

definition quiet :: "AgentStateManager \<Rightarrow> bool" where
  "quiet m \<longleftrightarrow> suppress_emit m \<and> emitted m = []
     \<and> (\<forall>aid a. hget (agents m) aid = Some a \<longrightarrow> \<not> permission_sent a)"

lemma apply_agent_event_no_permission:
  "\<not> permission_sent a \<Longrightarrow> \<not> permission_sent (apply_agent_event now ev a)"
  by (cases ev) (auto simp: Let_def split: option.splits)

lemma quiet_ensure: "quiet m \<Longrightarrow> quiet (ensure_agent now aid aty m)"
  by (auto simp: quiet_def hget_ensure_agent new_agent_def split: option.splits if_splits)

lemma quiet_process_event: "quiet m \<Longrightarrow> quiet (process_event now aid ev m)"
proof -
  assume q: "quiet m"
  let ?m = "ensure_agent now aid None m"
  from q have q': "quiet ?m" by (rule quiet_ensure)
  obtain a where a: "hget (agents ?m) aid = Some a" by (simp add: hget_ensure_agent)
  with q' have "\<not> permission_sent (apply_agent_event now ev a)"
    by (intro apply_agent_event_no_permission) (simp add: quiet_def)
  with q q' a show ?thesis
    by (auto simp: quiet_def process_event_sel)
qed

lemma quiet_process_events: "quiet m \<Longrightarrow> quiet (process_events now aid aty evs m)"
proof -
  have "quiet m \<Longrightarrow> quiet (fold (process_event now aid) evs m)" for m
    by (induction evs arbitrary: m) (auto intro: quiet_process_event)
  then show "quiet m \<Longrightarrow> quiet (process_events now aid aty evs m)"
    by (simp add: process_events_def quiet_ensure)
qed

lemma quiet_process_lines: "quiet m \<Longrightarrow> quiet (process_lines from_str now aid aty lines m)"
proof -
  have on_data: "quiet m \<Longrightarrow> quiet (on_data_received now aid m)" for m
    by (auto simp: quiet_def on_data_received_def Let_def split: option.splits)
  have "quiet m \<Longrightarrow> quiet (fold (\<lambda>line. process_events now aid aty (f line)) lines m)" for f m
    by (induction lines arbitrary: m) (auto intro: quiet_process_events)
  with on_data show "quiet m \<Longrightarrow> quiet (process_lines from_str now aid aty lines m)"
    by (simp add: process_lines_def)
qed

definition quiet_watcher :: "WatcherState \<Rightarrow> bool" where
  "quiet_watcher w \<longleftrightarrow> watcher_inv w \<and> quiet (state_manager w)"

lemma quiet_ingest:
  "quiet_watcher w \<Longrightarrow> \<exists>w'. ingest_file fs from_str now p w = Some w' \<and> quiet_watcher w'"
proof -
  assume q: "quiet_watcher w"
  then obtain w' where w': "ingest_file fs from_str now p w = Some w'" "watcher_inv w'"
    using ingest_file_inv by (metis quiet_watcher_def)
  have "state_manager (register_file p w) = state_manager w" by (simp add: register_file_def)
  with q w'(1) have "quiet (state_manager w')"
    by (auto simp: ingest_file_def quiet_watcher_def Let_def quiet_process_lines
        split: option.splits prod.splits)
  with w' show ?thesis by (simp add: quiet_watcher_def)
qed

lemma quiet_rescan:
  "quiet_watcher w \<Longrightarrow> \<exists>w'. rescan fs from_str now dir wall w = Some w' \<and> quiet_watcher w'"
  unfolding rescan_def scan_all_projects_def scan_and_process_def
  by (auto split: option.splits intro!: for_each_inv quiet_ingest)

lemma quiet_start: "quiet_watcher (with_suppress True new_watcher)"
  using watcher_inv_with_suppress [OF watcher_inv_new, of True]
  by (simp add: quiet_watcher_def quiet_def with_suppress_def new_watcher_def new_manager_def)

lemma emitted_discovered:
  "set ord \<subseteq> hkeys (agents m) \<Longrightarrow>
    emitted (emit_all_discovered ord m) =
      emitted m @ map (\<lambda>aid. discovered_payload aid (the (hget (agents m) aid))) ord"
proof -
  have "set ord \<subseteq> hkeys as \<Longrightarrow>
      emitted (fold (\<lambda>aid m'. case hget as aid of
             Some a \<Rightarrow> push_event (discovered_payload aid a) m' | None \<Rightarrow> m') ord m) =
      emitted m @ map (\<lambda>aid. discovered_payload aid (the (hget as aid))) ord" for as m
    by (induction ord arbitrary: m) (auto simp: hkeys_iff_hget split: option.splits)
  then show "set ord \<subseteq> hkeys (agents m) \<Longrightarrow> ?thesis" by (simp add: emit_all_discovered_def)
qed

lemma suppress_discovered [simp]: "suppress_emit (emit_all_discovered ord m) = suppress_emit m"
proof -
  have "suppress_emit (fold (\<lambda>aid m'. case hget as aid of
             Some a \<Rightarrow> push_event (discovered_payload aid a) m' | None \<Rightarrow> m') ord m) = suppress_emit m" for as
    by (induction ord arbitrary: m) (auto split: option.splits)
  then show ?thesis by (simp add: emit_all_discovered_def)
qed

section \<open>Properties\<close>

text \<open>
  C2: tailing a log is lossless: when every append is valid UTF-8 by itself, reading after each
  append yields the same lines and ends in the same read state as reading the whole file once,
  wherever the appends cut the lines.
\<close>

theorem tail_equals_whole:
  assumes "list_all valid_utf8 ds"
  shows "tail_file p [] ds fresh_state =
    read_new_lines (fs_of_file p (concat ds)) p fresh_state"
proof -
  have v: "valid_utf8 (concat ds)"
    using assms by (induction ds) (simp_all add: valid_utf8_append)
  show ?thesis
    using tail_file_after [OF assms, of p "[]"] read_appended [OF v, of p "[]"]
    by (simp add: after_reading_Nil)
qed

theorem tail_equals_whole_witness:
  "tail_file (path_of ''/a.jsonl'') [] [''{\"a'', ''\":1}'' @ [NEWLINE, CHR ''x''], [NEWLINE]] fresh_state =
     ([''{\"a\":1}'', ''x''], \<lparr>offset = 10, line_buffer = []\<rparr>)"
proof -
  let ?ds = "[''{\"a'', ''\":1}'' @ [NEWLINE, CHR ''x''], [NEWLINE]]"
  have "list_all valid_utf8 ?ds" by code_simp
  from tail_equals_whole [OF this, of "path_of ''/a.jsonl''"]
  show ?thesis
    by (simp add: read_new_lines_def fs_of_file_def fresh_state_def) code_simp
qed

text \<open>
  An append that ends inside a multi-byte character loses it: the two halves are decoded
  separately and become replacement characters, although the file as a whole reads correctly.
\<close>

theorem tail_split_char_differs:
  "fst (tail_file (path_of ''/a.jsonl'') [] [[CHR 0xC3], [CHR 0xA9, NEWLINE]] fresh_state) =
     [REPLACEMENT @ REPLACEMENT]
   \<and> fst (read_new_lines (fs_of_file (path_of ''/a.jsonl'') [CHR 0xC3, CHR 0xA9, NEWLINE])
        (path_of ''/a.jsonl'') fresh_state) = [[CHR 0xC3, CHR 0xA9]]"
proof (rule conjI)
  show "fst (tail_file (path_of ''/a.jsonl'') [] [[CHR 0xC3], [CHR 0xA9, NEWLINE]] fresh_state) =
     [REPLACEMENT @ REPLACEMENT]"
    by (simp add: read_new_lines_def fs_of_file_def fresh_state_def) code_simp
  show "fst (read_new_lines (fs_of_file (path_of ''/a.jsonl'') [CHR 0xC3, CHR 0xA9, NEWLINE])
        (path_of ''/a.jsonl'') fresh_state) = [[CHR 0xC3, CHR 0xA9]]"
    by (simp add: read_new_lines_def fs_of_file_def fresh_state_def) code_simp
qed

text \<open>
  C4: no reachable state of the watcher can panic: in every state that start, stop and the
  background tasks can reach, the \<open>unwrap\<close>s of every task of every session, and those of a new
  start, succeed, whatever the file system holds at that moment.
\<close>

theorem watcher_never_panics:
  assumes "(watch_step from_str)\<^sup>*\<^sup>* init_global g"
  shows "(\<forall>f s. sessions g f = Some s \<longrightarrow>
      (\<forall>fs now ord t. task_work fs from_str now ord s t \<noteq> None))
    \<and> (\<forall>fs now home up ord nr dir. start_watching fs from_str now home up ord nr dir g \<noteq> None)"
proof (intro conjI allI impI)
  fix f s fs now ord t
  assume "sessions g f = Some s"
  with reachable_global_inv [OF assms] have "watcher_inv (shared s)" by (simp add: global_inv_def)
  from task_work_ok [OF this, of fs from_str now ord t]
  show "task_work fs from_str now ord s t \<noteq> None" by auto
next
  fix fs now home up ord nr dir
  have "initial_scan fs from_str now d wall ord = Some (the (initial_scan fs from_str now d wall ord))"
    for d wall
    using initial_scan_ok [of fs from_str now d wall ord] by auto
  then show "start_watching fs from_str now home up ord nr dir g \<noteq> None"
    by (auto simp: start_watching_def Let_def split: option.splits sum.splits)
      (metis option.distinct(1))
qed

definition demo_home :: fs_view where
  "demo_home =
     \<lparr>fs_len = (\<lambda>q. if q = path_of ''/h/.claude/projects/-w/s1.jsonl'' then Some 1 else None),
      fs_read = (\<lambda>_ _ _. Some [NEWLINE]),
      fs_read_dir = (\<lambda>q. if q = path_of ''/h/.claude/projects/-w''
                         then Some [path_of ''/h/.claude/projects/-w/s1.jsonl''] else None),
      fs_is_dir = (\<lambda>q. q = path_of ''/h/.claude/projects/-w''),
      fs_exists = (\<lambda>q. q \<in> {path_of ''/h/.claude/projects'', path_of ''/h/.claude/projects/-w''})\<rparr>"

definition demo_session :: session where
  "demo_session =
     \<lparr>shared = new_watcher
        \<lparr>file_states := [(path_of ''/h/.claude/projects/-w/s1.jsonl'', \<lparr>offset = 1, line_buffer = []\<rparr>)],
         known_jsonl_files := [(path_of ''/h/.claude/projects/-w/s1.jsonl'', (''s1'', Some ''claude-code''))]\<rparr>,
      watch_dir = path_of ''/h/.claude/projects/-w'', watch_all = False, armed = {}\<rparr>"

definition demo_global :: watch_global where
  "demo_global = \<lparr>cancel_store = Some 0, cancelled = {}, sessions = [0 \<mapsto> demo_session], next_flag = 1, starting = Map.empty\<rparr>"

lemma demo_dir: "find_claude_project_dir demo_home (Some ''/h'') None ''/w'' = Some (path_of ''/h/.claude/projects/-w'')"
  by code_simp

lemma demo_scan:
  "initial_scan demo_home (\<lambda>_. None) 0 (path_of ''/h/.claude/projects/-w'') False (\<lambda>_. []) = Some (shared demo_session)"
  by code_simp

lemma demo_session_eq:
  "\<lparr>shared = shared demo_session, watch_dir = path_of ''/h/.claude/projects/-w'', watch_all = False, armed = {}\<rparr> = demo_session"
  by (simp add: demo_session_def)

lemma demo_start:
  "start_watching demo_home (\<lambda>_. None) 0 (Some ''/h'') None (\<lambda>_. []) (Inr ()) ''/w'' init_global =
     Some (Inr 0, demo_global)"
  using demo_dir demo_scan demo_session_eq
  by (simp add: start_watching_def stop_watching_inner_def publish_flag_def run_session_def init_global_def demo_global_def Let_def)

text \<open>Whether two calls are between their critical sections at once.\<close>

definition no_overlap :: "watch_global \<Rightarrow> bool" where
  "no_overlap g \<longleftrightarrow> (\<forall>c d c' d'. starting g c = Some (Stopped d) \<longrightarrow> starting g c' = Some (Stopped d') \<longrightarrow> c' = c)"

abbreviation serial_step :: "(string \<Rightarrow> json option) \<Rightarrow> watch_global \<Rightarrow> watch_global \<Rightarrow> bool" where
  "serial_step from_str g g' \<equiv> watch_step from_str g g' \<and> no_overlap g'"

lemma serial_reachable: "(serial_step from_str)\<^sup>*\<^sup>* g g' \<Longrightarrow> (watch_step from_str)\<^sup>*\<^sup>* g g'"
  by (erule rtranclp_mono [THEN predicate2D, rotated]) auto

lemma demo_serial: "(serial_step (\<lambda>_. None))\<^sup>*\<^sup>* init_global demo_global"
proof -
  let ?dir = "path_of ''/h/.claude/projects/-w''"
  define g1 where "g1 = init_global\<lparr>starting := [0 \<mapsto> Stopped ''/w'']\<rparr>"
  define g2 where "g2 = init_global\<lparr>cancel_store := Some 0, next_flag := 1, starting := [0 \<mapsto> Flagged 0 ?dir False]\<rparr>"
  have "watch_step (\<lambda>_. None) init_global g1"
    using watch_step.start [of init_global 0 "\<lambda>_. None" "''/w''"] by (simp add: g1_def init_global_def stop_watching_inner_def)
  moreover have "watch_step (\<lambda>_. None) g1 g2"
    using watch_step.flag [of g1 0 "''/w''", OF _ demo_dir] by (simp add: g1_def g2_def init_global_def publish_flag_def)
  moreover have "watch_step (\<lambda>_. None) g2 demo_global"
    using watch_step.run [of g2 0 0 ?dir False, OF _ demo_scan] demo_session_eq
    by (simp add: g2_def init_global_def run_session_def demo_global_def)
  moreover have "no_overlap g1" "no_overlap g2" "no_overlap demo_global"
    by (simp_all add: no_overlap_def g1_def g2_def demo_global_def)
  ultimately have "serial_step (\<lambda>_. None) init_global g1" "serial_step (\<lambda>_. None) g1 g2" "serial_step (\<lambda>_. None) g2 demo_global"
    by blast+
  then show ?thesis by (blast intro: converse_rtranclp_into_rtranclp)
qed

lemma demo_reachable: "(watch_step (\<lambda>_. None))\<^sup>*\<^sup>* init_global demo_global"
  using serial_reachable [OF demo_serial] .

theorem watcher_never_panics_witness:
  "task_work demo_home (\<lambda>_. None) 0 (\<lambda>_. []) demo_session PollTask \<noteq> None"
proof -
  have "sessions demo_global 0 = Some demo_session" by (simp add: demo_global_def)
  with watcher_never_panics [OF demo_reachable] show ?thesis by blast
qed

text \<open>
  The initial scan of a start emits nothing but the discovery of the agents it found: exactly
  one \<open>discovered\<close> payload per agent with its type, in the order the agents are enumerated,
  whatever events the logs replay.
\<close>

theorem initial_scan_only_discovers:
  assumes "\<And>w. distinct (ord w) \<and> set (ord w) = hkeys (agents (state_manager w))"
  shows "\<exists>w. initial_scan fs from_str now dir wall ord = Some w
    \<and> \<not> suppress_emit (state_manager w)
    \<and> (\<exists>aids. distinct aids \<and> set aids = hkeys (agents (state_manager w))
         \<and> emitted (state_manager w) =
             map (\<lambda>aid. discovered_payload aid (the (hget (agents (state_manager w)) aid))) aids)"
proof -
  obtain w where w: "rescan fs from_str now dir wall (with_suppress True new_watcher) = Some w"
    "quiet_watcher w"
    using quiet_rescan [OF quiet_start] by blast
  let ?w = "with_suppress False w"
  have e: "emitted (state_manager ?w) = []" "\<not> suppress_emit (state_manager ?w)"
    using w(2) by (auto simp: quiet_watcher_def quiet_def with_suppress_def)
  have o: "distinct (ord ?w)" "set (ord ?w) = hkeys (agents (state_manager ?w))"
    using assms by auto
  show ?thesis
    using w(1) e o emitted_discovered [of "ord ?w" "state_manager ?w"]
    by (auto simp: initial_scan_def Let_def)
qed

definition demo_logs :: fs_view where
  "demo_logs = demo_home\<lparr>fs_read := \<lambda>_ _ _. Some [CHR ''u'', NEWLINE], fs_len := \<lambda>_. Some 2\<rparr>"

definition demo_parser :: "string \<Rightarrow> json option" where
  "demo_parser _ = Some (JObject [(''message'', JObject [(''content'', JString ''hi'')]),
     (''type'', JString ''user'')])"

theorem initial_scan_only_discovers_witness:
  "\<exists>w. initial_scan demo_logs demo_parser 0 (path_of ''/h/.claude/projects/-w'') False
      (\<lambda>w. map fst (AList.clearjunk (agents (state_manager w)))) = Some w
    \<and> \<not> suppress_emit (state_manager w)"
proof -
  have "distinct (map fst (AList.clearjunk (agents (state_manager w))))
      \<and> set (map fst (AList.clearjunk (agents (state_manager w)))) = hkeys (agents (state_manager w))"
    for w :: WatcherState
    using dom_clearjunk [of "agents (state_manager w)"] by (simp add: distinct_clearjunk dom_map_of_conv_image_fst map_of_clearjunk)
  from initial_scan_only_discovers [OF this] show ?thesis by blast
qed







text \<open>
  When two calls do overlap, the flag of the first is overwritten in the cancel store and nothing cancels it
  any more: two sessions are live, and one stays live after every stop.
\<close>

definition leaked :: watch_global where
  "leaked = \<lparr>cancel_store = Some 1, cancelled = {}, sessions = [0 \<mapsto> demo_session, 1 \<mapsto> demo_session], next_flag = 2, starting = Map.empty\<rparr>"

lemma overlapping_starts_leak:
  "(watch_step (\<lambda>_. None))\<^sup>*\<^sup>* init_global leaked" "0 \<notin> cancelled (stop_watching_inner leaked)"
proof -
  let ?dir = "path_of ''/h/.claude/projects/-w''" and ?step = "watch_step (\<lambda>_. None)"
  let ?S = "Stopped ''/w''" and ?F = "\<lambda>f. Flagged f ?dir False"
  define g1 where "g1 = init_global\<lparr>starting := [0 \<mapsto> ?S]\<rparr>"
  define g2 where "g2 = init_global\<lparr>starting := [0 \<mapsto> ?S, 1 \<mapsto> ?S]\<rparr>"
  define g3 where "g3 = init_global\<lparr>cancel_store := Some 0, next_flag := 1, starting := [0 \<mapsto> ?F 0, 1 \<mapsto> ?S]\<rparr>"
  define g4 where "g4 = init_global\<lparr>cancel_store := Some 1, next_flag := 2, starting := [0 \<mapsto> ?F 0, 1 \<mapsto> ?F 1]\<rparr>"
  define g5 where "g5 = init_global\<lparr>cancel_store := Some 1, next_flag := 2, sessions := [0 \<mapsto> demo_session], starting := [1 \<mapsto> ?F 1]\<rparr>"
  note defs = g1_def g2_def g3_def g4_def g5_def init_global_def
  have "?step init_global g1"
    using watch_step.start [of init_global 0 "\<lambda>_. None" "''/w''"] by (simp add: defs stop_watching_inner_def)
  moreover have "?step g1 g2" using watch_step.start [of g1 1 "\<lambda>_. None" "''/w''"] by (simp add: defs stop_watching_inner_def)
  moreover have "?step g2 g3"
    using watch_step.flag [of g2 0 "''/w''", OF _ demo_dir] by (simp add: defs publish_flag_def fun_upd_twist)
  moreover have "?step g3 g4"
    using watch_step.flag [of g3 1 "''/w''", OF _ demo_dir] by (simp add: defs publish_flag_def numeral_2_eq_2)
  moreover have "?step g4 g5"
    using watch_step.run [of g4 0 0 ?dir False, OF _ demo_scan] demo_session_eq by (simp add: defs run_session_def fun_upd_twist)
  moreover have "?step g5 leaked"
    using watch_step.run [of g5 1 1 ?dir False, OF _ demo_scan] demo_session_eq by (simp add: defs run_session_def leaked_def)
  ultimately show "?step\<^sup>*\<^sup>* init_global leaked" by (meson converse_rtranclp_into_rtranclp rtranclp.rtrancl_refl)
  show "0 \<notin> cancelled (stop_watching_inner leaked)" by (simp add: leaked_def stop_watching_inner_def)
qed

lemma frozen_step:
  assumes "watch_step from_str g g'" "global_inv g"
    and "sessions g f = Some s" "f \<in> cancelled g" "armed s = {}"
  shows "sessions g' f = Some s \<and> f \<in> cancelled g'"
  using assms
proof (cases rule: watch_step.cases)
  case (run c f' d wall fs now ord w)
  then have "f' \<noteq> f" using flagged_inv [OF assms(2) run(2)] assms(3) by auto
  with run assms(3,4) show ?thesis by (simp add: run_session_def)
qed (auto simp: stop_watching_inner_def split: option.splits)

text \<open>
  A cancelled session with no task past its check of the flag is frozen: no later start, stop
  or task of any session changes its state or emits anything from it.
\<close>

theorem cancelled_session_frozen:
  assumes "(watch_step from_str)\<^sup>*\<^sup>* init_global g"
    and "sessions g f = Some s" "f \<in> cancelled g" "armed s = {}"
    and "(watch_step from_str)\<^sup>*\<^sup>* g g'"
  shows "sessions g' f = Some s \<and> f \<in> cancelled g'"
proof -
  have "sessions g' f = Some s \<and> f \<in> cancelled g' \<and> global_inv g'"
    using assms(5)
  proof (induction rule: rtranclp_induct)
    case base
    show ?case using assms reachable_global_inv by auto
  next
    case (step y z)
    then show ?case using frozen_step [of from_str y z f s] global_inv_step assms(4) by auto
  qed
  then show ?thesis by simp
qed

theorem cancelled_session_frozen_witness:
  "sessions (stop_watching_inner (stop_watching_inner demo_global)) 0 = Some demo_session"
proof -
  let ?g = "stop_watching_inner demo_global"
  have r: "(watch_step (\<lambda>_. None))\<^sup>*\<^sup>* init_global ?g"
    using demo_reachable watch_step.stop [of "\<lambda>_. None" demo_global] by (rule rtranclp.rtrancl_into_rtrancl)
  have s: "sessions ?g 0 = Some demo_session" "0 \<in> cancelled ?g" "armed demo_session = {}"
    by (simp_all add: demo_global_def demo_session_def stop_watching_inner_def)
  have "(watch_step (\<lambda>_. None))\<^sup>*\<^sup>* ?g (stop_watching_inner ?g)"
    by (rule r_into_rtranclp) (rule watch_step.stop)
  from cancelled_session_frozen [OF r s this] show ?thesis by blast
qed

section \<open>Lines and the tools in flight\<close>

definition tool_use_ids :: "json list \<Rightarrow> string set" where
  "tool_use_ids content = {i. \<exists>b \<in> set content. has_type ''tool_use'' b \<and> get_str b ''id'' = Some i}"

definition tool_result_ids :: "json list \<Rightarrow> string set" where
  "tool_result_ids content =
     {i. \<exists>b \<in> set content. has_type ''tool_result'' b \<and> get_str b ''tool_use_id'' = Some i}"

definition tools_in_flight :: "AgentStateManager \<Rightarrow> string \<Rightarrow> string set" where
  "tools_in_flight m aid = (case hget (agents m) aid of None \<Rightarrow> {} | Some a \<Rightarrow> active_tool_ids a)"

lemma tools_in_flight_ensure [simp]: "tools_in_flight (ensure_agent now aid aty m) aid = tools_in_flight m aid"
  by (auto simp: tools_in_flight_def hget_ensure_agent new_agent_def split: option.splits)

lemma tools_in_flight_event:
  "tools_in_flight (process_event now aid ev m) aid =
     active_tool_ids (apply_agent_event now ev (the (hget (agents (ensure_agent now aid None m)) aid)))"
  by (simp add: tools_in_flight_def process_event_sel)

lemma tools_in_flight_the:
  "active_tool_ids (the (hget (agents (ensure_agent now aid None m)) aid)) = tools_in_flight m aid"
  using tools_in_flight_ensure [of now aid None m]
  by (simp add: tools_in_flight_def hget_ensure_agent)

lemma tools_in_flight_start [simp]:
  "tools_in_flight (process_event now aid (ToolStart i nm st False par) m) aid =
     insert i (tools_in_flight m aid)"
  by (simp add: tools_in_flight_event tools_in_flight_the Let_def)

lemma tools_in_flight_done [simp]:
  "tools_in_flight (process_event now aid (ToolDone i False par) m) aid = tools_in_flight m aid - {i}"
  by (simp add: tools_in_flight_event tools_in_flight_the Let_def)

lemma tools_in_flight_active [simp]:
  "tools_in_flight (process_event now aid Active m) aid = tools_in_flight m aid"
  "tools_in_flight (process_event now aid TextIdle m) aid = tools_in_flight m aid"
  by (simp_all add: tools_in_flight_event tools_in_flight_the)

lemma tools_in_flight_starts:
  "tools_in_flight (fold (process_event now aid) (concat (map (tool_start_of False None) content)) m) aid =
     tools_in_flight m aid \<union> tool_use_ids content"
proof (induction content arbitrary: m)
  case (Cons b content)
  have "tools_in_flight (fold (process_event now aid) (tool_start_of False None b) m) aid =
      tools_in_flight m aid \<union> tool_use_ids [b]"
    by (auto simp: tool_start_of_def tool_use_ids_def Let_def split: option.splits)
  with Cons show ?case by (auto simp: tool_use_ids_def)
qed (simp add: tool_use_ids_def)

lemma tools_in_flight_dones:
  "tools_in_flight (fold (process_event now aid) (concat (map (tool_done_of False None) content)) m) aid =
     tools_in_flight m aid - tool_result_ids content"
proof (induction content arbitrary: m)
  case (Cons b content)
  have "tools_in_flight (fold (process_event now aid) (tool_done_of False None b) m) aid =
      tools_in_flight m aid - tool_result_ids [b]"
    by (auto simp: tool_done_of_def tool_result_ids_def split: option.splits)
  with Cons show ?case by (auto simp: tool_result_ids_def)
qed (simp add: tool_result_ids_def)

lemma tools_in_flight_process_events:
  "tools_in_flight (process_events now aid aty evs m) aid =
     tools_in_flight (fold (process_event now aid) evs (ensure_agent now aid aty m)) aid"
  by (simp add: process_events_def)

text \<open>
  C16: the tools an agent has in flight are those its log says: an assistant line adds exactly the
  ids of its \<open>tool_use\<close> blocks and a user line removes exactly the ids of its \<open>tool_result\<close> blocks.
\<close>

theorem lines_track_tools:
  assumes "from_str line = Some record" "as_array (jindex (jindex record ''message'') ''content'') = Some content"
    and "get_str record ''type'' = Some ty" "ty \<in> {''assistant'', ''user''}"
  shows "tools_in_flight (process_events now aid aty (parse_jsonl_line from_str line had) m) aid =
    (if ty = ''assistant'' then tools_in_flight m aid \<union> tool_use_ids content
     else tools_in_flight m aid - tool_result_ids content)"
proof (cases "ty = ''assistant''")
  case True
  have ids: "tool_use_ids content = {}" if "\<not> list_ex (has_type ''tool_use'') content"
    using that by (auto simp: tool_use_ids_def list_ex_iff)
  from True assms have "parse_jsonl_line from_str line had = assistant_events record had"
    by (simp add: parse_jsonl_line_def str_or_empty_def)
  with assms(2) True ids show ?thesis
    by (simp add: tools_in_flight_process_events assistant_events_def tools_in_flight_starts)
next
  case False
  have ids: "tool_result_ids content = {}" if "\<not> list_ex (has_type ''tool_result'') content"
    using that by (auto simp: tool_result_ids_def list_ex_iff)
  from False assms have "parse_jsonl_line from_str line had = user_events record"
    by (simp add: parse_jsonl_line_def str_or_empty_def)
  with assms(2) False ids show ?thesis
    by (simp add: tools_in_flight_process_events user_events_def tools_in_flight_dones)
qed

definition demo_line :: "string \<Rightarrow> json list \<Rightarrow> json" where
  "demo_line ty content =
     JObject [(''message'', JObject [(''content'', JArray content)]), (''type'', JString ty)]"

definition demo_use :: "string \<Rightarrow> json" where
  "demo_use i = JObject [(''id'', JString i), (''name'', JString ''Bash''), (''type'', JString ''tool_use'')]"

definition demo_text :: json where "demo_text = JObject [(''type'', JString ''text'')]"

theorem lines_track_tools_witness:
  "tools_in_flight (process_events 1 ''a'' None
      (parse_jsonl_line (\<lambda>_. Some (demo_line ''assistant'' [demo_use ''t1''])) [] False) new_manager) ''a'' =
    {''t1''}"
proof -
  have "tool_use_ids [demo_use ''t1''] = {''t1''}"
    by (auto simp: tool_use_ids_def demo_use_def has_type_def get_str_def)
  moreover have "tools_in_flight new_manager ''a'' = {}" by (simp add: tools_in_flight_def new_manager_def)
  ultimately show ?thesis
    using lines_track_tools [of "\<lambda>_. Some (demo_line ''assistant'' [demo_use ''t1''])" "[]"
        "demo_line ''assistant'' [demo_use ''t1'']" "[demo_use ''t1'']" "''assistant''" 1 "''a''" None False new_manager]
    by (simp add: demo_line_def jindex_def get_str_def)
qed

definition batch_parser :: "string \<Rightarrow> json option" where
  "batch_parser line =
     Some (if line = ''1'' then demo_line ''assistant'' [demo_use ''t1''] else demo_line ''assistant'' [demo_text])"

text \<open>
  The flag \<open>had_tools\<close> is read once per batch, before its lines are processed: a tool call and
  a following text line read in one batch arm the text-idle timer while the tool is in flight, and
  read in two batches they do not.
\<close>

theorem batch_arms_text_idle:
  "let timer = (\<lambda>m. map_option text_idle_timer_start (hget (agents m) ''a''));
       one_batch = process_lines batch_parser 7 ''a'' None [''1'', ''2''] new_manager;
       two_batches = process_lines batch_parser 7 ''a'' None [''2'']
                       (process_lines batch_parser 7 ''a'' None [''1''] new_manager)
   in timer one_batch = Some (Some 7) \<and> tools_in_flight one_batch ''a'' = {''t1''}
     \<and> timer two_batches = Some None \<and> tools_in_flight two_batches ''a'' = {''t1''}"
  by code_simp

end
