(* ===== verification/Commands_Sessions.thy ===== *)
theory Commands_Sessions
  imports Commands_Text File_Watcher
begin

text \<open>
  The commands of \<open>src-tauri/src/commands.rs\<close> that call the search backend and resolve the
  workspaces of sessions. What a command sees of its surroundings is one \<open>env_view\<close>; the processes
  it runs are the parameter \<open>run\<close> (the program, its arguments and the variables set for it),
  \<open>sha256_hex\<close> stands for the hash of the \<open>sha2\<close> crate, and \<open>from_str\<close> and \<open>to_str\<close> for
  \<open>serde_json\<close> on \<open>Value\<close>.
\<close>

record env_view =
  env_var :: "string \<Rightarrow> string option"
  path_exists :: "path \<Rightarrow> bool"
  path_is_dir :: "path \<Rightarrow> bool"
  canonicalize :: "path \<Rightarrow> string option"
  read_to_string :: "path \<Rightarrow> string option"
  read_lines :: "path \<Rightarrow> string option list option"

record proc_output =
  success :: bool
  out_bytes :: string
  err_bytes :: string

type_synonym runner = "string \<Rightarrow> string list \<Rightarrow> (string \<times> string) list \<Rightarrow> string + proc_output"

text \<open>\<open>cass_bin\<close>; \<open>built_in\<close> is the path fixed at compile time, and \<open>exe_suffix\<close> is empty on Unix.\<close>

definition cass_bin :: "env_view \<Rightarrow> string option \<Rightarrow> string" where
  "cass_bin e built_in =
     (case env_var e ''CASS_BIN'' of
        Some bin \<Rightarrow> bin
      | None \<Rightarrow>
          (let fallback =
             (case (case env_var e ''HOME'' of Some h \<Rightarrow> Some h | None \<Rightarrow> env_var e ''USERPROFILE'') of
                Some h \<Rightarrow> h | None \<Rightarrow> [])
             @ ''/Projects/AgentRoom/cass/target/release/cass''
           in case built_in of
                Some b \<Rightarrow> if path_exists e (path_of b) then b else fallback
              | None \<Rightarrow> fallback))"

section \<open>Workspaces\<close>

definition is_hex_64 :: "string \<Rightarrow> bool" where
  "is_hex_64 v \<longleftrightarrow> length v = 64 \<and> list_all is_ascii_hexdigit v"

definition extract_gemini_project_hash :: "string \<Rightarrow> string option" where
  "extract_gemini_project_hash p =
     (let marker = ''/.gemini/tmp/'' in
      case find_str marker p of
        None \<Rightarrow> None
      | Some start \<Rightarrow>
          (let hash = hd (split_on (CHR ''/'') (drop (start + length marker) p)) in
           if is_hex_64 hash then Some (to_ascii_lowercase hash) else None))"

definition is_gemini_hash_workspace :: "string \<Rightarrow> bool" where
  "is_gemini_hash_workspace p \<longleftrightarrow> extract_gemini_project_hash p \<noteq> None"

definition load_gemini_trusted_folders :: "(string \<Rightarrow> json option) \<Rightarrow> env_view \<Rightarrow> string list" where
  "load_gemini_trusted_folders from_str e =
     (case env_var e ''HOME'' of
        None \<Rightarrow> []
      | Some home \<Rightarrow>
          (case read_to_string e (path_join (path_join (path_of home) ''.gemini'') ''trustedFolders.json'') of
             None \<Rightarrow> []
           | Some contents \<Rightarrow>
               (case Option.bind (from_str contents) as_object of
                  None \<Rightarrow> []
                | Some m \<Rightarrow> map fst m)))"

text \<open>The non-blank value of a string field, trimmed.\<close>

definition trimmed_field :: "json \<Rightarrow> string \<Rightarrow> string option" where
  "trimmed_field v k =
     (case get_str v k of
        None \<Rightarrow> None
      | Some s \<Rightarrow> if trim s = [] then None else Some (trim s))"

fun workspace_of_lines :: "(string \<Rightarrow> json option) \<Rightarrow> string option list \<Rightarrow> string option" where
  "workspace_of_lines from_str [] = None"
| "workspace_of_lines from_str (None # rest) = None"
| "workspace_of_lines from_str (Some line # rest) =
     (if is_blank line then workspace_of_lines from_str rest
      else case from_str line of
        None \<Rightarrow> workspace_of_lines from_str rest
      | Some parsed \<Rightarrow>
          (case trimmed_field parsed ''cwd'' of
             Some cwd \<Rightarrow> Some cwd
           | None \<Rightarrow>
               (case trimmed_field parsed ''workspace'' of
                  Some w \<Rightarrow> Some w
                | None \<Rightarrow> workspace_of_lines from_str rest)))"

definition extract_workspace_from_jsonl ::
  "(string \<Rightarrow> json option) \<Rightarrow> env_view \<Rightarrow> path \<Rightarrow> string option" where
  "extract_workspace_from_jsonl from_str e p =
     Option.bind (read_lines e p) (\<lambda>ls. workspace_of_lines from_str (take 2000 ls))"

definition resolve_claude_main_session_file :: "env_view \<Rightarrow> path \<Rightarrow> path option" where
  "resolve_claude_main_session_file e source =
     (case file_name source of
        None \<Rightarrow> None
      | Some name \<Rightarrow>
          if \<not> (prefix ''agent-'' name \<and> suffix ''.jsonl'' name) then None
          else case parent source of
            None \<Rightarrow> None
          | Some subagents_dir \<Rightarrow>
              if file_name subagents_dir \<noteq> Some ''subagents'' then None
              else case parent subagents_dir of
                None \<Rightarrow> None
              | Some session_dir \<Rightarrow>
                  (case (file_name session_dir, parent session_dir) of
                     (Some session_id, Some project_dir) \<Rightarrow>
                       (let main_session = path_join project_dir (session_id @ ''.jsonl'') in
                        if path_exists e main_session then Some main_session else None)
                   | _ \<Rightarrow> None))"

definition expand_home :: "string \<Rightarrow> string \<Rightarrow> string" where
  "expand_home p home =
     (if p = ''~'' then home
      else if prefix ''~/'' p then home @ ''/'' @ drop 2 p
      else p)"

definition normalize_existing_dir :: "env_view \<Rightarrow> string \<Rightarrow> string option" where
  "normalize_existing_dir e p =
     (let candidate = path_of p in
      if \<not> path_exists e candidate \<or> \<not> path_is_dir e candidate then None
      else case canonicalize e candidate of
        Some resolved \<Rightarrow> Some resolved
      | None \<Rightarrow> Some p)"

definition split_commas :: "string \<Rightarrow> string list" where
  "split_commas s = split_on (CHR '','') (map (\<lambda>c. if c = CHR '';'' then CHR '','' else c) s)"

definition scan_candidates :: "env_view \<Rightarrow> string \<Rightarrow> string list" where
  "scan_candidates e home =
     (case env_var e ''AGENTROOM_GEMINI_SCAN_DIRS'' of
        None \<Rightarrow> []
      | Some configured \<Rightarrow>
          map (\<lambda>entry. if home = [] then entry else expand_home entry home)
            (filter (\<lambda>entry. entry \<noteq> []) (map trim (split_commas configured))))
     @ (if home = [] then [] else [home @ ''/openclaw/.gemini/tmp''])"

fun collect_roots ::
  "env_view \<Rightarrow> string option \<Rightarrow> string list \<Rightarrow> string list \<Rightarrow> string list" where
  "collect_roots e default_root roots [] = roots"
| "collect_roots e default_root roots (candidate # rest) =
     (case normalize_existing_dir e candidate of
        None \<Rightarrow> collect_roots e default_root roots rest
      | Some normalized \<Rightarrow>
          if default_root = Some normalized then collect_roots e default_root roots rest
          else if normalized \<in> set roots then collect_roots e default_root roots rest
          else collect_roots e default_root (roots @ [normalized]) rest)"

definition default_gemini_root :: "env_view \<Rightarrow> string option" where
  "default_gemini_root e =
     (let home = (case env_var e ''HOME'' of Some h \<Rightarrow> h | None \<Rightarrow> []) in
      if home = [] then None else normalize_existing_dir e (home @ ''/.gemini/tmp''))"

definition extra_gemini_scan_dirs :: "env_view \<Rightarrow> string list" where
  "extra_gemini_scan_dirs e =
     (let home = (case env_var e ''HOME'' of Some h \<Rightarrow> h | None \<Rightarrow> []) in
      collect_roots e (default_gemini_root e) [] (scan_candidates e home))"

section \<open>Session lists\<close>

definition output_to_string :: "proc_output \<Rightarrow> string + string" where
  "output_to_string out =
     (if success out then Ok (from_utf8_lossy (out_bytes out)) else Err (from_utf8_lossy (err_bytes out)))"

definition normalize_agent_name :: "string \<Rightarrow> string" where
  "normalize_agent_name raw = replace_char (CHR ''-'') ''_'' (to_ascii_lowercase (trim raw))"

definition is_supported_agent_name :: "string \<Rightarrow> bool" where
  "is_supported_agent_name raw \<longleftrightarrow>
     normalize_agent_name raw \<in> {''claude_code'', ''codex'', ''gemini''}"

definition session_source_exists :: "env_view \<Rightarrow> json \<Rightarrow> bool" where
  "session_source_exists e entry =
     (case get_str entry ''source_path'' of None \<Rightarrow> False | Some p \<Rightarrow> path_exists e (path_of p))"

definition has_nonzero_message_count :: "json \<Rightarrow> bool" where
  "has_nonzero_message_count entry =
     (case jget entry ''message_count'' of
        None \<Rightarrow> True
      | Some v \<Rightarrow>
          (case v of
             JNumber n \<Rightarrow>
               (case as_u64 n of
                  Some u \<Rightarrow> 0 < u
                | None \<Rightarrow> (case as_i64 n of Some i \<Rightarrow> 0 < i | None \<Rightarrow> True))
           | JString s \<Rightarrow> (case parse_u64 (trim s) of Some c \<Rightarrow> 0 < c | None \<Rightarrow> True)
           | _ \<Rightarrow> True))"

definition should_keep_session_entry :: "env_view \<Rightarrow> json \<Rightarrow> bool" where
  "should_keep_session_entry e entry =
     (case get_str entry ''agent'' of
        None \<Rightarrow> False
      | Some agent \<Rightarrow>
          if \<not> is_supported_agent_name agent then False
          else if \<not> session_source_exists e entry then False
          else has_nonzero_message_count entry)"

definition filter_cass_session_list ::
  "(string \<Rightarrow> json option) \<Rightarrow> (json \<Rightarrow> string option) \<Rightarrow> env_view \<Rightarrow> string \<Rightarrow> string" where
  "filter_cass_session_list from_str to_str e raw_json =
     (case Option.bind (from_str raw_json) as_object of
        None \<Rightarrow> raw_json
      | Some m \<Rightarrow>
          (case Option.bind (map_of m ''sessions'') as_array of
             None \<Rightarrow> raw_json
           | Some entries \<Rightarrow>
               (let kept = filter (should_keep_session_entry e) entries;
                    m1 = btree_insert ''sessions'' (JArray kept) m;
                    m2 = btree_insert ''total_sessions'' (JNumber (NPos (length kept))) m1
                in case to_str (JObject m2) of Some s \<Rightarrow> s | None \<Rightarrow> raw_json)))"

definition insert_if_present :: "string \<Rightarrow> json \<Rightarrow> (string \<times> json) list \<Rightarrow> (string \<times> json) list" where
  "insert_if_present k v m = (if map_of m k = None then m else btree_insert k v m)"

definition filter_cass_search_hits ::
  "(string \<Rightarrow> json option) \<Rightarrow> (json \<Rightarrow> string option) \<Rightarrow> env_view \<Rightarrow> string \<Rightarrow> string" where
  "filter_cass_search_hits from_str to_str e raw_json =
     (case Option.bind (from_str raw_json) as_object of
        None \<Rightarrow> raw_json
      | Some m \<Rightarrow>
          (case Option.bind (map_of m ''hits'') as_array of
             None \<Rightarrow> raw_json
           | Some hits \<Rightarrow>
               (let kept = filter (should_keep_session_entry e) hits;
                    m1 = btree_insert ''hits'' (JArray kept) m;
                    m2 = insert_if_present ''count'' (JNumber (NPos (length kept))) m1;
                    m3 = insert_if_present ''total_matches'' (JNumber (NPos (length kept))) m2
                in case to_str (JObject m3) of Some s \<Rightarrow> s | None \<Rightarrow> raw_json)))"

definition is_gemini_session_path :: "string \<Rightarrow> bool" where
  "is_gemini_session_path p \<longleftrightarrow> contains_str p ''/.gemini/tmp/'' \<and> suffix ''.json'' p"

definition load_gemini_session_raw :: "(string \<Rightarrow> json option) \<Rightarrow> env_view \<Rightarrow> string \<Rightarrow> string option" where
  "load_gemini_session_raw from_str e p =
     (if \<not> is_gemini_session_path p then None
      else case read_to_string e (path_of p) of
        None \<Rightarrow> None
      | Some contents \<Rightarrow>
          (case Option.bind (from_str contents) as_object of
             None \<Rightarrow> None
           | Some obj \<Rightarrow>
               (let has_messages = (case map_of obj ''messages'' of Some v \<Rightarrow> is_array v | None \<Rightarrow> False);
                    has_session_id = (case map_of obj ''sessionId'' of Some v \<Rightarrow> is_string v | None \<Rightarrow> False)
                in if has_messages \<and> has_session_id then Some contents else None)))"

definition extract_gemini_session_id :: "(string \<Rightarrow> json option) \<Rightarrow> env_view \<Rightarrow> string \<Rightarrow> string option" where
  "extract_gemini_session_id from_str e p =
     (case load_gemini_session_raw from_str e p of
        None \<Rightarrow> None
      | Some contents \<Rightarrow> Option.bind (from_str contents) (\<lambda>v. trimmed_field v ''sessionId''))"

text \<open>The folder with the given hash: a trusted one, or \<open>openclaw\<close> under the home directory.\<close>

definition folder_with_hash ::
  "(string \<Rightarrow> json option) \<Rightarrow> (string \<Rightarrow> string) \<Rightarrow> env_view \<Rightarrow> string \<Rightarrow> string option" where
  "folder_with_hash from_str sha256_hex e target_hash =
     (case List.find (\<lambda>c. sha256_hex c = target_hash) (load_gemini_trusted_folders from_str e) of
        Some candidate \<Rightarrow> Some candidate
      | None \<Rightarrow>
          (case env_var e ''HOME'' of
             None \<Rightarrow> None
           | Some home \<Rightarrow>
               (let openclaw = home @ ''/openclaw'' in
                if sha256_hex openclaw = target_hash then Some openclaw else None)))"

definition resolve_gemini_workspace_from_hash ::
  "(string \<Rightarrow> json option) \<Rightarrow> (string \<Rightarrow> string) \<Rightarrow> env_view \<Rightarrow> string \<Rightarrow> string option \<Rightarrow> string option" where
  "resolve_gemini_workspace_from_hash from_str sha256_hex e source_path workspace =
     (let by_hash =
        Option.bind
          (or_else (extract_gemini_project_hash source_path)
            (Option.bind workspace extract_gemini_project_hash))
          (folder_with_hash from_str sha256_hex e)
      in case workspace of
           Some w \<Rightarrow>
             if trim w \<noteq> [] \<and> \<not> is_gemini_hash_workspace (trim w) then Some (trim w) else by_hash
         | None \<Rightarrow> by_hash)"

definition resume_index_of_line :: "string \<Rightarrow> string \<Rightarrow> string option" where
  "resume_index_of_line target line =
     (let trimmed = trim line in
      case find_str ''. '' trimmed of
        None \<Rightarrow> None
      | Some dot_pos \<Rightarrow>
          (let index = take dot_pos trimmed in
           if index = [] \<or> \<not> list_all is_ascii_digit index then None
           else case (rfind_char (CHR ''['') trimmed, rfind_char (CHR '']'') trimmed) of
             (Some left_bracket, Some right_bracket) \<Rightarrow>
               if right_bracket \<le> left_bracket then None
               else
                 (let listed_id =
                    to_ascii_lowercase
                      (trim (take (right_bracket - Suc left_bracket) (drop (Suc left_bracket) trimmed)))
                  in if listed_id = target then Some index else None)
           | _ \<Rightarrow> None))"

definition find_gemini_resume_index :: "string \<Rightarrow> string \<Rightarrow> string option" where
  "find_gemini_resume_index list_output session_id =
     (let target = to_ascii_lowercase (trim session_id) in
      if target = [] then None
      else find_map (resume_index_of_line target) (str_lines list_output))"

section \<open>Commands\<close>

definition search_args :: "string \<Rightarrow> string option \<Rightarrow> string option \<Rightarrow> nat option \<Rightarrow> nat option \<Rightarrow> string list" where
  "search_args query mode agent limit days =
     [''search'', query, ''--json'', ''--limit'', show_nat (case limit of Some l \<Rightarrow> l | None \<Rightarrow> 50)]
     @ (case mode of Some m \<Rightarrow> if m \<noteq> ''lexical'' then [''--mode'', m] else [] | None \<Rightarrow> [])
     @ (case agent of Some a \<Rightarrow> [''--agent'', a] | None \<Rightarrow> [])
     @ (case days of Some d \<Rightarrow> [''--days'', show_nat d] | None \<Rightarrow> [])"

definition cass_search ::
  "(string \<Rightarrow> json option) \<Rightarrow> (json \<Rightarrow> string option) \<Rightarrow> runner \<Rightarrow> env_view \<Rightarrow> string option
    \<Rightarrow> string \<Rightarrow> string option \<Rightarrow> string option \<Rightarrow> nat option \<Rightarrow> nat option \<Rightarrow> string + string" where
  "cass_search from_str to_str run e built_in query mode agent limit days =
     and_then (run (cass_bin e built_in) (search_args query mode agent limit days) [])
       (\<lambda>out. and_then (output_to_string out)
         (\<lambda>raw. Ok (filter_cass_search_hits from_str to_str e raw)))"

definition cass_sessions ::
  "(string \<Rightarrow> json option) \<Rightarrow> (json \<Rightarrow> string option) \<Rightarrow> runner \<Rightarrow> env_view \<Rightarrow> string option
    \<Rightarrow> nat option \<Rightarrow> string + string" where
  "cass_sessions from_str to_str run e built_in days =
     (let since = show_nat (case days of Some d \<Rightarrow> d | None \<Rightarrow> 90) @ ''d'' in
      and_then (run (cass_bin e built_in) [''timeline'', ''--json'', ''--group-by'', ''none'', ''--since'', since] [])
        (\<lambda>out. and_then (output_to_string out)
          (\<lambda>raw. Ok (filter_cass_session_list from_str to_str e raw))))"

definition cass_transcript ::
  "(string \<Rightarrow> json option) \<Rightarrow> runner \<Rightarrow> env_view \<Rightarrow> string option \<Rightarrow> string \<Rightarrow> string + string" where
  "cass_transcript from_str run e built_in p =
     and_then (run (cass_bin e built_in) [''export'', p, ''--format'', ''json''] [])
       (\<lambda>out. case output_to_string out of
          Inr raw \<Rightarrow>
            if from_str raw \<noteq> None then Ok raw
            else (case load_gemini_session_raw from_str e p of Some fallback \<Rightarrow> Ok fallback | None \<Rightarrow> Ok raw)
        | Inl err \<Rightarrow>
            (case load_gemini_session_raw from_str e p of Some fallback \<Rightarrow> Ok fallback | None \<Rightarrow> Err err))"

text \<open>
  \<open>cass_index\<close>: the extra roots that were indexed and the warnings of those that were not, in
  order. \<open>value[key] = v\<close> panics (\<open>None\<close>) on a value that is neither null nor an object.
\<close>

definition index_roots ::
  "runner \<Rightarrow> string \<Rightarrow> string list \<Rightarrow> string list \<times> string list" where
  "index_roots run bin roots =
     (let result = (\<lambda>r. run bin [''index'', ''--json''] [(''GEMINI_HOME'', r)]);
          ok = (\<lambda>r. case result r of Inr out \<Rightarrow> success out | Inl _ \<Rightarrow> False);
          warning = (\<lambda>r. ''gemini scan root '' @ r @ '': '' @
            (case result r of Inr out \<Rightarrow> trim (from_utf8_lossy (err_bytes out)) | Inl err \<Rightarrow> err))
      in (filter ok roots, map warning (filter (\<lambda>r. \<not> ok r) roots)))"

fun jset :: "json \<Rightarrow> string \<Rightarrow> json \<Rightarrow> json option" where
  "jset JNull k v = Some (JObject [(k, v)])"
| "jset (JObject m) k v = Some (JObject (btree_insert k v m))"
| "jset _ k v = None"

definition jset_if :: "bool \<Rightarrow> string \<Rightarrow> json \<Rightarrow> json \<Rightarrow> json option" where
  "jset_if b k v j = (if b then jset j k v else Some j)"

definition cass_index ::
  "(string \<Rightarrow> json option) \<Rightarrow> (json \<Rightarrow> string) \<Rightarrow> runner \<Rightarrow> env_view \<Rightarrow> string option
    \<Rightarrow> (string + string) option" where
  "cass_index from_str to_text run e built_in =
     (case and_then (run (cass_bin e built_in) [''index'', ''--json''] []) output_to_string of
        Inl err \<Rightarrow> Some (Err err)
      | Inr base_json \<Rightarrow>
          (let merged = (case from_str base_json of
                 Some v \<Rightarrow> v
               | None \<Rightarrow> JObject [(''message'', JString ''Indexed (non-JSON output from cass)''), (''ok'', JBool True)]);
               (indexed, warnings) = index_roots run (cass_bin e built_in) (extra_gemini_scan_dirs e)
           in map_option (\<lambda>v. Ok (to_text v))
                (Option.bind
                  (jset_if (indexed \<noteq> []) ''extra_gemini_scan_dirs'' (JArray (map JString indexed)) merged)
                  (jset_if (warnings \<noteq> []) ''warnings'' (JArray (map JString warnings))))))"

definition cass_health :: "runner \<Rightarrow> env_view \<Rightarrow> string option \<Rightarrow> string + string" where
  "cass_health run e built_in =
     and_then (run (cass_bin e built_in) [''health'', ''--json''] [])
       (\<lambda>out. if success out then Ok (from_utf8_lossy (out_bytes out))
              else Ok (''{'' @ [QUOTE] @ ''healthy'' @ [QUOTE] @ '':false,'' @ [QUOTE] @ ''error'' @ [QUOTE]
                   @ '':'' @ [QUOTE] @ ''CASS not available'' @ [QUOTE] @ ''}''))"

definition resolve_gemini_workspace ::
  "(string \<Rightarrow> json option) \<Rightarrow> (string \<Rightarrow> string) \<Rightarrow> env_view \<Rightarrow> string \<Rightarrow> string option \<Rightarrow> string + string" where
  "resolve_gemini_workspace from_str sha256_hex e source_path workspace =
     Ok (case resolve_gemini_workspace_from_hash from_str sha256_hex e source_path workspace of
           Some w \<Rightarrow> w | None \<Rightarrow> [])"

text \<open>\<open>list_sessions dir\<close> is what running \<open>gemini --list-sessions\<close> in a directory gives.\<close>

definition resolve_gemini_resume_target ::
  "(string \<Rightarrow> json option) \<Rightarrow> (string \<Rightarrow> string) \<Rightarrow> (string \<Rightarrow> string + proc_output) \<Rightarrow> env_view
    \<Rightarrow> string \<Rightarrow> string option \<Rightarrow> string + string" where
  "resolve_gemini_resume_target from_str sha256_hex list_sessions e source_path workspace =
     (case extract_gemini_session_id from_str e source_path of
        None \<Rightarrow> Ok []
      | Some session_id \<Rightarrow>
          (case resolve_gemini_workspace_from_hash from_str sha256_hex e source_path workspace of
             None \<Rightarrow> Ok session_id
           | Some dir \<Rightarrow>
               (case list_sessions dir of
                  Inl _ \<Rightarrow> Ok session_id
                | Inr out \<Rightarrow>
                    if success out then
                      (case find_gemini_resume_index (from_utf8_lossy (out_bytes out)) session_id of
                         Some index \<Rightarrow> Ok index
                       | None \<Rightarrow> Ok session_id)
                    else Ok session_id)))"

definition resolve_claude_workspace ::
  "(string \<Rightarrow> json option) \<Rightarrow> env_view \<Rightarrow> string \<Rightarrow> string option \<Rightarrow> string + string" where
  "resolve_claude_workspace from_str e source_path workspace =
     (let source = path_of source_path;
          from_source = (if path_exists e source then extract_workspace_from_jsonl from_str e source else None);
          from_main = Option.bind (resolve_claude_main_session_file e source) (extract_workspace_from_jsonl from_str e);
          found = (case or_else from_source from_main of Some w \<Rightarrow> w | None \<Rightarrow> [])
      in case workspace of
           Some w \<Rightarrow> if trim w \<noteq> [] then Ok (trim w) else Ok found
         | None \<Rightarrow> Ok found)"

definition run_osascript :: "runner \<Rightarrow> string \<Rightarrow> string + string" where
  "run_osascript run script =
     and_then (run ''osascript'' [''-e'', script] [])
       (\<lambda>out. if success out then Ok (''{'' @ [QUOTE] @ ''success'' @ [QUOTE] @ '':true}'')
              else Err (from_utf8_lossy (err_bytes out)))"

definition get_active_agents :: "string + string" where "get_active_agents = Ok ''[]''"

definition stop_watching :: "watch_global \<Rightarrow> (string + string) \<times> watch_global" where
  "stop_watching g =
     (Ok (''{'' @ [QUOTE] @ ''status'' @ [QUOTE] @ '':'' @ [QUOTE] @ ''stopped'' @ [QUOTE] @ ''}''),
      stop_watching_inner g)"

definition start_watching_cmd ::
  "fs_view \<Rightarrow> (string \<Rightarrow> json option) \<Rightarrow> instant \<Rightarrow> string option \<Rightarrow> string option
    \<Rightarrow> (WatcherState \<Rightarrow> string list) \<Rightarrow> (string + unit) \<Rightarrow> string \<Rightarrow> watch_global
    \<Rightarrow> ((string + string) \<times> watch_global) option" where
  "start_watching_cmd fs from_str now home userprofile ord notify_result project_dir g =
     map_option
       (\<lambda>(r, g'). (case r of
            Inr _ \<Rightarrow> Ok (''{'' @ [QUOTE] @ ''status'' @ [QUOTE] @ '':'' @ [QUOTE] @ ''watching'' @ [QUOTE] @ ''}'')
          | Inl err \<Rightarrow> Err err, g'))
       (start_watching fs from_str now home userprofile ord notify_result project_dir g)"

definition read_codexbar_snapshot :: "env_view \<Rightarrow> (path \<Rightarrow> string + string) \<Rightarrow> string + string" where
  "read_codexbar_snapshot e read =
     and_then (ok_or (env_var e ''HOME'') ''HOME not set'')
       (\<lambda>home.
         let p = path_join (path_join (path_join (path_join (path_of home) ''Library'') ''Group Containers'')
                   ''group.com.steipete.codexbar'') ''widget-snapshot.json''
         in case read p of
              Inr contents \<Rightarrow> Ok contents
            | Inl err \<Rightarrow> Err (''CodexBar++ snapshot not available: '' @ err))"

section \<open>Properties of the session filters\<close>

text \<open>
  Filtering a session list keeps exactly the entries of a supported agent whose log exists and
  is not empty, in their order, makes the total agree with what is left, changes no other field,
  and filtering again changes nothing.
\<close>

theorem session_list_filtered:
  assumes "from_str raw = Some (JObject m)" "map_of m ''sessions'' = Some (JArray xs)"
    and "sorted (map fst m)" "distinct (map fst m)"
    and rt: "\<And>v s. to_str v = Some s \<Longrightarrow> from_str s = Some v"
    and "kept = filter (should_keep_session_entry e) xs"
    and "to_str (JObject (btree_insert ''total_sessions'' (JNumber (NPos (length kept)))
           (btree_insert ''sessions'' (JArray kept) m))) = Some out"
  shows "filter_cass_session_list from_str to_str e raw = out
    \<and> (\<exists>m'. from_str out = Some (JObject m') \<and> map_of m' ''sessions'' = Some (JArray kept)
         \<and> map_of m' ''total_sessions'' = Some (JNumber (NPos (length kept)))
         \<and> (\<forall>k. k \<noteq> ''sessions'' \<and> k \<noteq> ''total_sessions'' \<longrightarrow> map_of m' k = map_of m k))
    \<and> filter_cass_session_list from_str to_str e out = out"
proof -
  let ?m = "btree_insert ''total_sessions'' (JNumber (NPos (length kept)))
      (btree_insert ''sessions'' (JArray kept) m)"
  have out: "filter_cass_session_list from_str to_str e raw = out"
    using assms(1,2,6,7) by (simp add: filter_cass_session_list_def)
  have parsed: "from_str out = Some (JObject ?m)" using rt assms(7) by blast
  have srt: "sorted (map fst ?m) \<and> distinct (map fst ?m)"
    using assms(3,4) by (blast dest: btree_insert_sorted)
  have "filter (should_keep_session_entry e) kept = kept" using assms(6) by simp
  then have "filter_cass_session_list from_str to_str e out = out"
    using parsed srt assms(7)
    by (simp add: filter_cass_session_list_def btree_insert_same)
  with out parsed show ?thesis by simp
qed

definition demo_env :: env_view where
  "demo_env = \<lparr>env_var = (\<lambda>_. None), path_exists = (\<lambda>p. p = path_of ''/s''), path_is_dir = (\<lambda>_. True),
     canonicalize = (\<lambda>_. None), read_to_string = (\<lambda>_. None), read_lines = (\<lambda>_. None)\<rparr>"

definition demo_entry :: "string \<Rightarrow> json" where
  "demo_entry agent = JObject [(''agent'', JString agent), (''source_path'', JString ''/s'')]"

theorem session_list_filtered_witness:
  "let kept = [demo_entry ''Claude-Code''];
       res = JObject [(''sessions'', JArray kept), (''total_sessions'', JNumber (NPos 1))];
       from_str = (\<lambda>s. if s = ''raw'' then
                 Some (JObject [(''sessions'', JArray [demo_entry ''Claude-Code'', demo_entry ''aider''])])
               else if s = ''out'' then Some res else None);
       to_str = (\<lambda>v. if v = res then Some ''out'' else None)
   in filter_cass_session_list from_str to_str demo_env ''raw'' = ''out''"
proof -
  let ?kept = "[demo_entry ''Claude-Code'']"
  let ?res = "JObject [(''sessions'', JArray ?kept), (''total_sessions'', JNumber (NPos 1))]"
  let ?m = "[(''sessions'', JArray [demo_entry ''Claude-Code'', demo_entry ''aider''])]"
  let ?from = "\<lambda>s. if s = ''raw'' then Some (JObject ?m) else if s = ''out'' then Some ?res else None"
  let ?to = "\<lambda>v. if v = ?res then Some ''out'' else None"
  have k: "?kept = filter (should_keep_session_entry demo_env) [demo_entry ''Claude-Code'', demo_entry ''aider'']"
    by code_simp
  have t: "?to (JObject (btree_insert ''total_sessions'' (JNumber (NPos (length ?kept)))
      (btree_insert ''sessions'' (JArray ?kept) ?m))) = Some ''out''"
    by code_simp
  have f: "?from ''raw'' = Some (JObject ?m)"
    "map_of ?m ''sessions'' = Some (JArray [demo_entry ''Claude-Code'', demo_entry ''aider''])"
    "sorted (map fst ?m)" "distinct (map fst ?m)"
    by simp_all
  have rt: "?from s = Some v" if "?to v = Some s" for v s
    using that by (simp split: if_splits)
  from session_list_filtered [where from_str = ?from and to_str = ?to, OF f rt k t]
  show ?thesis unfolding Let_def by blast
qed

text \<open>
  Filtering search hits keeps exactly the same kind of entries; the two counters agree with
  what is left where the answer has them, and are not added where it has not.
\<close>

theorem search_hits_filtered:
  assumes "from_str raw = Some (JObject m)" "map_of m ''hits'' = Some (JArray xs)"
    and rt: "\<And>v s. to_str v = Some s \<Longrightarrow> from_str s = Some v"
    and "n = JNumber (NPos (length (filter (should_keep_session_entry e) xs)))"
    and "to_str (JObject (insert_if_present ''total_matches'' n (insert_if_present ''count'' n
           (btree_insert ''hits'' (JArray (filter (should_keep_session_entry e) xs)) m)))) = Some out"
  shows "\<exists>m'. from_str (filter_cass_search_hits from_str to_str e raw) = Some (JObject m')
    \<and> map_of m' ''hits'' = Some (JArray (filter (should_keep_session_entry e) xs))
    \<and> (\<forall>k. k = ''count'' \<or> k = ''total_matches'' \<longrightarrow> map_of m' k = map_option (\<lambda>_. n) (map_of m k))
    \<and> (\<forall>k. k \<noteq> ''hits'' \<and> k \<noteq> ''count'' \<and> k \<noteq> ''total_matches'' \<longrightarrow> map_of m' k = map_of m k)"
proof -
  let ?m = "insert_if_present ''total_matches'' n (insert_if_present ''count'' n
      (btree_insert ''hits'' (JArray (filter (should_keep_session_entry e) xs)) m))"
  have "filter_cass_search_hits from_str to_str e raw = out"
    using assms(1,2,4,5) by (simp add: filter_cass_search_hits_def)
  with rt [OF assms(5)] show ?thesis
    by (intro exI [of _ ?m]) (auto simp: insert_if_present_def split: option.splits)
qed

theorem search_hits_filtered_witness:
  "let res = JObject [(''count'', JNumber (NPos 1)), (''hits'', JArray [demo_entry ''codex''])];
       from_str = (\<lambda>s. if s = ''raw'' then
                 Some (JObject [(''count'', JNumber (NPos 2)), (''hits'', JArray [demo_entry ''amp'', demo_entry ''codex''])])
               else if s = ''out'' then Some res else None);
       to_str = (\<lambda>v. if v = res then Some ''out'' else None)
   in \<exists>m'. from_str (filter_cass_search_hits from_str to_str demo_env ''raw'') = Some (JObject m')
        \<and> map_of m' ''hits'' = Some (JArray [demo_entry ''codex''])"
proof -
  let ?res = "JObject [(''count'', JNumber (NPos 1)), (''hits'', JArray [demo_entry ''codex''])]"
  let ?m = "[(''count'', JNumber (NPos 2)), (''hits'', JArray [demo_entry ''amp'', demo_entry ''codex''])]"
  let ?from = "\<lambda>s. if s = ''raw'' then Some (JObject ?m) else if s = ''out'' then Some ?res else None"
  let ?to = "\<lambda>v. if v = ?res then Some ''out'' else None"
  have k: "filter (should_keep_session_entry demo_env) [demo_entry ''amp'', demo_entry ''codex''] = [demo_entry ''codex'']"
    by code_simp
  have t: "?to (JObject (insert_if_present ''total_matches'' (JNumber (NPos 1)) (insert_if_present ''count'' (JNumber (NPos 1))
      (btree_insert ''hits'' (JArray (filter (should_keep_session_entry demo_env) [demo_entry ''amp'', demo_entry ''codex''])) ?m))))
      = Some ''out''"
    unfolding k by code_simp
  have f: "?from ''raw'' = Some (JObject ?m)"
    "map_of ?m ''hits'' = Some (JArray [demo_entry ''amp'', demo_entry ''codex''])"
    "JNumber (NPos 1) = JNumber (NPos (length (filter (should_keep_session_entry demo_env)
       [demo_entry ''amp'', demo_entry ''codex''])))"
    unfolding k by simp_all
  have rt: "?from s = Some v" if "?to v = Some s" for v s
    using that by (simp split: if_splits)
  from search_hits_filtered [where from_str = ?from and to_str = ?to, OF f(1,2) rt f(3) t]
  show ?thesis unfolding Let_def k by blast
qed

section \<open>Properties of the scan roots and workspaces\<close>

lemma set_collect_roots:
  "set (collect_roots e d roots cs) =
     set roots \<union> {r. \<exists>c \<in> set cs. normalize_existing_dir e c = Some r \<and> d \<noteq> Some r}"
  by (induction cs arbitrary: roots) (auto split: option.splits)

lemma distinct_collect_roots: "distinct roots \<Longrightarrow> distinct (collect_roots e d roots cs)"
  by (induction cs arbitrary: roots) (auto split: option.splits)

text \<open>
  The extra Gemini roots are scanned once each, and never the default one: they are the
  directories the configured candidates resolve to, without repetition and without the default
  root, however the candidates spell them.
\<close>

theorem extra_roots_exact:
  "distinct (extra_gemini_scan_dirs e)
   \<and> set (extra_gemini_scan_dirs e) =
       {r. \<exists>c \<in> set (scan_candidates e (case env_var e ''HOME'' of Some h \<Rightarrow> h | None \<Rightarrow> [])).
          normalize_existing_dir e c = Some r \<and> default_gemini_root e \<noteq> Some r}"
  by (simp add: extra_gemini_scan_dirs_def set_collect_roots distinct_collect_roots)

text \<open>
  A workspace resolved for a Gemini session is never a guess: it is the one given, when that is
  not itself a hash directory, or a folder whose hash is the one in the path of the session.
\<close>

theorem gemini_workspace_sound:
  assumes "resolve_gemini_workspace_from_hash from_str sha256_hex e source_path workspace = Some w"
  shows "(\<exists>given. workspace = Some given \<and> w = trim given \<and> w \<noteq> [] \<and> \<not> is_gemini_hash_workspace w)
    \<or> (extract_gemini_project_hash source_path = Some (sha256_hex w)
       \<or> Option.bind workspace extract_gemini_project_hash = Some (sha256_hex w))
      \<and> (w \<in> set (load_gemini_trusted_folders from_str e)
         \<or> (\<exists>home. env_var e ''HOME'' = Some home \<and> w = home @ ''/openclaw''))"
proof -
  have hash: "sha256_hex w = t \<and> (w \<in> set (load_gemini_trusted_folders from_str e)
       \<or> (\<exists>home. env_var e ''HOME'' = Some home \<and> w = home @ ''/openclaw''))"
    if "folder_with_hash from_str sha256_hex e t = Some w" for t
    using that
    by (auto simp: folder_with_hash_def Let_def find_Some_iff split: option.splits if_splits)
  show ?thesis
  proof (cases "\<exists>given. workspace = Some given \<and> trim given \<noteq> [] \<and> \<not> is_gemini_hash_workspace (trim given)")
    case True
    then obtain given where g: "workspace = Some given" "trim given \<noteq> []" "\<not> is_gemini_hash_workspace (trim given)"
      by blast
    then have "w = trim given" using assms by (simp add: resolve_gemini_workspace_from_hash_def)
    with g show ?thesis by blast
  next
    case False
    then have "resolve_gemini_workspace_from_hash from_str sha256_hex e source_path workspace =
        Option.bind (or_else (extract_gemini_project_hash source_path)
          (Option.bind workspace extract_gemini_project_hash)) (folder_with_hash from_str sha256_hex e)"
      by (cases workspace) (auto simp: resolve_gemini_workspace_from_hash_def)
    with assms obtain t where "folder_with_hash from_str sha256_hex e t = Some w"
        "or_else (extract_gemini_project_hash source_path)
           (Option.bind workspace extract_gemini_project_hash) = Some t"
      by (auto simp: bind_eq_Some_conv)
    with hash [of t] show ?thesis by (auto simp: or_else_def split: option.splits)
  qed
qed

definition demo_hash :: string where "demo_hash = replicate 64 (CHR ''a'')"

theorem gemini_workspace_sound_witness:
  "let e = demo_env\<lparr>env_var := (\<lambda>v. if v = ''HOME'' then Some ''/h'' else None)\<rparr>;
       sha = (\<lambda>s. if s = ''/h/openclaw'' then demo_hash else [])
   in extract_gemini_project_hash (''/h/.gemini/tmp/'' @ demo_hash @ ''/x.json'') = Some (sha ''/h/openclaw'')"
proof -
  let ?e = "demo_env\<lparr>env_var := (\<lambda>v. if v = ''HOME'' then Some ''/h'' else None)\<rparr>"
  let ?sha = "\<lambda>s. if s = ''/h/openclaw'' then demo_hash else []"
  let ?p = "''/h/.gemini/tmp/'' @ demo_hash @ ''/x.json''"
  have "resolve_gemini_workspace_from_hash (\<lambda>_. None) ?sha ?e ?p None = Some ''/h/openclaw''"
    by code_simp
  from gemini_workspace_sound [OF this] show ?thesis by (simp add: Let_def)
qed

section \<open>Resuming a Gemini session\<close>

text \<open>A line of the listing: index, title, id in brackets.\<close>

definition listing_line :: "nat \<times> string \<times> string \<Rightarrow> string" where
  "listing_line = (\<lambda>(n, title, sid). show_nat n @ ''. '' @ title @ '' ['' @ sid @ '']'')"

definition plain_id :: "string \<Rightarrow> bool" where
  "plain_id sid \<longleftrightarrow> sid \<noteq> [] \<and> trim sid = sid
     \<and> CHR ''['' \<notin> set sid \<and> CHR '']'' \<notin> set sid \<and> NEWLINE \<notin> set sid"

lemma find_str_skip:
  "p = c # q \<Longrightarrow> c \<notin> set a \<Longrightarrow> find_str p (a @ p @ b) = Some (length a)"
proof (induction a)
  case Nil
  then show ?case by simp
qed auto

lemma rfind_char_None: "c \<notin> set s \<Longrightarrow> rfind_char c s = None"
  by (induction s) auto

lemma rfind_char_last: "c \<notin> set b \<Longrightarrow> rfind_char c (a @ c # b) = Some (length a)"
  by (induction a) (auto simp: rfind_char_None)

lemma digit_no_ws: "is_ascii_digit c \<Longrightarrow> \<not> ws_first c \<and> c \<noteq> CHR ''.''"
  by (auto simp: is_ascii_digit_def ws_first_def ws_chars_def)

lemma resume_index_listing_line:
  assumes "plain_id sid"
  shows "resume_index_of_line target (listing_line (n, title, sid)) =
    (if to_ascii_lowercase sid = target then Some (show_nat n) else None)"
proof -
  let ?l = "listing_line (n, title, sid)"
  have dig: "list_all is_ascii_digit (show_nat n)" by (rule show_nat_digits)
  have ne: "show_nat n \<noteq> []" by simp
  have "\<not> ws_first (hd ?l)"
    using digit_no_ws [OF hd_show_nat_digit [of n]] by (simp add: listing_line_def hd_append ne)
  then have t: "trim ?l = ?l"
    by (intro trim_ends) (simp_all add: listing_line_def ws_last_def ws_chars_def)
  have "CHR ''.'' \<notin> set (show_nat n)" using dig digit_no_ws by (auto simp: list_all_iff)
  then have f: "find_str ''. '' ?l = Some (length (show_nat n))"
    using find_str_skip [of "''. ''" "CHR ''.''" "'' ''" "show_nat n" "title @ '' ['' @ sid @ '']''"]
    by (simp add: listing_line_def)
  have lb: "rfind_char (CHR ''['') ?l = Some (length (show_nat n @ ''. '' @ title @ '' ''))"
    using rfind_char_last [of "CHR ''[''" "sid @ '']''" "show_nat n @ ''. '' @ title @ '' ''"] assms
    by (simp add: listing_line_def plain_id_def)
  have rb: "rfind_char (CHR '']'') ?l = Some (length (show_nat n @ ''. '' @ title @ '' ['' @ sid))"
    using rfind_char_last [of "CHR '']''" "[]" "show_nat n @ ''. '' @ title @ '' ['' @ sid"]
    by (simp add: listing_line_def)
  have "take (length sid) (drop (Suc (length (show_nat n @ ''. '' @ title @ '' ''))) ?l) = sid"
  proof -
    have "?l = (show_nat n @ ''. '' @ title @ '' ['') @ sid @ '']''" by (simp add: listing_line_def)
    moreover have "Suc (length (show_nat n @ ''. '' @ title @ '' '')) = length (show_nat n @ ''. '' @ title @ '' ['')"
      by simp
    ultimately show ?thesis by (metis append_eq_conv_conj)
  qed
  with t f lb rb dig assms show ?thesis
    by (simp add: resume_index_of_line_def plain_id_def) (simp add: listing_line_def)
qed

lemma find_map_find:
  "(\<And>x. x \<in> set xs \<Longrightarrow> f x = (if P x then Some (g x) else None)) \<Longrightarrow>
    find_map f xs = map_option g (List.find P xs)"
  by (induction xs) auto

lemma find_map_map: "find_map f (map g xs) = find_map (f \<circ> g) xs"
  by (induction xs) (auto split: option.splits)

lemma str_lines_join:
  assumes "xs \<noteq> []" "\<forall>x \<in> set xs. NEWLINE \<notin> set x \<and> x \<noteq> [] \<and> last x \<noteq> CARRIAGE_RETURN"
  shows "str_lines (join [NEWLINE] xs) = xs"
proof -
  have "map strip_cr (butlast xs) = butlast xs"
    using assms(2) by (intro map_idI) (auto simp: strip_cr_def dest!: in_set_butlastD)
  moreover have "last xs \<noteq> []" using assms last_in_set by blast
  ultimately show ?thesis
    using assms split_on_join [of xs NEWLINE] by (simp add: str_lines_def Let_def)
qed

text \<open>
  Resuming finds the right session: in a listing of sessions the index returned is that of the
  first entry with the wanted id, whatever the titles contain and ignoring case, and none is
  returned when no entry has it.
\<close>

theorem resume_index_of_listing:
  assumes "entries \<noteq> []" "\<forall>(n, title, sid) \<in> set entries. plain_id sid \<and> NEWLINE \<notin> set title"
    and "plain_id target"
  shows "find_gemini_resume_index (join [NEWLINE] (map listing_line entries)) target =
    map_option (\<lambda>(n, title, sid). show_nat n)
      (List.find (\<lambda>(n, title, sid). to_ascii_lowercase sid = to_ascii_lowercase target) entries)"
proof -
  have nl: "NEWLINE \<notin> set (show_nat n)" for n
    using show_nat_digits [of n] by (auto simp: list_all_iff is_ascii_digit_def)
  have "str_lines (join [NEWLINE] (map listing_line entries)) = map listing_line entries"
    using assms(1,2) nl by (intro str_lines_join) (auto simp: listing_line_def plain_id_def)
  moreover have "to_ascii_lowercase (trim target) = to_ascii_lowercase target" "to_ascii_lowercase target \<noteq> []"
    using assms(3) by (simp_all add: plain_id_def to_ascii_lowercase_def)
  ultimately have "find_gemini_resume_index (join [NEWLINE] (map listing_line entries)) target =
      find_map (resume_index_of_line (to_ascii_lowercase target) \<circ> listing_line) entries"
    by (simp add: find_gemini_resume_index_def find_map_map)
  also have "\<dots> = map_option (\<lambda>(n, title, sid). show_nat n)
      (List.find (\<lambda>(n, title, sid). to_ascii_lowercase sid = to_ascii_lowercase target) entries)"
    using assms(2) by (intro find_map_find) (auto simp: resume_index_listing_line)
  finally show ?thesis .
qed

theorem resume_index_of_listing_witness:
  "find_gemini_resume_index (join [NEWLINE]
      (map listing_line [(1, ''fix [x]. y'', ''ab''), (2, ''t'', ''CD'')])) ''cd'' = Some ''2''"
proof -
  have p: "plain_id ''ab''" "plain_id ''CD''" "plain_id ''cd''" by code_simp+
  have "to_ascii_lowercase ''ab'' \<noteq> to_ascii_lowercase ''cd''"
    "to_ascii_lowercase ''CD'' = to_ascii_lowercase ''cd''" "show_nat 2 = ''2''"
    by code_simp+
  with resume_index_of_listing [of "[(1, ''fix [x]. y'', ''ab''), (2, ''t'', ''CD'')]" "''cd''"] p
  show ?thesis by simp
qed

section \<open>Workspaces of Claude sub-agents\<close>

lemma main_session_path:
  assumes "CHR ''/'' \<notin> set sid" "proj \<noteq> []"
  shows "resolve_claude_main_session_file e
      (proj @ [Normal sid, Normal ''subagents'', Normal (''agent-'' @ x @ ''.jsonl'')]) =
    (if path_exists e (proj @ [Normal (sid @ ''.jsonl'')]) then Some (proj @ [Normal (sid @ ''.jsonl'')]) else None)"
proof -
  have "split_on (CHR ''/'') (sid @ ''.jsonl'') = [sid @ ''.jsonl'']"
    using assms(1) by (intro split_on_none) simp
  moreover have "sid @ ''.jsonl'' \<noteq> ''..''" "sid @ ''.jsonl'' \<noteq> ''.''"
    by (cases sid; simp)+
  ultimately have n: "normal_segments (sid @ ''.jsonl'') = [Normal (sid @ ''.jsonl'')]"
    by (simp add: normal_segments_def)
  have "\<not> prefix ''/'' (sid @ ''.jsonl'')" using assms(1) by (cases sid) auto
  with n assms(2) have j: "path_join proj (sid @ ''.jsonl'') = proj @ [Normal (sid @ ''.jsonl'')]"
    by (simp add: path_join_def)
  have "suffix ''.jsonl'' (''agent-'' @ x @ ''.jsonl'')" by (simp add: suffix_def)
  then show ?thesis
    by (simp add: resolve_claude_main_session_file_def file_name_def parent_def butlast_append j)
qed

text \<open>
  The workspace of a sub-agent's log that names none is that of the session it belongs to:
  without a given workspace, the lines of the log decide, and where they do not, those of the main
  log beside the session's directory, if it exists.
\<close>

theorem subagent_workspace:
  assumes "path_of source_path = proj @ [Normal sid, Normal ''subagents'', Normal (''agent-'' @ x @ ''.jsonl'')]"
    and "CHR ''/'' \<notin> set sid" "proj \<noteq> []" "path_exists e (path_of source_path)"
    and "main = proj @ [Normal (sid @ ''.jsonl'')]" "path_exists e main"
  shows "resolve_claude_workspace from_str e source_path None =
    Ok (case extract_workspace_from_jsonl from_str e (path_of source_path) of
          Some w \<Rightarrow> w
        | None \<Rightarrow> (case extract_workspace_from_jsonl from_str e main of Some w \<Rightarrow> w | None \<Rightarrow> []))"
proof -
  have "resolve_claude_main_session_file e (path_of source_path) = Some main"
    using main_session_path [OF assms(2,3), of e x] assms(1,5,6) by simp
  with assms(4) show ?thesis
    by (simp add: resolve_claude_workspace_def or_else_def split: option.splits)
qed

theorem subagent_workspace_witness:
  "let e = demo_env\<lparr>path_exists := (\<lambda>_. True),
         read_lines := (\<lambda>p. if p = path_of ''/p/s1.jsonl'' then Some [Some ''x''] else Some [])\<rparr>;
       from_str = (\<lambda>_. Some (JObject [(''cwd'', JString '' /work '')]))
   in resolve_claude_workspace from_str e ''/p/s1/subagents/agent-7.jsonl'' None = Ok ''/work''"
proof -
  let ?e = "demo_env\<lparr>path_exists := (\<lambda>_. True),
      read_lines := (\<lambda>p. if p = path_of ''/p/s1.jsonl'' then Some [Some ''x''] else Some [])\<rparr>"
  let ?from = "\<lambda>_. Some (JObject [(''cwd'', JString '' /work '')])"
  have p: "path_of ''/p/s1/subagents/agent-7.jsonl'' =
      path_of ''/p'' @ [Normal ''s1'', Normal ''subagents'', Normal (''agent-'' @ ''7'' @ ''.jsonl'')]"
    by code_simp
  have m: "path_of ''/p/s1.jsonl'' = path_of ''/p'' @ [Normal (''s1'' @ ''.jsonl'')]" "path_of ''/p'' \<noteq> []"
    "CHR ''/'' \<notin> set ''s1''"
    by code_simp+
  have x: "extract_workspace_from_jsonl ?from ?e (path_of ''/p/s1/subagents/agent-7.jsonl'') = None"
    "extract_workspace_from_jsonl ?from ?e (path_of ''/p/s1.jsonl'') = Some ''/work''"
    by code_simp+
  have ex: "path_exists ?e q" for q by simp
  show ?thesis
    using subagent_workspace [OF p m(3) m(2) ex m(1) ex, of ?from] by (simp only: x option.case Let_def)
qed

section \<open>Indexing\<close>

lemma two_jset_None:
  "Option.bind (jset_if a k v m) (jset_if b k' v') = None \<longleftrightarrow> (a \<or> b) \<and> m \<noteq> JNull \<and> as_object m = None"
  by (cases m) (auto simp: jset_if_def)

lemma index_roots_none: "fst (index_roots run bin rs) = [] \<and> snd (index_roots run bin rs) = [] \<longleftrightarrow> rs = []"
  by (cases rs) (auto simp: index_roots_def Let_def filter_empty_conv split: sum.splits)

text \<open>
  Indexing panics exactly when there is an extra root to report and the search backend printed
  JSON that is neither an object nor null: the report is then stored into a value that has no keys.
\<close>

theorem cass_index_panics_iff:
  "cass_index from_str to_text run e built_in = None \<longleftrightarrow>
    extra_gemini_scan_dirs e \<noteq> [] \<and>
    (\<exists>base v. and_then (run (cass_bin e built_in) [''index'', ''--json''] []) output_to_string = Ok base
       \<and> from_str base = Some v \<and> v \<noteq> JNull \<and> as_object v = None)"
proof (cases "and_then (run (cass_bin e built_in) [''index'', ''--json''] []) output_to_string")
  case (Inl err)
  then show ?thesis by (simp add: cass_index_def)
next
  case (Inr base)
  define fallback where
    "fallback = JObject [(''message'', JString ''Indexed (non-JSON output from cass)''), (''ok'', JBool True)]"
  define merged where "merged = (case from_str base of Some v \<Rightarrow> v | None \<Rightarrow> fallback)"
  let ?roots = "index_roots run (cass_bin e built_in) (extra_gemini_scan_dirs e)"
  have "cass_index from_str to_text run e built_in = None \<longleftrightarrow>
      (fst ?roots \<noteq> [] \<or> snd ?roots \<noteq> []) \<and> merged \<noteq> JNull \<and> as_object merged = None"
    unfolding cass_index_def Inr sum.case fallback_def [symmetric]
    unfolding merged_def [symmetric] Let_def case_prod_beta
    by (simp only: option.map_disc_iff two_jset_None)
  moreover have "merged \<noteq> JNull \<and> as_object merged = None \<longleftrightarrow>
      (\<exists>v. from_str base = Some v \<and> v \<noteq> JNull \<and> as_object v = None)"
    by (auto simp: merged_def fallback_def split: option.splits)
  ultimately show ?thesis
    using Inr index_roots_none [of run "cass_bin e built_in" "extra_gemini_scan_dirs e"] by auto
qed

end
