(* ===== verification/Commands_Tags.thy ===== *)
theory Commands_Tags
  imports Commands_Sessions
begin

text \<open>
  The commands of \<open>src-tauri/src/commands.rs\<close> that keep data on disk: the tags of sessions and
  the visual layouts. The disk is a state, the contents of files by path with the errors that
  creating a directory or writing a file gives; \<open>home\<close> is the \<open>HOME\<close> variable; the serialisers
  of \<open>serde_json\<close> at the types of the store and of a tag are parameters.
\<close>

record SessionTag =
  st_session_id :: string
  st_summary :: string
  st_category :: string
  st_tagged_at :: nat
  st_model :: "string option"

record TagStore =
  ts_version :: nat
  ts_tags :: "(string, SessionTag) hmap"

record disk =
  contents :: "path \<Rightarrow> string option"
  mkdir_error :: "path \<Rightarrow> string option"
  write_error :: "path \<Rightarrow> string option"

definition create_dir_all :: "path \<Rightarrow> disk \<Rightarrow> string + unit" where
  "create_dir_all p d = (case mkdir_error d p of Some err \<Rightarrow> Err err | None \<Rightarrow> Ok ())"

definition write_file :: "path \<Rightarrow> string \<Rightarrow> disk \<Rightarrow> (string + unit) \<times> disk" where
  "write_file p s d =
     (case write_error d p of
        Some err \<Rightarrow> (Err err, d)
      | None \<Rightarrow> (Ok (), d\<lparr>contents := (contents d)(p := Some s)\<rparr>))"

definition append_file :: "path \<Rightarrow> string \<Rightarrow> disk \<Rightarrow> disk" where
  "append_file p s d =
     (if write_error d p = None
      then d\<lparr>contents := (contents d)(p := Some ((case contents d p of Some t \<Rightarrow> t | None \<Rightarrow> []) @ s))\<rparr>
      else d)"

text \<open>\<open>chrono_now\<close>: seconds, a dot and three digits of milliseconds.\<close>

definition pad3 :: "nat \<Rightarrow> string" where
  "pad3 n = replicate (3 - length (show_nat n)) (CHR ''0'') @ show_nat n"

definition chrono_now :: "nat \<Rightarrow> string" where
  "chrono_now millis = show_nat (millis div 1000) @ ''.'' @ pad3 (millis mod 1000)"

section \<open>The tag store\<close>

definition default_tag_store :: TagStore where
  "default_tag_store = \<lparr>ts_version = 1, ts_tags = []\<rparr>"

definition tags_store_path :: "string option \<Rightarrow> string + path" where
  "tags_store_path home =
     and_then (ok_or home ''HOME is not set'')
       (\<lambda>h. Ok (path_join (path_join (path_of h) ''.agentroom'') ''session-tags.json''))"

definition load_tag_store :: "(string \<Rightarrow> TagStore option) \<Rightarrow> string option \<Rightarrow> disk \<Rightarrow> TagStore" where
  "load_tag_store from_store home d =
     (case tags_store_path home of
        Inl _ \<Rightarrow> default_tag_store
      | Inr p \<Rightarrow>
          (case contents d p of
             None \<Rightarrow> default_tag_store
           | Some s \<Rightarrow> (case from_store s of Some store \<Rightarrow> store | None \<Rightarrow> default_tag_store)))"

definition save_tag_store ::
  "(TagStore \<Rightarrow> string + string) \<Rightarrow> string option \<Rightarrow> TagStore \<Rightarrow> disk \<Rightarrow> (string + unit) \<times> disk" where
  "save_tag_store to_store home store d =
     (case tags_store_path home of
        Inl err \<Rightarrow> (Err err, d)
      | Inr p \<Rightarrow>
          (case (case parent p of Some q \<Rightarrow> create_dir_all q d | None \<Rightarrow> Ok ()) of
             Inl err \<Rightarrow> (Err err, d)
           | Inr _ \<Rightarrow>
               (case to_store store of
                  Inl err \<Rightarrow> (Err err, d)
                | Inr payload \<Rightarrow> write_file p payload d)))"

text \<open>
  \<open>upsert_tag\<close> loads the store and saves it with the tag added; the second half is separate,
  because two calls may interleave between them.
\<close>

definition normalized_tag :: "nat \<Rightarrow> string \<Rightarrow> string \<Rightarrow> string \<Rightarrow> string option \<Rightarrow> SessionTag" where
  "normalized_tag now session_id summary category model =
     \<lparr>st_session_id = session_id, st_summary = normalize_summary summary,
      st_category = normalize_category category, st_tagged_at = now, st_model = model\<rparr>"

definition upsert_save ::
  "(TagStore \<Rightarrow> string + string) \<Rightarrow> string option \<Rightarrow> SessionTag \<Rightarrow> TagStore \<Rightarrow> disk
    \<Rightarrow> (string + SessionTag) \<times> disk" where
  "upsert_save to_store home tag store d =
     (case save_tag_store to_store home
             (store\<lparr>ts_tags := hinsert (st_session_id tag) tag (ts_tags store)\<rparr>) d of
        (Inl err, d') \<Rightarrow> (Err err, d')
      | (Inr _, d') \<Rightarrow> (Ok tag, d'))"

definition upsert_tag ::
  "(string \<Rightarrow> TagStore option) \<Rightarrow> (TagStore \<Rightarrow> string + string) \<Rightarrow> string option \<Rightarrow> nat
    \<Rightarrow> string \<Rightarrow> string \<Rightarrow> string \<Rightarrow> string option \<Rightarrow> disk \<Rightarrow> (string + SessionTag) \<times> disk" where
  "upsert_tag from_store to_store home now session_id summary category model d =
     upsert_save to_store home (normalized_tag now session_id summary category model)
       (load_tag_store from_store home d) d"

definition get_existing_tag ::
  "(string \<Rightarrow> TagStore option) \<Rightarrow> string option \<Rightarrow> string \<Rightarrow> disk \<Rightarrow> SessionTag option" where
  "get_existing_tag from_store home session_id d = hget (ts_tags (load_tag_store from_store home d)) session_id"

definition load_tags ::
  "(string \<Rightarrow> TagStore option) \<Rightarrow> (TagStore \<Rightarrow> string + string) \<Rightarrow> string option \<Rightarrow> disk \<Rightarrow> string + string" where
  "load_tags from_store to_compact home d = to_compact (load_tag_store from_store home d)"

definition save_tag ::
  "(string \<Rightarrow> TagStore option) \<Rightarrow> (TagStore \<Rightarrow> string + string) \<Rightarrow> (SessionTag \<Rightarrow> string + string)
    \<Rightarrow> string option \<Rightarrow> nat \<Rightarrow> string \<Rightarrow> string \<Rightarrow> string \<Rightarrow> string option \<Rightarrow> disk
    \<Rightarrow> (string + string) \<times> disk" where
  "save_tag from_store to_store to_tag home now session_id summary category model d =
     (let (r, d') = upsert_tag from_store to_store home now session_id summary category
            (Some (case model of Some m \<Rightarrow> m | None \<Rightarrow> ''manual'')) d
      in (and_then r to_tag, d'))"

section \<open>Tagging a session\<close>

text \<open>The program to run with its arguments, and the label of the model.\<close>

definition tag_command :: "bool \<Rightarrow> string option \<Rightarrow> string \<Rightarrow> string \<times> string list \<times> string" where
  "tag_command gemini model prompt =
     (let override = (case model of Some m \<Rightarrow> if trim m = [] then None else Some (trim m) | None \<Rightarrow> None) in
      if gemini then
        (''gemini'',
         [''--output-format'', ''json'', ''--yolo'']
           @ (case override of Some m \<Rightarrow> [''--model'', m] | None \<Rightarrow> []) @ [prompt],
         case override of Some m \<Rightarrow> ''gemini:'' @ m | None \<Rightarrow> ''gemini:default'')
      else
        (let m = (case override of Some m \<Rightarrow> m | None \<Rightarrow> ''haiku'') in
         (''claude'', [''-p'', ''--output-format'', ''json'', ''--model'', m, prompt], ''claude:'' @ m)))"

text \<open>The message logged when no tag was found; \<open>None\<close> is the panic of a slice off a boundary.\<close>

definition parse_failed_message ::
  "(proc_output \<Rightarrow> string) \<Rightarrow> nat \<Rightarrow> string \<Rightarrow> proc_output \<Rightarrow> string option" where
  "parse_failed_message show_status now provider out =
     (let stdout = from_utf8_lossy (out_bytes out); stderr = from_utf8_lossy (err_bytes out) in
      case (slice_to stdout (min (length stdout) 500), slice_to stderr (min (length stderr) 500)) of
        (Some so, Some se) \<Rightarrow>
          Some (''['' @ chrono_now now @ ''] tag parse FAILED for '' @ provider
            @ '' | exit='' @ show_status out @ '' | stdout_len='' @ show_nat (length stdout)
            @ '' | stderr_len='' @ show_nat (length stderr) @ [NEWLINE]
            @ ''STDOUT: '' @ so @ [NEWLINE] @ ''STDERR: '' @ se @ [NEWLINE] @ ''---'' @ [NEWLINE])
      | _ \<Rightarrow> None)"

definition spawn_failed_message :: "nat \<Rightarrow> string \<Rightarrow> string \<Rightarrow> string" where
  "spawn_failed_message now provider err =
     ''['' @ chrono_now now @ ''] tag command SPAWN FAILED for '' @ provider @ '': '' @ err
     @ [NEWLINE] @ ''---'' @ [NEWLINE]"

definition tag_log_path :: "string option \<Rightarrow> path" where
  "tag_log_path home =
     path_join (path_join (path_of (case home of Some h \<Rightarrow> h | None \<Rightarrow> [])) ''.agentroom'') ''tag-debug.log''"

record tag_serde =
  sd_from_str :: "string \<Rightarrow> json option"
  sd_from_str_tag :: "string \<Rightarrow> ModelTagResponse option"
  sd_from_store :: "string \<Rightarrow> TagStore option"
  sd_to_store :: "TagStore \<Rightarrow> string + string"
  sd_to_tag :: "SessionTag \<Rightarrow> string + string"

text \<open>The model's answer: the tag, and the disk after the debug log was written.\<close>

definition tag_of_output ::
  "tag_serde \<Rightarrow> (proc_output \<Rightarrow> string) \<Rightarrow> string option \<Rightarrow> nat \<Rightarrow> bool \<Rightarrow> string + proc_output \<Rightarrow> disk
    \<Rightarrow> ((string \<times> string) \<times> disk) option" where
  "tag_of_output sd show_status home now gemini output d =
     (let provider = (if gemini then ''gemini'' else ''claude'') in
      case output of
        Inl err \<Rightarrow>
          Some ((UNCATEGORISED, ''misc''), append_file (tag_log_path home) (spawn_failed_message now provider err) d)
      | Inr out \<Rightarrow>
          (let stdout = from_utf8_lossy (out_bytes out);
               parsed = (if gemini then parse_tag_from_gemini_stdout (sd_from_str sd) (sd_from_str_tag sd) stdout
                         else parse_tag_from_claude_stdout (sd_from_str sd) (sd_from_str_tag sd) stdout)
           in case parsed of
                Some t \<Rightarrow> Some ((mt_summary t, mt_category t), d)
              | None \<Rightarrow>
                  map_option (\<lambda>msg. ((UNCATEGORISED, ''misc''), append_file (tag_log_path home) msg d))
                    (parse_failed_message show_status now provider out)))"

definition is_gemini_provider :: "string option \<Rightarrow> bool" where
  "is_gemini_provider provider \<longleftrightarrow>
     to_ascii_lowercase (trim (case provider of Some p \<Rightarrow> p | None \<Rightarrow> ''claude'')) = ''gemini''"

definition tag_session ::
  "tag_serde \<Rightarrow> (proc_output \<Rightarrow> string) \<Rightarrow> (string \<Rightarrow> string list \<Rightarrow> string + proc_output) \<Rightarrow> string option
    \<Rightarrow> nat \<Rightarrow> nat \<Rightarrow> string \<Rightarrow> string \<Rightarrow> string \<Rightarrow> string option \<Rightarrow> string \<Rightarrow> bool option \<Rightarrow> string option
    \<Rightarrow> string option \<Rightarrow> f64 option \<Rightarrow> disk \<Rightarrow> ((string + string) \<times> disk) option" where
  "tag_session sd show_status run home log_now now session_id title agent workspace ctxt force provider model
     randomness d =
     (case (if force = Some True then None else get_existing_tag (sd_from_store sd) home session_id d) of
        Some existing \<Rightarrow> Some (sd_to_tag sd existing, d)
      | None \<Rightarrow>
          (let gemini = is_gemini_provider provider;
               prompt = build_tag_prompt agent title workspace ctxt (normalize_randomness randomness);
               (program, args, label) = tag_command gemini model prompt
           in map_option
                (\<lambda>((summary, category), d1).
                  let (r, d2) = upsert_tag (sd_from_store sd) (sd_to_store sd) home now session_id summary category
                        (Some label) d1
                  in (and_then r (sd_to_tag sd), d2))
                (tag_of_output sd show_status home log_now gemini (run program args) d)))"

section \<open>Layouts\<close>

definition layout_dir :: "string option \<Rightarrow> path" where
  "layout_dir home = path_join (path_join (path_of (case home of Some h \<Rightarrow> h | None \<Rightarrow> [])) ''.agentroom'') ''layouts''"

definition save_visual_layout :: "string option \<Rightarrow> string \<Rightarrow> string \<Rightarrow> disk \<Rightarrow> (string + unit) \<times> disk" where
  "save_visual_layout home project_id layout d =
     (case create_dir_all (layout_dir home) d of
        Inl err \<Rightarrow> (Err err, d)
      | Inr _ \<Rightarrow> write_file (path_join (layout_dir home) (project_id @ ''.json'')) layout d)"

definition load_visual_layout ::
  "(path \<Rightarrow> string) \<Rightarrow> string option \<Rightarrow> string \<Rightarrow> disk \<Rightarrow> string + string" where
  "load_visual_layout read_error home project_id d =
     (let p = path_join (layout_dir home) (project_id @ ''.json'') in
      case contents d p of Some s \<Rightarrow> Ok s | None \<Rightarrow> Err (read_error p))"

section \<open>Properties of the store\<close>

lemma upsert_save_cases:
  assumes "upsert_save to_store home tag store d = (Ok t, d')"
  obtains p payload where "tags_store_path home = Ok p" "t = tag"
    "to_store (store\<lparr>ts_tags := hinsert (st_session_id tag) tag (ts_tags store)\<rparr>) = Ok payload"
    "d' = d\<lparr>contents := (contents d)(p := Some payload)\<rparr>"
  using assms
  by (auto simp: upsert_save_def save_tag_store_def write_file_def
      split: prod.splits sum.splits option.splits)

lemma upsert_save_load:
  assumes "upsert_save to_store home tag store d = (Ok t, d')"
    and rt: "\<And>s x. to_store s = Ok x \<Longrightarrow> \<exists>s'. from_store x = Some s' \<and> hget (ts_tags s') = hget (ts_tags s)"
  shows "t = tag \<and> hget (ts_tags (load_tag_store from_store home d')) = (hget (ts_tags store))(st_session_id tag \<mapsto> tag)"
proof -
  from assms(1) obtain p payload where p: "tags_store_path home = Ok p" "t = tag"
    "to_store (store\<lparr>ts_tags := hinsert (st_session_id tag) tag (ts_tags store)\<rparr>) = Ok payload"
    "d' = d\<lparr>contents := (contents d)(p := Some payload)\<rparr>"
    by (rule upsert_save_cases)
  from rt [OF p(3)] obtain s' where
    "from_store payload = Some s'" "hget (ts_tags s') = (hget (ts_tags store))(st_session_id tag \<mapsto> tag)"
    by auto
  with p show ?thesis by (simp add: load_tag_store_def)
qed

text \<open>
  C35: a saved tag is found again: after a tag was stored, looking the session up gives it with its
  summary and category normalised, the tags of all other sessions are as before, and no other file
  was touched.
\<close>

theorem upsert_then_get:
  assumes "upsert_tag from_store to_store home now sid summary category model d = (Ok t, d')"
    and "\<And>s x. to_store s = Ok x \<Longrightarrow> \<exists>s'. from_store x = Some s' \<and> hget (ts_tags s') = hget (ts_tags s)"
  shows "t = \<lparr>st_session_id = sid, st_summary = normalize_summary summary,
      st_category = normalize_category category, st_tagged_at = now, st_model = model\<rparr>
    \<and> get_existing_tag from_store home sid d' = Some t
    \<and> (\<forall>other. other \<noteq> sid \<longrightarrow>
         get_existing_tag from_store home other d' = get_existing_tag from_store home other d)
    \<and> (\<exists>p. tags_store_path home = Ok p \<and> (\<forall>q. q \<noteq> p \<longrightarrow> contents d' q = contents d q))"
proof -
  note up = assms(1) [unfolded upsert_tag_def]
  have "\<exists>p. tags_store_path home = Ok p \<and> (\<forall>q. q \<noteq> p \<longrightarrow> contents d' q = contents d q)"
    by (rule upsert_save_cases [OF up]) auto
  moreover have "t = normalized_tag now sid summary category model \<and>
      hget (ts_tags (load_tag_store from_store home d')) =
        (hget (ts_tags (load_tag_store from_store home d)))(sid \<mapsto> t)"
    using upsert_save_load [OF up, of from_store] assms(2) by (auto simp: normalized_tag_def)
  ultimately show ?thesis
    by (simp add: get_existing_tag_def normalized_tag_def)
qed

definition demo_disk :: disk where
  "demo_disk = \<lparr>contents = (\<lambda>_. None), mkdir_error = (\<lambda>_. None), write_error = (\<lambda>_. None)\<rparr>"

definition demo_tag :: SessionTag where
  "demo_tag = \<lparr>st_session_id = ''s1'', st_summary = ''fix'', st_category = ''misc'', st_tagged_at = 7, st_model = None\<rparr>"

theorem upsert_then_get_witness:
  "let from_store = (\<lambda>x. if x = ''one'' then Some \<lparr>ts_version = 1, ts_tags = [(''s1'', demo_tag)]\<rparr> else None);
       to_store = (\<lambda>s. if s = \<lparr>ts_version = 1, ts_tags = [(''s1'', demo_tag)]\<rparr> then Ok ''one'' else Err ''e'')
   in get_existing_tag from_store (Some ''/h'') ''s1''
        (snd (upsert_tag from_store to_store (Some ''/h'') 7 ''s1'' '' fix'' '' '' None demo_disk)) = Some demo_tag"
proof -
  let ?s = "\<lparr>ts_version = 1, ts_tags = [(''s1'', demo_tag)]\<rparr>"
  let ?from = "\<lambda>x. if x = ''one'' then Some ?s else None"
  let ?to = "\<lambda>s. if s = ?s then Ok ''one'' else Err ''e''"
  have u: "fst (upsert_tag ?from ?to (Some ''/h'') 7 ''s1'' '' fix'' '' '' None demo_disk) = Ok demo_tag"
    by code_simp
  then have eq: "upsert_tag ?from ?to (Some ''/h'') 7 ''s1'' '' fix'' '' '' None demo_disk =
      (Ok demo_tag, snd (upsert_tag ?from ?to (Some ''/h'') 7 ''s1'' '' fix'' '' '' None demo_disk))"
    by (metis prod.collapse)
  have rt: "\<exists>s'. ?from x = Some s' \<and> hget (ts_tags s') = hget (ts_tags s)" if "?to s = Ok x" for s x
    using that by (simp split: if_splits)
  show ?thesis
    unfolding Let_def by (rule upsert_then_get [OF eq rt, THEN conjunct2, THEN conjunct1])
qed

text \<open>
  The store is not safe under concurrent calls: when two calls both load the store before
  either saves it, the tag that is saved first is lost, and its session reads as it did before.
\<close>

theorem concurrent_upserts_lose_tag:
  assumes "store = load_tag_store from_store home d"
    and "upsert_save to_store home (normalized_tag now1 sid1 s1 c1 m1) store d = (Ok t1, d1)"
    and "upsert_save to_store home (normalized_tag now2 sid2 s2 c2 m2) store d1 = (Ok t2, d2)"
    and "sid1 \<noteq> sid2"
    and "\<And>s x. to_store s = Ok x \<Longrightarrow> \<exists>s'. from_store x = Some s' \<and> hget (ts_tags s') = hget (ts_tags s)"
  shows "get_existing_tag from_store home sid1 d1 = Some t1
    \<and> get_existing_tag from_store home sid1 d2 = get_existing_tag from_store home sid1 d
    \<and> get_existing_tag from_store home sid2 d2 = Some t2"
  using upsert_save_load [OF assms(2), of from_store] upsert_save_load [OF assms(3), of from_store] assms(1,4,5)
  by (auto simp: get_existing_tag_def normalized_tag_def)

definition demo_tag2 :: SessionTag where
  "demo_tag2 = demo_tag\<lparr>st_session_id := ''s2''\<rparr>"

theorem concurrent_upserts_lose_tag_witness:
  "let one = (\<lambda>t. \<lparr>ts_version = 1, ts_tags = [(st_session_id t, t)]\<rparr>);
       from_store = (\<lambda>x. if x = ''1'' then Some (one demo_tag) else if x = ''2'' then Some (one demo_tag2) else None);
       to_store = (\<lambda>s. if s = one demo_tag then Ok ''1'' else if s = one demo_tag2 then Ok ''2'' else Err ''e'');
       d1 = snd (upsert_save to_store (Some ''/h'') (normalized_tag 7 ''s1'' ''fix'' ''misc'' None) default_tag_store demo_disk);
       d2 = snd (upsert_save to_store (Some ''/h'') (normalized_tag 7 ''s2'' ''fix'' ''misc'' None) default_tag_store d1)
   in get_existing_tag from_store (Some ''/h'') ''s1'' d2 = None"
proof -
  let ?one = "\<lambda>t. \<lparr>ts_version = 1, ts_tags = [(st_session_id t, t)]\<rparr>"
  let ?from = "\<lambda>x. if x = ''1'' then Some (?one demo_tag) else if x = ''2'' then Some (?one demo_tag2) else None"
  let ?to = "\<lambda>s. if s = ?one demo_tag then Ok ''1'' else if s = ?one demo_tag2 then Ok ''2'' else Err ''e''"
  let ?u1 = "upsert_save ?to (Some ''/h'') (normalized_tag 7 ''s1'' ''fix'' ''misc'' None) default_tag_store demo_disk"
  let ?u2 = "upsert_save ?to (Some ''/h'') (normalized_tag 7 ''s2'' ''fix'' ''misc'' None) default_tag_store (snd ?u1)"
  have l: "default_tag_store = load_tag_store ?from (Some ''/h'') demo_disk" by code_simp
  have f: "fst ?u1 = Ok demo_tag" "fst ?u2 = Ok demo_tag2" by code_simp+
  then have u: "?u1 = (Ok demo_tag, snd ?u1)" "?u2 = (Ok demo_tag2, snd ?u2)"
    by (simp_all only: prod_eq_iff fst_conv snd_conv simp_thms)
  have rt: "\<exists>s'. ?from x = Some s' \<and> hget (ts_tags s') = hget (ts_tags s)" if "?to s = Ok x" for s x
    using that by (auto split: if_splits)
  have n: "get_existing_tag ?from (Some ''/h'') ''s1'' demo_disk = None" by code_simp
  have "get_existing_tag ?from (Some ''/h'') ''s1'' (snd ?u2) = get_existing_tag ?from (Some ''/h'') ''s1'' demo_disk"
    by (rule concurrent_upserts_lose_tag [OF l u _ rt, THEN conjunct2, THEN conjunct1]) simp
  with n show ?thesis unfolding Let_def by simp
qed

section \<open>Properties of tagging\<close>

text \<open>
  Tagging a session that has a tag does not run a model and changes nothing: unless forced, the
  stored tag is returned, whatever the model would have answered.
\<close>

theorem tag_session_keeps_existing:
  assumes "get_existing_tag (sd_from_store sd) home sid d = Some t" "force \<noteq> Some True"
  shows "tag_session sd show_status run home log_now now sid title agent workspace ctxt force provider model
    randomness d = Some (sd_to_tag sd t, d)"
  using assms by (simp add: tag_session_def)

definition demo_serde :: tag_serde where
  "demo_serde =
     \<lparr>sd_from_str = (\<lambda>_. None), sd_from_str_tag = (\<lambda>_. None),
      sd_from_store = (\<lambda>x. if x = ''one'' then Some \<lparr>ts_version = 1, ts_tags = [(''s1'', demo_tag)]\<rparr> else None),
      sd_to_store = (\<lambda>s. Ok ''one''), sd_to_tag = (\<lambda>t. Ok (st_summary t))\<rparr>"

definition demo_stored :: disk where
  "demo_stored = demo_disk\<lparr>contents := (\<lambda>_. Some ''one'')\<rparr>"

theorem tag_session_keeps_existing_witness:
  "tag_session demo_serde (\<lambda>_. []) (\<lambda>_ _. Err ''boom'') (Some ''/h'') 1 2 ''s1'' ''t'' ''codex'' None ''c''
     None None None None demo_stored = Some (Ok ''fix'', demo_stored)"
proof -
  have "get_existing_tag (sd_from_store demo_serde) (Some ''/h'') ''s1'' demo_stored = Some demo_tag"
    by code_simp
  from tag_session_keeps_existing [OF this, of None] show ?thesis
    by (simp add: demo_serde_def demo_tag_def)
qed

definition cut_inside_char :: "string \<Rightarrow> bool" where
  "cut_inside_char s \<longleftrightarrow> 500 < length s \<and> is_cont (s ! 500)"

lemma slice_500_None: "slice_to s (min (length s) 500) = None \<longleftrightarrow> cut_inside_char s"
  by (auto simp: slice_to_def is_char_boundary_def cut_inside_char_def min_def)

text \<open>
  Tagging panics exactly when the model runs, prints nothing that can be read as a tag, and the
  500th byte of its decoded output or error text is inside a character, because the debug log cuts
  the text there.
\<close>

theorem tag_session_panics_iff:
  "tag_session sd show_status run home log_now now sid title agent workspace ctxt force provider model
     randomness d = None \<longleftrightarrow>
   (force = Some True \<or> get_existing_tag (sd_from_store sd) home sid d = None) \<and>
   (\<exists>out. let (program, args, label) = tag_command (is_gemini_provider provider) model
            (build_tag_prompt agent title workspace ctxt (normalize_randomness randomness));
            parse = (if is_gemini_provider provider then parse_tag_from_gemini_stdout else parse_tag_from_claude_stdout)
      in run program args = Ok out
         \<and> parse (sd_from_str sd) (sd_from_str_tag sd) (from_utf8_lossy (out_bytes out)) = None
         \<and> (cut_inside_char (from_utf8_lossy (out_bytes out)) \<or> cut_inside_char (from_utf8_lossy (err_bytes out))))"
proof -
  let ?g = "is_gemini_provider provider"
  obtain program args label where c: "tag_command ?g model
      (build_tag_prompt agent title workspace ctxt (normalize_randomness randomness)) = (program, args, label)"
    by (metis prod_cases3)
  have m: "parse_failed_message show_status n p out = None \<longleftrightarrow>
      cut_inside_char (from_utf8_lossy (out_bytes out)) \<or> cut_inside_char (from_utf8_lossy (err_bytes out))"
    for n p out
    using slice_500_None [of "from_utf8_lossy (out_bytes out)"] slice_500_None [of "from_utf8_lossy (err_bytes out)"]
    by (auto simp: parse_failed_message_def Let_def split: option.splits)
  have o: "tag_of_output sd show_status home log_now ?g res d = None \<longleftrightarrow>
      (\<exists>out. res = Ok out
         \<and> (if ?g then parse_tag_from_gemini_stdout else parse_tag_from_claude_stdout)
             (sd_from_str sd) (sd_from_str_tag sd) (from_utf8_lossy (out_bytes out)) = None
         \<and> (cut_inside_char (from_utf8_lossy (out_bytes out)) \<or> cut_inside_char (from_utf8_lossy (err_bytes out))))"
    for res
    by (cases res) (auto simp: tag_of_output_def Let_def m split: option.splits)
  have e: "(if force = Some True then None else get_existing_tag (sd_from_store sd) home sid d) = None \<longleftrightarrow>
      force = Some True \<or> get_existing_tag (sd_from_store sd) home sid d = None"
    by simp
  show ?thesis
    unfolding tag_session_def Let_def c prod.case e [symmetric]
    by (cases "if force = Some True then None else get_existing_tag (sd_from_store sd) home sid d")
      (simp_all only: option.case option.map_disc_iff o simp_thms option.distinct)
qed

text \<open>
  C37: a tagging call that succeeds leaves the session tagged, even when the model could not be run
  or its answer not be read: if a store that is written reads back as the same tags, the tag that is returned is the
  one stored for the session, and later calls that do not force it return the same and change nothing.
\<close>

theorem tag_session_stores_tag:
  assumes "tag_session sd show_status run home log_now now sid title agent workspace ctxt force provider model
      randomness d = Some (Ok txt, d')"
    and "\<And>s x. sd_to_store sd s = Ok x \<Longrightarrow>
      \<exists>s'. sd_from_store sd x = Some s' \<and> hget (ts_tags s') = hget (ts_tags s)"
  shows "(\<exists>t. get_existing_tag (sd_from_store sd) home sid d' = Some t \<and> sd_to_tag sd t = Ok txt)
    \<and> tag_session sd show_status' run' home log_now' now' sid title' agent' workspace' ctxt' None provider' model'
        randomness' d' = Some (Ok txt, d')"
proof -
  have "\<exists>t. get_existing_tag (sd_from_store sd) home sid d' = Some t \<and> sd_to_tag sd t = Ok txt"
  proof (cases "if force = Some True then None else get_existing_tag (sd_from_store sd) home sid d")
    case (Some t)
    with assms(1) show ?thesis by (auto simp: tag_session_def split: if_splits)
  next
    case None
    with assms(1) obtain y label where y:
      "snd (upsert_tag (sd_from_store sd) (sd_to_store sd) home now sid (fst (fst y)) (snd (fst y)) label (snd y)) = d'"
      "and_then (fst (upsert_tag (sd_from_store sd) (sd_to_store sd) home now sid (fst (fst y)) (snd (fst y)) label
         (snd y))) (sd_to_tag sd) = Ok txt"
      by (auto simp: tag_session_def Let_def case_prod_beta simp del: and_then_Inr_iff)
    from y(2) obtain t where t: "fst (upsert_tag (sd_from_store sd) (sd_to_store sd) home now sid (fst (fst y))
        (snd (fst y)) label (snd y)) = Ok t" "sd_to_tag sd t = Ok txt"
      by auto
    from y(1) t(1) have "upsert_tag (sd_from_store sd) (sd_to_store sd) home now sid (fst (fst y)) (snd (fst y)) label
        (snd y) = (Ok t, d')"
      by (simp add: prod_eq_iff)
    with t(2) have "upsert_tag (sd_from_store sd) (sd_to_store sd) home now sid (fst (fst y)) (snd (fst y)) label
        (snd y) = (Ok t, d')" "sd_to_tag sd t = Ok txt" by simp_all
    moreover from upsert_save_load [OF this(1) [unfolded upsert_tag_def], of "sd_from_store sd"] assms(2)
    have "get_existing_tag (sd_from_store sd) home sid d' = Some t"
      by (simp add: get_existing_tag_def normalized_tag_def)
    ultimately show ?thesis by blast
  qed
  then show ?thesis by (auto simp: tag_session_def)
qed

text \<open>
  A serialiser for the sample: a store as the list of its texts, numbers in unary, and a list of texts with a mark before each
  character and an end after each text. It keeps every store.
\<close>

fun pack :: "string list \<Rightarrow> string" where
  "pack [] = []"
| "pack ([] # ss) = CHR ''.'' # pack ss"
| "pack ((c # s) # ss) = CHR ''x'' # c # pack (s # ss)"

fun unpack :: "string \<Rightarrow> string list" where
  "unpack [] = []"
| "unpack (x # cs) =
     (if x = CHR ''.'' then [] # unpack cs
      else case cs of [] \<Rightarrow> [] | c # cs' \<Rightarrow> (case unpack cs' of [] \<Rightarrow> [] | s # ss \<Rightarrow> (c # s) # ss))"

lemma unpack_pack: "unpack (pack ss) = ss"
  by (induction ss rule: pack.induct) simp_all

fun texts_of :: "(string \<times> SessionTag) list \<Rightarrow> string list" where
  "texts_of [] = []"
| "texts_of ((k, t) # ts) = k # st_session_id t # st_summary t # st_category t # replicate (st_tagged_at t) (CHR ''1'')
     # (case st_model t of None \<Rightarrow> [] | Some m \<Rightarrow> CHR ''='' # m) # texts_of ts"

fun tags_of :: "string list \<Rightarrow> (string \<times> SessionTag) list" where
  "tags_of (k # i # su # ca # n # m # ss) =
     (k, \<lparr>st_session_id = i, st_summary = su, st_category = ca, st_tagged_at = length n, st_model = (if m = [] then None else Some (tl m))\<rparr>) # tags_of ss"
| "tags_of _ = []"

lemma tags_of_texts: "tags_of (texts_of ts) = ts"
  by (induction ts rule: texts_of.induct) (simp_all split: option.split)

definition packed_serde :: tag_serde where
  "packed_serde =
     \<lparr>sd_from_str = (\<lambda>_. None),
      sd_from_str_tag = (\<lambda>s. if s = ''{fix}'' then Some \<lparr>mt_summary = ''fix'', mt_category = ''bugfix''\<rparr> else None),
      sd_from_store = (\<lambda>x. case unpack x of [] \<Rightarrow> None | v # ss \<Rightarrow> Some \<lparr>ts_version = length v, ts_tags = tags_of ss\<rparr>),
      sd_to_store = (\<lambda>s. Ok (pack (replicate (ts_version s) (CHR ''1'') # texts_of (ts_tags s)))),
      sd_to_tag = (\<lambda>t. Ok (st_summary t))\<rparr>"

lemma packed_round_trip: "sd_to_store packed_serde s = Ok x \<Longrightarrow> sd_from_store packed_serde x = Some s"
  by (auto simp: packed_serde_def unpack_pack tags_of_texts)

text \<open>The model answers, and a store is written where there was none; a later call does not ask a model that fails.\<close>

theorem tag_session_stores_tag_witness:
  "\<exists>d' t. tag_session packed_serde (\<lambda>_. []) (\<lambda>_ _. Ok \<lparr>success = True, out_bytes = ''{fix}'', err_bytes = []\<rparr>) (Some ''/h'') 1 2
       ''s1'' ''t'' ''codex'' None ''c'' None None None None demo_disk = Some (Ok ''fix'', d')
     \<and> get_existing_tag (sd_from_store packed_serde) (Some ''/h'') ''s1'' demo_disk = None
     \<and> get_existing_tag (sd_from_store packed_serde) (Some ''/h'') ''s1'' d' = Some t \<and> st_summary t = ''fix''
     \<and> tag_session packed_serde (\<lambda>_. []) (\<lambda>_ _. Err ''boom'') (Some ''/h'') 3 4 ''s1'' ''u'' ''codex'' None ''c''
         None None None None d' = Some (Ok ''fix'', d')"
proof -
  let ?out = "\<lparr>success = True, out_bytes = ''{fix}'', err_bytes = []\<rparr>"
  have n: "get_existing_tag (sd_from_store packed_serde) (Some ''/h'') ''s1'' demo_disk = None" by code_simp
  have a: "tag_of_output packed_serde show_status home now False (Ok ?out) d = Some ((''fix'', ''bugfix''), d)" for show_status home now d
  proof -
    have "parse_tag_from_claude_stdout (sd_from_str packed_serde) (sd_from_str_tag packed_serde) (from_utf8_lossy ''{fix}'')
        = Some \<lparr>mt_summary = ''fix'', mt_category = ''bugfix''\<rparr>"
      by code_simp
    then show ?thesis by (simp add: tag_of_output_def)
  qed
  define d' where "d' = snd (upsert_tag (sd_from_store packed_serde) (sd_to_store packed_serde) (Some ''/h'') 2 ''s1'' ''fix'' ''bugfix''
      (Some ''claude:haiku'') demo_disk)"
  have u: "fst (upsert_tag (sd_from_store packed_serde) (sd_to_store packed_serde) (Some ''/h'') 2 ''s1'' ''fix'' ''bugfix''
      (Some ''claude:haiku'') demo_disk)
    = Ok \<lparr>st_session_id = ''s1'', st_summary = ''fix'', st_category = ''bugfix'', st_tagged_at = 2, st_model = Some ''claude:haiku''\<rparr>"
    by code_simp
  have g: "is_gemini_provider None = False" by code_simp
  have r: "tag_session packed_serde (\<lambda>_. []) (\<lambda>_ _. Ok ?out) (Some ''/h'') 1 2
       ''s1'' ''t'' ''codex'' None ''c'' None None None None demo_disk = Some (Ok ''fix'', d')"
    unfolding tag_session_def n g using a u
    by (simp add: tag_command_def case_prod_beta prod_eq_iff Let_def d'_def) (simp add: packed_serde_def)
  have "\<exists>s'. sd_from_store packed_serde x = Some s' \<and> hget (ts_tags s') = hget (ts_tags s)" if "sd_to_store packed_serde s = Ok x" for s x
    using packed_round_trip [OF that] by blast
  from tag_session_stores_tag [OF r this, of "\<lambda>_. []" "\<lambda>_ _. Err ''boom''" 3 4 "''u''" "''codex''" None "''c''" None None None] r n
  show ?thesis by (auto simp: packed_serde_def)
qed

section \<open>Properties of layouts\<close>

lemma layout_path_plain:
  assumes "CHR ''/'' \<notin> set pid"
  shows "path_join (layout_dir home) (pid @ ''.json'') = layout_dir home @ [Normal (pid @ ''.json'')]"
proof -
  have "split_on (CHR ''/'') (pid @ ''.json'') = [pid @ ''.json'']"
    using assms by (intro split_on_none) simp
  moreover have "pid @ ''.json'' \<noteq> ''..''" "pid @ ''.json'' \<noteq> ''.''" by (cases pid; simp)+
  ultimately have "normal_segments (pid @ ''.json'') = [Normal (pid @ ''.json'')]"
    by (simp add: normal_segments_def)
  moreover have "\<not> prefix ''/'' (pid @ ''.json'')" using assms by (cases pid) auto
  moreover have "normal_segments ''layouts'' \<noteq> []" "path_of ''layouts'' \<noteq> []" by code_simp+
  then have "layout_dir home \<noteq> []" by (simp add: layout_dir_def path_join_def)
  ultimately show ?thesis by (simp add: path_join_def)
qed

text \<open>
  A saved layout is loaded again, and projects do not overwrite each other: for project ids
  without a slash the file is in the layouts directory and named after the project, so that saving
  one leaves the layouts of all others as they are.
\<close>

theorem layout_round_trip:
  assumes "save_visual_layout home pid layout d = (Ok (), d')" "CHR ''/'' \<notin> set pid"
  shows "load_visual_layout read_error home pid d' = Ok layout
    \<and> contents d' (layout_dir home @ [Normal (pid @ ''.json'')]) = Some layout
    \<and> (\<forall>other. CHR ''/'' \<notin> set other \<and> other \<noteq> pid \<longrightarrow>
         load_visual_layout read_error home other d' = load_visual_layout read_error home other d)"
proof -
  have "contents d' = (contents d)(layout_dir home @ [Normal (pid @ ''.json'')] := Some layout)"
    using assms by (auto simp: save_visual_layout_def write_file_def layout_path_plain
        split: sum.splits option.splits)
  with assms(2) show ?thesis by (simp add: load_visual_layout_def layout_path_plain)
qed

theorem layout_round_trip_witness:
  "load_visual_layout (\<lambda>_. ''e'') (Some ''/h'') ''room''
     (snd (save_visual_layout (Some ''/h'') ''room'' ''{}'' demo_disk)) = Ok ''{}''"
proof -
  have "fst (save_visual_layout (Some ''/h'') ''room'' ''{}'' demo_disk) = Ok ()" by code_simp
  then have s: "save_visual_layout (Some ''/h'') ''room'' ''{}'' demo_disk =
      (Ok (), snd (save_visual_layout (Some ''/h'') ''room'' ''{}'' demo_disk))"
    by (simp add: prod_eq_iff)
  show ?thesis by (rule layout_round_trip [OF s, THEN conjunct1]) simp
qed

text \<open>
  A project id that is an absolute path escapes the layouts directory: the layout is written
  to that path with \<open>.json\<close> appended, wherever it is.
\<close>

theorem layout_escapes_directory:
  "contents (snd (save_visual_layout (Some ''/h'') ''/etc/app'' layout demo_disk)) (path_of ''/etc/app.json'') =
     Some layout
   \<and> \<not> prefix (layout_dir (Some ''/h'')) (path_of ''/etc/app.json'')"
proof (rule conjI)
  have p: "path_join (layout_dir (Some ''/h'')) (''/etc/app'' @ ''.json'') = path_of ''/etc/app.json''"
    by code_simp
  show "contents (snd (save_visual_layout (Some ''/h'') ''/etc/app'' layout demo_disk)) (path_of ''/etc/app.json'') =
     Some layout"
    unfolding save_visual_layout_def p
    by (simp add: create_dir_all_def write_file_def demo_disk_def)
  show "\<not> prefix (layout_dir (Some ''/h'')) (path_of ''/etc/app.json'')" by code_simp
qed

end
