(* ===== verification/Toon_Base.thy ===== *)
theory Toon_Base
  imports Json
begin

text \<open>
  The data of the TOON codec (\<open>search-backend/toon_rust/src\<close>: \<open>lib.rs\<close>, \<open>error.rs\<close>, \<open>options.rs\<close>)
  and its shared functions (\<open>shared/\<close>). A delimiter is an ASCII character, as those of the
  command line are; the tests on single characters are written on bytes, because no byte of a
  multi-byte character is ASCII. An I/O error is the text that the operating system gives.
\<close>

section \<open>Values, events, errors, options\<close>

datatype JsonPrimitive = PString string | PNumber f64 | PBool bool | PNull

datatype JsonValue =
    VPrimitive JsonPrimitive
  | VArray "JsonValue list"
  | VObject "(string \<times> JsonValue) list"

datatype JsonStreamEvent =
    StartObject
  | EndObject
  | StartArray nat
  | EndArray
  | Key string bool
  | Primitive JsonPrimitive

datatype ToonError =
    ParseError nat string
  | ValidationError nat string
  | EventStreamError string
  | PathExpansionError string string
  | IoError string "path option" string
  | JsonError string
  | MessageError string

definition tabs_not_allowed :: "nat \<Rightarrow> ToonError" where
  "tabs_not_allowed line = ValidationError line ''Tabs are not allowed in indentation in strict mode''"

definition invalid_indentation :: "nat \<Rightarrow> nat \<Rightarrow> nat \<Rightarrow> ToonError" where
  "invalid_indentation line expected found =
     ValidationError line (''Indentation must be exact multiple of '' @ show_nat expected
       @ '', but found '' @ show_nat found @ '' spaces'')"

definition mismatched_end :: "string \<Rightarrow> string \<Rightarrow> ToonError" where
  "mismatched_end expected found =
     EventStreamError (''Mismatched end event: expected '' @ expected @ '', found '' @ found)"

definition unexpected_event :: "string \<Rightarrow> string \<Rightarrow> ToonError" where
  "unexpected_event event situation =
     EventStreamError (''Unexpected '' @ event @ '' event '' @ situation)"

text \<open>\<open>JsonPrimitive::from_f64\<close>, and the conversions from and to \<open>serde_json::Value\<close>.\<close>

definition from_f64 :: "f64 \<Rightarrow> JsonPrimitive" where
  "from_f64 x = (if \<not> is_finite x then PNull else if is_zero x then PNumber F_zero else PNumber x)"

fun as_f64 :: "json_number \<Rightarrow> f64" where
  "as_f64 (NPos n) = f64_of_int (int n)"
| "as_f64 (NNeg i) = f64_of_int i"
| "as_f64 (NFloat x) = x"

fun value_of_json :: "json \<Rightarrow> JsonValue" where
  "value_of_json JNull = VPrimitive PNull"
| "value_of_json (JBool b) = VPrimitive (PBool b)"
| "value_of_json (JNumber n) = VPrimitive (from_f64 (as_f64 n))"
| "value_of_json (JString s) = VPrimitive (PString s)"
| "value_of_json (JArray xs) = VArray (map value_of_json xs)"
| "value_of_json (JObject m) = VObject (map (\<lambda>e. (fst e, value_of_json (snd e))) m)"

definition json_of_primitive :: "JsonPrimitive \<Rightarrow> json" where
  "json_of_primitive p =
     (case p of
        PString s \<Rightarrow> JString s
      | PNumber x \<Rightarrow> if is_finite x then JNumber (NFloat x) else JNull
      | PBool b \<Rightarrow> JBool b
      | PNull \<Rightarrow> JNull)"

fun json_of_value :: "JsonValue \<Rightarrow> json" where
  "json_of_value (VPrimitive p) = json_of_primitive p"
| "json_of_value (VArray xs) = JArray (map json_of_value xs)"
| "json_of_value (VObject m) =
     JObject (fold (\<lambda>(k, v). btree_insert k v) (map (\<lambda>e. (fst e, json_of_value (snd e))) m) [])"

datatype KeyFoldingMode = FoldOff | FoldSafe
datatype ExpandPathsMode = ExpandOff | ExpandSafe
datatype PathSegment = SegKey string | SegIndex nat

type_synonym EncodeReplacer = "string \<Rightarrow> JsonValue \<Rightarrow> PathSegment list \<Rightarrow> JsonValue option"

record EncodeOptions =
  eo_indent :: "nat option"
  eo_delimiter :: "char option"
  eo_key_folding :: "KeyFoldingMode option"
  eo_flatten_depth :: "nat option"
  eo_replacer :: "EncodeReplacer option"

record ResolvedEncodeOptions =
  indent :: nat
  delimiter :: char
  key_folding :: KeyFoldingMode
  flatten_depth :: nat
  replacer :: "EncodeReplacer option"

record DecodeOptions =
  do_indent :: "nat option"
  do_strict :: "bool option"
  do_expand_paths :: "ExpandPathsMode option"

record DecodeStreamOptions =
  ds_indent :: "nat option"
  ds_strict :: "bool option"

record ResolvedDecodeOptions =
  rd_indent :: nat
  rd_strict :: bool
  rd_expand_paths :: ExpandPathsMode

definition unwrap_or :: "'a option \<Rightarrow> 'a \<Rightarrow> 'a" where
  "unwrap_or x d = (case x of Some v \<Rightarrow> v | None \<Rightarrow> d)"

definition resolve_encode_options :: "EncodeOptions option \<Rightarrow> ResolvedEncodeOptions" where
  "resolve_encode_options options =
     (let opts = unwrap_or options
        \<lparr>eo_indent = None, eo_delimiter = None, eo_key_folding = None, eo_flatten_depth = None, eo_replacer = None\<rparr>
      in \<lparr>indent = unwrap_or (eo_indent opts) 2, delimiter = unwrap_or (eo_delimiter opts) (CHR '',''),
          key_folding = unwrap_or (eo_key_folding opts) FoldOff,
          flatten_depth = unwrap_or (eo_flatten_depth opts) USIZE_MAX, replacer = eo_replacer opts\<rparr>)"

definition resolve_decode_options :: "DecodeOptions option \<Rightarrow> ResolvedDecodeOptions" where
  "resolve_decode_options options =
     (let opts = unwrap_or options \<lparr>do_indent = None, do_strict = None, do_expand_paths = None\<rparr>
      in \<lparr>rd_indent = unwrap_or (do_indent opts) 2, rd_strict = unwrap_or (do_strict opts) True,
          rd_expand_paths = unwrap_or (do_expand_paths opts) ExpandOff\<rparr>)"

section \<open>Literals\<close>

definition is_boolean_or_null_literal :: "string \<Rightarrow> bool" where
  "is_boolean_or_null_literal v \<longleftrightarrow> v = ''true'' \<or> v = ''false'' \<or> v = ''null''"

text \<open>
  The tail of a number: an optional fraction and an optional exponent, each with at least one
  digit, and then the end.
\<close>

definition exponent_ok :: "string \<Rightarrow> bool" where
  "exponent_ok s =
     (case s of
        [] \<Rightarrow> True
      | c # r \<Rightarrow>
          if c = CHR ''e'' \<or> c = CHR ''E'' then
            (let ds = (case r of d # t \<Rightarrow> if d = CHR ''+'' \<or> d = CHR ''-'' then t else r | [] \<Rightarrow> [])
             in ds \<noteq> [] \<and> list_all is_ascii_digit ds)
          else False)"

definition fraction_ok :: "string \<Rightarrow> bool" where
  "fraction_ok s =
     (case s of
        [] \<Rightarrow> True
      | c # r \<Rightarrow>
          if c = CHR ''.'' then take_digits r \<noteq> [] \<and> exponent_ok (drop_digits r) else exponent_ok s)"

definition strip_minus :: "string \<Rightarrow> string" where
  "strip_minus s = (case s of [] \<Rightarrow> [] | c # r \<Rightarrow> if c = CHR ''-'' then r else s)"

definition is_numeric_like :: "string \<Rightarrow> bool" where
  "is_numeric_like value =
     (let body = strip_minus (trim value); ds = take_digits body in
      if ds = [] then False
      else if 1 < length ds \<and> hd ds = CHR ''0'' then True
      else fraction_ok (drop_digits body))"

definition is_numeric_literal :: "string \<Rightarrow> bool" where
  "is_numeric_literal value =
     (let trimmed = trim value; body = strip_minus trimmed; ds = take_digits body in
      if ds = [] then False
      else if hd ds = CHR ''0'' \<and> 1 < length ds then False
      else if \<not> fraction_ok (drop_digits body) then False
      else (case parse_f64 trimmed of Some x \<Rightarrow> is_finite x | None \<Rightarrow> False))"

section \<open>Strings\<close>

definition escape_char :: "char \<Rightarrow> string" where
  "escape_char c =
     (if c = BACKSLASH then [BACKSLASH, BACKSLASH]
      else if c = QUOTE then [BACKSLASH, QUOTE]
      else if c = NEWLINE then [BACKSLASH, CHR ''n'']
      else if c = CARRIAGE_RETURN then [BACKSLASH, CHR ''r'']
      else if c = TAB then [BACKSLASH, CHR ''t'']
      else [c])"

definition escape_string :: "string \<Rightarrow> string" where
  "escape_string s = concat (map escape_char s)"

fun unescape_string :: "string \<Rightarrow> string + string" where
  "unescape_string [] = Ok []"
| "unescape_string (c # s) =
     (if c = BACKSLASH then
        (case s of
           [] \<Rightarrow> Err ''Invalid escape sequence: backslash at end of string''
         | d # r \<Rightarrow>
             (let out =
                (if d = CHR ''n'' then Some NEWLINE
                 else if d = CHR ''t'' then Some TAB
                 else if d = CHR ''r'' then Some CARRIAGE_RETURN
                 else if d = BACKSLASH then Some BACKSLASH
                 else if d = QUOTE then Some QUOTE
                 else None)
              in case out of
                   None \<Rightarrow> Err (''Invalid escape sequence: '' @ [BACKSLASH] @ hd (chars s))
                 | Some o' \<Rightarrow> and_then (unescape_string r) (\<lambda>t. Ok (o' # t))))
      else and_then (unescape_string s) (\<lambda>t. Ok (c # t)))"

text \<open>
  The two scanning loops, on what is left of the text after the index; the functions themselves
  add the index.
\<close>

fun closing_quote :: "string \<Rightarrow> nat option" where
  "closing_quote [] = None"
| "closing_quote (c # s) =
     (if c = BACKSLASH \<and> s \<noteq> [] then map_option (\<lambda>i. i + 2) (closing_quote (tl s))
      else if c = QUOTE then Some 0
      else map_option Suc (closing_quote s))"

definition find_closing_quote :: "string \<Rightarrow> nat \<Rightarrow> nat option" where
  "find_closing_quote content start = map_option (\<lambda>i. start + 1 + i) (closing_quote (drop (start + 1) content))"

fun unquoted_char :: "char \<Rightarrow> bool \<Rightarrow> string \<Rightarrow> nat option" where
  "unquoted_char target in_quotes [] = None"
| "unquoted_char target in_quotes (c # s) =
     (if in_quotes \<and> c = BACKSLASH \<and> s \<noteq> [] then
        map_option (\<lambda>i. i + 2) (unquoted_char target in_quotes (tl s))
      else if c = QUOTE then map_option Suc (unquoted_char target (\<not> in_quotes) s)
      else if c = target \<and> \<not> in_quotes then Some 0
      else map_option Suc (unquoted_char target in_quotes s))"

definition find_unquoted_char :: "string \<Rightarrow> char \<Rightarrow> nat \<Rightarrow> nat option" where
  "find_unquoted_char content target start =
     map_option (\<lambda>i. start + i) (unquoted_char target False (drop start content))"

section \<open>Which texts need no quotes\<close>

definition is_valid_unquoted_key :: "string \<Rightarrow> bool" where
  "is_valid_unquoted_key key =
     (case key of
        [] \<Rightarrow> False
      | c # r \<Rightarrow> (is_ascii_alphabetic c \<or> c = CHR ''_'')
          \<and> list_all (\<lambda>d. is_ascii_alphanumeric d \<or> d = CHR ''_'' \<or> d = CHR ''.'') r)"

definition is_identifier_segment :: "string \<Rightarrow> bool" where
  "is_identifier_segment seg =
     (case seg of
        [] \<Rightarrow> False
      | c # r \<Rightarrow> (is_ascii_alphabetic c \<or> c = CHR ''_'')
          \<and> list_all (\<lambda>d. is_ascii_alphanumeric d \<or> d = CHR ''_'') r)"

definition is_safe_unquoted :: "string \<Rightarrow> char \<Rightarrow> bool" where
  "is_safe_unquoted v delim \<longleftrightarrow>
     v \<noteq> [] \<and> trim v = v
     \<and> \<not> (is_boolean_or_null_literal v \<or> is_numeric_like v)
     \<and> CHR '':'' \<notin> set v
     \<and> QUOTE \<notin> set v \<and> BACKSLASH \<notin> set v
     \<and> CHR ''['' \<notin> set v \<and> CHR '']'' \<notin> set v \<and> CHR ''{'' \<notin> set v \<and> CHR ''}'' \<notin> set v
     \<and> NEWLINE \<notin> set v \<and> CARRIAGE_RETURN \<notin> set v \<and> TAB \<notin> set v
     \<and> delim \<notin> set v
     \<and> \<not> prefix ''-'' v"

section \<open>Escaping\<close>

lemma escape_string_simps [simp]:
  "escape_string [] = []" "escape_string (c # s) = escape_char c @ escape_string s"
  by (simp_all add: escape_string_def)

lemma escape_char_cases:
  obtains "escape_char c = [c]" "c \<noteq> BACKSLASH" "c \<noteq> QUOTE" "c \<noteq> NEWLINE" "c \<noteq> CARRIAGE_RETURN" "c \<noteq> TAB"
  | d where "escape_char c = [BACKSLASH, d]"
      "(c, d) \<in> {(BACKSLASH, BACKSLASH), (QUOTE, QUOTE), (NEWLINE, CHR ''n''), (CARRIAGE_RETURN, CHR ''r''), (TAB, CHR ''t'')}"
  by (cases "c \<in> {BACKSLASH, QUOTE, NEWLINE, CARRIAGE_RETURN, TAB}") (auto simp: escape_char_def)

lemma unescape_escape: "unescape_string (escape_string s) = Ok s"
proof (induction s)
  case (Cons c s)
  show ?case
    by (rule escape_char_cases [of c]) (use Cons in \<open>auto simp: Let_def\<close>)
qed simp

interpretation escaping: codec escape_string unescape_string "\<lambda>_. True"
  by unfold_locales (rule unescape_escape)

lemma closing_quote_escape: "closing_quote (escape_string s @ QUOTE # r) = Some (length (escape_string s))"
proof (induction s)
  case (Cons c s)
  show ?case by (rule escape_char_cases [of c]) (use Cons in auto)
qed simp

lemma unquoted_char_escape:
  "t \<noteq> QUOTE \<Longrightarrow> unquoted_char t True (escape_string s @ QUOTE # r) =
     map_option (\<lambda>i. i + Suc (length (escape_string s))) (unquoted_char t False r)"
proof (induction s)
  case Nil
  then show ?case by simp
next
  case (Cons c s)
  show ?case
    by (rule escape_char_cases [of c])
      (use Cons in \<open>auto simp: option.map_comp comp_def\<close>)
qed

lemma escape_no_control: "c \<in> {NEWLINE, CARRIAGE_RETURN, TAB} \<Longrightarrow> c \<notin> set (escape_string s)"
  by (induction s) (auto simp: escape_char_def)

end
