(* ===== verification/Toon_Encode.thy ===== *)
theory Toon_Encode
  imports Toon_Base
begin

text \<open>
  The TOON encoder (\<open>toon_rust/src/encode\<close>): normalisation, replacer, key folding, and the lines of
  a value. Lines are returned where the code pushes them to a vector; \<open>estimate_line_count\<close> only
  sizes that vector.
\<close>

section \<open>Primitives and headers\<close>

definition format_number :: "f64 \<Rightarrow> string" where
  "format_number x =
     (if is_zero x then ''0'' else if is_nan x \<or> \<not> is_finite x then ''null'' else f64_to_string x)"

definition encode_string_literal :: "string \<Rightarrow> char \<Rightarrow> string" where
  "encode_string_literal v delim =
     (if is_safe_unquoted v delim then v else QUOTE # escape_string v @ [QUOTE])"

definition encode_primitive :: "JsonPrimitive \<Rightarrow> char \<Rightarrow> string" where
  "encode_primitive p delim =
     (case p of
        PNull \<Rightarrow> ''null''
      | PBool b \<Rightarrow> if b then ''true'' else ''false''
      | PNumber x \<Rightarrow> format_number x
      | PString s \<Rightarrow> encode_string_literal s delim)"

definition encode_key :: "string \<Rightarrow> string" where
  "encode_key key = (if is_valid_unquoted_key key then key else QUOTE # escape_string key @ [QUOTE])"

definition encode_and_join_primitives :: "JsonPrimitive list \<Rightarrow> char \<Rightarrow> string" where
  "encode_and_join_primitives values delim = join [delim] (map (\<lambda>v. encode_primitive v delim) values)"

definition format_header :: "nat \<Rightarrow> string option \<Rightarrow> string list option \<Rightarrow> char \<Rightarrow> string" where
  "format_header len key flds delim =
     (case key of Some k \<Rightarrow> encode_key k | None \<Rightarrow> [])
     @ (if delim = CHR '','' then ''['' @ show_nat len @ '']''
        else ''['' @ show_nat len @ [delim] @ '']'')
     @ (case flds of Some fs \<Rightarrow> ''{'' @ join [delim] (map encode_key fs) @ ''}'' | None \<Rightarrow> [])
     @ '':''"

section \<open>Normalisation\<close>

definition normalize_primitive :: "JsonPrimitive \<Rightarrow> JsonPrimitive" where
  "normalize_primitive p =
     (case p of
        PNumber x \<Rightarrow> if \<not> is_finite x then PNull else if is_zero x then PNumber F_zero else PNumber x
      | _ \<Rightarrow> p)"

fun normalize_json_value :: "JsonValue \<Rightarrow> JsonValue" where
  "normalize_json_value (VPrimitive p) = VPrimitive (normalize_primitive p)"
| "normalize_json_value (VArray items) = VArray (map normalize_json_value items)"
| "normalize_json_value (VObject entries) =
     VObject (map (\<lambda>e. (fst e, normalize_json_value (snd e))) entries)"

fun is_json_primitive :: "JsonValue \<Rightarrow> bool" where
  "is_json_primitive (VPrimitive _) = True"
| "is_json_primitive _ = False"

fun is_json_array :: "JsonValue \<Rightarrow> bool" where
  "is_json_array (VArray _) = True"
| "is_json_array _ = False"

fun is_json_object :: "JsonValue \<Rightarrow> bool" where
  "is_json_object (VObject _) = True"
| "is_json_object _ = False"

definition is_array_of_primitives :: "JsonValue list \<Rightarrow> bool" where
  "is_array_of_primitives v = list_all is_json_primitive v"

definition is_array_of_arrays :: "JsonValue list \<Rightarrow> bool" where
  "is_array_of_arrays v = list_all is_json_array v"

definition is_array_of_objects :: "JsonValue list \<Rightarrow> bool" where
  "is_array_of_objects v = list_all is_json_object v"

section \<open>The replacer\<close>

text \<open>
  \<open>transform_children\<close> goes into what the replacer returns, which may grow without end; the fuel
  bounds the nesting of the calls, and \<open>None\<close> is a replacer that does not stop within it.
\<close>

fun transform_children ::
  "nat \<Rightarrow> EncodeReplacer \<Rightarrow> PathSegment list \<Rightarrow> JsonValue \<Rightarrow> JsonValue option" where
  "transform_children fuel r p (VPrimitive x) = Some (VPrimitive x)"
| "transform_children 0 r p v = None"
| "transform_children (Suc fuel) r p (VObject entries) =
     map_option (\<lambda>es. VObject (concat es))
       (those (map (\<lambda>(k, v).
          (let next = p @ [SegKey k] in
           case r k v next of
             None \<Rightarrow> Some []
           | Some v' \<Rightarrow>
               map_option (\<lambda>t. [(k, t)]) (transform_children fuel r next (normalize_json_value v')))) entries))"
| "transform_children (Suc fuel) r p (VArray values) =
     map_option (\<lambda>vs. VArray (concat vs))
       (those (map (\<lambda>(i, v).
          (let next = p @ [SegIndex i] in
           case r (show_nat i) v next of
             None \<Rightarrow> Some []
           | Some v' \<Rightarrow>
               map_option (\<lambda>t. [t]) (transform_children fuel r next (normalize_json_value v'))))
          (enumerate 0 values)))"

definition apply_replacer :: "nat \<Rightarrow> JsonValue \<Rightarrow> EncodeReplacer \<Rightarrow> JsonValue option" where
  "apply_replacer fuel v r =
     (case r [] v [] of
        Some v' \<Rightarrow> transform_children fuel r [] (normalize_json_value v')
      | None \<Rightarrow> transform_children fuel r [] v)"

section \<open>Key folding\<close>

record FoldResult =
  folded_key :: string
  remainder :: "JsonValue option"
  leaf_value :: JsonValue
  segment_count :: nat

text \<open>The loop of \<open>collect_single_key_chain\<close>; \<open>n\<close> is how many segments may still be added.\<close>

fun single_key_chain :: "nat \<Rightarrow> string list \<Rightarrow> JsonValue \<Rightarrow> string list \<times> JsonValue" where
  "single_key_chain (Suc n) segs (VObject [(k, v)]) = single_key_chain n (segs @ [k]) v"
| "single_key_chain n segs v = (segs, v)"

definition collect_single_key_chain ::
  "string \<Rightarrow> JsonValue \<Rightarrow> nat \<Rightarrow> string list \<times> JsonValue option \<times> JsonValue" where
  "collect_single_key_chain start_key start_value max_depth =
     (let (segs, v) = single_key_chain (max_depth - 1) [start_key] start_value in
      case v of
        VObject entries \<Rightarrow> if entries = [] then (segs, None, v) else (segs, Some v, v)
      | _ \<Rightarrow> (segs, None, v))"

definition dotted :: "string option \<Rightarrow> string \<Rightarrow> string" where
  "dotted path_prefix k = (case path_prefix of None \<Rightarrow> k | Some p \<Rightarrow> p @ ''.'' @ k)"

definition try_fold_key_chain ::
  "string \<Rightarrow> JsonValue \<Rightarrow> string list \<Rightarrow> ResolvedEncodeOptions \<Rightarrow> string set option \<Rightarrow> string option \<Rightarrow> nat
    \<Rightarrow> FoldResult option" where
  "try_fold_key_chain key value siblings opts root_literal_keys path_prefix flat =
     (if key_folding opts \<noteq> FoldSafe then None
      else if \<not> is_json_object value then None
      else if flat < 2 then None
      else
        (let (segs, tail, leaf) = collect_single_key_chain key value flat in
         if length segs < 2 then None
         else if \<not> list_all is_identifier_segment segs then None
         else
           (let fk = join ''.'' segs in
            if fk \<in> set siblings then None
            else if (case root_literal_keys of Some ks \<Rightarrow> dotted path_prefix fk \<in> ks | None \<Rightarrow> False) then None
            else Some \<lparr>folded_key = fk, remainder = tail, leaf_value = leaf, segment_count = length segs\<rparr>)))"

section \<open>Lines\<close>


definition indentation :: "nat \<Rightarrow> nat \<Rightarrow> string" where
  "indentation depth indent_size = replicate (sat_mul indent_size depth) SPACE"

definition indented_line :: "nat \<Rightarrow> string \<Rightarrow> nat \<Rightarrow> string" where
  "indented_line depth content indent_size = indentation depth indent_size @ content"

definition indented_key_value_line :: "nat \<Rightarrow> string \<Rightarrow> string \<Rightarrow> nat \<Rightarrow> string" where
  "indented_key_value_line depth key value indent_size =
     indentation depth indent_size @ key @ '': '' @ value"

definition indented_key_colon_line :: "nat \<Rightarrow> string \<Rightarrow> nat \<Rightarrow> string" where
  "indented_key_colon_line depth key indent_size = indentation depth indent_size @ key @ '':''"

definition indented_list_item :: "nat \<Rightarrow> string \<Rightarrow> nat \<Rightarrow> string" where
  "indented_list_item depth content indent_size = indentation depth indent_size @ ''- '' @ content"

definition indented_list_item_key_value :: "nat \<Rightarrow> string \<Rightarrow> string \<Rightarrow> nat \<Rightarrow> string" where
  "indented_list_item_key_value depth key value indent_size =
     indentation depth indent_size @ ''- '' @ key @ '': '' @ value"

definition indented_list_item_key_colon :: "nat \<Rightarrow> string \<Rightarrow> nat \<Rightarrow> string" where
  "indented_list_item_key_colon depth key indent_size = indentation depth indent_size @ ''- '' @ key @ '':''"

definition indented_list_item_key_header :: "nat \<Rightarrow> string \<Rightarrow> string \<Rightarrow> nat \<Rightarrow> string" where
  "indented_list_item_key_header depth key header indent_size =
     indentation depth indent_size @ ''- '' @ key @ header"

section \<open>Arrays\<close>

definition object_get :: "(string \<times> JsonValue) list \<Rightarrow> string \<Rightarrow> JsonValue option" where
  "object_get entries key = map_option snd (List.find (\<lambda>e. fst e = key) entries)"

fun primitive_of :: "JsonValue \<Rightarrow> JsonPrimitive option" where
  "primitive_of (VPrimitive p) = Some p"
| "primitive_of _ = None"

definition encode_inline_array_line :: "JsonValue list \<Rightarrow> char \<Rightarrow> string option \<Rightarrow> string" where
  "encode_inline_array_line values delim key =
     (let primitives = List.map_filter primitive_of values;
          header = format_header (length values) key None delim
      in if primitives = [] then header
         else header @ '' '' @ encode_and_join_primitives primitives delim)"

definition is_tabular_row :: "string list \<Rightarrow> JsonValue \<Rightarrow> bool" where
  "is_tabular_row header row =
     (case row of
        VObject entries \<Rightarrow>
          length entries = length header
          \<and> list_all (\<lambda>k. case object_get entries k of Some v \<Rightarrow> is_json_primitive v | None \<Rightarrow> False) header
      | _ \<Rightarrow> False)"

definition is_tabular_array :: "JsonValue list \<Rightarrow> string list \<Rightarrow> bool" where
  "is_tabular_array rows header = list_all (is_tabular_row header) rows"

definition extract_tabular_header :: "JsonValue list \<Rightarrow> string list option" where
  "extract_tabular_header rows =
     (case rows of
        [] \<Rightarrow> None
      | row # _ \<Rightarrow>
          (case row of
             VObject first \<Rightarrow>
               if first = [] then None
               else if is_tabular_array rows (map fst first) then Some (map fst first) else None
           | _ \<Rightarrow> None))"

text \<open>The rows of a table; \<open>None\<close> is the panic on a row that lacks a column or has a nested value.\<close>

definition tabular_row_line :: "string list \<Rightarrow> nat \<Rightarrow> ResolvedEncodeOptions \<Rightarrow> (string \<times> JsonValue) list \<Rightarrow> string option" where
  "tabular_row_line header depth opts entries =
     map_option (\<lambda>vs. indented_line depth (encode_and_join_primitives vs (delimiter opts)) (indent opts))
       (those (map (\<lambda>k. Option.bind (object_get entries k) primitive_of) header))"

fun write_tabular_rows_lines ::
  "string list \<Rightarrow> nat \<Rightarrow> ResolvedEncodeOptions \<Rightarrow> JsonValue list \<Rightarrow> string list option" where
  "write_tabular_rows_lines header depth opts [] = Some []"
| "write_tabular_rows_lines header depth opts (VObject entries # rows) =
     Option.bind (tabular_row_line header depth opts entries)
       (\<lambda>l. map_option (\<lambda>ls. l # ls) (write_tabular_rows_lines header depth opts rows))"
| "write_tabular_rows_lines header depth opts (_ # rows) = write_tabular_rows_lines header depth opts rows"

section \<open>The encoder\<close>

text \<open>
  What follows a list item's first line is in the order of the code. The panic of a table row is
  out of reach (\<open>tabular_rows_total\<close> below), so that the rows of a table are those of
  \<open>write_tabular_rows_lines\<close> and no rows stand for a panic.
\<close>

definition table_rows :: "string list \<Rightarrow> nat \<Rightarrow> ResolvedEncodeOptions \<Rightarrow> JsonValue list \<Rightarrow> string list" where
  "table_rows header depth opts rows = unwrap_or (write_tabular_rows_lines header depth opts rows) []"

definition all_primitive_arrays :: "JsonValue list \<Rightarrow> bool" where
  "all_primitive_arrays v =
     list_all (\<lambda>item. case item of VArray items \<Rightarrow> is_array_of_primitives items | _ \<Rightarrow> False) v"

definition array_items :: "JsonValue \<Rightarrow> JsonValue list option" where
  "array_items v = (case v of VArray items \<Rightarrow> Some items | _ \<Rightarrow> None)"

definition root_keys :: "nat \<Rightarrow> string set option \<Rightarrow> string list \<Rightarrow> string set option" where
  "root_keys depth root_literal_keys keys =
     (if depth = 0 \<and> root_literal_keys = None then Some {k \<in> set keys. CHR ''.'' \<in> set k}
      else root_literal_keys)"

lemma single_key_chain_size: "size (snd (single_key_chain n segs v)) \<le> size v"
  by (induction n segs v rule: single_key_chain.induct) auto

lemma single_key_chain_shrinks:
  assumes "length segs < length (fst (single_key_chain n segs v))"
  shows "size (snd (single_key_chain n segs v)) < size v"
  using assms
proof (cases "(n, segs, v)" rule: single_key_chain.cases)
  case (1 n' segs' k w)
  then show ?thesis using single_key_chain_size [of n' "segs' @ [k]" w] by simp
qed auto

lemma fold_remainder_size:
  assumes "try_fold_key_chain key value siblings opts rk pp flat = Some f" "remainder f = Some (VObject entries)"
  shows "size_list (size_prod (\<lambda>x. 0) size) entries < size value"
proof -
  let ?c = "single_key_chain (flat - 1) [key] value"
  have "size (snd ?c) < size value"
    using assms(1) by (intro single_key_chain_shrinks)
      (auto simp: try_fold_key_chain_def collect_single_key_chain_def Let_def case_prod_beta
        split: if_splits JsonValue.splits)
  moreover have "snd ?c = VObject entries"
    using assms by (auto simp: try_fold_key_chain_def collect_single_key_chain_def Let_def case_prod_beta
        split: if_splits JsonValue.splits)
  ultimately show ?thesis by simp
qed

lemma fold_leaf_size:
  assumes "try_fold_key_chain key value siblings opts rk pp flat = Some f" "leaf_value f = VArray items"
  shows "size_list size items < size value"
proof -
  let ?c = "single_key_chain (flat - 1) [key] value"
  have "size (snd ?c) < size value"
    using assms(1) by (intro single_key_chain_shrinks)
      (auto simp: try_fold_key_chain_def collect_single_key_chain_def Let_def case_prod_beta
        split: if_splits JsonValue.splits)
  moreover have "snd ?c = VArray items"
    using assms by (auto simp: try_fold_key_chain_def collect_single_key_chain_def Let_def case_prod_beta
        split: if_splits JsonValue.splits)
  ultimately show ?thesis by simp
qed

lemma size_list_mem: "x \<in> set xs \<Longrightarrow> size x < Suc (size_list size xs)" for xs :: "'a::size list"
  by (induction xs) auto

lemma size_entry_mem:
  "(k, v) \<in> set es \<Longrightarrow> size v < Suc (size_list (size_prod (\<lambda>x. 0) size) es)" for es :: "(string \<times> JsonValue) list"
  by (induction es) auto

function (sequential)
  encode_object_lines ::
    "ResolvedEncodeOptions \<Rightarrow> nat \<Rightarrow> string set option \<Rightarrow> string option \<Rightarrow> nat option
      \<Rightarrow> (string \<times> JsonValue) list \<Rightarrow> string list" and
  encode_key_value_pair_lines ::
    "ResolvedEncodeOptions \<Rightarrow> nat \<Rightarrow> string list \<Rightarrow> string set option \<Rightarrow> string option \<Rightarrow> nat
      \<Rightarrow> string \<Rightarrow> JsonValue \<Rightarrow> string list" and
  encode_unfolded_pair_lines ::
    "ResolvedEncodeOptions \<Rightarrow> nat \<Rightarrow> string set option \<Rightarrow> string option \<Rightarrow> nat
      \<Rightarrow> string \<Rightarrow> JsonValue \<Rightarrow> string list" and
  encode_array_lines ::
    "ResolvedEncodeOptions \<Rightarrow> nat \<Rightarrow> string option \<Rightarrow> JsonValue list \<Rightarrow> string list" and
  encode_object_as_list_item_lines ::
    "ResolvedEncodeOptions \<Rightarrow> nat \<Rightarrow> (string \<times> JsonValue) list \<Rightarrow> string list" and
  encode_list_item_value_lines ::
    "ResolvedEncodeOptions \<Rightarrow> nat \<Rightarrow> JsonValue \<Rightarrow> string list" where
  "encode_object_lines opts depth root_literal_keys path_prefix remaining_depth entries =
     (let keys = map fst entries;
          rk = root_keys depth root_literal_keys keys;
          flat = unwrap_or remaining_depth (flatten_depth opts)
      in concat (map (\<lambda>e. encode_key_value_pair_lines opts depth keys rk path_prefix flat (fst e) (snd e)) entries))"
| "encode_key_value_pair_lines opts depth siblings rk path_prefix flat key value =
     (case try_fold_key_chain key value siblings opts rk path_prefix flat of
        Some f \<Rightarrow>
          (let encoded_key = encode_key (folded_key f) in
           case remainder f of
             None \<Rightarrow>
               (case leaf_value f of
                  VPrimitive p \<Rightarrow>
                    [indented_key_value_line depth encoded_key (encode_primitive p (delimiter opts)) (indent opts)]
                | VArray items \<Rightarrow> encode_array_lines opts depth (Some (folded_key f)) items
                | VObject entries \<Rightarrow>
                    if entries = [] then [indented_key_colon_line depth encoded_key (indent opts)]
                    else encode_unfolded_pair_lines opts depth rk path_prefix flat key value)
           | Some (VObject entries) \<Rightarrow>
               indented_key_colon_line depth encoded_key (indent opts)
               # encode_object_lines opts (depth + 1) rk (Some (dotted path_prefix (folded_key f)))
                   (Some (flat - segment_count f)) entries
           | Some _ \<Rightarrow> encode_unfolded_pair_lines opts depth rk path_prefix flat key value)
      | None \<Rightarrow> encode_unfolded_pair_lines opts depth rk path_prefix flat key value)"
| "encode_unfolded_pair_lines opts depth rk path_prefix flat key value =
     (case value of
        VPrimitive p \<Rightarrow>
          [indented_key_value_line depth (encode_key key) (encode_primitive p (delimiter opts)) (indent opts)]
      | VArray items \<Rightarrow> encode_array_lines opts depth (Some key) items
      | VObject entries \<Rightarrow>
          indented_key_colon_line depth (encode_key key) (indent opts)
          # (if entries = [] then []
             else encode_object_lines opts (depth + 1) rk (Some (dotted path_prefix key)) (Some flat) entries))"
| "encode_array_lines opts depth key value =
     (if value = [] then [indented_line depth (format_header 0 key None (delimiter opts)) (indent opts)]
      else if is_array_of_primitives value then
        [indented_line depth (encode_inline_array_line value (delimiter opts) key) (indent opts)]
      else if is_array_of_arrays value \<and> all_primitive_arrays value then
        indented_line depth (format_header (length value) key None (delimiter opts)) (indent opts)
        # map (\<lambda>items. indented_list_item (depth + 1) (encode_inline_array_line items (delimiter opts) None) (indent opts))
            (List.map_filter array_items value)
      else
        (case (if is_array_of_objects value then extract_tabular_header value else None) of
           Some header \<Rightarrow>
             indented_line depth (format_header (length value) key (Some header) (delimiter opts)) (indent opts)
             # table_rows header (depth + 1) opts value
         | None \<Rightarrow>
             indented_line depth (format_header (length value) key None (delimiter opts)) (indent opts)
             # concat (map (\<lambda>item. encode_list_item_value_lines opts (depth + 1) item) value)))"
| "encode_object_as_list_item_lines opts depth [] = [indented_line depth ''-'' (indent opts)]"
| "encode_object_as_list_item_lines opts depth ((first_key, first_value) # rest) =
     (let encoded_key = encode_key first_key;
          rest_lines = (if rest = [] then [] else encode_object_lines opts (depth + 1) None None None rest)
      in case first_value of
           VPrimitive p \<Rightarrow>
             indented_list_item_key_value depth encoded_key (encode_primitive p (delimiter opts)) (indent opts) # rest_lines
         | VArray items \<Rightarrow>
             (case (if is_array_of_objects items then extract_tabular_header items else None) of
                Some header \<Rightarrow>
                  indented_list_item depth
                    (format_header (length items) (Some first_key) (Some header) (delimiter opts)) (indent opts)
                  # table_rows header (depth + 2) opts items @ rest_lines
              | None \<Rightarrow>
                  (if items = [] then
                     [indented_list_item_key_header depth encoded_key (format_header 0 None None (delimiter opts)) (indent opts)]
                   else if is_array_of_primitives items then
                     [indented_list_item_key_header depth encoded_key
                        (encode_inline_array_line items (delimiter opts) None) (indent opts)]
                   else
                     indented_list_item_key_header depth encoded_key
                       (format_header (length items) None None (delimiter opts)) (indent opts)
                     # concat (map (\<lambda>item. encode_list_item_value_lines opts (depth + 2) item) items))
                  @ rest_lines)
         | VObject entries \<Rightarrow>
             indented_list_item_key_colon depth encoded_key (indent opts)
             # (if entries = [] then [] else encode_object_lines opts (depth + 2) None None None entries)
             @ rest_lines)"
| "encode_list_item_value_lines opts depth (VPrimitive p) =
     [indented_list_item depth (encode_primitive p (delimiter opts)) (indent opts)]"
| "encode_list_item_value_lines opts depth (VArray items) =
     (if is_array_of_primitives items then
        [indented_list_item depth (encode_inline_array_line items (delimiter opts) None) (indent opts)]
      else
        indented_list_item depth (format_header (length items) None None (delimiter opts)) (indent opts)
        # concat (map (\<lambda>item. encode_list_item_value_lines opts (depth + 1) item) items))"
| "encode_list_item_value_lines opts depth (VObject entries) = encode_object_as_list_item_lines opts depth entries"
  by pat_completeness auto
termination
  by (relation "measure (\<lambda>x. case x of
        Inl (Inl (_, _, _, _, _, es)) \<Rightarrow> 3 * size_list (size_prod (\<lambda>x. 0) size) es + 2
      | Inl (Inr (Inl (_, _, _, _, _, _, _, v))) \<Rightarrow> 3 * size v + 1
      | Inl (Inr (Inr (_, _, _, _, _, _, v))) \<Rightarrow> 3 * size v
      | Inr (Inl (_, _, _, xs)) \<Rightarrow> 3 * size_list size xs + 2
      | Inr (Inr (Inl (_, _, es))) \<Rightarrow> 3 * size_list (size_prod (\<lambda>x. 0) size) es + 2
      | Inr (Inr (Inr (_, _, v))) \<Rightarrow> 3 * size v + 1)")
    (auto dest: size_list_mem size_entry_mem fold_remainder_size fold_leaf_size)

declare encode_object_lines.simps [simp del] encode_key_value_pair_lines.simps [simp del]
  encode_unfolded_pair_lines.simps [simp del] encode_array_lines.simps [simp del]
  encode_object_as_list_item_lines.simps [simp del] encode_list_item_value_lines.simps [simp del]

definition encode_json_value :: "JsonValue \<Rightarrow> ResolvedEncodeOptions \<Rightarrow> string list" where
  "encode_json_value value opts =
     (case value of
        VPrimitive p \<Rightarrow>
          (let encoded = encode_primitive p (delimiter opts) in if encoded = [] then [] else [encoded])
      | VArray items \<Rightarrow> encode_array_lines opts 0 None items
      | VObject entries \<Rightarrow> encode_object_lines opts 0 None None None entries)"

text \<open>
  \<open>encode_lines\<close>, \<open>encode\<close> and \<open>encode_stream_events\<close>; \<open>None\<close> only where the replacer does not
  stop within the fuel, and never without a replacer.
\<close>

definition replaced_value :: "nat \<Rightarrow> JsonValue \<Rightarrow> EncodeOptions option \<Rightarrow> JsonValue option" where
  "replaced_value fuel input options =
     (let normalized = normalize_json_value input in
      case replacer (resolve_encode_options options) of
        Some r \<Rightarrow> apply_replacer fuel normalized r
      | None \<Rightarrow> Some normalized)"

definition encode_lines :: "nat \<Rightarrow> JsonValue \<Rightarrow> EncodeOptions option \<Rightarrow> string list option" where
  "encode_lines fuel input options =
     map_option (\<lambda>v. encode_json_value v (resolve_encode_options options)) (replaced_value fuel input options)"

definition encode :: "nat \<Rightarrow> JsonValue \<Rightarrow> EncodeOptions option \<Rightarrow> string option" where
  "encode fuel input options = map_option (join [NEWLINE]) (encode_lines fuel input options)"

fun emit_events :: "JsonValue \<Rightarrow> JsonStreamEvent list" where
  "emit_events (VPrimitive p) = [Primitive p]"
| "emit_events (VArray items) = StartArray (length items) # concat (map emit_events items) @ [EndArray]"
| "emit_events (VObject entries) =
     StartObject
     # concat (map (\<lambda>e. Key (fst e) (\<not> is_valid_unquoted_key (fst e)) # emit_events (snd e)) entries)
     @ [EndObject]"

definition encode_stream_events :: "nat \<Rightarrow> JsonValue \<Rightarrow> EncodeOptions option \<Rightarrow> JsonStreamEvent list option" where
  "encode_stream_events fuel input options = map_option emit_events (replaced_value fuel input options)"

lemma replaced_value_None: "replaced_value fuel v None = Some (normalize_json_value v)"
  by (simp add: replaced_value_def resolve_encode_options_def unwrap_or_def Let_def)

section \<open>Tables never panic\<close>

lemma those_map_Some: "(\<forall>x \<in> set xs. f x \<noteq> None) \<Longrightarrow> those (map f xs) \<noteq> None"
  by (induction xs) auto

lemma tabular_rows_total:
  "is_tabular_array rows header \<Longrightarrow>
    \<exists>ls. write_tabular_rows_lines header depth opts rows = Some ls \<and> length ls = length rows"
proof (induction rows)
  case (Cons row rows)
  then obtain entries where row: "row = VObject entries"
    and cols: "\<forall>k \<in> set header. Option.bind (object_get entries k) primitive_of \<noteq> None"
    by (force simp: is_tabular_array_def is_tabular_row_def list_all_iff
        split: JsonValue.splits option.splits elim!: is_json_primitive.elims)
  from those_map_Some [OF cols] obtain vs
    where "those (map (\<lambda>k. Option.bind (object_get entries k) primitive_of) header) = Some vs" by blast
  with Cons row show ?case by (auto simp: tabular_row_line_def is_tabular_array_def)
qed simp

lemma extract_tabular_header_tabular:
  "extract_tabular_header rows = Some header \<Longrightarrow> is_tabular_array rows header \<and> header \<noteq> [] \<and> rows \<noteq> []"
  by (auto simp: extract_tabular_header_def split: list.splits JsonValue.splits if_splits)

end
