(* ===== verification/Toon_Parse.thy ===== *)
theory Toon_Parse
  imports Toon_Encode
begin

text \<open>
  The line scanner, the token parser and the strict-mode checks of the TOON decoder
  (\<open>toon_rust/src/decode\<close>: \<open>scanner.rs\<close>, \<open>parser.rs\<close>, \<open>validation.rs\<close>). Every slice of the code is
  between positions of ASCII characters, so that none of them panics.
\<close>

section \<open>Scanner\<close>

record ParsedLine =
  pl_raw :: string
  pl_indent :: nat
  pl_content :: string
  pl_depth :: nat
  pl_line_number :: nat

record BlankLineInfo =
  bl_line_number :: nat
  bl_indent :: nat
  bl_depth :: nat

record StreamingScanState =
  ss_line_number :: nat
  ss_blank_lines :: "BlankLineInfo list"

definition create_scan_state :: StreamingScanState where
  "create_scan_state = \<lparr>ss_line_number = 0, ss_blank_lines = []\<rparr>"

definition compute_depth_from_indent :: "nat \<Rightarrow> nat \<Rightarrow> nat" where
  "compute_depth_from_indent indent_spaces indent_size =
     (if indent_size = 0 then 0 else indent_spaces div indent_size)"

definition parse_line_incremental ::
  "string \<Rightarrow> StreamingScanState \<Rightarrow> nat \<Rightarrow> bool \<Rightarrow> ToonError + ParsedLine option \<times> StreamingScanState" where
  "parse_line_incremental raw state0 indent_size strict =
     (let line_number = ss_line_number state0 + 1;
          state = state0\<lparr>ss_line_number := line_number\<rparr>;
          ind = length (takeWhile (\<lambda>c. c = SPACE) raw);
          content = drop ind raw;
          depth = compute_depth_from_indent ind indent_size
      in if is_blank content then
           Ok (None, state\<lparr>ss_blank_lines := ss_blank_lines state
                 @ [\<lparr>bl_line_number = line_number, bl_indent = ind, bl_depth = depth\<rparr>]\<rparr>)
         else if strict \<and> TAB \<in> set (takeWhile (\<lambda>c. c = SPACE \<or> c = TAB) raw) then
           Err (tabs_not_allowed line_number)
         else if strict \<and> indent_size = 0 \<and> 0 < ind then
           Err (ValidationError line_number
                  (''Indentation not allowed when indent size is 0, but found '' @ show_nat ind @ '' spaces''))
         else if strict \<and> indent_size \<noteq> 0 \<and> 0 < ind \<and> ind mod indent_size \<noteq> 0 then
           Err (invalid_indentation line_number indent_size ind)
         else
           Ok (Some \<lparr>pl_raw = raw, pl_indent = ind, pl_content = content, pl_depth = depth,
                 pl_line_number = line_number\<rparr>, state))"

fun parse_lines_sync ::
  "string list \<Rightarrow> nat \<Rightarrow> bool \<Rightarrow> StreamingScanState \<Rightarrow> ToonError + ParsedLine list \<times> StreamingScanState" where
  "parse_lines_sync [] indent_size strict state = Ok ([], state)"
| "parse_lines_sync (raw # rest) indent_size strict state =
     and_then (parse_line_incremental raw state indent_size strict)
       (\<lambda>(parsed, state1). and_then (parse_lines_sync rest indent_size strict state1)
         (\<lambda>(ls, state2). Ok ((case parsed of Some l \<Rightarrow> l # ls | None \<Rightarrow> ls), state2)))"

record StreamingLineCursor =
  cu_lines :: "ParsedLine list"
  cu_index :: nat
  cu_last_line :: "ParsedLine option"
  cu_blank_lines :: "BlankLineInfo list"

definition new_cursor :: "ParsedLine list \<Rightarrow> BlankLineInfo list \<Rightarrow> StreamingLineCursor" where
  "new_cursor ls blanks = \<lparr>cu_lines = ls, cu_index = 0, cu_last_line = None, cu_blank_lines = blanks\<rparr>"

definition peek_sync :: "StreamingLineCursor \<Rightarrow> ParsedLine option" where
  "peek_sync c = (if cu_index c < length (cu_lines c) then Some (cu_lines c ! cu_index c) else None)"

definition advance_sync :: "StreamingLineCursor \<Rightarrow> StreamingLineCursor" where
  "advance_sync c =
     (if cu_index c < length (cu_lines c)
      then c\<lparr>cu_last_line := Some (cu_lines c ! cu_index c), cu_index := cu_index c + 1\<rparr> else c)"

definition next_sync :: "StreamingLineCursor \<Rightarrow> ParsedLine option \<times> StreamingLineCursor" where
  "next_sync c =
     (if cu_index c < length (cu_lines c)
      then (Some (cu_lines c ! cu_index c),
            c\<lparr>cu_last_line := Some (cu_lines c ! cu_index c), cu_index := cu_index c + 1\<rparr>)
      else (None, c))"

definition at_end_sync :: "StreamingLineCursor \<Rightarrow> bool" where
  "at_end_sync c \<longleftrightarrow> length (cu_lines c) \<le> cu_index c"

text \<open>
  The interface the decoders use the cursor through: what is left to read, of which \<open>peek\<close> gives
  the first line and \<open>advance\<close> drops it.
\<close>

locale line_cursor =
  fixes left :: "'c \<Rightarrow> 'l list"
    and peek :: "'c \<Rightarrow> 'l option"
    and advance :: "'c \<Rightarrow> 'c"
    and at_end :: "'c \<Rightarrow> bool"
  assumes peek_left: "peek c = (case left c of [] \<Rightarrow> None | l # _ \<Rightarrow> Some l)"
    and left_advance: "left (advance c) = tl (left c)"
    and at_end_left: "at_end c \<longleftrightarrow> left c = []"
begin

lemma peek_Some_iff: "peek c = Some l \<longleftrightarrow> (\<exists>ls. left c = l # ls)"
  by (simp add: peek_left split: list.splits)

lemma not_at_end: "\<not> at_end c \<longleftrightarrow> (\<exists>l. peek c = Some l)"
  by (auto simp: peek_left at_end_left split: list.splits)

lemma advance_shrinks: "\<not> at_end c \<Longrightarrow> length (left (advance c)) < length (left c)"
  by (cases "left c") (auto simp: at_end_left left_advance)

lemma left_advance_le: "length (left (advance c)) \<le> length (left c)"
  by (simp add: left_advance)

end

definition lines_left :: "StreamingLineCursor \<Rightarrow> ParsedLine list" where
  "lines_left c = drop (cu_index c) (cu_lines c)"

interpretation cursor: line_cursor lines_left peek_sync advance_sync at_end_sync
proof
  show "peek_sync c = (case lines_left c of [] \<Rightarrow> None | l # _ \<Rightarrow> Some l)" for c
    by (simp add: peek_sync_def lines_left_def Cons_nth_drop_Suc [symmetric] split: list.splits)
  show "lines_left (advance_sync c) = tl (lines_left c)" for c
    by (simp add: advance_sync_def lines_left_def tl_drop drop_Suc)
  show "at_end_sync c \<longleftrightarrow> lines_left c = []" for c
    by (simp add: at_end_sync_def lines_left_def)
qed

lemma next_sync_eq: "next_sync c = (peek_sync c, advance_sync c)"
  by (simp add: next_sync_def peek_sync_def advance_sync_def)

section \<open>Parser\<close>

record FieldName =
  fn_name :: string
  fn_was_quoted :: bool

record ArrayHeaderInfo =
  ah_key :: "string option"
  ah_key_was_quoted :: bool
  ah_length :: nat
  ah_delimiter :: char
  ah_fields :: "FieldName list option"

record ArrayHeaderParseResult =
  hr_header :: ArrayHeaderInfo
  hr_inline_values :: "string option"

definition find_from :: "char \<Rightarrow> string \<Rightarrow> nat \<Rightarrow> nat option" where
  "find_from c s i = map_option (\<lambda>j. i + j) (find_char c (drop i s))"

definition parse_bracket_segment :: "string \<Rightarrow> char \<Rightarrow> ToonError + nat \<times> char" where
  "parse_bracket_segment seg default_delimiter =
     (let (content, delim) =
        (if suffix [TAB] seg then (butlast seg, TAB)
         else if suffix ''|'' seg then (butlast seg, CHR ''|'')
         else (seg, default_delimiter))
      in case parse_u64 content of
           Some n \<Rightarrow> Ok (n, delim)
         | None \<Rightarrow> Err (MessageError (''Invalid array length: '' @ seg)))"

text \<open>\<open>parse_delimited_values\<close>: \<open>buffer\<close> is the value so far, \<open>vs\<close> the values before it.\<close>

fun delimited_loop :: "char \<Rightarrow> string \<Rightarrow> bool \<Rightarrow> string list \<Rightarrow> string \<Rightarrow> string list \<times> string" where
  "delimited_loop delim buffer in_quotes vs [] = (vs, buffer)"
| "delimited_loop delim buffer in_quotes vs (c # s) =
     (if c = BACKSLASH \<and> in_quotes then
        (case s of
           [] \<Rightarrow> (vs, buffer @ [c])
         | d # r \<Rightarrow> delimited_loop delim (buffer @ [c, d]) in_quotes vs r)
      else if c = QUOTE then delimited_loop delim (buffer @ [c]) (\<not> in_quotes) vs s
      else if c = delim \<and> \<not> in_quotes then delimited_loop delim [] in_quotes (vs @ [trim buffer]) s
      else delimited_loop delim (buffer @ [c]) in_quotes vs s)"

definition parse_delimited_values :: "string \<Rightarrow> char \<Rightarrow> string list" where
  "parse_delimited_values input delim =
     (let (vs, buffer) = delimited_loop delim [] False [] input in
      if buffer \<noteq> [] \<or> vs \<noteq> [] then vs @ [trim buffer] else vs)"

definition parse_string_literal :: "string \<Rightarrow> ToonError + string" where
  "parse_string_literal token =
     (let trimmed = trim token in
      if prefix [QUOTE] trimmed then
        and_then (ok_or (find_closing_quote trimmed 0) (MessageError ''Unterminated string: missing closing quote''))
          (\<lambda>closing.
            if closing \<noteq> length trimmed - 1 then Err (MessageError ''Unexpected characters after closing quote'')
            else case unescape_string (drop 1 (take closing trimmed)) of
              Inr s \<Rightarrow> Ok s
            | Inl e \<Rightarrow> Err (MessageError e))
      else Ok trimmed)"

definition parse_primitive_token :: "string \<Rightarrow> ToonError + JsonPrimitive" where
  "parse_primitive_token token =
     (let trimmed = trim token in
      if trimmed = [] then Ok (PString [])
      else if prefix [QUOTE] trimmed then and_then (parse_string_literal trimmed) (\<lambda>s. Ok (PString s))
      else if is_boolean_or_null_literal trimmed then
        Ok (if trimmed = ''true'' then PBool True else if trimmed = ''false'' then PBool False else PNull)
      else if is_numeric_literal trimmed then
        (let parsed = (case parse_f64 trimmed of Some x \<Rightarrow> x | None \<Rightarrow> F_NaN);
             normalized = (if is_zero parsed \<and> is_sign_negative parsed then F_zero else parsed)
         in Ok (PNumber normalized))
      else Ok (PString trimmed))"

definition map_row_values_to_primitives :: "string list \<Rightarrow> ToonError + JsonPrimitive list" where
  "map_row_values_to_primitives values = try_map parse_primitive_token values"

definition parse_field :: "string \<Rightarrow> ToonError + FieldName" where
  "parse_field field =
     (let trimmed = trim field in
      and_then (parse_string_literal trimmed)
        (\<lambda>name. Ok \<lparr>fn_name = name, fn_was_quoted = prefix [QUOTE] trimmed\<rparr>))"

text \<open>The start of the bracket: after a quoted key it must follow at once.\<close>

definition header_bracket_start :: "string \<Rightarrow> ToonError + nat option" where
  "header_bracket_start content =
     (let trimmed = trim_start content in
      if prefix [QUOTE] trimmed then
        and_then (ok_or (find_closing_quote trimmed 0) (MessageError ''Unterminated string: missing closing quote''))
          (\<lambda>closing.
            if \<not> prefix ''['' (drop (closing + 1) trimmed) then Ok None
            else
              (let key_end = (length content - length trimmed) + closing + 1
               in Ok (find_from (CHR ''['') content key_end)))
      else Ok (find_char (CHR ''['') content))"

definition header_key :: "string \<Rightarrow> nat \<Rightarrow> ToonError + string option \<times> bool" where
  "header_key content bracket_start =
     (if 0 < bracket_start then
        (let raw_key = trim (take bracket_start content) in
         if prefix [QUOTE] raw_key then and_then (parse_string_literal raw_key) (\<lambda>k. Ok (Some k, True))
         else if raw_key \<noteq> [] then Ok (Some raw_key, False)
         else Ok (None, False))
      else Ok (None, False))"

definition header_fields ::
  "string \<Rightarrow> nat option \<Rightarrow> nat \<Rightarrow> char \<Rightarrow> ToonError + FieldName list option" where
  "header_fields content brace_start colon_index delim =
     (case brace_start of
        None \<Rightarrow> Ok None
      | Some b \<Rightarrow>
          if b < colon_index then
            (case find_from (CHR ''}'') content b of
               None \<Rightarrow> Ok None
             | Some found_end \<Rightarrow>
                 if found_end < colon_index then
                   and_then (try_map parse_field
                       (parse_delimited_values (take (found_end - (b + 1)) (drop (b + 1) content)) delim))
                     (\<lambda>fs. Ok (Some fs))
                 else Ok None)
          else Ok None)"

definition parse_array_header_line :: "string \<Rightarrow> char \<Rightarrow> ToonError + ArrayHeaderParseResult option" where
  "parse_array_header_line content default_delimiter =
     and_then (header_bracket_start content)
       (\<lambda>start. case start of
          None \<Rightarrow> Ok None
        | Some bracket_start \<Rightarrow>
            (case find_from (CHR '']'') content bracket_start of
               None \<Rightarrow> Ok None
             | Some bracket_end \<Rightarrow>
                 (let brace_start = find_from (CHR ''{'') content (bracket_end + 1);
                      colon_after_bracket = find_from (CHR '':'') content (bracket_end + 1);
                      brace_end =
                        (case (brace_start, colon_after_bracket) of
                           (Some b, Some c) \<Rightarrow>
                             if b < c then
                               (case find_from (CHR ''}'') content b of Some e \<Rightarrow> e + 1 | None \<Rightarrow> bracket_end + 1)
                             else bracket_end + 1
                         | _ \<Rightarrow> bracket_end + 1)
                  in case find_from (CHR '':'') content brace_end of
                       None \<Rightarrow> Ok None
                     | Some colon_index \<Rightarrow>
                         and_then (header_key content bracket_start)
                           (\<lambda>(key, quoted).
                             let after_colon = trim (drop (colon_index + 1) content) in
                             case parse_bracket_segment
                                    (take (bracket_end - (bracket_start + 1)) (drop (bracket_start + 1) content))
                                    default_delimiter of
                               Inl _ \<Rightarrow> Ok None
                             | Inr (len, delim) \<Rightarrow>
                                 and_then (header_fields content brace_start colon_index delim)
                                   (\<lambda>flds. Ok (Some
                                     \<lparr>hr_header = \<lparr>ah_key = key, ah_key_was_quoted = quoted, ah_length = len,
                                        ah_delimiter = delim, ah_fields = flds\<rparr>,
                                      hr_inline_values = (if after_colon = [] then None else Some after_colon)\<rparr>))))))"

definition parse_unquoted_key :: "string \<Rightarrow> nat \<Rightarrow> ToonError + string \<times> nat" where
  "parse_unquoted_key content start =
     (case find_from (CHR '':'') content start of
        None \<Rightarrow> Err (MessageError ''Missing colon after key'')
      | Some pos \<Rightarrow> Ok (trim (take (pos - start) (drop start content)), pos + 1))"

definition parse_quoted_key :: "string \<Rightarrow> nat \<Rightarrow> ToonError + string \<times> nat" where
  "parse_quoted_key content start =
     and_then (ok_or (find_closing_quote content start) (MessageError ''Unterminated quoted key''))
       (\<lambda>closing.
         case unescape_string (take (closing - (start + 1)) (drop (start + 1) content)) of
           Inl e \<Rightarrow> Err (MessageError e)
         | Inr key \<Rightarrow>
             (let pos = closing + 1 in
              if length content \<le> pos \<or> content ! pos \<noteq> CHR '':''
              then Err (MessageError ''Missing colon after key'')
              else Ok (key, pos + 1)))"

definition parse_key_token :: "string \<Rightarrow> nat \<Rightarrow> ToonError + string \<times> nat \<times> bool" where
  "parse_key_token content start =
     (let is_quoted = (start < length content \<and> content ! start = QUOTE) in
      and_then (if is_quoted then parse_quoted_key content start else parse_unquoted_key content start)
        (\<lambda>(key, end'). Ok (key, end', is_quoted)))"

definition is_array_header_content :: "string \<Rightarrow> bool" where
  "is_array_header_content content \<longleftrightarrow>
     prefix ''['' (trim_start content) \<and> find_unquoted_char content (CHR '':'') 0 \<noteq> None"

definition is_key_value_content :: "string \<Rightarrow> bool" where
  "is_key_value_content content \<longleftrightarrow> find_unquoted_char content (CHR '':'') 0 \<noteq> None"

section \<open>Strict-mode checks\<close>

definition assert_expected_count :: "nat \<Rightarrow> nat \<Rightarrow> string \<Rightarrow> bool \<Rightarrow> ToonError + unit" where
  "assert_expected_count actual expected item_type strict =
     (if strict \<and> actual \<noteq> expected
      then Err (MessageError (''Expected '' @ show_nat expected @ '' '' @ item_type @ '', but got '' @ show_nat actual))
      else Ok ())"

definition validate_no_extra_list_items ::
  "ParsedLine option \<Rightarrow> nat \<Rightarrow> nat \<Rightarrow> bool \<Rightarrow> ToonError + unit" where
  "validate_no_extra_list_items next_line item_depth expected_count strict =
     (case next_line of
        Some line \<Rightarrow>
          if strict \<and> pl_depth line = item_depth \<and> prefix ''- '' (pl_content line)
          then Err (MessageError (''Expected '' @ show_nat expected_count @ '' list array items, but found more''))
          else Ok ()
      | None \<Rightarrow> Ok ())"

definition is_data_row :: "string \<Rightarrow> char \<Rightarrow> bool" where
  "is_data_row content delim =
     (case (find_unquoted_char content (CHR '':'') 0, find_unquoted_char content delim 0) of
        (None, _) \<Rightarrow> True
      | (Some c, Some d) \<Rightarrow> d < c
      | (Some c, None) \<Rightarrow> False)"

definition validate_no_extra_tabular_rows ::
  "ParsedLine option \<Rightarrow> nat \<Rightarrow> ArrayHeaderInfo \<Rightarrow> bool \<Rightarrow> ToonError + unit" where
  "validate_no_extra_tabular_rows next_line row_depth header strict =
     (case next_line of
        Some line \<Rightarrow>
          if strict \<and> pl_depth line = row_depth \<and> \<not> prefix ''- '' (pl_content line)
             \<and> is_data_row (pl_content line) (ah_delimiter header)
          then Err (MessageError (''Expected '' @ show_nat (ah_length header) @ '' tabular rows, but found more''))
          else Ok ()
      | None \<Rightarrow> Ok ())"

definition validate_no_blank_lines_in_range ::
  "nat \<Rightarrow> nat \<Rightarrow> BlankLineInfo list \<Rightarrow> bool \<Rightarrow> string \<Rightarrow> ToonError + unit" where
  "validate_no_blank_lines_in_range start_line end_line blank_lines strict what =
     (if \<not> strict then Ok ()
      else case List.find (\<lambda>b. start_line < bl_line_number b \<and> bl_line_number b < end_line) blank_lines of
        Some b \<Rightarrow>
          Err (MessageError (''Line '' @ show_nat (bl_line_number b) @ '': Blank lines inside '' @ what
            @ '' are not allowed in strict mode''))
      | None \<Rightarrow> Ok ())"

end
