(* ===== verification/Toon_Tokens.thy ===== *)
theory Toon_Tokens
  imports Toon_Encode Toon_Parse
begin

text \<open>
  What the encoder of TOON writes for one token, one row, one key and one array header, and what
  the parser reads from it: the lemmas that the round trip of whole documents rests on. The
  delimiters are those of the command line: comma, tab and pipe.
\<close>

section \<open>Primitives\<close>

definition prim_ok :: "JsonPrimitive \<Rightarrow> bool" where
  "prim_ok p = (case p of PNumber x \<Rightarrow> f64_wf x \<and> is_finite x \<and> (is_zero x \<longrightarrow> x = F_zero) | _ \<Rightarrow> True)"

definition delim_ok :: "char \<Rightarrow> bool" where
  "delim_ok d \<longleftrightarrow> d = CHR '','' \<or> d = TAB \<or> d = CHR ''|''"

lemma numeric_literal_like: "is_numeric_literal v \<Longrightarrow> is_numeric_like v"
  by (auto simp: is_numeric_literal_def is_numeric_like_def Let_def split: if_splits)

lemma ws_ASCII:
  "\<not> ws_first QUOTE" "\<not> ws_last QUOTE" "is_ascii_digit c \<Longrightarrow> \<not> ws_first c" "is_ascii_digit c \<Longrightarrow> \<not> ws_last c"
  "\<not> ws_first (CHR ''-'')" "\<not> ws_last (CHR '':'')" "\<not> ws_last (CHR ''}'')" "\<not> ws_first (CHR ''['')" "\<not> ws_last (CHR '']'')"
  "is_ascii_alphanumeric c \<Longrightarrow> \<not> ws_first c" "is_ascii_alphanumeric c \<Longrightarrow> \<not> ws_last c"
  "\<not> ws_first (CHR ''_'')" "\<not> ws_last (CHR ''_'')" "\<not> ws_last (CHR ''.'')"
  by (auto simp: ws_first_def ws_last_def ws_chars_def is_ascii_digit_def is_ascii_alphanumeric_def is_ascii_alphabetic_def)

lemma trim_quoted: "trim (QUOTE # s @ [QUOTE]) = QUOTE # s @ [QUOTE]"
  by (rule trim_delimited) (simp_all add: ws_ASCII)

lemma parse_quoted_literal: "parse_string_literal (QUOTE # escape_string s @ [QUOTE]) = Ok s"
proof -
  have "find_closing_quote (QUOTE # escape_string s @ [QUOTE]) 0 = Some (Suc (length (escape_string s)))"
    using closing_quote_escape [of s "[]"] by (simp add: find_closing_quote_def)
  then show ?thesis by (simp add: parse_string_literal_def trim_quoted unescape_escape Let_def)
qed

lemma parse_quoted_token: "parse_primitive_token (QUOTE # escape_string s @ [QUOTE]) = Ok (PString s)"
  by (simp add: parse_primitive_token_def trim_quoted parse_quoted_literal Let_def)

lemma decimal_text_ends:
  assumes "ip \<noteq> []" "list_all is_ascii_digit ip" "list_all is_ascii_digit fp"
  shows "is_ascii_digit (hd (decimal_text ip fp))" "is_ascii_digit (last (decimal_text ip fp))" "decimal_text ip fp \<noteq> []"
  using assms by (auto simp: decimal_text_def list_all_iff hd_append)

text \<open>A number that the encoder writes.\<close>

definition number_text :: "string \<Rightarrow> bool" where
  "number_text t \<longleftrightarrow> (\<exists>s ip fp. t = (if s then ''-'' else []) @ decimal_text ip fp \<and> ip \<noteq> []
     \<and> list_all is_ascii_digit ip \<and> list_all is_ascii_digit fp \<and> (ip = ''0'' \<or> hd ip \<noteq> CHR ''0''))"

lemma number_textE:
  assumes "number_text t"
  obtains s ip fp where "t = (if s then ''-'' else []) @ decimal_text ip fp" "ip \<noteq> []"
    "list_all is_ascii_digit ip" "list_all is_ascii_digit fp" "ip = ''0'' \<or> hd ip \<noteq> CHR ''0''"
  using assms by (auto simp: number_text_def)

lemma format_number_text:
  assumes "prim_ok (PNumber x)"
  shows "number_text (format_number x)" "parse_f64 (format_number x) = Some x"
proof -
  have x: "f64_wf x" "is_finite x" "is_zero x \<Longrightarrow> x = F_zero" using assms by (auto simp: prim_ok_def)
  then have "\<not> is_nan x" by (cases x) auto
  show "number_text (format_number x)"
  proof (cases "is_zero x")
    case True
    have "number_text ''0''"
      unfolding number_text_def
      by (rule exI [of _ False], rule exI [of _ "''0''"], rule exI [of _ "[]"])
        (simp add: decimal_text_def is_ascii_digit_def)
    with True show ?thesis by (simp add: format_number_def)
  next
    case False
    then show ?thesis
      using f64_to_string_shape [OF x(1,2) False] \<open>\<not> is_nan x\<close> x(2) unfolding number_text_def
      by (metis format_number_def)
  qed
  show "parse_f64 (format_number x) = Some x"
  proof (cases "is_zero x")
    case True
    then have "x = F_Fin False 0 (-1074)" using x(3) by (simp add: F_zero_def)
    moreover from this have "format_number x = f64_to_string x" by (simp add: format_number_def)
    ultimately show ?thesis using f64_to_string_reads_back [OF x(1,2)] by simp
  next
    case False
    then show ?thesis
      using f64_to_string_reads_back [OF x(1,2)] \<open>\<not> is_nan x\<close> x(2) by (simp add: format_number_def)
  qed
qed

lemma number_text_chars:
  assumes "number_text t" "c \<in> set t"
  shows "is_ascii_digit c \<or> c = CHR ''-'' \<or> c = CHR ''.''"
  using assms by (elim number_textE) (auto simp: decimal_text_def list_all_iff split: if_splits)

lemma number_text_ends:
  assumes "number_text t"
  shows "t \<noteq> []" "hd t = CHR ''-'' \<or> is_ascii_digit (hd t)" "is_ascii_digit (last t)"
  using assms by (elim number_textE, auto simp: decimal_text_ends)+

lemma number_text_trim: "number_text t \<Longrightarrow> trim t = t"
  using number_text_ends [of t] by (intro trim_ends) (auto simp: ws_ASCII)

lemma number_text_literal:
  assumes "number_text t" "parse_f64 t = Some x" "is_finite x"
  shows "is_numeric_literal t"
proof -
  obtain s ip fp where t: "t = (if s then ''-'' else []) @ decimal_text ip fp" "ip \<noteq> []"
    "list_all is_ascii_digit ip" "list_all is_ascii_digit fp" "ip = ''0'' \<or> hd ip \<noteq> CHR ''0''"
    using assms(1) by (rule number_textE)
  let ?t = "if fp = [] then [] else CHR ''.'' # fp"
  have d: "take_digits (decimal_text ip fp) = ip \<and> drop_digits (decimal_text ip fp) = ?t"
    unfolding decimal_text_def by (rule take_digits_all [OF t(3)]) (auto simp: is_ascii_digit_def)
  have "hd (decimal_text ip fp) \<noteq> CHR ''-''"
    using decimal_text_ends(1) [OF t(2,3,4)] by (auto simp: is_ascii_digit_def)
  then have m: "strip_minus t = decimal_text ip fp"
    using decimal_text_ends(3) [OF t(2,3,4)] t(1) by (auto simp: strip_minus_def split: list.splits)
  have f: "fraction_ok ?t"
    using take_digits_all [OF t(4), of "[]"] by (auto simp: fraction_ok_def exponent_ok_def)
  show ?thesis
    using t(2,5) d m f assms number_text_trim [OF assms(1)]
    by (auto simp: is_numeric_literal_def Let_def)
qed

lemma parse_number_token:
  assumes "prim_ok (PNumber x)"
  shows "parse_primitive_token (format_number x) = Ok (PNumber x)"
proof -
  note n = format_number_text [OF assms]
  have x: "is_finite x" "is_zero x \<and> is_sign_negative x \<Longrightarrow> x = F_zero"
    using assms by (auto simp: prim_ok_def F_zero_def)
  have "\<not> prefix [QUOTE] (format_number x)" "\<not> is_boolean_or_null_literal (format_number x)"
    using number_text_ends [OF n(1)]
    by (auto simp: is_boolean_or_null_literal_def is_ascii_digit_def prefix_def)
  then show ?thesis
    using number_text_trim [OF n(1)] number_text_ends(1) [OF n(1)] number_text_literal [OF n x(1)] n(2) x(2)
    by (auto simp: parse_primitive_token_def Let_def)
qed

lemma parse_encode_primitive:
  assumes "prim_ok p"
  shows "parse_primitive_token (encode_primitive p d) = Ok p"
proof (cases p)
  case (PString s)
  show ?thesis
  proof (cases "is_safe_unquoted s d")
    case True
    then have "trim s = s" "s \<noteq> []" "\<not> is_boolean_or_null_literal s" "\<not> is_numeric_literal s" "\<not> prefix [QUOTE] s"
      using numeric_literal_like [of s] by (auto simp: is_safe_unquoted_def prefix_def)
    with PString True show ?thesis
      by (simp add: encode_primitive_def encode_string_literal_def parse_primitive_token_def Let_def)
  next
    case False
    with PString show ?thesis
      by (simp add: encode_primitive_def encode_string_literal_def parse_quoted_token)
  qed
next
  case (PNumber x)
  with assms show ?thesis by (simp add: encode_primitive_def parse_number_token)
next
  case (PBool b)
  have "parse_primitive_token ''true'' = Ok (PBool True)" "parse_primitive_token ''false'' = Ok (PBool False)"
    by code_simp+
  with PBool show ?thesis by (simp add: encode_primitive_def)
next
  case PNull
  have "parse_primitive_token ''null'' = Ok PNull" by code_simp
  with PNull show ?thesis by (simp add: encode_primitive_def)
qed

section \<open>Rows\<close>

text \<open>A token that the splitter takes as a whole, whatever follows it.\<close>

definition closed_token :: "char \<Rightarrow> string \<Rightarrow> bool" where
  "closed_token d t \<longleftrightarrow> (\<forall>b vs r. delimited_loop d b False vs (t @ r) = delimited_loop d (b @ t) False vs r)"

lemma closed_plain: "QUOTE \<notin> set t \<Longrightarrow> d \<notin> set t \<Longrightarrow> closed_token d t"
  unfolding closed_token_def by (induction t) auto

lemma delimited_loop_escape:
  "d \<noteq> QUOTE \<Longrightarrow>
     delimited_loop d b True vs (escape_string s @ QUOTE # r) = delimited_loop d (b @ escape_string s @ [QUOTE]) False vs r"
proof (induction s arbitrary: b)
  case (Cons c s)
  show ?case by (rule escape_char_cases [of c]) (use Cons in auto)
qed simp

lemma closed_quoted: "d \<noteq> QUOTE \<Longrightarrow> closed_token d (QUOTE # escape_string s @ [QUOTE])"
  by (simp add: closed_token_def delimited_loop_escape)

lemma delim_ok_cases: "delim_ok d \<Longrightarrow> d \<noteq> QUOTE \<and> d \<noteq> BACKSLASH \<and> \<not> is_ascii_alphanumeric d \<and> \<not> is_ascii_digit d
    \<and> d \<noteq> CHR ''_'' \<and> d \<noteq> CHR ''.'' \<and> d \<noteq> CHR ''-'' \<and> d \<noteq> CHR '']'' \<and> d \<noteq> CHR ''['' \<and> d \<noteq> CHR ''}'' \<and> d \<noteq> CHR '':''"
  by (auto simp: delim_ok_def is_ascii_alphanumeric_def is_ascii_alphabetic_def is_ascii_digit_def)

lemma primitive_token_closed:
  assumes "prim_ok p" "delim_ok d"
  shows "closed_token d (encode_primitive p d)"
proof (cases p)
  case (PString s)
  then show ?thesis
    using delim_ok_cases [OF assms(2)]
    by (auto simp: encode_primitive_def encode_string_literal_def closed_quoted is_safe_unquoted_def intro!: closed_plain)
next
  case (PNumber x)
  then have "number_text (format_number x)" using assms(1) by (simp add: format_number_text)
  then show ?thesis
    using PNumber delim_ok_cases [OF assms(2)]
    by (auto simp: encode_primitive_def is_ascii_digit_def dest: number_text_chars intro!: closed_plain)
qed (use assms(2) in \<open>auto simp: encode_primitive_def delim_ok_def intro!: closed_plain\<close>)

lemma literal_trim: "trim ''null'' = ''null''" "trim ''true'' = ''true''" "trim ''false'' = ''false''"
  by code_simp+

lemma primitive_token_trim: "prim_ok p \<Longrightarrow> trim (encode_primitive p d) = encode_primitive p d"
  using trim_quoted
  by (cases p) (auto simp: encode_primitive_def encode_string_literal_def is_safe_unquoted_def literal_trim
      number_text_trim format_number_text)

lemma primitive_token_neq_Nil: "prim_ok p \<Longrightarrow> encode_primitive p d \<noteq> []"
  by (cases p) (auto simp: encode_primitive_def encode_string_literal_def is_safe_unquoted_def number_text_ends
      format_number_text)

lemma delimited_loop_join:
  assumes "toks \<noteq> []" "\<forall>t \<in> set toks. closed_token d t \<and> trim t = t" "d \<noteq> QUOTE"
  shows "delimited_loop d [] False vs (join [d] toks) = (vs @ butlast toks, last toks)"
  using assms
proof (induction toks arbitrary: vs)
  case (Cons t toks)
  have t: "delimited_loop d [] False vs (t @ r) = delimited_loop d t False vs r" for r
    using Cons.prems(2) by (simp add: closed_token_def)
  show ?case
  proof (cases "toks = []")
    case True
    then show ?thesis using t [of "[]"] by simp
  next
    case False
    with Cons show ?thesis using t by (simp add: join_Cons)
  qed
qed simp

lemma parse_delimited_join:
  assumes "toks \<noteq> []" "\<forall>t \<in> set toks. closed_token d t \<and> trim t = t \<and> t \<noteq> []" "d \<noteq> QUOTE"
  shows "parse_delimited_values (join [d] toks) d = toks"
  using delimited_loop_join [of toks d "[]"] assms
  by (auto simp: parse_delimited_values_def)

lemma row_round_trip:
  assumes "ps \<noteq> []" "\<forall>p \<in> set ps. prim_ok p" "delim_ok d"
  shows "parse_delimited_values (encode_and_join_primitives ps d) d = map (\<lambda>p. encode_primitive p d) ps"
    and "map_row_values_to_primitives (map (\<lambda>p. encode_primitive p d) ps) = Ok ps"
proof -
  show "parse_delimited_values (encode_and_join_primitives ps d) d = map (\<lambda>p. encode_primitive p d) ps"
    unfolding encode_and_join_primitives_def
    using assms delim_ok_cases [OF assms(3)]
    by (intro parse_delimited_join) (auto simp: primitive_token_closed primitive_token_trim primitive_token_neq_Nil)
  show "map_row_values_to_primitives (map (\<lambda>p. encode_primitive p d) ps) = Ok ps"
    unfolding map_row_values_to_primitives_def
    using assms(2) by (induction ps) (auto simp: parse_encode_primitive)
qed

section \<open>Keys\<close>

lemma key_chars:
  assumes "is_valid_unquoted_key k"
  shows "k \<noteq> []" "c \<in> set k \<Longrightarrow> is_ascii_alphanumeric c \<or> c = CHR ''_'' \<or> c = CHR ''.''"
    "is_ascii_alphanumeric (hd k) \<or> hd k = CHR ''_''"
  using assms by (auto simp: is_valid_unquoted_key_def list_all_iff is_ascii_alphanumeric_def split: list.splits)

lemma key_no_special:
  assumes "is_valid_unquoted_key k" "c \<in> {QUOTE, BACKSLASH, CHR ''['', CHR '']'', CHR ''{'', CHR ''}'', CHR '':'', CHR '','', CHR ''|'', TAB, NEWLINE, SPACE, CHR ''-''}"
  shows "c \<notin> set k"
  using key_chars(2) [OF assms(1), of c] assms(2)
  by (auto simp: is_ascii_alphanumeric_def is_ascii_alphabetic_def is_ascii_digit_def)

lemma key_trim: "is_valid_unquoted_key k \<Longrightarrow> trim k = k"
  using key_chars(1,3) [of k] key_chars(2) [of k "last k"] last_in_set [of k]
  by (intro trim_ends) (auto simp: ws_ASCII)

lemma encode_key_token:
  assumes "delim_ok d"
  shows "closed_token d (encode_key k)" "trim (encode_key k) = encode_key k" "encode_key k \<noteq> []"
proof -
  show "closed_token d (encode_key k)"
  proof (cases "is_valid_unquoted_key k")
    case True
    have "d \<in> {CHR '','', TAB, CHR ''|''}" using assms by (simp add: delim_ok_def)
    then have "QUOTE \<notin> set k" "d \<notin> set k" using key_no_special [OF True] by blast+
    with True show ?thesis by (simp add: encode_key_def closed_plain)
  next
    case False
    then show ?thesis using delim_ok_cases [OF assms] by (simp add: encode_key_def closed_quoted)
  qed
  show "trim (encode_key k) = encode_key k" "encode_key k \<noteq> []"
    using trim_quoted by (auto simp: encode_key_def key_trim key_chars(1))
qed

lemma parse_key_literal: "parse_string_literal (encode_key k) = Ok k"
  using key_no_special [of k QUOTE] key_trim [of k] parse_quoted_literal [of k]
  by (auto simp: encode_key_def parse_string_literal_def prefix_def)

lemma prefix_quote_key: "prefix [QUOTE] (encode_key k) \<longleftrightarrow> \<not> is_valid_unquoted_key k"
  using key_no_special [of k QUOTE] by (auto simp: encode_key_def prefix_def)

lemma parse_encode_key:
  "parse_key_token (encode_key k @ CHR '':'' # r) 0 = Ok (k, Suc (length (encode_key k)), \<not> is_valid_unquoted_key k)"
proof (cases "is_valid_unquoted_key k")
  case True
  have "CHR '':'' \<notin> set k" "QUOTE \<notin> set k" using key_no_special [OF True] by blast+
  then have "(k @ CHR '':'' # r) ! 0 \<noteq> QUOTE" "find_char (CHR '':'') (k @ CHR '':'' # r) = Some (length k)"
    using key_chars(1) [OF True] by (cases k, auto simp: find_char_first)+
  then show ?thesis
    using True
    by (simp add: encode_key_def parse_key_token_def parse_unquoted_key_def find_from_def key_trim [OF True] Let_def)
next
  case False
  then show ?thesis
    using closing_quote_escape [of k "CHR '':'' # r"]
    by (simp add: encode_key_def parse_key_token_def parse_quoted_key_def find_closing_quote_def unescape_escape
        nth_append Let_def)
qed

section \<open>Array headers\<close>

lemma find_from_append: "find_from c (xs @ ys) (length xs) = map_option (\<lambda>j. length xs + j) (find_char c ys)"
  by (simp add: find_from_def)

definition key_part :: "string option \<Rightarrow> string" where
  "key_part key = (case key of Some k \<Rightarrow> encode_key k | None \<Rightarrow> [])"

definition length_part :: "nat \<Rightarrow> char \<Rightarrow> string" where
  "length_part len d = show_nat len @ (if d = CHR '','' then [] else [d])"

definition field_part :: "string list option \<Rightarrow> char \<Rightarrow> string" where
  "field_part flds d = (case flds of Some fs \<Rightarrow> CHR ''{'' # join [d] (map encode_key fs) @ ''}'' | None \<Rightarrow> [])"

lemma format_header_parts:
  "format_header len key flds d = key_part key @ CHR ''['' # length_part len d @ CHR '']'' # field_part flds d @ '':''"
  by (simp add: format_header_def key_part_def length_part_def field_part_def split: option.splits)

lemma length_part_no_bracket: "delim_ok d \<Longrightarrow> CHR '']'' \<notin> set (length_part len d)"
  using show_nat_digits [of len] by (auto simp: length_part_def list_all_iff is_ascii_digit_def delim_ok_def)

lemma parse_length_part:
  assumes "delim_ok d" "len < 2 ^ 64"
  shows "parse_bracket_segment (length_part len d) (CHR '','') = Ok (len, d)"
proof -
  have l: "is_ascii_digit (last (show_nat len))"
    using show_nat_digits [of len] by (simp add: list_all_iff)
  then have "\<not> suffix [TAB] (show_nat len)" "\<not> suffix ''|'' (show_nat len)"
    by (auto simp: suffix_def is_ascii_digit_def)
  then show ?thesis
    using assms parse_u64_show_nat [of len]
    by (auto simp: parse_bracket_segment_def length_part_def delim_ok_def suffix_def)
qed

lemma key_part_bracket_start:
  "header_bracket_start (key_part key @ CHR ''['' # r) = Ok (Some (length (key_part key)))"
proof (cases key)
  case None
  then show ?thesis
    by (simp add: key_part_def header_bracket_start_def trim_start_Cons ws_ASCII)
next
  case (Some k)
  show ?thesis
  proof (cases "is_valid_unquoted_key k")
    case True
    have "QUOTE \<notin> set k" "CHR ''['' \<notin> set k" using key_no_special [OF True] by blast+
    then have "\<not> prefix [QUOTE] (k @ CHR ''['' # r)" using key_chars(1) [OF True] by (cases k) auto
    moreover have "trim_start (k @ CHR ''['' # r) = k @ CHR ''['' # r"
      using key_chars(1,3) [OF True] by (cases k) (auto simp: trim_start_Cons ws_ASCII)
    ultimately show ?thesis
      using Some True \<open>CHR ''['' \<notin> set k\<close>
      by (simp add: key_part_def encode_key_def header_bracket_start_def find_char_first)
  next
    case False
    let ?q = "QUOTE # escape_string k @ [QUOTE]"
    have "find_closing_quote (?q @ CHR ''['' # r) 0 = Some (Suc (length (escape_string k)))"
      using closing_quote_escape [of k "CHR ''['' # r"] by (simp add: find_closing_quote_def)
    moreover have "trim_start (?q @ CHR ''['' # r) = ?q @ CHR ''['' # r"
      by (simp add: trim_start_Cons ws_ASCII)
    moreover have "find_from (CHR ''['') (?q @ CHR ''['' # r) (length ?q) = Some (length ?q)"
      by (simp only: find_from_append) simp
    ultimately show ?thesis
      using Some False by (simp add: key_part_def encode_key_def header_bracket_start_def)
  qed
qed

definition key_quoted :: "string option \<Rightarrow> bool" where
  "key_quoted key = (case key of Some k \<Rightarrow> \<not> is_valid_unquoted_key k | None \<Rightarrow> False)"

lemma parse_key_part: "header_key (key_part key @ r) (length (key_part key)) = Ok (key, key_quoted key)"
proof (cases key)
  case (Some k)
  have "trim (encode_key k) = encode_key k" "encode_key k \<noteq> []"
    using encode_key_token(2,3) [of "CHR '',''"] by (simp_all add: delim_ok_def)
  then show ?thesis
    using Some parse_key_literal [of k] prefix_quote_key [of k]
    by (auto simp: key_part_def header_key_def key_quoted_def Let_def encode_key_def)
qed (simp add: key_part_def header_key_def key_quoted_def)

definition field_names :: "string list \<Rightarrow> FieldName list" where
  "field_names fs = map (\<lambda>f. \<lparr>fn_name = f, fn_was_quoted = \<not> is_valid_unquoted_key f\<rparr>) fs"

lemma escape_string_keeps: "c \<notin> {BACKSLASH, QUOTE, CHR ''n'', CHR ''r'', CHR ''t''} \<Longrightarrow> c \<notin> set s \<Longrightarrow> c \<notin> set (escape_string s)"
  by (induction s) (auto simp: escape_char_def)

lemma encode_key_no_brace: "CHR ''}'' \<notin> set k \<Longrightarrow> CHR ''}'' \<notin> set (encode_key k)"
  by (simp add: encode_key_def escape_string_keeps)

lemma parse_fields:
  assumes "fs \<noteq> []" "delim_ok d"
  shows "try_map parse_field (parse_delimited_values (join [d] (map encode_key fs)) d) = Ok (field_names fs)"
proof -
  have "parse_delimited_values (join [d] (map encode_key fs)) d = map encode_key fs"
    using assms delim_ok_cases [OF assms(2)]
    by (intro parse_delimited_join) (auto simp: encode_key_token)
  moreover have "try_map parse_field (map encode_key fs) = Ok (field_names fs)"
    using encode_key_token(2) [OF assms(2)]
    by (induction fs) (auto simp: parse_field_def field_names_def parse_key_literal prefix_quote_key Let_def)
  ultimately show ?thesis by simp
qed

lemma join_no_char: "c \<notin> set sep \<Longrightarrow> (\<forall>x \<in> set xs. c \<notin> set x) \<Longrightarrow> c \<notin> set (join sep xs)"
proof (induction xs)
  case (Cons x xs)
  then show ?case by (cases "xs = []") (auto simp: join_Cons)
qed simp

text \<open>
  The header as the decoder reads it back: the key and whether it was quoted, the length, the
  delimiter, the fields, and what follows the colon.
\<close>

definition header_of :: "nat \<Rightarrow> string option \<Rightarrow> string list option \<Rightarrow> char \<Rightarrow> ArrayHeaderInfo" where
  "header_of len key flds d =
     \<lparr>ah_key = key, ah_key_was_quoted = key_quoted key, ah_length = len, ah_delimiter = d,
      ah_fields = map_option field_names flds\<rparr>"

definition front_part :: "string option \<Rightarrow> nat \<Rightarrow> char \<Rightarrow> string" where
  "front_part key len d = key_part key @ CHR ''['' # length_part len d @ '']''"

lemma header_front:
  assumes "delim_ok d"
  shows "header_bracket_start (front_part key len d @ r) = Ok (Some (length (key_part key)))"
    and "find_from (CHR '']'') (front_part key len d @ r) (length (key_part key)) = Some (length (front_part key len d) - 1)"
    and "header_key (front_part key len d @ r) (length (key_part key)) = Ok (key, key_quoted key)"
    and "take (length (front_part key len d) - 1 - (length (key_part key) + 1))
           (drop (length (key_part key) + 1) (front_part key len d @ r)) = length_part len d"
    and "front_part key len d \<noteq> []"
proof -
  show "header_bracket_start (front_part key len d @ r) = Ok (Some (length (key_part key)))"
    using key_part_bracket_start by (simp add: front_part_def)
  have "find_from (CHR '']'') (key_part key @ CHR ''['' # length_part len d @ CHR '']'' # r) (length (key_part key))
      = Some (length (key_part key) + Suc (length (length_part len d)))"
    unfolding find_from_append using length_part_no_bracket [OF assms] by (simp add: find_char_first)
  then show "find_from (CHR '']'') (front_part key len d @ r) (length (key_part key)) = Some (length (front_part key len d) - 1)"
    by (simp add: front_part_def)
  show "header_key (front_part key len d @ r) (length (key_part key)) = Ok (key, key_quoted key)"
    using parse_key_part by (simp add: front_part_def)
qed (simp_all add: front_part_def)

lemma header_back_plain:
  assumes "X \<noteq> []"
  shows "find_from (CHR '':'') (X @ '':'' @ r) (length X) = Some (length X)"
    and "find_from (CHR ''{'') (X @ '':'' @ r) (length X) = Some b \<Longrightarrow> length X < b"
  by (auto simp: find_from_append)

lemma header_back_fields:
  assumes "CHR ''}'' \<notin> set J"
  shows "find_from (CHR ''{'') (X @ ''{'' @ J @ ''}:'' @ r) (length X) = Some (length X)"
    and "\<exists>c. find_from (CHR '':'') (X @ ''{'' @ J @ ''}:'' @ r) (length X) = Some c \<and> length X < c"
    and "find_from (CHR ''}'') (X @ ''{'' @ J @ ''}:'' @ r) (length X) = Some (length X + 1 + length J)"
    and "find_from (CHR '':'') (X @ ''{'' @ J @ ''}:'' @ r) (length X + 1 + length J + 1) = Some (length X + 1 + length J + 1)"
proof -
  show "find_from (CHR ''}'') (X @ ''{'' @ J @ ''}:'' @ r) (length X) = Some (length X + 1 + length J)"
    using assms by (simp add: find_from_append find_char_first)
  show "find_from (CHR '':'') (X @ ''{'' @ J @ ''}:'' @ r) (length X + 1 + length J + 1) = Some (length X + 1 + length J + 1)"
    using find_from_append [of "CHR '':''" "X @ ''{'' @ J @ ''}''" "'':'' @ r"] by simp
  obtain j where "find_char (CHR '':'') (J @ ''}:'' @ r) = Some j"
    by (cases "find_char (CHR '':'') (J @ ''}:'' @ r)") auto
  then show "\<exists>c. find_from (CHR '':'') (X @ ''{'' @ J @ ''}:'' @ r) (length X) = Some c \<and> length X < c"
    by (simp add: find_from_append)
qed (simp add: find_from_append)

lemma header_round_trip:
  assumes "delim_ok d" "len < 2 ^ 64" "\<forall>fs. flds = Some fs \<longrightarrow> fs \<noteq> [] \<and> (\<forall>f \<in> set fs. CHR ''}'' \<notin> set f)"
  shows "parse_array_header_line (format_header len key flds d @ r) (CHR '','') =
     Ok (Some \<lparr>hr_header = header_of len key flds d,
               hr_inline_values = (if trim r = [] then None else Some (trim r))\<rparr>)"
proof -
  let ?X = "front_part key len d"
  note front = header_front [OF assms(1), of key len] parse_length_part [OF assms(1,2)]
  show ?thesis
  proof (cases flds)
    case None
    have C: "format_header len key flds d @ r = ?X @ '':'' @ r"
      using None by (simp add: format_header_parts field_part_def front_part_def)
    note rear = header_back_plain [of ?X r]
    show ?thesis
      unfolding C parse_array_header_line_def front(1)
      using rear front(5,6) front(2-4) [of "'':'' @ r"] None
      by (auto simp: header_fields_def header_of_def Let_def split: option.splits)
  next
    case (Some fs)
    let ?J = "join [d] (map encode_key fs)"
    have fs: "fs \<noteq> []" "\<forall>f \<in> set fs. CHR ''}'' \<notin> set f" using assms(3) Some by simp_all
    have J: "CHR ''}'' \<notin> set ?J"
      using fs(2) delim_ok_cases [OF assms(1)] by (intro join_no_char) (auto simp: encode_key_no_brace)
    have C: "format_header len key flds d @ r = ?X @ ''{'' @ ?J @ ''}:'' @ r"
      using Some by (simp add: format_header_parts field_part_def front_part_def)
    obtain c where c: "find_from (CHR '':'') (?X @ ''{'' @ ?J @ ''}:'' @ r) (length ?X) = Some c" "length ?X < c"
      using header_back_fields(2) [OF J] by blast
    note rear = header_back_fields(1,3,4) [OF J, of ?X r]
    have seg: "take (length ?J) (drop (length ?X + 1) (?X @ ''{'' @ ?J @ ''}:'' @ r)) = ?J" by simp
    have fields: "header_fields (?X @ ''{'' @ ?J @ ''}:'' @ r) (Some (length ?X)) (length ?X + 1 + length ?J + 1) d
        = Ok (Some (field_names fs))"
      using seg parse_fields [OF fs(1) assms(1)] rear(2) by (simp add: header_fields_def)
    show ?thesis
      unfolding C parse_array_header_line_def front(1)
      using rear c front(5,6) front(2-4) [of "''{'' @ ?J @ ''}:'' @ r"] Some fields
      by (simp add: header_of_def Let_def numeral_3_eq_3)
  qed
qed

section \<open>Trimming of joined tokens\<close>

lemma ws_chars_long: "w \<in> set ws_chars \<Longrightarrow> 1 < length w \<Longrightarrow> c \<in> set w \<Longrightarrow> 128 \<le> byte c"
  by (auto simp: ws_chars_def)

lemma ws_prefix_append:
  assumes "w \<in> set ws_chars" "prefix w (t @ r)" "t \<noteq> []" "r = [] \<or> byte (hd r) < 128"
  shows "prefix w t"
proof (rule ccontr)
  assume n: "\<not> prefix w t"
  then obtain u where u: "w = t @ u" "prefix u r" "u \<noteq> []"
    using assms(2) by (metis append_Nil2 prefix_append prefix_order.refl)
  then have "hd r \<in> set w" "r \<noteq> []" by (cases u; cases r; auto)+
  moreover have "1 < length w" using u assms(3) by (cases t; cases u; auto)
  ultimately show False using ws_chars_long [OF assms(1)] assms(4) by fastforce
qed

lemma ws_suffix_append:
  assumes "w \<in> set ws_chars" "suffix w (r @ t)" "t \<noteq> []" "r = [] \<or> byte (last r) < 128"
  shows "suffix w t"
proof (rule ccontr)
  assume n: "\<not> suffix w t"
  then obtain u where u: "w = u @ t" "suffix u r" "u \<noteq> []"
    using assms(2) by (metis append_Nil suffix_append suffix_order.refl)
  then have "last r \<in> set w" "r \<noteq> []" by (auto simp: suffix_def)
  moreover have "1 < length w" using u assms(3) by (cases t; cases u; auto)
  ultimately show False using ws_chars_long [OF assms(1)] assms(4) by fastforce
qed

lemma trim_start_append:
  assumes "trim_start t = t" "t \<noteq> []" "r = [] \<or> byte (hd r) < 128"
  shows "trim_start (t @ r) = t @ r"
proof -
  have "\<not> prefix w t" if "w \<in> set ws_chars" for w
    using strip_words_stop [OF that ws_chars_nonempty [OF that], of t] assms(1) by (simp add: trim_start_def)
  then show ?thesis
    unfolding trim_start_def using ws_prefix_append [OF _ _ assms(2,3)] by (intro strip_words_none) blast
qed

lemma trim_end_append:
  assumes "trim_end t = t" "t \<noteq> []" "r = [] \<or> byte (last r) < 128"
  shows "trim_end (r @ t) = r @ t"
proof -
  have "\<not> suffix w t" if "w \<in> set ws_chars" for w
    using strip_words_stop [of "rev w" "map rev ws_chars" "rev t"] ws_chars_nonempty [OF that] that assms(1)
    by (auto simp: trim_end_def suffix_to_prefix rev_swap)
  then have "strip_words (map rev ws_chars) (rev (r @ t)) = rev (r @ t)"
    using ws_suffix_append [OF _ _ assms(2,3)] by (intro strip_words_none) (auto simp: suffix_to_prefix)
  then show ?thesis by (simp add: trim_end_def)
qed

lemma trim_join:
  assumes "toks \<noteq> []" "\<forall>t \<in> set toks. trim t = t \<and> t \<noteq> []" "byte d < 128"
  shows "trim (join [d] toks) = join [d] toks" "join [d] toks \<noteq> []"
proof -
  obtain t ts where t: "toks = t # ts" using assms(1) by (cases toks) auto
  have start: "\<exists>r. join [d] toks = t @ r \<and> (r = [] \<or> byte (hd r) < 128)"
    using t assms(3) by (cases "ts = []") (auto simp: join_Cons)
  have stop: "\<exists>r. join [d] xs = r @ last xs \<and> (r = [] \<or> byte (last r) < 128)" if "xs \<noteq> []" for xs
    using that
  proof (induction xs)
    case (Cons x xs)
    then show ?case using assms(3) by (cases "xs = []") (auto simp: join_Cons)
  qed simp
  have "last toks \<in> set toks" using assms(1) by simp
  with assms(2) t have tt: "trim_start t = t" "t \<noteq> []" "trim_end (last toks) = last toks" "last toks \<noteq> []"
    by (auto simp: trim_fixed_iff)
  have "trim_start (join [d] toks) = join [d] toks" using start trim_start_append [OF tt(1,2)] by metis
  moreover have "trim_end (join [d] toks) = join [d] toks"
    using stop [OF assms(1)] trim_end_append [OF tt(3,4)] by metis
  ultimately show "trim (join [d] toks) = join [d] toks" by (simp add: trim_fixed_iff)
  show "join [d] toks \<noteq> []" using start tt(2) by auto
qed

end
