(* ===== verification/Toon_Decode.thy ===== *)
theory Toon_Decode
  imports Toon_Parse
begin

text \<open>
  The decoders of \<open>toon_rust/src/decode\<close> (\<open>decoders.rs\<close>). The functions of the code call each other
  and loop over the lines of the cursor; here each takes fuel, and \<open>None\<close> means that it ran out.
  Five units per line that is left and five more are enough (\<open>decode_enough_fuel\<close>), so that
  \<open>decode_stream_sync\<close>, which starts with that much, always returns. The events that a function
  pushes are returned; after an error the code drops them.
\<close>

type_synonym 'a fueled = "(ToonError + 'a) option"

definition ret :: "'a \<Rightarrow> 'a fueled" where "ret x = Some (Ok x)"

definition seq :: "'a fueled \<Rightarrow> ('a \<Rightarrow> 'b fueled) \<Rightarrow> 'b fueled" where
  "seq m f = (case m of None \<Rightarrow> None | Some (Inl e) \<Rightarrow> Some (Err e) | Some (Inr x) \<Rightarrow> f x)"

abbreviation attempt :: "ToonError + 'a \<Rightarrow> ('a \<Rightarrow> 'b fueled) \<Rightarrow> 'b fueled" where
  "attempt m f \<equiv> seq (Some m) f"

lemma seq_simps [simp]:
  "seq (ret x) f = f x" "seq (Some (Ok x)) f = f x" "seq (Some (Err e)) f = Some (Err e)" "seq None f = None"
  by (simp_all add: seq_def ret_def)

record DecoderContext =
  dc_indent :: nat
  dc_strict :: bool

section \<open>Inline arrays and tables\<close>

definition decode_inline_primitive_array_sync ::
  "ArrayHeaderInfo \<Rightarrow> string \<Rightarrow> DecoderContext \<Rightarrow> ToonError + JsonStreamEvent list" where
  "decode_inline_primitive_array_sync header inline_values ctx =
     (if is_blank inline_values then
        and_then (assert_expected_count 0 (ah_length header) ''inline array items'' (dc_strict ctx)) (\<lambda>_. Ok [])
      else
        and_then (map_row_values_to_primitives (parse_delimited_values inline_values (ah_delimiter header)))
          (\<lambda>ps. and_then (assert_expected_count (length ps) (ah_length header) ''inline array items'' (dc_strict ctx))
            (\<lambda>_. Ok (map Primitive ps))))"

fun yield_fields :: "FieldName list \<Rightarrow> JsonPrimitive list \<Rightarrow> JsonStreamEvent list" where
  "yield_fields [] ps = []"
| "yield_fields (f # fs) [] = Key (fn_name f) (fn_was_quoted f) # Primitive PNull # yield_fields fs []"
| "yield_fields (f # fs) (p # ps) = Key (fn_name f) (fn_was_quoted f) # Primitive p # yield_fields fs ps"

definition yield_object_from_fields :: "FieldName list \<Rightarrow> JsonPrimitive list \<Rightarrow> JsonStreamEvent list" where
  "yield_object_from_fields fs ps = StartObject # yield_fields fs ps @ [EndObject]"

text \<open>
  The loop over the rows: \<open>n\<close> is how many rows are still expected. It returns the number of rows
  read and the numbers of the first and the last of their lines.
\<close>

definition decode_row :: "ArrayHeaderInfo \<Rightarrow> string \<Rightarrow> DecoderContext \<Rightarrow> ToonError + JsonStreamEvent list" where
  "decode_row header content ctx =
     (let values = parse_delimited_values content (ah_delimiter header) in
      and_then (ok_or (ah_fields header) (MessageError ''Tabular array is missing header fields''))
        (\<lambda>fs. and_then (assert_expected_count (length values) (length fs) ''tabular row values'' (dc_strict ctx))
          (\<lambda>_. and_then (map_row_values_to_primitives values)
            (\<lambda>ps. Ok (yield_object_from_fields fs ps)))))"

type_synonym loop_result = "JsonStreamEvent list \<times> StreamingLineCursor \<times> nat \<times> nat option \<times> nat option"

fun tabular_loop ::
  "nat \<Rightarrow> ArrayHeaderInfo \<Rightarrow> nat \<Rightarrow> DecoderContext \<Rightarrow> StreamingLineCursor \<Rightarrow> nat \<Rightarrow> nat option \<Rightarrow> nat option
    \<Rightarrow> ToonError + loop_result" where
  "tabular_loop 0 header row_depth ctx cur count start stop = Ok ([], cur, count, start, stop)"
| "tabular_loop (Suc n) header row_depth ctx cur count start stop =
     (case peek_sync cur of
        None \<Rightarrow> Ok ([], cur, count, start, stop)
      | Some line \<Rightarrow>
          if pl_depth line = row_depth then
            and_then (decode_row header (pl_content line) ctx)
              (\<lambda>evs. and_then (tabular_loop n header row_depth ctx (advance_sync cur) (count + 1)
                  (if start = None then Some (pl_line_number line) else start) (Some (pl_line_number line)))
                (\<lambda>(evs', r). Ok (evs @ evs', r)))
          else Ok ([], cur, count, start, stop))"

definition check_blank_range ::
  "DecoderContext \<Rightarrow> StreamingLineCursor \<Rightarrow> nat option \<Rightarrow> nat option \<Rightarrow> string \<Rightarrow> ToonError + unit" where
  "check_blank_range ctx cur start stop what =
     (if dc_strict ctx then
        (case (start, stop) of
           (Some s, Some e) \<Rightarrow>
             validate_no_blank_lines_in_range s e (cu_blank_lines cur) (dc_strict ctx) what
         | _ \<Rightarrow> Ok ())
      else Ok ())"

definition decode_tabular_array_sync ::
  "ArrayHeaderInfo \<Rightarrow> StreamingLineCursor \<Rightarrow> nat \<Rightarrow> DecoderContext
    \<Rightarrow> ToonError + JsonStreamEvent list \<times> StreamingLineCursor" where
  "decode_tabular_array_sync header cur base_depth ctx =
     (let row_depth = base_depth + 1 in
      and_then (tabular_loop (ah_length header) header row_depth ctx cur 0 None None)
        (\<lambda>(evs, cur', count, start, stop).
          and_then (assert_expected_count count (ah_length header) ''tabular rows'' (dc_strict ctx))
            (\<lambda>_. and_then (check_blank_range ctx cur' start stop ''tabular array'')
              (\<lambda>_. and_then (validate_no_extra_tabular_rows (peek_sync cur') row_depth header (dc_strict ctx))
                (\<lambda>_. Ok (evs, cur'))))))"

section \<open>The recursive decoders\<close>

definition is_list_item :: "ParsedLine \<Rightarrow> bool" where
  "is_list_item line \<longleftrightarrow> prefix ''- '' (pl_content line) \<or> pl_content line = ''-''"

text \<open>
  The body of each function, with the functions it calls as arguments, and the six functions tied
  together by the fuel.
\<close>

definition key_value_body ::
  "(StreamingLineCursor \<Rightarrow> nat \<Rightarrow> nat option \<Rightarrow> DecoderContext \<Rightarrow> (JsonStreamEvent list \<times> StreamingLineCursor) fueled)
    \<Rightarrow> (ArrayHeaderParseResult \<Rightarrow> StreamingLineCursor \<Rightarrow> nat \<Rightarrow> DecoderContext \<Rightarrow> (JsonStreamEvent list \<times> StreamingLineCursor) fueled) \<Rightarrow> string \<Rightarrow> StreamingLineCursor \<Rightarrow> nat \<Rightarrow> DecoderContext \<Rightarrow> (JsonStreamEvent list \<times> StreamingLineCursor) fueled" where
  "key_value_body object_fields array_from_header content cur base_depth ctx =
     attempt (parse_array_header_line content (CHR '',''))
       (\<lambda>header_info.
         case (case header_info of None \<Rightarrow> None
               | Some info \<Rightarrow> map_option (\<lambda>k. (k, info)) (ah_key (hr_header info))) of
           Some (key, info) \<Rightarrow>
             seq (array_from_header info cur base_depth ctx)
               (\<lambda>(evs, cur'). ret (Key key (ah_key_was_quoted (hr_header info)) # evs, cur'))
         | None \<Rightarrow>
             attempt (parse_key_token content 0)
               (\<lambda>(key, end', is_quoted).
                 let rest = trim (drop end' content) in
                 if rest = [] then
                   (if (case peek_sync cur of Some next \<Rightarrow> base_depth < pl_depth next | None \<Rightarrow> False) then
                      seq (object_fields cur (base_depth + 1) None ctx)
                        (\<lambda>(evs, cur'). ret (Key key is_quoted # StartObject # evs @ [EndObject], cur'))
                    else ret ([Key key is_quoted, StartObject, EndObject], cur))
                 else
                   attempt (parse_primitive_token rest)
                     (\<lambda>p. ret ([Key key is_quoted, Primitive p], cur))))"

definition object_fields_body ::
  "(string \<Rightarrow> StreamingLineCursor \<Rightarrow> nat \<Rightarrow> DecoderContext \<Rightarrow> (JsonStreamEvent list \<times> StreamingLineCursor) fueled)
    \<Rightarrow> (StreamingLineCursor \<Rightarrow> nat \<Rightarrow> nat option \<Rightarrow> DecoderContext \<Rightarrow> (JsonStreamEvent list \<times> StreamingLineCursor) fueled) \<Rightarrow> StreamingLineCursor \<Rightarrow> nat \<Rightarrow> nat option \<Rightarrow> DecoderContext \<Rightarrow> (JsonStreamEvent list \<times> StreamingLineCursor) fueled" where
  "object_fields_body key_value object_fields cur base_depth computed_depth ctx =
     (case peek_sync cur of
        None \<Rightarrow> ret ([], cur)
      | Some line \<Rightarrow>
          if pl_depth line < base_depth then ret ([], cur)
          else
            (let computed = (case computed_depth of Some d \<Rightarrow> d | None \<Rightarrow> pl_depth line) in
             if pl_depth line = computed then
               seq (key_value (pl_content line) (advance_sync cur) (pl_depth line) ctx)
                 (\<lambda>(evs, cur'). seq (object_fields cur' base_depth (Some computed) ctx)
                   (\<lambda>(evs', cur''). ret (evs @ evs', cur'')))
             else ret ([], cur)))"

definition array_body ::
  "(nat \<Rightarrow> nat \<Rightarrow> DecoderContext \<Rightarrow> StreamingLineCursor \<Rightarrow> nat \<Rightarrow> nat option \<Rightarrow> nat option \<Rightarrow> loop_result fueled) \<Rightarrow> ArrayHeaderParseResult \<Rightarrow> StreamingLineCursor \<Rightarrow> nat \<Rightarrow> DecoderContext \<Rightarrow> (JsonStreamEvent list \<times> StreamingLineCursor) fueled" where
  "array_body list_items info cur base_depth ctx =
     (let header = hr_header info in
      case hr_inline_values info of
        Some inline_values \<Rightarrow>
          attempt (decode_inline_primitive_array_sync header inline_values ctx)
            (\<lambda>evs. ret (StartArray (ah_length header) # evs @ [EndArray], cur))
      | None \<Rightarrow>
          if (case ah_fields header of Some fs \<Rightarrow> fs \<noteq> [] | None \<Rightarrow> False) then
            attempt (decode_tabular_array_sync header cur base_depth ctx)
              (\<lambda>(evs, cur'). ret (StartArray (ah_length header) # evs @ [EndArray], cur'))
          else
            seq (list_items (ah_length header) (base_depth + 1) ctx cur 0 None None)
              (\<lambda>(evs, cur', count, start, stop).
                attempt (assert_expected_count count (ah_length header) ''list array items'' (dc_strict ctx))
                  (\<lambda>_. attempt (check_blank_range ctx cur' start stop ''list array'')
                    (\<lambda>_. attempt (validate_no_extra_list_items (peek_sync cur') (base_depth + 1) (ah_length header)
                        (dc_strict ctx))
                      (\<lambda>_. ret (StartArray (ah_length header) # evs @ [EndArray], cur'))))))"

definition list_loop_body ::
  "(nat \<Rightarrow> nat \<Rightarrow> DecoderContext \<Rightarrow> StreamingLineCursor \<Rightarrow> nat \<Rightarrow> nat option \<Rightarrow> nat option \<Rightarrow> loop_result fueled)
    \<Rightarrow> (StreamingLineCursor \<Rightarrow> nat \<Rightarrow> DecoderContext \<Rightarrow> (JsonStreamEvent list \<times> StreamingLineCursor) fueled) \<Rightarrow> nat \<Rightarrow> nat \<Rightarrow> DecoderContext \<Rightarrow> StreamingLineCursor \<Rightarrow> nat \<Rightarrow> nat option \<Rightarrow> nat option \<Rightarrow> loop_result fueled" where
  "list_loop_body list_items list_item wanted item_depth ctx cur count start stop =
     (case peek_sync cur of
        None \<Rightarrow> ret ([], cur, count, start, stop)
      | Some line \<Rightarrow>
          if count < wanted \<and> pl_depth line = item_depth \<and> is_list_item line then
            seq (list_item cur item_depth ctx)
              (\<lambda>(evs, cur').
                let start' = (if start = None then Some (pl_line_number line) else start);
                    stop' = (case cu_last_line cur' of
                               Some l \<Rightarrow> Some (pl_line_number l) | None \<Rightarrow> Some (pl_line_number line))
                in seq (list_items wanted item_depth ctx cur' (count + 1) start' stop')
                     (\<lambda>(evs', r). ret (evs @ evs', r)))
          else ret ([], cur, count, start, stop))"

definition list_item_body ::
  "(string \<Rightarrow> StreamingLineCursor \<Rightarrow> nat \<Rightarrow> DecoderContext \<Rightarrow> (JsonStreamEvent list \<times> StreamingLineCursor) fueled)
    \<Rightarrow> (ArrayHeaderParseResult \<Rightarrow> StreamingLineCursor \<Rightarrow> nat \<Rightarrow> DecoderContext \<Rightarrow> (JsonStreamEvent list \<times> StreamingLineCursor) fueled)
    \<Rightarrow> (StreamingLineCursor \<Rightarrow> nat \<Rightarrow> DecoderContext \<Rightarrow> (JsonStreamEvent list \<times> StreamingLineCursor) fueled) \<Rightarrow> StreamingLineCursor \<Rightarrow> nat \<Rightarrow> DecoderContext \<Rightarrow> (JsonStreamEvent list \<times> StreamingLineCursor) fueled" where
  "list_item_body key_value array_from_header follow cur0 base_depth ctx =
     (case next_sync cur0 of
        (None, cur) \<Rightarrow> Some (Err (MessageError ''Expected list item''))
      | (Some line, cur) \<Rightarrow>
          if pl_content line = ''-'' then ret ([StartObject, EndObject], cur)
          else if \<not> prefix ''- '' (pl_content line) then
            Some (Err (MessageError (''Expected list item to start with '' @ [QUOTE] @ ''- '' @ [QUOTE])))
          else
            (let after_hyphen = drop 2 (pl_content line) in
             if is_blank after_hyphen then ret ([StartObject, EndObject], cur)
             else
               attempt (parse_array_header_line after_hyphen (CHR '',''))
                 (\<lambda>header_info.
                   case header_info of
                     Some info \<Rightarrow>
                       if is_array_header_content after_hyphen then
                         array_from_header info cur base_depth ctx
                       else if ah_key (hr_header info) \<noteq> None \<and> ah_fields (hr_header info) \<noteq> None then
                         seq (array_from_header info cur (base_depth + 1) ctx)
                           (\<lambda>(evs, cur'). seq (follow cur' (base_depth + 1) ctx)
                             (\<lambda>(evs', cur'').
                               ret (StartObject # Key (the (ah_key (hr_header info))) (ah_key_was_quoted (hr_header info))
                                 # evs @ evs' @ [EndObject], cur'')))
                       else if is_key_value_content after_hyphen then
                         seq (key_value after_hyphen cur (base_depth + 1) ctx)
                           (\<lambda>(evs, cur'). seq (follow cur' (base_depth + 1) ctx)
                             (\<lambda>(evs', cur''). ret (StartObject # evs @ evs' @ [EndObject], cur'')))
                       else attempt (parse_primitive_token after_hyphen) (\<lambda>p. ret ([Primitive p], cur))
                   | None \<Rightarrow>
                       if is_key_value_content after_hyphen then
                         seq (key_value after_hyphen cur (base_depth + 1) ctx)
                           (\<lambda>(evs, cur'). seq (follow cur' (base_depth + 1) ctx)
                             (\<lambda>(evs', cur''). ret (StartObject # evs @ evs' @ [EndObject], cur'')))
                       else attempt (parse_primitive_token after_hyphen) (\<lambda>p. ret ([Primitive p], cur)))))"

definition follow_body ::
  "(string \<Rightarrow> StreamingLineCursor \<Rightarrow> nat \<Rightarrow> DecoderContext \<Rightarrow> (JsonStreamEvent list \<times> StreamingLineCursor) fueled)
    \<Rightarrow> (StreamingLineCursor \<Rightarrow> nat \<Rightarrow> DecoderContext \<Rightarrow> (JsonStreamEvent list \<times> StreamingLineCursor) fueled) \<Rightarrow> StreamingLineCursor \<Rightarrow> nat \<Rightarrow> DecoderContext \<Rightarrow> (JsonStreamEvent list \<times> StreamingLineCursor) fueled" where
  "follow_body key_value follow cur follow_depth ctx =
     (case peek_sync cur of
        None \<Rightarrow> ret ([], cur)
      | Some line \<Rightarrow>
          if pl_depth line = follow_depth \<and> \<not> prefix ''- '' (pl_content line) then
            seq (key_value (pl_content line) (advance_sync cur) follow_depth ctx)
              (\<lambda>(evs, cur'). seq (follow cur' follow_depth ctx)
                (\<lambda>(evs', cur''). ret (evs @ evs', cur'')))
          else ret ([], cur))"

function (sequential)
  decode_key_value_sync ::
    "nat \<Rightarrow> string \<Rightarrow> StreamingLineCursor \<Rightarrow> nat \<Rightarrow> DecoderContext \<Rightarrow> (JsonStreamEvent list \<times> StreamingLineCursor) fueled" and
  decode_object_fields_sync ::
    "nat \<Rightarrow> StreamingLineCursor \<Rightarrow> nat \<Rightarrow> nat option \<Rightarrow> DecoderContext \<Rightarrow> (JsonStreamEvent list \<times> StreamingLineCursor) fueled" and
  decode_array_from_header_sync ::
    "nat \<Rightarrow> ArrayHeaderParseResult \<Rightarrow> StreamingLineCursor \<Rightarrow> nat \<Rightarrow> DecoderContext \<Rightarrow> (JsonStreamEvent list \<times> StreamingLineCursor) fueled" and
  list_loop ::
    "nat \<Rightarrow> nat \<Rightarrow> nat \<Rightarrow> DecoderContext \<Rightarrow> StreamingLineCursor \<Rightarrow> nat \<Rightarrow> nat option \<Rightarrow> nat option \<Rightarrow> loop_result fueled" and
  decode_list_item_sync ::
    "nat \<Rightarrow> StreamingLineCursor \<Rightarrow> nat \<Rightarrow> DecoderContext \<Rightarrow> (JsonStreamEvent list \<times> StreamingLineCursor) fueled" and
  follow_fields ::
    "nat \<Rightarrow> StreamingLineCursor \<Rightarrow> nat \<Rightarrow> DecoderContext \<Rightarrow> (JsonStreamEvent list \<times> StreamingLineCursor) fueled" where
  "decode_key_value_sync 0 content cur base_depth ctx = None"
| "decode_key_value_sync (Suc n) content cur base_depth ctx =
     key_value_body (decode_object_fields_sync n) (decode_array_from_header_sync n) content cur base_depth ctx"
| "decode_object_fields_sync 0 cur base_depth computed_depth ctx = None"
| "decode_object_fields_sync (Suc n) cur base_depth computed_depth ctx =
     object_fields_body (decode_key_value_sync n) (decode_object_fields_sync n) cur base_depth computed_depth ctx"
| "decode_array_from_header_sync 0 info cur base_depth ctx = None"
| "decode_array_from_header_sync (Suc n) info cur base_depth ctx =
     array_body (list_loop n) info cur base_depth ctx"
| "list_loop 0 wanted item_depth ctx cur count start stop = None"
| "list_loop (Suc n) wanted item_depth ctx cur count start stop =
     list_loop_body (list_loop n) (decode_list_item_sync n) wanted item_depth ctx cur count start stop"
| "decode_list_item_sync 0 cur0 base_depth ctx = None"
| "decode_list_item_sync (Suc n) cur0 base_depth ctx =
     list_item_body (decode_key_value_sync n) (decode_array_from_header_sync n) (follow_fields n) cur0 base_depth ctx"
| "follow_fields 0 cur follow_depth ctx = None"
| "follow_fields (Suc n) cur follow_depth ctx =
     follow_body (decode_key_value_sync n) (follow_fields n) cur follow_depth ctx"
  by pat_completeness auto
termination
  by (relation "measure (\<lambda>x. case x of
        Inl (Inl (n, _)) \<Rightarrow> n
      | Inl (Inr (Inl (n, _))) \<Rightarrow> n
      | Inl (Inr (Inr (n, _))) \<Rightarrow> n
      | Inr (Inl (n, _)) \<Rightarrow> n
      | Inr (Inr (Inl (n, _))) \<Rightarrow> n
      | Inr (Inr (Inr (n, _))) \<Rightarrow> n)") simp_all

lemmas decoder_bodies = key_value_body_def object_fields_body_def array_body_def list_loop_body_def
  list_item_body_def follow_body_def

section \<open>The fuel is enough\<close>

text \<open>
  A call is fine when it has not run out of fuel and leaves at most \<open>k\<close> lines, \<open>g\<close> being where
  its result has the cursor.
\<close>

abbreviation left_count :: "StreamingLineCursor \<Rightarrow> nat" where "left_count c \<equiv> length (lines_left c)"

definition fine :: "('a \<Rightarrow> StreamingLineCursor) \<Rightarrow> nat \<Rightarrow> 'a fueled \<Rightarrow> bool" where
  "fine g k res \<longleftrightarrow> res \<noteq> None \<and> (\<forall>x. res = Some (Ok x) \<longrightarrow> left_count (g x) \<le> k)"

lemma fine_ret: "left_count (g x) \<le> k \<Longrightarrow> fine g k (ret x)"
  by (simp add: fine_def ret_def)

lemma fine_Err: "fine g k (Some (Err e))"
  by (simp add: fine_def)

lemma fine_seq:
  "fine g' k' m \<Longrightarrow> (\<And>x. left_count (g' x) \<le> k' \<Longrightarrow> fine g k (f x)) \<Longrightarrow> fine g k (seq m f)"
  by (auto simp: fine_def seq_def split: option.splits sum.splits)

lemma fine_attempt: "(\<And>x. m = Ok x \<Longrightarrow> fine g k (f x)) \<Longrightarrow> fine g k (attempt m f)"
  by (cases m) (auto simp: fine_Err)

lemma fine_mono: "fine g k m \<Longrightarrow> k \<le> k' \<Longrightarrow> fine g k' m"
  by (auto simp: fine_def)

lemma tabular_loop_left:
  "tabular_loop n header d ctx cur count start stop = Ok (evs, cur', r) \<Longrightarrow> left_count cur' \<le> left_count cur"
proof (induction n arbitrary: cur count start stop evs)
  case (Suc n)
  then show ?case
    using cursor.left_advance_le [of cur]
    by (fastforce split: option.splits if_splits dest: order.trans)
qed simp

lemma tabular_left:
  "decode_tabular_array_sync header cur d ctx = Ok (evs, cur') \<Longrightarrow> left_count cur' \<le> left_count cur"
  by (auto simp: decode_tabular_array_sync_def Let_def dest: tabular_loop_left)

text \<open>What is fine about each of the six functions at one amount of fuel.\<close>

definition all_fine :: "nat \<Rightarrow> bool" where
  "all_fine n \<longleftrightarrow>
     (\<forall>content cur d ctx. 5 * left_count cur + 5 \<le> n
        \<longrightarrow> fine snd (left_count cur) (decode_key_value_sync n content cur d ctx))
     \<and> (\<forall>cur d cd ctx. 5 * left_count cur + 4 \<le> n
        \<longrightarrow> fine snd (left_count cur) (decode_object_fields_sync n cur d cd ctx))
     \<and> (\<forall>info cur d ctx. 5 * left_count cur + 4 \<le> n
        \<longrightarrow> fine snd (left_count cur) (decode_array_from_header_sync n info cur d ctx))
     \<and> (\<forall>w d ctx cur count start stop. 5 * left_count cur + 3 \<le> n
        \<longrightarrow> fine (\<lambda>x. fst (snd x)) (left_count cur) (list_loop n w d ctx cur count start stop))
     \<and> (\<forall>cur d ctx. 5 * left_count cur + 2 \<le> n
        \<longrightarrow> fine snd (left_count cur - 1) (decode_list_item_sync n cur d ctx))
     \<and> (\<forall>cur d ctx. 5 * left_count cur + 3 \<le> n
        \<longrightarrow> fine snd (left_count cur) (follow_fields n cur d ctx))"

lemma all_fineD:
  assumes "all_fine n"
  shows "5 * left_count cur + 5 \<le> n \<Longrightarrow> fine snd (left_count cur) (decode_key_value_sync n content cur d ctx)"
    and "5 * left_count cur + 4 \<le> n \<Longrightarrow> fine snd (left_count cur) (decode_object_fields_sync n cur d cd ctx)"
    and "5 * left_count cur + 4 \<le> n \<Longrightarrow> fine snd (left_count cur) (decode_array_from_header_sync n info cur d ctx)"
    and "5 * left_count cur + 3 \<le> n \<Longrightarrow>
      fine (\<lambda>x. fst (snd x)) (left_count cur) (list_loop n w d ctx cur count start stop)"
    and "5 * left_count cur + 2 \<le> n \<Longrightarrow> fine snd (left_count cur - 1) (decode_list_item_sync n cur d ctx)"
    and "5 * left_count cur + 3 \<le> n \<Longrightarrow> fine snd (left_count cur) (follow_fields n cur d ctx)"
  using assms unfolding all_fine_def by simp_all

lemma peek_left_count: "peek_sync cur = Some line \<Longrightarrow> left_count cur = Suc (left_count (advance_sync cur))"
  by (auto simp: cursor.peek_Some_iff cursor.left_advance)

lemma fine_key_value:
  assumes ih: "all_fine n" and n: "5 * left_count cur + 5 \<le> Suc n"
  shows "fine snd (left_count cur) (decode_key_value_sync (Suc n) content cur d ctx)"
proof -
  have a: "fine snd (left_count cur) (decode_array_from_header_sync n info cur d ctx)" for info
    using n by (intro all_fineD(3) [OF ih]) simp
  have ob: "fine snd (left_count cur) (decode_object_fields_sync n cur (Suc d) None ctx)"
    using n by (intro all_fineD(2) [OF ih]) simp
  show ?thesis
    unfolding decode_key_value_sync.simps key_value_body_def Let_def
    by (auto intro!: fine_attempt fine_ret fine_seq [OF a] fine_seq [OF ob] split: option.splits)
qed

lemma fine_object_fields:
  assumes ih: "all_fine n" and n: "5 * left_count cur + 4 \<le> Suc n"
  shows "fine snd (left_count cur) (decode_object_fields_sync (Suc n) cur d cd ctx)"
proof (cases "peek_sync cur")
  case None
  then show ?thesis by (simp add: object_fields_body_def fine_ret)
next
  case (Some line)
  note pc = peek_left_count [OF Some]
  have kv: "fine snd (left_count (advance_sync cur))
      (decode_key_value_sync n (pl_content line) (advance_sync cur) (pl_depth line) ctx)"
    using n pc by (intro all_fineD(1) [OF ih]) simp
  have rest: "fine snd (left_count cur') (decode_object_fields_sync n cur' d cd' ctx)"
    if "left_count cur' \<le> left_count (advance_sync cur)" for cur' cd'
    using n pc that by (intro all_fineD(2) [OF ih]) simp
  show ?thesis
    unfolding decode_object_fields_sync.simps object_fields_body_def Some option.case Let_def
    using pc by (auto intro!: fine_ret fine_seq [OF kv] fine_seq [OF rest])
qed

lemma fine_array:
  assumes ih: "all_fine n" and n: "5 * left_count cur + 4 \<le> Suc n"
  shows "fine snd (left_count cur) (decode_array_from_header_sync (Suc n) info cur d ctx)"
proof -
  have l: "fine (\<lambda>x. fst (snd x)) (left_count cur) (list_loop n w d' ctx cur c s e)" for w d' c s e
    using n by (intro all_fineD(4) [OF ih]) simp
  show ?thesis
    unfolding decode_array_from_header_sync.simps array_body_def Let_def
    by (auto intro!: fine_attempt fine_ret fine_seq [OF l] dest: tabular_left split: option.splits)
qed

lemma fine_list_loop:
  assumes ih: "all_fine n" and n: "5 * left_count cur + 3 \<le> Suc n"
  shows "fine (\<lambda>x. fst (snd x)) (left_count cur) (list_loop (Suc n) w d ctx cur count start stop)"
proof (cases "peek_sync cur")
  case None
  then show ?thesis by (simp add: list_loop_body_def fine_ret)
next
  case (Some line)
  note pc = peek_left_count [OF Some]
  have item: "fine snd (left_count cur - 1) (decode_list_item_sync n cur d ctx)"
    using n by (intro all_fineD(5) [OF ih]) simp
  have rest: "fine (\<lambda>x. fst (snd x)) (left_count cur') (list_loop n w d' ctx cur' c s e)"
    if "left_count cur' \<le> left_count cur - 1" for cur' c s e d'
    using n pc that by (intro all_fineD(4) [OF ih]) simp
  show ?thesis
    unfolding list_loop.simps list_loop_body_def Some option.case Let_def
    using pc by (auto intro!: fine_ret fine_seq [OF item] fine_seq [OF rest])
qed

lemma fine_follow:
  assumes ih: "all_fine n" and n: "5 * left_count cur + 3 \<le> Suc n"
  shows "fine snd (left_count cur) (follow_fields (Suc n) cur d ctx)"
proof (cases "peek_sync cur")
  case None
  then show ?thesis by (simp add: follow_body_def fine_ret)
next
  case (Some line)
  note pc = peek_left_count [OF Some]
  have kv: "fine snd (left_count (advance_sync cur))
      (decode_key_value_sync n (pl_content line) (advance_sync cur) d ctx)"
    using n pc by (intro all_fineD(1) [OF ih]) simp
  have rest: "fine snd (left_count cur') (follow_fields n cur' d' ctx)"
    if "left_count cur' \<le> left_count (advance_sync cur)" for cur' d'
    using n pc that by (intro all_fineD(6) [OF ih]) simp
  show ?thesis
    unfolding follow_fields.simps follow_body_def Some option.case
    using pc by (auto intro!: fine_ret fine_seq [OF kv] fine_seq [OF rest])
qed

lemma fine_list_item:
  assumes ih: "all_fine n" and n: "5 * left_count cur + 2 \<le> Suc n"
  shows "fine snd (left_count cur - 1) (decode_list_item_sync (Suc n) cur d ctx)"
proof (cases "peek_sync cur")
  case None
  then show ?thesis by (simp add: list_item_body_def next_sync_eq fine_Err)
next
  case (Some line)
  note pc = peek_left_count [OF Some]
  let ?c = "advance_sync cur"
  have k: "left_count cur - 1 = left_count ?c" using pc by simp
  have kv: "fine snd (left_count ?c) (decode_key_value_sync n content ?c d' ctx)" for content d'
    using n pc by (intro all_fineD(1) [OF ih]) simp
  have ar: "fine snd (left_count ?c) (decode_array_from_header_sync n info ?c d' ctx)" for info d'
    using n pc by (intro all_fineD(3) [OF ih]) simp
  have fo: "fine snd (left_count cur') (follow_fields n cur' d' ctx)"
    if "left_count cur' \<le> left_count ?c" for cur' d'
    using n pc that by (intro all_fineD(6) [OF ih]) simp
  have kf: "fine snd (left_count ?c)
      (seq (decode_key_value_sync n content ?c d' ctx)
         (\<lambda>(evs, cur'). seq (follow_fields n cur' d' ctx) (\<lambda>(evs', cur''). ret (h evs evs', cur''))))"
    for content d' and h :: "JsonStreamEvent list \<Rightarrow> JsonStreamEvent list \<Rightarrow> JsonStreamEvent list"
    by (auto intro!: fine_seq [OF kv] fine_seq [OF fo] fine_ret)
  have af: "fine snd (left_count ?c)
      (seq (decode_array_from_header_sync n info ?c d' ctx)
         (\<lambda>(evs, cur'). seq (follow_fields n cur' d' ctx) (\<lambda>(evs', cur''). ret (h evs evs', cur''))))"
    for info d' and h :: "JsonStreamEvent list \<Rightarrow> JsonStreamEvent list \<Rightarrow> JsonStreamEvent list"
    by (auto intro!: fine_seq [OF ar] fine_seq [OF fo] fine_ret)
  show ?thesis
    unfolding decode_list_item_sync.simps list_item_body_def next_sync_eq Some prod.case option.case Let_def k
    by (auto intro!: fine_attempt fine_ret fine_Err ar
        kf [where h = "\<lambda>evs evs'. StartObject # evs @ evs' @ [EndObject]", simplified]
        af [where h = "\<lambda>evs evs'. StartObject # Key x y # evs @ evs' @ [EndObject]" for x y, simplified]
        split: option.splits)
qed

lemma decode_all_fine: "all_fine n"
proof (induction n)
  case 0
  show ?case by (simp add: all_fine_def)
next
  case (Suc n)
  show ?case
    unfolding all_fine_def [of "Suc n"]
    by (intro conjI allI impI fine_key_value [OF Suc] fine_object_fields [OF Suc] fine_array [OF Suc]
        fine_list_loop [OF Suc] fine_list_item [OF Suc] fine_follow [OF Suc])
qed

section \<open>The whole document\<close>

definition is_key_value_line_sync :: "ParsedLine \<Rightarrow> bool" where
  "is_key_value_line_sync line =
     (let content = pl_content line in
      if prefix [QUOTE] content then
        (case find_closing_quote content 0 of
           Some closing \<Rightarrow> CHR '':'' \<in> set (drop (closing + 1) content)
         | None \<Rightarrow> False)
      else CHR '':'' \<in> set content)"

text \<open>The loop of \<open>decode_stream_sync\<close> over the fields of the root object.\<close>

fun root_fields :: "nat \<Rightarrow> StreamingLineCursor \<Rightarrow> DecoderContext \<Rightarrow> (JsonStreamEvent list \<times> StreamingLineCursor) fueled" where
  "root_fields 0 cur ctx = None"
| "root_fields (Suc n) cur ctx =
     (if at_end_sync cur then ret ([], cur)
      else (case peek_sync cur of
              None \<Rightarrow> ret ([], cur)
            | Some line \<Rightarrow>
                if pl_depth line \<noteq> 0 then ret ([], cur)
                else
                  seq (decode_key_value_sync n (pl_content line) (advance_sync cur) 0 ctx)
                    (\<lambda>(evs, cur'). seq (root_fields n cur' ctx) (\<lambda>(evs', cur''). ret (evs @ evs', cur'')))))"

definition decode_root ::
  "nat \<Rightarrow> ParsedLine \<Rightarrow> StreamingLineCursor \<Rightarrow> DecoderContext \<Rightarrow> JsonStreamEvent list fueled" where
  "decode_root fuel first cur ctx =
     (if at_end_sync cur \<and> \<not> is_key_value_line_sync first then
        attempt (parse_primitive_token (trim (pl_content first))) (\<lambda>p. ret [Primitive p])
      else
        seq (decode_key_value_sync fuel (pl_content first) cur 0 ctx)
          (\<lambda>(evs, cur'). seq (root_fields fuel cur' ctx)
            (\<lambda>(evs', _). ret (StartObject # evs @ evs' @ [EndObject]))))"

definition decode_document :: "nat \<Rightarrow> StreamingLineCursor \<Rightarrow> DecoderContext \<Rightarrow> JsonStreamEvent list fueled" where
  "decode_document fuel cur ctx =
     (case peek_sync cur of
        None \<Rightarrow> ret [StartObject, EndObject]
      | Some first \<Rightarrow>
          if is_array_header_content (pl_content first) then
            attempt (parse_array_header_line (pl_content first) (CHR '',''))
              (\<lambda>header_info. case header_info of
                 Some info \<Rightarrow>
                   seq (decode_array_from_header_sync fuel info (advance_sync cur) 0 ctx)
                     (\<lambda>(evs, _). ret evs)
               | None \<Rightarrow> decode_root fuel first (advance_sync cur) ctx)
          else decode_root fuel first (advance_sync cur) ctx)"

definition decode_stream_sync ::
  "string list \<Rightarrow> DecodeStreamOptions option \<Rightarrow> JsonStreamEvent list fueled" where
  "decode_stream_sync source options =
     (let opts = (case options of Some x \<Rightarrow> x | None \<Rightarrow> \<lparr>ds_indent = None, ds_strict = None\<rparr>);
          ctx = \<lparr>dc_indent = (case ds_indent opts of Some x \<Rightarrow> x | None \<Rightarrow> 2),
                 dc_strict = (case ds_strict opts of Some x \<Rightarrow> x | None \<Rightarrow> True)\<rparr>
      in attempt (parse_lines_sync source (dc_indent ctx) (dc_strict ctx) create_scan_state)
           (\<lambda>(parsed, st). decode_document (5 * length source + 5) (new_cursor parsed (ss_blank_lines st)) ctx))"

lemma parse_lines_length:
  "parse_lines_sync source k strict st = Ok (parsed, st') \<Longrightarrow> length parsed \<le> length source"
  by (induction source k strict st arbitrary: parsed st' rule: parse_lines_sync.induct)
    (fastforce split: prod.splits option.splits)+

lemma left_new_cursor: "lines_left (new_cursor parsed blanks) = parsed"
  by (simp add: lines_left_def new_cursor_def)

lemma fine_root_fields:
  "5 * left_count cur + 5 \<le> n \<Longrightarrow> fine snd (left_count cur) (root_fields n cur ctx)"
proof (induction n arbitrary: cur)
  case (Suc n)
  show ?case
  proof (cases "peek_sync cur")
    case None
    then show ?thesis by (simp add: fine_ret)
  next
    case (Some line)
    note pc = peek_left_count [OF Some]
    have kv: "fine snd (left_count (advance_sync cur))
        (decode_key_value_sync n (pl_content line) (advance_sync cur) 0 ctx)"
      using Suc.prems pc by (intro all_fineD(1) [OF decode_all_fine]) simp
    have rest: "fine snd (left_count cur') (root_fields n cur' ctx)"
      if "left_count cur' \<le> left_count (advance_sync cur)" for cur'
      using Suc.prems pc that by (intro Suc.IH) simp
    show ?thesis
      unfolding root_fields.simps Some option.case
      using pc by (auto intro!: fine_ret fine_seq [OF kv] fine_seq [OF rest])
  qed
qed simp

definition returns :: "'a option \<Rightarrow> bool" where
  "returns res \<longleftrightarrow> res \<noteq> None"

lemma returns_ret [simp]: "returns (ret x)" "returns (Some x)"
  by (simp_all add: returns_def ret_def)

lemma returns_seq: "fine g k m \<Longrightarrow> (\<And>x. left_count (g x) \<le> k \<Longrightarrow> returns (f x)) \<Longrightarrow> returns (seq m f)"
  by (auto simp: fine_def returns_def seq_def split: option.splits sum.splits)

lemma returns_attempt: "(\<And>x. m = Ok x \<Longrightarrow> returns (f x)) \<Longrightarrow> returns (attempt m f)"
  by (cases m) (auto simp: returns_def)

lemma returns_decode_root:
  assumes n: "5 * left_count cur + 5 \<le> n"
  shows "returns (decode_root n first cur ctx)"
proof -
  have kv: "fine snd (left_count cur) (decode_key_value_sync n (pl_content first) cur 0 ctx)"
    using n by (rule all_fineD(1) [OF decode_all_fine])
  have rest: "fine snd (left_count cur') (root_fields n cur' ctx)" if "left_count cur' \<le> left_count cur" for cur'
    using n that by (intro fine_root_fields) simp
  show ?thesis
    unfolding decode_root_def by (auto intro!: returns_attempt returns_seq [OF kv] returns_seq [OF rest])
qed

lemma returns_decode_document:
  assumes n: "5 * left_count cur + 5 \<le> n"
  shows "returns (decode_document n cur ctx)"
proof -
  let ?c = "advance_sync cur"
  have le: "5 * left_count ?c + 5 \<le> n"
    using n cursor.left_advance_le [of cur] by simp
  have ar: "fine snd (left_count ?c) (decode_array_from_header_sync n info ?c 0 ctx)" for info
    using le by (intro all_fineD(3) [OF decode_all_fine]) simp
  show ?thesis
    unfolding decode_document_def
    by (auto intro!: returns_attempt returns_seq [OF ar] returns_decode_root [OF le] split: option.splits)
qed

text \<open>
  C40: the decoder of TOON always comes back: whatever lines it is given and whatever its options,
  \<open>decode_stream_sync\<close> returns the events or an error; five units of fuel per line and five more
  are enough for the functions that call each other.
\<close>

theorem decode_always_returns: "\<exists>result. decode_stream_sync source options = Some result"
proof -
  have "returns (decode_stream_sync source options)"
    unfolding decode_stream_sync_def Let_def
    by (auto intro!: returns_attempt returns_decode_document dest!: parse_lines_length simp: left_new_cursor)
  then show ?thesis by (simp add: returns_def)
qed

end
