(* ===== verification/Toon_Build.thy ===== *)
theory Toon_Build
  imports Toon_Encode Toon_Decode
begin

text \<open>
  From events to values (\<open>toon_rust/src/decode/event_builder.rs\<close>), the expansion of dotted keys
  (\<open>decode/expand.rs\<close>) and the entry points of \<open>decode/mod.rs\<close> and \<open>lib.rs\<close>. An object node carries
  the set of its keys that were written in quotes, which are never expanded. Shown here: the events
  of a value build that value again, expansion undoes key folding, and two texts that the codec
  reads in another way than they were written.
\<close>

section \<open>The event builder\<close>

datatype NodeValue =
    NodePrimitive JsonPrimitive
  | NodeArray "NodeValue list"
  | NodeObject "(string \<times> NodeValue) list" "string set"

datatype BuildContext =
    ObjectContext "(string \<times> NodeValue) list" "string option" "string set"
  | ArrayContext "NodeValue list"

text \<open>The stack has its top first.\<close>

record BuildState =
  bs_stack :: "BuildContext list"
  bs_root :: "NodeValue option"

text \<open>What the code does with a finished node: into the parent, or the root.\<close>

definition push_node :: "string \<Rightarrow> NodeValue \<Rightarrow> BuildState \<Rightarrow> ToonError + BuildState" where
  "push_node what node st =
     (case bs_stack st of
        [] \<Rightarrow> Ok (st\<lparr>bs_root := Some node\<rparr>)
      | ObjectContext es (Some key) q # rest \<Rightarrow>
          Ok (st\<lparr>bs_stack := ObjectContext (es @ [(key, node)]) None q # rest\<rparr>)
      | ObjectContext es None q # rest \<Rightarrow> Err (MessageError what)
      | ArrayContext items # rest \<Rightarrow> Ok (st\<lparr>bs_stack := ArrayContext (items @ [node]) # rest\<rparr>))"

definition apply_event :: "JsonStreamEvent \<Rightarrow> BuildState \<Rightarrow> ToonError + BuildState" where
  "apply_event event st =
     (case event of
        StartObject \<Rightarrow> Ok (st\<lparr>bs_stack := ObjectContext [] None {} # bs_stack st\<rparr>)
      | EndObject \<Rightarrow>
          (case bs_stack st of
             [] \<Rightarrow> Err (unexpected_event ''endObject'' ''with empty stack'')
           | ArrayContext _ # rest \<Rightarrow> Err (mismatched_end ''Object'' ''Array'')
           | ObjectContext es _ q # rest \<Rightarrow>
               push_node ''Object endObject event without preceding key'' (NodeObject es q) (st\<lparr>bs_stack := rest\<rparr>))
      | StartArray _ \<Rightarrow> Ok (st\<lparr>bs_stack := ArrayContext [] # bs_stack st\<rparr>)
      | EndArray \<Rightarrow>
          (case bs_stack st of
             [] \<Rightarrow> Err (unexpected_event ''endArray'' ''with empty stack'')
           | ObjectContext _ _ _ # rest \<Rightarrow> Err (mismatched_end ''Array'' ''Object'')
           | ArrayContext items # rest \<Rightarrow>
               push_node ''Array endArray event without preceding key'' (NodeArray items) (st\<lparr>bs_stack := rest\<rparr>))
      | Key key was_quoted \<Rightarrow>
          (case bs_stack st of
             ObjectContext es _ q # rest \<Rightarrow>
               Ok (st\<lparr>bs_stack := ObjectContext es (Some key) (if was_quoted then insert key q else q) # rest\<rparr>)
           | _ \<Rightarrow> Err (unexpected_event ''Key'' ''outside of object context''))
      | Primitive value \<Rightarrow>
          push_node ''Primitive event without preceding key in object'' (NodePrimitive value) st)"

definition finalize_state :: "BuildState \<Rightarrow> ToonError + NodeValue" where
  "finalize_state st =
     (if bs_stack st \<noteq> [] then Err (EventStreamError ''Incomplete event stream: stack not empty at end'')
      else ok_or (bs_root st) (EventStreamError ''No root value built from events''))"

definition build_node_from_events :: "JsonStreamEvent list \<Rightarrow> ToonError + NodeValue" where
  "build_node_from_events events =
     and_then (try_fold apply_event events \<lparr>bs_stack = [], bs_root = None\<rparr>) finalize_state"

fun node_to_json :: "NodeValue \<Rightarrow> JsonValue" where
  "node_to_json (NodePrimitive p) = VPrimitive p"
| "node_to_json (NodeArray items) = VArray (map node_to_json items)"
| "node_to_json (NodeObject es q) = VObject (map (\<lambda>e. (fst e, node_to_json (snd e))) es)"

section \<open>The expansion of dotted keys\<close>

fun find_entry_index :: "(string \<times> NodeValue) list \<Rightarrow> string \<Rightarrow> nat option" where
  "find_entry_index [] key = None"
| "find_entry_index (e # es) key = (if fst e = key then Some 0 else map_option Suc (find_entry_index es key))"

fun is_object_node :: "NodeValue \<Rightarrow> bool" where
  "is_object_node (NodeObject _ _) = True"
| "is_object_node _ = False"

definition can_merge :: "NodeValue \<Rightarrow> NodeValue \<Rightarrow> bool" where
  "can_merge left right \<longleftrightarrow> is_object_node left \<and> is_object_node right"

fun node_type_name :: "NodeValue \<Rightarrow> string" where
  "node_type_name (NodePrimitive _) = ''primitive''"
| "node_type_name (NodeArray _) = ''array''"
| "node_type_name (NodeObject _ _) = ''object''"

definition cannot_merge :: "string \<Rightarrow> NodeValue \<Rightarrow> NodeValue \<Rightarrow> ToonError" where
  "cannot_merge key left right =
     MessageError (''Path expansion conflict at key '' @ [QUOTE] @ key @ [QUOTE] @ '': cannot merge ''
       @ node_type_name left @ '' with '' @ node_type_name right)"

fun merge_objects ::
  "(string \<times> NodeValue) list \<Rightarrow> (string \<times> NodeValue) list \<Rightarrow> bool \<Rightarrow> ToonError + (string \<times> NodeValue) list" where
  "merge_objects target [] strict = Ok target"
| "merge_objects target ((key, value) # source) strict =
     (case find_entry_index target key of
        None \<Rightarrow> merge_objects (target @ [(key, value)]) source strict
      | Some i \<Rightarrow>
          (case (snd (target ! i), value) of
             (NodeObject es q, NodeObject ss _) \<Rightarrow>
               and_then (merge_objects es ss strict)
                 (\<lambda>es'. merge_objects (target[i := (key, NodeObject es' q)]) source strict)
           | (existing, _) \<Rightarrow>
               if strict then Err (cannot_merge key existing value)
               else merge_objects (target[i := (key, value)]) source strict))"

definition insert_literal_entry ::
  "(string \<times> NodeValue) list \<Rightarrow> string \<Rightarrow> NodeValue \<Rightarrow> bool \<Rightarrow> ToonError + (string \<times> NodeValue) list" where
  "insert_literal_entry entries key value strict =
     (case find_entry_index entries key of
        None \<Rightarrow> Ok (entries @ [(key, value)])
      | Some i \<Rightarrow>
          (case (snd (entries ! i), value) of
             (NodeObject es q, NodeObject ss _) \<Rightarrow>
               and_then (merge_objects es ss strict) (\<lambda>es'. Ok (entries[i := (key, NodeObject es' q)]))
           | (existing, _) \<Rightarrow>
               if strict then Err (cannot_merge key existing value) else Ok (entries[i := (key, value)])))"

fun insert_path_entries ::
  "(string \<times> NodeValue) list \<Rightarrow> string list \<Rightarrow> NodeValue \<Rightarrow> bool \<Rightarrow> ToonError + (string \<times> NodeValue) list" where
  "insert_path_entries entries [] value strict = Ok entries"
| "insert_path_entries entries [seg] value strict = insert_literal_entry entries seg value strict"
| "insert_path_entries entries (key # rest) value strict =
     (case find_entry_index entries key of
        Some i \<Rightarrow>
          (case snd (entries ! i) of
             NodeObject es q \<Rightarrow>
               and_then (insert_path_entries es rest value strict) (\<lambda>es'. Ok (entries[i := (key, NodeObject es' q)]))
           | existing \<Rightarrow>
               if strict then
                 Err (MessageError (''Path expansion conflict at segment '' @ [QUOTE] @ key @ [QUOTE]
                   @ '': expected object but found '' @ node_type_name existing))
               else and_then (insert_path_entries [] rest value strict) (\<lambda>es'. Ok (entries[i := (key, NodeObject es' {})])))
      | None \<Rightarrow>
          and_then (insert_path_entries [] rest value strict) (\<lambda>es'. Ok (entries @ [(key, NodeObject es' {})])))"

text \<open>The place of one entry of an object: along its path, or under the key as it stands.\<close>

definition expand_entry ::
  "string set \<Rightarrow> bool \<Rightarrow> (string \<times> NodeValue) list \<Rightarrow> string \<Rightarrow> NodeValue \<Rightarrow> ToonError + (string \<times> NodeValue) list" where
  "expand_entry quoted_keys strict expanded key value =
     (let segs = split_on (CHR ''.'') key in
      if CHR ''.'' \<in> set key \<and> key \<notin> quoted_keys \<and> list_all is_identifier_segment segs
      then insert_path_entries expanded segs value strict
      else insert_literal_entry expanded key value strict)"

fun expand_paths_safe :: "NodeValue \<Rightarrow> bool \<Rightarrow> ToonError + NodeValue"
  and expand_items :: "NodeValue list \<Rightarrow> bool \<Rightarrow> ToonError + NodeValue list"
  and expand_object ::
    "string set \<Rightarrow> (string \<times> NodeValue) list \<Rightarrow> (string \<times> NodeValue) list \<Rightarrow> bool
      \<Rightarrow> ToonError + (string \<times> NodeValue) list" where
  "expand_paths_safe (NodePrimitive p) strict = Ok (NodePrimitive p)"
| "expand_paths_safe (NodeArray items) strict = and_then (expand_items items strict) (\<lambda>xs. Ok (NodeArray xs))"
| "expand_paths_safe (NodeObject es q) strict = and_then (expand_object q [] es strict) (\<lambda>xs. Ok (NodeObject xs {}))"
| "expand_items [] strict = Ok []"
| "expand_items (x # xs) strict =
     and_then (expand_paths_safe x strict) (\<lambda>y. and_then (expand_items xs strict) (\<lambda>ys. Ok (y # ys)))"
| "expand_object q expanded [] strict = Ok expanded"
| "expand_object q expanded ((key, value) # es) strict =
     and_then (expand_paths_safe value strict)
       (\<lambda>v. and_then (expand_entry q strict expanded key v) (\<lambda>expanded'. expand_object q expanded' es strict))"

section \<open>The entry points\<close>

text \<open>
  \<open>try_decode_from_lines\<close> and \<open>try_decode\<close>, \<open>None\<close> being the fuel of the decoder, which
  \<open>decode_always_returns\<close> rules out; \<open>decode\<close> panics on an error.
\<close>

definition try_decode_from_lines :: "string list \<Rightarrow> DecodeOptions option \<Rightarrow> JsonValue fueled" where
  "try_decode_from_lines ls options =
     (let resolved = resolve_decode_options options in
      seq (decode_stream_sync ls (Some \<lparr>ds_indent = Some (rd_indent resolved), ds_strict = Some (rd_strict resolved)\<rparr>))
        (\<lambda>events. attempt (build_node_from_events events)
          (\<lambda>node. attempt (if rd_expand_paths resolved = ExpandSafe
                            then expand_paths_safe node (rd_strict resolved) else Ok node)
            (\<lambda>node'. ret (node_to_json node')))))"

definition try_decode :: "string \<Rightarrow> DecodeOptions option \<Rightarrow> JsonValue fueled" where
  "try_decode input options = try_decode_from_lines (split_on NEWLINE input) options"

definition json_to_toon :: "(string \<Rightarrow> string + json) \<Rightarrow> string \<Rightarrow> ToonError + string" where
  "json_to_toon serde_from_str text =
     (case serde_from_str text of
        Inl e \<Rightarrow> Err (JsonError (''Failed to parse JSON: '' @ e))
      | Inr v \<Rightarrow> Ok (join [NEWLINE] (encode_json_value (normalize_json_value (value_of_json v)) (resolve_encode_options None))))"

definition toon_to_json :: "(json \<Rightarrow> string + string) \<Rightarrow> string \<Rightarrow> string fueled" where
  "toon_to_json serde_to_string toon =
     seq (try_decode toon None)
       (\<lambda>v. case serde_to_string (json_of_value v) of
          Inl e \<Rightarrow> Some (Err (JsonError (''Failed to stringify JSON: '' @ e)))
        | Inr s \<Rightarrow> ret s)"

section \<open>Well-formed event streams\<close>

text \<open>What a stream of events for one value, for the items of an array and for the fields of an object is.\<close>

inductive value_events :: "JsonStreamEvent list \<Rightarrow> bool"
  and item_events :: "JsonStreamEvent list \<Rightarrow> bool"
  and field_events :: "JsonStreamEvent list \<Rightarrow> bool" where
  ve_primitive: "value_events [Primitive p]"
| ve_array: "item_events es \<Longrightarrow> value_events (StartArray n # es @ [EndArray])"
| ve_object: "field_events es \<Longrightarrow> value_events (StartObject # es @ [EndObject])"
| ie_nil: "item_events []"
| ie_snoc: "item_events es \<Longrightarrow> value_events vs \<Longrightarrow> item_events (vs @ es)"
| fe_nil: "field_events []"
| fe_cons: "value_events vs \<Longrightarrow> field_events es \<Longrightarrow> field_events (Key k q # vs @ es)"

lemmas event_intros = ve_primitive ve_array ve_object ie_nil ie_snoc fe_nil fe_cons

lemma item_events_append: "item_events es \<Longrightarrow> item_events es' \<Longrightarrow> item_events (es @ es')"
  by (induction es rule: value_events_item_events_field_events.inducts(2) [where ?P1.0 = "\<lambda>_. True" and ?P3.0 = "\<lambda>_. True"])
    (auto intro: event_intros)

lemma field_events_append: "field_events es \<Longrightarrow> field_events es' \<Longrightarrow> field_events (es @ es')"
  by (induction es rule: value_events_item_events_field_events.inducts(3) [where ?P1.0 = "\<lambda>_. True" and ?P2.0 = "\<lambda>_. True"])
    (auto intro: event_intros)

definition accepting :: "BuildState \<Rightarrow> bool" where
  "accepting st = (case bs_stack st of ObjectContext _ None _ # _ \<Rightarrow> False | _ \<Rightarrow> True)"

lemma accepting_cases:
  assumes "accepting st"
  obtains "bs_stack st = []"
  | es k q rest where "bs_stack st = ObjectContext es (Some k) q # rest"
  | items rest where "bs_stack st = ArrayContext items # rest"
  using assms by (auto simp: accepting_def split: list.splits BuildContext.splits option.splits)

lemma push_node_accepting: "accepting st \<Longrightarrow> push_node (c # w) node st = push_node [] node st"
  by (erule accepting_cases) (simp_all add: push_node_def)

lemma apply_event_simps:
  "apply_event StartObject st = Ok (st\<lparr>bs_stack := ObjectContext [] None {} # bs_stack st\<rparr>)"
  "apply_event (StartArray n) st = Ok (st\<lparr>bs_stack := ArrayContext [] # bs_stack st\<rparr>)"
  "accepting (st\<lparr>bs_stack := rest\<rparr>) \<Longrightarrow> apply_event EndObject (st\<lparr>bs_stack := ObjectContext es k q # rest\<rparr>)
     = push_node [] (NodeObject es q) (st\<lparr>bs_stack := rest\<rparr>)"
  "accepting (st\<lparr>bs_stack := rest\<rparr>) \<Longrightarrow> apply_event EndArray (st\<lparr>bs_stack := ArrayContext items # rest\<rparr>)
     = push_node [] (NodeArray items) (st\<lparr>bs_stack := rest\<rparr>)"
  "apply_event (Key key b) (st\<lparr>bs_stack := ObjectContext es k q # rest\<rparr>)
     = Ok (st\<lparr>bs_stack := ObjectContext es (Some key) (if b then insert key q else q) # rest\<rparr>)"
  "accepting st \<Longrightarrow> apply_event (Primitive p) st = push_node [] (NodePrimitive p) st"
  by (simp_all add: apply_event_def push_node_accepting)

lemma and_then_try_fold_Nil: "and_then m (try_fold f []) = m"
  by (cases m) auto

lemma bs_stack_idem [simp]: "st\<lparr>bs_stack := bs_stack st\<rparr> = st"
  by simp

lemmas builder_simps = apply_event_simps and_then_try_fold_Nil try_fold_append

text \<open>
  The builder on a well-formed stream: it puts exactly one node where the stream starts, leaves the
  rest of the stack alone, and the items and fields of a context go to its end.
\<close>

lemma build_value_events:
  "value_events es \<Longrightarrow>
     \<exists>node. \<forall>st. accepting st \<longrightarrow> try_fold apply_event es st = push_node [] node st"
  and build_item_events:
  "item_events es \<Longrightarrow>
     \<exists>nodes. \<forall>st items rest. try_fold apply_event es (st\<lparr>bs_stack := ArrayContext items # rest\<rparr>)
       = Ok (st\<lparr>bs_stack := ArrayContext (items @ nodes) # rest\<rparr>)"
  and build_field_events:
  "field_events es \<Longrightarrow>
     \<exists>nodes q'. \<forall>st entries q rest. try_fold apply_event es (st\<lparr>bs_stack := ObjectContext entries None q # rest\<rparr>)
       = Ok (st\<lparr>bs_stack := ObjectContext (entries @ nodes) None (q \<union> q') # rest\<rparr>)"
proof (induction es and es and es rule: value_events_item_events_field_events.inducts)
  case (ve_primitive p)
  show ?case by (rule exI [of _ "NodePrimitive p"]) (simp add: builder_simps)
next
  case (ve_array es n)
  then obtain nodes where "\<And>st items rest. try_fold apply_event es (st\<lparr>bs_stack := ArrayContext items # rest\<rparr>)
       = Ok (st\<lparr>bs_stack := ArrayContext (items @ nodes) # rest\<rparr>)" by blast
  then show ?case
    by (intro exI [of _ "NodeArray nodes"]) (simp add: builder_simps)
next
  case (ve_object es)
  then obtain nodes q' where
    "\<And>st entries q rest. try_fold apply_event es (st\<lparr>bs_stack := ObjectContext entries None q # rest\<rparr>)
       = Ok (st\<lparr>bs_stack := ObjectContext (entries @ nodes) None (q \<union> q') # rest\<rparr>)" by blast
  then show ?case
    by (intro exI [of _ "NodeObject nodes q'"]) (simp add: builder_simps)
next
  case ie_nil
  show ?case by (rule exI [of _ "[]"]) simp
next
  case (ie_snoc es vs)
  then obtain node nodes where "\<And>st. accepting st \<Longrightarrow> try_fold apply_event vs st = push_node [] node st"
    and "\<And>st items rest. try_fold apply_event es (st\<lparr>bs_stack := ArrayContext items # rest\<rparr>)
       = Ok (st\<lparr>bs_stack := ArrayContext (items @ nodes) # rest\<rparr>)" by blast
  then show ?case
    by (intro exI [of _ "node # nodes"]) (simp add: builder_simps accepting_def push_node_def)
next
  case fe_nil
  show ?case by (intro exI [of _ "[]"] exI [of _ "{}"]) simp
next
  case (fe_cons vs es k b)
  then obtain node nodes q' where "\<And>st. accepting st \<Longrightarrow> try_fold apply_event vs st = push_node [] node st"
    and "\<And>st entries q rest. try_fold apply_event es (st\<lparr>bs_stack := ObjectContext entries None q # rest\<rparr>)
       = Ok (st\<lparr>bs_stack := ObjectContext (entries @ nodes) None (q \<union> q') # rest\<rparr>)" by blast
  then show ?case
    by (intro exI [of _ "(k, node) # nodes"] exI [of _ "(if b then {k} else {}) \<union> q'"])
      (simp add: builder_simps accepting_def push_node_def)
qed

lemma value_events_build: "value_events es \<Longrightarrow> \<exists>node. build_node_from_events es = Ok node"
  using build_value_events [of es]
  by (force simp: build_node_from_events_def accepting_def push_node_def finalize_state_def)

text \<open>How many starts are not closed; inside a value at least one is open, so that no part of a stream from its start is a value.\<close>

fun open_starts :: "JsonStreamEvent list \<Rightarrow> int" where
  "open_starts [] = 0"
| "open_starts (StartObject # es) = 1 + open_starts es"
| "open_starts (StartArray n # es) = 1 + open_starts es"
| "open_starts (EndObject # es) = open_starts es - 1"
| "open_starts (EndArray # es) = open_starts es - 1"
| "open_starts (e # es) = open_starts es"

lemma open_starts_append [simp]: "open_starts (es @ es') = open_starts es + open_starts es'"
  by (induction es rule: open_starts.induct) simp_all

lemma value_open_starts:
  "value_events es \<Longrightarrow> es \<noteq> [] \<and> open_starts es = 0 \<and> (\<forall>k. 0 < k \<and> k < length es \<longrightarrow> 0 < open_starts (take k es))"
  and item_open_starts: "item_events es \<Longrightarrow> open_starts es = 0 \<and> (\<forall>k. 0 \<le> open_starts (take k es))"
  and field_open_starts: "field_events es \<Longrightarrow> open_starts es = 0 \<and> (\<forall>k. 0 \<le> open_starts (take k es))"
proof (induction es and es and es rule: value_events_item_events_field_events.inducts)
  case (ve_array es n)
  have "0 < open_starts (take k (StartArray n # es @ [EndArray]))" if "0 < k" "k < length (StartArray n # es @ [EndArray])" for k
    using that ve_array.IH by (cases k) (auto simp: add_nonneg_pos add_pos_nonneg)
  with ve_array.IH show ?case by simp
next
  case (ve_object es)
  have "0 < open_starts (take k (StartObject # es @ [EndObject]))" if "0 < k" "k < length (StartObject # es @ [EndObject])" for k
    using that ve_object.IH by (cases k) (auto simp: add_nonneg_pos add_pos_nonneg)
  with ve_object.IH show ?case by simp
next
  case (ie_snoc es vs)
  have "0 \<le> open_starts (take k vs)" for k
    using ie_snoc.IH(2) by (cases "k = 0 \<or> length vs \<le> k") (auto simp: order_less_imp_le)
  with ie_snoc.IH show ?case by simp
next
  case (fe_cons vs es key q)
  have "0 \<le> open_starts (take k vs)" for k
    using fe_cons.IH(1) by (cases "k = 0 \<or> length vs \<le> k") (auto simp: order_less_imp_le)
  then have "0 \<le> open_starts (take k (Key key q # vs @ es))" for k
    using fe_cons.IH(2) by (cases k) simp_all
  with fe_cons.IH show ?case by simp
qed auto

lemma value_events_prefix: "value_events es \<Longrightarrow> k < length es \<Longrightarrow> \<not> value_events (take k es)"
  using value_open_starts [of es] value_open_starts [of "take k es"] by force

section \<open>The decoder emits well-formed streams\<close>

definition yields :: "('a \<Rightarrow> bool) \<Rightarrow> 'a fueled \<Rightarrow> bool" where
  "yields P m \<longleftrightarrow> (\<forall>x. m = Some (Ok x) \<longrightarrow> P x)"

lemma yields_ret: "P x \<Longrightarrow> yields P (ret x)"
  by (simp add: yields_def ret_def)

lemma yields_Err [simp]: "yields P (Some (Err e))"
  by (simp add: yields_def)

lemma yields_seq: "yields Q m \<Longrightarrow> (\<And>x. Q x \<Longrightarrow> yields P (f x)) \<Longrightarrow> yields P (seq m f)"
  by (auto simp: yields_def seq_def split: option.splits sum.splits)

lemma yields_attempt: "(\<And>x. m = Ok x \<Longrightarrow> yields P (f x)) \<Longrightarrow> yields P (attempt m f)"
  by (cases m) auto

lemmas yields_intros = yields_ret yields_attempt yields_Err

lemma item_events_primitives: "item_events (map Primitive ps)"
proof (induction ps)
  case (Cons p ps)
  then show ?case using ie_snoc [OF Cons ve_primitive [of p]] by simp
qed (simp add: ie_nil)

lemma inline_item_events: "decode_inline_primitive_array_sync h v ctx = Ok evs \<Longrightarrow> item_events evs"
  by (auto simp: decode_inline_primitive_array_sync_def item_events_primitives ie_nil split: if_splits)

lemma yield_fields_events: "field_events (yield_fields fs ps)"
proof (induction fs ps rule: yield_fields.induct)
  case (2 f fs)
  then show ?case using fe_cons [OF ve_primitive 2] by simp
next
  case (3 f fs p ps)
  then show ?case using fe_cons [OF ve_primitive 3] by simp
qed (simp add: fe_nil)

lemma decode_row_events: "decode_row h c ctx = Ok evs \<Longrightarrow> value_events evs"
  by (auto simp: decode_row_def Let_def yield_object_from_fields_def intro: ve_object yield_fields_events)

lemma tabular_loop_events:
  "tabular_loop n h d ctx cur count start stop = Ok (evs, r) \<Longrightarrow> item_events evs"
proof (induction n arbitrary: cur count start stop evs)
  case (Suc n)
  then show ?case
    by (fastforce split: option.splits if_splits intro: ie_nil ie_snoc decode_row_events)
qed (simp add: ie_nil)

lemma tabular_events: "decode_tabular_array_sync h cur d ctx = Ok (evs, cur') \<Longrightarrow> item_events evs"
  by (auto simp: decode_tabular_array_sync_def Let_def dest: tabular_loop_events)

text \<open>Which streams each of the six functions produces.\<close>

definition all_yield :: "nat \<Rightarrow> bool" where
  "all_yield n \<longleftrightarrow>
     (\<forall>content cur d ctx. yields (field_events \<circ> fst) (decode_key_value_sync n content cur d ctx))
     \<and> (\<forall>cur d cd ctx. yields (field_events \<circ> fst) (decode_object_fields_sync n cur d cd ctx))
     \<and> (\<forall>info cur d ctx. yields (value_events \<circ> fst) (decode_array_from_header_sync n info cur d ctx))
     \<and> (\<forall>w d ctx cur c s e. yields (item_events \<circ> fst) (list_loop n w d ctx cur c s e))
     \<and> (\<forall>cur d ctx. yields (value_events \<circ> fst) (decode_list_item_sync n cur d ctx))
     \<and> (\<forall>cur d ctx. yields (field_events \<circ> fst) (follow_fields n cur d ctx))"

lemma all_yieldD:
  assumes "all_yield n"
  shows "yields (field_events \<circ> fst) (decode_key_value_sync n content cur d ctx)"
    and "yields (field_events \<circ> fst) (decode_object_fields_sync n cur d cd ctx)"
    and "yields (value_events \<circ> fst) (decode_array_from_header_sync n info cur d ctx)"
    and "yields (item_events \<circ> fst) (list_loop n w d ctx cur c s e)"
    and "yields (value_events \<circ> fst) (decode_list_item_sync n cur d ctx)"
    and "yields (field_events \<circ> fst) (follow_fields n cur d ctx)"
  using assms unfolding all_yield_def by simp_all

lemma field_of_value: "value_events vs \<Longrightarrow> field_events (Key k q # vs)"
  using fe_cons [OF _ fe_nil] by simp

lemma field_of_object: "field_events es \<Longrightarrow> field_events (Key k q # StartObject # es @ [EndObject])"
  by (rule field_of_value) (rule ve_object)

lemma empty_object_events: "value_events [StartObject, EndObject]"
  using ve_object [OF fe_nil] by simp

lemma object_of_fields:
  "field_events es \<Longrightarrow> field_events es' \<Longrightarrow> value_events (StartObject # es @ es' @ [EndObject])"
  using ve_object [OF field_events_append] by simp

lemma object_of_value_fields:
  "value_events vs \<Longrightarrow> field_events es \<Longrightarrow> value_events (StartObject # Key k q # vs @ es @ [EndObject])"
  using ve_object [OF fe_cons] by simp

lemma yield_key_value: "all_yield n \<Longrightarrow> yields (field_events \<circ> fst) (decode_key_value_sync (Suc n) content cur d ctx)"
  unfolding decode_key_value_sync.simps key_value_body_def Let_def
  by (auto intro!: yields_intros yields_seq [OF all_yieldD(2)] yields_seq [OF all_yieldD(3)]
      field_of_value field_of_object ve_primitive empty_object_events split: option.splits)

lemma yield_object_fields:
  "all_yield n \<Longrightarrow> yields (field_events \<circ> fst) (decode_object_fields_sync (Suc n) cur d cd ctx)"
  unfolding decode_object_fields_sync.simps object_fields_body_def Let_def
  by (auto intro!: yields_intros yields_seq [OF all_yieldD(1)] yields_seq [OF all_yieldD(2)]
      field_events_append fe_nil split: option.splits)

lemma yield_array: "all_yield n \<Longrightarrow> yields (value_events \<circ> fst) (decode_array_from_header_sync (Suc n) info cur d ctx)"
  unfolding decode_array_from_header_sync.simps array_body_def Let_def
  by (auto intro!: yields_intros yields_seq [OF all_yieldD(4)] ve_array inline_item_events
      dest: tabular_events split: option.splits)

lemma yield_list_loop: "all_yield n \<Longrightarrow> yields (item_events \<circ> fst) (list_loop (Suc n) w d ctx cur c s e)"
  unfolding list_loop.simps list_loop_body_def Let_def
  by (auto intro!: yields_intros yields_seq [OF all_yieldD(4)] yields_seq [OF all_yieldD(5)]
      ie_nil ie_snoc split: option.splits)

lemma yield_follow: "all_yield n \<Longrightarrow> yields (field_events \<circ> fst) (follow_fields (Suc n) cur d ctx)"
  unfolding follow_fields.simps follow_body_def
  by (auto intro!: yields_intros yields_seq [OF all_yieldD(1)] yields_seq [OF all_yieldD(6)]
      field_events_append fe_nil split: option.splits)

lemma yield_list_item: "all_yield n \<Longrightarrow> yields (value_events \<circ> fst) (decode_list_item_sync (Suc n) cur d ctx)"
  unfolding decode_list_item_sync.simps list_item_body_def Let_def next_sync_eq prod.case
  by (auto intro!: yields_intros yields_seq [OF all_yieldD(1)] yields_seq [OF all_yieldD(3)]
      yields_seq [OF all_yieldD(6)] all_yieldD(3)
      ve_primitive empty_object_events object_of_fields object_of_value_fields split: option.splits)

lemma decode_all_yield: "all_yield n"
proof (induction n)
  case 0
  show ?case by (simp add: all_yield_def yields_def)
next
  case (Suc n)
  then show ?case
    unfolding all_yield_def [of "Suc n"]
    by (intro conjI allI yield_key_value yield_object_fields yield_array yield_list_loop yield_list_item yield_follow)
qed

lemma root_fields_events: "yields (field_events \<circ> fst) (root_fields n cur ctx)"
proof (induction n arbitrary: cur)
  case (Suc n)
  show ?case
    unfolding root_fields.simps
    by (auto intro!: yields_intros yields_seq [OF all_yieldD(1) [OF decode_all_yield]] yields_seq [OF Suc]
        field_events_append fe_nil split: option.splits)
qed (simp add: yields_def)

lemma decode_root_events: "yields value_events (decode_root n first cur ctx)"
  unfolding decode_root_def
  by (auto intro!: yields_intros yields_seq [OF all_yieldD(1) [OF decode_all_yield]] yields_seq [OF root_fields_events]
      object_of_fields ve_primitive)

lemma decode_document_events: "yields value_events (decode_document n cur ctx)"
  unfolding decode_document_def
  by (auto intro!: yields_intros yields_seq [OF all_yieldD(3) [OF decode_all_yield]] decode_root_events
      empty_object_events split: option.splits)

lemma decode_stream_events: "yields value_events (decode_stream_sync source options)"
  unfolding decode_stream_sync_def Let_def
  by (auto intro!: yields_intros decode_document_events)

text \<open>
  C20: whatever events the decoder returns are those of exactly one value: a primitive, or a start, its items or its
  pairs of a key and a value, and its end, to any depth. No proper part of them from the start is one, and the builder
  takes them: it never reports a malformed stream for a text the decoder has accepted.
\<close>

theorem decoded_events_build:
  assumes "decode_stream_sync source options = Some (Ok events)"
  shows "value_events events \<and> (\<forall>k < length events. \<not> value_events (take k events))
    \<and> (\<exists>node. build_node_from_events events = Ok node)"
  using decode_stream_events [of source options] assms
  by (auto simp: yields_def intro: value_events_build dest: value_events_prefix)

theorem decoded_events_build_witness:
  "decode_stream_sync [''a: x''] None = Some (Ok [StartObject, Key ''a'' False, Primitive (PString ''x''), EndObject])
   \<and> value_events [StartObject, Key ''a'' False, Primitive (PString ''x''), EndObject]
   \<and> \<not> value_events [StartObject, Key ''a'' False]
   \<and> (\<exists>node. build_node_from_events [StartObject, Key ''a'' False, Primitive (PString ''x''), EndObject] = Ok node)"
proof -
  have d: "decode_stream_sync [''a: x''] None
      = Some (Ok [StartObject, Key ''a'' False, Primitive (PString ''x''), EndObject])"
    by code_simp
  have "\<not> value_events (take 2 [StartObject, Key ''a'' False, Primitive (PString ''x''), EndObject])"
    using decoded_events_build [OF d] by (auto dest: spec [of _ 2])
  then show ?thesis using d decoded_events_build [OF d] by simp
qed

section \<open>The events of a value build it again\<close>

fun node_of :: "JsonValue \<Rightarrow> NodeValue" where
  "node_of (VPrimitive p) = NodePrimitive p"
| "node_of (VArray items) = NodeArray (map node_of items)"
| "node_of (VObject entries) =
     NodeObject (map (\<lambda>e. (fst e, node_of (snd e))) entries) {k \<in> fst ` set entries. \<not> is_valid_unquoted_key k}"

lemma node_to_json_node_of: "node_to_json (node_of v) = v"
proof (induction v)
  case (VObject es)
  then show ?case by (force intro: map_idI)
qed (auto simp: map_idI)

lemma build_emit_items:
  assumes "\<And>v st. v \<in> set vs \<Longrightarrow> accepting st \<Longrightarrow> try_fold apply_event (emit_events v) st = push_node [] (node_of v) st"
  shows "try_fold apply_event (concat (map emit_events vs)) (st\<lparr>bs_stack := ArrayContext items # rest\<rparr>)
    = Ok (st\<lparr>bs_stack := ArrayContext (items @ map node_of vs) # rest\<rparr>)"
  using assms
proof (induction vs arbitrary: items)
  case (Cons v vs)
  then show ?case by (simp add: builder_simps accepting_def push_node_def)
qed simp

abbreviation entry_events :: "(string \<times> JsonValue) list \<Rightarrow> JsonStreamEvent list" where
  "entry_events es \<equiv> concat (map (\<lambda>e. Key (fst e) (\<not> is_valid_unquoted_key (fst e)) # emit_events (snd e)) es)"

lemma build_emit_entries:
  assumes "\<And>e st. e \<in> set es \<Longrightarrow> accepting st \<Longrightarrow>
      try_fold apply_event (emit_events (snd e)) st = push_node [] (node_of (snd e)) st"
  shows "try_fold apply_event (entry_events es) (st\<lparr>bs_stack := ObjectContext entries None q # rest\<rparr>)
    = Ok (st\<lparr>bs_stack := ObjectContext (entries @ map (\<lambda>e. (fst e, node_of (snd e))) es) None
              (q \<union> {k \<in> fst ` set es. \<not> is_valid_unquoted_key k}) # rest\<rparr>)"
  using assms
proof (induction es arbitrary: entries q)
  case (Cons e es)
  have "insert (fst e) q \<union> {k \<in> fst ` set es. \<not> is_valid_unquoted_key k}
      = q \<union> {k \<in> fst ` set (e # es). \<not> is_valid_unquoted_key k}" if "\<not> is_valid_unquoted_key (fst e)"
    using that by auto
  moreover have "q \<union> {k \<in> fst ` set es. \<not> is_valid_unquoted_key k}
      = q \<union> {k \<in> fst ` set (e # es). \<not> is_valid_unquoted_key k}" if "is_valid_unquoted_key (fst e)"
    using that by auto
  ultimately show ?case
    using Cons by (simp add: builder_simps accepting_def push_node_def)
qed simp

lemma build_emit: "accepting st \<Longrightarrow> try_fold apply_event (emit_events v) st = push_node [] (node_of v) st"
proof (induction v arbitrary: st)
  case (VPrimitive p)
  then show ?case by (simp add: builder_simps)
next
  case (VArray vs)
  then show ?case by (simp add: builder_simps build_emit_items)
next
  case (VObject es)
  have "try_fold apply_event (entry_events es) (st\<lparr>bs_stack := ObjectContext [] None {} # rest\<rparr>)
    = Ok (st\<lparr>bs_stack := ObjectContext ([] @ map (\<lambda>e. (fst e, node_of (snd e))) es) None
              ({} \<union> {k \<in> fst ` set es. \<not> is_valid_unquoted_key k}) # rest\<rparr>)" for rest
    using VObject.IH by (intro build_emit_entries) (metis prod.collapse prod_set_simps(2) singletonI snds.cases)
  with VObject.prems show ?case by (simp add: builder_simps)
qed

text \<open>
  The event stream of a value (\<open>emit_events\<close>) is accepted by the builder, and the value it
  builds is the one the events came from, keys in their order and duplicates included.
\<close>

theorem events_build_value:
  "\<exists>node. build_node_from_events (emit_events v) = Ok node \<and> node_to_json node = v"
  by (rule exI [of _ "node_of v"])
    (simp add: build_node_from_events_def build_emit accepting_def push_node_def finalize_state_def node_to_json_node_of)

section \<open>Expansion undoes key folding\<close>

text \<open>The nested object along a path.\<close>

fun nested :: "string list \<Rightarrow> NodeValue \<Rightarrow> NodeValue" where
  "nested [] v = v"
| "nested (s # segs) v = NodeObject [(s, nested segs v)] {}"

lemma insert_path_nested:
  "segs \<noteq> [] \<Longrightarrow> insert_path_entries [] segs v strict = Ok [(hd segs, nested (tl segs) v)]"
  by (induction "[] :: (string \<times> NodeValue) list" segs v strict rule: insert_path_entries.induct)
    (simp_all add: insert_literal_entry_def)

lemma single_key_chain_nested:
  "single_key_chain n segs v = (segs', leaf) \<Longrightarrow>
     \<exists>ss. segs' = segs @ ss \<and> v = foldr (\<lambda>s w. VObject [(s, w)]) ss leaf"
proof (induction n segs v rule: single_key_chain.induct)
  case (1 n segs k v)
  then obtain ss where "segs' = (segs @ [k]) @ ss" "v = foldr (\<lambda>s w. VObject [(s, w)]) ss leaf" by auto
  then show ?case by (intro exI [of _ "k # ss"]) simp
qed auto

lemma identifier_segment_no_dot: "is_identifier_segment seg \<Longrightarrow> CHR ''.'' \<notin> set seg"
  by (auto simp: is_identifier_segment_def is_ascii_alphabetic_def is_ascii_alphanumeric_def is_ascii_digit_def
      list_all_iff split: list.splits)

lemma identifier_is_key: "is_identifier_segment seg \<Longrightarrow> is_valid_unquoted_key seg"
  by (auto simp: is_identifier_segment_def is_valid_unquoted_key_def list_all_iff split: list.splits)

lemma node_of_chain:
  "list_all is_identifier_segment segs \<Longrightarrow>
     node_of (foldr (\<lambda>s w. VObject [(s, w)]) segs leaf) = nested segs (node_of leaf)"
  by (induction segs) (auto simp: identifier_is_key)

lemma fold_chain:
  assumes "try_fold_key_chain key value siblings opts rk pp flat = Some f"
  obtains ss where "folded_key f = join ''.'' (key # ss)" "ss \<noteq> []"
    "list_all is_identifier_segment (key # ss)"
    "value = foldr (\<lambda>s w. VObject [(s, w)]) ss (leaf_value f)"
proof -
  let ?c = "single_key_chain (flat - 1) [key] value"
  obtain ss where ss: "fst ?c = [key] @ ss" "value = foldr (\<lambda>s w. VObject [(s, w)]) ss (snd ?c)"
    using single_key_chain_nested [of "flat - 1" "[key]" "value" "fst ?c" "snd ?c"] by auto
  have "folded_key f = join ''.'' (fst ?c)" "leaf_value f = snd ?c" "2 \<le> length (fst ?c)"
    "list_all is_identifier_segment (fst ?c)"
    using assms by (auto simp: try_fold_key_chain_def collect_single_key_chain_def Let_def case_prod_beta
        split: if_splits JsonValue.splits)
  with ss show thesis by (intro that [of ss]) auto
qed

lemma split_folded_key:
  assumes "list_all is_identifier_segment (key # ss)" "ss \<noteq> []"
  shows "split_on (CHR ''.'') (join ''.'' (key # ss)) = key # ss"
    and "CHR ''.'' \<in> set (join ''.'' (key # ss))"
  using assms split_on_join [of "key # ss" "CHR ''.''"]
  by (auto simp: identifier_segment_no_dot list_all_iff join_Cons)

text \<open>
  C30: key folding loses nothing: when the encoder folds a chain of single-key objects under \<open>key\<close> into one dotted key,
  expanding an object with that dotted key and the leaf gives \<open>key\<close> with the same chain of objects around the expansion
  of the leaf, and the error of that expansion when the leaf itself has paths that clash. A leaf that the
  expansion keeps comes back in the value the chain was.
\<close>

theorem expand_undoes_folding:
  assumes "try_fold_key_chain key value siblings opts rk pp flat = Some f"
  shows "\<exists>ss. value = foldr (\<lambda>s w. VObject [(s, w)]) ss (leaf_value f)
    \<and> (case expand_paths_safe (node_of (leaf_value f)) strict of
         Err e \<Rightarrow> expand_paths_safe (NodeObject [(folded_key f, node_of (leaf_value f))] {}) strict = Err e
       | Ok leaf \<Rightarrow> (\<exists>node. expand_paths_safe (NodeObject [(folded_key f, node_of (leaf_value f))] {}) strict = Ok node
           \<and> node_to_json node = VObject [(key, foldr (\<lambda>s w. VObject [(s, w)]) ss (node_to_json leaf))]
           \<and> (node_to_json leaf = leaf_value f \<longrightarrow> node_to_json node = VObject [(key, value)])))"
proof -
  let ?leaf = "expand_paths_safe (node_of (leaf_value f)) strict"
  let ?folded = "expand_paths_safe (NodeObject [(folded_key f, node_of (leaf_value f))] {}) strict"
  obtain ss where m: "folded_key f = join ''.'' (key # ss)" "ss \<noteq> []"
    "list_all is_identifier_segment (key # ss)" "value = foldr (\<lambda>s w. VObject [(s, w)]) ss (leaf_value f)"
    using fold_chain [OF assms(1)] by blast
  have json: "node_to_json (nested ss leaf) = foldr (\<lambda>s w. VObject [(s, w)]) ss (node_to_json leaf)" for leaf
    by (induction ss) auto
  have "expand_entry {} strict [] (folded_key f) leaf = Ok [(key, nested ss leaf)]" for leaf
    using m split_folded_key [OF m(3,2)] by (simp add: expand_entry_def Let_def insert_path_nested)
  then have "?folded = (case ?leaf of Err e \<Rightarrow> Err e | Ok leaf \<Rightarrow> Ok (NodeObject [(key, nested ss leaf)] {}))"
    by (auto split: sum.splits)
  then show ?thesis using m(4) by (intro exI [of _ ss]) (auto simp: json split: sum.splits)
qed

theorem expand_undoes_folding_witness:
  "\<exists>f node. try_fold_key_chain ''a'' (VObject [(''b'', VPrimitive (PBool True))]) [''a'']
      \<lparr>indent = 2, delimiter = CHR '','', key_folding = FoldSafe, flatten_depth = 5, replacer = None\<rparr> None None 5 = Some f
    \<and> expand_paths_safe (NodeObject [(folded_key f, node_of (leaf_value f))] {}) True = Ok node
    \<and> node_to_json node = VObject [(''a'', VObject [(''b'', VPrimitive (PBool True))])]"
proof -
  let ?f = "\<lparr>folded_key = ''a.b'', remainder = None, leaf_value = VPrimitive (PBool True), segment_count = 2\<rparr>"
  have f: "try_fold_key_chain ''a'' (VObject [(''b'', VPrimitive (PBool True))]) [''a'']
      \<lparr>indent = 2, delimiter = CHR '','', key_folding = FoldSafe, flatten_depth = 5, replacer = None\<rparr> None None 5 = Some ?f"
    by code_simp
  show ?thesis using expand_undoes_folding [OF f, of True] f by (intro exI [of _ ?f]) auto
qed

section \<open>Texts that are read in another way\<close>

lemma encode_bracket_text:
  "encode_json_value (VObject [(''a'', VPrimitive (PString ''[1]: x''))]) (resolve_encode_options None)
     = [''a: '' @ [QUOTE] @ ''[1]: x'' @ [QUOTE]]"
  by (simp add: encode_json_value_def encode_object_lines.simps encode_key_value_pair_lines.simps
      encode_unfolded_pair_lines.simps resolve_encode_options_def unwrap_or_def try_fold_key_chain_def
      encode_primitive_def encode_string_literal_def is_safe_unquoted_def indented_key_value_line_def
      indentation_def sat_mul_def encode_key_def is_valid_unquoted_key_def is_ascii_alphabetic_def escape_char_def)

text \<open>
  The codec does not keep every string: under an unquoted key, a string that holds a length in
  brackets and a colon after it is written in quotes, but the decoder looks for the bracket without
  regard to quotes and reads an array under a key that the value never had, with no error in strict
  mode.
\<close>

theorem quoted_value_read_as_array:
  "\<exists>text. encode 0 (VObject [(''a'', VPrimitive (PString ''[1]: x''))]) None = Some text
    \<and> try_decode text None
        = Some (Ok (VObject [(''a: '' @ [QUOTE], VArray [VPrimitive (PString (''x'' @ [QUOTE]))])]))"
proof -
  have "try_decode (''a: '' @ [QUOTE] @ ''[1]: x'' @ [QUOTE]) None
      = Some (Ok (VObject [(''a: '' @ [QUOTE], VArray [VPrimitive (PString (''x'' @ [QUOTE]))])]))"
    by code_simp
  then show ?thesis
    using encode_bracket_text by (simp add: encode_def encode_lines_def replaced_value_None normalize_primitive_def)
qed

text \<open>
  Without indentation the text does not show what is inside what: the fields of an inner object come back beside it, in
  strict mode too.
\<close>

definition no_indent :: EncodeOptions where
  "no_indent = \<lparr>eo_indent = Some 0, eo_delimiter = None, eo_key_folding = None, eo_flatten_depth = None, eo_replacer = None\<rparr>"

lemma encode_no_indent:
  "encode_json_value (VObject [(''a'', VObject [(''b'', VPrimitive (PBool True))])]) (resolve_encode_options (Some no_indent))
     = [''a:'', ''b: true'']"
  by (simp add: no_indent_def encode_json_value_def encode_object_lines.simps encode_key_value_pair_lines.simps
      encode_unfolded_pair_lines.simps resolve_encode_options_def unwrap_or_def try_fold_key_chain_def
      encode_primitive_def indented_key_value_line_def indented_key_colon_line_def indented_line_def
      indentation_def sat_mul_def encode_key_def is_valid_unquoted_key_def is_ascii_alphabetic_def)

lemma no_indent_loses_nesting:
  "\<exists>text. encode 0 (VObject [(''a'', VObject [(''b'', VPrimitive (PBool True))])]) (Some no_indent) = Some text
    \<and> try_decode text (Some \<lparr>do_indent = Some 0, do_strict = Some True, do_expand_paths = None\<rparr>)
        = Some (Ok (VObject [(''a'', VObject []), (''b'', VPrimitive (PBool True))]))"
proof -
  have "try_decode (''a:'' @ [NEWLINE] @ ''b: true'') (Some \<lparr>do_indent = Some 0, do_strict = Some True, do_expand_paths = None\<rparr>)
      = Some (Ok (VObject [(''a'', VObject []), (''b'', VPrimitive (PBool True))]))"
    by code_simp
  moreover have "replaced_value 0 v (Some no_indent) = Some (normalize_json_value v)" for v
    by (simp add: no_indent_def replaced_value_def resolve_encode_options_def unwrap_or_def)
  ultimately show ?thesis
    using encode_no_indent by (simp add: encode_def encode_lines_def normalize_primitive_def join_Cons)
qed

text \<open>
  A line that is indented below a primitive value ends the document: strict mode reports
  nothing and every line from there on is dropped.
\<close>

theorem indented_line_ends_document:
  "try_decode_from_lines [''a: x'', ''  b: y'', ''c: z''] None = Some (Ok (VObject [(''a'', VPrimitive (PString ''x''))]))"
  by code_simp

end
