(* ===== verification/Toon_Round.thy ===== *)
theory Toon_Round
  imports Toon_Tokens Toon_Build
begin

text \<open>
  The round trip of whole documents: what the encoder writes for a value, the decoder reads as the
  events of that value. The conditions on the value (\<open>toon_ok\<close>) name what the codec does not keep.
  The decoder is followed on the view of its cursor, the depths and contents of the lines that are
  left.
\<close>

section \<open>Lines\<close>

definition view :: "StreamingLineCursor \<Rightarrow> (nat \<times> string) list" where
  "view cur = map (\<lambda>l. (pl_depth l, pl_content l)) (lines_left cur)"

definition skip :: "nat \<Rightarrow> StreamingLineCursor \<Rightarrow> StreamingLineCursor" where
  "skip n cur = (advance_sync ^^ n) cur"

definition line_doc :: "nat \<Rightarrow> string \<Rightarrow> nat \<times> string" where
  "line_doc k line =
     (let ind = length (takeWhile (\<lambda>c. c = SPACE) line) in (compute_depth_from_indent ind k, drop ind line))"

abbreviation docs :: "nat \<Rightarrow> string list \<Rightarrow> (nat \<times> string) list" where
  "docs k ls \<equiv> map (line_doc k) ls"

lemma view_length: "length (view cur) = left_count cur"
  by (simp add: view_def)

lemma view_skip: "view (skip n cur) = drop n (view cur)"
proof (induction n arbitrary: cur)
  case (Suc n)
  have "view (skip n (advance_sync cur)) = drop n (tl (view cur))"
    using Suc by (simp add: view_def cursor.left_advance map_tl)
  then show ?case by (simp add: skip_def funpow_Suc_right drop_Suc del: funpow.simps)
qed (simp add: skip_def)

lemma skip_0 [simp]: "skip 0 cur = cur"
  by (simp add: skip_def)

lemma skip_Suc: "skip (Suc n) cur = skip n (advance_sync cur)"
  by (simp add: skip_def funpow_Suc_right del: funpow.simps)

lemma skip_skip [simp]: "skip n (skip m cur) = skip (m + n) cur"
  by (simp add: skip_def funpow_add add.commute [of m])

lemma blank_advance [simp]: "cu_blank_lines (advance_sync cur) = cu_blank_lines cur"
  by (simp add: advance_sync_def)

lemma blank_skip [simp]: "cu_blank_lines (skip n cur) = cu_blank_lines cur"
  by (induction n arbitrary: cur) (simp_all add: skip_Suc)

lemma view_peek:
  assumes "view cur = (d, c) # r"
  obtains l where "peek_sync cur = Some l" "pl_depth l = d" "pl_content l = c" "view (advance_sync cur) = r"
    "left_count cur = Suc (left_count (advance_sync cur))"
  using assms by (auto simp: view_def cursor.peek_left cursor.left_advance map_eq_Cons_conv)

lemma view_end: "view cur = [] \<Longrightarrow> peek_sync cur = None"
  by (simp add: view_def cursor.peek_left)

text \<open>What follows is not deeper than \<open>d\<close>.\<close>

definition next_le :: "nat \<Rightarrow> (nat \<times> string) list \<Rightarrow> bool" where
  "next_le d r = (case r of [] \<Rightarrow> True | (e, _) # _ \<Rightarrow> e \<le> d)"

lemma next_le_peek: "next_le d (view cur) \<Longrightarrow> peek_sync cur = Some l \<Longrightarrow> pl_depth l \<le> d"
  by (auto simp: view_def next_le_def cursor.peek_left split: list.splits)

lemma next_le_mono: "next_le d r \<Longrightarrow> d \<le> d' \<Longrightarrow> next_le d' r"
  by (auto simp: next_le_def split: list.splits)

section \<open>Scanning what was written\<close>

definition solid :: "string \<Rightarrow> bool" where
  "solid c \<longleftrightarrow> c \<noteq> [] \<and> hd c \<noteq> SPACE \<and> hd c \<noteq> TAB \<and> \<not> is_blank c"

definition good_line :: "nat \<Rightarrow> string \<Rightarrow> bool" where
  "good_line k line \<longleftrightarrow> (\<exists>d c. line = replicate (k * d) SPACE @ c \<and> solid c)"

lemma takeWhile_indent:
  "solid c \<Longrightarrow> takeWhile (\<lambda>x. x = SPACE) (replicate n SPACE @ c) = replicate n SPACE"
  "solid c \<Longrightarrow> takeWhile (\<lambda>x. x = SPACE \<or> x = TAB) (replicate n SPACE @ c) = replicate n SPACE"
  by (induction n; cases c; simp add: solid_def)+

lemma line_doc_indent: "0 < k \<Longrightarrow> solid c \<Longrightarrow> line_doc k (replicate (k * d) SPACE @ c) = (d, c)"
  by (simp add: line_doc_def takeWhile_indent compute_depth_from_indent_def Let_def)

lemma parse_good_line:
  assumes "good_line k line" "0 < k"
  obtains p where "parse_line_incremental line st k strict = Ok (Some p, st\<lparr>ss_line_number := ss_line_number st + 1\<rparr>)"
    "(pl_depth p, pl_content p) = line_doc k line"
proof -
  obtain d c where l: "line = replicate (k * d) SPACE @ c" "solid c" using assms(1) by (auto simp: good_line_def)
  let ?p = "\<lparr>pl_raw = line, pl_indent = k * d, pl_content = c, pl_depth = d, pl_line_number = ss_line_number st + 1\<rparr>"
  have "TAB \<notin> set (takeWhile (\<lambda>x. x = SPACE \<or> x = TAB) line)" using l by (simp add: takeWhile_indent)
  then have "parse_line_incremental line st k strict = Ok (Some ?p, st\<lparr>ss_line_number := ss_line_number st + 1\<rparr>)"
    using l assms(2) by (simp add: parse_line_incremental_def takeWhile_indent compute_depth_from_indent_def solid_def Let_def)
  then show thesis using that [of ?p] line_doc_indent [OF assms(2) l(2)] l(1) by simp
qed

lemma parse_good_lines:
  assumes "\<forall>l \<in> set ls. good_line k l" "0 < k"
  shows "\<exists>parsed st'. parse_lines_sync ls k strict st = Ok (parsed, st')
    \<and> map (\<lambda>l. (pl_depth l, pl_content l)) parsed = docs k ls \<and> ss_blank_lines st' = ss_blank_lines st"
  using assms
proof (induction ls arbitrary: st)
  case (Cons l ls)
  obtain p where p: "parse_line_incremental l st k strict = Ok (Some p, st\<lparr>ss_line_number := ss_line_number st + 1\<rparr>)"
    "(pl_depth p, pl_content p) = line_doc k l"
    using parse_good_line [of k l] Cons.prems by (metis list.set_intros(1))
  obtain parsed st' where "parse_lines_sync ls k strict (st\<lparr>ss_line_number := ss_line_number st + 1\<rparr>) = Ok (parsed, st')"
    "map (\<lambda>l. (pl_depth l, pl_content l)) parsed = docs k ls" "ss_blank_lines st' = ss_blank_lines st"
    using Cons.IH [of "st\<lparr>ss_line_number := ss_line_number st + 1\<rparr>"] Cons.prems by auto
  with p show ?case by simp
qed simp

lemma strip_words_all: "strip_words ws s = [] \<Longrightarrow> s \<noteq> [] \<Longrightarrow> \<exists>w \<in> set ws. w \<noteq> [] \<and> suffix w s"
proof (induction ws s rule: strip_words.induct)
  case (1 ws s)
  then obtain w where w: "List.find (\<lambda>w. w \<noteq> [] \<and> prefix w s) ws = Some w"
    by (subst (asm) (2) strip_words.simps) (auto split: option.splits)
  then have "w \<in> set ws" "w \<noteq> []" "prefix w s" by (auto simp: find_Some_iff)
  moreover have "strip_words ws (drop (length w) s) = []"
    using 1(2) w by (subst (asm) strip_words.simps) simp
  ultimately show ?case
    using 1(1) [OF w] by (cases "drop (length w) s = []") (auto simp: prefix_def suffix_def)
qed

lemma trim_end_Nil: "trim_end c = [] \<Longrightarrow> c \<noteq> [] \<Longrightarrow> \<exists>w \<in> set ws_chars. w \<noteq> [] \<and> prefix w c"
  using strip_words_all [of "map rev ws_chars" "rev c"]
  by (auto simp: trim_end_def suffix_to_prefix)

lemma solid_first: "c \<noteq> [] \<Longrightarrow> \<not> ws_first (hd c) \<Longrightarrow> solid c"
proof -
  assume c: "c \<noteq> []" "\<not> ws_first (hd c)"
  then have "trim_start c = c" using trim_start_Cons [of "hd c" "tl c"] by simp
  moreover have "trim_end c \<noteq> []"
    using trim_end_Nil [of c] c by (fastforce simp: ws_first_def prefix_def)
  ultimately show ?thesis using c by (auto simp: solid_def is_blank_def ws_first_def ws_chars_def trim_def)
qed

lemma trimmed_hd: "trim c = c \<Longrightarrow> c \<noteq> [] \<Longrightarrow> hd c \<noteq> SPACE \<and> hd c \<noteq> TAB"
proof -
  assume c: "trim c = c" "c \<noteq> []"
  then have "\<not> prefix [SPACE] c" "\<not> prefix [TAB] c"
    using strip_words_stop [of "[SPACE]" ws_chars c] strip_words_stop [of "[TAB]" ws_chars c]
    by (auto simp: trim_fixed_iff trim_start_def ws_chars_def)
  with c(2) show ?thesis by (cases c) auto
qed

lemma solid_trimmed: "trim c = c \<Longrightarrow> c \<noteq> [] \<Longrightarrow> solid c"
  using trimmed_hd [of c] by (simp add: solid_def is_blank_def)

section \<open>What it means that a piece is read back\<close>

text \<open>
  The lines of a field are its first content and the lines below it; those of an item start with a
  hyphen. Each is read back when the decoder, given enough fuel, returns the events of the value and
  stops behind its lines, whatever follows that is not deeper.
\<close>

definition entry_reads ::
  "DecoderContext \<Rightarrow> nat \<Rightarrow> string \<Rightarrow> JsonValue \<Rightarrow> string \<Rightarrow> (nat \<times> string) list \<Rightarrow> bool" where
  "entry_reads ctx depth key v c body \<longleftrightarrow> \<not> prefix ''- '' c
     \<and> (\<forall>n cur rest. view cur = body @ rest \<longrightarrow> next_le depth rest \<longrightarrow> cu_blank_lines cur = []
          \<longrightarrow> 5 * left_count cur + 5 \<le> n
          \<longrightarrow> decode_key_value_sync n c cur depth ctx
              = ret (Key key (\<not> is_valid_unquoted_key key) # emit_events v, skip (length body) cur))"

definition array_reads ::
  "DecoderContext \<Rightarrow> nat \<Rightarrow> ArrayHeaderParseResult \<Rightarrow> JsonValue list \<Rightarrow> (nat \<times> string) list \<Rightarrow> bool" where
  "array_reads ctx depth info items body \<longleftrightarrow>
     (\<forall>n cur rest. view cur = body @ rest \<longrightarrow> next_le depth rest \<longrightarrow> cu_blank_lines cur = []
        \<longrightarrow> 5 * left_count cur + 4 \<le> n
        \<longrightarrow> decode_array_from_header_sync n info cur depth ctx
            = ret (emit_events (VArray items), skip (length body) cur))"

definition item_reads :: "DecoderContext \<Rightarrow> nat \<Rightarrow> JsonValue \<Rightarrow> (nat \<times> string) list \<Rightarrow> bool" where
  "item_reads ctx depth v body \<longleftrightarrow>
     (\<exists>c body'. body = (depth, c) # body' \<and> (prefix ''- '' c \<or> c = ''-''))
     \<and> (\<forall>n cur rest. view cur = body @ rest \<longrightarrow> next_le depth rest \<longrightarrow> cu_blank_lines cur = []
          \<longrightarrow> 5 * left_count cur + 2 \<le> n
          \<longrightarrow> decode_list_item_sync n cur depth ctx = ret (emit_events v, skip (length body) cur))"

definition field_lines :: "nat \<Rightarrow> (string \<times> (nat \<times> string) list) list \<Rightarrow> (nat \<times> string) list" where
  "field_lines depth parts = concat (map (\<lambda>(c, b). (depth, c) # b) parts)"

definition fields_read ::
  "DecoderContext \<Rightarrow> nat \<Rightarrow> (string \<times> JsonValue) list \<Rightarrow> (string \<times> (nat \<times> string) list) list \<Rightarrow> bool" where
  "fields_read ctx depth es parts \<longleftrightarrow>
     list_all2 (\<lambda>e (c, b). entry_reads ctx depth (fst e) (snd e) c b) es parts"

lemma field_lines_simps [simp]:
  "field_lines d [] = []" "field_lines d ((c, b) # parts) = (d, c) # b @ field_lines d parts"
  by (simp_all add: field_lines_def)

lemma next_le_field_lines: "next_le d rest \<Longrightarrow> next_le (Suc d) (field_lines (Suc d) parts @ rest)"
  by (cases parts) (auto simp: next_le_def split: list.splits)

lemma next_le_field_lines_0: "next_le 0 (field_lines 0 parts)"
  by (cases parts) (auto simp: next_le_def)

lemma entry_readsD:
  assumes "entry_reads ctx depth key v c body" "view cur = (depth, c) # body @ rest" "next_le depth rest"
    "cu_blank_lines cur = []" "5 * left_count (advance_sync cur) + 5 \<le> n"
  shows "decode_key_value_sync n c (advance_sync cur) depth ctx
      = ret (Key key (\<not> is_valid_unquoted_key key) # emit_events v, skip (Suc (length body)) cur)"
    and "view (skip (Suc (length body)) cur) = rest"
    and "left_count (skip (Suc (length body)) cur) \<le> left_count (advance_sync cur)"
proof -
  obtain l where l: "view (advance_sync cur) = body @ rest"
    using assms(2) by (rule view_peek)
  with assms show "decode_key_value_sync n c (advance_sync cur) depth ctx
      = ret (Key key (\<not> is_valid_unquoted_key key) # emit_events v, skip (Suc (length body)) cur)"
    by (simp add: entry_reads_def skip_Suc)
  show v: "view (skip (Suc (length body)) cur) = rest" by (simp add: view_skip assms(2))
  have "length rest \<le> length (view (advance_sync cur))" using l by simp
  then show "left_count (skip (Suc (length body)) cur) \<le> left_count (advance_sync cur)"
    using v by (simp add: view_length [symmetric])
qed

text \<open>One step of a loop over fields, for the three loops of the decoder.\<close>

lemma fields_step:
  assumes "fields_read ctx depth (e # es) (p # parts)" "view cur = field_lines depth (p # parts) @ rest"
    "next_le depth (field_lines depth parts @ rest)" "cu_blank_lines cur = []"
  obtains l cur' where "peek_sync cur = Some l" "pl_depth l = depth" "\<not> prefix ''- '' (pl_content l)"
    "left_count cur = Suc (left_count (advance_sync cur))" "fields_read ctx depth es parts"
    "view cur' = field_lines depth parts @ rest" "cu_blank_lines cur' = []"
    "left_count cur' \<le> left_count (advance_sync cur)"
    "skip (length (field_lines depth parts)) cur' = skip (length (field_lines depth (p # parts))) cur"
    "\<And>n. 5 * left_count (advance_sync cur) + 5 \<le> n \<Longrightarrow>
       decode_key_value_sync n (pl_content l) (advance_sync cur) depth ctx
         = ret (Key (fst e) (\<not> is_valid_unquoted_key (fst e)) # emit_events (snd e), cur')"
proof -
  obtain c b where p: "p = (c, b)" by (cases p)
  have er: "entry_reads ctx depth (fst e) (snd e) c b" and fr: "fields_read ctx depth es parts"
    using assms(1) p by (simp_all add: fields_read_def)
  have v: "view cur = (depth, c) # b @ (field_lines depth parts @ rest)" using assms(2) p by simp
  obtain l where l: "peek_sync cur = Some l" "pl_depth l = depth" "pl_content l = c"
    "left_count cur = Suc (left_count (advance_sync cur))"
    using v by (rule view_peek)
  note kv = entry_readsD [OF er v assms(3,4)]
  show thesis
    using l fr kv assms(4) er p
    by (intro that [of l "skip (Suc (length b)) cur"]) (auto simp: entry_reads_def)
qed

lemma object_fields_read:
  assumes "fields_read ctx (Suc d) es parts" "view cur = field_lines (Suc d) parts @ rest" "next_le d rest"
    "cu_blank_lines cur = []" "5 * left_count cur + 4 \<le> n" "cd = None \<or> cd = Some (Suc d)"
  shows "decode_object_fields_sync n cur (Suc d) cd ctx = ret (entry_events es, skip (length (field_lines (Suc d) parts)) cur)"
  using assms
proof (induction es parts arbitrary: cur n cd rule: list_induct2')
  case 1
  then obtain m where n: "n = Suc m" by (cases n) auto
  have "pl_depth l < Suc d" if "peek_sync cur = Some l" for l
    using next_le_peek [of d cur l] 1 that by simp
  then show ?case by (auto simp: n object_fields_body_def split: option.splits)
next
  case (4 e es p parts)
  obtain m where n: "n = Suc m" using 4(6) by (cases n) auto
  obtain l cur' where st: "peek_sync cur = Some l" "pl_depth l = Suc d" "left_count cur = Suc (left_count (advance_sync cur))"
    "fields_read ctx (Suc d) es parts" "view cur' = field_lines (Suc d) parts @ rest" "cu_blank_lines cur' = []"
    "left_count cur' \<le> left_count (advance_sync cur)"
    "skip (length (field_lines (Suc d) parts)) cur' = skip (length (field_lines (Suc d) (p # parts))) cur"
    "\<And>n. 5 * left_count (advance_sync cur) + 5 \<le> n \<Longrightarrow>
       decode_key_value_sync n (pl_content l) (advance_sync cur) (Suc d) ctx
         = ret (Key (fst e) (\<not> is_valid_unquoted_key (fst e)) # emit_events (snd e), cur')"
    using fields_step [OF 4(2,3) next_le_field_lines [OF 4(4)] 4(5)] by metis
  have m: "5 * left_count (advance_sync cur) + 5 \<le> m" using 4(6) st(3) n by simp
  have "decode_object_fields_sync m cur' (Suc d) (Some (Suc d)) ctx
      = ret (entry_events es, skip (length (field_lines (Suc d) parts)) cur')"
    using st m 4(4) by (intro 4(1)) auto
  then show ?case
    using st(1,2,8) st(9) [OF m] 4(7) by (auto simp: n object_fields_body_def)
qed (auto simp: fields_read_def)

lemma follow_fields_read:
  assumes "fields_read ctx (Suc d) es parts" "view cur = field_lines (Suc d) parts @ rest" "next_le d rest"
    "cu_blank_lines cur = []" "5 * left_count cur + 3 \<le> n"
  shows "follow_fields n cur (Suc d) ctx = ret (entry_events es, skip (length (field_lines (Suc d) parts)) cur)"
  using assms
proof (induction es parts arbitrary: cur n rule: list_induct2')
  case 1
  then obtain m where n: "n = Suc m" by (cases n) auto
  have "pl_depth l \<noteq> Suc d" if "peek_sync cur = Some l" for l
    using next_le_peek [of d cur l] 1 that by simp
  then show ?case by (auto simp: n follow_body_def split: option.splits)
next
  case (4 e es p parts)
  obtain m where n: "n = Suc m" using 4(6) by (cases n) auto
  obtain l cur' where st: "peek_sync cur = Some l" "pl_depth l = Suc d" "left_count cur = Suc (left_count (advance_sync cur))"
    "fields_read ctx (Suc d) es parts" "view cur' = field_lines (Suc d) parts @ rest" "cu_blank_lines cur' = []"
    "left_count cur' \<le> left_count (advance_sync cur)"
    "skip (length (field_lines (Suc d) parts)) cur' = skip (length (field_lines (Suc d) (p # parts))) cur"
    "\<not> prefix ''- '' (pl_content l)"
    "\<And>n. 5 * left_count (advance_sync cur) + 5 \<le> n \<Longrightarrow>
       decode_key_value_sync n (pl_content l) (advance_sync cur) (Suc d) ctx
         = ret (Key (fst e) (\<not> is_valid_unquoted_key (fst e)) # emit_events (snd e), cur')"
    using fields_step [OF 4(2,3) next_le_field_lines [OF 4(4)] 4(5)] by metis
  have m: "5 * left_count (advance_sync cur) + 5 \<le> m" using 4(6) st(3) n by simp
  have "follow_fields m cur' (Suc d) ctx = ret (entry_events es, skip (length (field_lines (Suc d) parts)) cur')"
    using st m 4(4) by (intro 4(1)) auto
  then show ?case
    using st(1,2,8,9) st(10) [OF m] by (auto simp: n follow_body_def)
qed (auto simp: fields_read_def)

lemma root_fields_read:
  assumes "fields_read ctx 0 es parts" "view cur = field_lines 0 parts"
    "cu_blank_lines cur = []" "5 * left_count cur + 5 \<le> n"
  shows "root_fields n cur ctx = ret (entry_events es, skip (length (field_lines 0 parts)) cur)"
  using assms
proof (induction es parts arbitrary: cur n rule: list_induct2')
  case 1
  then obtain m where n: "n = Suc m" by (cases n) auto
  have "at_end_sync cur" using 1(2) by (simp add: view_def cursor.at_end_left)
  then show ?case by (simp add: n)
next
  case (4 e es p parts)
  obtain m where n: "n = Suc m" using 4(5) by (cases n) auto
  obtain l cur' where st: "peek_sync cur = Some l" "pl_depth l = 0" "left_count cur = Suc (left_count (advance_sync cur))"
    "fields_read ctx 0 es parts" "view cur' = field_lines 0 parts" "cu_blank_lines cur' = []"
    "left_count cur' \<le> left_count (advance_sync cur)"
    "skip (length (field_lines 0 parts)) cur' = skip (length (field_lines 0 (p # parts))) cur"
    "\<And>n. 5 * left_count (advance_sync cur) + 5 \<le> n \<Longrightarrow>
       decode_key_value_sync n (pl_content l) (advance_sync cur) 0 ctx
         = ret (Key (fst e) (\<not> is_valid_unquoted_key (fst e)) # emit_events (snd e), cur')"
    using fields_step [of ctx 0 e es p parts cur "[]"] 4(2,3,4) next_le_field_lines_0 [of parts] by (metis append_Nil2)
  have "\<not> at_end_sync cur" using st(1) cursor.not_at_end by blast
  moreover have m: "5 * left_count (advance_sync cur) + 5 \<le> m" using 4(5) st(3) n by simp
  moreover have "root_fields m cur' ctx = ret (entry_events es, skip (length (field_lines 0 parts)) cur')"
    using st m by (intro 4(1)) auto
  ultimately show ?case using st(1,2,8) st(9) [OF m] by (auto simp: n)
qed (auto simp: fields_read_def)

section \<open>Arrays\<close>

abbreviation header_result :: "nat \<Rightarrow> string option \<Rightarrow> string list option \<Rightarrow> char \<Rightarrow> string option \<Rightarrow> ArrayHeaderParseResult" where
  "header_result len key flds d inline \<equiv> \<lparr>hr_header = header_of len key flds d, hr_inline_values = inline\<rparr>"

lemma delim_ASCII: "delim_ok d \<Longrightarrow> byte d < 128"
  by (auto simp: delim_ok_def)

lemma row_text:
  assumes "ps \<noteq> []" "\<forall>p \<in> set ps. prim_ok p" "delim_ok d"
  shows "trim (encode_and_join_primitives ps d) = encode_and_join_primitives ps d"
    and "encode_and_join_primitives ps d \<noteq> []"
  using trim_join [of "map (\<lambda>p. encode_primitive p d) ps" d] assms delim_ASCII [OF assms(3)]
  by (simp_all add: encode_and_join_primitives_def primitive_token_trim primitive_token_neq_Nil)

lemma assert_expected_count_refl [simp]: "assert_expected_count m m what b = Ok ()"
  by (simp add: assert_expected_count_def)

lemma check_blank_range_Nil: "cu_blank_lines cur = [] \<Longrightarrow> check_blank_range ctx cur s e what = Ok ()"
  by (simp add: check_blank_range_def validate_no_blank_lines_in_range_def split: option.splits)

lemma array_reads_inline:
  assumes "ps \<noteq> []" "\<forall>p \<in> set ps. prim_ok p" "delim_ok d"
  shows "array_reads ctx depth (header_result (length ps) key None d (Some (encode_and_join_primitives ps d)))
    (map VPrimitive ps) []"
proof -
  have "\<not> is_blank (encode_and_join_primitives ps d)" using row_text [OF assms] by (simp add: is_blank_def)
  then have "decode_inline_primitive_array_sync (header_of (length ps) key None d) (encode_and_join_primitives ps d) ctx
      = Ok (map Primitive ps)"
    using row_round_trip [OF assms] by (simp add: decode_inline_primitive_array_sync_def header_of_def)
  moreover have "concat (map emit_events (map VPrimitive ps)) = map Primitive ps" by (induction ps) auto
  ultimately have "decode_array_from_header_sync (Suc m)
      (header_result (length ps) key None d (Some (encode_and_join_primitives ps d))) cur depth ctx
      = ret (emit_events (VArray (map VPrimitive ps)), cur)" for m cur
    by (simp add: array_body_def header_of_def)
  then show ?thesis
    unfolding array_reads_def
    by (metis Suc_pred add.commute add_leD1 append_Nil length_0_conv less_le_trans skip_0 zero_less_numeral)
qed

lemma next_le_items:
  "list_all2 (item_reads ctx (Suc d)) vs bodies \<Longrightarrow> next_le d rest \<Longrightarrow> next_le (Suc d) (concat bodies @ rest)"
  by (cases vs; cases bodies) (auto simp: item_reads_def next_le_def split: list.splits)

lemma list_loop_read:
  assumes "list_all2 (item_reads ctx (Suc d)) vs bodies" "view cur = concat bodies @ rest" "next_le d rest"
    "cu_blank_lines cur = []" "count + length vs = w" "5 * left_count cur + 3 \<le> n"
  shows "\<exists>s e. list_loop n w (Suc d) ctx cur count start stop
    = ret (concat (map emit_events vs), skip (length (concat bodies)) cur, w, s, e)"
  using assms
proof (induction vs bodies arbitrary: cur n count start stop rule: list_induct2')
  case 1
  then obtain m where n: "n = Suc m" by (cases n) auto
  from 1 show ?case by (auto simp: n list_loop_body_def split: option.splits)
next
  case (4 v vs b bodies)
  obtain m where n: "n = Suc m" using 4(7) by (cases n) auto
  have ir: "item_reads ctx (Suc d) v b" and tl: "list_all2 (item_reads ctx (Suc d)) vs bodies"
    using 4(2) by simp_all
  then obtain c b' where b: "b = (Suc d, c) # b'" "prefix ''- '' c \<or> c = ''-''" by (auto simp: item_reads_def)
  have v: "view cur = (Suc d, c) # b' @ concat bodies @ rest" using 4(3) b by simp
  obtain l where l: "peek_sync cur = Some l" "pl_depth l = Suc d" "pl_content l = c"
    "left_count cur = Suc (left_count (advance_sync cur))"
    using v by (rule view_peek)
  let ?cur = "skip (length b) cur"
  have item: "decode_list_item_sync m cur (Suc d) ctx = ret (emit_events v, ?cur)"
    using ir 4(3-5,7) next_le_items [OF tl 4(4)] n by (simp add: item_reads_def)
  have vw: "view ?cur = concat bodies @ rest" using 4(3) by (simp add: view_skip)
  then have "left_count ?cur \<le> left_count (advance_sync cur)"
    using v l(4) by (simp add: view_length [symmetric])
  then have left: "5 * left_count ?cur + 3 \<le> m" using 4(7) l(4) n by simp
  have "\<exists>s e. list_loop m w (Suc d) ctx ?cur (count + 1) start' stop'
      = ret (concat (map emit_events vs), skip (length (concat bodies)) ?cur, w, s, e)" for start' stop'
    using 4(4-6) vw left by (intro 4(1) [OF tl]) auto
  then obtain s e where rest: "list_loop m w (Suc d) ctx ?cur (count + 1)
      (if start = None then Some (pl_line_number l) else start)
      (case cu_last_line ?cur of Some l \<Rightarrow> Some (pl_line_number l) | None \<Rightarrow> Some (pl_line_number l))
      = ret (concat (map emit_events vs), skip (length (concat bodies)) ?cur, w, s, e)"
    by blast
  have "count < w \<and> pl_depth l = Suc d \<and> is_list_item l" using l b(2) 4(6) by (auto simp: is_list_item_def)
  then show ?case
    unfolding n list_loop.simps list_loop_body_def l(1) option.case item Let_def
    by (simp only: if_True seq_simps prod.case rest) (simp, blast)
qed auto

lemma array_reads_list:
  assumes "list_all2 (item_reads ctx (Suc depth)) vs bodies"
  shows "array_reads ctx depth (header_result (length vs) key None d None) vs (concat bodies)"
  unfolding array_reads_def
proof (intro allI impI)
  fix n cur rest
  assume a: "view cur = concat bodies @ rest" "next_le depth rest" "cu_blank_lines cur = []" "5 * left_count cur + 4 \<le> n"
  then obtain m where n: "n = Suc m" by (cases n) auto
  let ?cur = "skip (length (concat bodies)) cur"
  obtain s e where "list_loop m (length vs) (Suc depth) ctx cur 0 None None
      = ret (concat (map emit_events vs), ?cur, length vs, s, e)"
    using list_loop_read [OF assms a(1-3), of 0 "length vs" m None None] a(4) n by auto
  moreover have "view ?cur = rest" using a(1) by (simp add: view_skip)
  then have "validate_no_extra_list_items (peek_sync ?cur) (Suc depth) (length vs) (dc_strict ctx) = Ok ()"
    using next_le_peek [of depth ?cur] a(2)
    by (fastforce simp: validate_no_extra_list_items_def split: option.splits)
  moreover have "check_blank_range ctx ?cur s e ''list array'' = Ok ()"
    using a(3) by (simp add: check_blank_range_Nil)
  ultimately show "decode_array_from_header_sync n (header_result (length vs) key None d None) cur depth ctx
      = ret (emit_events (VArray vs), ?cur)"
    by (simp add: n array_body_def header_of_def)
qed

text \<open>A table, from the primitives of its rows.\<close>

abbreviation row_value :: "string list \<Rightarrow> JsonPrimitive list \<Rightarrow> JsonValue" where
  "row_value h ps \<equiv> VObject (zip h (map VPrimitive ps))"

lemma yield_row: "length ps = length h \<Longrightarrow> yield_object_from_fields (field_names h) ps = emit_events (row_value h ps)"
proof -
  assume l: "length ps = length h"
  then have "yield_fields (field_names h) ps = entry_events (zip h (map VPrimitive ps))"
    by (induction ps h rule: list_induct2) (auto simp: field_names_def)
  then show ?thesis by (simp add: yield_object_from_fields_def)
qed

lemma decode_row_read:
  assumes "ps \<noteq> []" "length ps = length h" "\<forall>p \<in> set ps. prim_ok p" "delim_ok d"
  shows "decode_row (header_of len key (Some h) d) (encode_and_join_primitives ps d) ctx = Ok (emit_events (row_value h ps))"
  using row_round_trip [OF assms(1,3,4)] assms(2) yield_row [OF assms(2)]
  by (simp add: decode_row_def header_of_def field_names_def Let_def)

lemma tabular_loop_read:
  assumes "\<forall>ps \<in> set rows. ps \<noteq> [] \<and> length ps = length h \<and> (\<forall>p \<in> set ps. prim_ok p)" "delim_ok d"
    "view cur = map (\<lambda>ps. (row_depth, encode_and_join_primitives ps d)) rows @ rest"
  shows "\<exists>s e. tabular_loop (length rows) (header_of len key (Some h) d) row_depth ctx cur count start stop
    = Ok (concat (map (\<lambda>ps. emit_events (row_value h ps)) rows), skip (length rows) cur, count + length rows, s, e)"
  using assms
proof (induction rows arbitrary: cur count start stop)
  case (Cons ps rows)
  have v: "view cur = (row_depth, encode_and_join_primitives ps d)
      # map (\<lambda>ps. (row_depth, encode_and_join_primitives ps d)) rows @ rest" using Cons.prems(3) by simp
  obtain l where l: "peek_sync cur = Some l" "pl_depth l = row_depth" "pl_content l = encode_and_join_primitives ps d"
    "view (advance_sync cur) = map (\<lambda>ps. (row_depth, encode_and_join_primitives ps d)) rows @ rest"
    using v by (rule view_peek)
  have row: "decode_row (header_of len key (Some h) d) (encode_and_join_primitives ps d) ctx = Ok (emit_events (row_value h ps))"
    using Cons.prems(1,2) by (intro decode_row_read) auto
  obtain s e where "tabular_loop (length rows) (header_of len key (Some h) d) row_depth ctx (advance_sync cur) (count + 1)
      (if start = None then Some (pl_line_number l) else start) (Some (pl_line_number l))
    = Ok (concat (map (\<lambda>ps. emit_events (row_value h ps)) rows), skip (length rows) (advance_sync cur),
        count + 1 + length rows, s, e)"
    using Cons.IH [OF _ Cons.prems(2) l(4), of "count + 1"] Cons.prems(1) by (metis list.set_intros(2))
  with l row show ?case by (auto simp: skip_Suc)
qed simp

lemma array_reads_table:
  assumes "\<forall>ps \<in> set rows. ps \<noteq> [] \<and> length ps = length h \<and> (\<forall>p \<in> set ps. prim_ok p)" "delim_ok d" "h \<noteq> []"
  shows "array_reads ctx depth (header_result (length rows) key (Some h) d None) (map (row_value h) rows)
    (map (\<lambda>ps. (Suc depth, encode_and_join_primitives ps d)) rows)"
  unfolding array_reads_def
proof (intro allI impI)
  fix n cur rest
  assume a: "view cur = map (\<lambda>ps. (Suc depth, encode_and_join_primitives ps d)) rows @ rest" "next_le depth rest"
    "cu_blank_lines cur = []" "5 * left_count cur + 4 \<le> n"
  then obtain m where n: "n = Suc m" by (cases n) auto
  let ?cur = "skip (length rows) cur" and ?h = "header_of (length rows) key (Some h) d"
  obtain s e where loop: "tabular_loop (length rows) ?h (Suc depth) ctx cur 0 None None
      = Ok (concat (map (\<lambda>ps. emit_events (row_value h ps)) rows), ?cur, length rows, s, e)"
    using tabular_loop_read [OF assms(1,2) a(1), of "length rows" key ctx 0 None None] by auto
  have len: "ah_length ?h = length rows" "ah_fields ?h = Some (field_names h)" "field_names h \<noteq> []"
    using assms(3) by (simp_all add: header_of_def field_names_def)
  have "view ?cur = rest" using a(1) by (simp add: view_skip)
  then have "validate_no_extra_tabular_rows (peek_sync ?cur) (Suc depth) ?h (dc_strict ctx) = Ok ()"
    using next_le_peek [of depth ?cur] a(2)
    by (fastforce simp: validate_no_extra_tabular_rows_def split: option.splits)
  then have "decode_tabular_array_sync ?h cur depth ctx = Ok (concat (map (\<lambda>ps. emit_events (row_value h ps)) rows), ?cur)"
    using loop a(3) by (simp add: decode_tabular_array_sync_def len(1) check_blank_range_Nil)
  then show "decode_array_from_header_sync n (header_result (length rows) key (Some h) d None) cur depth ctx
      = ret (emit_events (VArray (map (row_value h) rows)), skip (length (map (\<lambda>ps. (Suc depth, encode_and_join_primitives ps d)) rows)) cur)"
    using len by (simp add: n array_body_def comp_def)
qed

section \<open>Fields\<close>

lemma encode_key_hd: "encode_key k = c # r \<Longrightarrow> c = QUOTE \<or> is_ascii_alphanumeric c \<or> c = CHR ''_''"
  using key_chars(3) [of k] by (auto simp: encode_key_def split: if_splits)

lemma encode_key_Cons: obtains c r where "encode_key k = c # r" "c = QUOTE \<or> is_ascii_alphanumeric c \<or> c = CHR ''_''"
  using encode_key_token(3) [of "CHR '',''" k] encode_key_hd [of k] by (cases "encode_key k") (auto simp: delim_ok_def)

lemma key_first:
  "\<not> prefix ''- '' (encode_key k @ r)" "\<not> prefix ''['' (trim_start (encode_key k @ r))" "solid (encode_key k @ r)"
  by (rule encode_key_Cons [of k],
      auto simp: ws_ASCII trim_start_Cons is_ascii_alphanumeric_def is_ascii_alphabetic_def is_ascii_digit_def
        intro!: solid_first)+

lemma key_not_array_header: "\<not> is_array_header_content (encode_key k @ r)"
  by (simp add: is_array_header_content_def key_first)

lemma unquoted_plain: "QUOTE \<notin> set s \<Longrightarrow> t \<notin> set s \<Longrightarrow>
    unquoted_char t False (s @ r) = map_option (\<lambda>i. i + length s) (unquoted_char t False r)"
  by (induction s) (auto simp: option.map_comp comp_def option.map_ident)

lemma unquoted_key:
  "t \<in> {CHR '':''} \<Longrightarrow> unquoted_char t False (encode_key k @ r)
     = map_option (\<lambda>i. i + length (encode_key k)) (unquoted_char t False r)"
  using key_no_special [of k QUOTE] key_no_special [of k t] unquoted_char_escape [of t k r]
  by (cases "is_valid_unquoted_key k") (auto simp: encode_key_def unquoted_plain option.map_comp comp_def)

lemma key_value_content: "is_key_value_content (encode_key k @ CHR '':'' # r)"
  by (simp add: is_key_value_content_def find_unquoted_char_def unquoted_key)

lemma no_bracket_no_header: "header_bracket_start c = Ok None \<Longrightarrow> parse_array_header_line c d = Ok None"
  by (simp add: parse_array_header_line_def)

lemma plain_no_bracket:
  "\<not> prefix [QUOTE] (trim_start c) \<Longrightarrow> CHR ''['' \<notin> set c \<Longrightarrow> header_bracket_start c = Ok None"
  using find_char_None_iff [of "CHR ''[''" c] by (simp add: header_bracket_start_def Let_def)

lemma quoted_no_bracket: "\<not> prefix ''['' r \<Longrightarrow> header_bracket_start (QUOTE # escape_string s @ QUOTE # r) = Ok None"
  using closing_quote_escape [of s r]
  by (simp add: header_bracket_start_def find_closing_quote_def trim_start_Cons ws_ASCII Let_def)

lemma key_no_header:
  assumes "is_valid_unquoted_key k \<Longrightarrow> CHR ''['' \<notin> set r"
  shows "parse_array_header_line (encode_key k @ CHR '':'' # r) (CHR '','') = Ok None"
proof (rule no_bracket_no_header, cases "is_valid_unquoted_key k")
  case True
  have "\<not> prefix [QUOTE] (trim_start (k @ CHR '':'' # r))"
    using key_no_special [OF True, of QUOTE] key_chars(1,3) [OF True]
    by (cases k) (auto simp: trim_start_Cons ws_ASCII)
  moreover have "CHR ''['' \<notin> set (k @ CHR '':'' # r)" using assms [OF True] key_no_special [OF True, of "CHR ''[''"] by simp
  ultimately show "header_bracket_start (encode_key k @ CHR '':'' # r) = Ok None"
    using True by (simp add: encode_key_def plain_no_bracket)
next
  case False
  then show "header_bracket_start (encode_key k @ CHR '':'' # r) = Ok None"
    using quoted_no_bracket [of "CHR '':'' # r" k] by (simp add: encode_key_def)
qed

definition entry_ok :: "string \<Rightarrow> JsonValue \<Rightarrow> bool" where
  "entry_ok key v = (case v of VPrimitive (PString s) \<Rightarrow> is_valid_unquoted_key key \<longrightarrow> CHR ''['' \<notin> set s | _ \<Rightarrow> True)"

lemma token_no_bracket:
  assumes "prim_ok p" "\<forall>s. p = PString s \<longrightarrow> CHR ''['' \<notin> set s"
  shows "CHR ''['' \<notin> set (encode_primitive p d)"
proof (cases p)
  case (PNumber x)
  then have "number_text (format_number x)" using assms(1) by (simp add: format_number_text)
  then show ?thesis
    using PNumber number_text_chars [of "format_number x" "CHR ''[''"]
    by (auto simp: encode_primitive_def is_ascii_digit_def)
qed (use assms(2) in \<open>auto simp: encode_primitive_def encode_string_literal_def escape_string_keeps\<close>)

lemma Suc_fuel: "a + b \<le> n \<Longrightarrow> 0 < b \<Longrightarrow> \<exists>m. n = Suc m" for a b n :: nat
  by (cases n) auto

lemma entry_primitive:
  assumes "prim_ok p" "entry_ok key (VPrimitive p)"
  shows "entry_reads ctx depth key (VPrimitive p) (encode_key key @ '': '' @ encode_primitive p d) []"
proof -
  let ?t = "encode_primitive p d"
  have "parse_array_header_line (encode_key key @ CHR '':'' # SPACE # ?t) (CHR '','') = Ok None"
    using assms(2) token_no_bracket [OF assms(1), of d]
    by (intro key_no_header) (cases p; simp add: entry_ok_def)
  moreover have "trim (SPACE # ?t) = ?t" "?t \<noteq> []"
    using primitive_token_trim [OF assms(1)] primitive_token_neq_Nil [OF assms(1)] by simp_all
  ultimately have "decode_key_value_sync (Suc m) (encode_key key @ '': '' @ ?t) cur depth ctx
      = ret ([Key key (\<not> is_valid_unquoted_key key), Primitive p], cur)" for m cur
    using parse_encode_key [of key "SPACE # ?t"] parse_encode_primitive [OF assms(1), of d]
    by (simp add: key_value_body_def Let_def)
  then show ?thesis
    unfolding entry_reads_def using key_first(1) [of key "'': '' @ ?t"] by (auto dest: Suc_fuel)
qed

lemma entry_array:
  assumes "parse_array_header_line c (CHR '','') = Ok (Some info)" "hr_header info = header_of len (Some key) flds d"
    "array_reads ctx depth info items body" "\<not> prefix ''- '' c"
  shows "entry_reads ctx depth key (VArray items) c body"
  unfolding entry_reads_def
proof (intro conjI allI impI)
  fix n cur rest
  assume a: "view cur = body @ rest" "next_le depth rest" "cu_blank_lines cur = []" "5 * left_count cur + 5 \<le> n"
  then obtain m where n: "n = Suc m" by (auto dest: Suc_fuel)
  have "decode_array_from_header_sync m info cur depth ctx = ret (emit_events (VArray items), skip (length body) cur)"
    using assms(3) a n by (simp add: array_reads_def)
  then show "decode_key_value_sync n c cur depth ctx
      = ret (Key key (\<not> is_valid_unquoted_key key) # emit_events (VArray items), skip (length body) cur)"
    using assms(1,2) by (simp add: n key_value_body_def header_of_def key_quoted_def)
qed (rule assms(4))

lemma entry_object:
  assumes "fields_read ctx (Suc depth) es parts"
  shows "entry_reads ctx depth key (VObject es) (encode_key key @ '':'') (field_lines (Suc depth) parts)"
  unfolding entry_reads_def
proof (intro conjI allI impI)
  fix n cur rest
  assume a: "view cur = field_lines (Suc depth) parts @ rest" "next_le depth rest" "cu_blank_lines cur = []"
    "5 * left_count cur + 5 \<le> n"
  then obtain m where n: "n = Suc m" by (auto dest: Suc_fuel)
  have h: "parse_array_header_line (encode_key key @ '':'') (CHR '','') = Ok None" using key_no_header [of key "[]"] by simp
  have of: "decode_object_fields_sync m cur (Suc depth) None ctx
      = ret (entry_events es, skip (length (field_lines (Suc depth) parts)) cur)"
    using a n by (intro object_fields_read [OF assms]) auto
  show "decode_key_value_sync n (encode_key key @ '':'') cur depth ctx
      = ret (Key key (\<not> is_valid_unquoted_key key) # emit_events (VObject es), skip (length (field_lines (Suc depth) parts)) cur)"
  proof (cases parts)
    case Nil
    then have "es = []" using assms by (simp add: fields_read_def)
    moreover have "\<not> depth < pl_depth l" if "peek_sync cur = Some l" for l
      using next_le_peek [of depth cur l] a Nil that by simp
    ultimately show ?thesis
      using h parse_encode_key [of key "[]"] Nil by (auto simp: n key_value_body_def Let_def split: option.splits)
  next
    case (Cons p ps)
    then obtain c r where "view cur = (Suc depth, c) # r" using a(1) by (cases p) auto
    then obtain l where "peek_sync cur = Some l" "pl_depth l = Suc depth" by (rule view_peek)
    with of show ?thesis
      using h parse_encode_key [of key "[]"] by (simp add: n key_value_body_def Let_def)
  qed
qed (rule key_first(1))

section \<open>List items\<close>

lemma token_cases:
  assumes "prim_ok p"
  obtains s where "encode_primitive p d = QUOTE # escape_string s @ [QUOTE]"
  | "QUOTE \<notin> set (encode_primitive p d)" "CHR ''['' \<notin> set (encode_primitive p d)" "CHR '':'' \<notin> set (encode_primitive p d)"
proof (cases p)
  case (PString s)
  then show ?thesis
    using that(1) [of s] that(2)
    by (cases "is_safe_unquoted s d") (auto simp: encode_primitive_def encode_string_literal_def is_safe_unquoted_def)
next
  case (PNumber x)
  then have "number_text (format_number x)" using assms by (simp add: format_number_text)
  then show ?thesis
    using that(2) PNumber number_text_chars [of "format_number x"]
    by (fastforce simp: encode_primitive_def is_ascii_digit_def)
qed (use that(2) in \<open>auto simp: encode_primitive_def\<close>)

lemma token_not_special:
  assumes "prim_ok p"
  shows "parse_array_header_line (encode_primitive p d) (CHR '','') = Ok None"
    and "\<not> is_key_value_content (encode_primitive p d)"
    and "\<not> is_array_header_content (encode_primitive p d)"
proof -
  let ?t = "encode_primitive p d"
  have t: "trim_start ?t = ?t" "?t \<noteq> []"
    using primitive_token_trim [OF assms] primitive_token_neq_Nil [OF assms] by (simp_all add: trim_fixed_iff)
  show "parse_array_header_line ?t (CHR '','') = Ok None"
  proof (rule no_bracket_no_header, rule token_cases [OF assms, of d])
    fix s assume "?t = QUOTE # escape_string s @ [QUOTE]"
    then show "header_bracket_start ?t = Ok None" using quoted_no_bracket [of "[]" s] by simp
  next
    assume "QUOTE \<notin> set ?t" "CHR ''['' \<notin> set ?t"
    then show "header_bracket_start ?t = Ok None" using t by (intro plain_no_bracket) (auto simp: prefix_def)
  qed
  show "\<not> is_key_value_content ?t"
    by (rule token_cases [OF assms, of d])
      (use unquoted_plain [of ?t "CHR '':''" "[]"] unquoted_char_escape [of "CHR '':''" _ "[]"] in
        \<open>auto simp: is_key_value_content_def find_unquoted_char_def\<close>)
  then show "\<not> is_array_header_content ?t" by (simp add: is_array_header_content_def is_key_value_content_def)
qed

text \<open>One item: the hyphen line is read, the rest is left to what follows the hyphen.\<close>

lemma item_readsI:
  assumes "prefix ''- '' c \<or> c = ''-''"
    and "\<And>m cur cur' l rest. next_sync cur = (Some l, cur') \<Longrightarrow> pl_content l = c \<Longrightarrow> view cur' = body @ rest
      \<Longrightarrow> next_le depth rest \<Longrightarrow> cu_blank_lines cur' = [] \<Longrightarrow> 5 * left_count cur' + 6 \<le> m \<Longrightarrow>
      list_item_body (decode_key_value_sync m) (decode_array_from_header_sync m) (follow_fields m) cur depth ctx
        = ret (emit_events v, skip (length body) cur')"
  shows "item_reads ctx depth v ((depth, c) # body)"
  unfolding item_reads_def
proof (intro conjI allI impI)
  fix n cur rest
  assume a: "view cur = ((depth, c) # body) @ rest" "next_le depth rest" "cu_blank_lines cur = []"
    "5 * left_count cur + 2 \<le> n"
  then obtain m where n: "n = Suc m" by (cases n) auto
  have "view cur = (depth, c) # body @ rest" using a(1) by simp
  then obtain l where l: "peek_sync cur = Some l" "pl_content l = c" "view (advance_sync cur) = body @ rest"
    "left_count cur = Suc (left_count (advance_sync cur))"
    by (rule view_peek)
  have "list_item_body (decode_key_value_sync m) (decode_array_from_header_sync m) (follow_fields m) cur depth ctx
      = ret (emit_events v, skip (length body) (advance_sync cur))"
    using a l n by (intro assms(2)) (auto simp: next_sync_eq)
  then show "decode_list_item_sync n cur depth ctx = ret (emit_events v, skip (length ((depth, c) # body)) cur)"
    by (simp add: n skip_Suc)
qed (use assms(1) in auto)

lemma item_primitive:
  assumes "prim_ok p"
  shows "item_reads ctx depth (VPrimitive p) [(depth, ''- '' @ encode_primitive p d)]"
proof (rule item_readsI)
  fix m cur cur' l rest
  assume n: "next_sync cur = (Some l, cur')" "pl_content l = ''- '' @ encode_primitive p d"
  have "\<not> is_blank (encode_primitive p d)"
    using primitive_token_trim [OF assms] primitive_token_neq_Nil [OF assms] by (simp add: is_blank_def)
  then show "list_item_body (decode_key_value_sync m) (decode_array_from_header_sync m) (follow_fields m) cur depth ctx
      = ret (emit_events (VPrimitive p), skip (length []) cur')"
    using n token_not_special [OF assms, of d] parse_encode_primitive [OF assms, of d]
    by (simp add: list_item_body_def)
qed simp

lemma item_empty_object: "item_reads ctx depth (VObject []) [(depth, ''-'')]"
  by (rule item_readsI) (auto simp: list_item_body_def)

lemma item_array:
  assumes "parse_array_header_line c (CHR '','') = Ok (Some info)" "is_array_header_content c"
    "array_reads ctx depth info items body"
  shows "item_reads ctx depth (VArray items) ((depth, ''- '' @ c) # body)"
proof (rule item_readsI)
  fix m cur cur' l rest
  assume n: "next_sync cur = (Some l, cur')" "pl_content l = ''- '' @ c" "view cur' = body @ rest"
    "next_le depth rest" "cu_blank_lines cur' = []" "5 * left_count cur' + 6 \<le> m"
  have "solid (trim_start c)"
    using assms(2) by (intro solid_first) (auto simp: is_array_header_content_def prefix_def ws_ASCII)
  then have "\<not> is_blank c" by (simp add: solid_def is_blank_def trim_def)
  moreover have "decode_array_from_header_sync m info cur' depth ctx = ret (emit_events (VArray items), skip (length body) cur')"
    using assms(3) n by (simp add: array_reads_def)
  ultimately show "list_item_body (decode_key_value_sync m) (decode_array_from_header_sync m) (follow_fields m) cur depth ctx
      = ret (emit_events (VArray items), skip (length body) cur')"
    using n(1,2) assms(1,2) by (simp add: list_item_body_def)
qed simp

text \<open>An object in a list: its first field stands on the hyphen line, one level deeper.\<close>

lemma item_object:
  assumes "parse_array_header_line c (CHR '','') = Ok None
      \<or> (\<exists>info. parse_array_header_line c (CHR '','') = Ok (Some info) \<and> ah_fields (hr_header info) = None)"
    and "is_key_value_content c" "\<not> is_array_header_content c" "\<not> is_blank c"
    and "entry_reads ctx (Suc depth) key v c body" "fields_read ctx (Suc depth) es parts"
  shows "item_reads ctx depth (VObject ((key, v) # es)) ((depth, ''- '' @ c) # body @ field_lines (Suc depth) parts)"
proof (rule item_readsI)
  fix m cur cur' l rest
  assume n: "next_sync cur = (Some l, cur')" "pl_content l = ''- '' @ c" "view cur' = (body @ field_lines (Suc depth) parts) @ rest"
    "next_le depth rest" "cu_blank_lines cur' = []" "5 * left_count cur' + 6 \<le> m"
  have kv: "decode_key_value_sync m c cur' (Suc depth) ctx
      = ret (Key key (\<not> is_valid_unquoted_key key) # emit_events v, skip (length body) cur')"
    using assms(5) n next_le_field_lines [OF n(4)] by (simp add: entry_reads_def)
  have vw: "view (skip (length body) cur') = field_lines (Suc depth) parts @ rest" using n(3) by (simp add: view_skip)
  then have "left_count (skip (length body) cur') \<le> left_count cur'" using n(3) by (simp add: view_length [symmetric])
  then have "follow_fields m (skip (length body) cur') (Suc depth) ctx
      = ret (entry_events es, skip (length (field_lines (Suc depth) parts)) (skip (length body) cur'))"
    using n vw by (intro follow_fields_read [OF assms(6)]) auto
  with kv show "list_item_body (decode_key_value_sync m) (decode_array_from_header_sync m) (follow_fields m) cur depth ctx
      = ret (emit_events (VObject ((key, v) # es)), skip (length (body @ field_lines (Suc depth) parts)) cur')"
    using n(1,2) assms(1-4) by (auto simp: list_item_body_def)
qed simp

lemma item_object_table:
  assumes "parse_array_header_line c (CHR '','') = Ok (Some info)" "hr_header info = header_of len (Some key) (Some h) d"
    and "\<not> is_array_header_content c" "\<not> is_blank c"
    and "array_reads ctx (Suc depth) info items body" "fields_read ctx (Suc depth) es parts"
  shows "item_reads ctx depth (VObject ((key, VArray items) # es))
    ((depth, ''- '' @ c) # body @ field_lines (Suc depth) parts)"
proof (rule item_readsI)
  fix m cur cur' l rest
  assume n: "next_sync cur = (Some l, cur')" "pl_content l = ''- '' @ c" "view cur' = (body @ field_lines (Suc depth) parts) @ rest"
    "next_le depth rest" "cu_blank_lines cur' = []" "5 * left_count cur' + 6 \<le> m"
  have ar: "decode_array_from_header_sync m info cur' (Suc depth) ctx
      = ret (emit_events (VArray items), skip (length body) cur')"
    using assms(5) n next_le_field_lines [OF n(4)] by (simp add: array_reads_def)
  have vw: "view (skip (length body) cur') = field_lines (Suc depth) parts @ rest" using n(3) by (simp add: view_skip)
  then have "left_count (skip (length body) cur') \<le> left_count cur'" using n(3) by (simp add: view_length [symmetric])
  then have "follow_fields m (skip (length body) cur') (Suc depth) ctx
      = ret (entry_events es, skip (length (field_lines (Suc depth) parts)) (skip (length body) cur'))"
    using n vw by (intro follow_fields_read [OF assms(6)]) auto
  with ar show "list_item_body (decode_key_value_sync m) (decode_array_from_header_sync m) (follow_fields m) cur depth ctx
      = ret (emit_events (VObject ((key, VArray items) # es)), skip (length (body @ field_lines (Suc depth) parts)) cur')"
    using n(1,2) assms(1-4) by (auto simp: list_item_body_def header_of_def key_quoted_def)
qed simp

section \<open>The lines of a value\<close>

text \<open>
  The first content and the lines below it, of an array and of a field, without the indentation:
  the encoder writes them the same way after a hyphen.
\<close>

definition table_header :: "JsonValue list \<Rightarrow> string list option" where
  "table_header items = (if is_array_of_objects items then extract_tabular_header items else None)"

definition array_content :: "ResolvedEncodeOptions \<Rightarrow> string option \<Rightarrow> JsonValue list \<Rightarrow> string" where
  "array_content opts key items =
     (if items = [] then format_header 0 key None (delimiter opts)
      else if is_array_of_primitives items then encode_inline_array_line items (delimiter opts) key
      else format_header (length items) key (table_header items) (delimiter opts))"

definition array_below :: "ResolvedEncodeOptions \<Rightarrow> nat \<Rightarrow> JsonValue list \<Rightarrow> string list" where
  "array_below opts depth items =
     (if is_array_of_primitives items then []
      else case table_header items of
        Some h \<Rightarrow> table_rows h (Suc depth) opts items
      | None \<Rightarrow> concat (map (encode_list_item_value_lines opts (Suc depth)) items))"

definition entry_content :: "ResolvedEncodeOptions \<Rightarrow> string \<Rightarrow> JsonValue \<Rightarrow> string" where
  "entry_content opts key v =
     (case v of
        VPrimitive p \<Rightarrow> encode_key key @ '': '' @ encode_primitive p (delimiter opts)
      | VArray items \<Rightarrow> array_content opts (Some key) items
      | VObject es \<Rightarrow> encode_key key @ '':'')"

definition fields_below :: "ResolvedEncodeOptions \<Rightarrow> nat \<Rightarrow> (string \<times> JsonValue) list \<Rightarrow> string list" where
  "fields_below opts depth es =
     concat (map (\<lambda>e. encode_unfolded_pair_lines opts depth None None 0 (fst e) (snd e)) es)"

definition entry_below :: "ResolvedEncodeOptions \<Rightarrow> nat \<Rightarrow> JsonValue \<Rightarrow> string list" where
  "entry_below opts depth v =
     (case v of
        VPrimitive p \<Rightarrow> []
      | VArray items \<Rightarrow> array_below opts depth items
      | VObject es \<Rightarrow> fields_below opts (Suc depth) es)"

lemma no_fold: "key_folding opts = FoldOff \<Longrightarrow> try_fold_key_chain key v sib opts rk pp flat = None"
  by (simp add: try_fold_key_chain_def)

lemma inline_array_item:
  "is_array_of_primitives items \<Longrightarrow> encode_list_item_value_lines opts d (VArray items)
     = [indented_list_item d (encode_inline_array_line items (delimiter opts) None) (indent opts)]"
  by (simp add: encode_list_item_value_lines.simps)

lemma array_lines_eq:
  "encode_array_lines opts depth key items
     = indented_line depth (array_content opts key items) (indent opts) # array_below opts depth items"
proof -
  have "\<not> is_array_of_objects items" if "is_array_of_arrays items" "items \<noteq> []"
    using that by (cases items; cases "hd items") (auto simp: is_array_of_objects_def is_array_of_arrays_def)
  moreover have "concat (map (encode_list_item_value_lines opts (Suc depth)) items)
      = map (\<lambda>items. indented_list_item (Suc depth) (encode_inline_array_line items (delimiter opts) None) (indent opts))
          (List.map_filter array_items items)"
    if "all_primitive_arrays items"
    using that
    by (induction items)
      (auto simp: all_primitive_arrays_def map_filter_simps array_items_def inline_array_item split: JsonValue.splits)
  ultimately show ?thesis
    unfolding encode_array_lines.simps array_content_def array_below_def table_header_def
    by (auto simp: is_array_of_primitives_def split: option.splits)
qed

abbreviation entry_lines :: "ResolvedEncodeOptions \<Rightarrow> nat \<Rightarrow> string \<Rightarrow> JsonValue \<Rightarrow> string list" where
  "entry_lines opts depth key v \<equiv> indented_line depth (entry_content opts key v) (indent opts) # entry_below opts depth v"

lemma pair_lines_unfolded:
  "key_folding opts = FoldOff \<Longrightarrow>
     encode_key_value_pair_lines opts depth sib rk pp flat key v = encode_unfolded_pair_lines opts depth rk pp flat key v"
  by (simp add: encode_key_value_pair_lines.simps no_fold)

lemma unfolded_pair_eq:
  assumes "key_folding opts = FoldOff"
  shows "encode_unfolded_pair_lines opts depth rk pp flat key v = entry_lines opts depth key v"
proof (induction v arbitrary: depth rk pp flat key)
  case (VObject es)
  have "encode_unfolded_pair_lines opts d rk pp flat (fst e) (snd e) = entry_lines opts d (fst e) (snd e)"
    if "e \<in> set es" for d rk pp flat e
    using VObject [of e "snd e"] that by (cases e) auto
  then have "encode_object_lines opts d rk pp rd es = fields_below opts d es" for d rk pp rd
    by (simp add: encode_object_lines.simps fields_below_def pair_lines_unfolded [OF assms] Let_def cong: map_cong)
  moreover have "fields_below opts d [] = []" for d by (simp add: fields_below_def)
  ultimately show ?case
    by (auto simp: encode_unfolded_pair_lines.simps entry_content_def entry_below_def indented_key_colon_line_def
        indented_line_def)
qed (simp_all add: encode_unfolded_pair_lines.simps entry_content_def entry_below_def indented_key_value_line_def
    indented_line_def array_lines_eq)

lemma fields_below_eq:
  "key_folding opts = FoldOff \<Longrightarrow> fields_below opts depth es = concat (map (\<lambda>e. entry_lines opts depth (fst e) (snd e)) es)"
  by (simp add: fields_below_def unfolded_pair_eq)

lemma object_lines_eq:
  "key_folding opts = FoldOff \<Longrightarrow> encode_object_lines opts depth rk pp rd es = fields_below opts depth es"
  by (simp add: encode_object_lines.simps fields_below_def pair_lines_unfolded unfolded_pair_eq Let_def)

lemma format_header_key: "encode_key key @ format_header len None flds d = format_header len (Some key) flds d"
  by (simp add: format_header_def)

lemma inline_line_key:
  "encode_key key @ encode_inline_array_line items d None = encode_inline_array_line items d (Some key)"
  by (simp add: encode_inline_array_line_def format_header_key [symmetric] Let_def)

lemma primitives_not_objects: "is_array_of_primitives items \<Longrightarrow> items \<noteq> [] \<Longrightarrow> \<not> is_array_of_objects items"
  by (cases items; cases "hd items") (auto simp: is_array_of_objects_def is_array_of_primitives_def)

lemma table_header_Nil: "table_header [] = None"
  by (simp add: table_header_def extract_tabular_header_def)

lemma list_item_object_eq:
  assumes "key_folding opts = FoldOff"
  shows "encode_object_as_list_item_lines opts d ((key, v) # es)
    = indented_line d (''- '' @ entry_content opts key v) (indent opts) # entry_below opts (Suc d) v @ fields_below opts (Suc d) es"
proof -
  have rest: "(if es = [] then [] else encode_object_lines opts (d + 1) None None None es) = fields_below opts (Suc d) es" for d es
    using object_lines_eq [OF assms] by (simp add: fields_below_def)
  show ?thesis
  proof (cases v)
    case (VArray items)
    show ?thesis
    proof (cases "table_header items")
      case None
      then show ?thesis
        using VArray rest [of es d] primitives_not_objects [of items]
        by (auto simp: encode_object_as_list_item_lines.simps entry_content_def entry_below_def array_content_def array_below_def
            indented_list_item_key_header_def indented_line_def format_header_key inline_line_key table_header_def
            is_array_of_primitives_def Let_def)
    next
      case (Some h)
      then have "items \<noteq> []" "\<not> is_array_of_primitives items"
        using primitives_not_objects [of items] table_header_Nil
        by (cases "items = []"; auto simp: table_header_def split: if_splits)+
      with Some VArray rest [of es d] show ?thesis
        by (auto simp: encode_object_as_list_item_lines.simps entry_content_def entry_below_def array_content_def array_below_def
            indented_list_item_def indented_line_def table_header_def Let_def split: if_splits)
    qed
  next
    case (VObject fs)
    then show ?thesis
      using rest [of es d] rest [of fs "Suc d"]
      by (auto simp: encode_object_as_list_item_lines.simps entry_content_def entry_below_def indented_list_item_key_colon_def
          indented_line_def Let_def split: if_splits)
  qed (use rest [of es d] in \<open>simp add: encode_object_as_list_item_lines.simps entry_content_def entry_below_def
      indented_list_item_key_value_def indented_line_def Let_def\<close>)
qed

section \<open>Values that the codec keeps\<close>

text \<open>
  Numbers are normalised, a string under an unquoted key has no opening bracket, and in an array
  that is written as a table the objects have the same keys in the same order, none twice and none
  with a closing brace.
\<close>

definition columns_ok :: "JsonValue list \<Rightarrow> bool" where
  "columns_ok items =
     (case extract_tabular_header items of
        None \<Rightarrow> True
      | Some h \<Rightarrow> distinct h \<and> list_all (\<lambda>f. CHR ''}'' \<notin> set f) h
          \<and> list_all (\<lambda>row. case row of VObject es \<Rightarrow> map fst es = h | _ \<Rightarrow> False) items)"

fun toon_ok :: "JsonValue \<Rightarrow> bool" where
  "toon_ok (VPrimitive p) = prim_ok p"
| "toon_ok (VArray items) = (length items < 2 ^ 64 \<and> columns_ok items \<and> list_all toon_ok items)"
| "toon_ok (VObject es) = list_all (\<lambda>e. entry_ok (fst e) (snd e) \<and> toon_ok (snd e)) es"

definition fits :: "string list \<Rightarrow> bool" where
  "fits ls \<longleftrightarrow> (\<forall>l \<in> set ls. length l < USIZE_MAX)"

definition lines_ok :: "nat \<Rightarrow> string list \<Rightarrow> bool" where
  "lines_ok k ls \<longleftrightarrow> (\<forall>l \<in> set ls. good_line k l \<and> NEWLINE \<notin> set l)"

lemma fits_simps [simp]:
  "fits []" "fits (l # ls) \<longleftrightarrow> length l < USIZE_MAX \<and> fits ls" "fits (ls @ ls') \<longleftrightarrow> fits ls \<and> fits ls'"
  "lines_ok k []" "lines_ok k (l # ls) \<longleftrightarrow> good_line k l \<and> NEWLINE \<notin> set l \<and> lines_ok k ls"
  "lines_ok k (ls @ ls') \<longleftrightarrow> lines_ok k ls \<and> lines_ok k ls'"
  by (auto simp: fits_def lines_ok_def)

lemma written_line:
  assumes "0 < k" "length (indented_line d c k) < USIZE_MAX" "solid c" "NEWLINE \<notin> set c"
  shows "line_doc k (indented_line d c k) = (d, c)" "good_line k (indented_line d c k)"
    "NEWLINE \<notin> set (indented_line d c k)"
proof -
  have "k * d \<le> USIZE_MAX" using assms(2) by (simp add: indented_line_def indentation_def sat_mul_def)
  then have "indented_line d c k = replicate (k * d) SPACE @ c"
    by (simp add: indented_line_def indentation_def sat_mul_def)
  then show "line_doc k (indented_line d c k) = (d, c)" "good_line k (indented_line d c k)"
    "NEWLINE \<notin> set (indented_line d c k)"
    using line_doc_indent [OF assms(1,3)] assms(3,4) by (auto simp: good_line_def)
qed

lemma encode_key_newline: "NEWLINE \<notin> set (encode_key k)"
  using key_no_special [of k NEWLINE] escape_no_control [of NEWLINE k] by (auto simp: encode_key_def)

lemma encode_primitive_newline: "prim_ok p \<Longrightarrow> NEWLINE \<notin> set (encode_primitive p d)"
proof (cases p)
  case (PNumber x)
  assume "prim_ok p"
  then have "number_text (format_number x)" using PNumber by (simp add: format_number_text)
  then show ?thesis
    using PNumber number_text_chars [of "format_number x" NEWLINE] by (auto simp: encode_primitive_def is_ascii_digit_def)
qed (auto simp: encode_primitive_def encode_string_literal_def is_safe_unquoted_def escape_no_control)

lemma delim_newline: "delim_ok d \<Longrightarrow> d \<noteq> NEWLINE"
  by (auto simp: delim_ok_def)

lemma row_newline:
  "\<forall>p \<in> set ps. prim_ok p \<Longrightarrow> delim_ok d \<Longrightarrow> NEWLINE \<notin> set (encode_and_join_primitives ps d)"
  unfolding encode_and_join_primitives_def
  using delim_newline [of d] by (intro join_no_char) (auto simp: encode_primitive_newline)

lemma format_header_newline: "delim_ok d \<Longrightarrow> NEWLINE \<notin> set (format_header len key flds d)"
proof -
  assume d: "delim_ok d"
  have "NEWLINE \<notin> set (show_nat len)" using show_nat_digits [of len] by (auto simp: list_all_iff is_ascii_digit_def)
  moreover have "NEWLINE \<notin> set (join [d] (map encode_key fs))" for fs
    using delim_newline [OF d] by (intro join_no_char) (auto simp: encode_key_newline)
  ultimately show ?thesis
    using encode_key_newline delim_newline [OF d] by (auto simp: format_header_def split: option.splits)
qed

lemma format_header_solid: "solid (format_header len key flds d @ r)"
proof (cases key)
  case (Some k)
  then show ?thesis
    using key_first(3) [of k "format_header len None flds d @ r"] by (simp add: format_header_def)
qed (auto simp: format_header_def ws_ASCII intro!: solid_first)

lemma header_colon:
  assumes "delim_ok d"
  shows "is_key_value_content (format_header len key None d @ r)"
proof -
  have q: "QUOTE \<notin> set (CHR ''['' # length_part len d @ '']'')" "CHR '':'' \<notin> set (CHR ''['' # length_part len d @ '']'')"
    using show_nat_digits [of len] assms
    by (auto simp: length_part_def list_all_iff is_ascii_digit_def delim_ok_def split: if_splits)
  have "unquoted_char (CHR '':'') False ((CHR ''['' # length_part len d @ '']'') @ CHR '':'' # r) \<noteq> None"
    by (subst unquoted_plain [OF q]) simp
  then show ?thesis
    using unquoted_key [of "CHR '':''"]
    by (cases key) (simp_all add: is_key_value_content_def find_unquoted_char_def format_header_parts key_part_def field_part_def)
qed

section \<open>Tables\<close>

lemma object_get_entry: "distinct (map fst es) \<Longrightarrow> (k, v) \<in> set es \<Longrightarrow> object_get es k = Some v"
  by (induction es) (auto simp: object_get_def rev_image_eqI)

lemma table_row:
  assumes "is_tabular_row h (VObject es)" "map fst es = h" "distinct h" "list_all (\<lambda>e. toon_ok (snd e)) es"
  obtains ps where "VObject es = row_value h ps" "length ps = length h" "\<forall>p \<in> set ps. prim_ok p"
    "those (map (\<lambda>k. Option.bind (object_get es k) primitive_of) h) = Some ps"
proof -
  have get: "object_get es k = Some v" if "(k, v) \<in> set es" for k v
    using that assms(2,3) by (simp add: object_get_entry)
  have prim: "\<exists>p. v = VPrimitive p" if "(k, v) \<in> set es" for k v
  proof -
    have "k \<in> set h" using that assms(2) by force
    then have "is_json_primitive v" using assms(1) get [OF that] by (auto simp: is_tabular_row_def list_all_iff)
    then show ?thesis by (cases v) auto
  qed
  let ?ps = "map (\<lambda>e. the (primitive_of (snd e))) es"
  have e: "snd e = VPrimitive (the (primitive_of (snd e)))" if "e \<in> set es" for e
    using prim [of "fst e" "snd e"] that by auto
  have vals: "map snd es = map VPrimitive ?ps" using e by simp
  then have "VObject es = row_value h ?ps"
    unfolding assms(2) [symmetric] vals [symmetric] by (simp add: zip_map_fst_snd)
  moreover have "prim_ok (the (primitive_of (snd e)))" if mem: "e \<in> set es" for e
  proof -
    obtain p where "snd e = VPrimitive p" using prim [of "fst e" "snd e"] mem by auto
    moreover have "toon_ok (snd e)" using assms(4) mem by (simp add: list_all_iff)
    ultimately show ?thesis by simp
  qed
  then have "\<forall>p \<in> set ?ps. prim_ok p" by auto
  moreover have "those (map (\<lambda>k. Option.bind (object_get es k) primitive_of) h) = Some ?ps"
  proof -
    have "map (\<lambda>k. Option.bind (object_get es k) primitive_of) h = map (\<lambda>e. Some (the (primitive_of (snd e)))) es"
      unfolding assms(2) [symmetric] map_map comp_def
      using get e by (intro map_cong) (auto, metis bind.bind_lunit option.sel primitive_of.simps(1) prod.collapse)
    moreover have "those (map (\<lambda>e. Some (f e)) xs) = Some (map f xs)" for f :: "'x \<Rightarrow> 'y" and xs
      by (induction xs) auto
    ultimately show ?thesis by simp
  qed
  ultimately show thesis using assms(2) by (intro that) auto
qed

lemma table_rows_of:
  assumes "table_header items = Some h" "columns_ok items" "list_all toon_ok items"
  obtains rows where "items = map (row_value h) rows"
    "\<forall>ps \<in> set rows. ps \<noteq> [] \<and> length ps = length h \<and> (\<forall>p \<in> set ps. prim_ok p)"
    "\<And>depth opts. table_rows h depth opts items
      = map (\<lambda>ps. indented_line depth (encode_and_join_primitives ps (delimiter opts)) (indent opts)) rows"
proof -
  have h: "extract_tabular_header items = Some h" using assms(1) by (auto simp: table_header_def split: if_splits)
  then have hne: "h \<noteq> []" and tab: "list_all (is_tabular_row h) items"
    using extract_tabular_header_tabular [OF h] by (simp_all add: is_tabular_array_def)
  have dist: "distinct h" and cols: "list_all (\<lambda>row. case row of VObject es \<Rightarrow> map fst es = h | _ \<Rightarrow> False) items"
    using assms(2) h by (simp_all add: columns_ok_def)
  have "\<exists>rows. items = map (row_value h) rows
      \<and> (\<forall>ps \<in> set rows. ps \<noteq> [] \<and> length ps = length h \<and> (\<forall>p \<in> set ps. prim_ok p))
      \<and> (\<forall>depth opts. write_tabular_rows_lines h depth opts items
          = Some (map (\<lambda>ps. indented_line depth (encode_and_join_primitives ps (delimiter opts)) (indent opts)) rows))"
    using tab cols assms(3)
  proof (induction items)
    case (Cons item items)
    from Cons obtain rows where rows: "items = map (row_value h) rows"
      "\<forall>ps \<in> set rows. ps \<noteq> [] \<and> length ps = length h \<and> (\<forall>p \<in> set ps. prim_ok p)"
      "\<forall>depth opts. write_tabular_rows_lines h depth opts items
          = Some (map (\<lambda>ps. indented_line depth (encode_and_join_primitives ps (delimiter opts)) (indent opts)) rows)"
      by auto
    obtain es where es: "item = VObject es" "map fst es = h" using Cons.prems(2) by (auto split: JsonValue.splits)
    have "is_tabular_row h (VObject es)" "list_all (\<lambda>e. toon_ok (snd e)) es"
      using Cons.prems(1,3) es(1) by (simp_all add: list_all_iff)
    then obtain ps where ps: "VObject es = row_value h ps" "length ps = length h" "\<forall>p \<in> set ps. prim_ok p"
      "those (map (\<lambda>k. Option.bind (object_get es k) primitive_of) h) = Some ps"
      using table_row [OF _ es(2) dist] by metis
    have "write_tabular_rows_lines h depth opts (item # items)
        = Some (map (\<lambda>ps. indented_line depth (encode_and_join_primitives ps (delimiter opts)) (indent opts)) (ps # rows))" for depth opts
      using es(1) ps(4) rows(3) by (simp add: tabular_row_line_def)
    with rows es ps hne show ?case by (intro exI [of _ "ps # rows"]) auto
  qed simp
  then show thesis using that by (auto simp: table_rows_def unwrap_or_def)
qed

section \<open>Whole values\<close>

definition entry_good :: "ResolvedEncodeOptions \<Rightarrow> DecoderContext \<Rightarrow> JsonValue \<Rightarrow> bool" where
  "entry_good opts ctx v \<longleftrightarrow>
     (\<forall>depth key. entry_ok key v \<longrightarrow> fits (entry_below opts depth v) \<longrightarrow>
        entry_reads ctx depth key v (entry_content opts key v) (docs (indent opts) (entry_below opts depth v))
        \<and> lines_ok (indent opts) (entry_below opts depth v) \<and> NEWLINE \<notin> set (entry_content opts key v))"

definition item_good :: "ResolvedEncodeOptions \<Rightarrow> DecoderContext \<Rightarrow> JsonValue \<Rightarrow> bool" where
  "item_good opts ctx v \<longleftrightarrow>
     (\<forall>depth. fits (encode_list_item_value_lines opts depth v) \<longrightarrow>
        item_reads ctx depth v (docs (indent opts) (encode_list_item_value_lines opts depth v))
        \<and> lines_ok (indent opts) (encode_list_item_value_lines opts depth v))"

lemma entry_goodD:
  assumes "entry_good opts ctx v" "entry_ok key v" "fits (entry_below opts depth v)"
  shows "entry_reads ctx depth key v (entry_content opts key v) (docs (indent opts) (entry_below opts depth v))"
    and "lines_ok (indent opts) (entry_below opts depth v)" "NEWLINE \<notin> set (entry_content opts key v)"
  using assms unfolding entry_good_def by blast+

lemma entry_content_key: "\<exists>r. entry_content opts key v = encode_key key @ r"
  by (cases v) (auto simp: entry_content_def array_content_def encode_inline_array_line_def format_header_key [symmetric] Let_def)

lemma entry_content_first: "solid (entry_content opts key v)" "\<not> prefix ''- '' (entry_content opts key v)"
    "\<not> is_array_header_content (entry_content opts key v)"
  using entry_content_key [of opts key v] key_first key_not_array_header by auto

text \<open>
  The options under which the round trip holds: no key folding, a positive indentation and one of
  the three delimiters.
\<close>

locale plain_writer =
  fixes opts :: ResolvedEncodeOptions and ctx :: DecoderContext
  assumes no_folding: "key_folding opts = FoldOff"
    and indent_pos: "0 < indent opts"
    and delim: "delim_ok (delimiter opts)"
begin

lemmas written = written_line [OF indent_pos]

lemma list_good:
  assumes "\<forall>v \<in> set items. item_good opts ctx v"
    "fits (concat (map (encode_list_item_value_lines opts (Suc depth)) items))"
  shows "array_reads ctx depth (header_result (length items) key None (delimiter opts) None) items
      (docs (indent opts) (concat (map (encode_list_item_value_lines opts (Suc depth)) items)))"
    and "lines_ok (indent opts) (concat (map (encode_list_item_value_lines opts (Suc depth)) items))"
proof -
  let ?b = "\<lambda>v. docs (indent opts) (encode_list_item_value_lines opts (Suc depth) v)"
  have "item_reads ctx (Suc depth) v (?b v) \<and> lines_ok (indent opts) (encode_list_item_value_lines opts (Suc depth) v)"
    if "v \<in> set items" for v
    using assms that by (auto simp: item_good_def fits_def)
  then have "list_all2 (item_reads ctx (Suc depth)) items (map ?b items)"
    and ok: "lines_ok (indent opts) (concat (map (encode_list_item_value_lines opts (Suc depth)) items))"
    by (auto simp: list_all2_conv_all_nth lines_ok_def)
  from array_reads_list [OF this(1)]
  show "array_reads ctx depth (header_result (length items) key None (delimiter opts) None) items
      (docs (indent opts) (concat (map (encode_list_item_value_lines opts (Suc depth)) items)))"
    by (simp add: map_concat comp_def)
  from ok show "lines_ok (indent opts) (concat (map (encode_list_item_value_lines opts (Suc depth)) items))" .
qed

lemma table_good:
  assumes "table_header items = Some h" "toon_ok (VArray items)" "fits (table_rows h (Suc depth) opts items)"
  shows "array_reads ctx depth (header_result (length items) key (Some h) (delimiter opts) None) items
      (docs (indent opts) (table_rows h (Suc depth) opts items))"
    and "lines_ok (indent opts) (table_rows h (Suc depth) opts items)"
    and "h \<noteq> [] \<and> (\<forall>f \<in> set h. CHR ''}'' \<notin> set f)"
proof -
  have h: "extract_tabular_header items = Some h" using assms(1) by (auto simp: table_header_def split: if_splits)
  then show hne: "h \<noteq> [] \<and> (\<forall>f \<in> set h. CHR ''}'' \<notin> set f)"
    using extract_tabular_header_tabular [OF h] assms(2) by (auto simp: columns_ok_def list_all_iff)
  obtain rows where rows: "items = map (row_value h) rows"
    "\<forall>ps \<in> set rows. ps \<noteq> [] \<and> length ps = length h \<and> (\<forall>p \<in> set ps. prim_ok p)"
    "\<And>depth opts. table_rows h depth opts items
      = map (\<lambda>ps. indented_line depth (encode_and_join_primitives ps (delimiter opts)) (indent opts)) rows"
    using table_rows_of [OF assms(1)] assms(2) by auto
  have row: "line_doc (indent opts) (indented_line (Suc depth) (encode_and_join_primitives ps (delimiter opts)) (indent opts))
        = (Suc depth, encode_and_join_primitives ps (delimiter opts))
      \<and> good_line (indent opts) (indented_line (Suc depth) (encode_and_join_primitives ps (delimiter opts)) (indent opts))
      \<and> NEWLINE \<notin> set (indented_line (Suc depth) (encode_and_join_primitives ps (delimiter opts)) (indent opts))"
    if "ps \<in> set rows" for ps
  proof -
    have p: "ps \<noteq> []" "\<forall>p \<in> set ps. prim_ok p" using that rows(2) by auto
    have "length (indented_line (Suc depth) (encode_and_join_primitives ps (delimiter opts)) (indent opts)) < USIZE_MAX"
      using that assms(3) by (simp add: rows(3) fits_def)
    with row_text [OF p delim] row_newline [OF p(2) delim] show ?thesis by (simp add: written solid_trimmed)
  qed
  then have "docs (indent opts) (table_rows h (Suc depth) opts items)
      = map (\<lambda>ps. (Suc depth, encode_and_join_primitives ps (delimiter opts))) rows"
    unfolding rows(3) by (auto simp: comp_def)
  then show "array_reads ctx depth (header_result (length items) key (Some h) (delimiter opts) None) items
      (docs (indent opts) (table_rows h (Suc depth) opts items))"
    using array_reads_table [OF rows(2) delim] hne rows(1) by simp
  show "lines_ok (indent opts) (table_rows h (Suc depth) opts items)"
    unfolding rows(3) using row by (auto simp: lines_ok_def)
qed

lemma primitives_of:
  assumes "is_array_of_primitives items" "list_all toon_ok items"
  obtains ps where "items = map VPrimitive ps" "\<forall>p \<in> set ps. prim_ok p" "List.map_filter primitive_of items = ps"
proof -
  have "\<exists>ps. items = map VPrimitive ps \<and> (\<forall>p \<in> set ps. prim_ok p)"
    using assms
  proof (induction items)
    case (Cons v vs)
    have "is_array_of_primitives vs" "list_all toon_ok vs" using Cons.prems by (simp_all add: is_array_of_primitives_def)
    from Cons.IH [OF this] obtain ps where "vs = map VPrimitive ps" "\<forall>p \<in> set ps. prim_ok p" by blast
    moreover obtain p where "v = VPrimitive p" "prim_ok p"
      using Cons.prems by (cases v) (auto simp: is_array_of_primitives_def)
    ultimately show ?case by (intro exI [of _ "p # ps"]) simp
  qed simp
  moreover have "List.map_filter primitive_of (map VPrimitive ps) = ps" for ps
    by (induction ps) (simp_all add: map_filter_simps)
  ultimately show thesis using that by auto
qed

text \<open>An array of primitives on one line, and any array on its header and the lines below.\<close>

lemma inline_good:
  assumes "is_array_of_primitives items" "toon_ok (VArray items)"
  obtains info where
    "parse_array_header_line (encode_inline_array_line items (delimiter opts) key) (CHR '','') = Ok (Some info)"
    "hr_header info = header_of (length items) key None (delimiter opts)" "array_reads ctx depth info items []"
    "\<exists>r. encode_inline_array_line items (delimiter opts) key = format_header (length items) key None (delimiter opts) @ r"
    "NEWLINE \<notin> set (encode_inline_array_line items (delimiter opts) key)"
proof -
  obtain ps where ps: "items = map VPrimitive ps" "\<forall>p \<in> set ps. prim_ok p" "List.map_filter primitive_of items = ps"
    using primitives_of [OF assms(1)] assms(2) by auto
  have len: "length items < 2 ^ 64" using assms(2) by simp
  note header = header_round_trip [OF delim len, of None key, simplified]
  show thesis
  proof (cases "ps = []")
    case True
    then show ?thesis
      using ps header [of "[]"] array_reads_list [of ctx depth "[]" "[]" key "delimiter opts"]
        format_header_newline [OF delim]
      by (intro that [of "header_result (length items) key None (delimiter opts) None"])
        (simp_all add: encode_inline_array_line_def Let_def)
  next
    case False
    let ?j = "encode_and_join_primitives ps (delimiter opts)"
    have e: "encode_inline_array_line items (delimiter opts) key = format_header (length items) key None (delimiter opts) @ SPACE # ?j"
      using False ps(3) by (simp add: encode_inline_array_line_def Let_def)
    have "array_reads ctx depth (header_result (length items) key None (delimiter opts) (Some ?j)) items []"
      using array_reads_inline [OF False ps(2) delim, of ctx depth key] ps(1) by simp
    then show ?thesis
      using header [of "SPACE # ?j"] row_text [OF False ps(2) delim] format_header_newline [OF delim]
        row_newline [OF ps(2) delim]
      by (intro that [of "header_result (length items) key None (delimiter opts) (Some ?j)"]) (simp_all add: e)
  qed
qed

lemma array_good:
  assumes "toon_ok (VArray items)" "\<forall>v \<in> set items. item_good opts ctx v" "fits (array_below opts depth items)"
  obtains info flds where
    "parse_array_header_line (array_content opts key items) (CHR '','') = Ok (Some info)"
    "hr_header info = header_of (length items) key flds (delimiter opts)"
    "array_reads ctx depth info items (docs (indent opts) (array_below opts depth items))"
    "lines_ok (indent opts) (array_below opts depth items)"
    "\<exists>r. array_content opts key items = format_header (length items) key flds (delimiter opts) @ r"
    "NEWLINE \<notin> set (array_content opts key items)"
proof (cases "is_array_of_primitives items")
  case True
  then have "array_content opts key items = encode_inline_array_line items (delimiter opts) key" "array_below opts depth items = []"
    by (auto simp: array_content_def array_below_def encode_inline_array_line_def map_filter_simps)
  then show ?thesis using inline_good [OF True assms(1), of key depth] that by (metis fits_simps(4) list.map_disc_iff)
next
  case False
  have len: "length items < 2 ^ 64" using assms(1) by simp
  have c: "array_content opts key items = format_header (length items) key (table_header items) (delimiter opts)"
    using False by (auto simp: array_content_def is_array_of_primitives_def)
  note nl = format_header_newline [OF delim, of "length items" key "table_header items"]
  show ?thesis
  proof (cases "table_header items")
    case None
    with False assms have "fits (concat (map (encode_list_item_value_lines opts (Suc depth)) items))"
      by (simp add: array_below_def)
    note lg = list_good(1) [OF assms(2) this, of key] list_good(2) [OF assms(2) this]
    show ?thesis
      using lg nl header_round_trip [OF delim len, of None key "[]"] None False c
      by (intro that [of "header_result (length items) key None (delimiter opts) None" None]) (simp_all add: array_below_def)
  next
    case (Some h)
    with False assms have "fits (table_rows h (Suc depth) opts items)" by (simp add: array_below_def)
    note tg = table_good(1) [OF Some assms(1) this, of key] table_good(2,3) [OF Some assms(1) this]
    show ?thesis
      using tg nl header_round_trip [OF delim len, of "Some h" key "[]"] Some False c
      by (intro that [of "header_result (length items) key (Some h) (delimiter opts) None" "Some h"]) (simp_all add: array_below_def)
  qed
qed

abbreviation parts_of :: "nat \<Rightarrow> (string \<times> JsonValue) list \<Rightarrow> (string \<times> (nat \<times> string) list) list" where
  "parts_of depth es \<equiv>
     map (\<lambda>e. (entry_content opts (fst e) (snd e), docs (indent opts) (entry_below opts depth (snd e)))) es"

lemma fields_good:
  assumes "\<forall>e \<in> set es. entry_ok (fst e) (snd e) \<and> entry_good opts ctx (snd e)" "fits (fields_below opts depth es)"
  shows "fields_read ctx depth es (parts_of depth es)
    \<and> docs (indent opts) (fields_below opts depth es) = field_lines depth (parts_of depth es)
    \<and> lines_ok (indent opts) (fields_below opts depth es)"
  using assms
proof (induction es)
  case (Cons e es)
  have b: "fields_below opts depth (e # es) = entry_lines opts depth (fst e) (snd e) @ fields_below opts depth es"
    by (simp add: fields_below_eq [OF no_folding])
  with Cons.prems have f: "fits (entry_lines opts depth (fst e) (snd e))" "fits (fields_below opts depth es)" by simp_all
  have g: "entry_good opts ctx (snd e)" "entry_ok (fst e) (snd e)" using Cons.prems(1) by simp_all
  have "fields_read ctx depth es (parts_of depth es)
    \<and> docs (indent opts) (fields_below opts depth es) = field_lines depth (parts_of depth es)
    \<and> lines_ok (indent opts) (fields_below opts depth es)"
    using Cons.IH Cons.prems(1) f(2) by simp
  moreover have "fits (entry_below opts depth (snd e))" using f(1) by simp
  note entry_goodD [OF g this]
  ultimately show ?case
    using f(1) written [OF _ entry_content_first(1)] unfolding b by (simp add: fields_read_def)
qed (simp add: fields_read_def fields_below_def)

lemma entry_good_primitive:
  assumes "prim_ok p"
  shows "entry_good opts ctx (VPrimitive p)"
  using entry_primitive [OF assms] encode_key_newline encode_primitive_newline [OF assms]
  by (simp add: entry_good_def entry_content_def entry_below_def)

lemma entry_good_array:
  assumes "toon_ok (VArray items)" "\<forall>v \<in> set items. item_good opts ctx v"
  shows "entry_good opts ctx (VArray items)"
  unfolding entry_good_def
proof (intro allI impI)
  fix depth key
  assume "fits (entry_below opts depth (VArray items))"
  then have f: "fits (array_below opts depth items)" by (simp add: entry_below_def)
  let ?c = "array_content opts (Some key) items"
  from array_good [OF assms f, of "Some key"] obtain info flds where g:
    "parse_array_header_line ?c (CHR '','') = Ok (Some info)"
    "hr_header info = header_of (length items) (Some key) flds (delimiter opts)"
    "array_reads ctx depth info items (docs (indent opts) (array_below opts depth items))"
    "lines_ok (indent opts) (array_below opts depth items)" "NEWLINE \<notin> set ?c"
    by metis
  have "\<not> prefix ''- '' ?c" using entry_content_first(2) [of opts key "VArray items"] by (simp add: entry_content_def)
  from entry_array [OF g(1-3) this] g(4,5)
  show "entry_reads ctx depth key (VArray items) (entry_content opts key (VArray items))
        (docs (indent opts) (entry_below opts depth (VArray items)))
    \<and> lines_ok (indent opts) (entry_below opts depth (VArray items))
    \<and> NEWLINE \<notin> set (entry_content opts key (VArray items))"
    by (simp add: entry_content_def entry_below_def)
qed

lemma entry_good_object:
  assumes "\<forall>e \<in> set es. entry_ok (fst e) (snd e) \<and> entry_good opts ctx (snd e)"
  shows "entry_good opts ctx (VObject es)"
  unfolding entry_good_def
proof (intro allI impI)
  fix depth key
  assume "fits (entry_below opts depth (VObject es))"
  then have "fits (fields_below opts (Suc depth) es)" by (simp add: entry_below_def)
  note fg = fields_good [OF assms this]
  show "entry_reads ctx depth key (VObject es) (entry_content opts key (VObject es))
        (docs (indent opts) (entry_below opts depth (VObject es)))
    \<and> lines_ok (indent opts) (entry_below opts depth (VObject es))
    \<and> NEWLINE \<notin> set (entry_content opts key (VObject es))"
    using fg entry_object [OF fg [THEN conjunct1], of key] encode_key_newline
    by (simp add: entry_content_def entry_below_def)
qed

lemma hyphen_solid: "solid (''- '' @ c)"
  by (rule solid_first) (simp_all add: ws_ASCII)

lemma item_good_primitive:
  assumes "prim_ok p"
  shows "item_good opts ctx (VPrimitive p)"
  unfolding item_good_def
proof (intro allI impI)
  fix depth
  assume a: "fits (encode_list_item_value_lines opts depth (VPrimitive p))"
  let ?c = "''- '' @ encode_primitive p (delimiter opts)"
  have l: "encode_list_item_value_lines opts depth (VPrimitive p) = [indented_line depth ?c (indent opts)]"
    by (simp add: encode_list_item_value_lines.simps indented_list_item_def indented_line_def)
  then show "item_reads ctx depth (VPrimitive p) (docs (indent opts) (encode_list_item_value_lines opts depth (VPrimitive p)))
    \<and> lines_ok (indent opts) (encode_list_item_value_lines opts depth (VPrimitive p))"
    using a item_primitive [OF assms, of ctx depth "delimiter opts"] written [of depth ?c]
      hyphen_solid [of "encode_primitive p (delimiter opts)"] encode_primitive_newline [OF assms, of "delimiter opts"]
    by simp
qed

lemma bare_header: "is_array_header_content (format_header len None None (delimiter opts) @ r)"
  using header_colon [OF delim, of len None r]
  by (simp add: is_array_header_content_def is_key_value_content_def format_header_def trim_start_Cons ws_ASCII)

lemma item_good_array:
  assumes "toon_ok (VArray items)" "\<forall>v \<in> set items. item_good opts ctx v"
  shows "item_good opts ctx (VArray items)"
  unfolding item_good_def
proof (intro allI impI)
  fix depth
  assume a: "fits (encode_list_item_value_lines opts depth (VArray items))"
  let ?ls = "encode_list_item_value_lines opts depth (VArray items)"
  show "item_reads ctx depth (VArray items) (docs (indent opts) ?ls) \<and> lines_ok (indent opts) ?ls"
  proof (cases "is_array_of_primitives items")
    case True
    let ?c = "encode_inline_array_line items (delimiter opts) None"
    have l: "?ls = [indented_line depth (''- '' @ ?c) (indent opts)]"
      using inline_array_item [OF True] by (simp add: indented_list_item_def indented_line_def)
    obtain info r where i: "parse_array_header_line ?c (CHR '','') = Ok (Some info)" "array_reads ctx depth info items []"
      "?c = format_header (length items) None None (delimiter opts) @ r" "NEWLINE \<notin> set ?c"
      using inline_good [OF True assms(1), of None depth] by metis
    have "is_array_header_content ?c" using i(3) bare_header by simp
    from item_array [OF i(1) this i(2)] show ?thesis
      using a i(4) written [OF _ hyphen_solid, of depth ?c] by (simp add: l)
  next
    case False
    let ?c = "format_header (length items) None None (delimiter opts)"
    let ?b = "concat (map (encode_list_item_value_lines opts (Suc depth)) items)"
    have l: "?ls = indented_line depth (''- '' @ ?c) (indent opts) # ?b"
      using False by (simp add: encode_list_item_value_lines.simps indented_list_item_def indented_line_def)
    have b: "fits ?b" using a by (simp add: l)
    have h: "parse_array_header_line ?c (CHR '','')
        = Ok (Some (header_result (length items) None None (delimiter opts) None))"
      using header_round_trip [OF delim, of "length items" None None "[]"] assms(1) by simp
    have "is_array_header_content ?c" using bare_header [of "length items" "[]"] by simp
    from item_array [OF h this list_good(1) [OF assms(2) b]] show ?thesis
      using a list_good(2) [OF assms(2) b] format_header_newline [OF delim] written [OF _ hyphen_solid, of depth ?c]
      by (simp add: l)
  qed
qed

lemma first_field_item:
  assumes "toon_ok v" "entry_ok key v" "entry_good opts ctx v" "\<forall>items. v = VArray items \<longrightarrow> (\<forall>i \<in> set items. item_good opts ctx i)"
    "fits (entry_below opts (Suc depth) v)" "fields_read ctx (Suc depth) es parts"
  shows "item_reads ctx depth (VObject ((key, v) # es))
    ((depth, ''- '' @ entry_content opts key v) # docs (indent opts) (entry_below opts (Suc depth) v) @ field_lines (Suc depth) parts)"
proof -
  note er = entry_goodD(1) [OF assms(3,2,5)]
  have nb: "\<not> is_blank (entry_content opts key v)" using entry_content_first(1) [of opts key v] by (simp add: solid_def)
  note rest = entry_content_first(3) [of opts key v] nb
  show ?thesis
  proof (cases v)
    case (VPrimitive p)
    have "parse_array_header_line (entry_content opts key v) (CHR '','') = Ok None"
      using assms(1,2) VPrimitive token_no_bracket [of p "delimiter opts"]
        key_no_header [of key "SPACE # encode_primitive p (delimiter opts)"]
      by (cases p; simp add: entry_content_def entry_ok_def)
    moreover have "is_key_value_content (entry_content opts key v)"
      using VPrimitive key_value_content by (simp add: entry_content_def)
    ultimately show ?thesis using rest er assms(6) by (intro item_object) auto
  next
    case (VObject fs)
    have "parse_array_header_line (entry_content opts key v) (CHR '','') = Ok None"
      "is_key_value_content (entry_content opts key v)"
      using VObject key_no_header [of key "[]"] key_value_content [of key "[]"] by (simp_all add: entry_content_def)
    then show ?thesis using rest er assms(6) by (intro item_object) auto
  next
    case (VArray items)
    have "fits (array_below opts (Suc depth) items)" using assms(5) VArray by (simp add: entry_below_def)
    from array_good [OF _ _ this, of "Some key"] obtain info flds r where g:
      "parse_array_header_line (entry_content opts key v) (CHR '','') = Ok (Some info)"
      "hr_header info = header_of (length items) (Some key) flds (delimiter opts)"
      "array_reads ctx (Suc depth) info items (docs (indent opts) (entry_below opts (Suc depth) v))"
      "entry_content opts key v = format_header (length items) (Some key) flds (delimiter opts) @ r"
      using assms(1,4) VArray by (simp add: entry_content_def entry_below_def) metis
    show ?thesis
    proof (cases flds)
      case None
      then have "is_key_value_content (entry_content opts key v)" using g(4) header_colon [OF delim] by simp
      with None g rest er assms(6) show ?thesis by (intro item_object) (auto simp: header_of_def)
    next
      case (Some h)
      from item_object_table [OF g(1) g(2) [unfolded Some] rest g(3) assms(6)] show ?thesis by (simp only: VArray)
    qed
  qed
qed

lemma item_good_object:
  assumes "toon_ok (VObject es)" "\<forall>e \<in> set es. entry_good opts ctx (snd e)"
    "\<forall>e \<in> set es. \<forall>items. snd e = VArray items \<longrightarrow> (\<forall>i \<in> set items. item_good opts ctx i)"
  shows "item_good opts ctx (VObject es)"
  unfolding item_good_def
proof (intro allI impI)
  fix depth
  let ?ls = "encode_list_item_value_lines opts depth (VObject es)"
  assume a: "fits ?ls"
  show "item_reads ctx depth (VObject es) (docs (indent opts) ?ls) \<and> lines_ok (indent opts) ?ls"
  proof (cases es)
    case Nil
    have "solid ''-''" by (rule solid_first) (simp_all add: ws_ASCII)
    with Nil a show ?thesis
      using item_empty_object written [of depth "''-''"]
      by (simp add: encode_list_item_value_lines.simps encode_object_as_list_item_lines.simps)
  next
    case (Cons e es')
    obtain key v where e: "e = (key, v)" by (cases e)
    let ?c = "entry_content opts key v" and ?b = "entry_below opts (Suc depth) v" and ?f = "fields_below opts (Suc depth) es'"
    have l: "?ls = indented_line depth (''- '' @ ?c) (indent opts) # ?b @ ?f"
      using Cons e list_item_object_eq [OF no_folding] by (simp add: encode_list_item_value_lines.simps)
    have f: "fits ?b" "fits ?f" using a by (simp_all add: l)
    have ok: "toon_ok v" "entry_ok key v" "entry_good opts ctx v" using assms(1,2) Cons e by (auto simp: list_all_iff)
    have "\<forall>e \<in> set es'. entry_ok (fst e) (snd e) \<and> entry_good opts ctx (snd e)"
      using assms(1,2) Cons by (auto simp: list_all_iff)
    note fg = fields_good [OF this f(2)]
    have "item_reads ctx depth (VObject ((key, v) # es'))
        ((depth, ''- '' @ ?c) # docs (indent opts) ?b @ field_lines (Suc depth) (parts_of (Suc depth) es'))"
      using assms(3) Cons e by (intro first_field_item [OF ok _ f(1) fg [THEN conjunct1]]) auto
    with Cons e have "item_reads ctx depth (VObject es)
        ((depth, ''- '' @ ?c) # docs (indent opts) ?b @ field_lines (Suc depth) (parts_of (Suc depth) es'))"
      by simp
    moreover have "length (indented_line depth (''- '' @ ?c) (indent opts)) < USIZE_MAX" using a unfolding l by simp
    ultimately show ?thesis
      unfolding l using fg entry_goodD(2,3) [OF ok(3,2) f(1)] written [OF _ hyphen_solid, of depth ?c] by simp
  qed
qed

lemma value_good:
  "toon_ok v \<Longrightarrow> entry_good opts ctx v \<and> item_good opts ctx v
     \<and> (\<forall>items. v = VArray items \<longrightarrow> (\<forall>i \<in> set items. item_good opts ctx i))"
proof (induction v)
  case (VPrimitive p)
  then show ?case by (simp add: entry_good_primitive item_good_primitive)
next
  case (VArray items)
  then have "\<forall>v \<in> set items. item_good opts ctx v" by (simp add: list_all_iff)
  with VArray.prems show ?case by (simp add: entry_good_array item_good_array)
next
  case (VObject es)
  have ok: "entry_ok (fst e) (snd e) \<and> toon_ok (snd e)" if "e \<in> set es" for e
    using VObject.prems that by (simp add: list_all_iff)
  have g: "entry_good opts ctx (snd e) \<and> (\<forall>items. snd e = VArray items \<longrightarrow> (\<forall>i \<in> set items. item_good opts ctx i))"
    if "e \<in> set es" for e
    using VObject.IH [of e "snd e"] ok [OF that] that by (cases e) auto
  then have "entry_good opts ctx (VObject es)" using ok by (intro entry_good_object) auto
  moreover have "item_good opts ctx (VObject es)" using VObject.prems g by (intro item_good_object) auto
  ultimately show ?case by simp
qed

end

end
