(* ===== verification/Toon_Document.thy ===== *)
theory Toon_Document
  imports Toon_Round
begin

text \<open>
  The round trip of a whole document: \<open>decode_stream_sync\<close> on the lines of \<open>encode_json_value\<close>, and
  \<open>try_decode\<close> on the text of \<open>encode\<close>. The lemmas of the locale \<open>plain_writer\<close> carry the parts of a
  document; here the three kinds of roots are put together and the locale is interpreted on the
  options the library resolves.
\<close>

section \<open>Headers of tables\<close>

lemma unquoted_join:
  assumes "d \<noteq> QUOTE" "d \<noteq> CHR '':''"
  shows "unquoted_char (CHR '':'') False (join [d] (map encode_key fs) @ r) = None
    \<longleftrightarrow> unquoted_char (CHR '':'') False r = None"
proof (induction fs)
  case (Cons f fs)
  then show ?case
    using assms by (cases fs) (simp_all add: unquoted_key)
qed simp

lemma header_unquoted_colon:
  assumes "delim_ok d"
  shows "unquoted_char (CHR '':'') False (format_header len None flds d @ r) \<noteq> None"
proof -
  let ?l = "CHR ''['' # length_part len d @ '']''"
  have q: "QUOTE \<notin> set ?l" "CHR '':'' \<notin> set ?l" and d: "d \<noteq> QUOTE" "d \<noteq> CHR '':''"
    using show_nat_digits [of len] assms
    by (auto simp: length_part_def list_all_iff is_ascii_digit_def delim_ok_def split: if_splits)
  have "unquoted_char (CHR '':'') False (?l @ field_part flds d @ CHR '':'' # r) \<noteq> None"
    by (subst unquoted_plain [OF q], cases flds)
      (simp_all add: field_part_def unquoted_join [OF d])
  then show ?thesis by (simp add: format_header_parts key_part_def)
qed

lemma header_is_array: "delim_ok d \<Longrightarrow> is_array_header_content (format_header len None flds d @ r)"
  using header_unquoted_colon [of d len flds r]
  by (simp add: is_array_header_content_def find_unquoted_char_def format_header_def trim_start_Cons ws_ASCII)

section \<open>The three kinds of roots\<close>

lemma view_new_cursor:
  "map (\<lambda>l. (pl_depth l, pl_content l)) parsed = ds \<Longrightarrow> view (new_cursor parsed blanks) = ds"
  by (simp add: view_def left_new_cursor)

lemma decode_primitive_document:
  assumes "prim_ok p" "view cur = [(0, encode_primitive p d)]"
  shows "decode_document n cur ctx = ret (emit_events (VPrimitive p))"
proof -
  obtain l where l: "peek_sync cur = Some l" "pl_content l = encode_primitive p d" "view (advance_sync cur) = []"
    using assms(2) by (rule view_peek)
  have "at_end_sync (advance_sync cur)" using l(3) by (simp add: view_def cursor.at_end_left)
  moreover have "\<not> is_key_value_line_sync l"
    using closing_quote_escape [of _ "[]"]
    by (rule_tac token_cases [OF assms(1), of d])
      (auto simp: is_key_value_line_sync_def l(2) find_closing_quote_def prefix_def Let_def)
  ultimately show ?thesis
    using l(1,2) token_not_special(3) [OF assms(1), of d] parse_encode_primitive [OF assms(1), of d]
      primitive_token_trim [OF assms(1), of d]
    by (simp add: decode_document_def decode_root_def)
qed

lemma key_line:
  assumes "pl_content l = encode_key k @ r" "CHR '':'' \<in> set r"
  shows "is_key_value_line_sync l"
proof (cases "is_valid_unquoted_key k")
  case True
  obtain c r' where c: "encode_key k = c # r'" by (rule encode_key_Cons)
  then have "c \<noteq> QUOTE" using key_no_special [OF True, of QUOTE] True by (auto simp: encode_key_def)
  with c assms show ?thesis by (simp add: is_key_value_line_sync_def Let_def)
next
  case False
  with assms show ?thesis
    using closing_quote_escape [of k r]
    by (simp add: is_key_value_line_sync_def encode_key_def find_closing_quote_def Let_def)
qed

lemma entry_content_colon: "\<exists>r. entry_content opts key v = encode_key key @ r \<and> CHR '':'' \<in> set r"
  by (cases v)
    (auto simp: entry_content_def array_content_def encode_inline_array_line_def format_header_def Let_def)

context plain_writer
begin

lemma array_document:
  assumes "toon_ok (VArray items)" "fits (encode_array_lines opts 0 None items)"
  shows "lines_ok (indent opts) (encode_array_lines opts 0 None items)"
    and "view cur = docs (indent opts) (encode_array_lines opts 0 None items) \<Longrightarrow> cu_blank_lines cur = [] \<Longrightarrow>
      5 * left_count cur + 5 \<le> n \<Longrightarrow> decode_document n cur ctx = ret (emit_events (VArray items))"
proof -
  let ?c = "array_content opts None items" and ?b = "array_below opts 0 items"
  have f: "fits ?b" "length (indented_line 0 ?c (indent opts)) < USIZE_MAX"
    using assms(2) by (simp_all add: array_lines_eq)
  have "\<forall>v \<in> set items. item_good opts ctx v" using value_good [OF assms(1)] by simp
  from array_good [OF assms(1) this f(1), of None] obtain info flds r where g:
    "parse_array_header_line ?c (CHR '','') = Ok (Some info)" "array_reads ctx 0 info items (docs (indent opts) ?b)"
    "lines_ok (indent opts) ?b" "?c = format_header (length items) None flds (delimiter opts) @ r" "NEWLINE \<notin> set ?c"
    by metis
  have "solid ?c" using g(4) format_header_solid by simp
  note w = written [OF f(2) this g(5)]
  with g(3) show "lines_ok (indent opts) (encode_array_lines opts 0 None items)" by (simp add: array_lines_eq)
  assume cur: "view cur = docs (indent opts) (encode_array_lines opts 0 None items)" "cu_blank_lines cur = []"
    "5 * left_count cur + 5 \<le> n"
  then have "view cur = (0, ?c) # docs (indent opts) ?b" using w by (simp add: array_lines_eq)
  then obtain l where l: "peek_sync cur = Some l" "pl_content l = ?c" "view (advance_sync cur) = docs (indent opts) ?b"
    "left_count cur = Suc (left_count (advance_sync cur))"
    by (rule view_peek)
  have "is_array_header_content ?c" unfolding g(4) using header_is_array [OF delim] .
  moreover have "decode_array_from_header_sync n info (advance_sync cur) 0 ctx
      = ret (emit_events (VArray items), skip (length (docs (indent opts) ?b)) (advance_sync cur))"
    using g(2) [unfolded array_reads_def, rule_format, of "advance_sync cur" "[]" n] l cur(2,3)
    by (simp add: next_le_def)
  ultimately show "decode_document n cur ctx = ret (emit_events (VArray items))"
    using l g(1) by (simp add: decode_document_def)
qed

lemma decode_object_document:
  assumes "toon_ok (VObject es)" "fits (fields_below opts 0 es)"
    "view cur = docs (indent opts) (fields_below opts 0 es)" "cu_blank_lines cur = []" "5 * left_count cur + 5 \<le> n"
  shows "decode_document n cur ctx = ret (emit_events (VObject es))"
proof (cases es)
  case Nil
  then have "peek_sync cur = None" using assms(3) by (simp add: fields_below_def view_end)
  with Nil show ?thesis by (simp add: decode_document_def)
next
  case (Cons e es')
  have "\<forall>e \<in> set es. entry_ok (fst e) (snd e) \<and> entry_good opts ctx (snd e)"
    using assms(1) value_good by (auto simp: list_all_iff)
  note fg = fields_good [OF this assms(2)]
  let ?p = "(entry_content opts (fst e) (snd e), docs (indent opts) (entry_below opts 0 (snd e)))"
  let ?ps = "parts_of 0 es'"
  have v: "view cur = (0, fst ?p) # snd ?p @ field_lines 0 ?ps"
    using fg assms(3) Cons by simp
  have fr: "entry_reads ctx 0 (fst e) (snd e) (fst ?p) (snd ?p)" "fields_read ctx 0 es' ?ps"
    using fg Cons by (simp_all add: fields_read_def)
  obtain l where l: "peek_sync cur = Some l" "pl_content l = fst ?p" "left_count cur = Suc (left_count (advance_sync cur))"
    using v by (rule view_peek)
  obtain r where "fst ?p = encode_key (fst e) @ r" "CHR '':'' \<in> set r"
    using entry_content_colon [of opts "fst e" "snd e"] by auto
  with l(2) have kv: "is_key_value_line_sync l" by (auto intro: key_line)
  have "5 * left_count (advance_sync cur) + 5 \<le> n" using assms(5) l(3) by simp
  note rd = entry_readsD [OF fr(1) v next_le_field_lines_0 assms(4) this]
  have "root_fields n (skip (Suc (length (snd ?p))) cur) ctx
      = ret (entry_events es', skip (length (field_lines 0 ?ps)) (skip (Suc (length (snd ?p))) cur))"
    using assms(4,5) rd(2,3) l(3) by (intro root_fields_read [OF fr(2)]) auto
  then show ?thesis
    using l kv rd(1) Cons entry_content_first(3) [of opts "fst e" "snd e"]
    by (simp add: decode_document_def decode_root_def)
qed

text \<open>The lines of any value, and their document.\<close>

lemma value_lines_ok:
  assumes "toon_ok v" "fits (encode_json_value v opts)"
  shows "lines_ok (indent opts) (encode_json_value v opts)"
proof (cases v)
  case (VPrimitive p)
  then have p: "prim_ok p" using assms(1) by simp
  have "solid (encode_primitive p (delimiter opts))"
    using primitive_token_trim [OF p] primitive_token_neq_Nil [OF p] by (rule solid_trimmed)
  then have "good_line (indent opts) (encode_primitive p (delimiter opts))"
    unfolding good_line_def by (intro exI [of _ 0] exI [of _ "encode_primitive p (delimiter opts)"]) simp
  with VPrimitive p show ?thesis by (simp add: encode_json_value_def Let_def encode_primitive_newline)
next
  case (VArray items)
  with assms show ?thesis by (simp add: encode_json_value_def array_document del: toon_ok.simps)
next
  case (VObject es)
  then have "\<forall>e \<in> set es. entry_ok (fst e) (snd e) \<and> entry_good opts ctx (snd e)"
    using assms(1) value_good by (auto simp: list_all_iff)
  from fields_good [OF this] show ?thesis
    using assms(2) VObject by (simp add: encode_json_value_def object_lines_eq [OF no_folding])
qed

lemma decode_value_document:
  assumes "toon_ok v" "fits (encode_json_value v opts)" "view cur = docs (indent opts) (encode_json_value v opts)"
    "cu_blank_lines cur = []" "5 * left_count cur + 5 \<le> n"
  shows "decode_document n cur ctx = ret (emit_events v)"
proof (cases v)
  case (VPrimitive p)
  then have p: "prim_ok p" using assms(1) by simp
  have "line_doc (indent opts) (encode_primitive p (delimiter opts)) = (0, encode_primitive p (delimiter opts))"
    using line_doc_indent [OF indent_pos, of "encode_primitive p (delimiter opts)" 0]
      solid_trimmed [OF primitive_token_trim [OF p] primitive_token_neq_Nil [OF p]]
    by simp
  then show ?thesis
    using decode_primitive_document [OF p, of cur "delimiter opts"] assms(3) VPrimitive primitive_token_neq_Nil [OF p]
    by (simp add: encode_json_value_def Let_def)
next
  case (VArray items)
  with assms show ?thesis by (simp add: encode_json_value_def array_document(2) del: toon_ok.simps emit_events.simps)
next
  case (VObject es)
  with assms show ?thesis
    by (simp add: encode_json_value_def object_lines_eq [OF no_folding] decode_object_document
        del: toon_ok.simps emit_events.simps)
qed

end

text \<open>The decoder with the indentation of the writer, on the lines and on the text.\<close>

abbreviation read_options :: "ResolvedEncodeOptions \<Rightarrow> bool option \<Rightarrow> DecodeStreamOptions" where
  "read_options opts strict \<equiv> \<lparr>ds_indent = Some (indent opts), ds_strict = strict\<rparr>"

context plain_writer
begin

lemma decode_stream_of_encoded:
  assumes "toon_ok v" "fits (encode_json_value v opts)"
    "dc_indent ctx = indent opts" "dc_strict ctx = (case strict of Some b \<Rightarrow> b | None \<Rightarrow> True)"
  shows "decode_stream_sync (encode_json_value v opts) (Some (read_options opts strict)) = ret (emit_events v)"
proof -
  let ?ls = "encode_json_value v opts"
  have "\<forall>l \<in> set ?ls. good_line (indent opts) l" using value_lines_ok [OF assms(1,2)] by (simp add: lines_ok_def)
  from parse_good_lines [OF this indent_pos, of "dc_strict ctx" create_scan_state] obtain parsed st where
    p: "parse_lines_sync ?ls (indent opts) (dc_strict ctx) create_scan_state = Ok (parsed, st)"
      "map (\<lambda>l. (pl_depth l, pl_content l)) parsed = docs (indent opts) ?ls" "ss_blank_lines st = []"
    by (auto simp: create_scan_state_def)
  have "decode_document (5 * length ?ls + 5) (new_cursor parsed (ss_blank_lines st)) ctx = ret (emit_events v)"
    using p(3) parse_lines_length [OF p(1)] left_new_cursor [of parsed]
    by (intro decode_value_document [OF assms(1,2) view_new_cursor [OF p(2)]])
      (simp_all add: new_cursor_def)
  moreover have "ctx = \<lparr>dc_indent = indent opts, dc_strict = dc_strict ctx\<rparr>" using assms(3) by simp
  ultimately show ?thesis using p(1) assms(4) by (simp add: decode_stream_sync_def)
qed

end

lemma toon_ok_normalized: "toon_ok v \<Longrightarrow> normalize_json_value v = v"
proof (induction v)
  case (VPrimitive p)
  then show ?case by (cases p) (auto simp: normalize_primitive_def prim_ok_def)
next
  case (VArray items)
  then show ?case by (auto simp: list_all_iff intro: map_idI)
next
  case (VObject es)
  then show ?case by (force simp: list_all_iff intro: map_idI)
qed

lemma build_emitted:
  "build_node_from_events (emit_events v) = Ok (node_of v)"
  by (simp add: build_node_from_events_def build_emit accepting_def push_node_def finalize_state_def)

lemma encode_json_value_Nil:
  assumes "toon_ok v" "encode_json_value v opts = []" "key_folding opts = FoldOff"
  shows "v = VObject []"
proof (cases v)
  case (VObject es)
  with assms show ?thesis by (cases es) (simp_all add: encode_json_value_def object_lines_eq fields_below_eq)
qed (use assms in \<open>auto simp: encode_json_value_def Let_def primitive_token_neq_Nil array_lines_eq split: if_splits\<close>)

lemma decode_blank_line:
  assumes "rd_expand_paths (resolve_decode_options options) = ExpandOff"
  shows "try_decode_from_lines [[]] options = ret (VObject [])"
proof -
  have "\<exists>st. parse_lines_sync [[]] k strict create_scan_state = Ok ([], st)" for k strict
    by (simp add: parse_line_incremental_def compute_depth_from_indent_def Let_def is_blank_def)
  then obtain st where "parse_lines_sync [[]] (rd_indent (resolve_decode_options options))
      (rd_strict (resolve_decode_options options)) create_scan_state = Ok ([], st)"
    by blast
  moreover have "decode_document n (new_cursor [] blanks) ctx = ret (emit_events (VObject []))" for n blanks ctx
    using view_end [OF view_new_cursor [of "[]"]] by (simp add: decode_document_def)
  ultimately show ?thesis
    using assms build_emitted [of "VObject []"] node_to_json_node_of [of "VObject []"]
    by (simp add: try_decode_from_lines_def decode_stream_sync_def Let_def del: parse_lines_sync.simps)
qed

text \<open>The options of a writer without folding and of a reader that fits it.\<close>

definition plain_encode :: "EncodeOptions option \<Rightarrow> bool" where
  "plain_encode eo = (let opts = resolve_encode_options eo in
     key_folding opts = FoldOff \<and> 0 < indent opts \<and> delim_ok (delimiter opts) \<and> replacer opts = None)"

definition matching_decode :: "EncodeOptions option \<Rightarrow> DecodeOptions option \<Rightarrow> bool" where
  "matching_decode eo do \<longleftrightarrow> rd_indent (resolve_decode_options do) = indent (resolve_encode_options eo)
     \<and> rd_expand_paths (resolve_decode_options do) = ExpandOff"

lemma plain_encodeD:
  "plain_encode eo \<Longrightarrow> plain_writer (resolve_encode_options eo)"
  "plain_encode eo \<Longrightarrow> toon_ok v \<Longrightarrow> replaced_value n v eo = Some v"
  by (simp_all add: plain_encode_def plain_writer_def replaced_value_def toon_ok_normalized Let_def)

lemma plain_encode_default: "plain_encode None" "matching_decode None None"
  by (simp_all add: plain_encode_def matching_decode_def resolve_encode_options_def resolve_decode_options_def
      unwrap_or_def delim_ok_def Let_def)

interpretation default_writer: plain_writer "resolve_encode_options None" ctx for ctx
  by (rule plain_encodeD [OF plain_encode_default(1)])

lemma decode_of_encode_lines:
  assumes "plain_encode eo" "toon_ok v" "encode_lines fuel v eo = Some ls" "fits ls"
    "ds_indent ro = Some (indent (resolve_encode_options eo))"
  shows "decode_stream_sync ls (Some ro) = ret (emit_events v)"
    and "ls = encode_json_value v (resolve_encode_options eo)"
proof -
  let ?opts = "resolve_encode_options eo"
  let ?ctx = "\<lparr>dc_indent = indent ?opts, dc_strict = (case ds_strict ro of Some b \<Rightarrow> b | None \<Rightarrow> True)\<rparr>"
  show ls: "ls = encode_json_value v ?opts"
    using assms(3) plain_encodeD(2) [OF assms(1,2)] by (simp add: encode_lines_def)
  have "ro = read_options ?opts (ds_strict ro)" using assms(5) by simp
  moreover have "decode_stream_sync ls (Some (read_options ?opts (ds_strict ro))) = ret (emit_events v)"
    using plain_writer.decode_stream_of_encoded [OF plain_encodeD(1) [OF assms(1)] assms(2), of ?ctx] assms(4)
    unfolding ls by simp
  ultimately show "decode_stream_sync ls (Some ro) = ret (emit_events v)" by metis
qed

section \<open>A sample document\<close>

text \<open>
  A value with a table, a mixed list, empty parts and strings that need quotes, on which the round
  trip is followed line by line.
\<close>

definition sample :: JsonValue where
  "sample = VObject
     [(''title'', VPrimitive (PString ''a: b'')),
      (''users'', VArray [VObject [(''id'', VPrimitive (PString ''7'')), (''on'', VPrimitive (PBool True))],
                          VObject [(''id'', VPrimitive (PString ''x|y'')), (''on'', VPrimitive PNull)]]),
      (''mixed list'', VArray [VPrimitive (PString []), VArray [VPrimitive PNull], VObject []]),
      (''empty'', VObject [])]"

definition sample_options :: EncodeOptions where
  "sample_options = \<lparr>eo_indent = Some 4, eo_delimiter = Some (CHR ''|''), eo_key_folding = None,
     eo_flatten_depth = Some 0, eo_replacer = None\<rparr>"

lemma sample_lines:
  "encode_json_value sample \<lparr>indent = 4, delimiter = CHR ''|'', key_folding = FoldOff, flatten_depth = 0, replacer = None\<rparr>
     = [''title: '' @ QUOTE # ''a: b'' @ [QUOTE], ''users[2|]{id|on}:'', ''    '' @ QUOTE # ''7'' @ QUOTE # ''|true'',
        ''    '' @ QUOTE # ''x|y'' @ QUOTE # ''|null'', QUOTE # ''mixed list'' @ QUOTE # ''[3|]:'',
        ''    - '' @ [QUOTE, QUOTE], ''    - [1|]: null'', ''    -'', ''empty:'']"
  by code_simp

lemma sample_kept: "toon_ok sample"
  by (simp add: sample_def entry_ok_def prim_ok_def columns_ok_def extract_tabular_header_def is_tabular_array_def
      is_tabular_row_def object_get_def)

lemma sample_resolved:
  "resolve_encode_options (Some sample_options)
     = \<lparr>indent = 4, delimiter = CHR ''|'', key_folding = FoldOff, flatten_depth = 0, replacer = None\<rparr>"
  by (simp add: resolve_encode_options_def sample_options_def unwrap_or_def)

lemma sample_plain: "plain_encode (Some sample_options)"
  by (simp add: plain_encode_def sample_resolved delim_ok_def)

lemma sample_encoded:
  "encode_lines 0 sample (Some sample_options) = Some (encode_json_value sample (resolve_encode_options (Some sample_options)))"
  "fits (encode_json_value sample (resolve_encode_options (Some sample_options)))"
  using plain_encodeD(2) [OF sample_plain sample_kept]
  by (simp_all add: encode_lines_def sample_resolved sample_lines USIZE_MAX_def)

section \<open>Round trips\<close>

text \<open>
  The event streams of the two directions agree: the lines the encoder writes for a value the
  codec keeps are decoded, strictly or not, into exactly the events that \<open>encode_stream_events\<close>
  yields for that value.
\<close>

theorem decoded_events_of_encoded:
  assumes "plain_encode eo" "toon_ok v" "encode_lines fuel v eo = Some ls" "fits ls"
    "ds_indent ro = Some (indent (resolve_encode_options eo))"
  shows "\<exists>events. encode_stream_events fuel v eo = Some events \<and> decode_stream_sync ls (Some ro) = Some (Ok events)"
  using decode_of_encode_lines(1) [OF assms] plain_encodeD(2) [OF assms(1,2)]
  by (simp add: encode_stream_events_def ret_def)

theorem decoded_events_of_encoded_witness:
  "\<exists>events. encode_stream_events 0 sample (Some sample_options) = Some events
     \<and> decode_stream_sync (encode_json_value sample (resolve_encode_options (Some sample_options)))
         (Some \<lparr>ds_indent = Some 4, ds_strict = Some True\<rparr>) = Some (Ok events)"
  using decoded_events_of_encoded [OF sample_plain sample_kept sample_encoded,
      of "\<lparr>ds_indent = Some 4, ds_strict = Some True\<rparr>"]
  by (simp add: sample_resolved)

lemma try_decode_lines_of_encode:
  assumes "plain_encode eo" "matching_decode eo dopt" "toon_ok v" "encode_lines fuel v eo = Some ls" "fits ls"
  shows "try_decode_from_lines ls dopt = ret v"
  using decode_of_encode_lines(1) [OF assms(1,3,4,5)] assms(2)
  by (simp add: try_decode_from_lines_def matching_decode_def build_emitted node_to_json_node_of Let_def)

lemma try_decode_joined:
  assumes "plain_encode eo" "matching_decode eo dopt" "toon_ok v" "encode_lines fuel v eo = Some ls" "fits ls"
  shows "try_decode (join [NEWLINE] ls) dopt = ret v"
proof (cases "ls = []")
  case True
  then have "v = VObject []"
    using encode_json_value_Nil [OF assms(3)] plain_encodeD(2) [OF assms(1,3)] assms(1,4)
    by (simp add: encode_lines_def plain_encode_def Let_def)
  then show ?thesis
    using True assms(2) decode_blank_line [of dopt] by (simp add: try_decode_def matching_decode_def)
next
  case False
  have "\<forall>l \<in> set ls. NEWLINE \<notin> set l"
    using plain_writer.value_lines_ok [OF plain_encodeD(1) [OF assms(1)] assms(3)] assms(5)
      decode_of_encode_lines(2) [OF assms(1,3-5), of "read_options (resolve_encode_options eo) None"]
    by (simp add: lines_ok_def)
  with False show ?thesis using try_decode_lines_of_encode [OF assms] by (simp add: try_decode_def split_on_join)
qed

text \<open>
  C3: with an indentation of at least one space, key folding off, no replacer, and a comma, a tab or a bar as the delimiter
  (\<open>plain_encode\<close>), and a reader with the same indentation and path expansion off (\<open>matching_decode\<close>), decoding the text of an
  encoded value gives the value back, numbers, strings with every character, keys and their order included, in
  strict mode or not. The values the codec keeps (\<open>toon_ok\<close>) have finite, normalised numbers, no opening bracket in a
  string that is the value of an unquoted key, and in an array that is written as a table the same keys in the same order, none
  twice and none with a closing brace; lines and arrays are of lengths that a machine word can hold.
\<close>

theorem decode_encode:
  assumes "plain_encode eo" "matching_decode eo dopt" "toon_ok v" "encode_lines fuel v eo = Some ls" "fits ls"
  shows "\<exists>text. encode fuel v eo = Some text \<and> try_decode text dopt = Some (Ok v)"
  using assms(4) try_decode_joined [OF assms] by (simp add: encode_def ret_def)

theorem decode_encode_witness:
  "\<exists>text. encode 0 sample (Some sample_options) = Some text
     \<and> try_decode text (Some \<lparr>do_indent = Some 4, do_strict = Some True, do_expand_paths = None\<rparr>) = Some (Ok sample)"
  by (rule decode_encode [OF sample_plain _ sample_kept sample_encoded])
    (simp add: matching_decode_def sample_resolved resolve_decode_options_def unwrap_or_def)

text \<open>
  \<open>toon_to_json\<close> undoes \<open>json_to_toon\<close>: whatever JSON reader and writer they are given, a text that
  is read as a value the codec keeps is turned into TOON, and that TOON into the writer's text for
  the same value.
\<close>

theorem json_toon_json:
  assumes "serde_from_str text = Inr j" "toon_ok (value_of_json j)"
    "fits (encode_json_value (value_of_json j) (resolve_encode_options None))"
    "serde_to_string (json_of_value (value_of_json j)) = Inr out"
  shows "\<exists>toon. json_to_toon serde_from_str text = Ok toon \<and> toon_to_json serde_to_string toon = Some (Ok out)"
proof -
  have "encode_lines 0 (value_of_json j) None = Some (encode_json_value (value_of_json j) (resolve_encode_options None))"
    using assms(2) by (simp add: encode_lines_def replaced_value_None toon_ok_normalized)
  from try_decode_joined [OF plain_encode_default assms(2) this assms(3)] show ?thesis
    using assms(1,2,4) by (simp add: json_to_toon_def toon_to_json_def toon_ok_normalized ret_def)
qed

lemma true_array_fits:
  "fits (encode_json_value (VArray [VPrimitive (PBool True)]) (resolve_encode_options None))"
  by (simp add: encode_json_value_def array_lines_eq array_content_def array_below_def is_array_of_primitives_def
      encode_inline_array_line_def format_header_def resolve_encode_options_def unwrap_or_def indented_line_def
      indentation_def sat_mul_def encode_and_join_primitives_def encode_primitive_def map_filter_simps USIZE_MAX_def
      show_nat.simps [of "Suc 0"])

theorem json_toon_json_witness:
  "\<exists>toon. json_to_toon (\<lambda>s. if s = ''[true]'' then Inr (JArray [JBool True]) else Inl ''unknown'') ''[true]'' = Ok toon
     \<and> toon_to_json (\<lambda>j. if j = JArray [JBool True] then Inr ''[true]'' else Inl ''unknown'') toon = Some (Ok ''[true]'')"
  by (rule json_toon_json [where j = "JArray [JBool True]"])
    (use true_array_fits in \<open>simp_all add: columns_ok_def extract_tabular_header_def prim_ok_def json_of_primitive_def\<close>)

end
