(* ===== verification/F64_Arith.thy ===== *)
theory F64_Arith
  imports F64
begin

text \<open>
  Arithmetic on \<open>f64\<close>: every operation takes the exact result and rounds it once, to the nearest
  number and to the even one on a tie, with the IEEE 754 rules for infinities, NaN and the sign of a
  zero. The lemmas read the rounding as a function on the reals: it is monotone, and its error is
  at most half a unit in the last place.
\<close>

definition F_one :: f64 where "F_one = F_Fin False (2 ^ 52) (-52)"

fun f64_neg :: "f64 \<Rightarrow> f64" where
  "f64_neg F_NaN = F_NaN"
| "f64_neg (F_Inf s) = F_Inf (\<not> s)"
| "f64_neg (F_Fin s m e) = F_Fin (\<not> s) m e"

fun f64_mul :: "f64 \<Rightarrow> f64 \<Rightarrow> f64" where
  "f64_mul F_NaN _ = F_NaN"
| "f64_mul _ F_NaN = F_NaN"
| "f64_mul (F_Inf s) (F_Inf s') = F_Inf (s \<noteq> s')"
| "f64_mul (F_Inf s) (F_Fin s' m' e') = (if m' = 0 then F_NaN else F_Inf (s \<noteq> s'))"
| "f64_mul (F_Fin s m e) (F_Inf s') = (if m = 0 then F_NaN else F_Inf (s \<noteq> s'))"
| "f64_mul (F_Fin s m e) (F_Fin s' m' e') = f64_of_ratio (s \<noteq> s') (m * m' * pow2 (e + e')) (pow2 (- (e + e')))"

definition signed :: "bool \<Rightarrow> nat \<Rightarrow> int" where
  "signed s m = (if s then - int m else int m)"

text \<open>\<open>x.mul_add(y, z)\<close>: \<open>x * y + z\<close> with one rounding.\<close>

fun f64_mul_add :: "f64 \<Rightarrow> f64 \<Rightarrow> f64 \<Rightarrow> f64" where
  "f64_mul_add (F_Fin s m e) (F_Fin s' m' e') (F_Fin s'' m'' e'') =
     (let d = min (e + e') e'';
          i = signed (s \<noteq> s') (m * m' * pow2 (e + e' - d)) + signed s'' (m'' * pow2 (e'' - d))
      in f64_of_ratio (if i = 0 then (s \<noteq> s') \<and> s'' else i < 0) (nat \<bar>i\<bar> * pow2 d) (pow2 (- d)))"
| "f64_mul_add x y z =
     (if is_nan x \<or> is_nan y \<or> is_nan z then F_NaN
      else if \<not> is_finite x \<or> \<not> is_finite y then
        (if is_zero x \<or> is_zero y then F_NaN
         else let s = (is_sign_negative x \<noteq> is_sign_negative y) in if z = F_Inf (\<not> s) then F_NaN else F_Inf s)
      else z)"

definition f64_add :: "f64 \<Rightarrow> f64 \<Rightarrow> f64" where "f64_add x y = f64_mul_add x F_one y"
definition f64_sub :: "f64 \<Rightarrow> f64 \<Rightarrow> f64" where "f64_sub x y = f64_add x (f64_neg y)"

definition f64_clamp :: "f64 \<Rightarrow> f64 \<Rightarrow> f64 \<Rightarrow> f64" where
  "f64_clamp x lo hi = (if f64_lt x lo then lo else if f64_lt hi x then hi else x)"

text \<open>The saturating cast \<open>as usize\<close>.\<close>

fun f64_to_usize :: "f64 \<Rightarrow> nat" where
  "f64_to_usize F_NaN = 0"
| "f64_to_usize (F_Inf s) = (if s then 0 else USIZE_MAX)"
| "f64_to_usize (F_Fin s m e) = (if s then 0 else min (m * pow2 e div pow2 (- e)) USIZE_MAX)"

section \<open>Values\<close>

fun f64_val :: "f64 \<Rightarrow> real" where
  "f64_val (F_Fin s m e) = (if s then -1 else 1) * real m * p2 e"
| "f64_val _ = 0"

lemma pow2_neq_0 [simp]: "pow2 e \<noteq> 0"
  by (simp add: pow2_def)

lemma ratio_pow2: "real (n * pow2 e) / real (pow2 (- e)) = real n * p2 e"
  using pow2_powi [of e] by (simp add: field_simps)

lemma pow2_ge: "d \<le> e \<Longrightarrow> real (pow2 (e - d)) = p2 e / p2 d"
  using p2_nat [of "nat (e - d)"] by (simp add: pow2_def powr_diff)

lemma rhe_error: "0 < q \<Longrightarrow> \<bar>real (round_half_even p q) - real p / real q\<bar> \<le> 1 / 2"
proof -
  assume q: "0 < q"
  let ?d = "p div q" and ?r = "p mod q"
  have "real p = real q * real ?d + real ?r" by (metis mult_div_mod_eq of_nat_add of_nat_mult)
  then have v: "real p / real q = real ?d + real ?r / real q" using q by (simp add: field_simps)
  have r: "real ?r < real q" using q by simp
  consider "2 * ?r < q" "round_half_even p q = ?d" | "q < 2 * ?r" "round_half_even p q = ?d + 1"
    | "2 * ?r = q" "round_half_even p q = ?d \<or> round_half_even p q = ?d + 1"
    unfolding round_half_even_def Let_def by (metis linorder_neqE_nat)
  then show ?thesis
  proof cases
    case 1
    then have "2 * real ?r < real q" by (metis of_nat_less_iff of_nat_mult of_nat_numeral)
    with 1 q show ?thesis by (simp add: v field_simps)
  next
    case 2
    then have "real q < 2 * real ?r" by (metis of_nat_less_iff of_nat_mult of_nat_numeral)
    moreover have "\<bar>1 - real ?r / real q\<bar> = (real q - real ?r) / real q" using q r by (simp add: field_simps)
    ultimately show ?thesis using 2 q by (simp add: v field_simps)
  next
    case 3
    then have "2 * real ?r = real q" by (metis of_nat_eq_iff of_nat_mult of_nat_numeral)
    then have "real ?r / real q = 1 / 2" using q by (simp add: field_simps)
    with 3 show ?thesis by (auto simp: v)
  qed
qed

lemma rhe_le: "0 < q \<Longrightarrow> real p / real q \<le> real n \<Longrightarrow> round_half_even p q \<le> n"
  using rhe_error [of q p] by (smt (verit) of_nat_le_iff of_nat_less_iff field_sum_of_halves less_nat_zero_code not_less_eq of_nat_1 of_nat_Suc)

lemma rhe_ge: "0 < q \<Longrightarrow> real n \<le> real p / real q \<Longrightarrow> n \<le> round_half_even p q"
  using rhe_error [of q p] by linarith

lemma rhe_tie:
  assumes "0 < q" "even n" "real p / real q \<le> real n + 1 / 2"
  shows "round_half_even p q \<le> n"
proof (cases "p div q < n")
  case True
  then show ?thesis by (simp add: round_half_even_def Let_def)
next
  case False
  have "real (p div q) \<le> real p / real q" by (rule of_nat_div_le_of_nat)
  then have d: "p div q = n" using assms(3) False by linarith
  have "real p = real q * real n + real (p mod q)" by (metis d mult_div_mod_eq of_nat_add of_nat_mult)
  then have "2 * real (p mod q) \<le> real q" using assms(1,3) by (simp add: field_simps)
  then have "2 * (p mod q) \<le> q" by linarith
  then show ?thesis using d assms(2) by (simp add: round_half_even_def Let_def)
qed

text \<open>The mantissa before the carry, the exponent of its last place, and the value of what is rounded.\<close>

definition unit_exp :: "nat \<Rightarrow> nat \<Rightarrow> int" where
  "unit_exp p q = max (-1074) (ratio_log2 p q - 52)"

definition rounded :: "nat \<Rightarrow> nat \<Rightarrow> nat" where
  "rounded p q = round_half_even (p * pow2 (- unit_exp p q)) (q * pow2 (unit_exp p q))"

lemma scaled_ratio:
  "0 < q \<Longrightarrow> real (p * pow2 (- e)) / real (q * pow2 e) = real p / real q / p2 e"
  using pow2_powi [of e] by (simp add: field_simps)

lemma f64_of_ratio_rounded:
  "0 < p \<Longrightarrow> f64_of_ratio s p q =
     (let (m, e) = (if rounded p q = 2 ^ 53 then (2 ^ 52, unit_exp p q + 1) else (rounded p q, unit_exp p q))
      in if 971 < e then F_Inf s else F_Fin s m e)"
  by (simp add: f64_of_ratio_def rounded_def unit_exp_def Let_def)

lemma rounded_bounds:
  assumes "0 < p" "0 < q"
  shows "rounded p q \<le> 2 ^ 53" "unit_exp p q \<noteq> -1074 \<Longrightarrow> 2 ^ 52 \<le> rounded p q"
proof -
  let ?E = "unit_exp p q" and ?l = "ratio_log2 p q"
  define v where "v = real p / real q"
  have b: "p2 ?l \<le> v" "v < p2 (?l + 1)" using ratio_log2_bounds [OF assms] by (simp_all add: v_def)
  have q: "0 < q * pow2 ?E" using assms by simp
  have le: "?l - 52 \<le> ?E" by (simp add: unit_exp_def)
  then have "p2 (?l + 1) \<le> p2 (?E + 53)" by simp
  then have "v \<le> p2 (?E + 53)" using b by linarith
  then have "v / p2 ?E \<le> real (2 ^ 53)" by (simp add: powr_add field_simps)
  then show "rounded p q \<le> 2 ^ 53"
    unfolding rounded_def v_def using q assms(2) by (intro rhe_le) (simp_all only: scaled_ratio)
  assume "?E \<noteq> -1074"
  then have "?E = ?l - 52" by (simp add: unit_exp_def)
  then have "p2 (?E + 52) \<le> v" using b by simp
  then have "real (2 ^ 52) \<le> v / p2 ?E" by (simp add: powr_add field_simps)
  then show "2 ^ 52 \<le> rounded p q"
    unfolding rounded_def v_def using q assms(2) by (intro rhe_ge) (simp_all only: scaled_ratio)
qed

lemma f64_of_ratio_wf: "0 < q \<Longrightarrow> f64_wf (f64_of_ratio s p q)"
proof (cases "p = 0")
  case False
  assume q: "0 < q"
  have "-1074 \<le> unit_exp p q" by (simp add: unit_exp_def)
  then show ?thesis
    using rounded_bounds [of p q] q False
    by (cases "unit_exp p q = -1074") (auto simp: f64_of_ratio_rounded Let_def split: if_splits)
qed (simp add: f64_of_ratio_def)

lemma f64_of_ratio_val:
  assumes "0 < p" "is_finite (f64_of_ratio s p q)"
  shows "f64_val (f64_of_ratio s p q) = (if s then -1 else 1) * real (rounded p q) * p2 (unit_exp p q)"
  using assms by (auto simp: f64_of_ratio_rounded Let_def powr_add split: if_splits)

text \<open>Rounding never passes a representable number.\<close>

lemma rounded_le:
  assumes p: "0 < p" and q: "0 < q" and wf: "f64_wf (F_Fin False m e)" and v: "real p / real q \<le> real m * p2 e"
  shows "unit_exp p q \<le> e" "real (rounded p q) * p2 (unit_exp p q) \<le> real m * p2 e"
proof -
  let ?E = "unit_exp p q"
  define v where "v = real p / real q"
  have m: "real m < 2 ^ 53" using wf by (metis f64_wf.simps(1) of_nat_less_iff of_nat_numeral of_nat_power)
  have vm: "v \<le> real m * p2 e" using assms(4) by (simp add: v_def)
  show le: "?E \<le> e"
  proof (rule ccontr)
    assume "\<not> ?E \<le> e"
    then have "?E = ratio_log2 p q - 52" "e + 1 \<le> ?E" using wf by (auto simp: unit_exp_def)
    then have "p2 (e + 53) \<le> p2 (ratio_log2 p q)" by simp
    then have "p2 (e + 53) \<le> v" using ratio_log2_bounds [OF p q] unfolding v_def by linarith
    moreover have "real m * p2 e < p2 (e + 53)" using m by (simp add: powr_add)
    ultimately show False using vm by simp
  qed
  have n: "real m * p2 e / p2 ?E = real (m * pow2 (e - ?E))" using le by (simp add: pow2_ge)
  have "v / p2 ?E \<le> real m * p2 e / p2 ?E" using vm by (simp add: divide_right_mono)
  then have "rounded p q \<le> m * pow2 (e - ?E)"
    unfolding rounded_def n v_def using q by (intro rhe_le) (simp_all only: scaled_ratio mult_pos_pos pow2_pos)
  then have "real (rounded p q) \<le> real m * p2 e / p2 ?E" unfolding n by (simp only: of_nat_le_iff)
  then show "real (rounded p q) * p2 ?E \<le> real m * p2 e" by (simp add: field_simps)
qed

lemma f64_of_ratio_le:
  assumes q: "0 < q" and wf: "f64_wf (F_Fin False m e)" and v: "real p / real q \<le> real m * p2 e"
  shows "is_finite (f64_of_ratio s p q)" "\<bar>f64_val (f64_of_ratio s p q)\<bar> \<le> real m * p2 e"
proof -
  have "is_finite (f64_of_ratio s p q) \<and> \<bar>f64_val (f64_of_ratio s p q)\<bar> \<le> real m * p2 e"
  proof (cases "p = 0")
    case False
    then have p: "0 < p" by simp
    note r = rounded_le [OF p q wf v]
    have "unit_exp p q < 971" if "rounded p q = 2 ^ 53"
    proof (rule ccontr)
      assume "\<not> unit_exp p q < 971"
      then have "e = 971" "unit_exp p q = 971" using r(1) wf by auto
      then have "2 ^ 53 \<le> real m" using r(2) that by simp
      then show False using wf by simp
    qed
    then have fin: "is_finite (f64_of_ratio s p q)"
      using r(1) wf by (auto simp: f64_of_ratio_rounded [OF p] Let_def)
    then show ?thesis using f64_of_ratio_val [OF p fin] r(2) by (simp add: abs_mult)
  qed (simp add: f64_of_ratio_def)
  then show "is_finite (f64_of_ratio s p q)" "\<bar>f64_val (f64_of_ratio s p q)\<bar> \<le> real m * p2 e" by simp_all
qed

section \<open>Operations as functions on the reals\<close>

abbreviation sgn_of :: "bool \<Rightarrow> real" where "sgn_of s \<equiv> (if s then -1 else 1)"

lemma le_pow2_iff: "le_pow2 m e m' e' \<longleftrightarrow> real m * p2 e \<le> real m' * p2 e'"
proof -
  have k: "real (pow2 (e' - e)) > 0" by simp
  have "le_pow2 m e m' e' \<longleftrightarrow> real m * real (pow2 (e - e')) \<le> real m' * real (pow2 (e' - e))"
    unfolding le_pow2_def by (metis of_nat_le_iff of_nat_mult)
  also have "\<dots> \<longleftrightarrow> real m * p2 (e - e') * real (pow2 (e' - e)) \<le> real m' * real (pow2 (e' - e))"
    using pow2_powi [of "e - e'"] by simp
  also have "\<dots> \<longleftrightarrow> real m * p2 (e - e') \<le> real m'" using k by simp
  also have "\<dots> \<longleftrightarrow> real m * p2 e \<le> real m' * p2 e'" by (simp add: powr_diff field_simps)
  finally show ?thesis .
qed

lemma f64_le_iff: "is_finite x \<Longrightarrow> is_finite y \<Longrightarrow> f64_le x y \<longleftrightarrow> f64_val x \<le> f64_val y"
proof (cases x; cases y)
  fix s m e s' m' e'
  assume xy: "x = F_Fin s m e" "y = F_Fin s' m' e'"
  define a b where "a = real m * p2 e" and "b = real m' * p2 e'"
  have ab: "a = 0 \<longleftrightarrow> m = 0" "b = 0 \<longleftrightarrow> m' = 0" "0 \<le> a" "0 \<le> b" by (simp_all add: a_def b_def)
  have "f64_le x y \<longleftrightarrow> (if s \<and> s' then b \<le> a else if s then True else if s' then a = 0 \<and> b = 0 else a \<le> b)"
    using ab(1,2) by (simp add: xy le_pow2_iff a_def b_def)
  moreover have "f64_val x = sgn_of s * a" "f64_val y = sgn_of s' * b" by (simp_all add: xy a_def b_def)
  ultimately show ?thesis using ab(3,4) by (cases s; cases s') auto
qed auto

lemma f64_lt_iff: "is_finite x \<Longrightarrow> is_finite y \<Longrightarrow> f64_lt x y \<longleftrightarrow> f64_val x < f64_val y"
  by (auto simp: f64_lt_def f64_le_iff)

lemma f64_val_consts [simp]: "f64_val F_zero = 0" "f64_val F_one = 1" "is_finite F_zero" "is_finite F_one"
    "f64_wf F_zero" "f64_wf F_one"
  by (simp_all add: F_zero_def F_one_def powr_minus powr_realpow flip: powr_numeral)

lemma f64_neg_simps [simp]: "f64_val (f64_neg x) = - f64_val x" "is_finite (f64_neg x) = is_finite x" "f64_wf (f64_neg x) = f64_wf x"
  by (cases x; simp)+

lemma signed_real: "real_of_int (signed s m) = sgn_of s * real m"
  by (simp add: signed_def)

lemma f64_mul_exact:
  assumes "is_finite x" "is_finite y"
  obtains s p q where "f64_mul x y = f64_of_ratio s p q" "0 < q" "sgn_of s * (real p / real q) = f64_val x * f64_val y"
proof -
  obtain s m e s' m' e' where xy: "x = F_Fin s m e" "y = F_Fin s' m' e'" using assms by (cases x; cases y) auto
  have "real (m * m' * pow2 (e + e')) / real (pow2 (- (e + e'))) = real m * p2 e * (real m' * p2 e')"
    unfolding ratio_pow2 by (simp add: powr_add)
  then show thesis
    by (intro that [of "s \<noteq> s'" "m * m' * pow2 (e + e')" "pow2 (- (e + e'))"]) (auto simp: xy)
qed

lemma f64_mul_add_exact:
  assumes "is_finite x" "is_finite y" "is_finite z"
  obtains s p q where "f64_mul_add x y z = f64_of_ratio s p q" "0 < q"
    "sgn_of s * (real p / real q) = f64_val x * f64_val y + f64_val z"
proof -
  obtain s m e s' m' e' s'' m'' e'' where xyz: "x = F_Fin s m e" "y = F_Fin s' m' e'" "z = F_Fin s'' m'' e''"
    using assms by (cases x; cases y; cases z) auto
  define d where "d = min (e + e') e''"
  define i where "i = signed (s \<noteq> s') (m * m' * pow2 (e + e' - d)) + signed s'' (m'' * pow2 (e'' - d))"
  define t where "t = (if i = 0 then (s \<noteq> s') \<and> s'' else i < 0)"
  have dle: "d \<le> e + e'" "d \<le> e''" by (simp_all add: d_def)
  have "real_of_int i * p2 d = sgn_of (s \<noteq> s') * (real m * real m' * p2 (e + e')) + sgn_of s'' * (real m'' * p2 e'')"
    unfolding i_def of_int_add signed_real using dle by (simp add: pow2_ge distrib_right)
  also have "\<dots> = f64_val x * f64_val y + f64_val z" by (auto simp: xyz powr_add)
  finally have v: "real_of_int i * p2 d = f64_val x * f64_val y + f64_val z" .
  have "sgn_of t * (real (nat \<bar>i\<bar> * pow2 d) / real (pow2 (- d))) = real_of_int i * p2 d"
    unfolding ratio_pow2 by (auto simp: t_def)
  moreover have "f64_mul_add x y z = f64_of_ratio t (nat \<bar>i\<bar> * pow2 d) (pow2 (- d))"
    by (simp add: xyz t_def i_def d_def Let_def)
  ultimately show thesis using that v by simp
qed

section \<open>The unit interval\<close>

definition in_unit :: "f64 \<Rightarrow> bool" where
  "in_unit x \<longleftrightarrow> f64_wf x \<and> is_finite x \<and> 0 \<le> f64_val x \<and> f64_val x \<le> 1"

lemma in_unit_consts [simp]: "in_unit F_zero" "in_unit F_one"
  by (simp_all add: in_unit_def)

lemma f64_of_ratio_sgn: "0 < q \<Longrightarrow> is_finite (f64_of_ratio s p q) \<Longrightarrow> 0 \<le> sgn_of s * f64_val (f64_of_ratio s p q)"
  by (cases "p = 0") (simp_all add: f64_of_ratio_val, simp add: f64_of_ratio_def)

lemma ratio_log2_zero: "0 < q \<Longrightarrow> 1 \<le> real p / real q \<Longrightarrow> real p / real q < 2 \<Longrightarrow> ratio_log2 p q = 0"
  by (intro ratio_log2_unique) (auto intro: Nat.gr0I)

text \<open>A half unit above one is rounded to one: the tie goes to the even mantissa.\<close>

lemma f64_of_ratio_le_one:
  assumes q: "0 < q" and v: "real p / real q \<le> 1 + 1 / 2 ^ 53"
  shows "is_finite (f64_of_ratio s p q)" "\<bar>f64_val (f64_of_ratio s p q)\<bar> \<le> 1"
proof -
  have one: "f64_wf (F_Fin False (2 ^ 52) (-52))" "real (2 ^ 52) * p2 (-52) = 1"
    using f64_val_consts(2,6) by (simp_all add: F_one_def)
  have "is_finite (f64_of_ratio s p q) \<and> \<bar>f64_val (f64_of_ratio s p q)\<bar> \<le> 1"
  proof (cases "real p / real q \<le> 1")
    case True
    then show ?thesis using f64_of_ratio_le [OF q one(1), of p s] unfolding one(2) by simp
  next
    case False
    then have p: "0 < p" using q by (cases "p = 0") auto
    have "real p / real q < 2" using v by (rule le_less_trans) simp
    then have "ratio_log2 p q = 0" using False q by (intro ratio_log2_zero) simp_all
    then have E: "unit_exp p q = -52" by (simp add: unit_exp_def)
    have "p2 (-52) = 1 / 2 ^ 52" by (simp add: powr_minus powr_realpow flip: powr_numeral)
    moreover have "x * 2 ^ 52 \<le> real (2 ^ 52) + 1 / 2" if "x \<le> 1 + 1 / 2 ^ 53" for x :: real using that by simp
    ultimately have "real p / real q / p2 (-52) \<le> real (2 ^ 52) + 1 / 2" using v by (metis divide_divide_eq_right div_by_1)
    then have m: "rounded p q \<le> 2 ^ 52"
      unfolding rounded_def E using q
      by (intro rhe_tie) (simp_all only: scaled_ratio mult_pos_pos pow2_pos even_power even_numeral, simp)
    then have fin: "is_finite (f64_of_ratio s p q)" by (simp add: f64_of_ratio_rounded [OF p] E Let_def)
    have "real (rounded p q) * p2 (-52) \<le> real (2 ^ 52) * p2 (-52)" using m by (intro mult_right_mono) simp_all
    then have "real (rounded p q) * p2 (-52) \<le> 1" unfolding one(2) .
    with fin show ?thesis using f64_of_ratio_val [OF p fin] by (simp add: E abs_mult)
  qed
  then show "is_finite (f64_of_ratio s p q)" "\<bar>f64_val (f64_of_ratio s p q)\<bar> \<le> 1" by simp_all
qed

text \<open>Below one the error is at most a quarter of the unit of one.\<close>

lemma f64_of_ratio_error:
  assumes q: "0 < q" and v: "real p / real q < 1"
  shows "sgn_of s * f64_val (f64_of_ratio s p q) \<le> real p / real q + 1 / 2 ^ 54"
proof (cases "p = 0")
  case False
  then have p: "0 < p" by simp
  let ?E = "unit_exp p q"
  have "p2 (ratio_log2 p q) < p2 0" using ratio_log2_bounds [OF p q] v by simp
  then have "ratio_log2 p q < 0" by (subst (asm) powr_less_cancel_iff) simp_all
  then have "?E \<le> -53" by (simp add: unit_exp_def)
  then have "p2 ?E \<le> p2 (-53)" by simp
  also have "\<dots> = 1 / 2 ^ 53" by (simp add: powr_minus powr_realpow flip: powr_numeral)
  finally have u: "p2 ?E \<le> 1 / 2 ^ 53" .
  have fin: "is_finite (f64_of_ratio s p q)" by (rule f64_of_ratio_le_one [OF q order.trans [OF less_imp_le [OF v]]]) simp
  have "\<bar>real (rounded p q) - real p / real q / p2 ?E\<bar> \<le> 1 / 2"
    unfolding rounded_def using rhe_error [of "q * pow2 ?E" "p * pow2 (- ?E)"] q by (simp only: scaled_ratio) simp
  then have "real (rounded p q) \<le> real p / real q / p2 ?E + 1 / 2" by linarith
  then have "real (rounded p q) * p2 ?E \<le> (real p / real q / p2 ?E + 1 / 2) * p2 ?E" by (intro mult_right_mono) simp_all
  also have "\<dots> = real p / real q + p2 ?E / 2" by (simp add: distrib_right)
  finally show ?thesis using f64_of_ratio_val [OF p fin] u by (simp split: if_splits)
qed (simp add: f64_of_ratio_def)

lemma signed_cases: "sgn_of s * x = y \<Longrightarrow> 0 \<le> y \<Longrightarrow> 0 \<le> x \<Longrightarrow> x = y"
  by (cases s) auto

lemma in_unit_of_ratio:
  assumes "0 < q" "sgn_of s * (real p / real q) = v" "0 \<le> v" "v \<le> 1 + 1 / 2 ^ 53"
  shows "in_unit (f64_of_ratio s p q)"
proof -
  have v: "real p / real q = v" using signed_cases [OF assms(2,3)] by simp
  note fin = f64_of_ratio_le_one [OF assms(1), of p s, unfolded v, OF assms(4)]
  have "0 \<le> f64_val (f64_of_ratio s p q)"
  proof (cases "p = 0")
    case False
    then have "0 < real p / real q" using assms(1) by simp
    then have "\<not> s" using assms(2,3) by (cases s) auto
    then show ?thesis using f64_of_ratio_sgn [OF assms(1) fin(1)] by simp
  qed (simp add: f64_of_ratio_def)
  then show ?thesis using fin f64_of_ratio_wf [OF assms(1)] by (simp add: in_unit_def)
qed

lemma in_unit_mul: "in_unit x \<Longrightarrow> in_unit y \<Longrightarrow> in_unit (f64_mul x y)"
proof -
  assume xy: "in_unit x" "in_unit y"
  then obtain s p q where m: "f64_mul x y = f64_of_ratio s p q" "0 < q" "sgn_of s * (real p / real q) = f64_val x * f64_val y"
    by (metis f64_mul_exact in_unit_def)
  have "f64_val x * f64_val y \<le> 1" using xy by (intro mult_le_one) (simp_all add: in_unit_def)
  then show ?thesis unfolding m(1) using xy by (intro in_unit_of_ratio [OF m(2,3)]) (simp_all add: in_unit_def)
qed

lemma in_unit_sub_one:
  assumes "in_unit a"
  shows "in_unit (f64_sub F_one a)" "f64_val (f64_sub F_one a) \<le> 1 - f64_val a + 1 / 2 ^ 54"
proof -
  have fin: "is_finite F_one" "is_finite (f64_neg a)" using assms by (simp_all add: in_unit_def)
  obtain s p q where m: "f64_sub F_one a = f64_of_ratio s p q" "0 < q" "sgn_of s * (real p / real q) = 1 - f64_val a"
    using f64_mul_add_exact [OF fin(1,1,2)] by (auto simp: f64_sub_def f64_add_def)
  have a: "0 \<le> f64_val a" "f64_val a \<le> 1" using assms by (simp_all add: in_unit_def)
  have v: "real p / real q = 1 - f64_val a" using signed_cases [OF m(3)] a by simp
  have "1 - f64_val a \<le> 1 + 1 / 2 ^ 53" using a(1) by (smt (verit) divide_nonneg_nonneg zero_le_power)
  then show u: "in_unit (f64_sub F_one a)"
    unfolding m(1) using a by (intro in_unit_of_ratio [OF m(2,3)]) simp_all
  show "f64_val (f64_sub F_one a) \<le> 1 - f64_val a + 1 / 2 ^ 54"
  proof (cases "f64_val a = 0")
    case True
    have "f64_val (f64_sub F_one a) \<le> 1" using u by (simp add: in_unit_def)
    moreover have "(0::real) \<le> 1 / 2 ^ 54" by simp
    ultimately show ?thesis using True by linarith
  next
    case False
    then have lt: "real p / real q < 1" using v a by simp
    have "f64_val (f64_of_ratio s p q) \<le> sgn_of s * f64_val (f64_of_ratio s p q)"
      using f64_of_ratio_sgn [OF m(2), of s p] u m(1) by (auto simp: in_unit_def)
    then show ?thesis using f64_of_ratio_error [OF m(2) lt, of s] unfolding m(1) v by linarith
  qed
qed

lemma in_unit_mix:
  assumes "in_unit a" "in_unit x"
  shows "in_unit (f64_mul_add (f64_sub F_one a) x a)"
proof -
  let ?d = "f64_sub F_one a"
  note d = in_unit_sub_one [OF assms(1)]
  obtain s p q where m: "f64_mul_add ?d x a = f64_of_ratio s p q" "0 < q"
      "sgn_of s * (real p / real q) = f64_val ?d * f64_val x + f64_val a"
    using f64_mul_add_exact [of ?d x a] d(1) assms by (auto simp: in_unit_def)
  have "f64_val ?d * f64_val x \<le> f64_val ?d * 1"
    using d(1) assms(2) by (intro mult_left_mono) (simp_all add: in_unit_def)
  then have "f64_val ?d * f64_val x + f64_val a \<le> 1 + 1 / 2 ^ 54" using d(2) by linarith
  moreover have "(1::real) + 1 / 2 ^ 54 \<le> 1 + 1 / 2 ^ 53" by simp
  ultimately have "f64_val ?d * f64_val x + f64_val a \<le> 1 + 1 / 2 ^ 53" by linarith
  then show ?thesis
    unfolding m(1) using d(1) assms by (intro in_unit_of_ratio [OF m(2,3)]) (simp_all add: in_unit_def)
qed

lemma in_unit_clamp: "f64_wf x \<Longrightarrow> is_finite x \<Longrightarrow> in_unit (f64_clamp x F_zero F_one)"
  by (auto simp: f64_clamp_def in_unit_def f64_lt_iff)

section \<open>A share of an integer\<close>

lemma nat_representable:
  assumes "n \<le> 2 ^ 53"
  shows "\<exists>m e. f64_wf (F_Fin False m e) \<and> real m * p2 e = real n"
proof -
  consider "n = 0" | "n = 2 ^ 53" | "0 < n" "n < 2 ^ 53" using assms by linarith
  then show ?thesis
  proof cases
    case 1
    then show ?thesis by (intro exI [of _ 0] exI [of _ "-1074"]) simp
  next
    case 2
    have "f64_wf (F_Fin False 4503599627370496 1)" "real 4503599627370496 * p2 1 = real n" by (simp_all add: 2)
    then show ?thesis by blast
  next
    case 3
    let ?l = "ilog2 n"
    note b = ilog2_bounds [OF 3(1)]
    have l: "?l \<le> 52"
    proof (rule ccontr)
      assume "\<not> ?l \<le> 52"
      then have "(2::nat) ^ 53 \<le> 2 ^ ?l" by (intro power_increasing) simp_all
      then show False using b 3(2) by linarith
    qed
    have p: "(2::nat) ^ ?l * 2 ^ (52 - ?l) = 2 ^ 52" "(2::nat) ^ Suc ?l * 2 ^ (52 - ?l) = 2 ^ 53"
      using l by (simp_all flip: power_add)
    have "2 ^ ?l * 2 ^ (52 - ?l) \<le> n * 2 ^ (52 - ?l)" "n * 2 ^ (52 - ?l) < 2 ^ Suc ?l * 2 ^ (52 - ?l)"
      using b by (simp_all only: mult_le_mono1 mult_less_mono1 zero_less_power pos2)
    then have "2 ^ 52 \<le> n * 2 ^ (52 - ?l)" "n * 2 ^ (52 - ?l) < 2 ^ 53" unfolding p .
    moreover have "real (n * 2 ^ (52 - ?l)) * p2 (- int (52 - ?l)) = real n"
      by (simp add: powr_minus powr_realpow)
    ultimately show ?thesis
      by (intro exI [of _ "n * 2 ^ (52 - ?l)"] exI [of _ "- int (52 - ?l)"]) auto
  qed
qed

lemma f64_of_ratio_le_nat:
  assumes "0 < q" "real p / real q \<le> real n" "n \<le> 2 ^ 53"
  shows "is_finite (f64_of_ratio s p q)" "\<bar>f64_val (f64_of_ratio s p q)\<bar> \<le> real n"
proof -
  obtain m e where r: "f64_wf (F_Fin False m e)" "real m * p2 e = real n" using nat_representable [OF assms(3)] by blast
  from f64_of_ratio_le [OF assms(1) r(1), unfolded r(2), OF assms(2)]
  show "is_finite (f64_of_ratio s p q)" "\<bar>f64_val (f64_of_ratio s p q)\<bar> \<le> real n" by simp_all
qed

lemma f64_to_usize_le: "is_finite x \<Longrightarrow> f64_val x \<le> real n \<Longrightarrow> f64_to_usize x \<le> n"
proof (cases x)
  case (F_Fin s m e)
  assume "f64_val x \<le> real n"
  moreover have "real (m * pow2 e div pow2 (- e)) \<le> real (m * pow2 e) / real (pow2 (- e))" by (rule of_nat_div_le_of_nat)
  ultimately show ?thesis unfolding ratio_pow2 using F_Fin by (auto simp: min_le_iff_disj)
qed auto

lemma share_of_nat:
  assumes "in_unit r" "n \<le> 2 ^ 53"
  shows "f64_to_usize (f64_mul (f64_of_int (int n)) r) \<le> n"
proof -
  have x: "is_finite (f64_of_int (int n))" "f64_val (f64_of_int (int n)) \<le> real n"
    using f64_of_ratio_le_nat [of 1 n n False] assms(2) by (simp_all add: f64_of_int_def)
  obtain s p q where m: "f64_mul (f64_of_int (int n)) r = f64_of_ratio s p q" "0 < q"
      "sgn_of s * (real p / real q) = f64_val (f64_of_int (int n)) * f64_val r"
    using f64_mul_exact [OF x(1), of r] assms(1) by (auto simp: in_unit_def)
  have x0: "0 \<le> f64_val (f64_of_int (int n))"
    using f64_of_ratio_sgn [of 1 False n] x(1) by (simp add: f64_of_int_def)
  have r: "0 \<le> f64_val r" "f64_val r \<le> 1" using assms(1) by (simp_all add: in_unit_def)
  have "real p / real q = f64_val (f64_of_int (int n)) * f64_val r"
    using signed_cases [OF m(3)] x0 r by simp
  also have "\<dots> \<le> real n * 1" using x x0 r by (intro mult_mono) simp_all
  finally have "real p / real q \<le> real n" by simp
  from f64_of_ratio_le_nat [OF m(2) this assms(2), of s] show ?thesis
    unfolding m(1) by (intro f64_to_usize_le) auto
qed

end
