(* ===== verification/Fs_Cache.thy ===== *)
theory Fs_Cache
  imports F64_Arith
begin

text \<open>
  The S3-FIFO cache of the search engine (\<open>frankensearch-core/src/cache.rs\<close>): the trait
  \<open>CachePolicy\<close> as a locale, \<open>NoCache\<close> and \<open>S3FifoCache\<close> as its implementations. A state is the
  value behind the mutex, and every method is one step on it, since the lock is held from its first
  to its last access. Keys and values are type variables.
\<close>

section \<open>Configuration and state\<close>

record S3FifoConfig =
  max_bytes :: nat
  small_ratio :: f64
  freq_threshold :: nat
  hit_rate_alpha :: f64

definition default_config :: S3FifoConfig where
  "default_config = \<lparr>max_bytes = 256 * 1024 * 1024, small_ratio = f64_of_decimal False 1 (-1), freq_threshold = 1,
     hit_rate_alpha = f64_of_decimal False 1 (-2)\<rparr>"

definition max_small_bytes :: "S3FifoConfig \<Rightarrow> nat" where
  "max_small_bytes cfg =
     (let ratio = (if is_finite (small_ratio cfg) then f64_clamp (small_ratio cfg) F_zero F_one
                   else f64_of_decimal False 1 (-1))
      in f64_to_usize (f64_mul (f64_of_int (int (max_bytes cfg))) ratio))"

definition max_main_bytes :: "S3FifoConfig \<Rightarrow> nat" where
  "max_main_bytes cfg = max_bytes cfg - max_small_bytes cfg"

datatype EntryLocation = Small | Main

record 'v CacheEntry =
  ce_value :: 'v
  size_bytes :: nat
  freq :: nat
  location :: EntryLocation

record ('k, 'v) CacheState =
  entries :: "('k, 'v CacheEntry) hmap"
  small_order :: "'k list"
  main_order :: "'k list"
  ghost_set :: "'k set"
  ghost_order :: "'k list"
  small_bytes :: nat
  main_bytes :: nat
  hit_rate_ema :: f64

definition new_cache :: "('k, 'v) CacheState" where
  "new_cache = \<lparr>entries = [], small_order = [], main_order = [], ghost_set = {}, ghost_order = [],
     small_bytes = 0, main_bytes = 0, hit_rate_ema = F_zero\<rparr>"

definition cache_len :: "('k, 'v) CacheState \<Rightarrow> nat" where "cache_len st = length (entries st)"
definition cache_is_empty :: "('k, 'v) CacheState \<Rightarrow> bool" where "cache_is_empty st \<longleftrightarrow> cache_len st = 0"

section \<open>Eviction\<close>

text \<open>A new entry at the back of a queue.\<close>

definition push_main :: "'k \<Rightarrow> 'v \<Rightarrow> nat \<Rightarrow> ('k, 'v) CacheState \<Rightarrow> ('k, 'v) CacheState" where
  "push_main k v n st = st\<lparr>main_order := main_order st @ [k],
     entries := hinsert k \<lparr>ce_value = v, size_bytes = n, freq = 0, location = Main\<rparr> (entries st),
     main_bytes := usize_add (main_bytes st) n\<rparr>"

definition push_small :: "'k \<Rightarrow> 'v \<Rightarrow> nat \<Rightarrow> ('k, 'v) CacheState \<Rightarrow> ('k, 'v) CacheState" where
  "push_small k v n st = st\<lparr>small_order := small_order st @ [k],
     entries := hinsert k \<lparr>ce_value = v, size_bytes = n, freq = 0, location = Small\<rparr> (entries st),
     small_bytes := usize_add (small_bytes st) n\<rparr>"

text \<open>
  The body of the loop of \<open>evict_main\<close> on the key at the front: an entry that was read gets a second
  chance at the back, any other one is dropped.
\<close>

definition main_pop :: "'k \<Rightarrow> 'k list \<Rightarrow> ('k, 'v) CacheState \<Rightarrow> ('k, 'v) CacheState" where
  "main_pop k rest st =
     (case hget (entries st) k of
        Some e \<Rightarrow>
          if 0 < freq e then st\<lparr>entries := hinsert k (e\<lparr>freq := 0\<rparr>) (entries st), main_order := rest @ [k]\<rparr>
          else st\<lparr>entries := hremove k (entries st), main_order := rest, main_bytes := main_bytes st - size_bytes e\<rparr>
      | None \<Rightarrow> st\<lparr>main_order := rest\<rparr>)"

definition hot :: "('k, 'v) CacheState \<Rightarrow> 'k \<Rightarrow> bool" where
  "hot st k \<longleftrightarrow> (case hget (entries st) k of Some e \<Rightarrow> 0 < freq e | None \<Rightarrow> False)"

lemma hot_filter_le:
  "(\<And>k. k \<in> set ks \<Longrightarrow> hot st' k \<Longrightarrow> hot st k) \<Longrightarrow> length (filter (hot st') ks) \<le> length (filter (hot st) ks)"
  by (induction ks) (auto simp: le_Suc_eq)

text \<open>What is left of the loop: every queued key, and once more every one that was read.\<close>

definition main_work :: "('k, 'v) CacheState \<Rightarrow> nat" where
  "main_work st = length (main_order st) + length (filter (hot st) (main_order st))"

lemma main_pop_work:
  assumes "main_order st = k # rest"
  shows "main_work (main_pop k rest st) < main_work st"
proof -
  let ?st = "main_pop k rest st"
  have le: "length (filter (hot ?st) rest) \<le> length (filter (hot st) rest)"
    by (intro hot_filter_le) (auto simp: main_pop_def hot_def split: option.splits if_splits)
  show ?thesis
  proof (cases "hot st k")
    case True
    then have "main_order ?st = rest @ [k]" "\<not> hot ?st k" by (auto simp: main_pop_def hot_def split: option.splits)
    with True assms le show ?thesis by (simp add: main_work_def)
  next
    case False
    then have "main_order ?st = rest" by (auto simp: main_pop_def hot_def split: option.splits if_splits)
    with assms le show ?thesis by (simp add: main_work_def)
  qed
qed

function evict_main :: "('k, 'v) CacheState \<Rightarrow> nat \<Rightarrow> S3FifoConfig \<Rightarrow> ('k, 'v) CacheState" where
  "evict_main st needed cfg =
     (if max_main_bytes cfg < usize_add (main_bytes st) needed then
        (case main_order st of
           [] \<Rightarrow> st
         | k # rest \<Rightarrow> evict_main (main_pop k rest st) needed cfg)
      else st)"
  by pat_completeness auto

termination evict_main
  by (relation "measure (\<lambda>(st, _, _). main_work st)") (auto dest: main_pop_work)

declare evict_main.simps [simp del]

text \<open>
  The ghosts: keys evicted from Small, in a queue whose length the loop keeps below twice the number
  of queued keys, or below 1024. The bound is positive, so that the queue is never empty when the
  loop wants its front.
\<close>

fun trim_ghosts :: "nat \<Rightarrow> 'k list \<Rightarrow> 'k set \<Rightarrow> 'k list \<times> 'k set" where
  "trim_ghosts max_ghost [] gs = ([], gs)"
| "trim_ghosts max_ghost (k # ks) gs =
     (if max_ghost \<le> length (k # ks) then trim_ghosts max_ghost ks (gs - {k}) else (k # ks, gs))"

definition add_to_ghost :: "'k \<Rightarrow> ('k, 'v) CacheState \<Rightarrow> ('k, 'v) CacheState" where
  "add_to_ghost k st =
     (let max_ghost = max (sat_mul (length (main_order st) + length (small_order st)) 2) 1024;
          (order, gs) = trim_ghosts max_ghost (ghost_order st) (ghost_set st)
      in st\<lparr>ghost_order := order @ [k], ghost_set := insert k gs\<rparr>)"

text \<open>The body of the loop of \<open>evict_small\<close>: an entry that was read moves to Main, any other one to the ghosts.\<close>

definition small_pop :: "S3FifoConfig \<Rightarrow> 'k \<Rightarrow> 'k list \<Rightarrow> ('k, 'v) CacheState \<Rightarrow> ('k, 'v) CacheState" where
  "small_pop cfg k rest st =
     (let st = st\<lparr>small_order := rest\<rparr> in
      case hget (entries st) k of
        None \<Rightarrow> st
      | Some e \<Rightarrow>
          let st = st\<lparr>entries := hremove k (entries st), small_bytes := small_bytes st - size_bytes e\<rparr> in
          if freq_threshold cfg \<le> freq e
          then push_main k (ce_value e) (size_bytes e) (evict_main st (size_bytes e) cfg)
          else add_to_ghost k st)"

lemma main_pop_small [simp]: "small_order (main_pop k rest st) = small_order st"
  by (simp add: main_pop_def split: option.splits)

lemma evict_main_small [simp]: "small_order (evict_main st needed cfg) = small_order st"
proof (induction st needed cfg rule: evict_main.induct)
  case (1 st needed cfg)
  then show ?case by (subst evict_main.simps) (auto split: list.splits)
qed

lemma small_pop_small [simp]: "small_order (small_pop cfg k rest st) = rest"
  by (simp add: small_pop_def push_main_def add_to_ghost_def Let_def split: option.splits prod.splits)

function evict_small :: "('k, 'v) CacheState \<Rightarrow> nat \<Rightarrow> S3FifoConfig \<Rightarrow> ('k, 'v) CacheState" where
  "evict_small st needed cfg =
     (if max_small_bytes cfg < usize_add (small_bytes st) needed then
        (case small_order st of
           [] \<Rightarrow> st
         | k # rest \<Rightarrow> evict_small (small_pop cfg k rest st) needed cfg)
      else st)"
  by pat_completeness auto

termination evict_small
  by (relation "measure (\<lambda>(st, _, _). length (small_order st))") auto

declare evict_small.simps [simp del]

section \<open>The methods\<close>

definition cache_alpha :: "S3FifoConfig \<Rightarrow> f64" where
  "cache_alpha cfg =
     (if is_finite (hit_rate_alpha cfg) then f64_clamp (hit_rate_alpha cfg) F_zero F_one else f64_of_decimal False 1 (-2))"

definition cache_get :: "S3FifoConfig \<Rightarrow> 'k \<Rightarrow> ('k, 'v) CacheState \<Rightarrow> 'v option \<times> ('k, 'v) CacheState" where
  "cache_get cfg k st =
     (let alpha = cache_alpha cfg in
      case hget (entries st) k of
        Some e \<Rightarrow>
          (Some (ce_value e),
           st\<lparr>entries := hinsert k (e\<lparr>freq := min (freq e + 1) 255\<rparr>) (entries st),
              hit_rate_ema := f64_mul_add (f64_sub F_one alpha) (hit_rate_ema st) alpha\<rparr>)
      | None \<Rightarrow> (None, st\<lparr>hit_rate_ema := f64_mul (hit_rate_ema st) (f64_sub F_one alpha)\<rparr>))"

definition update_entry :: "'k \<Rightarrow> 'v \<Rightarrow> nat \<Rightarrow> 'v CacheEntry \<Rightarrow> ('k, 'v) CacheState \<Rightarrow> ('k, 'v) CacheState" where
  "update_entry k v n e st =
     (let st = st\<lparr>entries := hinsert k (e\<lparr>ce_value := v, size_bytes := n\<rparr>) (entries st)\<rparr> in
      case location e of
        Small \<Rightarrow> st\<lparr>small_bytes := sat_add (small_bytes st - size_bytes e) n\<rparr>
      | Main \<Rightarrow> st\<lparr>main_bytes := sat_add (main_bytes st - size_bytes e) n\<rparr>)"

definition cache_insert :: "S3FifoConfig \<Rightarrow> 'k \<Rightarrow> 'v \<Rightarrow> nat \<Rightarrow> ('k, 'v) CacheState \<Rightarrow> ('k, 'v) CacheState" where
  "cache_insert cfg k v n st =
     (if max_bytes cfg < n then st
      else if max_main_bytes cfg < n then st
      else
        case hget (entries st) k of
          Some e \<Rightarrow> update_entry k v n e st
        | None \<Rightarrow>
            let ghost = (k \<in> ghost_set st); st = st\<lparr>ghost_set := ghost_set st - {k}\<rparr> in
            if ghost \<or> max_small_bytes cfg < n
            then push_main k v n (evict_main st n cfg)
            else push_small k v n (evict_small st n cfg))"

definition hit_rate :: "('k, 'v) CacheState \<Rightarrow> f64" where "hit_rate st = hit_rate_ema st"

definition memory_used :: "('k, 'v) CacheState \<Rightarrow> nat" where
  "memory_used st = usize_add (small_bytes st) (main_bytes st)"

section \<open>The queues and the table\<close>

text \<open>The keys of a queue are those of the entries at that location, and a ghost is not cached.\<close>

definition placed :: "('k, 'v CacheEntry) hmap \<Rightarrow> EntryLocation \<Rightarrow> 'k \<Rightarrow> bool" where
  "placed m loc k \<longleftrightarrow> (\<exists>e. hget m k = Some e \<and> location e = loc)"

definition cache_wf :: "('k, 'v) CacheState \<Rightarrow> bool" where
  "cache_wf st \<longleftrightarrow> hdistinct (entries st) \<and> distinct (small_order st) \<and> distinct (main_order st)
     \<and> set (small_order st) = {k. placed (entries st) Small k} \<and> set (main_order st) = {k. placed (entries st) Main k}
     \<and> ghost_set st \<subseteq> set (ghost_order st) \<and> (\<forall>k \<in> ghost_set st. hget (entries st) k = None)"

abbreviation lookup :: "('k, 'v) CacheState \<Rightarrow> 'k \<Rightarrow> 'v option" where
  "lookup st k \<equiv> map_option ce_value (hget (entries st) k)"

lemma placed_hinsert: "placed (hinsert k e m) loc k' \<longleftrightarrow> (if k' = k then location e = loc else placed m loc k')"
  by (simp add: placed_def)

lemma placed_hremove: "placed (hremove k m) loc k' \<longleftrightarrow> k' \<noteq> k \<and> placed m loc k'"
  by (simp add: placed_def)

lemma placed_hget: "hget m k = Some e \<Longrightarrow> placed m loc k \<longleftrightarrow> location e = loc"
  by (simp add: placed_def)

lemmas placed_simps = placed_hinsert placed_hremove

lemma main_front:
  assumes "cache_wf st" "main_order st = k # rest"
  obtains e where "hget (entries st) k = Some e" "location e = Main"
proof -
  have "k \<in> set (main_order st)" using assms(2) by simp
  then have "placed (entries st) Main k" using assms(1) by (simp add: cache_wf_def)
  then show thesis using that by (auto simp: placed_def)
qed

lemma small_front:
  assumes "cache_wf st" "small_order st = k # rest"
  obtains e where "hget (entries st) k = Some e" "location e = Small"
proof -
  have "k \<in> set (small_order st)" using assms(2) by simp
  then have "placed (entries st) Small k" using assms(1) by (simp add: cache_wf_def)
  then show thesis using that by (auto simp: placed_def)
qed

lemma main_pop_wf:
  assumes "cache_wf st" "main_order st = k # rest"
  shows "cache_wf (main_pop k rest st)"
proof -
  obtain e where e: "hget (entries st) k = Some e" "location e = Main" using assms by (rule main_front)
  have k: "k \<notin> set rest" "k \<notin> set (small_order st)"
    using assms e by (auto simp: cache_wf_def placed_def)
  have small: "set (small_order st) = {k'. placed (entries st) Small k'}"
    and main: "insert k (set rest) = {k'. placed (entries st) Main k'}"
    using assms by (auto simp: cache_wf_def)
  show ?thesis
    using assms e k small main
    by (auto simp: main_pop_def cache_wf_def placed_simps set_eq_iff placed_hget)
qed

lemma evict_main_wf: "cache_wf st \<Longrightarrow> cache_wf (evict_main st needed cfg)"
proof (induction st needed cfg rule: evict_main.induct)
  case (1 st needed cfg)
  then show ?case by (subst evict_main.simps) (auto split: list.splits simp: main_pop_wf)
qed

lemma push_main_wf:
  "cache_wf st \<Longrightarrow> hget (entries st) k = None \<Longrightarrow> k \<notin> ghost_set st \<Longrightarrow> cache_wf (push_main k v n st)"
  by (auto simp: push_main_def cache_wf_def placed_simps placed_def set_eq_iff)

lemma push_small_wf:
  "cache_wf st \<Longrightarrow> hget (entries st) k = None \<Longrightarrow> k \<notin> ghost_set st \<Longrightarrow> cache_wf (push_small k v n st)"
  by (auto simp: push_small_def cache_wf_def placed_simps placed_def set_eq_iff)

lemma trim_ghosts_subset:
  "trim_ghosts n order gs = (order', gs') \<Longrightarrow> gs \<subseteq> set order \<Longrightarrow> gs' \<subseteq> set order' \<and> gs' \<subseteq> gs"
proof (induction n order gs rule: trim_ghosts.induct)
  case (2 n k ks gs)
  show ?case
  proof (cases "n \<le> length (k # ks)")
    case True
    then have "gs' \<subseteq> set order' \<and> gs' \<subseteq> gs - {k}" using 2 by auto
    then show ?thesis by blast
  qed (use 2 in auto)
qed auto

lemma add_to_ghost_wf:
  assumes "cache_wf st" "hget (entries st) k = None"
  shows "cache_wf (add_to_ghost k st)"
proof -
  obtain order gs where t: "trim_ghosts (max (sat_mul (length (main_order st) + length (small_order st)) 2) 1024)
      (ghost_order st) (ghost_set st) = (order, gs)" by (cases "trim_ghosts (max (sat_mul (length (main_order st) + length (small_order st)) 2) 1024)
      (ghost_order st) (ghost_set st)")
  with assms trim_ghosts_subset [OF t] show ?thesis
    by (auto simp: add_to_ghost_def cache_wf_def Let_def)
qed

text \<open>An eviction from Main only takes entries away, none of them from Small, and leaves the ghosts.\<close>

definition kept :: "('k, 'v) CacheState \<Rightarrow> ('k, 'v) CacheState \<Rightarrow> bool" where
  "kept st st' \<longleftrightarrow> ghost_set st' = ghost_set st \<and> ghost_order st' = ghost_order st
     \<and> small_bytes st' = small_bytes st \<and> hit_rate_ema st' = hit_rate_ema st
     \<and> (\<forall>k. placed (entries st) Small k \<longrightarrow> hget (entries st') k = hget (entries st) k)
     \<and> (\<forall>k e'. hget (entries st') k = Some e' \<longrightarrow>
          (\<exists>e. hget (entries st) k = Some e \<and> ce_value e' = ce_value e \<and> size_bytes e' = size_bytes e))"

lemma main_pop_kept: "cache_wf st \<Longrightarrow> main_order st = k # rest \<Longrightarrow> kept st (main_pop k rest st)"
  by (erule (1) main_front) (auto simp: kept_def main_pop_def placed_def split: if_splits)

lemma kept_refl: "kept st st"
  by (simp add: kept_def)

lemma kept_trans: "kept a b \<Longrightarrow> kept b c \<Longrightarrow> kept a c"
  unfolding kept_def placed_def by (metis (no_types, lifting))

lemma evict_main_kept: "cache_wf st \<Longrightarrow> kept st (evict_main st needed cfg)"
proof (induction st needed cfg rule: evict_main.induct)
  case (1 st needed cfg)
  then show ?case
    by (subst evict_main.simps)
      (auto split: list.splits simp: kept_refl main_pop_wf intro: kept_trans [OF main_pop_kept])
qed

lemma kept_entry:
  "kept st st' \<Longrightarrow> hget (entries st') k = Some e' \<Longrightarrow>
     \<exists>e. hget (entries st) k = Some e \<and> ce_value e' = ce_value e \<and> size_bytes e' = size_bytes e"
  by (simp add: kept_def)

lemma kept_None: "kept st st' \<Longrightarrow> hget (entries st) k = None \<Longrightarrow> hget (entries st') k = None"
  using kept_entry by (metis not_None_eq)

lemma kept_lookup: "kept st st' \<Longrightarrow> lookup st' k = Some w \<Longrightarrow> lookup st k = Some w"
  using kept_entry [of st st' k] by (cases "hget (entries st') k") auto

lemma kept_rest: "kept st st' \<Longrightarrow> ghost_set st' = ghost_set st \<and> hit_rate_ema st' = hit_rate_ema st"
  by (simp add: kept_def)

lemma placed_once: "placed m Small k \<Longrightarrow> \<not> placed m Main k"
  by (auto simp: placed_def)

lemma unqueue_wf:
  assumes "cache_wf st" "small_order st = k # rest"
  shows "cache_wf (st\<lparr>small_order := rest, entries := hremove k (entries st), small_bytes := b\<rparr>)"
  using assms placed_once [of "entries st" k] by (auto simp: cache_wf_def placed_simps set_eq_iff)

lemma small_pop_wf:
  assumes "cache_wf st" "small_order st = k # rest"
  shows "cache_wf (small_pop cfg k rest st)"
proof -
  obtain e where e: "hget (entries st) k = Some e" using assms by (rule small_front)
  let ?st = "st\<lparr>small_order := rest, entries := hremove k (entries st), small_bytes := small_bytes st - size_bytes e\<rparr>"
  have wf: "cache_wf ?st" using assms by (rule unqueue_wf)
  have k: "k \<notin> ghost_set st" using assms(1) e by (auto simp: cache_wf_def)
  have "cache_wf (push_main k (ce_value e) (size_bytes e) (evict_main ?st (size_bytes e) cfg))"
    using evict_main_wf [OF wf] kept_None [OF evict_main_kept [OF wf]] kept_rest [OF evict_main_kept [OF wf]] k
    by (intro push_main_wf) simp_all
  moreover have "cache_wf (add_to_ghost k ?st)" using wf by (rule add_to_ghost_wf) simp
  ultimately show ?thesis using e by (simp add: small_pop_def Let_def)
qed

lemma add_to_ghost_simps [simp]:
  "entries (add_to_ghost k st) = entries st" "hit_rate_ema (add_to_ghost k st) = hit_rate_ema st"
  "small_bytes (add_to_ghost k st) = small_bytes st" "main_bytes (add_to_ghost k st) = main_bytes st"
  "small_order (add_to_ghost k st) = small_order st" "main_order (add_to_ghost k st) = main_order st"
  by (simp_all add: add_to_ghost_def Let_def split: prod.splits)

text \<open>What evicting from Small may do to the keys and values: none is added, none is changed.\<close>

definition shrunk :: "('k, 'v) CacheState \<Rightarrow> ('k, 'v) CacheState \<Rightarrow> bool" where
  "shrunk st st' \<longleftrightarrow> hit_rate_ema st' = hit_rate_ema st
     \<and> (\<forall>k w. lookup st' k = Some w \<longrightarrow> lookup st k = Some w)
     \<and> (\<forall>k. hget (entries st) k = None \<longrightarrow> k \<notin> ghost_set st \<longrightarrow> k \<notin> ghost_set st')"

lemma shrunkI:
  assumes "hit_rate_ema st' = hit_rate_ema st" "\<And>k w. lookup st' k = Some w \<Longrightarrow> lookup st k = Some w"
    "\<And>k. hget (entries st) k = None \<Longrightarrow> k \<notin> ghost_set st \<Longrightarrow> k \<notin> ghost_set st'"
  shows "shrunk st st'"
  using assms unfolding shrunk_def by blast

lemma shrunkD:
  assumes "shrunk st st'"
  shows "hit_rate_ema st' = hit_rate_ema st" "lookup st' k = Some w \<Longrightarrow> lookup st k = Some w"
    "hget (entries st) k = None \<Longrightarrow> k \<notin> ghost_set st \<Longrightarrow> k \<notin> ghost_set st'"
  using assms unfolding shrunk_def by (blast, blast, blast)

lemma ghost_add: "cache_wf st \<Longrightarrow> ghost_set (add_to_ghost k st) \<subseteq> insert k (ghost_set st)"
  using trim_ghosts_subset by (fastforce simp: add_to_ghost_def cache_wf_def Let_def split: prod.splits)

lemma small_pop_shrunk:
  assumes "cache_wf st" "small_order st = k # rest"
  shows "shrunk st (small_pop cfg k rest st)"
proof -
  obtain e where e: "hget (entries st) k = Some e" using assms by (rule small_front)
  let ?st = "st\<lparr>small_order := rest, entries := hremove k (entries st), small_bytes := small_bytes st - size_bytes e\<rparr>"
  have wf: "cache_wf ?st" using assms by (rule unqueue_wf)
  have sub: "lookup ?st k' = Some w \<Longrightarrow> lookup st k' = Some w" for k' w by (auto split: if_splits)
  let ?st' = "evict_main ?st (size_bytes e) cfg"
  note ek = evict_main_kept [OF wf, of "size_bytes e" cfg]
  have l: "lookup (push_main k (ce_value e) (size_bytes e) ?st') k' = (if k' = k then lookup st k else lookup ?st' k')" for k'
    using e by (simp add: push_main_def)
  have "shrunk st (push_main k (ce_value e) (size_bytes e) ?st')"
  proof (rule shrunkI)
    fix k' w assume "lookup (push_main k (ce_value e) (size_bytes e) ?st') k' = Some w"
    then show "lookup st k' = Some w" unfolding l by (metis sub kept_lookup [OF ek])
  qed (use kept_rest [OF ek] in \<open>simp_all add: push_main_def\<close>)
  moreover have "shrunk st (add_to_ghost k ?st)" using ghost_add [OF wf, of k] e by (auto simp: shrunk_def split: if_splits)
  ultimately show ?thesis using e by (simp add: small_pop_def Let_def)
qed

lemma shrunk_None: "shrunk st st' \<Longrightarrow> hget (entries st) k = None \<Longrightarrow> hget (entries st') k = None"
  using shrunkD(2) [of st st' k] by (cases "hget (entries st') k") auto

lemma shrunk_trans:
  assumes "shrunk a b" "shrunk b c"
  shows "shrunk a c"
  unfolding shrunk_def using shrunkD [OF assms(1)] shrunkD [OF assms(2)] shrunk_None [OF assms(1)] by metis

lemma evict_small_wf: "cache_wf st \<Longrightarrow> cache_wf (evict_small st needed cfg) \<and> shrunk st (evict_small st needed cfg)"
proof (induction st needed cfg rule: evict_small.induct)
  case (1 st needed cfg)
  have "shrunk st st" by (simp add: shrunk_def)
  then show ?case
    using 1 by (subst (1 2) evict_small.simps)
      (auto split: list.splits simp: small_pop_wf intro: shrunk_trans [OF small_pop_shrunk])
qed

lemma cache_get_wf:
  assumes "cache_wf st"
  shows "cache_wf (snd (cache_get cfg k st))"
proof (cases "hget (entries st) k")
  case (Some e)
  then have "placed (hinsert k (e\<lparr>freq := f\<rparr>) (entries st)) loc k' = placed (entries st) loc k'" for f loc k'
    by (simp add: placed_hinsert placed_hget)
  with Some assms show ?thesis by (auto simp: cache_get_def cache_wf_def Let_def)
qed (use assms in \<open>simp add: cache_get_def cache_wf_def Let_def\<close>)

lemma update_entry_wf:
  assumes "cache_wf st" "hget (entries st) k = Some e"
  shows "cache_wf (update_entry k v n e st)"
proof -
  have "placed (hinsert k (e\<lparr>ce_value := v, size_bytes := n\<rparr>) (entries st)) loc k' = placed (entries st) loc k'" for loc k'
    using assms(2) by (simp add: placed_hinsert placed_hget)
  with assms show ?thesis by (auto simp: update_entry_def cache_wf_def Let_def split: EntryLocation.splits)
qed

lemma unghost_wf: "cache_wf st \<Longrightarrow> cache_wf (st\<lparr>ghost_set := ghost_set st - {k}\<rparr>)"
  by (auto simp: cache_wf_def)

lemma cache_insert_wf:
  assumes "cache_wf st"
  shows "cache_wf (cache_insert cfg k v n st)"
proof (cases "hget (entries st) k")
  case None
  let ?st = "st\<lparr>ghost_set := ghost_set st - {k}\<rparr>"
  have wf: "cache_wf ?st" using assms by (rule unghost_wf)
  note m = evict_main_wf [OF wf] kept_None [OF evict_main_kept [OF wf]] kept_rest [OF evict_main_kept [OF wf]]
  note s = conjunct1 [OF evict_small_wf [OF wf]]
    shrunk_None [OF conjunct2 [OF evict_small_wf [OF wf]]] shrunkD(3) [OF conjunct2 [OF evict_small_wf [OF wf]]]
  have "cache_wf (push_main k v n (evict_main ?st n cfg))" using m None by (intro push_main_wf) simp_all
  moreover have "cache_wf (push_small k v n (evict_small ?st n cfg))" using s None by (intro push_small_wf) simp_all
  ultimately show ?thesis using None assms by (simp add: cache_insert_def Let_def del: Diff_insert0)
qed (use assms update_entry_wf in \<open>auto simp: cache_insert_def\<close>)

section \<open>The policy\<close>

text \<open>
  What a cache promises: reading returns what is cached and changes nothing of it, and inserting
  never invents a value: a key that is cached afterwards has the value just inserted, when the
  insertion is accepted, or the one it had. The result of any sequence of operations is a part of
  the map that the accepted insertions describe.
\<close>

datatype ('k, 'v) cache_op = OpGet 'k | OpInsert 'k 'v nat

fun apply_op ::
  "('k \<Rightarrow> 's \<Rightarrow> 'v option \<times> 's) \<Rightarrow> ('k \<Rightarrow> 'v \<Rightarrow> nat \<Rightarrow> 's \<Rightarrow> 's) \<Rightarrow> ('k, 'v) cache_op \<Rightarrow> 's \<Rightarrow> 's" where
  "apply_op get ins (OpGet k) s = snd (get k s)"
| "apply_op get ins (OpInsert k v n) s = ins k v n s"

fun write_op :: "(nat \<Rightarrow> bool) \<Rightarrow> ('k, 'v) cache_op \<Rightarrow> ('k \<rightharpoonup> 'v) \<Rightarrow> ('k \<rightharpoonup> 'v)" where
  "write_op accepts (OpGet k) m = m"
| "write_op accepts (OpInsert k v n) m = (if accepts n then m(k \<mapsto> v) else m)"

locale cache_policy =
  fixes get :: "'k \<Rightarrow> 's \<Rightarrow> 'v option \<times> 's"
    and ins :: "'k \<Rightarrow> 'v \<Rightarrow> nat \<Rightarrow> 's \<Rightarrow> 's"
    and accepts :: "nat \<Rightarrow> bool"
    and content :: "'s \<Rightarrow> 'k \<Rightarrow> 'v option"
    and inv :: "'s \<Rightarrow> bool"
    and start :: 's
  assumes start_inv: "inv start" and start_content: "content start k = None"
    and get_inv: "inv s \<Longrightarrow> inv (snd (get k s))"
    and ins_inv: "inv s \<Longrightarrow> inv (ins k v n s)"
    and get_result: "inv s \<Longrightarrow> fst (get k s) = content s k"
    and get_content: "inv s \<Longrightarrow> content (snd (get k s)) k' = content s k'"
    and ins_content: "inv s \<Longrightarrow> content (ins k v n s) k' = Some w \<Longrightarrow>
      (if accepts n \<and> k' = k then w = v else content s k' = Some w)"
begin

lemma op_sound:
  assumes "inv s" "content s \<subseteq>\<^sub>m m"
  shows "inv (apply_op get ins op s)" "content (apply_op get ins op s) \<subseteq>\<^sub>m write_op accepts op m"
proof -
  show "inv (apply_op get ins op s)" using assms(1) by (cases op) (auto simp: get_inv ins_inv)
  have "write_op accepts op m k' = Some w" if "content (apply_op get ins op s) k' = Some w" for k' w
  proof -
    have m: "m k' = Some w" if "content s k' = Some w" using that assms(2) by (metis domI map_le_def)
    show ?thesis
    proof (cases op)
      case (OpInsert k v n)
      then show ?thesis using m that ins_content [OF assms(1), of k v n k' w] by (auto split: if_splits)
    qed (use m that assms(1) in \<open>simp add: get_content\<close>)
  qed
  then show "content (apply_op get ins op s) \<subseteq>\<^sub>m write_op accepts op m" by (auto simp: map_le_def)
qed

lemma run_sound:
  "inv s \<Longrightarrow> content s \<subseteq>\<^sub>m m \<Longrightarrow>
     inv (fold (apply_op get ins) ops s) \<and> content (fold (apply_op get ins) ops s) \<subseteq>\<^sub>m fold (write_op accepts) ops m"
proof (induction ops arbitrary: s m)
  case (Cons op ops)
  from Cons.IH [OF op_sound [OF Cons.prems]] show ?case by simp
qed simp

lemma runs_refine: "content (fold (apply_op get ins) ops start) \<subseteq>\<^sub>m fold (write_op accepts) ops Map.empty"
  using run_sound [OF start_inv] start_content by (simp add: map_le_def dom_def)

lemma runs_inv: "inv (fold (apply_op get ins) ops start)"
  using run_sound [OF start_inv, of Map.empty] start_content by (simp add: map_le_def dom_def)

end

text \<open>The cache that keeps nothing.\<close>

definition no_cache_get :: "'k \<Rightarrow> unit \<Rightarrow> 'v option \<times> unit" where "no_cache_get k s = (None, s)"
definition no_cache_insert :: "'k \<Rightarrow> 'v \<Rightarrow> nat \<Rightarrow> unit \<Rightarrow> unit" where "no_cache_insert k v n s = s"

interpretation no_cache: cache_policy no_cache_get no_cache_insert "\<lambda>_. True" "\<lambda>_ _. None" "\<lambda>_. True" "()"
  by unfold_locales (simp_all add: no_cache_get_def)

definition accepts :: "S3FifoConfig \<Rightarrow> nat \<Rightarrow> bool" where
  "accepts cfg n \<longleftrightarrow> n \<le> max_bytes cfg \<and> n \<le> max_main_bytes cfg"

lemma cache_get_lookup: "fst (cache_get cfg k st) = lookup st k" "lookup (snd (cache_get cfg k st)) k' = lookup st k'"
  by (auto simp: cache_get_def Let_def split: option.splits)

lemma push_lookup:
  "lookup (push_main k v n st) k' = (if k' = k then Some v else lookup st k')"
  "lookup (push_small k v n st) k' = (if k' = k then Some v else lookup st k')"
  by (simp_all add: push_main_def push_small_def)

lemma update_lookup: "lookup (update_entry k v n e st) k' = (if k' = k then Some v else lookup st k')"
  by (simp add: update_entry_def Let_def split: EntryLocation.splits)

lemma cache_insert_lookup:
  assumes "cache_wf st" "lookup (cache_insert cfg k v n st) k' = Some w"
  shows "if accepts cfg n \<and> k' = k then w = v else lookup st k' = Some w"
proof (cases "accepts cfg n")
  case True
  let ?st = "st\<lparr>ghost_set := ghost_set st - {k}\<rparr>"
  have wf: "cache_wf ?st" using assms(1) by (rule unghost_wf)
  have "lookup ?st k' = lookup st k'" by simp
  then have "lookup (evict_main ?st n cfg) k' = Some w \<Longrightarrow> lookup st k' = Some w"
      "lookup (evict_small ?st n cfg) k' = Some w \<Longrightarrow> lookup st k' = Some w"
    using kept_lookup [OF evict_main_kept [OF wf]] shrunkD(2) [OF conjunct2 [OF evict_small_wf [OF wf]]] by metis+
  with True assms(2) show ?thesis
    by (auto simp: accepts_def cache_insert_def Let_def push_lookup update_lookup simp del: Diff_insert0 map_option_eq_Some
        split: option.splits if_splits)
next
  case False
  then have "cache_insert cfg k v n st = st" by (auto simp: accepts_def cache_insert_def)
  with False assms(2) show ?thesis by simp
qed

lemma new_cache_wf: "cache_wf new_cache"
  by (simp add: new_cache_def cache_wf_def placed_def)

interpretation s3fifo: cache_policy "cache_get cfg" "cache_insert cfg" "accepts cfg" lookup cache_wf new_cache for cfg
  by unfold_locales
    (simp_all only: new_cache_wf cache_get_wf cache_insert_wf cache_get_lookup, simp add: new_cache_def,
      rule cache_insert_lookup)

text \<open>
  C5: the S3-FIFO cache refines a map: after any sequence of reads and insertions, what it holds is
  a part of the map that its accepted insertions describe, so that a read returns either nothing or
  the value of the last accepted insertion of that key.
\<close>

theorem cache_refines_map:
  "lookup (fold (apply_op (cache_get cfg) (cache_insert cfg)) ops new_cache) \<subseteq>\<^sub>m fold (write_op (accepts cfg)) ops Map.empty"
  by (rule s3fifo.runs_refine)

text \<open>
  In every state that reads and insertions reach, the keys of the two queues are exactly the
  cached ones, each once and in the queue its entry names, and every ghost is queued and not cached.
\<close>

theorem cache_queues_match_table:
  "cache_wf (fold (apply_op (cache_get cfg) (cache_insert cfg)) ops new_cache)"
  by (rule s3fifo.runs_inv)

section \<open>The hit rate\<close>

lemma hit_rate_push: "hit_rate_ema (push_main k v n st) = hit_rate_ema st" "hit_rate_ema (push_small k v n st) = hit_rate_ema st"
  by (simp_all add: push_main_def push_small_def)

lemma cache_insert_rate:
  assumes "cache_wf st"
  shows "hit_rate_ema (cache_insert cfg k v n st) = hit_rate_ema st"
proof -
  let ?st = "st\<lparr>ghost_set := ghost_set st - {k}\<rparr>"
  have wf: "cache_wf ?st" using assms by (rule unghost_wf)
  have "hit_rate_ema (evict_main ?st n cfg) = hit_rate_ema st" "hit_rate_ema (evict_small ?st n cfg) = hit_rate_ema st"
    using kept_rest [OF evict_main_kept [OF wf]] shrunkD(1) [OF conjunct2 [OF evict_small_wf [OF wf]]] by simp_all
  then show ?thesis
    by (auto simp: cache_insert_def update_entry_def hit_rate_push Let_def simp del: Diff_insert0
        split: option.splits EntryLocation.splits)
qed

lemma cache_alpha_unit: "f64_wf (hit_rate_alpha cfg) \<Longrightarrow> in_unit (cache_alpha cfg)"
proof -
  have "f64_of_decimal False 1 (-2) = f64_of_ratio False 1 100" by (simp add: f64_of_decimal_def)
  moreover have "in_unit (f64_of_ratio False 1 100)" by (rule in_unit_of_ratio [of _ _ _ "1 / 100"]) simp_all
  ultimately have "in_unit (f64_of_decimal False 1 (-2))" by simp
  then show "f64_wf (hit_rate_alpha cfg) \<Longrightarrow> in_unit (cache_alpha cfg)" by (simp add: cache_alpha_def in_unit_clamp)
qed

lemma cache_get_rate:
  assumes "f64_wf (hit_rate_alpha cfg)" "in_unit (hit_rate_ema st)"
  shows "in_unit (hit_rate_ema (snd (cache_get cfg k st)))"
  using cache_alpha_unit [OF assms(1)] assms(2)
  by (auto simp: cache_get_def Let_def in_unit_mix in_unit_mul in_unit_sub_one(1) split: option.splits)

interpretation rate: invariant_machine "apply_op (cache_get cfg) (cache_insert cfg)"
  "\<lambda>st. cache_wf st \<and> (f64_wf (hit_rate_alpha cfg) \<longrightarrow> in_unit (hit_rate_ema st))" new_cache for cfg
proof unfold_locales
  show "cache_wf new_cache \<and> (f64_wf (hit_rate_alpha cfg) \<longrightarrow> in_unit (hit_rate_ema new_cache))"
    by (simp add: new_cache_wf) (simp add: new_cache_def)
next
  fix st :: "('k, 'v) CacheState" and op
  assume "cache_wf st \<and> (f64_wf (hit_rate_alpha cfg) \<longrightarrow> in_unit (hit_rate_ema st))"
  then show "cache_wf (apply_op (cache_get cfg) (cache_insert cfg) op st)
    \<and> (f64_wf (hit_rate_alpha cfg) \<longrightarrow> in_unit (hit_rate_ema (apply_op (cache_get cfg) (cache_insert cfg) op st)))"
    by (cases op) (auto simp: cache_get_wf cache_insert_wf cache_insert_rate cache_get_rate)
qed

text \<open>
  The reported hit rate is a number between zero and one after any sequence of operations and
  for any smoothing factor, an infinite one and NaN included, although every update is rounded.
\<close>

theorem hit_rate_in_unit:
  assumes "f64_wf (hit_rate_alpha cfg)"
  shows "in_unit (hit_rate (fold (apply_op (cache_get cfg) (cache_insert cfg)) ops new_cache))"
  using rate.inv_run [of cfg ops] assms by (simp add: hit_rate_def)

theorem hit_rate_in_unit_witness:
  "in_unit (hit_rate (fold (apply_op (cache_get \<lparr>max_bytes = 10, small_ratio = F_zero, freq_threshold = 1, hit_rate_alpha = F_NaN\<rparr>)
      (cache_insert \<lparr>max_bytes = 10, small_ratio = F_zero, freq_threshold = 1, hit_rate_alpha = F_NaN\<rparr>))
      [OpInsert (1::nat) (2::nat) 3, OpGet 1, OpGet 4] new_cache))"
  by (rule hit_rate_in_unit) simp

section \<open>The budget\<close>

definition size_of :: "('k, 'v CacheEntry) hmap \<Rightarrow> 'k \<Rightarrow> nat" where
  "size_of m k = (case hget m k of Some e \<Rightarrow> size_bytes e | None \<Rightarrow> 0)"

abbreviation sizes :: "('k, 'v CacheEntry) hmap \<Rightarrow> 'k list \<Rightarrow> nat" where
  "sizes m ks \<equiv> sum_list (map (size_of m) ks)"

lemma size_of_simps [simp]:
  "size_of (hinsert k e m) k' = (if k' = k then size_bytes e else size_of m k')"
  "size_of (hremove k m) k' = (if k' = k then 0 else size_of m k')"
  by (simp_all add: size_of_def)

lemma size_of_hget: "hget m k = Some e \<Longrightarrow> size_of m k = size_bytes e"
  by (simp add: size_of_def)

lemma sizes_cong: "(\<And>k. k \<in> set ks \<Longrightarrow> size_of m k = size_of m' k) \<Longrightarrow> sizes m ks = sizes m' ks"
  by (simp cong: map_cong)

lemma sizes_split: "distinct ks \<Longrightarrow> k \<in> set ks \<Longrightarrow> sizes m ks = size_of m k + sizes m (remove1 k ks)"
  by (induction ks) auto

lemma sizes_remove: "k \<notin> set ks \<Longrightarrow> sizes (hremove k m) ks = sizes m ks"
  by (rule sizes_cong) auto

lemma sizes_insert: "k \<notin> set ks \<Longrightarrow> sizes (hinsert k e m) ks = sizes m ks"
  by (rule sizes_cong) auto

lemma sizes_update:
  assumes "distinct ks" "k \<in> set ks"
  shows "sizes (hinsert k e m) ks = sizes m ks - size_of m k + size_bytes e"
proof -
  have "sizes (hinsert k e m) (remove1 k ks) = sizes m (remove1 k ks)" using assms(1) by (intro sizes_insert) simp
  then show ?thesis using sizes_split [OF assms, of m] sizes_split [OF assms, of "hinsert k e m"] by simp
qed

text \<open>The byte counters are the sums over the queues, and each queue is within its share.\<close>

definition main_fits :: "S3FifoConfig \<Rightarrow> ('k, 'v) CacheState \<Rightarrow> bool" where
  "main_fits cfg st \<longleftrightarrow> main_bytes st = sizes (entries st) (main_order st) \<and> main_bytes st \<le> max_main_bytes cfg"

definition small_fits :: "S3FifoConfig \<Rightarrow> ('k, 'v) CacheState \<Rightarrow> bool" where
  "small_fits cfg st \<longleftrightarrow> small_bytes st = sizes (entries st) (small_order st) \<and> small_bytes st \<le> max_small_bytes cfg
     \<and> (\<forall>k. size_of (entries st) k \<le> max_main_bytes cfg)"

definition moderate :: "S3FifoConfig \<Rightarrow> bool" where
  "moderate cfg \<longleftrightarrow> max_bytes cfg \<le> 2 ^ 53 \<and> f64_wf (small_ratio cfg)"

lemma max_small_le:
  assumes "moderate cfg"
  shows "max_small_bytes cfg \<le> max_bytes cfg"
proof -
  have "f64_of_decimal False 1 (-1) = f64_of_ratio False 1 10" by (simp add: f64_of_decimal_def)
  moreover have "in_unit (f64_of_ratio False 1 10)" by (rule in_unit_of_ratio [of _ _ _ "1 / 10"]) simp_all
  ultimately have "in_unit (if is_finite (small_ratio cfg) then f64_clamp (small_ratio cfg) F_zero F_one
      else f64_of_decimal False 1 (-1))"
    using assms by (simp add: moderate_def in_unit_clamp)
  then show ?thesis using assms share_of_nat by (simp add: max_small_bytes_def moderate_def Let_def)
qed

lemma moderate_add: "moderate cfg \<Longrightarrow> a \<le> max_bytes cfg \<Longrightarrow> b \<le> max_bytes cfg \<Longrightarrow> usize_add a b = a + b"
  by (simp add: moderate_def)

lemma max_main_le: "max_main_bytes cfg \<le> max_bytes cfg"
  by (simp add: max_main_bytes_def)

lemma main_pop_fits:
  assumes "cache_wf st" "main_order st = k # rest" "main_fits cfg st"
  shows "main_fits cfg (main_pop k rest st)"
proof -
  obtain e where e: "hget (entries st) k = Some e" using assms(1,2) by (rule main_front)
  have k: "k \<notin> set rest" using assms(1,2) by (auto simp: cache_wf_def)
  have "main_bytes st = size_bytes e + sizes (entries st) rest"
    using assms(2,3) e by (simp add: main_fits_def size_of_hget)
  with assms(3) e k show ?thesis
    by (auto simp: main_pop_def main_fits_def sizes_insert sizes_remove)
qed

lemma evict_main_fits:
  assumes "moderate cfg" "needed \<le> max_main_bytes cfg" "cache_wf st" "main_fits cfg st"
  shows "main_fits cfg (evict_main st needed cfg) \<and> main_bytes (evict_main st needed cfg) + needed \<le> max_main_bytes cfg"
  using assms
proof (induction st needed cfg rule: evict_main.induct)
  case (1 st needed cfg)
  have add: "usize_add (main_bytes st) needed = main_bytes st + needed"
    using 1(2,3,5) max_main_le [of cfg] by (intro moderate_add) (auto simp: main_fits_def)
  show ?case
  proof (cases "main_order st")
    case Nil
    then show ?thesis using 1(3,5) add by (subst (1 2) evict_main.simps) (simp add: main_fits_def)
  next
    case (Cons k rest)
    have "main_fits cfg (evict_main (main_pop k rest st) needed cfg)
        \<and> main_bytes (evict_main (main_pop k rest st) needed cfg) + needed \<le> max_main_bytes cfg"
      if "max_main_bytes cfg < usize_add (main_bytes st) needed"
      using 1(1) [OF that Cons 1(2,3)] main_pop_wf [OF 1(4) Cons] main_pop_fits [OF 1(4) Cons 1(5)] by simp
    then show ?thesis using Cons 1(5) add by (subst (1 2) evict_main.simps) auto
  qed
qed

lemma evict_main_small_fits:
  assumes "cache_wf st" "small_fits cfg st"
  shows "small_fits cfg (evict_main st needed cfg)"
proof -
  note ek = evict_main_kept [OF assms(1), of needed cfg]
  have "sizes (entries (evict_main st needed cfg)) (small_order st) = sizes (entries st) (small_order st)"
  proof (rule sizes_cong)
    fix k assume "k \<in> set (small_order st)"
    then have "placed (entries st) Small k" using assms(1) by (simp add: cache_wf_def)
    then show "size_of (entries (evict_main st needed cfg)) k = size_of (entries st) k"
      using ek by (simp add: kept_def size_of_def)
  qed
  moreover have "size_of (entries (evict_main st needed cfg)) k \<le> size_of (entries st) k" for k
    using kept_entry [OF ek, of k] by (cases "hget (entries (evict_main st needed cfg)) k") (auto simp: size_of_def)
  ultimately show ?thesis
    using assms(2) ek order_trans unfolding small_fits_def kept_def by (metis evict_main_small)
qed

lemma push_main_fits:
  assumes "moderate cfg" "cache_wf st" "hget (entries st) k = None" "small_fits cfg st" "main_fits cfg st"
    "main_bytes st + n \<le> max_main_bytes cfg"
  shows "small_fits cfg (push_main k v n st) \<and> main_fits cfg (push_main k v n st)"
proof -
  have k: "k \<notin> set (small_order st)" "k \<notin> set (main_order st)" using assms(2,3) by (auto simp: cache_wf_def placed_def)
  have "usize_add (main_bytes st) n = main_bytes st + n"
    using assms(1,6) max_main_le [of cfg] by (intro moderate_add) auto
  with assms k show ?thesis by (auto simp: push_main_def main_fits_def small_fits_def sizes_insert)
qed

lemma small_pop_fits:
  assumes "moderate cfg" "cache_wf st" "small_order st = k # rest" "small_fits cfg st" "main_fits cfg st"
  shows "small_fits cfg (small_pop cfg k rest st) \<and> main_fits cfg (small_pop cfg k rest st)"
proof -
  obtain e where e: "hget (entries st) k = Some e" "location e = Small" using assms(2,3) by (rule small_front)
  let ?st = "st\<lparr>small_order := rest, entries := hremove k (entries st), small_bytes := small_bytes st - size_bytes e\<rparr>"
  have wf: "cache_wf ?st" using assms(2,3) by (rule unqueue_wf)
  have "\<not> placed (entries st) Main k" using e by (simp add: placed_def)
  then have k: "k \<notin> set rest" "k \<notin> set (main_order st)" using assms(2,3) by (auto simp: cache_wf_def)
  have b: "small_bytes st = size_bytes e + sizes (entries st) rest" "size_bytes e \<le> max_main_bytes cfg"
    using assms(3,4) size_of_hget [OF e(1)] unfolding small_fits_def by (auto, metis)
  have sf: "small_fits cfg ?st" and mf: "main_fits cfg ?st"
    using assms(4,5) k b by (auto simp: small_fits_def main_fits_def sizes_remove)
  let ?st' = "evict_main ?st (size_bytes e) cfg"
  note ev = evict_main_fits [OF assms(1) b(2) wf mf]
  have "small_fits cfg (push_main k (ce_value e) (size_bytes e) ?st') \<and> main_fits cfg (push_main k (ce_value e) (size_bytes e) ?st')"
    using ev evict_main_wf [OF wf] kept_None [OF evict_main_kept [OF wf], of k] evict_main_small_fits [OF wf sf]
    by (intro push_main_fits [OF assms(1)]) simp_all
  moreover have "small_fits cfg (add_to_ghost k ?st) \<and> main_fits cfg (add_to_ghost k ?st)"
    using sf mf by (simp add: small_fits_def main_fits_def)
  ultimately show ?thesis using e by (simp add: small_pop_def Let_def)
qed

lemma evict_small_fits:
  assumes "moderate cfg" "needed \<le> max_small_bytes cfg" "cache_wf st" "small_fits cfg st" "main_fits cfg st"
  shows "small_fits cfg (evict_small st needed cfg) \<and> main_fits cfg (evict_small st needed cfg)
    \<and> small_bytes (evict_small st needed cfg) + needed \<le> max_small_bytes cfg"
  using assms
proof (induction st needed cfg rule: evict_small.induct)
  case (1 st needed cfg)
  have add: "usize_add (small_bytes st) needed = small_bytes st + needed"
    using 1(2,3,5) max_small_le [OF 1(2)] by (intro moderate_add) (auto simp: small_fits_def)
  show ?case
  proof (cases "small_order st")
    case Nil
    then show ?thesis using 1(3,5,6) add by (subst (1 2 3) evict_small.simps) (simp add: small_fits_def)
  next
    case (Cons k rest)
    have "small_fits cfg (evict_small (small_pop cfg k rest st) needed cfg)
        \<and> main_fits cfg (evict_small (small_pop cfg k rest st) needed cfg)
        \<and> small_bytes (evict_small (small_pop cfg k rest st) needed cfg) + needed \<le> max_small_bytes cfg"
      if "max_small_bytes cfg < usize_add (small_bytes st) needed"
      using 1(1) [OF that Cons 1(2,3)] small_pop_wf [OF 1(4) Cons] small_pop_fits [OF 1(2,4) Cons 1(5,6)] by simp
    then show ?thesis using Cons 1(5,6) add by (subst (1 2 3) evict_small.simps) auto
  qed
qed

text \<open>An insertion that does not make a cached entry bigger.\<close>

fun grows :: "('k, 'v) CacheState \<Rightarrow> ('k, 'v) cache_op \<Rightarrow> bool" where
  "grows st (OpGet k) \<longleftrightarrow> False"
| "grows st (OpInsert k v n) \<longleftrightarrow> (case hget (entries st) k of Some e \<Rightarrow> size_bytes e < n | None \<Rightarrow> False)"

fun never_grows :: "S3FifoConfig \<Rightarrow> ('k, 'v) cache_op list \<Rightarrow> ('k, 'v) CacheState \<Rightarrow> bool" where
  "never_grows cfg [] st \<longleftrightarrow> True"
| "never_grows cfg (op # ops) st \<longleftrightarrow>
     \<not> grows st op \<and> never_grows cfg ops (apply_op (cache_get cfg) (cache_insert cfg) op st)"

definition fits_budget :: "S3FifoConfig \<Rightarrow> ('k, 'v) CacheState \<Rightarrow> bool" where
  "fits_budget cfg st \<longleftrightarrow> cache_wf st \<and> small_fits cfg st \<and> main_fits cfg st"

lemma cache_get_fits: "fits_budget cfg st \<Longrightarrow> fits_budget cfg (snd (cache_get cfg k st))"
proof -
  assume f: "fits_budget cfg st"
  have "size_of (entries (snd (cache_get cfg k st))) k' = size_of (entries st) k'" for k'
    by (auto simp: cache_get_def Let_def size_of_hget split: option.splits)
  then have "sizes (entries (snd (cache_get cfg k st))) ks = sizes (entries st) ks"
      "size_of (entries (snd (cache_get cfg k st))) k' = size_of (entries st) k'" for ks k'
    by (simp_all cong: map_cong)
  moreover have "small_order (snd (cache_get cfg k st)) = small_order st" "main_order (snd (cache_get cfg k st)) = main_order st"
      "small_bytes (snd (cache_get cfg k st)) = small_bytes st" "main_bytes (snd (cache_get cfg k st)) = main_bytes st"
    by (simp_all add: cache_get_def Let_def split: option.splits)
  ultimately show ?thesis using f by (simp add: fits_budget_def small_fits_def main_fits_def cache_get_wf)
qed

lemma update_entry_fits:
  assumes "moderate cfg" "fits_budget cfg st" "hget (entries st) k = Some e" "n \<le> size_bytes e"
  shows "small_fits cfg (update_entry k v n e st) \<and> main_fits cfg (update_entry k v n e st)"
proof -
  have wf: "cache_wf st" and sf: "small_fits cfg st" and mf: "main_fits cfg st" using assms(2) by (simp_all add: fits_budget_def)
  have q: "k \<in> set (small_order st) \<longleftrightarrow> location e = Small" "k \<in> set (main_order st) \<longleftrightarrow> location e = Main"
    using wf assms(3) by (auto simp: cache_wf_def placed_def)
  have d: "distinct (small_order st)" "distinct (main_order st)" using wf by (simp_all add: cache_wf_def)
  have sz: "size_of (entries st) k = size_bytes e" using assms(3) by (rule size_of_hget)
  have le: "size_bytes e \<le> max_main_bytes cfg" using sf sz unfolding small_fits_def by metis
  have bound: "b \<le> max_bytes cfg \<Longrightarrow> b \<le> USIZE_MAX" for b using assms(1) by (simp add: moderate_def USIZE_MAX_def)
  let ?m = "hinsert k (e\<lparr>ce_value := v, size_bytes := n\<rparr>) (entries st)"
  have new: "\<forall>k'. size_of ?m k' \<le> max_main_bytes cfg" using sf le assms(4) by (simp add: small_fits_def)
  show ?thesis
  proof (cases "location e")
    case Small
    have "size_bytes e \<le> small_bytes st" using sizes_split [OF d(1), of k "entries st"] q Small sz sf by (simp add: small_fits_def)
    moreover have "small_bytes st \<le> max_bytes cfg" using sf max_small_le [OF assms(1)] by (simp add: small_fits_def)
    ultimately have "sat_add (small_bytes st - size_bytes e) n = small_bytes st - size_bytes e + n"
      using assms(4) bound [of "small_bytes st - size_bytes e + n"] by (simp add: sat_add_def)
    then show ?thesis
      using Small sf mf new q sizes_update [OF d(1), of k _ "entries st"] sizes_insert [of k "main_order st" "e\<lparr>ce_value := v, size_bytes := n\<rparr>" "entries st"] sz assms(4)
        \<open>size_bytes e \<le> small_bytes st\<close>
      by (auto simp: update_entry_def small_fits_def main_fits_def)
  next
    case Main
    have "size_bytes e \<le> main_bytes st" using sizes_split [OF d(2), of k "entries st"] q Main sz mf by (simp add: main_fits_def)
    moreover have "main_bytes st \<le> max_bytes cfg" using mf max_main_le [of cfg] by (simp add: main_fits_def)
    ultimately have "sat_add (main_bytes st - size_bytes e) n = main_bytes st - size_bytes e + n"
      using assms(4) bound [of "main_bytes st - size_bytes e + n"] by (simp add: sat_add_def)
    then show ?thesis
      using Main sf mf new q sizes_update [OF d(2), of k _ "entries st"] sizes_insert [of k "small_order st" "e\<lparr>ce_value := v, size_bytes := n\<rparr>" "entries st"] sz assms(4)
        \<open>size_bytes e \<le> main_bytes st\<close>
      by (auto simp: update_entry_def small_fits_def main_fits_def)
  qed
qed

lemma push_small_fits:
  assumes "moderate cfg" "cache_wf st" "hget (entries st) k = None" "small_fits cfg st" "main_fits cfg st"
    "small_bytes st + n \<le> max_small_bytes cfg" "n \<le> max_main_bytes cfg"
  shows "small_fits cfg (push_small k v n st) \<and> main_fits cfg (push_small k v n st)"
proof -
  have k: "k \<notin> set (small_order st)" "k \<notin> set (main_order st)" using assms(2,3) by (auto simp: cache_wf_def placed_def)
  have "usize_add (small_bytes st) n = small_bytes st + n"
    using assms(1,6) max_small_le [OF assms(1)] by (intro moderate_add) auto
  with assms k show ?thesis by (auto simp: push_small_def main_fits_def small_fits_def sizes_insert)
qed

lemma cache_insert_fits:
  assumes "moderate cfg" "fits_budget cfg st" "\<not> grows st (OpInsert k v n)"
  shows "fits_budget cfg (cache_insert cfg k v n st)"
proof (cases "hget (entries st) k")
  case (Some e)
  then have "n \<le> size_bytes e" using assms(3) by simp
  from update_entry_fits [OF assms(1,2) Some this, of v] show ?thesis
    using assms(2) Some update_entry_wf [of st k e] by (auto simp: cache_insert_def fits_budget_def)
next
  case None
  let ?st = "st\<lparr>ghost_set := ghost_set st - {k}\<rparr>"
  have wf: "cache_wf ?st" and sf: "small_fits cfg ?st" and mf: "main_fits cfg ?st"
    using assms(2) unghost_wf by (auto simp: fits_budget_def small_fits_def main_fits_def)
  have "small_fits cfg (push_main k v n (evict_main ?st n cfg)) \<and> main_fits cfg (push_main k v n (evict_main ?st n cfg))"
    if "n \<le> max_main_bytes cfg"
    using evict_main_fits [OF assms(1) that wf mf] evict_main_wf [OF wf] evict_main_small_fits [OF wf sf] None
      kept_None [OF evict_main_kept [OF wf], of k]
    by (intro push_main_fits [OF assms(1)]) simp_all
  moreover have "small_fits cfg (push_small k v n (evict_small ?st n cfg)) \<and> main_fits cfg (push_small k v n (evict_small ?st n cfg))"
    if "n \<le> max_main_bytes cfg" "n \<le> max_small_bytes cfg"
    using evict_small_fits [OF assms(1) that(2) wf sf mf] evict_small_wf [OF wf] None that
      shrunk_None [OF conjunct2 [OF evict_small_wf [OF wf]], of k]
    by (intro push_small_fits [OF assms(1)]) simp_all
  ultimately show ?thesis
    using None assms(2) cache_insert_wf [of st cfg k v n]
    by (auto simp: cache_insert_def fits_budget_def Let_def simp del: Diff_insert0)
qed

lemma run_fits:
  assumes "moderate cfg"
  shows "fits_budget cfg st \<Longrightarrow> never_grows cfg ops st \<Longrightarrow>
    fits_budget cfg (fold (apply_op (cache_get cfg) (cache_insert cfg)) ops st)"
proof (induction ops arbitrary: st)
  case (Cons op ops)
  have "fits_budget cfg (apply_op (cache_get cfg) (cache_insert cfg) op st)"
    using Cons.prems cache_insert_fits [OF assms] cache_get_fits by (cases op) auto
  with Cons show ?case by simp
qed simp

lemma new_cache_fits: "fits_budget cfg new_cache"
  unfolding fits_budget_def using new_cache_wf
  by (simp add: small_fits_def main_fits_def) (simp add: new_cache_def size_of_def)

lemma fits_memory: "moderate cfg \<Longrightarrow> fits_budget cfg st \<Longrightarrow> memory_used st \<le> max_bytes cfg"
  using max_small_le [of cfg] moderate_add [of cfg "small_bytes st" "main_bytes st"]
  by (auto simp: memory_used_def fits_budget_def small_fits_def main_fits_def max_main_bytes_def)

lemma zero_share: "small_ratio cfg = F_zero \<Longrightarrow> max_bytes cfg \<le> 2 ^ 53 \<Longrightarrow> max_small_bytes cfg = 0"
proof -
  assume cfg: "small_ratio cfg = F_zero" "max_bytes cfg \<le> 2 ^ 53"
  have "is_finite (f64_of_int (int (max_bytes cfg)))"
    using f64_of_ratio_le_nat [of 1 "max_bytes cfg" "max_bytes cfg" False] cfg(2) by (simp add: f64_of_int_def)
  then obtain s m e where "f64_of_int (int (max_bytes cfg)) = F_Fin s m e" by (cases "f64_of_int (int (max_bytes cfg))") auto
  moreover have "f64_clamp F_zero F_zero F_one = F_zero" by (simp add: f64_clamp_def f64_lt_iff)
  ultimately show ?thesis
    using cfg(1) by (simp add: max_small_bytes_def) (simp add: F_zero_def f64_of_ratio_def)
qed

definition main_only :: S3FifoConfig where
  "main_only = \<lparr>max_bytes = 10, small_ratio = F_zero, freq_threshold = 1, hit_rate_alpha = F_zero\<rparr>"

lemma main_only_shares: "max_small_bytes main_only = 0" "max_main_bytes main_only = 10" "max_bytes main_only = 10"
  using zero_share [of main_only] by (simp_all add: main_only_def max_main_bytes_def)

lemma main_only_moderate: "moderate main_only"
  by (simp add: moderate_def main_only_def)

lemmas main_only_run = new_cache_def cache_insert_def main_only_shares push_main_def update_entry_def sat_add_def
  USIZE_MAX_def usize_add_def evict_main.simps main_pop_def

text \<open>
  C11: the cache stays within its memory budget: for a budget of at most \<open>2^53\<close> bytes and any sequence of
  operations in which no insertion makes a cached entry bigger, \<open>memory_used\<close> is at most \<open>max_bytes\<close>
  after every step, whatever the share of the Small queue and the order of evictions and promotions.
\<close>

theorem cache_within_budget:
  assumes "moderate cfg" "never_grows cfg ops new_cache"
  shows "memory_used (fold (apply_op (cache_get cfg) (cache_insert cfg)) ops new_cache) \<le> max_bytes cfg"
  by (rule fits_memory [OF assms(1) run_fits [OF assms(1) new_cache_fits assms(2)]])

theorem cache_within_budget_witness:
  "memory_used (fold (apply_op (cache_get main_only) (cache_insert main_only))
     [OpInsert (1::nat) CHR ''a'' 6, OpInsert 2 CHR ''b'' 7, OpInsert 2 CHR ''c'' 3] new_cache) \<le> max_bytes main_only"
  by (rule cache_within_budget [OF main_only_moderate]) (simp add: main_only_run)

text \<open>
  The budget is exceeded by an insertion that makes a cached entry bigger: the entry is updated
  in place and nothing is evicted, so that a cache with a budget of ten bytes reports nineteen.
\<close>

theorem growing_entry_exceeds_budget:
  "memory_used (fold (apply_op (cache_get main_only) (cache_insert main_only))
     [OpInsert (1::nat) CHR ''a'' 1, OpInsert 2 CHR ''b'' 9, OpInsert 1 CHR ''c'' 10] new_cache) = 19"
  by (simp add: main_only_run memory_used_def)

text \<open>
  Reading a key right after inserting it gives the new value when the insertion is accepted;
  when the value is too large for the cache, the insertion is dropped as a whole and the read gives
  what was cached before, the previous value of that key included.
\<close>

theorem get_after_insert:
  "fst (cache_get cfg k (cache_insert cfg k v n st)) = (if accepts cfg n then Some v else fst (cache_get cfg k st))"
  unfolding cache_get_lookup(1)
  by (auto simp: cache_insert_def accepts_def push_lookup update_lookup Let_def not_le simp del: map_option_eq_Some
      split: option.splits)

end
