(* ===== verification/Fs_Queue.thy ===== *)
theory Fs_Queue
  imports Rust_Str
begin

text \<open>
  The embedding job queue of the search engine (\<open>frankensearch-fusion/src/queue.rs\<close>): a bounded queue
  with one job per document, an index of the queued documents and the hashes of what was embedded.
  The state is the value behind the mutex together with the counters. The canonicalizer is the trait
  object a queue is built with, and SHA-256 is a library: both are arguments. Timestamps and
  metadata are only carried along and are type variables.
\<close>

section \<open>Configuration, jobs and state\<close>

record EmbeddingQueueConfig =
  capacity :: nat
  batch_size :: nat
  max_retries :: nat

definition default_queue_config :: EmbeddingQueueConfig where
  "default_queue_config = \<lparr>capacity = 1000, batch_size = 32, max_retries = 3\<rparr>"

record ('m, 't) EmbeddingRequest =
  rq_doc_id :: string
  rq_text :: string
  rq_metadata :: "'m option"
  rq_submitted_at :: 't

record ('m, 't) EmbeddingJob =
  doc_id :: string
  canonical_text :: string
  content_hash :: string
  metadata :: "'m option"
  submitted_at :: 't
  retry_count :: nat

datatype JobOutcome = Succeeded | SkippedUnchanged | SkippedEmpty | Retryable | Failed

datatype QueueError = QueueFull nat nat

record QueueMetrics =
  total_submitted :: nat
  total_deduped :: nat
  total_succeeded :: nat
  total_retryable :: nat
  total_failed :: nat
  total_skipped :: nat
  total_batches :: nat
  total_embed_time_us :: nat

definition record_metric :: "JobOutcome \<Rightarrow> QueueMetrics \<Rightarrow> QueueMetrics" where
  "record_metric outcome m =
     (case outcome of
        Succeeded \<Rightarrow> m\<lparr>total_succeeded := usize_add (total_succeeded m) 1\<rparr>
      | SkippedUnchanged \<Rightarrow> m\<lparr>total_deduped := usize_add (total_deduped m) 1\<rparr>
      | SkippedEmpty \<Rightarrow> m\<lparr>total_skipped := usize_add (total_skipped m) 1\<rparr>
      | Retryable \<Rightarrow> m\<lparr>total_retryable := usize_add (total_retryable m) 1\<rparr>
      | Failed \<Rightarrow> m\<lparr>total_failed := usize_add (total_failed m) 1\<rparr>)"

record KnownHashEntry =
  kh_hash :: string
  kh_sequence :: nat

record ('m, 't) QueueState =
  jobs :: "('m, 't) EmbeddingJob list"
  pending_ids :: "(string, nat) hmap"
  known_hashes :: "(string, KnownHashEntry) hmap"
  known_hash_order :: "(string \<times> nat) list"
  sequence :: nat
  metrics :: QueueMetrics

definition new_queue :: "('m, 't) QueueState" where
  "new_queue = \<lparr>jobs = [], pending_ids = [], known_hashes = [], known_hash_order = [], sequence = 0,
     metrics = \<lparr>total_submitted = 0, total_deduped = 0, total_succeeded = 0, total_retryable = 0, total_failed = 0,
       total_skipped = 0, total_batches = 0, total_embed_time_us = 0\<rparr>\<rparr>"

section \<open>Hashes\<close>

definition hex_digit :: "nat \<Rightarrow> char" where
  "hex_digit d = char_of (if d < 10 then 48 + d else 87 + d)"

definition hex_encode :: "nat list \<Rightarrow> string" where
  "hex_encode bytes = concat (map (\<lambda>b. [hex_digit (b div 16), hex_digit (b mod 16)]) bytes)"

definition sha256_hex :: "(string \<Rightarrow> nat list) \<Rightarrow> string \<Rightarrow> string" where
  "sha256_hex sha256 text = hex_encode (sha256 text)"

section \<open>Operations\<close>

definition count :: "JobOutcome \<Rightarrow> ('m, 't) QueueState \<Rightarrow> ('m, 't) QueueState" where
  "count outcome st = st\<lparr>metrics := record_metric outcome (metrics st)\<rparr>"

definition known_matches :: "string \<Rightarrow> string \<Rightarrow> ('m, 't) QueueState \<Rightarrow> bool" where
  "known_matches d h st = (case hget (known_hashes st) d of Some k \<Rightarrow> kh_hash k = h | None \<Rightarrow> False)"

text \<open>The index of the first element with a property, \<open>iter().position(..)\<close>.\<close>

fun position :: "('a \<Rightarrow> bool) \<Rightarrow> 'a list \<Rightarrow> nat option" where
  "position P [] = None"
| "position P (x # xs) = (if P x then Some 0 else map_option Suc (position P xs))"

definition remove_at :: "nat \<Rightarrow> 'a list \<Rightarrow> 'a list" where
  "remove_at i xs = take i xs @ drop (Suc i) xs"

definition enqueue :: "('m, 't) EmbeddingJob \<Rightarrow> ('m, 't) QueueState \<Rightarrow> ('m, 't) QueueState" where
  "enqueue job st = st\<lparr>sequence := usize_add (sequence st) 1,
     pending_ids := hinsert (doc_id job) (sequence st) (pending_ids st), jobs := jobs st @ [job]\<rparr>"

text \<open>What follows when no job of the document is queued.\<close>

definition submit_new ::
  "EmbeddingQueueConfig \<Rightarrow> ('m, 't) EmbeddingJob \<Rightarrow> ('m, 't) QueueState \<Rightarrow> (QueueError + JobOutcome) \<times> ('m, 't) QueueState" where
  "submit_new cfg job st =
     (if known_matches (doc_id job) (content_hash job) st then (Ok SkippedUnchanged, count SkippedUnchanged st)
      else if capacity cfg \<le> length (jobs st) then (Err (QueueFull (length (jobs st)) (capacity cfg)), st)
      else (Ok Succeeded, enqueue job st))"

text \<open>The branch on the queued job at \<open>pos\<close>; \<open>position\<close> only gives indices that exist.\<close>

definition submit_pending ::
  "nat \<Rightarrow> ('m, 't) EmbeddingJob \<Rightarrow> ('m, 't) QueueState \<Rightarrow> (QueueError + JobOutcome) \<times> ('m, 't) QueueState" where
  "submit_pending pos job st =
     (let old = jobs st ! pos in
      if content_hash old = content_hash job then
        (Ok Succeeded,
         st\<lparr>jobs := (jobs st)[pos := old\<lparr>metadata := metadata job, submitted_at := submitted_at job, retry_count := 0\<rparr>]\<rparr>)
      else if known_matches (doc_id job) (content_hash job) st then
        (Ok SkippedUnchanged,
         count SkippedUnchanged (st\<lparr>jobs := remove_at pos (jobs st), pending_ids := hremove (doc_id job) (pending_ids st)\<rparr>))
      else
        (Ok Succeeded,
         st\<lparr>jobs := (jobs st)[pos := old\<lparr>canonical_text := canonical_text job, content_hash := content_hash job,
               metadata := metadata job, submitted_at := submitted_at job, retry_count := 0\<rparr>]\<rparr>))"

definition submit ::
  "EmbeddingQueueConfig \<Rightarrow> (string \<Rightarrow> string) \<Rightarrow> (string \<Rightarrow> nat list) \<Rightarrow> ('m, 't) EmbeddingRequest \<Rightarrow> ('m, 't) QueueState
     \<Rightarrow> (QueueError + JobOutcome) \<times> ('m, 't) QueueState" where
  "submit cfg canonicalize sha256 request st =
     (let st = st\<lparr>metrics := (metrics st)\<lparr>total_submitted := usize_add (total_submitted (metrics st)) 1\<rparr>\<rparr>;
          canonical = canonicalize (rq_text request)
      in if trim canonical = [] then (Ok SkippedEmpty, count SkippedEmpty st)
         else
           let job = \<lparr>doc_id = rq_doc_id request, canonical_text = canonical, content_hash = sha256_hex sha256 canonical,
                 metadata = rq_metadata request, submitted_at = rq_submitted_at request, retry_count = 0\<rparr>
           in case hget (pending_ids st) (doc_id job) of
                None \<Rightarrow> submit_new cfg job st
              | Some _ \<Rightarrow>
                  (case position (\<lambda>j. doc_id j = doc_id job) (jobs st) of
                     Some pos \<Rightarrow> submit_pending pos job st
                   | None \<Rightarrow> submit_new cfg job (st\<lparr>pending_ids := hremove (doc_id job) (pending_ids st)\<rparr>)))"

definition drain_with_limit :: "nat \<Rightarrow> ('m, 't) QueueState \<Rightarrow> ('m, 't) EmbeddingJob list \<times> ('m, 't) QueueState" where
  "drain_with_limit limit st =
     (if limit = 0 then ([], st)
      else
        let n = min (length (jobs st)) limit;
            batch = take n (jobs st);
            st = st\<lparr>jobs := drop n (jobs st), pending_ids := fold (\<lambda>job. hremove (doc_id job)) batch (pending_ids st)\<rparr>
        in (batch,
            if batch = [] then st
            else st\<lparr>metrics := (metrics st)\<lparr>total_batches := usize_add (total_batches (metrics st)) 1\<rparr>\<rparr>))"

definition drain_batch :: "EmbeddingQueueConfig \<Rightarrow> ('m, 't) QueueState \<Rightarrow> ('m, 't) EmbeddingJob list \<times> ('m, 't) QueueState" where
  "drain_batch cfg st = drain_with_limit (batch_size cfg) st"

definition drain_batch_up_to :: "nat \<Rightarrow> ('m, 't) QueueState \<Rightarrow> ('m, 't) EmbeddingJob list \<times> ('m, 't) QueueState" where
  "drain_batch_up_to limit st = drain_with_limit limit st"

definition requeue ::
  "EmbeddingQueueConfig \<Rightarrow> ('m, 't) EmbeddingJob \<Rightarrow> ('m, 't) QueueState \<Rightarrow> JobOutcome \<times> ('m, 't) QueueState" where
  "requeue cfg job st =
     (let job = job\<lparr>retry_count := (retry_count job + 1) mod 2 ^ 32\<rparr> in
      if max_retries cfg < retry_count job then (Failed, count Failed st)
      else if capacity cfg \<le> length (jobs st) then (Failed, count Failed st)
      else if hget (pending_ids st) (doc_id job) \<noteq> None then (Failed, count Failed st)
      else if list_ex (\<lambda>queued. doc_id queued = doc_id job) (jobs st) then (Failed, count Failed st)
      else (Retryable, count Retryable (enqueue job st)))"

definition known_hash_limit :: "EmbeddingQueueConfig \<Rightarrow> nat" where
  "known_hash_limit cfg = sat_mul (capacity cfg) 8"

fun prune_known_hashes ::
  "nat \<Rightarrow> (string, KnownHashEntry) hmap \<Rightarrow> (string \<times> nat) list \<Rightarrow> (string, KnownHashEntry) hmap \<times> (string \<times> nat) list" where
  "prune_known_hashes limit known [] = (if limit < length known then ([], []) else (known, []))"
| "prune_known_hashes limit known ((d, s) # order) =
     (if limit < length known then
        prune_known_hashes limit
          (case hget known d of Some e \<Rightarrow> if kh_sequence e = s then hremove d known else known | None \<Rightarrow> known) order
      else (known, (d, s) # order))"

definition record_known_hash :: "EmbeddingQueueConfig \<Rightarrow> string \<Rightarrow> string \<Rightarrow> ('m, 't) QueueState \<Rightarrow> ('m, 't) QueueState" where
  "record_known_hash cfg d h st =
     (let seq = sequence st;
          (known, order) = prune_known_hashes (known_hash_limit cfg)
            (hinsert d \<lparr>kh_hash = h, kh_sequence = seq\<rparr> (known_hashes st)) (known_hash_order st @ [(d, seq)])
      in st\<lparr>sequence := usize_add seq 1, known_hashes := known, known_hash_order := order\<rparr>)"

definition record_embedded :: "EmbeddingQueueConfig \<Rightarrow> string \<Rightarrow> string \<Rightarrow> ('m, 't) QueueState \<Rightarrow> ('m, 't) QueueState" where
  "record_embedded cfg d h st = count Succeeded (record_known_hash cfg d h st)"

definition clear_known_hashes :: "('m, 't) QueueState \<Rightarrow> ('m, 't) QueueState" where
  "clear_known_hashes st = st\<lparr>known_hashes := [], known_hash_order := []\<rparr>"

definition pending_count :: "('m, 't) QueueState \<Rightarrow> nat" where "pending_count st = length (jobs st)"
definition queue_is_empty :: "('m, 't) QueueState \<Rightarrow> bool" where "queue_is_empty st \<longleftrightarrow> pending_count st = 0"

section \<open>The invariant\<close>

text \<open>
  One job per document and an index of exactly the queued documents, both bounds kept, no job
  retried too often, and every remembered hash still in the order in which hashes are forgotten.
\<close>

definition hashes_ordered :: "(string, KnownHashEntry) hmap \<Rightarrow> (string \<times> nat) list \<Rightarrow> bool" where
  "hashes_ordered known order \<longleftrightarrow> hdistinct known
     \<and> (\<forall>d e. hget known d = Some e \<longrightarrow> (d, kh_sequence e) \<in> set order)"

definition queue_wf :: "EmbeddingQueueConfig \<Rightarrow> ('m, 't) QueueState \<Rightarrow> bool" where
  "queue_wf cfg st \<longleftrightarrow> distinct (map doc_id (jobs st)) \<and> hkeys (pending_ids st) = doc_id ` set (jobs st)
     \<and> length (jobs st) \<le> capacity cfg \<and> (\<forall>j \<in> set (jobs st). retry_count j \<le> max_retries cfg)
     \<and> hashes_ordered (known_hashes st) (known_hash_order st) \<and> length (known_hashes st) \<le> known_hash_limit cfg"

lemma position_Some: "position P xs = Some i \<Longrightarrow> i < length xs \<and> P (xs ! i)"
  by (induction xs arbitrary: i) (auto split: if_splits)

lemma position_None: "position P xs = None \<longleftrightarrow> (\<forall>x \<in> set xs. \<not> P x)"
  by (induction xs) auto

lemma count_simps [simp]:
  "jobs (count r st) = jobs st" "pending_ids (count r st) = pending_ids st" "known_hashes (count r st) = known_hashes st"
  "known_hash_order (count r st) = known_hash_order st" "queue_wf cfg (count r st) = queue_wf cfg st"
  "queue_wf cfg (st\<lparr>metrics := m\<rparr>) = queue_wf cfg st"
  by (simp_all add: count_def queue_wf_def)

lemma remove_at_set:
  assumes "distinct (map f xs)" "i < length xs"
  shows "distinct (map f (remove_at i xs))" "f ` set (remove_at i xs) = f ` set xs - {f (xs ! i)}" "set (remove_at i xs) \<subseteq> set xs"
    "length (remove_at i xs) \<le> length xs"
proof -
  have xs: "xs = take i xs @ xs ! i # drop (Suc i) xs" using assms(2) by (rule id_take_nth_drop)
  then have d: "distinct (map f (take i xs @ xs ! i # drop (Suc i) xs))" using assms(1) by metis
  then show "distinct (map f (remove_at i xs))" by (auto simp: remove_at_def)
  have "f ` set xs = insert (f (xs ! i)) (f ` set (remove_at i xs))" by (subst xs) (auto simp: remove_at_def)
  moreover have "f (xs ! i) \<notin> f ` set (remove_at i xs)" using d by (auto simp: remove_at_def)
  ultimately show "f ` set (remove_at i xs) = f ` set xs - {f (xs ! i)}" by auto
  show "set (remove_at i xs) \<subseteq> set xs" by (auto simp: remove_at_def dest: in_set_takeD in_set_dropD)
  show "length (remove_at i xs) \<le> length xs" using assms(2) by (simp add: remove_at_def)
qed

lemma enqueue_wf:
  "queue_wf cfg st \<Longrightarrow> doc_id job \<notin> doc_id ` set (jobs st) \<Longrightarrow> length (jobs st) < capacity cfg \<Longrightarrow> retry_count job \<le> max_retries cfg
     \<Longrightarrow> queue_wf cfg (enqueue job st)"
  by (auto simp: queue_wf_def enqueue_def)

lemma update_job_wf:
  assumes "queue_wf cfg st" "i < length (jobs st)" "doc_id job = doc_id (jobs st ! i)" "retry_count job \<le> max_retries cfg"
  shows "queue_wf cfg (st\<lparr>jobs := (jobs st)[i := job]\<rparr>)"
proof -
  have m: "map doc_id ((jobs st)[i := job]) = map doc_id (jobs st)" using assms(2,3) by (metis list_update_id map_update nth_map)
  then have "doc_id ` set ((jobs st)[i := job]) = doc_id ` set (jobs st)" by (metis list.set_map)
  moreover have "\<forall>j \<in> set ((jobs st)[i := job]). retry_count j \<le> max_retries cfg"
    using assms(1,4) set_update_subset_insert [of "jobs st" i job] by (auto simp: queue_wf_def)
  ultimately show ?thesis using assms(1) m by (simp add: queue_wf_def)
qed

lemma submit_new_wf:
  "queue_wf cfg st \<Longrightarrow> doc_id job \<notin> doc_id ` set (jobs st) \<Longrightarrow> retry_count job = 0 \<Longrightarrow> queue_wf cfg (snd (submit_new cfg job st))"
  by (simp add: submit_new_def enqueue_wf)

lemma submit_pending_wf:
  assumes "queue_wf cfg st" "i < length (jobs st)" "doc_id (jobs st ! i) = doc_id job"
  shows "queue_wf cfg (snd (submit_pending i job st))"
proof -
  have "distinct (map doc_id (jobs st))" using assms(1) by (simp add: queue_wf_def)
  note r = remove_at_set [OF this assms(2)]
  have "queue_wf cfg (st\<lparr>jobs := remove_at i (jobs st), pending_ids := hremove (doc_id job) (pending_ids st)\<rparr>)"
    using assms r by (auto simp: queue_wf_def)
  then show ?thesis using assms by (simp add: submit_pending_def Let_def update_job_wf)
qed

lemma pending_iff: "queue_wf cfg st \<Longrightarrow> hget (pending_ids st) d \<noteq> None \<longleftrightarrow> d \<in> doc_id ` set (jobs st)"
  unfolding queue_wf_def hkeys_iff_hget [symmetric] by auto

text \<open>Under the invariant, the index says what a search of the queue finds.\<close>

lemma submit_cases:
  assumes "queue_wf cfg st"
  shows "submit cfg canonicalize sha256 rq st =
    (let st = st\<lparr>metrics := (metrics st)\<lparr>total_submitted := usize_add (total_submitted (metrics st)) 1\<rparr>\<rparr>;
         canonical = canonicalize (rq_text rq);
         job = \<lparr>doc_id = rq_doc_id rq, canonical_text = canonical, content_hash = sha256_hex sha256 canonical,
           metadata = rq_metadata rq, submitted_at = rq_submitted_at rq, retry_count = 0\<rparr>
     in if trim canonical = [] then (Ok SkippedEmpty, count SkippedEmpty st)
        else case position (\<lambda>j. doc_id j = rq_doc_id rq) (jobs st) of
               Some pos \<Rightarrow> submit_pending pos job st
             | None \<Rightarrow> submit_new cfg job st)"
proof -
  have "position (\<lambda>j. doc_id j = rq_doc_id rq) (jobs st) \<noteq> None \<longleftrightarrow> hget (pending_ids st) (rq_doc_id rq) \<noteq> None"
    unfolding pending_iff [OF assms] position_None by force
  then show ?thesis by (auto simp: submit_def Let_def split: option.splits)
qed

lemma submit_wf:
  assumes "queue_wf cfg st"
  shows "queue_wf cfg (snd (submit cfg canonicalize sha256 rq st))"
  unfolding submit_cases [OF assms] Let_def using assms
  by (auto split: option.splits intro!: submit_new_wf submit_pending_wf dest!: position_Some simp: position_None)

lemma hkeys_fold_hremove: "hkeys (fold (\<lambda>j. hremove (f j)) xs m) = hkeys m - f ` set xs"
proof (induction xs arbitrary: m)
  case (Cons x xs)
  then show ?case by auto
qed simp

lemma drain_wf:
  assumes "queue_wf cfg st"
  shows "queue_wf cfg (snd (drain_with_limit limit st))"
proof -
  let ?n = "min (length (jobs st)) limit"
  let ?b = "take ?n (jobs st)" and ?r = "drop ?n (jobs st)"
  have "distinct (map doc_id ?b @ map doc_id ?r)" using assms by (simp add: queue_wf_def flip: map_append)
  then have d: "distinct (map doc_id ?r)" "doc_id ` set ?b \<inter> doc_id ` set ?r = {}" by auto
  have "doc_id ` set (jobs st) = doc_id ` set ?b \<union> doc_id ` set ?r" by (metis append_take_drop_id image_Un set_append)
  with d have k: "doc_id ` set (jobs st) - doc_id ` set ?b = doc_id ` set ?r" by blast
  have "queue_wf cfg (st\<lparr>jobs := ?r, pending_ids := fold (\<lambda>job. hremove (doc_id job)) ?b (pending_ids st)\<rparr>)"
    using assms d(1) k hkeys_fold_hremove [of doc_id ?b "pending_ids st"]
    by (auto simp: queue_wf_def dest: in_set_dropD)
  then show ?thesis using assms by (simp add: drain_with_limit_def Let_def)
qed

lemma requeue_wf:
  assumes "queue_wf cfg st"
  shows "queue_wf cfg (snd (requeue cfg job st))"
  using assms by (auto simp: requeue_def Let_def list_ex_iff intro!: enqueue_wf)

lemma hinsert_ordered:
  "hashes_ordered known order \<Longrightarrow> hashes_ordered (hinsert d \<lparr>kh_hash = h, kh_sequence = s\<rparr> known) (order @ [(d, s)])"
  by (auto simp: hashes_ordered_def split: if_splits)

lemma prune_ordered:
  "prune_known_hashes limit known order = (known', order') \<Longrightarrow> hashes_ordered known order \<Longrightarrow>
     hashes_ordered known' order' \<and> length known' \<le> limit"
proof (induction limit known order rule: prune_known_hashes.induct)
  case (2 limit known d s order)
  have "hashes_ordered (case hget known d of Some e \<Rightarrow> if kh_sequence e = s then hremove d known else known | None \<Rightarrow> known) order"
    using 2(3) by (fastforce simp: hashes_ordered_def split: option.splits if_splits)
  with 2 show ?case by (auto split: if_splits)
qed (auto simp: hashes_ordered_def split: if_splits)

lemma record_known_hash_wf: "queue_wf cfg st \<Longrightarrow> queue_wf cfg (record_known_hash cfg d h st)"
  using hinsert_ordered [of "known_hashes st" "known_hash_order st" d h "sequence st"] prune_ordered
  by (fastforce simp: queue_wf_def record_known_hash_def Let_def split: prod.splits)

datatype ('m, 't) queue_op =
    OpSubmit "('m, 't) EmbeddingRequest"
  | OpDrain nat
  | OpRequeue "('m, 't) EmbeddingJob"
  | OpEmbedded string string
  | OpClear

fun queue_step ::
  "EmbeddingQueueConfig \<Rightarrow> (string \<Rightarrow> string) \<Rightarrow> (string \<Rightarrow> nat list) \<Rightarrow> ('m, 't) queue_op \<Rightarrow> ('m, 't) QueueState \<Rightarrow> ('m, 't) QueueState" where
  "queue_step cfg canonicalize sha256 (OpSubmit rq) st = snd (submit cfg canonicalize sha256 rq st)"
| "queue_step cfg canonicalize sha256 (OpDrain limit) st = snd (drain_with_limit limit st)"
| "queue_step cfg canonicalize sha256 (OpRequeue job) st = snd (requeue cfg job st)"
| "queue_step cfg canonicalize sha256 (OpEmbedded d h) st = record_embedded cfg d h st"
| "queue_step cfg canonicalize sha256 OpClear st = clear_known_hashes st"

interpretation embed_queue: invariant_machine "queue_step cfg canonicalize sha256" "queue_wf cfg" new_queue
  for cfg canonicalize sha256
proof unfold_locales
  show "queue_wf cfg new_queue" by (simp add: queue_wf_def new_queue_def hashes_ordered_def)
next
  fix st :: "('m, 't) QueueState" and op
  assume "queue_wf cfg st"
  moreover from this have "queue_wf cfg (clear_known_hashes st)"
    by (simp add: clear_known_hashes_def queue_wf_def hashes_ordered_def)
  ultimately show "queue_wf cfg (queue_step cfg canonicalize sha256 op st)"
    by (cases op) (simp_all add: submit_wf drain_wf requeue_wf record_known_hash_wf record_embedded_def)
qed

text \<open>
  C17: in every state the queue reaches, whatever jobs are resubmitted and hashes recorded, there is
  one job per document and the index has exactly the queued documents, the queue and the remembered
  hashes keep their bounds, no job was retried more often than allowed, and the order of the hashes
  has every remembered one, so that the recovery that would clear them all never runs.
\<close>

theorem queue_invariant: "queue_wf cfg (fold (queue_step cfg canonicalize sha256) ops new_queue)"
  by (rule embed_queue.inv_run)

section \<open>Submissions\<close>

lemma filter_unique:
  "distinct (map f xs) \<Longrightarrow> i < length xs \<Longrightarrow> f (xs ! i) = d \<Longrightarrow> filter (\<lambda>x. f x = d) xs = [xs ! i]"
proof (induction xs arbitrary: i)
  case (Cons x xs)
  have "filter (\<lambda>x. f x = d) xs = []" if "f x = d" using Cons.prems(1) that by (auto simp: filter_empty_conv image_iff)
  with Cons show ?case by (cases i) auto
qed simp

lemma filter_update_other: "\<not> P x \<Longrightarrow> \<not> P (xs ! i) \<Longrightarrow> i < length xs \<Longrightarrow> filter P (xs[i := x]) = filter P xs"
  by (induction xs arbitrary: i) (auto split: nat.splits)

lemma filter_remove_other: "\<not> P (xs ! i) \<Longrightarrow> i < length xs \<Longrightarrow> filter P (remove_at i xs) = filter P xs"
proof -
  assume a: "\<not> P (xs ! i)" "i < length xs"
  have "filter P xs = filter P (take i xs @ xs ! i # drop (Suc i) xs)" using id_take_nth_drop [OF a(2)] by simp
  with a(1) show ?thesis by (simp add: remove_at_def)
qed

definition request_job :: "(string \<Rightarrow> string) \<Rightarrow> (string \<Rightarrow> nat list) \<Rightarrow> ('m, 't) EmbeddingRequest \<Rightarrow> ('m, 't) EmbeddingJob" where
  "request_job canonicalize sha256 rq = \<lparr>doc_id = rq_doc_id rq, canonical_text = canonicalize (rq_text rq),
     content_hash = sha256_hex sha256 (canonicalize (rq_text rq)), metadata = rq_metadata rq,
     submitted_at = rq_submitted_at rq, retry_count = 0\<rparr>"

text \<open>A submission that is taken puts one job in place of the queued one, or at the end.\<close>

lemma submit_taken:
  assumes "queue_wf cfg st" "submit cfg canonicalize sha256 rq st = (Ok Succeeded, st')"
  obtains i job where "i < length (jobs st)" "doc_id (jobs st ! i) = rq_doc_id rq" "jobs st' = (jobs st)[i := job]"
      "doc_id job = rq_doc_id rq" "content_hash job = sha256_hex sha256 (canonicalize (rq_text rq))"
      "metadata job = rq_metadata rq" "submitted_at job = rq_submitted_at rq" "retry_count job = 0"
      "canonical_text job = canonicalize (rq_text rq) \<or> content_hash (jobs st ! i) = content_hash job \<and> canonical_text job = canonical_text (jobs st ! i)"
  | "rq_doc_id rq \<notin> doc_id ` set (jobs st)" "jobs st' = jobs st @ [request_job canonicalize sha256 rq]"
proof (cases "position (\<lambda>j. doc_id j = rq_doc_id rq) (jobs st)")
  case None
  then have "rq_doc_id rq \<notin> doc_id ` set (jobs st)" by (auto simp: position_None)
  with assms(2) None show ?thesis
    by (intro that(2))
      (auto simp: submit_cases [OF assms(1)] submit_new_def enqueue_def request_job_def Let_def split: if_splits)
next
  case (Some i)
  then have i: "i < length (jobs st)" "doc_id (jobs st ! i) = rq_doc_id rq" using position_Some by fastforce+
  from assms(2) Some obtain job where "jobs st' = (jobs st)[i := job]" "doc_id job = rq_doc_id rq"
      "content_hash job = sha256_hex sha256 (canonicalize (rq_text rq))"
      "metadata job = rq_metadata rq" "submitted_at job = rq_submitted_at rq" "retry_count job = 0"
      "canonical_text job = canonicalize (rq_text rq) \<or> content_hash (jobs st ! i) = content_hash job \<and> canonical_text job = canonical_text (jobs st ! i)"
    using i(2) by (auto simp: submit_cases [OF assms(1)] submit_pending_def Let_def split: if_splits)
  then show ?thesis using that(1) [OF i] by simp
qed

text \<open>
  C19: the latest submission wins: when a submission is taken, the queue has exactly one job of that
  document, with the hash, the metadata and the time of this submission and no retries, with its text
  or that of a queued job of the same hash, and the jobs of the other documents are as they were, in
  their order.
\<close>

theorem latest_submission_wins:
  assumes "queue_wf cfg st" "submit cfg canonicalize sha256 rq st = (Ok Succeeded, st')"
  shows "\<exists>job. filter (\<lambda>j. doc_id j = rq_doc_id rq) (jobs st') = [job]
    \<and> content_hash job = sha256_hex sha256 (canonicalize (rq_text rq)) \<and> metadata job = rq_metadata rq
    \<and> submitted_at job = rq_submitted_at rq \<and> retry_count job = 0
    \<and> (canonical_text job = canonicalize (rq_text rq)
       \<or> (\<exists>old \<in> set (jobs st). doc_id old = rq_doc_id rq \<and> content_hash old = content_hash job \<and> canonical_text job = canonical_text old))
    \<and> filter (\<lambda>j. doc_id j \<noteq> rq_doc_id rq) (jobs st') = filter (\<lambda>j. doc_id j \<noteq> rq_doc_id rq) (jobs st)"
  using assms
proof (cases rule: submit_taken)
  case (1 i job)
  have "distinct (map doc_id (jobs st'))" using submit_wf [OF assms(1), of canonicalize sha256 rq] assms(2) by (simp add: queue_wf_def)
  then have "filter (\<lambda>j. doc_id j = rq_doc_id rq) (jobs st') = [job]"
    using filter_unique [of doc_id "jobs st'" i] 1 by simp
  moreover have "jobs st ! i \<in> set (jobs st)" using 1 by simp
  ultimately show ?thesis using 1 by (auto simp: filter_update_other)
next
  case 2
  then have "filter (\<lambda>j. doc_id j = rq_doc_id rq) (jobs st) = []" by (auto simp: filter_empty_conv image_iff)
  with 2 show ?thesis by (simp add: request_job_def)
qed

definition sample_request :: "string \<Rightarrow> (nat, nat) EmbeddingRequest" where
  "sample_request text = \<lparr>rq_doc_id = ''doc'', rq_text = text, rq_metadata = Some 1, rq_submitted_at = 5\<rparr>"

definition sample_config :: EmbeddingQueueConfig where
  "sample_config = \<lparr>capacity = 1, batch_size = 1, max_retries = 3\<rparr>"

abbreviation sample_queue :: "(nat, nat) QueueState" where
  "sample_queue \<equiv> fold (queue_step sample_config (\<lambda>t. t) (map of_char)) [OpSubmit (sample_request ''old'')] new_queue"

lemma sample_queue_wf: "queue_wf sample_config sample_queue"
  by (rule embed_queue.inv_run)

theorem latest_submission_wins_witness:
  "\<exists>st' job. submit sample_config (\<lambda>t. t) (map of_char) (sample_request ''new'') sample_queue = (Ok Succeeded, st')
     \<and> filter (\<lambda>j. doc_id j = ''doc'') (jobs st') = [job] \<and> content_hash job = sha256_hex (map of_char) ''new''"
proof -
  define st' where "st' = snd (submit sample_config (\<lambda>t. t) (map of_char) (sample_request ''new'') sample_queue)"
  have "fst (submit sample_config (\<lambda>t. t) (map of_char) (sample_request ''new'') sample_queue) = Ok Succeeded" by code_simp
  then have r: "submit sample_config (\<lambda>t. t) (map of_char) (sample_request ''new'') sample_queue = (Ok Succeeded, st')"
    unfolding st'_def by (metis prod.collapse)
  from latest_submission_wins [OF sample_queue_wf r] have
    "\<exists>job. filter (\<lambda>j. doc_id j = ''doc'') (jobs st') = [job] \<and> content_hash job = sha256_hex (map of_char) ''new''"
    by (auto simp: sample_request_def)
  with r show ?thesis by blast
qed

section \<open>Backpressure\<close>

text \<open>
  A submission fails only when the queue is full, for a document that is not queued and whose
  content is not the embedded one; the error reports the capacity, and every job stays.
\<close>

theorem submit_error_is_full:
  assumes "queue_wf cfg st" "submit cfg canonicalize sha256 rq st = (Err err, st')"
  shows "err = QueueFull (capacity cfg) (capacity cfg) \<and> jobs st' = jobs st \<and> pending_count st = capacity cfg
    \<and> rq_doc_id rq \<notin> doc_id ` set (jobs st)
    \<and> \<not> known_matches (rq_doc_id rq) (sha256_hex sha256 (canonicalize (rq_text rq))) st"
proof -
  have le: "length (jobs st) \<le> capacity cfg" using assms(1) by (simp add: queue_wf_def)
  have none: "position (\<lambda>j. doc_id j = rq_doc_id rq) (jobs st) = None"
    using assms(2)
    by (auto simp: submit_cases [OF assms(1)] submit_pending_def Let_def split: option.splits if_splits)
  then have "rq_doc_id rq \<notin> doc_id ` set (jobs st)" by (auto simp: position_None)
  with none show ?thesis
    using assms(2) le
    by (auto simp: submit_cases [OF assms(1)] submit_new_def Let_def pending_count_def known_matches_def
        split: if_splits)
qed

theorem submit_error_is_full_witness:
  "\<exists>st'. submit sample_config (\<lambda>t. t) (map of_char) (sample_request ''new'' \<lparr>rq_doc_id := ''other''\<rparr>) sample_queue
       = (Err (QueueFull 1 1), st') \<and> jobs st' = jobs sample_queue"
proof -
  define rq where "rq = sample_request ''new'' \<lparr>rq_doc_id := ''other''\<rparr>"
  define st' where "st' = snd (submit sample_config (\<lambda>t. t) (map of_char) rq sample_queue)"
  have "fst (submit sample_config (\<lambda>t. t) (map of_char) rq sample_queue) = Err (QueueFull 1 1)"
    unfolding rq_def by code_simp
  then have r: "submit sample_config (\<lambda>t. t) (map of_char) rq sample_queue = (Err (QueueFull 1 1), st')"
    unfolding st'_def by (metis prod.collapse)
  from submit_error_is_full [OF sample_queue_wf r] have "jobs st' = jobs sample_queue" by (rule conjE) (erule conjE)
  with r show ?thesis unfolding rq_def by blast
qed

section \<open>Remembered hashes\<close>

lemma prune_small: "length known \<le> limit \<Longrightarrow> prune_known_hashes limit known order = (known, order)"
  by (cases order) auto

lemma known_hash_limit_pos: "0 < capacity cfg \<Longrightarrow> 0 < known_hash_limit cfg"
  by (simp add: known_hash_limit_def sat_mul_def USIZE_MAX_def)

lemma prune_keeps_last:
  assumes "0 < limit" "(d, kh_sequence e) \<notin> set order" "hashes_ordered known (order @ [(d, kh_sequence e)])" "hget known d = Some e"
  shows "hget (fst (prune_known_hashes limit known (order @ [(d, kh_sequence e)]))) d = Some e"
  using assms
proof (induction order arbitrary: known)
  case Nil
  have "hkeys known \<subseteq> {d}"
    using Nil(3) by (force simp: hashes_ordered_def hkeys_iff_hget)
  then have "card (hkeys known) \<le> 1" by (simp add: card_mono [of "{d}", simplified])
  moreover have "card (hkeys known) = length known" using Nil(3) distinct_card [of "map fst known"] by (simp add: hashes_ordered_def)
  ultimately have "length known \<le> limit" using Nil(1) by simp
  then show ?case using Nil(4) by (simp add: prune_small)
next
  case (Cons p order)
  obtain d' s' where p: "p = (d', s')" by (cases p)
  let ?k = "case hget known d' of Some e \<Rightarrow> if kh_sequence e = s' then hremove d' known else known | None \<Rightarrow> known"
  have "hashes_ordered ?k (order @ [(d, kh_sequence e)])"
    using Cons.prems(3) p by (fastforce simp: hashes_ordered_def split: option.splits if_splits)
  moreover have "hget ?k d = Some e" using Cons.prems(2,4) p by (auto split: option.splits)
  ultimately have "hget (fst (prune_known_hashes limit ?k (order @ [(d, kh_sequence e)]))) d = Some e"
    using Cons.prems(1,2) by (intro Cons.IH) auto
  then show ?case using Cons.prems(4) p by simp
qed

text \<open>
  Content that was embedded is not queued again: right after \<open>record_embedded\<close>, a submission of
  the same document whose canonical text has that hash is skipped and the queue stays as it is. The
  queue has room for at least one job, so that hashes are remembered, and the sequence number is new.
\<close>

theorem embedded_content_skipped:
  assumes "queue_wf cfg st" "0 < capacity cfg" "(rq_doc_id rq, sequence st) \<notin> set (known_hash_order st)"
    "rq_doc_id rq \<notin> doc_id ` set (jobs st)" "trim (canonicalize (rq_text rq)) \<noteq> []"
  shows "\<exists>st'. submit cfg canonicalize sha256 rq
      (record_embedded cfg (rq_doc_id rq) (sha256_hex sha256 (canonicalize (rq_text rq))) st) = (Ok SkippedUnchanged, st')
    \<and> jobs st' = jobs st"
proof -
  let ?d = "rq_doc_id rq" and ?h = "sha256_hex sha256 (canonicalize (rq_text rq))"
  let ?e = "\<lparr>kh_hash = ?h, kh_sequence = sequence st\<rparr>" and ?st = "record_embedded cfg ?d ?h st"
  have wf: "queue_wf cfg ?st" using assms(1) by (simp add: record_embedded_def record_known_hash_wf)
  have ho: "hashes_ordered (hinsert ?d ?e (known_hashes st)) (known_hash_order st @ [(?d, sequence st)])"
    using assms(1) by (simp add: hinsert_ordered queue_wf_def)
  have "hget (known_hashes ?st) ?d = Some ?e"
    using prune_keeps_last [OF known_hash_limit_pos [OF assms(2)], of ?d ?e "known_hash_order st", simplified, OF assms(3) ho]
    by (simp add: record_embedded_def record_known_hash_def Let_def case_prod_beta)
  then have "known_matches ?d ?h ?st" by (simp add: known_matches_def)
  moreover have "jobs ?st = jobs st" by (simp add: record_embedded_def record_known_hash_def Let_def split: prod.splits)
  moreover from this have "position (\<lambda>j. doc_id j = ?d) (jobs ?st) = None" using assms(4) by (auto simp: position_None image_iff)
  ultimately show ?thesis
    using assms(5) by (simp add: submit_cases [OF wf] submit_new_def known_matches_def Let_def)
qed

theorem embedded_content_skipped_witness:
  "\<exists>st'. submit sample_config (\<lambda>t. t) (map of_char) (sample_request ''new'')
      (record_embedded sample_config ''doc'' (sha256_hex (map of_char) ''new'') new_queue) = (Ok SkippedUnchanged, st')
    \<and> jobs st' = jobs new_queue"
proof -
  have wf: "queue_wf sample_config (new_queue :: (nat, nat) QueueState)" by (rule embed_queue.inv_init)
  have "trim ''new'' \<noteq> []" by code_simp
  with embedded_content_skipped [OF wf, of "sample_request ''new''" "\<lambda>t. t" "map of_char"] show ?thesis
    by (simp add: sample_request_def sample_config_def new_queue_def)
qed

text \<open>
  The order of the remembered hashes grows without bound: embedding the same document again and
  again keeps one hash but adds an element to \<open>known_hash_order\<close> every time, since the order is
  only shortened when there are too many hashes.
\<close>

theorem hash_order_grows:
  "length (known_hash_order (fold (\<lambda>_. record_embedded (cfg\<lparr>capacity := Suc c\<rparr>) d h) [0..<n] new_queue)) = n"
proof -
  let ?cfg = "cfg\<lparr>capacity := Suc c\<rparr>"
  have pos: "Suc 0 \<le> known_hash_limit ?cfg" using known_hash_limit_pos [of ?cfg] by simp
  have "length (known_hash_order (fold (\<lambda>_. record_embedded ?cfg d h) xs st)) = length (known_hash_order st) + length xs"
    if "hkeys (known_hashes st) \<subseteq> {d}" "hdistinct (known_hashes st)" for xs :: "nat list" and st :: "('m, 't) QueueState"
    using that
  proof (induction xs arbitrary: st)
    case (Cons x xs)
    let ?k = "hinsert d \<lparr>kh_hash = h, kh_sequence = sequence st\<rparr> (known_hashes st)"
    have k: "hkeys ?k \<subseteq> {d}" "hdistinct ?k" using Cons.prems by auto
    then have "card (hkeys ?k) \<le> 1" by (simp add: card_mono [of "{d}", simplified])
    then have "length ?k \<le> known_hash_limit ?cfg" using distinct_card [of "map fst ?k"] k(2) pos by simp
    then have "known_hashes (record_embedded ?cfg d h st) = ?k"
        "known_hash_order (record_embedded ?cfg d h st) = known_hash_order st @ [(d, sequence st)]"
      by (simp_all add: record_embedded_def record_known_hash_def prune_small Let_def)
    with Cons.IH [of "record_embedded ?cfg d h st"] k show ?case by simp
  qed simp
  from this [of new_queue "[0..<n]"] show ?thesis by (simp add: new_queue_def)
qed

end
