(* ===== verification/Fs_Breaker.thy ===== *)
theory Fs_Breaker
  imports F64
begin

text \<open>
  The circuit breaker of the quality tier (\<open>frankensearch-fusion/src/circuit_breaker.rs\<close>) twice: each
  method as one function on the state, for calls that do not overlap, and as a sequence of atomic
  accesses that the calls of several threads interleave. A time is the milliseconds since the breaker
  was made, read where the source reads its clock. Evidence records carry what the breaker sets; the
  expected loss and the query class are never set by it.
\<close>

section \<open>Configuration and state\<close>

record CircuitBreakerConfig =
  enabled :: bool
  failure_threshold :: nat
  latency_threshold_ms :: nat
  improvement_threshold :: f64
  half_open_interval_ms :: nat
  reset_threshold :: nat

definition default_breaker_config :: CircuitBreakerConfig where
  "default_breaker_config = \<lparr>enabled = True, failure_threshold = 5, latency_threshold_ms = 500,
     improvement_threshold = f64_of_decimal False 5 (-2), half_open_interval_ms = 30000, reset_threshold = 3\<rparr>"

datatype CircuitState = Closed | Open | HalfOpen

datatype QualityOutcome =
    Success nat f64
  | Slow nat
  | NotUseful f64
  | OutcomeError

datatype PipelineState = Nominal | DegradedQuality | CircuitOpen | Probing
datatype PipelineAction = Refine | SkipRefinement | OpenCircuit | CloseCircuit | ProbeQuality | AdjustBlend nat
datatype Severity = Info | Warn | SevError
datatype EvidenceEventType = Decision | Alert | Degradation | Transition | ReplayMarker

record EvidenceRecord =
  event_type :: EvidenceEventType
  reason_code :: string
  reason_human :: string
  severity :: Severity
  pipeline_state_at :: PipelineState
  action :: "PipelineAction option"
  source_component :: string

definition evidence :: "string \<Rightarrow> string \<Rightarrow> Severity \<Rightarrow> PipelineState \<Rightarrow> PipelineAction \<Rightarrow> EvidenceRecord" where
  "evidence code human sev ps act = \<lparr>event_type = Transition, reason_code = code, reason_human = human, severity = sev,
     pipeline_state_at = ps, action = Some act, source_component = ''circuit_breaker''\<rparr>"

record CircuitBreaker =
  state :: CircuitState
  consecutive_failures :: nat
  consecutive_successes :: nat
  last_trip_time_ms :: nat
  trip_count :: nat
  reset_count :: nat
  skip_count :: nat
  probe_count :: nat
  probe_success_count :: nat

definition new_breaker :: CircuitBreaker where
  "new_breaker = \<lparr>state = Closed, consecutive_failures = 0, consecutive_successes = 0, last_trip_time_ms = 0,
     trip_count = 0, reset_count = 0, skip_count = 0, probe_count = 0, probe_success_count = 0\<rparr>"

text \<open>\<open>fetch_add(1)\<close> on an \<open>AtomicU32\<close> and an \<open>AtomicU64\<close>, which wrap around.\<close>

definition inc32 :: "nat \<Rightarrow> nat" where "inc32 n = (n + 1) mod 2 ^ 32"
definition inc64 :: "nat \<Rightarrow> nat" where "inc64 n = usize_add n 1"

section \<open>The methods, one at a time\<close>

definition probe_evidence :: EvidenceRecord where
  "probe_evidence = evidence ''decision.probe.sent'' ''Circuit breaker half-open interval elapsed; sending probe query''
     Info Probing ProbeQuality"

definition probe_failed_evidence :: EvidenceRecord where
  "probe_failed_evidence = evidence ''decision.probe.failure'' ''Probe query failed; circuit breaker re-opened''
     Warn CircuitOpen OpenCircuit"

definition trip_evidence :: "CircuitBreakerConfig \<Rightarrow> EvidenceRecord" where
  "trip_evidence cfg = evidence ''circuit.open.consecutive_failures''
     (''Quality tier failed '' @ show_nat (failure_threshold cfg) @ '' consecutive times; circuit breaker tripped'')
     Warn CircuitOpen OpenCircuit"

definition reset_evidence :: "CircuitBreakerConfig \<Rightarrow> EvidenceRecord" where
  "reset_evidence cfg = evidence ''circuit.close.recovery''
     (''Quality tier recovered after '' @ show_nat (reset_threshold cfg)
      @ '' consecutive successful probes; circuit breaker reset'') Info Nominal CloseCircuit"

definition should_skip_quality ::
  "CircuitBreakerConfig \<Rightarrow> nat \<Rightarrow> CircuitBreaker \<Rightarrow> (bool \<times> EvidenceRecord list) \<times> CircuitBreaker" where
  "should_skip_quality cfg now cb =
     (if \<not> enabled cfg then ((False, []), cb)
      else case state cb of
        Closed \<Rightarrow> ((False, []), cb)
      | Open \<Rightarrow>
          if half_open_interval_ms cfg \<le> now - last_trip_time_ms cb then
            ((False, [probe_evidence]),
             cb\<lparr>state := HalfOpen, consecutive_successes := 0, probe_count := inc64 (probe_count cb)\<rparr>)
          else ((True, []), cb\<lparr>skip_count := inc64 (skip_count cb)\<rparr>)
      | HalfOpen \<Rightarrow> ((False, []), cb))"

definition is_failure :: "CircuitBreakerConfig \<Rightarrow> QualityOutcome \<Rightarrow> bool" where
  "is_failure cfg outcome =
     (case outcome of
        Success latency tau \<Rightarrow>
          latency_threshold_ms cfg < latency \<or> \<not> is_finite tau \<or> f64_lt tau (improvement_threshold cfg)
      | _ \<Rightarrow> True)"

definition trip :: "CircuitBreakerConfig \<Rightarrow> nat \<Rightarrow> CircuitBreaker \<Rightarrow> EvidenceRecord list \<times> CircuitBreaker" where
  "trip cfg now cb =
     (if state cb = Closed then
        ([trip_evidence cfg],
         cb\<lparr>state := Open, last_trip_time_ms := now, consecutive_failures := 0, trip_count := inc64 (trip_count cb)\<rparr>)
      else ([], cb))"

definition reset :: "CircuitBreakerConfig \<Rightarrow> CircuitBreaker \<Rightarrow> EvidenceRecord list \<times> CircuitBreaker" where
  "reset cfg cb =
     (if state cb = HalfOpen then
        ([reset_evidence cfg],
         cb\<lparr>state := Closed, consecutive_failures := 0, consecutive_successes := 0, reset_count := inc64 (reset_count cb)\<rparr>)
      else ([], cb))"

definition record_outcome ::
  "CircuitBreakerConfig \<Rightarrow> nat \<Rightarrow> QualityOutcome \<Rightarrow> CircuitBreaker \<Rightarrow> EvidenceRecord list \<times> CircuitBreaker" where
  "record_outcome cfg now outcome cb =
     (if \<not> enabled cfg then ([], cb)
      else case state cb of
        Closed \<Rightarrow>
          if is_failure cfg outcome then
            (let cb' = cb\<lparr>consecutive_failures := inc32 (consecutive_failures cb)\<rparr> in
             if failure_threshold cfg \<le> inc32 (consecutive_failures cb) then trip cfg now cb' else ([], cb'))
          else ([], cb\<lparr>consecutive_failures := 0\<rparr>)
      | HalfOpen \<Rightarrow>
          if is_failure cfg outcome then
            ([probe_failed_evidence], cb\<lparr>state := Open, last_trip_time_ms := now, consecutive_failures := 0\<rparr>)
          else
            (let cb' = cb\<lparr>probe_success_count := inc64 (probe_success_count cb),
                          consecutive_successes := inc32 (consecutive_successes cb)\<rparr> in
             if reset_threshold cfg \<le> inc32 (consecutive_successes cb) then reset cfg cb' else ([], cb'))
      | Open \<Rightarrow> ([], cb))"

definition pipeline_state :: "CircuitBreaker \<Rightarrow> PipelineState" where
  "pipeline_state cb = (case state cb of Closed \<Rightarrow> Nominal | Open \<Rightarrow> CircuitOpen | HalfOpen \<Rightarrow> Probing)"

definition is_open :: "CircuitBreaker \<Rightarrow> bool" where "is_open cb \<longleftrightarrow> state cb = Open"
definition is_half_open :: "CircuitBreaker \<Rightarrow> bool" where "is_half_open cb \<longleftrightarrow> state cb = HalfOpen"
definition is_closed :: "CircuitBreaker \<Rightarrow> bool" where "is_closed cb \<longleftrightarrow> state cb = Closed"

definition force_open :: "nat \<Rightarrow> CircuitBreaker \<Rightarrow> EvidenceRecord list \<times> CircuitBreaker" where
  "force_open now cb =
     ([evidence ''circuit.open.consecutive_failures'' ''Circuit breaker force-opened by operator'' Warn CircuitOpen OpenCircuit],
      cb\<lparr>state := Open, last_trip_time_ms := now, consecutive_failures := 0, trip_count := inc64 (trip_count cb)\<rparr>)"

definition force_close :: "CircuitBreaker \<Rightarrow> EvidenceRecord list \<times> CircuitBreaker" where
  "force_close cb =
     ([evidence ''circuit.close.recovery'' ''Circuit breaker force-closed by operator'' Info Nominal CloseCircuit],
      cb\<lparr>state := Closed, consecutive_failures := 0, consecutive_successes := 0, reset_count := inc64 (reset_count cb)\<rparr>)"

section \<open>The accesses of a call\<close>

text \<open>
  Where a call stands: every constructor is the access to a shared field that comes next.
\<close>

datatype pc =
    SkipLoad | SkipClock | SkipCas | SkipCount | ProbeStore | ProbeCount
  | OutcomeLoad bool | FailAdd | FailClear | TripCas | TripTime | TripClear | TripCount
  | ReopenState | ReopenTime | ReopenClear
  | ProbeOk | SuccessAdd | ResetCas | ResetFailures | ResetSuccesses | ResetCount
  | Done bool "EvidenceRecord list"

fun access :: "CircuitBreakerConfig \<Rightarrow> nat \<Rightarrow> pc \<Rightarrow> CircuitBreaker \<Rightarrow> pc \<times> CircuitBreaker" where
  "access cfg now SkipLoad cb =
     ((case state cb of Open \<Rightarrow> SkipClock | _ \<Rightarrow> Done False []), cb)"
| "access cfg now SkipClock cb =
     ((if half_open_interval_ms cfg \<le> now - last_trip_time_ms cb then SkipCas else SkipCount), cb)"
| "access cfg now SkipCas cb =
     (if state cb = Open then (ProbeStore, cb\<lparr>state := HalfOpen\<rparr>) else (SkipCount, cb))"
| "access cfg now SkipCount cb = (Done True [], cb\<lparr>skip_count := inc64 (skip_count cb)\<rparr>)"
| "access cfg now ProbeStore cb = (ProbeCount, cb\<lparr>consecutive_successes := 0\<rparr>)"
| "access cfg now ProbeCount cb = (Done False [probe_evidence], cb\<lparr>probe_count := inc64 (probe_count cb)\<rparr>)"
| "access cfg now (OutcomeLoad failed) cb =
     ((case state cb of
         Closed \<Rightarrow> if failed then FailAdd else FailClear
       | HalfOpen \<Rightarrow> if failed then ReopenState else ProbeOk
       | Open \<Rightarrow> Done False []), cb)"
| "access cfg now FailAdd cb =
     ((if failure_threshold cfg \<le> inc32 (consecutive_failures cb) then TripCas else Done False []),
      cb\<lparr>consecutive_failures := inc32 (consecutive_failures cb)\<rparr>)"
| "access cfg now FailClear cb = (Done False [], cb\<lparr>consecutive_failures := 0\<rparr>)"
| "access cfg now TripCas cb = (if state cb = Closed then (TripTime, cb\<lparr>state := Open\<rparr>) else (Done False [], cb))"
| "access cfg now TripTime cb = (TripClear, cb\<lparr>last_trip_time_ms := now\<rparr>)"
| "access cfg now TripClear cb = (TripCount, cb\<lparr>consecutive_failures := 0\<rparr>)"
| "access cfg now TripCount cb = (Done False [trip_evidence cfg], cb\<lparr>trip_count := inc64 (trip_count cb)\<rparr>)"
| "access cfg now ReopenState cb = (ReopenTime, cb\<lparr>state := Open\<rparr>)"
| "access cfg now ReopenTime cb = (ReopenClear, cb\<lparr>last_trip_time_ms := now\<rparr>)"
| "access cfg now ReopenClear cb = (Done False [probe_failed_evidence], cb\<lparr>consecutive_failures := 0\<rparr>)"
| "access cfg now ProbeOk cb = (SuccessAdd, cb\<lparr>probe_success_count := inc64 (probe_success_count cb)\<rparr>)"
| "access cfg now SuccessAdd cb =
     ((if reset_threshold cfg \<le> inc32 (consecutive_successes cb) then ResetCas else Done False []),
      cb\<lparr>consecutive_successes := inc32 (consecutive_successes cb)\<rparr>)"
| "access cfg now ResetCas cb = (if state cb = HalfOpen then (ResetFailures, cb\<lparr>state := Closed\<rparr>) else (Done False [], cb))"
| "access cfg now ResetFailures cb = (ResetSuccesses, cb\<lparr>consecutive_failures := 0\<rparr>)"
| "access cfg now ResetSuccesses cb = (ResetCount, cb\<lparr>consecutive_successes := 0\<rparr>)"
| "access cfg now ResetCount cb = (Done False [reset_evidence cfg], cb\<lparr>reset_count := inc64 (reset_count cb)\<rparr>)"
| "access cfg now (Done skip evs) cb = (Done skip evs, cb)"

definition start_skip :: "CircuitBreakerConfig \<Rightarrow> pc" where
  "start_skip cfg = (if enabled cfg then SkipLoad else Done False [])"

definition start_outcome :: "CircuitBreakerConfig \<Rightarrow> QualityOutcome \<Rightarrow> pc" where
  "start_outcome cfg outcome = (if enabled cfg then OutcomeLoad (is_failure cfg outcome) else Done False [])"

text \<open>A call that nothing interrupts: seven accesses are the longest path.\<close>

fun solo :: "nat \<Rightarrow> CircuitBreakerConfig \<Rightarrow> nat \<Rightarrow> pc \<Rightarrow> CircuitBreaker \<Rightarrow> pc \<times> CircuitBreaker" where
  "solo 0 cfg now p cb = (p, cb)"
| "solo (Suc n) cfg now p cb = (case access cfg now p cb of (p', cb') \<Rightarrow> solo n cfg now p' cb')"

section \<open>Calls that do not overlap\<close>

lemma solo_Suc: "solo (Suc n) cfg now p cb = solo n cfg now (fst (access cfg now p cb)) (snd (access cfg now p cb))"
  by (simp add: case_prod_beta)

lemma solo_numeral: "solo (numeral k) cfg now p cb = solo (pred_numeral k) cfg now (fst (access cfg now p cb)) (snd (access cfg now p cb))"
  by (simp only: numeral_eq_Suc solo_Suc)

lemma solo_Done [simp]: "solo n cfg now (Done b evs) cb = (Done b evs, cb)"
  by (induction n) simp_all

text \<open>
  The accesses of a call that no other thread interrupts have the effect and the result of the
  method: seven accesses finish every call, those of \<open>record_outcome\<close> with its evidence and new state,
  those of \<open>should_skip_quality\<close> with its answer as well.
\<close>

theorem solo_refines_methods:
  "solo 7 cfg now (start_outcome cfg outcome) cb
     = (Done False (fst (record_outcome cfg now outcome cb)), snd (record_outcome cfg now outcome cb))
   \<and> solo 7 cfg now (start_skip cfg) cb
     = (Done (fst (fst (should_skip_quality cfg now cb))) (snd (fst (should_skip_quality cfg now cb))),
        snd (should_skip_quality cfg now cb))"
proof -
  have "solo 7 cfg now (OutcomeLoad failed) cb = (case state cb of
        Closed \<Rightarrow> if failed then
            (let cb' = cb\<lparr>consecutive_failures := inc32 (consecutive_failures cb)\<rparr> in
             if failure_threshold cfg \<le> inc32 (consecutive_failures cb) then
               (Done False [trip_evidence cfg], cb'\<lparr>state := Open, last_trip_time_ms := now, consecutive_failures := 0,
                  trip_count := inc64 (trip_count cb)\<rparr>)
             else (Done False [], cb'))
          else (Done False [], cb\<lparr>consecutive_failures := 0\<rparr>)
      | HalfOpen \<Rightarrow> if failed then
            (Done False [probe_failed_evidence], cb\<lparr>state := Open, last_trip_time_ms := now, consecutive_failures := 0\<rparr>)
          else
            (let cb' = cb\<lparr>probe_success_count := inc64 (probe_success_count cb),
                          consecutive_successes := inc32 (consecutive_successes cb)\<rparr> in
             if reset_threshold cfg \<le> inc32 (consecutive_successes cb) then
               (Done False [reset_evidence cfg], cb'\<lparr>state := Closed, consecutive_failures := 0, consecutive_successes := 0,
                  reset_count := inc64 (reset_count cb)\<rparr>)
             else (Done False [], cb'))
      | Open \<Rightarrow> (Done False [], cb))" for failed
    by (cases "state cb") (simp_all add: solo_numeral Let_def)
  moreover have "solo 7 cfg now SkipLoad cb
     = (Done (fst (fst (should_skip_quality cfg now cb))) (snd (fst (should_skip_quality cfg now cb))),
        snd (should_skip_quality cfg now cb))" if "enabled cfg"
    using that by (cases "state cb") (simp_all add: solo_numeral should_skip_quality_def)
  ultimately show ?thesis
    by (cases "state cb") (simp_all add: start_outcome_def start_skip_def record_outcome_def should_skip_quality_def
        trip_def reset_def Let_def)
qed

text \<open>The outcomes of queries, recorded one after the other, each at its time.\<close>

definition record_all :: "CircuitBreakerConfig \<Rightarrow> (QualityOutcome \<times> nat) list \<Rightarrow> CircuitBreaker \<Rightarrow> CircuitBreaker" where
  "record_all cfg outcomes cb = fold (\<lambda>(outcome, now) cb. snd (record_outcome cfg now outcome cb)) outcomes cb"


lemma record_all_simps [simp]:
  "record_all cfg [] cb = cb"
  "record_all cfg (x # xs) cb = record_all cfg xs (snd (record_outcome cfg (snd x) (fst x) cb))"
  by (simp_all add: record_all_def case_prod_beta)






definition quick_config :: CircuitBreakerConfig where
  "quick_config = \<lparr>enabled = True, failure_threshold = 2, latency_threshold_ms = 500, improvement_threshold = F_zero,
     half_open_interval_ms = 10, reset_threshold = 2\<rparr>"


lemma probing_run:
  assumes "enabled cfg" "reset_threshold cfg < 2 ^ 32"
  shows "state cb = HalfOpen \<Longrightarrow> consecutive_successes cb < reset_threshold cfg \<Longrightarrow>
    list_all (\<lambda>x. \<not> is_failure cfg (fst x)) outcomes \<Longrightarrow> length outcomes = reset_threshold cfg - consecutive_successes cb \<Longrightarrow>
    is_closed (record_all cfg outcomes cb) \<and> consecutive_failures (record_all cfg outcomes cb) = 0"
proof (induction outcomes arbitrary: cb)
  case (Cons x xs)
  let ?j = "consecutive_successes cb" and ?k = "reset_threshold cfg"
  have inc: "inc32 ?j = Suc ?j" using Cons.prems(2) assms(2) by (simp add: inc32_def)
  show ?case
  proof (cases "?k \<le> Suc ?j")
    case True
    then have "?k - ?j = 1" using Cons.prems(2) by simp
    then have "xs = []" using Cons.prems(4) by simp
    then show ?thesis using True Cons.prems inc assms(1) by (simp add: record_outcome_def reset_def is_closed_def Let_def)
  next
    case False
    then show ?thesis
      using Cons.IH [of "cb\<lparr>probe_success_count := inc64 (probe_success_count cb), consecutive_successes := Suc ?j\<rparr>"]
        Cons.prems inc assms(1)
      by (simp add: record_outcome_def Let_def)
  qed
qed simp

text \<open>
  An open breaker recovers: once the half-open interval has passed, the next query is let through
  as a probe, and after \<open>reset_threshold\<close> successful outcomes the breaker is closed again with no
  failures counted.
\<close>

theorem open_breaker_recovers:
  assumes "enabled cfg" "is_open cb" "last_trip_time_ms cb + half_open_interval_ms cfg \<le> now"
    "0 < reset_threshold cfg" "reset_threshold cfg < 2 ^ 32"
    "list_all (\<lambda>x. \<not> is_failure cfg (fst x)) outcomes" "length outcomes = reset_threshold cfg"
  shows "\<exists>cb'. should_skip_quality cfg now cb = ((False, [probe_evidence]), cb')
    \<and> is_closed (record_all cfg outcomes cb') \<and> consecutive_failures (record_all cfg outcomes cb') = 0"
proof -
  let ?cb = "cb\<lparr>state := HalfOpen, consecutive_successes := 0, probe_count := inc64 (probe_count cb)\<rparr>"
  have "should_skip_quality cfg now cb = ((False, [probe_evidence]), ?cb)"
    using assms(1-3) by (simp add: should_skip_quality_def is_open_def)
  moreover have "is_closed (record_all cfg outcomes ?cb) \<and> consecutive_failures (record_all cfg outcomes ?cb) = 0"
    using assms by (intro probing_run) simp_all
  ultimately show ?thesis by blast
qed

theorem open_breaker_recovers_witness:
  "\<exists>cb'. should_skip_quality quick_config 50 (snd (force_open 7 new_breaker)) = ((False, [probe_evidence]), cb')
    \<and> is_closed (record_all quick_config [(Success 1 F_zero, 60), (Success 2 F_zero, 61)] cb')"
  using open_breaker_recovers [of quick_config "snd (force_open 7 new_breaker)" 50 "[(Success 1 F_zero, 60), (Success 2 F_zero, 61)]"]
  by (auto simp: quick_config_def force_open_def is_open_def is_failure_def f64_lt_def F_zero_def)

text \<open>
  A breaker that probes lets every query through, not one: \<open>should_skip_quality\<close> answers no at
  any time and leaves the state as it is, so that more probes can succeed than were counted.
\<close>

theorem probing_is_not_single:
  "let cb = record_all (quick_config\<lparr>reset_threshold := 3\<rparr>) [(Success 1 F_zero, 51), (Success 2 F_zero, 52)]
       (snd (should_skip_quality quick_config 50 (snd (force_open 7 new_breaker))))
   in (\<forall>now. should_skip_quality quick_config now cb = ((False, []), cb)) \<and> probe_success_count cb = 2 \<and> probe_count cb = 1"
  by (simp add: quick_config_def force_open_def new_breaker_def should_skip_quality_def record_outcome_def
      is_failure_def f64_lt_def F_zero_def inc32_def inc64_def Let_def)

section \<open>Calls that overlap\<close>

text \<open>
  The breaker that several threads share: each thread is in some call, and one access of one of them
  is a step. The three counters are the exchanges that succeeded: Closed to Open, Open to HalfOpen
  and HalfOpen to Closed. The clock of an access is arbitrary.
\<close>

record shared =
  breaker :: CircuitBreaker
  threads :: "pc list"
  trips_won :: nat
  probes_won :: nat
  resets_won :: nat

definition initial_shared :: "nat \<Rightarrow> shared" where
  "initial_shared n = \<lparr>breaker = new_breaker, threads = replicate n (Done False []), trips_won = 0, probes_won = 0, resets_won = 0\<rparr>"

definition perform :: "CircuitBreakerConfig \<Rightarrow> nat \<Rightarrow> nat \<Rightarrow> shared \<Rightarrow> shared" where
  "perform cfg now t s =
     (let p = threads s ! t; (p', cb') = access cfg now p (breaker s) in
      s\<lparr>breaker := cb', threads := (threads s)[t := p'],
        trips_won := trips_won s + (if p = TripCas \<and> state (breaker s) = Closed \<and> state cb' = Open then 1 else 0),
        probes_won := probes_won s + (if p = SkipCas \<and> state (breaker s) = Open \<and> state cb' = HalfOpen then 1 else 0),
        resets_won := resets_won s + (if p = ResetCas \<and> state (breaker s) = HalfOpen \<and> state cb' = Closed then 1 else 0)\<rparr>)"

inductive bstep :: "CircuitBreakerConfig \<Rightarrow> shared \<Rightarrow> shared \<Rightarrow> bool" for cfg where
  call_skip: "t < length (threads s) \<Longrightarrow> threads s ! t = Done b evs \<Longrightarrow>
     bstep cfg s (s\<lparr>threads := (threads s)[t := start_skip cfg]\<rparr>)"
| call_outcome: "t < length (threads s) \<Longrightarrow> threads s ! t = Done b evs \<Longrightarrow>
     bstep cfg s (s\<lparr>threads := (threads s)[t := start_outcome cfg outcome]\<rparr>)"
| perform: "t < length (threads s) \<Longrightarrow> bstep cfg s (perform cfg now t s)"

text \<open>How many calls have won an exchange and not yet counted it.\<close>

definition uncounted :: "pc set \<Rightarrow> pc list \<Rightarrow> nat" where
  "uncounted P ps = length (filter (\<lambda>p. p \<in> P) ps)"

lemma uncounted_update:
  "t < length ps \<Longrightarrow> uncounted P (ps[t := p]) + (if ps ! t \<in> P then 1 else 0) = uncounted P ps + (if p \<in> P then 1 else 0)"
proof (induction ps arbitrary: t)
  case (Cons q ps)
  show ?case
  proof (cases t)
    case (Suc t')
    with Cons.IH [of t'] Cons.prems show ?thesis by (auto simp: uncounted_def)
  qed (auto simp: uncounted_def)
qed simp

definition balanced :: "nat \<Rightarrow> nat \<Rightarrow> pc set \<Rightarrow> pc list \<Rightarrow> bool" where
  "balanced counted won P ps \<longleftrightarrow> uncounted P ps \<le> won \<and> counted = (won - uncounted P ps) mod 2 ^ 64"

text \<open>A call enters the set when it wins, leaves it when it counts, and otherwise changes neither.\<close>

definition fair_move :: "pc set \<Rightarrow> pc \<Rightarrow> pc \<Rightarrow> nat \<times> nat \<Rightarrow> nat \<times> nat \<Rightarrow> bool" where
  "fair_move P p p' cw cw' \<longleftrightarrow>
     (if p \<in> P then (if p' \<in> P then cw' = cw else cw' = (inc64 (fst cw), snd cw))
      else (if p' \<in> P then cw' = (fst cw, snd cw + 1) else cw' = cw))"

lemma balanced_move:
  assumes "balanced c w P ps" "t < length ps" "fair_move P (ps ! t) p' (c, w) (c', w')"
  shows "balanced c' w' P (ps[t := p'])"
proof -
  note u = uncounted_update [OF assms(2), of P p']
  have b: "uncounted P ps \<le> w" "c = (w - uncounted P ps) mod 2 ^ 64" using assms(1) by (simp_all add: balanced_def)
  show ?thesis
  proof (cases "ps ! t \<in> P \<and> p' \<notin> P")
    case True
    then have m: "c' = inc64 c" "w' = w" "Suc (uncounted P (ps[t := p'])) = uncounted P ps"
      using assms(3) u by (auto simp: fair_move_def)
    then have "w - uncounted P (ps[t := p']) = Suc (w - uncounted P ps)" using b(1) by simp
    then show ?thesis using m b by (simp add: balanced_def inc64_def usize_add_def mod_Suc_eq)
  next
    case False
    then show ?thesis using assms(3) u b by (auto simp: balanced_def fair_move_def split: if_splits)
  qed
qed

abbreviation trip_pcs :: "pc set" where "trip_pcs \<equiv> {TripTime, TripClear, TripCount}"
abbreviation probe_pcs :: "pc set" where "probe_pcs \<equiv> {ProbeStore, ProbeCount}"
abbreviation reset_pcs :: "pc set" where "reset_pcs \<equiv> {ResetFailures, ResetSuccesses, ResetCount}"

definition books_balance :: "shared \<Rightarrow> bool" where
  "books_balance s \<longleftrightarrow> balanced (trip_count (breaker s)) (trips_won s) trip_pcs (threads s)
     \<and> balanced (probe_count (breaker s)) (probes_won s) probe_pcs (threads s)
     \<and> balanced (reset_count (breaker s)) (resets_won s) reset_pcs (threads s)"

lemma access_fair:
  assumes "access cfg now p cb = (p', cb')"
  shows "fair_move trip_pcs p p' (trip_count cb, w) (trip_count cb', w + (if p = TripCas \<and> state cb = Closed \<and> state cb' = Open then 1 else 0))"
    and "fair_move probe_pcs p p' (probe_count cb, w) (probe_count cb', w + (if p = SkipCas \<and> state cb = Open \<and> state cb' = HalfOpen then 1 else 0))"
    and "fair_move reset_pcs p p' (reset_count cb, w) (reset_count cb', w + (if p = ResetCas \<and> state cb = HalfOpen \<and> state cb' = Closed then 1 else 0))"
  using assms by (cases p; auto simp: fair_move_def split: CircuitState.splits if_splits)+

lemma start_pcs: "start_skip cfg \<notin> trip_pcs \<union> probe_pcs \<union> reset_pcs" "start_outcome cfg outcome \<notin> trip_pcs \<union> probe_pcs \<union> reset_pcs"
  by (auto simp: start_skip_def start_outcome_def)

lemma start_balanced:
  assumes "balanced c w P ps" "t < length ps" "ps ! t \<notin> P" "p \<notin> P"
  shows "balanced c w P (ps[t := p])"
  by (rule balanced_move [OF assms(1,2)]) (use assms(3,4) in \<open>simp add: fair_move_def\<close>)

lemma bstep_balance: "bstep cfg s s' \<Longrightarrow> books_balance s \<Longrightarrow> books_balance s'"
proof (induction rule: bstep.induct)
  case (perform t s now)
  obtain p' cb where a: "access cfg now (threads s ! t) (breaker s) = (p', cb)" by (cases "access cfg now (threads s ! t) (breaker s)")
  show ?case
    using perform balanced_move [OF _ perform(1) access_fair(1) [OF a]] balanced_move [OF _ perform(1) access_fair(2) [OF a]]
      balanced_move [OF _ perform(1) access_fair(3) [OF a]]
    by (simp add: books_balance_def perform_def a Let_def)
qed (use start_pcs in \<open>auto simp: books_balance_def intro!: start_balanced\<close>)

lemma reachable_balance: "(bstep cfg)\<^sup>*\<^sup>* (initial_shared n) s \<Longrightarrow> books_balance s"
proof (induction rule: rtranclp_induct)
  case base
  have "uncounted P (replicate n (Done False [])) = 0" if "Done False [] \<notin> P" for P using that by (simp add: uncounted_def)
  then show ?case by (simp add: books_balance_def balanced_def initial_shared_def new_breaker_def)
next
  case (step s s')
  then show ?case using bstep_balance by blast
qed

text \<open>
  C13: whatever the interleaving of the accesses of any number of threads, every exchange that opens,
  probes or closes the breaker is counted exactly once: when no call is under way, the counters of
  trips, probes and resets are the numbers of exchanges that succeeded.
\<close>

theorem transitions_counted_once:
  assumes "(bstep cfg)\<^sup>*\<^sup>* (initial_shared n) s" "list_all (\<lambda>p. \<exists>b evs. p = Done b evs) (threads s)"
  shows "trip_count (breaker s) = trips_won s mod 2 ^ 64 \<and> probe_count (breaker s) = probes_won s mod 2 ^ 64
    \<and> reset_count (breaker s) = resets_won s mod 2 ^ 64"
proof -
  have "uncounted trip_pcs (threads s) = 0" "uncounted probe_pcs (threads s) = 0" "uncounted reset_pcs (threads s) = 0"
    using assms(2) by (auto simp: uncounted_def list_all_iff filter_empty_conv)
  then show ?thesis using reachable_balance [OF assms(1)] by (simp add: books_balance_def balanced_def)
qed

text \<open>Schedules: which thread begins a call or makes its next access, and when.\<close>

datatype move = BeginSkip nat | BeginOutcome nat QualityOutcome | Access nat nat

fun is_done :: "pc \<Rightarrow> bool" where
  "is_done (Done b evs) = True"
| "is_done _ = False"

fun schedule :: "CircuitBreakerConfig \<Rightarrow> move \<Rightarrow> shared \<Rightarrow> shared" where
  "schedule cfg (BeginSkip t) s =
     (if t < length (threads s) \<and> is_done (threads s ! t) then s\<lparr>threads := (threads s)[t := start_skip cfg]\<rparr> else s)"
| "schedule cfg (BeginOutcome t outcome) s =
     (if t < length (threads s) \<and> is_done (threads s ! t) then s\<lparr>threads := (threads s)[t := start_outcome cfg outcome]\<rparr> else s)"
| "schedule cfg (Access t now) s = (if t < length (threads s) then perform cfg now t s else s)"

lemma is_done_iff: "is_done p \<longleftrightarrow> (\<exists>b evs. p = Done b evs)"
  by (cases p) auto

lemma schedule_bstep: "(bstep cfg)\<^sup>*\<^sup>* s (schedule cfg m s)"
  by (cases m) (auto simp: is_done_iff intro: call_skip call_outcome perform)

lemma schedules_bstep: "(bstep cfg)\<^sup>*\<^sup>* s (fold (schedule cfg) ms s)"
proof (induction ms arbitrary: s)
  case (Cons m ms)
  from rtranclp_trans [OF schedule_bstep Cons.IH] show ?case by simp
qed simp

lemma inc32_code [code]: "inc32 n = nat ((int n + 1) mod 4294967296)"
proof -
  have "int (inc32 n) = (int n + 1) mod 4294967296" by (simp add: inc32_def zmod_int add.commute)
  then show ?thesis by (metis nat_int)
qed

text \<open>
  One thread opens the breaker and lets a probe through; then it and another thread have recorded an
  outcome of the probe each: the first one saw the breaker half open and a failure, the second one
  closes it again before the first goes on.
\<close>

definition racing :: CircuitBreakerConfig where
  "racing = \<lparr>enabled = True, failure_threshold = 2, latency_threshold_ms = 500, improvement_threshold = F_zero,
     half_open_interval_ms = 10, reset_threshold = 1\<rparr>"

definition race :: "move list" where
  "race = concat (replicate 2 (BeginOutcome 0 OutcomeError # replicate 6 (Access 0 1))) @ BeginSkip 0 # replicate 5 (Access 0 20)
     @ [BeginOutcome 0 OutcomeError, Access 0 21, BeginOutcome 1 (Success 1 F_zero)] @ replicate 7 (Access 1 22)"

lemma race_state:
  "state (breaker (fold (schedule racing) race (initial_shared 2))) = Closed"
  "consecutive_failures (breaker (fold (schedule racing) race (initial_shared 2))) = 0"
  "threads (fold (schedule racing) race (initial_shared 2)) ! 0 = ReopenState"
  "length (threads (fold (schedule racing) race (initial_shared 2))) = 2"
  by code_simp+

theorem transitions_counted_once_witness:
  "let s = fold (schedule racing) (race @ replicate 3 (Access 0 30)) (initial_shared 2)
   in trip_count (breaker s) = trips_won s mod 2 ^ 64 \<and> probe_count (breaker s) = probes_won s mod 2 ^ 64
     \<and> reset_count (breaker s) = resets_won s mod 2 ^ 64"
proof -
  define s where "s = fold (schedule racing) (race @ replicate 3 (Access 0 30)) (initial_shared 2)"
  have "list_all is_done (threads (fold (schedule racing) (race @ replicate 3 (Access 0 30)) (initial_shared 2)))" by code_simp
  then have d: "list_all (\<lambda>p. \<exists>b evs. p = Done b evs) (threads s)" unfolding s_def is_done_iff .
  have "(bstep racing)\<^sup>*\<^sup>* (initial_shared 2) s" unfolding s_def by (rule schedules_bstep)
  from transitions_counted_once [OF this d] show ?thesis unfolding s_def Let_def .
qed

text \<open>
  Two threads can open a closed breaker that has counted no failure: a failed probe stores Open
  without comparing, so that it also overwrites the Closed another thread has just reached, and no
  trip is counted.
\<close>

theorem late_probe_failure_opens_closed:
  "\<exists>s s'. (bstep racing)\<^sup>*\<^sup>* (initial_shared 2) s \<and> bstep racing s s' \<and> is_closed (breaker s)
     \<and> consecutive_failures (breaker s) = 0 \<and> is_open (breaker s') \<and> trips_won s' = trips_won s"
proof -
  let ?s = "fold (schedule racing) race (initial_shared 2)"
  have "bstep racing ?s (perform racing 30 0 ?s)" using race_state(4) by (intro perform) simp
  moreover have "is_open (breaker (perform racing 30 0 ?s))" "trips_won (perform racing 30 0 ?s) = trips_won ?s"
    using race_state(3) by (simp_all add: perform_def is_open_def)
  ultimately show ?thesis
    using schedules_bstep [of racing "initial_shared 2" race] race_state(1,2) unfolding is_closed_def by blast
qed

end
