(* ===== verification/F64_Order.thy ===== *)
theory F64_Order
  imports F64_Arith
begin

text \<open>
  Division on \<open>f64\<close>, the order of its values and \<open>total_cmp\<close>. Rounding is monotone, so that on numbers
  with a positive sign every operation is monotone in the order of \<open>f64_le\<close>, infinity included; on
  these numbers \<open>total_cmp\<close>, which compares the bit patterns as integers, is that order.
\<close>

fun f64_div :: "f64 \<Rightarrow> f64 \<Rightarrow> f64" where
  "f64_div F_NaN _ = F_NaN"
| "f64_div _ F_NaN = F_NaN"
| "f64_div (F_Inf s) (F_Inf s') = F_NaN"
| "f64_div (F_Inf s) (F_Fin s' m' e') = F_Inf (s \<noteq> s')"
| "f64_div (F_Fin s m e) (F_Inf s') = F_Fin (s \<noteq> s') 0 (-1074)"
| "f64_div (F_Fin s m e) (F_Fin s' m' e') =
     (if m' = 0 then if m = 0 then F_NaN else F_Inf (s \<noteq> s')
      else f64_of_ratio (s \<noteq> s') (m * pow2 (e - e')) (m' * pow2 (e' - e)))"

text \<open>
  \<open>total_cmp\<close> compares the patterns as signed integers after flipping all bits but the sign of the
  negative ones; there is one NaN in the model, with the pattern of \<open>f64::NAN\<close>.
\<close>

fun f64_magnitude :: "f64 \<Rightarrow> int" where
  "f64_magnitude F_NaN = 2047 * 2 ^ 52 + 2 ^ 51"
| "f64_magnitude (F_Inf s) = 2047 * 2 ^ 52"
| "f64_magnitude (F_Fin s m e) = (e + 1074) * 2 ^ 52 + int m"

definition f64_total_key :: "f64 \<Rightarrow> int" where
  "f64_total_key x = (if is_sign_negative x then -1 - f64_magnitude x else f64_magnitude x)"

section \<open>Rounding is monotone\<close>

lemma rhe_mono:
  assumes "0 < q" "0 < q'" "real p / real q \<le> real p' / real q'"
  shows "round_half_even p q \<le> round_half_even p' q'"
proof (cases "p div q = p' div q'")
  case False
  have "p div q \<le> p' div q'"
    using assms by (metis floor_divide_of_nat_eq floor_mono of_nat_le_iff of_int_of_nat_eq of_int_le_iff)
  then have "p div q + 1 \<le> p' div q'" using False by simp
  moreover have "round_half_even p q \<le> p div q + 1" "p' div q' \<le> round_half_even p' q'"
    by (simp_all add: round_half_even_def Let_def)
  ultimately show ?thesis by linarith
next
  case True
  define d where "d = p div q"
  define r r' where "r = p mod q" and "r' = p' mod q'"
  have "p = q * d + r" by (simp add: d_def r_def)
  moreover have "p' = q' * d + r'" by (simp add: d_def r'_def True)
  ultimately have "real p = real q * real d + real r" "real p' = real q' * real d + real r'"
    by (metis of_nat_add of_nat_mult)+
  then have "real r / real q \<le> real r' / real q'" using assms by (simp add: add_divide_distrib)
  then have "real r * real q' \<le> real r' * real q" using assms(1,2) by (simp add: field_simps)
  then have c: "r * q' \<le> r' * q" by (metis of_nat_le_iff of_nat_mult)
  have lt: "2 * r' < q' \<Longrightarrow> 2 * r < q"
  proof (rule ccontr)
    assume "2 * r' < q'" "\<not> 2 * r < q"
    then have "q * q' \<le> 2 * (r * q')" "2 * (r' * q) < q * q'" using assms(1) mult_le_mono1 [of q "2 * r" q']
        mult_less_mono1 [of "2 * r'" q' q] by (simp_all add: ac_simps)
    with c show False by linarith
  qed
  have gt: "2 * r' \<le> q' \<Longrightarrow> 2 * r \<le> q"
  proof (rule ccontr)
    assume "2 * r' \<le> q'" "\<not> 2 * r \<le> q"
    then have "q * q' < 2 * (r * q')" "2 * (r' * q) \<le> q * q'" using assms(2) mult_less_mono1 [of q "2 * r" q']
        mult_le_mono1 [of "2 * r'" q' q] by (simp_all add: ac_simps)
    with c show False by linarith
  qed
  show ?thesis
    using lt gt unfolding round_half_even_def Let_def True [symmetric] d_def [symmetric] r_def [symmetric] r'_def [symmetric]
    by (cases "2 * r < q"; cases "q < 2 * r"; cases "2 * r' < q'"; cases "q' < 2 * r'"; auto)
qed

lemma f64_of_ratio_pos: "0 < q \<Longrightarrow> is_finite (f64_of_ratio False p q) \<Longrightarrow> 0 \<le> f64_val (f64_of_ratio False p q)"
  using f64_of_ratio_sgn [of q False p] by simp

lemma unit_exp_mono:
  assumes "0 < p" "0 < q" "0 < p'" "0 < q'" "real p / real q \<le> real p' / real q'"
  shows "unit_exp p q \<le> unit_exp p' q'"
proof -
  have "p2 (ratio_log2 p q) < p2 (ratio_log2 p' q' + 1)"
    using ratio_log2_bounds [OF assms(1,2)] ratio_log2_bounds [OF assms(3,4)] assms(5) by linarith
  then have "ratio_log2 p q < ratio_log2 p' q' + 1" by (subst (asm) powr_less_cancel_iff) simp_all
  then show ?thesis by (simp add: unit_exp_def)
qed

lemma rounded_mono:
  assumes "0 < p" "0 < q" "0 < p'" "0 < q'" "real p / real q \<le> real p' / real q'"
  shows "unit_exp p q = unit_exp p' q' \<and> rounded p q \<le> rounded p' q'
       \<or> unit_exp p q < unit_exp p' q' \<and> 2 ^ 52 \<le> rounded p' q'"
proof (cases "unit_exp p q = unit_exp p' q'")
  case True
  let ?E = "unit_exp p q"
  have "real p / real q / p2 ?E \<le> real p' / real q' / p2 ?E" using assms(5) by (intro divide_right_mono) simp_all
  then have "rounded p q \<le> rounded p' q'"
    using assms(2,4) unfolding rounded_def True [symmetric]
    by (intro rhe_mono) (simp_all only: scaled_ratio mult_pos_pos pow2_pos)
  with True show ?thesis by simp
next
  case False
  with unit_exp_mono [OF assms] have "unit_exp p q < unit_exp p' q'" by simp
  moreover from this have "unit_exp p' q' \<noteq> -1074" by (auto simp: unit_exp_def)
  ultimately show ?thesis using rounded_bounds(2) [OF assms(3,4)] by simp
qed

lemma f64_of_ratio_mono:
  assumes "0 < q" "0 < q'" "real p / real q \<le> real p' / real q'"
  shows "f64_le (f64_of_ratio False p q) (f64_of_ratio False p' q')"
proof (cases "p = 0")
  case True
  then show ?thesis by (cases "f64_of_ratio False p' q'") (simp_all add: f64_of_ratio_def le_pow2_def Let_def split: if_splits prod.splits)
next
  case False
  then have p: "0 < p" by simp
  then have "0 < real p' / real q'" using assms by (smt (verit) divide_pos_pos of_nat_0_less_iff)
  then have p': "0 < p'" using assms(2) by (simp add: zero_less_divide_iff)
  show ?thesis
  proof (cases "is_finite (f64_of_ratio False p' q')")
    case True
    note m = rounded_mono [OF p assms(1) p' assms(2,3)] and b = rounded_bounds(1) [OF p assms(1)] rounded_bounds(1) [OF p' assms(2)]
    have fin: "is_finite (f64_of_ratio False p q)"
      using True m b by (auto simp: f64_of_ratio_rounded [OF p] f64_of_ratio_rounded [OF p'] Let_def split: if_splits)
    have "real (rounded p q) * p2 (unit_exp p q) \<le> real (rounded p' q') * p2 (unit_exp p' q')"
      using m
    proof
      assume "unit_exp p q < unit_exp p' q' \<and> 2 ^ 52 \<le> rounded p' q'"
      then have u: "unit_exp p q + 53 \<le> unit_exp p' q' + 52" "2 ^ 52 \<le> rounded p' q'" by simp_all
      have "real (rounded p q) * p2 (unit_exp p q) \<le> 2 ^ 53 * p2 (unit_exp p q)"
        using b(1) by (intro mult_right_mono) (metis of_nat_le_iff of_nat_numeral of_nat_power, simp)
      also have "\<dots> = p2 (unit_exp p q + 53)" by (simp add: powr_add)
      also have "\<dots> \<le> p2 (unit_exp p' q' + 52)" using u(1) by simp
      also have "\<dots> = 2 ^ 52 * p2 (unit_exp p' q')" by (simp add: powr_add)
      also have "\<dots> \<le> real (rounded p' q') * p2 (unit_exp p' q')"
        using u(2) by (intro mult_right_mono) (metis of_nat_le_iff of_nat_numeral of_nat_power, simp)
      finally show ?thesis .
    qed simp
    then show ?thesis
      using f64_of_ratio_val [OF p fin] f64_of_ratio_val [OF p' True] by (simp add: f64_le_iff fin True)
  next
    case False
    then have "f64_of_ratio False p' q' = F_Inf False"
      by (auto simp: f64_of_ratio_rounded [OF p'] Let_def split: if_splits)
    then show ?thesis by (cases "f64_of_ratio False p q") (auto simp: f64_of_ratio_rounded [OF p] Let_def split: if_splits)
  qed
qed

section \<open>Numbers with a positive sign\<close>

fun positive :: "f64 \<Rightarrow> bool" where
  "positive F_NaN \<longleftrightarrow> False"
| "positive (F_Inf s) \<longleftrightarrow> \<not> s"
| "positive (F_Fin s m e) \<longleftrightarrow> \<not> s \<and> f64_wf (F_Fin s m e)"

text \<open>A result that is the rounding of a real number.\<close>

definition rounds_to :: "real \<Rightarrow> f64 \<Rightarrow> bool" where
  "rounds_to v x \<longleftrightarrow> (\<exists>p q. 0 < q \<and> v = real p / real q \<and> x = f64_of_ratio False p q)"

lemma rounds_to_mono: "rounds_to v x \<Longrightarrow> rounds_to w y \<Longrightarrow> v \<le> w \<Longrightarrow> f64_le x y"
  by (auto simp: rounds_to_def intro: f64_of_ratio_mono)

lemma positive_of_ratio: "0 < q \<Longrightarrow> positive (f64_of_ratio False p q)"
  using f64_of_ratio_wf [of q False p] by (cases "p = 0") (auto simp: f64_of_ratio_def Let_def split: prod.splits)

lemma rounds_to_positive: "rounds_to v x \<Longrightarrow> positive x"
  by (auto simp: rounds_to_def positive_of_ratio)

lemma positive_val: "positive x \<Longrightarrow> 0 \<le> f64_val x"
  by (cases x) auto

lemma rounds_to_val: "positive x \<Longrightarrow> is_finite x \<Longrightarrow> rounds_to (f64_val x) x"
proof (cases x)
  case (F_Fin s m e)
  assume "positive x"
  then have x: "x = F_Fin False m e" "f64_wf (F_Fin False m e)" using F_Fin by simp_all
  have "real (m * pow2 e) / real (pow2 (- e)) = real m * p2 e" by (rule ratio_pow2)
  moreover from this have "f64_of_ratio False (m * pow2 e) (pow2 (- e)) = x"
    unfolding x(1) by (intro f64_of_ratio_exact [OF x(2)]) simp_all
  ultimately show ?thesis unfolding rounds_to_def x(1) f64_val.simps
    by (intro exI [of _ "m * pow2 e"] exI [of _ "pow2 (- e)"]) simp
qed auto

lemma f64_le_positive: "positive x \<Longrightarrow> positive y \<Longrightarrow> f64_le x y \<longleftrightarrow> y = F_Inf False \<or> is_finite x \<and> is_finite y \<and> f64_val x \<le> f64_val y"
  by (cases "is_finite x \<and> is_finite y", auto simp: f64_le_iff) (cases x; cases y; auto)+

lemma f64_le_trans: "f64_le x y \<Longrightarrow> f64_le y z \<Longrightarrow> positive x \<Longrightarrow> positive y \<Longrightarrow> positive z \<Longrightarrow> f64_le x z"
  by (auto simp: f64_le_positive)

lemma f64_le_refl: "positive x \<Longrightarrow> f64_le x x"
  by (cases x) (auto simp: le_pow2_def)

lemma add_rounds:
  assumes "positive x" "positive y" "is_finite x" "is_finite y"
  shows "rounds_to (f64_val x + f64_val y) (f64_add x y)"
proof -
  obtain m e m' e' where xy: "x = F_Fin False m e" "y = F_Fin False m' e'" using assms by (cases x; cases y) auto
  obtain s p q where a: "f64_add x y = f64_of_ratio s p q" "0 < q" "sgn_of s * (real p / real q) = f64_val x + f64_val y"
    using f64_mul_add_exact [of x F_one y] assms(3,4) by (auto simp: f64_add_def)
  have v: "real p / real q = f64_val x + f64_val y" using signed_cases [OF a(3)] positive_val assms(1,2) by simp
  have "f64_add x y = f64_of_ratio False p q"
  proof (cases "p = 0")
    case True
    then have "f64_val x + f64_val y = 0" using v by simp
    then have "m = 0" "m' = 0" by (simp_all add: xy add_nonneg_eq_0_iff)
    then show ?thesis using True by (simp add: xy f64_add_def F_one_def signed_def Let_def f64_of_ratio_def)
  next
    case False
    then have "0 < real p / real q" using a(2) by simp
    then have "\<not> s" using a(3) v by (cases s) auto
    then show ?thesis using a(1) by simp
  qed
  then show ?thesis unfolding rounds_to_def using a(2) v by (intro exI [of _ p] exI [of _ q]) simp
qed

lemma add_infinite: "positive x \<Longrightarrow> positive y \<Longrightarrow> \<not> is_finite x \<or> \<not> is_finite y \<Longrightarrow> f64_add x y = F_Inf False"
  by (cases x; cases y) (auto simp: f64_add_def F_one_def)

lemma positive_add: "positive x \<Longrightarrow> positive y \<Longrightarrow> positive (f64_add x y)"
  using add_rounds rounds_to_positive add_infinite by (metis positive.simps(2))

lemma f64_add_mono:
  assumes "f64_le x x'" "f64_le y y'" "positive x" "positive x'" "positive y" "positive y'"
  shows "f64_le (f64_add x y) (f64_add x' y')"
proof (cases "is_finite x' \<and> is_finite y'")
  case True
  then have "is_finite x" "is_finite y" "f64_val x + f64_val y \<le> f64_val x' + f64_val y'"
    using assms by (auto simp: f64_le_positive)
  then show ?thesis using True assms by (blast intro: rounds_to_mono add_rounds)
next
  case False
  then show ?thesis using assms by (simp add: add_infinite f64_le_positive positive_add)
qed

lemma f64_add_ge: "positive x \<Longrightarrow> positive y \<Longrightarrow> f64_le x (f64_add x y)"
proof (cases "is_finite x \<and> is_finite y")
  case True
  assume "positive x" "positive y"
  then show ?thesis using True positive_val by (intro rounds_to_mono [OF rounds_to_val add_rounds]) auto
qed (auto simp: add_infinite f64_le_positive)

lemma f64_add_ge': "positive x \<Longrightarrow> positive y \<Longrightarrow> f64_le y (f64_add x y)"
proof (cases "is_finite x \<and> is_finite y")
  case True
  assume "positive x" "positive y"
  then show ?thesis using True positive_val by (intro rounds_to_mono [OF rounds_to_val add_rounds]) auto
qed (auto simp: add_infinite f64_le_positive)

lemma mul_rounds:
  assumes "positive x" "positive y" "is_finite x" "is_finite y"
  shows "rounds_to (f64_val x * f64_val y) (f64_mul x y)"
proof -
  obtain m e m' e' where xy: "x = F_Fin False m e" "y = F_Fin False m' e'" using assms by (cases x; cases y) auto
  have "real (m * m' * pow2 (e + e')) / real (pow2 (- (e + e'))) = f64_val x * f64_val y"
    unfolding ratio_pow2 by (simp add: xy powr_add)
  then show ?thesis unfolding rounds_to_def by (intro exI [of _ "m * m' * pow2 (e + e')"] exI [of _ "pow2 (- (e + e'))"]) (simp add: xy)
qed

lemma f64_mul_mono:
  assumes "f64_le x x'" "positive x" "positive x'" "positive w" "is_finite w" "\<not> is_zero w"
  shows "f64_le (f64_mul x w) (f64_mul x' w)" "positive (f64_mul x w)"
proof -
  have inf: "f64_mul (F_Inf False) w = F_Inf False" using assms(4-6) by (cases w) auto
  have "x = F_Inf False" if "\<not> is_finite x" using that assms(2) by (cases x) auto
  then show p: "positive (f64_mul x w)"
    using inf rounds_to_positive [OF mul_rounds [OF assms(2,4) _ assms(5)]] by (metis positive.simps(2))
  show "f64_le (f64_mul x w) (f64_mul x' w)"
  proof (cases "is_finite x'")
    case True
    then have "is_finite x" "f64_val x * f64_val w \<le> f64_val x' * f64_val w"
      using assms positive_val by (auto simp: f64_le_positive intro: mult_right_mono)
    then show ?thesis using True assms by (blast intro: rounds_to_mono mul_rounds)
  next
    case False
    then have "x' = F_Inf False" using assms(3) by (cases x') auto
    then show ?thesis using inf p by (simp add: f64_le_positive del: f64_mul.simps)
  qed
qed

lemma reciprocal_rounds:
  assumes "positive x" "is_finite x" "\<not> is_zero x"
  shows "rounds_to (1 / f64_val x) (f64_div F_one x)" "0 < f64_val x"
proof -
  obtain m e where x: "x = F_Fin False m e" "0 < m" using assms by (cases x) auto
  define f where "f = -52 - e"
  have "real (2 ^ 52 * pow2 f) / real (m * pow2 (- f)) = real (2 ^ 52 * pow2 f) / real (pow2 (- f)) / real m" by simp
  also have "\<dots> = 2 ^ 52 * p2 f / real m" unfolding ratio_pow2 by simp
  also have "\<dots> = 1 / f64_val x" by (simp add: x f_def powr_diff powr_minus powr_realpow divide_simps flip: powr_numeral)
  finally have v: "1 / f64_val x = real (2 ^ 52 * pow2 f) / real (m * pow2 (- f))" ..
  then show "rounds_to (1 / f64_val x) (f64_div F_one x)"
    unfolding rounds_to_def using x(2) by (intro exI [of _ "2 ^ 52 * pow2 f"] exI [of _ "m * pow2 (- f)"]) (simp add: x(1) F_one_def f_def)
  show "0 < f64_val x" using x by simp
qed

lemma f64_reciprocal_antimono:
  assumes "f64_le x x'" "positive x" "positive x'" "\<not> is_zero x" "\<not> is_zero x'"
  shows "f64_le (f64_div F_one x') (f64_div F_one x)" "positive (f64_div F_one x)"
proof -
  have inf: "f64_div F_one (F_Inf False) = F_zero" by (simp add: F_one_def F_zero_def)
  show p: "positive (f64_div F_one x)"
    using assms reciprocal_rounds(1) [THEN rounds_to_positive] inf by (cases x) (auto simp del: f64_div.simps simp: F_zero_def)
  show "f64_le (f64_div F_one x') (f64_div F_one x)"
  proof (cases "is_finite x'")
    case True
    then have "is_finite x" "f64_val x \<le> f64_val x'" using assms by (auto simp: f64_le_positive)
    then show ?thesis
      using True assms reciprocal_rounds by (intro rounds_to_mono [OF reciprocal_rounds(1) reciprocal_rounds(1)]) (auto intro: frac_le)
  next
    case False
    then have "x' = F_Inf False" using assms(3) by (cases x') auto
    moreover have "is_finite (f64_div F_one x) \<or> f64_div F_one x = F_Inf False" using p by (cases "f64_div F_one x") auto
    ultimately show ?thesis using inf p positive_val [OF p] by (auto simp: f64_le_positive simp del: f64_div.simps) (auto simp: F_zero_def f64_le_positive)
  qed
qed

section \<open>The order of bit patterns\<close>

lemma f64_total_key_le:
  assumes "positive x" "positive y"
  shows "f64_total_key x \<le> f64_total_key y \<longleftrightarrow> f64_le x y"
proof (cases "is_finite x \<and> is_finite y")
  case True
  then obtain m e m' e' where xy: "x = F_Fin False m e" "y = F_Fin False m' e'" using assms by (cases x; cases y) auto
  have less: "(e + 1074) * 2 ^ 52 + int m < (e' + 1074) * 2 ^ 52 + int m' \<and> real m * p2 e < real m' * p2 e'"
    if "e < e'" "m < 2 ^ 53" "2 ^ 52 \<le> m'" for e e' m m'
  proof
    have "(e + 2) * 2 ^ 52 \<le> (e' + 1) * (2 :: int) ^ 52" using that(1) by simp
    then show "(e + 1074) * 2 ^ 52 + int m < (e' + 1074) * 2 ^ 52 + int m'" using that(2,3) by (simp add: algebra_simps)
    have "real m < 2 ^ 53" "2 ^ 52 \<le> real m'"
      using that(2,3) by (metis of_nat_less_iff of_nat_numeral of_nat_power, metis of_nat_le_iff of_nat_numeral of_nat_power)
    then have "real m * p2 e < 2 ^ 53 * p2 e" "2 ^ 52 * p2 e' \<le> real m' * p2 e'" by simp_all
    moreover have "(2 :: real) ^ 53 * p2 e = p2 (e + 53)" "(2 :: real) ^ 52 * p2 e' = p2 (e' + 52)" by (simp_all add: powr_add)
    moreover have "p2 (e + 53) \<le> p2 (e' + 52)" using that(1) by simp
    ultimately show "real m * p2 e < real m' * p2 e'" by linarith
  qed
  have wf: "f64_wf (F_Fin False m e)" "f64_wf (F_Fin False m' e')" using assms by (simp_all add: xy)
  consider "e = e'" | "e < e'" "m < 2 ^ 53" "2 ^ 52 \<le> m'" | "e' < e" "m' < 2 ^ 53" "2 ^ 52 \<le> m"
    using wf by (cases e e' rule: linorder_cases) (force simp: not_less [symmetric])+
  then have "(e + 1074) * 2 ^ 52 + int m \<le> (e' + 1074) * 2 ^ 52 + int m' \<longleftrightarrow> real m * p2 e \<le> real m' * p2 e'"
    using less by cases (simp, fastforce, fastforce)
  then show ?thesis by (simp add: xy f64_total_key_def le_pow2_iff)
next
  case False
  have lt: "f64_total_key z < 2047 * 2 ^ 52" if fin: "positive z" "is_finite z" for z
  proof -
    obtain m e where z: "z = F_Fin False m e" "m < 2 ^ 53" "e \<le> 971" using fin by (cases z) auto
    then have "(e + 1074) * 2 ^ 52 \<le> 2045 * (2 :: int) ^ 52" "int m < 2 ^ 53" by simp_all
    then show ?thesis by (simp add: z(1) f64_total_key_def)
  qed
  from False assms lt [of x] lt [of y] show ?thesis
    by (cases x; cases y; simp add: f64_total_key_def del: f64_magnitude.simps(3))
qed

section \<open>Least and greatest, exact results\<close>

text \<open>\<open>min\<close> and \<open>max\<close> ignore a NaN.\<close>

definition f64_min :: "f64 \<Rightarrow> f64 \<Rightarrow> f64" where
  "f64_min x y = (if is_nan x then y else if is_nan y then x else if f64_le x y then x else y)"

definition f64_max :: "f64 \<Rightarrow> f64 \<Rightarrow> f64" where
  "f64_max x y = (if is_nan x then y else if is_nan y then x else if f64_le x y then y else x)"

lemma rounds_exact:
  assumes "rounds_to v x" "positive y" "is_finite y" "f64_val y = v"
  shows "is_finite x" "f64_val x = v"
proof -
  have y: "rounds_to v y" using rounds_to_val [OF assms(2,3)] assms(4) by simp
  have x: "positive x" using assms(1) by (rule rounds_to_positive)
  have "f64_le x y" "f64_le y x" using rounds_to_mono assms(1) y by blast+
  then show "is_finite x" "f64_val x = v" using assms(3,4) by (auto simp: f64_le_positive [OF x assms(2)] f64_le_positive [OF assms(2) x])
qed

lemma of_nat_exact:
  assumes "n \<le> 2 ^ 53"
  shows "positive (f64_of_int (int n))" "is_finite (f64_of_int (int n))" "f64_val (f64_of_int (int n)) = real n"
proof -
  obtain m e where r: "f64_wf (F_Fin False m e)" "real m * p2 e = real n" using nat_representable [OF assms] by blast
  have n: "rounds_to (real n) (f64_of_int (int n))"
    unfolding rounds_to_def by (intro exI [of _ n] exI [of _ "1::nat"]) (simp add: f64_of_int_def)
  then show "positive (f64_of_int (int n))" by (rule rounds_to_positive)
  show "is_finite (f64_of_int (int n))" "f64_val (f64_of_int (int n)) = real n"
    using rounds_exact [OF n, of "F_Fin False m e"] r by simp_all
qed

lemma sub_exact:
  assumes "b < a" "a \<le> 2 ^ 53"
  shows "is_finite (f64_sub (f64_of_int (int a)) (f64_of_int (int b)))" "f64_val (f64_sub (f64_of_int (int a)) (f64_of_int (int b))) = real (a - b)"
proof -
  have ab: "is_finite (f64_of_int (int a))" "is_finite (f64_neg (f64_of_int (int b)))"
    "f64_val (f64_of_int (int a)) = real a" "f64_val (f64_of_int (int b)) = real b"
    using of_nat_exact [of a] of_nat_exact [of b] assms by simp_all
  obtain s p q where r: "f64_sub (f64_of_int (int a)) (f64_of_int (int b)) = f64_of_ratio s p q" "0 < q"
    "sgn_of s * (real p / real q) = real a - real b"
    using f64_mul_add_exact [OF ab(1) f64_val_consts(4) ab(2)] ab(3,4) by (auto simp: f64_sub_def f64_add_def)
  have "0 < sgn_of s * (real p / real q)" using r(3) assms(1) by simp
  then have s: "\<not> s" using r(2) by (cases s) (auto simp: zero_less_mult_iff divide_less_0_iff zero_less_divide_iff)
  then have "rounds_to (real (a - b)) (f64_sub (f64_of_int (int a)) (f64_of_int (int b)))"
    unfolding rounds_to_def using r assms(1) by (intro exI [of _ p] exI [of _ q]) (simp add: of_nat_diff)
  from rounds_exact [OF this of_nat_exact(1,2,3)] assms
  show "is_finite (f64_sub (f64_of_int (int a)) (f64_of_int (int b)))" "f64_val (f64_sub (f64_of_int (int a)) (f64_of_int (int b))) = real (a - b)"
    by simp_all
qed

end
