(* ===== verification/Rust_Ord.thy ===== *)
theory Rust_Ord
  imports F64_Order "HOL-Library.Word" "HOL-Library.Multiset" "HOL-Library.Product_Lexorder"
    "HOL-Library.List_Lexorder" "HOL-Library.Char_ord"
begin

unbundle bit_operations_syntax

text \<open>
  \<open>std::cmp::Ordering\<close>, comparators, and what the slice methods promise that order by one. The
  locale is the contract of a comparator that is a total order: it compares keys of a linear order.
  Inside it, the first elements that a selection followed by a sort gives are those of the sorted
  list, whatever the algorithms are, as long as the keys are distinct.
\<close>

datatype ordering = Less | Equal | Greater

definition ord_cmp :: "'a :: linorder \<Rightarrow> 'a \<Rightarrow> ordering" where
  "ord_cmp a b = (if a < b then Less else if a = b then Equal else Greater)"

definition ord_then :: "ordering \<Rightarrow> ordering \<Rightarrow> ordering" where
  "ord_then a b = (case a of Equal \<Rightarrow> b | _ \<Rightarrow> a)"

text \<open>An \<open>f32\<close> that is only stored and compared is its bit pattern.\<close>

type_synonym f32 = "32 word"

definition F32_NEG_INFINITY :: f32 where "F32_NEG_INFINITY = 0xFF800000"

definition f32_total_key :: "f32 \<Rightarrow> int" where
  "f32_total_key b = sint (b XOR drop_bit 1 (signed_drop_bit 31 b))"

definition f32_total_cmp :: "f32 \<Rightarrow> f32 \<Rightarrow> ordering" where
  "f32_total_cmp a b = ord_cmp (f32_total_key a) (f32_total_key b)"

definition f64_total_cmp :: "f64 \<Rightarrow> f64 \<Rightarrow> ordering" where
  "f64_total_cmp a b = ord_cmp (f64_total_key a) (f64_total_key b)"

text \<open>What is documented of \<open>sort_unstable_by\<close> and \<open>select_nth_unstable_by\<close>, for a comparator.\<close>

definition sorts :: "('a \<Rightarrow> 'a \<Rightarrow> ordering) \<Rightarrow> ('a list \<Rightarrow> 'a list) \<Rightarrow> bool" where
  "sorts cmp sort_by \<longleftrightarrow> (\<forall>xs. mset (sort_by xs) = mset xs \<and> sorted_wrt (\<lambda>a b. cmp a b \<noteq> Greater) (sort_by xs))"

definition selects :: "('a \<Rightarrow> 'a \<Rightarrow> ordering) \<Rightarrow> (nat \<Rightarrow> 'a list \<Rightarrow> 'a list) \<Rightarrow> bool" where
  "selects cmp select_nth \<longleftrightarrow> (\<forall>n xs. n < length xs \<longrightarrow>
     (let ys = select_nth n xs in mset ys = mset xs
        \<and> (\<forall>a \<in> set (take n ys). cmp a (ys ! n) \<noteq> Greater) \<and> (\<forall>b \<in> set (drop (Suc n) ys). cmp (ys ! n) b \<noteq> Greater)))"

text \<open>The first \<open>window\<close> elements: the others are cut off before the sort.\<close>

definition top_window :: "(nat \<Rightarrow> 'a list \<Rightarrow> 'a list) \<Rightarrow> ('a list \<Rightarrow> 'a list) \<Rightarrow> nat \<Rightarrow> 'a list \<Rightarrow> 'a list" where
  "top_window select_nth sort_by window xs =
     sort_by (if window < length xs then take window (select_nth (window - 1) xs) else xs)"

lemma ord_cmp_Greater [simp]: "ord_cmp a b \<noteq> Greater \<longleftrightarrow> a \<le> b"
  by (auto simp: ord_cmp_def)

lemma ord_cmp_then: "ord_then (ord_cmp a b) (ord_cmp c d) = ord_cmp (a, c) (b, d)"
  by (auto simp: ord_cmp_def ord_then_def less_prod_simp)

lemma ord_cmp_uminus: "ord_cmp (- a) (- b) = ord_cmp b (a :: int)"
  by (auto simp: ord_cmp_def)

lemma ord_cmp_not: "ord_cmp (\<not> a) (\<not> b) = ord_cmp b a"
  by (auto simp: ord_cmp_def)

locale total_comparator =
  fixes cmp :: "'a \<Rightarrow> 'a \<Rightarrow> ordering" and key :: "'a \<Rightarrow> 'k :: linorder"
  assumes cmp_key: "cmp a b = ord_cmp (key a) (key b)"
begin

lemma sorts_key:
  assumes "sorts cmp sort_by"
  shows "mset (sort_by xs) = mset xs" "sorted (map key (sort_by xs))"
  using assms by (simp_all add: sorts_def cmp_key sorted_map)

lemma sorts_unique:
  assumes "sorts cmp sort_by" "inj_on key (set xs)"
  shows "sort_by xs = sort_key key xs"
  using sorts_key [OF assms(1), of xs] assms(2) by (metis sort_key_inj_key_eq)

lemma selects_key:
  assumes "selects cmp select_nth" "n < length xs" "a \<in> set (take (Suc n) (select_nth n xs))" "b \<in> set (drop (Suc n) (select_nth n xs))"
  shows "key a \<le> key b"
proof -
  let ?ys = "select_nth n xs"
  have s: "mset ?ys = mset xs" "\<forall>a \<in> set (take n ?ys). key a \<le> key (?ys ! n)" "\<forall>b \<in> set (drop (Suc n) ?ys). key (?ys ! n) \<le> key b"
    using assms(1,2) by (simp_all add: selects_def Let_def cmp_key)
  have "n < length ?ys" using assms(2) mset_eq_length [OF s(1)] by simp
  then have "key a \<le> key (?ys ! n)" using assms(3) s(2) by (auto simp: take_Suc_conv_app_nth)
  then show ?thesis using s(3) assms(4) by (meson order.trans)
qed

lemma top_window_sorted:
  assumes "sorts cmp sort_by" "selects cmp select_nth" "inj_on key (set xs)" "0 < window"
  shows "top_window select_nth sort_by window xs = take window (sort_key key xs)"
proof (cases "window < length xs")
  case False
  then show ?thesis using sorts_unique [OF assms(1,3)] by (simp add: top_window_def)
next
  case True
  define ys where "ys = select_nth (window - 1) xs"
  have n: "window - 1 < length xs" "Suc (window - 1) = window" using True assms(4) by simp_all
  have m: "mset ys = mset xs" using assms(2) n by (simp add: selects_def Let_def ys_def)
  define top where "top = sort_by (take window ys)"
  define rest where "rest = sort_key key (drop window ys)"
  have t: "mset top = mset (take window ys)" "sorted (map key top)" using sorts_key [OF assms(1)] by (simp_all add: top_def)
  have "key a \<le> key b" if "a \<in> set top" "b \<in> set rest" for a b
    using selects_key [OF assms(2) n(1)] n(2) that mset_eq_setD [OF t(1)] by (simp add: ys_def rest_def)
  then have "sorted (map key (top @ rest))" using t(2) by (auto simp: sorted_append rest_def)
  moreover have "mset (top @ rest) = mset xs"
    using t(1) m by (metis append_take_drop_id mset_append mset_sort rest_def)
  ultimately have "sort_key key xs = top @ rest" using assms(3) sort_key_inj_key_eq by metis
  moreover have "length top = window" using mset_eq_length [OF t(1)] mset_eq_length [OF m] True by simp
  ultimately show ?thesis using True by (simp add: top_window_def top_def ys_def)
qed

end

text \<open>Sorting everything is a selection too, so that the two contracts can be met.\<close>

lemma sort_key_sorts: "(\<And>a b. cmp a b = ord_cmp (key a) (key b)) \<Longrightarrow> sorts cmp (sort_key key)"
  using sorted_sort_key [of key] by (simp add: sorts_def sorted_map)

lemma sort_key_selects:
  assumes "\<And>a b. cmp a b = ord_cmp (key a) (key b)"
  shows "selects cmp (\<lambda>_. sort_key key)"
proof -
  have "key a \<le> key (sort_key key xs ! n)" if "a \<in> set (take n (sort_key key xs))" "n < length xs" for a n xs
    using that sorted_sort_key [of key xs] by (fastforce simp: in_set_conv_nth sorted_iff_nth_mono)
  moreover have "key (sort_key key xs ! n) \<le> key b" if "b \<in> set (drop (Suc n) (sort_key key xs))" for b n xs
    using that sorted_sort_key [of key xs] by (fastforce simp: in_set_conv_nth sorted_iff_nth_mono)
  ultimately show ?thesis using assms by (simp add: selects_def)
qed

end
