(* ===== verification/Fs_Rrf.thy ===== *)
theory Fs_Rrf
  imports Rust_Ord
begin

text \<open>
  Reciprocal rank fusion (\<open>frankensearch-fusion/src/rrf.rs\<close>, with the hit types of
  \<open>frankensearch-core/src/types.rs\<close>): the hits of up to three ranked sources are collected in a hash
  map and scored in \<open>f64\<close>, and a page of the ranking is cut out with a selection and a sort.

  The order in which the hash map is read and the algorithms of the two slice methods are parameters,
  of which only what the standard library documents is assumed.
\<close>

section \<open>Hits\<close>

record VectorHit =
  vh_index :: nat
  vh_score :: f32
  vh_doc_id :: string

datatype ScoreSource = Lexical | SemanticFast | SemanticQuality | Hybrid | Reranked

record ('e, 'm) ScoredResult =
  sr_doc_id :: string
  sr_score :: f32
  sr_source :: ScoreSource
  sr_index :: "nat option"
  sr_fast_score :: "f32 option"
  sr_quality_score :: "f32 option"
  sr_lexical_score :: "f32 option"
  sr_rerank_score :: "f32 option"
  sr_explanation :: "'e option"
  sr_metadata :: "'m option"

record FusedHit =
  fh_doc_id :: string
  fh_rrf_score :: f64
  fh_lexical_rank :: "nat option"
  fh_semantic_rank :: "nat option"
  fh_semantic_index :: "nat option"
  fh_lexical_score :: "f32 option"
  fh_semantic_score :: "f32 option"
  fh_in_both_sources :: bool

record FusedHitScratch =
  doc_id :: string
  rrf_score :: f64
  lexical_rank :: "nat option"
  semantic_rank :: "nat option"
  semantic_index :: "nat option"
  graph_rank :: "nat option"
  lexical_score :: "f32 option"
  semantic_score :: "f32 option"
  graph_score :: "f32 option"
  in_both_sources :: bool

record RrfConfig =
  rrf_k :: f64

definition DEFAULT_RRF_K :: f64 where "DEFAULT_RRF_K = f64_of_int 60"

definition default_rrf_config :: RrfConfig where "default_rrf_config = \<lparr>rrf_k = DEFAULT_RRF_K\<rparr>"

definition candidate_count :: "nat \<Rightarrow> nat \<Rightarrow> nat \<Rightarrow> nat" where
  "candidate_count limit offset multiplier = sat_mul (sat_add limit offset) multiplier"

definition rank_contribution :: "f64 \<Rightarrow> nat \<Rightarrow> f64" where
  "rank_contribution k rank =
     (let rank_u32 = min rank 4294967295 in f64_div F_one (f64_add (f64_add k (f64_of_int (int rank_u32))) F_one))"

definition sanitize_rrf_k :: "f64 \<Rightarrow> f64" where
  "sanitize_rrf_k k = (if is_finite k \<and> f64_le F_zero k then k else DEFAULT_RRF_K)"

definition sanitize_graph_weight :: "f64 \<Rightarrow> f64" where
  "sanitize_graph_weight w = (if is_finite w \<and> f64_lt F_zero w then w else F_zero)"

section \<open>Ranking\<close>

definition cmp_for_ranking :: "FusedHitScratch \<Rightarrow> FusedHitScratch \<Rightarrow> ordering" where
  "cmp_for_ranking self other =
     ord_then (ord_then (ord_then
       (f64_total_cmp (rrf_score other) (rrf_score self))
       (ord_cmp (in_both_sources other) (in_both_sources self)))
       (let a = case_option F32_NEG_INFINITY id (lexical_score self); b = case_option F32_NEG_INFINITY id (lexical_score other)
        in f32_total_cmp b a))
       (ord_cmp (doc_id self) (doc_id other))"

text \<open>The same comparison of hits that have been handed out (\<open>FusedHit::cmp_for_ranking\<close>).\<close>

definition cmp_fused :: "FusedHit \<Rightarrow> FusedHit \<Rightarrow> ordering" where
  "cmp_fused self other =
     ord_then (ord_then (ord_then
       (f64_total_cmp (fh_rrf_score other) (fh_rrf_score self))
       (ord_cmp (fh_in_both_sources other) (fh_in_both_sources self)))
       (let a = case_option F32_NEG_INFINITY id (fh_lexical_score self); b = case_option F32_NEG_INFINITY id (fh_lexical_score other)
        in f32_total_cmp b a))
       (ord_cmp (fh_doc_id self) (fh_doc_id other))"

definition into_owned :: "FusedHitScratch \<Rightarrow> FusedHit" where
  "into_owned h = \<lparr>fh_doc_id = doc_id h, fh_rrf_score = rrf_score h, fh_lexical_rank = lexical_rank h,
     fh_semantic_rank = semantic_rank h, fh_semantic_index = semantic_index h, fh_lexical_score = lexical_score h,
     fh_semantic_score = semantic_score h, fh_in_both_sources = in_both_sources h\<rparr>"

section \<open>Fusion\<close>

type_synonym hits = "(string, FusedHitScratch) hmap"

definition score_lexical :: "f64 \<Rightarrow> nat \<Rightarrow> ('e, 'm) ScoredResult \<Rightarrow> hits \<Rightarrow> hits" where
  "score_lexical k rank result hits =
     (case hget hits (sr_doc_id result) of
        Some hit \<Rightarrow>
          if lexical_rank hit \<noteq> None then hits
          else hinsert (sr_doc_id result) (hit\<lparr>rrf_score := f64_add (rrf_score hit) (rank_contribution k rank),
                 lexical_rank := Some rank, lexical_score := Some (sr_score result)\<rparr>) hits
      | None \<Rightarrow>
          hinsert (sr_doc_id result) \<lparr>doc_id = sr_doc_id result, rrf_score = rank_contribution k rank, lexical_rank = Some rank,
            semantic_rank = None, semantic_index = None, graph_rank = None, lexical_score = Some (sr_score result),
            semantic_score = None, graph_score = None, in_both_sources = False\<rparr> hits)"

definition score_semantic :: "f64 \<Rightarrow> nat \<Rightarrow> VectorHit \<Rightarrow> hits \<Rightarrow> hits" where
  "score_semantic k rank hit hits =
     (case hget hits (vh_doc_id hit) of
        Some fh \<Rightarrow>
          if semantic_rank fh \<noteq> None then hits
          else hinsert (vh_doc_id hit) (fh\<lparr>rrf_score := f64_add (rrf_score fh) (rank_contribution k rank),
                 semantic_rank := Some rank, semantic_score := Some (vh_score hit), semantic_index := Some (vh_index hit)\<rparr>) hits
      | None \<Rightarrow>
          hinsert (vh_doc_id hit) \<lparr>doc_id = vh_doc_id hit, rrf_score = rank_contribution k rank, lexical_rank = None,
            semantic_rank = Some rank, semantic_index = Some (vh_index hit), graph_rank = None, lexical_score = None,
            semantic_score = Some (vh_score hit), graph_score = None, in_both_sources = False\<rparr> hits)"

definition score_graph :: "f64 \<Rightarrow> f64 \<Rightarrow> nat \<Rightarrow> ('e, 'm) ScoredResult \<Rightarrow> hits \<Rightarrow> hits" where
  "score_graph k graph_weight rank result hits =
     (let rrf_contribution = f64_mul (rank_contribution k rank) graph_weight in
      case hget hits (sr_doc_id result) of
        Some hit \<Rightarrow>
          if graph_rank hit \<noteq> None then hits
          else hinsert (sr_doc_id result) (hit\<lparr>rrf_score := f64_add (rrf_score hit) rrf_contribution,
                 graph_rank := Some rank, graph_score := Some (sr_score result)\<rparr>) hits
      | None \<Rightarrow>
          hinsert (sr_doc_id result) \<lparr>doc_id = sr_doc_id result, rrf_score = rrf_contribution, lexical_rank = None,
            semantic_rank = None, semantic_index = None, graph_rank = Some rank, lexical_score = None,
            semantic_score = None, graph_score = Some (sr_score result), in_both_sources = False\<rparr> hits)"

text \<open>\<open>for (rank, x) in xs.iter().enumerate()\<close>\<close>

definition for_ranked :: "(nat \<Rightarrow> 'a \<Rightarrow> 's \<Rightarrow> 's) \<Rightarrow> 'a list \<Rightarrow> 's \<Rightarrow> 's" where
  "for_ranked body xs = fold (\<lambda>(rank, x). body rank x) (enumerate 0 xs)"

definition collect_hits ::
  "('e, 'm) ScoredResult list \<Rightarrow> VectorHit list \<Rightarrow> ('e, 'm) ScoredResult list \<Rightarrow> f64 \<Rightarrow> RrfConfig \<Rightarrow> hits" where
  "collect_hits lexical semantic graph graph_weight config =
     (let k = sanitize_rrf_k (rrf_k config);
          graph_weight = sanitize_graph_weight graph_weight;
          hits = for_ranked (score_lexical k) lexical [];
          hits = for_ranked (score_semantic k) semantic hits
      in if f64_lt F_zero graph_weight then for_ranked (score_graph k graph_weight) graph hits else hits)"

definition mark_both :: "FusedHitScratch \<Rightarrow> FusedHitScratch" where
  "mark_both h = h\<lparr>in_both_sources := lexical_rank h \<noteq> None \<and> semantic_rank h \<noteq> None\<rparr>"

definition rrf_fuse_with_graph ::
  "(hits \<Rightarrow> FusedHitScratch list)
   \<Rightarrow> ((FusedHitScratch \<Rightarrow> FusedHitScratch \<Rightarrow> ordering) \<Rightarrow> nat \<Rightarrow> FusedHitScratch list \<Rightarrow> FusedHitScratch list)
   \<Rightarrow> ((FusedHitScratch \<Rightarrow> FusedHitScratch \<Rightarrow> ordering) \<Rightarrow> FusedHitScratch list \<Rightarrow> FusedHitScratch list)
   \<Rightarrow> ('e, 'm) ScoredResult list \<Rightarrow> VectorHit list \<Rightarrow> ('e, 'm) ScoredResult list \<Rightarrow> f64 \<Rightarrow> nat \<Rightarrow> nat \<Rightarrow> RrfConfig
   \<Rightarrow> FusedHit list" where
  "rrf_fuse_with_graph into_values select_nth sort_by lexical semantic graph graph_weight limit offset config =
     (let results = map mark_both (into_values (collect_hits lexical semantic graph graph_weight config));
          window = sat_add limit offset
      in if window = 0 then []
         else
           let results = (if window < length results then take window (select_nth cmp_for_ranking (window - 1) results) else results);
               results = sort_by cmp_for_ranking results
           in map into_owned (take limit (drop offset results)))"

definition rrf_fuse ::
  "(hits \<Rightarrow> FusedHitScratch list)
   \<Rightarrow> ((FusedHitScratch \<Rightarrow> FusedHitScratch \<Rightarrow> ordering) \<Rightarrow> nat \<Rightarrow> FusedHitScratch list \<Rightarrow> FusedHitScratch list)
   \<Rightarrow> ((FusedHitScratch \<Rightarrow> FusedHitScratch \<Rightarrow> ordering) \<Rightarrow> FusedHitScratch list \<Rightarrow> FusedHitScratch list)
   \<Rightarrow> ('e, 'm) ScoredResult list \<Rightarrow> VectorHit list \<Rightarrow> nat \<Rightarrow> nat \<Rightarrow> RrfConfig \<Rightarrow> FusedHit list" where
  "rrf_fuse into_values select_nth sort_by lexical semantic limit offset config =
     rrf_fuse_with_graph into_values select_nth sort_by lexical semantic [] F_zero limit offset config"

section \<open>The comparator is a total order\<close>

definition rank_key :: "FusedHitScratch \<Rightarrow> ((int \<times> bool) \<times> int) \<times> string" where
  "rank_key h = (((- f64_total_key (rrf_score h), \<not> in_both_sources h),
     - f32_total_key (case_option F32_NEG_INFINITY id (lexical_score h))), doc_id h)"

interpretation ranking: total_comparator cmp_for_ranking rank_key
  by unfold_locales
    (simp add: cmp_for_ranking_def rank_key_def f64_total_cmp_def f32_total_cmp_def Let_def ord_cmp_uminus ord_cmp_not
      flip: ord_cmp_then)

lemma cmp_into_owned: "cmp_fused (into_owned a) (into_owned b) = cmp_for_ranking a b"
  by (simp add: cmp_fused_def cmp_for_ranking_def into_owned_def)

section \<open>What a source adds\<close>

text \<open>The rank at which a source has a document: its first one.\<close>

fun best_rank :: "('r \<Rightarrow> string) \<Rightarrow> 'r list \<Rightarrow> string \<Rightarrow> nat option" where
  "best_rank doc [] d = None"
| "best_rank doc (r # rs) d = (if doc r = d then Some 0 else map_option Suc (best_rank doc rs d))"

lemma best_rank_None: "best_rank doc rs d = None \<longleftrightarrow> d \<notin> doc ` set rs"
  by (induction rs) auto

lemma best_rank_Some: "best_rank doc rs d = Some i \<Longrightarrow> i < length rs \<and> doc (rs ! i) = d \<and> (\<forall>j < i. doc (rs ! j) \<noteq> d)"
proof (induction rs arbitrary: i)
  case (Cons r rs)
  show ?case
  proof (cases "doc r = d")
    case False
    then obtain j where "best_rank doc rs d = Some j" "i = Suc j" using Cons.prems by auto
    with Cons.IH False show ?thesis by (auto simp: less_Suc_eq_0_disj)
  qed (use Cons.prems in auto)
qed simp

text \<open>
  What the three scoring loops have in common: an element is passed over when its document has been
  seen in this source, and otherwise the entry of the document is made or extended.
\<close>

locale ranked_source =
  fixes step :: "nat \<Rightarrow> 'r \<Rightarrow> (string, 'h) hmap \<Rightarrow> (string, 'h) hmap" and doc :: "'r \<Rightarrow> string"
    and seen :: "'h \<Rightarrow> bool" and extend :: "nat \<Rightarrow> 'r \<Rightarrow> 'h option \<Rightarrow> 'h"
  assumes step: "step rank r hits =
      (case hget hits (doc r) of Some h \<Rightarrow> if seen h then hits else hinsert (doc r) (extend rank r (Some h)) hits
       | None \<Rightarrow> hinsert (doc r) (extend rank r None) hits)"
    and seen_extend: "seen (extend rank r h)"
begin

definition offered :: "nat \<Rightarrow> 'r list \<Rightarrow> string \<Rightarrow> 'h option \<Rightarrow> 'h option" where
  "offered n rs d h = (case best_rank doc rs d of
     None \<Rightarrow> h
   | Some i \<Rightarrow> (case h of Some h' \<Rightarrow> if seen h' then h else Some (extend (n + i) (rs ! i) h) | None \<Rightarrow> Some (extend (n + i) (rs ! i) None)))"

lemma hget_step: "hget (step rank r hits) d = (if doc r = d then offered rank [r] d (hget hits d) else hget hits d)"
  by (auto simp: step offered_def split: option.splits)

lemma hget_loop: "hget (fold (\<lambda>(rank, r). step rank r) (enumerate n rs) hits) d = offered n rs d (hget hits d)"
proof (induction rs arbitrary: n hits)
  case (Cons r rs)
  have "hget (fold (\<lambda>(rank, r). step rank r) (enumerate n (r # rs)) hits) d = offered (Suc n) rs d (hget (step n r hits) d)"
    by (simp add: Cons.IH)
  also have "\<dots> = offered n (r # rs) d (hget hits d)"
    by (auto simp: hget_step offered_def seen_extend split: option.splits)
  finally show ?case .
qed (simp add: offered_def)

lemma hget_for_ranked: "hget (for_ranked step rs hits) d = offered 0 rs d (hget hits d)"
  unfolding for_ranked_def by (rule hget_loop)

lemma step_distinct: "hdistinct hits \<Longrightarrow> hdistinct (step rank r hits)"
  by (auto simp: step split: option.splits)

lemma for_ranked_distinct: "hdistinct hits \<Longrightarrow> hdistinct (for_ranked step rs hits)"
proof -
  have "hdistinct hits \<Longrightarrow> hdistinct (fold (\<lambda>(rank, r). step rank r) xs hits)" for xs
    by (induction xs arbitrary: hits) (auto simp: step_distinct)
  then show "hdistinct hits \<Longrightarrow> hdistinct (for_ranked step rs hits)" by (simp add: for_ranked_def)
qed

end

text \<open>The entry of a document before any source: it adds nothing and is in no source.\<close>

definition blank :: "string \<Rightarrow> FusedHitScratch" where
  "blank d = \<lparr>doc_id = d, rrf_score = F_zero, lexical_rank = None, semantic_rank = None, semantic_index = None,
     graph_rank = None, lexical_score = None, semantic_score = None, graph_score = None, in_both_sources = False\<rparr>"

definition add_score :: "f64 \<Rightarrow> FusedHitScratch option \<Rightarrow> f64" where
  "add_score c h = (case h of Some h \<Rightarrow> f64_add (rrf_score h) c | None \<Rightarrow> c)"

definition entry_of :: "string \<Rightarrow> FusedHitScratch option \<Rightarrow> FusedHitScratch" where
  "entry_of d h = case_option (blank d) id h"

definition extend_lexical :: "f64 \<Rightarrow> nat \<Rightarrow> ('e, 'm) ScoredResult \<Rightarrow> FusedHitScratch option \<Rightarrow> FusedHitScratch" where
  "extend_lexical k rank r h = (entry_of (sr_doc_id r) h)\<lparr>rrf_score := add_score (rank_contribution k rank) h,
     lexical_rank := Some rank, lexical_score := Some (sr_score r)\<rparr>"

definition extend_semantic :: "f64 \<Rightarrow> nat \<Rightarrow> VectorHit \<Rightarrow> FusedHitScratch option \<Rightarrow> FusedHitScratch" where
  "extend_semantic k rank r h = (entry_of (vh_doc_id r) h)\<lparr>rrf_score := add_score (rank_contribution k rank) h,
     semantic_rank := Some rank, semantic_score := Some (vh_score r), semantic_index := Some (vh_index r)\<rparr>"

definition extend_graph :: "f64 \<Rightarrow> f64 \<Rightarrow> nat \<Rightarrow> ('e, 'm) ScoredResult \<Rightarrow> FusedHitScratch option \<Rightarrow> FusedHitScratch" where
  "extend_graph k w rank r h = (entry_of (sr_doc_id r) h)\<lparr>rrf_score := add_score (f64_mul (rank_contribution k rank) w) h,
     graph_rank := Some rank, graph_score := Some (sr_score r)\<rparr>"

lemmas extend_defs = entry_of_def add_score_def blank_def

interpretation lexical_source: ranked_source "score_lexical k" sr_doc_id "\<lambda>h. lexical_rank h \<noteq> None" "extend_lexical k" for k
  by unfold_locales (auto simp: score_lexical_def extend_lexical_def extend_defs split: option.splits)

interpretation semantic_source: ranked_source "score_semantic k" vh_doc_id "\<lambda>h. semantic_rank h \<noteq> None" "extend_semantic k" for k
  by unfold_locales (auto simp: score_semantic_def extend_semantic_def extend_defs split: option.splits)

interpretation graph_source: ranked_source "score_graph k w" sr_doc_id "\<lambda>h. graph_rank h \<noteq> None" "extend_graph k w" for k w
  by unfold_locales (auto simp: score_graph_def extend_graph_def extend_defs Let_def split: option.splits)

section \<open>The ranking without the optimisations\<close>

text \<open>
  The reference: a document of some source has the ranks at which the sources list it first, and its
  score is the sum of what these ranks contribute, in the order of the sources.
\<close>

fun add_option :: "f64 option \<Rightarrow> f64 option \<Rightarrow> f64 option" where
  "add_option None c = c"
| "add_option (Some a) None = Some a"
| "add_option (Some a) (Some b) = Some (f64_add a b)"

definition sum_scores :: "f64 option list \<Rightarrow> f64" where
  "sum_scores cs = case_option F_zero id (foldl add_option None cs)"

definition graph_used :: "f64 \<Rightarrow> 'r list \<Rightarrow> 'r list" where
  "graph_used graph_weight graph = (if f64_lt F_zero (sanitize_graph_weight graph_weight) then graph else [])"

definition fused_docs :: "('e, 'm) ScoredResult list \<Rightarrow> VectorHit list \<Rightarrow> ('e, 'm) ScoredResult list \<Rightarrow> f64 \<Rightarrow> string list" where
  "fused_docs lexical semantic graph graph_weight =
     remdups (map sr_doc_id lexical @ map vh_doc_id semantic @ map sr_doc_id (graph_used graph_weight graph))"

definition fused_score ::
  "('e, 'm) ScoredResult list \<Rightarrow> VectorHit list \<Rightarrow> ('e, 'm) ScoredResult list \<Rightarrow> f64 \<Rightarrow> RrfConfig \<Rightarrow> string \<Rightarrow> f64" where
  "fused_score lexical semantic graph graph_weight config d =
     (let c = rank_contribution (sanitize_rrf_k (rrf_k config)) in
      sum_scores [map_option c (best_rank sr_doc_id lexical d), map_option c (best_rank vh_doc_id semantic d),
        map_option (\<lambda>i. f64_mul (c i) (sanitize_graph_weight graph_weight)) (best_rank sr_doc_id (graph_used graph_weight graph) d)])"

definition fused_entry ::
  "('e, 'm) ScoredResult list \<Rightarrow> VectorHit list \<Rightarrow> ('e, 'm) ScoredResult list \<Rightarrow> f64 \<Rightarrow> RrfConfig \<Rightarrow> string \<Rightarrow> FusedHitScratch" where
  "fused_entry lexical semantic graph graph_weight config d =
     (let l = best_rank sr_doc_id lexical d; s = best_rank vh_doc_id semantic d;
          g = best_rank sr_doc_id (graph_used graph_weight graph) d
      in \<lparr>doc_id = d, rrf_score = fused_score lexical semantic graph graph_weight config d,
           lexical_rank = l, semantic_rank = s, semantic_index = map_option (\<lambda>i. vh_index (semantic ! i)) s, graph_rank = g,
           lexical_score = map_option (\<lambda>i. sr_score (lexical ! i)) l, semantic_score = map_option (\<lambda>i. vh_score (semantic ! i)) s,
           graph_score = map_option (\<lambda>i. sr_score (graph ! i)) g, in_both_sources = False\<rparr>)"

definition fused_ranking ::
  "('e, 'm) ScoredResult list \<Rightarrow> VectorHit list \<Rightarrow> ('e, 'm) ScoredResult list \<Rightarrow> f64 \<Rightarrow> RrfConfig \<Rightarrow> FusedHit list" where
  "fused_ranking lexical semantic graph graph_weight config =
     map into_owned (sort_key rank_key (map (\<lambda>d. mark_both (fused_entry lexical semantic graph graph_weight config d))
       (fused_docs lexical semantic graph graph_weight)))"

lemmas source_lookups = lexical_source.hget_for_ranked semantic_source.hget_for_ranked graph_source.hget_for_ranked
lemmas source_offers = lexical_source.offered_def semantic_source.offered_def graph_source.offered_def

lemma collect_hits_lookup:
  "hget (collect_hits lexical semantic graph w config) d =
     (if d \<in> set (fused_docs lexical semantic graph w) then Some (fused_entry lexical semantic graph w config d) else None)"
proof -
  have doc: "sr_doc_id (lexical ! i) = d" if "best_rank sr_doc_id lexical d = Some i" for i using best_rank_Some [OF that] by simp
  have doc': "vh_doc_id (semantic ! i) = d" if "best_rank vh_doc_id semantic d = Some i" for i using best_rank_Some [OF that] by simp
  have doc'': "sr_doc_id (graph ! i) = d" if "best_rank sr_doc_id graph d = Some i" for i using best_rank_Some [OF that] by simp
  have "d \<in> set (fused_docs lexical semantic graph w) \<longleftrightarrow> best_rank sr_doc_id lexical d \<noteq> None
      \<or> best_rank vh_doc_id semantic d \<noteq> None \<or> best_rank sr_doc_id (graph_used w graph) d \<noteq> None"
    by (simp only: best_rank_None) (auto simp: fused_docs_def)
  then show ?thesis
    using doc doc' doc''
    by (cases "best_rank sr_doc_id lexical d"; cases "best_rank vh_doc_id semantic d"; cases "best_rank sr_doc_id graph d")
      (auto simp: collect_hits_def Let_def source_lookups source_offers graph_used_def extend_lexical_def extend_semantic_def
        extend_graph_def extend_defs fused_entry_def fused_score_def sum_scores_def
        simp del: not_None_eq)
qed

lemma collect_hits_distinct: "hdistinct (collect_hits lexical semantic graph w config)"
  by (simp add: collect_hits_def Let_def lexical_source.for_ranked_distinct semantic_source.for_ranked_distinct
      graph_source.for_ranked_distinct)

text \<open>A map with distinct keys and its lookups determine the values that an iteration gives.\<close>

lemma mset_values:
  assumes "hdistinct m" "distinct ks" "\<And>k. hget m k = (if k \<in> set ks then Some (f k) else None)"
  shows "mset (map snd m) = mset (map f ks)"
proof -
  have "k \<in> set (map fst m) \<longleftrightarrow> k \<in> set ks" for k using hkeys_iff_hget [of k m] assms(3) [of k] by simp
  then have "set (map fst m) = set ks" by blast
  then have "mset (map fst m) = mset ks" using assms(1,2) set_eq_iff_mset_eq_distinct by blast
  moreover have "map snd m = map f (map fst m)" using assms(1,3) by (auto dest!: map_of_is_SomeI split: if_splits)
  ultimately show ?thesis by (metis mset_map)
qed

lemma collect_hits_values:
  "mset (map snd (collect_hits lexical semantic graph w config)) =
     mset (map (fused_entry lexical semantic graph w config) (fused_docs lexical semantic graph w))"
  by (rule mset_values [OF collect_hits_distinct _ collect_hits_lookup]) (simp add: fused_docs_def)

section \<open>Pages\<close>

lemma rank_key_doc: "rank_key a = rank_key b \<Longrightarrow> doc_id a = doc_id b"
  by (simp add: rank_key_def)

lemma fused_docs_length:
  "length (fused_docs lexical semantic graph w) \<le> length lexical + length semantic + length graph"
proof -
  have "length (fused_docs lexical semantic graph w)
      \<le> length (map sr_doc_id lexical @ map vh_doc_id semantic @ map sr_doc_id (graph_used w graph))"
    unfolding fused_docs_def by (rule length_remdups_leq)
  then show ?thesis by (simp add: graph_used_def split: if_splits)
qed

lemma page_of_window: "limit + offset \<le> window \<or> length xs \<le> window \<Longrightarrow> take limit (drop offset (take window xs)) = take limit (drop offset xs)"
  by (auto simp: drop_take min_def)

text \<open>
  C14: the pages are pages of one ranking: in whatever order the hash map is read and however the
  selection and the sort work, the result for a limit and an offset is that part of the sorted list of
  all documents, each once, with the ranks at which the sources list it first and the sum of their
  contributions.
\<close>

theorem page_of_fused_ranking:
  assumes "\<forall>m. mset (into_values m) = mset (map snd m)"
    and "selects cmp_for_ranking (select_nth cmp_for_ranking)" and "sorts cmp_for_ranking (sort_by cmp_for_ranking)"
    and "length lexical + length semantic + length graph \<le> USIZE_MAX"
  shows "rrf_fuse_with_graph into_values select_nth sort_by lexical semantic graph graph_weight limit offset config
    = take limit (drop offset (fused_ranking lexical semantic graph graph_weight config))"
proof (cases "sat_add limit offset = 0")
  case True
  then have "limit = 0" by (simp add: sat_add_def USIZE_MAX_def min_def split: if_splits)
  then show ?thesis using True by (simp add: rrf_fuse_with_graph_def)
next
  case False
  let ?w = "sat_add limit offset" and ?docs = "fused_docs lexical semantic graph graph_weight"
  let ?f = "\<lambda>d. mark_both (fused_entry lexical semantic graph graph_weight config d)"
  define xs where "xs = map mark_both (into_values (collect_hits lexical semantic graph graph_weight config))"
  have m: "mset xs = mset (map ?f ?docs)"
    using assms(1) collect_hits_values [of lexical semantic graph graph_weight config]
    by (simp add: xs_def flip: image_mset.compositionality [unfolded comp_def])
  have doc: "doc_id (?f d) = d" for d by (simp add: mark_both_def fused_entry_def Let_def)
  have inj: "inj_on rank_key (set xs)"
    using mset_eq_setD [OF m] by (auto simp: inj_on_def doc dest!: rank_key_doc)
  have "sort_key rank_key xs = sort_key rank_key (map ?f ?docs)"
    using sort_key_inj_key_eq [OF _ inj, of "sort_key rank_key (map ?f ?docs)"] m by simp
  moreover have "length xs \<le> USIZE_MAX"
    using mset_eq_length [OF m] fused_docs_length [of lexical semantic graph graph_weight] assms(4) by simp
  then have "limit + offset \<le> ?w \<or> length (sort_key rank_key xs) \<le> ?w" by (auto simp: sat_add_def min_def)
  note page = page_of_window [OF this]
  ultimately have "take limit (drop offset (top_window (select_nth cmp_for_ranking) (sort_by cmp_for_ranking) ?w xs))
      = take limit (drop offset (sort_key rank_key (map ?f ?docs)))"
    using ranking.top_window_sorted [OF assms(3,2) inj, of ?w] False page by simp
  then show ?thesis
    using False by (simp add: rrf_fuse_with_graph_def fused_ranking_def xs_def top_window_def Let_def take_map drop_map)
qed

section \<open>Scores\<close>

lemma positive_zero [simp]: "positive F_zero" "positive F_one"
  by (simp_all add: F_zero_def F_one_def)

lemma add_negative_zero: "positive y \<Longrightarrow> f64_add (F_Fin True 0 e) y = f64_add (F_Fin False 0 e) y"
  by (cases y) (auto simp: f64_add_def F_one_def F64_Arith.signed_def Let_def)

lemma of_nat_rounds: "rounds_to (real n) (f64_of_int (int n))"
  unfolding rounds_to_def f64_of_int_def by (intro exI [of _ n] exI [of _ 1]) simp

lemma one_le_not_zero: "positive x \<Longrightarrow> f64_le F_one x \<Longrightarrow> \<not> is_zero x"
  by (cases x) (auto simp: f64_le_positive intro: Nat.gr0I)

lemma positive_of_nat: "positive (f64_of_int (int n))"
  using of_nat_rounds rounds_to_positive by blast

text \<open>A constant that passes the check behaves as one with a positive sign: it may be a negative zero.\<close>

lemma sanitized_constant:
  assumes "f64_wf k"
  obtains k' where "positive k'" "rank_contribution (sanitize_rrf_k k) = rank_contribution k'"
proof (cases "positive (sanitize_rrf_k k)")
  case False
  have "positive DEFAULT_RRF_K" unfolding DEFAULT_RRF_K_def using of_nat_rounds [of 60] rounds_to_positive by simp
  with False assms obtain e where k: "sanitize_rrf_k k = F_Fin True 0 e" "e = -1074"
    by (cases k) (auto simp: sanitize_rrf_k_def F_zero_def split: if_splits)
  have "rank_contribution (sanitize_rrf_k k) = rank_contribution F_zero"
    by (simp add: rank_contribution_def k F_zero_def fun_eq_iff Let_def add_negative_zero [OF positive_of_nat])
  then show thesis by (rule that [OF positive_zero(1)])
qed (use that in blast)

lemma rank_contribution_antimono:
  assumes "positive k" "r \<le> r'"
  shows "f64_le (rank_contribution k r') (rank_contribution k r)" "positive (rank_contribution k r)"
proof -
  let ?d = "\<lambda>r. f64_add (f64_add k (f64_of_int (int (min r 4294967295)))) F_one"
  note n = positive_of_nat
  have "real (min r 4294967295) \<le> real (min r' 4294967295)" using assms(2) by simp
  then have le: "f64_le (?d r) (?d r')"
    using assms(1) n by (intro f64_add_mono rounds_to_mono [OF of_nat_rounds of_nat_rounds]) (simp_all add: f64_le_refl positive_add)
  have d: "positive (?d r)" "\<not> is_zero (?d r)" for r
    using one_le_not_zero [OF _ f64_add_ge'] assms(1) n by (simp_all add: positive_add)
  from f64_reciprocal_antimono [OF le d(1) d(1) d(2) d(2)]
  show "f64_le (rank_contribution k r') (rank_contribution k r)" "positive (rank_contribution k r)"
    by (simp_all add: rank_contribution_def Let_def)
qed

text \<open>The order of contributions that may be absent, and of ranks that may be.\<close>

definition contributes_less :: "f64 option \<Rightarrow> f64 option \<Rightarrow> bool" where
  "contributes_less a b \<longleftrightarrow> pred_option positive a \<and> pred_option positive b
     \<and> (case a of None \<Rightarrow> True | Some x \<Rightarrow> (case b of None \<Rightarrow> False | Some y \<Rightarrow> f64_le x y))"

definition no_worse :: "nat option \<Rightarrow> nat option \<Rightarrow> bool" where
  "no_worse r r' \<longleftrightarrow> (case r' of None \<Rightarrow> True | Some j \<Rightarrow> (case r of None \<Rightarrow> False | Some i \<Rightarrow> i \<le> j))"

lemma add_option_mono: "contributes_less a a' \<Longrightarrow> contributes_less b b' \<Longrightarrow> contributes_less (add_option a b) (add_option a' b')"
  by (cases a; cases b; cases a'; cases b')
    (auto simp: contributes_less_def positive_add f64_add_mono intro: f64_le_trans f64_add_ge f64_add_ge')

lemma sum_scores_mono:
  assumes "list_all2 contributes_less cs cs'"
  shows "f64_le (sum_scores cs) (sum_scores cs')" "positive (sum_scores cs)"
proof -
  have "contributes_less (foldl add_option a cs) (foldl add_option a' cs')" if "contributes_less a a'" for a a'
    using assms that by (induction arbitrary: a a' rule: list_all2_induct) (auto simp: add_option_mono)
  moreover have "contributes_less None None" by (simp add: contributes_less_def)
  ultimately have "contributes_less (foldl add_option None cs) (foldl add_option None cs')" by blast
  moreover have "f64_le F_zero x" if "positive x" for x using that by (cases x) (auto simp: F_zero_def le_pow2_def)
  ultimately show "f64_le (sum_scores cs) (sum_scores cs')" "positive (sum_scores cs)"
    by (auto simp: sum_scores_def contributes_less_def split: option.splits)
qed

lemma sanitized_weight:
  assumes "f64_wf w" "f64_lt F_zero (sanitize_graph_weight w)"
  shows "positive (sanitize_graph_weight w)" "is_finite (sanitize_graph_weight w)" "\<not> is_zero (sanitize_graph_weight w)"
proof -
  have "sanitize_graph_weight w = w" "is_finite w" "f64_lt F_zero w"
    using assms(2) by (auto simp: sanitize_graph_weight_def f64_lt_def split: if_splits)
  moreover from this have "0 < f64_val w" by (simp add: f64_lt_iff)
  ultimately show "positive (sanitize_graph_weight w)" "is_finite (sanitize_graph_weight w)" "\<not> is_zero (sanitize_graph_weight w)"
    using assms(1) by (cases w; simp add: zero_less_mult_iff split: if_splits)+
qed

lemma contributions_ordered:
  assumes "no_worse r r'" "\<And>i j. i \<le> j \<Longrightarrow> f64_le (c j) (c i) \<and> positive (c i)"
  shows "contributes_less (map_option c r') (map_option c r)"
  using assms by (cases r; cases r') (auto simp: no_worse_def contributes_less_def)

lemma fused_score_mono:
  assumes "f64_wf (rrf_k config)" "f64_wf w"
    and "no_worse (best_rank sr_doc_id lexical d) (best_rank sr_doc_id lexical d')"
    and "no_worse (best_rank vh_doc_id semantic d) (best_rank vh_doc_id semantic d')"
    and "no_worse (best_rank sr_doc_id (graph_used w graph) d) (best_rank sr_doc_id (graph_used w graph) d')"
  shows "f64_le (fused_score lexical semantic graph w config d') (fused_score lexical semantic graph w config d)"
    "positive (fused_score lexical semantic graph w config d')"
proof -
  obtain k where k: "positive k" "rank_contribution (sanitize_rrf_k (rrf_k config)) = rank_contribution k"
    using sanitized_constant [OF assms(1)] .
  let ?c = "rank_contribution k" and ?w = "sanitize_graph_weight w" and ?g = "graph_used w graph"
  have c: "f64_le (?c j) (?c i) \<and> positive (?c i)" if "i \<le> j" for i j using rank_contribution_antimono [OF k(1) that] by simp
  have "contributes_less (map_option (\<lambda>i. f64_mul (?c i) ?w) (best_rank sr_doc_id ?g d'))
      (map_option (\<lambda>i. f64_mul (?c i) ?w) (best_rank sr_doc_id ?g d))"
  proof (cases "f64_lt F_zero ?w")
    case True
    note w = sanitized_weight [OF assms(2) True]
    show ?thesis
      by (rule contributions_ordered [OF assms(5)]) (use c f64_mul_mono w in blast)
  qed (simp add: graph_used_def contributes_less_def)
  with contributions_ordered [OF assms(3) c] contributions_ordered [OF assms(4) c]
  have "list_all2 contributes_less
      [map_option ?c (best_rank sr_doc_id lexical d'), map_option ?c (best_rank vh_doc_id semantic d'),
        map_option (\<lambda>i. f64_mul (?c i) ?w) (best_rank sr_doc_id ?g d')]
      [map_option ?c (best_rank sr_doc_id lexical d), map_option ?c (best_rank vh_doc_id semantic d),
        map_option (\<lambda>i. f64_mul (?c i) ?w) (best_rank sr_doc_id ?g d)]" by simp
  from sum_scores_mono [OF this]
  show "f64_le (fused_score lexical semantic graph w config d') (fused_score lexical semantic graph w config d)"
    "positive (fused_score lexical semantic graph w config d')" by (simp_all add: fused_score_def k(2) Let_def)
qed

lemma no_worse_refl: "no_worse r r"
  by (simp add: no_worse_def split: option.splits)

lemmas fused_score_positive = fused_score_mono(2) [OF _ _ no_worse_refl no_worse_refl no_worse_refl]

lemma fused_ranking_score:
  "h \<in> set (fused_ranking lexical semantic graph w config) \<Longrightarrow> fh_rrf_score h = fused_score lexical semantic graph w config (fh_doc_id h)"
  by (auto simp: fused_ranking_def into_owned_def mark_both_def fused_entry_def Let_def)

text \<open>
  C21: the fusion respects the sources: a hit that no source ranks below another hit, where a source
  that does not list a document ranks it last, has a score at least as high, under all the rounding of
  the arithmetic and for every constant and weight.
\<close>

theorem better_ranks_score_no_less:
  assumes "f64_wf (rrf_k config)" "f64_wf w"
    and "h \<in> set (fused_ranking lexical semantic graph w config)" "h' \<in> set (fused_ranking lexical semantic graph w config)"
    and "no_worse (best_rank sr_doc_id lexical (fh_doc_id h)) (best_rank sr_doc_id lexical (fh_doc_id h'))"
    and "no_worse (best_rank vh_doc_id semantic (fh_doc_id h)) (best_rank vh_doc_id semantic (fh_doc_id h'))"
    and "no_worse (best_rank sr_doc_id (graph_used w graph) (fh_doc_id h)) (best_rank sr_doc_id (graph_used w graph) (fh_doc_id h'))"
  shows "f64_le (fh_rrf_score h') (fh_rrf_score h)"
  using fused_score_mono(1) [OF assms(1,2,5-7)] fused_ranking_score [OF assms(3)] fused_ranking_score [OF assms(4)] by simp

lemma sort_key_pairs: "sorted_wrt (\<lambda>a b. key a \<le> key b) (sort_key key xs)"
  using sorted_sort_key [of key xs] by (simp add: sorted_map)

text \<open>
  A ranking is in descending order of the scores as numbers, although the comparison is one of bit
  patterns, and hits of one score come first when both sources have them.
\<close>

theorem ranking_descends:
  assumes "f64_wf (rrf_k config)" "f64_wf w"
  shows "sorted_wrt (\<lambda>h h'. f64_le (fh_rrf_score h') (fh_rrf_score h)
      \<and> (fh_rrf_score h = fh_rrf_score h' \<longrightarrow> fh_in_both_sources h' \<longrightarrow> fh_in_both_sources h))
    (fused_ranking lexical semantic graph w config)"
proof -
  let ?xs = "sort_key rank_key (map (\<lambda>d. mark_both (fused_entry lexical semantic graph w config d)) (fused_docs lexical semantic graph w))"
  have "positive (rrf_score h)" if "h \<in> set ?xs" for h
    using that fused_score_positive [OF assms] by (auto simp: mark_both_def fused_entry_def Let_def)
  then have "f64_le (rrf_score h') (rrf_score h) \<and> (rrf_score h = rrf_score h' \<longrightarrow> in_both_sources h' \<longrightarrow> in_both_sources h)"
    if "h \<in> set ?xs" "h' \<in> set ?xs" "rank_key h \<le> rank_key h'" for h h'
    using that f64_total_key_le [of "rrf_score h'" "rrf_score h"] by (auto simp: rank_key_def less_eq_prod_simp less_prod_simp)
  then have "sorted_wrt (\<lambda>h h'. f64_le (rrf_score h') (rrf_score h)
      \<and> (rrf_score h = rrf_score h' \<longrightarrow> in_both_sources h' \<longrightarrow> in_both_sources h)) ?xs"
    by (rule sorted_wrt_mono_rel [OF _ sort_key_pairs [of rank_key]])
  then show ?thesis by (simp add: fused_ranking_def sorted_wrt_map into_owned_def)
qed

section \<open>A sample fusion\<close>

definition sample_result :: "string \<Rightarrow> (unit, unit) ScoredResult" where
  "sample_result d = \<lparr>sr_doc_id = d, sr_score = 0, sr_source = Lexical, sr_index = None, sr_fast_score = None,
     sr_quality_score = None, sr_lexical_score = None, sr_rerank_score = None, sr_explanation = None, sr_metadata = None\<rparr>"

definition sample_vector :: "string \<Rightarrow> VectorHit" where
  "sample_vector d = \<lparr>vh_index = 7, vh_score = 0, vh_doc_id = d\<rparr>"

theorem page_of_fused_ranking_witness:
  "rrf_fuse_with_graph (map snd) (\<lambda>_ _. sort_key rank_key) (\<lambda>_. sort_key rank_key) [sample_result ''a'', sample_result ''b'']
     [sample_vector ''b''] [] F_zero 1 1 default_rrf_config
   = take 1 (drop 1 (fused_ranking [sample_result ''a'', sample_result ''b''] [sample_vector ''b''] [] F_zero default_rrf_config))"
  by (rule page_of_fused_ranking) (simp_all add: sort_key_sorts sort_key_selects ranking.cmp_key USIZE_MAX_def)

lemma fused_ranking_docs: "fh_doc_id ` set (fused_ranking lexical semantic graph w config) = set (fused_docs lexical semantic graph w)"
  by (simp add: fused_ranking_def image_image into_owned_def mark_both_def fused_entry_def Let_def)

theorem better_ranks_score_no_less_witness:
  "let r = fused_ranking [sample_result ''a'', sample_result ''b''] [sample_vector ''a''] [] F_zero default_rrf_config
   in \<exists>h \<in> set r. \<exists>h' \<in> set r. fh_doc_id h = ''a'' \<and> fh_doc_id h' = ''b'' \<and> f64_le (fh_rrf_score h') (fh_rrf_score h)"
proof -
  define r where "r = fused_ranking [sample_result ''a'', sample_result ''b''] [sample_vector ''a''] [] F_zero default_rrf_config"
  have "''a'' \<in> fh_doc_id ` set r" "''b'' \<in> fh_doc_id ` set r"
    unfolding r_def fused_ranking_docs by (simp_all add: fused_docs_def sample_result_def)
  then obtain h h' where h: "h \<in> set r" "fh_doc_id h = ''a''" "h' \<in> set r" "fh_doc_id h' = ''b''" by (metis imageE)
  have "f64_wf (rrf_k default_rrf_config)" by (simp add: default_rrf_config_def DEFAULT_RRF_K_def f64_of_int_def f64_of_ratio_wf)
  then have "f64_le (fh_rrf_score h') (fh_rrf_score h)"
    by (rule better_ranks_score_no_less [OF _ _ h(1,3) [unfolded r_def]])
      (simp_all add: h no_worse_def sample_result_def sample_vector_def graph_used_def sanitize_graph_weight_def f64_lt_def)
  with h show ?thesis unfolding r_def Let_def by blast
qed

theorem ranking_descends_witness:
  "sorted_wrt (\<lambda>h h'. f64_le (fh_rrf_score h') (fh_rrf_score h)
      \<and> (fh_rrf_score h = fh_rrf_score h' \<longrightarrow> fh_in_both_sources h' \<longrightarrow> fh_in_both_sources h))
    (fused_ranking [sample_result ''a'', sample_result ''b''] [sample_vector ''a''] [] F_zero default_rrf_config)"
  by (rule ranking_descends)
    (simp_all add: default_rrf_config_def DEFAULT_RRF_K_def f64_of_int_def f64_of_ratio_wf)

end
