(* ===== verification/Fs_Ranks.thy ===== *)
theory Fs_Ranks
  imports Fs_Rrf
begin

text \<open>
  How two rankings of the same search differ (\<open>frankensearch-fusion/src/blend.rs\<close>): the numbers of
  promoted, demoted and stable documents, and Kendall's tau by counting inversions in a merge sort.
\<close>

record RankChanges =
  promoted :: nat
  demoted :: nat
  stable :: nat

definition or_insert_rank :: "nat \<Rightarrow> VectorHit \<Rightarrow> (string, nat) hmap \<Rightarrow> (string, nat) hmap" where
  "or_insert_rank rank hit ranks =
     (case hget ranks (vh_doc_id hit) of None \<Rightarrow> hinsert (vh_doc_id hit) rank ranks | Some _ \<Rightarrow> ranks)"

definition build_borrowed_rank_map :: "VectorHit list \<Rightarrow> (string, nat) hmap" where
  "build_borrowed_rank_map hits = for_ranked or_insert_rank hits []"

text \<open>One round of the loop over the old ranks, and one of the loop over the new documents.\<close>

definition count_change :: "(string, nat) hmap \<Rightarrow> string \<times> nat \<Rightarrow> RankChanges \<Rightarrow> RankChanges" where
  "count_change refined_rank entry c =
     (case hget refined_rank (fst entry) of
        Some new_rank \<Rightarrow>
          (case ord_cmp new_rank (snd entry) of
             Less \<Rightarrow> c\<lparr>promoted := promoted c + 1\<rparr>
           | Greater \<Rightarrow> c\<lparr>demoted := demoted c + 1\<rparr>
           | Equal \<Rightarrow> c\<lparr>stable := stable c + 1\<rparr>)
      | None \<Rightarrow> c\<lparr>demoted := demoted c + 1\<rparr>)"

definition count_new :: "(string, nat) hmap \<Rightarrow> string \<times> nat \<Rightarrow> RankChanges \<Rightarrow> RankChanges" where
  "count_new initial_rank entry c = (if hget initial_rank (fst entry) = None then c\<lparr>promoted := promoted c + 1\<rparr> else c)"

definition compute_rank_changes_with_maps :: "(string, nat) hmap \<Rightarrow> (string, nat) hmap \<Rightarrow> RankChanges" where
  "compute_rank_changes_with_maps initial_rank refined_rank =
     (let c = fold (count_change refined_rank) initial_rank \<lparr>promoted = 0, demoted = 0, stable = 0\<rparr>
      in fold (count_new initial_rank) refined_rank c)"

definition compute_rank_changes :: "VectorHit list \<Rightarrow> VectorHit list \<Rightarrow> RankChanges" where
  "compute_rank_changes initial refined =
     compute_rank_changes_with_maps (build_borrowed_rank_map initial) (build_borrowed_rank_map refined)"

text \<open>
  The merge: the two index variables are what is left of the halves, the scratch buffer is the first
  component of the result and the number of pairs taken out of order the second.
\<close>

fun merge_counting :: "nat list \<Rightarrow> nat list \<Rightarrow> nat \<Rightarrow> nat list \<times> nat" where
  "merge_counting (x # left) (y # right) swaps =
     (if x \<le> y then (let (out, swaps) = merge_counting left (y # right) swaps in (x # out, swaps))
      else (let swaps = sat_add swaps (length (x # left)); (out, swaps) = merge_counting (x # left) right swaps in (y # out, swaps)))"
| "merge_counting left [] swaps = (left, swaps)"
| "merge_counting [] right swaps = (right, swaps)"

function merge_sort_inversions :: "nat list \<Rightarrow> nat list \<times> nat" where
  "merge_sort_inversions arr =
     (if length arr \<le> 1 then (arr, 0)
      else
        let mid = length arr div 2;
            (left, swaps) = merge_sort_inversions (take mid arr);
            (right, swaps') = merge_sort_inversions (drop mid arr)
        in merge_counting left right (sat_add swaps swaps'))"
  by pat_completeness auto

termination merge_sort_inversions
  by (relation "measure length") auto

declare merge_sort_inversions.simps [simp del]

text \<open>The ranks of the documents both rankings have, in the order of the first one.\<close>

fun common_ranks :: "VectorHit list \<Rightarrow> (string, nat) hmap \<Rightarrow> string set \<Rightarrow> nat list" where
  "common_ranks [] refined_rank seen = []"
| "common_ranks (hit # hits) refined_rank seen =
     (case hget refined_rank (vh_doc_id hit) of
        Some rank \<Rightarrow>
          if vh_doc_id hit \<in> seen then common_ranks hits refined_rank seen
          else rank # common_ranks hits refined_rank (insert (vh_doc_id hit) seen)
      | None \<Rightarrow> common_ranks hits refined_rank seen)"

definition kendall_tau_with_refined_rank :: "VectorHit list \<Rightarrow> (string, nat) hmap \<Rightarrow> f64 option" where
  "kendall_tau_with_refined_rank initial refined_rank =
     (let refined_ranks = common_ranks initial refined_rank {}; n = length refined_ranks in
      if n < 2 then None
      else
        let (_, discordant) = merge_sort_inversions refined_ranks in
        if USIZE_MAX < n * (n - 1) then None
        else
          let total_pairs = n * (n - 1) div 2 in
          if total_pairs = 0 then None
          else
            let concordant = total_pairs - discordant;
                numerator = f64_sub (f64_of_int (int concordant)) (f64_of_int (int discordant));
                denominator = f64_of_int (int total_pairs)
            in Some (f64_div numerator denominator))"

definition kendall_tau :: "VectorHit list \<Rightarrow> VectorHit list \<Rightarrow> f64 option" where
  "kendall_tau initial refined = kendall_tau_with_refined_rank initial (build_borrowed_rank_map refined)"

section \<open>Rank maps\<close>

interpretation rank_map: ranked_source or_insert_rank vh_doc_id "\<lambda>_. True" "\<lambda>rank _ _. rank"
  by unfold_locales (auto simp: or_insert_rank_def split: option.splits)

lemma rank_map_lookup: "hget (build_borrowed_rank_map hits) d = best_rank vh_doc_id hits d"
  by (simp add: build_borrowed_rank_map_def rank_map.hget_for_ranked rank_map.offered_def split: option.splits)

lemma rank_map_distinct: "hdistinct (build_borrowed_rank_map hits)"
  by (simp add: build_borrowed_rank_map_def rank_map.for_ranked_distinct)

section \<open>Rank changes\<close>

definition improved :: "(string \<Rightarrow> nat option) \<Rightarrow> (string \<Rightarrow> nat option) \<Rightarrow> string set" where
  "improved old new = {d. case new d of None \<Rightarrow> False | Some j \<Rightarrow> (case old d of None \<Rightarrow> True | Some i \<Rightarrow> j < i)}"

definition unmoved :: "(string \<Rightarrow> nat option) \<Rightarrow> (string \<Rightarrow> nat option) \<Rightarrow> string set" where
  "unmoved old new = {d. old d \<noteq> None \<and> old d = new d}"

lemma hdistinct_filter_card: "hdistinct m \<Longrightarrow> length (filter P m) = card {k. \<exists>v. hget m k = Some v \<and> P (k, v)}"
proof -
  assume d: "hdistinct m"
  then have "distinct (map fst (filter P m))" by (simp add: distinct_map_filter)
  then have "length (filter P m) = card (fst ` set (filter P m))" using distinct_card by fastforce
  also have "fst ` set (filter P m) = {k. \<exists>v. hget m k = Some v \<and> P (k, v)}" using d by (force simp: map_of_eq_Some_iff)
  finally show ?thesis .
qed

lemma count_change_fold:
  "fold (count_change new) m c =
     \<lparr>promoted = promoted c + length (filter (\<lambda>(d, i). case new' d of Some j \<Rightarrow> j < i | None \<Rightarrow> False) m),
      demoted = demoted c + length (filter (\<lambda>(d, i). case new' d of Some j \<Rightarrow> i < j | None \<Rightarrow> True) m),
      stable = stable c + length (filter (\<lambda>(d, i). new' d = Some i) m)\<rparr>" if "hget new = new'"
  by (induction m arbitrary: c) (auto simp: count_change_def ord_cmp_def that split: option.splits)

lemma count_new_fold:
  "fold (count_new old) m c = c\<lparr>promoted := promoted c + length (filter (\<lambda>e. hget old (fst e) = None) m)\<rparr>"
  by (induction m arbitrary: c) (auto simp: count_new_def)

text \<open>
  The three counts are the sizes of three sets: the documents that have a smaller rank in the
  refined ranking or are new in it, those of which this holds the other way round, and those of the
  same rank. Exchanging the two rankings exchanges promotions and demotions.
\<close>

theorem rank_changes_counted:
  "compute_rank_changes initial refined =
     \<lparr>promoted = card (improved (best_rank vh_doc_id initial) (best_rank vh_doc_id refined)),
      demoted = card (improved (best_rank vh_doc_id refined) (best_rank vh_doc_id initial)),
      stable = card (unmoved (best_rank vh_doc_id initial) (best_rank vh_doc_id refined))\<rparr>"
proof -
  let ?old = "best_rank vh_doc_id initial" and ?new = "best_rank vh_doc_id refined"
  let ?m = "build_borrowed_rank_map initial" and ?n = "build_borrowed_rank_map refined"
  have look: "hget ?m = ?old" "hget ?n = ?new" by (simp_all add: fun_eq_iff rank_map_lookup)
  note f = hdistinct_filter_card [OF rank_map_distinct]
  have fin: "finite (dom ?old)" "finite (dom ?new)" using finite_dom_map_of [of ?m] finite_dom_map_of [of ?n] unfolding look .
  let ?up = "{d. \<exists>i. ?old d = Some i \<and> (case ?new d of Some j \<Rightarrow> j < i | None \<Rightarrow> False)}" and ?in = "{d. \<exists>j. ?new d = Some j \<and> ?old d = None}"
  have "improved ?old ?new = ?up \<union> ?in" by (auto simp: improved_def split: option.splits)
  moreover have "?up \<inter> ?in = {}" by auto
  moreover have "finite ?up" "finite ?in" by (auto intro: finite_subset [OF _ fin(1)] finite_subset [OF _ fin(2)])
  ultimately have "card (improved ?old ?new) = card ?up + card ?in" by (simp add: card_Un_disjoint)
  moreover have "{d. \<exists>i. ?old d = Some i \<and> (case ?new d of Some j \<Rightarrow> i < j | None \<Rightarrow> True)} = improved ?new ?old"
    by (auto simp: improved_def split: option.splits)
  moreover have "{d. \<exists>i. ?old d = Some i \<and> ?new d = Some i} = unmoved ?old ?new" by (auto simp: unmoved_def)
  ultimately show ?thesis
    by (simp add: compute_rank_changes_def compute_rank_changes_with_maps_def Let_def count_change_fold [OF look(2)]
        count_new_fold f look)
qed

section \<open>Inversions\<close>

text \<open>The reference: the pairs that are out of order, counted one by one.\<close>

fun inversions :: "nat list \<Rightarrow> nat" where
  "inversions [] = 0"
| "inversions (x # xs) = length (filter (\<lambda>y. y < x) xs) + inversions xs"

definition crossings :: "nat list \<Rightarrow> nat list \<Rightarrow> nat" where
  "crossings xs ys = sum_list (map (\<lambda>x. length (filter (\<lambda>y. y < x) ys)) xs)"

lemma inversions_append: "inversions (xs @ ys) = inversions xs + inversions ys + crossings xs ys"
  by (induction xs) (simp_all add: crossings_def)

lemma crossings_mset: "mset xs = mset xs' \<Longrightarrow> mset ys = mset ys' \<Longrightarrow> crossings xs ys = crossings xs' ys'"
proof -
  assume m: "mset xs = mset xs'" "mset ys = mset ys'"
  have "length (filter P ys) = length (filter P ys')" for P using m(2) by (metis mset_filter size_mset)
  moreover have "sum_list (map g xs) = sum_list (map g xs')" for g :: "nat \<Rightarrow> nat" using m(1) by (metis mset_map sum_mset_sum_list)
  ultimately show ?thesis by (simp add: crossings_def)
qed

lemma crossings_Cons_right: "crossings xs (y # ys) = length (filter (\<lambda>x. y < x) xs) + crossings xs ys"
  by (induction xs) (auto simp: crossings_def)

lemma merge_counting_sorted:
  assumes "sorted left" "sorted right" "c \<le> USIZE_MAX"
  shows "merge_counting left right c = (sort (left @ right), min (c + crossings left right) USIZE_MAX)"
  using assms
proof (induction left right c rule: merge_counting.induct)
  case (1 x left y right c)
  show ?case
  proof (cases "x \<le> y")
    case True
    then have "filter (\<lambda>z. z < x) (y # right) = []" using 1(4) by (auto simp: filter_empty_conv)
    then have "crossings (x # left) (y # right) = crossings left (y # right)" by (simp add: crossings_def)
    moreover have "sort (x # left @ y # right) = x # sort (left @ y # right)"
      using True 1(3,4) by (intro properties_for_sort) auto
    ultimately show ?thesis using 1(1) True 1(3-5) by (simp add: case_prod_beta)
  next
    case False
    have "filter (\<lambda>z. y < z) (x # left) = x # left" using False 1(3) by (auto simp: filter_id_conv)
    then have "crossings (x # left) (y # right) = length (x # left) + crossings (x # left) right" by (simp add: crossings_Cons_right)
    moreover have "sort (x # left @ y # right) = y # sort (x # left @ right)"
      using False 1(3,4) by (intro properties_for_sort) (auto simp: sorted_insort set_insort_key)
    ultimately show ?thesis using 1(2) [OF False refl] False 1(3-5) by (auto simp: case_prod_beta sat_add_def min_def)
  qed
qed (auto simp: crossings_def sorted_sort_id insort_is_Cons)

lemma merge_sort_inversions_eq:
  "merge_sort_inversions arr = (sort arr, min (inversions arr) USIZE_MAX)"
proof (induction arr rule: merge_sort_inversions.induct)
  case (1 arr)
  show ?case
  proof (cases "length arr \<le> 1")
    case True
    then show ?thesis by (cases arr) (simp_all add: merge_sort_inversions.simps)
  next
    case False
    let ?l = "take (length arr div 2) arr" and ?r = "drop (length arr div 2) arr"
    have "inversions arr = inversions ?l + inversions ?r + crossings (sort ?l) (sort ?r)"
      using inversions_append [of ?l ?r] crossings_mset [of ?l "sort ?l" ?r "sort ?r"] by simp
    moreover have "sort (sort ?l @ sort ?r) = sort arr" 
      by (metis append_take_drop_id mset_append mset_sort properties_for_sort sorted_sort)
    moreover have "merge_sort_inversions arr = merge_counting (sort ?l) (sort ?r)
        (sat_add (min (inversions ?l) USIZE_MAX) (min (inversions ?r) USIZE_MAX))"
      using 1 False by (subst merge_sort_inversions.simps) (simp add: Let_def)
    ultimately show ?thesis by (simp add: merge_counting_sorted sat_add_def min_def)
  qed
qed

lemma inversions_card: "inversions xs = card {(i, j). i < j \<and> j < length xs \<and> xs ! j < xs ! i}"
proof (induction xs)
  case (Cons x xs)
  let ?S = "{(i, j). i < j \<and> j < length xs \<and> xs ! j < xs ! i}" and ?F = "{j. j < length xs \<and> xs ! j < x}"
  have "(i, j) \<in> {(i, j). i < j \<and> j < length (x # xs) \<and> (x # xs) ! j < (x # xs) ! i}
      \<longleftrightarrow> (i, j) \<in> (\<lambda>j. (0, Suc j)) ` ?F \<union> map_prod Suc Suc ` ?S" for i j
    by (cases i; cases j) (auto simp: image_iff)
  then have "{(i, j). i < j \<and> j < length (x # xs) \<and> (x # xs) ! j < (x # xs) ! i} = (\<lambda>j. (0, Suc j)) ` ?F \<union> map_prod Suc Suc ` ?S"
    by (simp only: set_eq_iff split_paired_All) blast
  moreover have "(\<lambda>j. (0, Suc j)) ` ?F \<inter> map_prod Suc Suc ` ?S = {}" by auto
  moreover have "finite ?S" by (rule finite_subset [of _ "{..<length xs} \<times> {..<length xs}"]) auto
  moreover have "card ((\<lambda>j. (0 :: nat, Suc j)) ` ?F) = card ?F" by (rule card_image) (auto simp: inj_on_def)
  moreover have "card (map_prod Suc Suc ` ?S) = card ?S" by (rule card_image) (auto simp: inj_on_def)
  moreover have "card ?F = length (filter (\<lambda>y. y < x) xs)" by (simp add: length_filter_conv_card)
  ultimately show ?case using Cons by (simp add: card_Un_disjoint)
qed simp

text \<open>
  C28: the merge sort counts inversions: it leaves the sorted slice and returns the number of pairs of
  positions whose elements are out of order, up to the largest \<open>u64\<close>.
\<close>

theorem merge_sort_counts_inversions:
  "merge_sort_inversions arr =
     (sort arr, min (card {(i, j). i < j \<and> j < length arr \<and> arr ! j < arr ! i}) USIZE_MAX)"
  by (simp only: merge_sort_inversions_eq inversions_card)

section \<open>Kendall's tau\<close>

lemma inversions_le: "inversions xs \<le> length xs * (length xs - 1) div 2"
proof (induction xs)
  case (Cons x xs)
  have "2 * inversions xs \<le> length xs * (length xs - 1)" using Cons by linarith
  moreover have "length (filter (\<lambda>y. y < x) xs) \<le> length xs" by (rule length_filter_le)
  ultimately have "2 * inversions (x # xs) \<le> 2 * length xs + length xs * (length xs - 1)"
    unfolding inversions.simps add_mult_distrib2 by (intro add_mono) (simp_all only: mult_le_mono2)
  also have "\<dots> = length (x # xs) * (length (x # xs) - 1)" by (cases xs) (simp_all add: algebra_simps)
  finally show ?case by linarith
qed simp

lemma inversions_sorted: "sorted xs \<Longrightarrow> inversions xs = 0"
  by (induction xs) (auto simp: filter_empty_conv)

lemma inversions_descending: "sorted_wrt (>) xs \<Longrightarrow> 2 * inversions xs = length xs * (length xs - 1)"
proof (induction xs)
  case (Cons x xs)
  then have "filter (\<lambda>y. y < x) xs = xs" by (simp add: filter_id_conv)
  with Cons show ?case by (cases xs) (simp_all add: algebra_simps)
qed simp

lemma of_nat_f64:
  assumes "n \<le> USIZE_MAX"
  shows "is_finite (f64_of_int (int n))" "positive (f64_of_int (int n))" "0 \<le> f64_val (f64_of_int (int n))"
proof -
  have "f64_wf (F_Fin False (2 ^ 52) 12)" "real n / real 1 \<le> real (2 ^ 52) * p2 12"
    using assms by (simp_all add: USIZE_MAX_def)
  from f64_of_ratio_le(1) [OF _ this, of False] show "is_finite (f64_of_int (int n))" by (simp add: f64_of_int_def)
  show "positive (f64_of_int (int n))" by (rule positive_of_nat)
  then show "0 \<le> f64_val (f64_of_int (int n))" by (rule positive_val)
qed

lemma of_nat_mono:
  assumes "m \<le> n" "n \<le> USIZE_MAX"
  shows "f64_val (f64_of_int (int m)) \<le> f64_val (f64_of_int (int n))"
  using rounds_to_mono [OF of_nat_rounds of_nat_rounds, of m n] assms of_nat_f64 [of m] of_nat_f64 [of n] by (simp add: f64_le_iff)

lemma div_exact:
  assumes "is_finite x" "positive y" "is_finite y" "\<not> is_zero y"
  obtains s p q where "f64_div x y = f64_of_ratio s p q" "0 < q" "real p / real q = \<bar>f64_val x\<bar> / f64_val y"
    "f64_val x = sgn_of s * \<bar>f64_val x\<bar>"
proof -
  obtain s m e m' e' where xy: "x = F_Fin s m e" "y = F_Fin False m' e'" "0 < m'" using assms by (cases x; cases y) auto
  have d: "real (pow2 (e - e')) / real (pow2 (e' - e)) = p2 e / p2 e'"
    using ratio_pow2 [of 1 "e - e'"] by (simp add: powr_diff)
  have "real (m * pow2 (e - e')) / real (m' * pow2 (e' - e)) = real m / real m' * (real (pow2 (e - e')) / real (pow2 (e' - e)))" by simp
  also have "\<dots> = \<bar>f64_val x\<bar> / f64_val y" unfolding d by (simp add: xy abs_mult)
  finally show thesis
    by (intro that [of s "m * pow2 (e - e')" "m' * pow2 (e' - e)"]) (use xy in \<open>simp_all add: abs_mult\<close>)
qed

lemma of_ratio_one: "0 < q \<Longrightarrow> real p / real q = 1 \<Longrightarrow> f64_of_ratio s p q = F_Fin s (2 ^ 52) (-52)"
  by (rule f64_of_ratio_exact) (simp_all add: powr_minus powr_realpow flip: powr_numeral)

text \<open>The correlation of \<open>c\<close> concordant and \<open>d\<close> discordant pairs.\<close>

lemma of_nat_ge_one:
  assumes "0 < n" "n \<le> USIZE_MAX"
  shows "1 \<le> f64_val (f64_of_int (int n))" "\<not> is_zero (f64_of_int (int n))"
proof -
  have "f64_of_int (int 1) = F_one" using of_ratio_one [of 1 1 False] by (simp add: f64_of_int_def F_one_def)
  then show "1 \<le> f64_val (f64_of_int (int n))" using of_nat_mono [of 1 n] assms by simp
  then show "\<not> is_zero (f64_of_int (int n))" by (cases "f64_of_int (int n)") (auto intro: Nat.gr0I)
qed

lemma signed_abs: "sgn_of s * x = y \<Longrightarrow> 0 \<le> x \<Longrightarrow> x = \<bar>y\<bar>"
  by (cases s) auto

lemma correlation:
  assumes "c + d = t" "0 < t" "t \<le> USIZE_MAX"
  defines "tau \<equiv> f64_div (f64_sub (f64_of_int (int c)) (f64_of_int (int d))) (f64_of_int (int t))"
  shows "is_finite tau \<and> \<bar>f64_val tau\<bar> \<le> 1" "d = 0 \<Longrightarrow> tau = F_one" "c = 0 \<Longrightarrow> tau = f64_neg F_one"
proof -
  let ?C = "f64_of_int (int c)" and ?D = "f64_of_int (int d)" and ?T = "f64_of_int (int t)"
  have fin: "is_finite ?C" "is_finite ?D" "is_finite ?T" using of_nat_f64(1) assms by auto
  have le: "0 \<le> f64_val ?C" "0 \<le> f64_val ?D" "f64_val ?C \<le> f64_val ?T" "f64_val ?D \<le> f64_val ?T"
    using of_nat_f64(3) of_nat_mono assms by auto
  note T = of_nat_f64(2) [OF assms(3)] of_nat_ge_one [OF assms(2,3)]
  obtain m e where Tm: "?T = F_Fin False m e" "f64_wf (F_Fin False m e)" using fin(3) T(1) by (cases ?T) auto
  obtain s p q where N: "f64_sub ?C ?D = f64_of_ratio s p q" "0 < q" "sgn_of s * (real p / real q) = f64_val ?C - f64_val ?D"
    using f64_mul_add_exact [of ?C F_one "f64_neg ?D"] fin by (auto simp: f64_sub_def f64_add_def)
  have v: "real p / real q = \<bar>f64_val ?C - f64_val ?D\<bar>" using signed_abs [OF N(3)] by simp
  then have "real p / real q \<le> real m * p2 e" using le Tm by simp
  note n = f64_of_ratio_le [OF N(2) Tm(2) this, of s, folded N(1)]
  obtain s' p' q' where Q: "tau = f64_of_ratio s' p' q'" "0 < q'" "real p' / real q' = \<bar>f64_val (f64_sub ?C ?D)\<bar> / f64_val ?T"
      "f64_val (f64_sub ?C ?D) = sgn_of s' * \<bar>f64_val (f64_sub ?C ?D)\<bar>"
    unfolding tau_def using div_exact [OF n(1) T(1) fin(3) T(3)] .
  have one: "f64_wf (F_Fin False (2 ^ 52) (-52))" "real (2 ^ 52) * p2 (-52) = 1"
    by (simp_all add: powr_minus powr_realpow flip: powr_numeral)
  have "real p' / real q' \<le> 1" using n(2) T(2) Tm unfolding Q(3) by simp
  from f64_of_ratio_le [OF Q(2) one(1), unfolded one(2), OF this, of s', folded Q(1)]
  show "is_finite tau \<and> \<bar>f64_val tau\<bar> \<le> 1" by simp
  have ends: "tau = F_Fin (f64_val ?C < f64_val ?D) (2 ^ 52) (-52)" if "\<bar>f64_val ?C - f64_val ?D\<bar> = f64_val ?T"
  proof -
    have "real p / real q = real m * p2 e" using v that Tm by simp
    then have "f64_sub ?C ?D = F_Fin s m e" unfolding N(1) using Tm(2) N(2) by (intro f64_of_ratio_exact) simp_all
    then have sub: "f64_val (f64_sub ?C ?D) = f64_val ?C - f64_val ?D" using N(3) v that Tm by (auto split: if_splits)
    then have "real p' / real q' = 1" "s' \<longleftrightarrow> f64_val ?C < f64_val ?D" using that T(2) Q(3,4) by (auto split: if_splits)
    then show ?thesis using of_ratio_one Q(1,2) by simp
  qed
  have zero: "f64_val (f64_of_int (int 0)) = 0" by (simp add: f64_of_int_def f64_of_ratio_def)
  show "d = 0 \<Longrightarrow> tau = F_one" using ends zero assms(1) T(2) by (simp add: F_one_def)
  show "c = 0 \<Longrightarrow> tau = f64_neg F_one" using ends zero assms(1) T(2) by (simp add: F_one_def)
qed

text \<open>
  Kendall's tau is a correlation: it is a number between minus one and one under rounding, one when
  the rankings have their common documents in the same order and minus one when they have them in
  opposite orders.
\<close>

theorem kendall_tau_range:
  assumes "kendall_tau initial refined = Some tau"
  defines "ranks \<equiv> common_ranks initial (build_borrowed_rank_map refined) {}"
  shows "is_finite tau \<and> -1 \<le> f64_val tau \<and> f64_val tau \<le> 1
    \<and> (sorted ranks \<longrightarrow> tau = F_one) \<and> (sorted_wrt (>) ranks \<longrightarrow> tau = f64_neg F_one)"
proof -
  define t where "t = length ranks * (length ranks - 1) div 2"
  have n: "2 \<le> length ranks" "length ranks * (length ranks - 1) \<le> USIZE_MAX"
    using assms(1) by (auto simp: kendall_tau_def kendall_tau_with_refined_rank_def Let_def ranks_def split: if_splits prod.splits)
  have "length ranks * 1 \<le> length ranks * (length ranks - 1)" using n(1) by (intro mult_le_mono2) simp
  then have t: "0 < t" "t \<le> USIZE_MAX" using n unfolding t_def by linarith+
  have le: "inversions ranks \<le> t" unfolding t_def by (rule inversions_le)
  then have "tau = f64_div (f64_sub (f64_of_int (int (t - inversions ranks))) (f64_of_int (int (inversions ranks)))) (f64_of_int (int t))"
    using assms(1) n t min_absorb1 [OF order.trans [OF le t(2)]] unfolding t_def
    by (simp add: kendall_tau_def kendall_tau_with_refined_rank_def Let_def merge_sort_inversions_eq flip: ranks_def)
  moreover have "t - inversions ranks + inversions ranks = t" using le by simp
  ultimately have c: "is_finite tau \<and> \<bar>f64_val tau\<bar> \<le> 1" "inversions ranks = 0 \<Longrightarrow> tau = F_one"
      "t - inversions ranks = 0 \<Longrightarrow> tau = f64_neg F_one"
    using correlation [of "t - inversions ranks" "inversions ranks" t] t by blast+
  have "t - inversions ranks = 0" if "sorted_wrt (>) ranks" using inversions_descending [OF that] by (simp add: t_def)
  with c inversions_sorted [of ranks] show ?thesis by auto
qed

theorem kendall_tau_range_witness:
  "kendall_tau [sample_vector ''a'', sample_vector ''b''] [sample_vector ''b'', sample_vector ''a''] = Some (f64_neg F_one)"
proof -
  let ?r = "build_borrowed_rank_map [sample_vector ''b'', sample_vector ''a'']"
  have r: "common_ranks [sample_vector ''a'', sample_vector ''b''] ?r {} = [1, 0]"
    by (simp add: rank_map_lookup sample_vector_def)
  have "\<exists>tau. kendall_tau [sample_vector ''a'', sample_vector ''b''] [sample_vector ''b'', sample_vector ''a''] = Some tau"
    unfolding kendall_tau_def kendall_tau_with_refined_rank_def r by (simp add: merge_sort_inversions_eq USIZE_MAX_def Let_def)
  then obtain tau where t: "kendall_tau [sample_vector ''a'', sample_vector ''b''] [sample_vector ''b'', sample_vector ''a''] = Some tau" ..
  from kendall_tau_range [OF this] have "tau = f64_neg F_one" unfolding r by simp
  with t show ?thesis by simp
qed

end
