(* ===== verification/Fs_Bytes.thy ===== *)
theory Fs_Bytes
  imports Rust_Str Rust_Ord
begin

text \<open>
  What the two files of a vector index have in common (\<open>frankensearch-index/src/lib.rs\<close> and
  \<open>wal.rs\<close>): little-endian integers, slices, the FNV-1a hash of a document id, the quantization of
  vector elements, and the errors. A file is a list of bytes, and a document id is the bytes of its
  UTF-8 encoding.

  CRC-32 and the conversion between \<open>f32\<close> and \<open>f16\<close> come from the crates \<open>crc32fast\<close> and \<open>half\<close>;
  they are parameters wherever they are used, and nothing is assumed about them.
\<close>

section \<open>Little-endian integers\<close>

text \<open>\<open>to_le_bytes\<close> of an integer of \<open>k\<close> bytes, and \<open>from_le_bytes\<close>.\<close>

fun le_bytes :: "nat \<Rightarrow> nat \<Rightarrow> string" where
  "le_bytes 0 n = []"
| "le_bytes (Suc k) n = char_of n # le_bytes k (n div 256)"

fun le_val :: "string \<Rightarrow> nat" where
  "le_val [] = 0"
| "le_val (c # s) = byte c + 256 * le_val s"

lemma length_le_bytes [simp]: "length (le_bytes k n) = k"
  by (induction k arbitrary: n) simp_all

lemma le_val_bytes: "n < 256 ^ k \<Longrightarrow> le_val (le_bytes k n) = n"
proof (induction k arbitrary: n)
  case (Suc k)
  then have "n div 256 < 256 ^ k" by (simp add: div_less_iff_less_mult mult.commute)
  with Suc.IH show ?case by simp
qed simp

lemma le_val_less: "le_val s < 256 ^ length s"
proof (induction s)
  case (Cons c s)
  have "byte c < 256" by (rule nat_of_char_less_256)
  then have "byte c + 256 * le_val s < 256 * (le_val s + 1)" by simp
  also have "\<dots> \<le> 256 * 256 ^ length s" using Cons by (intro mult_le_mono2) simp
  finally show ?case by simp
qed simp

lemma le_bytes_val: "le_bytes (length s) (le_val s) = s"
proof (induction s)
  case (Cons c s)
  have "byte c < 256" by (rule nat_of_char_less_256)
  then have "(byte c + 256 * le_val s) div 256 = le_val s" by simp
  moreover have "char_of ((byte c + 256 * le_val s) mod 256) = c" by (simp del: char_of_mod_256)
  then have "char_of (byte c + 256 * le_val s) = c" unfolding char_of_mod_256 .
  ultimately show ?case using Cons by simp
qed simp

interpretation le_int: codec "le_bytes k" "\<lambda>s. Inr (le_val s)" "\<lambda>n. n < 256 ^ k" for k
  by unfold_locales (simp add: le_val_bytes)

section \<open>Slices\<close>

text \<open>\<open>&data[start..start + len]\<close>; every use is guarded by a check of the length.\<close>

definition slice :: "nat \<Rightarrow> nat \<Rightarrow> string \<Rightarrow> string" where
  "slice start len data = take len (drop start data)"

lemma length_slice: "start + len \<le> length data \<Longrightarrow> length (slice start len data) = len"
  by (simp add: slice_def)

lemma slice_append: "start + len \<le> length data \<Longrightarrow> slice start len (data @ rest) = slice start len data"
  by (simp add: slice_def)

lemma slice_prefix: "slice (length a) (length b) (a @ b @ c) = b"
  by (simp add: slice_def)

lemma slice_at: "data = a @ b @ c \<Longrightarrow> length a = n \<Longrightarrow> length b = k \<Longrightarrow> slice n k data = b"
  using slice_prefix by blast

section \<open>Hashes\<close>

fun fnv1a_from :: "64 word \<Rightarrow> string \<Rightarrow> 64 word" where
  "fnv1a_from hash [] = hash"
| "fnv1a_from hash (c # s) = fnv1a_from ((hash XOR of_nat (byte c)) * 0x100000001b3) s"

definition fnv1a_hash :: "string \<Rightarrow> 64 word" where
  "fnv1a_hash s = fnv1a_from 0xcbf29ce484222325 s"

section \<open>Vector elements\<close>

datatype Quantization = F32 | F16

text \<open>The byte that stands for it in a file.\<close>

definition quantization_byte :: "Quantization \<Rightarrow> nat" where
  "quantization_byte q = (case q of F32 \<Rightarrow> 0 | F16 \<Rightarrow> 1)"

definition bytes_per_element :: "Quantization \<Rightarrow> nat" where
  "bytes_per_element q = (case q of F32 \<Rightarrow> 4 | F16 \<Rightarrow> 2)"

text \<open>The conversions of the \<open>half\<close> crate.\<close>

record half_ops =
  from_f32 :: "f32 \<Rightarrow> 16 word"
  to_f32 :: "16 word \<Rightarrow> f32"

definition encode_element :: "half_ops \<Rightarrow> Quantization \<Rightarrow> f32 \<Rightarrow> string" where
  "encode_element h q v = (case q of F32 \<Rightarrow> le_bytes 4 (unat v) | F16 \<Rightarrow> le_bytes 2 (unat (from_f32 h v)))"

definition decode_element :: "half_ops \<Rightarrow> Quantization \<Rightarrow> string \<Rightarrow> f32" where
  "decode_element h q s = (case q of F32 \<Rightarrow> of_nat (le_val s) | F16 \<Rightarrow> to_f32 h (of_nat (le_val s)))"

text \<open>What a stored element reads as.\<close>

definition requantize :: "half_ops \<Rightarrow> Quantization \<Rightarrow> f32 \<Rightarrow> f32" where
  "requantize h q v = (case q of F32 \<Rightarrow> v | F16 \<Rightarrow> to_f32 h (from_f32 h v))"

definition encode_elements :: "half_ops \<Rightarrow> Quantization \<Rightarrow> f32 list \<Rightarrow> string" where
  "encode_elements h q vs = concat (map (encode_element h q) vs)"

text \<open>\<open>chunks_exact(n)\<close>: the last elements that do not fill a chunk are left out.\<close>

function chunks_exact :: "nat \<Rightarrow> 'a list \<Rightarrow> 'a list list" where
  "chunks_exact n xs = (if n = 0 \<or> length xs < n then [] else take n xs # chunks_exact n (drop n xs))"
  by pat_completeness auto

termination chunks_exact
  by (relation "measure (\<lambda>(n, xs). length xs)") auto

declare chunks_exact.simps [simp del]

lemma chunks_exact_append: "length x = n \<Longrightarrow> 0 < n \<Longrightarrow> chunks_exact n (x @ xs) = x # chunks_exact n xs"
  by (subst chunks_exact.simps) simp

lemma chunks_exact_concat: "\<forall>x \<in> set xss. length x = n \<Longrightarrow> 0 < n \<Longrightarrow> chunks_exact n (concat xss) = xss"
proof (induction xss)
  case Nil
  then show ?case by (subst chunks_exact.simps) simp
qed (simp add: chunks_exact_append)

lemma bytes_per_element_pos [simp]: "0 < bytes_per_element q"
  by (simp add: bytes_per_element_def split: Quantization.splits)

lemma length_encode_element [simp]: "length (encode_element h q v) = bytes_per_element q"
  by (simp add: encode_element_def bytes_per_element_def split: Quantization.splits)

lemma length_encode_elements [simp]: "length (encode_elements h q vs) = length vs * bytes_per_element q"
  by (induction vs) (simp_all add: encode_elements_def)

lemma decode_encode_element: "decode_element h q (encode_element h q v) = requantize h q v"
proof -
  have "unat v < 256 ^ 4" "unat (from_f32 h v) < 256 ^ 2" using unsigned_less [of v] unsigned_less [of "from_f32 h v"] by simp_all
  then show ?thesis
    by (simp add: decode_element_def encode_element_def requantize_def le_val_bytes split: Quantization.splits)
qed

lemma decode_encode_elements: "map (decode_element h q) (chunks_exact (bytes_per_element q) (encode_elements h q vs)) = map (requantize h q) vs"
  by (simp add: encode_elements_def chunks_exact_concat decode_encode_element)

section \<open>Errors\<close>

text \<open>What a corrupted file is reported for; the path of the file is the same in all of them.\<close>

datatype detail =
    BadMagic
  | WalVersion nat nat
  | WalDimension nat nat
  | UnsupportedQuantization nat
  | QuantizationMismatch
  | HeaderCrc
  | FieldTruncated string nat
  | InvalidUtf8 string
  | DimensionZero
  | RecordTableOverflow
  | VectorsInsideTables
  | VectorSlabOverflow
  | TruncatedFile nat nat
  | RecordBeyondFile
  | DocIdBeyondStrings
  | VectorBeyondFile
  | FlagsBeyondFile

datatype SearchError =
    IndexNotFound
  | IndexCorrupted detail
  | IndexVersionMismatch nat nat
  | DimensionMismatch nat nat
  | InvalidConfig string string string
  | SubsystemError string string

definition from_wire :: "nat \<Rightarrow> SearchError + Quantization" where
  "from_wire b = (if b = 0 then Ok F32 else if b = 1 then Ok F16 else Err (IndexCorrupted (UnsupportedQuantization b)))"

lemma from_wire_byte [simp]: "from_wire (quantization_byte q) = Ok q"
  by (simp add: from_wire_def quantization_byte_def split: Quantization.splits)

text \<open>The counter of compactions that ties a log to the file it extends.\<close>

definition next_generation :: "nat \<Rightarrow> nat" where
  "next_generation current = (if current = 255 then 1 else current + 1)"

end
