(* ===== verification/Fs_Wal.thy ===== *)
theory Fs_Wal
  imports Fs_Bytes "HOL-Library.Sublist"
begin

text \<open>
  The write-ahead log of a vector index (\<open>frankensearch-index/src/wal.rs\<close>): a header and batches of
  entries, each closed by a checksum. The file is an optional list of bytes. File operations
  succeed, except that a crash can cut off what is being written at any byte.
\<close>

section \<open>Constants and types\<close>

definition WAL_MAGIC :: string where "WAL_MAGIC = ''FWAL''"
definition WAL_VERSION :: nat where "WAL_VERSION = 1"
definition BATCH_MAGIC :: string where "BATCH_MAGIC = ''FWB1''"
definition WAL_HEADER_SIZE :: nat where "WAL_HEADER_SIZE = 20"

record WalConfig =
  compaction_threshold :: nat
  compaction_ratio :: f64
  fsync_on_write :: bool

definition default_wal_config :: WalConfig where
  "default_wal_config = \<lparr>compaction_threshold = 1000, compaction_ratio = f64_of_decimal False 10 (-2), fsync_on_write = True\<rparr>"

record WalEntry =
  we_doc_id :: string
  we_doc_id_hash :: "64 word"
  we_embedding :: "f32 list"

text \<open>Positions in the log are told from positions in the main file by the highest bit.\<close>

definition WAL_INDEX_BIT :: "64 word" where "WAL_INDEX_BIT = push_bit 63 1"

definition is_wal_index :: "64 word \<Rightarrow> bool" where "is_wal_index index \<longleftrightarrow> index AND WAL_INDEX_BIT \<noteq> 0"
definition to_wal_index :: "64 word \<Rightarrow> 64 word" where "to_wal_index wal_pos = wal_pos OR WAL_INDEX_BIT"
definition from_wal_index :: "64 word \<Rightarrow> 64 word" where "from_wal_index tagged = tagged AND NOT WAL_INDEX_BIT"

definition wal_path_for :: "string \<Rightarrow> string" where
  "wal_path_for fsvi_path = fsvi_path @ ''.wal''"

section \<open>Reading\<close>

definition decode_vector :: "half_ops \<Rightarrow> string \<Rightarrow> nat \<Rightarrow> Quantization \<Rightarrow> f32 list" where
  "decode_vector h bytes dimension q = map (decode_element h q) (take dimension (chunks_exact (bytes_per_element q) bytes))"

text \<open>The loop over the entries of a batch.\<close>

fun parse_entries :: "half_ops \<Rightarrow> nat \<Rightarrow> nat \<Rightarrow> Quantization \<Rightarrow> nat \<Rightarrow> string \<Rightarrow> nat \<Rightarrow> (WalEntry list \<times> nat) option" where
  "parse_entries h dimension vector_bytes q 0 data cursor = Some ([], cursor)"
| "parse_entries h dimension vector_bytes q (Suc n) data cursor =
     (if length data < cursor + 2 then None
      else
        let doc_id_len = le_val (slice cursor 2 data); cursor = cursor + 2; needed = doc_id_len + vector_bytes in
        if length data < cursor + needed then None
        else
          let doc_id = slice cursor doc_id_len data in
          if \<not> valid_utf8 doc_id then None
          else
            let cursor = cursor + doc_id_len;
                embedding = decode_vector h (slice cursor vector_bytes data) dimension q;
                entry = \<lparr>we_doc_id = doc_id, we_doc_id_hash = fnv1a_hash doc_id, we_embedding = embedding\<rparr>
            in map_option (\<lambda>(entries, cursor). (entry # entries, cursor))
                 (parse_entries h dimension vector_bytes q n data (cursor + vector_bytes)))"

definition parse_batch :: "(string \<Rightarrow> 32 word) \<Rightarrow> half_ops \<Rightarrow> string \<Rightarrow> nat \<Rightarrow> nat \<Rightarrow> Quantization \<Rightarrow> (WalEntry list \<times> nat) option" where
  "parse_batch crc32 h data dimension vector_bytes q =
     (if length data < 8 then None
      else if take 4 data \<noteq> BATCH_MAGIC then None
      else
        case parse_entries h dimension vector_bytes q (le_val (slice 4 4 data)) data 8 of
          None \<Rightarrow> None
        | Some (entries, cursor) \<Rightarrow>
            if length data < cursor + 4 then None
            else if le_val (slice cursor 4 data) \<noteq> unat (crc32 (take cursor data)) then None
            else Some (entries, cursor + 4))"

lemma parse_entries_cursor: "parse_entries h d vb q n data cursor = Some (es, c) \<Longrightarrow> cursor \<le> c"
  by (induction n arbitrary: cursor es) (fastforce simp: Let_def split: if_splits)+

lemma parse_batch_length: "parse_batch crc32 h data d vb q = Some (es, n) \<Longrightarrow> 12 \<le> n \<and> n \<le> length data"
  by (auto simp: parse_batch_def dest!: parse_entries_cursor split: if_splits option.splits)

function parse_batches :: "(string \<Rightarrow> 32 word) \<Rightarrow> half_ops \<Rightarrow> string \<Rightarrow> nat \<Rightarrow> nat \<Rightarrow> Quantization \<Rightarrow> nat \<Rightarrow> WalEntry list \<times> nat" where
  "parse_batches crc32 h data dimension vector_bytes q cursor =
     (if cursor + 8 \<le> length data then
        (case parse_batch crc32 h (drop cursor data) dimension vector_bytes q of
           Some (batch_entries, batch_len) \<Rightarrow>
             (let (entries, cursor) = parse_batches crc32 h data dimension vector_bytes q (cursor + batch_len)
              in (batch_entries @ entries, cursor))
         | None \<Rightarrow> ([], cursor))
      else ([], cursor))"
  by pat_completeness auto

termination parse_batches
  by (relation "measure (\<lambda>(_, _, data, _, _, _, cursor). length data - cursor)") (auto dest: parse_batch_length)

declare parse_batches.simps [simp del]

definition parse_wal_bytes ::
  "(string \<Rightarrow> 32 word) \<Rightarrow> half_ops \<Rightarrow> string \<Rightarrow> nat \<Rightarrow> Quantization \<Rightarrow> SearchError + (WalEntry list \<times> nat \<times> nat)" where
  "parse_wal_bytes crc32 h data expected_dimension q =
     (let version = le_val (slice 4 2 data); dimension = le_val (slice 6 4 data) in
      if take 4 data \<noteq> WAL_MAGIC then Err (IndexCorrupted BadMagic)
      else if version \<noteq> WAL_VERSION then Err (IndexCorrupted (WalVersion WAL_VERSION version))
      else if dimension \<noteq> expected_dimension then Err (IndexCorrupted (WalDimension expected_dimension dimension))
      else
        and_then (from_wire (byte (data ! 10))) (\<lambda>wal_quant.
          if wal_quant \<noteq> q then Err (IndexCorrupted QuantizationMismatch)
          else
            let compaction_gen = byte (data ! 11) in
            if le_val (slice 16 4 data) \<noteq> unat (crc32 (take 16 data)) then Err (IndexCorrupted HeaderCrc)
            else
              let (entries, cursor) = parse_batches crc32 h data dimension (dimension * bytes_per_element q) q WAL_HEADER_SIZE
              in Ok (entries, compaction_gen, cursor)))"

definition read_wal ::
  "(string \<Rightarrow> 32 word) \<Rightarrow> half_ops \<Rightarrow> string option \<Rightarrow> nat \<Rightarrow> Quantization \<Rightarrow> SearchError + (WalEntry list \<times> nat \<times> nat)" where
  "read_wal crc32 h file expected_dimension q =
     (case file of
        None \<Rightarrow> Ok ([], 0, 0)
      | Some data \<Rightarrow>
          if length data < WAL_HEADER_SIZE then Ok ([], 0, 0) else parse_wal_bytes crc32 h data expected_dimension q)"

section \<open>Writing\<close>

definition wal_entry_count :: "nat \<Rightarrow> SearchError + nat" where
  "wal_entry_count n =
     (if n < 2 ^ 32 then Ok n
      else Err (InvalidConfig ''wal_batch_entries'' (show_nat n) ''WAL batch entry count exceeds u32 maximum''))"

definition wal_doc_id_len :: "nat \<Rightarrow> SearchError + nat" where
  "wal_doc_id_len n =
     (if n < 65536 then Ok n
      else Err (InvalidConfig ''doc_id_length'' (show_nat n)
             (''document ID length '' @ show_nat n @ '' exceeds WAL u16 limit (65535 bytes)'')))"

definition wal_dimension :: "nat \<Rightarrow> SearchError + nat" where
  "wal_dimension n =
     (if n < 2 ^ 32 then Ok n
      else Err (InvalidConfig ''dimension'' (show_nat n) ''vector dimension exceeds u32 maximum for WAL header''))"

definition wal_header :: "(string \<Rightarrow> 32 word) \<Rightarrow> nat \<Rightarrow> Quantization \<Rightarrow> nat \<Rightarrow> SearchError + string" where
  "wal_header crc32 dimension q compaction_gen =
     and_then (wal_dimension dimension) (\<lambda>dim.
       let header = WAL_MAGIC @ le_bytes 2 WAL_VERSION @ le_bytes 4 dim @ [char_of (quantization_byte q)]
             @ [char_of compaction_gen] @ replicate 4 (CHR 0x00)
       in Ok (header @ le_bytes 4 (unat (crc32 header))))"

definition encode_entry :: "half_ops \<Rightarrow> Quantization \<Rightarrow> WalEntry \<Rightarrow> SearchError + string" where
  "encode_entry h q entry =
     and_then (wal_doc_id_len (length (we_doc_id entry))) (\<lambda>doc_id_len.
       Ok (le_bytes 2 doc_id_len @ we_doc_id entry @ encode_elements h q (we_embedding entry)))"

definition encode_batch :: "(string \<Rightarrow> 32 word) \<Rightarrow> half_ops \<Rightarrow> Quantization \<Rightarrow> WalEntry list \<Rightarrow> SearchError + string" where
  "encode_batch crc32 h q entries =
     and_then (wal_entry_count (length entries)) (\<lambda>entry_count.
     and_then (try_map (encode_entry h q) entries) (\<lambda>parts.
       let batch = BATCH_MAGIC @ le_bytes 4 entry_count @ concat parts
       in Ok (batch @ le_bytes 4 (unat (crc32 batch)))))"

text \<open>
  The file that an append extends: a new one, and one that is shorter than a header, begin with a
  header; a header that cannot be written leaves an empty file.
\<close>

definition open_for_append ::
  "(string \<Rightarrow> 32 word) \<Rightarrow> nat \<Rightarrow> Quantization \<Rightarrow> nat \<Rightarrow> string option \<Rightarrow> SearchError + string" where
  "open_for_append crc32 dimension q compaction_gen file =
     (case file of
        None \<Rightarrow> wal_header crc32 dimension q compaction_gen
      | Some data \<Rightarrow> if length data < WAL_HEADER_SIZE then wal_header crc32 dimension q compaction_gen else Ok data)"

definition append_wal_batch ::
  "(string \<Rightarrow> 32 word) \<Rightarrow> half_ops \<Rightarrow> string option \<Rightarrow> WalEntry list \<Rightarrow> nat \<Rightarrow> Quantization \<Rightarrow> nat
   \<Rightarrow> (SearchError + unit) \<times> string option" where
  "append_wal_batch crc32 h file entries dimension q compaction_gen =
     (case open_for_append crc32 dimension q compaction_gen file of
        Inl e \<Rightarrow> (Err e, Some [])
      | Inr data \<Rightarrow>
          (case encode_batch crc32 h q entries of
             Inl e \<Rightarrow> (Err e, Some data)
           | Inr batch \<Rightarrow> (Ok (), Some (data @ batch))))"

definition remove_wal :: "string option \<Rightarrow> string option" where
  "remove_wal file = None"

section \<open>Loading\<close>

text \<open>
  What opening an index does with the log next to it (\<open>VectorIndex::open\<close>): a log of another generation
  is dropped, and a trailer that does not parse is cut off.
\<close>

definition load_wal ::
  "(string \<Rightarrow> 32 word) \<Rightarrow> half_ops \<Rightarrow> nat \<Rightarrow> Quantization \<Rightarrow> nat \<Rightarrow> string option \<Rightarrow> SearchError + (WalEntry list \<times> string option)" where
  "load_wal crc32 h dimension q compaction_gen file =
     and_then (read_wal crc32 h file dimension q) (\<lambda>(wal_entries, wal_compaction_gen, valid_len).
       let is_stale =
             (if 0 < valid_len then
                (if wal_compaction_gen = 0 then 0 < compaction_gen else wal_compaction_gen \<noteq> next_generation compaction_gen)
              else False)
       in if is_stale then Ok ([], None)
          else Ok (wal_entries, map_option (\<lambda>data. if valid_len < length data then take valid_len data else data) file))"

section \<open>A parser does not look past what it takes\<close>

lemma parse_entries_append:
  "parse_entries h d vb q n data cursor = Some (es, c) \<Longrightarrow> cursor \<le> length data \<Longrightarrow>
     parse_entries h d vb q n (data @ rest) cursor = Some (es, c) \<and> c \<le> length data"
proof (induction n arbitrary: cursor es)
  case (Suc n)
  let ?len = "le_val (slice cursor 2 data)"
  have 1: "cursor + 2 \<le> length data" "cursor + 2 + ?len + vb \<le> length data" "valid_utf8 (slice (cursor + 2) ?len data)"
    using Suc.prems(1) by (auto simp: Let_def split: if_splits)
  obtain es' where 2: "parse_entries h d vb q n data (cursor + 2 + ?len + vb) = Some (es', c)"
      "es = \<lparr>we_doc_id = slice (cursor + 2) ?len data, we_doc_id_hash = fnv1a_hash (slice (cursor + 2) ?len data),
         we_embedding = decode_vector h (slice (cursor + 2 + ?len) vb data) d q\<rparr> # es'"
    using Suc.prems(1) 1 by (auto simp: Let_def ac_simps)
  then show ?case using Suc.IH [OF 2(1) 1(2)] 1 by (simp add: Let_def slice_append ac_simps)
qed auto

lemma parse_batch_append:
  assumes "parse_batch crc32 h data d vb q = Some (es, n)"
  shows "parse_batch crc32 h (data @ rest) d vb q = Some (es, n)"
proof -
  have 8: "8 \<le> length data" "take 4 data = BATCH_MAGIC" using assms by (auto simp: parse_batch_def split: if_splits)
  obtain c where c: "parse_entries h d vb q (le_val (slice 4 4 data)) data 8 = Some (es, c)" "n = c + 4" "c + 4 \<le> length data"
      "le_val (slice c 4 data) = unat (crc32 (take c data))"
    using assms 8 by (auto simp: parse_batch_def split: if_splits option.splits)
  from parse_entries_append [OF c(1) 8(1)] c 8 show ?thesis by (simp add: parse_batch_def slice_append)
qed

text \<open>A cut batch is no batch: what is missing is needed.\<close>

lemma parse_batch_cut:
  assumes "parse_batch crc32 h data d vb q = Some (es, length data)" "strict_prefix p data"
  shows "parse_batch crc32 h p d vb q = None"
proof (rule ccontr)
  assume "parse_batch crc32 h p d vb q \<noteq> None"
  then obtain es' n where p: "parse_batch crc32 h p d vb q = Some (es', n)" by auto
  obtain rest where "data = p @ rest" "rest \<noteq> []" using assms(2) by (auto elim: strict_prefixE' simp: strict_prefix_def prefix_def)
  then have "n = length data" using parse_batch_append [OF p, of rest] assms(1) by simp
  with parse_batch_length [OF p] prefix_length_less [OF assms(2)] show False by simp
qed

section \<open>Round trip\<close>

definition entry_ok :: "nat \<Rightarrow> WalEntry \<Rightarrow> bool" where
  "entry_ok d e \<longleftrightarrow> valid_utf8 (we_doc_id e) \<and> length (we_doc_id e) < 65536 \<and> length (we_embedding e) = d"

definition batch_ok :: "nat \<Rightarrow> WalEntry list \<Rightarrow> bool" where
  "batch_ok d es \<longleftrightarrow> length es < 2 ^ 32 \<and> list_all (entry_ok d) es"

text \<open>An entry as it is read back: the elements have gone through the quantization.\<close>

definition stored :: "half_ops \<Rightarrow> Quantization \<Rightarrow> WalEntry \<Rightarrow> WalEntry" where
  "stored h q e = \<lparr>we_doc_id = we_doc_id e, we_doc_id_hash = fnv1a_hash (we_doc_id e), we_embedding = map (requantize h q) (we_embedding e)\<rparr>"

definition entry_bytes :: "half_ops \<Rightarrow> Quantization \<Rightarrow> WalEntry \<Rightarrow> string" where
  "entry_bytes h q e = le_bytes 2 (length (we_doc_id e)) @ we_doc_id e @ encode_elements h q (we_embedding e)"

definition batch_body :: "half_ops \<Rightarrow> Quantization \<Rightarrow> WalEntry list \<Rightarrow> string" where
  "batch_body h q es = BATCH_MAGIC @ le_bytes 4 (length es) @ concat (map (entry_bytes h q) es)"

definition batch_bytes :: "(string \<Rightarrow> 32 word) \<Rightarrow> half_ops \<Rightarrow> Quantization \<Rightarrow> WalEntry list \<Rightarrow> string" where
  "batch_bytes crc32 h q es = batch_body h q es @ le_bytes 4 (unat (crc32 (batch_body h q es)))"

lemma encode_batch_ok: "batch_ok d es \<Longrightarrow> encode_batch crc32 h q es = Ok (batch_bytes crc32 h q es)"
proof -
  assume ok: "batch_ok d es"
  then have "list_all (entry_ok d) es" by (simp add: batch_ok_def)
  then have "try_map (encode_entry h q) es = Inr (map (entry_bytes h q) es)"
    by (induction es) (auto simp: encode_entry_def entry_bytes_def wal_doc_id_len_def entry_ok_def)
  with ok show ?thesis by (simp add: encode_batch_def wal_entry_count_def batch_ok_def batch_bytes_def batch_body_def Let_def)
qed

lemma decode_vector_encode:
  "length vs = d \<Longrightarrow> decode_vector h (encode_elements h q vs) d q = map (requantize h q) vs"
proof -
  assume d: "length vs = d"
  have "length (chunks_exact (bytes_per_element q) (encode_elements h q vs)) = d"
    using arg_cong [OF decode_encode_elements [of h q vs], of length] d by simp
  then show ?thesis by (simp add: decode_vector_def decode_encode_elements)
qed

lemma parse_entries_encoded:
  assumes "list_all (entry_ok d) es"
  shows "parse_entries h d (d * bytes_per_element q) q (length es) (pre @ concat (map (entry_bytes h q) es) @ post) (length pre)
    = Some (map (stored h q) es, length (pre @ concat (map (entry_bytes h q) es)))"
  using assms
proof (induction es arbitrary: pre)
  case (Cons e es)
  let ?n = "length (we_doc_id e)" and ?v = "encode_elements h q (we_embedding e)" and ?rest = "concat (map (entry_bytes h q) es) @ post"
  let ?data = "pre @ le_bytes 2 ?n @ we_doc_id e @ ?v @ ?rest"
  have ok: "valid_utf8 (we_doc_id e)" "?n < 256 ^ 2" "length (we_embedding e) = d" using Cons.prems by (simp_all add: entry_ok_def)
  have s1: "slice (length pre) 2 ?data = le_bytes 2 ?n" using slice_prefix [of pre "le_bytes 2 ?n"] by simp
  have s2: "slice (length pre + 2) ?n ?data = we_doc_id e" using slice_prefix [of "pre @ le_bytes 2 ?n" "we_doc_id e"] by simp
  have s3: "slice (length pre + 2 + ?n) (d * bytes_per_element q) ?data = ?v"
    using slice_prefix [of "pre @ le_bytes 2 ?n @ we_doc_id e" ?v] ok(3) by (simp add: ac_simps)
  have IH: "parse_entries h d (d * bytes_per_element q) q (length es) ?data (length pre + 2 + ?n + d * bytes_per_element q)
      = Some (map (stored h q) es, length (pre @ entry_bytes h q e) + length (concat (map (entry_bytes h q) es)))"
    using Cons.IH [of "pre @ entry_bytes h q e"] Cons.prems ok(3) by (simp add: entry_bytes_def [of h q e] ac_simps)
  have le: "le_val (le_bytes 2 ?n) = ?n" using ok(2) by (rule le_val_bytes)
  have data: "pre @ concat (map (entry_bytes h q) (e # es)) @ post = ?data" by (simp add: entry_bytes_def [of h q e])
  have "length ?data \<ge> length pre + 2 + ?n + d * bytes_per_element q" using ok(3) by simp
  then show ?case
    unfolding data using IH ok(1,3) s1 s2 s3 le
    by (simp add: Let_def stored_def [of h q e] entry_bytes_def [of h q e] decode_vector_encode del: append_assoc)
qed simp

lemma length_batch_bytes: "8 \<le> length (batch_bytes crc32 h q es)"
  by (simp add: batch_bytes_def batch_body_def BATCH_MAGIC_def)

lemma unat_crc: "unat (c :: 32 word) < 256 ^ 4"
  using unsigned_less [of c] by simp

lemma parse_batch_encoded:
  assumes "batch_ok d es"
  shows "parse_batch crc32 h (batch_bytes crc32 h q es @ rest) d (d * bytes_per_element q) q
    = Some (map (stored h q) es, length (batch_bytes crc32 h q es))"
proof -
  let ?b = "batch_body h q es" and ?n = "le_bytes 4 (length es)" and ?parts = "concat (map (entry_bytes h q) es)"
  let ?crc = "le_bytes 4 (unat (crc32 ?b))"
  have m: "length BATCH_MAGIC = 4" by (simp add: BATCH_MAGIC_def)
  have n: "le_val ?n = length es" using assms by (intro le_val_bytes) (simp add: batch_ok_def)
  have c: "le_val ?crc = unat (crc32 ?b)" by (rule le_val_bytes [OF unat_crc])
  have data: "batch_bytes crc32 h q es @ rest = (BATCH_MAGIC @ ?n) @ ?parts @ ?crc @ rest"
    by (simp add: batch_bytes_def batch_body_def)
  have e: "parse_entries h d (d * bytes_per_element q) q (length es) (batch_bytes crc32 h q es @ rest) 8
      = Some (map (stored h q) es, length ?b)"
    using parse_entries_encoded [of d es h q "BATCH_MAGIC @ ?n" "?crc @ rest"] assms m unfolding data
    by (simp add: batch_ok_def batch_body_def)
  have "slice 4 4 (batch_bytes crc32 h q es @ rest) = ?n"
    using slice_prefix [of BATCH_MAGIC ?n] m unfolding data by simp
  moreover have "slice (length ?b) 4 (batch_bytes crc32 h q es @ rest) = ?crc"
    using slice_prefix [of ?b ?crc] by (simp add: batch_bytes_def)
  moreover have "take 4 (batch_bytes crc32 h q es @ rest) = BATCH_MAGIC" using m unfolding data by simp
  moreover have "take (length ?b) (batch_bytes crc32 h q es @ rest) = ?b" by (simp add: batch_bytes_def)
  moreover have "length ?b + 4 \<le> length (batch_bytes crc32 h q es @ rest)" by (simp add: batch_bytes_def)
  ultimately show ?thesis using e n c length_batch_bytes [of crc32 h q es] by (simp add: parse_batch_def batch_bytes_def)
qed

text \<open>The batches of a file, followed by nothing or by a batch that was cut.\<close>

lemma parse_batches_encoded:
  assumes "list_all (batch_ok d) bs" "batch_ok d es" "strict_prefix p (batch_bytes crc32 h q es)"
  shows "parse_batches crc32 h (pre @ concat (map (batch_bytes crc32 h q) bs) @ p) d (d * bytes_per_element q) q (length pre)
    = (concat (map (map (stored h q)) bs), length (pre @ concat (map (batch_bytes crc32 h q) bs)))"
  using assms(1)
proof (induction bs arbitrary: pre)
  case Nil
  have "parse_batch crc32 h p d (d * bytes_per_element q) q = None"
    using parse_batch_cut [OF _ assms(3)] parse_batch_encoded [OF assms(2), of crc32 h q "[]"] by simp
  then show ?case by (subst parse_batches.simps) simp
next
  case (Cons b bs)
  let ?rest = "concat (map (batch_bytes crc32 h q) bs) @ p"
  have "parse_batch crc32 h (batch_bytes crc32 h q b @ ?rest) d (d * bytes_per_element q) q = Some (map (stored h q) b, length (batch_bytes crc32 h q b))"
    using parse_batch_encoded Cons.prems by simp
  with Cons.IH [of "pre @ batch_bytes crc32 h q b"] Cons.prems length_batch_bytes [of crc32 h q b]
  show ?case by (subst parse_batches.simps) simp
qed

definition header_bytes :: "(string \<Rightarrow> 32 word) \<Rightarrow> nat \<Rightarrow> Quantization \<Rightarrow> nat \<Rightarrow> string" where
  "header_bytes crc32 d q g = (case wal_header crc32 d q g of Inr s \<Rightarrow> s | Inl _ \<Rightarrow> [])"

lemma wal_header_ok: "d < 2 ^ 32 \<Longrightarrow> wal_header crc32 d q g = Ok (header_bytes crc32 d q g)"
  by (simp add: header_bytes_def wal_header_def wal_dimension_def Let_def)

lemma header_parts:
  assumes "d < 2 ^ 32"
  shows "header_bytes crc32 d q g = (let p = WAL_MAGIC @ le_bytes 2 WAL_VERSION @ le_bytes 4 d @ [char_of (quantization_byte q)]
             @ [char_of g] @ replicate 4 (CHR 0x00) in p @ le_bytes 4 (unat (crc32 p)))"
  using assms by (simp add: header_bytes_def wal_header_def wal_dimension_def Let_def)

lemma length_header: "d < 2 ^ 32 \<Longrightarrow> length (header_bytes crc32 d q g) = 20"
  by (simp add: header_parts WAL_MAGIC_def Let_def)

lemma parse_wal_bytes_header:
  assumes "d < 2 ^ 32" "g < 256"
  shows "parse_wal_bytes crc32 h (header_bytes crc32 d q g @ rest) d q =
    (let (es, c) = parse_batches crc32 h (header_bytes crc32 d q g @ rest) d (d * bytes_per_element q) q 20 in Ok (es, g, c))"
proof -
  define p where "p = WAL_MAGIC @ le_bytes 2 WAL_VERSION @ le_bytes 4 d @ [char_of (quantization_byte q)] @ [char_of g] @ replicate 4 (CHR 0x00)"
  define data where "data = header_bytes crc32 d q g @ rest"
  have data: "data = p @ le_bytes 4 (unat (crc32 p)) @ rest" using assms(1) by (simp add: data_def header_parts p_def Let_def)
  have lp: "length p = 16" by (simp add: p_def WAL_MAGIC_def)
  have v: "le_val (le_bytes 2 WAL_VERSION) = 1" "le_val (le_bytes 4 d) = d" "le_val (le_bytes 4 (unat (crc32 p))) = unat (crc32 p)"
    using assms(1) unat_crc by (simp_all add: le_val_bytes WAL_VERSION_def)
  have m: "length WAL_MAGIC = 4" by (simp add: WAL_MAGIC_def)
  define tail where "tail = replicate 4 (CHR 0x00) @ le_bytes 4 (unat (crc32 p)) @ rest"
  have flat: "data = WAL_MAGIC @ le_bytes 2 WAL_VERSION @ le_bytes 4 d @ char_of (quantization_byte q) # char_of g # tail"
    by (simp add: data p_def tail_def)
  have "slice 4 2 data = le_bytes 2 WAL_VERSION" by (rule slice_at [OF flat m]) simp
  moreover have "slice 6 4 data = le_bytes 4 d"
    by (rule slice_at [of _ "WAL_MAGIC @ le_bytes 2 WAL_VERSION"]) (simp_all add: flat m)
  moreover have "data ! 10 = char_of (quantization_byte q)" "data ! 11 = char_of g" "take 4 data = WAL_MAGIC"
    by (simp_all add: flat m nth_append)
  moreover have "slice 16 4 data = le_bytes 4 (unat (crc32 p))" by (rule slice_at [OF data lp]) simp
  moreover have "take 16 data = p" by (simp add: data lp)
  moreover have "quantization_byte q < 256" by (simp add: quantization_byte_def split: Quantization.splits)
  ultimately show ?thesis
    unfolding data_def [symmetric] parse_wal_bytes_def Let_def using v assms(2)
    by (simp add: WAL_VERSION_def WAL_HEADER_SIZE_def)
qed

section \<open>Crashes\<close>

text \<open>
  The life of a log between two compactions, with the batches that have been appended: an append that
  succeeds, and one that a crash interrupts after any number of bytes, upon which the index is opened
  again. Of an interrupted append the batch is kept if all of its bytes have been written.
\<close>

inductive log_step ::
  "(string \<Rightarrow> 32 word) \<Rightarrow> half_ops \<Rightarrow> nat \<Rightarrow> Quantization \<Rightarrow> nat
   \<Rightarrow> WalEntry list list \<times> string option \<Rightarrow> WalEntry list list \<times> string option \<Rightarrow> bool" for crc32 h d q gen where
  append_done: "batch_ok d es \<Longrightarrow> append_wal_batch crc32 h file es d q (next_generation gen) = (Ok (), file') \<Longrightarrow>
     log_step crc32 h d q gen (bs, file) (bs @ [es], file')"
| append_cut: "batch_ok d es \<Longrightarrow> append_wal_batch crc32 h file es d q (next_generation gen) = (r, Some data) \<Longrightarrow>
     prefix (case_option [] id file) written \<Longrightarrow> prefix written data \<Longrightarrow>
     load_wal crc32 h d q gen (Some written) = Ok (entries, file') \<Longrightarrow>
     log_step crc32 h d q gen (bs, file) (if written = data then bs @ [es] else bs, file')"

definition log_bytes :: "(string \<Rightarrow> 32 word) \<Rightarrow> half_ops \<Rightarrow> nat \<Rightarrow> Quantization \<Rightarrow> nat \<Rightarrow> WalEntry list list \<Rightarrow> string" where
  "log_bytes crc32 h d q g bs = header_bytes crc32 d q g @ concat (map (batch_bytes crc32 h q) bs)"

definition log_holds :: "(string \<Rightarrow> 32 word) \<Rightarrow> half_ops \<Rightarrow> nat \<Rightarrow> Quantization \<Rightarrow> nat \<Rightarrow> WalEntry list list \<Rightarrow> string option \<Rightarrow> bool" where
  "log_holds crc32 h d q g bs file \<longleftrightarrow> list_all (batch_ok d) bs
     \<and> (file = None \<and> bs = [] \<or> file = Some [] \<and> bs = [] \<or> file = Some (log_bytes crc32 h d q g bs))"

lemma next_generation_range: "gen < 256 \<Longrightarrow> 0 < next_generation gen \<and> next_generation gen < 256"
  by (simp add: next_generation_def)

lemma load_cut_batch:
  assumes "d < 2 ^ 32" "gen < 256" "list_all (batch_ok d) bs" "batch_ok d es" "strict_prefix p (batch_bytes crc32 h q es)"
  shows "load_wal crc32 h d q gen (Some (log_bytes crc32 h d q (next_generation gen) bs @ p))
    = Ok (concat (map (map (stored h q)) bs), Some (log_bytes crc32 h d q (next_generation gen) bs))"
proof -
  let ?g = "next_generation gen" and ?hd = "header_bytes crc32 d q (next_generation gen)"
  note g = next_generation_range [OF assms(2)] and l = length_header [OF assms(1), of crc32 q ?g]
  have "parse_wal_bytes crc32 h (log_bytes crc32 h d q ?g bs @ p) d q
      = Ok (concat (map (map (stored h q)) bs), ?g, length (log_bytes crc32 h d q ?g bs))"
    using parse_wal_bytes_header [OF assms(1), of ?g] g parse_batches_encoded [OF assms(3-5), of ?hd] l by (simp add: log_bytes_def)
  then show ?thesis using l g by (simp add: load_wal_def read_wal_def WAL_HEADER_SIZE_def log_bytes_def)
qed

lemma load_holds:
  assumes "d < 2 ^ 32" "gen < 256" "log_holds crc32 h d q (next_generation gen) bs file"
  shows "load_wal crc32 h d q gen file = Ok (concat (map (map (stored h q)) bs), file)"
proof -
  have "batch_ok d []" by (simp add: batch_ok_def)
  moreover have "strict_prefix [] (batch_bytes crc32 h q [])" using length_batch_bytes [of crc32 h q "[]"] by (cases "batch_bytes crc32 h q []") auto
  ultimately have log: "load_wal crc32 h d q gen (Some (log_bytes crc32 h d q (next_generation gen) bs))
      = Ok (concat (map (map (stored h q)) bs), Some (log_bytes crc32 h d q (next_generation gen) bs))" if "list_all (batch_ok d) bs"
    using load_cut_batch [OF assms(1,2) that, of "[]" "[]"] by simp
  consider "file = None" "bs = []" | "file = Some []" "bs = []"
    | "list_all (batch_ok d) bs" "file = Some (log_bytes crc32 h d q (next_generation gen) bs)"
    using assms(3) by (auto simp: log_holds_def)
  then show ?thesis
  proof cases
    case 3
    then show ?thesis using log by simp
  qed (simp_all add: load_wal_def read_wal_def WAL_HEADER_SIZE_def)
qed

lemma append_holds:
  assumes "d < 2 ^ 32" "log_holds crc32 h d q g bs file" "batch_ok d es"
  shows "append_wal_batch crc32 h file es d q g = (Ok (), Some (log_bytes crc32 h d q g (bs @ [es])))"
proof -
  have "open_for_append crc32 d q g file = Ok (log_bytes crc32 h d q g bs)"
    using assms(1,2) wal_header_ok [OF assms(1)] length_header [OF assms(1), of crc32 q g]
    by (auto simp: open_for_append_def log_holds_def log_bytes_def WAL_HEADER_SIZE_def)
  then show ?thesis by (simp add: append_wal_batch_def encode_batch_ok [OF assms(3)] log_bytes_def)
qed

lemma log_step_holds:
  assumes "d < 2 ^ 32" "gen < 256" "log_step crc32 h d q gen (bs, file) (bs', file')" "log_holds crc32 h d q (next_generation gen) bs file"
  shows "log_holds crc32 h d q (next_generation gen) bs' file'"
  using assms(3)
proof cases
  case (append_done es)
  then show ?thesis using append_holds [OF assms(1,4) append_done(2)] assms(4) by (auto simp: log_holds_def)
next
  case (append_cut es r data written entries)
  let ?log = "log_bytes crc32 h d q (next_generation gen)" and ?hd = "header_bytes crc32 d q (next_generation gen)"
  have data: "data = ?log bs @ batch_bytes crc32 h q es"
    using append_cut(3) append_holds [OF assms(1,4) append_cut(2)] by (simp add: log_bytes_def)
  have ok: "list_all (batch_ok d) bs" "list_all (batch_ok d) (bs @ [es])" using assms(4) append_cut(2) by (simp_all add: log_holds_def)
  show ?thesis
  proof (cases "prefix (?log bs) written")
    case True
    then obtain p where p: "written = ?log bs @ p" by (auto simp: prefix_def)
    show ?thesis
    proof (cases "written = data")
      case True
      then have "log_holds crc32 h d q (next_generation gen) (bs @ [es]) (Some written)"
        using ok(2) by (simp add: log_holds_def data log_bytes_def)
      from load_holds [OF assms(1,2) this] append_cut(1,6) True this show ?thesis by simp
    next
      case False
      then have "strict_prefix p (batch_bytes crc32 h q es)" using append_cut(5) by (auto simp: p data strict_prefix_def)
      from load_cut_batch [OF assms(1,2) ok(1) append_cut(2) this, folded p] append_cut(1,6) False ok(1)
      show ?thesis by (simp add: log_holds_def)
    qed
  next
    case False
    then have f: "file \<noteq> Some (?log bs)" using append_cut(4) by auto
    then have bs: "bs = []" using assms(4) by (auto simp: log_holds_def)
    have "prefix written (?hd @ batch_bytes crc32 h q es)" "\<not> prefix ?hd written"
      using append_cut(5) False by (simp_all add: data bs log_bytes_def)
    then have "length written < 20" using length_header [OF assms(1), of crc32 q "next_generation gen"]
      by (metis linorder_not_less prefixI prefix_length_prefix)
    then have "load_wal crc32 h d q gen (Some written) = Ok ([], Some [])" "written \<noteq> data"
      using length_header [OF assms(1), of crc32 q "next_generation gen"]
      by (auto simp: load_wal_def read_wal_def WAL_HEADER_SIZE_def data bs log_bytes_def)
    then show ?thesis using append_cut(1,6) bs by (simp add: log_holds_def)
  qed
qed

text \<open>
  C8: the log survives crashes: after any appends, of which any number were cut off at any byte and
  followed by a restart, opening the index gives exactly the entries of the batches that were written
  in full, in their order, with their elements as the quantization stores them, and finds nothing to
  repair.
\<close>

theorem log_crash_consistent:
  assumes "d < 2 ^ 32" "gen < 256" "(log_step crc32 h d q gen)\<^sup>*\<^sup>* ([], None) (bs, file)"
  shows "load_wal crc32 h d q gen file = Ok (concat (map (map (stored h q)) bs), file)"
proof -
  have "log_holds crc32 h d q (next_generation gen) (fst s) (snd s)" if "(log_step crc32 h d q gen)\<^sup>*\<^sup>* ([], None) s" for s
    using that
  proof (induction rule: rtranclp_induct)
    case (step s s')
    then show ?case using log_step_holds [OF assms(1,2), of crc32 h q "fst s" "snd s" "fst s'" "snd s'"] by simp
  qed (simp add: log_holds_def)
  from this [OF assms(3)] show ?thesis using load_holds [OF assms(1,2)] by simp
qed

definition sample_half :: half_ops where
  "sample_half = \<lparr>from_f32 = (\<lambda>v. ucast (drop_bit 16 v)), to_f32 = (\<lambda>v. push_bit 16 (ucast v))\<rparr>"

definition sample_entry :: WalEntry where
  "sample_entry = \<lparr>we_doc_id = ''doc'', we_doc_id_hash = fnv1a_hash ''doc'', we_embedding = [0x3F800000]\<rparr>"

text \<open>One append is done, and one is cut off after its first byte.\<close>

theorem log_crash_consistent_witness:
  "\<exists>file. (log_step (\<lambda>_. 7) sample_half 1 F16 3)\<^sup>*\<^sup>* ([], None) ([[sample_entry]], file)
     \<and> load_wal (\<lambda>_. 7) sample_half 1 F16 3 file = Ok ([stored sample_half F16 sample_entry], file)"
proof -
  let ?log = "log_bytes (\<lambda>_. 7) sample_half 1 F16 4" and ?batch = "batch_bytes (\<lambda>_. 7) sample_half F16 [sample_entry]"
  have d: "(1 :: nat) < 2 ^ 32" "(3 :: nat) < 256" and g: "next_generation 3 = 4" by (simp_all add: next_generation_def)
  have utf: "valid_utf8 ''doc''" by code_simp
  have ok: "batch_ok 1 [sample_entry]" by (simp add: batch_ok_def entry_ok_def sample_entry_def utf)
  have h0: "log_holds (\<lambda>_. 7) sample_half 1 F16 4 [] None" by (simp add: log_holds_def)
  have s1: "log_step (\<lambda>_. 7) sample_half 1 F16 3 ([], None) ([[sample_entry]], Some (?log [[sample_entry]]))"
    using append_done [OF ok, of "\<lambda>_. 7" sample_half None F16 3 _ "[]"] append_holds [OF d(1) h0 ok] by (simp add: g)
  have h1: "log_holds (\<lambda>_. 7) sample_half 1 F16 4 [[sample_entry]] (Some (?log [[sample_entry]]))" using ok by (simp add: log_holds_def)
  define written where "written = ?log [[sample_entry]] @ [CHR ''F'']"
  have cut: "strict_prefix [CHR ''F''] ?batch" by (simp add: batch_bytes_def batch_body_def BATCH_MAGIC_def strict_prefix_def)
  have data: "append_wal_batch (\<lambda>_. 7) sample_half (Some (?log [[sample_entry]])) [sample_entry] 1 F16 (next_generation 3)
      = (Ok (), Some (?log [[sample_entry]] @ ?batch))"
    using append_holds [OF d(1) h1 ok] by (simp add: log_bytes_def g)
  have load: "load_wal (\<lambda>_. 7) sample_half 1 F16 3 (Some written)
      = Ok ([stored sample_half F16 sample_entry], Some (?log [[sample_entry]]))"
    using load_cut_batch [OF d _ ok cut, of "[[sample_entry]]"] ok by (simp add: g written_def)
  have "written \<noteq> ?log [[sample_entry]] @ ?batch" using cut by (auto simp: written_def)
  then have s2: "log_step (\<lambda>_. 7) sample_half 1 F16 3 ([[sample_entry]], Some (?log [[sample_entry]])) ([[sample_entry]], Some (?log [[sample_entry]]))"
    using append_cut [OF ok data _ _ load, of "[[sample_entry]]"] cut by (simp add: written_def strict_prefix_def)
  have r: "(log_step (\<lambda>_. 7) sample_half 1 F16 3)\<^sup>*\<^sup>* ([], None) ([[sample_entry]], Some (?log [[sample_entry]]))"
    using s1 s2 by (meson converse_rtranclp_into_rtranclp r_into_rtranclp)
  from log_crash_consistent [OF d this] r show ?thesis by auto
qed

section \<open>Tagged positions\<close>

lemma wal_index_tag:
  assumes "\<not> is_wal_index p"
  shows "is_wal_index (to_wal_index p)" "from_wal_index (to_wal_index p) = p"
proof -
  have b: "bit WAL_INDEX_BIT i \<longleftrightarrow> i = 63" for i unfolding WAL_INDEX_BIT_def bit_push_bit_iff bit_1_iff by auto
  have p: "\<not> bit p 63" using assms by (metis b bit_0_eq bit_and_iff bot_apply is_wal_index_def bot_bool_def)
  show "is_wal_index (to_wal_index p)" by (metis b bit_0_eq bit_and_iff bit_or_iff bot_apply bot_bool_def is_wal_index_def to_wal_index_def)
  show "from_wal_index (to_wal_index p) = p"
    by (rule bit_eqI) (use p b in \<open>auto simp: from_wal_index_def to_wal_index_def bit_and_iff bit_or_iff bit_not_iff\<close>)
qed

end
