(* ===== verification/Fs_Index_File.thy ===== *)
theory Fs_Index_File
  imports Fs_Wal
begin

text \<open>
  The file of a vector index (\<open>frankensearch-index/src/lib.rs\<close>): header, record table, string table
  and the aligned vectors; how a writer lays it out and how opening reads it back. The mapped file
  is a list of bytes; replacing the file by renaming is one step.
\<close>

section \<open>Types\<close>

definition FSVI_MAGIC :: string where "FSVI_MAGIC = ''FSVI''"
definition FSVI_VERSION :: nat where "FSVI_VERSION = 1"
definition RECORD_SIZE_BYTES :: nat where "RECORD_SIZE_BYTES = 16"
definition VECTOR_ALIGN_BYTES :: nat where "VECTOR_ALIGN_BYTES = 64"
definition RECORD_FLAG_TOMBSTONE :: "16 word" where "RECORD_FLAG_TOMBSTONE = 1"

record VectorMetadata =
  embedder_id :: string
  embedder_revision :: string
  vm_dimension :: nat
  vm_quantization :: Quantization
  vm_compaction_gen :: nat
  vm_record_count :: nat
  vm_vectors_offset :: nat

record RecordEntry =
  doc_id_hash :: "64 word"
  doc_id_offset :: nat
  doc_id_len :: nat
  flags :: "16 word"

record VectorIndex =
  data :: string
  metadata :: VectorMetadata
  records_offset :: nat
  strings_offset :: nat
  vectors_offset :: nat
  wal_entries :: "WalEntry list"
  wal_config :: WalConfig

text \<open>The two files on disk.\<close>

record Disk =
  main_file :: "string option"
  wal_file :: "string option"

record PendingRecord =
  pr_doc_id :: string
  pr_doc_id_hash :: "64 word"
  pr_flags :: "16 word"
  pr_embedding :: "f32 list"

record VectorIndexWriter =
  vw_embedder_id :: string
  vw_embedder_revision :: string
  vw_dimension :: nat
  vw_quantization :: Quantization
  vw_compaction_gen :: nat
  vw_records :: "PendingRecord list"

text \<open>\<open>checked_add\<close> and \<open>checked_mul\<close> on \<open>usize\<close> and \<open>u64\<close>, with the error of an overflow.\<close>

definition checked :: "'e \<Rightarrow> nat \<Rightarrow> 'e + nat" where
  "checked e n = (if n \<le> USIZE_MAX then Ok n else Err e)"

section \<open>The header\<close>

definition validate_header_string :: "string \<Rightarrow> string \<Rightarrow> SearchError + unit" where
  "validate_header_string v field =
     (if v = [] \<and> field = ''embedder_id'' then Err (InvalidConfig field v ''embedder_id cannot be empty'')
      else if 65536 \<le> length v then Err (InvalidConfig field v ''value length must fit in u16'')
      else Ok ())"

text \<open>The lengths of the two strings have been checked to fit when they are written.\<close>

definition build_header_prefix ::
  "string \<Rightarrow> string \<Rightarrow> nat \<Rightarrow> Quantization \<Rightarrow> nat \<Rightarrow> nat \<Rightarrow> nat \<Rightarrow> SearchError + string" where
  "build_header_prefix eid revision dimension q compaction_gen record_count voffset =
     and_then (validate_header_string eid ''embedder_id'') (\<lambda>_.
     and_then (validate_header_string revision ''embedder_revision'') (\<lambda>_.
       if 2 ^ 32 \<le> dimension then Err (InvalidConfig ''dimension'' (show_nat dimension) ''dimension must fit in u32'')
       else Ok (FSVI_MAGIC @ le_bytes 2 FSVI_VERSION @ le_bytes 2 (length eid) @ eid @ le_bytes 2 (length revision) @ revision
              @ le_bytes 4 dimension @ [char_of (quantization_byte q)] @ [char_of compaction_gen] @ replicate 2 (CHR 0x00)
              @ le_bytes 8 record_count @ le_bytes 8 voffset)))"

definition read_slice :: "string \<Rightarrow> nat \<Rightarrow> nat \<Rightarrow> string \<Rightarrow> SearchError + (string \<times> nat)" where
  "read_slice bytes cursor len field =
     (if length bytes < cursor + len then Err (IndexCorrupted (FieldTruncated field len))
      else Ok (slice cursor len bytes, cursor + len))"

definition read_utf8 :: "string \<Rightarrow> nat \<Rightarrow> nat \<Rightarrow> string \<Rightarrow> SearchError + (string \<times> nat)" where
  "read_utf8 bytes cursor len field =
     and_then (read_slice bytes cursor len field) (\<lambda>(s, cursor).
       if valid_utf8 s then Ok (s, cursor) else Err (IndexCorrupted (InvalidUtf8 field)))"

definition parse_header :: "(string \<Rightarrow> 32 word) \<Rightarrow> string \<Rightarrow> SearchError + (VectorMetadata \<times> nat)" where
  "parse_header crc32 bytes =
     and_then (read_slice bytes 0 4 ''magic'') (\<lambda>(magic, cursor).
     if magic \<noteq> FSVI_MAGIC then Err (IndexCorrupted BadMagic) else
     and_then (read_slice bytes cursor 2 ''version'') (\<lambda>(version, cursor).
     if le_val version \<noteq> FSVI_VERSION then Err (IndexVersionMismatch FSVI_VERSION (le_val version)) else
     and_then (read_slice bytes cursor 2 ''embedder_id_len'') (\<lambda>(eid_len, cursor).
     and_then (read_utf8 bytes cursor (le_val eid_len) ''embedder_id'') (\<lambda>(eid, cursor).
     and_then (read_slice bytes cursor 2 ''embedder_revision_len'') (\<lambda>(revision_len, cursor).
     and_then (read_utf8 bytes cursor (le_val revision_len) ''embedder_revision'') (\<lambda>(revision, cursor).
     and_then (read_slice bytes cursor 4 ''dimension'') (\<lambda>(dimension, cursor).
     if le_val dimension = 0 then Err (IndexCorrupted DimensionZero) else
     and_then (read_slice bytes cursor 1 ''quantization'') (\<lambda>(q_byte, cursor).
     and_then (from_wire (byte (q_byte ! 0))) (\<lambda>q.
     and_then (read_slice bytes cursor 3 ''reserved'') (\<lambda>(reserved, cursor).
     and_then (read_slice bytes cursor 8 ''record_count'') (\<lambda>(record_count, cursor).
     and_then (read_slice bytes cursor 8 ''vectors_offset'') (\<lambda>(voffset, cursor).
     and_then (read_slice bytes cursor 4 ''header_crc32'') (\<lambda>(expected_crc, cursor).
     if unat (crc32 (take (cursor - 4) bytes)) \<noteq> le_val expected_crc then Err (IndexCorrupted HeaderCrc) else
     Ok (\<lparr>embedder_id = eid, embedder_revision = revision, vm_dimension = le_val dimension, vm_quantization = q,
           vm_compaction_gen = byte (reserved ! 0), vm_record_count = le_val record_count,
           vm_vectors_offset = le_val voffset\<rparr>, cursor))))))))))))))"

definition align_up :: "nat \<Rightarrow> nat \<Rightarrow> SearchError + nat" where
  "align_up n alignment =
     (if alignment = 0 then Ok n
      else
        let add = alignment - 1 in
        and_then (checked (InvalidConfig ''alignment'' (show_nat n @ ''+'' @ show_nat add) ''alignment overflow'') (n + add))
          (\<lambda>padded. Ok (padded div alignment * alignment)))"

section \<open>Opening\<close>

definition open_index :: "(string \<Rightarrow> 32 word) \<Rightarrow> half_ops \<Rightarrow> Disk \<Rightarrow> SearchError + (VectorIndex \<times> Disk)" where
  "open_index crc32 h disk =
     (case main_file disk of
        None \<Rightarrow> Err IndexNotFound
      | Some bytes \<Rightarrow>
          and_then (parse_header crc32 bytes) (\<lambda>(meta, header_len).
          and_then (checked (IndexCorrupted RecordTableOverflow) (vm_record_count meta * RECORD_SIZE_BYTES)) (\<lambda>records_bytes.
          and_then (checked (IndexCorrupted RecordTableOverflow) (header_len + records_bytes)) (\<lambda>soffset.
          if vm_vectors_offset meta < soffset then Err (IndexCorrupted VectorsInsideTables) else
          and_then (checked (IndexCorrupted VectorSlabOverflow) (vm_record_count meta * vm_dimension meta)) (\<lambda>elements.
          and_then (checked (IndexCorrupted VectorSlabOverflow) (elements * bytes_per_element (vm_quantization meta))) (\<lambda>vector_bytes.
          and_then (checked (IndexCorrupted VectorSlabOverflow) (vm_vectors_offset meta + vector_bytes)) (\<lambda>required_len.
          if length bytes < required_len then Err (IndexCorrupted (TruncatedFile (length bytes) required_len)) else
          and_then (load_wal crc32 h (vm_dimension meta) (vm_quantization meta) (vm_compaction_gen meta) (wal_file disk)) (\<lambda>(entries, wal').
          Ok (\<lparr>data = bytes, metadata = meta, records_offset = header_len, strings_offset = soffset,
                vectors_offset = vm_vectors_offset meta, wal_entries = entries, wal_config = default_wal_config\<rparr>,
              disk\<lparr>wal_file := wal'\<rparr>)))))))))"

section \<open>Writing\<close>

definition create_with_revision :: "string \<Rightarrow> string \<Rightarrow> nat \<Rightarrow> Quantization \<Rightarrow> SearchError + VectorIndexWriter" where
  "create_with_revision eid revision dimension q =
     (if dimension = 0 then Err (InvalidConfig ''dimension'' ''0'' ''dimension must be greater than zero'')
      else
        and_then (validate_header_string eid ''embedder_id'') (\<lambda>_.
        and_then (validate_header_string revision ''embedder_revision'') (\<lambda>_.
          if 2 ^ 32 \<le> dimension then
            Err (InvalidConfig ''dimension'' (show_nat dimension) ''dimension must fit in u32 for FSVI header encoding'')
          else Ok \<lparr>vw_embedder_id = eid, vw_embedder_revision = revision, vw_dimension = dimension, vw_quantization = q,
                 vw_compaction_gen = 1, vw_records = []\<rparr>)))"

definition create :: "string \<Rightarrow> nat \<Rightarrow> SearchError + VectorIndexWriter" where
  "create eid dimension = create_with_revision eid [] dimension F16"

definition f32_is_finite :: "f32 \<Rightarrow> bool" where
  "f32_is_finite v \<longleftrightarrow> v AND 0x7F800000 \<noteq> 0x7F800000"

text \<open>What is checked of a document before it is written, here and when it is appended to the log.\<close>

definition validate_record :: "nat \<Rightarrow> string \<Rightarrow> f32 list \<Rightarrow> SearchError + unit" where
  "validate_record dimension doc_id embedding =
     (if length embedding \<noteq> dimension then Err (DimensionMismatch dimension (length embedding))
      else if \<not> list_all f32_is_finite embedding then
        Err (InvalidConfig ''embedding'' ''<contains non-finite values>'' ''all embedding values must be finite'')
      else if 65536 \<le> length doc_id then Err (InvalidConfig ''doc_id'' doc_id ''doc_id byte length must fit in u16'')
      else Ok ())"

definition write_record :: "string \<Rightarrow> f32 list \<Rightarrow> VectorIndexWriter \<Rightarrow> SearchError + VectorIndexWriter" where
  "write_record doc_id embedding w =
     and_then (validate_record (vw_dimension w) doc_id embedding) (\<lambda>_.
       Ok (w\<lparr>vw_records := vw_records w @
         [\<lparr>pr_doc_id = doc_id, pr_doc_id_hash = fnv1a_hash doc_id, pr_flags = 0, pr_embedding = embedding\<rparr>]\<rparr>))"

definition with_generation :: "nat \<Rightarrow> VectorIndexWriter \<Rightarrow> VectorIndexWriter" where
  "with_generation generation w = w\<lparr>vw_compaction_gen := generation\<rparr>"

definition record_bytes :: "RecordEntry \<Rightarrow> string" where
  "record_bytes e = le_bytes 8 (unat (doc_id_hash e)) @ le_bytes 4 (doc_id_offset e) @ le_bytes 2 (doc_id_len e) @ le_bytes 2 (unat (flags e))"

text \<open>The entries for the records, each at the end of the string table so far.\<close>

fun build_entries :: "PendingRecord list \<Rightarrow> nat \<Rightarrow> SearchError + RecordEntry list" where
  "build_entries [] offset = Ok []"
| "build_entries (r # rs) offset =
     (if 2 ^ 32 \<le> offset then Err (InvalidConfig ''doc_id_offset'' (show_nat offset) ''string table offset exceeds u32'')
      else if 65536 \<le> length (pr_doc_id r) then
        Err (InvalidConfig ''doc_id_len'' (show_nat (length (pr_doc_id r))) ''doc_id length exceeds u16'')
      else
        and_then (build_entries rs (offset + length (pr_doc_id r))) (\<lambda>es.
          Ok (\<lparr>doc_id_hash = pr_doc_id_hash r, doc_id_offset = offset, doc_id_len = length (pr_doc_id r), flags = pr_flags r\<rparr> # es)))"

text \<open>
  The bytes of the file: the offset of the vectors does not change the length of the header, so that
  the header is built with zero first and then with the offset.
\<close>

definition finish :: "(string \<Rightarrow> 32 word) \<Rightarrow> half_ops \<Rightarrow> VectorIndexWriter \<Rightarrow> SearchError + string" where
  "finish crc32 h w =
     (let records = sort_key (\<lambda>r. (pr_doc_id_hash r, pr_doc_id r)) (vw_records w);
          record_count = length records;
          header = build_header_prefix (vw_embedder_id w) (vw_embedder_revision w) (vw_dimension w) (vw_quantization w)
                     (vw_compaction_gen w) record_count;
          strings = concat (map pr_doc_id records)
      in and_then (checked (InvalidConfig ''record_count'' (show_nat record_count) ''record table size overflow'')
             (record_count * RECORD_SIZE_BYTES)) (\<lambda>records_bytes.
         and_then (build_entries records 0) (\<lambda>entries.
         and_then (header 0) (\<lambda>provisional_header.
         let header_len = length provisional_header + 4 in
         and_then (checked (InvalidConfig ''layout''
               (show_nat header_len @ ''+'' @ show_nat records_bytes @ ''+'' @ show_nat (length strings)) ''layout offset overflow'')
             (header_len + records_bytes + length strings)) (\<lambda>pre_vector.
         and_then (align_up pre_vector VECTOR_ALIGN_BYTES) (\<lambda>voffset.
         and_then (header voffset) (\<lambda>header_prefix.
           Ok (header_prefix @ le_bytes 4 (unat (crc32 header_prefix)) @ concat (map record_bytes entries) @ strings
             @ replicate (voffset - pre_vector) (CHR 0x00)
             @ concat (map (\<lambda>r. encode_elements h (vw_quantization w) (pr_embedding r)) records)))))))))"

section \<open>The layout\<close>

text \<open>A record of the main file as it is stored; its hash is that of its document id.\<close>

record stored_record =
  sr_doc :: string
  sr_flags :: "16 word"
  sr_vector :: string

record index_header =
  ih_id :: string
  ih_revision :: string
  ih_dimension :: nat
  ih_quantization :: Quantization
  ih_gen :: nat

definition header_prefix :: "index_header \<Rightarrow> nat \<Rightarrow> nat \<Rightarrow> string" where
  "header_prefix ih n voffset = FSVI_MAGIC @ le_bytes 2 FSVI_VERSION @ le_bytes 2 (length (ih_id ih)) @ ih_id ih
     @ le_bytes 2 (length (ih_revision ih)) @ ih_revision ih @ le_bytes 4 (ih_dimension ih)
     @ [char_of (quantization_byte (ih_quantization ih))] @ [char_of (ih_gen ih)] @ replicate 2 (CHR 0x00)
     @ le_bytes 8 n @ le_bytes 8 voffset"

fun entries_of :: "stored_record list \<Rightarrow> nat \<Rightarrow> RecordEntry list" where
  "entries_of [] offset = []"
| "entries_of (r # rs) offset =
     \<lparr>doc_id_hash = fnv1a_hash (sr_doc r), doc_id_offset = offset, doc_id_len = length (sr_doc r), flags = sr_flags r\<rparr>
     # entries_of rs (offset + length (sr_doc r))"

definition strings_of :: "stored_record list \<Rightarrow> string" where "strings_of rs = concat (map sr_doc rs)"

definition header_length :: "index_header \<Rightarrow> nat" where
  "header_length ih = 38 + length (ih_id ih) + length (ih_revision ih)"

definition strings_start :: "index_header \<Rightarrow> nat \<Rightarrow> nat" where "strings_start ih n = header_length ih + n * 16"

definition vectors_start :: "index_header \<Rightarrow> stored_record list \<Rightarrow> nat" where
  "vectors_start ih rs = (strings_start ih (length rs) + length (strings_of rs) + 63) div 64 * 64"

definition header_with_crc :: "(string \<Rightarrow> 32 word) \<Rightarrow> index_header \<Rightarrow> stored_record list \<Rightarrow> string" where
  "header_with_crc crc32 ih rs =
     (let p = header_prefix ih (length rs) (vectors_start ih rs) in p @ le_bytes 4 (unat (crc32 p)))"

definition table_of :: "stored_record list \<Rightarrow> string" where "table_of rs = concat (map record_bytes (entries_of rs 0))"

definition padding_of :: "index_header \<Rightarrow> stored_record list \<Rightarrow> string" where
  "padding_of ih rs = replicate (vectors_start ih rs - (strings_start ih (length rs) + length (strings_of rs))) (CHR 0x00)"

definition image :: "(string \<Rightarrow> 32 word) \<Rightarrow> index_header \<Rightarrow> stored_record list \<Rightarrow> string" where
  "image crc32 ih rs = header_with_crc crc32 ih rs @ table_of rs @ strings_of rs @ padding_of ih rs @ concat (map sr_vector rs)"

definition stride :: "index_header \<Rightarrow> nat" where "stride ih = ih_dimension ih * bytes_per_element (ih_quantization ih)"

definition header_ok :: "index_header \<Rightarrow> bool" where
  "header_ok ih \<longleftrightarrow> ih_id ih \<noteq> [] \<and> valid_utf8 (ih_id ih) \<and> length (ih_id ih) < 65536
     \<and> valid_utf8 (ih_revision ih) \<and> length (ih_revision ih) < 65536
     \<and> 0 < ih_dimension ih \<and> ih_dimension ih < 2 ^ 32 \<and> ih_gen ih < 256"

definition record_ok :: "index_header \<Rightarrow> stored_record \<Rightarrow> bool" where
  "record_ok ih r \<longleftrightarrow> valid_utf8 (sr_doc r) \<and> length (sr_doc r) < 65536 \<and> length (sr_vector r) = stride ih"

text \<open>A layout that fits: string offsets in 32 bits and file offsets in 64.\<close>

definition image_ok :: "index_header \<Rightarrow> stored_record list \<Rightarrow> bool" where
  "image_ok ih rs \<longleftrightarrow> header_ok ih \<and> list_all (record_ok ih) rs \<and> length (strings_of rs) < 2 ^ 32
     \<and> strings_start ih (length rs) + length (strings_of rs) + 63 \<le> USIZE_MAX
     \<and> vectors_start ih rs + length rs * stride ih \<le> USIZE_MAX"

definition meta_of :: "index_header \<Rightarrow> stored_record list \<Rightarrow> VectorMetadata" where
  "meta_of ih rs = \<lparr>embedder_id = ih_id ih, embedder_revision = ih_revision ih, vm_dimension = ih_dimension ih,
     vm_quantization = ih_quantization ih, vm_compaction_gen = ih_gen ih, vm_record_count = length rs,
     vm_vectors_offset = vectors_start ih rs\<rparr>"

lemma build_header_prefix_ok: "header_ok ih \<Longrightarrow>
    build_header_prefix (ih_id ih) (ih_revision ih) (ih_dimension ih) (ih_quantization ih) (ih_gen ih) n voffset = Ok (header_prefix ih n voffset)"
  by (simp add: build_header_prefix_def header_prefix_def validate_header_string_def header_ok_def)

lemma length_header_prefix [simp]: "length (header_prefix ih n v) + 4 = header_length ih"
  by (simp add: header_prefix_def header_length_def FSVI_MAGIC_def)

lemma length_header_with_crc [simp]: "length (header_with_crc crc32 ih rs) = header_length ih"
  using length_header_prefix [of ih "length rs" "vectors_start ih rs"] by (simp add: header_with_crc_def Let_def)

lemma length_record_bytes [simp]: "length (record_bytes e) = 16"
  by (simp add: record_bytes_def)

lemma length_entries_of [simp]: "length (entries_of rs offset) = length rs"
  by (induction rs arbitrary: offset) simp_all

lemma length_concat_const: "\<forall>x \<in> set xs. length (f x) = n \<Longrightarrow> length (concat (map f xs)) = length xs * n"
  by (induction xs) simp_all

lemma length_table [simp]: "length (table_of rs) = length rs * 16"
  using length_concat_const [of "entries_of rs 0" record_bytes 16] by (simp add: table_of_def)

lemma align_bounds: "n \<le> (n + 63) div 64 * (64 :: nat)" "(n + 63) div 64 * (64 :: nat) \<le> n + 63"
  by linarith+

lemma vectors_start_bounds:
  "strings_start ih (length rs) + length (strings_of rs) \<le> vectors_start ih rs"
  "vectors_start ih rs \<le> strings_start ih (length rs) + length (strings_of rs) + 63"
  unfolding vectors_start_def by (rule align_bounds)+

lemma length_image_front:
  "length (header_with_crc crc32 ih rs @ table_of rs @ strings_of rs @ padding_of ih rs) = vectors_start ih rs"
  using vectors_start_bounds(1) [of ih rs] by (simp add: padding_of_def strings_start_def)

lemma length_vectors: "list_all (record_ok ih) rs \<Longrightarrow> length (concat (map sr_vector rs)) = length rs * stride ih"
  by (intro length_concat_const) (simp add: list_all_iff record_ok_def)

lemma length_image: "list_all (record_ok ih) rs \<Longrightarrow> length (image crc32 ih rs) = vectors_start ih rs + length rs * stride ih"
  using length_image_front [of crc32 ih rs] length_vectors [of ih rs] by (simp add: image_def)

section \<open>Reading a header\<close>

lemma read_slice_at:
  "bytes = a @ b @ c \<Longrightarrow> length a = cursor \<Longrightarrow> length b = len \<Longrightarrow> read_slice bytes cursor len field = Ok (b, cursor + len)"
  by (simp add: read_slice_def slice_at)

lemma read_slice_to:
  "bytes = a @ b @ c \<Longrightarrow> length a = cursor \<Longrightarrow> length b = len \<Longrightarrow> cursor + len = end_pos \<Longrightarrow> read_slice bytes cursor len field = Ok (b, end_pos)"
  by (simp add: read_slice_at)

lemma read_utf8_at:
  "bytes = a @ b @ c \<Longrightarrow> length a = cursor \<Longrightarrow> length b = len \<Longrightarrow> valid_utf8 b \<Longrightarrow> read_utf8 bytes cursor len field = Ok (b, cursor + len)"
  by (simp add: read_utf8_def read_slice_at)

lemma parse_header_image:
  assumes "image_ok ih rs"
  shows "parse_header crc32 (header_with_crc crc32 ih rs @ rest) = Ok (meta_of ih rs, header_length ih)"
proof -
  let ?v = "vectors_start ih rs" and ?n = "length rs" and ?i = "length (ih_id ih)" and ?r = "length (ih_revision ih)"
  define p where "p = header_prefix ih ?n ?v"
  define crc where "crc = le_bytes 4 (unat (crc32 p))"
  define bytes where "bytes = header_with_crc crc32 ih rs @ rest"
  define a where "a = FSVI_MAGIC @ le_bytes 2 FSVI_VERSION"
  define b where "b = a @ le_bytes 2 ?i @ ih_id ih"
  define c where "c = b @ le_bytes 2 ?r @ ih_revision ih"
  define e where "e = c @ le_bytes 4 (ih_dimension ih) @ [char_of (quantization_byte (ih_quantization ih))]"
  define f where "f = e @ [char_of (ih_gen ih), CHR 0x00, CHR 0x00]"
  have ok: "header_ok ih" "?n \<le> USIZE_MAX" "?v \<le> USIZE_MAX"
    using assms vectors_start_bounds [of ih rs] by (simp_all add: image_ok_def strings_start_def)
  have len: "length a = 6" "length b = 8 + ?i" "length c = 10 + ?i + ?r" "length e = 15 + ?i + ?r" "length f = 18 + ?i + ?r" "length p = 34 + ?i + ?r"
    by (simp_all add: a_def b_def c_def e_def f_def p_def header_prefix_def FSVI_MAGIC_def)
  have p: "p = f @ le_bytes 8 ?n @ le_bytes 8 ?v"
    by (simp add: p_def f_def e_def c_def b_def a_def header_prefix_def numeral_2_eq_2)
  have bytes: "bytes = f @ le_bytes 8 ?n @ le_bytes 8 ?v @ crc @ rest"
    by (simp add: bytes_def header_with_crc_def Let_def crc_def p flip: p_def)
  have "read_slice bytes 0 4 g = Ok (FSVI_MAGIC, 4)" for g
    by (rule read_slice_to [of _ "[]"]) (auto simp: bytes f_def e_def c_def b_def a_def FSVI_MAGIC_def)
  moreover have "read_slice bytes 4 2 g = Ok (le_bytes 2 FSVI_VERSION, 6)" for g
    by (rule read_slice_to [of _ FSVI_MAGIC]) (auto simp: bytes f_def e_def c_def b_def a_def FSVI_MAGIC_def)
  moreover have "read_slice bytes 6 2 g = Ok (le_bytes 2 ?i, 8)" for g
    by (rule read_slice_to [of _ a]) (auto simp: bytes f_def e_def c_def b_def len)
  moreover have "read_utf8 bytes 8 ?i g = Ok (ih_id ih, 8 + ?i)" for g
    by (rule read_utf8_at [of _ "a @ le_bytes 2 ?i"]) (use ok(1) in \<open>auto simp: bytes f_def e_def c_def b_def len header_ok_def\<close>)
  moreover have "read_slice bytes (8 + ?i) 2 g = Ok (le_bytes 2 ?r, 10 + ?i)" for g
    by (rule read_slice_to [of _ b]) (auto simp: bytes f_def e_def c_def len)
  moreover have "read_utf8 bytes (10 + ?i) ?r g = Ok (ih_revision ih, 10 + ?i + ?r)" for g
    by (rule read_utf8_at [of _ "b @ le_bytes 2 ?r"]) (use ok(1) in \<open>auto simp: bytes f_def e_def c_def len header_ok_def\<close>)
  moreover have "read_slice bytes (10 + ?i + ?r) 4 g = Ok (le_bytes 4 (ih_dimension ih), 14 + ?i + ?r)" for g
    by (rule read_slice_to [of _ c]) (auto simp: bytes f_def e_def len)
  moreover have "read_slice bytes (14 + ?i + ?r) 1 g = Ok ([char_of (quantization_byte (ih_quantization ih))], 15 + ?i + ?r)" for g
    by (rule read_slice_to [of _ "c @ le_bytes 4 (ih_dimension ih)"]) (auto simp: bytes f_def e_def len)
  moreover have "read_slice bytes (15 + ?i + ?r) 3 g = Ok ([char_of (ih_gen ih), CHR 0x00, CHR 0x00], 18 + ?i + ?r)" for g
    by (rule read_slice_to [of _ e]) (auto simp: bytes f_def len)
  moreover have "read_slice bytes (18 + ?i + ?r) 8 g = Ok (le_bytes 8 ?n, 26 + ?i + ?r)" for g
    by (rule read_slice_to [of _ f]) (auto simp: bytes len)
  moreover have "read_slice bytes (26 + ?i + ?r) 8 g = Ok (le_bytes 8 ?v, 34 + ?i + ?r)" for g
    by (rule read_slice_to [of _ "f @ le_bytes 8 ?n"]) (auto simp: bytes len)
  moreover have "read_slice bytes (34 + ?i + ?r) 4 g = Ok (crc, 38 + ?i + ?r)" for g
    by (rule read_slice_to [of _ p]) (auto simp: bytes p len crc_def)
  moreover have "le_val (le_bytes 2 FSVI_VERSION) = FSVI_VERSION" "le_val (le_bytes 2 ?i) = ?i" "le_val (le_bytes 2 ?r) = ?r"
      "le_val (le_bytes 4 (ih_dimension ih)) = ih_dimension ih" "le_val (le_bytes 8 ?n) = ?n" "le_val (le_bytes 8 ?v) = ?v"
      "le_val crc = unat (crc32 p)"
    using ok unat_crc by (auto intro!: le_val_bytes simp: FSVI_VERSION_def header_ok_def USIZE_MAX_def crc_def)
  moreover have "take (34 + (?i + ?r)) bytes = p" using bytes p len(6) by (simp add: add.assoc)
  moreover have "quantization_byte (ih_quantization ih) < 256" by (simp add: quantization_byte_def split: Quantization.splits)
  ultimately have "parse_header crc32 bytes = Ok (meta_of ih rs, header_length ih)"
    using ok(1) by (simp add: parse_header_def meta_of_def header_length_def header_ok_def)
  then show ?thesis by (simp add: bytes_def)
qed

section \<open>Writing and opening\<close>

definition index_of :: "(string \<Rightarrow> 32 word) \<Rightarrow> index_header \<Rightarrow> stored_record list \<Rightarrow> WalEntry list \<Rightarrow> WalConfig \<Rightarrow> VectorIndex" where
  "index_of crc32 ih rs entries config = \<lparr>data = image crc32 ih rs, metadata = meta_of ih rs, records_offset = header_length ih,
     strings_offset = strings_start ih (length rs), vectors_offset = vectors_start ih rs, wal_entries = entries, wal_config = config\<rparr>"

definition writer_header :: "VectorIndexWriter \<Rightarrow> index_header" where
  "writer_header w = \<lparr>ih_id = vw_embedder_id w, ih_revision = vw_embedder_revision w, ih_dimension = vw_dimension w,
     ih_quantization = vw_quantization w, ih_gen = vw_compaction_gen w\<rparr>"

definition written_record :: "half_ops \<Rightarrow> Quantization \<Rightarrow> PendingRecord \<Rightarrow> stored_record" where
  "written_record h q r = \<lparr>sr_doc = pr_doc_id r, sr_flags = pr_flags r, sr_vector = encode_elements h q (pr_embedding r)\<rparr>"

definition written_records :: "half_ops \<Rightarrow> VectorIndexWriter \<Rightarrow> stored_record list" where
  "written_records h w = map (written_record h (vw_quantization w)) (sort_key (\<lambda>r. (pr_doc_id_hash r, pr_doc_id r)) (vw_records w))"

lemma strings_of_Cons [simp]: "strings_of (r # rs) = sr_doc r @ strings_of rs" and strings_of_Nil [simp]: "strings_of [] = []"
  by (simp_all add: strings_of_def)

lemma build_entries_written:
  assumes "\<forall>r \<in> set rs. pr_doc_id_hash r = fnv1a_hash (pr_doc_id r) \<and> length (pr_doc_id r) < 65536"
    and "offset + length (strings_of (map (written_record h q) rs)) < 2 ^ 32"
  shows "build_entries rs offset = Ok (entries_of (map (written_record h q) rs) offset)"
  using assms
proof (induction rs arbitrary: offset)
  case (Cons r rs)
  then have "build_entries rs (offset + length (pr_doc_id r)) = Ok (entries_of (map (written_record h q) rs) (offset + length (pr_doc_id r)))"
    by (intro Cons.IH) (simp_all add: written_record_def [of h q r])
  with Cons.prems show ?case by (simp add: written_record_def [of h q r])
qed simp

lemma image_ok_bounds:
  assumes "image_ok ih rs"
  shows "length rs * 16 \<le> USIZE_MAX" "header_length ih + length rs * 16 \<le> USIZE_MAX"
    "header_length ih + length rs * 16 + length (strings_of rs) + 63 \<le> USIZE_MAX"
    "length rs * ih_dimension ih \<le> USIZE_MAX" "length rs * stride ih \<le> USIZE_MAX"
    "vectors_start ih rs + length rs * stride ih \<le> USIZE_MAX"
proof -
  show "vectors_start ih rs + length rs * stride ih \<le> USIZE_MAX" using assms by (simp add: image_ok_def)
  then show "length rs * stride ih \<le> USIZE_MAX" by simp
  moreover have "ih_dimension ih * 1 \<le> stride ih" unfolding stride_def using bytes_per_element_pos [of "ih_quantization ih"] by (intro mult_le_mono2) linarith
  then have "length rs * ih_dimension ih \<le> length rs * stride ih" by simp
  ultimately show "length rs * ih_dimension ih \<le> USIZE_MAX" by linarith
qed (use assms in \<open>simp_all add: image_ok_def strings_start_def\<close>)

lemma align_up_vectors:
  assumes "image_ok ih rs"
  shows "align_up (header_length ih + length rs * 16 + length (strings_of rs)) VECTOR_ALIGN_BYTES = Ok (vectors_start ih rs)"
  using image_ok_bounds(3) [OF assms] by (simp add: align_up_def checked_def VECTOR_ALIGN_BYTES_def vectors_start_def strings_start_def Let_def)

lemma finish_writes_image:
  assumes "image_ok (writer_header w) (written_records h w)"
    and "\<forall>r \<in> set (vw_records w). pr_doc_id_hash r = fnv1a_hash (pr_doc_id r) \<and> length (pr_doc_id r) < 65536"
  shows "finish crc32 h w = Ok (image crc32 (writer_header w) (written_records h w))"
proof -
  let ?ih = "writer_header w" and ?rs = "written_records h w" and ?q = "vw_quantization w"
  define records where "records = sort_key (\<lambda>r. (pr_doc_id_hash r, pr_doc_id r)) (vw_records w)"
  have rs: "?rs = map (written_record h ?q) records" by (simp add: written_records_def records_def)
  have hok: "header_ok ?ih" using assms(1) by (simp add: image_ok_def)
  have hp: "build_header_prefix (vw_embedder_id w) (vw_embedder_revision w) (vw_dimension w) ?q (vw_compaction_gen w) n v
      = Ok (header_prefix ?ih n v)" for n v
    using build_header_prefix_ok [OF hok] by (simp add: writer_header_def)
  have strings: "concat (map pr_doc_id records) = strings_of ?rs"
    by (simp add: rs strings_of_def written_record_def comp_def)
  have vectors: "concat (map (\<lambda>r. encode_elements h ?q (pr_embedding r)) records) = concat (map sr_vector ?rs)"
    by (simp add: rs written_record_def comp_def)
  have entries: "build_entries records 0 = Ok (entries_of ?rs 0)"
    unfolding rs by (rule build_entries_written) (use assms in \<open>simp_all add: records_def image_ok_def written_records_def\<close>)
  have n: "length records = length ?rs" by (simp add: rs)
  note b = image_ok_bounds [OF assms(1)] and a = align_up_vectors [OF assms(1)]
  have l: "length (header_prefix ?ih (length ?rs) 0) + 4 = header_length ?ih" by simp
  have pad: "replicate (vectors_start ?ih ?rs - (header_length ?ih + length ?rs * 16 + length (strings_of ?rs))) (CHR 0x00) = padding_of ?ih ?rs"
    by (simp add: padding_of_def strings_start_def)
  show ?thesis
    unfolding finish_def Let_def records_def [symmetric] hp strings vectors entries n and_then.simps l
    using b a pad by (simp add: checked_def RECORD_SIZE_BYTES_def image_def header_with_crc_def table_of_def Let_def)
qed

lemma open_image:
  assumes "image_ok ih rs" "main_file disk = Some (image crc32 ih rs)"
  shows "open_index crc32 h disk =
    and_then (load_wal crc32 h (ih_dimension ih) (ih_quantization ih) (ih_gen ih) (wal_file disk))
      (\<lambda>(entries, wal'). Ok (index_of crc32 ih rs entries default_wal_config, disk\<lparr>wal_file := wal'\<rparr>))"
proof -
  have ph: "parse_header crc32 (image crc32 ih rs) = Ok (meta_of ih rs, header_length ih)"
    unfolding image_def by (rule parse_header_image [OF assms(1)])
  have len: "length (image crc32 ih rs) = vectors_start ih rs + length rs * stride ih"
    using assms(1) by (intro length_image) (simp add: image_ok_def)
  have start: "\<not> vectors_start ih rs < header_length ih + length rs * 16"
    using vectors_start_bounds(1) [of ih rs] by (simp add: strings_start_def)
  show ?thesis
    using image_ok_bounds [OF assms(1)] start
    by (simp add: open_index_def assms(2) ph len meta_of_def checked_def RECORD_SIZE_BYTES_def stride_def mult.assoc
        index_of_def strings_start_def)
qed

end
