(* ===== verification/Fs_Index.thy ===== *)
theory Fs_Index
  imports Fs_Index_File
begin

text \<open>
  The operations of an open vector index (\<open>VectorIndex\<close> in \<open>frankensearch-index/src/lib.rs\<close>): reading
  records, documents and vectors out of the mapped file, searching the sorted record table, deleting
  by tombstone, appending to the log, and the two rewrites, vacuum and compaction.

  Offsets are unbounded numbers here: where the code reports an overflow of \<open>usize\<close> as corruption,
  the model reports an offset beyond the file. The times in the statistics are left out.
\<close>

section \<open>Reading\<close>

abbreviation record_count :: "VectorIndex \<Rightarrow> nat" where "record_count ix \<equiv> vm_record_count (metadata ix)"
abbreviation dimension :: "VectorIndex \<Rightarrow> nat" where "dimension ix \<equiv> vm_dimension (metadata ix)"
abbreviation quantization :: "VectorIndex \<Rightarrow> Quantization" where "quantization ix \<equiv> vm_quantization (metadata ix)"

definition is_tombstoned_flags :: "16 word \<Rightarrow> bool" where
  "is_tombstoned_flags fl \<longleftrightarrow> fl AND RECORD_FLAG_TOMBSTONE \<noteq> 0"

definition ensure_index :: "VectorIndex \<Rightarrow> nat \<Rightarrow> SearchError + unit" where
  "ensure_index ix index =
     (if record_count ix \<le> index then
        Err (InvalidConfig ''index'' (show_nat index) (''index out of range for record_count='' @ show_nat (record_count ix)))
      else Ok ())"

definition record_at :: "VectorIndex \<Rightarrow> nat \<Rightarrow> SearchError + RecordEntry" where
  "record_at ix index =
     and_then (ensure_index ix index) (\<lambda>_.
       let offset = records_offset ix + index * RECORD_SIZE_BYTES in
       if length (data ix) < offset + RECORD_SIZE_BYTES then Err (IndexCorrupted RecordBeyondFile)
       else
         let chunk = slice offset RECORD_SIZE_BYTES (data ix) in
         Ok \<lparr>doc_id_hash = of_nat (le_val (slice 0 8 chunk)), doc_id_offset = le_val (slice 8 4 chunk),
              doc_id_len = le_val (slice 12 2 chunk), flags = of_nat (le_val (slice 14 2 chunk))\<rparr>)"

definition doc_id_at :: "VectorIndex \<Rightarrow> nat \<Rightarrow> SearchError + string" where
  "doc_id_at ix index =
     and_then (ensure_index ix index) (\<lambda>_.
     and_then (record_at ix index) (\<lambda>entry.
       let start = strings_offset ix + doc_id_offset entry in
       if vectors_offset ix < start + doc_id_len entry then Err (IndexCorrupted DocIdBeyondStrings)
       else
         let s = slice start (doc_id_len entry) (data ix) in
         if valid_utf8 s then Ok s else Err (IndexCorrupted (InvalidUtf8 ''doc_id''))))"

definition vector_start :: "VectorIndex \<Rightarrow> nat \<Rightarrow> nat" where
  "vector_start ix index = vectors_offset ix + index * (dimension ix * bytes_per_element (quantization ix))"

text \<open>The bytes of a vector, for both decoders.\<close>

definition vector_bytes_at :: "VectorIndex \<Rightarrow> nat \<Rightarrow> SearchError + string" where
  "vector_bytes_at ix index =
     and_then (ensure_index ix index) (\<lambda>_.
       let start = vector_start ix index; byte_len = dimension ix * bytes_per_element (quantization ix) in
       if length (data ix) < start + byte_len then Err (IndexCorrupted VectorBeyondFile)
       else Ok (slice start byte_len (data ix)))"

definition vector_at_f32 :: "half_ops \<Rightarrow> VectorIndex \<Rightarrow> nat \<Rightarrow> SearchError + f32 list" where
  "vector_at_f32 h ix index =
     and_then (vector_bytes_at ix index) (\<lambda>bytes.
       Ok (map (decode_element h (quantization ix)) (chunks_exact (bytes_per_element (quantization ix)) bytes)))"

definition vector_at_f16 :: "half_ops \<Rightarrow> VectorIndex \<Rightarrow> nat \<Rightarrow> SearchError + 16 word list" where
  "vector_at_f16 h ix index =
     and_then (vector_bytes_at ix index) (\<lambda>bytes.
       Ok (map (\<lambda>chunk. case quantization ix of F16 \<Rightarrow> of_nat (le_val chunk) | F32 \<Rightarrow> from_f32 h (of_nat (le_val chunk)))
             (chunks_exact (bytes_per_element (quantization ix)) bytes)))"

section \<open>Searching the record table\<close>

function find_hash_between :: "VectorIndex \<Rightarrow> 64 word \<Rightarrow> nat \<Rightarrow> nat \<Rightarrow> SearchError + nat option" where
  "find_hash_between ix hash low high =
     (if low < high then
        let mid = low + (high - low) div 2 in
        and_then (record_at ix mid) (\<lambda>entry.
          case ord_cmp (doc_id_hash entry) hash of
            Less \<Rightarrow> find_hash_between ix hash (mid + 1) high
          | Greater \<Rightarrow> find_hash_between ix hash low mid
          | Equal \<Rightarrow> Ok (Some mid))
      else Ok None)"
  by pat_completeness auto

termination find_hash_between
  by (relation "measure (\<lambda>(_, _, low, high). high - low)") auto

declare find_hash_between.simps [simp del]

definition find_first_hash_match :: "VectorIndex \<Rightarrow> 64 word \<Rightarrow> SearchError + nat option" where
  "find_first_hash_match ix hash = find_hash_between ix hash 0 (record_count ix)"

text \<open>The first record of a run of equal hashes.\<close>

fun run_start :: "VectorIndex \<Rightarrow> 64 word \<Rightarrow> nat \<Rightarrow> SearchError + nat" where
  "run_start ix hash 0 = Ok 0"
| "run_start ix hash (Suc i) =
     and_then (record_at ix i) (\<lambda>prev. if doc_id_hash prev \<noteq> hash then Ok (Suc i) else run_start ix hash i)"

function scan_run :: "VectorIndex \<Rightarrow> string \<Rightarrow> 64 word \<Rightarrow> nat \<Rightarrow> SearchError + nat option" where
  "scan_run ix doc_id hash candidate =
     (if candidate < record_count ix then
        and_then (record_at ix candidate) (\<lambda>entry.
          if doc_id_hash entry \<noteq> hash then Ok None
          else
            and_then (doc_id_at ix candidate) (\<lambda>candidate_doc_id.
              if candidate_doc_id = doc_id then Ok (Some candidate) else scan_run ix doc_id hash (candidate + 1)))
      else Ok None)"
  by pat_completeness auto

termination scan_run
  by (relation "measure (\<lambda>(ix, _, _, c). record_count ix - c)") auto

declare scan_run.simps [simp del]

definition find_index_by_doc_id :: "VectorIndex \<Rightarrow> string \<Rightarrow> SearchError + nat option" where
  "find_index_by_doc_id ix doc_id =
     (let hash = fnv1a_hash doc_id in
      and_then (find_first_hash_match ix hash) (\<lambda>m.
        case m of
          None \<Rightarrow> Ok None
        | Some index \<Rightarrow> and_then (run_start ix hash index) (\<lambda>first. scan_run ix doc_id hash first)))"

text \<open>The first live record of a run of equal hashes; an error ends the search without a result.\<close>

function scan_live :: "VectorIndex \<Rightarrow> 64 word \<Rightarrow> nat \<Rightarrow> nat option" where
  "scan_live ix hash index =
     (if index < record_count ix then
        (case record_at ix index of
           Inl _ \<Rightarrow> None
         | Inr entry \<Rightarrow>
             if doc_id_hash entry \<noteq> hash then None
             else if \<not> is_tombstoned_flags (flags entry) then Some index
             else scan_live ix hash (index + 1))
      else None)"
  by pat_completeness auto

termination scan_live
  by (relation "measure (\<lambda>(ix, _, c). record_count ix - c)") auto

declare scan_live.simps [simp del]

definition find_index_by_doc_hash :: "VectorIndex \<Rightarrow> 64 word \<Rightarrow> nat option" where
  "find_index_by_doc_hash ix hash =
     (case find_hash_between ix hash 0 (record_count ix) of
        Inl _ \<Rightarrow> None
      | Inr None \<Rightarrow> None
      | Inr (Some mid) \<Rightarrow> (case run_start ix hash mid of Inl _ \<Rightarrow> None | Inr first \<Rightarrow> scan_live ix hash first))"

definition get_embeddings :: "half_ops \<Rightarrow> VectorIndex \<Rightarrow> 64 word list \<Rightarrow> 16 word list option list" where
  "get_embeddings h ix hashes =
     map (\<lambda>hash. case find_index_by_doc_hash ix hash of
            None \<Rightarrow> None
          | Some index \<Rightarrow> (case vector_at_f16 h ix index of Inl _ \<Rightarrow> None | Inr v \<Rightarrow> Some v)) hashes"

section \<open>Deleting\<close>

definition is_deleted :: "VectorIndex \<Rightarrow> nat \<Rightarrow> bool" where
  "is_deleted ix index = (case record_at ix index of Inr entry \<Rightarrow> is_tombstoned_flags (flags entry) | Inl _ \<Rightarrow> False)"

definition tombstone_count :: "VectorIndex \<Rightarrow> nat" where
  "tombstone_count ix = length (filter (is_deleted ix) [0..<record_count ix])"

definition tombstone_ratio :: "VectorIndex \<Rightarrow> f64" where
  "tombstone_ratio ix =
     (if record_count ix = 0 then F_zero
      else f64_div (f64_of_int (int (tombstone_count ix))) (f64_of_int (int (record_count ix))))"

definition needs_vacuum :: "VectorIndex \<Rightarrow> bool" where
  "needs_vacuum ix = f64_lt (f64_of_decimal False 20 (-2)) (tombstone_ratio ix)"

definition needs_compaction :: "VectorIndex \<Rightarrow> bool" where
  "needs_compaction ix =
     (let n = length (wal_entries ix) in
      if n = 0 then False
      else if compaction_threshold (wal_config ix) \<le> n then True
      else if 0 < record_count ix then
        let ratio = f64_div (f64_of_int (int n)) (f64_of_int (int (record_count ix)));
            threshold = (if is_finite (compaction_ratio (wal_config ix)) then compaction_ratio (wal_config ix)
                         else f64_of_decimal False 10 (-2))
        in f64_le threshold ratio
      else False)"

text \<open>The mapped bytes and the file are the same; writing one writes the other.\<close>

definition set_record_flags :: "nat \<Rightarrow> 16 word \<Rightarrow> VectorIndex \<Rightarrow> Disk \<Rightarrow> SearchError + (VectorIndex \<times> Disk)" where
  "set_record_flags index fl ix disk =
     and_then (ensure_index ix index) (\<lambda>_.
       let offset = records_offset ix + index * RECORD_SIZE_BYTES + 14 in
       if length (data ix) < offset + 2 then Err (IndexCorrupted FlagsBeyondFile)
       else
         let bytes = take offset (data ix) @ le_bytes 2 (unat fl) @ drop (offset + 2) (data ix)
         in Ok (ix\<lparr>data := bytes\<rparr>, disk\<lparr>main_file := Some bytes\<rparr>))"

text \<open>The log is written anew beside the old one, which it then replaces.\<close>

definition rewrite_wal_sidecar ::
  "(string \<Rightarrow> 32 word) \<Rightarrow> half_ops \<Rightarrow> VectorIndex \<Rightarrow> Disk \<Rightarrow> SearchError + Disk" where
  "rewrite_wal_sidecar crc32 h ix disk =
     (if wal_entries ix = [] then Ok (disk\<lparr>wal_file := remove_wal (wal_file disk)\<rparr>)
      else
        case append_wal_batch crc32 h None (wal_entries ix) (dimension ix) (quantization ix)
               (next_generation (vm_compaction_gen (metadata ix))) of
          (Inl e, _) \<Rightarrow> Err e
        | (Inr _, tmp) \<Rightarrow> Ok (disk\<lparr>wal_file := tmp\<rparr>))"

definition soft_delete_wal_entry ::
  "(string \<Rightarrow> 32 word) \<Rightarrow> half_ops \<Rightarrow> string \<Rightarrow> VectorIndex \<Rightarrow> Disk \<Rightarrow> (SearchError + bool) \<times> VectorIndex \<times> Disk" where
  "soft_delete_wal_entry crc32 h doc_id ix disk =
     (if \<not> list_ex (\<lambda>e. we_doc_id e = doc_id) (wal_entries ix) then (Ok False, ix, disk)
      else
        let ix' = ix\<lparr>wal_entries := filter (\<lambda>e. we_doc_id e \<noteq> doc_id) (wal_entries ix)\<rparr> in
        case rewrite_wal_sidecar crc32 h ix' disk of
          Inl e \<Rightarrow> (Err e, ix, disk)
        | Inr disk' \<Rightarrow> (Ok True, ix', disk'))"

definition soft_delete ::
  "(string \<Rightarrow> 32 word) \<Rightarrow> half_ops \<Rightarrow> string \<Rightarrow> VectorIndex \<Rightarrow> Disk \<Rightarrow> (SearchError + bool) \<times> VectorIndex \<times> Disk" where
  "soft_delete crc32 h doc_id ix disk =
     (case find_index_by_doc_id ix doc_id of
        Inl e \<Rightarrow> (Err e, ix, disk)
      | Inr None \<Rightarrow> soft_delete_wal_entry crc32 h doc_id ix disk
      | Inr (Some index) \<Rightarrow>
          (case record_at ix index of
             Inl e \<Rightarrow> (Err e, ix, disk)
           | Inr entry \<Rightarrow>
               if is_tombstoned_flags (flags entry) then (Ok False, ix, disk)
               else
                 case set_record_flags index (flags entry OR RECORD_FLAG_TOMBSTONE) ix disk of
                   Inl e \<Rightarrow> (Err e, ix, disk)
                 | Inr (ix', disk') \<Rightarrow>
                     (case soft_delete_wal_entry crc32 h doc_id ix' disk' of
                        (Inl e, ix'', disk'') \<Rightarrow>
                          (case set_record_flags index (flags entry) ix'' disk'' of
                             Inl _ \<Rightarrow> (Err e, ix'', disk'')
                           | Inr (ix3, disk3) \<Rightarrow> (Err e, ix3, disk3))
                      | (Inr _, ix'', disk'') \<Rightarrow> (Ok True, ix'', disk''))))"

fun soft_delete_batch ::
  "(string \<Rightarrow> 32 word) \<Rightarrow> half_ops \<Rightarrow> string list \<Rightarrow> VectorIndex \<Rightarrow> Disk \<Rightarrow> nat \<Rightarrow> (SearchError + nat) \<times> VectorIndex \<times> Disk" where
  "soft_delete_batch crc32 h [] ix disk deleted = (Ok deleted, ix, disk)"
| "soft_delete_batch crc32 h (d # ds) ix disk deleted =
     (case soft_delete crc32 h d ix disk of
        (Inl e, ix', disk') \<Rightarrow> (Err e, ix', disk')
      | (Inr b, ix', disk') \<Rightarrow> soft_delete_batch crc32 h ds ix' disk' (if b then deleted + 1 else deleted))"

section \<open>Appending\<close>

definition append_batch ::
  "(string \<Rightarrow> 32 word) \<Rightarrow> half_ops \<Rightarrow> (string \<times> f32 list) list \<Rightarrow> VectorIndex \<Rightarrow> Disk \<Rightarrow> (SearchError + unit) \<times> VectorIndex \<times> Disk" where
  "append_batch crc32 h entries ix disk =
     (if entries = [] then (Ok (), ix, disk)
      else
        case try_map (\<lambda>(doc_id, vector). validate_record (dimension ix) doc_id vector) entries of
          Inl e \<Rightarrow> (Err e, ix, disk)
        | Inr _ \<Rightarrow>
            (let new_entries = map (\<lambda>(doc_id, embedding).
                   \<lparr>we_doc_id = doc_id, we_doc_id_hash = fnv1a_hash doc_id, we_embedding = embedding\<rparr>) entries;
                 (r, file) = append_wal_batch crc32 h (wal_file disk) new_entries (dimension ix) (quantization ix)
                   (next_generation (vm_compaction_gen (metadata ix)));
                 disk' = disk\<lparr>wal_file := file\<rparr>
             in case r of
                  Inl e \<Rightarrow> (Err e, ix, disk')
                | Inr _ \<Rightarrow> (Ok (), ix\<lparr>wal_entries := wal_entries ix @ new_entries\<rparr>, disk')))"

definition append_one ::
  "(string \<Rightarrow> 32 word) \<Rightarrow> half_ops \<Rightarrow> string \<Rightarrow> f32 list \<Rightarrow> VectorIndex \<Rightarrow> Disk \<Rightarrow> (SearchError + unit) \<times> VectorIndex \<times> Disk" where
  "append_one crc32 h doc_id vector ix disk = append_batch crc32 h [(doc_id, vector)] ix disk"

section \<open>Rewriting\<close>

text \<open>An operation that rewrites the file can fail, or panic on a record that cannot be read.\<close>

datatype fault = Panics | Fails SearchError

abbreviation failing :: "SearchError + 'a \<Rightarrow> fault + 'a" where
  "failing r \<equiv> map_sum Fails (\<lambda>x. x) r"

datatype MergeSource = Main nat | Wal nat

definition resolve_sort_key :: "VectorIndex \<Rightarrow> MergeSource \<Rightarrow> fault + (64 word \<times> string)" where
  "resolve_sort_key ix source =
     (case source of
        Main idx \<Rightarrow>
          (case record_at ix idx of
             Inl _ \<Rightarrow> Err Panics
           | Inr entry \<Rightarrow> (case doc_id_at ix idx of Inl _ \<Rightarrow> Err Panics | Inr d \<Rightarrow> Ok (doc_id_hash entry, d)))
      | Wal idx \<Rightarrow>
          if idx < length (wal_entries ix) then Ok (we_doc_id_hash (wal_entries ix ! idx), we_doc_id (wal_entries ix ! idx))
          else Err Panics)"

text \<open>The record table and the document ids, in one pass over the sources.\<close>

fun rewrite_table :: "VectorIndex \<Rightarrow> MergeSource list \<Rightarrow> nat \<Rightarrow> fault + (string \<times> string)" where
  "rewrite_table ix [] offset = Ok ([], [])"
| "rewrite_table ix (source # sources) offset =
     and_then (resolve_sort_key ix source) (\<lambda>(hash, d).
       if 65536 \<le> length d then
         Err (Fails (InvalidConfig ''doc_id_len'' (show_nat (length d)) ''doc_id length exceeds u16''))
       else if 2 ^ 32 \<le> offset + length d then
         Err (Fails (InvalidConfig ''doc_id_offset'' ''overflow'' ''string table offset exceeds u32''))
       else
         and_then (rewrite_table ix sources (offset + length d)) (\<lambda>(table, strings).
           Ok (record_bytes \<lparr>doc_id_hash = hash, doc_id_offset = offset, doc_id_len = length d, flags = 0\<rparr> @ table, d @ strings)))"

definition source_vector :: "half_ops \<Rightarrow> VectorIndex \<Rightarrow> MergeSource \<Rightarrow> fault + string" where
  "source_vector h ix source =
     (case source of
        Main idx \<Rightarrow>
          (let start = vector_start ix idx; len = dimension ix * bytes_per_element (quantization ix) in
           if length (data ix) < start + len then Err Panics else Ok (slice start len (data ix)))
      | Wal idx \<Rightarrow>
          if idx < length (wal_entries ix) then Ok (encode_elements h (quantization ix) (we_embedding (wal_entries ix ! idx)))
          else Err Panics)"

definition rewritten_bytes :: "(string \<Rightarrow> 32 word) \<Rightarrow> half_ops \<Rightarrow> MergeSource list \<Rightarrow> nat \<Rightarrow> VectorIndex \<Rightarrow> fault + string" where
  "rewritten_bytes crc32 h sources new_gen ix =
     (let n = length sources;
          header = build_header_prefix (embedder_id (metadata ix)) (embedder_revision (metadata ix)) (dimension ix) (quantization ix) new_gen n
      in and_then (failing (checked (InvalidConfig ''record_count'' (show_nat n) ''record table size overflow'') (n * RECORD_SIZE_BYTES))) (\<lambda>records_bytes.
         and_then (rewrite_table ix sources 0) (\<lambda>(record_table, strings).
         and_then (failing (header 0)) (\<lambda>provisional_header.
         and_then (failing (checked (InvalidConfig ''layout'' ''overflow'' ''layout offset overflow'')
             (length provisional_header + 4 + records_bytes + length strings))) (\<lambda>pre_vector.
         and_then (failing (align_up pre_vector VECTOR_ALIGN_BYTES)) (\<lambda>voffset.
         and_then (failing (header voffset)) (\<lambda>header_prefix.
         and_then (try_map (source_vector h ix) sources) (\<lambda>vectors.
           Ok (header_prefix @ le_bytes 4 (unat (crc32 header_prefix)) @ record_table @ strings
             @ replicate (voffset - pre_vector) (CHR 0x00) @ concat vectors)))))))))"

definition rewrite_index ::
  "(string \<Rightarrow> 32 word) \<Rightarrow> half_ops \<Rightarrow> MergeSource list \<Rightarrow> nat \<Rightarrow> VectorIndex \<Rightarrow> Disk \<Rightarrow> (fault + unit) \<times> VectorIndex \<times> Disk" where
  "rewrite_index crc32 h sources new_gen ix disk =
     (case rewritten_bytes crc32 h sources new_gen ix of
        Inl f \<Rightarrow> (Err f, ix, disk)
      | Inr bytes \<Rightarrow>
          (let disk' = disk\<lparr>main_file := Some bytes\<rparr> in
           case open_index crc32 h disk' of
             Inl e \<Rightarrow> (Err (Fails e), ix, disk')
           | Inr (reloaded, disk'') \<Rightarrow> (Ok (), reloaded\<lparr>wal_config := wal_config ix\<rparr>, disk'')))"

record VacuumStats =
  records_before :: nat
  records_after :: nat
  tombstones_removed :: nat
  bytes_reclaimed :: nat

definition live_sources :: "VectorIndex \<Rightarrow> MergeSource list" where
  "live_sources ix = map Main (filter (\<lambda>i. \<not> is_deleted ix i) [0..<record_count ix])"

definition vacuum ::
  "(string \<Rightarrow> 32 word) \<Rightarrow> half_ops \<Rightarrow> VectorIndex \<Rightarrow> Disk \<Rightarrow> (fault + VacuumStats) \<times> VectorIndex \<times> Disk" where
  "vacuum crc32 h ix disk =
     (let before = record_count ix in
      if before = 0 \<or> tombstone_count ix = 0 then
        (Ok \<lparr>records_before = before, records_after = before, tombstones_removed = 0, bytes_reclaimed = 0\<rparr>, ix, disk)
      else
        case rewrite_index crc32 h (live_sources ix) (vm_compaction_gen (metadata ix)) ix disk of
          (Inl f, ix', disk') \<Rightarrow> (Err f, ix', disk')
        | (Inr _, ix', disk') \<Rightarrow>
            (Ok \<lparr>records_before = before, records_after = record_count ix', tombstones_removed = before - record_count ix',
                  bytes_reclaimed = length (data ix) - length (data ix')\<rparr>, ix', disk'))"

record CompactionStats =
  main_records_before :: nat
  wal_records :: nat
  total_records_after :: nat

text \<open>All sources, stably sorted by hash and document id.\<close>

definition compaction_sources :: "VectorIndex \<Rightarrow> fault + MergeSource list" where
  "compaction_sources ix =
     (let sources = live_sources ix @ map Wal [0..<length (wal_entries ix)]
      in and_then (try_map (resolve_sort_key ix) sources) (\<lambda>keys. Ok (map snd (sort_key fst (zip keys sources)))))"

definition compact ::
  "(string \<Rightarrow> 32 word) \<Rightarrow> half_ops \<Rightarrow> VectorIndex \<Rightarrow> Disk \<Rightarrow> (fault + CompactionStats) \<times> VectorIndex \<times> Disk" where
  "compact crc32 h ix disk =
     (let main_before = record_count ix; wal_count = length (wal_entries ix) in
      if wal_count = 0 then
        (Ok \<lparr>main_records_before = main_before, wal_records = 0, total_records_after = main_before\<rparr>, ix, disk)
      else
        case compaction_sources ix of
          Inl f \<Rightarrow> (Err f, ix, disk)
        | Inr sources \<Rightarrow>
            (case rewrite_index crc32 h sources (next_generation (vm_compaction_gen (metadata ix))) ix disk of
               (Inl f, ix', disk') \<Rightarrow> (Err f, ix', disk')
             | (Inr _, ix', disk') \<Rightarrow>
                 (Ok \<lparr>main_records_before = main_before, wal_records = wal_count, total_records_after = record_count ix'\<rparr>,
                  ix'\<lparr>wal_entries := []\<rparr>, disk'\<lparr>wal_file := remove_wal (wal_file disk')\<rparr>)))"

section \<open>Records of a laid out file\<close>

lemma slice_concat:
  assumes "\<forall>x \<in> set xs. length (f x) = n" "i < length xs"
  shows "slice (i * n) n (concat (map f xs)) = f (xs ! i)"
proof -
  have "concat (map f xs) = concat (map f (take i xs)) @ f (xs ! i) @ concat (map f (drop (Suc i) xs))"
    using id_take_nth_drop [OF assms(2)] by (metis concat.simps(2) concat_append list.simps(9) map_append)
  moreover have "length (concat (map f (take i xs))) = i * n"
    using assms by (subst length_concat_const [of _ _ n]) (auto dest: in_set_takeD)
  ultimately show ?thesis using assms by (intro slice_at) auto
qed

lemma slice_inner: "start + len \<le> length b \<Longrightarrow> slice (length a + start) len (a @ b @ c) = slice start len b"
  by (simp add: slice_def)

lemma entries_of_nth:
  "i < length rs \<Longrightarrow> entries_of rs offset ! i =
     \<lparr>doc_id_hash = fnv1a_hash (sr_doc (rs ! i)), doc_id_offset = offset + length (strings_of (take i rs)),
      doc_id_len = length (sr_doc (rs ! i)), flags = sr_flags (rs ! i)\<rparr>"
proof (induction rs arbitrary: offset i)
  case (Cons r rs)
  then show ?case by (cases i) simp_all
qed simp

lemma strings_prefix: "i < length rs \<Longrightarrow> strings_of rs = strings_of (take i rs) @ sr_doc (rs ! i) @ strings_of (drop (Suc i) rs)"
  unfolding strings_of_def by (metis concat.simps(2) concat_append id_take_nth_drop list.simps(9) map_append)

lemma unat_bound16: "unat (w :: 16 word) < 256 ^ 2" and unat_bound64: "unat (w' :: 64 word) < 256 ^ 8"
  using unsigned_less [of w] unsigned_less [of w'] by simp_all

lemma read_record_bytes:
  assumes "doc_id_offset e < 2 ^ 32" "doc_id_len e < 65536"
  shows "\<lparr>doc_id_hash = of_nat (le_val (slice 0 8 (record_bytes e))), doc_id_offset = le_val (slice 8 4 (record_bytes e)),
      doc_id_len = le_val (slice 12 2 (record_bytes e)), flags = of_nat (le_val (slice 14 2 (record_bytes e)))\<rparr> = e"
proof -
  have "slice 0 8 (record_bytes e) = le_bytes 8 (unat (doc_id_hash e))"
    by (rule slice_at [of _ "[]"]) (simp_all add: record_bytes_def)
  moreover have "slice 8 4 (record_bytes e) = le_bytes 4 (doc_id_offset e)"
    by (rule slice_at [of _ "le_bytes 8 (unat (doc_id_hash e))"]) (simp_all add: record_bytes_def)
  moreover have "slice 12 2 (record_bytes e) = le_bytes 2 (doc_id_len e)"
    by (rule slice_at [of _ "le_bytes 8 (unat (doc_id_hash e)) @ le_bytes 4 (doc_id_offset e)"]) (simp_all add: record_bytes_def)
  moreover have "slice 14 2 (record_bytes e) = le_bytes 2 (unat (flags e))"
    by (rule slice_at [of _ "le_bytes 8 (unat (doc_id_hash e)) @ le_bytes 4 (doc_id_offset e) @ le_bytes 2 (doc_id_len e)" _ "[]"])
      (simp_all add: record_bytes_def)
  ultimately show ?thesis using assms unat_bound16 unat_bound64 by (simp add: le_val_bytes)
qed

lemma index_of_simps [simp]:
  "data (index_of crc32 ih rs es cfg) = image crc32 ih rs" "metadata (index_of crc32 ih rs es cfg) = meta_of ih rs"
  "records_offset (index_of crc32 ih rs es cfg) = header_length ih" "strings_offset (index_of crc32 ih rs es cfg) = strings_start ih (length rs)"
  "vectors_offset (index_of crc32 ih rs es cfg) = vectors_start ih rs" "wal_entries (index_of crc32 ih rs es cfg) = es"
  "wal_config (index_of crc32 ih rs es cfg) = cfg" "vm_record_count (meta_of ih rs) = length rs" "vm_dimension (meta_of ih rs) = ih_dimension ih"
  "vm_quantization (meta_of ih rs) = ih_quantization ih" "vm_compaction_gen (meta_of ih rs) = ih_gen ih"
  "embedder_id (meta_of ih rs) = ih_id ih" "embedder_revision (meta_of ih rs) = ih_revision ih"
  by (simp_all add: index_of_def meta_of_def)

lemma ensure_index_ok [simp]: "i < record_count ix \<Longrightarrow> ensure_index ix i = Ok ()"
  by (simp add: ensure_index_def)

lemma image_table_slice:
  assumes "i < length rs"
  shows "slice (header_length ih + i * 16) 16 (image crc32 ih rs) = record_bytes (entries_of rs 0 ! i)"
    "header_length ih + i * 16 + 16 \<le> length (image crc32 ih rs)"
proof -
  have i: "i * 16 + 16 \<le> length rs * 16" using assms by linarith
  have "slice (header_length ih + i * 16) 16 (image crc32 ih rs) = slice (i * 16) 16 (table_of rs)"
    using slice_inner [of "i * 16" 16 "table_of rs" "header_with_crc crc32 ih rs"] i by (simp add: image_def)
  also have "\<dots> = record_bytes (entries_of rs 0 ! i)"
    unfolding table_of_def by (rule slice_concat) (simp_all add: assms)
  finally show "slice (header_length ih + i * 16) 16 (image crc32 ih rs) = record_bytes (entries_of rs 0 ! i)" .
  show "header_length ih + i * 16 + 16 \<le> length (image crc32 ih rs)" using i by (simp add: image_def)
qed

lemma record_at_image:
  assumes "image_ok ih rs" "i < length rs"
  shows "record_at (index_of crc32 ih rs es cfg) i = Ok (entries_of rs 0 ! i)"
proof -
  have ok: "record_ok ih (rs ! i)" "length (strings_of rs) < 2 ^ 32" using assms by (simp_all add: image_ok_def list_all_length)
  have "length (strings_of (take i rs)) \<le> length (strings_of rs)" using arg_cong [OF strings_prefix [OF assms(2)], of length] by simp
  then have "doc_id_offset (entries_of rs 0 ! i) < 2 ^ 32" "doc_id_len (entries_of rs 0 ! i) < 65536"
    using ok by (simp_all add: entries_of_nth [OF assms(2)] record_ok_def)
  from read_record_bytes [OF this] show ?thesis
    using image_table_slice [OF assms(2), of ih crc32] assms(2) by (simp add: record_at_def RECORD_SIZE_BYTES_def Let_def)
qed

lemma doc_id_at_image:
  assumes "image_ok ih rs" "i < length rs"
  shows "doc_id_at (index_of crc32 ih rs es cfg) i = Ok (sr_doc (rs ! i))"
proof -
  let ?pre = "header_with_crc crc32 ih rs @ table_of rs" and ?o = "length (strings_of (take i rs))" and ?l = "length (sr_doc (rs ! i))"
  have s: "slice (strings_start ih (length rs) + ?o) ?l (image crc32 ih rs) = sr_doc (rs ! i)"
    by (rule slice_at [of _ "?pre @ strings_of (take i rs)" _ "strings_of (drop (Suc i) rs) @ padding_of ih rs @ concat (map sr_vector rs)"])
      (simp_all add: image_def strings_start_def, subst strings_prefix [OF assms(2)], simp)
  have "?o + ?l \<le> length (strings_of rs)" using arg_cong [OF strings_prefix [OF assms(2)], of length] by simp
  then have "\<not> vectors_start ih rs < strings_start ih (length rs) + ?o + ?l" using vectors_start_bounds(1) [of ih rs] by simp
  moreover have "valid_utf8 (sr_doc (rs ! i))" using assms by (simp add: image_ok_def list_all_length record_ok_def)
  ultimately show ?thesis using s by (simp add: doc_id_at_def record_at_image [OF assms] entries_of_nth assms(2) Let_def add.assoc)
qed

lemma vector_bytes_at_image:
  assumes "image_ok ih rs" "i < length rs"
  shows "vector_bytes_at (index_of crc32 ih rs es cfg) i = Ok (sr_vector (rs ! i))"
proof -
  let ?pre = "header_with_crc crc32 ih rs @ table_of rs @ strings_of rs @ padding_of ih rs" and ?v = "concat (map sr_vector rs)"
  have ok: "\<forall>r \<in> set rs. length (sr_vector r) = stride ih" using assms by (simp add: image_ok_def list_all_iff record_ok_def)
  have i: "i * stride ih + stride ih \<le> length rs * stride ih" using assms(2) by (metis add.commute mult_Suc mult_le_mono1 Suc_leI)
  have l: "length ?v = length rs * stride ih" using ok by (rule length_concat_const)
  have "slice (vectors_start ih rs + i * stride ih) (stride ih) (image crc32 ih rs) = slice (i * stride ih) (stride ih) ?v"
    using slice_inner [of "i * stride ih" "stride ih" ?v ?pre "[]"] i length_image_front [of crc32 ih rs] l by (simp add: image_def)
  also have "\<dots> = sr_vector (rs ! i)" using slice_concat [OF ok assms(2)] .
  moreover have "vectors_start ih rs + i * stride ih + stride ih \<le> length (image crc32 ih rs)"
    using i l length_image_front [of crc32 ih rs] by (simp add: image_def)
  ultimately show ?thesis using assms(2) by (simp add: vector_bytes_at_def vector_start_def Let_def flip: stride_def)
qed

section \<open>The search is exact\<close>

abbreviation rec_hash :: "stored_record \<Rightarrow> 64 word" where "rec_hash r \<equiv> fnv1a_hash (sr_doc r)"

definition hash_sorted :: "stored_record list \<Rightarrow> bool" where
  "hash_sorted rs \<longleftrightarrow> sorted (map rec_hash rs)"

lemma hash_sorted_mono: "hash_sorted rs \<Longrightarrow> i \<le> j \<Longrightarrow> j < length rs \<Longrightarrow> rec_hash (rs ! i) \<le> rec_hash (rs ! j)"
  unfolding hash_sorted_def using sorted_nth_mono [of "map rec_hash rs" i j] by simp

lemma find_hash_between_image:
  assumes "image_ok ih rs" "hash_sorted rs" "high \<le> length rs"
  shows "\<exists>m. find_hash_between (index_of crc32 ih rs es cfg) hash low high = Ok m
    \<and> (case m of Some i \<Rightarrow> i < high \<and> rec_hash (rs ! i) = hash | None \<Rightarrow> \<forall>i. low \<le> i \<and> i < high \<longrightarrow> rec_hash (rs ! i) \<noteq> hash)"
  using assms(3)
proof (induction "high - low" arbitrary: low high rule: less_induct)
  case less
  let ?ix = "index_of crc32 ih rs es cfg"
  define mid where "mid = low + (high - low) div 2"
  show ?case
  proof (cases "low < high")
    case False
    then show ?thesis by (subst find_hash_between.simps) auto
  next
    case True
    then have mid: "low \<le> mid" "mid < high" "mid < length rs" using less.prems by (auto simp: mid_def)
    have e: "record_at ?ix mid = Ok (entries_of rs 0 ! mid)" "doc_id_hash (entries_of rs 0 ! mid) = rec_hash (rs ! mid)"
      using record_at_image [OF assms(1) mid(3)] entries_of_nth [OF mid(3)] by simp_all
    note unfold = find_hash_between.simps [of ?ix hash low high, unfolded Let_def, folded mid_def]
    consider "rec_hash (rs ! mid) < hash" | "rec_hash (rs ! mid) = hash" | "hash < rec_hash (rs ! mid)" by (rule linorder_cases)
    then show ?thesis
    proof cases
      case 1
      then have "find_hash_between ?ix hash low high = find_hash_between ?ix hash (mid + 1) high"
        using True e by (simp add: unfold ord_cmp_def)
      moreover have "rec_hash (rs ! i) \<noteq> hash" if "i \<le> mid" for i using hash_sorted_mono [OF assms(2) that mid(3)] 1 by auto
      moreover obtain m where "find_hash_between ?ix hash (mid + 1) high = Ok m"
          "case m of Some i \<Rightarrow> i < high \<and> rec_hash (rs ! i) = hash | None \<Rightarrow> \<forall>i. mid + 1 \<le> i \<and> i < high \<longrightarrow> rec_hash (rs ! i) \<noteq> hash"
        using less.hyps [of high "mid + 1"] mid less.prems by force
      ultimately show ?thesis by (cases m) (simp_all, metis Suc_leI linorder_not_less)
    next
      case 2
      then show ?thesis using True e mid by (simp add: unfold ord_cmp_def)
    next
      case 3
      then have "find_hash_between ?ix hash low high = find_hash_between ?ix hash low mid"
        using True e by (auto simp: unfold ord_cmp_def dest: less_asym)
      moreover have "rec_hash (rs ! i) \<noteq> hash" if "mid \<le> i" "i < high" for i
        using hash_sorted_mono [OF assms(2) that(1)] that(2) less.prems 3 by auto
      moreover obtain m where "find_hash_between ?ix hash low mid = Ok m"
          "case m of Some i \<Rightarrow> i < mid \<and> rec_hash (rs ! i) = hash | None \<Rightarrow> \<forall>i. low \<le> i \<and> i < mid \<longrightarrow> rec_hash (rs ! i) \<noteq> hash"
        using less.hyps [of mid low] mid less.prems by force
      ultimately show ?thesis using mid(2) by (cases m) (simp_all, metis linorder_not_less)
    qed
  qed
qed

lemma run_start_image:
  assumes "image_ok ih rs" "hash_sorted rs" "i < length rs" "rec_hash (rs ! i) = hash"
  shows "\<exists>f. run_start (index_of crc32 ih rs es cfg) hash i = Ok f \<and> f \<le> i \<and> rec_hash (rs ! f) = hash
    \<and> (\<forall>j < f. rec_hash (rs ! j) \<noteq> hash)"
  using assms(3,4)
proof (induction i)
  case (Suc i)
  then have e: "record_at (index_of crc32 ih rs es cfg) i = Ok (entries_of rs 0 ! i)" "doc_id_hash (entries_of rs 0 ! i) = rec_hash (rs ! i)"
    using record_at_image [OF assms(1), of i] entries_of_nth [of i rs 0] by simp_all
  show ?case
  proof (cases "rec_hash (rs ! i) = hash")
    case True
    then show ?thesis using Suc e by (auto intro: le_SucI)
  next
    case False
    then have "rec_hash (rs ! i) < hash" using hash_sorted_mono [OF assms(2), of i "Suc i"] Suc.prems by auto
    then have "rec_hash (rs ! j) \<noteq> hash" if "j < Suc i" for j using hash_sorted_mono [OF assms(2), of j i] that Suc.prems by fastforce
    then show ?thesis using False e Suc.prems by simp
  qed
qed auto

lemma scan_run_image:
  assumes "image_ok ih rs" "hash_sorted rs" "hash = fnv1a_hash d" "c \<le> length rs"
    and "c < length rs \<Longrightarrow> hash \<le> rec_hash (rs ! c)"
  shows "\<exists>m. scan_run (index_of crc32 ih rs es cfg) d hash c = Ok m
    \<and> (case m of Some i \<Rightarrow> c \<le> i \<and> i < length rs \<and> sr_doc (rs ! i) = d \<and> (\<forall>j. c \<le> j \<and> j < i \<longrightarrow> sr_doc (rs ! j) \<noteq> d)
       | None \<Rightarrow> \<forall>j. c \<le> j \<and> j < length rs \<longrightarrow> sr_doc (rs ! j) \<noteq> d)"
  using assms(4,5)
proof (induction "length rs - c" arbitrary: c rule: less_induct)
  case less
  let ?ix = "index_of crc32 ih rs es cfg"
  note unfold = scan_run.simps [of ?ix d hash c]
  show ?case
  proof (cases "c < length rs")
    case False
    then show ?thesis by (auto simp: unfold)
  next
    case True
    have e: "record_at ?ix c = Ok (entries_of rs 0 ! c)" "doc_id_hash (entries_of rs 0 ! c) = rec_hash (rs ! c)" "doc_id_at ?ix c = Ok (sr_doc (rs ! c))"
      using record_at_image [OF assms(1) True] entries_of_nth [OF True] doc_id_at_image [OF assms(1) True] by simp_all
    consider "rec_hash (rs ! c) \<noteq> hash" | "rec_hash (rs ! c) = hash" "sr_doc (rs ! c) = d" | "rec_hash (rs ! c) = hash" "sr_doc (rs ! c) \<noteq> d" by blast
    then show ?thesis
    proof cases
      case 1
      then have "hash < rec_hash (rs ! c)" using less.prems(2) True by auto
      then have "sr_doc (rs ! j) \<noteq> d" if "c \<le> j" "j < length rs" for j
        using hash_sorted_mono [OF assms(2) that] assms(3) by auto
      then show ?thesis using 1 e True by (simp add: unfold)
    next
      case 2
      then show ?thesis using e True by (auto simp: unfold)
    next
      case 3
      have "Suc c < length rs \<Longrightarrow> hash \<le> rec_hash (rs ! Suc c)" using hash_sorted_mono [OF assms(2), of c "Suc c"] 3 by simp
      then obtain m where m: "scan_run ?ix d hash (Suc c) = Ok m"
          "case m of Some i \<Rightarrow> Suc c \<le> i \<and> i < length rs \<and> sr_doc (rs ! i) = d \<and> (\<forall>j. Suc c \<le> j \<and> j < i \<longrightarrow> sr_doc (rs ! j) \<noteq> d)
           | None \<Rightarrow> \<forall>j. Suc c \<le> j \<and> j < length rs \<longrightarrow> sr_doc (rs ! j) \<noteq> d"
        using less.hyps [of "Suc c", OF diff_less_mono2] True by auto
      then show ?thesis using 3 e True by (auto simp: unfold split: option.splits) (metis Suc_leI le_neq_implies_less)+
    qed
  qed
qed

text \<open>A search by document id gives the first record of the document, and none only if there is none.\<close>

definition first_record :: "stored_record list \<Rightarrow> string \<Rightarrow> nat option \<Rightarrow> bool" where
  "first_record rs d m \<longleftrightarrow> (case m of
     None \<Rightarrow> d \<notin> sr_doc ` set rs
   | Some i \<Rightarrow> i < length rs \<and> sr_doc (rs ! i) = d \<and> (\<forall>j < i. sr_doc (rs ! j) \<noteq> d))"

lemma find_index_by_doc_id_image:
  assumes "image_ok ih rs" "hash_sorted rs"
  shows "\<exists>m. find_index_by_doc_id (index_of crc32 ih rs es cfg) d = Ok m \<and> first_record rs d m"
proof -
  let ?ix = "index_of crc32 ih rs es cfg" and ?h = "fnv1a_hash d"
  obtain m where m: "find_hash_between ?ix ?h 0 (length rs) = Ok m"
      "case m of Some i \<Rightarrow> i < length rs \<and> rec_hash (rs ! i) = ?h | None \<Rightarrow> \<forall>i. 0 \<le> i \<and> i < length rs \<longrightarrow> rec_hash (rs ! i) \<noteq> ?h"
    using find_hash_between_image [OF assms order.refl] by blast
  show ?thesis
  proof (cases m)
    case None
    then have "d \<notin> sr_doc ` set rs" using m(2) by (auto simp: in_set_conv_nth)
    then show ?thesis using None m(1) by (simp add: find_index_by_doc_id_def find_first_hash_match_def first_record_def)
  next
    case (Some i)
    then obtain f where f: "run_start ?ix ?h i = Ok f" "f \<le> i" "rec_hash (rs ! f) = ?h" "\<forall>j < f. rec_hash (rs ! j) \<noteq> ?h"
      using run_start_image [OF assms, of i ?h crc32 es cfg] m(2) by auto
    have "f < length rs" using f(2) Some m(2) by simp
    then obtain m' where m': "scan_run ?ix d ?h f = Ok m'"
        "case m' of Some i \<Rightarrow> f \<le> i \<and> i < length rs \<and> sr_doc (rs ! i) = d \<and> (\<forall>j. f \<le> j \<and> j < i \<longrightarrow> sr_doc (rs ! j) \<noteq> d)
         | None \<Rightarrow> \<forall>j. f \<le> j \<and> j < length rs \<longrightarrow> sr_doc (rs ! j) \<noteq> d"
      using scan_run_image [OF assms refl, of f d crc32 es cfg] f(3) by auto
    have "first_record rs d m'"
      using m'(2) f(4) by (auto simp: first_record_def in_set_conv_nth split: option.splits) (metis linorder_not_less)+
    then show ?thesis using Some m(1) m'(1) f(1) by (simp add: find_index_by_doc_id_def find_first_hash_match_def)
  qed
qed

section \<open>A rewrite lays out its sources\<close>

definition entry_fits :: "index_header \<Rightarrow> WalEntry \<Rightarrow> bool" where
  "entry_fits ih e \<longleftrightarrow> entry_ok (ih_dimension ih) e \<and> we_doc_id_hash e = fnv1a_hash (we_doc_id e)"

definition entry_record :: "half_ops \<Rightarrow> index_header \<Rightarrow> WalEntry \<Rightarrow> stored_record" where
  "entry_record h ih e = \<lparr>sr_doc = we_doc_id e, sr_flags = 0, sr_vector = encode_elements h (ih_quantization ih) (we_embedding e)\<rparr>"

fun source_record :: "half_ops \<Rightarrow> index_header \<Rightarrow> stored_record list \<Rightarrow> WalEntry list \<Rightarrow> MergeSource \<Rightarrow> stored_record" where
  "source_record h ih rs es (Main i) = (rs ! i)\<lparr>sr_flags := 0\<rparr>"
| "source_record h ih rs es (Wal i) = entry_record h ih (es ! i)"

fun source_ok :: "stored_record list \<Rightarrow> WalEntry list \<Rightarrow> MergeSource \<Rightarrow> bool" where
  "source_ok rs es (Main i) \<longleftrightarrow> i < length rs"
| "source_ok rs es (Wal i) \<longleftrightarrow> i < length es"

lemma resolve_source:
  assumes "image_ok ih rs" "list_all (entry_fits ih) es" "source_ok rs es src"
  shows "resolve_sort_key (index_of crc32 ih rs es cfg) src
    = Ok (rec_hash (source_record h ih rs es src), sr_doc (source_record h ih rs es src))"
  using assms record_at_image [OF assms(1)] doc_id_at_image [OF assms(1)]
  by (cases src) (auto simp: resolve_sort_key_def entries_of_nth entry_record_def entry_fits_def list_all_length)

lemma source_vector_ok:
  assumes "image_ok ih rs" "source_ok rs es src"
  shows "source_vector h (index_of crc32 ih rs es cfg) src = Ok (sr_vector (source_record h ih rs es src))"
proof (cases src)
  case (Main i)
  then have "vector_bytes_at (index_of crc32 ih rs es cfg) i = Ok (sr_vector (rs ! i))"
    using vector_bytes_at_image [OF assms(1)] assms(2) by simp
  then show ?thesis using Main assms(2) by (auto simp: vector_bytes_at_def source_vector_def Let_def split: if_splits)
qed (use assms(2) in \<open>simp add: source_vector_def entry_record_def\<close>)

lemma rewrite_table_sources:
  assumes "image_ok ih rs" "list_all (entry_fits ih) es" "list_all (source_ok rs es) srcs"
    and "list_all (record_ok ih) (map (source_record h ih rs es) srcs)"
    and "offset + length (strings_of (map (source_record h ih rs es) srcs)) < 2 ^ 32"
  shows "rewrite_table (index_of crc32 ih rs es cfg) srcs offset
    = Ok (concat (map record_bytes (entries_of (map (source_record h ih rs es) srcs) offset)), strings_of (map (source_record h ih rs es) srcs))"
  using assms(3-5)
proof (induction srcs arbitrary: offset)
  case (Cons src srcs)
  let ?r = "source_record h ih rs es src"
  have "rewrite_table (index_of crc32 ih rs es cfg) srcs (offset + length (sr_doc ?r))
      = Ok (concat (map record_bytes (entries_of (map (source_record h ih rs es) srcs) (offset + length (sr_doc ?r)))),
            strings_of (map (source_record h ih rs es) srcs))"
    using Cons.prems by (intro Cons.IH) simp_all
  moreover have "resolve_sort_key (index_of crc32 ih rs es cfg) src = Ok (rec_hash ?r, sr_doc ?r)"
    using resolve_source [OF assms(1,2)] Cons.prems(1) by simp
  moreover have "length (sr_doc ?r) < 65536" "sr_flags ?r = 0"
    using Cons.prems(2) by (simp_all add: record_ok_def entry_record_def) (cases src; simp add: entry_record_def)
  ultimately show ?case using Cons.prems(3) by simp
qed simp

lemma try_map_Ok: "\<forall>x \<in> set xs. f x = Inr (g x) \<Longrightarrow> try_map f xs = Inr (map g xs)"
  by (induction xs) simp_all

lemma rewritten_bytes_image:
  assumes "image_ok ih rs" "list_all (entry_fits ih) es" "list_all (source_ok rs es) srcs"
    and "image_ok (ih\<lparr>ih_gen := g\<rparr>) (map (source_record h ih rs es) srcs)"
  shows "rewritten_bytes crc32 h srcs g (index_of crc32 ih rs es cfg) = Ok (image crc32 (ih\<lparr>ih_gen := g\<rparr>) (map (source_record h ih rs es) srcs))"
proof -
  let ?rs = "map (source_record h ih rs es) srcs" and ?ih = "ih\<lparr>ih_gen := g\<rparr>"
  have ok: "header_ok ?ih" "list_all (record_ok ih) ?rs" "length (strings_of ?rs) < 2 ^ 32"
    using assms(4) by (simp_all add: image_ok_def list_all_iff record_ok_def stride_def)
  have hp: "build_header_prefix (ih_id ih) (ih_revision ih) (ih_dimension ih) (ih_quantization ih) g n v = Ok (header_prefix ?ih n v)" for n v
    using build_header_prefix_ok [OF ok(1)] by simp
  have table: "rewrite_table (index_of crc32 ih rs es cfg) srcs 0 = Ok (table_of ?rs, strings_of ?rs)"
    using rewrite_table_sources [OF assms(1-3) ok(2)] ok(3) by (simp add: table_of_def)
  have "\<forall>src \<in> set srcs. source_vector h (index_of crc32 ih rs es cfg) src = Ok (sr_vector (source_record h ih rs es src))"
    using source_vector_ok [OF assms(1)] assms(3) by (simp add: list_all_iff)
  from try_map_Ok [OF this] have vectors: "try_map (source_vector h (index_of crc32 ih rs es cfg)) srcs = Ok (map sr_vector ?rs)"
    by (simp add: comp_def)
  note b = image_ok_bounds [OF assms(4)] and a = align_up_vectors [OF assms(4)]
  have l: "length (header_prefix ?ih (length ?rs) 0) + 4 = header_length ?ih" by simp
  have pad: "replicate (vectors_start ?ih ?rs - (header_length ?ih + length ?rs * 16 + length (strings_of ?rs))) (CHR 0x00) = padding_of ?ih ?rs"
    by (simp add: padding_of_def strings_start_def)
  have n: "length srcs = length ?rs" by simp
  show ?thesis
    unfolding rewritten_bytes_def Let_def index_of_simps n hp table vectors and_then.simps map_sum.simps prod.case l
    using b a pad by (simp add: checked_def RECORD_SIZE_BYTES_def image_def header_with_crc_def Let_def)
qed

end
