(* ===== verification/Fs_Store.thy ===== *)
theory Fs_Store
  imports Fs_Index
begin

text \<open>
  The vector index as a store of documents: its contents are the multiset of the documents and
  vectors that are not deleted, in the main file or in the log. Compaction and vacuum change the
  files and keep the contents; deleting and appending change the contents as they should.
\<close>

section \<open>Contents\<close>

definition live_documents :: "half_ops \<Rightarrow> VectorIndex \<Rightarrow> ((SearchError + string) \<times> (SearchError + string)) multiset" where
  "live_documents h ix =
     mset (map (\<lambda>i. (doc_id_at ix i, vector_bytes_at ix i)) (filter (\<lambda>i. \<not> is_deleted ix i) [0..<record_count ix]))
     + mset (map (\<lambda>e. (Ok (we_doc_id e), Ok (encode_elements h (quantization ix) (we_embedding e)))) (wal_entries ix))"

abbreviation live :: "stored_record \<Rightarrow> bool" where "live r \<equiv> \<not> is_tombstoned_flags (sr_flags r)"

definition record_pair :: "stored_record \<Rightarrow> (SearchError + string) \<times> (SearchError + string)" where
  "record_pair r = (Ok (sr_doc r), Ok (sr_vector r))"

lemma is_deleted_image: "image_ok ih rs \<Longrightarrow> i < length rs \<Longrightarrow> is_deleted (index_of crc32 ih rs es cfg) i \<longleftrightarrow> \<not> live (rs ! i)"
  by (simp add: is_deleted_def record_at_image entries_of_nth)

lemma filter_positions: "map (\<lambda>i. f (xs ! i)) (filter (\<lambda>i. P (xs ! i)) [0..<length xs]) = map f (filter P xs)"
proof -
  have "map f (filter P (map (\<lambda>i. xs ! i) [0..<length xs])) = map (\<lambda>i. f (xs ! i)) (filter (\<lambda>i. P (xs ! i)) [0..<length xs])"
    by (simp add: filter_map comp_def)
  then show ?thesis by (simp add: map_nth)
qed

lemma live_filter:
  assumes "image_ok ih rs"
  shows "filter (\<lambda>i. \<not> is_deleted (index_of crc32 ih rs es cfg) i) [0..<length rs] = filter (\<lambda>i. live (rs ! i)) [0..<length rs]"
  by (rule filter_cong) (simp_all add: is_deleted_image [OF assms])

lemma live_image:
  assumes "image_ok ih rs"
  shows "live_documents h (index_of crc32 ih rs es cfg) = image_mset record_pair (mset (filter live rs @ map (entry_record h ih) es))"
proof -
  have "map (\<lambda>i. (doc_id_at (index_of crc32 ih rs es cfg) i, vector_bytes_at (index_of crc32 ih rs es cfg) i)) (filter (\<lambda>i. live (rs ! i)) [0..<length rs])
      = map (\<lambda>i. record_pair (rs ! i)) (filter (\<lambda>i. live (rs ! i)) [0..<length rs])"
    by (rule map_cong [OF refl]) (simp add: doc_id_at_image [OF assms] vector_bytes_at_image [OF assms] record_pair_def)
  also have "\<dots> = map record_pair (filter live rs)" by (rule filter_positions)
  finally show ?thesis
    by (simp add: live_documents_def live_filter [OF assms] record_pair_def entry_record_def multiset.map_comp comp_def)
qed

section \<open>Sound states\<close>

text \<open>
  Halves survive the way through \<open>f32\<close> that a log makes them take: the conversion of the \<open>half\<close> crate
  to \<open>f32\<close> is exact.
\<close>

definition half_stable :: "half_ops \<Rightarrow> bool" where
  "half_stable h \<longleftrightarrow> (\<forall>v. from_f32 h (to_f32 h (from_f32 h v)) = from_f32 h v)"

text \<open>The mapped file is a sorted layout, the file on disk is the same, and the log has the entries in memory.\<close>

definition store_parts :: "(string \<Rightarrow> 32 word) \<Rightarrow> half_ops \<Rightarrow> index_header \<Rightarrow> stored_record list \<Rightarrow> WalEntry list list \<Rightarrow> VectorIndex \<Rightarrow> Disk \<Rightarrow> bool" where
  "store_parts crc32 h ih rs bs ix disk \<longleftrightarrow>
     ix = index_of crc32 ih rs (wal_entries ix) (wal_config ix) \<and> image_ok ih rs \<and> hash_sorted rs
     \<and> list_all (entry_fits ih) (wal_entries ix) \<and> length (wal_entries ix) < 2 ^ 32
     \<and> main_file disk = Some (image crc32 ih rs)
     \<and> log_holds crc32 h (ih_dimension ih) (ih_quantization ih) (next_generation (ih_gen ih)) bs (wal_file disk)
     \<and> map (entry_record h ih) (concat bs) = map (entry_record h ih) (wal_entries ix)"

definition store_ok :: "(string \<Rightarrow> 32 word) \<Rightarrow> half_ops \<Rightarrow> VectorIndex \<Rightarrow> Disk \<Rightarrow> bool" where
  "store_ok crc32 h ix disk \<longleftrightarrow> (\<exists>ih rs bs. store_parts crc32 h ih rs bs ix disk)"

lemma encode_requantized: "half_stable h \<Longrightarrow> encode_element h q (requantize h q v) = encode_element h q v"
  by (simp add: half_stable_def encode_element_def requantize_def split: Quantization.splits)

lemma entry_record_stored: "half_stable h \<Longrightarrow> entry_record h ih (stored h (ih_quantization ih) e) = entry_record h ih e"
  by (simp add: entry_record_def stored_def encode_elements_def encode_requantized comp_def)

lemma stored_fits: "entry_ok (ih_dimension ih) e \<Longrightarrow> entry_fits ih (stored h q e)"
  by (simp add: entry_fits_def entry_ok_def stored_def)

text \<open>How large the rewritten file becomes.\<close>

definition layout_fits :: "index_header \<Rightarrow> stored_record list \<Rightarrow> bool" where
  "layout_fits ih rs \<longleftrightarrow> length (strings_of rs) < 2 ^ 32
     \<and> header_length ih + length rs * 16 + length (strings_of rs) + 63 + length rs * stride ih \<le> USIZE_MAX"

lemma image_okI:
  assumes "header_ok ih" "list_all (record_ok ih) rs" "layout_fits ih rs"
  shows "image_ok ih rs"
  using assms vectors_start_bounds(2) [of ih rs] unfolding image_ok_def layout_fits_def strings_start_def by linarith

section \<open>Sorting\<close>

abbreviation rec_key :: "stored_record \<Rightarrow> 64 word \<times> string" where "rec_key r \<equiv> (rec_hash r, sr_doc r)"

lemma insort_key_map: "insort_key f (g x) (map g xs) = map g (insort_key (\<lambda>x. f (g x)) x xs)"
  by (induction xs) simp_all

lemma sort_key_map: "sort_key f (map g xs) = map g (sort_key (\<lambda>x. f (g x)) xs)"
  by (induction xs) (simp_all add: insort_key_map)

lemma sort_zip_keys: "map snd (sort_key fst (zip (map k xs) xs)) = sort_key k xs"
proof -
  have "zip (map k xs) xs = map (\<lambda>x. (k x, x)) xs" by (induction xs) simp_all
  then show ?thesis by (simp add: sort_key_map comp_def)
qed

lemma sort_hash_sorted: "hash_sorted (sort_key rec_key rs)"
proof -
  have "sorted_wrt (\<lambda>a b. rec_key a \<le> rec_key b) (sort_key rec_key rs)" using sorted_sort_key [of rec_key rs] by (simp add: sorted_map)
  then have "sorted_wrt (\<lambda>a b. rec_hash a \<le> rec_hash b) (sort_key rec_key rs)"
    by (rule sorted_wrt_mono_rel [rotated]) (auto simp: less_eq_prod_def)
  then show ?thesis by (simp add: hash_sorted_def sorted_map)
qed

lemma strings_length_mset: "mset rs = mset rs' \<Longrightarrow> length (strings_of rs) = length (strings_of rs')"
proof -
  assume m: "mset rs = mset rs'"
  have "length (strings_of xs) = sum_list (map (\<lambda>r. length (sr_doc r)) xs)" for xs by (induction xs) simp_all
  then show ?thesis using m by (metis mset_map sum_mset_sum_list)
qed

lemma layout_fits_mset: "mset rs = mset rs' \<Longrightarrow> layout_fits ih rs = layout_fits ih rs'"
  using strings_length_mset [of rs rs'] mset_eq_length [of rs rs'] by (simp add: layout_fits_def)

section \<open>Rewriting\<close>

text \<open>What a rewrite of the live records makes of them.\<close>

definition cleared :: "stored_record list \<Rightarrow> stored_record list" where
  "cleared rs = map (\<lambda>r. r\<lparr>sr_flags := 0\<rparr>) (filter live rs)"

lemma live_sources_image:
  assumes "image_ok ih rs"
  shows "map (source_record h ih rs es) (live_sources (index_of crc32 ih rs es cfg)) = cleared rs"
    "list_all (source_ok rs es) (live_sources (index_of crc32 ih rs es cfg))"
proof -
  show "map (source_record h ih rs es) (live_sources (index_of crc32 ih rs es cfg)) = cleared rs"
    using filter_positions [of "\<lambda>r. r\<lparr>sr_flags := 0\<rparr>" rs live]
    by (simp add: live_sources_def cleared_def live_filter [OF assms] comp_def)
  show "list_all (source_ok rs es) (live_sources (index_of crc32 ih rs es cfg))"
    by (simp add: live_sources_def live_filter [OF assms] list_all_iff)
qed

lemma wal_sources:
  "map (source_record h ih rs es) (map Wal [0..<length es]) = map (entry_record h ih) es"
  "list_all (source_ok rs es) (map Wal [0..<length es])"
proof -
  have "map (\<lambda>i. entry_record h ih (es ! i)) [0..<length es] = map (entry_record h ih) (map (\<lambda>i. es ! i) [0..<length es])" by simp
  then show "map (source_record h ih rs es) (map Wal [0..<length es]) = map (entry_record h ih) es"
    by (simp only: map_nth) (simp add: comp_def)
qed (simp add: list_all_iff)

lemma compaction_sources_image:
  assumes "image_ok ih rs" "list_all (entry_fits ih) es"
  obtains srcs where "compaction_sources (index_of crc32 ih rs es cfg) = Ok srcs" "list_all (source_ok rs es) srcs"
    "map (source_record h ih rs es) srcs = sort_key rec_key (cleared rs @ map (entry_record h ih) es)"
proof -
  let ?ix = "index_of crc32 ih rs es cfg" and ?rec = "source_record h ih rs es"
  define all where "all = live_sources ?ix @ map Wal [0..<length es]"
  have ok: "list_all (source_ok rs es) all" using live_sources_image(2) [OF assms(1)] wal_sources(2) by (simp add: all_def)
  then have "\<forall>src \<in> set all. resolve_sort_key ?ix src = Ok (rec_key (?rec src))"
    using resolve_source [OF assms] by (simp add: list_all_iff)
  from try_map_Ok [OF this] have 1: "compaction_sources ?ix = Ok (sort_key (\<lambda>src. rec_key (?rec src)) all)"
    by (simp add: compaction_sources_def all_def [symmetric] sort_zip_keys)
  have 2: "list_all (source_ok rs es) (sort_key (\<lambda>src. rec_key (?rec src)) all)" using ok by (simp add: list_all_iff)
  have 3: "map ?rec (sort_key (\<lambda>src. rec_key (?rec src)) all) = sort_key rec_key (map ?rec all)" by (simp only: sort_key_map)
  have 4: "map ?rec all = cleared rs @ map (entry_record h ih) es"
    using live_sources_image(1) [OF assms(1), of h es crc32 cfg] wal_sources(1) [of h ih rs es] by (simp add: all_def)
  show thesis by (rule that [OF 1 2]) (simp only: 3 4)
qed

lemma cleared_ok: "list_all (record_ok ih) rs \<Longrightarrow> list_all (record_ok ih) (cleared rs)"
  by (auto simp: cleared_def list_all_iff record_ok_def)

lemma entry_record_ok: "list_all (entry_fits ih) es \<Longrightarrow> list_all (record_ok ih) (map (entry_record h ih) es)"
  by (auto simp: list_all_iff entry_fits_def entry_ok_def record_ok_def entry_record_def stride_def)

lemma not_tombstoned_0 [simp]: "\<not> is_tombstoned_flags 0"
  by (simp add: is_tombstoned_flags_def)

lemma cleared_live: "filter live (cleared rs) = cleared rs" "map record_pair (cleared rs) = map record_pair (filter live rs)"
  by (simp_all add: cleared_def filter_id_conv record_pair_def comp_def)

lemma entries_live: "filter live (map (entry_record h ih) es) = map (entry_record h ih) es"
  by (simp add: filter_id_conv entry_record_def)

lemma image_gen_simps [simp]: "header_length (ih\<lparr>ih_gen := g\<rparr>) = header_length ih" "stride (ih\<lparr>ih_gen := g\<rparr>) = stride ih"
    "layout_fits (ih\<lparr>ih_gen := g\<rparr>) rs = layout_fits ih rs" "entry_record h (ih\<lparr>ih_gen := g\<rparr>) e = entry_record h ih e"
    "record_ok (ih\<lparr>ih_gen := g\<rparr>) r = record_ok ih r"
  by (simp_all add: header_length_def stride_def layout_fits_def entry_record_def record_ok_def)

lemma next_generation_neq: "next_generation g \<noteq> g" and next_generation_small: "g < 256 \<Longrightarrow> next_generation g < 256"
  by (auto simp: next_generation_def)

text \<open>A log of the generation before is dropped.\<close>

lemma load_stale:
  assumes "d < 2 ^ 32" "gen < 256" "log_holds crc32 h d q (next_generation gen) bs file"
  shows "\<exists>file'. load_wal crc32 h d q (next_generation gen) file = Ok ([], file') \<and> (file' = None \<or> file' = Some [])"
proof -
  have "batch_ok d []" by (simp add: batch_ok_def)
  moreover have "strict_prefix [] (batch_bytes crc32 h q [])" using length_batch_bytes [of crc32 h q "[]"] by (cases "batch_bytes crc32 h q []") auto
  ultimately have p: "parse_wal_bytes crc32 h (log_bytes crc32 h d q (next_generation gen) bs) d q
      = Ok (concat (map (map (stored h q)) bs), next_generation gen, length (log_bytes crc32 h d q (next_generation gen) bs))"
    if "list_all (batch_ok d) bs"
    using parse_wal_bytes_header [OF assms(1), of "next_generation gen"] next_generation_range [OF assms(2)]
      parse_batches_encoded [OF that, of "[]" "[]" crc32 h q "header_bytes crc32 d q (next_generation gen)"] length_header [OF assms(1), of crc32 q]
    by (simp add: log_bytes_def)
  consider "file = None \<or> file = Some []" | "list_all (batch_ok d) bs" "file = Some (log_bytes crc32 h d q (next_generation gen) bs)"
    using assms(3) by (auto simp: log_holds_def)
  then show ?thesis
  proof cases
    case 1
    then show ?thesis by (intro exI [of _ "file"]) (elim disjE, simp_all add: load_wal_def read_wal_def WAL_HEADER_SIZE_def)
  next
    case 2
    have l: "20 \<le> length (log_bytes crc32 h d q (next_generation gen) bs)" using length_header [OF assms(1), of crc32 q] by (simp add: log_bytes_def)
    have g: "next_generation gen \<noteq> 0" using next_generation_range [OF assms(2)] by simp
    have "0 < length (log_bytes crc32 h d q (next_generation gen) bs)" "\<not> length (log_bytes crc32 h d q (next_generation gen) bs) < 20" using l by linarith+
    then show ?thesis using p [OF 2(1)] g next_generation_neq [of "next_generation gen"]
      by (simp add: 2(2) load_wal_def read_wal_def WAL_HEADER_SIZE_def)
  qed
qed

text \<open>The contents have room in one file: offsets of document ids in 32 bits, offsets in the file in 64.\<close>

definition id_length :: "(SearchError + string) \<times> (SearchError + string) \<Rightarrow> nat" where
  "id_length p = (case fst p of Inr d \<Rightarrow> length d | Inl _ \<Rightarrow> 0)"

definition contents_fit :: "half_ops \<Rightarrow> VectorIndex \<Rightarrow> bool" where
  "contents_fit h ix \<longleftrightarrow>
     (let n = size (live_documents h ix); ids = sum_mset (image_mset id_length (live_documents h ix)) in
      ids < 2 ^ 32 \<and> 38 + length (embedder_id (metadata ix)) + length (embedder_revision (metadata ix))
        + n * 16 + ids + 63 + n * (dimension ix * bytes_per_element (quantization ix)) \<le> USIZE_MAX)"

lemma strings_length: "length (strings_of rs) = sum_list (map (\<lambda>r. length (sr_doc r)) rs)"
  by (induction rs) simp_all

lemma contents_fit_image:
  assumes "image_ok ih rs"
  shows "contents_fit h (index_of crc32 ih rs es cfg) \<longleftrightarrow> layout_fits ih (cleared rs @ map (entry_record h ih) es)"
proof -
  let ?all = "cleared rs @ map (entry_record h ih) es"
  have "image_mset record_pair (mset (filter live rs @ map (entry_record h ih) es)) = mset (map record_pair ?all)"
    by (simp only: mset_map [symmetric] map_append cleared_live(2))
  then have l: "live_documents h (index_of crc32 ih rs es cfg) = mset (map record_pair ?all)" by (simp only: live_image [OF assms])
  have "sum_mset (image_mset id_length (mset (map record_pair ?all))) = sum_list (map id_length (map record_pair ?all))"
    by (simp only: mset_map [symmetric] sum_mset_sum_list)
  also have "\<dots> = length (strings_of ?all)" by (simp only: strings_length map_map) (simp add: id_length_def record_pair_def comp_def)
  finally have "sum_mset (image_mset id_length (live_documents h (index_of crc32 ih rs es cfg))) = length (strings_of ?all)" unfolding l .
  moreover have "size (live_documents h (index_of crc32 ih rs es cfg)) = length ?all" unfolding l by (simp only: size_mset length_map)
  ultimately show ?thesis unfolding contents_fit_def Let_def layout_fits_def by (simp only: index_of_simps header_length_def stride_def)
qed

text \<open>The result of a rewrite, when the log can be loaded.\<close>

lemma rewrite_index_image:
  assumes "image_ok ih rs" "list_all (entry_fits ih) es" "list_all (source_ok rs es) srcs" "g < 256"
    and "map (source_record h ih rs es) srcs = rs'" "image_ok (ih\<lparr>ih_gen := g\<rparr>) rs'"
    and "load_wal crc32 h (ih_dimension ih) (ih_quantization ih) g (wal_file disk) = Ok (entries, wal')"
  shows "rewrite_index crc32 h srcs g (index_of crc32 ih rs es cfg) disk
      = (Ok (), index_of crc32 (ih\<lparr>ih_gen := g\<rparr>) rs' entries cfg, disk\<lparr>main_file := Some (image crc32 (ih\<lparr>ih_gen := g\<rparr>) rs'), wal_file := wal'\<rparr>)"
proof -
  have b: "rewritten_bytes crc32 h srcs g (index_of crc32 ih rs es cfg) = Ok (image crc32 (ih\<lparr>ih_gen := g\<rparr>) rs')"
    using rewritten_bytes_image [OF assms(1-3), of g h] assms(6) unfolding assms(5) by simp
  have "open_index crc32 h (disk\<lparr>main_file := Some (image crc32 (ih\<lparr>ih_gen := g\<rparr>) rs')\<rparr>)
      = Ok (index_of crc32 (ih\<lparr>ih_gen := g\<rparr>) rs' entries default_wal_config,
          disk\<lparr>main_file := Some (image crc32 (ih\<lparr>ih_gen := g\<rparr>) rs'), wal_file := wal'\<rparr>)"
    using open_image [OF assms(6)] assms(7) by simp
  moreover have "index_of crc32 ih' rs'' entries cfg'\<lparr>wal_config := cfg\<rparr> = index_of crc32 ih' rs'' entries cfg" for ih' rs'' cfg'
    by (simp add: index_of_def)
  ultimately show "rewrite_index crc32 h srcs g (index_of crc32 ih rs es cfg) disk
      = (Ok (), index_of crc32 (ih\<lparr>ih_gen := g\<rparr>) rs' entries cfg, disk\<lparr>main_file := Some (image crc32 (ih\<lparr>ih_gen := g\<rparr>) rs'), wal_file := wal'\<rparr>)"
    by (simp add: rewrite_index_def b)
qed

lemma sort_record_facts:
  "mset (sort_key rec_key rs) = mset rs" "list_all (record_ok ih) rs \<Longrightarrow> list_all (record_ok ih) (sort_key rec_key rs)"
  "layout_fits ih rs \<Longrightarrow> layout_fits ih (sort_key rec_key rs)"
  using layout_fits_mset [of "sort_key rec_key rs" rs] by (simp_all add: list_all_iff)

section \<open>Compaction\<close>

lemma tombstones_image:
  assumes "image_ok ih rs"
  shows "tombstone_count (index_of crc32 ih rs es cfg) = length (filter (\<lambda>r. \<not> live r) rs)"
proof -
  have "filter (is_deleted (index_of crc32 ih rs es cfg)) [0..<length rs] = filter (\<lambda>i. \<not> live (rs ! i)) [0..<length rs]"
    by (rule filter_cong) (simp_all add: is_deleted_image [OF assms])
  then show ?thesis using arg_cong [OF filter_positions [of "\<lambda>r. r" rs "\<lambda>r. \<not> live r"], of length] by (simp add: tombstone_count_def)
qed

definition compacted :: "half_ops \<Rightarrow> index_header \<Rightarrow> stored_record list \<Rightarrow> WalEntry list \<Rightarrow> stored_record list" where
  "compacted h ih rs es = sort_key rec_key (cleared rs @ map (entry_record h ih) es)"

lemma compacted_facts:
  assumes "image_ok ih rs" "list_all (entry_fits ih) es"
  shows "hash_sorted (compacted h ih rs es)" "list_all (record_ok ih) (compacted h ih rs es)"
    "filter live (compacted h ih rs es) = compacted h ih rs es"
    "image_mset record_pair (mset (compacted h ih rs es)) = live_documents h (index_of crc32 ih rs es cfg)"
proof -
  let ?all = "cleared rs @ map (entry_record h ih) es"
  have m: "mset (compacted h ih rs es) = mset ?all" "set (compacted h ih rs es) = set ?all"
    by (simp_all only: compacted_def mset_sort set_sort)
  have ok: "list_all (record_ok ih) ?all"
    using cleared_ok [of ih rs] entry_record_ok [OF assms(2), of h] assms(1) by (simp add: image_ok_def)
  show "hash_sorted (compacted h ih rs es)" unfolding compacted_def by (rule sort_hash_sorted)
  show "list_all (record_ok ih) (compacted h ih rs es)" using ok unfolding list_all_iff m(2) .
  have "filter live ?all = ?all" by (simp only: filter_append cleared_live(1) entries_live)
  then show "filter live (compacted h ih rs es) = compacted h ih rs es" unfolding filter_id_conv m(2) .
  show "image_mset record_pair (mset (compacted h ih rs es)) = live_documents h (index_of crc32 ih rs es cfg)"
    unfolding m(1) live_image [OF assms(1)] by (simp only: mset_map [symmetric] map_append cleared_live(2))
qed

lemma compact_image:
  assumes "store_parts crc32 h ih rs bs ix disk" "contents_fit h ix" "wal_entries ix \<noteq> []"
  defines "ih' \<equiv> ih\<lparr>ih_gen := next_generation (ih_gen ih)\<rparr>" and "rs' \<equiv> compacted h ih rs (wal_entries ix)"
  shows "image_ok ih' rs'"
    "compact crc32 h ix disk =
      (Ok \<lparr>main_records_before = length rs, wal_records = length (wal_entries ix), total_records_after = length rs'\<rparr>,
       index_of crc32 ih' rs' [] (wal_config ix), disk\<lparr>main_file := Some (image crc32 ih' rs'), wal_file := None\<rparr>)"
    "\<exists>d. open_index crc32 h (disk\<lparr>main_file := Some (image crc32 ih' rs')\<rparr>) = Ok (index_of crc32 ih' rs' [] default_wal_config, d)"
proof -
  define es cfg where "es = wal_entries ix" and "cfg = wal_config ix"
  have ix: "ix = index_of crc32 ih rs es cfg" and ok: "image_ok ih rs" and fits: "list_all (entry_fits ih) es"
    and log: "log_holds crc32 h (ih_dimension ih) (ih_quantization ih) (next_generation (ih_gen ih)) bs (wal_file disk)"
    using assms(1) by (simp_all add: store_parts_def es_def cfg_def)
  have g: "ih_gen ih < 256" "ih_dimension ih < 2 ^ 32" using ok by (simp_all add: image_ok_def header_ok_def)
  obtain file' where load: "load_wal crc32 h (ih_dimension ih) (ih_quantization ih) (next_generation (ih_gen ih)) (wal_file disk) = Ok ([], file')"
    using load_stale [OF g(2,1) log] by blast
  have rs': "rs' = compacted h ih rs es" by (simp add: rs'_def es_def)
  obtain srcs where srcs: "compaction_sources ix = Ok srcs" "list_all (source_ok rs es) srcs" "map (source_record h ih rs es) srcs = rs'"
    unfolding ix rs' compacted_def by (rule compaction_sources_image [OF ok fits])
  have "layout_fits ih (cleared rs @ map (entry_record h ih) es)" using assms(2) contents_fit_image [OF ok] unfolding ix by blast
  then have lf: "layout_fits ih rs'" unfolding rs' compacted_def by (rule sort_record_facts(3))
  have rok: "list_all (record_ok ih) rs'" unfolding rs' by (rule compacted_facts(2) [OF ok fits])
  have "header_ok ih'" using ok next_generation_small [OF g(1)] by (simp add: ih'_def image_ok_def header_ok_def)
  then show iok: "image_ok ih' rs'" using rok lf by (intro image_okI) (simp_all add: list_all_iff ih'_def)
  note rw = rewrite_index_image [OF ok fits srcs(2) next_generation_small [OF g(1)] srcs(3) iok [unfolded ih'_def] load, folded ih'_def]
  have [simp]: "index_of crc32 ih' rs' [] cfg\<lparr>wal_entries := []\<rparr> = index_of crc32 ih' rs' [] cfg" by (simp add: index_of_def)
  have "rewrite_index crc32 h srcs (next_generation (vm_compaction_gen (metadata ix))) ix disk
      = (Ok (), index_of crc32 ih' rs' [] cfg, disk\<lparr>main_file := Some (image crc32 ih' rs'), wal_file := file'\<rparr>)"
    using rw by (simp add: ix)
  moreover have "record_count ix = length rs" "wal_entries ix = es" "es \<noteq> []" using assms(3) by (simp_all add: ix)
  ultimately show "compact crc32 h ix disk =
      (Ok \<lparr>main_records_before = length rs, wal_records = length (wal_entries ix), total_records_after = length rs'\<rparr>,
       index_of crc32 ih' rs' [] (wal_config ix), disk\<lparr>main_file := Some (image crc32 ih' rs'), wal_file := None\<rparr>)"
    unfolding cfg_def [symmetric] by (simp add: compact_def srcs(1) remove_wal_def)
  show "\<exists>d. open_index crc32 h (disk\<lparr>main_file := Some (image crc32 ih' rs')\<rparr>) = Ok (index_of crc32 ih' rs' [] default_wal_config, d)"
    using open_image [OF iok, of "disk\<lparr>main_file := Some (image crc32 ih' rs')\<rparr>" crc32 h] load by (simp add: ih'_def)
qed

lemma no_tombstones: "filter live rs = rs \<Longrightarrow> filter (\<lambda>r. \<not> live r) rs = []"
  by (simp add: filter_id_conv filter_empty_conv)

lemma log_holds_none: "log_holds crc32 h d q g [] None"
  by (simp add: log_holds_def)

text \<open>What holds of an index after a compaction.\<close>

lemma compact_store:
  assumes "store_parts crc32 h ih rs bs ix disk" "contents_fit h ix" "wal_entries ix \<noteq> []"
  defines "ih' \<equiv> ih\<lparr>ih_gen := next_generation (ih_gen ih)\<rparr>" and "rs' \<equiv> compacted h ih rs (wal_entries ix)"
  shows "store_parts crc32 h ih' rs' [] (index_of crc32 ih' rs' [] cfg) (disk\<lparr>main_file := Some (image crc32 ih' rs'), wal_file := None\<rparr>)"
    "live_documents h (index_of crc32 ih' rs' [] cfg) = live_documents h ix" "length rs' = size (live_documents h ix)"
    "tombstone_count (index_of crc32 ih' rs' [] cfg) = 0"
proof -
  have ix: "ix = index_of crc32 ih rs (wal_entries ix) (wal_config ix)" and ok: "image_ok ih rs" "list_all (entry_fits ih) (wal_entries ix)"
    using assms(1) by (simp_all add: store_parts_def)
  note iok = compact_image(1) [OF assms(1-3), folded ih'_def rs'_def]
  note f = compacted_facts [OF ok, of h, folded rs'_def]
  have pairs: "image_mset record_pair (mset rs') = live_documents h ix" using f(4) [of crc32 "wal_config ix"] ix by simp
  show "store_parts crc32 h ih' rs' [] (index_of crc32 ih' rs' [] cfg) (disk\<lparr>main_file := Some (image crc32 ih' rs'), wal_file := None\<rparr>)"
    using iok f(1) by (simp add: store_parts_def log_holds_none)
  show "live_documents h (index_of crc32 ih' rs' [] cfg) = live_documents h ix" unfolding live_image [OF iok] using f(3) pairs by simp
  show "length rs' = size (live_documents h ix)" unfolding pairs [symmetric] by simp
  show "tombstone_count (index_of crc32 ih' rs' [] cfg) = 0" unfolding tombstones_image [OF iok] no_tombstones [OF f(3)] by simp
qed

lemma open_store_empty:
  assumes "store_parts crc32 h ih rs [] ix disk" "wal_file disk = None"
  shows "open_index crc32 h disk = Ok (index_of crc32 ih rs [] default_wal_config, disk)"
proof -
  have "image_ok ih rs" "main_file disk = Some (image crc32 ih rs)" using assms(1) by (simp_all add: store_parts_def)
  from open_image [OF this] assms(2) show ?thesis by (simp add: load_wal_def read_wal_def)
qed

section \<open>Appending\<close>

text \<open>A document that the index takes: its id is a string of the language.\<close>

definition document_ok :: "nat \<Rightarrow> string \<times> f32 list \<Rightarrow> bool" where
  "document_ok d p \<longleftrightarrow> (case p of (i, v) \<Rightarrow> valid_utf8 i \<and> validate_record d i v = Ok ())"

abbreviation entry_for :: "string \<times> f32 list \<Rightarrow> WalEntry" where
  "entry_for \<equiv> \<lambda>(i, v). \<lparr>we_doc_id = i, we_doc_id_hash = fnv1a_hash i, we_embedding = v\<rparr>"

definition document_pair :: "half_ops \<Rightarrow> Quantization \<Rightarrow> string \<times> f32 list \<Rightarrow> (SearchError + string) \<times> (SearchError + string)" where
  "document_pair h q p = (Ok (fst p), Ok (encode_elements h q (snd p)))"

lemma document_entry: "document_ok (ih_dimension ih) p \<Longrightarrow> entry_fits ih (entry_for p)"
  by (auto simp: document_ok_def entry_fits_def entry_ok_def validate_record_def split: prod.splits if_splits)

lemma index_of_entries: "index_of crc32 ih rs es cfg\<lparr>wal_entries := es'\<rparr> = index_of crc32 ih rs es' cfg"
  by (simp add: index_of_def)

lemma store_entries: "store_parts crc32 h ih rs bs ix disk \<Longrightarrow> ix\<lparr>wal_entries := es\<rparr> = index_of crc32 ih rs es (wal_config ix)"
proof -
  assume "store_parts crc32 h ih rs bs ix disk"
  then have ix: "ix = index_of crc32 ih rs (wal_entries ix) (wal_config ix)" by (simp add: store_parts_def)
  show ?thesis by (subst ix) (rule index_of_entries)
qed

lemma store_live:
  assumes "store_parts crc32 h ih rs bs ix disk"
  shows "live_documents h ix = mset (map record_pair (filter live rs @ map (entry_record h ih) (wal_entries ix)))"
proof -
  have ix: "ix = index_of crc32 ih rs (wal_entries ix) (wal_config ix)" and ok: "image_ok ih rs"
    using assms by (simp_all add: store_parts_def)
  show ?thesis unfolding mset_map by (subst ix) (rule live_image [OF ok])
qed

lemma append_image:
  assumes "store_parts crc32 h ih rs bs ix disk" "list_all (document_ok (dimension ix)) ds" "ds \<noteq> []"
    and "length (wal_entries ix) + length ds < 2 ^ 32"
  shows "\<exists>disk'. append_batch crc32 h ds ix disk = (Ok (), ix\<lparr>wal_entries := wal_entries ix @ map entry_for ds\<rparr>, disk')
    \<and> store_parts crc32 h ih rs (bs @ [map entry_for ds]) (ix\<lparr>wal_entries := wal_entries ix @ map entry_for ds\<rparr>) disk'"
proof -
  let ?d = "ih_dimension ih" and ?q = "ih_quantization ih" and ?g = "next_generation (ih_gen ih)" and ?es = "map entry_for ds"
  have ix: "ix = index_of crc32 ih rs (wal_entries ix) (wal_config ix)" and ok: "image_ok ih rs"
    and log: "log_holds crc32 h ?d ?q ?g bs (wal_file disk)"
    using assms(1) by (simp_all add: store_parts_def)
  have m: "metadata ix = meta_of ih rs" by (subst ix) simp
  have d: "?d < 2 ^ 32" using ok by (simp add: image_ok_def header_ok_def)
  have fits: "list_all (entry_fits ih) ?es" using assms(2) document_entry [of ih] by (simp add: m list_all_iff)
  then have b: "batch_ok ?d ?es" using assms(4) by (simp add: batch_ok_def list_all_iff entry_fits_def)
  have "try_map (\<lambda>(i, v). validate_record ?d i v) ds = Ok (map (\<lambda>_. ()) ds)"
    using assms(2) by (intro try_map_Ok) (auto simp: m document_ok_def list_all_iff)
  then have 1: "append_batch crc32 h ds ix disk
      = (Ok (), ix\<lparr>wal_entries := wal_entries ix @ ?es\<rparr>, disk\<lparr>wal_file := Some (log_bytes crc32 h ?d ?q ?g (bs @ [?es]))\<rparr>)"
    using assms(3) append_holds [OF d log b] by (simp add: append_batch_def m Let_def)
  have "ix\<lparr>wal_entries := wal_entries ix @ ?es\<rparr> = index_of crc32 ih rs (wal_entries ix @ ?es) (wal_config ix)"
    by (rule store_entries [OF assms(1)])
  then have "store_parts crc32 h ih rs (bs @ [?es]) (ix\<lparr>wal_entries := wal_entries ix @ ?es\<rparr>)
      (disk\<lparr>wal_file := Some (log_bytes crc32 h ?d ?q ?g (bs @ [?es]))\<rparr>)"
    using assms(1,4) fits b log by (simp add: store_parts_def log_holds_def)
  with 1 show ?thesis by blast
qed

lemma append_documents:
  assumes "store_parts crc32 h ih rs bs ix disk"
  shows "live_documents h (ix\<lparr>wal_entries := wal_entries ix @ map entry_for ds\<rparr>)
    = live_documents h ix + mset (map (document_pair h (quantization ix)) ds)"
proof -
  have ix: "ix = index_of crc32 ih rs (wal_entries ix) (wal_config ix)" and ok: "image_ok ih rs"
    using assms by (simp_all add: store_parts_def)
  have q: "quantization ix = ih_quantization ih" by (subst ix) simp
  have "map record_pair (map (entry_record h ih) (map entry_for ds)) = map (document_pair h (quantization ix)) ds"
    by (auto simp: q record_pair_def entry_record_def document_pair_def split: prod.splits)
  then have "image_mset record_pair (mset (map (entry_record h ih) (map entry_for ds))) = mset (map (document_pair h (quantization ix)) ds)"
    by (simp only: mset_map [symmetric])
  moreover have "live_documents h ix = image_mset record_pair (mset (filter live rs @ map (entry_record h ih) (wal_entries ix)))"
    unfolding store_live [OF assms] by (rule mset_map)
  moreover have "live_documents h (ix\<lparr>wal_entries := wal_entries ix @ map entry_for ds\<rparr>)
      = image_mset record_pair (mset (filter live rs @ map (entry_record h ih) (wal_entries ix @ map entry_for ds)))"
    unfolding store_entries [OF assms] by (rule live_image [OF ok])
  ultimately show ?thesis by (simp only: map_append mset_append image_mset_union add.assoc)
qed

section \<open>Opening and vacuum\<close>

lemma reload_entries:
  assumes "store_parts crc32 h ih rs bs ix disk" "half_stable h"
  defines "es \<equiv> concat (map (map (stored h (ih_quantization ih))) bs)"
  shows "load_wal crc32 h (ih_dimension ih) (ih_quantization ih) (ih_gen ih) (wal_file disk) = Ok (es, wal_file disk)"
    "map (entry_record h ih) es = map (entry_record h ih) (wal_entries ix)" "list_all (entry_fits ih) es" "length es < 2 ^ 32"
    "map (entry_record h ih) (concat bs) = map (entry_record h ih) es"
proof -
  have p: "image_ok ih rs" "log_holds crc32 h (ih_dimension ih) (ih_quantization ih) (next_generation (ih_gen ih)) bs (wal_file disk)"
      "map (entry_record h ih) (concat bs) = map (entry_record h ih) (wal_entries ix)" "length (wal_entries ix) < 2 ^ 32"
    using assms(1) by (simp_all add: store_parts_def)
  have "ih_dimension ih < 2 ^ 32" "ih_gen ih < 256" using p(1) by (simp_all add: image_ok_def header_ok_def)
  from load_holds [OF this p(2)] show "load_wal crc32 h (ih_dimension ih) (ih_quantization ih) (ih_gen ih) (wal_file disk) = Ok (es, wal_file disk)"
    by (simp add: es_def)
  have es: "es = map (stored h (ih_quantization ih)) (concat bs)" by (simp add: es_def map_concat)
  then show e: "map (entry_record h ih) (concat bs) = map (entry_record h ih) es" by (simp add: entry_record_stored [OF assms(2)] comp_def)
  then show m: "map (entry_record h ih) es = map (entry_record h ih) (wal_entries ix)" using p(3) by simp
  show "length es < 2 ^ 32" using arg_cong [OF m, of length] p(4) by simp
  have "\<forall>e \<in> set (concat bs). entry_ok (ih_dimension ih) e" using p(2) by (auto simp: log_holds_def batch_ok_def list_all_iff)
  then show "list_all (entry_fits ih) es" by (auto simp: es list_all_iff intro: stored_fits)
qed

text \<open>A file of records with the same log, as after opening: the entries are as the log stores them.\<close>

lemma reloaded_store:
  assumes "store_parts crc32 h ih rs bs ix disk" "half_stable h" "image_ok ih rs'" "hash_sorted rs'" "main_file disk' = Some (image crc32 ih rs')"
    and "wal_file disk' = wal_file disk" "map record_pair (filter live rs') = map record_pair (filter live rs)"
  defines "es \<equiv> concat (map (map (stored h (ih_quantization ih))) bs)"
  shows "store_parts crc32 h ih rs' bs (index_of crc32 ih rs' es cfg) disk'" "live_documents h (index_of crc32 ih rs' es cfg) = live_documents h ix"
proof -
  note r = reload_entries [OF assms(1,2), folded es_def]
  show "store_parts crc32 h ih rs' bs (index_of crc32 ih rs' es cfg) disk'"
    using assms(1,3-6) r(3-5) by (simp add: store_parts_def)
  have ix: "ix = index_of crc32 ih rs (wal_entries ix) (wal_config ix)" and ok: "image_ok ih rs"
    using assms(1) by (simp_all add: store_parts_def)
  have "live_documents h ix = mset (map record_pair (filter live rs @ map (entry_record h ih) (wal_entries ix)))"
    by (rule store_live [OF assms(1)])
  also have "\<dots> = mset (map record_pair (filter live rs' @ map (entry_record h ih) es))" by (simp only: map_append assms(7) r(2))
  also have "\<dots> = live_documents h (index_of crc32 ih rs' es cfg)" unfolding live_image [OF assms(3)] by (rule mset_map)
  finally show "live_documents h (index_of crc32 ih rs' es cfg) = live_documents h ix" by simp
qed

lemma open_store:
  assumes "store_parts crc32 h ih rs bs ix disk" "half_stable h"
  shows "\<exists>ix'. open_index crc32 h disk = Ok (ix', disk) \<and> store_parts crc32 h ih rs bs ix' disk \<and> live_documents h ix' = live_documents h ix"
proof -
  have p: "image_ok ih rs" "hash_sorted rs" "main_file disk = Some (image crc32 ih rs)" using assms(1) by (simp_all add: store_parts_def)
  show ?thesis using open_image [OF p(1,3), of h] reload_entries(1) [OF assms] reloaded_store [OF assms p refl refl] by auto
qed

lemma cleared_lengths: "length (cleared rs) \<le> length rs" "length (strings_of (cleared rs)) \<le> length (strings_of rs)"
  by (induction rs) (auto simp: cleared_def intro: le_SucI)

lemma cleared_image_ok:
  assumes "image_ok ih rs"
  shows "image_ok ih (cleared rs)"
proof -
  note l = cleared_lengths [of rs]
  have s: "strings_start ih (length (cleared rs)) + length (strings_of (cleared rs)) \<le> strings_start ih (length rs) + length (strings_of rs)"
    using l by (simp add: strings_start_def)
  then have "vectors_start ih (cleared rs) \<le> vectors_start ih rs" unfolding vectors_start_def by (intro mult_le_mono1 div_le_mono) simp
  moreover have "length (cleared rs) * stride ih \<le> length rs * stride ih" using l(1) by (rule mult_le_mono1)
  ultimately show ?thesis using assms s l(2) cleared_ok [of ih rs] unfolding image_ok_def by linarith
qed

lemma cleared_sorted: "hash_sorted rs \<Longrightarrow> hash_sorted (cleared rs)"
proof -
  assume "hash_sorted rs"
  then have "sorted (map rec_hash (filter live rs))" by (simp add: hash_sorted_def sorted_map sorted_wrt_filter)
  moreover have "map rec_hash (cleared rs) = map rec_hash (filter live rs)" by (simp add: cleared_def comp_def)
  ultimately show ?thesis by (simp only: hash_sorted_def)
qed

lemma vacuum_image:
  assumes "store_parts crc32 h ih rs bs ix disk" "half_stable h"
  shows "\<exists>ix' disk'. vacuum crc32 h ix disk =
      (Ok \<lparr>records_before = length rs, records_after = length (cleared rs), tombstones_removed = length rs - length (cleared rs),
           bytes_reclaimed = length (data ix) - length (data ix')\<rparr>, ix', disk')
    \<and> (\<exists>rs'. store_parts crc32 h ih rs' bs ix' disk' \<and> filter live rs' = rs' \<and> length rs' = length (cleared rs))
    \<and> live_documents h ix' = live_documents h ix"
proof -
  define es where "es = concat (map (map (stored h (ih_quantization ih))) bs)"
  have ix: "ix = index_of crc32 ih rs (wal_entries ix) (wal_config ix)" and ok: "image_ok ih rs" "hash_sorted rs"
    and fits: "list_all (entry_fits ih) (wal_entries ix)"
    using assms(1) by (simp_all add: store_parts_def)
  have m: "metadata ix = meta_of ih rs" by (subst ix) simp
  have t: "tombstone_count ix = length (filter (\<lambda>r. \<not> live r) rs)" by (subst ix) (rule tombstones_image [OF ok(1)])
  show ?thesis
  proof (cases "length rs = 0 \<or> tombstone_count ix = 0")
    case True
    then have "filter live rs = rs" using t by (auto simp: filter_empty_conv filter_id_conv)
    moreover from this have "length (cleared rs) = length rs" by (simp add: cleared_def)
    moreover have "vacuum crc32 h ix disk = (Ok \<lparr>records_before = length rs, records_after = length rs, tombstones_removed = 0, bytes_reclaimed = 0\<rparr>, ix, disk)"
      using True by (simp add: vacuum_def m Let_def)
    ultimately show ?thesis using assms(1) by auto
  next
    case False
    let ?ix = "index_of crc32 ih (cleared rs) es (wal_config ix)"
    define disk' where "disk' = disk\<lparr>main_file := Some (image crc32 ih (cleared rs)), wal_file := wal_file disk\<rparr>"
    have g: "ih\<lparr>ih_gen := ih_gen ih\<rparr> = ih" "ih_gen ih < 256" using ok(1) by (simp_all add: image_ok_def header_ok_def)
    have src: "list_all (source_ok rs (wal_entries ix)) (live_sources ix)" "map (source_record h ih rs (wal_entries ix)) (live_sources ix) = cleared rs"
      by (subst (2) ix, rule live_sources_image [OF ok(1)])+
    note load = reload_entries(1) [OF assms, folded es_def]
    have "rewrite_index crc32 h (live_sources ix) (ih_gen ih) ix disk = (Ok (), ?ix, disk')"
      using rewrite_index_image [OF ok(1) fits src(1) g(2) src(2) _ load, of "wal_config ix", folded ix]
        cleared_image_ok [OF ok(1)] by (simp add: g(1) disk'_def)
    then have "vacuum crc32 h ix disk = (Ok \<lparr>records_before = length rs, records_after = length (cleared rs),
        tombstones_removed = length rs - length (cleared rs), bytes_reclaimed = length (data ix) - length (data ?ix)\<rparr>, ?ix, disk')"
      using False by (simp add: vacuum_def m Let_def)
    moreover have "map record_pair (filter live (cleared rs)) = map record_pair (filter live rs)" by (simp only: cleared_live)
    then have "store_parts crc32 h ih (cleared rs) bs ?ix disk'" "live_documents h ?ix = live_documents h ix"
      using reloaded_store [OF assms cleared_image_ok [OF ok(1)] cleared_sorted [OF ok(2)], of disk' "wal_config ix", folded es_def]
      by (simp_all add: disk'_def)
    ultimately show ?thesis using cleared_live(1) by blast
  qed
qed

section \<open>Deleting\<close>

definition flagged :: "stored_record list \<Rightarrow> nat \<Rightarrow> 16 word \<Rightarrow> stored_record list" where
  "flagged rs i fl = rs[i := (rs ! i)\<lparr>sr_flags := fl\<rparr>]"

lemma flagged_same:
  "length (flagged rs i fl) = length rs" "map sr_doc (flagged rs i fl) = map sr_doc rs" "map sr_vector (flagged rs i fl) = map sr_vector rs"
proof -
  have "map f (rs[i := (rs ! i)\<lparr>sr_flags := fl\<rparr>]) = map f rs" if "\<And>r. f (r\<lparr>sr_flags := fl\<rparr>) = f r" for f :: "stored_record \<Rightarrow> string"
    by (cases "i < length rs") (auto simp: nth_list_update that intro!: nth_equalityI)
  from this [of sr_doc] this [of sr_vector]
  show "map sr_doc (flagged rs i fl) = map sr_doc rs" "map sr_vector (flagged rs i fl) = map sr_vector rs" by (simp_all add: flagged_def)
qed (simp add: flagged_def)

lemma flagged_strings: "strings_of (take k (flagged rs i fl)) = strings_of (take k rs)" "strings_of (flagged rs i fl) = strings_of rs"
  unfolding strings_of_def by (simp_all only: take_map [symmetric] flagged_same)

lemma flagged_nth: "k < length rs \<Longrightarrow> flagged rs i fl ! k = (if k = i then (rs ! i)\<lparr>sr_flags := fl\<rparr> else rs ! k)"
  by (simp add: flagged_def nth_list_update)

lemma flagged_entries:
  assumes "i < length rs"
  shows "entries_of (flagged rs i fl) 0 = (entries_of rs 0)[i := (entries_of rs 0 ! i)\<lparr>flags := fl\<rparr>]"
  by (rule nth_equalityI)
    (use assms in \<open>simp_all add: entries_of_nth nth_list_update flagged_same flagged_nth flagged_strings(1)\<close>)

lemma vectors_start_flagged: "vectors_start ih (flagged rs i fl) = vectors_start ih rs"
  by (simp only: vectors_start_def flagged_same(1) flagged_strings(2))

lemma flagged_image_ok: "image_ok ih rs \<Longrightarrow> image_ok ih (flagged rs i fl)"
proof -
  assume ok: "image_ok ih rs"
  have "record_ok ih (flagged rs i fl ! k)" if "k < length rs" for k
  proof -
    have "sr_doc (flagged rs i fl ! k) = sr_doc (rs ! k)" "sr_vector (flagged rs i fl ! k) = sr_vector (rs ! k)"
      using flagged_nth [OF that, of i fl] by auto
    then show ?thesis using ok that by (simp add: image_ok_def list_all_length record_ok_def)
  qed
  then show ?thesis using ok
    by (simp add: image_ok_def list_all_length flagged_same(1) flagged_strings(2) vectors_start_flagged)
qed

lemma flagged_sorted: "hash_sorted rs \<Longrightarrow> hash_sorted (flagged rs i fl)"
proof -
  assume "hash_sorted rs"
  moreover have "map rec_hash xs = map fnv1a_hash (map sr_doc xs)" for xs by simp
  ultimately show ?thesis unfolding hash_sorted_def by (simp only: flagged_same(2))
qed

text \<open>Writing the flags in place gives the layout of the changed records.\<close>

lemma set_record_flags_image:
  assumes "i < length rs"
  shows "set_record_flags i fl (index_of crc32 ih rs es cfg) disk
    = Ok (index_of crc32 ih (flagged rs i fl) es cfg, disk\<lparr>main_file := Some (image crc32 ih (flagged rs i fl))\<rparr>)"
proof -
  define e where "e = entries_of rs 0 ! i"
  define a where "a = header_with_crc crc32 ih rs @ concat (map record_bytes (take i (entries_of rs 0)))
    @ le_bytes 8 (unat (doc_id_hash e)) @ le_bytes 4 (doc_id_offset e) @ le_bytes 2 (doc_id_len e)"
  define c where "c = concat (map record_bytes (drop (Suc i) (entries_of rs 0))) @ strings_of rs @ padding_of ih rs @ concat (map sr_vector rs)"
  have la: "length a = header_length ih + i * 16 + 14"
    using length_concat_const [of "take i (entries_of rs 0)" record_bytes 16] assms by (simp add: a_def)
  have t: "concat (map record_bytes ((entries_of rs 0)[i := x])) = concat (map record_bytes (take i (entries_of rs 0)))
      @ record_bytes x @ concat (map record_bytes (drop (Suc i) (entries_of rs 0)))" for x
    using assms by (simp add: upd_conv_take_nth_drop)
  have "(entries_of rs 0)[i := e] = entries_of rs 0" by (simp add: e_def)
  with t [of e] have old: "image crc32 ih rs = a @ le_bytes 2 (unat (flags e)) @ c"
    by (simp add: image_def table_of_def a_def c_def record_bytes_def)
  have hd: "header_with_crc crc32 ih (flagged rs i fl) = header_with_crc crc32 ih rs" "padding_of ih (flagged rs i fl) = padding_of ih rs"
    by (simp_all only: header_with_crc_def padding_of_def vectors_start_flagged flagged_same(1) flagged_strings(2))
  have new: "image crc32 ih (flagged rs i fl) = a @ le_bytes 2 (unat fl) @ c"
    unfolding image_def table_of_def hd flagged_entries [OF assms] flagged_strings(2) flagged_same(3) e_def [symmetric] t
    by (simp add: a_def c_def record_bytes_def)
  have upd: "index_of crc32 ih rs es cfg\<lparr>data := image crc32 ih (flagged rs i fl)\<rparr> = index_of crc32 ih (flagged rs i fl) es cfg"
    by (simp add: index_of_def meta_of_def vectors_start_flagged flagged_same(1))
  have "take (length a) (image crc32 ih rs) @ le_bytes 2 (unat fl) @ drop (length a + 2) (image crc32 ih rs) = image crc32 ih (flagged rs i fl)"
    unfolding old new by simp
  moreover have "\<not> length (image crc32 ih rs) < length a + 2" unfolding old by simp
  ultimately show ?thesis using assms upd by (simp add: set_record_flags_def RECORD_SIZE_BYTES_def Let_def la)
qed

lemma tombstone_set: "is_tombstoned_flags (fl OR RECORD_FLAG_TOMBSTONE)"
proof -
  have "(fl OR 1) AND 1 = 1" by (rule bit_eqI) (auto simp: bit_simps)
  then show ?thesis by (simp add: is_tombstoned_flags_def RECORD_FLAG_TOMBSTONE_def)
qed

lemma delete_wal_image:
  assumes "store_parts crc32 h ih rs bs ix disk"
  shows "\<exists>disk' bs'. soft_delete_wal_entry crc32 h d ix disk
      = (Ok (list_ex (\<lambda>e. we_doc_id e = d) (wal_entries ix)), ix\<lparr>wal_entries := filter (\<lambda>e. we_doc_id e \<noteq> d) (wal_entries ix)\<rparr>, disk')
    \<and> store_parts crc32 h ih rs bs' (ix\<lparr>wal_entries := filter (\<lambda>e. we_doc_id e \<noteq> d) (wal_entries ix)\<rparr>) disk'"
proof (cases "list_ex (\<lambda>e. we_doc_id e = d) (wal_entries ix)")
  case False
  then have "filter (\<lambda>e. we_doc_id e \<noteq> d) (wal_entries ix) = wal_entries ix" by (simp add: filter_id_conv list_ex_iff)
  then show ?thesis using False assms by (auto simp: soft_delete_wal_entry_def)
next
  case True
  let ?es = "filter (\<lambda>e. we_doc_id e \<noteq> d) (wal_entries ix)" and ?dim = "ih_dimension ih" and ?q = "ih_quantization ih"
  let ?g = "next_generation (ih_gen ih)"
  have ix: "ix = index_of crc32 ih rs (wal_entries ix) (wal_config ix)" and ok: "image_ok ih rs"
    and fits: "list_all (entry_fits ih) (wal_entries ix)" "length (wal_entries ix) < 2 ^ 32"
    using assms by (simp_all add: store_parts_def)
  have m: "metadata ix = meta_of ih rs" by (subst ix) simp
  have dim: "?dim < 2 ^ 32" using ok by (simp add: image_ok_def header_ok_def)
  have b: "list_all (entry_fits ih) ?es" "length ?es < 2 ^ 32"
    using fits(1) le_less_trans [OF length_filter_le fits(2)] by (auto simp: list_all_iff)
  then have bok: "batch_ok ?dim ?es" by (simp add: batch_ok_def list_all_iff entry_fits_def)
  define log where "log = (if ?es = [] then None else Some (log_bytes crc32 h ?dim ?q ?g [?es]))"
  have "append_wal_batch crc32 h None ?es ?dim ?q ?g = (Ok (), Some (log_bytes crc32 h ?dim ?q ?g [?es]))"
    using append_holds [OF dim log_holds_none bok] by simp
  then have "soft_delete_wal_entry crc32 h d ix disk = (Ok (list_ex (\<lambda>e. we_doc_id e = d) (wal_entries ix)), ix\<lparr>wal_entries := ?es\<rparr>, disk\<lparr>wal_file := log\<rparr>)"
    using True by (simp add: soft_delete_wal_entry_def rewrite_wal_sidecar_def m log_def remove_wal_def Let_def)
  moreover have "store_parts crc32 h ih rs (if ?es = [] then [] else [?es]) (ix\<lparr>wal_entries := ?es\<rparr>) (disk\<lparr>wal_file := log\<rparr>)"
    using assms b bok store_entries [OF assms, of ?es] by (simp add: store_parts_def log_holds_def log_def)
  ultimately show ?thesis by blast
qed

text \<open>The document is in the main file once at most, and then not deleted.\<close>

definition unique_live :: "string \<Rightarrow> stored_record list \<Rightarrow> bool" where
  "unique_live d rs \<longleftrightarrow> (\<forall>i < length rs. sr_doc (rs ! i) = d \<longrightarrow> live (rs ! i) \<and> (\<forall>j < length rs. sr_doc (rs ! j) = d \<longrightarrow> j = i))"

lemma without_absent: "\<forall>r \<in> set xs. sr_doc r \<noteq> d \<Longrightarrow> filter (\<lambda>r. sr_doc r \<noteq> d) (filter live xs) = filter live xs"
  by (rule filter_True) auto

lemma live_without:
  assumes "i < length rs" "unique_live d rs" "sr_doc (rs ! i) = d" "is_tombstoned_flags fl"
  shows "filter live (flagged rs i fl) = filter (\<lambda>r. sr_doc r \<noteq> d) (filter live rs)"
proof -
  have other: "sr_doc r \<noteq> d" if r: "r \<in> set (take i rs) \<union> set (drop (Suc i) rs)" for r
  proof -
    have "\<exists>k < length rs. k \<noteq> i \<and> r = rs ! k" using r
    proof
      assume "r \<in> set (take i rs)"
      then obtain k where "k < i" "r = rs ! k" by (auto simp: in_set_conv_nth)
      then show ?thesis using assms(1) by (intro exI [of _ k]) simp
    next
      assume "r \<in> set (drop (Suc i) rs)"
      then obtain k where "k < length rs - Suc i" "r = rs ! (Suc i + k)" by (auto simp: in_set_conv_nth)
      then show ?thesis by (intro exI [of _ "Suc i + k"]) simp
    qed
    then show ?thesis using assms(1-3) by (auto simp: unique_live_def)
  qed
  have "filter (\<lambda>r. sr_doc r \<noteq> d) (filter live (take i rs)) = filter live (take i rs)"
    "filter (\<lambda>r. sr_doc r \<noteq> d) (filter live (drop (Suc i) rs)) = filter live (drop (Suc i) rs)"
    by (rule without_absent, use other in blast)+
  moreover have "rs = take i rs @ rs ! i # drop (Suc i) rs" using assms(1) by (rule id_take_nth_drop)
  then have "filter live rs = filter live (take i rs) @ filter live [rs ! i] @ filter live (drop (Suc i) rs)" by (metis append_Cons append_Nil filter_append)
  moreover have "flagged rs i fl = take i rs @ (rs ! i)\<lparr>sr_flags := fl\<rparr> # drop (Suc i) rs"
    unfolding flagged_def using assms(1) by (rule upd_conv_take_nth_drop)
  ultimately show ?thesis using assms(3,4) by simp
qed

lemma live_flagged:
  assumes "i < length rs" "is_tombstoned_flags fl"
  shows "filter live (flagged rs i fl) = filter live (take i rs) @ filter live (drop (Suc i) rs)"
    and "filter live rs = filter live (take i rs) @ filter live [rs ! i] @ filter live (drop (Suc i) rs)"
proof -
  have "flagged rs i fl = take i rs @ (rs ! i)\<lparr>sr_flags := fl\<rparr> # drop (Suc i) rs"
    unfolding flagged_def using assms(1) by (rule upd_conv_take_nth_drop)
  then show "filter live (flagged rs i fl) = filter live (take i rs) @ filter live (drop (Suc i) rs)" using assms(2) by simp
  have "rs = take i rs @ [rs ! i] @ drop (Suc i) rs" using id_take_nth_drop [OF assms(1)] by simp
  then show "filter live rs = filter live (take i rs) @ filter live [rs ! i] @ filter live (drop (Suc i) rs)" by (metis filter_append)
qed

text \<open>A deletion by the first record of the document in the main file: there is none, it is live, or it is deleted already.\<close>

definition delete_effect ::
  "string \<Rightarrow> stored_record list \<Rightarrow> VectorIndex \<Rightarrow> nat option \<Rightarrow> bool \<Rightarrow> stored_record list \<Rightarrow> VectorIndex \<Rightarrow> bool" where
  "delete_effect d rs ix m b rs' ix' \<longleftrightarrow>
     (case m of
        None \<Rightarrow> b = list_ex (\<lambda>e. we_doc_id e = d) (wal_entries ix) \<and> rs' = rs
          \<and> wal_entries ix' = filter (\<lambda>e. we_doc_id e \<noteq> d) (wal_entries ix)
      | Some i \<Rightarrow>
          if live (rs ! i)
          then b \<and> rs' = flagged rs i (sr_flags (rs ! i) OR RECORD_FLAG_TOMBSTONE)
            \<and> wal_entries ix' = filter (\<lambda>e. we_doc_id e \<noteq> d) (wal_entries ix)
          else \<not> b \<and> rs' = rs \<and> ix' = ix)"

lemma delete_parts:
  assumes "store_parts crc32 h ih rs bs ix disk"
  shows "\<exists>m b ix' disk' rs' bs'. first_record rs d m \<and> soft_delete crc32 h d ix disk = (Ok b, ix', disk')
    \<and> store_parts crc32 h ih rs' bs' ix' disk' \<and> delete_effect d rs ix m b rs' ix'"
proof -
  have ix: "ix = index_of crc32 ih rs (wal_entries ix) (wal_config ix)" and ok: "image_ok ih rs" "hash_sorted rs"
    using assms(1) by (simp_all add: store_parts_def)
  obtain m where m: "find_index_by_doc_id ix d = Ok m" "first_record rs d m"
    using find_index_by_doc_id_image [OF ok, of crc32 "wal_entries ix" "wal_config ix" d, folded ix] by blast
  show ?thesis
  proof (cases m)
    case None
    then have "soft_delete crc32 h d ix disk = soft_delete_wal_entry crc32 h d ix disk" using m(1) by (simp add: soft_delete_def)
    moreover obtain disk' bs' where "soft_delete_wal_entry crc32 h d ix disk = (Ok (list_ex (\<lambda>e. we_doc_id e = d) (wal_entries ix)),
          ix\<lparr>wal_entries := filter (\<lambda>e. we_doc_id e \<noteq> d) (wal_entries ix)\<rparr>, disk')"
        "store_parts crc32 h ih rs bs' (ix\<lparr>wal_entries := filter (\<lambda>e. we_doc_id e \<noteq> d) (wal_entries ix)\<rparr>) disk'"
      using delete_wal_image [OF assms(1), of d] by blast
    ultimately show ?thesis using None m(2) by (force simp: delete_effect_def)
  next
    case (Some i)
    define fl where "fl = sr_flags (rs ! i) OR RECORD_FLAG_TOMBSTONE"
    have i: "i < length rs" using m(2) Some by (simp add: first_record_def)
    define ix1 where "ix1 = index_of crc32 ih (flagged rs i fl) (wal_entries ix) (wal_config ix)"
    define disk1 where "disk1 = disk\<lparr>main_file := Some (image crc32 ih (flagged rs i fl))\<rparr>"
    have rec: "record_at ix i = Ok (entries_of rs 0 ! i)" "flags (entries_of rs 0 ! i) = sr_flags (rs ! i)"
      using record_at_image [OF ok(1) i, of crc32 "wal_entries ix" "wal_config ix", folded ix] entries_of_nth [OF i, of 0] by simp_all
    show ?thesis
    proof (cases "live (rs ! i)")
      case False
      then have "soft_delete crc32 h d ix disk = (Ok False, ix, disk)" using Some m(1) rec by (simp add: soft_delete_def)
      then show ?thesis using assms m(2) Some False by (force simp: delete_effect_def)
    next
      case True
      have set: "set_record_flags i fl ix disk = Ok (ix1, disk1)"
        using set_record_flags_image [OF i, of fl crc32 ih "wal_entries ix" "wal_config ix" disk, folded ix] by (simp add: ix1_def disk1_def)
      have p1: "store_parts crc32 h ih (flagged rs i fl) bs ix1 disk1"
        using assms(1) flagged_image_ok [OF ok(1)] flagged_sorted [OF ok(2)] by (simp add: store_parts_def ix1_def disk1_def)
      have w: "wal_entries ix1 = wal_entries ix" by (simp add: ix1_def)
      obtain disk' bs' where w': "soft_delete_wal_entry crc32 h d ix1 disk1 = (Ok (list_ex (\<lambda>e. we_doc_id e = d) (wal_entries ix)),
            ix1\<lparr>wal_entries := filter (\<lambda>e. we_doc_id e \<noteq> d) (wal_entries ix)\<rparr>, disk')"
          "store_parts crc32 h ih (flagged rs i fl) bs' (ix1\<lparr>wal_entries := filter (\<lambda>e. we_doc_id e \<noteq> d) (wal_entries ix)\<rparr>) disk'"
        using delete_wal_image [OF p1, of d] unfolding w by blast
      then have "soft_delete crc32 h d ix disk = (Ok True, ix1\<lparr>wal_entries := filter (\<lambda>e. we_doc_id e \<noteq> d) (wal_entries ix)\<rparr>, disk')"
        using Some True m(1) rec set by (simp add: soft_delete_def fl_def)
      with w'(2) m(2) Some True show ?thesis by (force simp: delete_effect_def fl_def)
    qed
  qed
qed

lemma delete_image:
  assumes "store_parts crc32 h ih rs bs ix disk" "unique_live d rs"
  shows "\<exists>ix' disk' rs' bs'. soft_delete crc32 h d ix disk
      = (Ok (d \<in> sr_doc ` set rs \<or> list_ex (\<lambda>e. we_doc_id e = d) (wal_entries ix)), ix', disk')
    \<and> store_parts crc32 h ih rs' bs' ix' disk' \<and> filter live rs' = filter (\<lambda>r. sr_doc r \<noteq> d) (filter live rs)
    \<and> wal_entries ix' = filter (\<lambda>e. we_doc_id e \<noteq> d) (wal_entries ix) \<and> map sr_doc rs' = map sr_doc rs"
proof -
  obtain m b ix' disk' rs' bs' where m: "first_record rs d m" and s: "soft_delete crc32 h d ix disk = (Ok b, ix', disk')"
      "store_parts crc32 h ih rs' bs' ix' disk'" and e: "delete_effect d rs ix m b rs' ix'"
    using delete_parts [OF assms(1)] by blast
  show ?thesis
  proof (cases m)
    case None
    then have no: "d \<notin> sr_doc ` set rs" using m by (simp add: first_record_def)
    then have "filter live rs = filter (\<lambda>r. sr_doc r \<noteq> d) (filter live rs)" using without_absent [of rs d] by force
    then show ?thesis using s e no None by (auto simp: delete_effect_def)
  next
    case (Some i)
    have i: "i < length rs" "sr_doc (rs ! i) = d" using m Some by (simp_all add: first_record_def)
    moreover have "live (rs ! i)" using assms(2) i by (simp add: unique_live_def)
    moreover have "filter live (flagged rs i (sr_flags (rs ! i) OR RECORD_FLAG_TOMBSTONE)) = filter (\<lambda>r. sr_doc r \<noteq> d) (filter live rs)"
      by (rule live_without [OF i(1) assms(2) i(2) tombstone_set])
    moreover have "d \<in> sr_doc ` set rs" using i by force
    ultimately show ?thesis using s e Some by (auto simp: delete_effect_def flagged_same(2))
  qed
qed

text \<open>
  Whatever the file holds, a deletion takes away only contents of the document, and all that the log has of it or nothing; of the
  main file it takes one record at most.
\<close>

lemma delete_live:
  assumes "store_parts crc32 h ih rs bs ix disk"
  shows "\<exists>b ix' disk' rs' bs'. soft_delete crc32 h d ix disk = (Ok b, ix', disk') \<and> store_parts crc32 h ih rs' bs' ix' disk'
    \<and> mset (filter live rs') \<subseteq># mset (filter live rs)
    \<and> filter (\<lambda>r. sr_doc r \<noteq> d) (filter live rs') = filter (\<lambda>r. sr_doc r \<noteq> d) (filter live rs)
    \<and> size (mset (filter live rs)) \<le> Suc (size (mset (filter live rs')))
    \<and> (wal_entries ix' = wal_entries ix \<or> wal_entries ix' = filter (\<lambda>e. we_doc_id e \<noteq> d) (wal_entries ix))"
proof -
  obtain m b ix' disk' rs' bs' where m: "first_record rs d m" and s: "soft_delete crc32 h d ix disk = (Ok b, ix', disk')"
      "store_parts crc32 h ih rs' bs' ix' disk'" and e: "delete_effect d rs ix m b rs' ix'"
    using delete_parts [OF assms(1)] by blast
  show ?thesis
  proof (cases "rs' = rs")
    case True
    then show ?thesis using s e by (auto simp: delete_effect_def split: option.splits if_splits)
  next
    case False
    then obtain i where i: "m = Some i" "live (rs ! i)" using e by (auto simp: delete_effect_def split: option.splits if_splits)
    then have r: "rs' = flagged rs i (sr_flags (rs ! i) OR RECORD_FLAG_TOMBSTONE)"
        "wal_entries ix' = filter (\<lambda>e. we_doc_id e \<noteq> d) (wal_entries ix)" and "i < length rs" "sr_doc (rs ! i) = d"
      using e m by (simp_all add: delete_effect_def first_record_def)
    note f = live_flagged [OF this(3) tombstone_set [of "sr_flags (rs ! i)"], folded r(1)]
    have "filter (\<lambda>r. sr_doc r \<noteq> d) (filter live rs') = filter (\<lambda>r. sr_doc r \<noteq> d) (filter live rs)"
      unfolding f filter_append using \<open>sr_doc (rs ! i) = d\<close> by simp
    moreover have "mset (filter live rs) = add_mset (rs ! i) (mset (filter live rs'))"
      unfolding f mset_append using i(2) by simp
    ultimately show ?thesis using s r(2) by auto
  qed
qed

text \<open>A document whose first record is deleted is not deleted again, even if it has been appended since.\<close>

lemma delete_of_deleted:
  assumes "store_parts crc32 h ih rs bs ix disk" "i < length rs" "sr_doc (rs ! i) = d" "\<forall>j < i. sr_doc (rs ! j) \<noteq> d" "\<not> live (rs ! i)"
  shows "soft_delete crc32 h d ix disk = (Ok False, ix, disk)"
proof -
  have ix: "ix = index_of crc32 ih rs (wal_entries ix) (wal_config ix)" and ok: "image_ok ih rs" "hash_sorted rs"
    using assms(1) by (simp_all add: store_parts_def)
  obtain m where m: "find_index_by_doc_id ix d = Ok m" "first_record rs d m"
    using find_index_by_doc_id_image [OF ok, of crc32 "wal_entries ix" "wal_config ix" d, folded ix] by blast
  have "m = Some i"
  proof (cases m)
    case (Some k)
    then have "sr_doc (rs ! k) = d" "\<forall>j < k. sr_doc (rs ! j) \<noteq> d" using m(2) by (simp_all add: first_record_def)
    then show ?thesis using Some assms(3,4) by (metis linorder_neqE_nat)
  qed (use m(2) assms(2,3) in \<open>force simp: first_record_def\<close>)
  moreover have "record_at ix i = Ok (entries_of rs 0 ! i)" "flags (entries_of rs 0 ! i) = sr_flags (rs ! i)"
    using record_at_image [OF ok(1) assms(2), of crc32 "wal_entries ix" "wal_config ix", folded ix] entries_of_nth [OF assms(2), of 0] by simp_all
  ultimately show ?thesis using m(1) assms(5) by (simp add: soft_delete_def)
qed

end
