(* ===== verification/Fs_Documents.thy ===== *)
theory Fs_Documents
  imports Fs_Store
begin

text \<open>
  A vector index refines a multiset of documents: any sequence of appends, deletions, compactions,
  vacuums and restarts within the limits of the formats has an effect on its contents that a specification of the operations
  on the multiset allows, and the exact effect if the deletions are of documents that are in the main file once at most. And a file that a writer has written opens to the documents it was given.
\<close>

section \<open>Machines that refine a specification\<close>

text \<open>Operations in sequence, each of which can fail, and what has to hold before each.\<close>

fun run_all :: "('op \<Rightarrow> 's \<Rightarrow> 's option) \<Rightarrow> 'op list \<Rightarrow> 's \<Rightarrow> 's option" where
  "run_all run [] s = Some s"
| "run_all run (op # ops) s = (case run op s of None \<Rightarrow> None | Some s' \<Rightarrow> run_all run ops s')"

fun all_ready :: "('op \<Rightarrow> 's \<Rightarrow> 's option) \<Rightarrow> ('op \<Rightarrow> 's \<Rightarrow> bool) \<Rightarrow> 'op list \<Rightarrow> 's \<Rightarrow> bool" where
  "all_ready run ready [] s \<longleftrightarrow> True"
| "all_ready run ready (op # ops) s \<longleftrightarrow> ready op s \<and> (case run op s of None \<Rightarrow> True | Some s' \<Rightarrow> all_ready run ready ops s')"

text \<open>What a sequence may lead to, when the specification of an operation is a relation.\<close>

fun allowed_run :: "('op \<Rightarrow> 'a \<Rightarrow> 'a \<Rightarrow> bool) \<Rightarrow> 'op list \<Rightarrow> 'a \<Rightarrow> 'a \<Rightarrow> bool" where
  "allowed_run allows [] a c \<longleftrightarrow> c = a"
| "allowed_run allows (op # ops) a c \<longleftrightarrow> (\<exists>b. allows op a b \<and> allowed_run allows ops b c)"

lemma allowed_run_functional: "(\<And>op a b. allows op a b \<longleftrightarrow> b = f op a) \<Longrightarrow> allowed_run allows ops a c \<longleftrightarrow> c = fold f ops a"
  by (induction ops arbitrary: a) auto

locale refining_machine =
  fixes run :: "'op \<Rightarrow> 's \<Rightarrow> 's option" and ready :: "'op \<Rightarrow> 's \<Rightarrow> bool" and sound :: "'s \<Rightarrow> bool"
    and represents :: "'s \<Rightarrow> 'a" and allows :: "'op \<Rightarrow> 'a \<Rightarrow> 'a \<Rightarrow> bool"
  assumes refines: "sound s \<Longrightarrow> ready op s \<Longrightarrow> \<exists>s'. run op s = Some s' \<and> sound s' \<and> allows op (represents s) (represents s')"
begin

lemma runs_refine:
  "sound s \<Longrightarrow> all_ready run ready ops s \<Longrightarrow>
     \<exists>s'. run_all run ops s = Some s' \<and> sound s' \<and> allowed_run allows ops (represents s) (represents s')"
proof (induction ops arbitrary: s)
  case (Cons op ops)
  then obtain s' where s': "run op s = Some s'" "sound s'" "allows op (represents s) (represents s')"
    using refines [of s op] by auto
  then show ?case using Cons.IH [of s'] Cons.prems by auto
qed simp

end

section \<open>The index as such a machine\<close>

datatype store_op =
    Append "(string \<times> f32 list) list"
  | Delete string
  | Compact
  | Vacuum
  | Reopen

fun run_op :: "(string \<Rightarrow> 32 word) \<Rightarrow> half_ops \<Rightarrow> store_op \<Rightarrow> VectorIndex \<times> Disk \<Rightarrow> (VectorIndex \<times> Disk) option" where
  "run_op crc32 h (Append ds) (ix, disk) = (case append_batch crc32 h ds ix disk of (Inr _, s) \<Rightarrow> Some s | _ \<Rightarrow> None)"
| "run_op crc32 h (Delete d) (ix, disk) = (case soft_delete crc32 h d ix disk of (Inr _, s) \<Rightarrow> Some s | _ \<Rightarrow> None)"
| "run_op crc32 h Compact (ix, disk) = (case compact crc32 h ix disk of (Inr _, s) \<Rightarrow> Some s | _ \<Rightarrow> None)"
| "run_op crc32 h Vacuum (ix, disk) = (case vacuum crc32 h ix disk of (Inr _, s) \<Rightarrow> Some s | _ \<Rightarrow> None)"
| "run_op crc32 h Reopen (ix, disk) = (case open_index crc32 h disk of Inr s \<Rightarrow> Some s | _ \<Rightarrow> None)"

text \<open>
  What an operation needs to succeed: documents that are valid and few enough for the log, and contents that fit a main file.
  A deletion needs nothing to succeed, but it is exact only for a document that the main file has once at most, and not as a
  deleted record (\<open>deletable\<close>).
\<close>

fun op_ready :: "half_ops \<Rightarrow> store_op \<Rightarrow> VectorIndex \<times> Disk \<Rightarrow> bool" where
  "op_ready h (Append ds) (ix, disk) \<longleftrightarrow> list_all (document_ok (dimension ix)) ds \<and> length (wal_entries ix) + length ds < 2 ^ 32"
| "op_ready h Compact (ix, disk) \<longleftrightarrow> contents_fit h ix"
| "op_ready h _ (ix, disk) \<longleftrightarrow> True"

definition deletable :: "string \<Rightarrow> VectorIndex \<Rightarrow> bool" where
  "deletable d ix \<longleftrightarrow> (\<forall>i < record_count ix. doc_id_at ix i = Ok d \<longrightarrow>
     \<not> is_deleted ix i \<and> (\<forall>j < record_count ix. doc_id_at ix j = Ok d \<longrightarrow> j = i))"

fun op_exact :: "half_ops \<Rightarrow> store_op \<Rightarrow> VectorIndex \<times> Disk \<Rightarrow> bool" where
  "op_exact h (Delete d) (ix, disk) \<longleftrightarrow> deletable d ix"
| "op_exact h op (ix, disk) \<longleftrightarrow> op_ready h op (ix, disk)"

type_synonym documents = "((SearchError + string) \<times> (SearchError + string)) multiset"

fun spec_op :: "half_ops \<Rightarrow> Quantization \<Rightarrow> store_op \<Rightarrow> documents \<Rightarrow> documents" where
  "spec_op h q (Append ds) m = m + mset (map (document_pair h q) ds)"
| "spec_op h q (Delete d) m = filter_mset (\<lambda>p. fst p \<noteq> Ok d) m"
| "spec_op h q _ m = m"

text \<open>What any deletion may do to the contents: it takes away contents of the document only.\<close>

fun spec_allows :: "half_ops \<Rightarrow> Quantization \<Rightarrow> store_op \<Rightarrow> documents \<Rightarrow> documents \<Rightarrow> bool" where
  "spec_allows h q (Delete d) m m' \<longleftrightarrow> m' \<subseteq># m \<and> filter_mset (\<lambda>p. fst p \<noteq> Ok d) m' = filter_mset (\<lambda>p. fst p \<noteq> Ok d) m"
| "spec_allows h q op m m' \<longleftrightarrow> m' = spec_op h q op m"

definition store_sound :: "(string \<Rightarrow> 32 word) \<Rightarrow> half_ops \<Rightarrow> Quantization \<Rightarrow> VectorIndex \<times> Disk \<Rightarrow> bool" where
  "store_sound crc32 h q s \<longleftrightarrow> half_stable h \<and> store_ok crc32 h (fst s) (snd s) \<and> quantization (fst s) = q"

lemma store_partsD:
  assumes "store_parts crc32 h ih rs bs ix disk"
  shows "image_ok ih rs" "metadata ix = meta_of ih rs" "quantization ix = ih_quantization ih" "dimension ix = ih_dimension ih" "record_count ix = length rs"
proof -
  have ix: "ix = index_of crc32 ih rs (wal_entries ix) (wal_config ix)" using assms by (simp add: store_parts_def)
  show m: "metadata ix = meta_of ih rs" by (subst ix) simp
  show "image_ok ih rs" using assms by (simp add: store_parts_def)
  show "quantization ix = ih_quantization ih" "dimension ix = ih_dimension ih" "record_count ix = length rs" by (simp_all add: m)
qed

lemma store_okI: "store_parts crc32 h ih rs bs ix disk \<Longrightarrow> store_ok crc32 h ix disk"
  by (auto simp: store_ok_def)

lemma deletable_unique:
  assumes "store_parts crc32 h ih rs bs ix disk"
  shows "deletable d ix \<longleftrightarrow> unique_live d rs"
proof -
  have ix: "ix = index_of crc32 ih rs (wal_entries ix) (wal_config ix)" using assms by (simp add: store_parts_def)
  note ok = store_partsD(1) [OF assms]
  have "doc_id_at ix i = Ok (sr_doc (rs ! i))" "is_deleted ix i \<longleftrightarrow> \<not> live (rs ! i)" if "i < length rs" for i
    by (subst ix, rule doc_id_at_image [OF ok that], subst ix, rule is_deleted_image [OF ok that])
  then show ?thesis by (auto simp: deletable_def unique_live_def store_partsD(5) [OF assms])
qed

lemma run_append:
  assumes "store_parts crc32 h ih rs bs ix disk" "op_ready h (Append ds) (ix, disk)"
  shows "\<exists>ix' disk'. run_op crc32 h (Append ds) (ix, disk) = Some (ix', disk') \<and> store_ok crc32 h ix' disk'
    \<and> quantization ix' = quantization ix \<and> live_documents h ix' = live_documents h ix + mset (map (document_pair h (quantization ix)) ds)"
proof (cases "ds = []")
  case True
  then show ?thesis using store_okI [OF assms(1)] by (simp add: append_batch_def)
next
  case False
  have d: "list_all (document_ok (dimension ix)) ds" "length (wal_entries ix) + length ds < 2 ^ 32" using assms(2) by simp_all
  obtain disk' where a: "append_batch crc32 h ds ix disk = (Ok (), ix\<lparr>wal_entries := wal_entries ix @ map entry_for ds\<rparr>, disk')"
      "store_parts crc32 h ih rs (bs @ [map entry_for ds]) (ix\<lparr>wal_entries := wal_entries ix @ map entry_for ds\<rparr>) disk'"
    using append_image [OF assms(1) d(1) False d(2)] by blast
  show ?thesis using a(1) store_okI [OF a(2)] append_documents [OF assms(1), of ds] by simp
qed

lemma run_delete:
  assumes "store_parts crc32 h ih rs bs ix disk" "op_exact h (Delete d) (ix, disk)"
  shows "\<exists>ix' disk'. run_op crc32 h (Delete d) (ix, disk) = Some (ix', disk') \<and> store_ok crc32 h ix' disk'
    \<and> quantization ix' = quantization ix \<and> live_documents h ix' = filter_mset (\<lambda>p. fst p \<noteq> Ok d) (live_documents h ix)"
proof -
  have u: "unique_live d rs" using assms deletable_unique [OF assms(1)] by simp
  obtain ix' disk' rs' bs' where s: "soft_delete crc32 h d ix disk
        = (Ok (d \<in> sr_doc ` set rs \<or> list_ex (\<lambda>e. we_doc_id e = d) (wal_entries ix)), ix', disk')"
      and p: "store_parts crc32 h ih rs' bs' ix' disk'" and f: "filter live rs' = filter (\<lambda>r. sr_doc r \<noteq> d) (filter live rs)"
      and w: "wal_entries ix' = filter (\<lambda>e. we_doc_id e \<noteq> d) (wal_entries ix)"
    using delete_image [OF assms(1) u] by blast
  have e: "map (entry_record h ih) (filter (\<lambda>e. we_doc_id e \<noteq> d) es) = filter (\<lambda>r. sr_doc r \<noteq> d) (map (entry_record h ih) es)" for es
    by (simp add: filter_map comp_def entry_record_def)
  have m: "map record_pair (filter (\<lambda>r. sr_doc r \<noteq> d) xs) = filter (\<lambda>p. fst p \<noteq> Ok d) (map record_pair xs)" for xs
    by (simp add: filter_map comp_def record_pair_def)
  have "live_documents h ix' = mset (filter (\<lambda>p. fst p \<noteq> Ok d) (map record_pair (filter live rs @ map (entry_record h ih) (wal_entries ix))))"
    unfolding store_live [OF p] f w e filter_append [symmetric] m ..
  then have "live_documents h ix' = filter_mset (\<lambda>p. fst p \<noteq> Ok d) (live_documents h ix)"
    unfolding store_live [OF assms(1)] mset_filter .
  then show ?thesis using s store_okI [OF p] store_partsD(3) [OF p] store_partsD(3) [OF assms(1)] by simp
qed

lemma run_any_delete:
  assumes "store_parts crc32 h ih rs bs ix disk"
  shows "\<exists>ix' disk'. run_op crc32 h (Delete d) (ix, disk) = Some (ix', disk') \<and> store_ok crc32 h ix' disk'
    \<and> quantization ix' = quantization ix \<and> spec_allows h q (Delete d) (live_documents h ix) (live_documents h ix')"
proof -
  obtain b ix' disk' rs' bs' where s: "soft_delete crc32 h d ix disk = (Ok b, ix', disk')" and p: "store_parts crc32 h ih rs' bs' ix' disk'"
    and f: "mset (filter live rs') \<subseteq># mset (filter live rs)" "filter (\<lambda>r. sr_doc r \<noteq> d) (filter live rs') = filter (\<lambda>r. sr_doc r \<noteq> d) (filter live rs)"
    and w: "wal_entries ix' = wal_entries ix \<or> wal_entries ix' = filter (\<lambda>e. we_doc_id e \<noteq> d) (wal_entries ix)"
    using delete_live [OF assms] by blast
  have pair: "(\<lambda>p. fst p \<noteq> Ok d) \<circ> record_pair = (\<lambda>r. sr_doc r \<noteq> d)" by (auto simp: record_pair_def)
  have keep: "filter_mset (\<lambda>p. fst p \<noteq> Ok d) (mset (map record_pair xs)) = mset (map record_pair (filter (\<lambda>r. sr_doc r \<noteq> d) xs))" for xs
    unfolding mset_filter [symmetric] filter_map pair ..
  have e: "(\<lambda>r. sr_doc r \<noteq> d) \<circ> entry_record h ih = (\<lambda>e. we_doc_id e \<noteq> d)" by (auto simp: entry_record_def)
  have "mset (wal_entries ix') \<subseteq># mset (wal_entries ix)" using w by auto
  then have "live_documents h ix' \<subseteq># live_documents h ix"
    unfolding store_live [OF p] store_live [OF assms] mset_map mset_append using f(1) by (intro image_mset_subseteq_mono subset_mset.add_mono)
  moreover have "filter (\<lambda>r. sr_doc r \<noteq> d) (map (entry_record h ih) (wal_entries ix')) = filter (\<lambda>r. sr_doc r \<noteq> d) (map (entry_record h ih) (wal_entries ix))"
    unfolding filter_map e using w by auto
  then have "filter_mset (\<lambda>p. fst p \<noteq> Ok d) (live_documents h ix') = filter_mset (\<lambda>p. fst p \<noteq> Ok d) (live_documents h ix)"
    unfolding store_live [OF p] store_live [OF assms] keep filter_append f(2) by simp
  ultimately show ?thesis using s store_okI [OF p] store_partsD(3) [OF p] store_partsD(3) [OF assms(1)] by simp
qed

lemma run_compact:
  assumes "store_parts crc32 h ih rs bs ix disk" "contents_fit h ix"
  shows "\<exists>ix' disk'. run_op crc32 h Compact (ix, disk) = Some (ix', disk') \<and> store_ok crc32 h ix' disk'
    \<and> quantization ix' = quantization ix \<and> live_documents h ix' = live_documents h ix"
proof (cases "wal_entries ix = []")
  case True
  then show ?thesis using store_okI [OF assms(1)] by (simp add: compact_def Let_def)
next
  case False
  show ?thesis using compact_image(2) [OF assms False] store_okI [OF compact_store(1) [OF assms False]] compact_store(2) [OF assms False]
    store_partsD(3) [OF assms(1)] by simp
qed

lemma run_vacuum:
  assumes "store_parts crc32 h ih rs bs ix disk" "half_stable h"
  shows "\<exists>ix' disk'. run_op crc32 h Vacuum (ix, disk) = Some (ix', disk') \<and> store_ok crc32 h ix' disk'
    \<and> quantization ix' = quantization ix \<and> live_documents h ix' = live_documents h ix"
proof -
  obtain stats ix' disk' rs' where v: "vacuum crc32 h ix disk = (Ok stats, ix', disk')"
      and p: "store_parts crc32 h ih rs' bs ix' disk'" "live_documents h ix' = live_documents h ix"
    using vacuum_image [OF assms] by blast
  show ?thesis using v store_okI [OF p(1)] p(2) store_partsD(3) [OF p(1)] store_partsD(3) [OF assms(1)] by simp
qed

lemma run_reopen:
  assumes "store_parts crc32 h ih rs bs ix disk" "half_stable h"
  shows "\<exists>ix' disk'. run_op crc32 h Reopen (ix, disk) = Some (ix', disk') \<and> store_ok crc32 h ix' disk'
    \<and> quantization ix' = quantization ix \<and> live_documents h ix' = live_documents h ix"
proof -
  obtain ix' where v: "open_index crc32 h disk = Ok (ix', disk)" and p: "store_parts crc32 h ih rs bs ix' disk" "live_documents h ix' = live_documents h ix"
    using open_store [OF assms] by blast
  show ?thesis using v store_okI [OF p(1)] p(2) store_partsD(3) [OF p(1)] store_partsD(3) [OF assms(1)] by simp
qed

lemma run_exact:
  assumes "store_sound crc32 h q (ix, disk)" "op_exact h op (ix, disk)"
  shows "\<exists>s'. run_op crc32 h op (ix, disk) = Some s' \<and> store_sound crc32 h q s' \<and> live_documents h (fst s') = spec_op h q op (live_documents h ix)"
proof -
  obtain ih rs bs where p: "store_parts crc32 h ih rs bs ix disk" and h: "half_stable h" and q: "q = quantization ix"
    using assms(1) by (auto simp: store_sound_def store_ok_def)
  have "\<exists>ix' disk'. run_op crc32 h op (ix, disk) = Some (ix', disk') \<and> store_ok crc32 h ix' disk'
      \<and> quantization ix' = quantization ix \<and> live_documents h ix' = spec_op h q op (live_documents h ix)"
    using run_append [OF p] run_delete [OF p] run_compact [OF p] run_vacuum [OF p h] run_reopen [OF p h] assms(2) unfolding q by (cases op) simp_all
  then show ?thesis using h q by (force simp: store_sound_def)
qed

interpretation store: refining_machine "run_op crc32 h" "op_ready h" "store_sound crc32 h q" "\<lambda>s. live_documents h (fst s)" "spec_allows h q"
  for crc32 h q
proof
  fix s op
  assume s: "store_sound crc32 h q s" and r: "op_ready h op s"
  obtain ix disk where eq: "s = (ix, disk)" by (cases s)
  obtain ih rs bs where p: "store_parts crc32 h ih rs bs ix disk" and h: "half_stable h" and q: "q = quantization ix"
    using s by (auto simp: store_sound_def store_ok_def eq)
  show "\<exists>s'. run_op crc32 h op s = Some s' \<and> store_sound crc32 h q s' \<and> spec_allows h q op (live_documents h (fst s)) (live_documents h (fst s'))"
  proof (cases "\<exists>d. op = Delete d")
    case True
    then show ?thesis using run_any_delete [OF p, of _ q] h q by (force simp: eq store_sound_def)
  next
    case False
    then have "op_exact h op (ix, disk)" "spec_allows h q op m m' \<longleftrightarrow> m' = spec_op h q op m" for m m' using r unfolding eq by (cases op; simp)+
    then show ?thesis using run_exact s unfolding eq by force
  qed
qed

interpretation exact_store: refining_machine "run_op crc32 h" "op_exact h" "store_sound crc32 h q" "\<lambda>s. live_documents h (fst s)" "\<lambda>op m m'. m' = spec_op h q op m"
  for crc32 h q
  by unfold_locales (auto dest: run_exact)

text \<open>
  C6: the index refines a multiset of documents: from a sound state, every sequence of appends of valid
  documents, deletions, compactions, vacuums and restarts that stays within the limits of the formats succeeds and keeps the
  state sound. An append adds its documents, a compaction, a vacuum and a restart change nothing, and a deletion takes
  away contents of its document only. If moreover each document to be deleted is in the main file once at most, and not as a
  deleted record, then the live contents are exactly what the specification makes of the contents before, where a deletion
  removes all occurrences of the document.
\<close>

theorem index_refines_documents:
  assumes "store_ok crc32 h ix disk" "half_stable h" "all_ready (run_op crc32 h) (op_ready h) ops (ix, disk)"
  shows "\<exists>ix' disk'. run_all (run_op crc32 h) ops (ix, disk) = Some (ix', disk') \<and> store_ok crc32 h ix' disk'
    \<and> allowed_run (spec_allows h (quantization ix)) ops (live_documents h ix) (live_documents h ix')
    \<and> (all_ready (run_op crc32 h) (op_exact h) ops (ix, disk)
        \<longrightarrow> live_documents h ix' = fold (spec_op h (quantization ix)) ops (live_documents h ix))"
  using store.runs_refine [of crc32 h "quantization ix" "(ix, disk)" ops] exact_store.runs_refine [of crc32 h "quantization ix" "(ix, disk)" ops] assms
  by (fastforce simp: store_sound_def allowed_run_functional)

section \<open>A document that is added again\<close>

text \<open>
  A deleted document that is added again cannot be deleted: after the deletion of a document of the main
  file and its return by an append, a second deletion reports that there is nothing to delete and changes
  nothing, although the document is live.
\<close>

theorem readded_document_stays:
  assumes "store_ok crc32 h ix disk" "deletable d ix" "i < record_count ix" "doc_id_at ix i = Ok d"
    and "document_ok (dimension ix) (d, v)" "length (wal_entries ix) + 1 < 2 ^ 32"
  shows "\<exists>ix1 disk1 ix2 disk2. soft_delete crc32 h d ix disk = (Ok True, ix1, disk1)
    \<and> append_one crc32 h d v ix1 disk1 = (Ok (), ix2, disk2)
    \<and> soft_delete crc32 h d ix2 disk2 = (Ok False, ix2, disk2)
    \<and> (Ok d, Ok (encode_elements h (quantization ix) v)) \<in># live_documents h ix2"
proof -
  obtain ih rs bs where p: "store_parts crc32 h ih rs bs ix disk" using assms(1) by (auto simp: store_ok_def)
  have u: "unique_live d rs" using assms(2) deletable_unique [OF p] by simp
  have ix: "ix = index_of crc32 ih rs (wal_entries ix) (wal_config ix)" using p by (simp add: store_parts_def)
  have i: "i < length rs" using assms(3) store_partsD(5) [OF p] by simp
  have di: "sr_doc (rs ! i) = d"
    using assms(4) doc_id_at_image [OF store_partsD(1) [OF p] i, of crc32 "wal_entries ix" "wal_config ix", folded ix] by simp
  obtain ix1 disk1 rs1 bs1 where s1: "soft_delete crc32 h d ix disk
        = (Ok (d \<in> sr_doc ` set rs \<or> list_ex (\<lambda>e. we_doc_id e = d) (wal_entries ix)), ix1, disk1)"
      and p1: "store_parts crc32 h ih rs1 bs1 ix1 disk1" and f: "filter live rs1 = filter (\<lambda>r. sr_doc r \<noteq> d) (filter live rs)"
      and w: "wal_entries ix1 = filter (\<lambda>e. we_doc_id e \<noteq> d) (wal_entries ix)" and docs: "map sr_doc rs1 = map sr_doc rs"
    using delete_image [OF p u] by blast
  define ix2 where "ix2 = ix1\<lparr>wal_entries := wal_entries ix1 @ map entry_for [(d, v)]\<rparr>"
  have "length (wal_entries ix1) + length [(d, v)] < 2 ^ 32" using assms(6) length_filter_le [of "\<lambda>e. we_doc_id e \<noteq> d" "wal_entries ix"] unfolding w list.size by linarith
  moreover have "list_all (document_ok (dimension ix1)) [(d, v)]" using assms(5) store_partsD(4) [OF p] store_partsD(4) [OF p1] by simp
  ultimately obtain disk2 bs2 where s2: "append_batch crc32 h [(d, v)] ix1 disk1 = (Ok (), ix2, disk2)" and p2: "store_parts crc32 h ih rs1 bs2 ix2 disk2"
    unfolding ix2_def using append_image [OF p1, of "[(d, v)]"] by blast
  have l: "length rs1 = length rs" using arg_cong [OF docs, of length] by simp
  have nth: "sr_doc (rs1 ! k) = sr_doc (rs ! k)" if "k < length rs" for k using arg_cong [OF docs, of "\<lambda>xs. xs ! k"] that l by simp
  have first: "\<forall>j < i. sr_doc (rs1 ! j) \<noteq> d"
  proof (intro allI impI notI)
    fix j
    assume "j < i" "sr_doc (rs1 ! j) = d"
    then have "j < length rs" "sr_doc (rs ! j) = d" using i nth by simp_all
    then have "j = i" using u i di unfolding unique_live_def by blast
    with \<open>j < i\<close> show False by simp
  qed
  have "rs1 ! i \<notin> set (filter live rs1)" unfolding f using nth [OF i] di by simp
  then have dead: "\<not> live (rs1 ! i)" using i l by simp
  have "soft_delete crc32 h d ix2 disk2 = (Ok False, ix2, disk2)"
    using delete_of_deleted [OF p2 _ _ first dead] i l nth [OF i] di by simp
  moreover have "(Ok d, Ok (encode_elements h (quantization ix) v)) \<in># live_documents h ix2"
    unfolding ix2_def append_documents [OF p1] using store_partsD(3) [OF p] store_partsD(3) [OF p1] by (simp add: document_pair_def)
  moreover have "d \<in> sr_doc ` set rs" using i di by force
  ultimately show ?thesis using s1 s2 by (auto simp: append_one_def)
qed

text \<open>
  A document that one append has twice is twice in the main file after a compaction, and a deletion then leaves it live.
\<close>

lemma multiset_keeps_one:
  assumes "N' \<subseteq># N" "size N \<le> Suc (size N')" "2 \<le> count N x"
  shows "x \<in># N'"
proof -
  obtain R where R: "N = N' + R" using assms(1) by (metis subset_mset.le_iff_add)
  have "count R x \<le> size R" by (rule count_le_size)
  then show ?thesis using assms(2,3) unfolding R by (simp flip: count_greater_zero_iff)
qed

lemma duplicate_survives_deletion:
  assumes "store_ok crc32 h ix disk" "all_ready (run_op crc32 h) (op_ready h) [Append [(d, v), (d, v)], Compact, Delete d] (ix, disk)"
  shows "\<exists>ix' disk'. run_all (run_op crc32 h) [Append [(d, v), (d, v)], Compact, Delete d] (ix, disk) = Some (ix', disk')
    \<and> (Ok d, Ok (encode_elements h (quantization ix) v)) \<in># live_documents h ix'"
proof -
  let ?ds = "[(d, v), (d, v)]" and ?x = "(Ok d, Ok (encode_elements h (quantization ix) v))"
  obtain ih rs bs where p: "store_parts crc32 h ih rs bs ix disk" using assms(1) by (auto simp: store_ok_def)
  define ix1 where "ix1 = ix\<lparr>wal_entries := wal_entries ix @ map entry_for ?ds\<rparr>"
  have "list_all (document_ok (dimension ix)) ?ds" "length (wal_entries ix) + length ?ds < 2 ^ 32" using assms(2) by simp_all
  then obtain disk1 where a: "append_batch crc32 h ?ds ix disk = (Ok (), ix1, disk1)"
      and p1: "store_parts crc32 h ih rs (bs @ [map entry_for ?ds]) ix1 disk1"
    using append_image [OF p, of ?ds] unfolding ix1_def by blast
  have c: "contents_fit h ix1" using assms(2) a by simp
  have w1: "wal_entries ix1 \<noteq> []" by (simp add: ix1_def)
  obtain stats ih' rs' ix2 disk2 where k: "compact crc32 h ix1 disk1 = (Ok stats, ix2, disk2)" and p2: "store_parts crc32 h ih' rs' [] ix2 disk2"
      and l2: "live_documents h ix2 = live_documents h ix1" "wal_entries ix2 = []"
    using compact_image(2) [OF p1 c w1] compact_store(1,2) [OF p1 c w1, of "wal_config ix1"] by fastforce
  obtain b ix3 disk3 rs3 bs3 where s: "soft_delete crc32 h d ix2 disk2 = (Ok b, ix3, disk3)" and p3: "store_parts crc32 h ih' rs3 bs3 ix3 disk3"
      and f: "mset (filter live rs3) \<subseteq># mset (filter live rs')" "size (mset (filter live rs')) \<le> Suc (size (mset (filter live rs3)))"
      and w3: "wal_entries ix3 = []"
    using delete_live [OF p2, of d] l2(2) by auto
  have "2 \<le> count (live_documents h ix2) ?x"
    unfolding l2(1) ix1_def append_documents [OF p] by (simp add: document_pair_def)
  then have "?x \<in># live_documents h ix3"
    using f unfolding store_live [OF p2] store_live [OF p3] w3 l2(2)
    by (intro multiset_keeps_one [of _ "image_mset record_pair (mset (filter live rs'))"]) (simp_all add: image_mset_subseteq_mono)
  then show ?thesis using a k s by simp
qed

section \<open>Samples\<close>

definition sample_header :: index_header where
  "sample_header = \<lparr>ih_id = ''m'', ih_revision = [], ih_dimension = 1, ih_quantization = F16, ih_gen = 1\<rparr>"

definition sample_record :: stored_record where
  "sample_record = \<lparr>sr_doc = ''a'', sr_flags = 0, sr_vector = [CHR 0x80, CHR 0x3F]\<rparr>"

definition sample_index :: "WalEntry list \<Rightarrow> VectorIndex" where
  "sample_index es = index_of (\<lambda>_. 7) sample_header [sample_record] es default_wal_config"

definition sample_disk :: "WalEntry list \<Rightarrow> Disk" where
  "sample_disk es = \<lparr>main_file = Some (image (\<lambda>_. 7) sample_header [sample_record]),
     wal_file = (if es = [] then None else Some (log_bytes (\<lambda>_. 7) sample_half 1 F16 2 [es]))\<rparr>"

lemma sample_utf: "valid_utf8 ''a''" "valid_utf8 ''m''" "valid_utf8 ''doc''" "valid_utf8 []"
  by code_simp+

lemma sample_image_ok: "image_ok sample_header [sample_record]"
  by (rule image_okI)
    (simp_all add: header_ok_def record_ok_def layout_fits_def header_length_def stride_def bytes_per_element_def sample_header_def sample_record_def sample_utf USIZE_MAX_def)

lemma sample_parts:
  assumes "list_all (entry_fits sample_header) es" "length es < 2 ^ 32"
  shows "store_parts (\<lambda>_. 7) sample_half sample_header [sample_record] (if es = [] then [] else [es]) (sample_index es) (sample_disk es)"
proof -
  have "batch_ok 1 es" using assms by (simp add: batch_ok_def list_all_iff entry_fits_def sample_header_def)
  moreover have "ih_dimension sample_header = 1" "ih_quantization sample_header = F16" "next_generation (ih_gen sample_header) = 2"
    by (simp_all add: sample_header_def next_generation_def)
  ultimately show ?thesis using assms sample_image_ok
    by (simp add: store_parts_def sample_index_def sample_disk_def log_holds_def hash_sorted_def)
qed

lemma sample_half_stable: "half_stable sample_half"
proof -
  have "ucast (drop_bit 16 (push_bit 16 (ucast w :: 32 word))) = w" for w :: "16 word"
    by (rule bit_eqI) (auto simp: bit_simps)
  then show ?thesis by (simp add: half_stable_def sample_half_def)
qed

lemma sample_entry_fits: "entry_fits sample_header sample_entry"
  by (simp add: entry_fits_def entry_ok_def sample_header_def sample_entry_def sample_utf)

lemma sample_live: "live sample_record" by (simp add: sample_record_def)

text \<open>
  C7: compaction keeps the contents: it succeeds when the contents fit a file, after which exactly the
  documents that were live before are live, with the same vectors, all in the main file, without a
  log and without tombstones; and the contents are the same if the process ends between the
  replacement of the main file and the removal of the log, upon which opening drops the log.
\<close>

theorem compaction_keeps_documents:
  assumes "store_ok crc32 h ix disk" "contents_fit h ix" "wal_entries ix \<noteq> []"
  shows "\<exists>stats ix' disk'. compact crc32 h ix disk = (Ok stats, ix', disk') \<and> store_ok crc32 h ix' disk'
    \<and> live_documents h ix' = live_documents h ix \<and> total_records_after stats = size (live_documents h ix)
    \<and> wal_entries ix' = [] \<and> wal_file disk' = None \<and> tombstone_count ix' = 0
    \<and> (\<exists>ix''. open_index crc32 h disk' = Ok (ix'', disk') \<and> live_documents h ix'' = live_documents h ix)
    \<and> (\<exists>ix'' d. open_index crc32 h (disk\<lparr>main_file := main_file disk'\<rparr>) = Ok (ix'', d) \<and> live_documents h ix'' = live_documents h ix)"
proof -
  obtain ih rs bs where p: "store_parts crc32 h ih rs bs ix disk" using assms(1) by (auto simp: store_ok_def)
  define ih' rs' where "ih' = ih\<lparr>ih_gen := next_generation (ih_gen ih)\<rparr>" and "rs' = compacted h ih rs (wal_entries ix)"
  define disk' where "disk' = disk\<lparr>main_file := Some (image crc32 ih' rs'), wal_file := None\<rparr>"
  note c = compact_image [OF p assms(2,3), folded ih'_def rs'_def, folded disk'_def]
  note s = compact_store [OF p assms(2,3), folded ih'_def rs'_def, folded disk'_def]
  have w: "wal_file disk' = None" "main_file disk' = Some (image crc32 ih' rs')" by (simp_all add: disk'_def)
  have "open_index crc32 h disk' = Ok (index_of crc32 ih' rs' [] default_wal_config, disk')"
    by (rule open_store_empty [OF s(1) [of "wal_config ix"] w(1)])
  moreover have "store_ok crc32 h (index_of crc32 ih' rs' [] (wal_config ix)) disk'" using s(1) by (auto simp: store_ok_def)
  ultimately show ?thesis using c(2,3) s(2-4) w by fastforce
qed

theorem compaction_keeps_documents_witness:
  "\<exists>stats ix' disk'. compact (\<lambda>_. 7) sample_half (sample_index [sample_entry]) (sample_disk [sample_entry]) = (Ok stats, ix', disk')
     \<and> live_documents sample_half ix' = live_documents sample_half (sample_index [sample_entry])
     \<and> total_records_after stats = 2 \<and> wal_file disk' = None"
proof -
  have p: "store_parts (\<lambda>_. 7) sample_half sample_header [sample_record] [[sample_entry]] (sample_index [sample_entry]) (sample_disk [sample_entry])"
    using sample_parts [of "[sample_entry]"] sample_entry_fits by simp
  have "layout_fits sample_header (cleared [sample_record] @ map (entry_record sample_half sample_header) [sample_entry])"
    by (simp add: layout_fits_def cleared_def sample_live header_length_def stride_def bytes_per_element_def entry_record_def
        sample_header_def sample_record_def sample_entry_def USIZE_MAX_def)
  then have c: "contents_fit sample_half (sample_index [sample_entry])"
    unfolding sample_index_def using contents_fit_image [OF sample_image_ok] by blast
  have "size (live_documents sample_half (sample_index [sample_entry])) = 2"
    unfolding store_live [OF p] by (simp add: sample_live sample_index_def)
  moreover have "wal_entries (sample_index [sample_entry]) \<noteq> []" by (simp add: sample_index_def)
  ultimately show ?thesis using compaction_keeps_documents [OF store_okI [OF p] c] by force
qed

theorem index_refines_documents_witness:
  "\<exists>ix' disk'. run_all (run_op (\<lambda>_. 7) sample_half) [Delete ''a'', Append [(''doc'', [0x3F800000])], Vacuum, Reopen] (sample_index [], sample_disk [])
       = Some (ix', disk')
     \<and> live_documents sample_half ix' = {#(Ok ''doc'', Ok (encode_elements sample_half F16 [0x3F800000]))#}"
proof -
  let ?run = "run_op (\<lambda>_. 7) sample_half" and ?ops = "[Delete ''a'', Append [(''doc'', [0x3F800000])], Vacuum, Reopen]"
  have p: "store_parts (\<lambda>_. 7) sample_half sample_header [sample_record] [] (sample_index []) (sample_disk [])"
    using sample_parts [of "[]"] by simp
  have u: "unique_live ''a'' [sample_record]" by (simp add: unique_live_def sample_record_def)
  then obtain ix1 disk1 rs1 bs1 where d: "?run (Delete ''a'') (sample_index [], sample_disk []) = Some (ix1, disk1)"
      "store_parts (\<lambda>_. 7) sample_half sample_header rs1 bs1 ix1 disk1" "wal_entries ix1 = []"
    using delete_image [OF p u] by (auto simp: sample_index_def)
  have "dimension ix1 = 1" using store_partsD(4) [OF d(2)] by (simp add: sample_header_def)
  then have "op_ready sample_half (Append [(''doc'', [0x3F800000])]) (ix1, disk1)"
    using d(3) by (simp add: document_ok_def validate_record_def f32_is_finite_def sample_utf)
  then have ready: "all_ready ?run (op_ready sample_half) ?ops (sample_index [], sample_disk [])"
    and exact: "all_ready ?run (op_exact sample_half) ?ops (sample_index [], sample_disk [])"
    using d(1) deletable_unique [OF p] u by (auto split: option.split)
  from index_refines_documents [OF store_okI [OF p] sample_half_stable ready] exact obtain ix' disk' where
    "run_all ?run ?ops (sample_index [], sample_disk []) = Some (ix', disk')"
    "live_documents sample_half ix' = fold (spec_op sample_half F16) ?ops (live_documents sample_half (sample_index []))"
    by (auto simp: store_partsD(3) [OF p] sample_header_def)
  moreover have "live_documents sample_half (sample_index []) = {#(Ok ''a'', Ok [CHR 0x80, CHR 0x3F])#}"
    unfolding store_live [OF p] by (simp add: sample_index_def record_pair_def sample_record_def)
  ultimately show ?thesis by (simp add: document_pair_def)
qed

theorem readded_document_stays_witness:
  "\<exists>ix1 disk1 ix2 disk2. soft_delete (\<lambda>_. 7) sample_half ''a'' (sample_index []) (sample_disk []) = (Ok True, ix1, disk1)
     \<and> append_one (\<lambda>_. 7) sample_half ''a'' [0x3F800000] ix1 disk1 = (Ok (), ix2, disk2)
     \<and> soft_delete (\<lambda>_. 7) sample_half ''a'' ix2 disk2 = (Ok False, ix2, disk2)"
proof -
  have p: "store_parts (\<lambda>_. 7) sample_half sample_header [sample_record] [] (sample_index []) (sample_disk [])"
    using sample_parts [of "[]"] by simp
  have "unique_live ''a'' [sample_record]" by (simp add: unique_live_def sample_record_def)
  then have 1: "deletable ''a'' (sample_index [])" using deletable_unique [OF p] by simp
  have 2: "0 < record_count (sample_index [])" "doc_id_at (sample_index []) 0 = Ok ''a''"
    using doc_id_at_image [OF sample_image_ok, of 0] by (simp_all add: sample_index_def sample_record_def)
  have "document_ok (dimension (sample_index [])) (''a'', [0x3F800000])" "length (wal_entries (sample_index [])) + 1 < 2 ^ 32"
    by (simp_all add: sample_index_def document_ok_def validate_record_def f32_is_finite_def sample_utf sample_header_def)
  from readded_document_stays [OF store_okI [OF p] 1 2 this] show ?thesis by blast
qed

section \<open>A written file\<close>

text \<open>A client writes documents one after the other.\<close>

fun write_all :: "(string \<times> f32 list) list \<Rightarrow> VectorIndexWriter \<Rightarrow> SearchError + VectorIndexWriter" where
  "write_all [] w = Ok w"
| "write_all ((d, v) # ds) w = and_then (write_record d v w) (write_all ds)"

definition pending :: "string \<times> f32 list \<Rightarrow> PendingRecord" where
  "pending p = \<lparr>pr_doc_id = fst p, pr_doc_id_hash = fnv1a_hash (fst p), pr_flags = 0, pr_embedding = snd p\<rparr>"

lemma write_all_ok: "list_all (document_ok (vw_dimension w)) ds \<Longrightarrow> write_all ds w = Ok (w\<lparr>vw_records := vw_records w @ map pending ds\<rparr>)"
proof (induction ds arbitrary: w)
  case (Cons p ds)
  then show ?case by (cases p) (simp add: write_record_def document_ok_def pending_def)
qed simp

definition documents_fit :: "string \<Rightarrow> string \<Rightarrow> nat \<Rightarrow> Quantization \<Rightarrow> (string \<times> f32 list) list \<Rightarrow> bool" where
  "documents_fit eid revision d q ds \<longleftrightarrow>
     (let n = length ds; ids = sum_list (map (length \<circ> fst) ds) in
      ids < 2 ^ 32 \<and> 38 + length eid + length revision + n * 16 + ids + 63 + n * (d * bytes_per_element q) \<le> USIZE_MAX)"

definition document_record :: "half_ops \<Rightarrow> Quantization \<Rightarrow> string \<times> f32 list \<Rightarrow> stored_record" where
  "document_record h q p = \<lparr>sr_doc = fst p, sr_flags = 0, sr_vector = encode_elements h q (snd p)\<rparr>"

lemma written_documents:
  "vw_records w = map pending ds \<Longrightarrow> written_records h w = sort_key rec_key (map (document_record h (vw_quantization w)) ds)"
  by (simp add: written_records_def sort_key_map comp_def pending_def written_record_def document_record_def)

lemma document_records_fit:
  assumes "list_all (document_ok (ih_dimension ih)) ds" "documents_fit (ih_id ih) (ih_revision ih) (ih_dimension ih) (ih_quantization ih) ds"
  shows "list_all (record_ok ih) (map (document_record h (ih_quantization ih)) ds)" "layout_fits ih (map (document_record h (ih_quantization ih)) ds)"
proof -
  show "list_all (record_ok ih) (map (document_record h (ih_quantization ih)) ds)"
    using assms(1) by (auto simp: list_all_iff document_ok_def validate_record_def record_ok_def document_record_def stride_def split: if_splits)
  have "length (strings_of (map (document_record h (ih_quantization ih)) ds)) = sum_list (map (length \<circ> fst) ds)"
    by (simp add: strings_length comp_def document_record_def)
  then show "layout_fits ih (map (document_record h (ih_quantization ih)) ds)"
    using assms(2) by (simp add: layout_fits_def documents_fit_def header_length_def stride_def Let_def)
qed

lemma create_header:
  assumes "create_with_revision eid revision d q = Ok w" "valid_utf8 eid" "valid_utf8 revision"
  shows "header_ok (writer_header w)" "writer_header w = \<lparr>ih_id = eid, ih_revision = revision, ih_dimension = d, ih_quantization = q, ih_gen = 1\<rparr>"
    "vw_records w = []" "vw_dimension w = d" "vw_quantization w = q"
  using assms by (auto simp: create_with_revision_def validate_header_string_def writer_header_def header_ok_def split: if_splits)

lemma read_documents:
  assumes "image_ok ih rs" "mset rs = mset (map (document_record h (ih_quantization ih)) ds)"
  shows "mset (map (\<lambda>i. (doc_id_at (index_of crc32 ih rs es cfg) i, vector_at_f32 h (index_of crc32 ih rs es cfg) i)) [0..<length rs])
    = mset (map (\<lambda>(d, v). (Ok d, Ok (map (requantize h (ih_quantization ih)) v))) ds)"
proof -
  let ?q = "ih_quantization ih"
  define dec where "dec r = (Ok (sr_doc r) :: SearchError + string, Ok (map (decode_element h ?q) (chunks_exact (bytes_per_element ?q) (sr_vector r))) :: SearchError + f32 list)" for r :: stored_record
  have "map (\<lambda>i. (doc_id_at (index_of crc32 ih rs es cfg) i, vector_at_f32 h (index_of crc32 ih rs es cfg) i)) [0..<length rs]
      = map (\<lambda>i. dec (rs ! i)) [0..<length rs]"
    by (rule map_cong [OF refl]) (simp add: doc_id_at_image [OF assms(1)] vector_at_f32_def vector_bytes_at_image [OF assms(1)] dec_def)
  also have "\<dots> = map dec rs" using filter_positions [of dec rs "\<lambda>_. True"] by simp
  finally have "mset (map (\<lambda>i. (doc_id_at (index_of crc32 ih rs es cfg) i, vector_at_f32 h (index_of crc32 ih rs es cfg) i)) [0..<length rs])
      = image_mset dec (mset (map (document_record h ?q) ds))" by (simp only: mset_map assms(2) [unfolded mset_map])
  also have "\<dots> = mset (map (\<lambda>p. dec (document_record h ?q p)) ds)" by (simp add: multiset.map_comp comp_def)
  also have "(\<lambda>p. dec (document_record h ?q p)) = (\<lambda>(d, v). (Ok d, Ok (map (requantize h ?q) v)))"
    by (auto simp: dec_def document_record_def decode_encode_elements)
  finally show ?thesis .
qed

text \<open>
  C9: an index that has been written reads back: creating a writer, writing documents and finishing
  gives a file that opens to an index with exactly these documents and their vectors, each element
  as the quantization stores it; and the search for a document id finds a record of it, and none only
  if it has not been written.
\<close>

theorem written_index_reads_back:
  assumes "create_with_revision eid revision d q = Ok w" "valid_utf8 eid" "valid_utf8 revision"
    and "list_all (document_ok d) ds" "documents_fit eid revision d q ds"
  shows "\<exists>w' bytes ix. write_all ds w = Ok w' \<and> finish crc32 h w' = Ok bytes
    \<and> open_index crc32 h \<lparr>main_file = Some bytes, wal_file = None\<rparr> = Ok (ix, \<lparr>main_file = Some bytes, wal_file = None\<rparr>)
    \<and> record_count ix = length ds
    \<and> mset (map (\<lambda>i. (doc_id_at ix i, vector_at_f32 h ix i)) [0..<record_count ix]) = mset (map (\<lambda>(d, v). (Ok d, Ok (map (requantize h q) v))) ds)
    \<and> (\<forall>d. \<exists>m. find_index_by_doc_id ix d = Ok m
        \<and> (case m of None \<Rightarrow> d \<notin> fst ` set ds | Some i \<Rightarrow> i < record_count ix \<and> doc_id_at ix i = Ok d))"
proof -
  note c = create_header [OF assms(1-3)]
  define w' ih rs where "w' = w\<lparr>vw_records := map pending ds\<rparr>" and "ih = writer_header w'" and "rs = written_records h w'"
  have w: "write_all ds w = Ok w'" using write_all_ok [of w ds] assms(4) c(3,4) by (simp add: w'_def)
  have ih: "ih = \<lparr>ih_id = eid, ih_revision = revision, ih_dimension = d, ih_quantization = q, ih_gen = 1\<rparr>" "header_ok ih"
    using c(1,2) by (simp_all add: ih_def w'_def writer_header_def)
  have rs: "rs = sort_key rec_key (map (document_record h q) ds)"
    using written_documents [of w' ds h] c(5) by (simp add: rs_def w'_def)
  have q: "ih_quantization ih = q" by (simp add: ih(1))
  have "list_all (document_ok (ih_dimension ih)) ds" "documents_fit (ih_id ih) (ih_revision ih) (ih_dimension ih) (ih_quantization ih) ds"
    using assms(4,5) by (simp_all add: ih(1))
  note f = document_records_fit [OF this, of h, unfolded q]
  have ok: "image_ok ih rs" unfolding rs by (intro image_okI ih(2) sort_record_facts f)
  have fin: "finish crc32 h w' = Ok (image crc32 ih rs)"
    unfolding ih_def rs_def by (rule finish_writes_image) (use ok assms(4) in \<open>auto simp: ih_def rs_def w'_def pending_def list_all_iff document_ok_def validate_record_def split: if_splits\<close>)
  let ?ix = "index_of crc32 ih rs [] default_wal_config" and ?disk = "\<lparr>main_file = Some (image crc32 ih rs), wal_file = None\<rparr>"
  have op: "open_index crc32 h ?disk = Ok (?ix, ?disk)" using open_image [OF ok, of ?disk crc32 h] by (simp add: load_wal_def read_wal_def)
  have m: "mset rs = mset (map (document_record h (ih_quantization ih)) ds)" "ih_quantization ih = q" by (simp_all add: rs ih(1))
  have "set rs = document_record h q ` set ds" by (simp add: rs)
  then have docs: "sr_doc ` set rs = fst ` set ds" by (simp add: image_comp comp_def document_record_def)
  have find: "\<exists>m. find_index_by_doc_id ?ix d = Ok m \<and> (case m of None \<Rightarrow> d \<notin> fst ` set ds | Some i \<Rightarrow> i < record_count ?ix \<and> doc_id_at ?ix i = Ok d)" for d
    using find_index_by_doc_id_image [OF ok, of crc32 "[]" default_wal_config d] sort_hash_sorted [of "map (document_record h q) ds", folded rs]
      doc_id_at_image [OF ok] by (fastforce simp: first_record_def docs split: option.splits)
  have l: "length rs = length ds" by (simp add: rs)
  show ?thesis
    by (intro exI [of _ w'] exI [of _ "image crc32 ih rs"] exI [of _ ?ix] conjI allI w fin op find)
      (use read_documents [OF ok m(1)] in \<open>simp_all add: l m(2)\<close>)
qed

definition sample_documents :: "(string \<times> f32 list) list" where
  "sample_documents = [(''doc'', [0x3F800000]), (''a'', [0xBF800000])]"

theorem written_index_reads_back_witness:
  "\<exists>w w' bytes ix. create_with_revision ''m'' [] 1 F16 = Ok w \<and> write_all sample_documents w = Ok w' \<and> finish (\<lambda>_. 7) sample_half w' = Ok bytes
     \<and> open_index (\<lambda>_. 7) sample_half \<lparr>main_file = Some bytes, wal_file = None\<rparr> = Ok (ix, \<lparr>main_file = Some bytes, wal_file = None\<rparr>)
     \<and> record_count ix = 2"
proof -
  obtain w where w: "create_with_revision ''m'' [] 1 F16 = Ok w"
    by (simp add: create_with_revision_def validate_header_string_def)
  have "list_all (document_ok 1) sample_documents" "documents_fit ''m'' [] 1 F16 sample_documents" "length sample_documents = 2"
    by (simp_all add: sample_documents_def document_ok_def validate_record_def f32_is_finite_def sample_utf documents_fit_def bytes_per_element_def USIZE_MAX_def Let_def)
  with written_index_reads_back [OF w sample_utf(2,4), of sample_documents "\<lambda>_. 7" sample_half] w show ?thesis by auto
qed

text \<open>
  A file that is written over an index of the same generation takes the log that is still there: the
  entries of the old index are entries of the new one.
\<close>

lemma rewritten_file_takes_old_log:
  assumes "store_parts crc32 h ih rs bs ix disk" "image_ok ih rs'"
  shows "\<exists>ix' disk'. open_index crc32 h (disk\<lparr>main_file := Some (image crc32 ih rs')\<rparr>) = Ok (ix', disk')
    \<and> wal_entries ix' = concat (map (map (stored h (ih_quantization ih))) bs)"
proof -
  have "ih_dimension ih < 2 ^ 32" "ih_gen ih < 256" using assms(2) by (simp_all add: image_ok_def header_ok_def)
  moreover have "log_holds crc32 h (ih_dimension ih) (ih_quantization ih) (next_generation (ih_gen ih)) bs (wal_file disk)"
    using assms(1) by (simp add: store_parts_def)
  ultimately show ?thesis using open_image [OF assms(2), of "disk\<lparr>main_file := Some (image crc32 ih rs')\<rparr>" crc32 h] load_holds by simp
qed

end
