(* ===== verification/Fs_Replay.thy ===== *)
theory Fs_Replay
  imports Prelude
begin

text \<open>
  Replay of a stream of commits (\<open>frankensearch-core/src/commit_replay.rs\<close>). The locks make an
  application of one commit a single step. The consumer is a parameter with a state of its own; an
  operation of it that fails can have changed that state, and its error is a text.
\<close>

section \<open>Types\<close>

type_synonym tags = "(string \<times> string) list"

datatype DocumentOp =
    Add string string tags
  | Update string string tags
  | Delete string

fun op_doc_id :: "DocumentOp \<Rightarrow> string" where
  "op_doc_id (Add d _ _) = d"
| "op_doc_id (Update d _ _) = d"
| "op_doc_id (Delete d) = d"

record CommitEntry =
  commit_seq :: nat
  commit_id :: string
  operations :: "DocumentOp list"
  timestamp :: nat

record ReplayWatermark =
  last_applied_seq :: nat
  last_applied_at :: nat
  total_commits_applied :: nat
  total_ops_applied :: nat

definition empty_watermark :: ReplayWatermark where
  "empty_watermark = \<lparr>last_applied_seq = 0, last_applied_at = 0, total_commits_applied = 0, total_ops_applied = 0\<rparr>"

datatype SkipReason = AlreadyApplied | OutOfOrder nat nat | EmptyCommit

datatype CommitOutcome =
    Applied nat nat
  | Skipped nat SkipReason
  | Failed nat string

record 'c ReplayConsumer =
  apply_add :: "string \<Rightarrow> string \<Rightarrow> tags \<Rightarrow> 'c \<Rightarrow> (string + unit) \<times> 'c"
  apply_update :: "string \<Rightarrow> string \<Rightarrow> tags \<Rightarrow> 'c \<Rightarrow> (string + unit) \<times> 'c"
  apply_delete :: "string \<Rightarrow> 'c \<Rightarrow> (string + unit) \<times> 'c"

record ReplayPolicy =
  strict_ordering :: bool
  skip_duplicates :: bool
  skip_empty :: bool
  stop_on_failure :: bool

definition default_replay_policy :: ReplayPolicy where
  "default_replay_policy = \<lparr>strict_ordering = True, skip_duplicates = True, skip_empty = True, stop_on_failure = True\<rparr>"

record CommitReplayEngine =
  watermark :: ReplayWatermark
  policy :: ReplayPolicy

section \<open>Operations\<close>

definition new_engine :: "ReplayPolicy \<Rightarrow> CommitReplayEngine" where
  "new_engine p = \<lparr>watermark = empty_watermark, policy = p\<rparr>"

definition resume_from :: "ReplayWatermark \<Rightarrow> ReplayPolicy \<Rightarrow> CommitReplayEngine" where
  "resume_from wm p = \<lparr>watermark = wm, policy = p\<rparr>"

definition default_engine :: CommitReplayEngine where
  "default_engine = new_engine default_replay_policy"

definition check_skip :: "CommitReplayEngine \<Rightarrow> CommitEntry \<Rightarrow> CommitOutcome option" where
  "check_skip eng entry =
     (let seq = last_applied_seq (watermark eng); expected = usize_add seq 1 in
      if commit_seq entry \<le> seq \<and> skip_duplicates (policy eng) then Some (Skipped (commit_seq entry) AlreadyApplied)
      else if strict_ordering (policy eng) \<and> 0 < seq \<and> commit_seq entry \<noteq> expected then
        Some (Skipped (commit_seq entry) (OutOfOrder expected (commit_seq entry)))
      else if operations entry = [] \<and> skip_empty (policy eng) then Some (Skipped (commit_seq entry) EmptyCommit)
      else None)"

definition advance_watermark :: "nat \<Rightarrow> nat \<Rightarrow> nat \<Rightarrow> CommitReplayEngine \<Rightarrow> CommitReplayEngine" where
  "advance_watermark seq now_millis ops eng =
     (let wm = watermark eng;
          wm = (if last_applied_seq wm < seq then wm\<lparr>last_applied_seq := seq\<rparr> else wm)
      in eng\<lparr>watermark := wm\<lparr>last_applied_at := now_millis, total_commits_applied := usize_add (total_commits_applied wm) 1,
           total_ops_applied := usize_add (total_ops_applied wm) ops\<rparr>\<rparr>)"

fun consume :: "'c ReplayConsumer \<Rightarrow> DocumentOp \<Rightarrow> 'c \<Rightarrow> (string + unit) \<times> 'c" where
  "consume consumer (Add d content m) c = apply_add consumer d content m c"
| "consume consumer (Update d content m) c = apply_update consumer d content m c"
| "consume consumer (Delete d) c = apply_delete consumer d c"

fun consume_all :: "'c ReplayConsumer \<Rightarrow> DocumentOp list \<Rightarrow> nat \<Rightarrow> 'c \<Rightarrow> (string + nat) \<times> 'c" where
  "consume_all consumer [] ops_applied c = (Ok ops_applied, c)"
| "consume_all consumer (op # ops) ops_applied c =
     (case consume consumer op c of
        (Inr _, c') \<Rightarrow> consume_all consumer ops (ops_applied + 1) c'
      | (Inl e, c') \<Rightarrow> (Err e, c'))"

definition apply_commit ::
  "'c ReplayConsumer \<Rightarrow> CommitEntry \<Rightarrow> nat \<Rightarrow> CommitReplayEngine \<times> 'c \<Rightarrow> CommitOutcome \<times> CommitReplayEngine \<times> 'c" where
  "apply_commit consumer entry now_millis s =
     (case s of (eng, c) \<Rightarrow>
       case check_skip eng entry of
         Some skip \<Rightarrow> (skip, eng, c)
       | None \<Rightarrow>
           (case consume_all consumer (operations entry) 0 c of
              (Inl e, c') \<Rightarrow> (Failed (commit_seq entry) e, eng, c')
            | (Inr ops_applied, c') \<Rightarrow>
                (Applied (commit_seq entry) ops_applied, advance_watermark (commit_seq entry) now_millis ops_applied eng, c')))"

fun replay_batch ::
  "'c ReplayConsumer \<Rightarrow> CommitEntry list \<Rightarrow> nat \<Rightarrow> CommitReplayEngine \<times> 'c \<Rightarrow> CommitOutcome list \<times> CommitReplayEngine \<times> 'c" where
  "replay_batch consumer [] now_millis s = ([], s)"
| "replay_batch consumer (entry # entries) now_millis s =
     (case apply_commit consumer entry now_millis s of
        (outcome, s') \<Rightarrow>
          if (case outcome of Failed _ _ \<Rightarrow> True | _ \<Rightarrow> False) \<and> stop_on_failure (policy (fst s)) then ([outcome], s')
          else
            (case replay_batch consumer entries now_millis s' of (outcomes, s'') \<Rightarrow> (outcome # outcomes, s'')))"

definition reset_engine :: "CommitReplayEngine \<Rightarrow> CommitReplayEngine" where
  "reset_engine eng = eng\<lparr>watermark := empty_watermark\<rparr>"

section \<open>Deliveries\<close>

text \<open>
  Commits are delivered one by one, at any times, in any order and any number of times; the commits
  that were applied are recorded.
\<close>

definition deliver ::
  "'c ReplayConsumer \<Rightarrow> CommitEntry \<times> nat \<Rightarrow> CommitReplayEngine \<times> 'c \<times> CommitEntry list \<Rightarrow> CommitReplayEngine \<times> 'c \<times> CommitEntry list" where
  "deliver consumer d s =
     (case (d, s) of ((entry, now_millis), (eng, c, applied)) \<Rightarrow>
       case apply_commit consumer entry now_millis (eng, c) of
         (outcome, eng', c') \<Rightarrow> (eng', c', case outcome of Applied _ _ \<Rightarrow> applied @ [entry] | _ \<Rightarrow> applied))"

abbreviation infallible :: "'c ReplayConsumer \<Rightarrow> bool" where
  "infallible consumer \<equiv> \<forall>op c. fst (consume consumer op c) = Ok ()"

definition consume_fold :: "'c ReplayConsumer \<Rightarrow> DocumentOp list \<Rightarrow> 'c \<Rightarrow> 'c" where
  "consume_fold consumer ops = fold (\<lambda>op c. snd (consume consumer op c)) ops"

lemma consume_fold_simps [simp]:
  "consume_fold consumer [] c = c" "consume_fold consumer (a @ b) c = consume_fold consumer b (consume_fold consumer a c)"
  by (simp_all add: consume_fold_def)

lemma consume_all_infallible:
  "infallible consumer \<Longrightarrow> consume_all consumer ops n c = (Ok (n + length ops), consume_fold consumer ops c)"
proof (induction ops arbitrary: n c)
  case (Cons op ops)
  obtain r c' where "consume consumer op c = (r, c')" by (cases "consume consumer op c")
  moreover from this have "r = Ok ()" using Cons.prems by (metis fst_conv)
  ultimately show ?case using Cons by (simp add: consume_fold_def)
qed simp

lemma consume_all_count: "consume_all consumer ops n c = (Ok k, c') \<Longrightarrow> k = n + length ops"
  by (induction ops arbitrary: n c) (fastforce split: prod.splits sum.splits)+

lemma consume_all_seen:
  "consume_all consumer ops n c = (r, c') \<Longrightarrow>
     (case r of Ok _ \<Rightarrow> c' = consume_fold consumer ops c
      | Err _ \<Rightarrow> \<exists>k. 0 < k \<and> k \<le> length ops \<and> c' = consume_fold consumer (take k ops) c)"
proof (induction ops arbitrary: n c)
  case (Cons op ops)
  obtain a c1 where a: "consume consumer op c = (a, c1)" by (cases "consume consumer op c")
  have fold: "consume_fold consumer (op # xs) c = consume_fold consumer xs c1" for xs using a by (simp add: consume_fold_def)
  show ?case
  proof (cases a)
    case (Inl e)
    then show ?thesis using Cons.prems a fold [of "[]"] by (force intro: exI [of _ "Suc 0"])
  next
    case (Inr u)
    then have seen: "case r of Ok _ \<Rightarrow> c' = consume_fold consumer ops c1
        | Err _ \<Rightarrow> \<exists>k. 0 < k \<and> k \<le> length ops \<and> c' = consume_fold consumer (take k ops) c1"
      using Cons.IH [of "n + 1" c1] Cons.prems a by simp
    show ?thesis
    proof (cases r)
      case (Inl e)
      then obtain k where "0 < k" "k \<le> length ops" "c' = consume_fold consumer (take k ops) c1" using seen by auto
      then show ?thesis using Inl fold by (auto intro: exI [of _ "Suc k"])
    qed (use seen fold in simp)
  qed
qed auto

text \<open>
  What the consumer has seen, as a list of attempts: a commit that is applied with all its operations, a
  commit that failed with those up to the one that failed.
\<close>

type_synonym attempt = "CommitEntry \<times> DocumentOp list \<times> bool"

definition consumer_saw :: "'c ReplayConsumer \<Rightarrow> 'c \<Rightarrow> attempt list \<Rightarrow> CommitEntry list \<Rightarrow> 'c \<Rightarrow> bool" where
  "consumer_saw consumer c0 attempts applied c \<longleftrightarrow>
     c = consume_fold consumer (concat (map (fst \<circ> snd) attempts)) c0
     \<and> map fst (filter (snd \<circ> snd) attempts) = applied
     \<and> (\<forall>(e, ops, ok) \<in> set attempts.
          if ok then ops = operations e else \<not> infallible consumer \<and> (\<exists>k. 0 < k \<and> k \<le> length (operations e) \<and> ops = take k (operations e)))"

lemma consumer_saw_more:
  assumes "consumer_saw consumer c0 attempts applied c" "consume_all consumer (operations e) 0 c = (r, c')"
  shows "\<exists>attempts'. consumer_saw consumer c0 attempts' (case r of Ok _ \<Rightarrow> applied @ [e] | Err _ \<Rightarrow> applied) c'"
proof (cases r)
  case (Inl x)
  then obtain k where "0 < k" "k \<le> length (operations e)" "c' = consume_fold consumer (take k (operations e)) c"
    using consume_all_seen [OF assms(2)] by auto
  moreover have "\<not> infallible consumer" using assms(2) Inl consume_all_infallible [of consumer "operations e" 0 c] by auto
  ultimately show ?thesis
    using assms(1) Inl by (intro exI [of _ "attempts @ [(e, take k (operations e), False)]"]) (auto simp: consumer_saw_def)
next
  case (Inr n)
  then have "c' = consume_fold consumer (operations e) c" using consume_all_seen [OF assms(2)] by simp
  then show ?thesis using assms(1) Inr by (intro exI [of _ "attempts @ [(e, operations e, True)]"]) (auto simp: consumer_saw_def)
qed

lemma consumer_saw_infallible:
  assumes "consumer_saw consumer c0 attempts applied c" "infallible consumer"
  shows "c = consume_fold consumer (concat (map operations applied)) c0"
proof -
  have "\<forall>(e, ops, ok) \<in> set attempts. ok \<and> ops = operations e" using assms by (auto simp: consumer_saw_def split: if_splits)
  then have "map (fst \<circ> snd) attempts = map operations (map fst (filter (snd \<circ> snd) attempts))"
    by (induction attempts) auto
  then show ?thesis using assms(1) by (auto simp: consumer_saw_def)
qed

text \<open>What holds after any deliveries to an engine whose policy is ordered and without duplicates.\<close>

abbreviation in_order :: "ReplayPolicy \<Rightarrow> bool" where
  "in_order p \<equiv> strict_ordering p \<and> skip_duplicates p"

definition replay_inv :: "ReplayPolicy \<Rightarrow> 'c ReplayConsumer \<Rightarrow> 'c \<Rightarrow> CommitReplayEngine \<times> 'c \<times> CommitEntry list \<Rightarrow> bool" where
  "replay_inv p consumer c0 s \<longleftrightarrow> (case s of (eng, c, applied) \<Rightarrow>
     policy eng = p
     \<and> last_applied_seq (watermark eng) = (if applied = [] then 0 else commit_seq (last applied))
     \<and> (\<exists>first. 0 < first \<and> map commit_seq applied = [first..<first + length applied])
     \<and> total_commits_applied (watermark eng) = length applied mod 2 ^ 64
     \<and> total_ops_applied (watermark eng) = length (concat (map operations applied)) mod 2 ^ 64
     \<and> (\<exists>attempts. consumer_saw consumer c0 attempts applied c))"

lemma seqs_last: "map commit_seq applied = [first..<first + length applied] \<Longrightarrow> applied \<noteq> [] \<Longrightarrow> commit_seq (last applied) + 1 = first + length applied"
  by (cases applied rule: rev_cases) simp_all

lemma usize_add_mod: "usize_add (a mod 2 ^ 64) b = (a + b) mod 2 ^ 64"
  by (simp add: usize_add_def mod_add_left_eq)

lemma check_skip_None:
  assumes "check_skip eng entry = None" "in_order (policy eng)"
  shows "last_applied_seq (watermark eng) < commit_seq entry"
    "last_applied_seq (watermark eng) = 0 \<or> commit_seq entry = last_applied_seq (watermark eng) + 1"
proof -
  have 1: "last_applied_seq (watermark eng) < commit_seq entry"
    and 2: "last_applied_seq (watermark eng) = 0 \<or> commit_seq entry = usize_add (last_applied_seq (watermark eng)) 1"
    using assms by (auto simp: check_skip_def Let_def split: if_splits)
  show "last_applied_seq (watermark eng) < commit_seq entry" by (rule 1)
  show "last_applied_seq (watermark eng) = 0 \<or> commit_seq entry = last_applied_seq (watermark eng) + 1"
    using 1 2 by (auto simp: usize_add_def)
qed

lemma deliver_inv:
  assumes "replay_inv p consumer c0 (eng, c, applied)" "in_order p"
  shows "replay_inv p consumer c0 (deliver consumer (entry, now) (eng, c, applied))"
proof -
  obtain r c' where run: "consume_all consumer (operations entry) 0 c = (r, c')" by (cases "consume_all consumer (operations entry) 0 c")
  note inv = assms(1) [unfolded replay_inv_def prod.case]
  have p: "in_order (policy eng)" using inv assms(2) by simp
  obtain attempts where saw: "consumer_saw consumer c0 attempts applied c" using inv by blast
  show ?thesis
  proof (cases "check_skip eng entry = None \<and> (\<exists>n. r = Ok n)")
    case True
    then obtain n where n: "check_skip eng entry = None" "r = Ok n" by blast
    have len: "n = length (operations entry)" using consume_all_count [OF run [unfolded n(2)]] by simp
    note skip = check_skip_None [OF n(1) p]
    obtain first where first: "0 < first" "map commit_seq applied = [first..<first + length applied]" using inv by blast
    have seqs: "\<exists>first. 0 < first \<and> map commit_seq (applied @ [entry]) = [first..<first + length (applied @ [entry])]"
    proof (cases "applied = []")
      case True
      then show ?thesis using skip(1) by (intro exI [of _ "commit_seq entry"]) simp
    next
      case False
      then have "last_applied_seq (watermark eng) + 1 = first + length applied" using inv seqs_last [OF first(2)] by simp
      moreover have "last_applied_seq (watermark eng) \<noteq> 0" using calculation first(1) False by (cases applied) auto
      ultimately have "commit_seq entry = first + length applied" using skip(2) by simp
      then show ?thesis using first by (intro exI [of _ first]) simp
    qed
    have d: "deliver consumer (entry, now) (eng, c, applied) = (advance_watermark (commit_seq entry) now n eng, c', applied @ [entry])"
      using n run by (simp add: deliver_def apply_commit_def)
    have w: "last_applied_seq (watermark eng) < commit_seq entry" using skip(1) by simp
    have c: "\<exists>attempts. consumer_saw consumer c0 attempts (applied @ [entry]) c'" using consumer_saw_more [OF saw run] n(2) by simp
    show ?thesis unfolding d replay_inv_def prod.case
      using inv w seqs c usize_add_mod [of "length applied" 1] usize_add_mod [of "length (concat (map operations applied))" n]
      by (simp add: advance_watermark_def len)
  next
    case False
    then have "deliver consumer (entry, now) (eng, c, applied) = (eng, snd (snd (apply_commit consumer entry now (eng, c))), applied)"
      by (auto simp: deliver_def apply_commit_def check_skip_def Let_def run split: option.splits sum.splits if_splits)
    moreover have "\<exists>attempts. consumer_saw consumer c0 attempts applied (snd (snd (apply_commit consumer entry now (eng, c))))"
    proof (cases "check_skip eng entry")
      case None
      with False obtain e where "r = Err e" by (cases r) auto
      then show ?thesis using consumer_saw_more [OF saw run] None run by (simp add: apply_commit_def)
    qed (use saw in \<open>auto simp: apply_commit_def\<close>)
    ultimately show ?thesis using inv by (simp add: replay_inv_def)
  qed
qed

lemma new_engine_inv: "replay_inv p consumer c0 (new_engine p, c0, [])"
proof -
  have "consumer_saw consumer c0 [] [] c0" by (simp add: consumer_saw_def)
  then show ?thesis by (auto simp: replay_inv_def new_engine_def empty_watermark_def intro: exI [of _ 1])
qed

interpretation replay: invariant_machine "deliver consumer" "\<lambda>s. in_order p \<longrightarrow> replay_inv p consumer c0 s" "(new_engine p, c0, [])"
  for consumer c0 p
proof
  show "in_order p \<longrightarrow> replay_inv p consumer c0 (new_engine p, c0, [])" by (intro impI new_engine_inv)
  show "in_order p \<longrightarrow> replay_inv p consumer c0 (deliver consumer op s)" if "in_order p \<longrightarrow> replay_inv p consumer c0 s" for op s
    using that deliver_inv [of p consumer c0 _ _ _ "fst op" "snd op"] by (cases s) auto
qed

lemma deliver_applied: "set (snd (snd (deliver consumer d s))) \<subseteq> insert (fst d) (set (snd (snd s)))"
  by (cases d; cases s) (auto simp: deliver_def split: prod.splits CommitOutcome.splits)

lemma deliveries_applied: "set (snd (snd (fold (deliver consumer) ds s))) \<subseteq> set (snd (snd s)) \<union> fst ` set ds"
proof (induction ds arbitrary: s)
  case (Cons d ds)
  have "set (snd (snd (fold (deliver consumer) (d # ds) s))) \<subseteq> set (snd (snd (deliver consumer d s))) \<union> fst ` set ds"
    using Cons.IH [of "deliver consumer d s"] by (simp only: fold_simps(2))
  also have "\<dots> \<subseteq> set (snd (snd s)) \<union> fst ` set (d # ds)" using deliver_applied [of consumer d s] by auto
  finally show ?case .
qed simp

text \<open>
  C15: commits are replayed once and in order: whatever commits are delivered to a new engine whose policy is ordered and skips
  duplicates, as the default policy does, in whatever order and how often, the commits that it applies are among them and have
  consecutive sequence numbers, so that none is applied twice and none is left out between two others; and
  the watermark names the last of them and counts them and their operations. The consumer has seen the operations of the applied
  commits, in their order, and between them only those of attempts that it failed itself, each up to the operation that failed
  (they are seen again when the commit is delivered again). A consumer that does not fail has seen the operations of the applied
  commits and nothing else.
\<close>

theorem replay_exactly_once:
  assumes "strict_ordering p" "skip_duplicates p" "fold (deliver consumer) ds (new_engine p, c0, []) = (eng, c, applied)"
  shows "set applied \<subseteq> fst ` set ds \<and> (\<exists>first. map commit_seq applied = [first..<first + length applied])
    \<and> last_applied_seq (watermark eng) = (if applied = [] then 0 else commit_seq (last applied))
    \<and> total_commits_applied (watermark eng) = length applied mod 2 ^ 64
    \<and> total_ops_applied (watermark eng) = length (concat (map operations applied)) mod 2 ^ 64
    \<and> (\<exists>attempts. consumer_saw consumer c0 attempts applied c)
    \<and> (infallible consumer \<longrightarrow> c = consume_fold consumer (concat (map operations applied)) c0)"
proof -
  have "replay_inv p consumer c0 (eng, c, applied)" using replay.inv_run [of p consumer c0 ds] assms by simp
  moreover have "set applied \<subseteq> fst ` set ds" using deliveries_applied [of consumer ds "(new_engine p, c0, [])"] assms(3) by simp
  ultimately show ?thesis by (auto simp: replay_inv_def dest: consumer_saw_infallible)
qed

lemma apply_next:
  assumes "policy eng = default_replay_policy" "infallible consumer" "operations e \<noteq> []" "commit_seq e < 2 ^ 64"
    and "last_applied_seq (watermark eng) < commit_seq e" "last_applied_seq (watermark eng) = 0 \<or> commit_seq e = last_applied_seq (watermark eng) + 1"
  shows "apply_commit consumer e now (eng, c) = (Applied (commit_seq e) (length (operations e)),
    advance_watermark (commit_seq e) now (length (operations e)) eng, consume_fold consumer (operations e) c)"
proof -
  have "last_applied_seq (watermark eng) = 0 \<or> usize_add (last_applied_seq (watermark eng)) 1 = commit_seq e"
    using assms(4,6) by auto
  then have "check_skip eng e = None" using assms(1,3,5) by (auto simp: check_skip_def default_replay_policy_def Let_def)
  then show ?thesis using consume_all_infallible [OF assms(2)] by (simp add: apply_commit_def)
qed

lemma batch_applied:
  assumes "map commit_seq entries = [first..<first + length entries]" "first + length entries \<le> 2 ^ 64"
    and "\<forall>e \<in> set entries. operations e \<noteq> []" "infallible consumer"
    and "policy eng = default_replay_policy" "last_applied_seq (watermark eng) < first"
    and "last_applied_seq (watermark eng) = 0 \<or> first = last_applied_seq (watermark eng) + 1"
  shows "\<exists>eng'. replay_batch consumer entries now (eng, c)
      = (map (\<lambda>e. Applied (commit_seq e) (length (operations e))) entries, eng', consume_fold consumer (concat (map operations entries)) c)
    \<and> policy eng' = default_replay_policy
    \<and> last_applied_seq (watermark eng') = (if entries = [] then last_applied_seq (watermark eng) else commit_seq (last entries))"
  using assms
proof (induction entries arbitrary: first eng c)
  case (Cons e entries)
  define eng1 where "eng1 = advance_watermark (commit_seq e) now (length (operations e)) eng"
  have "[first..<first + length (e # entries)] = first # [Suc first..<Suc first + length entries]" by (subst upt_conv_Cons) simp_all
  with Cons.prems(1) have e: "commit_seq e = first" and rest: "map commit_seq entries = [Suc first..<Suc first + length entries]" by simp_all
  have a: "apply_commit consumer e now (eng, c) = (Applied (commit_seq e) (length (operations e)), eng1, consume_fold consumer (operations e) c)"
    unfolding eng1_def by (rule apply_next) (use Cons.prems e in auto)
  have 1: "policy eng1 = default_replay_policy" "last_applied_seq (watermark eng1) = first"
    using Cons.prems(5,6) by (simp_all add: eng1_def advance_watermark_def e Let_def)
  obtain eng' where "replay_batch consumer entries now (eng1, consume_fold consumer (operations e) c)
      = (map (\<lambda>e. Applied (commit_seq e) (length (operations e))) entries, eng',
         consume_fold consumer (concat (map operations entries)) (consume_fold consumer (operations e) c))"
      "policy eng' = default_replay_policy"
      "last_applied_seq (watermark eng') = (if entries = [] then first else commit_seq (last entries))"
    using Cons.IH [OF rest _ _ Cons.prems(4) 1(1), of "consume_fold consumer (operations e) c"] Cons.prems(2,3) 1(2) by auto
  with a e show ?case by auto
qed simp

lemma batch_again:
  assumes "policy eng = default_replay_policy" "\<forall>e \<in> set entries. commit_seq e \<le> last_applied_seq (watermark eng)"
  shows "replay_batch consumer entries now (eng, c) = (map (\<lambda>e. Skipped (commit_seq e) AlreadyApplied) entries, eng, c)"
  using assms by (induction entries) (simp_all add: apply_commit_def check_skip_def default_replay_policy_def)

text \<open>
  A stream replays completely: a batch of commits with consecutive sequence numbers, each with
  operations, is applied in full by a new engine with a consumer that does not fail, and replaying the
  batch again changes nothing.
\<close>

theorem batch_replays_completely:
  fixes consumer :: "'c ReplayConsumer"
  assumes "map commit_seq entries = [first..<first + length entries]" "0 < first" "first + length entries \<le> 2 ^ 64"
    and "\<forall>e \<in> set entries. operations e \<noteq> []" "infallible consumer" "entries \<noteq> []"
  shows "\<exists>eng. replay_batch consumer entries now (default_engine, c)
      = (map (\<lambda>e. Applied (commit_seq e) (length (operations e))) entries, eng, consume_fold consumer (concat (map operations entries)) c)
    \<and> last_applied_seq (watermark eng) = commit_seq (last entries)
    \<and> replay_batch consumer entries now' (eng, c') = (map (\<lambda>e. Skipped (commit_seq e) AlreadyApplied) entries, eng, c')"
proof -
  obtain eng where eng: "replay_batch consumer entries now (default_engine, c)
      = (map (\<lambda>e. Applied (commit_seq e) (length (operations e))) entries, eng, consume_fold consumer (concat (map operations entries)) c)"
      "policy eng = default_replay_policy" "last_applied_seq (watermark eng) = commit_seq (last entries)"
    using batch_applied [OF assms(1,3,4,5), of default_engine now c] assms(2,6)
    by (auto simp: default_engine_def new_engine_def empty_watermark_def)
  have "commit_seq e \<le> last_applied_seq (watermark eng)" if "e \<in> set entries" for e
  proof -
    have "commit_seq e \<in> set [first..<first + length entries]" unfolding assms(1) [symmetric] using that by simp
    then show ?thesis using seqs_last [OF assms(1,6)] eng(3) by simp
  qed
  then have "replay_batch consumer entries now' (eng, c') = (map (\<lambda>e. Skipped (commit_seq e) AlreadyApplied) entries, eng, c')"
    by (intro batch_again [OF eng(2)]) blast
  then show ?thesis using eng by blast
qed

text \<open>
  An empty commit ends the replay: under the default policy an engine that has applied a commit
  skips the next one if it has no operations, without recording it, so that from then on nothing that
  is delivered is applied: every later commit is out of order.
\<close>

theorem empty_commit_stalls_replay:
  assumes "policy eng = default_replay_policy" "0 < last_applied_seq (watermark eng)"
    and "\<forall>(entry, now) \<in> set ds. commit_seq entry = last_applied_seq (watermark eng) + 1 \<longrightarrow> operations entry = []"
  shows "fold (deliver consumer) ds (eng, c, applied) = (eng, c, applied)"
  using assms(3)
proof (induction ds)
  case (Cons d ds)
  obtain entry now where d: "d = (entry, now)" by (cases d)
  have "check_skip eng entry \<noteq> None"
  proof
    assume "check_skip eng entry = None"
    moreover from this have "operations entry \<noteq> []" using assms(1) by (auto simp: check_skip_def default_replay_policy_def Let_def split: if_splits)
    ultimately show False using check_skip_None(2) [of eng entry] assms(1,2) Cons.prems d by (auto simp: default_replay_policy_def)
  qed
  then obtain skip where "check_skip eng entry = Some skip" by blast
  moreover from this have "\<nexists>a b. skip = Applied a b" by (auto simp: check_skip_def Let_def split: if_splits)
  ultimately have "deliver consumer d (eng, c, applied) = (eng, c, applied)"
    by (cases skip) (simp_all add: deliver_def d apply_commit_def)
  then show ?case using Cons by simp
qed simp

section \<open>Samples\<close>

text \<open>A consumer that keeps the documents it has.\<close>

definition sample_consumer :: "(string \<times> string) list ReplayConsumer" where
  "sample_consumer = \<lparr>apply_add = (\<lambda>d content _ m. (Ok (), hinsert d content m)), apply_update = (\<lambda>d content _ m. (Ok (), hinsert d content m)),
     apply_delete = (\<lambda>d m. (Ok (), hremove d m))\<rparr>"

definition sample_commit :: "nat \<Rightarrow> DocumentOp list \<Rightarrow> CommitEntry" where
  "sample_commit n ops = \<lparr>commit_seq = n, commit_id = ''c'', operations = ops, timestamp = 0\<rparr>"

lemma sample_infallible: "infallible sample_consumer"
proof (intro allI)
  show "fst (consume sample_consumer op c) = Ok ()" for op c by (cases op) (simp_all add: sample_consumer_def)
qed

text \<open>The second commit comes too early once, and the first comes twice.\<close>

theorem replay_exactly_once_witness:
  "\<exists>eng c applied. fold (deliver sample_consumer) [(sample_commit 4 [Add ''a'' ''x'' []], 0), (sample_commit 6 [Delete ''a''], 1),
       (sample_commit 4 [Add ''a'' ''x'' []], 2), (sample_commit 5 [Add ''b'' ''y'' []], 3)] (new_engine default_replay_policy, [], []) = (eng, c, applied)
     \<and> map commit_seq applied = [4, 5] \<and> last_applied_seq (watermark eng) = 5 \<and> total_commits_applied (watermark eng) = 2
     \<and> c = consume_fold sample_consumer [Add ''a'' ''x'' [], Add ''b'' ''y'' []] []"
proof -
  let ?ds = "[(sample_commit 4 [Add ''a'' ''x'' []], 0), (sample_commit 6 [Delete ''a''], 1),
       (sample_commit 4 [Add ''a'' ''x'' []], 2), (sample_commit 5 [Add ''b'' ''y'' []], 3)]"
  obtain eng c applied where r: "fold (deliver sample_consumer) ?ds (new_engine default_replay_policy, [], []) = (eng, c, applied)" by (metis prod_cases3)
  then have "applied = [sample_commit 4 [Add ''a'' ''x'' []], sample_commit 5 [Add ''b'' ''y'' []]]"
    by (simp add: deliver_def apply_commit_def check_skip_def sample_commit_def sample_consumer_def new_engine_def
        default_replay_policy_def empty_watermark_def advance_watermark_def Let_def usize_add_def split: prod.splits)
  moreover have "strict_ordering default_replay_policy" "skip_duplicates default_replay_policy" by (simp_all add: default_replay_policy_def)
  ultimately show ?thesis using replay_exactly_once [OF _ _ r] r sample_infallible by (auto simp: sample_commit_def)
qed

theorem batch_replays_completely_witness:
  "\<exists>eng. replay_batch sample_consumer [sample_commit 1 [Add ''a'' ''x'' []], sample_commit 2 [Delete ''a'']] 7 (default_engine, [])
      = ([Applied 1 1, Applied 2 1], eng, consume_fold sample_consumer [Add ''a'' ''x'' [], Delete ''a''] [])
     \<and> last_applied_seq (watermark eng) = 2"
proof -
  let ?es = "[sample_commit 1 [Add ''a'' ''x'' []], sample_commit 2 [Delete ''a'']]"
  have "map commit_seq ?es = [1..<1 + length ?es]" "(1 :: nat) + length ?es \<le> 2 ^ 64" "\<forall>e \<in> set ?es. operations e \<noteq> []"
    by (simp_all add: sample_commit_def upt_rec)
  from batch_replays_completely [OF this(1) _ this(2,3) sample_infallible, of 7 "[]"] show ?thesis by (auto simp: sample_commit_def)
qed

text \<open>Commit 2 is empty, and commit 3 is never applied.\<close>

theorem empty_commit_stalls_replay_witness:
  "fold (deliver sample_consumer) [(sample_commit 2 [], 0), (sample_commit 3 [Delete ''a''], 1), (sample_commit 2 [], 2), (sample_commit 3 [Delete ''a''], 3)]
     (resume_from (empty_watermark\<lparr>last_applied_seq := 1\<rparr>) default_replay_policy, [(''a'', ''x'')], [])
   = (resume_from (empty_watermark\<lparr>last_applied_seq := 1\<rparr>) default_replay_policy, [(''a'', ''x'')], [])"
  by (rule empty_commit_stalls_replay) (simp_all add: resume_from_def sample_commit_def)

end
