(* ===== verification/Fs_Query.thy ===== *)
theory Fs_Query
  imports Rust_Ord Rust_Str
begin

text \<open>
  Queries: the syntax of exclusions (\<open>frankensearch-core/src/parsed_query.rs\<close>) and the class of a query that sets the budgets of
  the retrieval (\<open>query_class.rs\<close>). The parser runs over characters, each of which is the list of its bytes;
  instead of an index it keeps the rest of the characters and whether the one before them is a blank or missing.
\<close>

section \<open>Parsing\<close>

abbreviation is_whitespace :: "string \<Rightarrow> bool" where "is_whitespace c \<equiv> c \<in> set ws_chars"

abbreviation dash :: string where "dash \<equiv> ''-''"
abbreviation backslash :: string where "backslash \<equiv> [BACKSLASH]"
abbreviation dquote :: string where "dquote \<equiv> [QUOTE]"
abbreviation blank :: string where "blank \<equiv> [SPACE]"

record ParsedQuery =
  positive :: string
  negative_terms :: "string list"
  negative_phrases :: "string list"

definition matches_not_keyword :: "bool \<Rightarrow> string list \<Rightarrow> bool" where
  "matches_not_keyword at_start cs \<longleftrightarrow>
     3 \<le> length cs \<and> eq_ignore_ascii_case (concat (take 3 cs)) ''NOT'' \<and> at_start \<and> (length cs \<le> 3 \<or> is_whitespace (cs ! 3))"

text \<open>The phrase after the keyword, and what follows its closing quote.\<close>

definition not_phrase :: "bool \<Rightarrow> string list \<Rightarrow> (string list \<times> string list) option" where
  "not_phrase at_start cs =
     (if 3 < length cs \<and> matches_not_keyword at_start cs then
        (case dropWhile is_whitespace (drop 3 cs) of
           [] \<Rightarrow> None
         | c # rest \<Rightarrow>
             if c = dquote then Some (takeWhile (\<lambda>c. c \<noteq> dquote) rest, drop 1 (dropWhile (\<lambda>c. c \<noteq> dquote) rest)) else None)
      else None)"

definition word :: "string list \<Rightarrow> string list" where "word cs = takeWhile (\<lambda>c. \<not> is_whitespace c) cs"
definition after_word :: "string list \<Rightarrow> string list" where "after_word cs = dropWhile (\<lambda>c. \<not> is_whitespace c) cs"

definition is_negation :: "bool \<Rightarrow> string \<Rightarrow> string list \<Rightarrow> bool" where
  "is_negation at_start c rest \<longleftrightarrow> c = dash \<and> at_start \<and> rest \<noteq> [] \<and> hd rest \<noteq> dash \<and> \<not> is_whitespace (hd rest)"

definition is_escape :: "string \<Rightarrow> string list \<Rightarrow> bool" where
  "is_escape c rest \<longleftrightarrow> c = backslash \<and> rest \<noteq> [] \<and> hd rest = dash"

text \<open>The words, the excluded terms and the excluded phrases, as lists of characters.\<close>

type_synonym parts = "string list list \<times> string list list \<times> string list list"

fun push_word :: "string list \<Rightarrow> parts \<Rightarrow> parts" where "push_word w (ws, ts, ps) = (w # ws, ts, ps)"
fun push_term :: "string list \<Rightarrow> parts \<Rightarrow> parts" where "push_term t (ws, ts, ps) = (ws, if t = [] then ts else t # ts, ps)"
fun push_phrase :: "string list \<Rightarrow> parts \<Rightarrow> parts" where "push_phrase p (ws, ts, ps) = (ws, ts, if p = [] then ps else p # ps)"

lemma not_phrase_shorter: "not_phrase at_start cs = Some (p, rest) \<Longrightarrow> length rest < length cs"
proof -
  assume a: "not_phrase at_start cs = Some (p, rest)"
  then obtain c r where "dropWhile is_whitespace (drop 3 cs) = c # r" "rest = drop 1 (dropWhile (\<lambda>c. c \<noteq> dquote) r)" "3 < length cs"
    by (auto simp: not_phrase_def split: if_splits list.splits)
  moreover have "length (dropWhile is_whitespace (drop 3 cs)) \<le> length (drop 3 cs)" by (rule length_dropWhile_le)
  moreover have "length (dropWhile (\<lambda>c. c \<noteq> dquote) r) \<le> length r" by (rule length_dropWhile_le)
  ultimately show ?thesis by simp
qed

lemma after_word_shorter: "length (after_word cs) \<le> length cs"
  unfolding after_word_def by (rule length_dropWhile_le)

function parse_from :: "bool \<Rightarrow> string list \<Rightarrow> parts" where
  "parse_from at_start [] = ([], [], [])"
| "parse_from at_start (c # rest) =
     (if is_whitespace c then parse_from True rest
      else
        case not_phrase at_start (c # rest) of
          Some (phrase, rest') \<Rightarrow> push_phrase phrase (parse_from False rest')
        | None \<Rightarrow>
            if is_escape c rest then push_word (word rest) (parse_from False (after_word rest))
            else if is_negation at_start c rest then push_term (word rest) (parse_from False (after_word rest))
            else push_word (word (c # rest)) (parse_from False (after_word (c # rest))))"
  by pat_completeness auto

termination parse_from
proof (relation "measure (\<lambda>(_, cs). length cs)")
  fix c :: string and rest :: "string list" and at_start :: bool
  assume "\<not> is_whitespace c"
  then have "after_word (c # rest) = after_word rest" by (simp add: after_word_def)
  then show "((False, after_word (c # rest)), at_start, c # rest) \<in> measure (\<lambda>(_, cs). length cs)"
    using after_word_shorter [of rest] by simp
qed (use after_word_shorter in \<open>auto dest!: not_phrase_shorter simp: le_imp_less_Suc\<close>)

declare parse_from.simps(2) [simp del]

definition parse_query :: "string \<Rightarrow> ParsedQuery" where
  "parse_query raw =
     (case parse_from True (chars raw) of (ws, ts, ps) \<Rightarrow>
       \<lparr>positive = join blank (map concat ws), negative_terms = map concat ts, negative_phrases = map concat ps\<rparr>)"

definition has_negations :: "ParsedQuery \<Rightarrow> bool" where
  "has_negations q \<longleftrightarrow> negative_terms q \<noteq> [] \<or> negative_phrases q \<noteq> []"

definition is_positive_empty :: "ParsedQuery \<Rightarrow> bool" where
  "is_positive_empty q \<longleftrightarrow> trim (positive q) = []"

definition negation_count :: "ParsedQuery \<Rightarrow> nat" where
  "negation_count q = length (negative_terms q) + length (negative_phrases q)"

section \<open>Printing\<close>

fun show_items :: "bool \<Rightarrow> string list \<Rightarrow> string" where
  "show_items wrote_any [] = []"
| "show_items wrote_any (s # ss) = (if wrote_any then blank else []) @ s @ show_items True ss"

definition show_query :: "ParsedQuery \<Rightarrow> string" where
  "show_query q = positive q
     @ show_items (positive q \<noteq> []) (map (\<lambda>t. dash @ t) (negative_terms q) @ map (\<lambda>p. ''NOT '' @ dquote @ p @ dquote) (negative_phrases q))"

section \<open>What the parser collects\<close>

definition no_blank :: "string list \<Rightarrow> bool" where "no_blank w \<longleftrightarrow> w \<noteq> [] \<and> list_all (\<lambda>c. \<not> is_whitespace c) w"

fun parts_ok :: "parts \<Rightarrow> bool" where
  "parts_ok (ws, ts, ps) \<longleftrightarrow> (\<forall>w \<in> set ws. no_blank w \<and> \<not> is_escape (hd w) (tl w))
     \<and> (\<forall>t \<in> set ts. no_blank t \<and> hd t \<noteq> dash) \<and> (\<forall>p \<in> set ps. p \<noteq> [] \<and> dquote \<notin> set p)"

fun part_chars :: "parts \<Rightarrow> string set" where
  "part_chars (ws, ts, ps) = \<Union> (set ` set (ws @ ts @ ps))"

lemma not_blank_consts [simp]: "\<not> is_whitespace ''N''" "\<not> is_whitespace dash" "\<not> is_whitespace backslash" "\<not> is_whitespace dquote" "is_whitespace blank" "\<not> is_whitespace ''N''"
  by (simp_all add: ws_chars_def)

lemma word_facts:
  assumes "cs \<noteq> []" "\<not> is_whitespace (hd cs)"
  shows "no_blank (word cs)" "hd (word cs) = hd cs" "tl (word cs) = word (tl cs)"
proof -
  have "list_all (\<lambda>c. \<not> is_whitespace c) (word cs)" by (auto simp: word_def list_all_iff dest: set_takeWhileD)
  moreover have "word cs \<noteq> []" using assms by (cases cs) (auto simp: word_def)
  ultimately show "no_blank (word cs)" by (simp add: no_blank_def)
  show "hd (word cs) = hd cs" "tl (word cs) = word (tl cs)" using assms by (cases cs; simp add: word_def)+
qed

lemma word_subset: "set (word cs) \<subseteq> set cs" "set (after_word cs) \<subseteq> set cs"
  by (auto simp: word_def after_word_def dest: set_takeWhileD set_dropWhileD)

lemma not_phrase_facts:
  assumes "not_phrase a cs = Some (p, rest)"
  shows "dquote \<notin> set p" "set p \<subseteq> set cs" "set rest \<subseteq> set cs"
proof -
  obtain c r where r: "dropWhile is_whitespace (drop 3 cs) = c # r" "p = takeWhile (\<lambda>c. c \<noteq> dquote) r" "rest = drop 1 (dropWhile (\<lambda>c. c \<noteq> dquote) r)"
    using assms by (auto simp: not_phrase_def split: if_splits list.splits)
  have "set (c # r) \<subseteq> set cs" unfolding r(1) [symmetric] by (meson set_dropWhileD set_drop_subset subset_iff)
  then show "set p \<subseteq> set cs" "set rest \<subseteq> set cs" "dquote \<notin> set p"
    using r(2,3) by (auto dest!: set_takeWhileD in_set_dropD [of _ 1, simplified] set_dropWhileD)
qed

lemma parse_from_ok: "parts_ok (parse_from a cs) \<and> part_chars (parse_from a cs) \<subseteq> set cs"
proof (induction a cs rule: parse_from.induct)
  case (2 a c rest)
  note IH = "2.IH"
  have push: "parts_ok (push_word w q) \<longleftrightarrow> no_blank w \<and> \<not> is_escape (hd w) (tl w) \<and> parts_ok q" "part_chars (push_word w q) = set w \<union> part_chars q"
    "parts_ok (push_term w q) \<longleftrightarrow> (w = [] \<or> no_blank w \<and> hd w \<noteq> dash) \<and> parts_ok q" "part_chars (push_term w q) = set w \<union> part_chars q"
    "parts_ok (push_phrase w q) \<longleftrightarrow> dquote \<notin> set w \<and> parts_ok q" "part_chars (push_phrase w q) = set w \<union> part_chars q" for w q
    by (cases q; auto)+
  consider "is_whitespace c" | p r where "\<not> is_whitespace c" "not_phrase a (c # rest) = Some (p, r)"
    | "\<not> is_whitespace c" "not_phrase a (c # rest) = None" "is_escape c rest"
    | "\<not> is_whitespace c" "not_phrase a (c # rest) = None" "\<not> is_escape c rest" "is_negation a c rest"
    | "\<not> is_whitespace c" "not_phrase a (c # rest) = None" "\<not> is_escape c rest" "\<not> is_negation a c rest" by fastforce
  then show ?case
  proof cases
    case 1
    then show ?thesis using IH(1) by (auto simp: parse_from.simps(2))
  next
    case (2 p r)
    then show ?thesis using not_phrase_facts [OF 2(2)] IH(5) [OF 2(1,2) refl] by (auto simp: parse_from.simps(2) push)
  next
    case 3
    then have "no_blank (word rest)" "hd (word rest) = dash" using word_facts [of rest] by (auto simp: is_escape_def)
    then show ?thesis using 3 IH(2) word_subset [of rest] by (auto simp: parse_from.simps(2) push is_escape_def)
  next
    case 4
    then have "no_blank (word rest)" "hd (word rest) \<noteq> dash" using word_facts [of rest] by (auto simp: is_negation_def)
    then show ?thesis using 4 IH(3) word_subset [of rest] by (auto simp: parse_from.simps(2) push)
  next
    case 5
    have "no_blank (word (c # rest))" "hd (word (c # rest)) = c" "tl (word (c # rest)) = word rest" using 5 word_facts [of "c # rest"] by auto
    moreover have "\<not> is_escape c (word rest)" using 5 word_facts(2) [of rest] by (cases rest) (auto simp: is_escape_def word_def split: if_splits)
    ultimately show ?thesis using 5 IH(4) word_subset [of "c # rest"] by (auto simp: parse_from.simps(2) push)
  qed
qed simp

section \<open>Printing a query and reading it back\<close>

text \<open>
  The printed query writes the words as they are, without the escape that may have made them words: it reads back as the same query
  when no word looks like an exclusion, on its own or together with the next.
\<close>

fun reads_as_words :: "string list list \<Rightarrow> bool" where
  "reads_as_words [] \<longleftrightarrow> True"
| "reads_as_words (w # ws) \<longleftrightarrow> \<not> is_negation True (hd w) (tl w)
     \<and> (ws = [] \<or> \<not> (eq_ignore_ascii_case (concat w) ''NOT'' \<and> hd (hd ws) = dquote)) \<and> reads_as_words ws"

fun spaced :: "string list list \<Rightarrow> string list" where
  "spaced [] = []"
| "spaced (x # xs) = blank # x @ spaced xs"

abbreviation quoted :: "string list \<Rightarrow> string list" where
  "quoted p \<equiv> [''N'', ''O'', ''T'', blank, dquote] @ p @ [dquote]"

abbreviation items :: "parts \<Rightarrow> string list list" where
  "items q \<equiv> fst q @ map (\<lambda>t. dash # t) (fst (snd q)) @ map quoted (snd (snd q))"

abbreviation stops :: "string list \<Rightarrow> bool" where "stops r \<equiv> r = [] \<or> hd r = blank"

lemma spaced_stops: "stops (spaced xs)" by (cases xs) auto

lemma parse_spaced: "parse_from a (spaced (x # xs)) = parse_from True (x @ spaced xs)"
  by (simp add: parse_from.simps(2))

lemma word_append:
  assumes "list_all (\<lambda>c. \<not> is_whitespace c) w" "stops r"
  shows "word (w @ r) = w" "after_word (w @ r) = r"
  using assms by (cases r; simp add: word_def after_word_def list_all_iff takeWhile_eq_all_conv takeWhile_append2 dropWhile_append2)+

lemma parse_word:
  assumes "no_blank w" "\<not> is_escape (hd w) (tl w)" "\<not> is_negation True (hd w) (tl w)" "stops r" "not_phrase True (w @ r) = None"
  shows "parse_from True (w @ r) = push_word w (parse_from False r)"
proof (cases w)
  case (Cons c w')
  have c: "\<not> is_whitespace c" using assms(1) Cons by (simp add: no_blank_def)
  have esc: "\<not> is_escape c (w' @ r)" using assms(2,4) Cons by (cases w') (auto simp: is_escape_def)
  have neg: "\<not> is_negation True c (w' @ r)" using assms(3,4) Cons by (cases w') (auto simp: is_negation_def)
  have "word (c # w' @ r) = w" "after_word (c # w' @ r) = r" using word_append [of w r] assms(1,4) Cons by (auto simp: no_blank_def)
  then show ?thesis using c esc neg assms(5) Cons by (simp add: parse_from.simps(2))
qed (use assms(1) in \<open>simp add: no_blank_def\<close>)

lemma lower_NOT: "to_ascii_lowercase ''NOT'' = ''not''" by code_simp

lemma reads_NOT:
  assumes "eq_ignore_ascii_case s ''NOT''"
  shows "length s = 3" "CHR ''-'' \<notin> set s" "SPACE \<notin> set s"
proof -
  have s: "to_ascii_lowercase s = ''not''" using assms by (simp only: eq_ignore_ascii_case_def lower_NOT)
  then have "length (to_ascii_lowercase s) = 3" by simp
  then show "length s = 3" by (simp add: to_ascii_lowercase_def)
  have "c \<notin> set s" if "c = CHR ''-'' \<or> c = SPACE" for c
  proof
    assume "c \<in> set s"
    then have "c \<in> set (to_ascii_lowercase s)" using that by (auto simp: to_ascii_lowercase_def image_iff intro!: bexI [of _ c])
    with s that show False by auto
  qed
  then show "CHR ''-'' \<notin> set s" "SPACE \<notin> set s" by blast+
qed

lemma dash_not_NOT [simp]: "\<not> eq_ignore_ascii_case (CHR ''-'' # s) ''NOT''"
  using reads_NOT(2) [of "CHR ''-'' # s"] by auto

lemma parse_term:
  assumes "no_blank t" "hd t \<noteq> dash" "stops r"
  shows "parse_from True (dash # t @ r) = push_term t (parse_from False r)"
proof -
  have "not_phrase True (dash # t @ r) = None"
    by (simp add: not_phrase_def matches_not_keyword_def numeral_3_eq_3)
  moreover have "is_negation True dash (t @ r)" using assms by (cases t) (auto simp: is_negation_def no_blank_def)
  ultimately show ?thesis using word_append [of t r] assms
    by (simp add: parse_from.simps(2) is_escape_def no_blank_def)
qed

lemma parse_phrase:
  assumes "dquote \<notin> set p"
  shows "parse_from True (quoted p @ r) = push_phrase p (parse_from False r)"
proof -
  have p: "\<forall>c \<in> set p. c \<noteq> dquote" using assms by auto
  have "not_phrase True (quoted p @ r) = Some (p, r)"
    by (simp add: not_phrase_def matches_not_keyword_def eq_ignore_ascii_case_def numeral_3_eq_3 takeWhile_append2 dropWhile_append2 p)
  then show ?thesis by (simp add: parse_from.simps(2))
qed

text \<open>A word followed by a blank is the keyword of an exclusion only when a quoted text comes next.\<close>

lemma word_not_phrase:
  assumes "no_blank w" "list_all one_char w" "xs = [] \<or> \<not> (eq_ignore_ascii_case (concat w) ''NOT'' \<and> hd (hd xs) = dquote)"
    "\<forall>x \<in> set xs. x \<noteq> [] \<and> \<not> is_whitespace (hd x)"
  shows "not_phrase True (w @ spaced xs) = None"
proof (rule ccontr)
  assume "not_phrase True (w @ spaced xs) \<noteq> None"
  then have m: "matches_not_keyword True (w @ spaced xs)" "3 < length (w @ spaced xs)"
    by (auto simp: not_phrase_def split: if_splits)
  obtain r where q: "dropWhile is_whitespace (drop 3 (w @ spaced xs)) = dquote # r"
    using \<open>not_phrase True (w @ spaced xs) \<noteq> None\<close>
    by (cases "dropWhile is_whitespace (drop 3 (w @ spaced xs))") (auto simp: not_phrase_def simp del: drop_append dropWhile_eq_Nil_conv split: if_splits)
  have k: "eq_ignore_ascii_case (concat (take 3 (w @ spaced xs))) ''NOT''" and b: "is_whitespace ((w @ spaced xs) ! 3)"
    using m by (auto simp: matches_not_keyword_def)
  have "\<not> 3 < length w" using b assms(1) by (auto simp: nth_append no_blank_def list_all_length)
  moreover have "\<not> length w < 3"
  proof
    assume short: "length w < 3"
    then obtain x xs' where "xs = x # xs'" using m(2) by (cases xs) auto
    then have "blank \<in> set (take 3 (w @ spaced xs))" using short by (cases "3 - length w") auto
    then show False using reads_NOT(3) [OF k] by auto
  qed
  ultimately have l: "length w = 3" by simp
  then obtain x xs' where x: "xs = x # xs'" using m(2) by (cases xs) auto
  then have "x \<noteq> []" "\<not> is_whitespace (hd x)" using assms(4) by auto
  then have "hd x = dquote" using q l x by (cases x) auto
  then show False using assms(3) k l x by simp
qed

lemma parse_phrases:
  assumes "\<forall>p \<in> set ps. p \<noteq> [] \<and> dquote \<notin> set p"
  shows "parse_from a (spaced (map quoted ps)) = ([], [], ps)"
  using assms
proof (induction ps arbitrary: a)
  case (Cons p ps)
  then show ?case using parse_phrase [of p "spaced (map quoted ps)"] parse_spaced [of a "quoted p" "map quoted ps"] by simp
qed simp

lemma parse_terms:
  assumes "\<forall>t \<in> set ts. no_blank t \<and> hd t \<noteq> dash" "\<forall>p \<in> set ps. p \<noteq> [] \<and> dquote \<notin> set p"
  shows "parse_from a (spaced (items ([], ts, ps))) = ([], ts, ps)"
  using assms(1)
proof (induction ts arbitrary: a)
  case Nil
  then show ?case using parse_phrases [OF assms(2)] by simp
next
  case (Cons t ts)
  then show ?case using parse_term [OF _ _ spaced_stops, of t "items ([], ts, ps)"] parse_spaced [of a "dash # t" "items ([], ts, ps)"]
    by (auto simp: no_blank_def)
qed

lemma parse_items:
  assumes "parts_ok (ws, ts, ps)" "\<forall>w \<in> set ws. list_all one_char w" "reads_as_words ws"
  shows "parse_from a (spaced (items (ws, ts, ps))) = (ws, ts, ps)"
  using assms
proof (induction ws arbitrary: a)
  case Nil
  then show ?case using parse_terms by simp
next
  case (Cons w ws)
  let ?rest = "items (ws, ts, ps)"
  have heads: "\<forall>x \<in> set ?rest. x \<noteq> [] \<and> \<not> is_whitespace (hd x)" using Cons.prems(1) by (auto simp: no_blank_def list_all_iff)
  have next_word: "?rest = [] \<or> \<not> (eq_ignore_ascii_case (concat w) ''NOT'' \<and> hd (hd ?rest) = dquote)"
    using Cons.prems(3) by (cases ws; cases ts; cases ps) auto
  have "not_phrase True (w @ spaced ?rest) = None"
    using Cons.prems by (intro word_not_phrase [OF _ _ next_word heads]) auto
  then have "parse_from True (w @ spaced ?rest) = push_word w (parse_from False (spaced ?rest))"
    using Cons.prems by (intro parse_word spaced_stops) auto
  moreover have "parse_from False (spaced ?rest) = (ws, ts, ps)" using Cons by auto
  ultimately show ?case using parse_spaced [of a w ?rest] by simp
qed

lemma valid_start:
  assumes "valid_utf8 s"
  shows "list_all one_char (chars s)"
proof (rule one_char_chars)
  show "s = [] \<or> \<not> is_cont (hd s)" using assms
    by (cases s) (auto simp: valid_utf8.simps is_cont_def utf8_width_def)
qed

lemma shown_spaced: "show_items True (map concat xs) = concat (spaced xs)"
  by (induction xs) auto

lemma join_spaced: "w @ concat (spaced ws) = join blank (concat w' # map concat ws)" if "w = concat w'" for w w'
  using that
proof (induction ws arbitrary: w w')
  case (Cons v ws)
  then show ?case using Cons.IH [of "concat v" v] by simp
qed simp

lemma show_parts:
  assumes "\<forall>w \<in> set ws. concat w \<noteq> []"
  shows "show_query \<lparr>positive = join blank (map concat ws), negative_terms = map concat ts, negative_phrases = map concat ps\<rparr>
    = concat (tl (spaced (items (ws, ts, ps))))"
proof -
  have terms: "map (\<lambda>t. dash @ t) (map concat ts) @ map (\<lambda>p. ''NOT '' @ dquote @ p @ dquote) (map concat ps)
    = map concat (map (\<lambda>t. dash # t) ts @ map quoted ps)" by simp
  have app: "spaced (xs @ ys) = spaced xs @ spaced ys" for xs ys by (induction xs) auto
  show ?thesis
  proof (cases ws)
    case Nil
    show ?thesis
    proof (cases "map (\<lambda>t. dash # t) ts @ map quoted ps")
      case (Cons x xs)
      then show ?thesis using Nil shown_spaced [of xs] unfolding show_query_def ParsedQuery.select_convs terms by simp
    qed (simp add: Nil show_query_def)
  next
    case (Cons w ws')
    have "join blank (map concat ws) = concat w @ concat (spaced ws')" using join_spaced [OF refl, of w ws'] Cons by simp
    moreover have "concat w \<noteq> []" using assms Cons by simp
    moreover have "show_items True (map concat (map (\<lambda>t. dash # t) ts @ map quoted ps)) = concat (spaced (map (\<lambda>t. dash # t) ts @ map quoted ps))"
      by (rule shown_spaced)
    ultimately show ?thesis using Cons unfolding show_query_def ParsedQuery.select_convs terms by (simp add: app del: map_append map_map)
  qed
qed

lemma spaced_chars: "\<forall>x \<in> set xs. list_all one_char x \<Longrightarrow> list_all one_char (spaced xs)"
  by (induction xs) (auto simp: one_char_def is_cont_def)

lemma parse_tl: "parse_from True (tl (spaced xs)) = parse_from True (spaced xs)"
  by (cases xs) (simp_all add: parse_from.simps(2))

text \<open>
  C34: Queries. A query that is printed reads back as itself, words, excluded terms and excluded phrases in their order, when
  none of its words looks like an exclusion.
\<close>

theorem query_round_trip:
  assumes "valid_utf8 raw" "reads_as_words (fst (parse_from True (chars raw)))"
  shows "parse_query (show_query (parse_query raw)) = parse_query raw"
proof -
  obtain ws ts ps where q: "parse_from True (chars raw) = (ws, ts, ps)" by (cases "parse_from True (chars raw)")
  have ok: "parts_ok (ws, ts, ps)" and cs: "part_chars (ws, ts, ps) \<subseteq> set (chars raw)" using parse_from_ok [of True "chars raw"] q by simp_all
  have one: "list_all one_char x" if "x \<in> set (ws @ ts @ ps)" for x using valid_start [OF assms(1)] cs that by (auto simp: list_all_iff)
  have all: "list_all one_char (spaced (items (ws, ts, ps)))" using one by (intro spaced_chars) (auto simp: one_char_def is_cont_def)
  have "concat w \<noteq> []" if w: "w \<in> set ws" for w
  proof -
    have "w \<noteq> []" "list_all one_char w" using ok one w by (auto simp: no_blank_def)
    then show ?thesis by (cases w) (auto simp: one_char_def)
  qed
  then have "show_query (parse_query raw) = concat (tl (spaced (items (ws, ts, ps))))" using show_parts [of ws ts ps] q by (simp add: parse_query_def)
  moreover have "chars (concat (tl (spaced (items (ws, ts, ps))))) = tl (spaced (items (ws, ts, ps)))"
    using all by (intro chars_concat) (cases "spaced (items (ws, ts, ps))"; simp)
  moreover have "parse_from True (spaced (items (ws, ts, ps))) = (ws, ts, ps)" using ok one assms(2) q by (intro parse_items) auto
  ultimately show ?thesis using q by (simp add: parse_query_def parse_tl)
qed

theorem query_round_trip_witness:
  "parse_query (show_query (parse_query ''a -b NOT \"c d\" --e'')) = parse_query ''a -b NOT \"c d\" --e''"
  by (rule query_round_trip) code_simp+

text \<open>
  An escaped dash is a word when it is read, but is printed without its escape: the printed query excludes what the query
  asked for.
\<close>

lemma escaped_dash_prints_exclusion:
  assumes "list_all one_char t" "no_blank t" "hd t \<noteq> dash"
  shows "positive (parse_query (concat (backslash # dash # t))) = concat (dash # t)"
    "parse_query (show_query (parse_query (concat (backslash # dash # t))))
     = \<lparr>positive = [], negative_terms = [concat t], negative_phrases = []\<rparr>"
proof -
  have all: "chars (concat (backslash # dash # t)) = backslash # dash # t" "chars (concat (dash # t)) = dash # t"
    using assms(1) by (intro chars_concat; simp add: one_char_def is_cont_def)+
  have "eq_ignore_ascii_case (BACKSLASH # s) ''NOT'' = False" for s
    by (auto simp: eq_ignore_ascii_case_def lower_NOT) (auto simp: to_ascii_lowercase_def)
  then have "not_phrase True (backslash # dash # t) = None" by (simp add: not_phrase_def matches_not_keyword_def numeral_3_eq_3)
  then have "parse_from True (backslash # dash # t) = ([dash # t], [], [])"
    using word_append [of "dash # t" "[]"] assms(2) by (simp add: parse_from.simps(2) is_escape_def no_blank_def)
  then have parsed: "parse_query (concat (backslash # dash # t)) = \<lparr>positive = concat (dash # t), negative_terms = [], negative_phrases = []\<rparr>"
    using all(1) by (simp add: parse_query_def)
  then show "positive (parse_query (concat (backslash # dash # t))) = concat (dash # t)" by simp
  have "parse_from True (dash # t) = ([], [t], [])" using parse_term [OF assms(2,3), of "[]"] assms(2) by (simp add: no_blank_def)
  then show "parse_query (show_query (parse_query (concat (backslash # dash # t))))
     = \<lparr>positive = [], negative_terms = [concat t], negative_phrases = []\<rparr>"
    using all(2) unfolding parsed by (simp add: show_query_def parse_query_def)
qed

section \<open>The class of a query\<close>

datatype QueryClass = Empty | Identifier | ShortKeyword | NaturalLanguage

definition has_whitespace :: "string \<Rightarrow> bool" where
  "has_whitespace s \<longleftrightarrow> list_ex is_whitespace (chars s)"

definition issue_id :: "string \<Rightarrow> bool" where
  "issue_id s \<longleftrightarrow>
     (case rfind_char (CHR ''-'') s of
        None \<Rightarrow> False
      | Some i \<Rightarrow>
          (let suffix = drop (i + 1) s; prefix = take i s in
             list_all is_ascii_digit suffix
             \<and> list_all (\<lambda>c. is_ascii_alphanumeric c \<or> c = CHR ''-'' \<or> c = CHR ''_'') prefix \<and> suffix \<noteq> [] \<and> prefix \<noteq> []))"

definition looks_like_identifier :: "string \<Rightarrow> bool" where
  "looks_like_identifier s \<longleftrightarrow>
     (if \<not> has_whitespace s \<and> (CHR ''/'' \<in> set s \<or> BACKSLASH \<in> set s) then True
      else if \<not> has_whitespace s \<and> (CHR ''.'' \<in> set s \<or> contains_str s ''::'') then True
      else if \<not> has_whitespace s \<and> CHR ''-'' \<in> set s \<and> issue_id s then True
      else if prefix ''fn '' s \<or> prefix ''struct '' s \<or> prefix ''impl '' s then True
      else False)"

fun words_from :: "bool \<Rightarrow> string list \<Rightarrow> nat" where
  "words_from in_word [] = 0"
| "words_from in_word (c # cs) =
     (if is_whitespace c then words_from False cs else (if in_word then 0 else 1) + words_from True cs)"

definition word_count :: "string \<Rightarrow> nat" where
  "word_count s = words_from False (chars s)"

definition classify :: "string \<Rightarrow> QueryClass" where
  "classify query =
     (let trimmed = trim query in
        if trimmed = [] then Empty
        else if looks_like_identifier trimmed then Identifier
        else if word_count trimmed \<le> 3 then ShortKeyword
        else NaturalLanguage)"

text \<open>The multipliers are the bit patterns of the single-precision 0, 0.5, 1 and 2.\<close>

fun lexical_budget_multiplier :: "QueryClass \<Rightarrow> 32 word" where
  "lexical_budget_multiplier Empty = 0"
| "lexical_budget_multiplier Identifier = 0x40000000"
| "lexical_budget_multiplier ShortKeyword = 0x3F800000"
| "lexical_budget_multiplier NaturalLanguage = 0x3F000000"

fun semantic_budget_multiplier :: "QueryClass \<Rightarrow> 32 word" where
  "semantic_budget_multiplier Empty = 0"
| "semantic_budget_multiplier Identifier = 0x3F000000"
| "semantic_budget_multiplier ShortKeyword = 0x3F800000"
| "semantic_budget_multiplier NaturalLanguage = 0x40000000"

fun show_class :: "QueryClass \<Rightarrow> string" where
  "show_class Empty = ''empty''"
| "show_class Identifier = ''identifier''"
| "show_class ShortKeyword = ''short_keyword''"
| "show_class NaturalLanguage = ''natural_language''"

text \<open>
  Words the parser reads are the words the classifier counts, when nothing in the text is an exclusion.
\<close>

lemma words_from_word:
  assumes "list_all (\<lambda>c. \<not> is_whitespace c) w" "w \<noteq> []" "stops r"
  shows "words_from False (w @ r) = 1 + words_from False r"
proof -
  have in_word: "words_from True (v @ r) = words_from False r" if "list_all (\<lambda>c. \<not> is_whitespace c) v" for v
    using that assms(3) by (induction v) (cases r; auto)+
  show ?thesis using assms in_word by (cases w) auto
qed

lemma words_of_spaced:
  assumes "\<forall>w \<in> set ws. no_blank w"
  shows "words_from False (spaced ws) = length ws"
  using assms
proof (induction ws)
  case (Cons w ws)
  then show ?case using words_from_word [OF _ _ spaced_stops, of w ws] by (auto simp: no_blank_def)
qed simp

lemma parsed_words_counted:
  assumes "valid_utf8 raw"
  shows "word_count (positive (parse_query raw)) = length (fst (parse_from True (chars raw)))"
proof -
  obtain ws ts ps where q: "parse_from True (chars raw) = (ws, ts, ps)" by (cases "parse_from True (chars raw)")
  have ok: "parts_ok (ws, ts, ps)" and cs: "part_chars (ws, ts, ps) \<subseteq> set (chars raw)" using parse_from_ok [of True "chars raw"] q by simp_all
  have "list_all one_char w" if "w \<in> set ws" for w using valid_start [OF assms] cs that by (auto simp: list_all_iff)
  then have all: "list_all one_char (spaced ws)" by (intro spaced_chars) auto
  have "positive (parse_query raw) = concat (tl (spaced ws))" using q join_spaced [OF refl] by (cases ws) (auto simp: parse_query_def)
  moreover have "chars (concat (tl (spaced ws))) = tl (spaced ws)" using all by (intro chars_concat) (cases "spaced ws"; simp)
  moreover have "words_from False (tl (spaced ws)) = words_from False (spaced ws)" by (cases ws) auto
  ultimately show ?thesis using q ok words_of_spaced [of ws] by (simp add: word_count_def)
qed

text \<open>Text with blanks in it is an identifier only when it starts as code.\<close>

lemma spaced_identifier:
  "classify q = Identifier \<Longrightarrow> has_whitespace (trim q)
    \<Longrightarrow> prefix ''fn '' (trim q) \<or> prefix ''struct '' (trim q) \<or> prefix ''impl '' (trim q)"
  by (auto simp: classify_def looks_like_identifier_def Let_def split: if_splits)

end
