(* ===== verification/Fs_Generation.thy ===== *)
theory Fs_Generation
  imports Fs_Bytes
begin

text \<open>
  The manifest of a generation of search artifacts and its validation
  (\<open>frankensearch-core/src/generation.rs\<close>). The serialization of a manifest to JSON, which can fail
  with a text, and SHA-256 in hexadecimal are parameters. A check returns the findings that it adds.
\<close>

section \<open>Types\<close>

record CommitRange =
  low :: nat
  high :: nat

definition range_len :: "CommitRange \<Rightarrow> nat" where
  "range_len r = (if high r < low r then 0 else usize_add (high r - low r) 1)"

definition range_is_empty :: "CommitRange \<Rightarrow> bool" where
  "range_is_empty r \<longleftrightarrow> high r < low r"

datatype QuantizationFormat = QF_F32 | QF_F16 | Int8 | Int4

record EmbedderRevision =
  model_name :: string
  weights_hash :: string
  er_dimension :: nat
  er_quantization :: QuantizationFormat

datatype EmbedderTierTag = Fast | Quality

record VectorArtifact =
  va_path :: string
  va_size_bytes :: nat
  va_checksum :: string
  vector_count :: nat
  va_dimension :: nat
  embedder_tier :: EmbedderTierTag

record LexicalArtifact =
  la_path :: string
  la_size_bytes :: nat
  la_checksum :: string
  document_count :: nat

record RepairDescriptor =
  protected_artifact :: string
  sidecar_path :: string
  source_symbols :: nat
  repair_symbols :: nat
  overhead_ratio :: f64

datatype InvariantKind =
    AllArtifactsVerified
  | EmbedderRevisionMatch
  | VectorCountConsistency nat
  | CommitContinuity nat
  | Custom string

record ActivationInvariant =
  inv_id :: string
  description :: string
  inv_kind :: InvariantKind

record GenerationManifest =
  schema_version :: nat
  generation_id :: string
  manifest_hash :: string
  commit_range :: CommitRange
  build_started_at :: nat
  build_completed_at :: nat
  embedders :: "(string \<times> EmbedderRevision) list"
  vector_artifacts :: "VectorArtifact list"
  lexical_artifacts :: "LexicalArtifact list"
  repair_descriptors :: "RepairDescriptor list"
  activation_invariants :: "ActivationInvariant list"
  total_documents :: nat
  gm_metadata :: "(string \<times> string) list"

definition MANIFEST_SCHEMA_VERSION :: nat where "MANIFEST_SCHEMA_VERSION = 1"

datatype FindingSeverity = Info | Warning | Error

record ValidationFinding =
  vf_check :: string
  severity :: FindingSeverity
  message :: string

abbreviation finding :: "string \<Rightarrow> FindingSeverity \<Rightarrow> string \<Rightarrow> ValidationFinding" where
  "finding c s m \<equiv> \<lparr>vf_check = c, severity = s, message = m\<rparr>"

definition is_valid :: "ValidationFinding list \<Rightarrow> bool" where
  "is_valid findings = list_all (\<lambda>f. severity f \<noteq> Error) findings"

definition errors :: "ValidationFinding list \<Rightarrow> ValidationFinding list" where
  "errors findings = filter (\<lambda>f. severity f = Error) findings"

definition warnings :: "ValidationFinding list \<Rightarrow> ValidationFinding list" where
  "warnings findings = filter (\<lambda>f. severity f = Warning) findings"

text \<open>The JSON text of a manifest, or why there is none, and the hexadecimal digest.\<close>

record hashing =
  manifest_to_vec :: "GenerationManifest \<Rightarrow> string + string"
  sha256_digest :: "string \<Rightarrow> string"

section \<open>The checks\<close>

abbreviation quoted :: "string \<Rightarrow> string" where "quoted s \<equiv> [CHR 0x27] @ s @ [CHR 0x27]"

text \<open>The two fields of \<open>SearchError::SubsystemError\<close>, and its \<open>Display\<close>.\<close>

type_synonym subsystem_error = "string \<times> string"

definition show_subsystem_error :: "subsystem_error \<Rightarrow> string" where
  "show_subsystem_error e = fst e @ '' error: '' @ snd e"

definition compute_manifest_hash :: "hashing \<Rightarrow> GenerationManifest \<Rightarrow> subsystem_error + string" where
  "compute_manifest_hash hf m =
     (case manifest_to_vec hf (m\<lparr>manifest_hash := []\<rparr>) of
        Inl e \<Rightarrow> Err (''generation_manifest'', e)
      | Inr serialized \<Rightarrow> Ok (sha256_digest hf serialized))"

definition check_schema_version :: "GenerationManifest \<Rightarrow> ValidationFinding list" where
  "check_schema_version m =
     (if schema_version m = 0 then [finding ''schema_version'' Error ''schema_version must be >= 1'']
      else if MANIFEST_SCHEMA_VERSION < schema_version m then
        [finding ''schema_version'' Warning
           (''schema_version '' @ show_nat (schema_version m) @ '' is newer than supported '' @ show_nat MANIFEST_SCHEMA_VERSION
            @ ''; forward-compat may lose fields'')]
      else [])"

definition check_generation_id :: "GenerationManifest \<Rightarrow> ValidationFinding list" where
  "check_generation_id m =
     (if generation_id m = [] then [finding ''generation_id'' Error ''generation_id must not be empty''] else [])"

definition is_valid_sha256_hex :: "string \<Rightarrow> bool" where
  "is_valid_sha256_hex v \<longleftrightarrow> length v = 64 \<and> list_all is_ascii_hexdigit v"

definition check_manifest_hash :: "hashing \<Rightarrow> GenerationManifest \<Rightarrow> ValidationFinding list" where
  "check_manifest_hash hf m =
     (if manifest_hash m = [] then [finding ''manifest_hash'' Error ''manifest_hash must not be empty'']
      else if \<not> is_valid_sha256_hex (manifest_hash m) then
        [finding ''manifest_hash'' Error ''manifest_hash must be 64 lowercase/uppercase hex chars'']
      else
        case compute_manifest_hash hf m of
          Inr expected \<Rightarrow>
            if \<not> eq_ignore_ascii_case (manifest_hash m) expected then
              [finding ''manifest_hash'' Error (''manifest_hash does not match canonical manifest body (expected '' @ expected @ '')'')]
            else []
        | Inl err \<Rightarrow> [finding ''manifest_hash'' Error (''failed to recompute manifest_hash: '' @ show_subsystem_error err)])"

definition check_commit_range :: "GenerationManifest \<Rightarrow> ValidationFinding list" where
  "check_commit_range m =
     (if range_is_empty (commit_range m) then
        [finding ''commit_range'' Error
           (''commit_range is invalid: high ('' @ show_nat (high (commit_range m)) @ '') < low ('' @ show_nat (low (commit_range m)) @ '')'')]
      else [])"

definition check_timestamps :: "GenerationManifest \<Rightarrow> ValidationFinding list" where
  "check_timestamps m =
     (if build_started_at m = 0 then [finding ''build_started_at'' Error ''build_started_at must be a positive Unix timestamp''] else [])
     @ (if build_completed_at m = 0 then [finding ''build_completed_at'' Error ''build_completed_at must be a positive Unix timestamp''] else [])
     @ (if build_completed_at m < build_started_at m then
          [finding ''build_timestamps'' Error
             (''build_completed_at ('' @ show_nat (build_completed_at m) @ '') is before build_started_at ('' @ show_nat (build_started_at m) @ '')'')]
        else [])"

definition check_embedder :: "string \<times> EmbedderRevision \<Rightarrow> ValidationFinding list" where
  "check_embedder p =
     (case p of (key, r) \<Rightarrow>
       (if model_name r = [] then [finding ''embedder_model_name'' Error (''embedder '' @ quoted key @ '' has empty model_name'')] else [])
       @ (if weights_hash r = [] then [finding ''embedder_weights_hash'' Error (''embedder '' @ quoted key @ '' has empty weights_hash'')] else [])
       @ (if er_dimension r = 0 then [finding ''embedder_dimension'' Error (''embedder '' @ quoted key @ '' has dimension 0'')] else []))"

definition check_embedders :: "GenerationManifest \<Rightarrow> ValidationFinding list" where
  "check_embedders m =
     (if embedders m = [] then [finding ''embedders'' Error ''at least one embedder revision must be specified''] else [])
     @ concat (map check_embedder (embedders m))"

text \<open>The elements that a hash set already has when they are inserted.\<close>

fun repeated :: "'a set \<Rightarrow> 'a list \<Rightarrow> 'a list" where
  "repeated seen [] = []"
| "repeated seen (x # xs) = (if x \<in> seen then x # repeated seen xs else repeated (insert x seen) xs)"

definition check_vector_artifact :: "nat \<times> VectorArtifact \<Rightarrow> ValidationFinding list" where
  "check_vector_artifact p =
     (case p of (i, art) \<Rightarrow>
       (if va_path art = [] then [finding ''vector_artifact_path'' Error (''vector_artifacts['' @ show_nat i @ ''] has empty path'')] else [])
       @ (if va_checksum art = [] then
            [finding ''vector_artifact_checksum'' Error (''vector_artifacts['' @ show_nat i @ ''] '' @ quoted (va_path art) @ '' has empty checksum'')]
          else [])
       @ (if va_dimension art = 0 then
            [finding ''vector_artifact_dimension'' Error (''vector_artifacts['' @ show_nat i @ ''] '' @ quoted (va_path art) @ '' has dimension 0'')]
          else []))"

definition check_vector_artifacts :: "GenerationManifest \<Rightarrow> ValidationFinding list" where
  "check_vector_artifacts m =
     concat (map check_vector_artifact (enumerate 0 (vector_artifacts m)))
     @ map (\<lambda>p. finding ''vector_artifact_duplicate'' Error (''duplicate vector artifact path: '' @ quoted p))
         (repeated {} (map va_path (vector_artifacts m)))"

definition check_lexical_artifact :: "nat \<times> LexicalArtifact \<Rightarrow> ValidationFinding list" where
  "check_lexical_artifact p =
     (case p of (i, art) \<Rightarrow>
       (if la_path art = [] then [finding ''lexical_artifact_path'' Error (''lexical_artifacts['' @ show_nat i @ ''] has empty path'')] else [])
       @ (if la_checksum art = [] then
            [finding ''lexical_artifact_checksum'' Error (''lexical_artifacts['' @ show_nat i @ ''] '' @ quoted (la_path art) @ '' has empty checksum'')]
          else []))"

definition check_lexical_artifacts :: "GenerationManifest \<Rightarrow> ValidationFinding list" where
  "check_lexical_artifacts m =
     concat (map check_lexical_artifact (enumerate 0 (lexical_artifacts m)))
     @ map (\<lambda>p. finding ''lexical_artifact_duplicate'' Error (''duplicate lexical artifact path: '' @ quoted p))
         (repeated {} (map la_path (lexical_artifacts m)))"

definition artifact_paths :: "GenerationManifest \<Rightarrow> string set" where
  "artifact_paths m = set (map va_path (vector_artifacts m) @ map la_path (lexical_artifacts m))"

definition check_repair_descriptor :: "string set \<Rightarrow> nat \<times> RepairDescriptor \<Rightarrow> ValidationFinding list" where
  "check_repair_descriptor paths p =
     (case p of (i, rd) \<Rightarrow>
       (if protected_artifact rd \<notin> paths then
          [finding ''repair_descriptor_target'' Error
             (''repair_descriptors['' @ show_nat i @ ''] references unknown artifact '' @ quoted (protected_artifact rd))]
        else [])
       @ (if source_symbols rd = 0 then
            [finding ''repair_descriptor_symbols'' Error
               (''repair_descriptors['' @ show_nat i @ ''] for '' @ quoted (protected_artifact rd) @ '' has 0 source symbols'')]
          else [])
       @ (if is_nan (overhead_ratio rd) \<or> f64_lt (overhead_ratio rd) F_zero \<or> f64_lt (f64_of_int 10) (overhead_ratio rd) then
            [finding ''repair_descriptor_overhead'' Warning
               (''repair_descriptors['' @ show_nat i @ ''] overhead ratio '' @ f64_to_string (overhead_ratio rd) @ '' is outside expected range [0, 10]'')]
          else []))"

definition check_repair_descriptors :: "GenerationManifest \<Rightarrow> ValidationFinding list" where
  "check_repair_descriptors m = concat (map (check_repair_descriptor (artifact_paths m)) (enumerate 0 (repair_descriptors m)))"

fun check_invariant_ids :: "string set \<Rightarrow> ActivationInvariant list \<Rightarrow> ValidationFinding list" where
  "check_invariant_ids seen [] = []"
| "check_invariant_ids seen (v # vs) =
     (if inv_id v = [] then [finding ''invariant_id'' Error ''activation invariant has empty id''] else [])
     @ (if inv_id v \<in> seen then
          [finding ''invariant_duplicate'' Error (''duplicate activation invariant id: '' @ quoted (inv_id v))]
        else [])
     @ check_invariant_ids (insert (inv_id v) seen) vs"

definition check_activation_invariants :: "GenerationManifest \<Rightarrow> ValidationFinding list" where
  "check_activation_invariants m = check_invariant_ids {} (activation_invariants m)"

text \<open>\<open>sum()\<close> on \<open>u64\<close>, which wraps around in a release build.\<close>

definition u64_sum :: "nat list \<Rightarrow> nat" where
  "u64_sum ns = foldl usize_add 0 ns"

definition check_document_count_consistency :: "GenerationManifest \<Rightarrow> ValidationFinding list" where
  "check_document_count_consistency m =
     (let vector_total = u64_sum (map vector_count (vector_artifacts m));
          lexical_total = u64_sum (map document_count (lexical_artifacts m));
          total = total_documents m
      in (if total = 0 \<and> (vector_artifacts m \<noteq> [] \<or> lexical_artifacts m \<noteq> []) then
            [finding ''total_documents'' Error ''total_documents is 0 but artifacts are present'']
          else [])
         @ (if lexical_artifacts m \<noteq> [] \<and> lexical_total \<noteq> total then
              [finding ''lexical_document_count'' Warning
                 (''lexical document count ('' @ show_nat lexical_total @ '') != total_documents ('' @ show_nat total @ '')'')]
            else [])
         @ (if vector_artifacts m \<noteq> [] \<and> vector_total \<noteq> total \<and> vector_total \<noteq> (total * 2) mod 2 ^ 64 then
              [finding ''vector_count_consistency'' Warning
                 (''vector count ('' @ show_nat vector_total @ '') doesn'' @ [CHR 0x27] @ ''t match total_documents ('' @ show_nat total @ '') or 2x (two-tier)'')]
            else []))"

definition validate_manifest :: "hashing \<Rightarrow> GenerationManifest \<Rightarrow> ValidationFinding list" where
  "validate_manifest hf m =
     check_schema_version m @ check_generation_id m @ check_manifest_hash hf m @ check_commit_range m @ check_timestamps m
     @ check_embedders m @ check_vector_artifacts m @ check_lexical_artifacts m @ check_repair_descriptors m
     @ check_activation_invariants m @ check_document_count_consistency m"

definition require_valid :: "ValidationFinding list \<Rightarrow> SearchError + unit" where
  "require_valid findings =
     (if is_valid findings then Ok ()
      else Err (InvalidConfig ''generation_manifest'' [] (join ''; '' (map message (errors findings)))))"

section \<open>What validity means\<close>

definition hash_matches :: "hashing \<Rightarrow> GenerationManifest \<Rightarrow> bool" where
  "hash_matches hf m \<longleftrightarrow> is_valid_sha256_hex (manifest_hash m)
     \<and> (\<exists>s. manifest_to_vec hf (m\<lparr>manifest_hash := []\<rparr>) = Ok s \<and> eq_ignore_ascii_case (manifest_hash m) (sha256_digest hf s))"

definition artifacts_named :: "GenerationManifest \<Rightarrow> bool" where
  "artifacts_named m \<longleftrightarrow>
     (\<forall>a \<in> set (vector_artifacts m). va_path a \<noteq> [] \<and> va_checksum a \<noteq> [] \<and> 0 < va_dimension a)
     \<and> (\<forall>a \<in> set (lexical_artifacts m). la_path a \<noteq> [] \<and> la_checksum a \<noteq> [])
     \<and> distinct (map va_path (vector_artifacts m)) \<and> distinct (map la_path (lexical_artifacts m))"

definition embedders_named :: "GenerationManifest \<Rightarrow> bool" where
  "embedders_named m \<longleftrightarrow> embedders m \<noteq> []
     \<and> (\<forall>(key, r) \<in> set (embedders m). model_name r \<noteq> [] \<and> weights_hash r \<noteq> [] \<and> 0 < er_dimension r)"

definition invariants_named :: "GenerationManifest \<Rightarrow> bool" where
  "invariants_named m \<longleftrightarrow> [] \<notin> inv_id ` set (activation_invariants m) \<and> distinct (map inv_id (activation_invariants m))"

definition well_formed_manifest :: "hashing \<Rightarrow> GenerationManifest \<Rightarrow> bool" where
  "well_formed_manifest hf m \<longleftrightarrow>
     0 < schema_version m \<and> generation_id m \<noteq> [] \<and> hash_matches hf m
     \<and> low (commit_range m) \<le> high (commit_range m)
     \<and> 0 < build_started_at m \<and> build_started_at m \<le> build_completed_at m
     \<and> embedders_named m \<and> artifacts_named m
     \<and> (\<forall>rd \<in> set (repair_descriptors m). protected_artifact rd \<in> artifact_paths m \<and> 0 < source_symbols rd)
     \<and> invariants_named m
     \<and> (vector_artifacts m = [] \<and> lexical_artifacts m = [] \<or> 0 < total_documents m)"

lemma is_valid_simps [simp]:
  "is_valid []" "is_valid (a @ b) \<longleftrightarrow> is_valid a \<and> is_valid b" "is_valid (f # fs) \<longleftrightarrow> severity f \<noteq> Error \<and> is_valid fs"
  by (simp_all add: is_valid_def)

lemma is_valid_if [simp]: "is_valid (if c then a else b) \<longleftrightarrow> (if c then is_valid a else is_valid b)"
  by simp

lemma is_valid_concat: "is_valid (concat (map f xs)) \<longleftrightarrow> (\<forall>x \<in> set xs. is_valid (f x))"
  by (induction xs) auto

lemma is_valid_enumerate:
  assumes "\<And>i x. is_valid (f (i, x)) \<longleftrightarrow> P x"
  shows "is_valid (concat (map f (enumerate n xs))) \<longleftrightarrow> (\<forall>x \<in> set xs. P x)"
proof -
  have "snd ` set (enumerate n xs) = set xs" by (simp flip: set_map)
  then have "(\<forall>p \<in> set (enumerate n xs). P (snd p)) \<longleftrightarrow> (\<forall>x \<in> set xs. P x)" by (metis (mono_tags, lifting) image_iff)
  moreover have "is_valid (f p) \<longleftrightarrow> P (snd p)" for p using assms [of "fst p" "snd p"] by simp
  ultimately show ?thesis by (simp add: is_valid_concat)
qed

lemma is_valid_errors: "is_valid (map (\<lambda>p. finding (c p) Error (g p)) xs) \<longleftrightarrow> xs = []"
  by (cases xs) simp_all

lemma repeated_none: "repeated seen xs = [] \<longleftrightarrow> distinct xs \<and> seen \<inter> set xs = {}"
  by (induction xs arbitrary: seen) auto

lemma valid_invariant_ids: "is_valid (check_invariant_ids seen invs)
    \<longleftrightarrow> [] \<notin> inv_id ` set invs \<and> distinct (map inv_id invs) \<and> seen \<inter> inv_id ` set invs = {}"
  by (induction invs arbitrary: seen) auto

lemma valid_elements:
  "is_valid (check_embedder (key, r)) \<longleftrightarrow> model_name r \<noteq> [] \<and> weights_hash r \<noteq> [] \<and> 0 < er_dimension r"
  "is_valid (check_vector_artifact (i, va)) \<longleftrightarrow> va_path va \<noteq> [] \<and> va_checksum va \<noteq> [] \<and> 0 < va_dimension va"
  "is_valid (check_lexical_artifact (i, la)) \<longleftrightarrow> la_path la \<noteq> [] \<and> la_checksum la \<noteq> []"
  "is_valid (check_repair_descriptor paths (i, rd)) \<longleftrightarrow> protected_artifact rd \<in> paths \<and> 0 < source_symbols rd"
  by (simp_all add: check_embedder_def check_vector_artifact_def check_lexical_artifact_def check_repair_descriptor_def)

lemma valid_checks:
  "is_valid (check_schema_version m) \<longleftrightarrow> 0 < schema_version m"
  "is_valid (check_generation_id m) \<longleftrightarrow> generation_id m \<noteq> []"
  "is_valid (check_manifest_hash hf m) \<longleftrightarrow> hash_matches hf m"
  "is_valid (check_commit_range m) \<longleftrightarrow> low (commit_range m) \<le> high (commit_range m)"
  "is_valid (check_timestamps m) \<longleftrightarrow> 0 < build_started_at m \<and> build_started_at m \<le> build_completed_at m"
  "is_valid (check_embedders m) \<longleftrightarrow> embedders_named m"
  "is_valid (check_activation_invariants m) \<longleftrightarrow> invariants_named m"
  "is_valid (check_document_count_consistency m) \<longleftrightarrow> vector_artifacts m = [] \<and> lexical_artifacts m = [] \<or> 0 < total_documents m"
proof -
  show "is_valid (check_manifest_hash hf m) \<longleftrightarrow> hash_matches hf m"
    by (auto simp: check_manifest_hash_def hash_matches_def compute_manifest_hash_def is_valid_sha256_hex_def split: sum.splits)
  show "is_valid (check_embedders m) \<longleftrightarrow> embedders_named m"
    by (auto simp: check_embedders_def embedders_named_def is_valid_concat valid_elements(1))
  show "is_valid (check_activation_invariants m) \<longleftrightarrow> invariants_named m"
    by (simp add: check_activation_invariants_def invariants_named_def valid_invariant_ids)
  show "is_valid (check_document_count_consistency m) \<longleftrightarrow> vector_artifacts m = [] \<and> lexical_artifacts m = [] \<or> 0 < total_documents m"
    by (auto simp: check_document_count_consistency_def Let_def)
qed (auto simp: check_schema_version_def check_generation_id_def check_commit_range_def range_is_empty_def check_timestamps_def)

lemma valid_artifact_checks: "is_valid (check_vector_artifacts m @ check_lexical_artifacts m) \<longleftrightarrow> artifacts_named m"
proof -
  have "is_valid (concat (map check_vector_artifact (enumerate 0 (vector_artifacts m))))
      \<longleftrightarrow> (\<forall>a \<in> set (vector_artifacts m). va_path a \<noteq> [] \<and> va_checksum a \<noteq> [] \<and> 0 < va_dimension a)"
    "is_valid (concat (map check_lexical_artifact (enumerate 0 (lexical_artifacts m))))
      \<longleftrightarrow> (\<forall>a \<in> set (lexical_artifacts m). la_path a \<noteq> [] \<and> la_checksum a \<noteq> [])"
    by (intro is_valid_enumerate valid_elements)+
  then show ?thesis
    by (auto simp: check_vector_artifacts_def check_lexical_artifacts_def is_valid_errors repeated_none artifacts_named_def)
qed

lemma valid_repair_checks: "is_valid (check_repair_descriptors m)
    \<longleftrightarrow> (\<forall>rd \<in> set (repair_descriptors m). protected_artifact rd \<in> artifact_paths m \<and> 0 < source_symbols rd)"
  unfolding check_repair_descriptors_def by (intro is_valid_enumerate valid_elements)

lemma valid_manifest_iff: "is_valid (validate_manifest hf m) \<longleftrightarrow> well_formed_manifest hf m"
  using valid_artifact_checks [of m] valid_repair_checks [of m]
  by (auto simp: validate_manifest_def well_formed_manifest_def valid_checks)

text \<open>
  C29: a manifest is accepted exactly if it is well formed: a schema version, an identifier, a hash
  that is the digest of the manifest without it, a commit range that is not empty, build times in order, embedders and
  artifacts that are named, sized and listed once, repair data of listed artifacts only, invariants with
  different identifiers, and a document count unless there are no artifacts.
\<close>

theorem manifest_accepted_iff: "require_valid (validate_manifest hf m) = Ok () \<longleftrightarrow> well_formed_manifest hf m"
  by (simp add: require_valid_def valid_manifest_iff)

end
