(* ===== verification/Fs_Activation.thy ===== *)
theory Fs_Activation
  imports Fs_Generation
begin

text \<open>
  The controller of the generation that is served (\<open>frankensearch-core/src/activation.rs\<close>). The write
  lock makes an activation and a rollback single steps. The verifier is a parameter; its answers are
  functions of what it is asked.
\<close>

section \<open>Types\<close>

record ActiveGeneration =
  ag_manifest :: GenerationManifest
  activation_seq :: nat
  activated_at :: nat
  vector_paths :: "(string \<times> string) list"
  lexical_paths :: "(string \<times> string) list"

record ArtifactVerification =
  av_path :: string
  av_passed :: bool
  av_detail :: string

record ArtifactVerifier =
  verify :: "string \<Rightarrow> string \<Rightarrow> nat \<Rightarrow> ArtifactVerification"
  resolve_path :: "string \<Rightarrow> string"
  runtime_embedder :: "string \<Rightarrow> EmbedderRevision option"
  check_custom_invariant :: "string \<Rightarrow> GenerationManifest \<Rightarrow> ActiveGeneration option \<Rightarrow> (bool \<times> string) option"

record InvariantCheck =
  invariant_id :: string
  passed :: bool
  reason :: string

abbreviation check_result :: "ActivationInvariant \<Rightarrow> bool \<Rightarrow> string \<Rightarrow> InvariantCheck" where
  "check_result v p r \<equiv> \<lparr>invariant_id = inv_id v, passed = p, reason = r\<rparr>"

record GenerationController =
  active :: "ActiveGeneration option"
  activation_counter :: nat
  rollback_to :: "ActiveGeneration option"

section \<open>Invariants of an activation\<close>

text \<open>The artifacts that fail, vectors first.\<close>

definition artifact_failures :: "ArtifactVerifier \<Rightarrow> GenerationManifest \<Rightarrow> string list" where
  "artifact_failures vf m =
     concat (map (\<lambda>(path, checksum, size).
         let v = verify vf path checksum size in if \<not> av_passed v then [path @ '': '' @ av_detail v] else [])
       (map (\<lambda>a. (va_path a, va_checksum a, va_size_bytes a)) (vector_artifacts m)
        @ map (\<lambda>a. (la_path a, la_checksum a, la_size_bytes a)) (lexical_artifacts m)))"

definition evaluate_all_artifacts_verified :: "ActivationInvariant \<Rightarrow> GenerationManifest \<Rightarrow> ArtifactVerifier \<Rightarrow> InvariantCheck" where
  "evaluate_all_artifacts_verified v m vf =
     (let failures = artifact_failures vf m in
      if failures = [] then check_result v True ''all artifacts verified''
      else check_result v False (show_nat (length failures) @ '' artifact(s) failed: '' @ join ''; '' failures))"

fun show_format :: "QuantizationFormat \<Rightarrow> string" where
  "show_format QF_F32 = ''F32''"
| "show_format QF_F16 = ''F16''"
| "show_format Int8 = ''Int8''"
| "show_format Int4 = ''Int4''"

definition show_revision :: "EmbedderRevision \<Rightarrow> string" where
  "show_revision r = ''model='' @ model_name r @ '' hash='' @ weights_hash r @ '' dim='' @ show_nat (er_dimension r)
     @ '' quant='' @ show_format (er_quantization r)"

definition embedder_failures :: "ArtifactVerifier \<Rightarrow> GenerationManifest \<Rightarrow> string list" where
  "embedder_failures vf m =
     concat (map (\<lambda>(tier, expected).
         case runtime_embedder vf tier of
           None \<Rightarrow> [''runtime embedder missing for tier '' @ quoted tier]
         | Some actual \<Rightarrow>
             if actual \<noteq> expected then
               [''tier '' @ quoted tier @ '' mismatch: expected '' @ show_revision expected @ '', got '' @ show_revision actual]
             else []) (embedders m))"

definition evaluate_embedder_revision_match :: "ActivationInvariant \<Rightarrow> GenerationManifest \<Rightarrow> ArtifactVerifier \<Rightarrow> InvariantCheck" where
  "evaluate_embedder_revision_match v m vf =
     (let failures = embedder_failures vf m in
      check_result v (failures = [])
        (if failures = [] then ''runtime embedder revisions match manifest'' else join ''; '' failures))"

definition evaluate_vector_count_consistency :: "ActivationInvariant \<Rightarrow> GenerationManifest \<Rightarrow> nat \<Rightarrow> InvariantCheck" where
  "evaluate_vector_count_consistency v m expected_total =
     (let actual = u64_sum (map vector_count (vector_artifacts m)) in
      if actual = expected_total then
        check_result v True (''vector count '' @ show_nat actual @ '' matches expected '' @ show_nat expected_total)
      else check_result v False (''vector count '' @ show_nat actual @ '' != expected '' @ show_nat expected_total))"

definition evaluate_commit_continuity ::
  "ActivationInvariant \<Rightarrow> GenerationManifest \<Rightarrow> ActiveGeneration option \<Rightarrow> nat \<Rightarrow> InvariantCheck" where
  "evaluate_commit_continuity v m previous previous_high =
     (case previous of
        None \<Rightarrow> check_result v True ''commit continuity skipped (no previous generation)''
      | Some prev \<Rightarrow>
          (let actual_prev_high = high (commit_range (ag_manifest prev)); actual_low = low (commit_range m);
               expected_low = sat_add previous_high 1
           in if actual_prev_high \<noteq> previous_high then
                check_result v False (''expected previous high '' @ show_nat previous_high @ '', found '' @ show_nat actual_prev_high)
              else if actual_low \<noteq> expected_low then
                check_result v False (''expected current low '' @ show_nat expected_low @ '' to follow previous high ''
                  @ show_nat previous_high @ '', found '' @ show_nat actual_low)
              else
                check_result v True (''commit continuity verified: prev_high='' @ show_nat previous_high
                  @ '', current_low='' @ show_nat actual_low)))"

definition evaluate_custom_invariant ::
  "ActivationInvariant \<Rightarrow> string \<Rightarrow> ArtifactVerifier \<Rightarrow> GenerationManifest \<Rightarrow> ActiveGeneration option \<Rightarrow> InvariantCheck" where
  "evaluate_custom_invariant v check_name vf m previous =
     (case check_custom_invariant vf check_name m previous of
        Some (p, r) \<Rightarrow> check_result v p r
      | None \<Rightarrow> check_result v False (''custom check '' @ quoted check_name @ '' is not implemented''))"

definition evaluate_invariant ::
  "ActivationInvariant \<Rightarrow> GenerationManifest \<Rightarrow> ArtifactVerifier \<Rightarrow> ActiveGeneration option \<Rightarrow> InvariantCheck" where
  "evaluate_invariant v m vf previous =
     (case inv_kind v of
        AllArtifactsVerified \<Rightarrow> evaluate_all_artifacts_verified v m vf
      | EmbedderRevisionMatch \<Rightarrow> evaluate_embedder_revision_match v m vf
      | VectorCountConsistency expected_total \<Rightarrow> evaluate_vector_count_consistency v m expected_total
      | CommitContinuity previous_high \<Rightarrow> evaluate_commit_continuity v m previous previous_high
      | Custom check_name \<Rightarrow> evaluate_custom_invariant v check_name vf m previous)"

definition check_invariants :: "GenerationManifest \<Rightarrow> ArtifactVerifier \<Rightarrow> ActiveGeneration option \<Rightarrow> InvariantCheck list" where
  "check_invariants m vf previous = map (\<lambda>v. evaluate_invariant v m vf previous) (activation_invariants m)"

section \<open>The controller\<close>

definition new_controller :: GenerationController where
  "new_controller = \<lparr>active = None, activation_counter = 0, rollback_to = None\<rparr>"

definition activation_error :: "ValidationFinding list \<Rightarrow> SearchError" where
  "activation_error findings =
     InvalidConfig ''generation_manifest'' [] (''manifest validation failed: '' @ join ''; '' (map message (errors findings)))"

text \<open>The paths are inserted into an ordered map, one after the other.\<close>

definition resolved_paths :: "ArtifactVerifier \<Rightarrow> string list \<Rightarrow> (string \<times> string) list" where
  "resolved_paths vf paths = fold (\<lambda>p. btree_insert p (resolve_path vf p)) paths []"

definition activate ::
  "hashing \<Rightarrow> GenerationManifest \<Rightarrow> ArtifactVerifier \<Rightarrow> nat \<Rightarrow> GenerationController
   \<Rightarrow> (SearchError + ActiveGeneration) \<times> GenerationController" where
  "activate hf m vf now_millis ctl =
     (let validation = validate_manifest hf m in
      if \<not> is_valid validation then (Err (activation_error validation), ctl)
      else
        let failed = filter (\<lambda>c. \<not> passed c) (check_invariants m vf (active ctl)) in
        if failed \<noteq> [] then
          (Err (SubsystemError ''generation_activation'' (join ''; '' (map (\<lambda>c. invariant_id c @ '': '' @ reason c) failed))), ctl)
        else
          let seq = usize_add (activation_counter ctl) 1;
              new_gen = \<lparr>ag_manifest = m, activation_seq = seq, activated_at = now_millis,
                vector_paths = resolved_paths vf (map va_path (vector_artifacts m)),
                lexical_paths = resolved_paths vf (map la_path (lexical_artifacts m))\<rparr>
          in (Ok new_gen, ctl\<lparr>active := Some new_gen, activation_counter := seq, rollback_to := active ctl\<rparr>))"

definition rollback :: "GenerationController \<Rightarrow> bool \<times> GenerationController" where
  "rollback ctl =
     (case rollback_to ctl of
        None \<Rightarrow> (False, ctl)
      | Some prev_gen \<Rightarrow> (True, ctl\<lparr>active := Some prev_gen, rollback_to := None\<rparr>))"

definition is_degraded :: "GenerationController \<Rightarrow> bool" where
  "is_degraded ctl \<longleftrightarrow> active ctl = None"

section \<open>When an invariant holds\<close>

definition invariant_holds :: "ArtifactVerifier \<Rightarrow> GenerationManifest \<Rightarrow> ActiveGeneration option \<Rightarrow> InvariantKind \<Rightarrow> bool" where
  "invariant_holds vf m previous k \<longleftrightarrow> (case k of
     AllArtifactsVerified \<Rightarrow>
       (\<forall>a \<in> set (vector_artifacts m). av_passed (verify vf (va_path a) (va_checksum a) (va_size_bytes a)))
       \<and> (\<forall>a \<in> set (lexical_artifacts m). av_passed (verify vf (la_path a) (la_checksum a) (la_size_bytes a)))
   | EmbedderRevisionMatch \<Rightarrow> (\<forall>(tier, expected) \<in> set (embedders m). runtime_embedder vf tier = Some expected)
   | VectorCountConsistency n \<Rightarrow> u64_sum (map vector_count (vector_artifacts m)) = n
   | CommitContinuity h \<Rightarrow> (case previous of None \<Rightarrow> True
       | Some prev \<Rightarrow> high (commit_range (ag_manifest prev)) = h \<and> low (commit_range m) = sat_add h 1)
   | Custom c \<Rightarrow> (\<exists>r. check_custom_invariant vf c m previous = Some (True, r)))"

definition activation_allowed :: "hashing \<Rightarrow> GenerationManifest \<Rightarrow> ArtifactVerifier \<Rightarrow> ActiveGeneration option \<Rightarrow> bool" where
  "activation_allowed hf m vf previous \<longleftrightarrow> well_formed_manifest hf m
     \<and> (\<forall>v \<in> set (activation_invariants m). invariant_holds vf m previous (inv_kind v))"

lemma concat_map_empty: "concat (map f xs) = [] \<longleftrightarrow> (\<forall>x \<in> set xs. f x = [])"
  by auto

lemma artifact_failures_none: "artifact_failures vf m = [] \<longleftrightarrow> invariant_holds vf m previous AllArtifactsVerified"
  unfolding artifact_failures_def concat_map_empty by (simp add: invariant_holds_def Let_def ball_Un)

lemma embedder_failures_none: "embedder_failures vf m = [] \<longleftrightarrow> invariant_holds vf m previous EmbedderRevisionMatch"
  unfolding embedder_failures_def concat_map_empty by (auto simp: invariant_holds_def split: option.splits if_splits)

lemma evaluate_invariant_passed: "passed (evaluate_invariant v m vf previous) \<longleftrightarrow> invariant_holds vf m previous (inv_kind v)"
proof (cases "inv_kind v")
  case AllArtifactsVerified
  then show ?thesis using artifact_failures_none [of vf m previous]
    by (simp add: evaluate_invariant_def evaluate_all_artifacts_verified_def Let_def)
next
  case EmbedderRevisionMatch
  then show ?thesis using embedder_failures_none [of vf m previous]
    by (simp add: evaluate_invariant_def evaluate_embedder_revision_match_def Let_def)
qed (auto simp: evaluate_invariant_def invariant_holds_def evaluate_vector_count_consistency_def evaluate_commit_continuity_def
    evaluate_custom_invariant_def Let_def split: option.splits)

lemma no_failed_checks:
  "filter (\<lambda>c. \<not> passed c) (check_invariants m vf previous) = []
    \<longleftrightarrow> (\<forall>v \<in> set (activation_invariants m). invariant_holds vf m previous (inv_kind v))"
  by (simp add: check_invariants_def filter_empty_conv evaluate_invariant_passed)

text \<open>What an activation that is allowed installs.\<close>

definition installed :: "GenerationManifest \<Rightarrow> ArtifactVerifier \<Rightarrow> nat \<Rightarrow> nat \<Rightarrow> ActiveGeneration" where
  "installed m vf now_millis seq = \<lparr>ag_manifest = m, activation_seq = seq, activated_at = now_millis,
     vector_paths = resolved_paths vf (map va_path (vector_artifacts m)),
     lexical_paths = resolved_paths vf (map la_path (lexical_artifacts m))\<rparr>"

lemma activate_allowed:
  assumes "activation_allowed hf m vf (active ctl)"
  shows "activate hf m vf now ctl = (Ok (installed m vf now (usize_add (activation_counter ctl) 1)),
    ctl\<lparr>active := Some (installed m vf now (usize_add (activation_counter ctl) 1)),
        activation_counter := usize_add (activation_counter ctl) 1, rollback_to := active ctl\<rparr>)"
  using assms valid_manifest_iff [of hf m] no_failed_checks [of m vf "active ctl"]
  by (simp add: activation_allowed_def activate_def installed_def Let_def)

lemma activate_refused:
  assumes "\<not> activation_allowed hf m vf (active ctl)"
  shows "\<exists>e. activate hf m vf now ctl = (Err e, ctl)"
  using assms valid_manifest_iff [of hf m] no_failed_checks [of m vf "active ctl"]
  by (auto simp: activation_allowed_def activate_def Let_def)

lemma resolved_paths_get: "map_of (resolved_paths vf paths) p = (if p \<in> set paths then Some (resolve_path vf p) else None)"
proof -
  have "map_of (fold (\<lambda>p. btree_insert p (resolve_path vf p)) paths m) p = (if p \<in> set paths then Some (resolve_path vf p) else map_of m p)" for m
    by (induction paths arbitrary: m) auto
  then show ?thesis by (simp add: resolved_paths_def)
qed

lemma activate_cases:
  "case activate hf m vf now ctl of (r, ctl') \<Rightarrow>
     if activation_allowed hf m vf (active ctl) then
       (\<exists>g. r = Ok g \<and> active ctl' = Some g \<and> ag_manifest g = m \<and> activation_seq g = usize_add (activation_counter ctl) 1
         \<and> dom (map_of (vector_paths g)) = va_path ` set (vector_artifacts m)
         \<and> dom (map_of (lexical_paths g)) = la_path ` set (lexical_artifacts m)
         \<and> rollback ctl' = (if active ctl = None then (False, ctl')
              else (True, ctl'\<lparr>active := active ctl, rollback_to := None\<rparr>)))
     else (\<exists>e. r = Err e) \<and> ctl' = ctl"
proof (cases "activation_allowed hf m vf (active ctl)")
  case True
  have "dom (map_of (resolved_paths vf paths)) = set paths" for paths by (auto simp: dom_def resolved_paths_get)
  then show ?thesis using activate_allowed [OF True, of now] True by (auto simp: installed_def rollback_def)
next
  case False
  then show ?thesis using activate_refused [OF False, of now] by auto
qed

text \<open>
  The artifacts that the verifier accepts: the documentation of \<open>activate\<close> has all of them verified in every activation,
  the code asks about them for the invariant \<open>AllArtifactsVerified\<close> of the manifest.
\<close>

definition artifacts_accepted :: "ArtifactVerifier \<Rightarrow> GenerationManifest \<Rightarrow> bool" where
  "artifacts_accepted vf m \<longleftrightarrow>
     (\<forall>a \<in> set (vector_artifacts m). av_passed (verify vf (va_path a) (va_checksum a) (va_size_bytes a)))
     \<and> (\<forall>a \<in> set (lexical_artifacts m). av_passed (verify vf (la_path a) (la_checksum a) (la_size_bytes a)))"

lemma allowed_accepted:
  assumes "AllArtifactsVerified \<in> inv_kind ` set (activation_invariants m)"
  shows "activation_allowed hf m vf previous \<longleftrightarrow> well_formed_manifest hf m \<and> artifacts_accepted vf m
    \<and> (\<forall>v \<in> set (activation_invariants m). invariant_holds vf m previous (inv_kind v))"
proof -
  have "invariant_holds vf m previous AllArtifactsVerified \<longleftrightarrow> artifacts_accepted vf m"
    by (simp add: invariant_holds_def artifacts_accepted_def)
  then show ?thesis using assms by (auto simp: activation_allowed_def)
qed

text \<open>
  C22: an activation is all or nothing. For a manifest that lists the invariant \<open>AllArtifactsVerified\<close>: if the manifest is well
  formed, the verifier accepts every artifact, and each invariant holds against the generation active before, then the new
  generation is active, with the next number and a resolved path for exactly the listed artifacts, and a rollback would bring the
  previous one back; if any of the three fails there is an error and nothing has changed, so that the previous generation
  stays active.
\<close>

theorem activation_all_or_nothing:
  assumes "AllArtifactsVerified \<in> inv_kind ` set (activation_invariants m)"
  shows "case activate hf m vf now ctl of (r, ctl') \<Rightarrow>
     if well_formed_manifest hf m \<and> artifacts_accepted vf m
       \<and> (\<forall>v \<in> set (activation_invariants m). invariant_holds vf m (active ctl) (inv_kind v)) then
       (\<exists>g. r = Ok g \<and> active ctl' = Some g \<and> ag_manifest g = m \<and> activation_seq g = usize_add (activation_counter ctl) 1
         \<and> dom (map_of (vector_paths g)) = va_path ` set (vector_artifacts m)
         \<and> dom (map_of (lexical_paths g)) = la_path ` set (lexical_artifacts m)
         \<and> rollback ctl' = (if active ctl = None then (False, ctl')
              else (True, ctl'\<lparr>active := active ctl, rollback_to := None\<rparr>)))
     else (\<exists>e. r = Err e) \<and> ctl' = ctl"
  using activate_cases [where hf = hf and m = m and vf = vf and now = now and ctl = ctl] unfolding allowed_accepted [OF assms] .

section \<open>Sequences of activations and rollbacks\<close>

datatype controller_op = Activate GenerationManifest ArtifactVerifier nat | Rollback

fun controller_step :: "hashing \<Rightarrow> controller_op \<Rightarrow> GenerationController \<Rightarrow> GenerationController" where
  "controller_step hf (Activate m vf now) ctl = snd (activate hf m vf now ctl)"
| "controller_step hf Rollback ctl = snd (rollback ctl)"

definition controller_inv :: "hashing \<Rightarrow> GenerationController \<Rightarrow> bool" where
  "controller_inv hf ctl \<longleftrightarrow>
     (\<forall>g. active ctl = Some g \<or> rollback_to ctl = Some g \<longrightarrow> well_formed_manifest hf (ag_manifest g))
     \<and> (active ctl = None \<longrightarrow> rollback_to ctl = None)"

interpretation controller: invariant_machine "controller_step hf" "controller_inv hf" new_controller for hf
proof
  show "controller_inv hf new_controller" by (simp add: controller_inv_def new_controller_def)
  show "controller_inv hf (controller_step hf op s)" if "controller_inv hf s" for op s
  proof (cases op)
    case (Activate m vf now)
    show ?thesis
    proof (cases "activation_allowed hf m vf (active s)")
      case True
      then show ?thesis using that activate_allowed [OF True, of now]
        by (auto simp: Activate controller_inv_def activation_allowed_def installed_def)
    next
      case False
      then show ?thesis using that activate_refused [OF False, of now] by (auto simp: Activate)
    qed
  qed (use that in \<open>auto simp: controller_inv_def rollback_def split: option.splits\<close>)
qed

text \<open>As long as the counter does not wrap around, the numbers tell which generation came later.\<close>

definition numbers_ok :: "nat \<Rightarrow> GenerationController \<Rightarrow> bool" where
  "numbers_ok n ctl \<longleftrightarrow> activation_counter ctl \<le> n
     \<and> (\<forall>g. active ctl = Some g \<or> rollback_to ctl = Some g \<longrightarrow> activation_seq g \<le> activation_counter ctl)
     \<and> (\<forall>g g'. active ctl = Some g \<and> rollback_to ctl = Some g' \<longrightarrow> activation_seq g' < activation_seq g)"

lemma step_numbers:
  assumes "numbers_ok n ctl" "Suc n < 2 ^ 64"
  shows "numbers_ok (Suc n) (controller_step hf op ctl)"
proof (cases op)
  case (Activate m vf now)
  show ?thesis
  proof (cases "activation_allowed hf m vf (active ctl)")
    case True
    have "usize_add (activation_counter ctl) 1 = activation_counter ctl + 1" using assms by (simp add: numbers_ok_def)
    then show ?thesis using assms(1) activate_allowed [OF True, of now]
      by (auto simp: Activate numbers_ok_def installed_def le_imp_less_Suc)
  next
    case False
    then show ?thesis using assms(1) activate_refused [OF False, of now] by (auto simp: Activate numbers_ok_def)
  qed
qed (use assms in \<open>auto simp: numbers_ok_def rollback_def split: option.splits\<close>)

lemma run_numbers: "length ops < 2 ^ 64 \<Longrightarrow> numbers_ok (length ops) (fold (controller_step hf) ops new_controller)"
proof (induction ops rule: rev_induct)
  case (snoc op ops)
  then show ?case using step_numbers [of "length ops"] by simp
qed (simp add: numbers_ok_def new_controller_def)

text \<open>
  Only generations that were accepted are served: after any activations and rollbacks the active
  generation and the one a rollback returns to have well-formed manifests, there is a
  generation to return to only if one is active, and with fewer than \<open>2^64\<close> operations it is an earlier one.
\<close>

theorem controller_serves_accepted:
  assumes "length ops < 2 ^ 64" "ctl = fold (controller_step hf) ops new_controller"
  shows "(\<forall>g. active ctl = Some g \<or> rollback_to ctl = Some g \<longrightarrow> well_formed_manifest hf (ag_manifest g))
    \<and> (is_degraded ctl \<longrightarrow> rollback_to ctl = None)
    \<and> (\<forall>g g'. active ctl = Some g \<and> rollback_to ctl = Some g' \<longrightarrow> activation_seq g' < activation_seq g)"
  using controller.inv_run [of hf ops] run_numbers [OF assms(1), of hf]
  by (auto simp: assms(2) controller_inv_def numbers_ok_def is_degraded_def)

text \<open>
  The artifacts are verified only by the invariant that says so: without it a verifier that rejects
  every artifact does not stop the activation.
\<close>

lemma artifacts_unverified_without_invariant:
  assumes "well_formed_manifest hf m" "activation_invariants m = []"
  shows "\<exists>g ctl'. activate hf m vf now ctl = (Ok g, ctl') \<and> active ctl' = Some g"
  using activate_allowed [of hf m vf ctl now] assms by (simp add: activation_allowed_def)

section \<open>Samples\<close>

definition sample_digest :: string where "sample_digest = replicate 64 (CHR ''a'')"

definition sample_hashing :: hashing where
  "sample_hashing = \<lparr>manifest_to_vec = (\<lambda>m. Ok (generation_id m)), sha256_digest = (\<lambda>_. sample_digest)\<rparr>"

definition sample_manifest :: GenerationManifest where
  "sample_manifest = \<lparr>schema_version = 1, generation_id = ''g'', manifest_hash = sample_digest, commit_range = \<lparr>low = 1, high = 9\<rparr>,
     build_started_at = 5, build_completed_at = 6,
     embedders = [(''fast'', \<lparr>model_name = ''p'', weights_hash = ''h'', er_dimension = 4, er_quantization = QF_F16\<rparr>)],
     vector_artifacts = [\<lparr>va_path = ''v'', va_size_bytes = 10, va_checksum = ''c'', vector_count = 3, va_dimension = 4, embedder_tier = Fast\<rparr>],
     lexical_artifacts = [], repair_descriptors = [], activation_invariants = [], total_documents = 3, gm_metadata = []\<rparr>"

definition sample_verifier :: ArtifactVerifier where
  "sample_verifier = \<lparr>verify = (\<lambda>p _ _. \<lparr>av_path = p, av_passed = False, av_detail = ''missing''\<rparr>), resolve_path = (\<lambda>p. ''/'' @ p),
     runtime_embedder = (\<lambda>_. None), check_custom_invariant = (\<lambda>_ _ _. None)\<rparr>"

text \<open>The manifest with the invariant; the sample verifier accepts no artifact, and this one all of them.\<close>

definition verified_manifest :: GenerationManifest where
  "verified_manifest = sample_manifest\<lparr>activation_invariants := [\<lparr>inv_id = ''i'', description = [], inv_kind = AllArtifactsVerified\<rparr>]\<rparr>"

definition accepting_verifier :: ArtifactVerifier where
  "accepting_verifier = sample_verifier\<lparr>verify := (\<lambda>p _ _. \<lparr>av_path = p, av_passed = True, av_detail = ''ok''\<rparr>)\<rparr>"

lemma sample_well_formed: "well_formed_manifest sample_hashing sample_manifest"
  by (simp add: well_formed_manifest_def hash_matches_def is_valid_sha256_hex_def eq_ignore_ascii_case_def embedders_named_def artifacts_named_def
      invariants_named_def sample_manifest_def sample_hashing_def sample_digest_def list_all_iff is_ascii_hexdigit_def)

lemma verified_well_formed: "well_formed_manifest sample_hashing verified_manifest"
  by (simp add: well_formed_manifest_def hash_matches_def is_valid_sha256_hex_def eq_ignore_ascii_case_def embedders_named_def artifacts_named_def
      invariants_named_def verified_manifest_def sample_manifest_def sample_hashing_def sample_digest_def list_all_iff is_ascii_hexdigit_def)

theorem activation_all_or_nothing_witness:
  "(\<exists>g. active (snd (activate sample_hashing verified_manifest accepting_verifier 1 new_controller)) = Some g \<and> activation_seq g = 1)
   \<and> snd (activate sample_hashing verified_manifest sample_verifier 1 new_controller) = new_controller"
proof -
  have v: "AllArtifactsVerified \<in> inv_kind ` set (activation_invariants verified_manifest)" by (simp add: verified_manifest_def)
  have acc: "artifacts_accepted accepting_verifier verified_manifest" "\<not> artifacts_accepted sample_verifier verified_manifest"
    by (simp_all add: artifacts_accepted_def accepting_verifier_def sample_verifier_def verified_manifest_def sample_manifest_def)
  have "\<forall>v \<in> set (activation_invariants verified_manifest). invariant_holds accepting_verifier verified_manifest None (inv_kind v)"
    using acc(1) by (simp add: verified_manifest_def invariant_holds_def artifacts_accepted_def)
  then show ?thesis
    using activation_all_or_nothing [OF v, where hf = sample_hashing and vf = accepting_verifier and now = 1 and ctl = new_controller] acc verified_well_formed
      activation_all_or_nothing [OF v, where hf = sample_hashing and vf = sample_verifier and now = 1 and ctl = new_controller]
    by (auto simp: new_controller_def usize_add_def split: prod.splits)
qed

theorem controller_serves_accepted_witness:
  "\<exists>g. active (fold (controller_step sample_hashing) [Activate sample_manifest sample_verifier 1, Activate sample_manifest sample_verifier 2] new_controller) = Some g
     \<and> activation_seq g = 2 \<and> well_formed_manifest sample_hashing (ag_manifest g)"
proof -
  let ?ops = "[Activate sample_manifest sample_verifier 1, Activate sample_manifest sample_verifier 2]"
  have "activation_allowed sample_hashing sample_manifest sample_verifier p" for p
    using sample_well_formed by (simp add: activation_allowed_def sample_manifest_def)
  then have "active (fold (controller_step sample_hashing) ?ops new_controller) = Some (installed sample_manifest sample_verifier 2 2)"
    by (simp add: activate_allowed new_controller_def) (simp add: numeral_2_eq_2)
  moreover have "length ?ops < 2 ^ 64" by simp
  note controller_serves_accepted [OF this refl, of sample_hashing]
  ultimately show ?thesis by (auto simp: installed_def)
qed

end
