(* ===== verification/Fs_History.thy ===== *)
theory Fs_History
  imports Fs_Activation
begin

text \<open>
  The generations that are kept for queries as of an earlier commit (\<open>frankensearch-core/src/time_travel.rs\<close>). The
  lock makes an operation a single step.
\<close>

section \<open>Types\<close>

record RetentionPolicy =
  max_retained :: nat
  max_age_ms :: nat

definition default_retention_policy :: RetentionPolicy where
  "default_retention_policy = \<lparr>max_retained = 10, max_age_ms = 3600000\<rparr>"

record RetainedGeneration =
  rg_generation :: ActiveGeneration
  retained_at :: nat

datatype TimeTravelResult =
    Found string nat nat
  | NotFound nat "(nat \<times> nat) option"
  | ActiveGen string

record GenerationHistory =
  retained :: "RetainedGeneration list"
  history_policy :: RetentionPolicy

abbreviation gen_manifest :: "RetainedGeneration \<Rightarrow> GenerationManifest" where "gen_manifest r \<equiv> ag_manifest (rg_generation r)"
abbreviation gen_low :: "RetainedGeneration \<Rightarrow> nat" where "gen_low r \<equiv> low (commit_range (gen_manifest r))"
abbreviation gen_high :: "RetainedGeneration \<Rightarrow> nat" where "gen_high r \<equiv> high (commit_range (gen_manifest r))"

section \<open>Binary search\<close>

text \<open>
  What the standard library promises of \<open>binary_search_by_key\<close>: in a sorted slice an index of some equal key, or the place where
  the key can be inserted. Which of several equal keys is found is left open.
\<close>

locale binary_search =
  fixes search :: "nat \<Rightarrow> nat list \<Rightarrow> nat + nat"
  assumes found: "sorted ks \<Longrightarrow> search k ks = Ok i \<Longrightarrow> i < length ks \<and> ks ! i = k"
    and missing: "sorted ks \<Longrightarrow> search k ks = Err p \<Longrightarrow> p \<le> length ks \<and> (\<forall>x \<in> set (take p ks). x < k) \<and> (\<forall>x \<in> set (drop p ks). k < x)"
begin

definition insertion_index :: "nat \<Rightarrow> nat list \<Rightarrow> nat" where
  "insertion_index k ks = (case search k ks of Inr i \<Rightarrow> i | Inl p \<Rightarrow> p)"

lemma insertion_index_splits:
  assumes "sorted ks"
  shows "insertion_index k ks \<le> length ks" "\<forall>x \<in> set (take (insertion_index k ks) ks). x \<le> k" "\<forall>x \<in> set (drop (insertion_index k ks) ks). k \<le> x"
proof -
  have "insertion_index k ks \<le> length ks \<and> (\<forall>x \<in> set (take (insertion_index k ks) ks). x \<le> k) \<and> (\<forall>x \<in> set (drop (insertion_index k ks) ks). k \<le> x)"
  proof (cases "search k ks")
    case (Inl p)
    then show ?thesis using missing [OF assms Inl] by (auto simp: insertion_index_def less_imp_le)
  next
    case (Inr i)
    then have i: "i < length ks" "ks ! i = k" using found [OF assms Inr] by auto
    have "x \<le> k" if "x \<in> set (take i ks)" for x
      using that i assms by (auto simp: in_set_conv_nth sorted_iff_nth_mono)
    moreover have "k \<le> x" if "x \<in> set (drop i ks)" for x
      using that i assms by (auto simp: in_set_conv_nth sorted_iff_nth_mono)
    ultimately show ?thesis using i Inr by (simp add: insertion_index_def)
  qed
  then show "insertion_index k ks \<le> length ks" "\<forall>x \<in> set (take (insertion_index k ks) ks). x \<le> k" "\<forall>x \<in> set (drop (insertion_index k ks) ks). k \<le> x"
    by simp_all
qed

lemma insertion_sorted:
  assumes "sorted (map f xs)"
  shows "sorted (map f (take (insertion_index (f x) (map f xs)) xs @ x # drop (insertion_index (f x) (map f xs)) xs))"
  using insertion_index_splits [OF assms, of "f x"] assms
  by (auto simp: sorted_append take_map drop_map sorted_wrt_take sorted_wrt_drop sorted_wrt_map intro: order_trans)

end

text \<open>A search that finds the first of equal keys.\<close>

definition first_search :: "nat \<Rightarrow> nat list \<Rightarrow> nat + nat" where
  "first_search k ks = (let p = length (takeWhile (\<lambda>x. x < k) ks) in if p < length ks \<and> ks ! p = k then Ok p else Err p)"

interpretation first: binary_search first_search
proof
  fix k :: nat and ks :: "nat list" and p
  assume s: "sorted ks" and m: "first_search k ks = Err p"
  have p: "p = length (takeWhile (\<lambda>x. x < k) ks)" using m by (auto simp: first_search_def Let_def split: if_splits)
  then have "p \<le> length ks" by (simp add: length_takeWhile_le)
  have dropped: "drop p ks = dropWhile (\<lambda>x. x < k) ks" using p by (simp add: dropWhile_eq_drop)
  have above: "k < x" if x: "x \<in> set (dropWhile (\<lambda>x. x < k) ks)" for x
  proof -
    obtain y ys where y: "dropWhile (\<lambda>x. x < k) ks = y # ys" using x by (metis empty_iff list.set(1) neq_Nil_conv)
    then have "\<not> y < k" using hd_dropWhile [of "\<lambda>x. x < k" ks] by simp
    have d: "drop p ks = y # ys" using y p by (simp add: dropWhile_eq_drop)
    then have "p < length ks" by (metis drop_all list.distinct(1) not_le)
    moreover from this have "ks ! p = y" using d by (simp add: Cons_nth_drop_Suc [symmetric])
    ultimately have "y \<noteq> k" using m unfolding first_search_def Let_def p [symmetric] by (simp split: if_splits)
    moreover have "sorted (y # ys)" using s y by (metis sorted_dropWhile)
    ultimately show ?thesis using x y \<open>\<not> y < k\<close> by auto
  qed
  have "take p ks = takeWhile (\<lambda>x. x < k) ks" unfolding p by (rule takeWhile_eq_take [symmetric])
  then have "\<forall>x \<in> set (take p ks). x < k" using set_takeWhileD by fastforce
  moreover have "\<forall>x \<in> set (drop p ks). k < x" unfolding dropped using above by blast
  ultimately show "p \<le> length ks \<and> (\<forall>x \<in> set (take p ks). x < k) \<and> (\<forall>x \<in> set (drop p ks). k < x)"
    using \<open>p \<le> length ks\<close> by blast
qed (auto simp: first_search_def Let_def split: if_splits)

section \<open>Operations\<close>

definition new_history :: "RetentionPolicy \<Rightarrow> GenerationHistory" where
  "new_history p = \<lparr>retained = [], history_policy = p\<rparr>"

definition default_history :: GenerationHistory where
  "default_history = new_history default_retention_policy"

definition prune_locked :: "RetentionPolicy \<Rightarrow> nat \<Rightarrow> RetainedGeneration list \<Rightarrow> RetainedGeneration list" where
  "prune_locked p now_millis rs =
     (let rs = (if 0 < max_age_ms p then filter (\<lambda>r. now_millis - retained_at r \<le> max_age_ms p) rs else rs)
      in if max_retained p < length rs then drop (length rs - max_retained p) rs else rs)"

definition retain :: "(nat \<Rightarrow> nat list \<Rightarrow> nat + nat) \<Rightarrow> ActiveGeneration \<Rightarrow> nat \<Rightarrow> GenerationHistory \<Rightarrow> GenerationHistory" where
  "retain search g now_millis h =
     (let entry = \<lparr>rg_generation = g, retained_at = now_millis\<rparr>;
          pos = (case search (gen_high entry) (map gen_high (retained h)) of Inr i \<Rightarrow> i | Inl p \<Rightarrow> p)
      in h\<lparr>retained := prune_locked (history_policy h) now_millis (take pos (retained h) @ entry # drop pos (retained h))\<rparr>)"

definition covers :: "RetainedGeneration \<Rightarrow> nat \<Rightarrow> bool" where
  "covers r seq \<longleftrightarrow> gen_low r \<le> seq \<and> seq \<le> gen_high r"

definition resolve :: "GenerationHistory \<Rightarrow> nat \<Rightarrow> ActiveGeneration option" where
  "resolve h seq = map_option rg_generation (List.find (\<lambda>r. covers r seq) (retained h))"

definition range_distance :: "nat \<Rightarrow> RetainedGeneration \<Rightarrow> nat" where
  "range_distance seq r = max (seq - gen_high r) (gen_low r - seq)"

text \<open>\<open>min_by_key\<close> gives the first of the least elements.\<close>

fun min_by_key :: "('a \<Rightarrow> nat) \<Rightarrow> 'a list \<Rightarrow> 'a option" where
  "min_by_key f [] = None"
| "min_by_key f (x # xs) = (case min_by_key f xs of None \<Rightarrow> Some x | Some y \<Rightarrow> if f x \<le> f y then Some x else Some y)"

definition resolve_detailed :: "GenerationHistory \<Rightarrow> nat \<Rightarrow> TimeTravelResult" where
  "resolve_detailed h seq =
     (case List.find (\<lambda>r. covers r seq) (retained h) of
        Some r \<Rightarrow> Found (generation_id (gen_manifest r)) (gen_low r) (gen_high r)
      | None \<Rightarrow> NotFound seq (map_option (\<lambda>r. (gen_low r, gen_high r)) (min_by_key (range_distance seq) (retained h))))"

definition prune :: "nat \<Rightarrow> GenerationHistory \<Rightarrow> nat \<times> GenerationHistory" where
  "prune now_millis h =
     (let rs = prune_locked (history_policy h) now_millis (retained h) in (length (retained h) - length rs, h\<lparr>retained := rs\<rparr>))"

definition retained_count :: "GenerationHistory \<Rightarrow> nat" where "retained_count h = length (retained h)"

definition retained_summary :: "GenerationHistory \<Rightarrow> (string \<times> nat \<times> nat) list" where
  "retained_summary h = map (\<lambda>r. (generation_id (gen_manifest r), gen_low r, gen_high r)) (retained h)"

definition clear_history :: "GenerationHistory \<Rightarrow> GenerationHistory" where
  "clear_history h = h\<lparr>retained := []\<rparr>"

datatype history_op = Retain ActiveGeneration nat | Prune nat | Clear

fun history_step :: "(nat \<Rightarrow> nat list \<Rightarrow> nat + nat) \<Rightarrow> history_op \<Rightarrow> GenerationHistory \<Rightarrow> GenerationHistory" where
  "history_step search (Retain g now_millis) h = retain search g now_millis h"
| "history_step search (Prune now_millis) h = snd (prune now_millis h)"
| "history_step search Clear h = clear_history h"

section \<open>What is kept\<close>

lemma prune_locked_facts:
  "sorted (map f rs) \<Longrightarrow> sorted (map f (prune_locked p now rs))"
  "length (prune_locked p now rs) \<le> max_retained p"
  "set (prune_locked p now rs) \<subseteq> set rs"
proof -
  let ?rs = "if 0 < max_age_ms p then filter (\<lambda>r. now - retained_at r \<le> max_age_ms p) rs else rs"
  show "sorted (map f (prune_locked p now rs))" if "sorted (map f rs)"
  proof -
    have "sorted (map f ?rs)" using that by (simp add: sorted_filter)
    then show ?thesis by (simp add: prune_locked_def Let_def drop_map [symmetric] sorted_wrt_drop del: if_split)
  qed
  show "length (prune_locked p now rs) \<le> max_retained p" by (simp add: prune_locked_def Let_def)
  show "set (prune_locked p now rs) \<subseteq> set rs" by (auto simp: prune_locked_def Let_def dest: in_set_dropD)
qed

definition history_inv :: "RetentionPolicy \<Rightarrow> (ActiveGeneration \<times> nat) set \<Rightarrow> GenerationHistory \<Rightarrow> bool" where
  "history_inv p offered h \<longleftrightarrow> history_policy h = p \<and> sorted (map gen_high (retained h)) \<and> length (retained h) \<le> max_retained p
     \<and> (\<forall>r \<in> set (retained h). (rg_generation r, retained_at r) \<in> offered)"

fun offered_by :: "history_op \<Rightarrow> (ActiveGeneration \<times> nat) set" where
  "offered_by (Retain g t) = {(g, t)}"
| "offered_by _ = {}"

lemma history_step_inv:
  assumes "binary_search search" "history_inv p offered h"
  shows "history_inv p (offered \<union> offered_by op) (history_step search op h)"
proof (cases op)
  case (Retain g t)
  let ?e = "\<lparr>rg_generation = g, retained_at = t\<rparr>"
  let ?pos = "binary_search.insertion_index search (gen_high ?e) (map gen_high (retained h))"
  let ?rs = "take ?pos (retained h) @ ?e # drop ?pos (retained h)"
  have s: "sorted (map gen_high ?rs)"
    using binary_search.insertion_sorted [OF assms(1), of gen_high "retained h" ?e] assms(2) by (simp add: history_inv_def)
  have "set ?rs \<subseteq> insert ?e (set (retained h))" by (auto dest: in_set_takeD in_set_dropD)
  then have "set (prune_locked p t ?rs) \<subseteq> insert ?e (set (retained h))" using prune_locked_facts(3) by blast
  then show ?thesis using Retain assms(2) prune_locked_facts(1) [OF s] prune_locked_facts(2)
    by (auto simp: history_inv_def retain_def Let_def binary_search.insertion_index_def [OF assms(1)])
next
  case (Prune t)
  then show ?thesis using assms(2) prune_locked_facts
    by (auto simp: history_inv_def prune_def Let_def dest!: subsetD [OF prune_locked_facts(3)])
qed (use assms(2) in \<open>auto simp: history_inv_def clear_history_def\<close>)

lemma history_run_inv:
  assumes "binary_search search"
  shows "history_inv p (\<Union> (offered_by ` set ops)) (fold (history_step search) ops (new_history p))"
proof (induction ops rule: rev_induct)
  case (snoc op ops)
  then show ?case using history_step_inv [OF assms snoc, of op] by (simp add: Un_commute)
qed (simp add: history_inv_def new_history_def)

lemma find_sorted:
  assumes "sorted (map f xs)" "List.find P xs = Some x"
  shows "x \<in> set xs" "P x" "\<forall>y \<in> set xs. P y \<longrightarrow> f x \<le> f y"
proof -
  obtain i where i: "i < length xs" "P (xs ! i)" "\<forall>j < i. \<not> P (xs ! j)" "x = xs ! i"
    using assms(2) by (auto simp: find_Some_iff)
  show "x \<in> set xs" "P x" using i by auto
  show "\<forall>y \<in> set xs. P y \<longrightarrow> f x \<le> f y"
  proof (intro ballI impI)
    fix y assume "y \<in> set xs" "P y"
    then obtain j where "j < length xs" "xs ! j = y" "i \<le> j" using i(3) by (metis in_set_conv_nth not_le)
    then show "f x \<le> f y" using assms(1) i(4) by (auto simp: sorted_iff_nth_mono)
  qed
qed

text \<open>
  Time travel. After any retentions, prunings and clearings, whichever of equal keys the binary search finds,
  the history has no more generations than the policy allows and only ones that were retained, and a commit is answered
  by the covering generation whose range ends first, or by none if no kept generation covers it.
\<close>

theorem time_travel_answers:
  assumes "binary_search search" "h = fold (history_step search) ops (new_history p)"
  shows "retained_count h \<le> max_retained p
    \<and> (\<forall>r \<in> set (retained h). Retain (rg_generation r) (retained_at r) \<in> set ops)
    \<and> (case resolve h seq of
         None \<Rightarrow> \<forall>r \<in> set (retained h). \<not> covers r seq
       | Some g \<Rightarrow> \<exists>r \<in> set (retained h). rg_generation r = g \<and> covers r seq
           \<and> (\<forall>r' \<in> set (retained h). covers r' seq \<longrightarrow> gen_high r \<le> gen_high r'))"
proof -
  have h: "history_inv p (\<Union> (offered_by ` set ops)) h" using history_run_inv [OF assms(1)] by (simp add: assms(2))
  have "Retain g t \<in> set ops" if "(g, t) \<in> offered_by op" "op \<in> set ops" for g t op using that by (cases op) auto
  then have "\<forall>r \<in> set (retained h). Retain (rg_generation r) (retained_at r) \<in> set ops" using h by (auto simp: history_inv_def)
  moreover have "case resolve h seq of
         None \<Rightarrow> \<forall>r \<in> set (retained h). \<not> covers r seq
       | Some g \<Rightarrow> \<exists>r \<in> set (retained h). rg_generation r = g \<and> covers r seq
           \<and> (\<forall>r' \<in> set (retained h). covers r' seq \<longrightarrow> gen_high r \<le> gen_high r')"
  proof (cases "List.find (\<lambda>r. covers r seq) (retained h)")
    case None
    then have "\<forall>r \<in> set (retained h). \<not> covers r seq" by (simp add: find_None_iff)
    then show ?thesis using None by (simp add: resolve_def)
  next
    case (Some r)
    then show ?thesis using find_sorted [of gen_high "retained h", OF _ Some] h by (auto simp: resolve_def history_inv_def)
  qed
  ultimately show ?thesis using h by (auto simp: history_inv_def retained_count_def)
qed

text \<open>The answer for a commit that no generation covers names the nearest range.\<close>

lemma min_by_key_least: "min_by_key f xs = Some x \<Longrightarrow> x \<in> set xs \<and> (\<forall>y \<in> set xs. f x \<le> f y)"
proof (induction xs arbitrary: x)
  case (Cons a xs)
  show ?case
  proof (cases "min_by_key f xs")
    case None
    then have "xs = []" by (cases xs) (auto split: option.splits if_splits)
    then show ?thesis using Cons.prems by simp
  next
    case (Some y)
    then have "y \<in> set xs" "\<forall>z \<in> set xs. f y \<le> f z" using Cons.IH by blast+
    then show ?thesis using Cons.prems Some by (auto split: if_splits intro: order_trans)
  qed
qed simp

lemma nearest_range:
  "resolve_detailed h seq = NotFound n (Some (a, b)) \<Longrightarrow>
    n = seq \<and> (\<exists>r \<in> set (retained h). a = gen_low r \<and> b = gen_high r \<and> (\<forall>r' \<in> set (retained h). range_distance seq r \<le> range_distance seq r'))"
  by (auto simp: resolve_detailed_def split: option.splits dest: min_by_key_least)

text \<open>
  A full history drops what has the lowest range, not what was retained first: a generation whose range ends before all
  the kept ones is gone as soon as it is retained.
\<close>

lemma low_range_not_retained:
  assumes "binary_search search" "sorted (map gen_high (retained h))" "length (retained h) = max_retained (history_policy h)"
    "\<forall>r \<in> set (retained h). high (commit_range (ag_manifest g)) < gen_high r"
    "max_age_ms (history_policy h) = 0 \<or> (\<forall>r \<in> set (retained h). now - retained_at r \<le> max_age_ms (history_policy h))"
  shows "retain search g now h = h"
proof -
  let ?e = "\<lparr>rg_generation = g, retained_at = now\<rparr>"
  let ?pos = "binary_search.insertion_index search (gen_high ?e) (map gen_high (retained h))"
  have "take ?pos (retained h) = []"
  proof (rule ccontr)
    assume "take ?pos (retained h) \<noteq> []"
    then obtain r where "r \<in> set (take ?pos (retained h))" by (meson ex_in_conv set_empty)
    then have "gen_high r \<le> gen_high ?e" "r \<in> set (retained h)"
      using binary_search.insertion_index_splits(2) [OF assms(1,2), of "gen_high ?e"] by (auto simp: take_map dest: in_set_takeD)
    then show False using assms(4) by fastforce
  qed
  moreover from this have "drop ?pos (retained h) = retained h" by (metis append_self_conv2 append_take_drop_id)
  moreover have "filter (\<lambda>r. now - retained_at r \<le> max_age_ms (history_policy h)) (retained h) = retained h \<or> max_age_ms (history_policy h) = 0"
    using assms(5) by (auto simp: filter_id_conv)
  ultimately show ?thesis using assms(3)
    by (auto simp: retain_def Let_def prune_locked_def binary_search.insertion_index_def [OF assms(1)])
qed

definition sample_generation :: "nat \<Rightarrow> nat \<Rightarrow> ActiveGeneration" where
  "sample_generation a b =
     \<lparr>ag_manifest = sample_manifest\<lparr>commit_range := \<lparr>low = a, high = b\<rparr>\<rparr>, activation_seq = a, activated_at = 0, vector_paths = [], lexical_paths = []\<rparr>"

theorem time_travel_answers_witness:
  "retained_count (fold (history_step first_search) [Retain (sample_generation 4 6) 1, Retain (sample_generation 1 3) 2, Prune 3]
     (new_history \<lparr>max_retained = 1, max_age_ms = 0\<rparr>)) \<le> 1"
proof -
  let ?h = "fold (history_step first_search) [Retain (sample_generation 4 6) 1, Retain (sample_generation 1 3) 2, Prune 3]
     (new_history \<lparr>max_retained = 1, max_age_ms = 0\<rparr>)"
  have "retained_count ?h \<le> max_retained \<lparr>max_retained = 1, max_age_ms = 0\<rparr>"
    using time_travel_answers [OF first.binary_search_axioms refl] by blast
  then show ?thesis by (simp only: RetentionPolicy.select_convs)
qed

end
