(* ===== verification/Fs_Repair.thy ===== *)
theory Fs_Repair
  imports Fs_Generation
begin

text \<open>
  Repair of corrupted artifacts and the state of the service (\<open>frankensearch-core/src/repair.rs\<close>). A method is a single step, as for
  one thread that calls them. The provider of repairs is a parameter with a state of its own.
\<close>

section \<open>Types\<close>

datatype DetectionMethod = PeriodicScan | ReadTimeVerification | ChecksumMismatch | MissingSidecar

record CorruptionEvent =
  ce_artifact_path :: string
  detection_method :: DetectionMethod
  detected_at :: nat
  ce_detail :: string

datatype RepairOutcome =
    Success nat
  | InsufficientSymbols nat nat
  | SidecarMissing
  | SidecarCorrupted
  | RepairFailed string

fun is_success :: "RepairOutcome \<Rightarrow> bool" where
  "is_success (Success _) = True"
| "is_success _ = False"

record RepairAttempt =
  ra_artifact_path :: string
  started_at :: nat
  completed_at :: nat
  outcome :: RepairOutcome

record 'p RepairProvider =
  attempt_repair :: "string \<Rightarrow> RepairDescriptor \<Rightarrow> nat \<Rightarrow> 'p \<Rightarrow> RepairAttempt \<times> 'p"
  verify_after_repair :: "string \<Rightarrow> string \<Rightarrow> 'p \<Rightarrow> bool"

datatype DegradedReason =
    UnrepairableCorruption "string list"
  | ExcessiveCorruptionRate nat nat
  | ActivationFailure string

datatype ServiceState =
    Healthy
  | Degraded nat DegradedReason
  | Suspended nat string

definition is_healthy :: "ServiceState \<Rightarrow> bool" where
  "is_healthy s = (case s of Healthy \<Rightarrow> True | _ \<Rightarrow> False)"

definition is_suspended :: "ServiceState \<Rightarrow> bool" where
  "is_suspended s = (case s of Suspended _ _ \<Rightarrow> True | _ \<Rightarrow> False)"

record CorruptionPolicy =
  max_corrupted_artifacts :: nat
  max_repair_attempts_per_artifact :: nat
  suspension_threshold :: nat
  cooldown_after_suspension_ms :: nat

definition default_corruption_policy :: CorruptionPolicy where
  "default_corruption_policy =
     \<lparr>max_corrupted_artifacts = 3, max_repair_attempts_per_artifact = 3, suspension_threshold = 5, cooldown_after_suspension_ms = 60000\<rparr>"

record RepairOrchestrator =
  service :: ServiceState
  corruption_log :: "CorruptionEvent list"
  repair_history :: "RepairAttempt list"
  repair_policy :: CorruptionPolicy

section \<open>Operations\<close>

definition new_orchestrator :: "CorruptionPolicy \<Rightarrow> RepairOrchestrator" where
  "new_orchestrator p = \<lparr>service = Healthy, corruption_log = [], repair_history = [], repair_policy = p\<rparr>"

definition default_orchestrator :: RepairOrchestrator where
  "default_orchestrator = new_orchestrator default_corruption_policy"

text \<open>The entry of a hash map becomes the larger of its value and the new one.\<close>

definition raise_entry :: "string \<Rightarrow> nat \<Rightarrow> (string, nat) hmap \<Rightarrow> (string, nat) hmap" where
  "raise_entry k t m = hinsert k (case hget m k of Some latest \<Rightarrow> max latest t | None \<Rightarrow> t) m"

definition unrepaired_artifacts :: "CorruptionEvent list \<Rightarrow> RepairAttempt list \<Rightarrow> string set" where
  "unrepaired_artifacts events history =
     (let latest_corruption_by_path = fold (\<lambda>e. raise_entry (ce_artifact_path e) (detected_at e)) events [];
          latest_success_by_path = fold (\<lambda>a m. if is_success (outcome a) then raise_entry (ra_artifact_path a) (completed_at a) m else m) history []
      in fst ` {(path, t) \<in> set latest_corruption_by_path. (case hget latest_success_by_path path of Some s \<Rightarrow> s | None \<Rightarrow> 0) < t})"

definition unrepaired :: "RepairOrchestrator \<Rightarrow> string set" where
  "unrepaired orc = unrepaired_artifacts (corruption_log orc) (repair_history orc)"

definition unrepaired_artifact_count :: "RepairOrchestrator \<Rightarrow> nat" where
  "unrepaired_artifact_count orc = card (unrepaired orc)"

definition corrupted_artifact_paths :: "RepairOrchestrator \<Rightarrow> string list" where
  "corrupted_artifact_paths orc = sorted_list_of_set (unrepaired orc)"

definition suspension_reason :: "CorruptionPolicy \<Rightarrow> nat \<Rightarrow> string" where
  "suspension_reason p n = show_nat n @ '' unrepaired artifacts exceed suspension threshold ('' @ show_nat (suspension_threshold p) @ '')''"

definition report_corruption :: "CorruptionEvent \<Rightarrow> RepairOrchestrator \<Rightarrow> RepairOrchestrator" where
  "report_corruption e orc =
     (let orc = orc\<lparr>corruption_log := corruption_log orc @ [e]\<rparr>; p = repair_policy orc; n = unrepaired_artifact_count orc in
      if suspension_threshold p \<le> n then
        (if \<not> is_suspended (service orc) then orc\<lparr>service := Suspended (detected_at e) (suspension_reason p n)\<rparr> else orc)
      else if max_corrupted_artifacts p \<le> n then
        (if is_healthy (service orc) then
           orc\<lparr>service := Degraded (detected_at e) (ExcessiveCorruptionRate n (max_corrupted_artifacts p))\<rparr>
         else orc)
      else orc)"

text \<open>A count that does not fit 32 bits becomes the largest value.\<close>

definition u32_or_max :: "nat \<Rightarrow> nat" where
  "u32_or_max n = (if int n < 4294967296 then n else 2 ^ 32 - 1)"

definition attempt_count_since_last_success :: "string \<Rightarrow> RepairAttempt list \<Rightarrow> nat" where
  "attempt_count_since_last_success path history =
     (let latest_success = fold max (map completed_at (filter (\<lambda>a. ra_artifact_path a = path \<and> is_success (outcome a)) history)) 0
      in u32_or_max (length (filter (\<lambda>a. ra_artifact_path a = path \<and> latest_success < started_at a) history)))"

definition record_attempt :: "RepairAttempt \<Rightarrow> RepairOrchestrator \<Rightarrow> RepairOrchestrator" where
  "record_attempt a orc = orc\<lparr>repair_history := repair_history orc @ [a]\<rparr>"

definition reevaluate_state :: "nat \<Rightarrow> RepairOrchestrator \<Rightarrow> RepairOrchestrator" where
  "reevaluate_state now_millis orc =
     (let n = unrepaired_artifact_count orc; p = repair_policy orc in
      if n = 0 then
        (case service orc of
           Healthy \<Rightarrow> orc
         | Degraded _ _ \<Rightarrow> orc\<lparr>service := Healthy\<rparr>
         | Suspended entered_at _ \<Rightarrow> if cooldown_after_suspension_ms p \<le> now_millis - entered_at then orc\<lparr>service := Healthy\<rparr> else orc)
      else if suspension_threshold p \<le> n then
        (if \<not> is_suspended (service orc) then orc\<lparr>service := Suspended now_millis (suspension_reason p n)\<rparr> else orc)
      else if max_corrupted_artifacts p \<le> n \<and> is_healthy (service orc) then
        orc\<lparr>service := Degraded now_millis (UnrepairableCorruption (corrupted_artifact_paths orc))\<rparr>
      else orc)"

text \<open>The loop of a repair cycle over the paths.\<close>

fun repair_paths ::
  "GenerationManifest \<Rightarrow> 'p RepairProvider \<Rightarrow> nat \<Rightarrow> string list \<Rightarrow> RepairOrchestrator \<times> 'p \<Rightarrow> RepairAttempt list \<times> RepairOrchestrator \<times> 'p" where
  "repair_paths m provider now_millis [] s = ([], s)"
| "repair_paths m provider now_millis (path # paths) (orc, p) =
     (if max_repair_attempts_per_artifact (repair_policy orc) \<le> attempt_count_since_last_success path (repair_history orc) then
        repair_paths m provider now_millis paths (orc, p)
      else
        case (case List.find (\<lambda>rd. protected_artifact rd = path) (repair_descriptors m) of
                None \<Rightarrow> (\<lparr>ra_artifact_path = path, started_at = now_millis, completed_at = now_millis, outcome = SidecarMissing\<rparr>, p)
              | Some rd \<Rightarrow> attempt_repair provider path rd now_millis p) of
          (a, p') \<Rightarrow>
            (case repair_paths m provider now_millis paths (record_attempt a orc, p') of (attempts, s) \<Rightarrow> (a # attempts, s)))"

definition run_repair_cycle ::
  "GenerationManifest \<Rightarrow> 'p RepairProvider \<Rightarrow> nat \<Rightarrow> RepairOrchestrator \<times> 'p \<Rightarrow> RepairAttempt list \<times> RepairOrchestrator \<times> 'p" where
  "run_repair_cycle m provider now_millis s =
     (case repair_paths m provider now_millis (corrupted_artifact_paths (fst s)) s of
        (attempts, orc, p) \<Rightarrow> (attempts, reevaluate_state now_millis orc, p))"

definition enter_degraded :: "DegradedReason \<Rightarrow> nat \<Rightarrow> RepairOrchestrator \<Rightarrow> RepairOrchestrator" where
  "enter_degraded r now_millis orc = orc\<lparr>service := Degraded now_millis r\<rparr>"

definition suspend :: "string \<Rightarrow> nat \<Rightarrow> RepairOrchestrator \<Rightarrow> RepairOrchestrator" where
  "suspend r now_millis orc = orc\<lparr>service := Suspended now_millis r\<rparr>"

definition try_recover :: "nat \<Rightarrow> RepairOrchestrator \<Rightarrow> bool \<times> RepairOrchestrator" where
  "try_recover now_millis orc =
     (if 0 < unrepaired_artifact_count orc then (False, orc)
      else
        case service orc of
          Healthy \<Rightarrow> (True, orc)
        | Degraded _ _ \<Rightarrow> (True, orc\<lparr>service := Healthy\<rparr>)
        | Suspended entered_at _ \<Rightarrow>
            if cooldown_after_suspension_ms (repair_policy orc) \<le> now_millis - entered_at then (True, orc\<lparr>service := Healthy\<rparr>)
            else (False, orc))"

definition reset_orchestrator :: "RepairOrchestrator \<Rightarrow> RepairOrchestrator" where
  "reset_orchestrator orc = orc\<lparr>service := Healthy, corruption_log := [], repair_history := []\<rparr>"

section \<open>What is unrepaired\<close>

lemma raise_entry_get: "hget (raise_entry k t m) = (hget m)(k \<mapsto> (case hget m k of Some l \<Rightarrow> max l t | None \<Rightarrow> t))"
  by (simp add: raise_entry_def)

lemma raised_distinct: "hdistinct m \<Longrightarrow> hdistinct (fold (\<lambda>x. raise_entry (f x) (g x)) xs m)"
  by (induction xs arbitrary: m) (simp_all add: raise_entry_def)

text \<open>The value of a key is the largest of its times.\<close>

lemma raised_less:
  "(case hget (fold (\<lambda>x. raise_entry (f x) (g x)) xs []) k of Some v \<Rightarrow> v | None \<Rightarrow> 0) < t \<longleftrightarrow> 0 < t \<and> (\<forall>x \<in> set xs. f x = k \<longrightarrow> g x < t)"
proof -
  have "(case hget (fold (\<lambda>x. raise_entry (f x) (g x)) xs m) k of Some v \<Rightarrow> v | None \<Rightarrow> 0) < t
    \<longleftrightarrow> (case hget m k of Some v \<Rightarrow> v | None \<Rightarrow> 0) < t \<and> (\<forall>x \<in> set xs. f x = k \<longrightarrow> g x < t)" for m
    by (induction xs arbitrary: m) (auto simp: raise_entry_get split: option.splits)
  from this [of "[]"] show ?thesis by simp
qed

lemma raised_dom: "hget (fold (\<lambda>x. raise_entry (f x) (g x)) xs []) k = None \<longleftrightarrow> k \<notin> f ` set xs"
proof -
  have "hget (fold (\<lambda>x. raise_entry (f x) (g x)) xs m) k = None \<longleftrightarrow> hget m k = None \<and> k \<notin> f ` set xs" for m
    by (induction xs arbitrary: m) (auto simp: raise_entry_get)
  from this [of "[]"] show ?thesis by simp
qed

lemma fold_if_filter: "fold (\<lambda>x m. if P x then h x m else m) xs m = fold h (filter P xs) m"
  by (induction xs arbitrary: m) simp_all

text \<open>An artifact is unrepaired when some corruption of it was detected after every repair that succeeded.\<close>

lemma unrepaired_iff:
  "path \<in> unrepaired orc \<longleftrightarrow> (\<exists>e \<in> set (corruption_log orc). ce_artifact_path e = path \<and> 0 < detected_at e
     \<and> (\<forall>a \<in> set (repair_history orc). is_success (outcome a) \<and> ra_artifact_path a = path \<longrightarrow> completed_at a < detected_at e))"
proof -
  let ?c = "fold (\<lambda>e. raise_entry (ce_artifact_path e) (detected_at e)) (corruption_log orc) []"
  let ?s = "fold (\<lambda>a. raise_entry (ra_artifact_path a) (completed_at a)) (filter (\<lambda>a. is_success (outcome a)) (repair_history orc)) []"
  define s where "s = (case hget ?s path of Some v \<Rightarrow> v | None \<Rightarrow> 0)"
  have c: "hdistinct ?c" by (rule raised_distinct) simp
  have "path \<in> unrepaired orc \<longleftrightarrow> (\<exists>t. (path, t) \<in> set ?c \<and> s < t)"
    by (force simp: unrepaired_def unrepaired_artifacts_def Let_def fold_if_filter s_def)
  also have "\<dots> \<longleftrightarrow> (\<exists>t. hget ?c path = Some t \<and> s < t)"
    by (simp only: map_of_eq_Some_iff [OF c])
  also have "\<dots> \<longleftrightarrow> (\<exists>e \<in> set (corruption_log orc). ce_artifact_path e = path \<and> s < detected_at e)"
  proof -
    have "(case hget ?c path of Some v \<Rightarrow> v | None \<Rightarrow> 0) < Suc s \<longleftrightarrow> (\<forall>e \<in> set (corruption_log orc). ce_artifact_path e = path \<longrightarrow> detected_at e < Suc s)"
      using raised_less [of ce_artifact_path detected_at "corruption_log orc" path "Suc s"] by simp
    then show ?thesis by (auto simp: not_le less_Suc_eq_le split: option.splits)
  qed
  finally have "path \<in> unrepaired orc \<longleftrightarrow> (\<exists>e \<in> set (corruption_log orc). ce_artifact_path e = path \<and> s < detected_at e)" .
  moreover have "s < t \<longleftrightarrow> 0 < t \<and> (\<forall>a \<in> set (repair_history orc). is_success (outcome a) \<and> ra_artifact_path a = path \<longrightarrow> completed_at a < t)" for t
    unfolding s_def raised_less by auto
  ultimately show ?thesis by simp
qed

lemma unrepaired_finite [simp]: "finite (unrepaired orc)"
  by (rule finite_subset [of _ "ce_artifact_path ` set (corruption_log orc)"]) (auto simp: unrepaired_iff)

lemma unrepaired_cong:
  "corruption_log orc = corruption_log orc' \<Longrightarrow> repair_history orc = repair_history orc' \<Longrightarrow> unrepaired orc = unrepaired orc'"
  by (simp add: unrepaired_def)

lemma unrepaired_service [simp]: "unrepaired (orc\<lparr>service := s\<rparr>) = unrepaired orc"
  by (rule unrepaired_cong) simp_all

lemma count_service [simp]: "unrepaired_artifact_count (orc\<lparr>service := s\<rparr>) = unrepaired_artifact_count orc"
  by (simp add: unrepaired_artifact_count_def)

section \<open>The state of the service\<close>

datatype 'p repair_op =
    Report CorruptionEvent
  | Cycle GenerationManifest "'p RepairProvider" nat
  | EnterDegraded DegradedReason nat
  | Suspend string nat
  | Recover nat
  | Reset

fun repair_step :: "'p repair_op \<Rightarrow> RepairOrchestrator \<times> 'p \<Rightarrow> RepairOrchestrator \<times> 'p" where
  "repair_step (Report e) (orc, p) = (report_corruption e orc, p)"
| "repair_step (Cycle m provider now_millis) (orc, p) = snd (run_repair_cycle m provider now_millis (orc, p))"
| "repair_step (EnterDegraded r now_millis) (orc, p) = (enter_degraded r now_millis orc, p)"
| "repair_step (Suspend r now_millis) (orc, p) = (suspend r now_millis orc, p)"
| "repair_step (Recover now_millis) (orc, p) = (snd (try_recover now_millis orc), p)"
| "repair_step Reset (orc, p) = (reset_orchestrator orc, p)"

lemma state_simps [simp]: "is_healthy Healthy" "\<not> is_healthy (Degraded t r)" "\<not> is_healthy (Suspended t q)"
  "\<not> is_suspended Healthy" "\<not> is_suspended (Degraded t r)" "is_suspended (Suspended t q)"
  by (simp_all add: is_healthy_def is_suspended_def)

lemma suspended_not_healthy: "is_suspended s \<Longrightarrow> \<not> is_healthy s"
  by (cases s) simp_all

lemma repair_paths_keeps:
  "repair_paths m provider now paths s = (attempts, orc, p) \<Longrightarrow>
    repair_history orc = repair_history (fst s) @ attempts \<and> corruption_log orc = corruption_log (fst s)
    \<and> service orc = service (fst s) \<and> repair_policy orc = repair_policy (fst s)"
proof (induction m provider now paths s arbitrary: attempts rule: repair_paths.induct)
  case (2 m provider now path paths orc0 p0)
  then show ?case
    by (fastforce simp: record_attempt_def split: if_splits prod.splits option.splits)
qed auto

lemma reevaluate_keeps: "repair_history (reevaluate_state now orc) = repair_history orc" "corruption_log (reevaluate_state now orc) = corruption_log orc"
  "repair_policy (reevaluate_state now orc) = repair_policy orc"
  by (auto simp: reevaluate_state_def Let_def split: ServiceState.split)

definition service_ok :: "bool \<Rightarrow> RepairOrchestrator \<Rightarrow> bool" where
  "service_ok automatic orc \<longleftrightarrow>
     (max_corrupted_artifacts (repair_policy orc) \<le> unrepaired_artifact_count orc \<longrightarrow> \<not> is_healthy (service orc))
     \<and> (automatic \<and> suspension_threshold (repair_policy orc) \<le> unrepaired_artifact_count orc \<longrightarrow> is_suspended (service orc))"

abbreviation thresholds_positive :: "CorruptionPolicy \<Rightarrow> bool" where
  "thresholds_positive p \<equiv> 0 < max_corrupted_artifacts p \<and> 0 < suspension_threshold p"


lemma report_ok: "service_ok automatic (report_corruption e orc)"
  by (auto simp: service_ok_def report_corruption_def Let_def suspended_not_healthy)

lemma reevaluate_ok: "thresholds_positive (repair_policy orc) \<Longrightarrow> service_ok automatic (reevaluate_state now orc)"
  by (auto simp: service_ok_def reevaluate_state_def Let_def suspended_not_healthy split: ServiceState.split)

lemma recover_ok:
  "service_ok automatic orc \<Longrightarrow> thresholds_positive (repair_policy orc) \<Longrightarrow> service_ok automatic (snd (try_recover now orc))"
  by (auto simp: service_ok_def try_recover_def split: ServiceState.split)

lemma unrepaired_no_log: "corruption_log orc = [] \<Longrightarrow> unrepaired_artifact_count orc = 0"
  by (simp add: unrepaired_artifact_count_def unrepaired_def unrepaired_artifacts_def)

fun manual :: "'p repair_op \<Rightarrow> bool" where
  "manual (EnterDegraded _ _) = True"
| "manual (Suspend _ _) = True"
| "manual _ = False"

lemma repair_step_policy: "repair_policy (fst (repair_step op s)) = repair_policy (fst s)"
proof (cases s)
  case (Pair orc p)
  show ?thesis
  proof (cases op)
    case (Cycle m provider now)
    obtain attempts orc' p' where r: "repair_paths m provider now (corrupted_artifact_paths orc) (orc, p) = (attempts, orc', p')" by (metis prod.exhaust)
    then show ?thesis using Cycle Pair repair_paths_keeps [OF r] by (simp add: run_repair_cycle_def reevaluate_keeps)
  qed (auto simp: Pair report_corruption_def enter_degraded_def suspend_def try_recover_def reset_orchestrator_def Let_def split: ServiceState.split)
qed

lemma repair_step_ok:
  assumes "service_ok automatic (fst s)" "thresholds_positive (repair_policy (fst s))" "automatic \<Longrightarrow> \<not> manual op"
  shows "service_ok automatic (fst (repair_step op s))"
proof (cases s)
  case (Pair orc p)
  show ?thesis
  proof (cases op)
    case (Cycle m provider now)
    obtain attempts orc' p' where r: "repair_paths m provider now (corrupted_artifact_paths orc) (orc, p) = (attempts, orc', p')" by (metis prod.exhaust)
    then have "thresholds_positive (repair_policy orc')" using repair_paths_keeps [OF r] assms(2) Pair by simp
    then show ?thesis using Cycle Pair r reevaluate_ok by (simp add: run_repair_cycle_def)
  next
    case (Suspend r now)
    then show ?thesis using Pair by (simp add: service_ok_def suspend_def)
  next
    case (EnterDegraded r now)
    then have "\<not> automatic" using assms(3) by auto
    then show ?thesis using EnterDegraded Pair by (simp add: service_ok_def enter_degraded_def)
  next
    case Reset
    then show ?thesis using assms(2) Pair by (simp add: service_ok_def reset_orchestrator_def unrepaired_no_log)
  qed (use assms Pair report_ok recover_ok in auto)
qed

lemma repair_run:
  assumes "thresholds_positive p" "automatic \<Longrightarrow> (\<forall>op \<in> set ops. \<not> manual op)"
  shows "service_ok automatic (fst (fold repair_step ops (new_orchestrator p, s0))) \<and> repair_policy (fst (fold repair_step ops (new_orchestrator p, s0))) = p"
  using assms(2)
proof (induction ops rule: rev_induct)
  case Nil
  then show ?case using assms(1) by (simp add: service_ok_def new_orchestrator_def unrepaired_no_log)
next
  case (snoc op ops)
  then show ?case using repair_step_ok [of automatic "fold repair_step ops (new_orchestrator p, s0)" op] assms(1) by (simp add: repair_step_policy)
qed

text \<open>How a single step by itself changes the service: it leaves the healthy state only for damage, and returns to it only without any.\<close>

lemma reevaluate_cause:
  "\<not> is_healthy (service (reevaluate_state now orc)) \<Longrightarrow> is_healthy (service orc)
     \<Longrightarrow> min (max_corrupted_artifacts (repair_policy orc)) (suspension_threshold (repair_policy orc)) \<le> unrepaired_artifact_count orc"
  "is_suspended (service (reevaluate_state now orc)) \<Longrightarrow> \<not> is_suspended (service orc)
     \<Longrightarrow> suspension_threshold (repair_policy orc) \<le> unrepaired_artifact_count orc"
  "is_healthy (service (reevaluate_state now orc)) \<Longrightarrow> \<not> is_healthy (service orc) \<Longrightarrow> unrepaired_artifact_count orc = 0"
  by (auto simp: reevaluate_state_def Let_def split: ServiceState.splits if_splits)

lemma report_cause:
  "\<not> is_healthy (service (report_corruption e orc)) \<Longrightarrow> is_healthy (service orc)
     \<Longrightarrow> min (max_corrupted_artifacts (repair_policy orc)) (suspension_threshold (repair_policy orc)) \<le> unrepaired_artifact_count (report_corruption e orc)"
  "is_suspended (service (report_corruption e orc)) \<Longrightarrow> \<not> is_suspended (service orc)
     \<Longrightarrow> suspension_threshold (repair_policy orc) \<le> unrepaired_artifact_count (report_corruption e orc)"
  "is_healthy (service (report_corruption e orc)) \<Longrightarrow> is_healthy (service orc)"
  by (auto simp: report_corruption_def Let_def split: if_splits)

lemma reevaluate_damage: "unrepaired_artifact_count (reevaluate_state now orc) = unrepaired_artifact_count orc"
  unfolding unrepaired_artifact_count_def by (rule arg_cong [of _ _ card], rule unrepaired_cong) (simp_all add: reevaluate_keeps)

lemma repair_step_cause:
  fixes op :: "'p repair_op"
  defines "orc' \<equiv> \<lambda>s. fst (repair_step op s)"
  shows "\<not> manual op \<Longrightarrow> \<not> is_healthy (service (orc' s)) \<Longrightarrow> is_healthy (service (fst s))
      \<Longrightarrow> min (max_corrupted_artifacts (repair_policy (fst s))) (suspension_threshold (repair_policy (fst s))) \<le> unrepaired_artifact_count (orc' s)"
    and "\<not> manual op \<Longrightarrow> is_suspended (service (orc' s)) \<Longrightarrow> \<not> is_suspended (service (fst s))
      \<Longrightarrow> suspension_threshold (repair_policy (fst s)) \<le> unrepaired_artifact_count (orc' s)"
    and "is_healthy (service (orc' s)) \<Longrightarrow> \<not> is_healthy (service (fst s)) \<Longrightarrow> unrepaired_artifact_count (orc' s) = 0"
proof -
  obtain orc p where s: "s = (orc, p)" by (cases s)
  have "(\<not> manual op \<longrightarrow> \<not> is_healthy (service (orc' s)) \<longrightarrow> is_healthy (service orc)
        \<longrightarrow> min (max_corrupted_artifacts (repair_policy orc)) (suspension_threshold (repair_policy orc)) \<le> unrepaired_artifact_count (orc' s))
      \<and> (\<not> manual op \<longrightarrow> is_suspended (service (orc' s)) \<longrightarrow> \<not> is_suspended (service orc)
        \<longrightarrow> suspension_threshold (repair_policy orc) \<le> unrepaired_artifact_count (orc' s))
      \<and> (is_healthy (service (orc' s)) \<longrightarrow> \<not> is_healthy (service orc) \<longrightarrow> unrepaired_artifact_count (orc' s) = 0)"
  proof (cases op)
    case (Report e)
    then show ?thesis using report_cause [of e orc] by (auto simp: orc'_def s)
  next
    case (Cycle m provider now)
    obtain attempts orc1 p' where r: "repair_paths m provider now (corrupted_artifact_paths orc) (orc, p) = (attempts, orc1, p')" by (metis prod.exhaust)
    then have "orc' s = reevaluate_state now orc1" "service orc1 = service orc" "repair_policy orc1 = repair_policy orc"
      using Cycle repair_paths_keeps [OF r] by (simp_all add: orc'_def s run_repair_cycle_def)
    then show ?thesis using reevaluate_cause [of now orc1] by (auto simp: reevaluate_damage)
  next
    case (Recover now)
    then show ?thesis by (auto simp: orc'_def s try_recover_def split: ServiceState.splits)
  qed (auto simp: orc'_def s enter_degraded_def suspend_def reset_orchestrator_def unrepaired_no_log)
  then show "\<not> manual op \<Longrightarrow> \<not> is_healthy (service (orc' s)) \<Longrightarrow> is_healthy (service (fst s))
      \<Longrightarrow> min (max_corrupted_artifacts (repair_policy (fst s))) (suspension_threshold (repair_policy (fst s))) \<le> unrepaired_artifact_count (orc' s)"
    and "\<not> manual op \<Longrightarrow> is_suspended (service (orc' s)) \<Longrightarrow> \<not> is_suspended (service (fst s))
      \<Longrightarrow> suspension_threshold (repair_policy (fst s)) \<le> unrepaired_artifact_count (orc' s)"
    and "is_healthy (service (orc' s)) \<Longrightarrow> \<not> is_healthy (service (fst s)) \<Longrightarrow> unrepaired_artifact_count (orc' s) = 0"
    by (simp_all add: s)
qed

text \<open>The state after the first operations of a run, and that a condition holds from some moment of the run up to its end.\<close>

definition state_after :: "CorruptionPolicy \<Rightarrow> 'p \<Rightarrow> 'p repair_op list \<Rightarrow> nat \<Rightarrow> RepairOrchestrator" where
  "state_after p s0 ops k = fst (fold repair_step (take k ops) (new_orchestrator p, s0))"

lemma state_after_Suc:
  assumes "k < length ops"
  shows "\<exists>s. state_after p s0 ops k = fst s \<and> state_after p s0 ops (Suc k) = fst (repair_step (ops ! k) s)"
  by (rule exI [of _ "fold repair_step (take k ops) (new_orchestrator p, s0)"]) (simp add: state_after_def take_Suc_conv_app_nth [OF assms])

lemma state_after_policy: "repair_policy (state_after p s0 ops k) = p"
proof -
  have "repair_policy (fst (fold repair_step xs s)) = repair_policy (fst s)" for xs and s :: "RepairOrchestrator \<times> 'a"
    by (induction xs arbitrary: s) (simp_all add: repair_step_policy)
  then show ?thesis by (simp add: state_after_def new_orchestrator_def)
qed

lemma since_when:
  assumes "\<not> P (0 :: nat)" "P n" "\<And>k. k < n \<Longrightarrow> P (Suc k) \<Longrightarrow> \<not> P k \<Longrightarrow> Q (Suc k)"
  shows "\<exists>k \<le> n. Q k \<and> (\<forall>j. k \<le> j \<and> j \<le> n \<longrightarrow> P j)"
  using assms(2,3)
proof (induction n)
  case 0
  then show ?case using assms(1) by blast
next
  case (Suc n)
  show ?case
  proof (cases "P n")
    case True
    then obtain k where "k \<le> n" "Q k" "\<forall>j. k \<le> j \<and> j \<le> n \<longrightarrow> P j" using Suc by auto
    then show ?thesis using Suc.prems(1) by (intro exI [of _ k]) (auto simp: le_Suc_eq)
  next
    case False
    then show ?thesis using Suc.prems by (intro exI [of _ "Suc n"]) (auto dest: le_antisym)
  qed
qed

text \<open>
  C23: the state of the service follows the damage, the number of artifacts that are corrupted and not repaired, for a policy
  with positive thresholds and methods that run one after the other. The service is not healthy while the damage is as large as the
  policy allows, and it is suspended while the damage reaches the threshold of suspension, if nobody enters degraded
  mode or suspends by hand. Without such a call it also leaves the healthy state only for a reason: if it is
  not healthy, there was a moment when the damage had reached the smaller threshold and since which it has not been healthy, and if it is
  suspended, one when the damage had reached the threshold of suspension and since which it has been suspended. And
  whenever it becomes healthy again there is no damage.
\<close>

theorem service_reflects_damage:
  fixes ops :: "'p repair_op list" and s0 :: 'p
  assumes "thresholds_positive p"
  defines "st \<equiv> state_after p s0 ops" and "n \<equiv> length ops"
  shows "(max_corrupted_artifacts p \<le> unrepaired_artifact_count (st n) \<longrightarrow> \<not> is_healthy (service (st n)))
    \<and> (list_all (\<lambda>op. \<not> manual op) ops \<longrightarrow>
        (suspension_threshold p \<le> unrepaired_artifact_count (st n) \<longrightarrow> is_suspended (service (st n)))
      \<and> (\<not> is_healthy (service (st n)) \<longrightarrow> (\<exists>k \<le> n. min (max_corrupted_artifacts p) (suspension_threshold p) \<le> unrepaired_artifact_count (st k)
            \<and> (\<forall>j. k \<le> j \<and> j \<le> n \<longrightarrow> \<not> is_healthy (service (st j)))))
      \<and> (is_suspended (service (st n)) \<longrightarrow> (\<exists>k \<le> n. suspension_threshold p \<le> unrepaired_artifact_count (st k)
            \<and> (\<forall>j. k \<le> j \<and> j \<le> n \<longrightarrow> is_suspended (service (st j))))))
    \<and> (\<forall>k < n. \<not> is_healthy (service (st k)) \<and> is_healthy (service (st (Suc k))) \<longrightarrow> unrepaired_artifact_count (st (Suc k)) = 0)"
proof -
  have last: "st n = fst (fold repair_step ops (new_orchestrator p, s0))" by (simp add: st_def n_def state_after_def)
  have first: "service (st 0) = Healthy" by (simp add: st_def state_after_def new_orchestrator_def)
  have cause: "\<not> manual (ops ! k) \<longrightarrow> \<not> is_healthy (service (st (Suc k))) \<longrightarrow> is_healthy (service (st k))
        \<longrightarrow> min (max_corrupted_artifacts p) (suspension_threshold p) \<le> unrepaired_artifact_count (st (Suc k))"
    "\<not> manual (ops ! k) \<longrightarrow> is_suspended (service (st (Suc k))) \<longrightarrow> \<not> is_suspended (service (st k))
        \<longrightarrow> suspension_threshold p \<le> unrepaired_artifact_count (st (Suc k))"
    "is_healthy (service (st (Suc k))) \<longrightarrow> \<not> is_healthy (service (st k)) \<longrightarrow> unrepaired_artifact_count (st (Suc k)) = 0" if k: "k < n" for k
  proof -
    obtain s where s: "st k = fst s" "st (Suc k) = fst (repair_step (ops ! k) s)" "repair_policy (fst s) = p"
      using state_after_Suc [of k ops p s0] state_after_policy [of p s0 ops k] k unfolding st_def n_def by metis
    show "\<not> manual (ops ! k) \<longrightarrow> \<not> is_healthy (service (st (Suc k))) \<longrightarrow> is_healthy (service (st k))
        \<longrightarrow> min (max_corrupted_artifacts p) (suspension_threshold p) \<le> unrepaired_artifact_count (st (Suc k))"
      "\<not> manual (ops ! k) \<longrightarrow> is_suspended (service (st (Suc k))) \<longrightarrow> \<not> is_suspended (service (st k))
        \<longrightarrow> suspension_threshold p \<le> unrepaired_artifact_count (st (Suc k))"
      "is_healthy (service (st (Suc k))) \<longrightarrow> \<not> is_healthy (service (st k)) \<longrightarrow> unrepaired_artifact_count (st (Suc k)) = 0"
      using repair_step_cause [of "ops ! k" s] s by simp_all
  qed
  have now: "max_corrupted_artifacts p \<le> unrepaired_artifact_count (st n) \<longrightarrow> \<not> is_healthy (service (st n))"
    using repair_run [OF assms(1), of False ops s0] by (auto simp: service_ok_def last)
  have auto: "(suspension_threshold p \<le> unrepaired_artifact_count (st n) \<longrightarrow> is_suspended (service (st n)))
      \<and> (\<not> is_healthy (service (st n)) \<longrightarrow> (\<exists>k \<le> n. min (max_corrupted_artifacts p) (suspension_threshold p) \<le> unrepaired_artifact_count (st k)
            \<and> (\<forall>j. k \<le> j \<and> j \<le> n \<longrightarrow> \<not> is_healthy (service (st j)))))
      \<and> (is_suspended (service (st n)) \<longrightarrow> (\<exists>k \<le> n. suspension_threshold p \<le> unrepaired_artifact_count (st k)
            \<and> (\<forall>j. k \<le> j \<and> j \<le> n \<longrightarrow> is_suspended (service (st j)))))" if "list_all (\<lambda>op. \<not> manual op) ops"
  proof (intro conjI impI)
    have quiet: "\<not> manual (ops ! k)" if "k < n" for k using \<open>list_all _ ops\<close> that by (simp add: list_all_length n_def)
    show "is_suspended (service (st n))" if "suspension_threshold p \<le> unrepaired_artifact_count (st n)"
      using repair_run [OF assms(1), of True ops s0] \<open>list_all _ ops\<close> that by (auto simp: service_ok_def last list_all_iff)
    show "\<exists>k \<le> n. min (max_corrupted_artifacts p) (suspension_threshold p) \<le> unrepaired_artifact_count (st k)
        \<and> (\<forall>j. k \<le> j \<and> j \<le> n \<longrightarrow> \<not> is_healthy (service (st j)))" if "\<not> is_healthy (service (st n))"
      by (rule since_when) (use that first cause(1) quiet in auto)
    show "\<exists>k \<le> n. suspension_threshold p \<le> unrepaired_artifact_count (st k) \<and> (\<forall>j. k \<le> j \<and> j \<le> n \<longrightarrow> is_suspended (service (st j)))"
      if "is_suspended (service (st n))"
      by (rule since_when) (use that first cause(2) quiet in auto)
  qed
  show ?thesis using now auto cause(3) by blast
qed

section \<open>The budget of repairs\<close>

text \<open>A provider reports each attempt for the artifact it was asked about.\<close>

definition honest :: "'p RepairProvider \<Rightarrow> bool" where
  "honest provider \<longleftrightarrow> (\<forall>path rd now p. ra_artifact_path (fst (attempt_repair provider path rd now p)) = path)"

lemma fold_max_mono: "m \<le> n \<Longrightarrow> fold max xs (m::nat) \<le> fold max xs n"
  by (induction xs arbitrary: m n) auto

lemma fold_max_append: "fold max xs (0::nat) \<le> fold max (xs @ ys) 0"
proof -
  have "m \<le> fold max ys m" for m :: nat by (induction ys arbitrary: m) (auto intro: order_trans [OF max.cobounded2])
  then show ?thesis by simp
qed

lemma attempts_other: "ra_artifact_path a \<noteq> path \<Longrightarrow> attempt_count_since_last_success path (history @ [a]) = attempt_count_since_last_success path history"
  by (simp add: attempt_count_since_last_success_def)

lemma u32_or_max_Suc: "m \<le> n + 1 \<Longrightarrow> u32_or_max m \<le> u32_or_max n + 1"
  by (simp add: u32_or_max_def)

lemma attempts_one_more: "attempt_count_since_last_success path (history @ [a]) \<le> attempt_count_since_last_success path history + 1"
proof -
  let ?done = "\<lambda>h. fold max (map completed_at (filter (\<lambda>a. ra_artifact_path a = path \<and> is_success (outcome a)) h)) 0"
  let ?n = "\<lambda>h t. length (filter (\<lambda>a. ra_artifact_path a = path \<and> t < started_at a) h)"
  have le: "?done history \<le> ?done (history @ [a])" using fold_max_append by (simp only: filter_append map_append)
  have anti: "?n h t' \<le> ?n h t" if "t \<le> t'" for h t t' using that by (induction h) auto
  have "?n (history @ [a]) (?done (history @ [a])) \<le> ?n (history @ [a]) (?done history)" by (rule anti [OF le])
  also have "\<dots> \<le> ?n history (?done history) + 1" by simp
  finally show ?thesis unfolding attempt_count_since_last_success_def Let_def by (rule u32_or_max_Suc)
qed

definition within_budget :: "RepairOrchestrator \<Rightarrow> bool" where
  "within_budget orc \<longleftrightarrow>
     (\<forall>path. attempt_count_since_last_success path (repair_history orc) \<le> max_repair_attempts_per_artifact (repair_policy orc))"

lemma repair_paths_budget:
  "honest provider \<Longrightarrow> within_budget (fst s) \<Longrightarrow> within_budget (fst (snd (repair_paths m provider now paths s)))"
proof (induction m provider now paths s rule: repair_paths.induct)
  case (2 m provider now path paths orc p)
  show ?case
  proof (cases "max_repair_attempts_per_artifact (repair_policy orc) \<le> attempt_count_since_last_success path (repair_history orc)")
    case False
    obtain a p' where a: "(case List.find (\<lambda>rd. protected_artifact rd = path) (repair_descriptors m) of
                None \<Rightarrow> (\<lparr>ra_artifact_path = path, started_at = now, completed_at = now, outcome = SidecarMissing\<rparr>, p)
              | Some rd \<Rightarrow> attempt_repair provider path rd now p) = (a, p')" by (metis prod.exhaust)
    then have "ra_artifact_path a = path" using "2.prems"(1) by (auto simp: honest_def split: option.splits) (metis fst_conv)
    then have "within_budget (record_attempt a orc)" using "2.prems"(2) False attempts_one_more [of path "repair_history orc" a] attempts_other [of a _ "repair_history orc"]
      by (auto simp: within_budget_def record_attempt_def) (metis Suc_leI add.commute le_trans not_le plus_1_eq_Suc)
    then show ?thesis using "2.IH"(2) [OF False a [symmetric]] "2.prems"(1) False a by (auto split: prod.split)
  qed (use 2 in simp)
qed simp

lemma repair_step_budget:
  assumes "within_budget (fst s)" "\<And>m provider now. op = Cycle m provider now \<Longrightarrow> honest provider"
  shows "within_budget (fst (repair_step op s))"
proof (cases s)
  case (Pair orc p)
  have same: "within_budget orc'" if "repair_history orc' = repair_history orc" "repair_policy orc' = repair_policy orc" for orc'
    using assms(1) Pair that by (simp add: within_budget_def)
  show ?thesis
  proof (cases op)
    case (Cycle m provider now)
    obtain attempts orc' p' where r: "repair_paths m provider now (corrupted_artifact_paths orc) (orc, p) = (attempts, orc', p')" by (metis prod.exhaust)
    then have "within_budget orc'" using repair_paths_budget [OF assms(2) [OF Cycle], of s m now "corrupted_artifact_paths orc"] assms(1) Pair by simp
    then have "within_budget (reevaluate_state now orc')" by (simp add: within_budget_def reevaluate_keeps)
    then show ?thesis using Cycle Pair r by (simp add: run_repair_cycle_def)
  next
    case Reset
    then show ?thesis using Pair by (simp add: within_budget_def reset_orchestrator_def u32_or_max_def attempt_count_since_last_success_def)
  qed (auto simp: Pair report_corruption_def enter_degraded_def suspend_def try_recover_def Let_def intro!: same split: ServiceState.split)
qed

text \<open>
  Repair. Since its last successful repair an artifact is never tried more often than the policy allows, whatever
  is reported, in however many cycles.
\<close>

theorem repair_budget_kept:
  assumes "\<forall>m provider now. Cycle m provider now \<in> set ops \<longrightarrow> honest provider"
    "(orc, s) = fold repair_step ops (new_orchestrator p, s0)"
  shows "attempt_count_since_last_success path (repair_history orc) \<le> max_repair_attempts_per_artifact p"
proof -
  have "within_budget (fst (fold repair_step ops (new_orchestrator p, s0))) \<and> repair_policy (fst (fold repair_step ops (new_orchestrator p, s0))) = p"
    using assms(1)
  proof (induction ops rule: rev_induct)
    case (snoc op ops)
    then have IH: "within_budget (fst (fold repair_step ops (new_orchestrator p, s0)))"
      "repair_policy (fst (fold repair_step ops (new_orchestrator p, s0))) = p" by auto
    have "within_budget (fst (repair_step op (fold repair_step ops (new_orchestrator p, s0))))"
      using snoc.prems by (intro repair_step_budget IH(1)) auto
    then show ?case using IH(2) by (simp add: repair_step_policy)
  qed (simp add: within_budget_def new_orchestrator_def u32_or_max_def attempt_count_since_last_success_def)
  then show ?thesis unfolding assms(2) [symmetric] by (auto simp: within_budget_def)
qed

section \<open>A cycle that repairs everything\<close>



section \<open>Examples\<close>

definition sample_event :: "string \<Rightarrow> nat \<Rightarrow> CorruptionEvent" where
  "sample_event path t = \<lparr>ce_artifact_path = path, detection_method = ChecksumMismatch, detected_at = t, ce_detail = []\<rparr>"

definition sample_provider :: "RepairOutcome \<Rightarrow> nat RepairProvider" where
  "sample_provider r =
     \<lparr>attempt_repair = \<lambda>path rd now n. (\<lparr>ra_artifact_path = path, started_at = now, completed_at = now, outcome = r\<rparr>, n + 1),
      verify_after_repair = \<lambda>_ _ _. False\<rparr>"

definition sample_repairs :: GenerationManifest where
  "sample_repairs =
     \<lparr>schema_version = 1, generation_id = [], manifest_hash = [], commit_range = \<lparr>low = 1, high = 1\<rparr>, build_started_at = 1, build_completed_at = 1,
      embedders = [], vector_artifacts = [], lexical_artifacts = [],
      repair_descriptors = [\<lparr>protected_artifact = ''v'', sidecar_path = ''v.fec'', source_symbols = 1, repair_symbols = 1, overhead_ratio = F_zero\<rparr>],
      activation_invariants = [], total_documents = 1, gm_metadata = []\<rparr>"

definition sample_policy :: CorruptionPolicy where
  "sample_policy = \<lparr>max_corrupted_artifacts = 1, max_repair_attempts_per_artifact = 2, suspension_threshold = 2, cooldown_after_suspension_ms = 5\<rparr>"

theorem service_reflects_damage_witness:
  "\<not> is_healthy (service (fst (fold repair_step [Report (sample_event ''v'' 3), Cycle sample_repairs (sample_provider SidecarCorrupted) 4, Recover 9]
     (new_orchestrator sample_policy, 0))))
   \<and> (\<exists>k \<le> 3. 1 \<le> unrepaired_artifact_count (state_after sample_policy 0
        [Report (sample_event ''v'' 3), Cycle sample_repairs (sample_provider SidecarCorrupted) 4, Recover 9] k))"
proof -
  let ?ops = "[Report (sample_event ''v'' 3), Cycle sample_repairs (sample_provider SidecarCorrupted) 4, Recover 9]"
  let ?s = "fold repair_step ?ops (new_orchestrator sample_policy, 0)"
  have "max_corrupted_artifacts sample_policy \<le> unrepaired_artifact_count (fst ?s)" by code_simp
  moreover have s: "state_after sample_policy 0 ?ops (length ?ops) = fst ?s" by (simp add: state_after_def)
  have p: "thresholds_positive sample_policy" "1 \<le> min (max_corrupted_artifacts sample_policy) (suspension_threshold sample_policy)"
    by (simp_all add: sample_policy_def)
  note r = service_reflects_damage [OF p(1), of 0 ?ops, unfolded s]
  moreover have quiet: "list_all (\<lambda>op. \<not> manual op) ?ops" by simp
  ultimately have u: "\<not> is_healthy (service (fst ?s))" by blast
  then obtain k where "k \<le> length ?ops" "min (max_corrupted_artifacts sample_policy) (suspension_threshold sample_policy)
      \<le> unrepaired_artifact_count (state_after sample_policy 0 ?ops k)"
    using r quiet by blast
  then have "k \<le> 3 \<and> 1 \<le> unrepaired_artifact_count (state_after sample_policy 0 ?ops k)" using p(2) by (auto intro: order_trans)
  then show ?thesis using u by blast
qed

lemma sample_honest: "honest (sample_provider r)"
  by (simp add: honest_def sample_provider_def)

theorem repair_budget_kept_witness:
  "attempt_count_since_last_success ''v'' (repair_history (fst (fold repair_step
      [Report (sample_event ''v'' 3), Cycle sample_repairs (sample_provider SidecarCorrupted) 4, Cycle sample_repairs (sample_provider SidecarCorrupted) 5,
       Cycle sample_repairs (sample_provider SidecarCorrupted) 6] (new_orchestrator sample_policy, 0)))) \<le> 2"
proof -
  let ?s = "fold repair_step
      [Report (sample_event ''v'' 3), Cycle sample_repairs (sample_provider SidecarCorrupted) 4, Cycle sample_repairs (sample_provider SidecarCorrupted) 5,
       Cycle sample_repairs (sample_provider SidecarCorrupted) 6] (new_orchestrator sample_policy, 0)"
  have "attempt_count_since_last_success ''v'' (repair_history (fst ?s)) \<le> max_repair_attempts_per_artifact sample_policy"
    by (rule repair_budget_kept [OF _ surjective_pairing [symmetric]]) (auto simp: sample_honest)
  moreover have "max_repair_attempts_per_artifact sample_policy = 2" by (simp add: sample_policy_def)
  ultimately show ?thesis by (simp only:)
qed


end
