(* ===== verification/Fs_Canonical.thy ===== *)
theory Fs_Canonical
  imports Fs_Query
begin

text \<open>
  Canonical text of documents and queries (\<open>frankensearch-core/src/canonicalize.rs\<close>). Unicode normalization (NFC) and
  \<open>to_lowercase\<close> are parameters. Markdown is cut at ASCII characters, so those functions work on bytes; the
  functions that look at blanks or count work on characters.
\<close>

section \<open>Markdown\<close>

record DefaultCanonicalizer =
  max_length :: nat
  code_head_lines :: nat
  code_tail_lines :: nat

definition default_canonicalizer :: DefaultCanonicalizer where
  "default_canonicalizer = \<lparr>max_length = 2000, code_head_lines = 20, code_tail_lines = 10\<rparr>"

definition LOW_SIGNAL_CONTENT :: "string list" where
  "LOW_SIGNAL_CONTENT =
     [''ok'', ''done'', ''done.'', ''got it'', ''got it.'', ''understood'', ''understood.'', ''sure'', ''sure.'', ''yes'', ''no'',
      ''thanks'', ''thanks.'', ''thank you'', ''thank you.'']"

text \<open>\<open>str::replace\<close>, for a pattern that is not empty.\<close>

function replace_str :: "string \<Rightarrow> string \<Rightarrow> string \<Rightarrow> string" where
  "replace_str p r [] = []"
| "replace_str p r (c # s) =
     (if p \<noteq> [] \<and> prefix p (c # s) then r @ replace_str p r (drop (length p) (c # s)) else c # replace_str p r s)"
  by pat_completeness auto
termination
  by (relation "measure (\<lambda>(_, _, s). length s)") (auto simp: diff_less)

text \<open>What follows the parenthesis that closes a link; the depth of a text that fits in memory fits an \<open>i32\<close>.\<close>

fun after_url :: "nat \<Rightarrow> string \<Rightarrow> string option" where
  "after_url depth [] = None"
| "after_url depth (c # s) =
     (if c = CHR ''('' then after_url (depth + 1) s
      else if c = CHR '')'' then (if depth = 1 then Some s else after_url (depth - 1) s)
      else after_url depth s)"

lemma after_url_shorter: "after_url depth s = Some r \<Longrightarrow> length r < length s"
  by (induction s arbitrary: depth) (fastforce split: if_splits)+

abbreviation link_text :: "string \<Rightarrow> string" where "link_text s \<equiv> takeWhile (\<lambda>c. c \<noteq> CHR '']'') s"
abbreviation after_text :: "string \<Rightarrow> string" where "after_text s \<equiv> drop 1 (dropWhile (\<lambda>c. c \<noteq> CHR '']'') s)"

function strip_markdown_links :: "string \<Rightarrow> string" where
  "strip_markdown_links [] = []"
| "strip_markdown_links (c # s) =
     (if c \<noteq> CHR ''['' then c # strip_markdown_links s
      else if CHR '']'' \<notin> set s then CHR ''['' # s
      else if prefix ''('' (after_text s) then
        (case after_url 1 (drop 1 (after_text s)) of
           Some rest \<Rightarrow> link_text s @ strip_markdown_links rest
         | None \<Rightarrow> CHR ''['' # link_text s @ '']'' @ after_text s)
      else CHR ''['' # link_text s @ '']'' @ strip_markdown_links (after_text s))"
  by pat_completeness auto
termination
proof (relation "measure length")
  fix c :: char and s r
  assume "after_url 1 (drop 1 (after_text s)) = Some r"
  then have "length r < length (drop 1 (after_text s))" by (rule after_url_shorter)
  also have "\<dots> \<le> length s" using length_dropWhile_le [of "\<lambda>c. c \<noteq> CHR '']''" s] by simp
  finally show "(r, c # s) \<in> measure length" by simp
next
  fix c :: char and s
  show "(after_text s, c # s) \<in> measure length"
    using length_dropWhile_le [of "\<lambda>c. c \<noteq> CHR '']''" s] by (simp add: less_Suc_eq_le)
qed auto

definition strip_list_marker :: "string \<Rightarrow> string" where
  "strip_list_marker line =
     (let trimmed = trim_start line;
          rest = dropWhile is_ascii_digit trimmed
      in if prefix ''- '' trimmed then drop 2 trimmed
         else if prefix ''+ '' trimmed then drop 2 trimmed
         else if takeWhile is_ascii_digit trimmed \<noteq> [] \<and> prefix ''. '' rest then drop 2 rest
         else line)"

definition strip_markdown_line :: "string \<Rightarrow> string" where
  "strip_markdown_line line =
     (let result = replace_str ''**'' [] line;
          result = replace_str ''__'' [] result;
          result = replace_char (CHR ''*'') [] result;
          result = replace_char (CHR ''_'') '' '' result;
          result = replace_char (CHR ''`'') [] result;
          result = strip_markdown_links result;
          result = trim_start (dropWhile (\<lambda>c. c = CHR ''#'') result);
          result = trim_start (dropWhile (\<lambda>c. c = CHR ''>'') result)
      in strip_list_marker result)"

text \<open>\<open>usize\<close> subtraction wraps around where the sum of the two limits has.\<close>

definition usize_sub :: "nat \<Rightarrow> nat \<Rightarrow> nat" where
  "usize_sub a b = (if b \<le> a then a - b else 2 ^ 64 - (b - a))"

definition collapse_code_block :: "string \<Rightarrow> string list \<Rightarrow> nat \<Rightarrow> nat \<Rightarrow> string" where
  "collapse_code_block lang lines head tail =
     (let lang_label = (if lang = [] then ''code'' else ''code: '' @ lang) in
      if length lines \<le> usize_add head tail then ''['' @ lang_label @ '']'' @ [NEWLINE] @ join [NEWLINE] lines
      else
        let head_part = take head lines; tail_part = drop (usize_sub (length lines) tail) lines;
            omitted = usize_sub (usize_sub (length lines) head) tail
        in ''['' @ lang_label @ '']'' @ [NEWLINE] @ join [NEWLINE] head_part @ [NEWLINE] @ ''[... '' @ show_nat omitted
           @ '' lines omitted ...]'' @ [NEWLINE] @ join [NEWLINE] tail_part)"

record MarkdownState =
  md_result :: string
  in_code_block :: bool
  code_block_lang :: string
  code_lines :: "string list"

definition strip_line :: "DefaultCanonicalizer \<Rightarrow> string \<Rightarrow> MarkdownState \<Rightarrow> MarkdownState" where
  "strip_line c line st =
     (if prefix ''```'' line then
        (if in_code_block st then
           \<lparr>md_result = md_result st @ collapse_code_block (code_block_lang st) (code_lines st) (code_head_lines c) (code_tail_lines c) @ [NEWLINE],
            in_code_block = False, code_block_lang = [], code_lines = []\<rparr>
         else st\<lparr>in_code_block := True, code_block_lang := trim (dropWhile (\<lambda>c. c = CHR ''`'') line)\<rparr>)
      else if in_code_block st then st\<lparr>code_lines := code_lines st @ [line]\<rparr>
      else
        let stripped = strip_markdown_line line in
        if stripped \<noteq> [] then st\<lparr>md_result := md_result st @ stripped @ [NEWLINE]\<rparr> else st)"

definition strip_markdown_and_code :: "DefaultCanonicalizer \<Rightarrow> string \<Rightarrow> string" where
  "strip_markdown_and_code c text =
     (let st = fold (strip_line c) (str_lines text) \<lparr>md_result = [], in_code_block = False, code_block_lang = [], code_lines = []\<rparr> in
      if in_code_block st \<and> code_lines st \<noteq> [] then
        md_result st @ collapse_code_block (code_block_lang st) (code_lines st) (code_head_lines c) (code_tail_lines c) @ [NEWLINE]
      else md_result st)"

section \<open>Blanks, low signal, length\<close>

text \<open>The loop of \<open>normalize_whitespace\<close>; \<open>prev\<close> is \<open>prev_whitespace\<close>.\<close>

fun squeeze :: "bool \<Rightarrow> string list \<Rightarrow> string list" where
  "squeeze prev [] = []"
| "squeeze prev (c # cs) =
     (if is_whitespace c then (if \<not> prev then blank # squeeze True cs else squeeze prev cs) else c # squeeze False cs)"

definition normalize_whitespace :: "string \<Rightarrow> string" where
  "normalize_whitespace text = trim_end (concat (squeeze True (chars text)))"

definition filter_low_signal :: "(string \<Rightarrow> string) \<Rightarrow> string \<Rightarrow> string" where
  "filter_low_signal to_lowercase text =
     (let lower = to_lowercase (trim text) in if lower \<in> set LOW_SIGNAL_CONTENT then [] else text)"

definition truncate_to_chars :: "string \<Rightarrow> nat \<Rightarrow> string" where
  "truncate_to_chars text max_chars = (if char_count text \<le> max_chars then text else concat (take max_chars (chars text)))"

definition canonicalize :: "(string \<Rightarrow> string) \<Rightarrow> (string \<Rightarrow> string) \<Rightarrow> DefaultCanonicalizer \<Rightarrow> string \<Rightarrow> string" where
  "canonicalize nfc to_lowercase c text =
     (let normalized = nfc text;
          stripped = strip_markdown_and_code c normalized;
          ws_normalized = normalize_whitespace stripped;
          filtered = filter_low_signal to_lowercase ws_normalized
      in truncate_to_chars filtered (max_length c))"

definition canonicalize_query :: "(string \<Rightarrow> string) \<Rightarrow> DefaultCanonicalizer \<Rightarrow> string \<Rightarrow> string" where
  "canonicalize_query nfc c query = truncate_to_chars (trim (nfc query)) (max_length c)"

section \<open>Text as words\<close>

text \<open>The reference: the words are the longest runs of characters that are not blank.\<close>

function words_of :: "string list \<Rightarrow> string list list" where
  "words_of cs =
     (let r = dropWhile is_whitespace cs in if r = [] then [] else word r # words_of (after_word r))"
  by pat_completeness auto
termination
proof (relation "measure length")
  fix cs :: "string list" and r
  assume r: "r = dropWhile is_whitespace cs" "r \<noteq> []"
  then have "\<not> is_whitespace (hd r)" using hd_dropWhile [of is_whitespace cs] by simp
  then have "after_word r = after_word (tl r)" using r(2) by (cases r) (simp_all add: after_word_def)
  moreover have "length r \<le> length cs" using length_dropWhile_le r(1) by blast
  ultimately show "(after_word r, cs) \<in> measure length"
    using after_word_shorter [of "tl r"] r(2) by (cases r) simp_all
qed simp

declare words_of.simps [simp del]

lemma words_of_Nil [simp]: "words_of [] = []"
  by (simp add: words_of.simps)

lemma words_of_drop: "words_of (dropWhile is_whitespace cs) = words_of cs"
  by (subst (1 2) words_of.simps) (simp add: Let_def)

lemma words_of_blank: "is_whitespace c \<Longrightarrow> words_of (c # cs) = words_of cs"
  using words_of_drop [of "c # cs"] words_of_drop [of cs] by simp

lemma words_of_word: "\<not> is_whitespace c \<Longrightarrow> words_of (c # cs) = word (c # cs) # words_of (after_word (c # cs))"
  by (subst words_of.simps) (simp add: Let_def)

lemma squeeze_word: "squeeze False cs = word cs @ (case after_word cs of [] \<Rightarrow> [] | d # q \<Rightarrow> blank # squeeze True q)"
  by (induction cs) (simp_all add: word_def after_word_def)

lemma squeeze_blanks: "squeeze True (dropWhile is_whitespace cs) = squeeze True cs"
  by (induction cs) simp_all

lemma squeeze_words:
  "\<exists>e. squeeze True cs = tl (spaced (words_of cs)) @ e \<and> (e = [] \<or> e = [blank] \<and> words_of cs \<noteq> [])"
proof (induction cs rule: words_of.induct)
  case (1 cs)
  show ?case
  proof (cases "dropWhile is_whitespace cs")
    case Nil
    then show ?thesis using words_of_drop [of cs, unfolded Nil] squeeze_blanks [of cs, unfolded Nil] by simp
  next
    case (Cons c r)
    have c: "\<not> is_whitespace c" using Cons hd_dropWhile [of is_whitespace cs] by simp
    have W: "words_of cs = word (c # r) # words_of (after_word (c # r))"
      using words_of_drop [of cs] words_of_word [OF c] Cons by simp
    have S: "squeeze True cs = word (c # r) @ (case after_word r of [] \<Rightarrow> [] | d # q \<Rightarrow> blank # squeeze True q)"
      using squeeze_blanks [of cs] c Cons by (simp add: squeeze_word) (simp add: word_def)
    have A: "after_word (c # r) = after_word r" using c by (simp add: after_word_def)
    show ?thesis
    proof (cases "after_word r")
      case Nil
      then show ?thesis using W S A by simp
    next
      case d: (Cons d q)
      then have "is_whitespace d" using hd_dropWhile [of "\<lambda>c. \<not> is_whitespace c" r] by (simp add: after_word_def)
      then have "words_of (after_word r) = words_of q" "squeeze True (after_word r) = squeeze True q" using d by (simp_all add: words_of_blank)
      moreover obtain e where "squeeze True (after_word r) = tl (spaced (words_of (after_word r))) @ e"
        "e = [] \<or> e = [blank] \<and> words_of (after_word r) \<noteq> []"
        using 1 [OF Cons [symmetric]] A by auto
      ultimately show ?thesis using W S A d by (cases "words_of q") auto
    qed
  qed
qed

lemma words_of_facts: "concat (words_of cs) = filter (\<lambda>c. \<not> is_whitespace c) cs" "\<forall>w \<in> set (words_of cs). no_blank w"
proof -
  have "concat (words_of cs) = filter (\<lambda>c. \<not> is_whitespace c) cs \<and> (\<forall>w \<in> set (words_of cs). no_blank w)"
  proof (induction cs rule: words_of.induct)
    case (1 cs)
    show ?case
    proof (cases "dropWhile is_whitespace cs")
      case Nil
      then show ?thesis using words_of_drop [of cs, unfolded Nil] by (simp add: filter_empty_conv)
    next
      case (Cons c r)
      have c: "\<not> is_whitespace c" using Cons hd_dropWhile [of is_whitespace cs] by simp
      have "filter (\<lambda>c. \<not> is_whitespace c) cs = filter (\<lambda>c. \<not> is_whitespace c) (c # r)"
        unfolding Cons [symmetric] by (induction cs) simp_all
      also have "c # r = word (c # r) @ after_word (c # r)" by (simp only: word_def after_word_def takeWhile_dropWhile_id)
      also have "filter (\<lambda>c. \<not> is_whitespace c) \<dots> = word (c # r) @ filter (\<lambda>c. \<not> is_whitespace c) (after_word (c # r))"
        by (auto simp: word_def filter_id_conv dest: set_takeWhileD)
      finally have filt: "filter (\<lambda>c. \<not> is_whitespace c) cs = word (c # r) @ filter (\<lambda>c. \<not> is_whitespace c) (after_word (c # r))" .
      have "words_of cs = word (c # r) # words_of (after_word (c # r))" using words_of_drop [of cs] words_of_word [OF c] Cons by simp
      then show ?thesis using filt word_facts(1) [of "c # r"] 1 [OF Cons [symmetric]] c by simp
    qed
  qed
  then show "concat (words_of cs) = filter (\<lambda>c. \<not> is_whitespace c) cs" "\<forall>w \<in> set (words_of cs). no_blank w" by simp_all
qed

lemma spaced_words_grouped: "\<forall>w \<in> set ws. no_blank w \<Longrightarrow> words_of (spaced ws) = ws"
proof (induction ws)
  case (Cons w ws)
  have w: "list_all (\<lambda>c. \<not> is_whitespace c) w" "w \<noteq> []" using Cons.prems by (auto simp: no_blank_def)
  then obtain c w' where c: "w = c # w'" "\<not> is_whitespace c" by (cases w) auto
  have "words_of (spaced (w # ws)) = words_of (w @ spaced ws)" by (simp add: words_of_blank)
  also have "\<dots> = word (w @ spaced ws) # words_of (after_word (w @ spaced ws))" using words_of_word [OF c(2)] c(1) by simp
  finally show ?case using word_append [OF w(1) spaced_stops] Cons by simp
qed simp

text \<open>Grouping the bytes gives such a list of characters back, whose first can be a stray piece of one.\<close>

lemma chars_concat_first:
  assumes "cs = [] \<or> hd cs \<noteq> [] \<and> list_all is_cont (tl (hd cs))" "list_all one_char (tl cs)"
  shows "chars (concat cs) = cs"
proof (cases cs)
  case (Cons c r)
  obtain b k where b: "c = b # k" "list_all is_cont k" using assms(1) Cons by (cases c) auto
  have r: "list_all one_char r" using assms(2) Cons by simp
  then have "concat r = [] \<or> \<not> is_cont (hd (concat r))" by (cases r) (auto simp: one_char_def)
  then have "takeWhile is_cont (k @ concat r) = k" "dropWhile is_cont (k @ concat r) = concat r"
    using b(2) takeWhile_append_stop [of "concat r" is_cont k] dropWhile_append_stop [of "concat r" is_cont k]
    by (auto simp: list_all_iff takeWhile_eq_all_conv dropWhile_eq_Nil_conv)
  then show ?thesis using Cons b(1) chars_concat [OF r] by simp
qed simp

lemma chars_shape: "c \<in> set (chars s) \<Longrightarrow> c \<noteq> [] \<and> list_all is_cont (tl c)"
proof (induction s rule: chars.induct)
  case (2 d s)
  then show ?case by (auto simp: list_all_iff dest: set_takeWhileD)
qed simp

lemma spaced_words_chars: "chars (concat (tl (spaced (words_of (chars s))))) = tl (spaced (words_of (chars s)))"
proof (cases "words_of (chars s)")
  case (Cons w ws)
  note facts = words_of_facts [of "chars s", unfolded Cons]
  have w: "w \<noteq> []" using facts(2) by (simp add: no_blank_def)
  have sub: "set (spaced vs) \<subseteq> insert blank (set (concat vs))" for vs by (induction vs) auto
  have tl: "set (tl ys) \<subseteq> set ys" for ys :: "string list" by (cases ys) auto
  have "set (tl (filter P xs)) \<subseteq> set (tl xs)" for P and xs :: "string list"
    using tl [of "filter P (tl xs)"] by (cases xs) auto
  then have "set (tl (w @ concat ws)) \<subseteq> set (tl (chars s))" using facts(1) by (metis concat.simps(2))
  then have "set (tl w @ spaced ws) \<subseteq> insert blank (set (tl (chars s)))" using sub [of ws] w by auto
  then have "list_all one_char (tl w @ spaced ws)"
    using one_char_chars_tl [of _ s] by (auto simp: list_all_iff one_char_def is_cont_def)
  moreover have "hd w \<in> set (chars s)" 
  proof -
    have "hd w \<in> set (w @ concat ws)" using w by simp
    then have "hd w \<in> set (filter (\<lambda>c. \<not> is_whitespace c) (chars s))" using facts(1) by (metis concat.simps(2))
    then show ?thesis by simp
  qed
  ultimately show ?thesis using chars_shape [of "hd w" s] w unfolding Cons
    by (intro chars_concat_first) (auto simp: hd_append)
qed simp

lemma trim_end_blank: "trim_end (s @ [SPACE]) = trim_end s"
proof -
  have "List.find (\<lambda>w. w \<noteq> [] \<and> prefix w (SPACE # t)) (map rev ws_chars) = Some [SPACE]" for t by (simp add: ws_chars_def)
  then show ?thesis by (simp add: trim_end_def strip_words.simps [of _ "SPACE # rev s"])
qed

lemma ws_one_char: "is_whitespace w \<Longrightarrow> one_char w"
  by (auto simp: ws_chars_def one_char_def is_cont_def)

lemma trim_end_none:
  assumes "chars (concat cs) = cs" "cs \<noteq> []" "\<not> is_whitespace (last cs)"
  shows "trim_end (concat cs) = concat cs"
proof -
  have "\<not> prefix w' (rev (concat cs))" if w': "w' \<in> set (map rev ws_chars)" for w'
  proof
    assume "prefix w' (rev (concat cs))"
    obtain w where w: "w' = rev w" "is_whitespace w" using w' by auto
    then obtain a where a: "concat cs = a @ w" using \<open>prefix w' _\<close> by (auto simp: prefix_def rev_eq_append_conv)
    have "one_char w" using ws_one_char w(2) by blast
    then have "chars (a @ w) = chars a @ [w]" by (simp add: chars_append chars_one_char one_char_def)
    then show False using assms a w(2) by (metis last_snoc)
  qed
  then have "strip_words (map rev ws_chars) (rev (concat cs)) = rev (concat cs)" by (intro strip_words_none) blast
  then show ?thesis by (simp add: trim_end_def)
qed

lemma words_normalized:
  "normalize_whitespace s = join blank (map concat (words_of (chars s)))"
  "words_of (chars (normalize_whitespace s)) = words_of (chars s)"
proof -
  let ?ws = "\<lambda>s. words_of (chars s)"
  have norm: "normalize_whitespace s = concat (tl (spaced (?ws s)))" for s
  proof -
    obtain e where e: "squeeze True (chars s) = tl (spaced (?ws s)) @ e" "e = [] \<or> e = [blank] \<and> ?ws s \<noteq> []" using squeeze_words by blast
    have "trim_end (concat (tl (spaced (?ws s)))) = concat (tl (spaced (?ws s)))"
    proof (cases "?ws s = []")
      case False
      have "\<forall>w \<in> set (?ws s). no_blank w" by (rule words_of_facts(2))
      then have "tl (spaced (?ws s)) \<noteq> [] \<and> \<not> is_whitespace (last (tl (spaced (?ws s))))" using False
      proof (induction "?ws s" rule: rev_induct)
        case (snoc w ws)
        have "spaced (xs @ ys) = spaced xs @ spaced ys" for xs ys by (induction xs) auto
        then have "tl (spaced (?ws s)) = tl (spaced ws @ blank # w)" using snoc.hyps(2) by (metis append_Nil2 spaced.simps)
        moreover have "w \<noteq> []" "\<not> is_whitespace (last w)" using snoc.prems(1) snoc.hyps(2) [symmetric] by (auto simp: no_blank_def list_all_iff)
        ultimately show ?case by (cases "spaced ws") auto
      qed simp
      then show ?thesis using trim_end_none [OF spaced_words_chars] by blast
    qed simp
    then show ?thesis using e(2) trim_end_blank by (auto simp: normalize_whitespace_def e(1))
  qed
  have join: "concat (tl (spaced (?ws s))) = join blank (map concat (?ws s))"
    using join_spaced [OF refl] by (cases "?ws s") auto
  have again: "?ws (normalize_whitespace s) = ?ws s"
  proof -
    have "words_of (tl (spaced (?ws s))) = words_of (spaced (?ws s))" by (cases "?ws s") (simp_all add: words_of_blank)
    then show ?thesis using spaced_words_grouped words_of_facts(2) by (simp add: norm spaced_words_chars)
  qed
  show "normalize_whitespace s = join blank (map concat (words_of (chars s)))" "words_of (chars (normalize_whitespace s)) = words_of (chars s)"
    using norm join again by simp_all
qed

text \<open>
  Canonical text. Normalizing blanks leaves exactly the words of the text, in their order, with one
  space between them, and normalizing again changes nothing.
\<close>

theorem normalized_words:
  "normalize_whitespace s = join blank (map concat (words_of (chars s)))
   \<and> words_of (chars (normalize_whitespace s)) = words_of (chars s)
   \<and> normalize_whitespace (normalize_whitespace s) = normalize_whitespace s"
  using words_normalized by simp

text \<open>
  Canonical text. The canonical text of a document is the words its markdown leaves, one space apart, or nothing if that
  text is one of the phrases without content, cut to the number of characters that is allowed.
\<close>

theorem canonical_text:
  "let words = join blank (map concat (words_of (chars (strip_markdown_and_code c (nfc text)))));
       kept = (if to_lowercase (trim words) \<in> set LOW_SIGNAL_CONTENT then [] else words)
   in canonicalize nfc to_lowercase c text = concat (take (max_length c) (chars kept))
     \<and> char_count (canonicalize nfc to_lowercase c text) \<le> max_length c"
proof -
  have cut: "truncate_to_chars t n = concat (take n (chars t))" for t n
    by (simp add: truncate_to_chars_def char_count_def)
  have "char_count (concat (take n (chars t))) \<le> n" for t n
    using char_count_concat_le [of "take n (chars t)"] char_count_one [of _ t] by (fastforce dest: in_set_takeD)
  then show ?thesis
    using words_normalized [of "strip_markdown_and_code c (nfc text)"]
    by (simp add: canonicalize_def filter_low_signal_def Let_def cut)
qed

section \<open>Code blocks and links\<close>

text \<open>A long code block keeps its first and its last lines.\<close>

lemma code_block_collapsed:
  assumes "head + tail < length lines" "length lines < 2 ^ 64"
  shows "collapse_code_block lang lines head tail
    = ''['' @ (if lang = [] then ''code'' else ''code: '' @ lang) @ '']'' @ [NEWLINE] @ join [NEWLINE] (take head lines) @ [NEWLINE]
      @ ''[... '' @ show_nat (length lines - head - tail) @ '' lines omitted ...]'' @ [NEWLINE] @ join [NEWLINE] (drop (length lines - tail) lines)"
  using assms by (simp add: collapse_code_block_def usize_sub_def Let_def)

text \<open>A link becomes its text, and text without brackets stays as it is.\<close>

lemma links_none: "CHR ''['' \<notin> set s \<Longrightarrow> strip_markdown_links (s @ t) = s @ strip_markdown_links t"
  by (induction s) auto

lemma after_url_flat:
  "CHR ''('' \<notin> set u \<Longrightarrow> CHR '')'' \<notin> set u \<Longrightarrow> after_url 1 (u @ CHR '')'' # rest) = Some rest"
  by (induction u) auto

lemma link_becomes_text:
  assumes "CHR ''['' \<notin> set before" "CHR '']'' \<notin> set label" "CHR ''('' \<notin> set url" "CHR '')'' \<notin> set url"
  shows "strip_markdown_links (before @ ''['' @ label @ ''](''  @ url @ '')'' @ rest) = before @ label @ strip_markdown_links rest"
proof -
  have l: "\<forall>c \<in> set label. c \<noteq> CHR '']''" using assms(2) by auto
  have "strip_markdown_links (CHR ''['' # label @ ''](''  @ url @ '')'' @ rest) = label @ strip_markdown_links rest"
    using after_url_flat [OF assms(3,4), of rest] by (simp add: takeWhile_append2 dropWhile_append2 l)
  then show ?thesis using links_none [OF assms(1)] by simp
qed

end
