(* ===== verification/Fs_Filter.thy ===== *)
theory Fs_Filter
  imports Json Fs_Bytes
begin

text \<open>
  Filters of search results (\<open>frankensearch-core/src/filter.rs\<close>). The built-in filters and their chains are one
  datatype, so that a chain can hold chains; a predicate filter has the predicate as a function. A hash set is a set.
\<close>

section \<open>Filters\<close>

datatype FilterMode = All | Any

datatype SearchFilter =
    DocTypeFilter "string set"
  | DateRangeFilter "int option" "int option"
  | BitsetFilter "64 word set"
  | PredicateFilter string "string \<Rightarrow> bool"
  | FilterChain FilterMode "SearchFilter list"

definition new_chain :: "FilterMode \<Rightarrow> SearchFilter" where
  "new_chain mode = FilterChain mode []"

text \<open>\<open>add\<close> and \<open>with\<close> of a chain; the other filters do not have these methods.\<close>

fun add_filter :: "SearchFilter \<Rightarrow> SearchFilter \<Rightarrow> SearchFilter" where
  "add_filter f (FilterChain mode fs) = FilterChain mode (fs @ [f])"
| "add_filter f chain = chain"

definition date_after :: "int \<Rightarrow> SearchFilter" where "date_after t = DateRangeFilter (Some t) None"
definition date_before :: "int \<Rightarrow> SearchFilter" where "date_before t = DateRangeFilter None (Some t)"
definition date_between :: "int \<Rightarrow> int \<Rightarrow> SearchFilter" where "date_between a b = DateRangeFilter (Some a) (Some b)"

text \<open>The hash of \<open>filter.rs\<close> is a loop over the bytes.\<close>

definition filter_hash :: "string \<Rightarrow> 64 word" where
  "filter_hash s = fold (\<lambda>c hash. (hash XOR of_nat (byte c)) * 0x100000001b3) s 0xcbf29ce484222325"

definition from_doc_ids :: "string list \<Rightarrow> SearchFilter" where
  "from_doc_ids ids = BitsetFilter (filter_hash ` set ids)"

definition matches_doc_type :: "string set \<Rightarrow> json option \<Rightarrow> bool" where
  "matches_doc_type allowed metadata =
     (case metadata of
        None \<Rightarrow> True
      | Some m \<Rightarrow> (case get_str m ''doc_type'' of None \<Rightarrow> False | Some t \<Rightarrow> t \<in> allowed))"

definition created_at :: "json \<Rightarrow> int option" where
  "created_at m = (case jget m ''created_at'' of Some (JNumber n) \<Rightarrow> as_i64 n | _ \<Rightarrow> None)"

definition matches_date :: "int option \<Rightarrow> int option \<Rightarrow> json option \<Rightarrow> bool" where
  "matches_date lo hi metadata =
     (case metadata of
        None \<Rightarrow> True
      | Some m \<Rightarrow>
          (case created_at m of
             None \<Rightarrow> False
           | Some t \<Rightarrow>
               if (case lo of Some a \<Rightarrow> t < a | None \<Rightarrow> False) then False
               else if (case hi of Some b \<Rightarrow> b < t | None \<Rightarrow> False) then False
               else True))"

text \<open>The loops of a chain over the answers of its filters; \<open>unknown\<close> is \<open>has_unknown\<close>.\<close>

fun all_known :: "bool \<Rightarrow> bool option list \<Rightarrow> bool option" where
  "all_known unknown [] = (if unknown then None else Some True)"
| "all_known unknown (r # rs) =
     (case r of Some False \<Rightarrow> Some False | Some True \<Rightarrow> all_known unknown rs | None \<Rightarrow> all_known True rs)"

fun any_known :: "bool \<Rightarrow> bool option list \<Rightarrow> bool option" where
  "any_known unknown [] = (if unknown then None else Some False)"
| "any_known unknown (r # rs) =
     (case r of Some True \<Rightarrow> Some True | Some False \<Rightarrow> any_known unknown rs | None \<Rightarrow> any_known True rs)"

fun matches_doc_id_hash :: "64 word \<Rightarrow> json option \<Rightarrow> SearchFilter \<Rightarrow> bool option" where
  "matches_doc_id_hash h metadata (BitsetFilter hashes) = Some (h \<in> hashes)"
| "matches_doc_id_hash h metadata (FilterChain mode fs) =
     (if fs = [] then Some True
      else
        case mode of
          All \<Rightarrow> all_known False (map (matches_doc_id_hash h metadata) fs)
        | Any \<Rightarrow> any_known False (map (matches_doc_id_hash h metadata) fs))"
| "matches_doc_id_hash h metadata f = None"

fun matches :: "string \<Rightarrow> json option \<Rightarrow> SearchFilter \<Rightarrow> bool" where
  "matches doc_id metadata (DocTypeFilter allowed) = matches_doc_type allowed metadata"
| "matches doc_id metadata (DateRangeFilter lo hi) = matches_date lo hi metadata"
| "matches doc_id metadata (BitsetFilter hashes) =
     (case matches_doc_id_hash (filter_hash doc_id) None (BitsetFilter hashes) of Some b \<Rightarrow> b | None \<Rightarrow> False)"
| "matches doc_id metadata (PredicateFilter filter_name predicate) = predicate doc_id"
| "matches doc_id metadata (FilterChain mode fs) =
     (if fs = [] then True
      else
        case mode of
          All \<Rightarrow> list_all (matches doc_id metadata) fs
        | Any \<Rightarrow> list_ex (matches doc_id metadata) fs)"

fun filter_name :: "SearchFilter \<Rightarrow> string" where
  "filter_name (DocTypeFilter _) = ''doc_type_filter''"
| "filter_name (DateRangeFilter _ _) = ''date_range_filter''"
| "filter_name (BitsetFilter _) = ''bitset_filter''"
| "filter_name (PredicateFilter n _) = n"
| "filter_name (FilterChain mode _) = (case mode of All \<Rightarrow> ''filter_chain(all)'' | Any \<Rightarrow> ''filter_chain(any)'')"

section \<open>The fast path\<close>

text \<open>The hash of the filters is the one the index stores, so that a filter can decide on what the index has.\<close>

lemma filter_hash_index: "filter_hash s = fnv1a_hash s"
proof -
  have "fold (\<lambda>c hash. (hash XOR of_nat (byte c)) * 0x100000001b3) s h = fnv1a_from h s" for h
    by (induction s arbitrary: h) simp_all
  then show ?thesis by (simp add: filter_hash_def fnv1a_hash_def)
qed

lemma all_known_Some:
  "all_known u rs = Some b \<longleftrightarrow> (if b then \<not> u \<and> (\<forall>r \<in> set rs. r = Some True) else Some False \<in> set rs)"
  by (induction rs arbitrary: u) (auto split: option.splits bool.splits)

lemma any_known_Some:
  "any_known u rs = Some b \<longleftrightarrow> (if b then Some True \<in> set rs else \<not> u \<and> (\<forall>r \<in> set rs. r = Some False))"
  by (induction rs arbitrary: u) (auto split: option.splits bool.splits)

text \<open>
  Filters. When a filter, or a chain of filters and chains, decides from the hash the index stores for a document,
  its answer is the one it gives for the document itself, with any metadata.
\<close>

theorem hash_answer_agrees:
  assumes "matches_doc_id_hash (fnv1a_hash doc_id) metadata f = Some b"
  shows "matches doc_id metadata f \<longleftrightarrow> b"
  using assms
proof (induction f arbitrary: b)
  case (FilterChain mode fs)
  let ?hash = "matches_doc_id_hash (fnv1a_hash doc_id) metadata" and ?full = "matches doc_id metadata"
  have yes: "?full f" if "f \<in> set fs" "?hash f = Some True" for f using FilterChain.IH that by blast
  have no: "\<not> ?full f" if "f \<in> set fs" "?hash f = Some False" for f using FilterChain.IH that by blast
  show ?case
  proof (cases "fs = []")
    case False
    show ?thesis
    proof (cases mode)
      case All
      then have known: "all_known False (map ?hash fs) = Some b" using FilterChain.prems False by simp
      show ?thesis
      proof (cases b)
        case True
        then show ?thesis using known yes All by (simp add: all_known_Some list_all_iff)
      next
        case b: False
        then obtain f where "f \<in> set fs" "?hash f = Some False" using known by (auto simp: all_known_Some)
        then show ?thesis using no All b False by (auto simp: list_all_iff)
      qed
    next
      case Any
      then have known: "any_known False (map ?hash fs) = Some b" using FilterChain.prems False by simp
      show ?thesis
      proof (cases b)
        case True
        then obtain f where "f \<in> set fs" "?hash f = Some True" using known by (auto simp: any_known_Some)
        then show ?thesis using yes Any True by (auto simp: list_ex_iff)
      next
        case b: False
        then show ?thesis using known no Any False by (simp add: any_known_Some list_ex_iff)
      qed
    qed
  qed (use FilterChain.prems in simp)
qed (simp_all add: filter_hash_index)

theorem hash_answer_agrees_witness:
  "\<not> matches ''b'' None (FilterChain All [DocTypeFilter {''tweet''}, FilterChain Any [from_doc_ids [''a''], BitsetFilter {}]])"
proof -
  have "matches_doc_id_hash (fnv1a_hash ''b'') None (FilterChain All [DocTypeFilter {''tweet''}, FilterChain Any [from_doc_ids [''a''], BitsetFilter {}]])
      = Some False"
    by code_simp
  then show ?thesis using hash_answer_agrees by blast
qed

section \<open>Chains\<close>

text \<open>
  Another filter narrows a chain in which all must match and widens a chain in which any may, unless that chain was empty
  and let everything through.
\<close>

lemma matches_add:
  "matches d m (add_filter f (FilterChain All fs)) \<longleftrightarrow> matches d m (FilterChain All fs) \<and> matches d m f"
  "fs \<noteq> [] \<Longrightarrow> matches d m (add_filter f (FilterChain Any fs)) \<longleftrightarrow> matches d m (FilterChain Any fs) \<or> matches d m f"
  "matches d m (add_filter f (new_chain mode)) \<longleftrightarrow> matches d m f"
  by (auto simp: new_chain_def split: FilterMode.split)

text \<open>Without metadata only the identifier can be a reason to reject a document.\<close>

fun reads_id :: "SearchFilter \<Rightarrow> bool" where
  "reads_id (BitsetFilter _) = True"
| "reads_id (PredicateFilter _ _) = True"
| "reads_id (FilterChain _ fs) \<longleftrightarrow> list_ex reads_id fs"
| "reads_id _ = False"

lemma no_metadata_permissive: "\<not> reads_id f \<Longrightarrow> matches doc_id None f"
proof (induction f)
  case (FilterChain mode fs)
  then show ?case by (cases mode; cases fs) (auto simp: list_all_iff list_ex_iff)
qed (simp_all add: matches_doc_type_def matches_date_def)

end
