(* ===== verification/Fs_Fingerprint.thy ===== *)
theory Fs_Fingerprint
  imports Fs_Canonical Fs_Filter
begin

text \<open>
  Fingerprints that decide whether a document is embedded again (\<open>frankensearch-core/src/fingerprint.rs\<close>). The tokens are
  the words of \<open>split_whitespace\<close>; the weights of the bits are 32-bit integers that wrap around.
\<close>

section \<open>Fingerprints\<close>

definition DEFAULT_SEMANTIC_CHANGE_THRESHOLD :: f64 where
  "DEFAULT_SEMANTIC_CHANGE_THRESHOLD = f64_div (f64_of_int 8) (f64_of_int 64)"

definition SIGNIFICANT_CHAR_COUNT_CHANGE_THRESHOLD :: f64 where
  "SIGNIFICANT_CHAR_COUNT_CHANGE_THRESHOLD = f64_of_decimal False 20 (-2)"

record DocumentFingerprint =
  df_content_hash :: "64 word"
  semantic_hash :: "64 word"
  df_char_count :: nat
  token_estimate :: nat

definition usize_to_u32_saturating :: "nat \<Rightarrow> nat" where
  "usize_to_u32_saturating n = (if int n < 4294967296 then n else 2 ^ 32 - 1)"

definition split_whitespace :: "string \<Rightarrow> string list" where
  "split_whitespace text = map concat (words_of (chars text))"

definition windows :: "nat \<Rightarrow> 'a list \<Rightarrow> 'a list list" where
  "windows n xs = map (\<lambda>i. take n (drop i xs)) [0..<length xs + 1 - n]"

definition apply_hash_votes :: "64 word \<Rightarrow> 32 word list \<Rightarrow> 32 word list" where
  "apply_hash_votes hash ws = map (\<lambda>(i, w). if hash AND push_bit i 1 = 0 then w - 1 else w + 1) (enumerate 0 ws)"

definition hash_token_window :: "string list \<Rightarrow> 64 word" where
  "hash_token_window win = fold (\<lambda>token hash.
       let hash = fold (\<lambda>c hash. (hash XOR of_nat (byte c)) * 0x100000001b3) token hash
       in (hash XOR of_nat (byte SPACE)) * 0x100000001b3) win 0xcbf29ce484222325"

definition positive_bits :: "32 word list \<Rightarrow> 64 word" where
  "positive_bits ws = fold (\<lambda>(i, w) hash. if 0 < sint w then hash OR push_bit i 1 else hash) (enumerate 0 ws) 0"

definition shingle_hashes :: "string list \<Rightarrow> (64 word) list" where
  "shingle_hashes tokens = (if length tokens < 3 then map filter_hash tokens else map hash_token_window (windows 3 tokens))"

definition semantic_simhash :: "string list \<Rightarrow> 64 word" where
  "semantic_simhash tokens =
     (if tokens = [] then 0 else positive_bits (fold apply_hash_votes (shingle_hashes tokens) (replicate 64 0)))"

definition compute_fingerprint :: "string \<Rightarrow> DocumentFingerprint" where
  "compute_fingerprint text =
     (let tokens = split_whitespace text in
      \<lparr>df_content_hash = filter_hash text, semantic_hash = semantic_simhash tokens,
       df_char_count = usize_to_u32_saturating (char_count text), token_estimate = usize_to_u32_saturating (length tokens)\<rparr>)"

definition count_ones :: "64 word \<Rightarrow> nat" where
  "count_ones w = length (filter (bit w) [0..<64])"

definition semantic_hamming_distance :: "DocumentFingerprint \<Rightarrow> DocumentFingerprint \<Rightarrow> nat" where
  "semantic_hamming_distance a b = count_ones (semantic_hash a XOR semantic_hash b)"

definition semantic_distance_ratio :: "DocumentFingerprint \<Rightarrow> DocumentFingerprint \<Rightarrow> f64" where
  "semantic_distance_ratio a b = f64_div (f64_of_int (int (semantic_hamming_distance a b))) (f64_of_int 64)"

definition abs_diff :: "nat \<Rightarrow> nat \<Rightarrow> nat" where
  "abs_diff a b = (if a < b then b - a else a - b)"

definition char_count_delta_ratio :: "DocumentFingerprint \<Rightarrow> DocumentFingerprint \<Rightarrow> f64" where
  "char_count_delta_ratio a b =
     (let max_count = max (df_char_count a) (df_char_count b) in
      if max_count = 0 then F_zero
      else f64_div (f64_of_int (int (abs_diff (df_char_count a) (df_char_count b)))) (f64_of_int (int max_count)))"

definition needs_reembedding :: "DocumentFingerprint \<Rightarrow> DocumentFingerprint \<Rightarrow> f64 \<Rightarrow> bool" where
  "needs_reembedding a b threshold =
     (if df_content_hash a = df_content_hash b then False
      else if f64_lt SIGNIFICANT_CHAR_COUNT_CHANGE_THRESHOLD (char_count_delta_ratio a b) then True
      else
        let safe_threshold = (if is_finite threshold then f64_clamp threshold F_zero F_one else DEFAULT_SEMANTIC_CHANGE_THRESHOLD)
        in f64_lt safe_threshold (semantic_distance_ratio a b))"

definition needs_reembedding_default :: "DocumentFingerprint \<Rightarrow> DocumentFingerprint \<Rightarrow> bool" where
  "needs_reembedding_default a b = needs_reembedding a b DEFAULT_SEMANTIC_CHANGE_THRESHOLD"

section \<open>Quotients under rounding\<close>

abbreviation nonneg :: "f64 \<Rightarrow> bool" where "nonneg \<equiv> F64_Order.positive"

lemma div_rounds:
  assumes "nonneg x" "is_finite x" "nonneg y" "is_finite y" "f64_val y \<noteq> 0"
  shows "rounds_to (f64_val x / f64_val y) (f64_div x y)"
proof -
  obtain m e m' e' where xy: "x = F_Fin False m e" "y = F_Fin False m' e'" using assms by (cases x; cases y) auto
  have m': "0 < m'" using assms(5) xy by (auto intro: Nat.gr0I)
  define f where "f = e - e'"
  have "real (m * pow2 f) / real (m' * pow2 (- f)) = real (m * pow2 f) / real (pow2 (- f)) / real m'" by simp
  also have "\<dots> = real m * p2 f / real m'" unfolding ratio_pow2 by simp
  also have "\<dots> = f64_val x / f64_val y" by (simp add: xy f_def powr_diff)
  finally have v: "f64_val x / f64_val y = real (m * pow2 f) / real (m' * pow2 (- f))" ..
  have "f64_div x y = f64_of_ratio False (m * pow2 f) (m' * pow2 (- f))" using m' by (simp add: xy f_def)
  then show ?thesis unfolding rounds_to_def v using m' by (intro exI [of _ "m * pow2 f"] exI [of _ "m' * pow2 (- f)"]) simp
qed

lemma quotient_rounds:
  assumes "a \<le> 2 ^ 53" "0 < b" "b \<le> 2 ^ 53"
  shows "rounds_to (real a / real b) (f64_div (f64_of_int (int a)) (f64_of_int (int b)))"
  using div_rounds [of "f64_of_int (int a)" "f64_of_int (int b)"] of_nat_exact [OF assms(1)] of_nat_exact [OF assms(3)] assms(2) by simp

text \<open>Two numbers with two floating-point numbers between them are rounded to different ones.\<close>

lemma rounds_separated:
  assumes "rounds_to v x" "rounds_to w y" "v \<le> f64_val a" "f64_val a < f64_val b" "f64_val b \<le> w"
    "nonneg a" "is_finite a" "nonneg b" "is_finite b"
  shows "f64_lt x y"
proof -
  have pos: "nonneg x" "nonneg y" using assms(1,2) rounds_to_positive by blast+
  have xa: "f64_le x a" and b_y: "f64_le b y"
    using rounds_to_mono assms rounds_to_val by blast+
  have "f64_le a b" "\<not> f64_le b a" using assms by (simp_all add: f64_le_iff)
  then show ?thesis unfolding f64_lt_def using xa b_y pos assms(6,8) f64_le_trans by blast
qed

lemma rounds_not_less: "rounds_to v x \<Longrightarrow> rounds_to w y \<Longrightarrow> w \<le> v \<Longrightarrow> \<not> f64_lt x y"
  using rounds_to_mono by (auto simp: f64_lt_def)

lemma one_fifth: "rounds_to (1 / 5) SIGNIFICANT_CHAR_COUNT_CHANGE_THRESHOLD"
  unfolding rounds_to_def SIGNIFICANT_CHAR_COUNT_CHANGE_THRESHOLD_def
  by (intro exI [of _ "20::nat"] exI [of _ "100::nat"]) (simp add: f64_of_decimal_def)

lemma above_one_fifth:
  assumes "b < 2 ^ 32" "0 < b" "a \<le> b"
  shows "f64_lt SIGNIFICANT_CHAR_COUNT_CHANGE_THRESHOLD (f64_div (f64_of_int (int a)) (f64_of_int (int b))) \<longleftrightarrow> b < 5 * a"
proof
  have q: "rounds_to (real a / real b) (f64_div (f64_of_int (int a)) (f64_of_int (int b)))"
    using assms by (intro quotient_rounds) auto
  show "b < 5 * a" if "f64_lt SIGNIFICANT_CHAR_COUNT_CHANGE_THRESHOLD (f64_div (f64_of_int (int a)) (f64_of_int (int b)))"
  proof (rule ccontr)
    assume "\<not> b < 5 * a"
    then have "5 * real a \<le> real b" by linarith
    then have "real a / real b \<le> 1 / 5" using assms(2) by (simp add: field_simps)
    then show False using rounds_not_less [OF one_fifth q] that by simp
  qed
  assume "b < 5 * a"
  then have "real b + 1 \<le> 5 * real a" by linarith
  moreover have "real b < 2 ^ 32" using assms(1) by (simp flip: of_nat_less_iff)
  ultimately have "27487790696 / 2 ^ 37 * real b \<le> real a" by (simp add: field_simps)
  then have w: "27487790696 / 2 ^ 37 \<le> real a / real b" using assms(2) by (simp add: field_simps)
  let ?a = "F_Fin False (27487790695 * 2 ^ 18) (-55)" and ?b = "F_Fin False (27487790696 * 2 ^ 18) (-55)"
  have val: "f64_val ?a = 27487790695 / 2 ^ 37" "f64_val ?b = 27487790696 / 2 ^ 37"
    by (simp_all add: powr_minus powr_realpow flip: powr_numeral)
  show "f64_lt SIGNIFICANT_CHAR_COUNT_CHANGE_THRESHOLD (f64_div (f64_of_int (int a)) (f64_of_int (int b)))"
  proof (rule rounds_separated [OF one_fifth q, of ?a ?b])
    show "1 / 5 \<le> f64_val ?a" "f64_val ?a < f64_val ?b" unfolding val by simp_all
    show "f64_val ?b \<le> real a / real b" unfolding val by (rule w)
  qed simp_all
qed

lemma above_eighth:
  assumes "h \<le> 64"
  shows "f64_lt DEFAULT_SEMANTIC_CHANGE_THRESHOLD (f64_div (f64_of_int (int h)) (f64_of_int 64)) \<longleftrightarrow> 8 < h"
proof -
  have q: "rounds_to (real h / 64) (f64_div (f64_of_int (int h)) (f64_of_int 64))" using quotient_rounds [of h 64] assms by simp
  have t: "rounds_to (1 / 8) DEFAULT_SEMANTIC_CHANGE_THRESHOLD"
    using quotient_rounds [of 8 64] by (simp add: DEFAULT_SEMANTIC_CHANGE_THRESHOLD_def)
  show ?thesis
  proof (cases "8 < h")
    case True
    let ?a = "F_Fin False (2 ^ 52) (-55)" and ?b = "F_Fin False (9 * 2 ^ 49) (-55)"
    have val: "f64_val ?a = 1 / 8" "f64_val ?b = 9 / 64" by (simp_all add: powr_minus powr_realpow flip: powr_numeral)
    have "f64_lt DEFAULT_SEMANTIC_CHANGE_THRESHOLD (f64_div (f64_of_int (int h)) (f64_of_int 64))"
      by (rule rounds_separated [OF t q, of ?a ?b]) (use True val in simp_all)
    then show ?thesis using True by simp
  next
    case False
    then show ?thesis using rounds_not_less [OF t q] by simp
  qed
qed

lemma default_threshold: "is_finite DEFAULT_SEMANTIC_CHANGE_THRESHOLD" "f64_clamp DEFAULT_SEMANTIC_CHANGE_THRESHOLD F_zero F_one = DEFAULT_SEMANTIC_CHANGE_THRESHOLD"
proof -
  have t: "rounds_to (1 / 8) DEFAULT_SEMANTIC_CHANGE_THRESHOLD"
    using quotient_rounds [of 8 64] by (simp add: DEFAULT_SEMANTIC_CHANGE_THRESHOLD_def)
  have "f64_val (F_Fin False (2 ^ 52) (-55)) = 1 / 8" by (simp add: powr_minus powr_realpow flip: powr_numeral)
  then have v: "is_finite DEFAULT_SEMANTIC_CHANGE_THRESHOLD" "f64_val DEFAULT_SEMANTIC_CHANGE_THRESHOLD = 1 / 8"
    using rounds_exact [OF t, of "F_Fin False (2 ^ 52) (-55)"] by simp_all
  then show "is_finite DEFAULT_SEMANTIC_CHANGE_THRESHOLD" "f64_clamp DEFAULT_SEMANTIC_CHANGE_THRESHOLD F_zero F_one = DEFAULT_SEMANTIC_CHANGE_THRESHOLD"
    by (simp_all add: f64_clamp_def f64_lt_iff)
qed

lemma abs_diff_le: "abs_diff a b \<le> max a b"
  by (simp add: abs_diff_def)

lemma count_ones_le: "count_ones w \<le> 64"
  unfolding count_ones_def using length_filter_le [of "bit w" "[0..<64]"] by simp

lemma differing_bits: "semantic_hamming_distance a b = card {i. i < 64 \<and> bit (semantic_hash a) i \<noteq> bit (semantic_hash b) i}"
proof -
  have "count_ones w = card {i. i < 64 \<and> bit w i}" for w
    unfolding count_ones_def by (subst distinct_card [symmetric]) (auto intro!: arg_cong [where f = card])
  then show ?thesis by (simp add: semantic_hamming_distance_def bit_xor_iff)
qed

text \<open>
  C39: Fingerprints. With the default threshold a document is embedded again exactly if its text has another hash, and
  either the shorter text has less than four fifths of the characters of the longer or more than eight bits of the semantic
  hash changed: the quotients and their comparison in floating point decide as the exact numbers do.
\<close>

theorem reembedding_decided_exactly:
  assumes "df_char_count a < 2 ^ 32" "df_char_count b < 2 ^ 32"
  shows "needs_reembedding_default a b \<longleftrightarrow> df_content_hash a \<noteq> df_content_hash b
    \<and> (5 * min (df_char_count a) (df_char_count b) < 4 * max (df_char_count a) (df_char_count b)
      \<or> 8 < card {i. i < 64 \<and> bit (semantic_hash a) i \<noteq> bit (semantic_hash b) i})"
proof -
  let ?m = "max (df_char_count a) (df_char_count b)" and ?d = "abs_diff (df_char_count a) (df_char_count b)"
  have "f64_lt SIGNIFICANT_CHAR_COUNT_CHANGE_THRESHOLD (char_count_delta_ratio a b) \<longleftrightarrow> ?m < 5 * ?d"
  proof (cases "?m = 0")
    case True
    have "rounds_to 0 F_zero" using rounds_to_val [of F_zero] by (simp add: F_zero_def)
    then have "\<not> f64_lt SIGNIFICANT_CHAR_COUNT_CHANGE_THRESHOLD F_zero" using rounds_not_less [OF one_fifth] by simp
    then show ?thesis using True by (simp add: char_count_delta_ratio_def abs_diff_def)
  next
    case False
    then have "char_count_delta_ratio a b = f64_div (f64_of_int (int ?d)) (f64_of_int (int ?m))" 
      by (simp only: char_count_delta_ratio_def Let_def if_False)
    moreover have "?m < 2 ^ 32" "0 < ?m" using assms False by (simp_all add: max_def split: if_splits)
    ultimately show ?thesis using above_one_fifth [OF _ _ abs_diff_le] by simp
  qed
  moreover have "f64_lt DEFAULT_SEMANTIC_CHANGE_THRESHOLD (semantic_distance_ratio a b) \<longleftrightarrow> 8 < semantic_hamming_distance a b"
    unfolding semantic_distance_ratio_def by (rule above_eighth) (simp add: semantic_hamming_distance_def count_ones_le)
  moreover have "?m < 5 * ?d \<longleftrightarrow> 5 * min (df_char_count a) (df_char_count b) < 4 * max (df_char_count a) (df_char_count b)"
    by (auto simp: abs_diff_def)
  ultimately show ?thesis
    unfolding needs_reembedding_default_def needs_reembedding_def by (simp add: default_threshold differing_bits)
qed

theorem reembedding_decided_exactly_witness:
  "\<not> needs_reembedding_default \<lparr>df_content_hash = 1, semantic_hash = 0xFF, df_char_count = 50, token_estimate = 9\<rparr>
     \<lparr>df_content_hash = 2, semantic_hash = 0, df_char_count = 40, token_estimate = 8\<rparr>"
proof (subst reembedding_decided_exactly)
  let ?a = "\<lparr>df_content_hash = 1, semantic_hash = 0xFF, df_char_count = 50, token_estimate = 9\<rparr>"
    and ?b = "\<lparr>df_content_hash = 2, semantic_hash = 0, df_char_count = 40, token_estimate = 8\<rparr>"
  have "semantic_hamming_distance ?a ?b = 8" by (simp add: semantic_hamming_distance_def count_ones_def upt_rec)
  then show "\<not> (df_content_hash ?a \<noteq> df_content_hash ?b
    \<and> (5 * min (df_char_count ?a) (df_char_count ?b) < 4 * max (df_char_count ?a) (df_char_count ?b)
      \<or> 8 < card {i. i < 64 \<and> bit (semantic_hash ?a) i \<noteq> bit (semantic_hash ?b) i}))"
    unfolding differing_bits by simp
qed simp_all

section \<open>The semantic hash is a majority\<close>

lemma count_bit:
  "length (filter P hs) + length (filter (\<lambda>h. \<not> P h) hs) = length hs"
  by (induction hs) auto

lemma votes_length [simp]: "length (fold apply_hash_votes hs ws) = length ws"
  by (induction hs arbitrary: ws) (simp_all add: apply_hash_votes_def)

lemma hash_bit: "i < 64 \<Longrightarrow> hash AND push_bit i 1 = 0 \<longleftrightarrow> \<not> bit hash i" for hash :: "64 word"
proof
  assume "hash AND push_bit i 1 = 0" "i < 64"
  then have "\<not> bit (hash AND push_bit i 1) i" by (simp del: push_bit_of_1)
  then show "\<not> bit hash i" using \<open>i < 64\<close> by (simp add: bit_and_iff bit_exp_iff)
next
  assume "\<not> bit hash i" "i < 64"
  then show "hash AND push_bit i 1 = 0" by (intro bit_eqI) (auto simp: bit_and_iff bit_exp_iff)
qed

lemma vote_nth:
  "i < length ws \<Longrightarrow> length ws \<le> 64 \<Longrightarrow> apply_hash_votes h ws ! i = (if bit h i then ws ! i + 1 else ws ! i - 1)"
  by (simp add: apply_hash_votes_def nth_enumerate_eq hash_bit del: push_bit_of_1)

lemma votes_nth:
  assumes "i < length ws" "length ws \<le> 64"
  shows "fold apply_hash_votes hs ws ! i = ws ! i + of_int (int (length (filter (\<lambda>h. bit h i) hs)) - int (length (filter (\<lambda>h. \<not> bit h i) hs)))"
  using assms
proof (induction hs arbitrary: ws)
  case (Cons h hs)
  have "length (apply_hash_votes h ws) = length ws" by (simp add: apply_hash_votes_def)
  then show ?case using Cons.IH [of "apply_hash_votes h ws"] Cons.prems vote_nth [of i ws h] by simp
qed simp

lemma positive_bits_bit:
  assumes "length ws \<le> 64"
  shows "bit (positive_bits ws) i \<longleftrightarrow> i < length ws \<and> 0 < sint (ws ! i)"
proof -
  have "bit (fold (\<lambda>(i, w) hash. if 0 < sint w then hash OR push_bit i 1 else hash) ps h) i
    \<longleftrightarrow> bit h i \<or> (\<exists>w. (i, w) \<in> set ps \<and> 0 < sint w)" if "\<forall>(j, w) \<in> set ps. j < 64" for ps :: "(nat \<times> 32 word) list" and h :: "64 word"
    using that
  proof (induction ps arbitrary: h)
    case (Cons p ps)
    obtain j w where p: "p = (j, w)" by (cases p)
    have "bit (h OR push_bit j 1) i \<longleftrightarrow> bit h i \<or> i = j" using Cons.prems p by (auto simp: bit_or_iff bit_exp_iff)
    then show ?case using Cons.IH Cons.prems p by auto
  qed simp
  moreover have "\<forall>(j, w) \<in> set (enumerate 0 ws). j < 64" using assms by (auto simp: in_set_enumerate_eq)
  ultimately show ?thesis by (auto simp: positive_bits_def in_set_enumerate_eq)
qed

text \<open>
  Fingerprints. A bit of the semantic hash is set exactly if it is set in more than half of the hashes of the shingles.
\<close>

theorem simhash_is_majority:
  assumes "length (shingle_hashes tokens) < 2 ^ 31" "i < 64"
  shows "bit (semantic_simhash tokens) i \<longleftrightarrow>
    length (shingle_hashes tokens) < 2 * length (filter (\<lambda>h. bit h i) (shingle_hashes tokens))"
proof (cases "tokens = []")
  case False
  let ?hs = "shingle_hashes tokens"
  define k where "k = int (length (filter (\<lambda>h. bit h i) ?hs)) - int (length (filter (\<lambda>h. \<not> bit h i) ?hs))"
  have count: "length (filter (\<lambda>h. bit h i) ?hs) + length (filter (\<lambda>h. \<not> bit h i) ?hs) = length ?hs" by (rule count_bit)
  have "int (length ?hs) < int (2 ^ 31)" using assms(1) by (simp only: of_nat_less_iff)
  then have k: "- (2 ^ 31) \<le> k" "k < 2 ^ 31" using count unfolding k_def by simp_all
  have "fold apply_hash_votes ?hs (replicate 64 0) ! i = of_int k"
    using votes_nth [of i "replicate 64 0" ?hs] assms(2) by (simp add: k_def)
  moreover have "sint (of_int k :: 32 word) = k" using k by (subst int_word_sint) simp
  ultimately have "bit (semantic_simhash tokens) i \<longleftrightarrow> 0 < k" using False assms(2) by (simp add: semantic_simhash_def positive_bits_bit)
  then show ?thesis using count unfolding k_def by linarith
qed (simp add: semantic_simhash_def shingle_hashes_def)

theorem simhash_is_majority_witness:
  "bit (semantic_simhash [''a'']) 0 \<longleftrightarrow> bit (filter_hash ''a'') 0"
  using simhash_is_majority [of "[''a'']" 0] by (simp add: shingle_hashes_def)

end
