(* ===== verification/Fs_Gate.thy ===== *)
theory Fs_Gate
  imports Fs_Breaker F64_Order
begin

text \<open>
  The sequential test that decides whether the quality tier is worth running
  (\<open>frankensearch-fusion/src/phase_gate.rs\<close>), and the plan of a search while the query is typed
  (\<open>frankensearch-fusion/src/incremental.rs\<close>). Printing a number with four decimals is a parameter; it
  occurs only in the texts of evidence records.
\<close>

section \<open>The phase gate\<close>

datatype PhaseDecision = SkipQuality | AlwaysRefine

record PhaseObservation =
  fast_score :: f64
  quality_score :: f64
  user_signal :: "bool option"

record PhaseGateConfig =
  pg_alpha :: f64
  timeout_queries :: nat
  min_delta :: f64
  pg_enabled :: bool

definition default_gate_config :: PhaseGateConfig where
  "default_gate_config = \<lparr>pg_alpha = f64_of_decimal False 5 (-2), timeout_queries = 500, min_delta = f64_of_decimal False 1 (-2), pg_enabled = True\<rparr>"

record PhaseGate =
  gate_config :: PhaseGateConfig
  e_value :: f64
  decision :: "PhaseDecision option"
  observations :: nat
  quality_wins :: nat
  fast_wins :: nat

definition new_gate :: "PhaseGateConfig \<Rightarrow> PhaseGate" where
  "new_gate cfg = \<lparr>gate_config = cfg, e_value = F_one, decision = None, observations = 0, quality_wins = 0, fast_wins = 0\<rparr>"

definition gate_skips_quality :: "PhaseGate \<Rightarrow> bool" where
  "gate_skips_quality g \<longleftrightarrow> decision g = Some SkipQuality"

definition sanitize_alpha :: "f64 \<Rightarrow> f64" where
  "sanitize_alpha a = (if is_finite a \<and> f64_lt F_zero a \<and> f64_lt a F_one then a else f64_of_decimal False 5 (-2))"

definition sanitize_min_delta :: "f64 \<Rightarrow> f64" where
  "sanitize_min_delta d = (if is_finite d \<and> f64_le F_zero d then d else F_zero)"

fun f64_abs :: "f64 \<Rightarrow> f64" where
  "f64_abs F_NaN = F_NaN"
| "f64_abs (F_Inf s) = F_Inf False"
| "f64_abs (F_Fin s m e) = F_Fin False m e"

definition compute_e_factor :: "PhaseGateConfig \<Rightarrow> f64 \<Rightarrow> bool option \<Rightarrow> f64" where
  "compute_e_factor cfg delta signal =
     (let least = sanitize_min_delta (min_delta cfg);
          base = (if f64_lt (f64_abs delta) least then F_one
                  else if f64_lt F_zero delta then f64_add F_one (f64_min delta F_one)
                  else f64_div F_one (f64_add F_one (f64_min (f64_abs delta) F_one)))
      in case signal of
           Some True \<Rightarrow> f64_mul base (f64_of_decimal False 15 (-1))
         | Some False \<Rightarrow> f64_mul base (f64_of_decimal False 7 (-1))
         | None \<Rightarrow> base)"

definition gate_evidence :: "EvidenceEventType \<Rightarrow> string \<Rightarrow> string \<Rightarrow> PipelineState \<Rightarrow> PipelineAction \<Rightarrow> EvidenceRecord" where
  "gate_evidence ev code human ps act = \<lparr>event_type = ev, reason_code = code, reason_human = human, severity = Info,
     pipeline_state_at = ps, action = Some act, source_component = ''phase_gate''\<rparr>"

definition make_decision_evidence :: "(f64 \<Rightarrow> string) \<Rightarrow> PhaseGate \<Rightarrow> PhaseDecision \<Rightarrow> EvidenceRecord" where
  "make_decision_evidence show4 g d =
     (case d of
        SkipQuality \<Rightarrow>
          gate_evidence Decision ''decision.skip.high_loss''
            (''Phase gate decided: skip quality (e_value='' @ show4 (e_value g) @ '', obs='' @ show_nat (observations g)
             @ '', fast_wins='' @ show_nat (fast_wins g) @ '', quality_wins='' @ show_nat (quality_wins g) @ '')'')
            DegradedQuality SkipRefinement
      | AlwaysRefine \<Rightarrow>
          gate_evidence Decision ''decision.refine.nominal''
            (''Phase gate decided: always refine (e_value='' @ show4 (e_value g) @ '', obs='' @ show_nat (observations g)
             @ '', quality_wins='' @ show_nat (quality_wins g) @ '', fast_wins='' @ show_nat (fast_wins g) @ '')'')
            Nominal Refine)"

fun show_decision :: "PhaseDecision \<Rightarrow> string" where
  "show_decision SkipQuality = ''SkipQuality''"
| "show_decision AlwaysRefine = ''AlwaysRefine''"

definition timeout_reason :: "(f64 \<Rightarrow> string) \<Rightarrow> PhaseGate \<Rightarrow> PhaseDecision \<Rightarrow> string" where
  "timeout_reason show4 g d =
     ''Phase gate timeout after '' @ show_nat (observations g) @ '' queries; forced decision: '' @ show_decision d
     @ '' (quality_wins='' @ show_nat (quality_wins g) @ '', fast_wins='' @ show_nat (fast_wins g) @ '', e_value='' @ show4 (e_value g) @ '')''"

definition observed_delta :: "PhaseObservation \<Rightarrow> f64" where
  "observed_delta obs = f64_sub (quality_score obs) (fast_score obs)"

text \<open>The evidence of an observation is added to the gate.\<close>

definition weigh :: "PhaseObservation \<Rightarrow> PhaseGate \<Rightarrow> PhaseGate" where
  "weigh obs g =
     (let delta = observed_delta obs;
          factor = f64_clamp (compute_e_factor (gate_config g) delta (user_signal obs)) (f64_of_decimal False 1 (-2)) (f64_of_int 100);
          g = g\<lparr>e_value := f64_mul (e_value g) factor\<rparr>
      in if f64_lt (sanitize_min_delta (min_delta (gate_config g))) delta then g\<lparr>quality_wins := usize_add (quality_wins g) 1\<rparr>
         else g\<lparr>fast_wins := usize_add (fast_wins g) 1\<rparr>)"

definition update_gate :: "(f64 \<Rightarrow> string) \<Rightarrow> PhaseObservation \<Rightarrow> PhaseGate \<Rightarrow> EvidenceRecord list \<times> PhaseGate" where
  "update_gate show4 obs g =
     (if \<not> pg_enabled (gate_config g) \<or> decision g \<noteq> None then ([], g)
      else
        let g = g\<lparr>observations := usize_add (observations g) 1\<rparr> in
        if \<not> is_finite (observed_delta obs) then ([], g)
        else
          let g = weigh obs g; threshold = f64_div F_one (sanitize_alpha (pg_alpha (gate_config g))) in
          if f64_le threshold (e_value g) then
            ([make_decision_evidence show4 g AlwaysRefine], g\<lparr>decision := Some AlwaysRefine\<rparr>)
          else if f64_lt F_zero (e_value g) \<and> f64_le threshold (f64_div F_one (e_value g)) then
            ([make_decision_evidence show4 g SkipQuality], g\<lparr>decision := Some SkipQuality\<rparr>)
          else if timeout_queries (gate_config g) \<le> observations g then
            (let forced = (if fast_wins g < quality_wins g then AlwaysRefine else SkipQuality) in
               ([(make_decision_evidence show4 g forced)\<lparr>reason_human := timeout_reason show4 g forced\<rparr>], g\<lparr>decision := Some forced\<rparr>))
          else ([], g))"

definition reset_gate :: "PhaseGate \<Rightarrow> EvidenceRecord list \<times> PhaseGate" where
  "reset_gate g =
     (if decision g \<noteq> None then
        [gate_evidence Transition ''decision.refine.nominal'' ''Phase gate reset; returning to undecided state'' Nominal Refine]
      else [],
      g\<lparr>e_value := F_one, decision := None, observations := 0, quality_wins := 0, fast_wins := 0\<rparr>)"

record PhaseGateDiagnostics =
  d_e_value :: f64
  d_decision :: "PhaseDecision option"
  d_observations :: nat
  d_quality_wins :: nat
  d_fast_wins :: nat
  d_threshold :: f64

definition diagnostics :: "PhaseGate \<Rightarrow> PhaseGateDiagnostics" where
  "diagnostics g = \<lparr>d_e_value = e_value g, d_decision = decision g, d_observations = observations g, d_quality_wins = quality_wins g,
     d_fast_wins = fast_wins g, d_threshold = f64_div F_one (sanitize_alpha (pg_alpha (gate_config g)))\<rparr>"

section \<open>When the gate decides\<close>

abbreviation gate_run :: "(f64 \<Rightarrow> string) \<Rightarrow> PhaseObservation list \<Rightarrow> PhaseGate \<Rightarrow> PhaseGate" where
  "gate_run show4 obs \<equiv> fold (\<lambda>ob g. snd (update_gate show4 ob g)) obs"

lemma weigh_sel [simp]: "observations (weigh ob g) = observations g" "decision (weigh ob g) = decision g" "gate_config (weigh ob g) = gate_config g"
  by (auto simp: weigh_def Let_def)

text \<open>A decision is final: nothing but a reset changes the gate.\<close>

lemma decision_final: "decision g \<noteq> None \<Longrightarrow> gate_run show4 obs g = g"
  by (induction obs) (simp_all add: update_gate_def)

lemma update_gate_config [simp]: "gate_config (snd (update_gate show4 ob g)) = gate_config g"
  by (auto simp: update_gate_def Let_def)

lemma update_gate_step:
  "pg_enabled (gate_config g) \<Longrightarrow> decision g = None \<Longrightarrow> observations (snd (update_gate show4 ob g)) = usize_add (observations g) 1"
  by (auto simp: update_gate_def Let_def)

lemma gate_run_count:
  assumes "pg_enabled cfg" "length obs < 2 ^ 64"
  shows "gate_config (gate_run show4 obs (new_gate cfg)) = cfg
    \<and> (decision (gate_run show4 obs (new_gate cfg)) = None \<longrightarrow> observations (gate_run show4 obs (new_gate cfg)) = length obs)"
  using assms(2)
proof (induction obs rule: rev_induct)
  case (snoc ob obs)
  let ?g = "gate_run show4 obs (new_gate cfg)"
  have "decision ?g = None \<and> observations (snd (update_gate show4 ob ?g)) = length (obs @ [ob])" if "decision (snd (update_gate show4 ob ?g)) = None"
  proof -
    have "decision ?g = None" using that by (cases "decision ?g") (auto simp: update_gate_def)
    then show ?thesis using snoc update_gate_step [of ?g show4 ob] assms(1) by simp
  qed
  then show ?case using snoc by auto
qed (simp add: new_gate_def)

lemma gate_decided:
  assumes "pg_enabled cfg" "timeout_queries cfg \<le> length obs + 1" "length obs + 1 < 2 ^ 64" "is_finite (observed_delta ob)"
  shows "decision (gate_run show4 (obs @ [ob]) (new_gate cfg)) \<noteq> None"
proof -
  let ?g = "gate_run show4 obs (new_gate cfg)"
  have g: "gate_config ?g = cfg" "decision ?g = None \<Longrightarrow> observations ?g = length obs"
    using gate_run_count [OF assms(1)] assms(3) by auto
  have "decision (snd (update_gate show4 ob ?g)) \<noteq> None"
  proof (cases "decision ?g")
    case None
    then have "usize_add (observations ?g) 1 = length obs + 1" using g(2) assms(3) by simp
    then show ?thesis using None g(1) assms by (auto simp: update_gate_def Let_def)
  qed (simp add: update_gate_def)
  then show ?thesis by simp
qed

text \<open>
  Phase gate. An enabled gate has decided after as many observations as its limit if the last one is a finite
  difference, whatever the earlier ones were, and from then on no observation changes it.
\<close>

theorem gate_decides:
  assumes "pg_enabled cfg" "timeout_queries cfg \<le> length obs + 1" "length obs + 1 < 2 ^ 64" "is_finite (observed_delta ob)"
  shows "\<exists>d. decision (gate_run show4 (obs @ [ob]) (new_gate cfg)) = Some d
    \<and> gate_run show4 (obs @ [ob] @ later) (new_gate cfg) = gate_run show4 (obs @ [ob]) (new_gate cfg)"
  using gate_decided [OF assms] decision_final by auto

text \<open>
  An observation that is not a finite difference is not weighed, but it counts: after enough of them a single finite one forces the decision,
  for skipping the quality tier unless it is a win of that tier.
\<close>

lemma discarded_observations_count:
  assumes "pg_enabled cfg" "timeout_queries cfg = length obs + 1" "length obs + 1 < 2 ^ 64"
    "\<forall>ob \<in> set obs. \<not> is_finite (observed_delta ob)" "is_finite (observed_delta ob)"
  shows "gate_run show4 obs (new_gate cfg) = (new_gate cfg)\<lparr>observations := length obs\<rparr>"
    "decision (gate_run show4 (obs @ [ob]) (new_gate cfg)) \<noteq> None"
proof -
  show "decision (gate_run show4 (obs @ [ob]) (new_gate cfg)) \<noteq> None" using assms by (intro gate_decided) auto
  show "gate_run show4 obs (new_gate cfg) = (new_gate cfg)\<lparr>observations := length obs\<rparr>"
    using assms(3,4)
  proof (induction obs rule: rev_induct)
    case (snoc x xs)
    then show ?case using assms(1) by (simp add: update_gate_def new_gate_def)
  qed (simp add: new_gate_def)
qed

section \<open>Searching while the query is typed\<close>

record IncrementalConfig =
  min_prefix_len :: nat
  use_hash_embedder_for_short :: bool
  refine_after_pause_ms :: nat
  candidate_pool_size :: nat

definition default_incremental_config :: IncrementalConfig where
  "default_incremental_config =
     \<lparr>min_prefix_len = 2, use_hash_embedder_for_short = True, refine_after_pause_ms = 300, candidate_pool_size = 100\<rparr>"

datatype SearchStrategy = SkipSearch | LexicalPrefixOnly | LexicalPlusHash | HybridFast | FullTwoTier

record SearchPlan =
  strategy :: SearchStrategy
  reuse_candidates :: bool
  candidate_doc_ids :: "string list"

record IncrementalSearcher =
  incremental_config :: IncrementalConfig
  last_query :: "string option"
  last_doc_ids :: "string list"

definition new_incremental :: "IncrementalConfig \<Rightarrow> IncrementalSearcher" where
  "new_incremental cfg = \<lparr>incremental_config = cfg, last_query = None, last_doc_ids = []\<rparr>"

definition is_prefix_extension :: "IncrementalSearcher \<Rightarrow> string \<Rightarrow> bool" where
  "is_prefix_extension s query =
     (case last_query s of None \<Rightarrow> False | Some q \<Rightarrow> length q < length query \<and> prefix q query)"

definition strategy_for_char_count :: "IncrementalConfig \<Rightarrow> nat \<Rightarrow> SearchStrategy" where
  "strategy_for_char_count cfg n =
     (if n < min_prefix_len cfg then SkipSearch
      else if n = 0 then SkipSearch
      else if n \<le> 2 then LexicalPrefixOnly
      else if n \<le> 4 then (if use_hash_embedder_for_short cfg then LexicalPlusHash else HybridFast)
      else HybridFast)"

definition plan_search :: "IncrementalSearcher \<Rightarrow> string \<Rightarrow> SearchPlan" where
  "plan_search s query =
     (if char_count query < min_prefix_len (incremental_config s) then
        \<lparr>strategy = SkipSearch, reuse_candidates = False, candidate_doc_ids = []\<rparr>
      else
        let reuse = (is_prefix_extension s query \<and> last_doc_ids s \<noteq> []) in
        \<lparr>strategy = strategy_for_char_count (incremental_config s) (char_count query), reuse_candidates = reuse,
         candidate_doc_ids = (if reuse then last_doc_ids s else [])\<rparr>)"

definition update_incremental :: "string \<Rightarrow> string list \<Rightarrow> IncrementalSearcher \<Rightarrow> IncrementalSearcher" where
  "update_incremental query result_doc_ids s =
     s\<lparr>last_query := Some query,
       last_doc_ids := (if candidate_pool_size (incremental_config s) < length result_doc_ids
         then take (candidate_pool_size (incremental_config s)) result_doc_ids else result_doc_ids)\<rparr>"

definition should_refine :: "IncrementalSearcher \<Rightarrow> nat \<Rightarrow> bool" where
  "should_refine s millis \<longleftrightarrow> refine_after_pause_ms (incremental_config s) \<le> millis"

definition reset_incremental :: "IncrementalSearcher \<Rightarrow> IncrementalSearcher" where
  "reset_incremental s = s\<lparr>last_query := None, last_doc_ids := []\<rparr>"

definition has_previous_results :: "IncrementalSearcher \<Rightarrow> bool" where
  "has_previous_results s \<longleftrightarrow> last_query s \<noteq> None \<and> last_doc_ids s \<noteq> []"

datatype incremental_op = Searched string "string list" | ResetSearch

fun incremental_step :: "incremental_op \<Rightarrow> IncrementalSearcher \<Rightarrow> IncrementalSearcher" where
  "incremental_step (Searched query ids) s = update_incremental query ids s"
| "incremental_step ResetSearch s = reset_incremental s"

text \<open>A plan that reuses candidates offers the first results of the last search, and that search was for a proper prefix of the query.\<close>

lemma plan_reuses_prefix:
  assumes "reuse_candidates (plan_search (fold incremental_step ops (new_incremental cfg)) query)"
  shows "\<exists>earlier q ids. ops = earlier @ [Searched q ids] \<and> strict_prefix q query
    \<and> candidate_doc_ids (plan_search (fold incremental_step ops (new_incremental cfg)) query) = take (candidate_pool_size cfg) ids"
proof -
  have cfg: "incremental_config (fold incremental_step ops s) = incremental_config s" for ops s
  proof (induction ops arbitrary: s)
    case (Cons op ops)
    then show ?case by (cases op) (simp_all add: update_incremental_def reset_incremental_def)
  qed simp
  show ?thesis
  proof (cases ops rule: rev_cases)
    case Nil
    then show ?thesis using assms by (simp add: plan_search_def new_incremental_def split: if_splits)
  next
    case (snoc earlier op)
    then show ?thesis
    proof (cases op)
      case (Searched q ids)
      have "length q < length query \<and> prefix q query"
        using assms snoc Searched by (auto simp: plan_search_def is_prefix_extension_def update_incremental_def Let_def split: if_splits)
      moreover have "candidate_doc_ids (plan_search (fold incremental_step ops (new_incremental cfg)) query) = take (candidate_pool_size cfg) ids"
        using assms snoc Searched cfg [of earlier "new_incremental cfg"]
        by (auto simp: plan_search_def update_incremental_def new_incremental_def Let_def split: if_splits)
      ultimately show ?thesis using snoc Searched by (auto simp: strict_prefix_def)
    next
      case ResetSearch
      then show ?thesis using assms snoc by (simp add: plan_search_def reset_incremental_def split: if_splits)
    qed
  qed
qed

section \<open>Example\<close>

definition tie :: PhaseObservation where
  "tie = \<lparr>fast_score = F_one, quality_score = F_one, user_signal = None\<rparr>"

theorem gate_decides_witness:
  "\<exists>d. decision (gate_run (\<lambda>_. []) ([tie\<lparr>quality_score := F_NaN\<rparr>] @ [tie]) (new_gate (default_gate_config\<lparr>timeout_queries := 2\<rparr>))) = Some d
    \<and> gate_run (\<lambda>_. []) ([tie\<lparr>quality_score := F_NaN\<rparr>] @ [tie] @ [tie]) (new_gate (default_gate_config\<lparr>timeout_queries := 2\<rparr>))
      = gate_run (\<lambda>_. []) ([tie\<lparr>quality_score := F_NaN\<rparr>] @ [tie]) (new_gate (default_gate_config\<lparr>timeout_queries := 2\<rparr>))"
proof (rule gate_decides)
  show "is_finite (observed_delta tie)"
    using in_unit_sub_one(1) [of F_one] by (simp add: observed_delta_def tie_def in_unit_def)
qed (simp_all add: default_gate_config_def)

end
