(* ===== verification/Fs_Scheduler.thy ===== *)
theory Fs_Scheduler
  imports Rust_Str
begin

text \<open>
  The scheduler that divides the slots of a cycle between ingestion, embedding and queries (the section on workload
  budgets of \<open>frankensearch-fsfs/src/concurrency.rs\<close>). Totals of three \<open>usize\<close> wrap around; the theorems
  are about demands whose total fits.
\<close>

section \<open>Types\<close>

datatype WorkloadClass = Ingest | Embed | Query

fun class_index :: "WorkloadClass \<Rightarrow> nat" where
  "class_index Ingest = 0"
| "class_index Embed = 1"
| "class_index Query = 2"

definition all_classes :: "WorkloadClass list" where
  "all_classes = [Ingest, Embed, Query]"

datatype BudgetSchedulerMode = FairShare | LatencySensitive

record WorkloadDemand =
  ingest_demand :: nat
  embed_demand :: nat
  query_demand :: nat

fun demand_of :: "WorkloadDemand \<Rightarrow> WorkloadClass \<Rightarrow> nat" where
  "demand_of d Ingest = ingest_demand d"
| "demand_of d Embed = embed_demand d"
| "demand_of d Query = query_demand d"

fun set_demand :: "WorkloadClass \<Rightarrow> nat \<Rightarrow> WorkloadDemand \<Rightarrow> WorkloadDemand" where
  "set_demand Ingest v d = d\<lparr>ingest_demand := v\<rparr>"
| "set_demand Embed v d = d\<lparr>embed_demand := v\<rparr>"
| "set_demand Query v d = d\<lparr>query_demand := v\<rparr>"

definition total_demand :: "WorkloadDemand \<Rightarrow> nat" where
  "total_demand d = usize_add (usize_add (ingest_demand d) (embed_demand d)) (query_demand d)"

definition active_classes :: "WorkloadDemand \<Rightarrow> nat" where
  "active_classes d = of_bool (0 < ingest_demand d) + of_bool (0 < embed_demand d) + of_bool (0 < query_demand d)"

record BudgetSchedulerPolicy =
  total_slots :: nat
  admission_limit :: nat
  latency_query_reserve_pct :: nat
  starvation_guard_cycles :: nat

definition normalized :: "BudgetSchedulerPolicy \<Rightarrow> BudgetSchedulerPolicy" where
  "normalized p =
     (let slots = (if total_slots p = 0 then 1 else total_slots p);
          limit = (if admission_limit p = 0 then slots else admission_limit p);
          pct = (if 100 < latency_query_reserve_pct p then 100 else latency_query_reserve_pct p);
          guard = (if starvation_guard_cycles p = 0 then 1 else starvation_guard_cycles p)
      in \<lparr>total_slots = slots, admission_limit = limit, latency_query_reserve_pct = pct, starvation_guard_cycles = guard\<rparr>)"

definition default_scheduler_policy :: BudgetSchedulerPolicy where
  "default_scheduler_policy =
     \<lparr>total_slots = 24, admission_limit = 48, latency_query_reserve_pct = 50, starvation_guard_cycles = 2\<rparr>"

record WorkloadAllocation =
  ingest_slots :: nat
  embed_slots :: nat
  query_slots :: nat
  wa_mode :: BudgetSchedulerMode
  admission_capped :: bool
  starvation_guard_applied :: bool
  wa_reason_code :: string

fun slots_of :: "WorkloadAllocation \<Rightarrow> WorkloadClass \<Rightarrow> nat" where
  "slots_of al Ingest = ingest_slots al"
| "slots_of al Embed = embed_slots al"
| "slots_of al Query = query_slots al"

fun set_slots :: "WorkloadClass \<Rightarrow> nat \<Rightarrow> WorkloadAllocation \<Rightarrow> WorkloadAllocation" where
  "set_slots Ingest v al = al\<lparr>ingest_slots := v\<rparr>"
| "set_slots Embed v al = al\<lparr>embed_slots := v\<rparr>"
| "set_slots Query v al = al\<lparr>query_slots := v\<rparr>"

definition allocated :: "WorkloadAllocation \<Rightarrow> nat" where
  "allocated al = usize_add (usize_add (ingest_slots al) (embed_slots al)) (query_slots al)"

definition no_slots :: "BudgetSchedulerMode \<Rightarrow> string \<Rightarrow> WorkloadAllocation" where
  "no_slots mode reason = \<lparr>ingest_slots = 0, embed_slots = 0, query_slots = 0, wa_mode = mode, admission_capped = False,
     starvation_guard_applied = False, wa_reason_code = reason\<rparr>"

datatype PermitState = Reserved | Committed | Cancelled

record WorkloadPermit =
  permit_class :: WorkloadClass
  permit_slots :: nat
  permit_state :: PermitState

text \<open>The arrays have one cell for each class.\<close>

record WorkloadBudgetScheduler =
  scheduler_policy :: BudgetSchedulerPolicy
  starvation_counters :: "nat list"
  rr_cursor :: nat
  reserved :: "nat list"
  inflight :: "nat list"

definition new_scheduler :: "BudgetSchedulerPolicy \<Rightarrow> WorkloadBudgetScheduler" where
  "new_scheduler p = \<lparr>scheduler_policy = normalized p, starvation_counters = [0, 0, 0], rr_cursor = 0,
     reserved = [0, 0, 0], inflight = [0, 0, 0]\<rparr>"

section \<open>Dividing the slots\<close>

definition class_order :: "nat \<Rightarrow> WorkloadClass list" where
  "class_order cursor = [all_classes ! (cursor mod 3), all_classes ! ((cursor + 1) mod 3), all_classes ! ((cursor + 2) mod 3)]"

text \<open>The first round gives every class its share; \<open>remainder\<close> slots are left for the first classes that want more.\<close>

fun share_round :: "WorkloadDemand \<Rightarrow> nat \<Rightarrow> WorkloadClass list \<Rightarrow> nat \<Rightarrow> WorkloadAllocation \<Rightarrow> WorkloadAllocation" where
  "share_round d base [] remainder al = al"
| "share_round d base (c # cs) remainder al =
     (if demand_of d c = 0 then share_round d base cs remainder al
      else
        let slots = min base (demand_of d c) in
        if 0 < remainder \<and> slots < demand_of d c then share_round d base cs (remainder - 1) (set_slots c (slots + 1) al)
        else share_round d base cs remainder (set_slots c slots al))"

text \<open>One round of the second loop; the result says whether it has progressed.\<close>

fun fill_round :: "WorkloadDemand \<Rightarrow> nat \<Rightarrow> WorkloadClass list \<Rightarrow> WorkloadAllocation \<Rightarrow> bool \<times> WorkloadAllocation" where
  "fill_round d slots [] al = (False, al)"
| "fill_round d slots (c # cs) al =
     (if demand_of d c \<le> slots_of al c then fill_round d slots cs al
      else
        let al' = set_slots c (slots_of al c + 1) al in
        if allocated al' = slots then (True, al') else (True, snd (fill_round d slots cs al')))"

definition unmet :: "WorkloadDemand \<Rightarrow> WorkloadAllocation \<Rightarrow> nat" where
  "unmet d al = (ingest_demand d - ingest_slots al) + (embed_demand d - embed_slots al) + (query_demand d - query_slots al)"

lemma unmet_less: "slots_of al c < demand_of d c \<Longrightarrow> unmet d (set_slots c (slots_of al c + 1) al) < unmet d al"
  by (cases c) (simp_all add: unmet_def)

lemma fill_round_unmet:
  "unmet d (snd (fill_round d slots cs al)) \<le> unmet d al \<and> (fst (fill_round d slots cs al) \<longrightarrow> unmet d (snd (fill_round d slots cs al)) < unmet d al)"
proof (induction d slots cs al rule: fill_round.induct)
  case (2 d slots c cs al)
  then show ?case using unmet_less [of al c d] by (cases "demand_of d c \<le> slots_of al c") (fastforce simp: Let_def not_le)+
qed simp

function fill_slots :: "WorkloadDemand \<Rightarrow> nat \<Rightarrow> WorkloadClass list \<Rightarrow> WorkloadAllocation \<Rightarrow> WorkloadAllocation" where
  "fill_slots d slots order al =
     (if allocated al < slots then
        (case fill_round d slots order al of (progressed, al') \<Rightarrow> if \<not> progressed then al' else fill_slots d slots order al')
      else al)"
  by pat_completeness auto
termination
  by (relation "measure (\<lambda>(d, slots, order, al). unmet d al)") (auto, metis fill_round_unmet fst_conv snd_conv)

declare fill_slots.simps [simp del]

definition fair_share_allocate :: "WorkloadDemand \<Rightarrow> nat \<Rightarrow> nat \<Rightarrow> WorkloadAllocation" where
  "fair_share_allocate d slots cursor =
     (let none = no_slots FairShare ''scheduler.plan.fair_share''; active = active_classes d in
      if active = 0 \<or> slots = 0 then none
      else fill_slots d slots (class_order cursor) (share_round d (slots div active) (class_order cursor) (slots mod active) none))"

text \<open>The last loop, over the slots that remain.\<close>

fun hand_out :: "WorkloadDemand \<Rightarrow> WorkloadClass list \<Rightarrow> nat \<Rightarrow> WorkloadAllocation \<Rightarrow> WorkloadAllocation" where
  "hand_out d [] remaining al = al"
| "hand_out d (c # cs) remaining al =
     (if remaining = 0 then al
      else
        let headroom = demand_of d c - slots_of al c in
        if headroom = 0 then hand_out d cs remaining al
        else let n = min headroom remaining in hand_out d cs (remaining - n) (set_slots c (slots_of al c + n) al))"

definition latency_sensitive_allocate :: "WorkloadDemand \<Rightarrow> nat \<Rightarrow> BudgetSchedulerPolicy \<Rightarrow> WorkloadAllocation" where
  "latency_sensitive_allocate d slots p =
     (let none = no_slots LatencySensitive ''scheduler.plan.latency_sensitive'' in
      if slots = 0 \<or> total_demand d = 0 then none
      else
        let query_floor = sat_mul slots (latency_query_reserve_pct p) div 100;
            query_reserved = min (query_demand d) (max query_floor (of_bool (0 < query_demand d)));
            al = none\<lparr>query_slots := query_reserved\<rparr>;
            remaining = slots - query_reserved;
            others = fair_share_allocate (d\<lparr>query_demand := 0\<rparr>) remaining 0;
            al = al\<lparr>ingest_slots := ingest_slots others, embed_slots := embed_slots others\<rparr>;
            remaining = remaining - allocated others;
            extra_query = (if 0 < remaining then min (query_demand d - query_slots al) remaining else 0);
            al = al\<lparr>query_slots := query_slots al + extra_query\<rparr>
        in hand_out d [Ingest, Embed, Query] (remaining - extra_query) al)"

section \<open>Admission\<close>

fun highest_from :: "WorkloadDemand \<Rightarrow> WorkloadClass list \<Rightarrow> WorkloadClass \<Rightarrow> nat \<Rightarrow> WorkloadClass" where
  "highest_from d [] best best_value = best"
| "highest_from d (c # cs) best best_value =
     (if best_value < demand_of d c then highest_from d cs c (demand_of d c) else highest_from d cs best best_value)"

definition highest_demand_class :: "WorkloadDemand \<Rightarrow> nat \<Rightarrow> WorkloadClass" where
  "highest_demand_class d cursor = highest_from d (class_order cursor) Ingest 0"

definition class_to_cut :: "BudgetSchedulerMode \<Rightarrow> nat \<Rightarrow> WorkloadDemand \<Rightarrow> WorkloadClass" where
  "class_to_cut mode cursor d =
     (case mode of
        LatencySensitive \<Rightarrow> if 0 < ingest_demand d then Ingest else if 0 < embed_demand d then Embed else Query
      | FairShare \<Rightarrow> highest_demand_class d cursor)"

lemma class_orders: "class_order cursor \<in> {[Ingest, Embed, Query], [Embed, Query, Ingest], [Query, Ingest, Embed]}"
proof -
  consider "cursor mod 3 = 0" | "cursor mod 3 = 1" | "cursor mod 3 = 2" by linarith
  then show ?thesis by cases (auto simp: class_order_def all_classes_def mod_Suc numeral_2_eq_2)
qed

lemma set_all_classes: "set (class_order cursor) = {Ingest, Embed, Query}"
  using class_orders [of cursor] by auto

lemma highest_from_pos:
  "v \<le> demand_of d b \<Longrightarrow> demand_of d (highest_from d cs b v) \<ge> v \<and> (\<forall>c \<in> set cs. demand_of d c \<le> demand_of d (highest_from d cs b v))"
  by (induction d cs b v rule: highest_from.induct) (auto intro: order_trans)

lemma cut_positive:
  assumes "0 < total_demand d"
  shows "0 < demand_of d (class_to_cut mode cursor d)"
proof -
  have "\<exists>c. 0 < demand_of d c"
  proof (rule ccontr)
    assume "\<nexists>c. 0 < demand_of d c"
    then have "demand_of d c = 0" for c by simp
    from this [of Ingest] this [of Embed] this [of Query] show False using assms by (simp add: total_demand_def)
  qed
  then obtain c where c: "0 < demand_of d c" by blast
  have "demand_of d c \<le> demand_of d (highest_demand_class d cursor)"
    using highest_from_pos [of 0 d Ingest "class_order cursor"] by (cases c) (simp_all add: highest_demand_class_def set_all_classes)
  then have "0 < demand_of d (highest_demand_class d cursor)" using c by simp
  then show ?thesis using c by (cases mode; cases c) (auto simp: class_to_cut_def)
qed

function cap_demand :: "nat \<Rightarrow> BudgetSchedulerMode \<Rightarrow> nat \<Rightarrow> WorkloadDemand \<Rightarrow> WorkloadDemand" where
  "cap_demand limit mode cursor d =
     (if limit < total_demand d then
        let c = class_to_cut mode cursor d in cap_demand limit mode cursor (set_demand c (demand_of d c - 1) d)
      else d)"
  by pat_completeness auto
termination
proof (relation "measure (\<lambda>(limit, mode, cursor, d). ingest_demand d + embed_demand d + query_demand d)")
  fix limit mode cursor d c
  assume "limit < total_demand d" "c = class_to_cut mode cursor d"
  then have "0 < demand_of d c" using cut_positive [of d mode cursor] by simp
  then show "((limit, mode, cursor, set_demand c (demand_of d c - 1) d), limit, mode, cursor, d)
    \<in> measure (\<lambda>(limit, mode, cursor, d). ingest_demand d + embed_demand d + query_demand d)"
    by (cases c) simp_all
qed simp

declare cap_demand.simps [simp del]

section \<open>A cycle\<close>

fun donor_from :: "WorkloadAllocation \<Rightarrow> WorkloadClass \<Rightarrow> WorkloadClass list \<Rightarrow> WorkloadClass option \<Rightarrow> nat \<Rightarrow> WorkloadClass option" where
  "donor_from al starving [] donor donor_slots = donor"
| "donor_from al starving (c # cs) donor donor_slots =
     (if c = starving then donor_from al starving cs donor donor_slots
      else if donor_slots < slots_of al c then donor_from al starving cs (Some c) (slots_of al c)
      else donor_from al starving cs donor donor_slots)"

definition donor_class :: "WorkloadAllocation \<Rightarrow> WorkloadClass \<Rightarrow> WorkloadClass option" where
  "donor_class al starving =
     (case donor_from al starving all_classes None 0 of
        Some c \<Rightarrow> if 0 < slots_of al c then Some c else None
      | None \<Rightarrow> None)"

definition donate :: "WorkloadClass \<Rightarrow> WorkloadClass \<Rightarrow> WorkloadAllocation \<Rightarrow> WorkloadAllocation" where
  "donate donor c al = (let al = set_slots c (slots_of al c + 1) al in set_slots donor (slots_of al donor - 1) al)"

text \<open>The loop of the starvation guard; the flag is \<open>applied\<close>.\<close>

fun guard_classes :: "WorkloadBudgetScheduler \<Rightarrow> WorkloadDemand \<Rightarrow> WorkloadClass list \<Rightarrow> bool \<times> WorkloadAllocation \<Rightarrow> bool \<times> WorkloadAllocation" where
  "guard_classes s d [] r = r"
| "guard_classes s d (c # cs) (applied, al) =
     (if demand_of d c = 0 \<or> 0 < slots_of al c
        \<or> starvation_counters s ! class_index c < starvation_guard_cycles (scheduler_policy s) then guard_classes s d cs (applied, al)
      else
        case donor_class al c of
          Some donor \<Rightarrow> guard_classes s d cs (True, donate donor c al)
        | None \<Rightarrow> guard_classes s d cs (applied, al))"

definition apply_starvation_guard :: "WorkloadBudgetScheduler \<Rightarrow> WorkloadDemand \<Rightarrow> WorkloadAllocation \<Rightarrow> bool \<times> WorkloadAllocation" where
  "apply_starvation_guard s d al = guard_classes s d all_classes (False, al)"

definition next_counter :: "WorkloadDemand \<Rightarrow> WorkloadAllocation \<Rightarrow> WorkloadClass \<Rightarrow> nat \<Rightarrow> nat" where
  "next_counter d al c n = (if demand_of d c = 0 then 0 else if slots_of al c = 0 then min 255 (n + 1) else 0)"

definition update_starvation_counters :: "WorkloadDemand \<Rightarrow> WorkloadAllocation \<Rightarrow> WorkloadBudgetScheduler \<Rightarrow> WorkloadBudgetScheduler" where
  "update_starvation_counters d al s =
     s\<lparr>starvation_counters :=
         fold (\<lambda>c ns. ns[class_index c := next_counter d al c (ns ! class_index c)]) all_classes (starvation_counters s)\<rparr>"

definition bump_cursor :: "WorkloadBudgetScheduler \<Rightarrow> WorkloadBudgetScheduler" where
  "bump_cursor s = s\<lparr>rr_cursor := usize_add (rr_cursor s) 1 mod 3\<rparr>"

fun allocation_reason :: "BudgetSchedulerMode \<Rightarrow> bool \<Rightarrow> bool \<Rightarrow> string" where
  "allocation_reason FairShare False False = ''scheduler.plan.fair_share''"
| "allocation_reason FairShare True False = ''scheduler.plan.fair_share.capped''"
| "allocation_reason FairShare False True = ''scheduler.plan.fair_share.starvation_guard''"
| "allocation_reason FairShare True True = ''scheduler.plan.fair_share.capped_starvation_guard''"
| "allocation_reason LatencySensitive False False = ''scheduler.plan.latency_sensitive''"
| "allocation_reason LatencySensitive True False = ''scheduler.plan.latency_sensitive.capped''"
| "allocation_reason LatencySensitive False True = ''scheduler.plan.latency_sensitive.starvation_guard''"
| "allocation_reason LatencySensitive True True = ''scheduler.plan.latency_sensitive.capped_starvation_guard''"

text \<open>The demand that is admitted to a cycle, and whether it was capped.\<close>

definition admit :: "WorkloadBudgetScheduler \<Rightarrow> BudgetSchedulerMode \<Rightarrow> WorkloadDemand \<Rightarrow> WorkloadDemand \<times> bool" where
  "admit s mode d =
     (if admission_limit (scheduler_policy s) < total_demand d
      then (cap_demand (admission_limit (scheduler_policy s)) mode (rr_cursor s) d, True) else (d, False))"

definition plan_cycle :: "WorkloadDemand \<Rightarrow> BudgetSchedulerMode \<Rightarrow> WorkloadBudgetScheduler \<Rightarrow> WorkloadAllocation \<times> WorkloadBudgetScheduler" where
  "plan_cycle demand mode s =
     (case admit s mode demand of (d, capped) \<Rightarrow>
        let p = scheduler_policy s;
            al = (case mode of
                    FairShare \<Rightarrow> fair_share_allocate d (total_slots p) (rr_cursor s)
                  | LatencySensitive \<Rightarrow> latency_sensitive_allocate d (total_slots p) p);
            s = bump_cursor s
        in case apply_starvation_guard s d al of (guarded, al) \<Rightarrow>
             (\<lparr>ingest_slots = ingest_slots al, embed_slots = embed_slots al, query_slots = query_slots al, wa_mode = mode,
                admission_capped = capped, starvation_guard_applied = guarded, wa_reason_code = allocation_reason mode capped guarded\<rparr>,
              update_starvation_counters d al s))"

section \<open>Permits\<close>

definition total_reserved :: "WorkloadBudgetScheduler \<Rightarrow> nat" where
  "total_reserved s = foldl usize_add 0 (reserved s)"

definition total_inflight_reserved :: "WorkloadBudgetScheduler \<Rightarrow> nat" where
  "total_inflight_reserved s = usize_add (foldl usize_add 0 (inflight s)) (total_reserved s)"

definition reserve :: "WorkloadClass \<Rightarrow> nat \<Rightarrow> WorkloadBudgetScheduler \<Rightarrow> (string + WorkloadPermit) \<times> WorkloadBudgetScheduler" where
  "reserve c slots s =
     (if slots = 0 then (Err ''scheduler.reserve.zero_slots'', s)
      else if admission_limit (scheduler_policy s) < sat_add (total_reserved s) slots then (Err ''scheduler.reserve.admission_limited'', s)
      else if total_slots (scheduler_policy s) < sat_add (total_inflight_reserved s) slots then (Err ''scheduler.reserve.capacity_exhausted'', s)
      else (Ok \<lparr>permit_class = c, permit_slots = slots, permit_state = Reserved\<rparr>,
            s\<lparr>reserved := (reserved s)[class_index c := sat_add (reserved s ! class_index c) slots]\<rparr>))"

definition commit_permit :: "WorkloadPermit \<Rightarrow> WorkloadBudgetScheduler \<Rightarrow> (string + unit) \<times> WorkloadPermit \<times> WorkloadBudgetScheduler" where
  "commit_permit permit s =
     (if permit_state permit \<noteq> Reserved then (Err ''scheduler.commit.invalid_state'', permit, s)
      else
        let i = class_index (permit_class permit) in
        (Ok (), permit\<lparr>permit_state := Committed\<rparr>,
         s\<lparr>reserved := (reserved s)[i := reserved s ! i - permit_slots permit],
           inflight := (inflight s)[i := sat_add (inflight s ! i) (permit_slots permit)]\<rparr>))"

definition cancel_permit :: "WorkloadPermit \<Rightarrow> WorkloadBudgetScheduler \<Rightarrow> (string + unit) \<times> WorkloadPermit \<times> WorkloadBudgetScheduler" where
  "cancel_permit permit s =
     (if permit_state permit \<noteq> Reserved then (Err ''scheduler.cancel.invalid_state'', permit, s)
      else
        let i = class_index (permit_class permit) in
        (Ok (), permit\<lparr>permit_state := Cancelled\<rparr>, s\<lparr>reserved := (reserved s)[i := reserved s ! i - permit_slots permit]\<rparr>))"

definition complete :: "WorkloadClass \<Rightarrow> nat \<Rightarrow> WorkloadBudgetScheduler \<Rightarrow> (string + unit) \<times> WorkloadBudgetScheduler" where
  "complete c slots s =
     (let i = class_index c in
      if inflight s ! i < slots then (Err ''scheduler.complete.underflow'', s)
      else (Ok (), s\<lparr>inflight := (inflight s)[i := inflight s ! i - slots]\<rparr>))"

section \<open>Every slot is used\<close>

abbreviation demand_sum :: "WorkloadDemand \<Rightarrow> nat" where "demand_sum d \<equiv> ingest_demand d + embed_demand d + query_demand d"
abbreviation slot_sum :: "WorkloadAllocation \<Rightarrow> nat" where "slot_sum al \<equiv> ingest_slots al + embed_slots al + query_slots al"

definition fits :: "WorkloadAllocation \<Rightarrow> WorkloadDemand \<Rightarrow> bool" where
  "fits al d \<longleftrightarrow> (\<forall>c. slots_of al c \<le> demand_of d c)"

lemma fitsI: "ingest_slots al \<le> ingest_demand d \<Longrightarrow> embed_slots al \<le> embed_demand d \<Longrightarrow> query_slots al \<le> query_demand d \<Longrightarrow> fits al d"
  unfolding fits_def by (intro allI, case_tac c) simp_all

lemma fitsD: "fits al d \<Longrightarrow> ingest_slots al \<le> ingest_demand d \<and> embed_slots al \<le> embed_demand d \<and> query_slots al \<le> query_demand d"
  unfolding fits_def by (metis demand_of.simps slots_of.simps)

lemma slots_of_set [simp]: "slots_of (set_slots c v al) c' = (if c = c' then v else slots_of al c')"
  by (cases c; cases c') simp_all

lemma slot_sum_set: "slot_sum (set_slots c v al) + slots_of al c = slot_sum al + v"
  by (cases c) simp_all

lemma slot_sum_set_less: "slot_sum (set_slots c (slots_of al c + 1) al) = slot_sum al + 1"
  using slot_sum_set [of c "slots_of al c + 1" al] by simp

lemma fits_sum: "fits al d \<Longrightarrow> slot_sum al \<le> demand_sum d"
  using fitsD by fastforce

lemma allocated_sum: "fits al d \<Longrightarrow> demand_sum d < 2 ^ 64 \<Longrightarrow> allocated al = slot_sum al"
  using fits_sum [of al d] by (simp add: allocated_def)

lemma total_demand_sum: "demand_sum d < 2 ^ 64 \<Longrightarrow> total_demand d = demand_sum d"
  by (simp add: total_demand_def)

lemma share_round_fits:
  "fits al d \<Longrightarrow> fits (share_round d base cs r al) d"
  by (induction d base cs r al rule: share_round.induct) (auto simp: Let_def fits_def)

lemma share_round_sum:
  "\<lbrakk>distinct cs; \<forall>c \<in> set cs. slots_of al c = 0\<rbrakk>
    \<Longrightarrow> slot_sum (share_round d base cs r al) \<le> slot_sum al + base * length (filter (\<lambda>c. 0 < demand_of d c) cs) + r"
proof (induction d base cs r al rule: share_round.induct)
  case (2 d base c cs r al)
  have s: "slot_sum (set_slots c v al) = slot_sum al + v" for v using slot_sum_set [of c v al] 2(4,5) by simp
  have d: "distinct cs" using 2(4) by simp
  have z: "\<forall>c' \<in> set cs. slots_of (set_slots c v al) c' = 0" for v using 2(4,5) by auto
  show ?case
  proof (cases "demand_of d c = 0")
    case False
    let ?slots = "min base (demand_of d c)"
    show ?thesis
    proof (cases "0 < r \<and> ?slots < demand_of d c")
      case True
      then have "slot_sum (share_round d base cs (r - 1) (set_slots c (?slots + 1) al))
        \<le> slot_sum al + (?slots + 1) + base * length (filter (\<lambda>c. 0 < demand_of d c) cs) + (r - 1)"
        using 2(2) [OF False refl True d z] s by simp
      moreover have "?slots = base" using True by auto
      ultimately show ?thesis using True False by (simp add: Let_def)
    next
      case stop: False
      then have "slot_sum (share_round d base cs r (set_slots c ?slots al))
        \<le> slot_sum al + ?slots + base * length (filter (\<lambda>c. 0 < demand_of d c) cs) + r"
        using 2(3) [OF False refl stop d z] s by simp
      also have "\<dots> \<le> slot_sum al + base + base * length (filter (\<lambda>c. 0 < demand_of d c) cs) + r" by simp
      finally show ?thesis using stop False by (auto simp: Let_def)
    qed
  qed (use 2 in simp)
qed simp


lemma fill_round_fits:
  assumes "demand_sum d < 2 ^ 64"
  shows "\<lbrakk>fits al d; slot_sum al < slots\<rbrakk> \<Longrightarrow> case fill_round d slots cs al of (progressed, al') \<Rightarrow>
    fits al' d \<and> slot_sum al' \<le> slots \<and> (\<not> progressed \<longrightarrow> al' = al \<and> (\<forall>c \<in> set cs. demand_of d c \<le> slots_of al c))"
proof (induction cs arbitrary: al)
  case (Cons c cs)
  show ?case
  proof (cases "demand_of d c \<le> slots_of al c")
    case False
    let ?al = "set_slots c (slots_of al c + 1) al"
    have fits: "fits ?al d" using Cons.prems(1) False by (simp add: fits_def)
    have sum: "slot_sum ?al = slot_sum al + 1" by (rule slot_sum_set_less)
    have total: "allocated ?al = slot_sum al + 1" using allocated_sum [OF fits assms] sum by simp
    show ?thesis
    proof (cases "slot_sum al + 1 = slots")
      case True
      then show ?thesis using False fits sum total by (simp add: Let_def)
    next
      case more_left: False
      then have "slot_sum ?al < slots" using Cons.prems(2) sum by linarith
      from Cons.IH [OF fits this] show ?thesis using False total more_left by (simp add: Let_def split: prod.splits)
    qed
  qed (use Cons in \<open>simp split: prod.splits\<close>)
qed simp

lemma fill_slots_full:
  assumes "demand_sum d < 2 ^ 64" "set order = {Ingest, Embed, Query}" "fits al d" "slot_sum al \<le> slots"
  shows "fits (fill_slots d slots order al) d \<and> slot_sum (fill_slots d slots order al) = min slots (demand_sum d)"
  using assms
proof (induction d slots order al rule: fill_slots.induct)
  case (1 d slots order al)
  show ?case
  proof (cases "slot_sum al < slots")
    case True
    then have less: "allocated al < slots" using allocated_sum 1(4,2) by simp
    obtain progressed al' where r: "fill_round d slots order al = (progressed, al')" by fastforce
    have step: "fits al' d" "slot_sum al' \<le> slots" "\<not> progressed \<Longrightarrow> al' = al \<and> (\<forall>c \<in> set order. demand_of d c \<le> slots_of al c)"
      using fill_round_fits [OF 1(2,4) True, of order] by (simp_all add: r)
    show ?thesis
    proof (cases progressed)
      case True
      then show ?thesis using 1(1) [OF less] less r step(1,2) 1(2,3) by (subst (1 2 3 4) fill_slots.simps) simp
    next
      case False
      then have "demand_sum d \<le> slot_sum al" using step(3) 1(3) by simp
      then show ?thesis using False step(3) less r 1(4) True fits_sum [OF 1(4)] by (subst (1 2 3 4) fill_slots.simps) simp
    qed
  next
    case False
    then have "slot_sum al = slots" using 1(5) by simp
    then show ?thesis using allocated_sum [OF 1(4,2)] fits_sum [OF 1(4)] 1(4) by (subst (1 2 3 4) fill_slots.simps) simp
  qed
qed

lemma no_slots_fits [simp]: "fits (no_slots m r) d" "slot_sum (no_slots m r) = 0" "slots_of (no_slots m r) c = 0"
  by (cases c; simp add: fitsI no_slots_def)+

lemma active_order: "length (filter (\<lambda>c. 0 < demand_of d c) (class_order cursor)) = active_classes d"
  using class_orders [of cursor] by (auto simp: active_classes_def)

lemma fair_share_full:
  assumes "demand_sum d < 2 ^ 64"
  shows "fits (fair_share_allocate d slots cursor) d \<and> slot_sum (fair_share_allocate d slots cursor) = min slots (demand_sum d)"
proof (cases "active_classes d = 0 \<or> slots = 0")
  case True
  then show ?thesis by (auto simp: fair_share_allocate_def Let_def active_classes_def)
next
  case False
  let ?al = "share_round d (slots div active_classes d) (class_order cursor) (slots mod active_classes d)
    (no_slots FairShare ''scheduler.plan.fair_share'')"
  have d: "distinct (class_order cursor)" using class_orders [of cursor] by auto
  have "slot_sum ?al \<le> slots div active_classes d * active_classes d + slots mod active_classes d"
    using share_round_sum [OF d, of "no_slots FairShare ''scheduler.plan.fair_share''" d "slots div active_classes d" "slots mod active_classes d"]
    by (simp add: active_order)
  then have "slot_sum ?al \<le> slots" by simp
  moreover have "fits ?al d" by (rule share_round_fits) simp
  ultimately show ?thesis using fill_slots_full [OF assms set_all_classes] False by (simp add: fair_share_allocate_def Let_def)
qed

lemma hand_out_nothing: "remaining = 0 \<or> (\<forall>c \<in> set cs. demand_of d c \<le> slots_of al c) \<Longrightarrow> hand_out d cs remaining al = al"
  by (induction d cs remaining al rule: hand_out.induct) (auto simp: Let_def)

lemma latency_full:
  assumes small: "demand_sum d < 2 ^ 64" and "latency_query_reserve_pct p \<le> 100" "0 < slots"
  shows "fits (latency_sensitive_allocate d slots p) d \<and> slot_sum (latency_sensitive_allocate d slots p) = min slots (demand_sum d)"
proof (cases "total_demand d = 0")
  case True
  then show ?thesis using total_demand_sum [OF small] by (simp add: latency_sensitive_allocate_def)
next
  case False
  let ?none = "no_slots LatencySensitive ''scheduler.plan.latency_sensitive''" and ?d = "d\<lparr>query_demand := 0\<rparr>"
  define qr where "qr = min (query_demand d) (max (sat_mul slots (latency_query_reserve_pct p) div 100) (of_bool (0 < query_demand d)))"
  define others where "others = fair_share_allocate ?d (slots - qr) 0"
  define r where "r = slots - qr - allocated others"
  define extra where "extra = (if 0 < r then min (query_demand d - qr) r else 0)"
  define al where "al = ?none\<lparr>query_slots := qr + extra, ingest_slots := ingest_slots others, embed_slots := embed_slots others\<rparr>"
  have "sat_mul slots (latency_query_reserve_pct p) \<le> slots * 100"
    using mult_le_mono2 [OF assms(2), of slots] by (simp add: sat_mul_def min.coboundedI1)
  then have "sat_mul slots (latency_query_reserve_pct p) div 100 \<le> slots" by simp
  then have qr: "qr \<le> query_demand d" "qr \<le> slots" using assms(3) by (auto simp: qr_def)
  have o: "fits others ?d" "slot_sum others = min (slots - qr) (ingest_demand d + embed_demand d)"
    using fair_share_full [of ?d "slots - qr" 0] small by (simp_all add: others_def)
  have bounds: "ingest_slots others \<le> ingest_demand d" "embed_slots others \<le> embed_demand d" "query_slots others = 0"
    using fitsD [OF o(1)] by simp_all
  have total: "allocated others = slot_sum others" using allocated_sum [OF o(1)] small by simp
  have nonempty: "(slots = 0 \<or> total_demand d = 0) = False" using False assms(3) by simp
  have result: "latency_sensitive_allocate d slots p = hand_out d [Ingest, Embed, Query] (r - extra) al"
    by (simp only: latency_sensitive_allocate_def Let_def nonempty if_False no_slots_def WorkloadAllocation.simps
      qr_def others_def r_def extra_def al_def)
  have fits: "fits al d" using bounds qr by (intro fitsI) (auto simp: al_def extra_def)
  have sum: "slot_sum al = min slots (demand_sum d)"
    using o(2) bounds qr total by (auto simp: al_def extra_def r_def)
  have "r - extra = 0 \<or> (\<forall>c \<in> set [Ingest, Embed, Query]. demand_of d c \<le> slots_of al c)"
    using o(2) bounds qr total by (auto simp: al_def extra_def r_def)
  then show ?thesis using fits sum by (simp only: result hand_out_nothing)
qed

text \<open>What is admitted.\<close>

lemma cap_demand_facts:
  "demand_sum d < 2 ^ 64 \<Longrightarrow> (\<forall>c. demand_of (cap_demand limit mode cursor d) c \<le> demand_of d c)
     \<and> demand_sum (cap_demand limit mode cursor d) = min limit (demand_sum d)"
proof (induction limit mode cursor d rule: cap_demand.induct)
  case (1 limit mode cursor d)
  show ?case
  proof (cases "limit < total_demand d")
    case True
    let ?c = "class_to_cut mode cursor d"
    let ?d = "set_demand ?c (demand_of d ?c - 1) d"
    have "0 < demand_of d ?c" using True by (intro cut_positive) simp
    then have less: "demand_sum ?d = demand_sum d - 1" "\<forall>c. demand_of ?d c \<le> demand_of d c"
      by (cases ?c; simp; intro allI; case_tac c; simp)+
    have rec: "cap_demand limit mode cursor d = cap_demand limit mode cursor ?d"
      using True by (subst cap_demand.simps) (simp add: Let_def)
    have small: "demand_sum ?d < 2 ^ 64" using 1(2) less by linarith
    have IH: "\<forall>c. demand_of (cap_demand limit mode cursor ?d) c \<le> demand_of ?d c"
      "demand_sum (cap_demand limit mode cursor ?d) = min limit (demand_sum ?d)"
      using 1(1) [OF True refl small] by blast+
    have "limit < demand_sum d" using True total_demand_sum 1(2) by simp
    then have "min limit (demand_sum ?d) = min limit (demand_sum d)" using less by simp
    then show ?thesis using IH less(2) unfolding rec by (metis le_trans)
  next
    case False
    then have "cap_demand limit mode cursor d = d" by (subst cap_demand.simps) simp
    then show ?thesis using False total_demand_sum 1(2) by simp
  qed
qed

lemma admit_facts:
  assumes "demand_sum d < 2 ^ 64" "admit s mode d = (d', capped)"
  shows "\<forall>c. demand_of d' c \<le> demand_of d c" "demand_sum d' = min (admission_limit (scheduler_policy s)) (demand_sum d)"
    "capped \<longleftrightarrow> admission_limit (scheduler_policy s) < demand_sum d"
  using assms(2) cap_demand_facts [OF assms(1), of "admission_limit (scheduler_policy s)" mode "rr_cursor s"] total_demand_sum [OF assms(1)]
  by (auto simp: admit_def split: if_splits)


text \<open>The starvation guard.\<close>

definition donor_ok :: "WorkloadAllocation \<Rightarrow> WorkloadClass \<Rightarrow> WorkloadClass option \<Rightarrow> nat \<Rightarrow> bool" where
  "donor_ok al c b v \<longleftrightarrow> (case b of None \<Rightarrow> v = 0 | Some y \<Rightarrow> y \<noteq> c \<and> slots_of al y = v \<and> 0 < v)"

lemma donor_from_facts:
  "donor_ok al c b v \<Longrightarrow>
    \<exists>w. donor_ok al c (donor_from al c cs b v) w \<and> v \<le> w \<and> (\<forall>z \<in> set cs. z \<noteq> c \<longrightarrow> slots_of al z \<le> w)"
proof (induction al c cs b v rule: donor_from.induct)
  case (2 al c z cs b v)
  show ?case
  proof (cases "z \<noteq> c \<and> v < slots_of al z")
    case True
    then have "donor_ok al c (Some z) (slots_of al z)" by (simp add: donor_ok_def)
    from 2(2) [OF _ _ this] True show ?thesis by (auto intro: less_imp_le order_trans)
  next
    case False
    then show ?thesis using 2(1,3) 2(4) by (cases "z = c") (auto simp: not_less intro: order_trans)
  qed
qed auto

lemma donor_class_SomeD:
  assumes "donor_class al c = Some x"
  shows "x \<noteq> c" "0 < slots_of al x" "z \<noteq> c \<Longrightarrow> slots_of al z \<le> slots_of al x"
proof -
  have "donor_ok al c None 0" by (simp add: donor_ok_def)
  from donor_from_facts [OF this, of all_classes]
  obtain w where "donor_ok al c (donor_from al c all_classes None 0) w" and max: "\<forall>z \<in> set all_classes. z \<noteq> c \<longrightarrow> slots_of al z \<le> w"
    by blast
  then show "x \<noteq> c" "0 < slots_of al x" using assms by (auto simp: donor_class_def donor_ok_def split: option.splits if_splits)
  have "slots_of al x = w" using \<open>donor_ok al c _ w\<close> assms by (auto simp: donor_class_def donor_ok_def split: option.splits if_splits)
  moreover have "z \<in> set all_classes" by (cases z) (simp_all add: all_classes_def)
  ultimately show "z \<noteq> c \<Longrightarrow> slots_of al z \<le> slots_of al x" using max by blast
qed

lemma donor_class_None:
  assumes "donor_class al c = None" "z \<noteq> c"
  shows "slots_of al z = 0"
proof -
  have "donor_ok al c None 0" by (simp add: donor_ok_def)
  from donor_from_facts [OF this, of all_classes]
  obtain w where w: "donor_ok al c (donor_from al c all_classes None 0) w" and max: "\<forall>z \<in> set all_classes. z \<noteq> c \<longrightarrow> slots_of al z \<le> w"
    by blast
  have "z \<in> set all_classes" by (cases z) (simp_all add: all_classes_def)
  moreover have "w = 0" using w assms(1) by (auto simp: donor_class_def donor_ok_def split: option.splits if_splits)
  ultimately show ?thesis using max assms(2) by auto
qed

lemma donate_slots:
  assumes "donor_class al c = Some x"
  shows "slots_of (donate x c al) z = (if z = x then slots_of al x - 1 else if z = c then slots_of al c + 1 else slots_of al z)"
    "slot_sum (donate x c al) = slot_sum al"
proof -
  have x: "x \<noteq> c" "0 < slots_of al x" using donor_class_SomeD [OF assms] by auto
  then show "slots_of (donate x c al) z = (if z = x then slots_of al x - 1 else if z = c then slots_of al c + 1 else slots_of al z)"
    by (simp add: donate_def Let_def)
  show "slot_sum (donate x c al) = slot_sum al"
    using slot_sum_set [of x "slots_of al x - 1" "set_slots c (slots_of al c + 1) al"] slot_sum_set_less [of c al] x
    by (simp add: donate_def Let_def)
qed

lemma guard_keeps:
  "fits al d \<Longrightarrow> guard_classes s d cs (applied, al) = (applied', al') \<Longrightarrow> fits al' d \<and> slot_sum al' = slot_sum al"
proof (induction cs arbitrary: applied al)
  case (Cons c cs)
  show ?case
  proof (cases "demand_of d c = 0 \<or> 0 < slots_of al c \<or> starvation_counters s ! class_index c < starvation_guard_cycles (scheduler_policy s)")
    case False
    show ?thesis
    proof (cases "donor_class al c")
      case (Some x)
      have "slots_of al z \<le> demand_of d z" for z using Cons.prems(1) by (simp add: fits_def)
      then have "fits (donate x c al) d" using False unfolding fits_def donate_slots(1) [OF Some] by (auto intro: le_diff_conv2 order_trans [OF diff_le_self])
      then show ?thesis using Cons.IH [of "donate x c al" True] Cons.prems(2) False Some donate_slots(2) [OF Some] by simp
    qed (use Cons False in simp)
  qed (use Cons in auto)
qed simp

lemma cycle_facts:
  assumes "scheduler_policy s = normalized p" "demand_sum demand < 2 ^ 64" and admit: "admit s mode demand = (d, capped)"
  shows "fits (fst (plan_cycle demand mode s)) d" "slot_sum (fst (plan_cycle demand mode s)) = min (total_slots (normalized p)) (demand_sum d)"
proof -
  note d = admit_facts [OF assms(2) admit]
  have small: "demand_sum d < 2 ^ 64" using d(2) assms(2) by simp
  define al where "al = (case mode of
    FairShare \<Rightarrow> fair_share_allocate d (total_slots (normalized p)) (rr_cursor s)
  | LatencySensitive \<Rightarrow> latency_sensitive_allocate d (total_slots (normalized p)) (normalized p))"
  have "latency_query_reserve_pct (normalized p) \<le> 100" "0 < total_slots (normalized p)" by (simp_all add: normalized_def Let_def)
  then have al: "fits al d" "slot_sum al = min (total_slots (normalized p)) (demand_sum d)"
    using fair_share_full [OF small] latency_full [OF small, of "normalized p" "total_slots (normalized p)"]
    by (cases mode; simp add: al_def)+
  obtain guarded al' where guard: "apply_starvation_guard (bump_cursor s) d al = (guarded, al')" by fastforce
  have keeps: "fits al' d" "slot_sum al' = slot_sum al" using guard_keeps [OF al(1) guard [unfolded apply_starvation_guard_def]] by simp_all
  have result: "fst (plan_cycle demand mode s) = \<lparr>ingest_slots = ingest_slots al', embed_slots = embed_slots al', query_slots = query_slots al',
      wa_mode = mode, admission_capped = capped, starvation_guard_applied = guarded, wa_reason_code = allocation_reason mode capped guarded\<rparr>"
    by (simp add: plan_cycle_def admit assms(1) Let_def al_def [symmetric] guard)
  show "fits (fst (plan_cycle demand mode s)) d" unfolding result using fitsD [OF keeps(1)] by (intro fitsI) simp_all
  show "slot_sum (fst (plan_cycle demand mode s)) = min (total_slots (normalized p)) (demand_sum d)"
    using keeps(2) al(2) unfolding result by simp
qed

text \<open>
  C36: Scheduler. A cycle never gives a class more than it asks for, and uses all its slots or serves everything it
  admits: what is given is the least of the slots, the admission limit and the demand, in both modes and after any starvation guard.
\<close>

theorem cycle_uses_all_slots:
  assumes "scheduler_policy s = normalized p" "demand_sum demand < 2 ^ 64"
  shows "(\<forall>c. slots_of (fst (plan_cycle demand mode s)) c \<le> demand_of demand c)
    \<and> slot_sum (fst (plan_cycle demand mode s))
      = min (total_slots (normalized p)) (min (admission_limit (normalized p)) (demand_sum demand))"
proof -
  obtain d capped where admit: "admit s mode demand = (d, capped)" by fastforce
  note d = admit_facts [OF assms(2) admit] and facts = cycle_facts [OF assms admit]
  have "\<forall>c. slots_of (fst (plan_cycle demand mode s)) c \<le> demand_of demand c"
    using facts(1) d(1) unfolding fits_def by (metis le_trans)
  then show ?thesis using facts(2) d(2) assms(1) by simp
qed

section \<open>Permits keep to the capacity\<close>

datatype scheduler_op =
    Plan WorkloadDemand BudgetSchedulerMode
  | Take WorkloadClass nat
  | Commit nat
  | Cancel nat
  | Complete WorkloadClass nat
  | Duplicate nat

text \<open>
  The permits that were handed out are kept by their holders; an operation gets one of them and writes it back. A permit can
  be copied (the type derives \<open>Copy\<close>), and each copy has a state of its own.
\<close>

fun copies :: "scheduler_op \<Rightarrow> bool" where
  "copies (Duplicate _) = True"
| "copies _ = False"

definition with_permit ::
  "(WorkloadPermit \<Rightarrow> WorkloadBudgetScheduler \<Rightarrow> (string + unit) \<times> WorkloadPermit \<times> WorkloadBudgetScheduler) \<Rightarrow> nat
    \<Rightarrow> WorkloadBudgetScheduler \<times> WorkloadPermit list \<Rightarrow> WorkloadBudgetScheduler \<times> WorkloadPermit list" where
  "with_permit f i = (\<lambda>(s, ps). if i < length ps then case f (ps ! i) s of (_, q, s') \<Rightarrow> (s', ps[i := q]) else (s, ps))"

fun scheduler_step :: "scheduler_op \<Rightarrow> WorkloadBudgetScheduler \<times> WorkloadPermit list \<Rightarrow> WorkloadBudgetScheduler \<times> WorkloadPermit list" where
  "scheduler_step (Plan d mode) (s, ps) = (snd (plan_cycle d mode s), ps)"
| "scheduler_step (Take c n) (s, ps) = (case reserve c n s of (Inr q, s') \<Rightarrow> (s', ps @ [q]) | (Inl _, s') \<Rightarrow> (s', ps))"
| "scheduler_step (Commit i) r = with_permit commit_permit i r"
| "scheduler_step (Cancel i) r = with_permit cancel_permit i r"
| "scheduler_step (Complete c n) (s, ps) = (snd (complete c n s), ps)"
| "scheduler_step (Duplicate i) (s, ps) = (s, if i < length ps then ps @ [ps ! i] else ps)"

definition held :: "PermitState \<Rightarrow> WorkloadClass \<Rightarrow> WorkloadPermit list \<Rightarrow> nat" where
  "held st c ps = sum_list (map permit_slots (filter (\<lambda>q. permit_class q = c \<and> permit_state q = st) ps))"

definition scheduler_inv :: "BudgetSchedulerPolicy \<Rightarrow> WorkloadBudgetScheduler \<times> WorkloadPermit list \<Rightarrow> bool" where
  "scheduler_inv p = (\<lambda>(s, ps). scheduler_policy s = normalized p
     \<and> length (starvation_counters s) = 3 \<and> length (reserved s) = 3 \<and> length (inflight s) = 3
     \<and> (\<forall>c. reserved s ! class_index c = held Reserved c ps \<and> inflight s ! class_index c \<le> held Committed c ps)
     \<and> sum_list (reserved s) \<le> admission_limit (normalized p)
     \<and> sum_list (inflight s) + sum_list (reserved s) \<le> total_slots (normalized p))"

lemma class_index_less [simp]: "class_index c < 3" by (cases c) simp_all

lemma class_index_inject [simp]: "class_index c = class_index c' \<longleftrightarrow> c = c'" by (cases c; cases c') simp_all

lemma held_append [simp]: "held st c (ps @ qs) = held st c ps + held st c qs"
  by (simp add: held_def)

lemma held_update:
  assumes "i < length ps"
  shows "held st c (ps[i := q]) + held st c [ps ! i] = held st c ps + held st c [q]"
proof -
  have cons: "held st c (x # xs) = held st c [x] + held st c xs" for x xs by (simp add: held_def)
  have split: "held st c (take i ps @ x # drop (Suc i) ps) = held st c (take i ps) + (held st c [x] + held st c (drop (Suc i) ps))" for x
    using cons [of x "drop (Suc i) ps"] by (simp only: held_append)
  have "held st c ps = held st c (take i ps @ ps ! i # drop (Suc i) ps)" by (rule arg_cong [OF id_take_nth_drop [OF assms]])
  moreover have "held st c (ps[i := q]) = held st c (take i ps @ q # drop (Suc i) ps)" using assms by (simp only: upd_conv_take_nth_drop)
  ultimately show ?thesis unfolding split by linarith
qed

lemma sum_list_3: "length xs = 3 \<Longrightarrow> foldl usize_add 0 xs = usize_add (usize_add (usize_add 0 (xs ! 0)) (xs ! 1)) (xs ! 2)
    \<and> sum_list xs = xs ! 0 + xs ! 1 + xs ! 2"
  by (auto simp: numeral_3_eq_3 length_Suc_conv)

lemma foldl_usize: "length xs = 3 \<Longrightarrow> sum_list xs < 2 ^ 64 \<Longrightarrow> foldl usize_add 0 xs = sum_list xs"
  using sum_list_3 [of xs] by simp

lemma sum_list_update3: "i < length xs \<Longrightarrow> sum_list (xs[i := v]) + xs ! i = sum_list xs + v" for v :: nat
  by (induction xs arbitrary: i) (auto simp: nth_Cons split: nat.splits)

lemma counters_length [simp]: "length (starvation_counters (snd (plan_cycle d mode s))) = length (starvation_counters s)"
  "reserved (snd (plan_cycle d mode s)) = reserved s" "inflight (snd (plan_cycle d mode s)) = inflight s"
  "scheduler_policy (snd (plan_cycle d mode s)) = scheduler_policy s"
  by (simp_all add: plan_cycle_def update_starvation_counters_def bump_cursor_def Let_def all_classes_def split: prod.splits)


lemma held_single: "held st c [q] = (if permit_class q = c \<and> permit_state q = st then permit_slots q else 0)"
  by (simp add: held_def)

lemma held_le: "i < length ps \<Longrightarrow> permit_class (ps ! i) = c \<Longrightarrow> permit_state (ps ! i) = st \<Longrightarrow> permit_slots (ps ! i) \<le> held st c ps"
  using held_update [of i ps st c "(ps ! i)\<lparr>permit_state := (if st = Cancelled then Reserved else Cancelled)\<rparr>"]
  by (simp add: held_single split: if_splits)

lemma update3: "length xs = 3 \<Longrightarrow> xs[class_index c := v] ! class_index c' = (if c = c' then v else xs ! class_index c')"
  by (simp add: nth_list_update)

lemma inv_reserve:
  assumes "total_slots p < USIZE_MAX" "scheduler_inv p (s, ps)" "reserve c n s = (Inr q, s')"
  shows "scheduler_inv p (s', ps @ [q])"
proof -
  have cap: "total_slots (normalized p) < USIZE_MAX" using assms(1) by (simp add: normalized_def Let_def USIZE_MAX_def)
  have inv: "scheduler_policy s = normalized p" "length (reserved s) = 3" "length (inflight s) = 3"
    "sum_list (inflight s) + sum_list (reserved s) \<le> total_slots (normalized p)"
    "reserved s ! class_index c = held Reserved c ps"
    using assms(2) by (simp_all add: scheduler_inv_def)
  have totals: "total_reserved s = sum_list (reserved s)" "total_inflight_reserved s = sum_list (inflight s) + sum_list (reserved s)"
    using foldl_usize [OF inv(2)] foldl_usize [OF inv(3)] inv(4) cap by (simp_all add: total_reserved_def total_inflight_reserved_def USIZE_MAX_def)
  have n: "sat_add (sum_list (inflight s) + sum_list (reserved s)) n \<le> total_slots (normalized p)"
    "sat_add (sum_list (reserved s)) n \<le> admission_limit (normalized p)" "q = \<lparr>permit_class = c, permit_slots = n, permit_state = Reserved\<rparr>"
    "s' = s\<lparr>reserved := (reserved s)[class_index c := sat_add (reserved s ! class_index c) n]\<rparr>"
    using assms(3) inv(1) totals by (auto simp: reserve_def split: if_splits)
  have fits: "sum_list (inflight s) + sum_list (reserved s) + n \<le> total_slots (normalized p)"
    "sum_list (reserved s) + n \<le> admission_limit (normalized p)"
    "sat_add (reserved s ! class_index c) n = reserved s ! class_index c + n"
  proof -
    show all: "sum_list (inflight s) + sum_list (reserved s) + n \<le> total_slots (normalized p)"
      using n(1) cap by (simp add: sat_add_def min_def split: if_splits)
    then show "sum_list (reserved s) + n \<le> admission_limit (normalized p)"
      using n(2) cap by (simp add: sat_add_def min_def split: if_splits)
    have "reserved s ! class_index c \<le> sum_list (reserved s)" using inv(2) by (intro member_le_sum_list) simp_all
    then show "sat_add (reserved s ! class_index c) n = reserved s ! class_index c + n" using all cap by (simp add: sat_add_def)
  qed
  have "sum_list (reserved s') = sum_list (reserved s) + n"
    using sum_list_update3 [of "class_index c" "reserved s" "reserved s ! class_index c + n"] inv(2) n(4) fits(3) by simp
  then show ?thesis using assms(2) fits n(3,4) inv(2) by (auto simp: scheduler_inv_def update3 held_single)
qed

lemma inv_commit:
  assumes "total_slots p < USIZE_MAX" "scheduler_inv p (s, ps)"
  shows "scheduler_inv p (with_permit commit_permit i (s, ps))"
proof (cases "i < length ps \<and> permit_state (ps ! i) = Reserved")
  case True
  let ?q = "ps ! i" and ?c = "permit_class (ps ! i)"
  let ?q' = "?q\<lparr>permit_state := Committed\<rparr>"
  have inv: "length (reserved s) = 3" "length (inflight s) = 3"
    "sum_list (inflight s) + sum_list (reserved s) \<le> total_slots (normalized p)"
    "reserved s ! class_index ?c = held Reserved ?c ps"
    using assms(2) by (simp_all add: scheduler_inv_def)
  have n: "permit_slots ?q \<le> reserved s ! class_index ?c" using held_le [of i ps ?c Reserved] True inv(4) by simp
  have in_sum: "xs ! class_index ?c \<le> sum_list xs" if "length xs = 3" for xs :: "nat list"
    using that by (intro member_le_sum_list) simp_all
  have "inflight s ! class_index ?c + permit_slots ?q < 2 ^ 64"
    using in_sum [OF inv(1)] in_sum [OF inv(2)] n inv(3) assms(1) by (simp add: normalized_def Let_def USIZE_MAX_def split: if_splits)
  then have add: "sat_add (inflight s ! class_index ?c) (permit_slots ?q) = inflight s ! class_index ?c + permit_slots ?q"
    by (simp add: sat_add_def USIZE_MAX_def)
  let ?r = "(reserved s)[class_index ?c := reserved s ! class_index ?c - permit_slots ?q]"
    and ?f = "(inflight s)[class_index ?c := inflight s ! class_index ?c + permit_slots ?q]"
  have sums: "sum_list ?r + permit_slots ?q = sum_list (reserved s)" "sum_list ?f = sum_list (inflight s) + permit_slots ?q"
    using sum_list_update3 [of "class_index ?c" "reserved s" "reserved s ! class_index ?c - permit_slots ?q"]
      sum_list_update3 [of "class_index ?c" "inflight s" "inflight s ! class_index ?c + permit_slots ?q"] inv(1,2) n by simp_all
  have result: "with_permit commit_permit i (s, ps) = (s\<lparr>reserved := ?r, inflight := ?f\<rparr>, ps[i := ?q'])"
    using True add by (simp add: with_permit_def commit_permit_def Let_def)
  have held: "held Reserved c (ps[i := ?q']) = (if c = ?c then held Reserved c ps - permit_slots ?q else held Reserved c ps)"
    "held Committed c (ps[i := ?q']) = (if c = ?c then held Committed c ps + permit_slots ?q else held Committed c ps)" for c
    using held_update [of i ps Reserved c ?q'] held_update [of i ps Committed c ?q'] True by (auto simp: held_single split: if_splits)
  show ?thesis unfolding result using assms(2) sums inv(1,2) n by (auto simp: scheduler_inv_def update3 held)
qed (use assms(2) in \<open>auto simp: with_permit_def commit_permit_def\<close>)

lemma inv_cancel:
  assumes "scheduler_inv p (s, ps)"
  shows "scheduler_inv p (with_permit cancel_permit i (s, ps))"
proof (cases "i < length ps \<and> permit_state (ps ! i) = Reserved")
  case True
  let ?q = "ps ! i" and ?c = "permit_class (ps ! i)"
  let ?q' = "?q\<lparr>permit_state := Cancelled\<rparr>"
  let ?r = "(reserved s)[class_index ?c := reserved s ! class_index ?c - permit_slots ?q]"
  have inv: "length (reserved s) = 3" using assms by (simp add: scheduler_inv_def)
  have less: "sum_list ?r \<le> sum_list (reserved s)"
    using sum_list_update3 [of "class_index ?c" "reserved s" "reserved s ! class_index ?c - permit_slots ?q"] inv by simp
  have result: "with_permit cancel_permit i (s, ps) = (s\<lparr>reserved := ?r\<rparr>, ps[i := ?q'])"
    using True by (simp add: with_permit_def cancel_permit_def Let_def)
  have held: "held Reserved c (ps[i := ?q']) = (if c = ?c then held Reserved c ps - permit_slots ?q else held Reserved c ps)"
    "held Committed c (ps[i := ?q']) = held Committed c ps" for c
    using held_update [of i ps Reserved c ?q'] held_update [of i ps Committed c ?q'] True by (auto simp: held_single split: if_splits)
  show ?thesis unfolding result using assms less inv by (auto simp: scheduler_inv_def update3 held)
qed (use assms in \<open>auto simp: with_permit_def cancel_permit_def\<close>)

lemma scheduler_step_inv:
  assumes "total_slots p < USIZE_MAX" "\<not> copies op" "scheduler_inv p r"
  shows "scheduler_inv p (scheduler_step op r)"
proof -
  obtain s ps where r: "r = (s, ps)" by fastforce
  show ?thesis
  proof (cases op)
    case (Take c n)
    obtain res s' where res: "reserve c n s = (res, s')" by fastforce
    show ?thesis
    proof (cases res)
      case (Inl e)
      then have "s' = s" using res by (auto simp: reserve_def split: if_splits)
      then show ?thesis using assms(3) r Take res Inl by simp
    qed (use inv_reserve [OF assms(1)] assms(3) r Take res in simp)
  next
    case (Complete c n)
    have "length (inflight s) = 3" using assms(3) r by (simp add: scheduler_inv_def)
    then show ?thesis using assms(3) r Complete sum_list_update3 [of "class_index c" "inflight s" "inflight s ! class_index c - n"]
      by (auto simp: scheduler_inv_def complete_def Let_def update3 intro: order_trans [OF diff_le_self])
  qed (use assms inv_commit inv_cancel r in \<open>auto simp: scheduler_inv_def\<close>)
qed

lemma scheduler_run_inv:
  "total_slots p < USIZE_MAX \<Longrightarrow> list_all (\<lambda>op. \<not> copies op) ops \<Longrightarrow> scheduler_inv p (fold scheduler_step ops (new_scheduler p, []))"
proof (induction ops rule: rev_induct)
  case Nil
  have "[0, 0, 0] ! class_index c = (0 :: nat)" for c by (cases c) simp_all
  then show ?case by (simp add: scheduler_inv_def new_scheduler_def held_def)
qed (simp add: scheduler_step_inv)

text \<open>What planning needs holds with copies as well.\<close>

definition plan_inv :: "BudgetSchedulerPolicy \<Rightarrow> WorkloadBudgetScheduler \<Rightarrow> bool" where
  "plan_inv p s \<longleftrightarrow> scheduler_policy s = normalized p \<and> length (starvation_counters s) = 3"

lemma plan_inv_run: "plan_inv p (fst (fold scheduler_step ops (new_scheduler p, [])))"
proof (induction ops rule: rev_induct)
  case (snoc op ops)
  obtain s ps where r: "fold scheduler_step ops (new_scheduler p, []) = (s, ps)" by fastforce
  have "plan_inv p s" using snoc r by simp
  then have "plan_inv p (fst (scheduler_step op (s, ps)))"
    by (cases op) (auto simp: plan_inv_def reserve_def with_permit_def commit_permit_def cancel_permit_def complete_def Let_def split: sum.splits prod.splits if_splits)
  then show ?case by (simp add: r)
qed (simp add: plan_inv_def new_scheduler_def)

text \<open>
  C25: Scheduler. After any cycles, reservations, commits, cancellations and completions in which no permit is copied, what
  is counted as reserved is what the holders of permits have reserved, what is in flight was committed by them, and both together
  keep within the slots and what is reserved within the admission limit. (The number of slots is less than the largest word. With
  copies the claim is false: see \<open>copied_permit_overcommits\<close>.)
\<close>

theorem permits_within_capacity:
  assumes "total_slots p < USIZE_MAX" "list_all (\<lambda>op. \<not> copies op) ops" "(s, ps) = fold scheduler_step ops (new_scheduler p, [])"
  shows "reserved s ! class_index c = held Reserved c ps \<and> inflight s ! class_index c \<le> held Committed c ps
    \<and> sum_list (reserved s) \<le> admission_limit (normalized p)
    \<and> sum_list (inflight s) + sum_list (reserved s) \<le> total_slots (normalized p)"
  using scheduler_run_inv [OF assms(1,2)] unfolding assms(3) [symmetric] by (simp add: scheduler_inv_def)

section \<open>No class starves\<close>

lemma donor_has_two:
  assumes "donor_class al c = Some x" "slots_of al c = 0" "3 \<le> slot_sum al"
  shows "2 \<le> slots_of al x"
  using donor_class_SomeD(3) [OF assms(1), of Ingest] donor_class_SomeD(3) [OF assms(1), of Embed]
    donor_class_SomeD(3) [OF assms(1), of Query] assms(2,3)
  by (cases c) auto

lemma guard_serves:
  assumes "3 \<le> slot_sum al" "guard_classes s d cs (applied, al) = (applied', al')"
  shows "(0 < slots_of al c \<longrightarrow> 0 < slots_of al' c)
    \<and> (c \<in> set cs \<and> 0 < demand_of d c \<and> starvation_guard_cycles (scheduler_policy s) \<le> starvation_counters s ! class_index c \<longrightarrow> 0 < slots_of al' c)"
  using assms
proof (induction cs arbitrary: applied al)
  case (Cons b cs)
  show ?case
  proof (cases "demand_of d b = 0 \<or> 0 < slots_of al b \<or> starvation_counters s ! class_index b < starvation_guard_cycles (scheduler_policy s)")
    case True
    then show ?thesis using Cons.IH [of al applied] Cons.prems by auto
  next
    case False
    show ?thesis
    proof (cases "donor_class al b")
      case None
      then have "slot_sum al = 0" using donor_class_None [OF None, of Ingest] donor_class_None [OF None, of Embed]
        donor_class_None [OF None, of Query] False by (cases b) auto
      then show ?thesis using Cons.prems(1) by simp
    next
      case (Some x)
      have two: "2 \<le> slots_of al x" using donor_has_two [OF Some] False Cons.prems(1) by simp
      have "0 < slots_of al c \<or> c = b \<Longrightarrow> 0 < slots_of (donate x b al) c"
        using two donor_class_SomeD(1) [OF Some] by (auto simp: donate_slots(1) [OF Some])
      moreover have "3 \<le> slot_sum (donate x b al)" using Cons.prems(1) donate_slots(2) [OF Some] by simp
      ultimately show ?thesis using Cons.IH [of "donate x b al" True] Cons.prems(2) False Some by auto
    qed
  qed
qed simp

lemma counter_step:
  assumes "length (starvation_counters s) = 3"
  shows "starvation_counters (update_starvation_counters d al s) ! class_index c = next_counter d al c (starvation_counters s ! class_index c)"
  using assms by (cases c) (auto simp: update_starvation_counters_def all_classes_def nth_list_update)

fun plan_run :: "(WorkloadDemand \<times> BudgetSchedulerMode) list \<Rightarrow> WorkloadBudgetScheduler \<Rightarrow> WorkloadAllocation list" where
  "plan_run [] s = []"
| "plan_run ((d, mode) # cycles) s = fst (plan_cycle d mode s) # plan_run cycles (snd (plan_cycle d mode s))"

abbreviation served_demand :: "BudgetSchedulerPolicy \<Rightarrow> WorkloadClass \<Rightarrow> WorkloadDemand \<Rightarrow> bool" where
  "served_demand p c d \<equiv> demand_sum d \<le> admission_limit p \<and> demand_sum d < 2 ^ 64 \<and> 3 \<le> demand_sum d \<and> 0 < demand_of d c"

lemma starving_cycle:
  assumes "scheduler_policy s = normalized p" "3 \<le> total_slots (normalized p)" "length (starvation_counters s) = 3"
    and d: "served_demand (normalized p) c d" and zero: "slots_of (fst (plan_cycle d mode s)) c = 0"
  shows "starvation_counters s ! class_index c < starvation_guard_cycles (normalized p)"
    "starvation_counters (snd (plan_cycle d mode s)) ! class_index c = min 255 (starvation_counters s ! class_index c + 1)"
proof -
  have admit: "admit s mode d = (d, False)" using d assms(1) by (simp add: admit_def total_demand_sum)
  define al where "al = (case mode of
    FairShare \<Rightarrow> fair_share_allocate d (total_slots (normalized p)) (rr_cursor s)
  | LatencySensitive \<Rightarrow> latency_sensitive_allocate d (total_slots (normalized p)) (normalized p))"
  have small: "demand_sum d < 2 ^ 64" using d by simp
  have pct: "latency_query_reserve_pct (normalized p) \<le> 100" by (simp add: normalized_def Let_def)
  have "slot_sum al = min (total_slots (normalized p)) (demand_sum d)"
    using fair_share_full [OF small] latency_full [OF small pct, of "total_slots (normalized p)"] assms(2)
    by (cases mode; simp add: al_def)
  then have three: "3 \<le> slot_sum al" using assms(2) d by simp
  obtain guarded al' where guard: "guard_classes (bump_cursor s) d all_classes (False, al) = (guarded, al')" by fastforce
  have result: "fst (plan_cycle d mode s) = \<lparr>ingest_slots = ingest_slots al', embed_slots = embed_slots al', query_slots = query_slots al',
      wa_mode = mode, admission_capped = False, starvation_guard_applied = guarded, wa_reason_code = allocation_reason mode False guarded\<rparr>"
    and state: "snd (plan_cycle d mode s) = update_starvation_counters d al' (bump_cursor s)"
    by (simp_all add: plan_cycle_def admit assms(1) Let_def al_def [symmetric] apply_starvation_guard_def guard)
  have zero': "slots_of al' c = 0" using zero unfolding result by (cases c) simp_all
  have "c \<in> set all_classes" by (cases c) (simp_all add: all_classes_def)
  then show "starvation_counters s ! class_index c < starvation_guard_cycles (normalized p)"
    using guard_serves [OF three guard, of c] zero' d assms(1) leI by (fastforce simp: bump_cursor_def)
  show "starvation_counters (snd (plan_cycle d mode s)) ! class_index c = min 255 (starvation_counters s ! class_index c + 1)"
    unfolding state using counter_step [of "bump_cursor s" d al' c] assms(3) zero' d by (simp add: next_counter_def bump_cursor_def)
qed

lemma starved_run:
  assumes "scheduler_policy s = normalized p" "3 \<le> total_slots (normalized p)" "length (starvation_counters s) = 3"
    and "\<forall>(d, mode) \<in> set cycles. served_demand (normalized p) c d" "\<forall>al \<in> set (plan_run cycles s). slots_of al c = 0" "cycles \<noteq> []"
    and "starvation_guard_cycles (normalized p) \<le> 255"
  shows "starvation_counters s ! class_index c + length cycles \<le> starvation_guard_cycles (normalized p)"
  using assms
proof (induction cycles arbitrary: s)
  case (Cons x cycles)
  obtain d mode where x: "x = (d, mode)" by fastforce
  let ?s = "snd (plan_cycle d mode s)"
  have d: "served_demand (normalized p) c d" "slots_of (fst (plan_cycle d mode s)) c = 0" using Cons.prems(4,5) x by auto
  note step = starving_cycle [OF Cons.prems(1-3) d]
  have after: "starvation_counters ?s ! class_index c = starvation_counters s ! class_index c + 1" using step Cons.prems(7) by simp
  show ?case
  proof (cases "cycles = []")
    case False
    have "starvation_counters ?s ! class_index c + length cycles \<le> starvation_guard_cycles (normalized p)"
      using Cons.prems x False by (intro Cons.IH) auto
    then show ?thesis using after by simp
  qed (use step(1) in simp)
qed simp

text \<open>
  C26: Scheduler. With at least three slots and a guard that fits its counter of eight bits, no class starves while everything
  that is asked for is admitted: after any operations, in any cycles in a row, more than the guard allows to miss, in each of
  which a class asks for slots and the whole demand is at least three and not more than the admission limit, the class gets a slot,
  in whatever modes the cycles are planned and however the demand is divided. (When the demand is cut to the limit, a class can
  starve: see \<open>filled_limit_starves\<close>; and with one slot: \<open>guard_starves_ingest\<close>.)
\<close>

theorem no_class_starves:
  assumes "(s, ps) = fold scheduler_step ops (new_scheduler p, [])"
    and "3 \<le> total_slots p" "starvation_guard_cycles p \<le> 255"
    and "\<forall>(d, mode) \<in> set cycles. served_demand (normalized p) c d"
    and "starvation_guard_cycles (normalized p) < length cycles"
  shows "\<exists>al \<in> set (plan_run cycles s). 0 < slots_of al c"
proof (rule ccontr)
  assume "\<not> ?thesis"
  then have none: "\<forall>al \<in> set (plan_run cycles s). slots_of al c = 0" by simp
  have inv: "scheduler_policy s = normalized p" "length (starvation_counters s) = 3"
    using plan_inv_run [of p ops] unfolding assms(1) [symmetric] by (simp_all add: plan_inv_def)
  have three: "3 \<le> total_slots (normalized p)" "starvation_guard_cycles (normalized p) \<le> 255" using assms(2,3) by (simp_all add: normalized_def Let_def)
  have "cycles \<noteq> []" using assms(5) by auto
  from starved_run [OF inv(1) three(1) inv(2) assms(4) none this three(2)] show False using assms(5) by simp
qed

section \<open>Classes that do starve\<close>

text \<open>
  The guard counts what was admitted, not what was asked for: in the latency-sensitive mode a demand for queries that fills the
  admission limit leaves the other classes without slots in every cycle, and their counters at zero.
\<close>

lemma cap_queries_only:
  "\<lbrakk>demand_sum d < 2 ^ 64; limit \<le> query_demand d; mode = LatencySensitive\<rbrakk> \<Longrightarrow> ingest_demand (cap_demand limit mode cursor d) = 0
    \<and> embed_demand (cap_demand limit mode cursor d) = 0"
proof (induction limit mode cursor d rule: cap_demand.induct)
  case (1 limit mode cursor d)
  have total: "total_demand d = demand_sum d" by (rule total_demand_sum) (rule 1(2))
  show ?case
  proof (cases "limit < total_demand d")
    case True
    let ?d = "set_demand (class_to_cut mode cursor d) (demand_of d (class_to_cut mode cursor d) - 1) d"
    have "demand_sum ?d < 2 ^ 64" "limit \<le> query_demand ?d" using 1(2-4) True total by (auto simp: class_to_cut_def)
    from 1(1) [OF True refl this 1(4)] show ?thesis using True by (subst (1 2) cap_demand.simps) (simp add: Let_def)
  next
    case False
    then show ?thesis using 1(3) total by (subst (1 2) cap_demand.simps) simp
  qed
qed

lemma filled_limit_starves:
  assumes "demand_sum d < 2 ^ 64" "admission_limit (normalized p) \<le> query_demand d" "query_demand d < demand_sum d"
    and policy: "scheduler_policy s = normalized p"
  shows "ingest_slots (fst (plan_cycle d LatencySensitive s)) = 0 \<and> embed_slots (fst (plan_cycle d LatencySensitive s)) = 0"
proof -
  have "admit s LatencySensitive d = (cap_demand (admission_limit (normalized p)) LatencySensitive (rr_cursor s) d, True)"
  proof -
    have "admission_limit (normalized p) < demand_sum d" using assms(2,3) by linarith
    then show ?thesis using policy assms(1) by (simp add: admit_def total_demand_sum)
  qed
  from fitsD [OF cycle_facts(1) [OF policy assms(1) this]] show ?thesis using cap_queries_only [OF assms(1,2) refl, of "rr_cursor s"] by simp
qed

text \<open>
  With one slot and a guard of one cycle the guard itself starves ingestion: what it gives to ingestion a later class of the same loop takes away,
  and the turns ingestion would have in a fair share are taken as well.
\<close>

definition one_slot :: BudgetSchedulerPolicy where
  "one_slot = \<lparr>total_slots = 1, admission_limit = 3, latency_query_reserve_pct = 50, starvation_guard_cycles = 1\<rparr>"

abbreviation one_each :: WorkloadDemand where
  "one_each \<equiv> \<lparr>ingest_demand = 1, embed_demand = 1, query_demand = 1\<rparr>"

lemmas one_slot_simps = plan_cycle_def admit_def one_slot_def total_demand_def fair_share_allocate_def Let_def active_classes_def
  class_order_def all_classes_def no_slots_def fill_slots.simps allocated_def apply_starvation_guard_def donor_class_def donate_def
  bump_cursor_def update_starvation_counters_def next_counter_def

lemma one_slot_cycle:
  assumes "scheduler_policy s = one_slot" "starvation_counters s = [k, e, q]" "1 \<le> k" "e = 0 \<and> 1 \<le> q \<or> 1 \<le> e \<and> q = 0" "rr_cursor s < 3"
  shows "ingest_slots (fst (plan_cycle one_each FairShare s)) = 0"
    "\<exists>k' e' q'. starvation_counters (snd (plan_cycle one_each FairShare s)) = [k', e', q'] \<and> 1 \<le> k' \<and> (e' = 0 \<and> 1 \<le> q' \<or> 1 \<le> e' \<and> q' = 0)"
    "rr_cursor (snd (plan_cycle one_each FairShare s)) < 3"
proof -
  have "rr_cursor s = 0 \<or> rr_cursor s = 1 \<or> rr_cursor s = 2" using assms(5) by linarith
  then have "ingest_slots (fst (plan_cycle one_each FairShare s)) = 0
    \<and> (\<exists>k' e' q'. starvation_counters (snd (plan_cycle one_each FairShare s)) = [k', e', q'] \<and> 1 \<le> k' \<and> (e' = 0 \<and> 1 \<le> q' \<or> 1 \<le> e' \<and> q' = 0))
    \<and> rr_cursor (snd (plan_cycle one_each FairShare s)) < 3"
    using assms(1-4)
    by (elim disjE conjE; simp add: one_slot_simps)
  then show "ingest_slots (fst (plan_cycle one_each FairShare s)) = 0"
    "\<exists>k' e' q'. starvation_counters (snd (plan_cycle one_each FairShare s)) = [k', e', q'] \<and> 1 \<le> k' \<and> (e' = 0 \<and> 1 \<le> q' \<or> 1 \<le> e' \<and> q' = 0)"
    "rr_cursor (snd (plan_cycle one_each FairShare s)) < 3" by blast+
qed


lemma guard_starves_ingest:
  defines "run n \<equiv> plan_run (replicate n (one_each, FairShare)) (new_scheduler one_slot)"
  assumes "0 < i" "i < n"
  shows "ingest_slots (run n ! i) = 0"
proof -
  let ?after = "\<lambda>s. scheduler_policy s = one_slot \<and> (\<exists>k e q. starvation_counters s = [k, e, q] \<and> 1 \<le> k \<and> (e = 0 \<and> 1 \<le> q \<or> 1 \<le> e \<and> q = 0))
    \<and> rr_cursor s < 3"
  have later: "?after s \<Longrightarrow> j < m \<Longrightarrow> ingest_slots (plan_run (replicate m (one_each, FairShare)) s ! j) = 0" for s j m
  proof (induction m arbitrary: s j)
    case (Suc m)
    then obtain k e q where s: "scheduler_policy s = one_slot" "starvation_counters s = [k, e, q]" "1 \<le> k" "e = 0 \<and> 1 \<le> q \<or> 1 \<le> e \<and> q = 0" "rr_cursor s < 3"
      by blast
    show ?case
    proof (cases j)
      case (Suc j')
      have "?after (snd (plan_cycle one_each FairShare s))" using one_slot_cycle(2,3) [OF s] s(1) by simp
      from Suc.IH [OF this, of j'] show ?thesis using Suc Suc.prems by simp
    qed (use one_slot_cycle(1) [OF s] in simp)
  qed simp
  define s1 where "s1 = snd (plan_cycle one_each FairShare (new_scheduler one_slot))"
  define s2 where "s2 = snd (plan_cycle one_each FairShare s1)"
  have s1: "s1 = \<lparr>scheduler_policy = one_slot, starvation_counters = [0, 1, 1], rr_cursor = 1, reserved = [0, 0, 0], inflight = [0, 0, 0]\<rparr>"
    by (simp add: s1_def new_scheduler_def normalized_def one_slot_simps)
  have first: "ingest_slots (fst (plan_cycle one_each FairShare s1)) = 0" by (simp add: s1 one_slot_simps)
  have s2: "?after s2" by (simp add: s2_def s1 one_slot_simps)
  show ?thesis
  proof -
    have "n = Suc (Suc (n - 2))" "i = Suc (i - 1)" using assms(2,3) by simp_all
    then obtain m j where n: "n = Suc (Suc m)" and i: "i = Suc j" by blast
    show ?thesis
    proof (cases j)
      case 0
      then show ?thesis using first by (simp add: run_def n i s1_def)
    next
      case (Suc j')
      then have "j' < m" using assms(3) n i by simp
      then show ?thesis using later [OF s2] by (simp add: run_def n i Suc s1_def s2_def)
    qed
  qed
qed

text \<open>A permit can be copied: both copies can be committed, and the slots are in flight twice.\<close>

lemma copied_permit_committed_twice:
  assumes "reserve Ingest n (new_scheduler p) = (Inr q, s)" "total_slots p < USIZE_MAX"
    "commit_permit q s = (Inr (), q', s')"
  shows "fst (commit_permit q s') = Inr () \<and> inflight (snd (snd (commit_permit q s'))) ! 0 = sat_add n n"
proof -
  have "sat_add (total_inflight_reserved (new_scheduler p)) n \<le> total_slots (normalized p)"
    and q: "q = \<lparr>permit_class = Ingest, permit_slots = n, permit_state = Reserved\<rparr>" and s: "inflight s = [0, 0, 0]"
    using assms(1) by (auto simp: reserve_def new_scheduler_def split: if_splits)
  then have "n < USIZE_MAX" using assms(2) by (auto simp: sat_add_def normalized_def Let_def min_def USIZE_MAX_def split: if_splits)
  then have "sat_add 0 n = n" by (simp add: sat_add_def)
  then have "inflight s' = [n, 0, 0]" using assms(3) q s by (auto simp: commit_permit_def Let_def)
  then show ?thesis using q by (simp add: commit_permit_def Let_def)
qed


text \<open>So that a run with a copy exceeds the slots: with the default policy twice the slots are in flight.\<close>

lemma copied_permit_overcommits:
  "fold scheduler_step [Take Ingest 24, Duplicate 0, Commit 0, Commit 1] (new_scheduler default_scheduler_policy, []) = (s, ps) \<Longrightarrow>
     total_slots (scheduler_policy s) = 24 \<and> sum_list (inflight s) = 48"
  by (auto simp: new_scheduler_def normalized_def default_scheduler_policy_def reserve_def total_reserved_def total_inflight_reserved_def
      with_permit_def commit_permit_def Let_def sat_add_def USIZE_MAX_def)

section \<open>Examples\<close>

theorem cycle_uses_all_slots_witness:
  "slot_sum (fst (plan_cycle \<lparr>ingest_demand = 30, embed_demand = 10, query_demand = 20\<rparr> FairShare (new_scheduler default_scheduler_policy))) = 24"
  using cycle_uses_all_slots [of "new_scheduler default_scheduler_policy" default_scheduler_policy
      "\<lparr>ingest_demand = 30, embed_demand = 10, query_demand = 20\<rparr>" FairShare]
  by (simp add: new_scheduler_def normalized_def default_scheduler_policy_def)

definition sample_calls :: "scheduler_op list" where
  "sample_calls = [Take Query 4, Take Ingest 2, Commit 0, Cancel 1, Complete Query 3]"

theorem permits_within_capacity_witness:
  "case fold scheduler_step sample_calls (new_scheduler default_scheduler_policy, []) of (s, ps) \<Rightarrow>
     reserved s ! class_index Query = held Reserved Query ps \<and> inflight s ! class_index Query \<le> held Committed Query ps"
  using permits_within_capacity [of default_scheduler_policy sample_calls _ _ Query]
  by (auto simp: default_scheduler_policy_def sample_calls_def USIZE_MAX_def split: prod.splits)

definition sample_cycles :: "(WorkloadDemand \<times> BudgetSchedulerMode) list" where
  "sample_cycles = replicate 3 (\<lparr>ingest_demand = 20, embed_demand = 1, query_demand = 20\<rparr>, LatencySensitive)"

theorem no_class_starves_witness:
  "\<exists>al \<in> set (plan_run sample_cycles (new_scheduler default_scheduler_policy)). 0 < embed_slots al"
proof -
  have "\<exists>al \<in> set (plan_run sample_cycles (new_scheduler default_scheduler_policy)). 0 < slots_of al Embed"
    by (rule no_class_starves [of _ "[]" "[]" default_scheduler_policy])
      (simp_all add: sample_cycles_def default_scheduler_policy_def normalized_def USIZE_MAX_def)
  then show ?thesis by simp
qed

end
