(* ===== verification/Fs_Pressure.thy ===== *)
theory Fs_Pressure
  imports Fs_Bytes F64_Order
begin

text \<open>
  Pressure of the host and the stages of degradation (\<open>frankensearch-fsfs/src/pressure.rs\<close>): the controller that derives a stable
  state from smoothed readings, the state machine that sheds features and recovers step by step, and the guard on the
  calibration of adaptive controllers. How readings are taken from the operating system is not modelled.
\<close>

section \<open>Stages\<close>

datatype PressureState = Normal | Constrained | Degraded | Emergency

fun pressure_severity :: "PressureState \<Rightarrow> nat" where
  "pressure_severity Normal = 0"
| "pressure_severity Constrained = 1"
| "pressure_severity Degraded = 2"
| "pressure_severity Emergency = 3"

datatype DegradationStage = Full | EmbedDeferred | LexicalOnly | MetadataOnly | Paused

fun stage_severity :: "DegradationStage \<Rightarrow> nat" where
  "stage_severity Full = 0"
| "stage_severity EmbedDeferred = 1"
| "stage_severity LexicalOnly = 2"
| "stage_severity MetadataOnly = 3"
| "stage_severity Paused = 4"

fun stage_reason_code :: "DegradationStage \<Rightarrow> string" where
  "stage_reason_code Full = ''degrade.stage.full''"
| "stage_reason_code EmbedDeferred = ''degrade.stage.embed_deferred''"
| "stage_reason_code LexicalOnly = ''degrade.stage.lexical_only''"
| "stage_reason_code MetadataOnly = ''degrade.stage.metadata_only''"
| "stage_reason_code Paused = ''degrade.stage.paused''"

fun step_toward_full :: "DegradationStage \<Rightarrow> DegradationStage" where
  "step_toward_full Paused = MetadataOnly"
| "step_toward_full MetadataOnly = LexicalOnly"
| "step_toward_full LexicalOnly = EmbedDeferred"
| "step_toward_full _ = Full"

datatype QueryCapabilityMode = QueryHybrid | QueryLexicalOnly | QueryMetadataOnly | QueryPaused
datatype IndexingCapabilityMode = IndexFull | DeferEmbedding | IndexMetadataOnly | IndexPaused
datatype CapabilityState = Enabled | Disabled
datatype IntegrityState = Preserved
datatype WriteState = WritesEnabled | WritesPaused

record DegradationContract =
  dc_stage :: DegradationStage
  query_mode :: QueryCapabilityMode
  indexing_mode :: IndexingCapabilityMode
  semantic_search :: CapabilityState
  lexical_search :: CapabilityState
  metadata_integrity :: IntegrityState
  writes :: WriteState
  user_banner :: string

fun stage_contract :: "DegradationStage \<Rightarrow> DegradationContract" where
  "stage_contract Full = \<lparr>dc_stage = Full, query_mode = QueryHybrid, indexing_mode = IndexFull, semantic_search = Enabled,
     lexical_search = Enabled, metadata_integrity = Preserved, writes = WritesEnabled,
     user_banner = ''Normal mode: hybrid retrieval and indexing are fully enabled.''\<rparr>"
| "stage_contract EmbedDeferred = \<lparr>dc_stage = EmbedDeferred, query_mode = QueryHybrid, indexing_mode = DeferEmbedding, semantic_search = Enabled,
     lexical_search = Enabled, metadata_integrity = Preserved, writes = WritesEnabled,
     user_banner = ''Constrained mode: expensive embedding is deferred to protect latency.''\<rparr>"
| "stage_contract LexicalOnly = \<lparr>dc_stage = LexicalOnly, query_mode = QueryLexicalOnly, indexing_mode = DeferEmbedding, semantic_search = Disabled,
     lexical_search = Enabled, metadata_integrity = Preserved, writes = WritesEnabled,
     user_banner = ''Degraded mode: serving lexical-only results while preserving correctness.''\<rparr>"
| "stage_contract MetadataOnly = \<lparr>dc_stage = MetadataOnly, query_mode = QueryMetadataOnly, indexing_mode = IndexMetadataOnly, semantic_search = Disabled,
     lexical_search = Disabled, metadata_integrity = Preserved, writes = WritesEnabled,
     user_banner = ''Safe mode: metadata operations only while search pipelines stabilize.''\<rparr>"
| "stage_contract Paused = \<lparr>dc_stage = Paused, query_mode = QueryPaused, indexing_mode = IndexPaused, semantic_search = Disabled,
     lexical_search = Disabled, metadata_integrity = Preserved, writes = WritesPaused,
     user_banner = ''Emergency pause: write/query execution halted until recovery gates pass.''\<rparr>"

record RecoveryGate =
  max_pressure_for_recovery :: PressureState
  require_quality_circuit_closed :: bool
  require_pause_cleared :: bool
  rg_required :: nat

fun recovery_gate :: "nat \<Rightarrow> DegradationStage \<Rightarrow> RecoveryGate option" where
  "recovery_gate n Full = None"
| "recovery_gate n EmbedDeferred = Some \<lparr>max_pressure_for_recovery = Normal, require_quality_circuit_closed = True,
     require_pause_cleared = False, rg_required = n\<rparr>"
| "recovery_gate n LexicalOnly = Some \<lparr>max_pressure_for_recovery = Constrained, require_quality_circuit_closed = False,
     require_pause_cleared = False, rg_required = n\<rparr>"
| "recovery_gate n MetadataOnly = Some \<lparr>max_pressure_for_recovery = Degraded, require_quality_circuit_closed = False,
     require_pause_cleared = False, rg_required = n\<rparr>"
| "recovery_gate n Paused = Some \<lparr>max_pressure_for_recovery = Degraded, require_quality_circuit_closed = False,
     require_pause_cleared = True, rg_required = n\<rparr>"

datatype DegradationOverride = Auto | ForceFull | ForceEmbedDeferred | ForceLexicalOnly | ForceMetadataOnly | ForcePaused

fun forced_stage :: "DegradationOverride \<Rightarrow> DegradationStage option" where
  "forced_stage Auto = None"
| "forced_stage ForceFull = Some Full"
| "forced_stage ForceEmbedDeferred = Some EmbedDeferred"
| "forced_stage ForceLexicalOnly = Some LexicalOnly"
| "forced_stage ForceMetadataOnly = Some MetadataOnly"
| "forced_stage ForcePaused = Some Paused"

record DegradationSignal =
  ds_pressure_state :: PressureState
  quality_circuit_open :: bool
  hard_pause_requested :: bool

definition auto_target_stage :: "DegradationSignal \<Rightarrow> DegradationStage" where
  "auto_target_stage g =
     (if hard_pause_requested g then Paused
      else case ds_pressure_state g of
        Normal \<Rightarrow> if quality_circuit_open g then EmbedDeferred else Full
      | Constrained \<Rightarrow> EmbedDeferred
      | Degraded \<Rightarrow> LexicalOnly
      | Emergency \<Rightarrow> MetadataOnly)"

definition is_satisfied :: "RecoveryGate \<Rightarrow> DegradationSignal \<Rightarrow> bool" where
  "is_satisfied gate g =
     (if pressure_severity (max_pressure_for_recovery gate) < pressure_severity (ds_pressure_state g) then False
      else if require_quality_circuit_closed gate \<and> quality_circuit_open g then False
      else if require_pause_cleared gate \<and> hard_pause_requested g then False
      else True)"

section \<open>The state machine of degradation\<close>

record DegradationControllerConfig =
  consecutive_healthy_required :: nat

definition default_degradation_config :: DegradationControllerConfig where
  "default_degradation_config = \<lparr>consecutive_healthy_required = 3\<rparr>"

definition validate_degradation :: "DegradationControllerConfig \<Rightarrow> SearchError + DegradationControllerConfig" where
  "validate_degradation cfg =
     (if consecutive_healthy_required cfg = 0
      then Err (InvalidConfig ''degrade.consecutive_healthy_required'' ''0'' ''must be >= 1'') else Ok cfg)"

datatype DegradationTrigger = Stable | PressureEscalation | QualityCircuitOpen | HardPause | Recovery | CalibrationBreach | OperatorOverride

record DegradationStatus =
  st_timestamp_ms :: nat
  st_stage :: DegradationStage
  st_stage_reason_code :: string
  st_transition_reason_code :: string
  st_pressure_state :: PressureState
  st_quality_circuit_open :: bool
  st_hard_pause_requested :: bool
  st_query_mode :: QueryCapabilityMode
  st_indexing_mode :: IndexingCapabilityMode
  st_override_mode :: DegradationOverride
  st_override_allowed :: bool
  st_user_banner :: string

record DegradationTransition =
  dt_from :: DegradationStage
  dt_to :: DegradationStage
  dt_changed :: bool
  dt_trigger :: DegradationTrigger
  dt_reason_code :: string
  dt_pending :: nat
  dt_status :: DegradationStatus

record DegradationStateMachine =
  dm_config :: DegradationControllerConfig
  dm_stage :: DegradationStage
  override_mode :: DegradationOverride
  pending_recovery_observations :: nat

definition default_machine :: DegradationStateMachine where
  "default_machine = \<lparr>dm_config = default_degradation_config, dm_stage = Full, override_mode = Auto, pending_recovery_observations = 0\<rparr>"

definition new_machine :: "DegradationControllerConfig \<Rightarrow> SearchError + DegradationStateMachine" where
  "new_machine cfg = and_then (validate_degradation cfg)
     (\<lambda>cfg. Ok \<lparr>dm_config = cfg, dm_stage = Full, override_mode = Auto, pending_recovery_observations = 0\<rparr>)"

definition set_override :: "DegradationOverride \<Rightarrow> DegradationStateMachine \<Rightarrow> DegradationStateMachine" where
  "set_override mode m = m\<lparr>override_mode := mode, pending_recovery_observations := 0\<rparr>"

definition status_of :: "DegradationStateMachine \<Rightarrow> DegradationSignal \<Rightarrow> string \<Rightarrow> nat \<Rightarrow> DegradationStatus" where
  "status_of m g reason timestamp_ms =
     (let contract = stage_contract (dm_stage m) in
      \<lparr>st_timestamp_ms = timestamp_ms, st_stage = dm_stage m, st_stage_reason_code = stage_reason_code (dm_stage m),
       st_transition_reason_code = reason, st_pressure_state = ds_pressure_state g, st_quality_circuit_open = quality_circuit_open g,
       st_hard_pause_requested = hard_pause_requested g, st_query_mode = query_mode contract, st_indexing_mode = indexing_mode contract,
       st_override_mode = override_mode m, st_override_allowed = True, st_user_banner = user_banner contract\<rparr>)"

definition escalation_trigger :: "DegradationSignal \<Rightarrow> DegradationStage \<Rightarrow> DegradationTrigger" where
  "escalation_trigger g target =
     (if hard_pause_requested g then HardPause
      else if quality_circuit_open g \<and> ds_pressure_state g = Normal \<and> target = EmbedDeferred then QualityCircuitOpen
      else PressureEscalation)"

text \<open>The new machine, the trigger and the reason of an observation.\<close>

definition degrade_step :: "DegradationSignal \<Rightarrow> DegradationStateMachine \<Rightarrow> DegradationStateMachine \<times> DegradationTrigger \<times> string" where
  "degrade_step g m =
     (case forced_stage (override_mode m) of
        Some forced \<Rightarrow>
          (m\<lparr>pending_recovery_observations := 0, dm_stage := forced\<rparr>, OperatorOverride, ''degrade.transition.override'')
      | None \<Rightarrow>
          let target = auto_target_stage g in
          if stage_severity (dm_stage m) < stage_severity target then
            (m\<lparr>dm_stage := target, pending_recovery_observations := 0\<rparr>, escalation_trigger g target, ''degrade.transition.escalated'')
          else if stage_severity target < stage_severity (dm_stage m) then
            (case recovery_gate (consecutive_healthy_required (dm_config m)) (dm_stage m) of
               None \<Rightarrow> (m, Stable, ''degrade.state.stable'')
             | Some gate \<Rightarrow>
                 if is_satisfied gate g then
                   let m = m\<lparr>pending_recovery_observations := min 255 (pending_recovery_observations m + 1)\<rparr> in
                   if rg_required gate \<le> pending_recovery_observations m then
                     (m\<lparr>dm_stage := step_toward_full (dm_stage m), pending_recovery_observations := 0\<rparr>, Recovery, ''degrade.transition.recovered'')
                   else (m, Recovery, ''degrade.transition.recovery_pending'')
                 else (m\<lparr>pending_recovery_observations := 0\<rparr>, Stable, ''degrade.state.stable''))
          else (m\<lparr>pending_recovery_observations := 0\<rparr>, Stable, ''degrade.state.stable''))"

definition degrade_observe :: "DegradationSignal \<Rightarrow> nat \<Rightarrow> DegradationStateMachine \<Rightarrow> DegradationTransition \<times> DegradationStateMachine" where
  "degrade_observe g timestamp_ms m =
     (case degrade_step g m of (m', trigger, reason) \<Rightarrow>
        (\<lparr>dt_from = dm_stage m, dt_to = dm_stage m', dt_changed = (dm_stage m' \<noteq> dm_stage m), dt_trigger = trigger, dt_reason_code = reason,
           dt_pending = pending_recovery_observations m', dt_status = status_of m' g reason timestamp_ms\<rparr>, m'))"

section \<open>The calibration guard\<close>

definition normalize_pct :: "f64 \<Rightarrow> f64" where
  "normalize_pct v = (if \<not> is_finite v \<or> f64_le v F_zero then F_zero else f64_min v (f64_of_int 200))"

record CalibrationMetrics =
  cm_sample_count :: nat
  cm_coverage_pct :: f64
  cm_e_value :: f64
  cm_drift_pct :: f64
  cm_confidence_pct :: f64

definition new_metrics :: "nat \<Rightarrow> f64 \<Rightarrow> f64 \<Rightarrow> f64 \<Rightarrow> f64 \<Rightarrow> CalibrationMetrics" where
  "new_metrics samples coverage e drift confidence =
     \<lparr>cm_sample_count = samples, cm_coverage_pct = normalize_pct coverage,
      cm_e_value = (if is_finite e then f64_max e F_zero else F_zero),
      cm_drift_pct = normalize_pct drift, cm_confidence_pct = normalize_pct confidence\<rparr>"

record CalibrationGuardConfig =
  min_sample_count :: nat
  target_coverage_pct :: f64
  min_e_value :: f64
  max_drift_pct :: f64
  min_confidence_pct :: f64
  breach_consecutive_required :: nat
  cg_fallback_stage :: DegradationStage

definition default_guard_config :: CalibrationGuardConfig where
  "default_guard_config = \<lparr>min_sample_count = 200, target_coverage_pct = f64_of_int 95, min_e_value = f64_of_decimal False 5 (-2),
     max_drift_pct = f64_of_int 15, min_confidence_pct = f64_of_int 70, breach_consecutive_required = 2, cg_fallback_stage = LexicalOnly\<rparr>"

definition percent :: "f64 \<Rightarrow> bool" where
  "percent x \<longleftrightarrow> f64_le F_zero x \<and> f64_le x (f64_of_int 100)"

definition validate_guard :: "CalibrationGuardConfig \<Rightarrow> SearchError + CalibrationGuardConfig" where
  "validate_guard cfg =
     (if \<not> (1 \<le> min_sample_count cfg \<and> int (min_sample_count cfg) \<le> 10000000) then
        Err (InvalidConfig ''calibration.min_sample_count'' (show_nat (min_sample_count cfg)) ''must be in [1, 10000000]'')
      else if \<not> percent (target_coverage_pct cfg) then
        Err (InvalidConfig ''calibration.target_coverage_pct'' (f64_to_string (target_coverage_pct cfg)) ''must be in [0, 100]'')
      else if \<not> is_finite (min_e_value cfg) \<or> f64_lt (min_e_value cfg) F_zero then
        Err (InvalidConfig ''calibration.min_e_value'' (f64_to_string (min_e_value cfg)) ''must be finite and >= 0'')
      else if \<not> percent (max_drift_pct cfg) then
        Err (InvalidConfig ''calibration.max_drift_pct'' (f64_to_string (max_drift_pct cfg)) ''must be in [0, 100]'')
      else if \<not> percent (min_confidence_pct cfg) then
        Err (InvalidConfig ''calibration.min_confidence_pct'' (f64_to_string (min_confidence_pct cfg)) ''must be in [0, 100]'')
      else if breach_consecutive_required cfg = 0 then
        Err (InvalidConfig ''calibration.breach_consecutive_required'' ''0'' ''must be >= 1'')
      else Ok cfg)"

datatype CalibrationGuardStatus = Healthy | Watch | Breach
datatype CalibrationBreachKind = CoverageBelowTarget | EValueBelowThreshold | DriftAboveThreshold | ConfidenceBelowThreshold

record CalibrationEvidence =
  ev_metrics :: CalibrationMetrics
  ev_limits :: CalibrationGuardConfig
  ev_breach_count :: nat
  ev_fallback_triggered :: bool

record CalibrationGuardDecision =
  gd_status :: CalibrationGuardStatus
  gd_reason_code :: string
  breach_kind :: "CalibrationBreachKind option"
  gd_fallback_stage :: "DegradationStage option"
  gd_evidence :: CalibrationEvidence

record CalibrationGuardState =
  guard_config :: CalibrationGuardConfig
  consecutive_breach_count :: nat

definition new_guard :: "CalibrationGuardConfig \<Rightarrow> SearchError + CalibrationGuardState" where
  "new_guard cfg = and_then (validate_guard cfg) (\<lambda>cfg. Ok \<lparr>guard_config = cfg, consecutive_breach_count = 0\<rparr>)"

definition find_breach :: "CalibrationGuardConfig \<Rightarrow> CalibrationMetrics \<Rightarrow> (CalibrationBreachKind \<times> string) option" where
  "find_breach cfg x =
     (if f64_lt (cm_coverage_pct x) (target_coverage_pct cfg) then Some (CoverageBelowTarget, ''calibration.guard.coverage_breach'')
      else if f64_lt (cm_e_value x) (min_e_value cfg) then Some (EValueBelowThreshold, ''calibration.guard.evalue_breach'')
      else if f64_lt (max_drift_pct cfg) (cm_drift_pct x) then Some (DriftAboveThreshold, ''calibration.guard.drift_breach'')
      else if f64_lt (cm_confidence_pct x) (min_confidence_pct cfg) then Some (ConfidenceBelowThreshold, ''calibration.guard.confidence_breach'')
      else None)"

text \<open>The evidence repeats the metrics and the limits; \<open>ev_limits\<close> is the whole configuration.\<close>

definition evaluate_guard :: "CalibrationMetrics \<Rightarrow> CalibrationGuardState \<Rightarrow> CalibrationGuardDecision \<times> CalibrationGuardState" where
  "evaluate_guard x st =
     (let cfg = guard_config st;
          decide = (\<lambda>status reason kind fallback n.
            (\<lparr>gd_status = status, gd_reason_code = reason, breach_kind = kind, gd_fallback_stage = fallback,
               gd_evidence = \<lparr>ev_metrics = x, ev_limits = cfg, ev_breach_count = n, ev_fallback_triggered = (fallback \<noteq> None)\<rparr>\<rparr>,
             st\<lparr>consecutive_breach_count := n\<rparr>))
      in
        if cm_sample_count x < min_sample_count cfg then decide Watch ''calibration.guard.insufficient_samples'' None None 0
        else
          case find_breach cfg x of
            Some (kind, reason) \<Rightarrow>
              let n = min 255 (consecutive_breach_count st + 1)
              in decide Breach reason (Some kind) (if breach_consecutive_required cfg \<le> n then Some (cg_fallback_stage cfg) else None) n
          | None \<Rightarrow> decide Healthy ''calibration.guard.healthy'' None None 0)"

definition apply_calibration_guard ::
  "DegradationSignal \<Rightarrow> CalibrationGuardDecision \<Rightarrow> nat \<Rightarrow> DegradationStateMachine \<Rightarrow> DegradationTransition option \<times> DegradationStateMachine" where
  "apply_calibration_guard g decision timestamp_ms m =
     (case gd_fallback_stage decision of
        None \<Rightarrow> (None, m)
      | Some fallback \<Rightarrow>
          if stage_severity fallback \<le> stage_severity (dm_stage m) then (None, m)
          else
            let m' = m\<lparr>dm_stage := fallback, pending_recovery_observations := 0\<rparr> in
            (Some \<lparr>dt_from = dm_stage m, dt_to = dm_stage m', dt_changed = (dm_stage m' \<noteq> dm_stage m), dt_trigger = CalibrationBreach,
               dt_reason_code = ''degrade.transition.calibration_fallback'', dt_pending = pending_recovery_observations m',
               dt_status = status_of m' g (gd_reason_code decision) timestamp_ms\<rparr>, m'))"

section \<open>The pressure controller\<close>

record PressureSignal =
  cpu_pct :: f64
  memory_pct :: f64
  io_pct :: f64
  load_pct :: f64

definition new_signal :: "f64 \<Rightarrow> f64 \<Rightarrow> f64 \<Rightarrow> f64 \<Rightarrow> PressureSignal" where
  "new_signal cpu memory io load =
     \<lparr>cpu_pct = normalize_pct cpu, memory_pct = normalize_pct memory, io_pct = normalize_pct io, load_pct = normalize_pct load\<rparr>"

definition ewma :: "PressureSignal \<Rightarrow> PressureSignal \<Rightarrow> f64 \<Rightarrow> PressureSignal" where
  "ewma g prev alpha =
     (let a = (if is_finite alpha then f64_clamp alpha F_zero F_one else f64_of_decimal False 3 (-1));
          blend = (\<lambda>current prior. f64_mul_add a current (f64_mul (f64_sub F_one a) prior))
      in new_signal (blend (cpu_pct g) (cpu_pct prev)) (blend (memory_pct g) (memory_pct prev))
           (blend (io_pct g) (io_pct prev)) (blend (load_pct g) (load_pct prev)))"

definition pressure_score :: "PressureSignal \<Rightarrow> f64" where
  "pressure_score g = f64_max (f64_max (f64_max (cpu_pct g) (memory_pct g)) (io_pct g)) (load_pct g)"

record PressureSnapshot =
  snap_timestamp_ms :: nat
  snap_raw :: PressureSignal
  snap_smoothed :: PressureSignal
  snap_score :: f64
  snap_state :: PressureState

record PressureTransition =
  pt_from :: PressureState
  pt_to :: PressureState
  pt_changed :: bool
  pt_reason_code :: string
  pt_consecutive_required :: nat
  pt_consecutive_observed :: nat
  pt_snapshot :: PressureSnapshot

datatype PressureProfile = StrictProfile | PerformanceProfile | DegradedProfile

record PressureControllerConfig =
  pc_profile :: PressureProfile
  ewma_alpha :: f64
  hysteresis_pct :: f64
  consecutive_required :: nat

definition default_controller_config :: PressureControllerConfig where
  "default_controller_config = \<lparr>pc_profile = PerformanceProfile, ewma_alpha = f64_of_decimal False 3 (-1), hysteresis_pct = f64_of_int 5,
     consecutive_required = 3\<rparr>"

definition validate_controller :: "PressureControllerConfig \<Rightarrow> SearchError + PressureControllerConfig" where
  "validate_controller cfg =
     (if \<not> (f64_le F_zero (ewma_alpha cfg) \<and> f64_le (ewma_alpha cfg) F_one) then
        Err (InvalidConfig ''pressure.ewma_alpha'' (f64_to_string (ewma_alpha cfg)) ''must be between 0.0 and 1.0'')
      else if \<not> (f64_le F_zero (hysteresis_pct cfg) \<and> f64_le (hysteresis_pct cfg) (f64_of_int 30)) then
        Err (InvalidConfig ''pressure.hysteresis_pct'' (f64_to_string (hysteresis_pct cfg)) ''must be between 0.0 and 30.0'')
      else if consecutive_required cfg = 0 then
        Err (InvalidConfig ''pressure.consecutive_required'' ''0'' ''must be >= 1'')
      else Ok cfg)"

record PressureController =
  pc_config :: PressureControllerConfig
  current_state :: PressureState
  smoothed_signal :: "PressureSignal option"
  pending_state :: "PressureState option"
  pending_consecutive :: nat

definition new_pressure :: "PressureControllerConfig \<Rightarrow> SearchError + PressureController" where
  "new_pressure cfg = and_then (validate_controller cfg)
     (\<lambda>cfg. Ok \<lparr>pc_config = cfg, current_state = Normal, smoothed_signal = None, pending_state = None, pending_consecutive = 0\<rparr>)"

definition from_profile :: "PressureProfile \<Rightarrow> PressureController" where
  "from_profile profile = \<lparr>pc_config = default_controller_config\<lparr>pc_profile := profile\<rparr>, current_state = Normal, smoothed_signal = None,
     pending_state = None, pending_consecutive = 0\<rparr>"

record PressureThresholds =
  th_constrained :: f64
  th_degraded :: f64
  th_emergency :: f64

fun for_profile :: "PressureProfile \<Rightarrow> PressureThresholds" where
  "for_profile StrictProfile = \<lparr>th_constrained = f64_of_int 60, th_degraded = f64_of_int 75, th_emergency = f64_of_int 90\<rparr>"
| "for_profile PerformanceProfile = \<lparr>th_constrained = f64_of_int 70, th_degraded = f64_of_int 85, th_emergency = f64_of_int 95\<rparr>"
| "for_profile DegradedProfile = \<lparr>th_constrained = f64_of_int 80, th_degraded = f64_of_int 90, th_emergency = f64_of_int 98\<rparr>"

definition state_for_up :: "PressureThresholds \<Rightarrow> f64 \<Rightarrow> PressureState" where
  "state_for_up th score =
     (if f64_le (th_emergency th) score then Emergency
      else if f64_le (th_degraded th) score then Degraded
      else if f64_le (th_constrained th) score then Constrained
      else Normal)"

definition state_for_down :: "PressureThresholds \<Rightarrow> f64 \<Rightarrow> f64 \<Rightarrow> PressureState" where
  "state_for_down th score hysteresis =
     (let margin = f64_max hysteresis F_zero;
          emergency_down = f64_max (f64_sub (th_emergency th) margin) F_zero;
          degraded_down = f64_max (f64_sub (th_degraded th) margin) F_zero;
          constrained_down = f64_max (f64_sub (th_constrained th) margin) F_zero
      in
        if f64_le emergency_down score then Emergency
        else if f64_le degraded_down score then Degraded
        else if f64_le constrained_down score then Constrained
        else Normal)"

definition target_state :: "PressureController \<Rightarrow> f64 \<Rightarrow> PressureThresholds \<Rightarrow> PressureState" where
  "target_state pc score th =
     (let upward = state_for_up th score in
      if pressure_severity (current_state pc) < pressure_severity upward then upward
      else if pressure_severity upward < pressure_severity (current_state pc) then state_for_down th score (hysteresis_pct (pc_config pc))
      else current_state pc)"

text \<open>The counting of consecutive readings that call for another state.\<close>

definition settle :: "PressureState \<Rightarrow> PressureController \<Rightarrow> (bool \<times> string) \<times> PressureController" where
  "settle target pc =
     (if target = current_state pc then ((False, ''pressure.state.stable''), pc\<lparr>pending_state := None, pending_consecutive := 0\<rparr>)
      else
        let pc = (if pending_state pc = Some target then pc\<lparr>pending_consecutive := min 255 (pending_consecutive pc + 1)\<rparr>
                  else pc\<lparr>pending_state := Some target, pending_consecutive := 1\<rparr>)
        in
          if consecutive_required (pc_config pc) \<le> pending_consecutive pc then
            ((True, ''pressure.transition.applied''), pc\<lparr>current_state := target, pending_state := None, pending_consecutive := 0\<rparr>)
          else ((False, ''pressure.transition.pending''), pc))"

definition pressure_observe :: "PressureSignal \<Rightarrow> nat \<Rightarrow> PressureController \<Rightarrow> PressureTransition \<times> PressureController" where
  "pressure_observe raw timestamp_ms pc =
     (let smoothed = (case smoothed_signal pc of None \<Rightarrow> raw | Some prev \<Rightarrow> ewma raw prev (ewma_alpha (pc_config pc)));
          pc1 = pc\<lparr>smoothed_signal := Some smoothed\<rparr>;
          score = pressure_score smoothed;
          target = target_state pc1 score (for_profile (pc_profile (pc_config pc)))
      in case settle target pc1 of ((changed, reason), pc') \<Rightarrow>
        (\<lparr>pt_from = current_state pc, pt_to = current_state pc', pt_changed = changed, pt_reason_code = reason,
           pt_consecutive_required = consecutive_required (pc_config pc), pt_consecutive_observed = pending_consecutive pc',
           pt_snapshot = \<lparr>snap_timestamp_ms = timestamp_ms, snap_raw = raw, snap_smoothed = smoothed, snap_score = score, snap_state = current_state pc'\<rparr>\<rparr>,
         pc'))"

section \<open>Recovery\<close>

lemma stage_severity_inject [simp]: "stage_severity a = stage_severity b \<longleftrightarrow> a = b"
  by (cases a; cases b) simp_all

lemma severity_step: "a \<noteq> Full \<Longrightarrow> stage_severity (step_toward_full a) + 1 = stage_severity a"
  by (cases a) simp_all

lemma target_opens_gate:
  assumes "stage_severity (auto_target_stage g) < stage_severity a" "a = Paused \<longrightarrow> ds_pressure_state g \<noteq> Emergency"
  obtains gate where "recovery_gate n a = Some gate" "rg_required gate = n" "is_satisfied gate g"
  using assms by (cases a; cases "ds_pressure_state g") (auto simp: auto_target_stage_def is_satisfied_def split: if_splits)

lemma step_config [simp]: "dm_config (fst (degrade_step g m)) = dm_config m" "override_mode (fst (degrade_step g m)) = override_mode m"
  by (auto simp: degrade_step_def Let_def split: option.splits)

lemma observe_machine: "snd (degrade_observe g ts m) = fst (degrade_step g m)"
  by (simp add: degrade_observe_def split: prod.splits)

text \<open>What an observation does to the stage and to the count of healthy observations.\<close>

lemma auto_step:
  assumes "override_mode m = Auto" "dm_stage m = Paused \<longrightarrow> ds_pressure_state g \<noteq> Emergency"
    and n: "n = consecutive_healthy_required (dm_config m)" "n \<le> 255" "pending_recovery_observations m < n"
  shows "dm_stage (fst (degrade_step g m))
      = (let t = auto_target_stage g in
         if stage_severity t < stage_severity (dm_stage m) then
           (if pending_recovery_observations m + 1 = n then step_toward_full (dm_stage m) else dm_stage m)
         else t)"
    "pending_recovery_observations (fst (degrade_step g m))
      = (if stage_severity (auto_target_stage g) < stage_severity (dm_stage m) \<and> pending_recovery_observations m + 1 < n
         then pending_recovery_observations m + 1 else 0)"
proof -
  have "dm_stage (fst (degrade_step g m))
      = (let t = auto_target_stage g in
         if stage_severity t < stage_severity (dm_stage m) then
           (if pending_recovery_observations m + 1 = n then step_toward_full (dm_stage m) else dm_stage m)
         else t)
    \<and> pending_recovery_observations (fst (degrade_step g m))
      = (if stage_severity (auto_target_stage g) < stage_severity (dm_stage m) \<and> pending_recovery_observations m + 1 < n
         then pending_recovery_observations m + 1 else 0)"
  proof (cases "stage_severity (auto_target_stage g) < stage_severity (dm_stage m)")
    case True
    obtain gate where gate: "recovery_gate n (dm_stage m) = Some gate" "rg_required gate = n" "is_satisfied gate g"
      using target_opens_gate [OF True assms(2)] by blast
    show ?thesis using True gate assms by (simp add: degrade_step_def Let_def)
  next
    case False
    then show ?thesis using assms(1) by (auto simp: degrade_step_def Let_def not_less order_le_less)
  qed
  then show "dm_stage (fst (degrade_step g m))
      = (let t = auto_target_stage g in
         if stage_severity t < stage_severity (dm_stage m) then
           (if pending_recovery_observations m + 1 = n then step_toward_full (dm_stage m) else dm_stage m)
         else t)"
    "pending_recovery_observations (fst (degrade_step g m))
      = (if stage_severity (auto_target_stage g) < stage_severity (dm_stage m) \<and> pending_recovery_observations m + 1 < n
         then pending_recovery_observations m + 1 else 0)" by blast+
qed

abbreviation observed :: "(DegradationSignal \<times> nat) list \<Rightarrow> DegradationStateMachine \<Rightarrow> DegradationStateMachine" where
  "observed gs m \<equiv> fold (\<lambda>(g, ts) m. snd (degrade_observe g ts m)) gs m"

lemma observed_config [simp]: "dm_config (observed gs m) = dm_config m" "override_mode (observed gs m) = override_mode m"
  by (induction gs arbitrary: m) (auto simp: observe_machine)

lemma div_mod_Suc:
  assumes "0 < n"
  shows "Suc k mod n = (if Suc (k mod n) = n then 0 else Suc (k mod n))" "Suc k div n = (if Suc (k mod n) = n then Suc (k div n) else k div n)"
  using assms by (simp_all add: mod_Suc div_Suc)

text \<open>
  C27: Degradation. In the automatic mode (no override by an operator), with no healthy observation pending and a required number
  between 1 and 255: while the signals call for one and the same milder stage, the service climbs down to it one stage
  at a time, each after exactly as many observations as are required, and then stays. A service that is paused needs signals without
  the pressure of an emergency for this: under them its gate stays closed, although they call for a milder stage.
\<close>

theorem recovery_ladder:
  assumes "override_mode m = Auto" "pending_recovery_observations m = 0"
    and n: "n = consecutive_healthy_required (dm_config m)" "0 < n" "n \<le> 255"
    and t: "stage_severity t \<le> stage_severity (dm_stage m)" "\<forall>(g, ts) \<in> set gs. auto_target_stage g = t"
    and "dm_stage m = Paused \<longrightarrow> (\<forall>(g, ts) \<in> set gs. ds_pressure_state g \<noteq> Emergency)"
  shows "stage_severity (dm_stage (observed gs m)) = max (stage_severity t) (stage_severity (dm_stage m) - length gs div n)
    \<and> pending_recovery_observations (observed gs m) = (if dm_stage (observed gs m) = t then 0 else length gs mod n)"
  using t(2) assms(8)
proof (induction gs rule: rev_induct)
  case Nil
  then show ?case using assms(2) t(1) by simp
next
  case (snoc x gs)
  obtain g ts where x: "x = (g, ts)" by fastforce
  let ?m = "observed gs m"
  have IH: "stage_severity (dm_stage ?m) = max (stage_severity t) (stage_severity (dm_stage m) - length gs div n)"
    "pending_recovery_observations ?m = (if dm_stage ?m = t then 0 else length gs mod n)"
    using snoc by auto
  have target: "auto_target_stage g = t" using snoc.prems(1) x by simp
  have "dm_stage ?m = Paused \<Longrightarrow> dm_stage m = Paused" using IH(1) t(1) by (cases "dm_stage m"; cases t) (auto simp: max_def split: if_splits)
  then have open_gate: "dm_stage ?m = Paused \<longrightarrow> ds_pressure_state g \<noteq> Emergency" using snoc.prems(2) x by auto
  have pending: "pending_recovery_observations ?m < n" using IH(2) n(2) by simp
  have config: "override_mode ?m = Auto" "n = consecutive_healthy_required (dm_config ?m)" using assms(1) n(1) by simp_all
  note step = auto_step [OF config(1) open_gate config(2) n(3) pending, folded observe_machine [of g ts], unfolded target Let_def]
  show ?case
  proof (cases "dm_stage ?m = t")
    case True
    then have "stage_severity (dm_stage m) - length gs div n \<le> stage_severity t" using IH(1) by simp
    moreover have "length gs div n \<le> length (gs @ [x]) div n" by (intro div_le_mono) simp
    ultimately have "stage_severity (dm_stage m) - length (gs @ [x]) div n \<le> stage_severity t" by linarith
    then show ?thesis using step True by (simp add: x max_absorb1)
  next
    case False
    have "stage_severity (dm_stage ?m) \<noteq> stage_severity t" using False by simp
    then have above: "stage_severity t < stage_severity (dm_stage ?m)"
      and sev: "stage_severity (dm_stage ?m) = stage_severity (dm_stage m) - length gs div n" using IH(1) by (auto simp: max_def split: if_splits)
    have less: "length gs mod n < n" using n(2) by simp
    have full: "dm_stage ?m \<noteq> Full" using above by auto
    show ?thesis
      using step above sev IH(2) False x less severity_step [OF full] by (auto simp: div_mod_Suc [OF n(2)] max_def)
  qed
qed


text \<open>However the signals change, the service is never milder than the last one demands, and a number of observations cannot relax it by more
  stages than that number allows.\<close>

lemma signal_obeyed:
  assumes "override_mode m = Auto"
  shows "stage_severity (auto_target_stage g) \<le> stage_severity (dm_stage (fst (degrade_step g m)))"
  using assms by (cases "dm_stage m") (auto simp: degrade_step_def Let_def split: option.splits)

lemma relaxes_slowly:
  assumes "override_mode m = Auto" "pending_recovery_observations m = 0" "0 < consecutive_healthy_required (dm_config m)"
  shows "consecutive_healthy_required (dm_config m) * (stage_severity (dm_stage m) - stage_severity (dm_stage (observed gs m))) \<le> length gs"
proof -
  let ?n = "consecutive_healthy_required (dm_config m)"
  have "int ?n * (int (stage_severity (dm_stage m)) - int (stage_severity (dm_stage (observed gs m))))
    + int (pending_recovery_observations (observed gs m)) \<le> int (length gs)"
  proof (induction gs rule: rev_induct)
    case (snoc x gs)
    obtain g ts where x: "x = (g, ts)" by fastforce
    define M where "M = observed gs m"
    define M' where "M' = fst (degrade_step g M)"
    have M: "override_mode M = Auto" "consecutive_healthy_required (dm_config M) = ?n" using assms(1) by (simp_all add: M_def)
    have "stage_severity (dm_stage M) \<le> stage_severity (dm_stage M') \<and> pending_recovery_observations M' \<le> pending_recovery_observations M + 1
      \<or> stage_severity (dm_stage M) = stage_severity (dm_stage M') + 1 \<and> pending_recovery_observations M' = 0 \<and> ?n \<le> pending_recovery_observations M + 1"
      unfolding M'_def using M by (cases "dm_stage M") (auto simp: degrade_step_def Let_def split: option.splits)
    then have "int ?n * (int (stage_severity (dm_stage M)) - int (stage_severity (dm_stage M'))) + int (pending_recovery_observations M')
      \<le> int (pending_recovery_observations M) + 1"
    proof
      assume a: "stage_severity (dm_stage M) \<le> stage_severity (dm_stage M') \<and> pending_recovery_observations M' \<le> pending_recovery_observations M + 1"
      then have "int ?n * (int (stage_severity (dm_stage M)) - int (stage_severity (dm_stage M'))) \<le> 0" by (simp add: mult_nonneg_nonpos)
      then show ?thesis using a by linarith
    qed simp
    moreover have "observed (gs @ [x]) m = M'" by (simp add: x M_def M'_def observe_machine)
    ultimately show ?case using snoc.IH by (simp add: M_def [symmetric] algebra_simps)
  qed (simp add: assms(2))
  then have "int ?n * (int (stage_severity (dm_stage m)) - int (stage_severity (dm_stage (observed gs m)))) \<le> int (length gs)" by linarith
  then have "int (?n * (stage_severity (dm_stage m) - stage_severity (dm_stage (observed gs m)))) \<le> int (length gs)"
    by (cases "stage_severity (dm_stage m) \<le> stage_severity (dm_stage (observed gs m))") (simp_all add: of_nat_diff)
  then show ?thesis by linarith
qed

text \<open>The fallback of the calibration guard is applied whatever the operator has forced.\<close>

lemma fallback_overrides_operator:
  assumes "gd_fallback_stage d = Some LexicalOnly" "dm_stage m = Full" "override_mode m = ForceFull"
  shows "dm_stage (snd (apply_calibration_guard g d ts m)) = LexicalOnly"
    "dt_trigger (fst (degrade_observe g ts (snd (apply_calibration_guard g d ts m)))) = OperatorOverride
     \<and> dm_stage (snd (degrade_observe g ts (snd (apply_calibration_guard g d ts m)))) = Full"
  using assms by (simp_all add: apply_calibration_guard_def degrade_observe_def degrade_step_def Let_def)

text \<open>The guard falls back exactly when enough evaluations in a row were breaches.\<close>

definition breached :: "CalibrationGuardConfig \<Rightarrow> CalibrationMetrics \<Rightarrow> bool" where
  "breached cfg x \<longleftrightarrow> min_sample_count cfg \<le> cm_sample_count x \<and> find_breach cfg x \<noteq> None"

abbreviation guard_run :: "CalibrationMetrics list \<Rightarrow> CalibrationGuardState \<Rightarrow> CalibrationGuardState" where
  "guard_run xs st \<equiv> fold (\<lambda>x st. snd (evaluate_guard x st)) xs st"

lemma guard_counts:
  assumes "consecutive_breach_count st = 0"
  shows "guard_config (guard_run xs st) = guard_config st
    \<and> consecutive_breach_count (guard_run xs st) = min 255 (length (takeWhile (breached (guard_config st)) (rev xs)))"
proof (induction xs rule: rev_induct)
  case (snoc x xs)
  then show ?case by (auto simp: evaluate_guard_def Let_def breached_def split: option.splits)
qed (simp add: assms)

lemma falls_back_iff:
  assumes "consecutive_breach_count st = 0" "breach_consecutive_required (guard_config st) \<le> 255"
  shows "gd_fallback_stage (fst (evaluate_guard x (guard_run xs st)))
    = (if breached (guard_config st) x \<and> breach_consecutive_required (guard_config st) \<le> Suc (length (takeWhile (breached (guard_config st)) (rev xs)))
       then Some (cg_fallback_stage (guard_config st)) else None)"
  using guard_counts [OF assms(1), of xs] assms(2)
  by (auto simp: evaluate_guard_def Let_def breached_def split: option.splits)

section \<open>No flapping\<close>

text \<open>The state an observation calls for.\<close>

definition called_for :: "PressureSignal \<Rightarrow> PressureController \<Rightarrow> PressureState" where
  "called_for raw pc =
     (let smoothed = (case smoothed_signal pc of None \<Rightarrow> raw | Some prev \<Rightarrow> ewma raw prev (ewma_alpha (pc_config pc)))
      in target_state pc (pressure_score smoothed) (for_profile (pc_profile (pc_config pc))))"

text \<open>A run with the record of each observation, the last one first: the state before it and the state it calls for.\<close>

definition pressure_step ::
  "PressureSignal \<times> nat \<Rightarrow> PressureController \<times> (PressureState \<times> PressureState) list \<Rightarrow> PressureController \<times> (PressureState \<times> PressureState) list" where
  "pressure_step = (\<lambda>(raw, ts) (pc, hist). (snd (pressure_observe raw ts pc), (current_state pc, called_for raw pc) # hist))"

abbreviation streak :: "PressureState \<Rightarrow> PressureState \<Rightarrow> (PressureState \<times> PressureState) list \<Rightarrow> nat" where
  "streak st t hist \<equiv> length (takeWhile (\<lambda>e. e = (st, t)) hist)"

definition pending_ok :: "PressureController \<times> (PressureState \<times> PressureState) list \<Rightarrow> bool" where
  "pending_ok = (\<lambda>(pc, hist). case pending_state pc of
      None \<Rightarrow> \<forall>t. t \<noteq> current_state pc \<longrightarrow> streak (current_state pc) t hist = 0
    | Some t \<Rightarrow> t \<noteq> current_state pc \<and> pending_consecutive pc = streak (current_state pc) t hist
        \<and> 0 < pending_consecutive pc \<and> pending_consecutive pc < consecutive_required (pc_config pc))"

lemma called_for_smoothed:
  "target_state (pc\<lparr>smoothed_signal := Some (case smoothed_signal pc of None \<Rightarrow> raw | Some prev \<Rightarrow> ewma raw prev (ewma_alpha (pc_config pc)))\<rparr>)
     (pressure_score (case smoothed_signal pc of None \<Rightarrow> raw | Some prev \<Rightarrow> ewma raw prev (ewma_alpha (pc_config pc))))
     (for_profile (pc_profile (pc_config pc))) = called_for raw pc"
  by (simp add: called_for_def target_state_def Let_def)

lemma streak_one: "hist = [] \<or> hd hist \<noteq> (st, t) \<Longrightarrow> streak st t hist = 0"
  by (cases hist) auto

lemma streak_other: "0 < streak st t hist \<Longrightarrow> t' \<noteq> t \<Longrightarrow> streak st t' hist = 0"
  by (cases hist) (auto split: if_splits)


lemma pending_ok_smoothed: "pending_ok (pc\<lparr>smoothed_signal := x\<rparr>, hist) = pending_ok (pc, hist)"
  by (simp add: pending_ok_def split: option.split)

lemma settle_facts:
  assumes "pending_ok (pc, hist)" "n = consecutive_required (pc_config pc)" "0 < n" "n \<le> 255" "settle t pc = ((changed, reason), pc')"
  shows "changed \<longleftrightarrow> t \<noteq> current_state pc \<and> n \<le> Suc (streak (current_state pc) t hist)"
    "current_state pc' = (if changed then t else current_state pc)"
    "pending_ok (pc', (current_state pc, t) # hist)" "pc_config pc' = pc_config pc"
proof -
  let ?st = "current_state pc"
  have "(changed \<longleftrightarrow> t \<noteq> ?st \<and> n \<le> Suc (streak ?st t hist)) \<and> current_state pc' = (if changed then t else ?st)
    \<and> pending_ok (pc', (?st, t) # hist) \<and> pc_config pc' = pc_config pc"
  proof (cases "t = ?st")
    case True
    then show ?thesis using assms(5) by (auto simp: settle_def pending_ok_def)
  next
    case False
    let ?k = "streak ?st t hist"
    have k: "(if pending_state pc = Some t then min 255 (pending_consecutive pc + 1) else 1) = Suc ?k"
    proof (cases "pending_state pc")
      case None
      then show ?thesis using assms(1) False by (auto simp: pending_ok_def)
    next
      case (Some u)
      then have "u \<noteq> ?st" "pending_consecutive pc = streak ?st u hist" "0 < streak ?st u hist" "streak ?st u hist < n"
        using assms(1,2) by (auto simp: pending_ok_def)
      then show ?thesis using Some assms(4) streak_other [of ?st u hist t] by (cases "u = t") auto
    qed
    define pc2 where "pc2 = (if pending_state pc = Some t then pc\<lparr>pending_consecutive := min 255 (pending_consecutive pc + 1)\<rparr>
      else pc\<lparr>pending_state := Some t, pending_consecutive := 1\<rparr>)"
    have pc2: "pending_consecutive pc2 = Suc ?k" "pending_state pc2 = Some t" "current_state pc2 = ?st" "pc_config pc2 = pc_config pc"
      using k by (auto simp: pc2_def)
    have "settle t pc = (if n \<le> Suc ?k then ((True, ''pressure.transition.applied''), pc2\<lparr>current_state := t, pending_state := None, pending_consecutive := 0\<rparr>)
      else ((False, ''pressure.transition.pending''), pc2))"
      using False assms(2) pc2 by (simp add: settle_def Let_def pc2_def [symmetric])
    then show ?thesis using assms(5) False pc2 assms(2) by (auto simp: pending_ok_def split: if_splits)
  qed
  then show "changed \<longleftrightarrow> t \<noteq> ?st \<and> n \<le> Suc (streak ?st t hist)" "current_state pc' = (if changed then t else ?st)"
    "pending_ok (pc', (?st, t) # hist)" "pc_config pc' = pc_config pc" by blast+
qed

lemma pressure_step_facts:
  assumes "pending_ok (pc, hist)" "n = consecutive_required (pc_config pc)" "0 < n" "n \<le> 255"
  shows "pt_changed (fst (pressure_observe raw ts pc)) \<longleftrightarrow> called_for raw pc \<noteq> current_state pc \<and> n \<le> Suc (streak (current_state pc) (called_for raw pc) hist)"
    "current_state (snd (pressure_observe raw ts pc)) = (if pt_changed (fst (pressure_observe raw ts pc)) then called_for raw pc else current_state pc)"
    "pending_ok (pressure_step (raw, ts) (pc, hist))" "pc_config (snd (pressure_observe raw ts pc)) = pc_config pc"
proof -
  define pc1 where "pc1 = pc\<lparr>smoothed_signal := Some (case smoothed_signal pc of None \<Rightarrow> raw | Some prev \<Rightarrow> ewma raw prev (ewma_alpha (pc_config pc)))\<rparr>"
  obtain changed reason pc' where settle: "settle (called_for raw pc) pc1 = ((changed, reason), pc')" by (metis surj_pair)
  have same: "current_state pc1 = current_state pc" "pc_config pc1 = pc_config pc" by (simp_all add: pc1_def)
  have ok: "pending_ok (pc1, hist)" using assms(1) by (simp add: pc1_def pending_ok_smoothed)
  have observe: "pt_changed (fst (pressure_observe raw ts pc)) = changed" "snd (pressure_observe raw ts pc) = pc'"
    using settle by (simp_all add: pressure_observe_def Let_def pc1_def called_for_smoothed)
  note facts = settle_facts [OF ok _ assms(3,4) settle, unfolded same, OF assms(2)]
  show "pt_changed (fst (pressure_observe raw ts pc)) \<longleftrightarrow> called_for raw pc \<noteq> current_state pc \<and> n \<le> Suc (streak (current_state pc) (called_for raw pc) hist)"
    "current_state (snd (pressure_observe raw ts pc)) = (if pt_changed (fst (pressure_observe raw ts pc)) then called_for raw pc else current_state pc)"
    "pending_ok (pressure_step (raw, ts) (pc, hist))" "pc_config (snd (pressure_observe raw ts pc)) = pc_config pc"
    using facts by (simp_all add: observe pressure_step_def)
qed

lemma pressure_run_ok:
  assumes "pending_ok (pc, hist)" "0 < consecutive_required (pc_config pc)" "consecutive_required (pc_config pc) \<le> 255"
  shows "pending_ok (fold pressure_step raws (pc, hist)) \<and> pc_config (fst (fold pressure_step raws (pc, hist))) = pc_config pc"
proof (induction raws rule: rev_induct)
  case (snoc x raws)
  obtain raw ts where x: "x = (raw, ts)" by fastforce
  obtain pc' hist' where r: "fold pressure_step raws (pc, hist) = (pc', hist')" by fastforce
  show ?case using pressure_step_facts(3,4) [of pc' hist' _ raw ts, OF _ refl] snoc r assms(2,3) x by (simp add: pressure_step_def)
qed (simp add: assms)

text \<open>
  C32: Pressure. After any readings an observation changes the state exactly if it and at least as many observations
  before it, less one, as the configuration requires have in a row called for the same other state, with no change between them; then it
  changes to that state.
\<close>

theorem pressure_changes_after_streak:
  assumes "new_pressure cfg = Inr pc0" "consecutive_required cfg \<le> 255" "(pc, hist) = fold pressure_step raws (pc0, [])"
  shows "(pt_changed (fst (pressure_observe raw ts pc))
      \<longleftrightarrow> called_for raw pc \<noteq> current_state pc \<and> consecutive_required cfg \<le> Suc (streak (current_state pc) (called_for raw pc) hist))
    \<and> current_state (snd (pressure_observe raw ts pc)) = (if pt_changed (fst (pressure_observe raw ts pc)) then called_for raw pc else current_state pc)"
proof -
  have pc0: "pc0 = \<lparr>pc_config = cfg, current_state = Normal, smoothed_signal = None, pending_state = None, pending_consecutive = 0\<rparr>"
    "0 < consecutive_required cfg"
    using assms(1) by (auto simp: new_pressure_def validate_controller_def split: if_splits)
  have cfg: "pc_config pc0 = cfg" by (simp add: pc0(1))
  have "pending_ok (pc0, [])" by (simp add: pc0(1) pending_ok_def)
  from pressure_run_ok [OF this, of raws] have "pending_ok (pc, hist)" "pc_config pc = cfg"
    using pc0(2) cfg assms(2) by (simp_all add: assms(3) [symmetric])
  with pressure_step_facts(1,2) [of pc hist "consecutive_required cfg" raw ts] show ?thesis using pc0(2) assms(2) by simp
qed


section \<open>Hysteresis\<close>

text \<open>
  A margin that is wider than the distance of two thresholds reverses the hysteresis: with the largest margin the configuration allows, a
  reading below every threshold calls for a worse state than the current one.
\<close>

lemma wide_margin_escalates:
  assumes "current_state pc = Constrained" "hysteresis_pct (pc_config pc) = f64_of_int 30"
  shows "state_for_up (for_profile StrictProfile) (f64_of_int 58) = Normal"
    "target_state pc (f64_of_int 58) (for_profile StrictProfile) = Degraded"
proof -
  note vals = of_nat_exact(3) [of 30, simplified] of_nat_exact(3) [of 58, simplified] of_nat_exact(3) [of 60, simplified]
    of_nat_exact(3) [of 75, simplified] of_nat_exact(3) [of 90, simplified]
  note fins = of_nat_exact(2) [of 30, simplified] of_nat_exact(2) [of 58, simplified] of_nat_exact(2) [of 60, simplified]
    of_nat_exact(2) [of 75, simplified] of_nat_exact(2) [of 90, simplified]
  note down = sub_exact [of 30 90, simplified] sub_exact [of 30 75, simplified]
  have not_nan: "\<not> is_nan x" if "is_finite x" for x using that by (cases x) simp_all
  have max: "f64_max x F_zero = x" if "is_finite x" "0 < f64_val x" for x
    using that by (simp add: f64_max_def f64_le_iff not_nan)
  show up: "state_for_up (for_profile StrictProfile) (f64_of_int 58) = Normal"
    by (simp add: state_for_up_def f64_le_iff vals fins)
  have "state_for_down (for_profile StrictProfile) (f64_of_int 58) (f64_of_int 30) = Degraded"
    by (simp add: state_for_down_def Let_def max f64_le_iff vals fins down)
  then show "target_state pc (f64_of_int 58) (for_profile StrictProfile) = Degraded"
    using up assms by (simp add: target_state_def)
qed


section \<open>Examples\<close>

definition calm :: DegradationSignal where
  "calm = \<lparr>ds_pressure_state = Normal, quality_circuit_open = False, hard_pause_requested = False\<rparr>"

theorem recovery_ladder_witness:
  "stage_severity (dm_stage (observed (replicate 7 (calm, 0)) (default_machine\<lparr>dm_stage := Paused\<rparr>))) = 2"
proof -
  let ?m = "default_machine\<lparr>dm_stage := Paused\<rparr>" and ?gs = "replicate 7 (calm, 0 :: nat)"
  have "stage_severity (dm_stage (observed ?gs ?m)) = max (stage_severity Full) (stage_severity (dm_stage ?m) - length ?gs div 3)
    \<and> pending_recovery_observations (observed ?gs ?m) = (if dm_stage (observed ?gs ?m) = Full then 0 else length ?gs mod 3)"
    by (rule recovery_ladder)
      (simp_all add: default_machine_def default_degradation_config_def calm_def auto_target_stage_def)
  then have "stage_severity (dm_stage (observed ?gs ?m)) = max (stage_severity Full) (stage_severity (dm_stage ?m) - length ?gs div 3)" ..
  also have "\<dots> = 2" by (simp only: length_replicate) simp
  finally show ?thesis .
qed

definition sample_controller :: PressureController where
  "sample_controller = \<lparr>pc_config = \<lparr>pc_profile = StrictProfile, ewma_alpha = F_one, hysteresis_pct = F_zero, consecutive_required = 3\<rparr>,
     current_state = Normal, smoothed_signal = None, pending_state = None, pending_consecutive = 0\<rparr>"

definition high_load :: PressureSignal where
  "high_load = \<lparr>cpu_pct = f64_of_int 80, memory_pct = f64_of_int 80, io_pct = f64_of_int 80, load_pct = f64_of_int 80\<rparr>"

theorem pressure_changes_after_streak_witness:
  "\<not> pt_changed (fst (pressure_observe high_load 0 sample_controller))"
proof -
  have "new_pressure (pc_config sample_controller) = Inr sample_controller"
    using of_nat_exact [of 30] by (simp add: new_pressure_def validate_controller_def sample_controller_def f64_le_iff)
  from pressure_changes_after_streak [OF this, of sample_controller "[]" "[]" high_load 0] show ?thesis
    by (simp add: sample_controller_def)
qed

end
