(* ===== verification/Spec2Isabelle.thy ===== *)
theory Spec2Isabelle
  imports Commands_Tags Toon_Document Fs_Cache Fs_Queue Fs_Breaker Fs_Ranks Fs_Documents
    Fs_Replay Fs_Query Fs_History Fs_Repair Fs_Fingerprint Fs_Gate Fs_Scheduler Fs_Pressure
begin

text \<open>
  \<^bold>\<open>AgentRoom\<close> is a desktop program that watches the session logs of coding agents, shows each agent as a
  character with a state, and searches and tags old sessions. This development models its Rust
  backend (\<open>src/src-tauri/src\<close>), the TOON codec (\<open>src/search-backend/toon_rust\<close>), and the parts of the
  search engine that keep state or decide an order (\<open>src/search-backend/frankensearch/crates\<close>).

  \<^bold>\<open>How the parts work together.\<close> The watcher tails log files and hands each new line to the
  transcript parser; the events of a line go to the agent state manager, which updates the agent
  and emits payloads to the window; a timer task ticks the manager. The commands answer the window: they run the
  search program, list and resume sessions, call a model to tag a session, and store tags and layouts. TOON is the
  text format of the search program's answers. The search engine embeds documents from a queue into a vector index, whose
  appends go to a log; a search fuses ranked lists, caches data, and drops its slow tier behind a circuit breaker.

  \<^bold>\<open>Foundations.\<close>
  \<^item> \<open>Prelude\<close>: results as sums, \<open>and_then\<close> for the question mark operator, \<open>try_map\<close> for loops that can fail, association lists
    for hash maps, and two interfaces: \<open>invariant_machine\<close> (a step function that keeps an invariant
    along every run) and \<open>codec\<close> (a decoder that inverts an encoder).
  \<^item> \<open>Rust_Str\<close>: strings as lists of UTF-8 bytes, \<open>valid_utf8\<close>, the string methods and integer formatting.
  \<^item> \<open>F64\<close>, \<open>F64_Arith\<close>, \<open>F64_Order\<close>: binary64 values, reading and printing decimals, the four operations as one
    correct rounding of the exact result, \<open>total_cmp\<close>, and that rounding is monotone. \<open>f32\<close> occurs only as bit patterns.
  \<^item> \<open>Json\<close>: \<open>serde_json\<close> values and accessors. \<open>Rust_Ord\<close>: \<open>Ordering\<close>, the contracts of the sorting and selecting
    slice methods, and the interface \<open>total_comparator\<close>.

  \<^bold>\<open>The backend.\<close>
  \<^item> \<open>Transcript_Parser\<close> (\<open>transcript_parser.rs\<close>): lines to events; which lines give which events.
  \<^item> \<open>Agent_State\<close> (\<open>agent_state.rs\<close>): the record of an agent, one equation per event, the two timers. Reachable
    states keep the invariant (interpretation \<open>mgr\<close>); a tick emits exactly what is due; a tool start leads to a permission
    request; the end of a turn silences the timers.
  \<^item> \<open>File_Watcher\<close> (\<open>file_watcher.rs\<close>): incremental reading equals reading the whole file; the unwraps of the code
    do not panic; at most one session is live unless two starts overlap, and a cancelled one changes nothing. The step relation interleaves the
    background tasks and the pieces of the starts and stops.
  \<^item> \<open>Commands_Text\<close>, \<open>Commands_Sessions\<close>, \<open>Commands_Tags\<close> (\<open>commands.rs\<close>): finding the JSON object in a model's answer,
    session lists and workspaces, tags and layouts on a disk that can refuse a write. Processes, the file system,
    the clock and \<open>serde_json\<close> are parameters.

  \<^bold>\<open>The TOON codec.\<close>
  \<^item> \<open>Toon_Base\<close>, \<open>Toon_Encode\<close>, \<open>Toon_Parse\<close>, \<open>Toon_Decode\<close>, \<open>Toon_Build\<close> model \<open>lib.rs\<close>, \<open>shared\<close>, \<open>encode\<close> and \<open>decode\<close> function by
    function. The decoders call each other on fewer lines or shorter tokens; they have a fuel argument,
    and \<open>decode_always_returns\<close> shows that the fuel the entry points give is enough.
  \<^item> \<open>Toon_Tokens\<close>, \<open>Toon_Round\<close>, \<open>Toon_Document\<close>: decoding what was encoded with a positive indentation and without key
    folding gives the value back; \<open>no_indent_loses_nesting\<close> is why indentation is needed. The lemmas on lines
    are proved in the locale \<open>plain_writer\<close>, and the scanner's cursor is the interface \<open>line_cursor\<close>.

  \<^bold>\<open>The search engine.\<close>
  \<^item> \<open>Fs_Cache\<close> (\<open>cache.rs\<close>): the trait \<open>CachePolicy\<close> is the locale \<open>cache_policy\<close> with both implementations as
    interpretations; the cache refines a map, stays within its budget unless an entry grows, and its queues match its table.
  \<^item> \<open>Fs_Queue\<close> (\<open>queue.rs\<close>): one job per document, an exact index, bounds; the last submission wins.
  \<^item> \<open>Fs_Breaker\<close> (\<open>circuit_breaker.rs\<close>): the methods, and their atomic accesses for threads in any interleaving;
    transitions are counted once, an uninterrupted call refines to the method, and the breaker opens after a run of failures.
  \<^item> \<open>Fs_Rrf\<close> (\<open>rrf.rs\<close>, \<open>types.rs\<close>): the three loops of the fusion are interpretations of \<open>ranked_source\<close>; a page is a part of one
    sorted list, whatever the hash order and the sorting algorithm. \<open>Fs_Ranks\<close> (\<open>blend.rs\<close>): rank maps, inversions, Kendall's tau.
  \<^item> \<open>Fs_Bytes\<close>, \<open>Fs_Wal\<close> (\<open>wal.rs\<close>): integers and vectors in bytes; the log as bytes that a crash can cut
    anywhere, and that opening it gives exactly the batches that were written in full.
  \<^item> \<open>Fs_Index_File\<close>, \<open>Fs_Index\<close> (\<open>lib.rs\<close> of \<open>frankensearch-index\<close>): header, record table, string table and vectors; opening and
    writing; reading, binary search, tombstones, appends, vacuum and compaction on the two files.
    \<open>image\<close> is the layout of a list of records; what the operations read and write is stated by it.
  \<^item> \<open>Fs_Store\<close>, \<open>Fs_Documents\<close>: the index as a multiset of documents. The locale \<open>refining_machine\<close> carries single operations
    over to sequences; its interpretation \<open>store\<close> gives what any operations may do, restarts included, and \<open>exact_store\<close> the
    exact refinement when each deleted document is in the main file once at most. Two lemmas show the deletions that are not exact.
  \<^item> \<open>Fs_Replay\<close> (\<open>commit_replay.rs\<close>): commits applied once and without gaps however they are delivered, with what a consumer
    that can fail has seen (interpretation \<open>replay\<close>
    of \<open>invariant_machine\<close>), and batches replayed completely.
  \<^item> \<open>Fs_Generation\<close>, \<open>Fs_Activation\<close> (\<open>generation.rs\<close>, \<open>activation.rs\<close>): the checks of a manifest are equivalent to a
    declarative condition; activation changes all or nothing, with every artifact verified for manifests that ask for it, and the controller serves only what was accepted (interpretation \<open>controller\<close>).
  \<^item> \<open>Fs_History\<close> (\<open>time_travel.rs\<close>): the sorted list of retained generations and which of them answers a commit; the
    binary search of the slice is the interface \<open>binary_search\<close>, with the interpretation \<open>first\<close>.
  \<^item> \<open>Fs_Repair\<close> (\<open>repair.rs\<close>): reports of corruption, cycles of repairs and the state of the service, which leaves the
    healthy state for damage only and follows it; the budget of attempts; a complete cycle restores the service.
  \<^item> \<open>Fs_Query\<close> (\<open>parsed_query.rs\<close>, \<open>query_class.rs\<close>): words and exclusions of a query, printing and reading back, classes.
  \<^item> \<open>Fs_Filter\<close> (\<open>filter.rs\<close>): filters and chains; the answer by hash is the answer by identifier.
  \<^item> \<open>Fs_Canonical\<close>, \<open>Fs_Fingerprint\<close> (\<open>canonicalize.rs\<close>, \<open>fingerprint.rs\<close>): markdown, code blocks, links and blanks; the
    hashes of a text; that the decision in floating point to embed it again is the exact one; the semantic hash is a majority vote.
  \<^item> \<open>Fs_Gate\<close> (\<open>phase_gate.rs\<close>, \<open>incremental.rs\<close>): the sequential test that skips the slow tier, which decides in time and
    then stays; plans of a search while a query is typed.
  \<^item> \<open>Fs_Scheduler\<close> (\<open>concurrency.rs\<close> of \<open>frankensearch-fsfs\<close>): slots divided between ingestion, embedding and queries; every slot
    is used, permits keep to the capacity unless they are copied, no class starves with three slots or more and nothing
    cut from its demand, and two ways in which one does.
  \<^item> \<open>Fs_Pressure\<close> (\<open>pressure.rs\<close>): a stable state from noisy readings, which changes exactly after a streak of them; the stages of
    degradation, which recover one at a time; the calibration guard.

  \<^bold>\<open>Bounds.\<close> Lengths and offsets of files are natural numbers with the limits of the formats (16, 32 and 64 bits)
  as conditions or as the errors the code reports; counters that wrap do so in the model. Loops are structural
  recursions or functions with a measure.

  \<^bold>\<open>Not modelled.\<close> The Tauri shell and the frontend; stack and memory limits; failures of the file system other than torn
  writes in the search engine; arithmetic on \<open>f32\<close>, and with it the similarity search, the blended scores and
  the statistics; the asynchronous orchestration of searches, federated search and telemetry; embedding models, Tantivy and
  SQLite behind the search engine; the vendored programs and libraries \<open>cass\<close>, \<open>franken_agent_detection\<close>, \<open>asupersync\<close> and
  \<open>frankentui\<close>. Unicode normalisation and lower case, SHA-256, the JSON text of a manifest, the verifier of artifacts, the
  repair provider and the printing of a float with four decimals are arguments of the definitions that use them.
\<close>

end
